(* ===== verification/Scc_Prelude.thy ===== *)
theory Scc_Prelude
  imports Main "HOL-Library.Word"
begin

unbundle bit_operations_syntax

text \<open>
  Vocabulary shared by every component of the development: the machine integers of the crate,
  the atomic read-modify-write primitives of \<^verbatim>\<open>core::sync::atomic\<close> as functions on the value of a
  cell, the bit-scanning methods of the integer types that the bitmaps rely on, and generic
  lemmas on lists and words. Nothing in this theory models a file of the crate; it fixes the
  meaning of the part of the Rust standard library that the crate uses.
\<close>

section \<open>Machine integers\<close>

type_synonym u8 = "8 word"
type_synonym u32 = "32 word"
type_synonym u64 = "64 word"
type_synonym usize = "64 word"

text \<open>\<^verbatim>\<open>usize::MAX\<close> where sizes and indices are natural numbers.\<close>

definition USIZE_MAX :: nat where
  "USIZE_MAX = 2 ^ 64 - 1"

text \<open>Rules about single bits of words, and the unfolding rules of the word-level constants.\<close>

named_theorems bitmap_simps

section \<open>Atomic cells\<close>

text \<open>
  A cell is its current value. Each primitive returns the new value of the cell and the result
  handed to the caller; \<^term>\<open>Inr\<close> is \<^verbatim>\<open>Ok\<close> and \<^term>\<open>Inl\<close> is \<^verbatim>\<open>Err\<close>.
\<close>

definition compare_exchange :: "'a \<Rightarrow> 'a \<Rightarrow> 'a \<Rightarrow> 'a \<times> ('a + 'a)" where
  "compare_exchange cell current new =
     (if cell = current then (new, Inr cell) else (cell, Inl cell))"

definition fetch_update :: "'a \<Rightarrow> ('a \<Rightarrow> 'a option) \<Rightarrow> 'a \<times> ('a + 'a)" where
  "fetch_update cell f =
     (case f cell of None \<Rightarrow> (cell, Inl cell) | Some new \<Rightarrow> (new, Inr cell))"

definition is_ok :: "'e + 'a \<Rightarrow> bool" where
  "is_ok r = (case r of Inl _ \<Rightarrow> False | Inr _ \<Rightarrow> True)"

lemma is_ok_simps [simp]: "is_ok (Inr x)" "\<not> is_ok (Inl e)"
  by (simp_all add: is_ok_def)

lemma compare_exchange_same [simp]: "compare_exchange c c new = (new, Inr c)"
  by (simp add: compare_exchange_def)

lemma compare_exchange_ok_iff:
  "is_ok (snd (compare_exchange cell current new)) \<longleftrightarrow> cell = current"
  by (simp add: compare_exchange_def)

section \<open>Bit scanning\<close>

text \<open>\<^verbatim>\<open>1 << i\<close>.\<close>

definition shl1 :: "nat \<Rightarrow> 'a::len word" where
  "shl1 i = push_bit i 1"

text \<open>\<^verbatim>\<open>trailing_zeros\<close>, \<^verbatim>\<open>trailing_ones\<close>, \<^verbatim>\<open>count_ones\<close>: the index of the lowest set bit (the width
  when there is none), that of the lowest clear bit, and the number of set bits.\<close>

definition trailing_zeros :: "'a::len word \<Rightarrow> nat" where
  "trailing_zeros w =
     (case List.find (bit w) [0..<LENGTH('a)] of None \<Rightarrow> LENGTH('a) | Some i \<Rightarrow> i)"

definition trailing_ones :: "'a::len word \<Rightarrow> nat" where
  "trailing_ones w = trailing_zeros (NOT w)"

definition count_ones :: "'a::len word \<Rightarrow> nat" where
  "count_ones w = length (filter (bit w) [0..<LENGTH('a)])"

lemma bit_shl1 [bitmap_simps]:
  "bit (shl1 i :: 'a::len word) n \<longleftrightarrow> n = i \<and> i < LENGTH('a)"
  by (auto simp: shl1_def bit_simps)

lemma bit_below: "bit (w :: 'a::len word) n \<Longrightarrow> n < LENGTH('a)"
  by (rule bit_imp_le_length)

lemma bit_not_word [bitmap_simps]:
  "bit (NOT w :: 'a::len word) n \<longleftrightarrow> n < LENGTH('a) \<and> \<not> bit w n"
  by (auto simp: bit_simps)

declare bit_and_iff [bitmap_simps] bit_or_iff [bitmap_simps]

lemma find_upt_Some_iff:
  "List.find P [0..<n] = Some i \<longleftrightarrow> i < n \<and> P i \<and> (\<forall>j<i. \<not> P j)"
  by (auto simp: find_Some_iff)

lemma find_upt_None_iff: "List.find P [0..<n] = None \<longleftrightarrow> (\<forall>j<n. \<not> P j)"
  by (auto simp: find_None_iff)

lemma trailing_zeros_le: "trailing_zeros (w :: 'a::len word) \<le> LENGTH('a)"
  by (auto simp: trailing_zeros_def find_upt_Some_iff split: option.splits)

lemma trailing_zeros_eq_iff:
  "i < LENGTH('a) \<Longrightarrow> trailing_zeros (w :: 'a::len word) = i \<longleftrightarrow> bit w i \<and> (\<forall>j<i. \<not> bit w j)"
proof (cases "List.find (bit w) [0..<LENGTH('a)]")
  case None
  then have "trailing_zeros w = LENGTH('a)" by (simp add: trailing_zeros_def)
  moreover from None have "\<forall>j<LENGTH('a). \<not> bit w j" by (simp add: find_upt_None_iff)
  moreover assume "i < LENGTH('a)"
  ultimately show ?thesis by auto
next
  case (Some k)
  then have k: "bit w k" "\<forall>j<k. \<not> bit w j" by (simp_all add: find_upt_Some_iff)
  have "trailing_zeros w = k" using Some by (simp add: trailing_zeros_def)
  with k show ?thesis using linorder_neqE_nat [of i k] by blast
qed

lemma trailing_zeros_lt_iff:
  "trailing_zeros (w :: 'a::len word) < LENGTH('a) \<longleftrightarrow> w \<noteq> 0"
proof
  assume "trailing_zeros w < LENGTH('a)"
  then have "bit w (trailing_zeros w)"
    using trailing_zeros_eq_iff by blast
  then show "w \<noteq> 0" by auto
next
  assume "w \<noteq> 0"
  then obtain n where "bit w n" by (auto simp: bit_eq_iff)
  then obtain k where k: "List.find (bit w) [0..<LENGTH('a)] = Some k"
    using bit_below [of w n] by (cases "List.find (bit w) [0..<LENGTH('a)]") (auto simp: find_upt_None_iff)
  then have "k < LENGTH('a)" by (simp add: find_upt_Some_iff)
  with k show "trailing_zeros w < LENGTH('a)" by (simp add: trailing_zeros_def)
qed

lemma trailing_zeros_eq_length_iff:
  "trailing_zeros (w :: 'a::len word) = LENGTH('a) \<longleftrightarrow> w = 0"
  using trailing_zeros_lt_iff [of w] trailing_zeros_le [of w] by linarith

lemma bit_trailing_zeros: "(w :: 'a::len word) \<noteq> 0 \<Longrightarrow> bit w (trailing_zeros w)"
  using trailing_zeros_eq_iff trailing_zeros_lt_iff by blast

lemma not_bit_below_trailing_zeros:
  "j < trailing_zeros (w :: 'a::len word) \<Longrightarrow> \<not> bit w j"
proof
  assume j: "j < trailing_zeros w" and b: "bit w j"
  from b have "w \<noteq> 0" by auto
  then have "trailing_zeros w < LENGTH('a)" by (simp add: trailing_zeros_lt_iff)
  with j b show False using trailing_zeros_eq_iff by blast
qed

lemma trailing_zeros_le_bit: "bit (w :: 'a::len word) j \<Longrightarrow> trailing_zeros w \<le> j"
  using not_bit_below_trailing_zeros not_le by blast

lemma bit_below_trailing_ones: "j < trailing_ones (w :: 'a::len word) \<Longrightarrow> bit w j"
  using not_bit_below_trailing_zeros [of j "NOT w"] trailing_zeros_le [of "NOT w"]
  by (auto simp: trailing_ones_def bitmap_simps)

lemma not_bit_trailing_ones: "\<not> bit (w :: 'a::len word) (trailing_ones w)"
proof
  assume b: "bit w (trailing_ones w)"
  then have lt: "trailing_zeros (NOT w) < LENGTH('a)"
    by (auto simp: trailing_ones_def dest: bit_below)
  then have "bit (NOT w) (trailing_zeros (NOT w))"
    by (simp add: bit_trailing_zeros trailing_zeros_lt_iff)
  with b show False by (simp add: trailing_ones_def bitmap_simps)
qed

lemma trailing_ones_le: "trailing_ones (w :: 'a::len word) \<le> LENGTH('a)"
  by (simp add: trailing_ones_def trailing_zeros_le)

lemma trailing_ones_le_clear: "\<not> bit (w :: 'a::len word) j \<Longrightarrow> trailing_ones w \<le> j"
  using bit_below_trailing_ones not_le by blast

text \<open>Clearing the lowest set bit by subtraction, as the scanning loops of the crate do.\<close>

lemma sub_shl1_eq_clear:
  "bit (w :: 'a::len word) i \<Longrightarrow> w - shl1 i = w AND NOT (shl1 i)"
  by (rule disjunctive_diff) (auto simp: bitmap_simps)

lemma bit_clear_bit [bitmap_simps]:
  "bit (w AND NOT (shl1 i) :: 'a::len word) n \<longleftrightarrow> bit w n \<and> n \<noteq> i"
  by (auto simp: bitmap_simps dest: bit_below)

lemma bit_sub_shl1:
  "bit (w :: 'a::len word) i \<Longrightarrow> bit (w - shl1 i) n \<longleftrightarrow> bit w n \<and> n \<noteq> i"
  by (simp only: sub_shl1_eq_clear bit_clear_bit)

lemma bit_set_bit [bitmap_simps]:
  "bit (w OR shl1 i :: 'a::len word) n \<longleftrightarrow> bit w n \<or> n = i \<and> i < LENGTH('a)"
  by (auto simp: bitmap_simps)

lemma clear_bit_less:
  assumes "bit (w :: 'a::len word) i"
  shows "unat (w - shl1 i) < unat w"
proof -
  have "i < LENGTH('a)" using assms by (rule bit_below)
  then have "shl1 i \<noteq> (0 :: 'a word)"
    by (metis bit_shl1 bit_0_eq bot_apply bot_bool_def)
  moreover have "shl1 i \<le> w"
  proof -
    have "shl1 i = w AND shl1 i"
      using assms by (auto intro!: bit_word_eqI simp: bitmap_simps)
    then show ?thesis by (metis word_and_le2)
  qed
  ultimately have "unat (shl1 i :: 'a word) > 0" "unat (shl1 i :: 'a word) \<le> unat w"
    by (simp_all add: unat_gt_0 word_le_nat_alt)
  moreover have "unat (w - shl1 i) = unat w - unat (shl1 i :: 'a word)"
    using \<open>shl1 i \<le> w\<close> by (rule unat_sub)
  ultimately show ?thesis by linarith
qed

text \<open>The indices of the set bits in increasing order: what a scanning loop visits.\<close>

definition bit_indices :: "'a::len word \<Rightarrow> nat list" where
  "bit_indices w = filter (bit w) [0..<LENGTH('a)]"

lemma set_bit_indices [simp]: "set (bit_indices w) = {i. bit w i}"
  by (auto simp: bit_indices_def dest: bit_below)

lemma distinct_bit_indices [simp]: "distinct (bit_indices w)"
  by (simp add: bit_indices_def)

lemma count_ones_card: "count_ones w = card {i. bit w i}"
proof -
  have "count_ones w = length (bit_indices w)"
    by (simp add: count_ones_def bit_indices_def)
  also have "\<dots> = card (set (bit_indices w))"
    by (rule distinct_card [symmetric]) simp
  finally show ?thesis by simp
qed

lemma finite_bits [simp]: "finite {i. bit (w :: 'a::len word) i}"
  using List.finite_set [of "bit_indices w"] by simp

lemma count_ones_set:
  "\<not> bit (w :: 'a::len word) i \<Longrightarrow> i < LENGTH('a) \<Longrightarrow> count_ones (w OR shl1 i) = Suc (count_ones w)"
proof -
  assume i: "\<not> bit w i" "i < LENGTH('a)"
  have "{n. bit (w OR shl1 i) n} = insert i {n. bit w n}"
    using i by (auto simp: bitmap_simps)
  then show ?thesis using i by (simp add: count_ones_card)
qed

lemma count_ones_clear:
  "bit (w :: 'a::len word) i \<Longrightarrow> count_ones w = Suc (count_ones (w AND NOT (shl1 i)))"
proof -
  assume i: "bit w i"
  have "{n. bit w n} = insert i {n. bit (w AND NOT (shl1 i)) n}"
    using i by (auto simp: bitmap_simps dest: bit_below)
  moreover have "i \<notin> {n. bit (w AND NOT (shl1 i)) n}" by (simp add: bitmap_simps)
  ultimately show ?thesis by (simp add: count_ones_card)
qed

lemma count_ones_le: "count_ones (w :: 'a::len word) \<le> LENGTH('a)"
  by (simp add: count_ones_def order_trans [OF length_filter_le])

section \<open>Sizes\<close>

text \<open>\<^verbatim>\<open>usize::next_power_of_two\<close> on natural numbers, as a doubling loop.\<close>

function next_pow2_from :: "nat \<Rightarrow> nat \<Rightarrow> nat" where
  "next_pow2_from p n = (if 0 < p \<and> p < n then next_pow2_from (2 * p) n else p)"
  by pat_completeness auto
termination
  by (relation "measure (\<lambda>(p, n). n - p)") auto

declare next_pow2_from.simps [simp del]

definition next_power_of_two :: "nat \<Rightarrow> nat" where
  "next_power_of_two n = next_pow2_from 1 n"

text \<open>The number of significant bits: \<^verbatim>\<open>usize::BITS - n.leading_zeros()\<close>.\<close>

fun bit_length :: "nat \<Rightarrow> nat" where
  "bit_length n = (if n = 0 then 0 else Suc (bit_length (n div 2)))"

declare bit_length.simps [simp del]

lemma next_pow2_from_spec:
  "\<exists>j. next_pow2_from (2 ^ k) n = 2 ^ (k + j) \<and> n \<le> 2 ^ (k + j) \<and> (j = 0 \<or> 2 ^ (k + j) < 2 * n)"
proof (induction "n - 2 ^ k" arbitrary: k rule: less_induct)
  case less
  show ?case
  proof (cases "2 ^ k < n")
    case True
    have "n - 2 ^ Suc k < n - 2 ^ k" using True by (simp add: diff_less_mono2)
    from less(1) [OF this] obtain j where
      j: "next_pow2_from (2 ^ Suc k) n = 2 ^ (Suc k + j)" "n \<le> 2 ^ (Suc k + j)"
         "j = 0 \<or> 2 ^ (Suc k + j) < 2 * n" by blast
    have "next_pow2_from (2 ^ k) n = next_pow2_from (2 ^ Suc k) n"
      using True by (subst next_pow2_from.simps) simp
    with j True show ?thesis
      by (intro exI [of _ "Suc j"]) auto
  next
    case False
    then have "next_pow2_from (2 ^ k) n = 2 ^ k"
      by (subst next_pow2_from.simps) simp
    with False show ?thesis by (intro exI [of _ 0]) auto
  qed
qed

lemma next_power_of_two_spec:
  obtains k where "next_power_of_two n = 2 ^ k" "n \<le> 2 ^ k" "k = 0 \<or> 2 ^ k < 2 * n"
  using next_pow2_from_spec [of 0 n] by (auto simp: next_power_of_two_def)

lemma next_power_of_two_ge: "n \<le> next_power_of_two n"
  by (metis next_power_of_two_spec)

lemma bit_length_power: "bit_length (2 ^ k) = Suc k"
  by (induction k) (simp_all add: bit_length.simps)

section \<open>Lists\<close>

lemma nth_list_update_if:
  "i < length xs \<Longrightarrow> xs[i := x] ! j = (if j = i then x else xs ! j)"
  by (simp add: nth_list_update)

lemma take_drop_update: "i < length xs \<Longrightarrow> xs = take i xs @ xs ! i # drop (Suc i) xs"
  by (rule id_take_nth_drop)

end
