(* ===== verification/Ebr_Tag.thy ===== *)
theory Ebr_Tag
  imports Scc_Prelude
begin

text \<open>
  Tagged pointers: \<^verbatim>\<open>src/ebr/tag.rs\<close> and \<^verbatim>\<open>src/ebr/ptr.rs\<close>. A pointer is its address as a
  \<^typ>\<open>usize\<close>; the two least significant bits of an address carry a tag. The lemmas show that the
  tag and the address of a tagged pointer do not interfere.
\<close>

section \<open>Tag (src/ebr/tag.rs)\<close>

datatype tag = TagNone | First | Second | Both

fun tag_value :: "tag \<Rightarrow> usize" where
  "tag_value TagNone = 0"
| "tag_value First = 1"
| "tag_value Second = 2"
| "tag_value Both = 3"

definition into_tag :: "usize \<Rightarrow> tag" where
  "into_tag p =
     (case (p AND 1 = 1, p AND 2 = 2) of
        (False, False) \<Rightarrow> TagNone
      | (True, False) \<Rightarrow> First
      | (False, True) \<Rightarrow> Second
      | _ \<Rightarrow> Both)"

definition update_tag :: "usize \<Rightarrow> tag \<Rightarrow> usize" where
  "update_tag p t = ((p AND NOT 3) OR tag_value t)"

definition unset_tag :: "usize \<Rightarrow> usize" where
  "unset_tag p = p AND NOT 3"

definition tag_try_from :: "u8 \<Rightarrow> u8 + tag" where
  "tag_try_from val =
     (if val = 0 then Inr TagNone
      else if val = 1 then Inr First
      else if val = 2 then Inr Second
      else if val = 3 then Inr Both
      else Inl val)"

fun u8_from_tag :: "tag \<Rightarrow> u8" where
  "u8_from_tag TagNone = 0"
| "u8_from_tag First = 1"
| "u8_from_tag Second = 2"
| "u8_from_tag Both = 3"

section \<open>Ptr (src/ebr/ptr.rs)\<close>

record ptr =
  instance_ptr :: usize

definition ptr_null :: ptr where
  "ptr_null = \<lparr>instance_ptr = 0\<rparr>"

definition ptr_is_null :: "ptr \<Rightarrow> bool" where
  "ptr_is_null p \<longleftrightarrow> unset_tag (instance_ptr p) = 0"

definition ptr_tag :: "ptr \<Rightarrow> tag" where
  "ptr_tag p = into_tag (instance_ptr p)"

text \<open>The address a reference would be formed from: \<^term>\<open>None\<close> for a null pointer.\<close>

definition ptr_as_ref :: "ptr \<Rightarrow> usize option" where
  "ptr_as_ref p = (let a = unset_tag (instance_ptr p) in if a = 0 then None else Some a)"

text \<open>\<^verbatim>\<open>set_tag\<close> and \<^verbatim>\<open>unset_tag\<close> return the old tag and leave the updated pointer behind.\<close>

definition ptr_set_tag :: "ptr \<Rightarrow> tag \<Rightarrow> tag \<times> ptr" where
  "ptr_set_tag p t =
     (into_tag (instance_ptr p), p\<lparr>instance_ptr := update_tag (instance_ptr p) t\<rparr>)"

definition ptr_unset_tag :: "ptr \<Rightarrow> tag \<times> ptr" where
  "ptr_unset_tag p =
     (into_tag (instance_ptr p), p\<lparr>instance_ptr := unset_tag (instance_ptr p)\<rparr>)"

definition ptr_with_tag :: "ptr \<Rightarrow> tag \<Rightarrow> ptr" where
  "ptr_with_tag p t = \<lparr>instance_ptr = update_tag (instance_ptr p) t\<rparr>"

definition ptr_without_tag :: "ptr \<Rightarrow> ptr" where
  "ptr_without_tag p = \<lparr>instance_ptr = unset_tag (instance_ptr p)\<rparr>"

section \<open>Lemmas\<close>

text \<open>An address that an allocator can return for an instance: non-null and four-byte aligned.\<close>

definition aligned :: "usize \<Rightarrow> bool" where
  "aligned a \<longleftrightarrow> unset_tag a = a"

lemma bit_1_usize: "bit (1 :: usize) n \<longleftrightarrow> n = 0"
  by (simp add: bit_1_iff)

lemma bit_2_usize: "bit (2 :: usize) n \<longleftrightarrow> n = Suc 0"
proof -
  have "(2 :: usize) = shl1 (Suc 0)" by (simp add: shl1_def)
  then show ?thesis by (simp only: bit_shl1) simp
qed

lemma bit_3_usize: "bit (3 :: usize) n \<longleftrightarrow> n = 0 \<or> n = Suc 0"
proof -
  have "(3 :: usize) = 1 OR 2" by simp
  then show ?thesis by (simp only: bit_or_iff bit_1_usize bit_2_usize)
qed

lemmas bit_small_usize = bit_1_usize bit_2_usize bit_3_usize

lemma and_1_eq_iff: "(p :: usize) AND 1 = 1 \<longleftrightarrow> bit p 0"
  by (metis (no_types, opaque_lifting) bit_and_iff bit_1_usize bit_word_eqI)

lemma and_2_eq_iff: "(p :: usize) AND 2 = 2 \<longleftrightarrow> bit p 1"
  by (metis (no_types, opaque_lifting) bit_and_iff bit_2_usize bit_word_eqI One_nat_def)

lemma bit_unset_tag [bitmap_simps]: "bit (unset_tag p) n \<longleftrightarrow> bit p n \<and> 2 \<le> n"
proof -
  have "(n = 0 \<or> n = Suc 0) \<longleftrightarrow> \<not> 2 \<le> n" by auto
  then show ?thesis
    by (simp only: unset_tag_def bit_and_iff bit_not_word bit_small_usize) (auto dest: bit_below)
qed

lemma bit_tag_value [bitmap_simps]:
  "bit (tag_value t) n \<longleftrightarrow> n = 0 \<and> (t = First \<or> t = Both) \<or> n = 1 \<and> (t = Second \<or> t = Both)"
  by (cases t) (simp_all only: tag_value.simps bit_small_usize bit_0_eq bot_apply, simp_all)

lemma update_tag_alt: "update_tag p t = unset_tag p OR tag_value t"
  by (simp add: update_tag_def unset_tag_def)

lemma bit_update_tag [bitmap_simps]:
  "bit (update_tag p t) n \<longleftrightarrow> (if 2 \<le> n then bit p n else bit (tag_value t) n)"
  by (auto simp: update_tag_alt bitmap_simps)

lemma into_tag_bits:
  "into_tag p =
     (if bit p 0 then (if bit p 1 then Both else First) else (if bit p 1 then Second else TagNone))"
  by (simp add: into_tag_def and_1_eq_iff and_2_eq_iff)

lemma into_update_tag [simp]: "into_tag (update_tag p t) = t"
  by (cases t) (simp_all add: into_tag_bits bitmap_simps)

lemma unset_update_tag [simp]: "unset_tag (update_tag p t) = unset_tag p"
  by (auto intro!: bit_word_eqI simp: bitmap_simps)

lemma update_update_tag [simp]: "update_tag (update_tag p t) u = update_tag p u"
  by (auto intro!: bit_word_eqI simp: bitmap_simps)

lemma update_unset_tag [simp]: "update_tag (unset_tag p) t = update_tag p t"
  by (auto intro!: bit_word_eqI simp: bitmap_simps)

lemma unset_unset_tag [simp]: "unset_tag (unset_tag p) = unset_tag p"
  by (auto intro!: bit_word_eqI simp: bitmap_simps)

lemma into_unset_tag [simp]: "into_tag (unset_tag p) = TagNone"
  by (simp add: into_tag_bits bitmap_simps)

lemma update_own_tag [simp]: "update_tag p (into_tag p) = p"
proof (rule bit_word_eqI)
  fix n
  consider "n = 0" | "n = Suc 0" | "2 \<le> n" by linarith
  then show "bit (update_tag p (into_tag p)) n \<longleftrightarrow> bit p n"
    by cases (auto simp: bitmap_simps into_tag_bits)
qed

lemma tagged_eq_iff: "p = q \<longleftrightarrow> unset_tag p = unset_tag q \<and> into_tag p = into_tag q"
  by (metis update_own_tag update_unset_tag)

lemma aligned_unset [simp]: "aligned (unset_tag p)"
  by (simp add: aligned_def)

lemma aligned_0 [simp]: "aligned 0"
  by (simp add: aligned_def unset_tag_def)

lemma unset_tag_0 [simp]: "unset_tag 0 = 0"
  by (simp add: unset_tag_def)

lemma into_tag_aligned: "aligned a \<Longrightarrow> into_tag a = TagNone"
  by (metis aligned_def into_unset_tag)

lemma tag_value_less_4: "tag_value t < 4"
  by (cases t) simp_all

text \<open>C37. a tagged pointer is exactly an aligned address and a tag. Tagging an address and reading
  the pointer back gives the tag and the address, retagging forgets the old tag, and a pointer is
  determined by the two parts.\<close>

theorem tagged_pointer_roundtrip:
  assumes "aligned a" and "aligned a'"
  shows "into_tag (update_tag a t) = t \<and> unset_tag (update_tag a t) = a
     \<and> update_tag (update_tag a t) u = update_tag a u
     \<and> (update_tag a t = update_tag a' t' \<longleftrightarrow> a = a' \<and> t = t')"
proof -
  have "unset_tag (update_tag a t) = a" "unset_tag (update_tag a' t') = a'"
    using assms by (simp_all add: aligned_def)
  then show ?thesis by (metis into_update_tag update_update_tag)
qed

theorem tagged_pointer_roundtrip_witness:
  "aligned 4096 \<and> aligned 8192 \<and> into_tag (update_tag 4096 Second) = Second
     \<and> unset_tag (update_tag 4096 Second) = 4096
     \<and> update_tag 4096 Second \<noteq> update_tag 8192 Second"
proof -
  have h: "aligned 4096" "aligned 8192" by (simp_all add: aligned_def unset_tag_def)
  show ?thesis
    using h tagged_pointer_roundtrip [OF h, of Second First Second] by simp
qed

text \<open>the conversions between a latch byte and a tag are inverse to each other, and a byte is
  rejected exactly when it encodes no tag.\<close>

theorem tag_byte_roundtrip:
  "tag_try_from (u8_from_tag t) = Inr t
     \<and> (tag_try_from b = Inr t \<longleftrightarrow> u8_from_tag t = b)
     \<and> (tag_try_from b = Inl b \<longleftrightarrow> b > 3)"
proof -
  have small: "b > 3 \<longleftrightarrow> b \<noteq> 0 \<and> b \<noteq> 1 \<and> b \<noteq> 2 \<and> b \<noteq> 3"
  proof -
    have "b \<le> 3 \<longleftrightarrow> unat b \<le> 3" by (simp add: word_le_nat_alt)
    also have "\<dots> \<longleftrightarrow> unat b = 0 \<or> unat b = 1 \<or> unat b = 2 \<or> unat b = 3" by arith
    also have "\<dots> \<longleftrightarrow> b = 0 \<or> b = 1 \<or> b = 2 \<or> b = 3"
      by (simp add: word_unat_eq_iff)
    finally show ?thesis by (auto simp: not_le [symmetric])
  qed
  show ?thesis
    by (cases t) (auto simp: tag_try_from_def small)
qed

end
