(* ===== verification/Ebr_Shared.thy ===== *)
theory Ebr_Shared
  imports Ebr_Tag "HOL-Library.Multiset"
begin

text \<open>
  Reference-counted instances: \<^verbatim>\<open>src/ebr/ref_counted.rs\<close>, \<^verbatim>\<open>src/ebr/shared.rs\<close>,
  \<^verbatim>\<open>src/ebr/atomic_shared.rs\<close> and \<^verbatim>\<open>Ptr::get_shared\<close> of \<^verbatim>\<open>src/ebr/ptr.rs\<close>. The counter of an
  instance is odd while the instance is owned (\<open>2 * n - 1\<close> for \<open>n\<close> owners) and zero once the last
  owner has given it up. It shares its word with the link of the collector: \<^verbatim>\<open>reclaim\<close>
  (\<^verbatim>\<open>src/ebr/collector.rs\<close>) overwrites it with the address of the instance collected before, which is
  even. A \<^verbatim>\<open>Shared\<close> is the address of its instance; an \<^verbatim>\<open>AtomicShared\<close> is a cell that holds a tagged
  address. The step relation at the end interleaves the operations of any number of owners, with giving up the last
  reference and handing the instance over as separate steps, and the lemmas show that the word and the
  owners agree in every reachable state.
\<close>

section \<open>RefCounted (src/ebr/ref_counted.rs)\<close>

definition new_shared :: usize where
  "new_shared = 1"

definition new_unique :: usize where
  "new_unique = 0"

text \<open>The counter after the operation, and what the operation returns.\<close>

definition try_add_ref :: "usize \<Rightarrow> usize \<times> bool" where
  "try_add_ref cell =
     (let r = fetch_update cell (\<lambda>r. if r mod 2 = 1 then Some (r + 2) else None)
      in (fst r, is_ok (snd r)))"

definition get_mut_shared :: "usize \<Rightarrow> bool" where
  "get_mut_shared cell \<longleftrightarrow> cell = 1"

definition add_ref :: "usize \<Rightarrow> usize" where
  "add_ref current = current + 2"

definition drop_ref :: "usize \<Rightarrow> usize \<times> bool" where
  "drop_ref current = (let new = (if current \<le> 1 then 0 else current - 2) in (new, current = 1))"

section \<open>Shared (src/ebr/shared.rs)\<close>

text \<open>
  The instances: \<^term>\<open>ref_cnt h a\<close> is the first word of the union \<^verbatim>\<open>LinkOrRefCnt\<close> of the instance at
  address \<open>a\<close>, the counter or the address part of the link, \<^term>\<open>None\<close> where nothing is allocated;
  \<^term>\<open>current_link h th\<close> is \<^verbatim>\<open>current_instance_link\<close> of the collector of thread \<open>th\<close>, 0 for none, and
  \<^term>\<open>collected h\<close> are the addresses handed to a collector and not freed, oldest first.
\<close>

record heap =
  ref_cnt :: "usize \<Rightarrow> usize option"
  current_link :: "nat \<Rightarrow> usize"
  collected :: "usize list"

definition empty_heap :: heap where
  "empty_heap = \<lparr>ref_cnt = Map.empty, current_link = (\<lambda>_. 0), collected = []\<rparr>"

definition set_ref_cnt :: "usize \<Rightarrow> usize option \<Rightarrow> heap \<Rightarrow> heap" where
  "set_ref_cnt a c h = h\<lparr>ref_cnt := (ref_cnt h)(a := c)\<rparr>"

text \<open>\<^verbatim>\<open>Shared::new\<close> and \<^verbatim>\<open>new_unchecked\<close>; \<open>a\<close> is the address the allocator chose.\<close>

definition shared_new :: "usize \<Rightarrow> heap \<Rightarrow> heap" where
  "shared_new a h = set_ref_cnt a (Some new_shared) h"

definition shared_clone :: "usize \<Rightarrow> heap \<Rightarrow> heap" where
  "shared_clone a h = set_ref_cnt a (map_option add_ref (ref_cnt h a)) h"

definition shared_get_mut :: "usize \<Rightarrow> heap \<Rightarrow> bool" where
  "shared_get_mut a h \<longleftrightarrow> (case ref_cnt h a of None \<Rightarrow> False | Some c \<Rightarrow> get_mut_shared c)"

text \<open>\<^verbatim>\<open>guard.collect\<close> calls \<^verbatim>\<open>reclaim\<close> of the collector of the thread, which writes its current link
  through \<^verbatim>\<open>next_ptr_mut\<close> into the word of the counter.\<close>

definition pass_underlying_to_collector :: "nat \<Rightarrow> usize \<Rightarrow> heap \<Rightarrow> heap" where
  "pass_underlying_to_collector th a h =
     h\<lparr>ref_cnt := (ref_cnt h)(a := Some (current_link h th)),
       current_link := (current_link h)(th := a),
       collected := collected h @ [a]\<rparr>"

text \<open>\<^verbatim>\<open>drop_ref\<close> on the instance of a \<^verbatim>\<open>Shared\<close>.\<close>

definition shared_drop_ref :: "usize \<Rightarrow> heap \<Rightarrow> bool \<times> heap" where
  "shared_drop_ref a h =
     (case ref_cnt h a of
        None \<Rightarrow> (False, h)
      | Some c \<Rightarrow> (let (c', last) = drop_ref c in (last, set_ref_cnt a (Some c') h)))"

text \<open>\<^verbatim>\<open>Shared::release\<close> by thread \<open>th\<close>: whether the instance was passed to the collector.\<close>

definition shared_release :: "nat \<Rightarrow> usize \<Rightarrow> heap \<Rightarrow> bool \<times> heap" where
  "shared_release th a h =
     (case shared_drop_ref a h of
        (True, h) \<Rightarrow> (True, pass_underlying_to_collector th a h)
      | (False, h) \<Rightarrow> (False, h))"

text \<open>\<^verbatim>\<open>Drop for Shared\<close>: as \<^verbatim>\<open>release\<close>, with a guard of its own.\<close>

definition shared_drop :: "nat \<Rightarrow> usize \<Rightarrow> heap \<Rightarrow> heap" where
  "shared_drop th a h = snd (shared_release th a h)"

text \<open>\<^verbatim>\<open>Shared::drop_in_place\<close> frees the instance at once.\<close>

definition shared_drop_in_place :: "usize \<Rightarrow> heap \<Rightarrow> bool \<times> heap" where
  "shared_drop_in_place a h =
     (case ref_cnt h a of
        None \<Rightarrow> (False, h)
      | Some c \<Rightarrow>
          (let (c', last) = drop_ref c
           in if last then (True, set_ref_cnt a None h) else (False, set_ref_cnt a (Some c') h)))"

text \<open>\<^verbatim>\<open>Ptr::get_shared\<close>: ownership of the instance pointed to, unless its last owner is gone.\<close>

definition ptr_get_shared :: "ptr \<Rightarrow> heap \<Rightarrow> usize option \<times> heap" where
  "ptr_get_shared p h =
     (let a = unset_tag (instance_ptr p)
      in if a = 0 then (None, h)
         else case ref_cnt h a of
                None \<Rightarrow> (None, h)
              | Some c \<Rightarrow>
                  (let (c', ok) = try_add_ref c
                   in if ok then (Some a, set_ref_cnt a (Some c') h) else (None, h)))"

section \<open>AtomicShared (src/ebr/atomic_shared.rs)\<close>

type_synonym atomic_shared = usize

definition as_null :: atomic_shared where
  "as_null = 0"

definition as_from :: "usize \<Rightarrow> atomic_shared" where
  "as_from shared = shared"

definition as_is_null :: "atomic_shared \<Rightarrow> bool" where
  "as_is_null cell \<longleftrightarrow> unset_tag cell = 0"

definition as_load :: "atomic_shared \<Rightarrow> ptr" where
  "as_load cell = \<lparr>instance_ptr = cell\<rparr>"

definition as_tag :: "atomic_shared \<Rightarrow> tag" where
  "as_tag cell = into_tag cell"

text \<open>The tagged address stored for an optional owner: \<^verbatim>\<open>map_or_else(null_mut, get_underlying_ptr)\<close>.\<close>

definition underlying :: "usize option \<Rightarrow> usize" where
  "underlying s = (case s of None \<Rightarrow> 0 | Some a \<Rightarrow> a)"

definition non_null :: "usize \<Rightarrow> usize option" where
  "non_null a = (if a = 0 then None else Some a)"

definition as_swap :: "atomic_shared \<Rightarrow> usize option \<times> tag \<Rightarrow> atomic_shared \<times> usize option \<times> tag" where
  "as_swap cell new =
     (let desired = update_tag (underlying (fst new)) (snd new); prev = cell
      in (desired, non_null (unset_tag prev), into_tag prev))"

definition as_update_tag_if ::
  "atomic_shared \<Rightarrow> tag \<Rightarrow> (ptr \<Rightarrow> bool) \<Rightarrow> atomic_shared \<times> bool" where
  "as_update_tag_if cell t cond =
     (let r = fetch_update cell
                (\<lambda>p. if cond \<lparr>instance_ptr = p\<rparr> then Some (update_tag p t) else None)
      in (fst r, is_ok (snd r)))"

text \<open>\<^verbatim>\<open>compare_exchange\<close>: \<^term>\<open>Inr\<close> holds the previous owner and the new pointer, \<^term>\<open>Inl\<close> the
  untouched new owner and the pointer found.\<close>

definition as_compare_exchange ::
  "atomic_shared \<Rightarrow> ptr \<Rightarrow> usize option \<times> tag
     \<Rightarrow> atomic_shared \<times> ((usize option \<times> ptr) + (usize option \<times> ptr))" where
  "as_compare_exchange cell current new =
     (let desired = update_tag (underlying (fst new)) (snd new)
      in case compare_exchange cell (instance_ptr current) desired of
           (cell', Inr prev) \<Rightarrow> (cell', Inr (non_null (unset_tag prev), \<lparr>instance_ptr = desired\<rparr>))
         | (cell', Inl actual) \<Rightarrow> (cell', Inl (fst new, \<lparr>instance_ptr = actual\<rparr>)))"

text \<open>
  \<^verbatim>\<open>get_shared\<close> and \<^verbatim>\<open>clone\<close> reload the cell when the instance found in it could not be owned, and give
  up when the reload returns the same instance. With no other thread in between the loop ends in its
  first round or, started with another pointer, in the second; the relation below takes each attempt
  as a step of its own, with a pointer that was loaded earlier.
\<close>

function get_shared_loop :: "atomic_shared \<Rightarrow> usize \<Rightarrow> heap \<Rightarrow> usize option \<times> heap" where
  "get_shared_loop cell ptr h =
     (if ptr = 0 then (None, h)
      else case ptr_get_shared \<lparr>instance_ptr = ptr\<rparr> h of
             (Some a, h') \<Rightarrow> (Some a, h')
           | (None, h') \<Rightarrow>
               let ptr_again = unset_tag cell
               in if ptr = ptr_again then (None, h') else get_shared_loop cell ptr_again h')"
  by pat_completeness auto
termination
  by (relation "measure (\<lambda>(cell, ptr, h). if ptr = unset_tag cell then 0 else 1)") auto

declare get_shared_loop.simps [simp del]

definition as_get_shared :: "atomic_shared \<Rightarrow> heap \<Rightarrow> usize option \<times> heap" where
  "as_get_shared cell h = get_shared_loop cell (unset_tag cell) h"

text \<open>One round of \<^verbatim>\<open>clone\<close>, which keeps the tag of the pointer.\<close>

definition clone_attempt :: "usize \<Rightarrow> heap \<Rightarrow> atomic_shared option \<times> heap" where
  "clone_attempt ptr h =
     (case ptr_get_shared \<lparr>instance_ptr = ptr\<rparr> h of
        (Some a, h') \<Rightarrow> (Some ptr, h')
      | (None, h') \<Rightarrow> (None, h'))"

function clone_loop :: "atomic_shared \<Rightarrow> usize \<Rightarrow> heap \<Rightarrow> atomic_shared \<times> heap" where
  "clone_loop cell ptr h =
     (if unset_tag ptr = 0 then (as_null, h)
      else case clone_attempt ptr h of
             (Some c, h') \<Rightarrow> (c, h')
           | (None, h') \<Rightarrow>
               let ptr_again = cell
               in if unset_tag ptr = unset_tag ptr_again then (as_null, h') else clone_loop cell ptr_again h')"
  by pat_completeness auto
termination
  by (relation "measure (\<lambda>(cell, ptr, h). if unset_tag ptr = unset_tag cell then 0 else 1)") auto

declare clone_loop.simps [simp del]

definition as_clone :: "atomic_shared \<Rightarrow> heap \<Rightarrow> atomic_shared \<times> heap" where
  "as_clone cell h = clone_loop cell cell h"

definition as_into_shared :: "atomic_shared \<Rightarrow> usize option" where
  "as_into_shared cell = non_null (unset_tag cell)"

definition as_drop :: "nat \<Rightarrow> atomic_shared \<Rightarrow> heap \<Rightarrow> heap" where
  "as_drop th cell h =
     (case non_null (unset_tag cell) of None \<Rightarrow> h | Some a \<Rightarrow> shared_drop th a h)"

section \<open>Any number of owners\<close>

text \<open>
  The owners of instances: the \<^verbatim>\<open>Shared\<close> values that exist, as a multiset of addresses, and the
  \<^verbatim>\<open>AtomicShared\<close> cells that exist, as a list; \<open>leaving\<close> are the instances whose last owner has
  returned from \<^verbatim>\<open>drop_ref\<close> and not yet called the collector. One step is one access to a counter or a
  cell. \<^verbatim>\<open>clone\<close> and \<^verbatim>\<open>get_shared\<close> carry the bound that \<^verbatim>\<open>add_ref\<close> asserts: the counter has not reached
  its maximum. An attempt of \<^verbatim>\<open>get_shared\<close> or \<^verbatim>\<open>clone\<close> uses any pointer, in particular one loaded from a cell that
  has changed since; a failed attempt of \<^verbatim>\<open>clone\<close> may end with a null cell or be repeated. The drop of a
  cell takes the owner out of it, which is then released like any other. Other garbage deferred to a
  collector and the end of an epoch change the link of the collector, and collected instances that no
  collector holds as its current link may be freed.
\<close>

record shared_sys =
  sys_heap :: heap
  handles :: "usize multiset"
  cells :: "atomic_shared list"
  leaving :: "usize list"

definition init_shared_sys :: shared_sys where
  "init_shared_sys = \<lparr>sys_heap = empty_heap, handles = {#}, cells = [], leaving = []\<rparr>"

definition below_max :: "usize \<Rightarrow> heap \<Rightarrow> bool" where
  "below_max a h \<longleftrightarrow> (\<forall>c. ref_cnt h a = Some c \<longrightarrow> c \<le> - 3)"

definition optional_owner :: "usize option \<Rightarrow> usize multiset" where
  "optional_owner s = (case s of None \<Rightarrow> {#} | Some a \<Rightarrow> {#a#})"

inductive shared_step :: "shared_sys \<Rightarrow> shared_sys \<Rightarrow> bool" where
  step_new: "\<lbrakk>ref_cnt (sys_heap s) a = None; a \<noteq> 0; aligned a\<rbrakk> \<Longrightarrow>
     shared_step s (s\<lparr>sys_heap := shared_new a (sys_heap s), handles := add_mset a (handles s)\<rparr>)"
| step_clone: "\<lbrakk>a \<in># handles s; below_max a (sys_heap s)\<rbrakk> \<Longrightarrow>
     shared_step s (s\<lparr>sys_heap := shared_clone a (sys_heap s), handles := add_mset a (handles s)\<rparr>)"
| step_release: "\<lbrakk>a \<in># handles s; shared_drop_ref a (sys_heap s) = (b, h)\<rbrakk> \<Longrightarrow>
     shared_step s (s\<lparr>sys_heap := h, handles := handles s - {#a#},
                      leaving := (if b then a # leaving s else leaving s)\<rparr>)"
| step_hand_over: "a \<in> set (leaving s) \<Longrightarrow>
     shared_step s (s\<lparr>sys_heap := pass_underlying_to_collector th a (sys_heap s), leaving := remove1 a (leaving s)\<rparr>)"
| step_defer: "aligned b \<Longrightarrow>
     shared_step s (s\<lparr>sys_heap := (sys_heap s)\<lparr>current_link := (current_link (sys_heap s))(th := b)\<rparr>\<rparr>)"
| step_free: "\<lbrakk>a \<in> set (collected (sys_heap s)); \<forall>th. current_link (sys_heap s) th \<noteq> a\<rbrakk> \<Longrightarrow>
     shared_step s (s\<lparr>sys_heap := set_ref_cnt a None ((sys_heap s)\<lparr>collected := remove1 a (collected (sys_heap s))\<rparr>)\<rparr>)"
| step_drop_in_place: "a \<in># handles s \<Longrightarrow>
     shared_step s (s\<lparr>sys_heap := snd (shared_drop_in_place a (sys_heap s)),
                      handles := handles s - {#a#}\<rparr>)"
| step_get_shared: "below_max (unset_tag (instance_ptr p)) (sys_heap s) \<Longrightarrow>
     shared_step s (case ptr_get_shared p (sys_heap s) of (r, h) \<Rightarrow>
                      s\<lparr>sys_heap := h, handles := handles s + optional_owner r\<rparr>)"
| step_cell_null: "shared_step s (s\<lparr>cells := as_null # cells s\<rparr>)"
| step_cell_from: "a \<in># handles s \<Longrightarrow>
     shared_step s (s\<lparr>cells := as_from a # cells s, handles := handles s - {#a#}\<rparr>)"
| step_cell_swap: "\<lbrakk>i < length (cells s); optional_owner new \<subseteq># handles s\<rbrakk> \<Longrightarrow>
     shared_step s (case as_swap (cells s ! i) (new, t) of (cell, prev, _) \<Rightarrow>
       s\<lparr>cells := (cells s)[i := cell],
         handles := handles s - optional_owner new + optional_owner prev\<rparr>)"
| step_cell_cas: "\<lbrakk>i < length (cells s); optional_owner new \<subseteq># handles s\<rbrakk> \<Longrightarrow>
     shared_step s (case as_compare_exchange (cells s ! i) cur (new, t) of
       (cell, Inr (prev, _)) \<Rightarrow>
         s\<lparr>cells := (cells s)[i := cell],
           handles := handles s - optional_owner new + optional_owner prev\<rparr>
     | (cell, Inl _) \<Rightarrow> s\<lparr>cells := (cells s)[i := cell]\<rparr>)"
| step_cell_tag: "i < length (cells s) \<Longrightarrow>
     shared_step s (s\<lparr>cells := (cells s)[i := fst (as_update_tag_if (cells s ! i) t cond)]\<rparr>)"
| step_cell_clone: "\<lbrakk>below_max (unset_tag p) (sys_heap s); clone_attempt p (sys_heap s) = (r, h); cell = (case r of None \<Rightarrow> as_null | Some c \<Rightarrow> c)\<rbrakk> \<Longrightarrow>
     shared_step s (s\<lparr>sys_heap := h, cells := cell # cells s\<rparr>)"
| step_cell_into: "i < length (cells s) \<Longrightarrow>
     shared_step s (s\<lparr>cells := take i (cells s) @ drop (Suc i) (cells s),
       handles := handles s + optional_owner (as_into_shared (cells s ! i))\<rparr>)"
| step_cell_drop: "i < length (cells s) \<Longrightarrow>
     shared_step s (s\<lparr>cells := take i (cells s) @ drop (Suc i) (cells s),
       handles := handles s + optional_owner (non_null (unset_tag (cells s ! i)))\<rparr>)"

inductive shared_reachable :: "shared_sys \<Rightarrow> bool" where
  shared_start: "shared_reachable init_shared_sys"
| shared_next: "shared_reachable s \<Longrightarrow> shared_step s s' \<Longrightarrow> shared_reachable s'"

section \<open>The counter and the owners agree\<close>

text \<open>How many owners an address has.\<close>

definition owners :: "shared_sys \<Rightarrow> usize \<Rightarrow> nat" where
  "owners s a =
     (if a = 0 then 0 else count (handles s) a + count (mset (map unset_tag (cells s))) a)"

text \<open>The value of the counter of an instance with \<open>n\<close> owners.\<close>

definition counter :: "nat \<Rightarrow> usize" where
  "counter n = (if n = 0 then 0 else of_nat (2 * n - 1))"

text \<open>What the word of the instance at \<open>a\<close> holds, with \<open>n\<close> owners and the instances \<open>L\<close> on their way to a
  collector.\<close>

definition addr_ok :: "heap \<Rightarrow> usize list \<Rightarrow> usize \<Rightarrow> nat \<Rightarrow> bool" where
  "addr_ok h L a n \<longleftrightarrow>
     (if n \<noteq> 0
      then a \<noteq> 0 \<and> aligned a \<and> a \<notin> set L \<and> a \<notin> set (collected h) \<and> n \<le> 2 ^ 63 \<and> ref_cnt h a = Some (counter n)
      else if a \<in> set L then aligned a \<and> ref_cnt h a = Some 0
      else if a \<in> set (collected h) then \<exists>w. ref_cnt h a = Some w \<and> even w
      else ref_cnt h a = None)"

definition counts_ok :: "heap \<Rightarrow> usize list \<Rightarrow> (usize \<Rightarrow> nat) \<Rightarrow> bool" where
  "counts_ok h L own \<longleftrightarrow> distinct (L @ collected h) \<and> (\<forall>th. aligned (current_link h th)) \<and> (\<forall>a. addr_ok h L a (own a))"

lemma counts_okD:
  assumes "counts_ok h L own" "own a \<noteq> 0"
  shows "a \<noteq> 0" "aligned a" "a \<notin> set L" "a \<notin> set (collected h)" "own a \<le> 2 ^ 63"
    "ref_cnt h a = Some (counter (own a))"
  using assms unfolding counts_ok_def addr_ok_def by (metis (full_types))+

lemma counts_ok_zero:
  assumes "counts_ok h L own" "own a = 0"
  shows "a \<in> set L \<Longrightarrow> aligned a \<and> ref_cnt h a = Some 0"
    "a \<in> set (collected h) \<Longrightarrow> \<exists>w. ref_cnt h a = Some w \<and> even w"
    "a \<notin> set L \<Longrightarrow> a \<notin> set (collected h) \<Longrightarrow> ref_cnt h a = None"
proof -
  have a: "addr_ok h L a 0" using assms unfolding counts_ok_def by metis
  then show "a \<in> set L \<Longrightarrow> aligned a \<and> ref_cnt h a = Some 0" "a \<notin> set L \<Longrightarrow> a \<notin> set (collected h) \<Longrightarrow> ref_cnt h a = None"
    by (simp_all add: addr_ok_def)
  show "a \<in> set (collected h) \<Longrightarrow> \<exists>w. ref_cnt h a = Some w \<and> even w"
    using a assms(1) by (auto simp: addr_ok_def counts_ok_def split: if_splits)
qed

text \<open>An operation on one address leaves the others alone.\<close>

lemma counts_ok_upd:
  assumes "counts_ok h L own" "distinct (L' @ collected h')" "addr_ok h' L' a n" "\<forall>th. aligned (current_link h' th)"
    and "\<And>b. b \<noteq> a \<Longrightarrow> ref_cnt h' b = ref_cnt h b"
    and "\<And>b. b \<noteq> a \<Longrightarrow> b \<in> set (collected h') \<longleftrightarrow> b \<in> set (collected h)"
    and "\<And>b. b \<noteq> a \<Longrightarrow> b \<in> set L' \<longleftrightarrow> b \<in> set L"
  shows "counts_ok h' L' (own(a := n))"
proof -
  have "addr_ok h' L' b ((own(a := n)) b)" for b
  proof (cases "b = a")
    case True
    with assms(3) show ?thesis by simp
  next
    case False
    have "addr_ok h L b (own b)" using assms(1) by (simp add: counts_ok_def)
    then have "addr_ok h' L' b (own b)"
      by (simp only: addr_ok_def assms(5) [OF False] assms(6) [OF False] assms(7) [OF False])
    with False show ?thesis by simp
  qed
  with assms(2,4) show ?thesis by (simp add: counts_ok_def)
qed

lemma unat_counter: "n \<noteq> 0 \<Longrightarrow> n \<le> 2 ^ 63 \<Longrightarrow> unat (counter n) = 2 * n - 1"
  by (simp only: counter_def unat_of_nat if_False) (simp add: take_bit_nat_eq_self)

lemma counter_odd:
  assumes "n \<noteq> 0" "n \<le> 2 ^ 63"
  shows "counter n mod 2 = 1"
proof -
  have "unat (counter n mod 2) = (2 * n - 1) mod 2"
    by (simp only: unat_mod unat_counter [OF assms]) simp
  also have "\<dots> = 1" using assms(1) by presburger
  finally show ?thesis by (metis unat_1 word_unat_eq_iff)
qed

lemma counter_below_max:
  assumes "n \<noteq> 0" "n \<le> 2 ^ 63" "counter n \<le> - 3"
  shows "Suc n \<le> 2 ^ 63"
proof -
  have "2 * n - 1 \<le> unat (- 3 :: usize)"
    using assms(3) by (simp only: word_le_nat_alt unat_counter [OF assms(1,2)])
  then show ?thesis by simp
qed

lemma counter_plus_2: "n \<noteq> 0 \<Longrightarrow> counter n + 2 = counter (Suc n)"
  by (cases n) (simp_all add: counter_def)

lemma counter_eq_1_iff: "n \<noteq> 0 \<Longrightarrow> n \<le> 2 ^ 63 \<Longrightarrow> counter n = 1 \<longleftrightarrow> n = 1"
  using unat_counter [of n] by (auto simp: word_unat_eq_iff)

lemma counter_le_1_iff: "n \<noteq> 0 \<Longrightarrow> n \<le> 2 ^ 63 \<Longrightarrow> counter n \<le> 1 \<longleftrightarrow> n = 1"
  using unat_counter [of n] by (auto simp: word_le_nat_alt)

lemma drop_ref_counter:
  assumes "n \<noteq> 0" "n \<le> 2 ^ 63"
  shows "drop_ref (counter n) = (counter (n - 1), n = 1)"
proof (cases "n = 1")
  case True
  then show ?thesis by (simp add: drop_ref_def counter_def)
next
  case False
  with assms(1) obtain m where m: "n = Suc m" "m \<noteq> 0" by (cases n) auto
  have "counter n - 2 = counter (n - 1)"
    using counter_plus_2 [OF m(2)] m(1) by (simp add: algebra_simps)
  with False show ?thesis
    using counter_eq_1_iff [OF assms] counter_le_1_iff [OF assms]
    by (simp add: drop_ref_def Let_def)
qed

lemma try_add_ref_counter:
  "n \<noteq> 0 \<Longrightarrow> n \<le> 2 ^ 63 \<Longrightarrow> try_add_ref (counter n) = (counter (Suc n), True)"
  by (simp add: try_add_ref_def fetch_update_def counter_odd counter_plus_2)

lemma aligned_even: "aligned w \<Longrightarrow> even w"
proof -
  assume "aligned w"
  then have w: "w AND NOT 3 = w" by (simp only: aligned_def unset_tag_def)
  have "\<not> bit (NOT (3 :: usize)) 0" by simp
  then have "\<not> bit (w AND NOT 3) 0" by (simp only: bit_and_iff simp_thms)
  then show "even w" unfolding w by (simp only: bit_0 not_not)
qed

text \<open>An even word, a link or zero, is refused.\<close>

lemma try_add_ref_dead: "even w \<Longrightarrow> try_add_ref w = (w, False)"
  by (simp add: try_add_ref_def fetch_update_def even_iff_mod_2_eq_zero)

text \<open>The effect of each operation on a heap whose words are right.\<close>

lemma counts_ok_new:
  assumes "counts_ok h L own" "ref_cnt h a = None" "a \<noteq> 0" "aligned a"
  shows "counts_ok (shared_new a h) L (own(a := Suc (own a)))"
proof -
  have "own a = 0" using assms(1,2) counts_okD(6) by (metis option.distinct(1))
  moreover from this have "a \<notin> set (collected h)" "a \<notin> set L" using assms(1,2) counts_ok_zero(1,2) by force+
  ultimately show ?thesis using assms
    by (intro counts_ok_upd [OF assms(1)])
      (auto simp: counts_ok_def addr_ok_def shared_new_def set_ref_cnt_def new_shared_def counter_def)
qed

lemma counts_ok_add:
  assumes "counts_ok h L own" "own a \<noteq> 0" "below_max a h"
  shows "counts_ok (set_ref_cnt a (Some (counter (Suc (own a)))) h) L (own(a := Suc (own a)))"
proof -
  have "Suc (own a) \<le> 2 ^ 63"
    using counts_okD [OF assms(1,2)] assms(2,3) counter_below_max
    by (auto simp: below_max_def)
  with counts_okD [OF assms(1,2)] show ?thesis
    using assms(1) by (intro counts_ok_upd [OF assms(1)])
      (auto simp: counts_ok_def addr_ok_def set_ref_cnt_def)
qed

lemma counts_ok_clone:
  assumes "counts_ok h L own" "own a \<noteq> 0" "below_max a h"
  shows "counts_ok (shared_clone a h) L (own(a := Suc (own a)))"
  using counts_ok_add [OF assms] counts_okD(6) [OF assms(1,2)] counter_plus_2 [OF assms(2)]
  by (simp add: shared_clone_def add_ref_def)

lemma shared_drop_ref_owned:
  assumes "counts_ok h L own" "own a \<noteq> 0"
  shows "shared_drop_ref a h = (own a = 1, set_ref_cnt a (Some (counter (own a - 1))) h)"
  using counts_okD [OF assms] assms(2) by (simp add: shared_drop_ref_def drop_ref_counter)

lemma counts_ok_drop_ref:
  assumes "counts_ok h L own" "own a \<noteq> 0"
  shows "counts_ok (set_ref_cnt a (Some (counter (own a - 1))) h) (if own a = 1 then a # L else L) (own(a := own a - 1))"
  using counts_okD [OF assms] assms(1)
  by (intro counts_ok_upd [OF assms(1)]) (auto simp: counts_ok_def addr_ok_def set_ref_cnt_def counter_def)

lemma counts_ok_hand_over:
  assumes "counts_ok h L own" "a \<in> set L"
  shows "counts_ok (pass_underlying_to_collector th a h) (remove1 a L) own"
proof -
  have n: "own a = 0" using counts_okD(3) [OF assms(1), of a] assms(2) by auto
  then have al: "aligned a" using counts_ok_zero(1) [OF assms(1)] assms(2) by blast
  have d: "distinct L" "a \<notin> set (collected h)" "\<forall>th. aligned (current_link h th)" "distinct (collected h)" "set L \<inter> set (collected h) = {}"
    using assms by (auto simp: counts_ok_def)
  have ds: "distinct (remove1 a L @ collected h @ [a])" using d assms(2) by (auto dest: notin_set_remove1)
  have "counts_ok (pass_underlying_to_collector th a h) (remove1 a L) (own(a := 0))"
    by (rule counts_ok_upd [OF assms(1)])
      (use d al aligned_even ds in \<open>auto simp: addr_ok_def pass_underlying_to_collector_def\<close>)
  then show ?thesis using n by (metis fun_upd_triv)
qed

lemma addr_ok_link: "addr_ok (h\<lparr>current_link := f\<rparr>) L a n = addr_ok h L a n"
  by (simp add: addr_ok_def)

lemma counts_ok_link:
  "counts_ok h L own \<Longrightarrow> aligned b \<Longrightarrow> counts_ok (h\<lparr>current_link := (current_link h)(th := b)\<rparr>) L own"
  by (simp add: counts_ok_def addr_ok_link)

lemma counts_ok_free:
  assumes "counts_ok h L own" "a \<in> set (collected h)"
  shows "counts_ok (set_ref_cnt a None (h\<lparr>collected := remove1 a (collected h)\<rparr>)) L own"
proof -
  have n: "own a = 0" using counts_okD(4) [OF assms(1), of a] assms(2) by auto
  have "counts_ok (set_ref_cnt a None (h\<lparr>collected := remove1 a (collected h)\<rparr>)) L (own(a := 0))"
    by (rule counts_ok_upd [OF assms(1)])
      (use assms in \<open>auto simp: addr_ok_def counts_ok_def set_ref_cnt_def\<close>)
  then show ?thesis using n by (metis fun_upd_triv)
qed

lemma counts_ok_drop_in_place:
  assumes "counts_ok h L own" "own a \<noteq> 0"
  shows "counts_ok (snd (shared_drop_in_place a h)) L (own(a := own a - 1))"
  using counts_okD [OF assms] assms
  by (intro counts_ok_upd [OF assms(1)])
    (auto simp: shared_drop_in_place_def drop_ref_counter counts_ok_def addr_ok_def set_ref_cnt_def)

lemma ptr_get_shared_cases:
  assumes "counts_ok h L own" "unset_tag (instance_ptr p) = a"
  shows "ptr_get_shared p h =
    (if own a = 0 then (None, h) else (Some a, set_ref_cnt a (Some (counter (Suc (own a)))) h))"
proof (cases "own a = 0")
  case True
  have "ref_cnt h a = None \<or> (\<exists>w. ref_cnt h a = Some w \<and> even w)"
    using counts_ok_zero [OF assms(1) True] by (cases "a \<in> set L"; cases "a \<in> set (collected h)") auto
  then show ?thesis using True assms(2)
    by (auto simp: ptr_get_shared_def Let_def try_add_ref_dead)
next
  case False
  with counts_okD [OF assms(1) False] assms(2) show ?thesis
    by (simp add: ptr_get_shared_def try_add_ref_counter)
qed

section \<open>Every reachable state\<close>

definition shared_inv :: "shared_sys \<Rightarrow> bool" where
  "shared_inv s \<longleftrightarrow> counts_ok (sys_heap s) (leaving s) (owners s) \<and> 0 \<notin># handles s"

text \<open>The owners of a state as a function of its handles and cells.\<close>

definition own_of :: "usize multiset \<Rightarrow> atomic_shared list \<Rightarrow> usize \<Rightarrow> nat" where
  "own_of hs cs a = (if a = 0 then 0 else count hs a + count (mset (map unset_tag cs)) a)"

lemma owners_own_of: "owners s = own_of (handles s) (cells s)"
  by (simp add: owners_def own_of_def fun_eq_iff)

lemma own_of_add_handle: "a \<noteq> 0 \<Longrightarrow> own_of (add_mset a hs) cs = (own_of hs cs)(a := Suc (own_of hs cs a))"
  by (auto simp: own_of_def fun_eq_iff)

lemma own_of_del_handle:
  "a \<in># hs \<Longrightarrow> own_of (hs - {#a#}) cs = (own_of hs cs)(a := own_of hs cs a - 1)"
  by (auto simp: own_of_def fun_eq_iff)

lemma own_of_handle: "a \<in># hs \<Longrightarrow> 0 \<notin># hs \<Longrightarrow> own_of hs cs a \<noteq> 0"
  by (auto simp: own_of_def)

lemma own_of_optional:
  "own_of (hs + optional_owner (non_null a)) cs = own_of hs (a # cs)" if "aligned a"
  using that by (auto simp: own_of_def fun_eq_iff optional_owner_def non_null_def aligned_def)

lemma own_of_cell_cong:
  "mset (map unset_tag cs) = mset (map unset_tag cs') \<Longrightarrow> own_of hs cs = own_of hs cs'"
  by (simp only: own_of_def fun_eq_iff) simp

lemma mset_remove_nth:
  "i < length cs \<Longrightarrow> mset (map f cs) = add_mset (f (cs ! i)) (mset (map f (take i cs @ drop (Suc i) cs)))"
  by (subst id_take_nth_drop [of i cs]) simp_all

lemma own_of_nth:
  "i < length cs \<Longrightarrow> own_of hs cs = own_of hs (cs ! i # take i cs @ drop (Suc i) cs)"
  by (rule own_of_cell_cong) (simp only: mset_remove_nth, simp)

lemma own_of_set_nth:
  "i < length cs \<Longrightarrow> own_of hs (cs[i := c]) = own_of hs (c # take i cs @ drop (Suc i) cs)"
  by (rule own_of_cell_cong) (simp add: upd_conv_take_nth_drop)

lemma own_of_Cons_unset: "unset_tag c = unset_tag d \<Longrightarrow> own_of hs (c # cs) = own_of hs (d # cs)"
  by (simp add: own_of_def fun_eq_iff)

lemma own_of_new_cell:
  assumes "optional_owner new \<subseteq># hs" "\<forall>a. new = Some a \<longrightarrow> aligned a"
  shows "own_of (hs - optional_owner new) (update_tag (underlying new) t # cs) = own_of hs cs"
  using assms by (auto simp: own_of_def fun_eq_iff optional_owner_def underlying_def aligned_def
      split: option.splits)

lemma aligned_handle: "shared_inv s \<Longrightarrow> a \<in># handles s \<Longrightarrow> aligned a"
  unfolding shared_inv_def owners_own_of using counts_okD(2) own_of_handle by blast

lemma shared_inv_parts:
  "shared_inv \<lparr>sys_heap = h, handles = hs, cells = cs, leaving = L\<rparr> \<longleftrightarrow> counts_ok h L (own_of hs cs) \<and> 0 \<notin># hs"
  by (simp add: shared_inv_def owners_own_of)

lemma own_of_null [simp]: "own_of hs (0 # cs) = own_of hs cs"
  by (simp add: own_of_def fun_eq_iff)

lemma own_of_exchange:
  assumes "i < length cs" "optional_owner new \<subseteq># hs" "\<forall>a. new = Some a \<longrightarrow> aligned a"
  shows "own_of (hs - optional_owner new + optional_owner (non_null (unset_tag (cs ! i))))
           (cs[i := update_tag (underlying new) t]) = own_of hs cs"
proof -
  let ?H = "hs - optional_owner new" and ?rest = "take i cs @ drop (Suc i) cs"
    and ?u = "update_tag (underlying new) t" and ?c = "unset_tag (cs ! i)"
  have "own_of (?H + optional_owner (non_null ?c)) (cs[i := ?u]) = own_of ?H (?c # cs[i := ?u])"
    by (rule own_of_optional) simp
  also have "\<dots> = own_of ?H (?u # ?c # ?rest)"
    by (rule own_of_cell_cong) (simp add: assms(1) upd_conv_take_nth_drop)
  also have "\<dots> = own_of hs (?c # ?rest)"
    by (rule own_of_new_cell) (use assms in auto)
  also have "\<dots> = own_of hs (cs ! i # ?rest)"
    by (rule own_of_Cons_unset) simp
  also have "\<dots> = own_of hs cs" by (rule own_of_nth [symmetric]) fact
  finally show ?thesis .
qed

lemma zero_not_optional [simp]: "0 \<notin># optional_owner (non_null a)"
  by (simp add: optional_owner_def non_null_def)

lemma new_aligned:
  "shared_inv s \<Longrightarrow> optional_owner new \<subseteq># handles s \<Longrightarrow> \<forall>a. new = Some a \<longrightarrow> aligned a"
  using aligned_handle [of s] by (auto simp: optional_owner_def)

lemma shared_inv_exchange:
  assumes "shared_inv s" "i < length (cells s)" "optional_owner new \<subseteq># handles s"
  shows "shared_inv (s\<lparr>cells := (cells s)[i := update_tag (underlying new) t],
    handles := handles s - optional_owner new + optional_owner (non_null (unset_tag (cells s ! i)))\<rparr>)"
  using assms own_of_exchange [OF assms(2,3) new_aligned [OF assms(1,3)]]
  by (auto simp: shared_inv_def owners_own_of dest: in_diffD)

lemma shared_inv_retag:
  assumes "shared_inv s" "i < length (cells s)" "unset_tag c = unset_tag (cells s ! i)"
  shows "shared_inv (s\<lparr>cells := (cells s)[i := c]\<rparr>)"
  using assms own_of_Cons_unset [OF assms(3)]
  by (simp add: shared_inv_def owners_own_of own_of_set_nth own_of_nth [of i "cells s"])

lemma counts_ok_get_shared:
  assumes "counts_ok h L (own_of hs cs)" "below_max (unset_tag (instance_ptr p)) h"
    and "ptr_get_shared p h = (r, h')"
  shows "counts_ok h' L (own_of (hs + optional_owner r) cs) \<and> 0 \<notin># optional_owner r"
proof (cases "own_of hs cs (unset_tag (instance_ptr p)) = 0")
  case True
  then have "(r, h') = (None, h)" using ptr_get_shared_cases [OF assms(1) refl] assms(3) by simp
  then show ?thesis using assms(1) by (simp add: optional_owner_def)
next
  case False
  let ?a = "unset_tag (instance_ptr p)"
  have "?a \<noteq> 0" by (rule counts_okD(1) [OF assms(1) False])
  moreover have "r = Some ?a"
    "h' = set_ref_cnt ?a (Some (counter (Suc (own_of hs cs ?a)))) h"
    using ptr_get_shared_cases [OF assms(1) refl] assms(3) False by simp_all
  ultimately show ?thesis
    using counts_ok_add [OF assms(1) False assms(2)]
    by (simp add: optional_owner_def own_of_add_handle)
qed

lemma own_of_take_out:
  assumes "i < length cs"
  shows "own_of (hs + optional_owner (non_null (unset_tag (cs ! i)))) (take i cs @ drop (Suc i) cs) = own_of hs cs"
  by (simp only: own_of_nth [OF assms, of hs] own_of_optional aligned_unset) (rule own_of_Cons_unset, simp)

lemma shared_step_inv: "shared_step s s' \<Longrightarrow> shared_inv s \<Longrightarrow> shared_inv s'"
proof (induction rule: shared_step.induct)
  case (step_new s a)
  then show ?case
    using counts_ok_new [of "sys_heap s" "leaving s" "owners s" a]
    by (simp add: shared_inv_def owners_own_of own_of_add_handle)
next
  case (step_clone a s)
  then have "a \<noteq> 0" "owners s a \<noteq> 0"
    by (auto simp: shared_inv_def owners_own_of own_of_handle)
  with step_clone show ?case
    using counts_ok_clone [of "sys_heap s" "leaving s" "owners s" a]
    by (simp add: shared_inv_def owners_own_of own_of_add_handle)
next
  case (step_release a s b h)
  then have n: "owners s a \<noteq> 0" and inv: "counts_ok (sys_heap s) (leaving s) (owners s)"
    by (auto simp: shared_inv_def owners_own_of own_of_handle)
  with step_release(2) have "b = (owners s a = 1)" "h = set_ref_cnt a (Some (counter (owners s a - 1))) (sys_heap s)"
    using shared_drop_ref_owned [OF inv n] by simp_all
  with counts_ok_drop_ref [OF inv n] step_release(1,3) show ?case
    by (auto simp: shared_inv_def owners_own_of own_of_del_handle dest: in_diffD)
next
  case (step_hand_over a s th)
  then show ?case using counts_ok_hand_over [of "sys_heap s" "leaving s" "owners s" a th]
    by (simp add: shared_inv_def owners_own_of)
next
  case (step_defer b s th)
  then show ?case using counts_ok_link [of "sys_heap s" "leaving s" "owners s" b th]
    by (simp add: shared_inv_def owners_own_of)
next
  case (step_free a s)
  then show ?case using counts_ok_free [of "sys_heap s" "leaving s" "owners s" a]
    by (simp add: shared_inv_def owners_own_of)
next
  case (step_drop_in_place a s)
  then have "owners s a \<noteq> 0" by (auto simp: shared_inv_def owners_own_of own_of_handle)
  with step_drop_in_place show ?case
    using counts_ok_drop_in_place [of "sys_heap s" "leaving s" "owners s" a]
    by (auto simp: shared_inv_def owners_own_of own_of_del_handle dest: in_diffD)
next
  case (step_get_shared p s)
  then show ?case
    using counts_ok_get_shared [of "sys_heap s" "leaving s" "handles s" "cells s" p]
    by (auto simp: shared_inv_def owners_own_of split: prod.splits)
next
  case (step_cell_null s)
  then show ?case
    by (simp add: shared_inv_def owners_own_of as_null_def)
next
  case (step_cell_from a s)
  then have al: "aligned a" by (auto intro: aligned_handle)
  have "own_of (handles s - {#a#}) (a # cells s) = own_of (handles s) (cells s)"
    using step_cell_from(1) al by (auto simp: own_of_def fun_eq_iff aligned_def)
  with step_cell_from show ?case
    by (auto simp: shared_inv_def owners_own_of as_from_def dest: in_diffD)
next
  case (step_cell_swap i s new t)
  then show ?case
    using shared_inv_exchange [of s i new t] by (simp add: as_swap_def Let_def)
next
  case (step_cell_cas i s new cur t)
  then show ?case
    using shared_inv_exchange [of s i new t]
    by (cases "cells s ! i = instance_ptr cur")
      (simp_all add: as_compare_exchange_def compare_exchange_def Let_def)
next
  case (step_cell_tag i s t cond)
  have "unset_tag (fst (as_update_tag_if (cells s ! i) t cond)) = unset_tag (cells s ! i)"
    by (simp add: as_update_tag_if_def fetch_update_def)
  with step_cell_tag show ?case by (intro shared_inv_retag)
next
  case (step_cell_clone p s r h cell)
  obtain r' where r: "ptr_get_shared \<lparr>instance_ptr = p\<rparr> (sys_heap s) = (r', h)" "r = (case r' of None \<Rightarrow> None | Some _ \<Rightarrow> Some p)"
    using step_cell_clone(2) by (auto simp: clone_attempt_def split: prod.splits option.splits)
  have inv: "counts_ok h (leaving s) (own_of (handles s + optional_owner r') (cells s))"
    using counts_ok_get_shared [OF _ _ r(1), of "leaving s" "handles s" "cells s"] step_cell_clone
    by (simp add: shared_inv_def owners_own_of)
  have r_cases: "r' = None \<or> r' = Some (unset_tag p) \<and> unset_tag p \<noteq> 0"
    using r(1) by (auto simp: ptr_get_shared_def Let_def split: if_splits option.splits prod.splits)
  moreover have "own_of (handles s) (p # cells s) = own_of (add_mset (unset_tag p) (handles s)) (cells s)"
    by (simp add: own_of_def fun_eq_iff)
  ultimately show ?case
    using step_cell_clone(3,4) inv r(2) by (auto simp: shared_inv_def owners_own_of as_null_def optional_owner_def)
next
  case (step_cell_into i s)
  have "own_of (handles s + optional_owner (non_null (unset_tag (cells s ! i))))
      (take i (cells s) @ drop (Suc i) (cells s)) = own_of (handles s) (cells s)"
    by (rule own_of_take_out [OF step_cell_into(1)])
  with step_cell_into show ?case
    by (simp add: shared_inv_def owners_own_of as_into_shared_def)
next
  case (step_cell_drop i s)
  have "own_of (handles s + optional_owner (non_null (unset_tag (cells s ! i))))
      (take i (cells s) @ drop (Suc i) (cells s)) = own_of (handles s) (cells s)"
    by (rule own_of_take_out [OF step_cell_drop(1)])
  with step_cell_drop show ?case by (simp add: shared_inv_def owners_own_of)
qed

lemma shared_init_inv: "shared_inv init_shared_sys"
  by (simp add: init_shared_sys_def shared_inv_parts counts_ok_def addr_ok_def empty_heap_def own_of_def)

lemma shared_reachable_inv: "shared_reachable s \<Longrightarrow> shared_inv s"
  by (induction rule: shared_reachable.induct) (auto intro: shared_init_inv shared_step_inv)

text \<open>An instance without owners is refused, also after its word has become a link, and only the last owner hands
  it over.\<close>

lemma no_resurrection:
  assumes "shared_reachable s"
  shows "(unset_tag (instance_ptr p) \<in> set (leaving s @ collected (sys_heap s)) \<longrightarrow>
           ptr_get_shared p (sys_heap s) = (None, sys_heap s)) \<and>
         (owners s a \<noteq> 0 \<longrightarrow> (fst (shared_release th a (sys_heap s)) \<longleftrightarrow> owners s a = 1)) \<and>
         (owners s a = 1 \<longrightarrow>
           ref_cnt (snd (shared_release th a (sys_heap s))) a = Some (current_link (sys_heap s) th) \<and>
           ptr_get_shared \<lparr>instance_ptr = a\<rparr> (snd (shared_release th a (sys_heap s))) = (None, snd (shared_release th a (sys_heap s))))"
proof -
  from assms have inv: "counts_ok (sys_heap s) (leaving s) (owners s)"
    using shared_reachable_inv by (simp add: shared_inv_def)
  have "ptr_get_shared p (sys_heap s) = (None, sys_heap s)"
    if c: "unset_tag (instance_ptr p) \<in> set (leaving s @ collected (sys_heap s))"
  proof -
    from c have "owners s (unset_tag (instance_ptr p)) = 0" using counts_okD(3,4) [OF inv] by auto
    then show ?thesis using ptr_get_shared_cases [OF inv refl] by simp
  qed
  moreover have "owners s a \<noteq> 0 \<Longrightarrow> fst (shared_release th a (sys_heap s)) \<longleftrightarrow> owners s a = 1"
    using shared_drop_ref_owned [OF inv, of a] by (simp add: shared_release_def split: bool.split)
  moreover have "ref_cnt (snd (shared_release th a (sys_heap s))) a = Some (current_link (sys_heap s) th) \<and>
      ptr_get_shared \<lparr>instance_ptr = a\<rparr> (snd (shared_release th a (sys_heap s))) = (None, snd (shared_release th a (sys_heap s)))"
    if "owners s a = 1"
  proof -
    have r: "snd (shared_release th a (sys_heap s)) =
        pass_underlying_to_collector th a (set_ref_cnt a (Some (counter 0)) (sys_heap s))"
      using that shared_drop_ref_owned [OF inv, of a] by (simp add: shared_release_def)
    have al: "aligned a" "aligned (current_link (sys_heap s) th)" using counts_okD(2) [OF inv, of a] that inv by (simp_all add: counts_ok_def)
    then have "try_add_ref (current_link (sys_heap s) th) = (current_link (sys_heap s) th, False)"
      by (intro try_add_ref_dead aligned_even)
    then show ?thesis
      using al(1) by (simp add: r pass_underlying_to_collector_def set_ref_cnt_def ptr_get_shared_def aligned_def)
  qed
  ultimately show ?thesis by blast
qed

text \<open>C38. In every state that the owners of shared instances can reach, in whatever order they create, clone,
  swap, compare-exchange, retag, release and drop them, the word of an instance with \<open>n > 0\<close> owners is the
  counter \<open>2 * n - 1\<close>, and the instance is neither on its way to a collector nor collected. An instance
  without owners that is on its way to a collector has the counter zero; once collected, its word is a link and
  even. In both cases no pointer that still refers to it can bring it back: \<^verbatim>\<open>get_shared\<close> is refused. No
  instance is handed over twice before it is freed. \<^verbatim>\<open>release\<close> reports the hand-over exactly if there is no
  other owner, and then the word of the instance is the former link of the collector and
  \<^verbatim>\<open>get_shared\<close> is refused.\<close>

theorem reference_count_agrees_with_owners:
  assumes "shared_reachable s"
  shows "distinct (leaving s @ collected (sys_heap s)) \<and>
    (if owners s a \<noteq> 0
     then ref_cnt (sys_heap s) a = Some (of_nat (2 * owners s a - 1)) \<and> a \<notin> set (leaving s) \<and> a \<notin> set (collected (sys_heap s))
     else if a \<in> set (leaving s) then ref_cnt (sys_heap s) a = Some 0
     else if a \<in> set (collected (sys_heap s)) then \<exists>w. ref_cnt (sys_heap s) a = Some w \<and> even w
     else ref_cnt (sys_heap s) a = None) \<and>
    (unset_tag (instance_ptr p) \<in> set (leaving s @ collected (sys_heap s)) \<longrightarrow>
       ptr_get_shared p (sys_heap s) = (None, sys_heap s)) \<and>
    (owners s a \<noteq> 0 \<longrightarrow> (fst (shared_release th a (sys_heap s)) \<longleftrightarrow> owners s a = 1)) \<and>
    (owners s a = 1 \<longrightarrow>
       ref_cnt (snd (shared_release th a (sys_heap s))) a = Some (current_link (sys_heap s) th) \<and>
       ptr_get_shared \<lparr>instance_ptr = a\<rparr> (snd (shared_release th a (sys_heap s))) = (None, snd (shared_release th a (sys_heap s))))"
proof (intro conjI)
  from assms have inv: "counts_ok (sys_heap s) (leaving s) (owners s)"
    using shared_reachable_inv by (simp add: shared_inv_def)
  show "distinct (leaving s @ collected (sys_heap s))" using inv by (simp add: counts_ok_def)
  show "if owners s a \<noteq> 0
     then ref_cnt (sys_heap s) a = Some (of_nat (2 * owners s a - 1)) \<and> a \<notin> set (leaving s) \<and> a \<notin> set (collected (sys_heap s))
     else if a \<in> set (leaving s) then ref_cnt (sys_heap s) a = Some 0
     else if a \<in> set (collected (sys_heap s)) then \<exists>w. ref_cnt (sys_heap s) a = Some w \<and> even w
     else ref_cnt (sys_heap s) a = None"
    using counts_okD(3,4,6) [OF inv] counts_ok_zero [OF inv] by (auto simp: counter_def)
qed (use no_resurrection [OF assms] in blast)+

text \<open>A run of thread 0 that creates two instances and releases both; the word of the second becomes the
  link to the first.\<close>

definition create :: "usize \<Rightarrow> shared_sys \<Rightarrow> shared_sys" where
  "create a s = s\<lparr>sys_heap := shared_new a (sys_heap s), handles := add_mset a (handles s)\<rparr>"

definition release_all :: "usize \<Rightarrow> shared_sys \<Rightarrow> shared_sys" where
  "release_all a s = s\<lparr>sys_heap := snd (shared_release 0 a (sys_heap s)), handles := handles s - {#a#}\<rparr>"

definition example_run :: shared_sys where
  "example_run = release_all 8192 (release_all 4096 (create 8192 (create 4096 init_shared_sys)))"

lemma create_reachable:
  "shared_reachable s \<Longrightarrow> ref_cnt (sys_heap s) a = None \<Longrightarrow> a \<noteq> 0 \<Longrightarrow> aligned a \<Longrightarrow> shared_reachable (create a s)"
  unfolding create_def by (intro shared_next [OF _ step_new])

lemma release_all_reachable:
  assumes "shared_reachable s" "a \<in># handles s" "fst (shared_drop_ref a (sys_heap s))" "a \<notin> set (leaving s)"
  shows "shared_reachable (release_all a s)"
proof -
  obtain h where h: "shared_drop_ref a (sys_heap s) = (True, h)" using assms(3) by (cases "shared_drop_ref a (sys_heap s)") simp
  let ?s = "s\<lparr>sys_heap := h, handles := handles s - {#a#}, leaving := a # leaving s\<rparr>"
  have "shared_step s ?s" using step_release [OF assms(2) h] by simp
  moreover have "shared_step ?s (release_all a s)"
    using step_hand_over [of a ?s 0] h by (cases s) (simp add: release_all_def shared_release_def)
  ultimately show ?thesis using assms(1) by (blast intro: shared_next)
qed

lemma example_run_reachable: "shared_reachable example_run"
  unfolding example_run_def
  by (intro release_all_reachable create_reachable shared_start)
    (simp_all add: create_def release_all_def init_shared_sys_def empty_heap_def aligned_def unset_tag_def
      shared_new_def set_ref_cnt_def new_shared_def shared_drop_ref_def shared_release_def drop_ref_def
      pass_underlying_to_collector_def)

lemma example_run_words:
  "collected (sys_heap example_run) = [4096, 8192]" "ref_cnt (sys_heap example_run) 8192 = Some 4096"
  "ref_cnt (sys_heap example_run) 4096 = Some 0" "leaving example_run = []"
  by (simp_all add: example_run_def create_def release_all_def init_shared_sys_def empty_heap_def shared_new_def set_ref_cnt_def
      new_shared_def shared_drop_ref_def shared_release_def drop_ref_def pass_underlying_to_collector_def)

theorem reference_count_agrees_with_owners_witness:
  "shared_reachable example_run \<and> owners example_run 8192 = 0 \<and> ref_cnt (sys_heap example_run) 8192 = Some 4096 \<and>
   ptr_get_shared \<lparr>instance_ptr = 8193\<rparr> (sys_heap example_run) = (None, sys_heap example_run)"
  using example_run_reachable reference_count_agrees_with_owners [OF example_run_reachable, of 8192 "\<lparr>instance_ptr = 8193\<rparr>" 0]
  by (simp add: example_run_words unset_tag_def split: if_splits)

text \<open>With no other thread in between, the loops of \<^verbatim>\<open>get_shared\<close> and \<^verbatim>\<open>clone\<close> of a cell make one attempt.\<close>

lemma as_get_shared_once: "as_get_shared cell h = ptr_get_shared (as_load cell) h"
  unfolding as_get_shared_def
  by (subst get_shared_loop.simps) (auto simp: ptr_get_shared_def as_load_def Let_def split: option.splits prod.splits)

lemma as_clone_once:
  "as_clone cell h = (case clone_attempt cell h of (Some c, h') \<Rightarrow> (c, h') | (None, h') \<Rightarrow> (as_null, h'))"
  unfolding as_clone_def
  by (subst clone_loop.simps) (auto simp: clone_attempt_def ptr_get_shared_def Let_def split: option.splits prod.splits)

end
