(* ===== verification/Ebr_Collector.thy ===== *)
theory Ebr_Collector
  imports Ebr_Tag
begin

text \<open>
  Epoch-based reclamation: \<^verbatim>\<open>Collector\<close> of \<^verbatim>\<open>src/ebr/collector.rs\<close> and \<^verbatim>\<open>Guard\<close> of \<^verbatim>\<open>src/ebr/guard.rs\<close>. Every thread
  has a collector; the collectors, the global epoch and the anchor form the state of the system,
  and the operations are split where they access memory that other threads write: the epoch, the
  anchor and the state bytes. The steps are interleaved sequentially.

  A collector is identified by an element of a type of identifiers that is never reused: a thread that
  has passed its garbage on gets a new one. The list the anchor points to is the list of the linked
  collectors, the newest first. The branch of \<^verbatim>\<open>try_drop_local_collector\<close> for the last collector of the
  process is left out, and so are panics of the destructors that \<^verbatim>\<open>epoch_updated\<close> runs.
\<close>

section \<open>A collector\<close>

definition CADENCE :: u8 where "CADENCE = 255"
definition INACTIVE :: u8 where "INACTIVE = 4"
definition INVALID :: u8 where "INVALID = 8"

text \<open>What is reclaimed: an instance, or a collector whose thread is gone.\<close>

datatype ('t, 'x) garbage = Instance 'x | Obsolete 't

record ('t, 'x) collector =
  coll_state :: u8
  announcement :: u8
  next_epoch_update :: u8
  has_garbage :: bool
  num_readers :: u32
  previous_instance_link :: "('t, 'x) garbage list"
  current_instance_link :: "('t, 'x) garbage list"
  next_instance_link :: "('t, 'x) garbage list"

definition coll_new :: "('t, 'x) collector" where
  "coll_new = \<lparr>coll_state = INACTIVE, announcement = 0, next_epoch_update = CADENCE, has_garbage = False,
     num_readers = 0, previous_instance_link = [], current_instance_link = [], next_instance_link = []\<rparr>"

definition saturating_pred :: "u8 \<Rightarrow> u8" where
  "saturating_pred n = (if n = 0 then 0 else n - 1)"

text \<open>\<^verbatim>\<open>reclaim\<close>, and the part of \<^verbatim>\<open>epoch_updated\<close> before its loop, with the list the loop frees.\<close>

definition reclaim :: "('t, 'x) garbage \<Rightarrow> ('t, 'x) collector \<Rightarrow> ('t, 'x) collector" where
  "reclaim inst c =
     c\<lparr>current_instance_link := inst # current_instance_link c,
       next_epoch_update := min (saturating_pred (next_epoch_update c)) (CADENCE div 4),
       has_garbage := True\<rparr>"

definition rotate_links :: "('t, 'x) collector \<Rightarrow> ('t, 'x) garbage list \<times> ('t, 'x) collector" where
  "rotate_links c =
     (let garbage_link = next_instance_link c;
          c = c\<lparr>next_instance_link := previous_instance_link c,
                previous_instance_link := current_instance_link c,
                current_instance_link := []\<rparr>
      in (garbage_link,
          c\<lparr>has_garbage := next_instance_link c \<noteq> [] \<or> previous_instance_link c \<noteq> []\<rparr>))"

definition next_epoch :: "u8 \<Rightarrow> u8" where
  "next_epoch known_epoch = (if known_epoch = 0 then 1 else if known_epoch = 1 then 2 else 0)"

section \<open>The system\<close>

text \<open>Where a thread is: not yet started, in its own code, in \<^verbatim>\<open>new_guard\<close> with the epoch it has loaded
  (with \<^verbatim>\<open>new_for_drop\<close> or not), in the loop of \<^verbatim>\<open>epoch_updated\<close>, in \<^verbatim>\<open>end_guard\<close> before the anchor
  is locked, in the loop of \<^verbatim>\<open>try_scan\<close> with the previous collector and those that are left, before the
  anchor is unlocked, at the end of \<^verbatim>\<open>end_guard\<close>, about to mark the anchor, or gone.\<close>

datatype ('t, 'x) ephase =
    Unstarted
  | Ready
  | Loaded u8 bool
  | Freeing "('t, 'x) garbage list"
  | Locking
  | Scanning "'t option" "'t list"
  | Unlocking
  | Ending bool
  | Marking
  | Finished

text \<open>\<^verbatim>\<open>freed\<close> and \<^verbatim>\<open>retired\<close> are the instances that have been dropped and those that have been passed to a
  collector; \<^verbatim>\<open>protected\<close> are the instances a thread has reached under its current guard.\<close>

record ('t, 'x) ebr =
  epoch :: u8
  anchor :: "'t list"
  anchor_tag :: tag
  coll :: "'t \<Rightarrow> ('t, 'x) collector"
  ephase :: "'t \<Rightarrow> ('t, 'x) ephase"
  retired :: "'x set"
  freed :: "'x set"
  protected :: "'t \<Rightarrow> 'x set"

definition ebr_init :: "('t, 'x) ebr" where
  "ebr_init = \<lparr>epoch = 0, anchor = [], anchor_tag = TagNone, coll = (\<lambda>_. coll_new), ephase = (\<lambda>_. Unstarted),
     retired = {}, freed = {}, protected = (\<lambda>_. {})\<rparr>"

definition set_coll :: "'t \<Rightarrow> ('t, 'x) collector \<Rightarrow> ('t, 'x) ebr \<Rightarrow> ('t, 'x) ebr" where
  "set_coll t c g = g\<lparr>coll := (coll g)(t := c)\<rparr>"

definition set_ephase :: "'t \<Rightarrow> ('t, 'x) ephase \<Rightarrow> ('t, 'x) ebr \<Rightarrow> ('t, 'x) ebr" where
  "set_ephase t p g = g\<lparr>ephase := (ephase g)(t := p)\<rparr>"

text \<open>The thread has a guard, and its own code runs: also that of a destructor \<^verbatim>\<open>epoch_updated\<close> calls.\<close>

definition in_user_code :: "'t \<Rightarrow> ('t, 'x) ebr \<Rightarrow> bool" where
  "in_user_code t g \<longleftrightarrow> (case ephase g t of Ready \<Rightarrow> True | Freeing _ \<Rightarrow> True | _ \<Rightarrow> False)"

text \<open>\<^verbatim>\<open>alloc\<close>: the collector is linked before the first one, and the tag of the anchor is kept.\<close>

definition coll_alloc :: "'t \<Rightarrow> ('t, 'x) ebr \<Rightarrow> ('t, 'x) ebr option" where
  "coll_alloc t g =
     (if ephase g t = Unstarted
      then Some (set_ephase t Ready (set_coll t coll_new (g\<lparr>anchor := t # anchor g\<rparr>)))
      else None)"

text \<open>\<^verbatim>\<open>new_guard\<close>: the first guard of a thread loads the epoch and then announces it; a further guard is
  counted, and panics at the maximum.\<close>

definition new_guard_load :: "bool \<Rightarrow> 't \<Rightarrow> ('t, 'x) ebr \<Rightarrow> ('t, 'x) ebr option" where
  "new_guard_load for_drop t g =
     (if ephase g t = Ready \<and> num_readers (coll g t) = 0
      then Some (set_ephase t (Loaded (epoch g) for_drop) (set_coll t ((coll g t)\<lparr>num_readers := 1\<rparr>) g))
      else None)"

definition new_guard_announce :: "'t \<Rightarrow> ('t, 'x) ebr \<Rightarrow> ('t, 'x) ebr option" where
  "new_guard_announce t g =
     (case ephase g t of
        Loaded new_epoch for_drop \<Rightarrow>
          let c = (coll g t)\<lparr>coll_state := new_epoch\<rparr>
          in if announcement c = new_epoch then Some (set_ephase t Ready (set_coll t c g))
             else let c = c\<lparr>announcement := new_epoch\<rparr>
                  in if for_drop then Some (set_ephase t Ready (set_coll t c g))
                     else let (garbage_link, c) = rotate_links c
                          in Some (set_ephase t (Freeing garbage_link) (set_coll t c g))
      | _ \<Rightarrow> None)"

definition new_guard_nested :: "'t \<Rightarrow> ('t, 'x) ebr \<Rightarrow> ('t, 'x) ebr option" where
  "new_guard_nested t g =
     (let c = coll g t
      in if in_user_code t g \<and> num_readers c \<noteq> 0 \<and> num_readers c \<noteq> - 1
         then Some (set_coll t (c\<lparr>num_readers := num_readers c + 1\<rparr>) g) else None)"

text \<open>The loop of \<^verbatim>\<open>epoch_updated\<close>. An obsolete collector frees all its garbage when it is dropped, the lists in
  the order in which they would have become garbage.\<close>

definition free_next :: "'t \<Rightarrow> ('t, 'x) ebr \<Rightarrow> ('t, 'x) ebr option" where
  "free_next t g =
     (case ephase g t of
        Freeing [] \<Rightarrow> Some (set_ephase t Ready g)
      | Freeing (Instance x # garbage_link) \<Rightarrow>
          Some (set_ephase t (Freeing garbage_link) (g\<lparr>freed := insert x (freed g)\<rparr>))
      | Freeing (Obsolete u # garbage_link) \<Rightarrow>
          let c = coll g u;
              all = (if has_garbage c
                     then next_instance_link c @ previous_instance_link c @ current_instance_link c else [])
          in Some (set_ephase t (Freeing (all @ garbage_link)) g)
      | _ \<Rightarrow> None)"

text \<open>An instance that the thread has reached under its guard, and \<^verbatim>\<open>defer\<close> of one that is no longer
  reachable.\<close>

definition reach :: "'x \<Rightarrow> 't \<Rightarrow> ('t, 'x) ebr \<Rightarrow> ('t, 'x) ebr option" where
  "reach x t g =
     (if in_user_code t g \<and> num_readers (coll g t) \<noteq> 0 \<and> x \<notin> retired g
      then Some (g\<lparr>protected := (protected g)(t := insert x (protected g t))\<rparr>) else None)"

definition guard_defer :: "'x \<Rightarrow> 't \<Rightarrow> ('t, 'x) ebr \<Rightarrow> ('t, 'x) ebr option" where
  "guard_defer x t g =
     (if in_user_code t g \<and> num_readers (coll g t) \<noteq> 0 \<and> x \<notin> retired g
      then Some (set_coll t (reclaim (Instance x) (coll g t)) (g\<lparr>retired := insert x (retired g)\<rparr>)) else None)"

text \<open>\<^verbatim>\<open>end_guard\<close>: the last guard of the thread ends the protection, and tries to scan every \<^verbatim>\<open>CADENCE\<close> times.\<close>

definition end_guard_nested :: "'t \<Rightarrow> ('t, 'x) ebr \<Rightarrow> ('t, 'x) ebr option" where
  "end_guard_nested t g =
     (let c = coll g t
      in if in_user_code t g \<and> num_readers c \<noteq> 0 \<and> num_readers c \<noteq> 1
         then Some (set_coll t (c\<lparr>num_readers := num_readers c - 1\<rparr>) g) else None)"

definition end_guard :: "'t \<Rightarrow> ('t, 'x) ebr \<Rightarrow> ('t, 'x) ebr option" where
  "end_guard t g =
     (let c = coll g t; g' = g\<lparr>protected := (protected g)(t := {})\<rparr>
      in if ephase g t = Ready \<and> num_readers c = 1
         then if next_epoch_update c = 0
              then if has_garbage c \<or> anchor_tag g \<noteq> First then Some (set_ephase t Locking g')
                   else Some (set_ephase t (Ending True) g')
              else Some (set_ephase t (Ending False)
                     (set_coll t (c\<lparr>next_epoch_update := saturating_pred (next_epoch_update c)\<rparr>) g'))
         else None)"

definition end_guard_finish :: "'t \<Rightarrow> ('t, 'x) ebr \<Rightarrow> ('t, 'x) ebr option" where
  "end_guard_finish t g =
     (case ephase g t of
        Ending due \<Rightarrow>
          let c = coll g t;
              c = (if due then c\<lparr>next_epoch_update := if has_garbage c then CADENCE div 4 else CADENCE\<rparr> else c)
          in Some (set_ephase t Ready
               (set_coll t (c\<lparr>coll_state := announcement c OR INACTIVE, num_readers := 0\<rparr>) g))
      | _ \<Rightarrow> None)"

text \<open>\<^verbatim>\<open>try_scan\<close>: the anchor is locked, the collectors are visited, and the epoch is advanced unless a
  thread with a guard has announced another epoch than the scanning thread.\<close>

definition lock_anchor :: "'t \<Rightarrow> ('t, 'x) ebr \<Rightarrow> ('t, 'x) ebr option" where
  "lock_anchor t g =
     (if ephase g t = Locking
      then if anchor_tag g = First \<or> anchor_tag g = Both then Some (set_ephase t (Ending True) g)
           else Some (set_ephase t (Scanning None (anchor g)) (g\<lparr>anchor_tag := First\<rparr>))
      else None)"

definition scan_next :: "'t \<Rightarrow> ('t, 'x) ebr \<Rightarrow> ('t, 'x) ebr option" where
  "scan_next t g =
     (case ephase g t of
        Scanning prev (u # rest) \<Rightarrow>
          let known_epoch = coll_state (coll g t);
              other_state = coll_state (coll g u);
              proceed = set_ephase t (Scanning (Some u) rest) g
          in if u = t then Some proceed
             else if other_state AND INVALID \<noteq> 0
             then if prev = None \<and> (anchor g = [] \<or> hd (anchor g) \<noteq> u) then Some proceed
                  else Some (set_ephase t (Scanning prev rest)
                         (set_coll t (reclaim (Obsolete u) (coll g t)) (g\<lparr>anchor := remove1 u (anchor g)\<rparr>)))
             else if other_state AND INACTIVE = 0 \<and> other_state \<noteq> known_epoch
             then Some (set_ephase t Unlocking g)
             else Some proceed
      | Scanning prev [] \<Rightarrow>
          Some (set_ephase t Unlocking (g\<lparr>epoch := next_epoch (coll_state (coll g t))\<rparr>))
      | _ \<Rightarrow> None)"

definition unlock_anchor :: "'t \<Rightarrow> ('t, 'x) ebr \<Rightarrow> ('t, 'x) ebr option" where
  "unlock_anchor t g =
     (if ephase g t = Unlocking
      then Some (set_ephase t (Ending True)
             (g\<lparr>anchor_tag := if anchor_tag g = Both then Second else TagNone\<rparr>))
      else None)"

text \<open>The end of a thread and \<^verbatim>\<open>pass_garbage\<close>: the collector is marked invalid, and then the anchor
  (\<^verbatim>\<open>mark_scan_enforced\<close>).\<close>

definition invalidate :: "'t \<Rightarrow> ('t, 'x) ebr \<Rightarrow> ('t, 'x) ebr option" where
  "invalidate t g =
     (let c = coll g t
      in if ephase g t = Ready \<and> num_readers c = 0
         then Some (set_ephase t Marking (set_coll t (c\<lparr>coll_state := coll_state c OR INVALID\<rparr>) g))
         else None)"

definition mark_scan_enforced :: "'t \<Rightarrow> ('t, 'x) ebr \<Rightarrow> ('t, 'x) ebr option" where
  "mark_scan_enforced t g =
     (if ephase g t = Marking
      then Some (set_ephase t Finished
             (g\<lparr>anchor_tag := case anchor_tag g of TagNone \<Rightarrow> Second | First \<Rightarrow> Both
                                | Second \<Rightarrow> Second | Both \<Rightarrow> Both\<rparr>))
      else None)"

section \<open>Runs\<close>

text \<open>A step of a thread. \<^term>\<open>prompt t g\<close> holds unless the thread is about to announce an epoch that is no longer
  the global one.\<close>

inductive ebr_step :: "'t \<Rightarrow> ('t, 'x) ebr \<Rightarrow> ('t, 'x) ebr \<Rightarrow> bool" for t g where
  "coll_alloc t g = Some g' \<Longrightarrow> ebr_step t g g'"
| "new_guard_load for_drop t g = Some g' \<Longrightarrow> ebr_step t g g'"
| "new_guard_announce t g = Some g' \<Longrightarrow> ebr_step t g g'"
| "new_guard_nested t g = Some g' \<Longrightarrow> ebr_step t g g'"
| "free_next t g = Some g' \<Longrightarrow> ebr_step t g g'"
| "reach x t g = Some g' \<Longrightarrow> ebr_step t g g'"
| "guard_defer x t g = Some g' \<Longrightarrow> ebr_step t g g'"
| "end_guard_nested t g = Some g' \<Longrightarrow> ebr_step t g g'"
| "end_guard t g = Some g' \<Longrightarrow> ebr_step t g g'"
| "end_guard_finish t g = Some g' \<Longrightarrow> ebr_step t g g'"
| "lock_anchor t g = Some g' \<Longrightarrow> ebr_step t g g'"
| "scan_next t g = Some g' \<Longrightarrow> ebr_step t g g'"
| "unlock_anchor t g = Some g' \<Longrightarrow> ebr_step t g g'"
| "invalidate t g = Some g' \<Longrightarrow> ebr_step t g g'"
| "mark_scan_enforced t g = Some g' \<Longrightarrow> ebr_step t g g'"

definition prompt :: "'t \<Rightarrow> ('t, 'x) ebr \<Rightarrow> bool" where
  "prompt t g \<longleftrightarrow> (case ephase g t of Loaded new_epoch for_drop \<Rightarrow> new_epoch = epoch g | _ \<Rightarrow> True)"

text \<open>The states of the runs in which every step is prompt, and the states of all runs.\<close>

inductive ebr_reachable :: "bool \<Rightarrow> ('t, 'x) ebr \<Rightarrow> bool" for prompt_only where
  init: "ebr_reachable prompt_only ebr_init"
| step: "\<lbrakk>ebr_reachable prompt_only g; ebr_step t g g'; prompt_only \<longrightarrow> prompt t g\<rbrakk> \<Longrightarrow> ebr_reachable prompt_only g'"

end
