(* ===== verification/Ebr_Safety.thy ===== *)
theory Ebr_Safety
  imports Ebr_Collector
begin

text \<open>
  Safety of epoch-based reclamation when every announcement is prompt: an instance that a thread has
  reached under its guard is not freed before the guard ends. The invariant counts the epochs without
  wrapping them at three: \<^term>\<open>G\<close> is the number of the global epoch and \<^term>\<open>\<gamma> t\<close> that of the epoch the thread has
  announced last.
\<close>

section \<open>What the steps do\<close>

text \<open>A step in which the thread gets the collector \<^term>\<open>c\<close> and the phase \<^term>\<open>p\<close>.\<close>

definition local_step :: "'t \<Rightarrow> ('t, 'x) collector \<Rightarrow> ('t, 'x) ephase \<Rightarrow> ('t, 'x) ebr \<Rightarrow> ('t, 'x) ebr \<Rightarrow> bool" where
  "local_step t c p g g' \<longleftrightarrow> coll g' = (coll g)(t := c) \<and> ephase g' = (ephase g)(t := p) \<and>
     epoch g' = epoch g \<and> anchor g' = anchor g \<and> anchor_tag g' = anchor_tag g"

definition same_instances :: "('t, 'x) ebr \<Rightarrow> ('t, 'x) ebr \<Rightarrow> bool" where
  "same_instances g g' \<longleftrightarrow> retired g' = retired g \<and> freed g' = freed g \<and> protected g' = protected g"

lemmas step_defs = local_step_def same_instances_def set_ephase_def set_coll_def Let_def

lemma load_cases:
  "new_guard_load d t g = Some g' \<Longrightarrow> ephase g t = Ready \<and> num_readers (coll g t) = 0 \<and> same_instances g g' \<and>
   local_step t ((coll g t)\<lparr>num_readers := 1\<rparr>) (Loaded (epoch g) d) g g'"
  unfolding new_guard_load_def by (auto simp: step_defs split: if_splits)

lemma announce_cases:
  assumes "new_guard_announce t g = Some g'"
  obtains e d c where "ephase g t = Loaded e d" "same_instances g g'"
    "c = (coll g t)\<lparr>coll_state := e, announcement := e\<rparr>" "local_step t c Ready g g'"
  | e c where "ephase g t = Loaded e False" "same_instances g g'" "announcement (coll g t) \<noteq> e"
    "c = (coll g t)\<lparr>coll_state := e, announcement := e\<rparr>"
    "local_step t (snd (rotate_links c)) (Freeing (next_instance_link c)) g g'"
proof -
  obtain e d where l: "ephase g t = Loaded e d"
    using assms by (cases "ephase g t") (simp_all add: new_guard_announce_def)
  let ?c = "(coll g t)\<lparr>coll_state := e, announcement := e\<rparr>"
  have g': "g' = (if announcement (coll g t) = e \<or> d then set_ephase t Ready (set_coll t ?c g)
      else set_ephase t (Freeing (next_instance_link ?c)) (set_coll t (snd (rotate_links ?c)) g))"
  proof (cases "announcement (coll g t) = e")
    case True
    then have c: "?c = (coll g t)\<lparr>coll_state := e\<rparr>" by simp
    show ?thesis unfolding c using assms l True by (simp add: new_guard_announce_def)
  next
    case False
    then show ?thesis using assms l by (auto simp: new_guard_announce_def Let_def rotate_links_def split: if_splits)
  qed
  show thesis
  proof (cases "announcement (coll g t) = e \<or> d")
    case True
    then show ?thesis using that(1) [OF l _ refl] g' by (simp add: step_defs)
  next
    case False
    then show ?thesis using that(2) [of e, OF _ _ _ refl] l g' by (simp add: step_defs)
  qed
qed

lemma nested_cases:
  assumes "new_guard_nested t g = Some g' \<or> end_guard_nested t g = Some g'"
  obtains n where "n \<noteq> 0" "num_readers (coll g t) \<noteq> 0" "in_user_code t g" "same_instances g g'"
    "local_step t ((coll g t)\<lparr>num_readers := n\<rparr>) (ephase g t) g g'"
proof -
  have "\<exists>n. n \<noteq> 0 \<and> num_readers (coll g t) \<noteq> 0 \<and> in_user_code t g \<and>
      g' = set_coll t ((coll g t)\<lparr>num_readers := n\<rparr>) g"
    using assms
  proof
    assume "new_guard_nested t g = Some g'"
    then show ?thesis
      by (intro exI [of _ "num_readers (coll g t) + 1"])
         (simp add: new_guard_nested_def Let_def add_eq_0_iff2 split: if_splits)
  next
    assume "end_guard_nested t g = Some g'"
    then show ?thesis
      by (intro exI [of _ "num_readers (coll g t) - 1"])
         (simp add: end_guard_nested_def Let_def split: if_splits)
  qed
  then show thesis using that by (auto simp: step_defs)
qed

lemma free_cases:
  assumes "free_next t g = Some g'"
  obtains "ephase g t = Freeing []" "same_instances g g'" "local_step t (coll g t) Ready g g'"
  | x ys where "ephase g t = Freeing (Instance x # ys)" "retired g' = retired g" "protected g' = protected g"
    "freed g' = insert x (freed g)" "local_step t (coll g t) (Freeing ys) g g'"
  | u ys zs where "ephase g t = Freeing (Obsolete u # ys)" "same_instances g g'"
    "set zs \<subseteq> set (next_instance_link (coll g u) @ previous_instance_link (coll g u) @ current_instance_link (coll g u))"
    "local_step t (coll g t) (Freeing (zs @ ys)) g g'"
proof (cases "ephase g t")
  case (Freeing l)
  show thesis
  proof (cases l)
    case Nil
    then show ?thesis using assms Freeing that(1) by (auto simp: free_next_def step_defs)
  next
    case (Cons y ys)
    show ?thesis
    proof (cases y)
      case (Instance x)
      then show ?thesis using assms Freeing Cons that(2) by (auto simp: free_next_def step_defs)
    next
      case (Obsolete u)
      then show ?thesis using assms Freeing Cons that(3) [of u ys "if has_garbage (coll g u)
          then next_instance_link (coll g u) @ previous_instance_link (coll g u) @ current_instance_link (coll g u) else []"]
        by (cases "has_garbage (coll g u)") (auto simp: free_next_def step_defs)
    qed
  qed
qed (use assms in \<open>simp_all add: free_next_def\<close>)

section \<open>The protocol\<close>

definition ep :: "nat \<Rightarrow> u8" where
  "ep n = of_nat (n mod 3)"

fun guarded_in :: "('t, 'x) collector \<Rightarrow> ('t, 'x) ephase \<Rightarrow> bool" where
  "guarded_in c Ready \<longleftrightarrow> num_readers c \<noteq> 0"
| "guarded_in c Unstarted \<longleftrightarrow> False"
| "guarded_in c (Loaded e d) \<longleftrightarrow> False"
| "guarded_in c Marking \<longleftrightarrow> False"
| "guarded_in c Finished \<longleftrightarrow> False"
| "guarded_in c _ \<longleftrightarrow> True"

abbreviation guarded :: "('t, 'x) ebr \<Rightarrow> 't \<Rightarrow> bool" where
  "guarded g t \<equiv> guarded_in (coll g t) (ephase g t)"

fun scans :: "('t, 'x) ephase \<Rightarrow> bool" where
  "scans (Scanning prev rest) \<longleftrightarrow> True"
| "scans Unlocking \<longleftrightarrow> True"
| "scans _ \<longleftrightarrow> False"

fun dead :: "('t, 'x) ephase \<Rightarrow> bool" where
  "dead Marking \<longleftrightarrow> True"
| "dead Finished \<longleftrightarrow> True"
| "dead _ \<longleftrightarrow> False"

text \<open>A thread in the protocol, with the number of its announcement and whether it is linked.\<close>

definition thread_ok :: "nat \<Rightarrow> nat \<Rightarrow> bool \<Rightarrow> ('t, 'x) collector \<Rightarrow> ('t, 'x) ephase \<Rightarrow> bool" where
  "thread_ok G n linked c p \<longleftrightarrow>
     announcement c = ep n \<and> n \<le> G \<and>
     (guarded_in c p \<longrightarrow> coll_state c = ep n \<and> G \<le> Suc n) \<and>
     (\<not> guarded_in c p \<longrightarrow> coll_state c AND INACTIVE \<noteq> 0) \<and>
     (coll_state c AND INVALID \<noteq> 0 \<longrightarrow> dead p) \<and>
     (p \<noteq> Unstarted \<and> \<not> dead p \<longrightarrow> linked) \<and>
     (case p of Loaded e d \<Rightarrow> num_readers c \<noteq> 0 | Freeing ys \<Rightarrow> num_readers c \<noteq> 0 | _ \<Rightarrow> True)"

definition lock_ok :: "('t, 'x) ebr \<Rightarrow> bool" where
  "lock_ok g \<longleftrightarrow> (\<forall>t. scans (ephase g t) \<longrightarrow>
     (anchor_tag g = First \<or> anchor_tag g = Both) \<and> (\<forall>u. scans (ephase g u) \<longrightarrow> u = t))"

text \<open>A scan that can advance the epoch: the guarded threads it has passed have announced the present one.\<close>

definition scan_ok :: "('t, 'x) ebr \<Rightarrow> nat \<Rightarrow> ('t \<Rightarrow> nat) \<Rightarrow> bool" where
  "scan_ok g G \<gamma> \<longleftrightarrow> (\<forall>t prev rest u. ephase g t = Scanning prev rest \<longrightarrow> \<gamma> t = G \<longrightarrow> guarded g u \<longrightarrow>
     u \<in> set rest \<or> \<gamma> u = G)"

definition protocol :: "('t, 'x) ebr \<Rightarrow> nat \<Rightarrow> ('t \<Rightarrow> nat) \<Rightarrow> bool" where
  "protocol g G \<gamma> \<longleftrightarrow> epoch g = ep G \<and> lock_ok g \<and> scan_ok g G \<gamma> \<and>
     (\<forall>t. thread_ok G (\<gamma> t) (t \<in> set (anchor g)) (coll g t) (ephase g t))"

lemma scan_okD:
  "\<lbrakk>scan_ok g G \<gamma>; ephase g t = Scanning prev rest; \<gamma> t = G; guarded g u\<rbrakk> \<Longrightarrow> u \<in> set rest \<or> \<gamma> u = G"
  unfolding scan_ok_def by blast

lemma ep_mod: "ep m = ep n \<longleftrightarrow> m mod 3 = n mod 3"
proof -
  have "unat (ep k) = k mod 3" for k
  proof -
    have "k mod 3 < 2 ^ 8" using mod_less_divisor [of 3 k] by simp
    then show ?thesis by (simp add: ep_def unat_of_nat)
  qed
  then show ?thesis unfolding word_unat_eq_iff by simp
qed

lemma ep_cases: "ep n = 0 \<or> ep n = 1 \<or> ep n = 2"
proof -
  have "n mod 3 = 0 \<or> n mod 3 = 1 \<or> n mod 3 = 2" using mod_less_divisor [of 3 n] by linarith
  then show ?thesis by (auto simp: ep_def)
qed

lemma next_epoch_ep: "next_epoch (ep n) = ep (Suc n)"
proof -
  have "n mod 3 = 0 \<or> n mod 3 = 1 \<or> n mod 3 = 2" using mod_less_divisor [of 3 n] by linarith
  then show ?thesis by (elim disjE) (simp_all add: ep_def next_epoch_def mod_Suc)
qed

lemma ep_bits [simp]: "ep n AND INACTIVE = 0" "ep n AND INVALID = 0"
    "ep n OR INACTIVE \<noteq> 0" "(ep n OR INACTIVE) AND INACTIVE \<noteq> 0" "(ep n OR INACTIVE) AND INVALID = 0"
proof -
  have c: "\<And>P. \<lbrakk>P 0; P 1; P 2\<rbrakk> \<Longrightarrow> P (ep n)" using ep_cases [of n] by (elim disjE) simp_all
  show "ep n AND INACTIVE = 0" by (rule c [of "\<lambda>e. e AND INACTIVE = 0"]) (simp_all add: INACTIVE_def)
  show "ep n AND INVALID = 0" by (rule c [of "\<lambda>e. e AND INVALID = 0"]) (simp_all add: INVALID_def)
  show "ep n OR INACTIVE \<noteq> 0" by (rule c [of "\<lambda>e. e OR INACTIVE \<noteq> 0"]) (simp_all add: INACTIVE_def)
  show "(ep n OR INACTIVE) AND INACTIVE \<noteq> 0"
    by (rule c [of "\<lambda>e. (e OR INACTIVE) AND INACTIVE \<noteq> 0"]) (simp_all add: INACTIVE_def)
  show "(ep n OR INACTIVE) AND INVALID = 0"
    by (rule c [of "\<lambda>e. (e OR INACTIVE) AND INVALID = 0"]) (simp_all add: INACTIVE_def INVALID_def)
qed

lemma inactive_nonzero [simp]: "INACTIVE \<noteq> 0"
  by (simp add: INACTIVE_def)

lemma ep_Suc: "ep n \<noteq> ep (Suc n)"
  unfolding ep_mod by (simp add: mod_Suc)

lemma ep_close: "m \<le> G \<Longrightarrow> n \<le> G \<Longrightarrow> G \<le> Suc m \<Longrightarrow> G \<le> Suc n \<Longrightarrow> ep m = ep n \<Longrightarrow> m = n"
proof -
  assume "m \<le> G" "n \<le> G" "G \<le> Suc m" "G \<le> Suc n" and e: "ep m = ep n"
  then have "m = n \<or> n = Suc m \<or> m = Suc n" by linarith
  then show "m = n" using e ep_Suc by metis
qed

text \<open>A step that changes one thread only.\<close>

lemma protocol_local:
  assumes "protocol g G \<gamma>" "epoch g' = epoch g" "coll g' = (coll g)(t := c)" "ephase g' = (ephase g)(t := p)"
    "\<And>u. u \<noteq> t \<Longrightarrow> u \<in> set (anchor g) \<Longrightarrow> u \<in> set (anchor g') \<or> dead (ephase g u)"
    "anchor_tag g = First \<or> anchor_tag g = Both \<Longrightarrow> anchor_tag g' = First \<or> anchor_tag g' = Both"
    "thread_ok G n (t \<in> set (anchor g')) c p"
    "scans p \<Longrightarrow> scans (ephase g t)"
    "guarded_in c p \<Longrightarrow> guarded g t \<and> n = \<gamma> t \<or> n = G"
    "\<And>prev rest u. p = Scanning prev rest \<Longrightarrow> n = G \<Longrightarrow> u \<noteq> t \<Longrightarrow> guarded g u \<Longrightarrow> u \<in> set rest \<or> \<gamma> u = G"
  shows "protocol g' G (\<gamma>(t := n))"
proof -
  have sc: "scans (ephase g' u) \<Longrightarrow> scans (ephase g u)" for u using assms(4,8) by (cases "u = t") simp_all
  have "lock_ok g'" using assms(1,6) sc unfolding protocol_def lock_ok_def by metis
  moreover have "scan_ok g' G (\<gamma>(t := n))"
    unfolding scan_ok_def
  proof (intro allI impI)
    fix s prev rest u
    assume s: "ephase g' s = Scanning prev rest" "(\<gamma>(t := n)) s = G" "guarded g' u"
    have old: "ephase g s = Scanning prev rest \<Longrightarrow> \<gamma> s = G \<Longrightarrow> guarded g u \<Longrightarrow> u \<in> set rest \<or> \<gamma> u = G" for s
      using assms(1) by (simp add: protocol_def scan_ok_def)
    show "u \<in> set rest \<or> (\<gamma>(t := n)) u = G"
      using s old [of s] assms(3,4,9,10) by (cases "s = t"; cases "u = t"; auto)
  qed
  moreover have "thread_ok G ((\<gamma>(t := n)) u) (u \<in> set (anchor g')) (coll g' u) (ephase g' u)" for u
  proof (cases "u = t")
    case False
    then have "thread_ok G (\<gamma> u) (u \<in> set (anchor g)) (coll g u) (ephase g u)"
      using assms(1) by (simp add: protocol_def)
    then show ?thesis using False assms(3,4,5) by (auto simp: thread_ok_def)
  qed (use assms in simp)
  ultimately show ?thesis using assms(1,2) by (simp add: protocol_def)
qed

lemma protocolD:
  assumes "protocol g G \<gamma>"
  shows "epoch g = ep G" "lock_ok g" "scan_ok g G \<gamma>"
    "thread_ok G (\<gamma> t) (t \<in> set (anchor g)) (coll g t) (ephase g t)"
  using assms by (simp_all add: protocol_def)

text \<open>Steps that keep the announcement.\<close>

lemma protocol_same:
  assumes "protocol g G \<gamma>" "local_step t c p g g'"
    "thread_ok G (\<gamma> t) (t \<in> set (anchor g)) c p" "\<not> scans p" "guarded_in c p \<Longrightarrow> guarded g t"
  shows "protocol g' G \<gamma>"
proof -
  have "protocol g' G (\<gamma>(t := \<gamma> t))"
    by (rule protocol_local [OF assms(1), where c = c and p = p])
       (use assms(2-5) in \<open>auto simp: local_step_def\<close>)
  then show ?thesis by simp
qed

lemma protocol_load:
  assumes "new_guard_load d t g = Some g'" "protocol g G \<gamma>"
  shows "protocol g' G \<gamma>"
proof (rule protocol_same [OF assms(2)])
  show "local_step t ((coll g t)\<lparr>num_readers := 1\<rparr>) (Loaded (epoch g) d) g g'" using load_cases [OF assms(1)] by simp
qed (use load_cases [OF assms(1)] protocolD(4) [OF assms(2), of t] in \<open>simp_all add: thread_ok_def\<close>)

lemma protocol_nested:
  assumes "new_guard_nested t g = Some g' \<or> end_guard_nested t g = Some g'" "protocol g G \<gamma>"
  shows "protocol g' G \<gamma>"
  using assms(1)
proof (cases rule: nested_cases)
  case (1 n)
  have "guarded_in ((coll g t)\<lparr>num_readers := n\<rparr>) (ephase g t) \<and> guarded g t \<and> \<not> scans (ephase g t)"
    using 1 by (simp add: in_user_code_def split: ephase.splits)
  then show ?thesis using protocol_same [OF assms(2) 1(5)] protocolD(4) [OF assms(2), of t] 1(1)
    by (simp add: thread_ok_def split: ephase.splits)
qed

lemma protocol_free:
  assumes "free_next t g = Some g'" "protocol g G \<gamma>"
  shows "protocol g' G \<gamma>"
proof -
  have "(\<exists>ys. ephase g t = Freeing ys) \<and> (\<exists>p. local_step t (coll g t) p g g' \<and> (p = Ready \<or> (\<exists>zs. p = Freeing zs)))"
    using assms(1) by (cases rule: free_cases) blast+
  then obtain ys p where p: "ephase g t = Freeing ys" "local_step t (coll g t) p g g'" "p = Ready \<or> (\<exists>zs. p = Freeing zs)"
    by blast
  then show ?thesis using protocol_same [OF assms(2) p(2)] protocolD(4) [OF assms(2), of t]
    by (auto simp: thread_ok_def)
qed

lemma protocol_announce:
  assumes "new_guard_announce t g = Some g'" "protocol g G \<gamma>" "prompt t g"
  shows "protocol g' G (\<gamma>(t := G))"
proof -
  have "\<exists>e d c p. ephase g t = Loaded e d \<and> local_step t c p g g' \<and> announcement c = e \<and> coll_state c = e \<and>
      num_readers c = num_readers (coll g t) \<and> (p = Ready \<or> (\<exists>ys. p = Freeing ys))"
    using assms(1)
  proof (cases rule: announce_cases)
    case (1 e d c)
    then show ?thesis by (intro exI [of _ e] exI [of _ d] exI [of _ c] exI [of _ Ready]) simp
  next
    case (2 e c)
    then show ?thesis
      by (intro exI [of _ e] exI [of _ False] exI [of _ "snd (rotate_links c)"] exI [of _ "Freeing (next_instance_link c)"])
         (simp add: rotate_links_def Let_def)
  qed
  then obtain e d c p where l: "ephase g t = Loaded e d" "local_step t c p g g'" "announcement c = e" "coll_state c = e"
      "num_readers c = num_readers (coll g t)" "p = Ready \<or> (\<exists>ys. p = Freeing ys)" by blast
  have e: "e = ep G" using assms(3) l(1) protocolD(1) [OF assms(2)] by (simp add: prompt_def)
  have t: "t \<in> set (anchor g)" "num_readers (coll g t) \<noteq> 0"
    using protocolD(4) [OF assms(2), of t] l(1) by (simp_all add: thread_ok_def)
  have p: "guarded_in c p" "\<not> scans p" "\<not> dead p" using l(5,6) t(2) by auto
  show ?thesis
  proof (rule protocol_local [OF assms(2), where c = c and p = p])
    show "thread_ok G G (t \<in> set (anchor g')) c p"
      using l e t p by (auto simp: thread_ok_def local_step_def)
  qed (use l p in \<open>auto simp: local_step_def\<close>)
qed

lemma protocol_alloc:
  assumes "coll_alloc t g = Some g'" "protocol g G \<gamma>"
  shows "protocol g' G (\<gamma>(t := 0))"
proof -
  have g: "ephase g t = Unstarted" "g' = set_ephase t Ready (set_coll t coll_new (g\<lparr>anchor := t # anchor g\<rparr>))"
    using assms(1) by (auto simp: coll_alloc_def split: if_splits)
  show ?thesis
    by (rule protocol_local [OF assms(2), where c = coll_new and p = Ready])
       (use g in \<open>auto simp: step_defs thread_ok_def coll_new_def ep_def INACTIVE_def INVALID_def\<close>)
qed

lemma protocol_user:
  assumes "reach x t g = Some g' \<or> guard_defer x t g = Some g'" "protocol g G \<gamma>"
  shows "protocol g' G \<gamma>"
proof -
  obtain c where c: "local_step t c (ephase g t) g g'" "num_readers (coll g t) \<noteq> 0" "in_user_code t g"
      "announcement c = announcement (coll g t)" "coll_state c = coll_state (coll g t)" "num_readers c = num_readers (coll g t)"
    using assms(1)
  proof
    assume "reach x t g = Some g'"
    then show thesis using that [of "coll g t"] by (auto simp: reach_def step_defs split: if_splits)
  next
    assume "guard_defer x t g = Some g'"
    then show thesis using that [of "reclaim (Instance x) (coll g t)"]
      by (auto simp: guard_defer_def step_defs reclaim_def split: if_splits)
  qed
  have "guarded_in c (ephase g t) \<and> guarded g t \<and> \<not> scans (ephase g t)"
    using c by (simp add: in_user_code_def split: ephase.splits)
  then show ?thesis using protocol_same [OF assms(2) c(1)] protocolD(4) [OF assms(2), of t] c(4-6)
    by (simp add: thread_ok_def split: ephase.splits)
qed

lemma end_cases:
  assumes "end_guard t g = Some g'"
  obtains n p where "local_step t ((coll g t)\<lparr>next_epoch_update := n\<rparr>) p g g'" "ephase g t = Ready" "num_readers (coll g t) = 1" "p = Locking \<or> p = Ending True \<or> p = Ending False"
    "retired g' = retired g" "freed g' = freed g"
    "protected g' = (protected g)(t := {})"
proof -
  have r: "ephase g t = Ready" "num_readers (coll g t) = 1"
    using assms by (auto simp: end_guard_def Let_def split: if_splits)
  show thesis
  proof (cases "next_epoch_update (coll g t) = 0")
    case True
    have c: "(coll g t)\<lparr>next_epoch_update := 0\<rparr> = coll g t" using True by simp
    show ?thesis using that [of 0 Locking, unfolded c] that [of 0 "Ending True", unfolded c] assms r True
      by (auto simp: end_guard_def step_defs split: if_splits)
  next
    case False
    then show ?thesis using that [of "saturating_pred (next_epoch_update (coll g t))" "Ending False"] assms r
      by (auto simp: end_guard_def step_defs)
  qed
qed

lemma protocol_end:
  assumes "end_guard t g = Some g'" "protocol g G \<gamma>"
  shows "protocol g' G \<gamma>"
  using assms(1)
proof (cases rule: end_cases)
  case (1 n p)
  then show ?thesis using protocol_same [OF assms(2) 1(1)] protocolD(4) [OF assms(2), of t]
    by (auto simp: thread_ok_def)
qed

lemma finish_cases:
  assumes "end_guard_finish t g = Some g'"
  obtains n d where "ephase g t = Ending d" "same_instances g g'"
    "local_step t ((coll g t)\<lparr>next_epoch_update := n, coll_state := announcement (coll g t) OR INACTIVE,
       num_readers := 0\<rparr>) Ready g g'"
proof (cases "ephase g t")
  case (Ending d)
  let ?n = "if d then if has_garbage (coll g t) then CADENCE div 4 else CADENCE else next_epoch_update (coll g t)"
  show ?thesis
    using that [of d ?n] Ending assms by (cases d) (auto simp: end_guard_finish_def step_defs)
qed (use assms in \<open>simp_all add: end_guard_finish_def\<close>)

lemma protocol_finish:
  assumes "end_guard_finish t g = Some g'" "protocol g G \<gamma>"
  shows "protocol g' G \<gamma>"
  using assms(1)
proof (cases rule: finish_cases)
  case (1 n d)
  then show ?thesis using protocol_same [OF assms(2) 1(3)] protocolD(4) [OF assms(2), of t]
    by (auto simp: thread_ok_def)
qed

lemma invalidate_cases:
  "invalidate t g = Some g' \<Longrightarrow> ephase g t = Ready \<and> num_readers (coll g t) = 0 \<and> same_instances g g' \<and>
   local_step t ((coll g t)\<lparr>coll_state := coll_state (coll g t) OR INVALID\<rparr>) Marking g g'"
  unfolding invalidate_def by (auto simp: step_defs split: if_splits)

lemma inactive_or: "s AND INACTIVE \<noteq> 0 \<Longrightarrow> (s OR INVALID) AND INACTIVE \<noteq> 0"
proof
  assume a: "s AND INACTIVE \<noteq> 0" and b: "(s OR INVALID) AND INACTIVE = 0"
  have "\<not> bit ((s OR INVALID) AND INACTIVE) n" for n by (simp add: b)
  then have "\<not> bit (s AND INACTIVE) n" for n unfolding bit_and_iff bit_or_iff by blast
  then show False using a by (simp add: bit_eq_iff)
qed

lemma protocol_invalidate:
  assumes "invalidate t g = Some g'" "protocol g G \<gamma>"
  shows "protocol g' G \<gamma>"
proof -
  note i = invalidate_cases [OF assms(1)]
  then have "coll_state (coll g t) AND INACTIVE \<noteq> 0"
    using protocolD(4) [OF assms(2), of t] by (simp add: thread_ok_def)
  then show ?thesis using protocol_same [OF assms(2), of t _ Marking g'] i protocolD(4) [OF assms(2), of t] inactive_or
    by (auto simp: thread_ok_def)
qed

lemma protocol_mark:
  assumes "mark_scan_enforced t g = Some g'" "protocol g G \<gamma>"
  shows "protocol g' G \<gamma>"
proof -
  have m: "ephase g t = Marking" using assms(1) by (simp add: mark_scan_enforced_def split: if_splits)
  have "protocol g' G (\<gamma>(t := \<gamma> t))"
    by (rule protocol_local [OF assms(2), where c = "coll g t" and p = Finished])
       (use m assms(1) protocolD(4) [OF assms(2), of t] in \<open>auto simp: mark_scan_enforced_def step_defs thread_ok_def\<close>)
  then show ?thesis by simp
qed

section \<open>The scan\<close>

lemma guarded_linked: "protocol g G \<gamma> \<Longrightarrow> guarded g t \<Longrightarrow> t \<in> set (anchor g)"
  using protocolD(4) [of g G \<gamma> t] by (cases "ephase g t") (simp_all add: thread_ok_def)

lemma protocol_lock:
  assumes "lock_anchor t g = Some g'" "protocol g G \<gamma>"
  shows "protocol g' G \<gamma>"
proof (cases "anchor_tag g = First \<or> anchor_tag g = Both")
  case True
  then have "local_step t (coll g t) (Ending True) g g'" "ephase g t = Locking"
    using assms(1) by (auto simp: lock_anchor_def step_defs split: if_splits)
  then show ?thesis using protocol_same [OF assms(2), of t "coll g t" "Ending True" g'] protocolD(4) [OF assms(2), of t]
    by (simp add: thread_ok_def)
next
  case False
  then have g: "ephase g t = Locking" "g' = set_ephase t (Scanning None (anchor g)) (g\<lparr>anchor_tag := First\<rparr>)"
    using assms(1) by (auto simp: lock_anchor_def split: if_splits)
  have ns: "\<not> scans (ephase g u)" for u using protocolD(2) [OF assms(2)] False unfolding lock_ok_def by blast
  have "guarded g' u = guarded g u" for u using g by (simp add: step_defs)
  then have "scan_ok g' G \<gamma>" using ns guarded_linked [OF assms(2)] g unfolding scan_ok_def
    by (auto simp: step_defs split: if_splits) (metis scans.simps(1))+
  moreover have "lock_ok g'" using ns g by (simp add: lock_ok_def step_defs)
  moreover have "thread_ok G (\<gamma> u) (u \<in> set (anchor g')) (coll g' u) (ephase g' u)" for u
    using protocolD(4) [OF assms(2), of u] g by (cases "u = t") (simp_all add: step_defs thread_ok_def)
  ultimately show ?thesis using protocolD(1) [OF assms(2)] g by (simp add: protocol_def step_defs)
qed

lemma protocol_unlock:
  assumes "unlock_anchor t g = Some g'" "protocol g G \<gamma>"
  shows "protocol g' G \<gamma>"
proof -
  have g: "ephase g t = Unlocking"
      "g' = set_ephase t (Ending True) (g\<lparr>anchor_tag := if anchor_tag g = Both then Second else TagNone\<rparr>)"
    using assms(1) by (auto simp: unlock_anchor_def split: if_splits)
  have ns: "\<not> scans (ephase g' u)" for u
  proof (cases "u = t")
    case False
    moreover have "scans (ephase g t)" using g by simp
    ultimately have "\<not> scans (ephase g u)" using protocolD(2) [OF assms(2)] unfolding lock_ok_def by blast
    then show ?thesis using g False by (simp add: step_defs)
  qed (use g in \<open>simp add: step_defs\<close>)
  then have "scan_ok g' G \<gamma>" "lock_ok g'" unfolding scan_ok_def lock_ok_def by (metis scans.simps(1), blast)
  moreover have "thread_ok G (\<gamma> u) (u \<in> set (anchor g')) (coll g' u) (ephase g' u)" for u
    using protocolD(4) [OF assms(2), of u] g by (cases "u = t") (simp_all add: step_defs thread_ok_def)
  ultimately show ?thesis using protocolD(1) [OF assms(2)] g by (simp add: protocol_def step_defs)
qed

lemma scan_cases:
  assumes "scan_next t g = Some g'"
  obtains prev u rest where "ephase g t = Scanning prev (u # rest)" "same_instances g g'"
      "u = t \<or> coll_state (coll g u) AND INVALID \<noteq> 0 \<or> coll_state (coll g u) AND INACTIVE \<noteq> 0 \<or>
        coll_state (coll g u) = coll_state (coll g t)"
      "local_step t (coll g t) (Scanning (Some u) rest) g g'"
  | prev u rest where "ephase g t = Scanning prev (u # rest)" "u \<noteq> t" "coll_state (coll g u) AND INVALID \<noteq> 0"
      "g' = set_ephase t (Scanning prev rest)
         (set_coll t (reclaim (Obsolete u) (coll g t)) (g\<lparr>anchor := remove1 u (anchor g)\<rparr>))"
  | prev u rest where "ephase g t = Scanning prev (u # rest)" "same_instances g g'" "local_step t (coll g t) Unlocking g g'"
  | prev where "ephase g t = Scanning prev []" "g' = set_ephase t Unlocking (g\<lparr>epoch := next_epoch (coll_state (coll g t))\<rparr>)"
proof (cases "ephase g t")
  case (Scanning prev l)
  show thesis
  proof (cases l)
    case Nil
    then show ?thesis using that(4) assms Scanning by (simp add: scan_next_def)
  next
    case (Cons u rest)
    let ?inv = "coll_state (coll g u) AND INVALID \<noteq> 0"
      and ?hd = "prev = None \<and> (anchor g = [] \<or> hd (anchor g) \<noteq> u)"
      and ?busy = "coll_state (coll g u) AND INACTIVE = 0 \<and> coll_state (coll g u) \<noteq> coll_state (coll g t)"
    consider "u = t \<or> ?inv \<and> ?hd \<or> \<not> ?inv \<and> \<not> ?busy" | "u \<noteq> t" "?inv" "\<not> ?hd" | "u \<noteq> t" "\<not> ?inv" "?busy" by blast
    then show ?thesis
    proof cases
      case 1
      then have "g' = set_ephase t (Scanning (Some u) rest) g"
        using assms Scanning Cons by (auto simp: scan_next_def Let_def split: if_splits)
      then show ?thesis using 1 that(1) [of prev u rest] Scanning Cons by (auto simp: step_defs)
    next
      case 2
      then show ?thesis using that(2) [of prev u rest] assms Scanning Cons
        by (auto simp: scan_next_def Let_def split: if_splits)
    next
      case 3
      then have "g' = set_ephase t Unlocking g" using assms Scanning Cons by (simp add: scan_next_def Let_def)
      then show ?thesis using that(3) [of prev u rest] Scanning Cons by (simp add: step_defs)
    qed
  qed
qed (use assms in \<open>simp_all add: scan_next_def\<close>)

text \<open>The global epoch after a scan: it advances when the scanning thread has announced the present one.\<close>

lemma protocol_publish:
  assumes "protocol g G \<gamma>" "ephase g t = Scanning prev []"
    "g' = set_ephase t Unlocking (g\<lparr>epoch := next_epoch (coll_state (coll g t))\<rparr>)"
  shows "protocol g' (if \<gamma> t = G then Suc G else G) \<gamma>"
proof -
  let ?G = "if \<gamma> t = G then Suc G else G"
  have t: "coll_state (coll g t) = ep (\<gamma> t)" "\<gamma> t \<le> G" "G \<le> Suc (\<gamma> t)"
    using protocolD(4) [OF assms(1), of t] assms(2) by (simp_all add: thread_ok_def)
  have "Suc (\<gamma> t) = ?G" using t by auto
  then have e: "epoch g' = ep ?G" using t(1) assms(3) by (simp add: step_defs next_epoch_ep)
  have up: "G \<le> ?G" by simp
  have ok: "?G \<le> Suc (\<gamma> u)" if u: "guarded g u" for u
  proof -
    have "\<gamma> t = G \<Longrightarrow> \<gamma> u = G" using scan_okD [OF protocolD(3) [OF assms(1)] assms(2) _ u] by simp
    moreover have "G \<le> Suc (\<gamma> u)" using protocolD(4) [OF assms(1), of u] u by (simp add: thread_ok_def)
    ultimately show ?thesis by auto
  qed
  have gd: "guarded g' u = guarded g u" for u using assms(2,3) by (simp add: step_defs)
  have "thread_ok ?G (\<gamma> u) (u \<in> set (anchor g')) (coll g' u) (ephase g' u)" for u
    using protocolD(4) [OF assms(1), of u] assms(2,3) ok [of u] gd [of u]
    by (cases "u = t") (auto simp: step_defs thread_ok_def)
  moreover have sc: "scans (ephase g' u) = scans (ephase g u)" for u using assms(2,3) by (simp add: step_defs)
  then have "lock_ok g'" using protocolD(2) [OF assms(1)] assms(3) by (simp add: lock_ok_def step_defs)
  moreover have "scan_ok g' ?G \<gamma>"
  proof -
    have "ephase g' u \<noteq> Scanning p r" for u p r
    proof (cases "u = t")
      case False
      have "scans (ephase g t)" using assms(2) by simp
      then have "\<not> scans (ephase g u)" using protocolD(2) [OF assms(1)] False unfolding lock_ok_def by blast
      then show ?thesis using False assms(3) by (auto simp: step_defs)
    qed (use assms(3) in \<open>simp add: step_defs\<close>)
    then show ?thesis by (simp add: scan_ok_def)
  qed
  ultimately show ?thesis using e by (simp add: protocol_def)
qed

lemma scan_passes:
  assumes "protocol g G \<gamma>" "ephase g t = Scanning prev (u # rest)" "\<gamma> t = G" "guarded g v" "v \<noteq> t"
    "u = t \<or> coll_state (coll g u) AND INVALID \<noteq> 0 \<or> coll_state (coll g u) AND INACTIVE \<noteq> 0 \<or>
     coll_state (coll g u) = coll_state (coll g t)"
  shows "v \<in> set rest \<or> \<gamma> v = G"
proof (cases "v = u")
  case True
  have u: "coll_state (coll g u) = ep (\<gamma> u)" "\<gamma> u \<le> G" "G \<le> Suc (\<gamma> u)"
    using protocolD(4) [OF assms(1), of u] assms(4) True by (simp_all add: thread_ok_def)
  have t: "coll_state (coll g t) = ep G"
    using protocolD(4) [OF assms(1), of t] assms(2,3) by (simp add: thread_ok_def)
  have "ep (\<gamma> u) = ep G" using assms(5,6) True u(1) t by auto
  then have "\<gamma> u = G" by (intro ep_close [of "\<gamma> u" G G]) (use u in auto)
  then show ?thesis using True by simp
next
  case False
  have "v \<in> set (u # rest) \<or> \<gamma> v = G"
    by (rule scan_okD [OF protocolD(3) [OF assms(1)] assms(2-4)])
  then show ?thesis using False by simp
qed

lemma protocol_scan:
  assumes "scan_next t g = Some g'" "protocol g G \<gamma>"
  shows "protocol g' (if epoch g' = epoch g then G else Suc G) \<gamma>"
  using assms(1)
proof (cases rule: scan_cases)
  case (1 prev u rest)
  have "protocol g' G (\<gamma>(t := \<gamma> t))"
    by (rule protocol_local [OF assms(2), where c = "coll g t" and p = "Scanning (Some u) rest"])
       (use 1 scan_passes [OF assms(2) 1(1) _ _ _ 1(3)] protocolD(4) [OF assms(2), of t] in
         \<open>auto simp: local_step_def thread_ok_def\<close>)
  then show ?thesis using 1(4) by (simp add: local_step_def)
next
  case (2 prev u rest)
  have d: "dead (ephase g u)" using protocolD(4) [OF assms(2), of u] 2(3) by (simp add: thread_ok_def)
  have "protocol g' G (\<gamma>(t := \<gamma> t))"
  proof (rule protocol_local [OF assms(2), where c = "reclaim (Obsolete u) (coll g t)" and p = "Scanning prev rest"])
    fix v assume "v \<noteq> t" "v \<in> set (anchor g)"
    then show "v \<in> set (anchor g') \<or> dead (ephase g v)"
      using 2(4) d by (cases "v = u") (simp_all add: step_defs)
  next
    show "thread_ok G (\<gamma> t) (t \<in> set (anchor g')) (reclaim (Obsolete u) (coll g t)) (Scanning prev rest)"
      using 2 protocolD(4) [OF assms(2), of t] by (simp add: thread_ok_def reclaim_def step_defs)
  qed (use 2 scan_passes [OF assms(2) 2(1)] in \<open>auto simp: step_defs\<close>)
  then show ?thesis using 2(4) by (simp add: step_defs)
next
  case (3 prev u rest)
  have "protocol g' G (\<gamma>(t := \<gamma> t))"
    by (rule protocol_local [OF assms(2), where c = "coll g t" and p = Unlocking])
       (use 3 protocolD(4) [OF assms(2), of t] in \<open>auto simp: local_step_def thread_ok_def\<close>)
  then show ?thesis using 3(3) by (simp add: local_step_def)
next
  case (4 prev)
  have t: "coll_state (coll g t) = ep (\<gamma> t)" "\<gamma> t \<le> G" "G \<le> Suc (\<gamma> t)"
    using protocolD(4) [OF assms(2), of t] 4(1) by (simp_all add: thread_ok_def)
  then have "Suc (\<gamma> t) = (if \<gamma> t = G then Suc G else G)" by auto
  moreover have "epoch g' = ep (Suc (\<gamma> t))" using 4(2) t(1) by (simp add: step_defs next_epoch_ep)
  ultimately have "epoch g' = epoch g \<longleftrightarrow> \<gamma> t \<noteq> G"
    using protocolD(1) [OF assms(2)] ep_Suc [of G] by (auto dest: sym)
  then show ?thesis using protocol_publish [OF assms(2) 4] by (auto split: if_splits)
qed

end
