(* ===== verification/Ebr_Garbage.thy ===== *)
theory Ebr_Garbage
  imports Ebr_Safety
begin

text \<open>
  The garbage of the collectors: an instance in a list of a collector is protected only by threads that
  have announced an epoch so late that the list is not freed before they end their guards.
\<close>

section \<open>The invariant\<close>

fun pending :: "('t, 'x) ephase \<Rightarrow> ('t, 'x) garbage list" where
  "pending (Freeing ys) = ys"
| "pending _ = []"

definition links :: "('t, 'x) collector \<Rightarrow> ('t, 'x) garbage set" where
  "links c = set (current_instance_link c) \<union> set (previous_instance_link c) \<union> set (next_instance_link c)"

definition held :: "('t, 'x) ebr \<Rightarrow> 't \<Rightarrow> ('t, 'x) garbage set" where
  "held g t = links (coll g t) \<union> set (pending (ephase g t))"

text \<open>The phases in which the thread may use what it has reached.\<close>

fun reading_in :: "('t, 'x) collector \<Rightarrow> ('t, 'x) ephase \<Rightarrow> bool" where
  "reading_in c Ready \<longleftrightarrow> num_readers c \<noteq> 0"
| "reading_in c (Freeing ys) \<longleftrightarrow> True"
| "reading_in c _ \<longleftrightarrow> False"

abbreviation reading :: "('t, 'x) ebr \<Rightarrow> 't \<Rightarrow> bool" where
  "reading g t \<equiv> reading_in (coll g t) (ephase g t)"

lemma reading_guarded: "reading_in c p \<Longrightarrow> guarded_in c p"
  by (cases p) simp_all

text \<open>The instances that are freed with a piece of garbage: those of an obsolete collector are all in its lists.\<close>

inductive contains :: "('t \<Rightarrow> ('t, 'x) collector) \<Rightarrow> ('t, 'x) garbage \<Rightarrow> 'x \<Rightarrow> bool" for cs where
  "contains cs (Instance x) x"
| "y \<in> links (cs u) \<Longrightarrow> contains cs y x \<Longrightarrow> contains cs (Obsolete u) x"

inductive_simps contains_Instance [simp]: "contains cs (Instance y) x"
inductive_simps contains_Obsolete: "contains cs (Obsolete u) x"

definition late :: "('t, 'x) ebr \<Rightarrow> ('t \<Rightarrow> nat) \<Rightarrow> 't \<Rightarrow> 't \<Rightarrow> ('t, 'x) garbage \<Rightarrow> bool" where
  "late g \<gamma> u t y \<longleftrightarrow>
     (y \<in> set (current_instance_link (coll g t)) \<longrightarrow> \<gamma> u \<le> Suc (\<gamma> t)) \<and>
     (y \<in> set (previous_instance_link (coll g t)) \<longrightarrow> \<gamma> u \<le> \<gamma> t) \<and>
     (y \<in> set (next_instance_link (coll g t)) \<longrightarrow> Suc (\<gamma> u) \<le> \<gamma> t) \<and>
     y \<notin> set (pending (ephase g t))"

definition garbage_inv :: "('t, 'x) ebr \<Rightarrow> ('t \<Rightarrow> nat) \<Rightarrow> bool" where
  "garbage_inv g \<gamma> \<longleftrightarrow>
     (\<forall>u. protected g u \<noteq> {} \<longrightarrow> reading g u) \<and>
     (\<forall>t y x. y \<in> held g t \<longrightarrow> contains (coll g) y x \<longrightarrow> x \<in> retired g) \<and>
     freed g \<subseteq> retired g \<and> (\<forall>u. freed g \<inter> protected g u = {}) \<and>
     (\<forall>t u. Obsolete u \<in> held g t \<longrightarrow> dead (ephase g u)) \<and>
     (\<forall>u t y x. x \<in> protected g u \<longrightarrow> contains (coll g) y x \<longrightarrow> late g \<gamma> u t y)"

lemma garbageD:
  assumes "garbage_inv g \<gamma>"
  shows "protected g u \<noteq> {} \<Longrightarrow> reading g u"
    "y \<in> held g t \<Longrightarrow> contains (coll g) y x \<Longrightarrow> x \<in> retired g"
    "freed g \<subseteq> retired g" "freed g \<inter> protected g u = {}"
    "Obsolete u \<in> held g t \<Longrightarrow> dead (ephase g u)"
    "x \<in> protected g u \<Longrightarrow> contains (coll g) y x \<Longrightarrow> late g \<gamma> u t y"
  using assms unfolding garbage_inv_def by blast+

lemma garbageI:
  assumes "\<And>u. protected g u \<noteq> {} \<Longrightarrow> reading g u"
    "\<And>t y x. y \<in> held g t \<Longrightarrow> contains (coll g) y x \<Longrightarrow> x \<in> retired g"
    "freed g \<subseteq> retired g" "\<And>u. freed g \<inter> protected g u = {}"
    "\<And>t u. Obsolete u \<in> held g t \<Longrightarrow> dead (ephase g u)"
    "\<And>u t y x. x \<in> protected g u \<Longrightarrow> contains (coll g) y x \<Longrightarrow> late g \<gamma> u t y"
  shows "garbage_inv g \<gamma>"
  using assms unfolding garbage_inv_def by blast

lemma contains_links:
  assumes "\<And>u. links (cs' u) = links (cs u)"
  shows "contains cs' = contains cs"
proof -
  have "contains cs' y x \<Longrightarrow> contains cs y x" for y x
    by (induction rule: contains.induct) (auto simp: assms intro: contains.intros)
  moreover have "contains cs y x \<Longrightarrow> contains cs' y x" for y x
    by (induction rule: contains.induct) (auto simp: assms [symmetric] intro: contains.intros)
  ultimately show ?thesis by (intro ext) blast
qed

text \<open>Garbage that holds no live collector contains the same instances after a step of a live thread.\<close>

lemma contains_upd:
  assumes "contains cs y x" "\<And>u. y = Obsolete u \<Longrightarrow> D u" "\<And>u v. D u \<Longrightarrow> Obsolete v \<in> links (cs u) \<Longrightarrow> D v" "\<not> D t"
  shows "contains (cs(t := c)) y x"
  using assms(1,2)
proof (induction rule: contains.induct)
  case (2 y u x)
  then have "D u" by blast
  then have "contains (cs(t := c)) y x" using 2 assms(3) by blast
  moreover have "y \<in> links ((cs(t := c)) u)" using 2(1) \<open>D u\<close> assms(4) by auto
  ultimately show ?case by (rule contains.intros(2) [rotated])
qed (rule contains.intros)

lemma contains_back:
  assumes "contains (cs(t := c)) y x" "\<And>u. y = Obsolete u \<Longrightarrow> D u" "\<And>u v. D u \<Longrightarrow> Obsolete v \<in> links (cs u) \<Longrightarrow> D v" "\<not> D t"
  shows "contains cs y x"
  using assms(1,2)
proof (induction rule: contains.induct)
  case (2 y u x)
  then have "D u" by blast
  moreover from this have u: "y \<in> links (cs u)" using 2(1) assms(4) by (auto split: if_splits)
  ultimately have "contains cs y x" using 2 assms(3) by blast
  then show ?case using u by (intro contains.intros(2))
qed (rule contains.intros)

section \<open>Steps that keep the lists\<close>

lemma garbage_same:
  assumes inv: "garbage_inv g \<gamma>" and c: "coll g' = (coll g)(t := c)" and p: "ephase g' = (ephase g)(t := p)"
    and l: "current_instance_link c = current_instance_link (coll g t)"
      "previous_instance_link c = previous_instance_link (coll g t)" "next_instance_link c = next_instance_link (coll g t)"
    and pd: "set (pending p) \<subseteq> set (pending (ephase g t))" and d: "dead (ephase g t) \<Longrightarrow> dead p"
    and i: "retired g' = retired g" "freed g' = freed g" "\<And>u. protected g' u \<subseteq> protected g u"
      "protected g' t \<noteq> {} \<Longrightarrow> reading_in c p \<and> n = \<gamma> t" "\<gamma> t \<le> n"
  shows "garbage_inv g' (\<gamma>(t := n))"
proof -
  have lk: "links (coll g' u) = links (coll g u)" for u using c l by (simp add: links_def)
  then have ct: "contains (coll g') = contains (coll g)" by (rule contains_links)
  have h: "held g' u \<subseteq> held g u" for u using lk [of u] p pd by (auto simp: held_def)
  show ?thesis
  proof (rule garbageI)
    fix u assume u: "protected g' u \<noteq> {}"
    show "reading g' u"
    proof (cases "u = t")
      case False
      have "protected g u \<noteq> {}" using i(3) [of u] u by auto
      then show ?thesis using False c p garbageD(1) [OF inv] by simp
    qed (use u i(4) c p in simp)
  next
    fix u s y x assume x: "x \<in> protected g' u" "contains (coll g') y x"
    have "x \<in> protected g u" "contains (coll g) y x" using x i(3) ct by auto
    then have "late g \<gamma> u s y" by (rule garbageD(6) [OF inv])
    moreover have "(\<gamma>(t := n)) u = \<gamma> u" using i(4) x(1) by auto
    ultimately show "late g' (\<gamma>(t := n)) u s y" using c p l pd i(5) by (auto simp: late_def)
  next
    fix s y x assume "y \<in> held g' s" "contains (coll g') y x"
    then show "x \<in> retired g'" using h [of s] ct i(1) garbageD(2) [OF inv, of y s x] by auto
  next
    fix s u assume "Obsolete u \<in> held g' s"
    then have "dead (ephase g u)" using h garbageD(5) [OF inv] by blast
    then show "dead (ephase g' u)" using d p by auto
  next
    fix u show "freed g' \<inter> protected g' u = {}" using i(2) i(3) [of u] garbageD(4) [OF inv, of u] by blast
  qed (use i(1,2) garbageD(3) [OF inv] in simp)
qed

text \<open>The lists of a step that changes them: what a live collector holds is not the content of an obsolete one.\<close>

lemma contains_step:
  assumes "garbage_inv g \<gamma>" "\<not> dead (ephase g t)" "\<And>u. y = Obsolete u \<Longrightarrow> dead (ephase g u)"
  shows "contains ((coll g)(t := c)) y x = contains (coll g) y x"
proof -
  have "dead (ephase g v)" if "dead (ephase g u)" "Obsolete v \<in> links (coll g u)" for u v
    using garbageD(5) [OF assms(1)] that(2) by (auto simp: held_def)
  then show ?thesis
    using contains_upd [of "coll g" y x "\<lambda>u. dead (ephase g u)" t c] contains_back [of "coll g" t c y x "\<lambda>u. dead (ephase g u)"]
      assms(2,3) by blast
qed

text \<open>A step of a live thread that moves its garbage: the lists of the others and what is protected stay.\<close>

lemma garbage_move:
  assumes inv: "garbage_inv g \<gamma>" and c: "coll g' = (coll g)(t := c)" and p: "ephase g' = (ephase g)(t := p)"
    and d: "\<not> dead (ephase g t)"
    and i: "protected g' = protected g" "freed g \<subseteq> freed g'" "retired g \<subseteq> retired g'" "freed g' \<subseteq> retired g'"
      "\<And>u. freed g' \<inter> protected g u = {}"
    and gd: "protected g t \<noteq> {} \<Longrightarrow> reading_in c p \<and> n = \<gamma> t"
    and h: "\<And>y. y \<in> links c \<union> set (pending p) \<Longrightarrow> (\<forall>u. y = Obsolete u \<longrightarrow> dead (ephase g u)) \<and>
      (\<forall>x. contains (coll g) y x \<longrightarrow> x \<in> retired g')"
    and lt: "\<And>u y x. x \<in> protected g u \<Longrightarrow> contains (coll g) y x \<Longrightarrow> y \<in> links c \<union> set (pending p) \<Longrightarrow> late g' (\<gamma>(t := n)) u t y"
  shows "garbage_inv g' (\<gamma>(t := n))"
proof -
  have ob: "dead (ephase g u)" if "Obsolete u \<in> held g' s" for u s
    using that h [of "Obsolete u"] garbageD(5) [OF inv, of u s] c p by (cases "s = t") (auto simp: held_def)
  have ct: "contains (coll g') y x = contains (coll g) y x" if "y \<in> held g' s" for y x s
    unfolding c by (rule contains_step [OF inv d]) (use that ob in auto)
  show ?thesis
  proof (rule garbageI)
    fix u assume u: "protected g' u \<noteq> {}"
    then show "reading g' u" using garbageD(1) [OF inv, of u] gd c p i(1) by (cases "u = t") simp_all
  next
    fix s y x assume y: "y \<in> held g' s" "contains (coll g') y x"
    then have x: "contains (coll g) y x" using ct by blast
    show "x \<in> retired g'"
    proof (cases "s = t")
      case True
      then show ?thesis using y(1) h [of y] x c p by (auto simp: held_def)
    next
      case False
      then have "y \<in> held g s" using y(1) c p by (simp add: held_def)
      then show ?thesis using garbageD(2) [OF inv _ x] i(3) by blast
    qed
  next
    fix s u assume "Obsolete u \<in> held g' s"
    then show "dead (ephase g' u)" using ob d p by auto
  next
    fix u s y x assume x: "x \<in> protected g' u" "contains (coll g') y x"
    show "late g' (\<gamma>(t := n)) u s y"
    proof (cases "y \<in> held g' s")
      case True
      have u: "x \<in> protected g u" "contains (coll g) y x" using x i(1) ct [OF True] by simp_all
      show ?thesis
      proof (cases "s = t")
        case True
        then show ?thesis using lt [OF u] \<open>y \<in> held g' s\<close> c p by (simp add: held_def)
      next
        case False
        have "(\<gamma>(t := n)) u = \<gamma> u" using gd u(1) by auto
        then show ?thesis using garbageD(6) [OF inv u, of s] False c p by (simp add: late_def)
      qed
    qed (auto simp: late_def held_def links_def)
  qed (use i in auto)
qed

section \<open>The steps\<close>

text \<open>A step of a live thread that changes neither its lists nor its announcement.\<close>

lemma garbage_keep:
  assumes "garbage_inv g \<gamma>" "local_step t c p g g'" "same_instances g g'"
    "current_instance_link c = current_instance_link (coll g t)"
    "previous_instance_link c = previous_instance_link (coll g t)" "next_instance_link c = next_instance_link (coll g t)"
    "set (pending p) \<subseteq> set (pending (ephase g t))" "\<not> dead (ephase g t)" "reading g t \<Longrightarrow> reading_in c p"
  shows "garbage_inv g' \<gamma>"
proof -
  have "garbage_inv g' (\<gamma>(t := \<gamma> t))"
    by (rule garbage_same [OF assms(1), where t = t and c = c and p = p])
       (use assms garbageD(1) [OF assms(1), of t] in \<open>auto simp: local_step_def same_instances_def\<close>)
  then show ?thesis by simp
qed

lemma garbage_load: "new_guard_load d t g = Some g' \<Longrightarrow> garbage_inv g \<gamma> \<Longrightarrow> garbage_inv g' \<gamma>"
  using load_cases [of d t g g'] garbage_keep [of g \<gamma> t "(coll g t)\<lparr>num_readers := 1\<rparr>" "Loaded (epoch g) d" g'] by simp

lemma garbage_nested:
  assumes "new_guard_nested t g = Some g' \<or> end_guard_nested t g = Some g'" "garbage_inv g \<gamma>"
  shows "garbage_inv g' \<gamma>"
  using assms(1)
proof (cases rule: nested_cases)
  case (1 n)
  then show ?thesis using garbage_keep [OF assms(2) 1(5,4)]
    by (simp add: in_user_code_def split: ephase.splits)
qed

lemma garbage_end:
  assumes "end_guard t g = Some g'" "garbage_inv g \<gamma>"
  shows "garbage_inv g' \<gamma>"
  using assms(1)
proof (cases rule: end_cases)
  case (1 n p)
  have "garbage_inv g' (\<gamma>(t := \<gamma> t))"
    by (rule garbage_same [OF assms(2), where t = t and c = "(coll g t)\<lparr>next_epoch_update := n\<rparr>" and p = p])
       (use 1 in \<open>auto simp: local_step_def\<close>)
  then show ?thesis by simp
qed

lemma garbage_finish:
  assumes "end_guard_finish t g = Some g'" "garbage_inv g \<gamma>"
  shows "garbage_inv g' \<gamma>"
  using assms(1)
proof (cases rule: finish_cases)
  case (1 n d)
  then show ?thesis using garbage_keep [OF assms(2) 1(3,2)] by simp
qed

lemma garbage_invalidate:
  assumes "invalidate t g = Some g'" "garbage_inv g \<gamma>"
  shows "garbage_inv g' \<gamma>"
  using invalidate_cases [OF assms(1)] garbage_keep [OF assms(2), of t _ Marking g'] by fastforce

lemma garbage_mark:
  assumes "mark_scan_enforced t g = Some g'" "garbage_inv g \<gamma>"
  shows "garbage_inv g' \<gamma>"
proof -
  have m: "ephase g t = Marking" using assms(1) by (simp add: mark_scan_enforced_def split: if_splits)
  then have "protected g t = {}" using garbageD(1) [OF assms(2), of t] by auto
  then have "garbage_inv g' (\<gamma>(t := \<gamma> t))"
    by (intro garbage_same [OF assms(2), where t = t and c = "coll g t" and p = Finished])
       (use m assms(1) in \<open>auto simp: mark_scan_enforced_def step_defs\<close>)
  then show ?thesis by simp
qed

lemma garbage_anchor:
  assumes "lock_anchor t g = Some g' \<or> unlock_anchor t g = Some g'" "garbage_inv g \<gamma>"
  shows "garbage_inv g' \<gamma>"
proof -
  have "\<exists>p. coll g' = (coll g)(t := coll g t) \<and> ephase g' = (ephase g)(t := p) \<and> pending p = [] \<and> \<not> reading g t \<and>
      \<not> dead (ephase g t) \<and> same_instances g g'"
    using assms(1) by (auto simp: lock_anchor_def unlock_anchor_def step_defs split: if_splits)
  then obtain p where p: "coll g' = (coll g)(t := coll g t)" "ephase g' = (ephase g)(t := p)" "pending p = []" "\<not> reading g t"
      "\<not> dead (ephase g t)" "same_instances g g'" by blast
  have "garbage_inv g' (\<gamma>(t := \<gamma> t))"
    by (rule garbage_same [OF assms(2), where t = t and c = "coll g t" and p = p])
       (use p garbageD(1) [OF assms(2), of t] in \<open>auto simp: same_instances_def\<close>)
  then show ?thesis by simp
qed

lemma garbage_alloc:
  assumes "coll_alloc t g = Some g'" "garbage_inv g \<gamma>"
  shows "garbage_inv g' (\<gamma>(t := 0))"
proof -
  have g: "ephase g t = Unstarted" "g' = set_ephase t Ready (set_coll t coll_new (g\<lparr>anchor := t # anchor g\<rparr>))"
    using assms(1) by (auto simp: coll_alloc_def split: if_splits)
  have np: "protected g t = {}" using garbageD(1) [OF assms(2), of t] g(1) by auto
  show ?thesis
    by (rule garbage_move [OF assms(2), where t = t and c = coll_new and p = Ready])
       (use g np garbageD(3,4) [OF assms(2)] in \<open>auto simp: step_defs coll_new_def links_def\<close>)
qed

lemma garbage_announce:
  assumes "new_guard_announce t g = Some g'" "garbage_inv g \<gamma>" "protocol g G \<gamma>" "prompt t g"
  shows "garbage_inv g' (\<gamma>(t := G))"
proof -
  have le: "\<gamma> t \<le> G" using protocolD(4) [OF assms(3), of t] by (simp add: thread_ok_def)
  have np: "protected g t = {}"
    using assms(1) garbageD(1) [OF assms(2), of t] by (cases rule: announce_cases) auto
  show ?thesis
    using assms(1)
  proof (cases rule: announce_cases)
    case (1 e d c)
    show ?thesis
      by (rule garbage_same [OF assms(2), where t = t and c = c and p = Ready])
         (use 1 np le in \<open>auto simp: local_step_def same_instances_def\<close>)
  next
    case (2 e c)
    let ?c = "snd (rotate_links c)" and ?p = "Freeing (next_instance_link c) :: ('a, 'b) ephase"
    have l: "current_instance_link ?c = []" "previous_instance_link ?c = current_instance_link (coll g t)"
        "next_instance_link ?c = previous_instance_link (coll g t)" "next_instance_link c = next_instance_link (coll g t)"
      using 2(4) by (simp_all add: rotate_links_def Let_def)
    have G: "\<gamma> t < G"
      using le 2(1,3) assms(4) protocolD(1,4) [OF assms(3)] by (auto simp: prompt_def thread_ok_def le_less)
    have h: "y \<in> links ?c \<union> set (pending ?p) \<Longrightarrow> y \<in> held g t" for y
      using l by (auto simp: links_def held_def)
    show ?thesis
    proof (rule garbage_move [OF assms(2), where t = t and c = ?c and p = ?p])
      fix u y x
      assume x: "x \<in> protected g u" "contains (coll g) y x" "y \<in> links ?c \<union> set (pending ?p)"
      have "guarded g u" using garbageD(1) [OF assms(2), of u] x(1) reading_guarded by blast
      then have "G \<le> Suc (\<gamma> u)" "u \<noteq> t" using protocolD(4) [OF assms(3), of u] 2(1) by (auto simp: thread_ok_def)
      then show "late g' (\<gamma>(t := G)) u t y"
        using garbageD(6) [OF assms(2) x(1,2), of t] l G 2(5) by (auto simp: late_def local_step_def)
    next
      fix y assume "y \<in> links ?c \<union> set (pending ?p)"
      then have y: "y \<in> held g t" by (rule h)
      then show "(\<forall>u. y = Obsolete u \<longrightarrow> dead (ephase g u)) \<and> (\<forall>x. contains (coll g) y x \<longrightarrow> x \<in> retired g')"
        using garbageD(2,5) [OF assms(2)] 2(2) by (auto simp: same_instances_def)
    qed (use 2 np le garbageD(3,4) [OF assms(2)] in \<open>auto simp: local_step_def same_instances_def\<close>)
  qed
qed

lemma garbage_free:
  assumes "free_next t g = Some g'" "garbage_inv g \<gamma>" "protocol g G \<gamma>"
  shows "garbage_inv g' \<gamma>"
  using assms(1)
proof (cases rule: free_cases)
  case 1
  then show ?thesis using garbage_keep [OF assms(2) 1(3,2)] protocolD(4) [OF assms(3), of t]
    by (simp add: thread_ok_def)
next
  case (2 x ys)
  have h: "Instance x \<in> held g t" using 2(1) by (simp add: held_def)
  have np: "x \<notin> protected g u" for u
    using garbageD(6) [OF assms(2), of x u "Instance x" t] 2(1) by (auto simp: late_def)
  have "garbage_inv g' (\<gamma>(t := \<gamma> t))"
  proof (rule garbage_move [OF assms(2), where t = t and c = "coll g t" and p = "Freeing ys"])
    fix u y z
    assume "z \<in> protected g u" "contains (coll g) y z"
    then show "late g' (\<gamma>(t := \<gamma> t)) u t y"
      using garbageD(6) [OF assms(2), of z u y t] 2 by (auto simp: late_def local_step_def)
  next
    fix y assume "y \<in> links (coll g t) \<union> set (pending (Freeing ys))"
    then have "y \<in> held g t" using 2(1) by (auto simp: held_def)
    then show "(\<forall>u. y = Obsolete u \<longrightarrow> dead (ephase g u)) \<and> (\<forall>x. contains (coll g) y x \<longrightarrow> x \<in> retired g')"
      using garbageD(2,5) [OF assms(2)] 2(2) by auto
  next
    show "freed g' \<subseteq> retired g'" using 2 garbageD(2) [OF assms(2) h, of x] garbageD(3) [OF assms(2)] by auto
  next
    fix u show "freed g' \<inter> protected g u = {}" using 2(4) np garbageD(4) [OF assms(2), of u] by auto
  qed (use 2 in \<open>auto simp: local_step_def\<close>)
  then show ?thesis by simp
next
  case (3 v ys zs)
  have h: "Obsolete v \<in> held g t" using 3(1) by (simp add: held_def)
  have zs: "y \<in> links (coll g v)" if "y \<in> set zs" for y using 3(3) that by (auto simp: links_def)
  have "garbage_inv g' (\<gamma>(t := \<gamma> t))"
  proof (rule garbage_move [OF assms(2), where t = t and c = "coll g t" and p = "Freeing (zs @ ys)"])
    fix u y z
    assume x: "z \<in> protected g u" "contains (coll g) y z"
    have "y \<notin> set zs"
      using garbageD(6) [OF assms(2) x(1), of "Obsolete v" t] contains.intros(2) [OF zs x(2)] 3(1) by (auto simp: late_def)
    then show "late g' (\<gamma>(t := \<gamma> t)) u t y"
      using garbageD(6) [OF assms(2) x, of t] 3 by (auto simp: late_def local_step_def)
  next
    fix y assume "y \<in> links (coll g t) \<union> set (pending (Freeing (zs @ ys)))"
    then have "y \<in> held g t \<or> y \<in> held g v" using 3(1) zs by (auto simp: held_def)
    then show "(\<forall>u. y = Obsolete u \<longrightarrow> dead (ephase g u)) \<and> (\<forall>x. contains (coll g) y x \<longrightarrow> x \<in> retired g')"
      using garbageD(2,5) [OF assms(2)] 3(2) by (auto simp: same_instances_def)
  qed (use 3 garbageD(3,4) [OF assms(2)] in \<open>auto simp: local_step_def same_instances_def\<close>)
  then show ?thesis by simp
qed

lemma garbage_reach:
  assumes "reach x t g = Some g'" "garbage_inv g \<gamma>"
  shows "garbage_inv g' \<gamma>"
proof -
  have g: "in_user_code t g" "num_readers (coll g t) \<noteq> 0" "x \<notin> retired g"
      "g' = g\<lparr>protected := (protected g)(t := insert x (protected g t))\<rparr>"
    using assms(1) by (auto simp: reach_def split: if_splits)
  have r: "reading g t" using g(1,2) by (simp add: in_user_code_def split: ephase.splits)
  show ?thesis
  proof (rule garbageI)
    fix u s y z
    assume z: "z \<in> protected g' u" "contains (coll g') y z"
    show "late g' \<gamma> u s y"
    proof (cases "z \<in> protected g u")
      case True
      then show ?thesis using garbageD(6) [OF assms(2), of z u y s] z(2) g(4) by (simp add: late_def)
    next
      case False
      then have "z = x" using z(1) g(4) by (simp split: if_splits)
      then have "y \<notin> held g s" using garbageD(2) [OF assms(2), of y s z] z(2) g(3,4) by auto
      then show ?thesis using g(4) by (auto simp: late_def held_def links_def)
    qed
  qed (use g r garbageD(1-5) [OF assms(2)] in \<open>auto simp: held_def split: if_splits\<close>)
qed

text \<open>A guarded thread takes new garbage into its current list: no thread protects anything in an epoch that is
  later than the next one of the thread.\<close>

lemma garbage_push:
  assumes "garbage_inv g \<gamma>" "protocol g G \<gamma>" "guarded g t"
    "coll g' = (coll g)(t := reclaim y (coll g t))" "ephase g' = (ephase g)(t := p)" "pending p = pending (ephase g t)"
    "reading g t \<Longrightarrow> reading_in (reclaim y (coll g t)) p" "protected g' = protected g" "freed g' = freed g"
    "retired g \<subseteq> retired g'" "\<And>u. y = Obsolete u \<Longrightarrow> dead (ephase g u)" "\<And>x. contains (coll g) y x \<Longrightarrow> x \<in> retired g'"
  shows "garbage_inv g' \<gamma>"
proof -
  let ?c = "reclaim y (coll g t)"
  have d: "\<not> dead (ephase g t)" using assms(3) by (cases "ephase g t") simp_all
  have lk: "links ?c = insert y (links (coll g t))" by (auto simp: links_def reclaim_def)
  have t: "G \<le> Suc (\<gamma> t)" using protocolD(4) [OF assms(2), of t] assms(3) by (simp add: thread_ok_def)
  have "garbage_inv g' (\<gamma>(t := \<gamma> t))"
  proof (rule garbage_move [OF assms(1), where t = t and c = ?c and p = p])
    fix u z x
    assume x: "x \<in> protected g u" "contains (coll g) z x"
    have "\<gamma> u \<le> G" using protocolD(4) [OF assms(2), of u] by (simp add: thread_ok_def)
    then show "late g' (\<gamma>(t := \<gamma> t)) u t z"
      using garbageD(6) [OF assms(1) x, of t] t assms(4-6) by (auto simp: late_def reclaim_def)
  next
    fix z assume "z \<in> links ?c \<union> set (pending p)"
    then have "z = y \<or> z \<in> held g t" using lk assms(6) by (auto simp: held_def)
    then show "(\<forall>u. z = Obsolete u \<longrightarrow> dead (ephase g u)) \<and> (\<forall>x. contains (coll g) z x \<longrightarrow> x \<in> retired g')"
      using garbageD(2,5) [OF assms(1)] assms(10-12) by blast
  qed (use assms d garbageD(1,3,4) [OF assms(1)] in auto)
  then show ?thesis by simp
qed

lemma garbage_defer:
  assumes "guard_defer x t g = Some g'" "garbage_inv g \<gamma>" "protocol g G \<gamma>"
  shows "garbage_inv g' \<gamma>"
proof -
  have g: "in_user_code t g" "num_readers (coll g t) \<noteq> 0"
      "g' = set_coll t (reclaim (Instance x) (coll g t)) (g\<lparr>retired := insert x (retired g)\<rparr>)"
    using assms(1) by (auto simp: guard_defer_def split: if_splits)
  have r: "reading g t" "reading_in (reclaim (Instance x) (coll g t)) (ephase g t)"
    using g(1,2) by (simp_all add: in_user_code_def reclaim_def split: ephase.splits)
  show ?thesis
    by (rule garbage_push [OF assms(2,3), of t _ "Instance x" "ephase g t"])
       (use g r reading_guarded in \<open>auto simp: step_defs\<close>)
qed

lemma garbage_scan:
  assumes "scan_next t g = Some g'" "garbage_inv g \<gamma>" "protocol g G \<gamma>"
  shows "garbage_inv g' \<gamma>"
  using assms(1)
proof (cases rule: scan_cases)
  case (1 prev u rest)
  then show ?thesis using garbage_keep [OF assms(2) 1(4,2)] by simp
next
  case (2 prev u rest)
  have d: "dead (ephase g u)" using protocolD(4) [OF assms(3), of u] 2(3) by (simp add: thread_ok_def)
  have "x \<in> retired g" if x: "contains (coll g) (Obsolete u) x" for x
  proof -
    obtain y where "y \<in> links (coll g u)" "contains (coll g) y x" using x by (auto simp: contains_Obsolete)
    then show ?thesis using garbageD(2) [OF assms(2), of y u x] by (simp add: held_def)
  qed
  then show ?thesis
    by (intro garbage_push [OF assms(2,3), of t _ "Obsolete u" "Scanning prev rest"])
       (use 2 d in \<open>auto simp: step_defs\<close>)
next
  case (3 prev u rest)
  then show ?thesis using garbage_keep [OF assms(2) 3(3,2)] by simp
next
  case (4 prev)
  have np: "protected g t = {}" using garbageD(1) [OF assms(2), of t] 4(1) by auto
  have "garbage_inv g' (\<gamma>(t := \<gamma> t))"
    by (rule garbage_same [OF assms(2), where t = t and c = "coll g t" and p = Unlocking])
       (use 4 np in \<open>auto simp: step_defs\<close>)
  then show ?thesis by simp
qed

section \<open>Every run with prompt announcements\<close>

definition ebr_inv :: "('t, 'x) ebr \<Rightarrow> bool" where
  "ebr_inv g \<longleftrightarrow> (\<exists>G \<gamma>. protocol g G \<gamma> \<and> garbage_inv g \<gamma>)"

lemma ebr_invI: "protocol g G \<gamma> \<Longrightarrow> garbage_inv g \<gamma> \<Longrightarrow> ebr_inv g"
  by (auto simp: ebr_inv_def)

lemma ebr_inv_init: "ebr_inv ebr_init"
  by (rule ebr_invI [of _ 0 "\<lambda>_. 0"])
     (auto simp: ebr_init_def protocol_def thread_ok_def lock_ok_def scan_ok_def garbage_inv_def held_def links_def coll_new_def
       ep_def INACTIVE_def INVALID_def)

lemma ebr_inv_step:
  assumes "ebr_step t g g'" "prompt t g" "ebr_inv g"
  shows "ebr_inv g'"
proof -
  obtain G \<gamma> where i: "protocol g G \<gamma>" "garbage_inv g \<gamma>" using assms(3) by (auto simp: ebr_inv_def)
  show ?thesis using assms(1)
  proof cases
    case 1
    show ?thesis by (rule ebr_invI [OF protocol_alloc [OF 1 i(1)] garbage_alloc [OF 1 i(2)]])
  next
    case (2 d)
    show ?thesis by (rule ebr_invI [OF protocol_load [OF 2 i(1)] garbage_load [OF 2 i(2)]])
  next
    case 3
    show ?thesis by (rule ebr_invI [OF protocol_announce [OF 3 i(1) assms(2)] garbage_announce [OF 3 i(2,1) assms(2)]])
  next
    case 4
    show ?thesis by (rule ebr_invI [OF protocol_nested [OF disjI1 [OF 4] i(1)] garbage_nested [OF disjI1 [OF 4] i(2)]])
  next
    case 5
    show ?thesis by (rule ebr_invI [OF protocol_free [OF 5 i(1)] garbage_free [OF 5 i(2,1)]])
  next
    case (6 x)
    show ?thesis by (rule ebr_invI [OF protocol_user [OF disjI1 [OF 6] i(1)] garbage_reach [OF 6 i(2)]])
  next
    case (7 x)
    show ?thesis by (rule ebr_invI [OF protocol_user [OF disjI2 [OF 7] i(1)] garbage_defer [OF 7 i(2,1)]])
  next
    case 8
    show ?thesis by (rule ebr_invI [OF protocol_nested [OF disjI2 [OF 8] i(1)] garbage_nested [OF disjI2 [OF 8] i(2)]])
  next
    case 9
    show ?thesis by (rule ebr_invI [OF protocol_end [OF 9 i(1)] garbage_end [OF 9 i(2)]])
  next
    case 10
    show ?thesis by (rule ebr_invI [OF protocol_finish [OF 10 i(1)] garbage_finish [OF 10 i(2)]])
  next
    case 11
    show ?thesis by (rule ebr_invI [OF protocol_lock [OF 11 i(1)] garbage_anchor [OF disjI1 [OF 11] i(2)]])
  next
    case 12
    show ?thesis by (rule ebr_invI [OF protocol_scan [OF 12 i(1)] garbage_scan [OF 12 i(2,1)]])
  next
    case 13
    show ?thesis by (rule ebr_invI [OF protocol_unlock [OF 13 i(1)] garbage_anchor [OF disjI2 [OF 13] i(2)]])
  next
    case 14
    show ?thesis by (rule ebr_invI [OF protocol_invalidate [OF 14 i(1)] garbage_invalidate [OF 14 i(2)]])
  next
    case 15
    show ?thesis by (rule ebr_invI [OF protocol_mark [OF 15 i(1)] garbage_mark [OF 15 i(2)]])
  qed
qed

lemma prompt_inv: "ebr_reachable True g \<Longrightarrow> ebr_inv g"
  by (induction rule: ebr_reachable.induct) (auto intro: ebr_inv_init ebr_inv_step)

end
