(* ===== verification/Ebr_Thms.thy ===== *)
theory Ebr_Thms
  imports Ebr_Garbage
begin

text \<open>
  The properties of epoch-based reclamation: with prompt announcements a guard protects what its thread has
  reached; and a run with late announcements in which an instance is freed under a guard.
\<close>

section \<open>Runs as sequences of operations\<close>

primrec ebr_run :: "(('t, 'x) ebr \<Rightarrow> ('t, 'x) ebr option) list \<Rightarrow> ('t, 'x) ebr \<Rightarrow> ('t, 'x) ebr option" where
  "ebr_run [] g = Some g"
| "ebr_run (f # fs) g = (case f g of None \<Rightarrow> None | Some g' \<Rightarrow> ebr_run fs g')"

definition is_step :: "(('t, 'x) ebr \<Rightarrow> ('t, 'x) ebr option) \<Rightarrow> bool" where
  "is_step f \<longleftrightarrow> (\<forall>g g'. f g = Some g' \<longrightarrow> (\<exists>t. ebr_step t g g'))"

lemma is_stepI: "(\<And>g g'. f g = Some g' \<Longrightarrow> ebr_step t g g') \<Longrightarrow> is_step f"
  unfolding is_step_def by blast

lemma is_step [simp]:
  "is_step (coll_alloc t)"
  "is_step (new_guard_load d t)"
  "is_step (new_guard_announce t)"
  "is_step (new_guard_nested t)"
  "is_step (free_next t)"
  "is_step (reach x t)"
  "is_step (guard_defer x t)"
  "is_step (end_guard_nested t)"
  "is_step (end_guard t)"
  "is_step (end_guard_finish t)"
  "is_step (lock_anchor t)"
  "is_step (scan_next t)"
  "is_step (unlock_anchor t)"
  "is_step (invalidate t)"
  "is_step (mark_scan_enforced t)"
proof -
  show "is_step (coll_alloc t)" by (rule is_stepI, erule ebr_step.intros(1))
  show "is_step (new_guard_load d t)" by (rule is_stepI, erule ebr_step.intros(2))
  show "is_step (new_guard_announce t)" by (rule is_stepI, erule ebr_step.intros(3))
  show "is_step (new_guard_nested t)" by (rule is_stepI, erule ebr_step.intros(4))
  show "is_step (free_next t)" by (rule is_stepI, erule ebr_step.intros(5))
  show "is_step (reach x t)" by (rule is_stepI, erule ebr_step.intros(6))
  show "is_step (guard_defer x t)" by (rule is_stepI, erule ebr_step.intros(7))
  show "is_step (end_guard_nested t)" by (rule is_stepI, erule ebr_step.intros(8))
  show "is_step (end_guard t)" by (rule is_stepI, erule ebr_step.intros(9))
  show "is_step (end_guard_finish t)" by (rule is_stepI, erule ebr_step.intros(10))
  show "is_step (lock_anchor t)" by (rule is_stepI, erule ebr_step.intros(11))
  show "is_step (scan_next t)" by (rule is_stepI, erule ebr_step.intros(12))
  show "is_step (unlock_anchor t)" by (rule is_stepI, erule ebr_step.intros(13))
  show "is_step (invalidate t)" by (rule is_stepI, erule ebr_step.intros(14))
  show "is_step (mark_scan_enforced t)" by (rule is_stepI, erule ebr_step.intros(15))
qed

lemma run_reachable:
  "\<lbrakk>ebr_run fs g = Some g'; list_all is_step fs; ebr_reachable False g\<rbrakk> \<Longrightarrow> ebr_reachable False g'"
proof (induction fs arbitrary: g)
  case (Cons f fs)
  then obtain h where h: "f g = Some h" "ebr_run fs h = Some g'" by (auto split: option.splits)
  then obtain t where t: "ebr_step t g h" using Cons.prems(2) by (auto simp: is_step_def)
  have "ebr_reachable False h" by (rule ebr_reachable.step [OF Cons.prems(3) t]) simp
  then show ?case using Cons h(2) by simp
qed simp

text \<open>A guard that is created and dropped at once, while the epoch does not change, counts the cadence down.\<close>

definition idle_guard :: "'t \<Rightarrow> (('t, 'x) ebr \<Rightarrow> ('t, 'x) ebr option) list" where
  "idle_guard t = [new_guard_load False t, new_guard_announce t, end_guard t, end_guard_finish t]"

definition idle :: "'t \<Rightarrow> ('t, 'x) ebr \<Rightarrow> bool" where
  "idle t g \<longleftrightarrow> ephase g t = Ready \<and> num_readers (coll g t) = 0 \<and> announcement (coll g t) = epoch g \<and>
     coll_state (coll g t) = epoch g OR INACTIVE \<and> protected g t = {}"

definition count_to :: "'t \<Rightarrow> u8 \<Rightarrow> ('t, 'x) ebr \<Rightarrow> ('t, 'x) ebr" where
  "count_to t n g = g\<lparr>coll := (coll g)(t := (coll g t)\<lparr>next_epoch_update := n\<rparr>)\<rparr>"

lemma idle_guard_run:
  assumes "idle t g" "next_epoch_update (coll g t) \<noteq> 0"
  shows "ebr_run (idle_guard t) g = Some (count_to t (next_epoch_update (coll g t) - 1) g)"
proof -
  obtain st an n hg nr pv cu nx where c: "coll g t = \<lparr>coll_state = st, announcement = an, next_epoch_update = n,
      has_garbage = hg, num_readers = nr, previous_instance_link = pv, current_instance_link = cu, next_instance_link = nx\<rparr>"
    by (cases "coll g t")
  have p: "(protected g)(t := {}) = protected g" "(ephase g)(t := Ready) = ephase g"
    using assms(1) by (auto simp: idle_def fun_upd_idem)
  show ?thesis using assms p c
    by (simp add: idle_guard_def idle_def count_to_def new_guard_load_def new_guard_announce_def end_guard_def
        end_guard_finish_def set_ephase_def set_coll_def saturating_pred_def Let_def)
qed

lemma idle_count_to:
  "idle t (count_to t n g) = idle t g" "next_epoch_update (coll (count_to t n g) t) = n"
  "count_to t m (count_to t n g) = count_to t m g"
  by (simp_all add: idle_def count_to_def)

lemma idle_guards_reachable:
  assumes "idle t g" "ebr_reachable False g"
  shows "ebr_reachable False (count_to t 0 g)"
proof -
  have "ebr_reachable False (count_to t 0 g)"
    if "ebr_reachable False (count_to t (of_nat n) g)" "n \<le> 255" for n
    using that
  proof (induction n)
    case (Suc n)
    have n: "(of_nat (Suc n) :: u8) \<noteq> 0"
    proof
      assume "(of_nat (Suc n) :: u8) = 0"
      then have "2 ^ LENGTH(8) dvd Suc n" by (simp only: word_of_nat_eq_0_iff)
      then show False using Suc.prems(2) by (auto dest: dvd_imp_le)
    qed
    have "ebr_run (idle_guard t) (count_to t (of_nat (Suc n)) g) = Some (count_to t (of_nat n) g)"
      using idle_guard_run [of t "count_to t (of_nat (Suc n)) g"] n assms(1) by (simp add: idle_count_to)
    then have "ebr_reachable False (count_to t (of_nat n) g)"
      by (rule run_reachable) (use Suc.prems(1) in \<open>simp_all add: idle_guard_def\<close>)
    then show ?case using Suc by simp
  qed simp
  moreover have "count_to t (of_nat (unat (next_epoch_update (coll g t)))) g = g"
    by (simp add: count_to_def)
  moreover have "unat (next_epoch_update (coll g t)) \<le> 255"
    using unsigned_less [of "next_epoch_update (coll g t)", where 'a = nat] by simp
  ultimately show ?thesis using assms(2) by metis
qed

section \<open>Four threads\<close>

text \<open>The states of four collectors as explicit tuples, so that runs evaluate by simplification.\<close>

datatype tid = TA | TB | TC | TD

definition four ::
  "u8 \<Rightarrow> tag \<Rightarrow> (tid, nat) collector list \<Rightarrow> (tid, nat) ephase list \<Rightarrow> nat set \<Rightarrow> nat set \<Rightarrow> nat set \<Rightarrow> (tid, nat) ebr" where
  "four e tg cs ps R F P =
     \<lparr>epoch = e, anchor = [TD, TC, TB, TA], anchor_tag = tg,
      coll = case_tid (cs ! 0) (cs ! 1) (cs ! 2) (cs ! 3),
      ephase = case_tid (ps ! 0) (ps ! 1) (ps ! 2) (ps ! 3),
      retired = R, freed = F, protected = case_tid P {} {} {}\<rparr>"

lemma case_tid_upd [simp]:
  "(case_tid a b c d)(TA := x) = case_tid x b c d" "(case_tid a b c d)(TB := x) = case_tid a x c d"
  "(case_tid a b c d)(TC := x) = case_tid a b x d" "(case_tid a b c d)(TD := x) = case_tid a b c x"
  by (auto simp: fun_eq_iff split: tid.splits)

abbreviation inactive :: "u8 \<Rightarrow> u8 \<Rightarrow> (tid, nat) collector" where
  "inactive e n \<equiv> \<lparr>coll_state = e OR 4, announcement = e, next_epoch_update = n, has_garbage = False, num_readers = 0,
     previous_instance_link = [], current_instance_link = [], next_instance_link = []\<rparr>"

lemmas run_defs = coll_alloc_def new_guard_load_def new_guard_announce_def new_guard_nested_def free_next_def reach_def
  guard_defer_def end_guard_nested_def end_guard_def end_guard_finish_def lock_anchor_def scan_next_def unlock_anchor_def
  set_ephase_def set_coll_def saturating_pred_def reclaim_def rotate_links_def in_user_code_def next_epoch_def
  INACTIVE_def INVALID_def CADENCE_def four_def Let_def

lemma four_start: "ebr_run [coll_alloc TA, coll_alloc TB, coll_alloc TC, coll_alloc TD] ebr_init =
    Some (four 0 TagNone [inactive 0 255, inactive 0 255, inactive 0 255, inactive 0 255] [Ready, Ready, Ready, Ready] {} {} {})"
proof -
  have u: "f(TA := a, TB := b, TC := c, TD := d) = case_tid a b c d" for f :: "tid \<Rightarrow> 'z" and a b c d
    by (auto simp: fun_eq_iff split: tid.splits)
  have k: "(\<lambda>_. x) = case_tid x x x x" for x :: "nat set" by (auto simp: fun_eq_iff split: tid.splits)
  show ?thesis by (simp add: run_defs ebr_init_def coll_new_def u k)
qed

abbreviation loading :: "u8 \<Rightarrow> u8 \<Rightarrow> (tid, nat) collector" where
  "loading e n \<equiv> (inactive e n)\<lparr>num_readers := 1\<rparr>"

text \<open>Threads A, B and D have loaded epoch 0 when thread C advances the epoch to 1.\<close>

lemma four_advance: "ebr_run [new_guard_load False TA, new_guard_load False TB, new_guard_load False TD,
      new_guard_load False TC, new_guard_announce TC, end_guard TC, lock_anchor TC,
      scan_next TC, scan_next TC, scan_next TC, scan_next TC, scan_next TC, unlock_anchor TC, end_guard_finish TC,
      new_guard_load False TC, new_guard_announce TC, free_next TC, end_guard TC, end_guard_finish TC]
    (four 0 TagNone [inactive 0 255, inactive 0 255, inactive 0 0, inactive 0 0] [Ready, Ready, Ready, Ready] {} {} {}) =
    Some (four 1 TagNone [loading 0 255, loading 0 255, inactive 1 254, loading 0 0]
      [Loaded 0 False, Loaded 0 False, Ready, Loaded 0 False] {} {} {})"
  by (simp add: run_defs)

text \<open>They announce epoch 0 after the next scan of C has passed them. A reaches an instance and B retires it.
  B sees the epochs 1 and 2 and, when D has scanned with its epoch 0, 1 again.\<close>

definition late_run :: "((tid, nat) ebr \<Rightarrow> (tid, nat) ebr option) list" where
  "late_run = [new_guard_load False TC, new_guard_announce TC, end_guard TC, lock_anchor TC,
      scan_next TC, scan_next TC, scan_next TC, scan_next TC,
      new_guard_announce TA, new_guard_announce TB, new_guard_announce TD,
      reach 7 TA, guard_defer 7 TB, end_guard TB, end_guard_finish TB,
      new_guard_load False TB, new_guard_announce TB, free_next TB, end_guard TB, end_guard_finish TB,
      scan_next TC, unlock_anchor TC, end_guard_finish TC,
      new_guard_load False TB, new_guard_announce TB, free_next TB, end_guard TB, end_guard_finish TB,
      end_guard TD, lock_anchor TD, scan_next TD, scan_next TD, scan_next TD, scan_next TD, scan_next TD,
      unlock_anchor TD, end_guard_finish TD,
      new_guard_load False TB, new_guard_announce TB, free_next TB]"

lemma four_late: "\<exists>g. ebr_run late_run
    (four 1 TagNone [loading 0 255, loading 0 255, inactive 1 0, loading 0 0]
      [Loaded 0 False, Loaded 0 False, Ready, Loaded 0 False] {} {} {}) = Some g \<and>
    7 \<in> freed g \<and> 7 \<in> protected g TA \<and> num_readers (coll g TA) = 1 \<and> ephase g TA = Ready"
  by (simp add: late_run_def run_defs)

section \<open>Properties\<close>

primrec prompt_run :: "(('t, 'x) ebr \<Rightarrow> ('t, 'x) ebr option) list \<Rightarrow> ('t, 'x) ebr \<Rightarrow> bool" where
  "prompt_run [] g \<longleftrightarrow> True"
| "prompt_run (f # fs) g \<longleftrightarrow> (\<forall>t. prompt t g) \<and> (case f g of None \<Rightarrow> True | Some g' \<Rightarrow> prompt_run fs g')"

lemma prompt_run_reachable:
  "\<lbrakk>ebr_run fs g = Some g'; prompt_run fs g; list_all is_step fs; ebr_reachable True g\<rbrakk> \<Longrightarrow> ebr_reachable True g'"
proof (induction fs arbitrary: g)
  case (Cons f fs)
  then obtain h where h: "f g = Some h" "ebr_run fs h = Some g'" by (auto split: option.splits)
  then obtain t where t: "ebr_step t g h" using Cons.prems(3) by (auto simp: is_step_def)
  have "ebr_reachable True h" by (rule ebr_reachable.step [OF Cons.prems(4) t]) (use Cons.prems(2) in simp)
  then show ?case using Cons h by simp
qed simp

text \<open>Thread A has reached an instance that thread B has retired since.\<close>

definition guard_run :: "((tid, nat) ebr \<Rightarrow> (tid, nat) ebr option) list" where
  "guard_run = [coll_alloc TA, coll_alloc TB, new_guard_load False TA, new_guard_announce TA, reach 7 TA,
     new_guard_load False TB, new_guard_announce TB, guard_defer 7 TB, end_guard TB, end_guard_finish TB]"

definition guard_state :: "(tid, nat) ebr" where
  "guard_state = the (ebr_run guard_run ebr_init)"

lemma guard_state_run: "ebr_run guard_run ebr_init = Some guard_state"
  by (simp add: guard_state_def guard_run_def run_defs ebr_init_def coll_new_def)

lemma guard_state_facts: "protected guard_state TA = {7}" "retired guard_state = {7}" "freed guard_state = {}"
  by (simp_all add: guard_state_def guard_run_def run_defs ebr_init_def coll_new_def)

lemma guard_state_reachable: "ebr_reachable True guard_state"
proof (rule prompt_run_reachable [OF guard_state_run _ _ ebr_reachable.init])
  show "prompt_run guard_run ebr_init"
    by (simp add: guard_run_def run_defs ebr_init_def coll_new_def prompt_def)
qed (simp add: guard_run_def)

text \<open>C31. In every run in which each thread announces the epoch it has loaded while that is still the global
  epoch, an instance that a thread has reached under its guard is not freed before the guard ends, whatever the
  threads do: nested guards, retirements from destructors, scans, and garbage left by threads that are gone.\<close>

theorem ebr_guard_protects:
  assumes "ebr_reachable True g" "x \<in> protected g t"
  shows "x \<notin> freed g"
proof -
  obtain \<gamma> where "garbage_inv g \<gamma>" using prompt_inv [OF assms(1)] by (auto simp: ebr_inv_def)
  then show ?thesis using garbageD(4) [of g \<gamma> t] assms(2) by blast
qed

theorem ebr_guard_protects_witness:
  "ebr_reachable True guard_state \<and> 7 \<in> protected guard_state TA \<and> 7 \<in> retired guard_state \<and> 7 \<notin> freed guard_state"
  using ebr_guard_protects [OF guard_state_reachable, of 7 TA] guard_state_reachable by (simp add: guard_state_facts)

text \<open>C32. Without that restriction a guard does not protect: there is a run of \<^verbatim>\<open>new_guard\<close>, \<^verbatim>\<open>end_guard\<close> and \<^verbatim>\<open>try_scan\<close> in
  which an instance is freed while a thread that has reached it still has its guard. Three threads load epoch 0 and
  announce it after the epoch has moved on, one of them then scans with that old epoch and moves the
  global epoch back, and the thread that retired the instance counts this as a third new epoch.\<close>

theorem ebr_late_announcement_frees_guarded:
  "\<exists>g :: (tid, nat) ebr. ebr_reachable False g \<and> 7 \<in> freed g \<and> 7 \<in> protected g TA \<and>
     num_readers (coll g TA) = 1 \<and> ephase g TA = Ready"
proof -
  let ?f = "\<lambda>n m. four 0 TagNone [inactive 0 255, inactive 0 255, inactive 0 n, inactive 0 m] [Ready, Ready, Ready, Ready] {} {} {}"
  let ?h = "\<lambda>n. four 1 TagNone [loading 0 255, loading 0 255, inactive 1 n, loading 0 0]
      [Loaded 0 False, Loaded 0 False, Ready, Loaded 0 False] {} {} {}"
  have "ebr_reachable False (?f 255 255)"
    by (rule run_reachable [OF four_start]) (simp_all add: ebr_reachable.init)
  then have "ebr_reachable False (count_to TC 0 (?f 255 255))"
    by (rule idle_guards_reachable [rotated]) (simp add: idle_def four_def INACTIVE_def)
  moreover have "count_to TC 0 (?f 255 255) = ?f 0 255" by (simp add: count_to_def four_def)
  ultimately have "ebr_reachable False (count_to TD 0 (?f 0 255))"
    by (intro idle_guards_reachable) (simp_all add: idle_def four_def INACTIVE_def)
  moreover have "count_to TD 0 (?f 0 255) = ?f 0 0" by (simp add: count_to_def four_def)
  ultimately have "ebr_reachable False (?h 254)"
    by (intro run_reachable [OF four_advance]) simp_all
  then have "ebr_reachable False (count_to TC 0 (?h 254))"
    by (rule idle_guards_reachable [rotated]) (simp add: idle_def four_def INACTIVE_def)
  moreover have "count_to TC 0 (?h 254) = ?h 0" by (simp add: count_to_def four_def)
  ultimately have r: "ebr_reachable False (?h 0)" by simp
  obtain g where g: "ebr_run late_run (?h 0) = Some g" "7 \<in> freed g" "7 \<in> protected g TA" "num_readers (coll g TA) = 1"
      "ephase g TA = Ready" using four_late by blast
  have "ebr_reachable False g" by (rule run_reachable [OF g(1) _ r]) (simp add: late_run_def)
  then show ?thesis using g by blast
qed

text \<open>C33. The assertions of the collector hold in every such run: a thread with a guard has its announcement as its state
  byte, without the flag \<^verbatim>\<open>INACTIVE\<close>; a thread without one has the flag; the epoch is 0, 1 or 2; and the anchor is locked
  while a thread scans, and by that thread only.\<close>

theorem ebr_assertions:
  assumes "ebr_reachable True g"
  shows "(guarded g t \<longrightarrow> coll_state (coll g t) = announcement (coll g t) \<and> coll_state (coll g t) AND INACTIVE = 0) \<and>
    (\<not> guarded g t \<longrightarrow> coll_state (coll g t) AND INACTIVE \<noteq> 0) \<and>
    (epoch g = 0 \<or> epoch g = 1 \<or> epoch g = 2) \<and>
    (scans (ephase g t) \<longrightarrow> (anchor_tag g = First \<or> anchor_tag g = Both) \<and> (\<forall>u. scans (ephase g u) \<longrightarrow> u = t))"
proof -
  obtain G \<gamma> where p: "protocol g G \<gamma>" using prompt_inv [OF assms] by (auto simp: ebr_inv_def)
  show ?thesis using protocolD(1,2) [OF p] protocolD(4) [OF p, of t] ep_cases [of G]
    by (auto simp: thread_ok_def lock_ok_def)
qed

theorem ebr_assertions_witness:
  "guarded guard_state TA \<and> coll_state (coll guard_state TA) = announcement (coll guard_state TA)"
  using ebr_assertions [OF guard_state_reachable, of TA]
  by (simp add: guard_state_def guard_run_def run_defs ebr_init_def coll_new_def)

end
