(* ===== verification/Lru_List.thy ===== *)
theory Lru_List
  imports Scc_Prelude
begin

text \<open>
  The least-recently-used list of a cache bucket: \<^verbatim>\<open>DoublyLinkedList\<close> and its \<^verbatim>\<open>LruList\<close>
  implementation in \<^verbatim>\<open>src/hash_table/bucket.rs\<close>. The list is an array with one pair of slot numbers
  per slot of the bucket (the next more recently used slot and the next less recently used one,
  closed into a ring), together with a tail value that is one more than the most recently used slot
  and zero when no slot is tracked. The lemmas show that the three operations implement eviction
  from the end, removal, and move-to-front on the list of tracked slots.
\<close>

section \<open>The array and its operations\<close>

type_synonym lru_array = "(u8 \<times> u8) list"

abbreviation lru_len :: nat where
  "lru_len \<equiv> 32"

definition set_0 :: "nat \<Rightarrow> u8 \<Rightarrow> lru_array \<Rightarrow> lru_array" where
  "set_0 i x arr = arr[i := (x, snd (arr ! i))]"

definition set_1 :: "nat \<Rightarrow> u8 \<Rightarrow> lru_array \<Rightarrow> lru_array" where
  "set_1 i x arr = arr[i := (fst (arr ! i), x)]"

definition lru_default :: lru_array where
  "lru_default = replicate lru_len (0, 0)"

text \<open>\<^verbatim>\<open>evict\<close>: the evicted slot and the new tail, and the updated array.\<close>

definition lru_evict :: "lru_array \<Rightarrow> u32 \<Rightarrow> (u8 \<times> u32) option \<times> lru_array" where
  "lru_evict arr tail =
     (if tail = 0 then (None, arr)
      else
        let lru = fst (arr ! (unat tail - 1));
            (new_tail, arr) =
              (if tail - 1 = ucast lru then (0, arr)
               else
                 let new_lru = fst (arr ! unat lru);
                     arr = set_1 (unat new_lru) (ucast tail - 1) arr;
                     arr = set_0 (unat tail - 1) new_lru arr
                 in (tail, arr))
        in (Some (lru, new_tail), arr[unat lru := (0, 0)]))"

text \<open>\<^verbatim>\<open>remove\<close>: the new tail if it changes, and the updated array.\<close>

definition lru_remove :: "lru_array \<Rightarrow> u32 \<Rightarrow> u8 \<Rightarrow> u32 option \<times> lru_array" where
  "lru_remove arr tail entry =
     (if tail = 0 \<or>
         (arr ! unat entry = (0, 0) \<and>
          (arr ! 0 \<noteq> (entry, entry) \<or> (tail \<noteq> 1 \<and> tail \<noteq> ucast entry + 1)))
      then (None, arr)
      else if fst (arr ! unat entry) = entry
      then (Some 0, arr[unat entry := (0, 0)])
      else
        let prev = fst (arr ! unat entry);
            arr = set_1 (unat prev) (snd (arr ! unat entry)) arr;
            next = snd (arr ! unat entry);
            arr = set_0 (unat next) (fst (arr ! unat entry)) arr;
            new_tail = (if tail = ucast entry + 1 then Some (ucast (snd (arr ! unat entry)) + 1) else None)
        in (new_tail, arr[unat entry := (0, 0)]))"

text \<open>\<^verbatim>\<open>promote\<close>: the new tail if it changes, and the updated array.\<close>

definition lru_promote :: "lru_array \<Rightarrow> u32 \<Rightarrow> u8 \<Rightarrow> u32 option \<times> lru_array" where
  "lru_promote arr tail entry =
     (if tail = ucast entry + 1 then (None, arr)
      else if tail = 0
      then (Some (ucast entry + 1), set_1 (unat entry) entry (set_0 (unat entry) entry arr))
      else
        let arr =
              (if arr ! unat entry \<noteq> (0, 0) \<or> (arr ! 0 = (entry, entry) \<and> tail = 1)
               then
                 let prev = fst (arr ! unat entry);
                     arr = set_1 (unat prev) (snd (arr ! unat entry)) arr;
                     next = snd (arr ! unat entry)
                 in set_0 (unat next) (fst (arr ! unat entry)) arr
               else arr);
            oldest = fst (arr ! (unat tail - 1));
            arr = set_1 (unat oldest) entry arr;
            arr = set_0 (unat entry) oldest arr;
            arr = set_0 (unat tail - 1) entry arr;
            arr = set_1 (unat entry) (ucast tail - 1) arr
        in (Some (ucast entry + 1), arr))"

section \<open>The list that the array represents\<close>

definition prv :: "lru_array \<Rightarrow> nat \<Rightarrow> nat" where
  "prv arr x = unat (fst (arr ! x))"

definition nxt :: "lru_array \<Rightarrow> nat \<Rightarrow> nat" where
  "nxt arr x = unat (snd (arr ! x))"

text \<open>Every slot of the list is linked with the one after it, in both directions.\<close>

fun linked :: "lru_array \<Rightarrow> nat list \<Rightarrow> bool" where
  "linked arr (x # y # zs) \<longleftrightarrow> nxt arr x = y \<and> prv arr y = x \<and> linked arr (y # zs)"
| "linked arr _ \<longleftrightarrow> True"

definition ring :: "lru_array \<Rightarrow> nat list \<Rightarrow> bool" where
  "ring arr xs \<longleftrightarrow> xs = [] \<or> linked arr (xs @ [hd xs])"

text \<open>\<open>xs\<close> is the list of tracked slots, most recently used first.\<close>

definition lru_tail_of :: "nat list \<Rightarrow> u32" where
  "lru_tail_of xs = (case xs of [] \<Rightarrow> 0 | x # _ \<Rightarrow> of_nat (Suc x))"

definition lru_rel :: "lru_array \<Rightarrow> u32 \<Rightarrow> nat list \<Rightarrow> bool" where
  "lru_rel arr tail xs \<longleftrightarrow>
     length arr = lru_len \<and> distinct xs \<and> (\<forall>x\<in>set xs. x < lru_len) \<and> tail = lru_tail_of xs \<and>
     ring arr xs \<and> (\<forall>x<lru_len. x \<notin> set xs \<longrightarrow> arr ! x = (0, 0))"

section \<open>Rings\<close>

lemma linked_append:
  "linked arr (xs @ y # zs) \<longleftrightarrow> linked arr (xs @ [y]) \<and> linked arr (y # zs)"
  by (induction arr xs rule: linked.induct) auto

lemma linked_Cons_Cons_hd:
  "ys \<noteq> [] \<Longrightarrow> linked arr (x # ys) \<longleftrightarrow> nxt arr x = hd ys \<and> prv arr (hd ys) = x \<and> linked arr ys"
  by (cases ys) auto

lemma linked_snoc:
  "ys \<noteq> [] \<Longrightarrow> linked arr (ys @ [x]) \<longleftrightarrow> linked arr ys \<and> nxt arr (last ys) = x \<and> prv arr x = last ys"
proof -
  assume "ys \<noteq> []"
  then obtain zs z where ys: "ys = zs @ [z]" using rev_exhaust by blast
  show ?thesis using linked_append [of arr zs z "[x]"] by (auto simp: ys)
qed

lemma ring_rotate: "ring arr (as @ bs) \<Longrightarrow> ring arr (bs @ as)"
proof (cases "as = [] \<or> bs = []")
  case True
  then show "ring arr (as @ bs) \<Longrightarrow> ring arr (bs @ as)" by auto
next
  case False
  then obtain a as' b bs' where ab: "as = a # as'" "bs = b # bs'"
    by (meson list.exhaust)
  assume "ring arr (as @ bs)"
  then have "linked arr ((a # as') @ b # bs' @ [a])" by (simp add: ring_def ab)
  then have "linked arr ((a # as') @ [b])" and "linked arr ((b # bs') @ [a])"
    using linked_append [of arr "a # as'" b "bs' @ [a]"] by simp_all
  then have "linked arr ((b # bs') @ a # as' @ [b])"
    using linked_append [of arr "b # bs'" a "as' @ [b]"] by simp
  then show ?thesis by (simp add: ring_def ab)
qed

text \<open>A ring in terms of its inner links and the link from its last to its first slot.\<close>

lemma ring_iff:
  "xs \<noteq> [] \<Longrightarrow> ring arr xs \<longleftrightarrow> linked arr xs \<and> nxt arr (last xs) = hd xs \<and> prv arr (hd xs) = last xs"
  by (simp add: ring_def linked_snoc)

text \<open>Links inside a list do not depend on what its first slot has before it and its last slot
  after it.\<close>

lemma linked_cong:
  assumes "\<And>x. x \<in> set (butlast xs) \<Longrightarrow> nxt arr' x = nxt arr x"
    and "\<And>x. x \<in> set (tl xs) \<Longrightarrow> prv arr' x = prv arr x"
  shows "linked arr' xs \<longleftrightarrow> linked arr xs"
  using assms by (induction arr xs rule: linked.induct) auto

lemma last_notin_butlast: "distinct xs \<Longrightarrow> xs \<noteq> [] \<Longrightarrow> last xs \<notin> set (butlast xs)"
  by (metis append_butlast_last_id distinct_butlast not_distinct_conv_prefix)

lemma hd_notin_tl: "distinct xs \<Longrightarrow> xs \<noteq> [] \<Longrightarrow> hd xs \<notin> set (tl xs)"
  by (cases xs) auto

section \<open>Array updates\<close>

lemma length_set_01 [simp]: "length (set_0 i x arr) = length arr" "length (set_1 i x arr) = length arr"
  by (simp_all add: set_0_def set_1_def)

lemma nth_set_0:
  "i < length arr \<Longrightarrow> set_0 i x arr ! j = (if j = i then (x, snd (arr ! i)) else arr ! j)"
  by (simp add: set_0_def nth_list_update)

lemma nth_set_1:
  "i < length arr \<Longrightarrow> set_1 i x arr ! j = (if j = i then (fst (arr ! i), x) else arr ! j)"
  by (simp add: set_1_def nth_list_update)

lemmas lru_nth = nth_set_0 nth_set_1 nth_list_update

text \<open>Slot numbers are small: the conversions between the widths lose nothing.\<close>

lemma unat_of_small: "x < lru_len \<Longrightarrow> unat (of_nat x :: u8) = x"
  by (simp add: unat_of_nat take_bit_nat_eq_self)

lemma unat_tail: "x < lru_len \<Longrightarrow> unat (of_nat (Suc x) :: u32) = Suc x"
  by (simp only: unat_of_nat) (simp add: take_bit_nat_eq_self)

lemma tail_neq_0: "x < lru_len \<Longrightarrow> (of_nat (Suc x) :: u32) \<noteq> 0"
  using unat_tail [of x] by (metis nat.simps(3) unat_0)

lemma unat_ucast_entry: "unat (ucast (e :: u8) :: u32) = unat e"
proof -
  have "unat e < 256" using unsigned_less [where ?'a = nat, of e] by simp
  then show ?thesis by (simp add: unsigned_ucast_eq take_bit_nat_eq_self)
qed

lemma tail_eq_entry_iff:
  assumes "x < lru_len" "unat (e :: u8) < lru_len"
  shows "(of_nat (Suc x) :: u32) = ucast e + 1 \<longleftrightarrow> unat e = x"
proof -
  have "unat (ucast e + 1 :: u32) = Suc (unat e)"
    using assms(2) by (subst unat_word_ariths) (simp add: unat_ucast_entry)
  then show ?thesis using unat_tail [OF assms(1)] by (metis Suc_inject word_unat_eq_iff)
qed

lemma entry_tail: "ucast (e :: u8) + 1 = (of_nat (Suc (unat e)) :: u32)"
  by (simp add: add.commute)

lemma tail_minus_1:
  assumes "x < lru_len"
  shows "ucast (of_nat (Suc x) :: u32) - 1 = (of_nat x :: u8)"
proof -
  have "ucast (of_nat (Suc x) :: u32) = (of_nat (take_bit 32 (Suc x)) :: u8)"
    by (simp only: unsigned_of_nat) simp
  also have "\<dots> = of_nat (Suc x)" using assms by (simp add: take_bit_nat_eq_self)
  finally show ?thesis by simp
qed

text \<open>Closing a list of linked slots into a ring.\<close>

lemma ring_close:
  assumes "ys \<noteq> []" "distinct ys" "linked arr ys"
    and "nxt arr' (last ys) = hd ys" "prv arr' (hd ys) = last ys"
    and "\<And>x. x \<in> set ys \<Longrightarrow> x \<noteq> last ys \<Longrightarrow> nxt arr' x = nxt arr x"
    and "\<And>x. x \<in> set ys \<Longrightarrow> x \<noteq> hd ys \<Longrightarrow> prv arr' x = prv arr x"
  shows "ring arr' ys"
proof -
  have "linked arr' ys \<longleftrightarrow> linked arr ys"
  proof (rule linked_cong)
    show "nxt arr' x = nxt arr x" if "x \<in> set (butlast ys)" for x
      using assms(6) [of x] that last_notin_butlast [OF assms(2,1)] in_set_butlastD by metis
    show "prv arr' x = prv arr x" if "x \<in> set (tl ys)" for x
      using assms(7) [of x] that hd_notin_tl [OF assms(2,1)] assms(1) list.set_sel(2) by metis
  qed
  with assms show ?thesis by (simp add: ring_iff)
qed

lemma ring_ends:
  assumes "ring arr (e # ys)" "ys \<noteq> []"
  shows "nxt arr e = hd ys" "prv arr e = last ys" "linked arr ys"
    "prv arr (hd ys) = e" "nxt arr (last ys) = e"
  using assms by (auto simp: ring_iff linked_Cons_Cons_hd)

text \<open>Taking a slot out of a ring: what \<^verbatim>\<open>remove\<close> and \<^verbatim>\<open>promote\<close> do to the neighbours of the slot.\<close>

definition bypass :: "lru_array \<Rightarrow> nat \<Rightarrow> lru_array" where
  "bypass arr e =
     (let prev = fst (arr ! e);
          arr = set_1 (unat prev) (snd (arr ! e)) arr;
          next = snd (arr ! e)
      in set_0 (unat next) (fst (arr ! e)) arr)"

lemma bypass_ring:
  assumes "ring arr (e # ys)" "ys \<noteq> []" "distinct (e # ys)"
    and "\<forall>x\<in>set (e # ys). x < length arr"
  shows "ring (bypass arr e) ys" and "bypass arr e ! e = arr ! e"
    and "x \<notin> set ys \<Longrightarrow> bypass arr e ! x = arr ! x" and "length (bypass arr e) = length arr"
proof -
  have fst_e: "unat (fst (arr ! e)) = last ys" and snd_e: "unat (snd (arr ! e)) = hd ys"
    using ring_ends(1,2) [OF assms(1,2)] by (simp_all add: prv_def nxt_def)
  have ends: "last ys \<in> set ys" "hd ys \<in> set ys" using assms(2) by simp_all
  then have neq: "last ys \<noteq> e" "hd ys \<noteq> e" using assms(3) by auto
  have len: "last ys < length arr" "hd ys < length arr" "e < length arr" using ends assms(4) by auto
  have eq: "bypass arr e = set_0 (hd ys) (fst (arr ! e)) (set_1 (last ys) (snd (arr ! e)) arr)"
    unfolding bypass_def Let_def
    by (simp only: fst_e) (simp add: nth_set_1 len neq not_sym [OF neq(1)] snd_e)
  show "length (bypass arr e) = length arr" by (simp add: eq)
  show "bypass arr e ! e = arr ! e"
    using neq by (simp add: eq lru_nth len)
  show "x \<notin> set ys \<Longrightarrow> bypass arr e ! x = arr ! x"
    using ends by (auto simp: eq lru_nth len)
  show "ring (bypass arr e) ys"
  proof (rule ring_close [OF assms(2) _ ring_ends(3) [OF assms(1,2)]])
    show "distinct ys" using assms(3) by simp
    show "nxt (bypass arr e) (last ys) = hd ys" "prv (bypass arr e) (hd ys) = last ys"
      by (simp_all add: eq nxt_def prv_def lru_nth len fst_e snd_e)
    show "nxt (bypass arr e) x = nxt arr x" if "x \<noteq> last ys" for x
      using that by (simp add: eq nxt_def lru_nth len)
    show "prv (bypass arr e) x = prv arr x" if "x \<noteq> hd ys" for x
      using that by (simp add: eq prv_def lru_nth len)
  qed
qed

text \<open>Putting a slot in front of a ring: the second half of \<^verbatim>\<open>promote\<close>.\<close>

definition push_front :: "lru_array \<Rightarrow> nat \<Rightarrow> u8 \<Rightarrow> lru_array" where
  "push_front arr h entry =
     (let oldest = fst (arr ! h);
          arr = set_1 (unat oldest) entry arr;
          arr = set_0 (unat entry) oldest arr;
          arr = set_0 h entry arr
      in set_1 (unat entry) (of_nat h) arr)"

lemma push_front_ring:
  assumes "ring arr ys" "ys \<noteq> []" "distinct ys" "unat entry \<notin> set ys"
    and "\<forall>x\<in>set ys. x < lru_len" "unat entry < lru_len" "length arr = lru_len"
  shows "ring (push_front arr (hd ys) entry) (unat entry # ys)"
    and "x \<notin> set ys \<Longrightarrow> x \<noteq> unat entry \<Longrightarrow> push_front arr (hd ys) entry ! x = arr ! x"
    and "length (push_front arr (hd ys) entry) = lru_len"
proof -
  let ?e = "unat entry" and ?a = "push_front arr (hd ys) entry"
  have ends: "last ys \<in> set ys" "hd ys \<in> set ys" using assms(2) by simp_all
  then have neq: "last ys \<noteq> ?e" "hd ys \<noteq> ?e" using assms(4) by metis+
  have lt: "last ys < lru_len" "hd ys < lru_len" using ends assms(5) by auto
  have o: "unat (fst (arr ! hd ys)) = last ys" "nxt arr (last ys) = hd ys" "linked arr ys"
    using assms(1,2) by (simp_all add: ring_iff prv_def)
  have eq: "?a = set_1 ?e (of_nat (hd ys)) (set_0 (hd ys) entry
      (set_0 ?e (fst (arr ! hd ys)) (set_1 (last ys) entry arr)))"
    by (simp add: push_front_def o)
  show "length ?a = lru_len" using assms(7) by (simp add: eq)
  show "?a ! x = arr ! x" if "x \<notin> set ys" "x \<noteq> ?e"
    using that ends lt assms(6,7) by (auto simp: eq lru_nth)
  have nxt: "nxt ?a x = (if x = ?e then hd ys else if x = last ys then ?e else nxt arr x)"
    and prv: "prv ?a x = (if x = hd ys then ?e else if x = ?e then last ys else prv arr x)" for x
    using lt neq assms(6,7) o by (auto simp: eq nxt_def prv_def lru_nth unat_of_small)
  have "linked ?a ys \<longleftrightarrow> linked arr ys"
  proof (rule linked_cong)
    show "nxt ?a x = nxt arr x" if "x \<in> set (butlast ys)" for x
      using that last_notin_butlast [OF assms(3,2)] in_set_butlastD [OF that] assms(4)
      by (auto simp: nxt)
    show "prv ?a x = prv arr x" if "x \<in> set (tl ys)" for x
      using that hd_notin_tl [OF assms(3,2)] list.set_sel(2) [OF assms(2) that] assms(4)
      by (auto simp: prv)
  qed
  with o(3) show "ring ?a (?e # ys)"
    using assms(2) neq by (simp add: ring_iff linked_Cons_Cons_hd nxt prv)
qed

section \<open>The operations on the list\<close>

lemma lru_relD:
  assumes "lru_rel arr tail xs"
  shows "length arr = lru_len" "distinct xs" "\<forall>x\<in>set xs. x < lru_len" "ring arr xs"
    "x < lru_len \<Longrightarrow> x \<notin> set xs \<Longrightarrow> arr ! x = (0, 0)"
    "tail = lru_tail_of xs"
  using assms by (simp_all add: lru_rel_def)

lemma lru_tail_hd: "xs \<noteq> [] \<Longrightarrow> lru_tail_of xs = of_nat (Suc (hd xs))"
  by (cases xs) (simp_all add: lru_tail_of_def)

lemma lru_rel_tail:
  assumes "lru_rel arr tail xs" "xs \<noteq> []"
  shows "tail \<noteq> 0" "unat tail - 1 = hd xs" "ucast tail - 1 = (of_nat (hd xs) :: u8)"
    "unat (e :: u8) < lru_len \<Longrightarrow> tail = ucast e + 1 \<longleftrightarrow> unat e = hd xs"
    "tail = 1 \<longleftrightarrow> hd xs = 0"
proof -
  have h: "hd xs < lru_len" using lru_relD(3) [OF assms(1)] assms(2) by simp
  have t: "tail = of_nat (Suc (hd xs))" using lru_relD(6) [OF assms(1)] lru_tail_hd [OF assms(2)] by simp
  show "tail \<noteq> 0" "unat tail - 1 = hd xs" "ucast tail - 1 = (of_nat (hd xs) :: u8)"
    unfolding t using tail_neq_0 [OF h] unat_tail [OF h] tail_minus_1 [OF h] by simp_all
  show "unat e < lru_len \<Longrightarrow> tail = ucast e + 1 \<longleftrightarrow> unat e = hd xs"
    unfolding t by (rule tail_eq_entry_iff [OF h])
  show "tail = 1 \<longleftrightarrow> hd xs = 0"
    unfolding t using unat_tail [OF h] unat_tail [of 0]
    by (metis One_nat_def Suc_inject of_nat_1 unat_1)
qed

lemma lru_rel_empty: "lru_rel arr tail [] \<longleftrightarrow> length arr = lru_len \<and> tail = 0 \<and> (\<forall>x<lru_len. arr ! x = (0, 0))"
  by (auto simp: lru_rel_def lru_tail_of_def ring_def)

lemma lru_rel_0: "lru_rel arr 0 xs \<longleftrightarrow> xs = [] \<and> length arr = lru_len \<and> (\<forall>x<lru_len. arr ! x = (0, 0))"
  using lru_rel_tail(1) [of arr 0 xs] lru_rel_empty [of arr 0] by metis

lemma lru_default_rel: "lru_rel lru_default 0 []"
  by (simp add: lru_rel_empty lru_default_def)

text \<open>The membership test of \<^verbatim>\<open>remove\<close> and \<^verbatim>\<open>promote\<close>: a pair of zeros is ambiguous when slot 0 is
  tracked, and the extra conditions on slot 0 and the tail resolve it.\<close>

lemma singleton_if_ends: "ys \<noteq> [] \<Longrightarrow> distinct ys \<Longrightarrow> hd ys = last ys \<Longrightarrow> ys = [hd ys]"
  by (metis distinct.simps(2) last_ConsR last_in_set list.collapse)

lemma zero_pair_member:
  assumes rel: "lru_rel arr tail xs" and e: "unat e \<in> set xs" and z: "arr ! unat e = (0, 0)"
  shows "arr ! 0 = (e, e) \<and> (xs = [0] \<and> unat e = 0 \<or> unat e \<noteq> 0 \<and> (xs = [0, unat e] \<or> xs = [unat e, 0]))"
proof -
  obtain as bs where xs: "xs = as @ unat e # bs" using e by (metis split_list)
  let ?ys = "bs @ as"
  have r: "ring arr (unat e # ?ys)"
    using ring_rotate [of arr as "unat e # bs"] lru_relD(4) [OF rel] xs by simp
  have d: "distinct (unat e # ?ys)" using lru_relD(2) [OF rel] xs by auto
  show ?thesis
  proof (cases "?ys = []")
    case True
    then have "xs = [unat e]" using xs by simp
    moreover have "unat e = 0" using r True z by (simp add: ring_iff nxt_def)
    ultimately show ?thesis using z by (simp add: word_unat_eq_iff)
  next
    case False
    then have "hd ?ys = 0" "last ?ys = 0"
      using ring_ends(1,2) [OF r False] z by (simp_all add: nxt_def prv_def)
    then have ys: "?ys = [0]" using singleton_if_ends [OF False] d by simp
    then have "prv arr 0 = unat e" "nxt arr 0 = unat e"
      using ring_ends(4,5) [OF r False] by simp_all
    then have "arr ! 0 = (e, e)" by (simp add: prv_def nxt_def prod_eq_iff word_unat_eq_iff)
    moreover have "unat e \<noteq> 0" using d ys by auto
    moreover have "xs = [0, unat e] \<or> xs = [unat e, 0]"
      using ys xs by (cases bs) auto
    ultimately show ?thesis by simp
  qed
qed

lemma zero_slot_of_nonmember:
  assumes rel: "lru_rel arr tail xs" and e: "unat e \<notin> set xs" and t: "tail = 1"
  shows "arr ! 0 \<noteq> (e, e)"
proof
  assume a: "arr ! 0 = (e, e)"
  have ne: "xs \<noteq> []" using rel t by (auto simp: lru_rel_empty)
  then have "hd xs = 0" using lru_rel_tail(5) [OF rel ne] t by simp
  moreover have "prv arr (hd xs) = last xs" using lru_relD(4) [OF rel] ne by (simp add: ring_iff)
  ultimately have "last xs = unat e" using a by (simp add: prv_def)
  with ne e show False by (metis last_in_set)
qed

lemma remove_test_iff:
  assumes rel: "lru_rel arr tail xs" and lt: "unat e < lru_len"
  shows "(tail = 0 \<or> (arr ! unat e = (0, 0) \<and>
            (arr ! 0 \<noteq> (e, e) \<or> (tail \<noteq> 1 \<and> tail \<noteq> ucast e + 1)))) \<longleftrightarrow> unat e \<notin> set xs"
proof (cases "xs = []")
  case True
  with rel show ?thesis by (simp add: lru_rel_empty)
next
  case ne: False
  note t = lru_rel_tail [OF rel ne] and z = lru_relD(5) [OF rel lt]
  show ?thesis
  proof (cases "unat e \<in> set xs")
    case True
    then show ?thesis
      using zero_pair_member [OF rel True] t(1,5) t(4) [OF lt] by auto
  next
    case False
    then have "tail \<noteq> ucast e + 1" using t(4) [OF lt] ne by (metis hd_in_set)
    then show ?thesis using False z zero_slot_of_nonmember [OF rel False] by blast
  qed
qed

lemma promote_test_iff:
  assumes rel: "lru_rel arr tail xs" and lt: "unat e < lru_len" and ne: "xs \<noteq> []" "hd xs \<noteq> unat e"
  shows "(arr ! unat e \<noteq> (0, 0) \<or> (arr ! 0 = (e, e) \<and> tail = 1)) \<longleftrightarrow> unat e \<in> set xs"
proof (cases "unat e \<in> set xs")
  case True
  then show ?thesis
    using zero_pair_member [OF rel True] lru_rel_tail(5) [OF rel ne(1)] ne by auto
next
  case False
  then show ?thesis using lru_relD(5) [OF rel lt] zero_slot_of_nonmember [OF rel False] by auto
qed

text \<open>An array of the right length with a ring represents a list once the slots outside are clear.\<close>

lemma lru_relI:
  assumes "length arr = lru_len" "distinct xs" "\<forall>x\<in>set xs. x < lru_len" "tail = lru_tail_of xs"
    and "ring arr xs" "\<And>x. x < lru_len \<Longrightarrow> x \<notin> set xs \<Longrightarrow> arr ! x = (0, 0)"
  shows "lru_rel arr tail xs"
  using assms by (simp add: lru_rel_def)

lemma ring_update_outside:
  assumes "ring arr xs" "i \<notin> set xs"
  shows "ring (arr[i := p]) xs"
proof (cases "xs = []")
  case False
  have "linked (arr[i := p]) xs \<longleftrightarrow> linked arr xs"
  proof (rule linked_cong)
    show "nxt (arr[i := p]) x = nxt arr x" if "x \<in> set (butlast xs)" for x
      using in_set_butlastD [OF that] assms(2) by (cases "x = i") (auto simp: nxt_def)
    show "prv (arr[i := p]) x = prv arr x" if "x \<in> set (tl xs)" for x
      using list.set_sel(2) [OF False that] assms(2) by (cases "x = i") (auto simp: prv_def)
  qed
  moreover have "last xs \<noteq> i" "hd xs \<noteq> i" using False assms(2) by (metis last_in_set hd_in_set)+
  ultimately show ?thesis using assms(1) False by (simp add: ring_iff nxt_def prv_def)
qed (simp add: ring_def)

lemma remove1_split: "distinct xs \<Longrightarrow> xs = as @ e # bs \<Longrightarrow> remove1 e xs = as @ bs"
  by (auto simp: remove1_append)

text \<open>Taking a member out and clearing its slot leaves the list without it.\<close>

lemma take_out:
  assumes rel: "lru_rel arr tail xs" and e: "e \<in> set xs" and ne: "remove1 e xs \<noteq> []"
  shows "ring (bypass arr e) (remove1 e xs)" "bypass arr e ! e = arr ! e"
    "x \<notin> set (remove1 e xs) \<Longrightarrow> bypass arr e ! x = arr ! x" "length (bypass arr e) = lru_len"
    "ring ((bypass arr e)[e := p]) (remove1 e xs)"
proof -
  obtain as bs where xs: "xs = as @ e # bs" using e by (metis split_list)
  note d = lru_relD(2) [OF rel]
  have r1: "remove1 e xs = as @ bs" by (rule remove1_split [OF d xs])
  have r: "ring arr (e # bs @ as)" using ring_rotate [of arr as "e # bs"] lru_relD(4) [OF rel] xs by simp
  have h: "bs @ as \<noteq> []" "distinct (e # bs @ as)" "\<forall>x\<in>set (e # bs @ as). x < length arr"
    using ne r1 d lru_relD(1,3) [OF rel] xs by auto
  note b = bypass_ring [OF r h]
  show "ring (bypass arr e) (remove1 e xs)" using ring_rotate [OF b(1)] r1 by simp
  then show "ring ((bypass arr e)[e := p]) (remove1 e xs)"
    by (rule ring_update_outside) (simp add: d)
  show "bypass arr e ! e = arr ! e" by (rule b(2))
  show "x \<notin> set (remove1 e xs) \<Longrightarrow> bypass arr e ! x = arr ! x" using b(3) [of x] r1 by auto
  show "length (bypass arr e) = lru_len" using b(4) lru_relD(1) [OF rel] by simp
qed

lemma clear_rel:
  assumes rel: "lru_rel arr tail xs" and e: "e \<in> set xs" and ne: "remove1 e xs \<noteq> []"
  shows "lru_rel ((bypass arr e)[e := (0, 0)]) (lru_tail_of (remove1 e xs)) (remove1 e xs)"
proof (rule lru_relI)
  note t = take_out [OF rel e ne] and d = lru_relD [OF rel]
  show "length ((bypass arr e)[e := (0, 0)]) = lru_len" using t(4) by simp
  show "distinct (remove1 e xs)" using d(2) by simp
  show "\<forall>x\<in>set (remove1 e xs). x < lru_len" using d(3) set_remove1_subset by fastforce
  show "ring ((bypass arr e)[e := (0, 0)]) (remove1 e xs)" by (rule t(5))
  show "(bypass arr e)[e := (0, 0)] ! x = (0, 0)" if "x < lru_len" "x \<notin> set (remove1 e xs)" for x
    using that t(3) [OF that(2)] t(4) d(5) [OF that(1)] d(2) by (cases "x = e") auto
qed simp

lemma clear_only:
  assumes rel: "lru_rel arr tail xs" and e: "e \<in> set xs" and em: "remove1 e xs = []"
  shows "xs = [e]" "unat (fst (arr ! e)) = e" "lru_rel (arr[e := (0, 0)]) 0 []"
proof -
  show xs: "xs = [e]" using e em by (cases xs) (auto split: if_splits)
  show "unat (fst (arr ! e)) = e" using lru_relD(4) [OF rel] xs by (simp add: ring_iff prv_def)
  show "lru_rel (arr[e := (0, 0)]) 0 []"
    using lru_relD(1,3,5) [OF rel] xs by (simp add: lru_rel_empty nth_list_update)
qed

lemma fst_self_iff:
  assumes rel: "lru_rel arr tail xs" and e: "unat e \<in> set xs"
  shows "fst (arr ! unat e) = e \<longleftrightarrow> remove1 (unat e) xs = []"
proof (cases "remove1 (unat e) xs = []")
  case True
  then show ?thesis using clear_only(2) [OF rel e] by (simp add: word_unat_eq_iff)
next
  case False
  obtain as bs where xs: "xs = as @ unat e # bs" using e by (metis split_list)
  note d = lru_relD(2) [OF rel]
  have ne: "bs @ as \<noteq> []" using False remove1_split [OF d xs] by auto
  have "ring arr (unat e # bs @ as)"
    using ring_rotate [of arr as "unat e # bs"] lru_relD(4) [OF rel] xs by simp
  then have "prv arr (unat e) = last (bs @ as)" using ring_ends(2) ne by blast
  moreover have "last (bs @ as) \<in> set (bs @ as)" using ne by (rule last_in_set)
  moreover have "unat e \<notin> set (bs @ as)" using d xs by auto
  ultimately show ?thesis using False by (metis prv_def)
qed

section \<open>What the operations do to the list\<close>

text \<open>The new tail when an operation reports one, else the old one: what the bucket stores.\<close>

abbreviation tail_after :: "u32 \<Rightarrow> u32 option \<Rightarrow> u32" where
  "tail_after tail r \<equiv> (case r of None \<Rightarrow> tail | Some t \<Rightarrow> t)"

lemma lru_remove_in:
  assumes rel: "lru_rel arr tail xs" and lt: "unat e < lru_len" and e: "unat e \<in> set xs"
  shows "lru_rel (snd (lru_remove arr tail e)) (tail_after tail (fst (lru_remove arr tail e)))
           (remove1 (unat e) xs)"
proof (cases "remove1 (unat e) xs = []")
  case True
  then have "lru_remove arr tail e = (Some 0, arr[unat e := (0, 0)])"
    using remove_test_iff [OF rel lt] fst_self_iff [OF rel e] e by (simp add: lru_remove_def)
  then show ?thesis using clear_only(3) [OF rel e True] True by simp
next
  case False
  note t = take_out [OF rel e False] and d = lru_relD [OF rel]
  have ne: "xs \<noteq> []" using e by auto
  have "lru_remove arr tail e =
      (if tail = ucast e + 1 then Some (ucast (snd (bypass arr (unat e) ! unat e)) + 1) else None,
       (bypass arr (unat e))[unat e := (0, 0)])"
    using remove_test_iff [OF rel lt] fst_self_iff [OF rel e] e False
    by (auto simp: lru_remove_def bypass_def Let_def)
  moreover have "(if tail = ucast e + 1 then ucast (snd (arr ! unat e)) + 1 else tail) =
      lru_tail_of (remove1 (unat e) xs)"
  proof (cases "unat e = hd xs")
    case True
    then have xs: "xs = unat e # tl xs" using ne by simp
    then have r1: "remove1 (unat e) xs = tl xs" by (metis remove1.simps(2))
    then have "nxt arr (unat e) = hd (tl xs)"
      using ring_ends(1) [of arr "unat e" "tl xs"] d(4) xs False by metis
    then have "ucast (snd (arr ! unat e)) + 1 = (of_nat (Suc (hd (tl xs))) :: u32)"
      using entry_tail [of "snd (arr ! unat e)"] by (simp only: nxt_def)
    then show ?thesis
      using lru_rel_tail(4) [OF rel ne lt] True r1 False lru_tail_hd [of "tl xs"] by metis
  next
    case hd: False
    then have "hd (remove1 (unat e) xs) = hd xs" using ne by (cases xs) auto
    then show ?thesis
      using lru_rel_tail(4) [OF rel ne lt] hd d(6) lru_tail_hd [OF False] lru_tail_hd [OF ne] by simp
  qed
  ultimately show ?thesis using clear_rel [OF rel e False] t(2) by auto
qed

lemma lru_remove_notin:
  assumes rel: "lru_rel arr tail xs" and lt: "unat e < lru_len" and e: "unat e \<notin> set xs"
  shows "lru_remove arr tail e = (None, arr)"
  using remove_test_iff [OF rel lt] e by (simp add: lru_remove_def)

lemma lru_promote_cases:
  assumes rel: "lru_rel arr tail xs" and lt: "unat e < lru_len" and ne: "xs \<noteq> []" "hd xs \<noteq> unat e"
  shows "lru_promote arr tail e =
    (Some (ucast e + 1), push_front (if unat e \<in> set xs then bypass arr (unat e) else arr) (hd xs) e)"
  using lru_rel_tail [OF rel ne(1)] promote_test_iff [OF rel lt ne] lt ne(2)
  by (auto simp: lru_promote_def push_front_def bypass_def Let_def)

lemma push_front_rel:
  assumes "ring arr ys" "ys \<noteq> []" "distinct ys" "unat e \<notin> set ys" "\<forall>x\<in>set ys. x < lru_len"
    "unat e < lru_len" "length arr = lru_len"
    and out: "\<And>x. x < lru_len \<Longrightarrow> x \<notin> set ys \<Longrightarrow> x \<noteq> unat e \<Longrightarrow> arr ! x = (0, 0)"
  shows "lru_rel (push_front arr (hd ys) e) (ucast e + 1) (unat e # ys)"
proof (rule lru_relI)
  note p = push_front_ring [OF assms(1-7)]
  show "ucast e + 1 = lru_tail_of (unat e # ys)" by (simp add: lru_tail_of_def)
  show "ring (push_front arr (hd ys) e) (unat e # ys)" by (rule p(1))
  show "length (push_front arr (hd ys) e) = lru_len" by (rule p(3))
  show "push_front arr (hd ys) e ! x = (0, 0)" if "x < lru_len" "x \<notin> set (unat e # ys)" for x
    using that p(2) [of x] out [of x] by simp
qed (use assms in auto)

lemma lru_promote_rel:
  assumes rel: "lru_rel arr tail xs" and lt: "unat e < lru_len"
  shows "lru_rel (snd (lru_promote arr tail e)) (tail_after tail (fst (lru_promote arr tail e)))
           (unat e # remove1 (unat e) xs)"
proof (cases "xs = []")
  case True
  then have t: "tail = 0" and a: "length arr = lru_len" "\<forall>x<lru_len. arr ! x = (0, 0)"
    using rel by (auto simp: lru_rel_empty)
  have nt: "(0 :: u32) \<noteq> ucast e + 1" using tail_neq_0 [OF lt] entry_tail [of e] by metis
  have "lru_promote arr tail e = (Some (ucast e + 1), set_1 (unat e) e (set_0 (unat e) e arr))"
    using t nt by (simp add: lru_promote_def)
  then show ?thesis
    using True a lt
    by (auto intro!: lru_relI simp: ring_iff nxt_def prv_def lru_nth lru_tail_of_def)
next
  case ne: False
  note d = lru_relD [OF rel]
  show ?thesis
  proof (cases "hd xs = unat e")
    case True
    then have "unat e # remove1 (unat e) xs = xs" using ne by (cases xs) auto
    then show ?thesis using rel lru_rel_tail(4) [OF rel ne lt] True by (simp add: lru_promote_def)
  next
    case hd: False
    let ?arr = "if unat e \<in> set xs then bypass arr (unat e) else arr"
    let ?ys = "remove1 (unat e) xs"
    have ys: "?ys \<noteq> []" "hd ?ys = hd xs" using hd ne by (cases xs; auto)+
    have r: "ring ?arr ?ys" "length ?arr = lru_len"
      "\<And>x. x < lru_len \<Longrightarrow> x \<notin> set ?ys \<Longrightarrow> x \<noteq> unat e \<Longrightarrow> ?arr ! x = (0, 0)"
      using take_out [OF rel _ ys(1)] d by (auto simp: remove1_idem)
    have "lru_rel (push_front ?arr (hd ?ys) e) (ucast e + 1) (unat e # ?ys)"
    proof (rule push_front_rel [OF r(1) ys(1) _ _ _ lt r(2) r(3)])
      show "distinct ?ys" "unat e \<notin> set ?ys" "\<forall>x\<in>set ?ys. x < lru_len" using d(2,3) by auto
    qed
    then show ?thesis unfolding lru_promote_cases [OF rel lt ne hd] using ys(2) by simp
  qed
qed

lemma lru_evict_nonempty:
  assumes rel: "lru_rel arr tail xs" and ne: "xs \<noteq> []"
  shows "\<exists>arr'. lru_evict arr tail = (Some (of_nat (last xs), lru_tail_of (butlast xs)), arr') \<and>
                lru_rel arr' (lru_tail_of (butlast xs)) (butlast xs)"
proof -
  note d = lru_relD [OF rel] and t = lru_rel_tail [OF rel ne]
  let ?l = "last xs" and ?h = "hd xs"
  have l: "?l \<in> set xs" "?l < lru_len" "?h < lru_len" using ne d(3) by auto
  have xs: "xs = butlast xs @ [?l]" using ne by simp
  have r1: "remove1 ?l xs = butlast xs"
    using remove1_split [OF d(2), of "butlast xs" ?l "[]"] xs by simp
  have f: "fst (arr ! ?h) = of_nat ?l"
  proof -
    have "unat (fst (arr ! ?h)) = ?l" using d(4) ne by (simp add: ring_iff prv_def)
    then show ?thesis using unat_of_small [OF l(2)] by (metis word_unat_eq_iff)
  qed
  have test: "tail - 1 = ucast (of_nat ?l :: u8) \<longleftrightarrow> ?l = ?h"
    using tail_eq_entry_iff [OF l(3), of "of_nat ?l"] unat_of_small [OF l(2)] l(2) d(6) lru_tail_hd [OF ne]
    by (simp add: eq_diff_eq diff_eq_eq)
  show ?thesis
  proof (cases "remove1 ?l xs = []")
    case True
    then have "?l = ?h" using clear_only(1) [OF rel l(1)] by (metis list.sel(1))
    then have "lru_evict arr tail = (Some (of_nat ?l, 0), arr[?l := (0, 0)])"
      using t(1,2) f test by (simp add: lru_evict_def Let_def unat_of_small [OF l(3)])
    then show ?thesis using clear_only(3) [OF rel l(1) True] r1 True by (simp add: lru_tail_of_def)
  next
    case False
    then have neq: "?l \<noteq> ?h" using singleton_if_ends [OF ne d(2)] r1
      by (metis butlast.simps(2))
    have ring: "ring arr (?l # butlast xs)" using ring_rotate [of arr "butlast xs" "[?l]"] d(4) xs by simp
    have hd: "hd (butlast xs) = ?h" using False r1 xs by (metis hd_append2)
    then have "snd (arr ! ?l) = of_nat ?h"
      using ring_ends(1) [OF ring] False r1 unat_of_small [OF l(3)] by (metis nxt_def word_unat_eq_iff)
    moreover have "unat (fst (arr ! ?l)) = last (butlast xs)"
      using ring_ends(2) [OF ring] False r1 by (simp add: prv_def)
    moreover have "last (butlast xs) < lru_len" "last (butlast xs) \<noteq> ?l"
      using False r1 d(2,3) xs by (metis in_set_butlastD last_in_set, metis last_in_set last_notin_butlast ne)
    ultimately have eq: "lru_evict arr tail = (Some (of_nat ?l, tail), (bypass arr ?l)[?l := (0, 0)])"
      using t(1,2,3) f test neq l d(1)
      by (simp add: lru_evict_def bypass_def Let_def unat_of_small nth_set_1)
    have "lru_tail_of (butlast xs) = tail"
      using d(6) lru_tail_hd [OF ne] lru_tail_hd [of "butlast xs"] hd False r1 by simp
    then show ?thesis using clear_rel [OF rel l(1) False] r1 eq by simp
  qed
qed

lemma lru_evict_empty: "lru_rel arr tail [] \<Longrightarrow> lru_evict arr tail = (None, arr)"
  by (simp add: lru_rel_empty lru_evict_def)

section \<open>The contract of a replacement policy\<close>

text \<open>
  The three operations as a client sees them: a state, the calls on it, and the list of slots it
  stands for. \<open>Evict\<close> hands out the least recently used slot.
\<close>

datatype lru_call = Promote u8 | Remove u8 | Evict

fun lru_call_ok :: "lru_call \<Rightarrow> bool" where
  "lru_call_ok (Promote e) \<longleftrightarrow> unat e < lru_len"
| "lru_call_ok (Remove e) \<longleftrightarrow> unat e < lru_len"
| "lru_call_ok Evict \<longleftrightarrow> True"

fun spec_call :: "nat list \<Rightarrow> lru_call \<Rightarrow> nat list" where
  "spec_call xs (Promote e) = unat e # remove1 (unat e) xs"
| "spec_call xs (Remove e) = remove1 (unat e) xs"
| "spec_call xs Evict = butlast xs"

definition spec_victim :: "nat list \<Rightarrow> nat option" where
  "spec_victim xs = (if xs = [] then None else Some (last xs))"

locale replacement_policy =
  fixes rel :: "'s \<Rightarrow> nat list \<Rightarrow> bool"
    and call :: "'s \<Rightarrow> lru_call \<Rightarrow> 's"
    and victim :: "'s \<Rightarrow> nat option"
  assumes call_rel: "rel s xs \<Longrightarrow> lru_call_ok c \<Longrightarrow> rel (call s c) (spec_call xs c)"
    and victim_rel: "rel s xs \<Longrightarrow> victim s = spec_victim xs"
begin

lemma calls_rel: "rel s xs \<Longrightarrow> list_all lru_call_ok cs \<Longrightarrow> rel (foldl call s cs) (foldl spec_call xs cs)"
  by (induction cs arbitrary: s xs) (auto intro: call_rel)

lemma victim_after_calls:
  "rel s xs \<Longrightarrow> list_all lru_call_ok cs \<Longrightarrow> victim (foldl call s cs) = spec_victim (foldl spec_call xs cs)"
  by (rule victim_rel [OF calls_rel])

end

text \<open>The calls on the array and its tail, with the tail stored as the bucket stores it.\<close>

fun lru_call_array :: "lru_array \<times> u32 \<Rightarrow> lru_call \<Rightarrow> lru_array \<times> u32" where
  "lru_call_array (arr, tail) (Promote e) =
     (snd (lru_promote arr tail e), tail_after tail (fst (lru_promote arr tail e)))"
| "lru_call_array (arr, tail) (Remove e) =
     (snd (lru_remove arr tail e), tail_after tail (fst (lru_remove arr tail e)))"
| "lru_call_array (arr, tail) Evict =
     (snd (lru_evict arr tail), (case fst (lru_evict arr tail) of None \<Rightarrow> tail | Some (_, t) \<Rightarrow> t))"

definition lru_victim :: "lru_array \<times> u32 \<Rightarrow> nat option" where
  "lru_victim s = (case fst (lru_evict (fst s) (snd s)) of None \<Rightarrow> None | Some (e, _) \<Rightarrow> Some (unat e))"

definition lru_state_rel :: "lru_array \<times> u32 \<Rightarrow> nat list \<Rightarrow> bool" where
  "lru_state_rel s xs \<longleftrightarrow> lru_rel (fst s) (snd s) xs"

interpretation dll: replacement_policy lru_state_rel lru_call_array lru_victim
proof unfold_locales
  fix s :: "lru_array \<times> u32" and xs c
  obtain arr tail where s: "s = (arr, tail)" by (cases s)
  assume "lru_state_rel s xs" and ok: "lru_call_ok c"
  then have rel: "lru_rel arr tail xs" by (simp add: s lru_state_rel_def)
  have "lru_state_rel (lru_call_array (arr, tail) c) (spec_call xs c)"
  proof (cases c)
    case (Promote e)
    then show ?thesis using lru_promote_rel [OF rel, of e] ok by (simp add: lru_state_rel_def)
  next
    case (Remove e)
    then show ?thesis
      using lru_remove_in [OF rel, of e] lru_remove_notin [OF rel, of e] rel ok
      by (cases "unat e \<in> set xs") (auto simp: remove1_idem lru_state_rel_def)
  next
    case Evict
    then show ?thesis
      using lru_evict_nonempty [OF rel] lru_evict_empty [of arr tail] rel
      by (cases "xs = []") (auto simp: lru_state_rel_def)
  qed
  then show "lru_state_rel (lru_call_array s c) (spec_call xs c)" by (simp add: s)
next
  fix s :: "lru_array \<times> u32" and xs
  obtain arr tail where s: "s = (arr, tail)" by (cases s)
  assume "lru_state_rel s xs"
  then have rel: "lru_rel arr tail xs" by (simp add: s lru_state_rel_def)
  show "lru_victim s = spec_victim xs"
  proof (cases "xs = []")
    case True
    then show ?thesis using rel lru_evict_empty by (simp add: s lru_victim_def spec_victim_def)
  next
    case False
    then have "last xs < lru_len" using lru_relD(3) [OF rel] by simp
    then show ?thesis
      using lru_evict_nonempty [OF rel False] False
      by (auto simp: s lru_victim_def spec_victim_def unat_of_small)
  qed
qed

text \<open>
  C40. The doubly linked list of a cache bucket is a least-recently-used list: after any sequence of
  promotions, removals and evictions of slots below 32, starting from the default list, the array
  and its tail represent exactly the list that move-to-front, deletion and removal of the last
  element compute, and the slot that the next \<^verbatim>\<open>evict\<close> returns is the last slot of that list (none
  when it is empty).
\<close>

theorem lru_list_refines_move_to_front:
  assumes "list_all lru_call_ok cs"
  shows "lru_state_rel (foldl lru_call_array (lru_default, 0) cs) (foldl spec_call [] cs) \<and>
         lru_victim (foldl lru_call_array (lru_default, 0) cs) = spec_victim (foldl spec_call [] cs)"
  using dll.calls_rel [of "(lru_default, 0)" "[]", OF _ assms]
    dll.victim_after_calls [of "(lru_default, 0)" "[]", OF _ assms]
  by (simp add: lru_default_rel lru_state_rel_def)

theorem lru_list_refines_move_to_front_witness:
  "list_all lru_call_ok [Promote 0, Promote 7, Promote 31, Promote 0, Evict, Remove 31] \<and>
   lru_victim (foldl lru_call_array (lru_default, 0)
     [Promote 0, Promote 7, Promote 31, Promote 0, Evict, Remove 31]) = Some 0"
  using lru_list_refines_move_to_front [of "[Promote 0, Promote 7, Promote 31, Promote 0, Evict, Remove 31]"]
  by (simp add: spec_victim_def)

end
