(* ===== verification/Bucket.thy ===== *)
theory Bucket
  imports Lru_List "HOL-Library.Multiset"
begin

text \<open>
  Buckets of a hash table: \<^verbatim>\<open>src/hash_table/bucket.rs\<close>. A bucket holds 32 slots and a list of linked
  buckets of 8 slots each; bitmaps say which slots are occupied and, in an optimistic bucket, which
  of them have been removed. This theory has the sequential operations, those of a thread that holds
  the lock of the bucket; the lock itself is the subject of the theory \<open>Bucket_Lock\<close>.

  Representation. \<open>MaybeUninit\<close> slots are options (\<^term>\<open>None\<close> is a slot that is uninitialised or
  whose value has been moved out). The linked buckets hang in a list instead of the chain of
  \<^verbatim>\<open>metadata.link\<close> and \<^verbatim>\<open>prev_link\<close> pointers, and the data block of a bucket, which the code passes
  beside the bucket, is a field of its block. An \<^verbatim>\<open>EntryPtr\<close> names a linked bucket by its position in
  the list. The const parameter \<^verbatim>\<open>TYPE\<close> is the first argument of the operations that inspect it,
  the const parameter \<^verbatim>\<open>LEN\<close> the argument \<open>len\<close>.
\<close>

section \<open>Data\<close>

datatype btype = SEQUENTIAL | OPTIMISTIC | CACHE

abbreviation BUCKET_LEN :: nat where "BUCKET_LEN \<equiv> 32"
abbreviation LINKED_BUCKET_LEN :: nat where "LINKED_BUCKET_LEN \<equiv> 8"

definition KILLED :: u32 where "KILLED = shl1 31"

record ('k, 'v) block =
  occupied_bitmap :: u32
  removed_bitmap_or_lru_tail :: u32
  partial_hash_array :: "u8 list"
  data_block :: "('k \<times> 'v) option list"

record ('k, 'v) bucket =
  state :: u32
  num_entries :: u32
  metadata :: "('k, 'v) block"
  links :: "('k, 'v) block list"
  lru_list :: lru_array

record entry_ptr =
  current_link_ptr :: "nat option"
  current_index :: nat

datatype bucket_panic = Array_Overflow

text \<open>\<^verbatim>\<open>Metadata::default\<close> and \<^verbatim>\<open>LinkedBucket::new\<close>, with an uninitialised data block.\<close>

definition block_new :: "nat \<Rightarrow> ('k, 'v) block" where
  "block_new len = \<lparr>occupied_bitmap = 0, removed_bitmap_or_lru_tail = 0,
     partial_hash_array = replicate len 0, data_block = replicate len None\<rparr>"

definition bucket_new :: "('k, 'v) bucket" where
  "bucket_new = \<lparr>state = 0, num_entries = 0, metadata = block_new BUCKET_LEN, links = [],
     lru_list = lru_default\<rparr>"

section \<open>Bucket\<close>

definition need_rebuild :: "btype \<Rightarrow> ('k, 'v) bucket \<Rightarrow> bool" where
  "need_rebuild ty b \<longleftrightarrow>
     ty = OPTIMISTIC \<and> removed_bitmap_or_lru_tail (metadata b) = drop_bit (32 - BUCKET_LEN) (- 1)"

definition killed :: "('k, 'v) bucket \<Rightarrow> bool" where
  "killed b \<longleftrightarrow> state b AND KILLED = KILLED"

text \<open>The occupied slots that are not marked removed: the bitmap \<^verbatim>\<open>search_entry\<close> and \<^verbatim>\<open>next_entry\<close>
  start from.\<close>

definition reachable_bitmap :: "btype \<Rightarrow> ('k, 'v) block \<Rightarrow> u32" where
  "reachable_bitmap ty m =
     (if ty = OPTIMISTIC then occupied_bitmap m AND NOT (removed_bitmap_or_lru_tail m)
      else occupied_bitmap m)"

text \<open>The vectorised loop that collects the slots with a matching partial hash.\<close>

definition matching_bitmap :: "nat \<Rightarrow> u8 list \<Rightarrow> u8 \<Rightarrow> u32" where
  "matching_bitmap len hashes partial_hash =
     foldl (\<lambda>matching i. if hashes ! i = partial_hash then matching OR shl1 i else matching)
       0 [0..<len]"

lemma trailing_zeros32: "trailing_zeros (w :: u32) = 32 \<longleftrightarrow> w = 0"
  using trailing_zeros_eq_length_iff [of w] by simp

lemma bit_trailing_zeros32: "trailing_zeros (w :: u32) \<noteq> 32 \<Longrightarrow> bit w (trailing_zeros w)"
  by (rule bit_trailing_zeros) (simp add: trailing_zeros32)

text \<open>The loop of \<^verbatim>\<open>search_entry\<close> over the candidates, lowest slot first.\<close>

function search_loop :: "('k \<times> 'v) option list \<Rightarrow> 'k \<Rightarrow> u32 \<Rightarrow> (nat \<times> 'k \<times> 'v) option" where
  "search_loop data key bitmap =
     (let offset = trailing_zeros bitmap
      in if offset = 32 then None
         else case data ! offset of
                Some (k, v) \<Rightarrow>
                  if k = key then Some (offset, k, v)
                  else search_loop data key (bitmap - shl1 offset)
              | None \<Rightarrow> search_loop data key (bitmap - shl1 offset))"
  by pat_completeness auto
termination
  by (relation "measure (\<lambda>(_, _, bitmap). unat bitmap)")
    (auto intro!: clear_bit_less bit_trailing_zeros32)

declare search_loop.simps [simp del]

definition search_entry ::
  "btype \<Rightarrow> nat \<Rightarrow> ('k, 'v) block \<Rightarrow> 'k \<Rightarrow> u8 \<Rightarrow> (nat \<times> 'k \<times> 'v) option" where
  "search_entry ty len m key partial_hash =
     search_loop (data_block m) key
       (reachable_bitmap ty m AND matching_bitmap len (partial_hash_array m) partial_hash)"

fun search_links :: "btype \<Rightarrow> ('k, 'v) block list \<Rightarrow> 'k \<Rightarrow> u8 \<Rightarrow> ('k \<times> 'v) option" where
  "search_links ty [] key partial_hash = None"
| "search_links ty (link # ls) key partial_hash =
     (case search_entry ty LINKED_BUCKET_LEN link key partial_hash of
        Some (_, entry_ref) \<Rightarrow> Some entry_ref
      | None \<Rightarrow> search_links ty ls key partial_hash)"

definition search :: "btype \<Rightarrow> ('k, 'v) bucket \<Rightarrow> 'k \<Rightarrow> u8 \<Rightarrow> ('k \<times> 'v) option" where
  "search ty b key partial_hash =
     (if num_entries b = 0 then None
      else case search_entry ty BUCKET_LEN (metadata b) key partial_hash of
             Some (_, entry_ref) \<Rightarrow> Some entry_ref
           | None \<Rightarrow> search_links ty (links b) key partial_hash)"

definition clear_links :: "('k, 'v) bucket \<Rightarrow> ('k, 'v) bucket" where
  "clear_links b = b\<lparr>links := []\<rparr>"

definition kill :: "btype \<Rightarrow> ('k, 'v) bucket \<Rightarrow> ('k, 'v) bucket" where
  "kill ty b =
     (let b = (if ty = OPTIMISTIC
               then b\<lparr>metadata := (metadata b)
                        \<lparr>removed_bitmap_or_lru_tail := occupied_bitmap (metadata b)\<rparr>\<rparr>
               else b);
          b = b\<lparr>state := state b OR KILLED, num_entries := 0\<rparr>
      in if links b \<noteq> [] then clear_links b else b)"

text \<open>The loop of \<^verbatim>\<open>drop_entries\<close> and of \<^verbatim>\<open>Drop for LinkedBucket\<close>: every occupied slot is dropped,
  lowest first; the result has the entries that were dropped.\<close>

function drop_loop :: "('k, 'v) block \<Rightarrow> ('k \<times> 'v) option list \<times> ('k, 'v) block" where
  "drop_loop m =
     (let index = trailing_zeros (occupied_bitmap m)
      in if index = 32 then ([], m)
      else let e = data_block m ! index;
               (dropped, m') = drop_loop (m\<lparr>data_block := (data_block m)[index := None],
                  occupied_bitmap := occupied_bitmap m - shl1 index\<rparr>)
           in (e # dropped, m'))"
  by pat_completeness auto
termination
  by (relation "measure (\<lambda>m. unat (occupied_bitmap m))")
    (auto intro!: clear_bit_less bit_trailing_zeros32)

declare drop_loop.simps [simp del]

definition drop_entries ::
  "('k, 'v) bucket \<Rightarrow> ('k \<times> 'v) option list \<times> ('k, 'v) bucket" where
  "drop_entries b =
     (let in_links = concat (map (fst \<circ> drop_loop) (links b));
          b = (if links b \<noteq> [] then clear_links b else b);
          (dropped, m) = drop_loop (metadata b)
      in (in_links @ dropped, b\<lparr>metadata := m\<rparr>))"

section \<open>EntryPtr\<close>

definition ep_new :: entry_ptr where
  "ep_new = \<lparr>current_link_ptr = None, current_index = BUCKET_LEN\<rparr>"

definition ep_is_valid :: "entry_ptr \<Rightarrow> bool" where
  "ep_is_valid ep \<longleftrightarrow> current_index ep \<noteq> BUCKET_LEN"

fun get_links :: "btype \<Rightarrow> nat \<Rightarrow> ('k, 'v) block list \<Rightarrow> 'k \<Rightarrow> u8 \<Rightarrow> entry_ptr" where
  "get_links ty i [] key partial_hash = ep_new"
| "get_links ty i (link # ls) key partial_hash =
     (case search_entry ty LINKED_BUCKET_LEN link key partial_hash of
        Some (index, _) \<Rightarrow> \<lparr>current_link_ptr = Some i, current_index = index\<rparr>
      | None \<Rightarrow> get_links ty (Suc i) ls key partial_hash)"

definition bucket_get :: "btype \<Rightarrow> ('k, 'v) bucket \<Rightarrow> 'k \<Rightarrow> u8 \<Rightarrow> entry_ptr" where
  "bucket_get ty b key partial_hash =
     (if num_entries b = 0 then ep_new
      else case search_entry ty BUCKET_LEN (metadata b) key partial_hash of
             Some (index, _) \<Rightarrow> \<lparr>current_link_ptr = None, current_index = index\<rparr>
           | None \<Rightarrow> get_links ty 0 (links b) key partial_hash)"

text \<open>\<^verbatim>\<open>Bucket::next_entry\<close>: the lowest reachable slot at or above the given one.\<close>

definition bucket_next_entry :: "btype \<Rightarrow> nat \<Rightarrow> ('k, 'v) block \<Rightarrow> nat \<Rightarrow> nat option" where
  "bucket_next_entry ty len m index =
     (if index \<ge> len then None
      else let bitmap = reachable_bitmap ty m AND NOT (shl1 index - 1);
               next_index = trailing_zeros bitmap
           in if next_index < len then Some next_index else None)"

text \<open>\<^verbatim>\<open>EntryPtr::next_entry\<close>; \<open>next_link\<close> is what loading \<^verbatim>\<open>metadata.link\<close> returns.\<close>

definition ep_next_entry ::
  "btype \<Rightarrow> nat \<Rightarrow> ('k, 'v) block \<Rightarrow> nat option \<Rightarrow> entry_ptr \<Rightarrow> bool \<times> entry_ptr" where
  "ep_next_entry ty len m next_link ep =
     (let index = (if current_index ep = len then 0 else current_index ep + 1)
      in case bucket_next_entry ty len m index of
           Some index \<Rightarrow> (True, ep\<lparr>current_index := index\<rparr>)
         | None \<Rightarrow> (False, \<lparr>current_link_ptr = next_link, current_index = LINKED_BUCKET_LEN\<rparr>))"

text \<open>The link that follows position \<open>i\<close> of the chain.\<close>

definition link_from :: "('k, 'v) bucket \<Rightarrow> nat \<Rightarrow> nat option" where
  "link_from b i = (if i < length (links b) then Some i else None)"

text \<open>The loop of \<^verbatim>\<open>EntryPtr::next\<close> over the linked buckets.\<close>

function ep_next_links :: "btype \<Rightarrow> ('k, 'v) bucket \<Rightarrow> entry_ptr \<Rightarrow> bool \<times> entry_ptr" where
  "ep_next_links ty b ep =
     (case current_link_ptr ep of
        None \<Rightarrow> (False, ep)
      | Some i \<Rightarrow>
          if i \<ge> length (links b) then (False, ep)
          else
            let (found, ep') =
                  ep_next_entry ty LINKED_BUCKET_LEN (links b ! i) (link_from b (Suc i)) ep
            in if found then (True, ep') else ep_next_links ty b ep')"
  by pat_completeness auto
termination
  by (relation "measure (\<lambda>(_, b, ep). case current_link_ptr ep of None \<Rightarrow> 0
                            | Some i \<Rightarrow> Suc (length (links b) - i))")
    (auto simp: ep_next_entry_def link_from_def split: option.splits if_splits)

declare ep_next_links.simps [simp del]

definition ep_next :: "btype \<Rightarrow> ('k, 'v) bucket \<Rightarrow> entry_ptr \<Rightarrow> bool \<times> entry_ptr" where
  "ep_next ty b ep =
     (if current_index ep \<noteq> USIZE_MAX
      then
        let (found, ep) =
              (if current_link_ptr ep = None
               then ep_next_entry ty BUCKET_LEN (metadata b) (link_from b 0) ep
               else (False, ep))
        in if found then (True, ep)
           else let (found, ep) = ep_next_links ty b ep
                in if found then (True, ep) else (False, ep\<lparr>current_index := USIZE_MAX\<rparr>)
      else (False, ep))"

text \<open>The block an \<^verbatim>\<open>EntryPtr\<close> points into, and its update.\<close>

definition ep_block :: "('k, 'v) bucket \<Rightarrow> entry_ptr \<Rightarrow> ('k, 'v) block" where
  "ep_block b ep = (case current_link_ptr ep of Some i \<Rightarrow> links b ! i | None \<Rightarrow> metadata b)"

definition ep_update ::
  "(('k, 'v) block \<Rightarrow> ('k, 'v) block) \<Rightarrow> entry_ptr \<Rightarrow> ('k, 'v) bucket \<Rightarrow> ('k, 'v) bucket" where
  "ep_update f ep b =
     (case current_link_ptr ep of
        Some i \<Rightarrow> b\<lparr>links := (links b)[i := f (links b ! i)]\<rparr>
      | None \<Rightarrow> b\<lparr>metadata := f (metadata b)\<rparr>)"

definition ep_get :: "('k, 'v) bucket \<Rightarrow> entry_ptr \<Rightarrow> ('k \<times> 'v) option" where
  "ep_get b ep = data_block (ep_block b ep) ! current_index ep"

text \<open>\<^verbatim>\<open>EntryPtr::get_mut\<close> followed by a store of \<open>e\<close> through the reference.\<close>

definition ep_set :: "('k, 'v) bucket \<Rightarrow> entry_ptr \<Rightarrow> 'k \<times> 'v \<Rightarrow> ('k, 'v) bucket" where
  "ep_set b ep e =
     ep_update (\<lambda>m. m\<lparr>data_block := (data_block m)[current_index ep := Some e]\<rparr>) ep b"

definition ep_partial_hash :: "('k, 'v) bucket \<Rightarrow> entry_ptr \<Rightarrow> u8" where
  "ep_partial_hash b ep = partial_hash_array (ep_block b ep) ! current_index ep"

text \<open>\<^verbatim>\<open>EntryPtr::unlink\<close>: the linked bucket leaves the chain and the pointer moves to the one after
  it.\<close>

definition ep_unlink :: "('k, 'v) bucket \<Rightarrow> entry_ptr \<Rightarrow> nat \<Rightarrow> ('k, 'v) bucket \<times> entry_ptr" where
  "ep_unlink b ep i =
     (let next_link = link_from b (Suc i);
          b = b\<lparr>links := take i (links b) @ drop (Suc i) (links b)\<rparr>
      in case next_link of
           None \<Rightarrow> (b, ep\<lparr>current_link_ptr := None, current_index := USIZE_MAX\<rparr>)
         | Some _ \<Rightarrow> (b, ep\<lparr>current_link_ptr := Some i, current_index := LINKED_BUCKET_LEN\<rparr>))"

section \<open>Locker\<close>

definition insert_entry_with :: "nat \<Rightarrow> u8 \<Rightarrow> 'k \<times> 'v \<Rightarrow> ('k, 'v) block \<Rightarrow> ('k, 'v) block" where
  "insert_entry_with index partial_hash e m =
     m\<lparr>data_block := (data_block m)[index := Some e],
       partial_hash_array := (partial_hash_array m)[index := partial_hash],
       occupied_bitmap := occupied_bitmap m OR shl1 index\<rparr>"

text \<open>The loop of \<^verbatim>\<open>insert_with\<close> that looks for a linked bucket with a free slot.\<close>

fun free_link :: "nat \<Rightarrow> ('k, 'v) block list \<Rightarrow> (nat \<times> nat) option" where
  "free_link i [] = None"
| "free_link i (link # ls) =
     (let free_index = trailing_ones (occupied_bitmap link)
      in if free_index \<noteq> LINKED_BUCKET_LEN then Some (i, free_index) else free_link (Suc i) ls)"

text \<open>\<open>e\<close> is what the constructor passed by the caller returns.\<close>

definition insert_with ::
  "('k, 'v) bucket \<Rightarrow> u8 \<Rightarrow> 'k \<times> 'v \<Rightarrow> bucket_panic + (entry_ptr \<times> ('k, 'v) bucket)" where
  "insert_with b partial_hash e =
     (if num_entries b = - 1 then Inl Array_Overflow
      else let free_index = trailing_ones (occupied_bitmap (metadata b))
      in if free_index = BUCKET_LEN
         then (case free_link 0 (links b) of
                 Some (i, free_index) \<Rightarrow>
                   Inr (\<lparr>current_link_ptr = Some i, current_index = free_index\<rparr>,
                        b\<lparr>links := (links b)[i := insert_entry_with free_index partial_hash e (links b ! i)],
                          num_entries := num_entries b + 1\<rparr>)
               | None \<Rightarrow>
                   let link = block_new LINKED_BUCKET_LEN;
                       link = link\<lparr>data_block := (data_block link)[0 := Some e],
                                   partial_hash_array := (partial_hash_array link)[0 := partial_hash],
                                   occupied_bitmap := 1\<rparr>
                   in Inr (\<lparr>current_link_ptr = Some 0, current_index = 0\<rparr>,
                           b\<lparr>links := link # links b, num_entries := num_entries b + 1\<rparr>))
         else Inr (\<lparr>current_link_ptr = None, current_index = free_index\<rparr>,
                   b\<lparr>metadata := insert_entry_with free_index partial_hash e (metadata b),
                     num_entries := num_entries b + 1\<rparr>))"

definition store_tail :: "u32 option \<Rightarrow> ('k, 'v) bucket \<Rightarrow> ('k, 'v) bucket" where
  "store_tail r b =
     (case r of
        Some new_tail \<Rightarrow> b\<lparr>metadata := (metadata b)\<lparr>removed_bitmap_or_lru_tail := new_tail\<rparr>\<rparr>
      | None \<Rightarrow> b)"

definition remove_from_lru_list :: "('k, 'v) bucket \<Rightarrow> entry_ptr \<Rightarrow> ('k, 'v) bucket" where
  "remove_from_lru_list b ep =
     (if current_link_ptr ep = None
      then let (r, arr) = lru_remove (lru_list b) (removed_bitmap_or_lru_tail (metadata b))
                            (of_nat (current_index ep))
           in store_tail r (b\<lparr>lru_list := arr\<rparr>)
      else b)"

definition update_lru_tail :: "('k, 'v) bucket \<Rightarrow> entry_ptr \<Rightarrow> ('k, 'v) bucket" where
  "update_lru_tail b ep =
     (if current_link_ptr ep = None
      then let (r, arr) = lru_promote (lru_list b) (removed_bitmap_or_lru_tail (metadata b))
                            (of_nat (current_index ep))
           in store_tail r (b\<lparr>lru_list := arr\<rparr>)
      else b)"

text \<open>Moving an entry out of its slot: the bit of the slot is cleared.\<close>

definition take_slot :: "nat \<Rightarrow> ('k, 'v) block \<Rightarrow> ('k, 'v) block" where
  "take_slot index m =
     m\<lparr>occupied_bitmap := occupied_bitmap m AND NOT (shl1 index),
       data_block := (data_block m)[index := None]\<rparr>"

definition mark_removed :: "nat \<Rightarrow> ('k, 'v) block \<Rightarrow> ('k, 'v) block" where
  "mark_removed index m =
     m\<lparr>removed_bitmap_or_lru_tail := removed_bitmap_or_lru_tail m OR shl1 index\<rparr>"

definition erase ::
  "btype \<Rightarrow> ('k, 'v) bucket \<Rightarrow> entry_ptr \<Rightarrow> ('k \<times> 'v) option \<times> ('k, 'v) bucket" where
  "erase ty b ep =
     (let b = b\<lparr>num_entries := num_entries b - 1\<rparr>; index = current_index ep
      in case current_link_ptr ep of
           Some i \<Rightarrow>
             if ty = OPTIMISTIC then (None, ep_update (mark_removed index) ep b)
             else (ep_get b ep, ep_update (take_slot index) ep b)
         | None \<Rightarrow>
             if ty = OPTIMISTIC then (None, ep_update (mark_removed index) ep b)
             else
               let b = (if ty = CACHE then remove_from_lru_list b ep else b)
               in (ep_get b ep, ep_update (take_slot index) ep b))"

text \<open>\<^verbatim>\<open>keep_or_consume\<close>; \<open>pred\<close> is the closure of the caller.\<close>

definition keep_or_consume ::
  "('k, 'v) bucket \<Rightarrow> entry_ptr \<Rightarrow> ('k \<Rightarrow> 'v \<Rightarrow> 'v option) \<Rightarrow> bool \<times> ('k, 'v) bucket" where
  "keep_or_consume b ep pred =
     (let b = b\<lparr>num_entries := num_entries b - 1\<rparr>; index = current_index ep
      in case ep_get b ep of
           None \<Rightarrow> (True, ep_update (take_slot index) ep b)
         | Some (k, v) \<Rightarrow>
             let b = ep_update (take_slot index) ep b
             in case pred k v of
                  Some v \<Rightarrow>
                    let b = ep_update (\<lambda>m. m\<lparr>data_block := (data_block m)[index := Some (k, v)],
                                             occupied_bitmap := occupied_bitmap m OR shl1 index\<rparr>) ep b
                    in (False, b\<lparr>num_entries := num_entries b + 1\<rparr>)
                | None \<Rightarrow> (True, b))"

definition extract_entry :: "('k, 'v) bucket \<Rightarrow> entry_ptr \<Rightarrow> ('k \<times> 'v) option \<times> ('k, 'v) bucket" where
  "extract_entry b ep =
     (ep_get b ep,
      ep_update (take_slot (current_index ep)) ep (b\<lparr>num_entries := num_entries b - 1\<rparr>))"

definition bucket_extract ::
  "('k, 'v) bucket \<Rightarrow> entry_ptr \<Rightarrow> ('k \<times> 'v) option \<times> ('k, 'v) bucket \<times> entry_ptr" where
  "bucket_extract b ep =
     (case current_link_ptr ep of
        Some i \<Rightarrow>
          let (extracted, b) = extract_entry b ep
          in if occupied_bitmap (links b ! i) = 0
             then (let (b, ep) = ep_unlink b ep i in (extracted, b, ep))
             else (extracted, b, ep)
      | None \<Rightarrow> (let (extracted, b) = extract_entry b ep in (extracted, b, ep)))"

definition evict_lru_head :: "('k, 'v) bucket \<Rightarrow> ('k \<times> 'v) option \<times> ('k, 'v) bucket" where
  "evict_lru_head b =
     (if occupied_bitmap (metadata b) = 0b11111111111111111111111111111111
      then
        let b = b\<lparr>num_entries := num_entries b - 1\<rparr>;
            tail = removed_bitmap_or_lru_tail (metadata b);
            (r, arr) = lru_evict (lru_list b) tail;
            b = b\<lparr>lru_list := arr\<rparr>;
            (evicted, b) =
              (case r of
                 Some (evicted, new_tail) \<Rightarrow> (unat evicted, store_tail (Some new_tail) b)
               | None \<Rightarrow> (0, b))
        in (data_block (metadata b) ! evicted, b\<lparr>metadata := take_slot evicted (metadata b)\<rparr>)
      else (None, b))"

end
