(* ===== verification/Bucket_Spec.thy ===== *)
theory Bucket_Spec
  imports Bucket
begin

text \<open>
  What the operations of a bucket do: the entries a bucket holds, its invariant, and lemmas that
  each operation keeps the invariant and changes the entries as a finite map changes, on every kind
  of bucket.
\<close>

section \<open>The entries of a bucket\<close>

text \<open>The entry that is reachable in a slot.\<close>

definition slot_entry :: "btype \<Rightarrow> ('k, 'v) block \<Rightarrow> nat \<Rightarrow> ('k \<times> 'v) option" where
  "slot_entry ty m i = (if bit (reachable_bitmap ty m) i then data_block m ! i else None)"

definition slot_list :: "'a option \<Rightarrow> 'a list" where
  "slot_list s = (case s of None \<Rightarrow> [] | Some e \<Rightarrow> [e])"

definition block_entries :: "btype \<Rightarrow> ('k, 'v) block \<Rightarrow> ('k \<times> 'v) list" where
  "block_entries ty m = concat (map (\<lambda>i. slot_list (slot_entry ty m i)) [0..<length (data_block m)])"

definition bucket_entries :: "btype \<Rightarrow> ('k, 'v) bucket \<Rightarrow> ('k \<times> 'v) list" where
  "bucket_entries ty b = block_entries ty (metadata b) @ concat (map (block_entries ty) (links b))"

definition bucket_map :: "btype \<Rightarrow> ('k, 'v) bucket \<Rightarrow> 'k \<rightharpoonup> 'v" where
  "bucket_map ty b = map_of (bucket_entries ty b)"

text \<open>
  The invariant. \<open>ph\<close> gives the partial hash of a key. A slot holds a value exactly if its bit is
  set, slots beyond the length are never occupied, removed slots are occupied, and the recorded
  partial hash of a reachable entry is that of its key.
\<close>

definition block_ok :: "btype \<Rightarrow> ('k \<Rightarrow> u8) \<Rightarrow> nat \<Rightarrow> ('k, 'v) block \<Rightarrow> bool" where
  "block_ok ty ph len m \<longleftrightarrow>
     length (data_block m) = len \<and> length (partial_hash_array m) = len \<and>
     (\<forall>i<32. bit (occupied_bitmap m) i \<longleftrightarrow> i < len \<and> data_block m ! i \<noteq> None) \<and>
     (ty = OPTIMISTIC \<longrightarrow>
        (\<forall>i<32. bit (removed_bitmap_or_lru_tail m) i \<longrightarrow> bit (occupied_bitmap m) i)) \<and>
     (\<forall>i<len. \<forall>e. slot_entry ty m i = Some e \<longrightarrow> partial_hash_array m ! i = ph (fst e))"

definition lru_ok :: "btype \<Rightarrow> ('k, 'v) bucket \<Rightarrow> bool" where
  "lru_ok ty b \<longleftrightarrow>
     (ty = CACHE \<longrightarrow> (\<exists>xs. lru_rel (lru_list b) (removed_bitmap_or_lru_tail (metadata b)) xs))"

definition bucket_ok :: "btype \<Rightarrow> ('k \<Rightarrow> u8) \<Rightarrow> ('k, 'v) bucket \<Rightarrow> bool" where
  "bucket_ok ty ph b \<longleftrightarrow>
     block_ok ty ph BUCKET_LEN (metadata b) \<and>
     (\<forall>l\<in>set (links b). block_ok ty ph LINKED_BUCKET_LEN l) \<and>
     unat (num_entries b) = length (bucket_entries ty b) \<and>
     distinct (map fst (bucket_entries ty b)) \<and> lru_ok ty b"

text \<open>The slot an \<^verbatim>\<open>EntryPtr\<close> points to holds \<open>e\<close>.\<close>

definition points_to :: "btype \<Rightarrow> ('k, 'v) bucket \<Rightarrow> entry_ptr \<Rightarrow> 'k \<times> 'v \<Rightarrow> bool" where
  "points_to ty b ep e \<longleftrightarrow>
     (case current_link_ptr ep of None \<Rightarrow> True | Some i \<Rightarrow> i < length (links b)) \<and>
     current_index ep < length (data_block (ep_block b ep)) \<and>
     slot_entry ty (ep_block b ep) (current_index ep) = Some e"

section \<open>Lists of entries\<close>

lemma mset_slot_list [simp]: "mset (slot_list None) = {#}" "mset (slot_list (Some e)) = {#e#}"
  by (simp_all add: slot_list_def)

lemma set_slot_list [simp]: "x \<in> set (slot_list s) \<longleftrightarrow> s = Some x"
  by (cases s) (auto simp: slot_list_def)

lemma mset_concat_update:
  assumes "distinct xs" "i \<in> set xs" "\<And>j. j \<in> set xs \<Longrightarrow> j \<noteq> i \<Longrightarrow> f' j = f j"
  shows "mset (concat (map f' xs)) + mset (f i) = mset (concat (map f xs)) + mset (f' i)"
  using assms
proof (induction xs)
  case (Cons x xs)
  show ?case
  proof (cases "x = i")
    case True
    have "map f' xs = map f xs" using Cons.prems True by (intro map_cong) auto
    then have "concat (map f' xs) = concat (map f xs)" by (simp only:)
    then show ?thesis using True by simp
  next
    case False
    then have "mset (concat (map f' xs)) + mset (f i) = mset (concat (map f xs)) + mset (f' i)"
      using Cons by simp
    moreover have "f' x = f x" using Cons.prems False by simp
    ultimately show ?thesis by (simp add: ac_simps)
  qed
qed simp

lemma block_entries_update:
  assumes "length (data_block m') = length (data_block m)" "i < length (data_block m)"
    and "\<And>j. j < length (data_block m) \<Longrightarrow> j \<noteq> i \<Longrightarrow> slot_entry ty m' j = slot_entry ty m j"
  shows "mset (block_entries ty m') + mset (slot_list (slot_entry ty m i)) =
         mset (block_entries ty m) + mset (slot_list (slot_entry ty m' i))"
  unfolding block_entries_def assms(1)
  by (rule mset_concat_update) (use assms in auto)

lemma set_block_entries:
  "e \<in> set (block_entries ty m) \<longleftrightarrow> (\<exists>i<length (data_block m). slot_entry ty m i = Some e)"
  by (auto simp: block_entries_def)

lemma set_bucket_entries:
  "e \<in> set (bucket_entries ty b) \<longleftrightarrow>
     e \<in> set (block_entries ty (metadata b)) \<or> (\<exists>l\<in>set (links b). e \<in> set (block_entries ty l))"
  by (auto simp: bucket_entries_def)

text \<open>The map only depends on the multiset of entries.\<close>

lemma distinct_keys_mset:
  "mset xs = mset ys \<Longrightarrow> distinct (map fst xs) \<longleftrightarrow> distinct (map fst ys)"
  by (rule mset_eq_imp_distinct_iff) simp

lemma map_of_mset_add:
  assumes "mset ys = add_mset (k, v) (mset xs)" "distinct (map fst ys)"
  shows "map_of ys = (map_of xs)(k \<mapsto> v)" "distinct (map fst xs)" "map_of xs k = None"
proof -
  have m: "mset ys = mset ((k, v) # xs)" using assms(1) by simp
  then have d: "distinct (map fst ((k, v) # xs))" using assms(2) distinct_keys_mset by blast
  then show "distinct (map fst xs)" "map_of xs k = None" by (auto simp: map_of_eq_None_iff)
  have "map_of ys = map_of ((k, v) # xs)"
    using mset_eq_setD [OF m] assms(2) d by (intro map_of_inject_set [THEN iffD2]) simp_all
  then show "map_of ys = (map_of xs)(k \<mapsto> v)" by simp
qed

lemma map_of_mset_eq:
  assumes "mset ys = mset xs" "distinct (map fst xs)"
  shows "map_of ys = map_of xs"
  using assms distinct_keys_mset [of ys xs] by (intro map_of_inject_set [THEN iffD2]) (auto dest: mset_eq_setD)

section \<open>Bitmaps\<close>

lemma bit_matching_aux:
  "bit (foldl (\<lambda>m i. if hs ! i = p then m OR shl1 i else m) (w :: u32) [0..<n]) j \<longleftrightarrow>
     bit w j \<or> j < n \<and> j < 32 \<and> hs ! j = p"
  by (induction n) (auto simp: bitmap_simps less_Suc_eq)

lemma bit_matching_bitmap [bitmap_simps]:
  "bit (matching_bitmap len hs p) i \<longleftrightarrow> i < len \<and> i < 32 \<and> hs ! i = p"
  by (simp add: matching_bitmap_def bit_matching_aux)

lemma bit_reachable_bitmap:
  "bit (reachable_bitmap ty m) i \<longleftrightarrow>
     bit (occupied_bitmap m) i \<and> (ty = OPTIMISTIC \<longrightarrow> \<not> bit (removed_bitmap_or_lru_tail m) i)"
  by (auto simp: reachable_bitmap_def bitmap_simps dest: bit_below)

lemma search_loop_Some:
  "search_loop data key bm = Some (i, e) \<Longrightarrow> bit bm i \<and> data ! i = Some e \<and> fst e = key"
proof (induction data key bm rule: search_loop.induct)
  case (1 data key bm)
  let ?o = "trailing_zeros bm"
  have ne: "?o \<noteq> 32" using "1.prems" by (subst (asm) search_loop.simps) (auto simp: Let_def)
  then have b: "bit bm ?o" by (rule bit_trailing_zeros32)
  show ?case
  proof (cases "\<exists>v. data ! ?o = Some (key, v)")
    case True
    then show ?thesis using "1.prems" ne b by (subst (asm) search_loop.simps) (auto simp: Let_def)
  next
    case False
    then have rec: "search_loop data key (bm - shl1 ?o) = Some (i, e)"
      using "1.prems" ne by (subst (asm) search_loop.simps) (auto simp: Let_def split: option.splits if_splits)
    have "bit (bm - shl1 ?o) i \<and> data ! i = Some e \<and> fst e = key"
    proof (cases "data ! ?o")
      case None
      then show ?thesis using "1.IH"(1) [OF refl ne None rec] by simp
    next
      case (Some kv)
      obtain k v where kv: "kv = (k, v)" by (cases kv)
      then show ?thesis using "1.IH"(2) [OF refl ne Some _ _ rec] Some False by auto
    qed
    then show ?thesis using b by (simp add: bit_sub_shl1)
  qed
qed

lemma search_loop_None:
  "search_loop data key bm = None \<Longrightarrow> bit bm i \<Longrightarrow> data ! i \<noteq> Some (key, v)"
proof (induction data key bm arbitrary: i rule: search_loop.induct)
  case (1 data key bm)
  let ?o = "trailing_zeros bm"
  have ne: "?o \<noteq> 32" using "1.prems"(2) by (auto simp: trailing_zeros32)
  then have b: "bit bm ?o" by (rule bit_trailing_zeros32)
  have o: "data ! ?o \<noteq> Some (key, v)" for v
    using "1.prems"(1) ne by (subst (asm) search_loop.simps) (auto simp: Let_def)
  have rec: "search_loop data key (bm - shl1 ?o) = None"
    using "1.prems"(1) ne o by (subst (asm) search_loop.simps) (auto simp: Let_def split: option.splits if_splits)
  show ?case
  proof (cases "i = ?o")
    case False
    then have i: "bit (bm - shl1 ?o) i" using "1.prems"(2) b by (simp add: bit_sub_shl1)
    show ?thesis
    proof (cases "data ! ?o")
      case None
      then show ?thesis using "1.IH"(1) [OF refl ne None rec i] by simp
    next
      case (Some kv)
      obtain k v' where kv: "kv = (k, v')" by (cases kv)
      then show ?thesis using "1.IH"(2) [OF refl ne Some _ _ rec i] Some o by auto
    qed
  qed (simp add: o)
qed

section \<open>Blocks\<close>

lemma block_okD:
  assumes "block_ok ty ph len m"
  shows "length (data_block m) = len" "length (partial_hash_array m) = len"
    "bit (occupied_bitmap m) i \<longleftrightarrow> i < 32 \<and> i < len \<and> data_block m ! i \<noteq> None"
    "ty = OPTIMISTIC \<Longrightarrow> bit (removed_bitmap_or_lru_tail m) i \<Longrightarrow> bit (occupied_bitmap m) i"
    "i < len \<Longrightarrow> slot_entry ty m i = Some e \<Longrightarrow> partial_hash_array m ! i = ph (fst e)"
proof -
  have lt: "bit (w :: u32) j \<Longrightarrow> j < 32" for w j using bit_below [of w j] by simp
  show "length (data_block m) = len" "length (partial_hash_array m) = len"
    "i < len \<Longrightarrow> slot_entry ty m i = Some e \<Longrightarrow> partial_hash_array m ! i = ph (fst e)"
    using assms unfolding block_ok_def by metis+
  show "bit (occupied_bitmap m) i \<longleftrightarrow> i < 32 \<and> i < len \<and> data_block m ! i \<noteq> None"
    "ty = OPTIMISTIC \<Longrightarrow> bit (removed_bitmap_or_lru_tail m) i \<Longrightarrow> bit (occupied_bitmap m) i"
    using assms lt unfolding block_ok_def by metis+
qed

lemma block_okI:
  assumes "length (data_block m) = len" "length (partial_hash_array m) = len"
    and "\<And>i. i < 32 \<Longrightarrow> bit (occupied_bitmap m) i \<longleftrightarrow> i < len \<and> data_block m ! i \<noteq> None"
    and "\<And>i. ty = OPTIMISTIC \<Longrightarrow> i < 32 \<Longrightarrow> bit (removed_bitmap_or_lru_tail m) i \<Longrightarrow> bit (occupied_bitmap m) i"
    and "\<And>i e. i < len \<Longrightarrow> slot_entry ty m i = Some e \<Longrightarrow> partial_hash_array m ! i = ph (fst e)"
  shows "block_ok ty ph len m"
  using assms by (auto simp: block_ok_def)

lemma block_new_ok: "len \<le> 32 \<Longrightarrow> block_ok ty ph len (block_new len)"
  by (rule block_okI) (auto simp: block_new_def slot_entry_def bit_reachable_bitmap)

lemma block_new_entries: "block_entries ty (block_new len) = []"
  by (auto simp: block_entries_def slot_entry_def bit_reachable_bitmap block_new_def slot_list_def)

lemma search_entry_Some:
  assumes "block_ok ty ph len m" "search_entry ty len m key p = Some (i, e)"
  shows "i < len" "slot_entry ty m i = Some e" "fst e = key"
proof -
  have "bit (reachable_bitmap ty m AND matching_bitmap len (partial_hash_array m) p) i \<and>
        data_block m ! i = Some e \<and> fst e = key"
    using assms(2) unfolding search_entry_def by (rule search_loop_Some)
  then show "i < len" "slot_entry ty m i = Some e" "fst e = key"
    by (auto simp: bitmap_simps slot_entry_def)
qed

lemma search_entry_None:
  assumes ok: "block_ok ty ph len m" and none: "search_entry ty len m key (ph key) = None"
  shows "(key, v) \<notin> set (block_entries ty m)"
proof
  assume "(key, v) \<in> set (block_entries ty m)"
  then obtain i where i: "i < len" "slot_entry ty m i = Some (key, v)"
    using block_okD(1) [OF ok] by (auto simp: set_block_entries)
  then have r: "bit (reachable_bitmap ty m) i" "data_block m ! i = Some (key, v)"
    by (auto simp: slot_entry_def split: if_splits)
  have "partial_hash_array m ! i = ph key" using block_okD(5) [OF ok i] by simp
  then have "bit (reachable_bitmap ty m AND matching_bitmap len (partial_hash_array m) (ph key)) i"
    using r(1) i(1) bit_below [OF r(1)] by (simp add: bitmap_simps)
  then show False
    using search_loop_None [of "data_block m" key _ i v] none r(2) by (simp add: search_entry_def)
qed

text \<open>Both outcomes of a search, as a case rule.\<close>

lemma search_entry_cases:
  assumes ok: "block_ok ty ph len m"
  obtains (missing) "search_entry ty len m key (ph key) = None" "\<And>v. (key, v) \<notin> set (block_entries ty m)"
  | (found) i v where "search_entry ty len m key (ph key) = Some (i, key, v)" "i < len"
      "slot_entry ty m i = Some (key, v)" "(key, v) \<in> set (block_entries ty m)"
proof (cases "search_entry ty len m key (ph key)")
  case None
  then show thesis using missing search_entry_None [OF ok] by blast
next
  case (Some ie)
  obtain i k v where ie: "ie = (i, k, v)" by (cases ie)
  note s = search_entry_Some [OF ok Some [unfolded ie]]
  then have "(key, v) \<in> set (block_entries ty m)"
    using block_okD(1) [OF ok] by (auto simp: set_block_entries)
  then show thesis using found [of i v] s Some ie by simp
qed

text \<open>Filling a free slot, emptying an occupied one, marking one removed, and overwriting one.\<close>

lemma insert_entry_with_ok:
  assumes ok: "block_ok ty ph len m" and i: "i < len" "len \<le> 32" "\<not> bit (occupied_bitmap m) i"
    and ph: "p = ph (fst e)"
  shows "block_ok ty ph len (insert_entry_with i p e m)"
    and "mset (block_entries ty (insert_entry_with i p e m)) = add_mset e (mset (block_entries ty m))"
    and "slot_entry ty (insert_entry_with i p e m) i = Some e"
proof -
  let ?m = "insert_entry_with i p e m"
  note d = block_okD [OF ok]
  have i32: "i < 32" using i by simp
  have nr: "ty = OPTIMISTIC \<Longrightarrow> \<not> bit (removed_bitmap_or_lru_tail m) i" using d(4) i(3) by blast
  have s: "slot_entry ty ?m j = (if j = i then Some e else slot_entry ty m j)" for j
    using i d(1) i32 nr
    by (auto simp: slot_entry_def bit_reachable_bitmap insert_entry_with_def bit_set_bit)
  show "slot_entry ty ?m i = Some e" by (simp add: s)
  have "slot_entry ty m i = None" using i(3) by (simp add: slot_entry_def bit_reachable_bitmap)
  then show "mset (block_entries ty ?m) = add_mset e (mset (block_entries ty m))"
    using block_entries_update [of ?m m i ty] i(1) d(1) s by (simp add: insert_entry_with_def)
  show "block_ok ty ph len ?m"
  proof (rule block_okI)
    show "length (data_block ?m) = len" "length (partial_hash_array ?m) = len"
      using d(1,2) by (simp_all add: insert_entry_with_def)
    show "bit (occupied_bitmap ?m) j \<longleftrightarrow> j < len \<and> data_block ?m ! j \<noteq> None" if "j < 32" for j
      using that i d(1) d(3) [of j] by (auto simp: insert_entry_with_def bit_set_bit nth_list_update)
    show "bit (occupied_bitmap ?m) j"
      if "ty = OPTIMISTIC" "j < 32" "bit (removed_bitmap_or_lru_tail ?m) j" for j
      using that d(4) [of j] by (simp add: insert_entry_with_def bit_set_bit)
    show "partial_hash_array ?m ! j = ph (fst e')" if "j < len" "slot_entry ty ?m j = Some e'" for j e'
      using that i(1) d(2) d(5) [of j e'] ph s
      by (auto simp: insert_entry_with_def nth_list_update split: if_splits)
  qed
qed

lemma take_slot_ok:
  assumes ok: "block_ok ty ph len m" and ty: "ty \<noteq> OPTIMISTIC" and i: "i < len" "len \<le> 32"
    and e: "slot_entry ty m i = Some e"
  shows "block_ok ty ph len (take_slot i m)"
    and "add_mset e (mset (block_entries ty (take_slot i m))) = mset (block_entries ty m)"
proof -
  let ?m = "take_slot i m"
  note d = block_okD [OF ok]
  have s: "slot_entry ty ?m j = (if j = i then None else slot_entry ty m j)" for j
    using i d(1) by (simp add: slot_entry_def bit_reachable_bitmap take_slot_def bit_clear_bit ty)
  then show "add_mset e (mset (block_entries ty ?m)) = mset (block_entries ty m)"
    using block_entries_update [of ?m m i ty] i(1) d(1) e by (simp add: take_slot_def)
  show "block_ok ty ph len ?m"
  proof (rule block_okI)
    show "bit (occupied_bitmap ?m) j \<longleftrightarrow> j < len \<and> data_block ?m ! j \<noteq> None" if "j < 32" for j
      using that i d(1) d(3) [of j] by (auto simp: take_slot_def bit_clear_bit nth_list_update)
    show "partial_hash_array ?m ! j = ph (fst e')" if "j < len" "slot_entry ty ?m j = Some e'" for j e'
      using that d(5) [of j e'] s by (auto simp: take_slot_def split: if_splits)
  qed (use d ty in \<open>auto simp: take_slot_def\<close>)
qed

lemma mark_removed_ok:
  assumes ok: "block_ok OPTIMISTIC ph len m" and i: "i < len" "len \<le> 32"
    and e: "slot_entry OPTIMISTIC m i = Some e"
  shows "block_ok OPTIMISTIC ph len (mark_removed i m)"
    and "add_mset e (mset (block_entries OPTIMISTIC (mark_removed i m))) = mset (block_entries OPTIMISTIC m)"
proof -
  let ?m = "mark_removed i m"
  note d = block_okD [OF ok]
  have o: "bit (occupied_bitmap m) i" using e by (auto simp: slot_entry_def bit_reachable_bitmap split: if_splits)
  have s: "slot_entry OPTIMISTIC ?m j = (if j = i then None else slot_entry OPTIMISTIC m j)" for j
    using i by (auto simp: slot_entry_def bit_reachable_bitmap mark_removed_def bit_set_bit)
  then show "add_mset e (mset (block_entries OPTIMISTIC ?m)) = mset (block_entries OPTIMISTIC m)"
    using block_entries_update [of ?m m i OPTIMISTIC] i(1) d(1) e by (simp add: mark_removed_def)
  show "block_ok OPTIMISTIC ph len ?m"
  proof (rule block_okI)
    show "bit (occupied_bitmap ?m) j"
      if "j < 32" "bit (removed_bitmap_or_lru_tail ?m) j" for j
      using that d(4) [of j] o by (auto simp: mark_removed_def bit_set_bit)
    show "partial_hash_array ?m ! j = ph (fst e')" if "j < len" "slot_entry OPTIMISTIC ?m j = Some e'" for j e'
      using that d(5) [of j e'] s by (auto simp: mark_removed_def split: if_splits)
  qed (use d in \<open>auto simp: mark_removed_def\<close>)
qed

lemma set_slot_ok:
  assumes ok: "block_ok ty ph len m" and i: "i < len" and e: "slot_entry ty m i = Some e"
    and k: "fst e' = fst e"
  defines "m' \<equiv> m\<lparr>data_block := (data_block m)[i := Some e']\<rparr>"
  shows "block_ok ty ph len m'"
    and "add_mset e (mset (block_entries ty m')) = add_mset e' (mset (block_entries ty m))"
proof -
  note d = block_okD [OF ok]
  have o: "bit (occupied_bitmap m) i" using e by (auto simp: slot_entry_def bit_reachable_bitmap split: if_splits)
  have s: "slot_entry ty m' j = (if j = i then Some e' else slot_entry ty m j)" for j
    using e i d(1) by (auto simp: slot_entry_def reachable_bitmap_def m'_def split: if_splits)
  then show "add_mset e (mset (block_entries ty m')) = add_mset e' (mset (block_entries ty m))"
    using block_entries_update [of m' m i ty] i d(1) e by (simp add: m'_def)
  show "block_ok ty ph len m'"
  proof (rule block_okI)
    show "bit (occupied_bitmap m') j \<longleftrightarrow> j < len \<and> data_block m' ! j \<noteq> None" if "j < 32" for j
      using that i d(1) d(3) [of j] o by (auto simp: m'_def nth_list_update)
    show "partial_hash_array m' ! j = ph (fst e'')" if "j < len" "slot_entry ty m' j = Some e''" for j e''
      using that d(5) [of j e''] d(5) [OF i e] s k by (auto simp: m'_def split: if_splits)
  qed (use d in \<open>auto simp: m'_def\<close>)
qed

section \<open>Buckets\<close>

lemma bucket_okD:
  assumes "bucket_ok ty ph b"
  shows "block_ok ty ph BUCKET_LEN (metadata b)" "l \<in> set (links b) \<Longrightarrow> block_ok ty ph LINKED_BUCKET_LEN l"
    "unat (num_entries b) = length (bucket_entries ty b)" "distinct (map fst (bucket_entries ty b))"
    "lru_ok ty b"
  using assms by (simp_all add: bucket_ok_def)

lemma bucket_new_ok: "bucket_ok ty ph bucket_new" "bucket_map ty bucket_new = Map.empty"
proof -
  have t: "removed_bitmap_or_lru_tail (block_new BUCKET_LEN) = 0" by (simp add: block_new_def)
  have e: "bucket_entries ty bucket_new = []"
    by (simp add: bucket_new_def bucket_entries_def block_new_entries)
  show "bucket_map ty bucket_new = Map.empty" by (simp add: bucket_map_def e)
  show "bucket_ok ty ph bucket_new"
    unfolding bucket_ok_def e using lru_default_rel
    by (auto simp: bucket_new_def block_new_ok lru_ok_def t)
qed

lemma bucket_map_Some_iff:
  "bucket_ok ty ph b \<Longrightarrow> bucket_map ty b k = Some v \<longleftrightarrow> (k, v) \<in> set (bucket_entries ty b)"
  by (simp add: bucket_map_def map_of_eq_Some_iff bucket_ok_def)

lemma bucket_map_None_iff:
  "bucket_map ty b k = None \<longleftrightarrow> (\<forall>v. (k, v) \<notin> set (bucket_entries ty b))"
  by (force simp: bucket_map_def map_of_eq_None_iff)

lemma empty_bucket_map: "bucket_ok ty ph b \<Longrightarrow> num_entries b = 0 \<Longrightarrow> bucket_map ty b = Map.empty"
  using bucket_okD(3) [of ty ph b] by (simp add: bucket_map_def)

text \<open>The block of a pointer that points to an entry.\<close>

definition ep_len :: "entry_ptr \<Rightarrow> nat" where
  "ep_len ep = (case current_link_ptr ep of None \<Rightarrow> BUCKET_LEN | Some _ \<Rightarrow> LINKED_BUCKET_LEN)"

definition ep_in :: "('k, 'v) bucket \<Rightarrow> entry_ptr \<Rightarrow> bool" where
  "ep_in b ep \<longleftrightarrow> (case current_link_ptr ep of None \<Rightarrow> True | Some i \<Rightarrow> i < length (links b))"

lemma ep_num_entries [simp]:
  "ep_block (b\<lparr>num_entries := n\<rparr>) ep = ep_block b ep" "ep_in (b\<lparr>num_entries := n\<rparr>) ep = ep_in b ep"
  "ep_get (b\<lparr>num_entries := n\<rparr>) ep = ep_get b ep"
  by (simp_all add: ep_block_def ep_in_def ep_get_def split: option.split)

lemma ep_len_le [simp]: "ep_len ep \<le> 32"
  by (simp add: ep_len_def split: option.split)

lemma ep_block_ok:
  "bucket_ok ty ph b \<Longrightarrow> ep_in b ep \<Longrightarrow> block_ok ty ph (ep_len ep) (ep_block b ep)"
  by (simp add: ep_in_def ep_len_def ep_block_def bucket_ok_def split: option.splits)

lemma points_toD:
  assumes "bucket_ok ty ph b" "points_to ty b ep e"
  shows "ep_in b ep" "current_index ep < ep_len ep" "slot_entry ty (ep_block b ep) (current_index ep) = Some e"
    "block_ok ty ph (ep_len ep) (ep_block b ep)" "ep_get b ep = Some e"
proof -
  show "ep_in b ep" "slot_entry ty (ep_block b ep) (current_index ep) = Some e"
    using assms(2) by (simp_all add: points_to_def ep_in_def)
  then show "block_ok ty ph (ep_len ep) (ep_block b ep)" "ep_get b ep = Some e"
    using ep_block_ok [OF assms(1)] by (auto simp: ep_get_def slot_entry_def split: if_splits)
  then show "current_index ep < ep_len ep"
    using assms(2) block_okD(1) by (metis points_to_def)
qed

lemma points_toI:
  "bucket_ok ty ph b \<Longrightarrow> ep_in b ep \<Longrightarrow> current_index ep < ep_len ep \<Longrightarrow>
   slot_entry ty (ep_block b ep) (current_index ep) = Some e \<Longrightarrow> points_to ty b ep e"
  using block_okD(1) [OF ep_block_ok, of ty ph b ep] by (simp add: points_to_def ep_in_def)

lemma points_to_entry:
  assumes "bucket_ok ty ph b" "points_to ty b ep e"
  shows "e \<in> set (bucket_entries ty b)" "bucket_map ty b (fst e) = Some (snd e)" "num_entries b \<noteq> 0"
proof -
  have "e \<in> set (block_entries ty (ep_block b ep))"
    using points_toD [OF assms] block_okD(1) by (metis set_block_entries)
  then show e: "e \<in> set (bucket_entries ty b)"
    using points_toD(1) [OF assms]
    by (auto simp: set_bucket_entries ep_block_def ep_in_def split: option.splits)
  then show "bucket_map ty b (fst e) = Some (snd e)" by (simp add: bucket_map_Some_iff [OF assms(1)])
  show "num_entries b \<noteq> 0" using e bucket_okD(3) [OF assms(1)] by auto
qed

text \<open>Looking up.\<close>

lemma search_links_spec:
  assumes "\<forall>l\<in>set ls. block_ok ty ph LINKED_BUCKET_LEN l"
  shows "case search_links ty ls key (ph key) of
           Some e \<Rightarrow> fst e = key \<and> (\<exists>l\<in>set ls. e \<in> set (block_entries ty l))
         | None \<Rightarrow> \<forall>l\<in>set ls. \<forall>v. (key, v) \<notin> set (block_entries ty l)"
  using assms
proof (induction ls)
  case (Cons l ls)
  then have ok: "block_ok ty ph LINKED_BUCKET_LEN l" by simp
  show ?case
    by (rule search_entry_cases [OF ok, of key]) (use Cons in \<open>auto split: option.splits\<close>)
qed simp

lemma search_map:
  assumes ok: "bucket_ok ty ph b"
  shows "search ty b key (ph key) = map_option (Pair key) (bucket_map ty b key)"
proof (cases "num_entries b = 0")
  case True
  then show ?thesis using empty_bucket_map [OF ok] by (simp add: search_def)
next
  case ne: False
  have l: "\<forall>l\<in>set (links b). block_ok ty ph LINKED_BUCKET_LEN l" using bucket_okD(2) [OF ok] by blast
  have r: "case search ty b key (ph key) of
           Some e \<Rightarrow> fst e = key \<and> e \<in> set (bucket_entries ty b)
         | None \<Rightarrow> \<forall>v. (key, v) \<notin> set (bucket_entries ty b)"
    by (rule search_entry_cases [OF bucket_okD(1) [OF ok], of key])
      (use ne search_links_spec [OF l, of key] in
        \<open>auto simp: search_def set_bucket_entries split: option.splits\<close>)
  show ?thesis
  proof (cases "search ty b key (ph key)")
    case None
    with r have "bucket_map ty b key = None" by (simp add: bucket_map_None_iff)
    with None show ?thesis by simp
  next
    case (Some e)
    with r have "bucket_map ty b key = Some (snd e)" "fst e = key"
      by (auto simp: bucket_map_Some_iff [OF ok])
    with Some show ?thesis by (cases e) simp
  qed
qed

lemma get_links_spec:
  assumes "\<forall>l\<in>set ls. block_ok ty ph LINKED_BUCKET_LEN l"
  obtains (found) j i v where
      "get_links ty n ls key (ph key) = \<lparr>current_link_ptr = Some (n + j), current_index = i\<rparr>"
      "j < length ls" "i < LINKED_BUCKET_LEN" "slot_entry ty (ls ! j) i = Some (key, v)"
  | (missing) "get_links ty n ls key (ph key) = ep_new"
      "\<And>l v. l \<in> set ls \<Longrightarrow> (key, v) \<notin> set (block_entries ty l)"
  using assms
proof (induction ls arbitrary: n thesis)
  case (Cons l ls)
  then have ok: "block_ok ty ph LINKED_BUCKET_LEN l" and oks: "\<forall>l\<in>set ls. block_ok ty ph LINKED_BUCKET_LEN l"
    by simp_all
  show ?case
  proof (rule search_entry_cases [OF ok, of key])
    assume m: "search_entry ty LINKED_BUCKET_LEN l key (ph key) = None" "\<And>v. (key, v) \<notin> set (block_entries ty l)"
    show thesis
    proof (rule Cons.IH [of "Suc n", OF _ _ oks])
      fix j i v
      assume "get_links ty (Suc n) ls key (ph key) = \<lparr>current_link_ptr = Some (Suc n + j), current_index = i\<rparr>"
        "j < length ls" "i < LINKED_BUCKET_LEN" "slot_entry ty (ls ! j) i = Some (key, v)"
      then show thesis using m by (intro Cons.prems(1) [of "Suc j" i v]) simp_all
    next
      assume "get_links ty (Suc n) ls key (ph key) = ep_new"
        "\<And>l v. l \<in> set ls \<Longrightarrow> (key, v) \<notin> set (block_entries ty l)"
      then show thesis using m by (intro Cons.prems(2)) auto
    qed
  next
    fix i v
    assume "search_entry ty LINKED_BUCKET_LEN l key (ph key) = Some (i, key, v)" "i < LINKED_BUCKET_LEN"
      "slot_entry ty l i = Some (key, v)"
    then show thesis by (intro Cons.prems(1) [of 0 i v]) simp_all
  qed
qed simp

lemma get_cases:
  assumes ok: "bucket_ok ty ph b"
  obtains (found) v where "points_to ty b (bucket_get ty b key (ph key)) (key, v)"
      "bucket_map ty b key = Some v"
  | (missing) "bucket_get ty b key (ph key) = ep_new" "bucket_map ty b key = None"
proof (cases "num_entries b = 0")
  case True
  then show thesis using missing empty_bucket_map [OF ok] by (simp add: bucket_get_def)
next
  case ne: False
  have l: "\<forall>l\<in>set (links b). block_ok ty ph LINKED_BUCKET_LEN l" using bucket_okD(2) [OF ok] by blast
  have hit: thesis if "ep_in b (bucket_get ty b key (ph key))"
    "current_index (bucket_get ty b key (ph key)) < ep_len (bucket_get ty b key (ph key))"
    "slot_entry ty (ep_block b (bucket_get ty b key (ph key))) (current_index (bucket_get ty b key (ph key))) = Some (key, v)"
    for v
    using found [OF points_toI [OF ok that]] points_to_entry(2) [OF ok points_toI [OF ok that]] by simp
  show thesis
  proof (rule search_entry_cases [OF bucket_okD(1) [OF ok], of key])
    assume m: "search_entry ty BUCKET_LEN (metadata b) key (ph key) = None"
      "\<And>v. (key, v) \<notin> set (block_entries ty (metadata b))"
    show thesis
    proof (rule get_links_spec [OF l, of 0 key])
      fix j i v
      assume "get_links ty 0 (links b) key (ph key) = \<lparr>current_link_ptr = Some (0 + j), current_index = i\<rparr>"
        "j < length (links b)" "i < LINKED_BUCKET_LEN" "slot_entry ty (links b ! j) i = Some (key, v)"
      then show thesis using m ne hit [of v] by (simp add: bucket_get_def ep_in_def ep_len_def ep_block_def)
    next
      assume "get_links ty 0 (links b) key (ph key) = ep_new"
        "\<And>l v. l \<in> set (links b) \<Longrightarrow> (key, v) \<notin> set (block_entries ty l)"
      then show thesis
        using m ne missing by (simp add: bucket_get_def bucket_map_None_iff set_bucket_entries)
    qed
  next
    fix i v
    assume "search_entry ty BUCKET_LEN (metadata b) key (ph key) = Some (i, key, v)" "i < BUCKET_LEN"
      "slot_entry ty (metadata b) i = Some (key, v)"
    then show thesis using ne hit [of v] by (simp add: bucket_get_def ep_in_def ep_len_def ep_block_def)
  qed
qed

lemma points_to_valid:
  assumes "bucket_ok ty ph b" "points_to ty b ep e"
  shows "ep_is_valid ep" "current_index ep < 32"
proof -
  show "current_index ep < 32"
    using points_toD(2) [OF assms] ep_len_le [of ep] by (metis less_le_trans)
  then show "ep_is_valid ep" by (simp add: ep_is_valid_def)
qed

text \<open>Changing one block of a bucket.\<close>

lemma mset_concat_list_update:
  assumes "i < length ls"
  shows "mset (concat (map f (ls[i := x]))) + mset (f (ls ! i)) = mset (concat (map f ls)) + mset (f x)"
proof -
  have "mset (concat (map f (ls[i := x]))) =
      mset (concat (map f (take i ls))) + mset (f x) + mset (concat (map f (drop (Suc i) ls)))"
    using assms by (simp add: upd_conv_take_nth_drop)
  moreover have "mset (concat (map f ls)) =
      mset (concat (map f (take i ls))) + mset (f (ls ! i)) + mset (concat (map f (drop (Suc i) ls)))"
    by (subst id_take_nth_drop [OF assms]) simp
  ultimately show ?thesis by simp
qed

lemma ep_update_entries:
  assumes "ep_in b ep"
    and "mset (block_entries ty (f (ep_block b ep))) + A = mset (block_entries ty (ep_block b ep)) + B"
  shows "mset (bucket_entries ty (ep_update f ep b)) + A = mset (bucket_entries ty b) + B"
proof (cases "current_link_ptr ep")
  case None
  then show ?thesis using assms(2)
    by (simp add: bucket_entries_def ep_update_def ep_block_def)
next
  case (Some i)
  then have i: "i < length (links b)" using assms(1) by (simp add: ep_in_def)
  let ?C = "mset (concat (map (block_entries ty) (links b)))"
  let ?C' = "mset (concat (map (block_entries ty) ((links b)[i := f (links b ! i)])))"
  have "?C' + mset (block_entries ty (links b ! i)) = ?C + mset (block_entries ty (f (links b ! i)))"
    by (rule mset_concat_list_update [OF i])
  then have "?C' + mset (block_entries ty (links b ! i)) + A = ?C + (mset (block_entries ty (links b ! i)) + B)"
    using assms(2) Some by (simp add: ep_block_def add.assoc)
  then have "?C' + A + mset (block_entries ty (links b ! i)) = ?C + B + mset (block_entries ty (links b ! i))"
    by (simp only: ac_simps)
  then have "?C' + A = ?C + B" by (simp only: add_right_cancel)
  then show ?thesis using Some by (simp add: bucket_entries_def ep_update_def add.assoc)
qed

text \<open>The blocks of a bucket are fine; what the lemmas on single operations say of them.\<close>

definition blocks_ok :: "btype \<Rightarrow> ('k \<Rightarrow> u8) \<Rightarrow> ('k, 'v) bucket \<Rightarrow> bool" where
  "blocks_ok ty ph b \<longleftrightarrow> block_ok ty ph BUCKET_LEN (metadata b) \<and>
     (\<forall>l\<in>set (links b). block_ok ty ph LINKED_BUCKET_LEN l)"

lemma ep_update_blocks:
  assumes "blocks_ok ty ph b" "ep_in b ep" "block_ok ty ph (ep_len ep) (f (ep_block b ep))"
  shows "blocks_ok ty ph (ep_update f ep b)"
  using assms
  by (auto simp: blocks_ok_def ep_update_def ep_in_def ep_len_def ep_block_def
      split: option.splits dest!: subsetD [OF set_update_subset_insert])

lemma bucket_entries_cong:
  "metadata b' = metadata b \<Longrightarrow> links b' = links b \<Longrightarrow> bucket_entries ty b' = bucket_entries ty b"
  by (simp add: bucket_entries_def)

lemma blocks_ok_cong:
  "metadata b' = metadata b \<Longrightarrow> links b' = links b \<Longrightarrow> blocks_ok ty ph b' = blocks_ok ty ph b"
  by (simp add: blocks_ok_def)

lemma bucket_ok_iff:
  "bucket_ok ty ph b \<longleftrightarrow> blocks_ok ty ph b \<and> unat (num_entries b) = length (bucket_entries ty b) \<and>
     distinct (map fst (bucket_entries ty b)) \<and> lru_ok ty b"
  by (auto simp: bucket_ok_def blocks_ok_def)

lemma bucket_removed:
  assumes ok: "bucket_ok ty ph b" and e: "e \<in> set (bucket_entries ty b)"
    and b': "blocks_ok ty ph b'" "num_entries b' = num_entries b - 1" "lru_ok ty b'"
    and m: "add_mset e (mset (bucket_entries ty b')) = mset (bucket_entries ty b)"
  shows "bucket_ok ty ph b'" "bucket_map ty b' = (bucket_map ty b)(fst e := None)"
proof -
  obtain k v where kv: "e = (k, v)" by (cases e)
  have m': "mset (bucket_entries ty b) = add_mset (k, v) (mset (bucket_entries ty b'))" using m kv by simp
  note mp = map_of_mset_add [OF m' bucket_okD(4) [OF ok]]
  have "length (bucket_entries ty b) = Suc (length (bucket_entries ty b'))"
    using arg_cong [OF m', of size] by simp
  moreover have "num_entries b \<noteq> 0" using e bucket_okD(3) [OF ok] by auto
  ultimately have "unat (num_entries b') = length (bucket_entries ty b')"
    using bucket_okD(3) [OF ok] by (simp add: b'(2) unat_minus_one)
  then show "bucket_ok ty ph b'" using b' mp(2) by (simp add: bucket_ok_iff)
  show "bucket_map ty b' = (bucket_map ty b)(fst e := None)"
    using mp(1,3) by (auto simp: bucket_map_def kv fun_eq_iff)
qed

lemma bucket_added:
  assumes ok: "bucket_ok ty ph b" and new: "bucket_map ty b (fst e) = None"
    and b': "blocks_ok ty ph b'" "num_entries b' = num_entries b + 1" "lru_ok ty b'"
    and m: "mset (bucket_entries ty b') = add_mset e (mset (bucket_entries ty b))"
    and max: "num_entries b \<noteq> - 1"
  shows "bucket_ok ty ph b'" "bucket_map ty b' = (bucket_map ty b)(fst e \<mapsto> snd e)"
proof -
  obtain k v where kv: "e = (k, v)" by (cases e)
  have "distinct (map fst ((k, v) # bucket_entries ty b))"
    using bucket_okD(4) [OF ok] new by (simp add: bucket_map_def map_of_eq_None_iff kv)
  moreover have "mset (bucket_entries ty b') = mset ((k, v) # bucket_entries ty b)" using m kv by simp
  ultimately have d: "distinct (map fst (bucket_entries ty b'))" using distinct_keys_mset by blast
  have "1 + num_entries b \<noteq> 0" using max by (metis add.commute add_eq_0_iff)
  then have "unat (num_entries b') = Suc (unat (num_entries b))"
    using unatSuc [of "num_entries b"] by (simp add: b'(2) add.commute)
  then have "unat (num_entries b') = length (bucket_entries ty b')"
    using bucket_okD(3) [OF ok] arg_cong [OF m, of size] by simp
  then show "bucket_ok ty ph b'" using b' d by (simp add: bucket_ok_iff)
  show "bucket_map ty b' = (bucket_map ty b)(fst e \<mapsto> snd e)"
    using map_of_mset_add(1) [of "bucket_entries ty b'" k v "bucket_entries ty b"] m d kv
    by (simp add: bucket_map_def)
qed

text \<open>Insertion.\<close>

lemma free_link_Some:
  "free_link n ls = Some (i, j) \<Longrightarrow> n \<le> i \<and> i - n < length ls \<and> j = trailing_ones (occupied_bitmap (ls ! (i - n))) \<and>
     j \<noteq> LINKED_BUCKET_LEN"
  by (induction n ls rule: free_link.induct) (auto simp: Let_def nth_Cons' Suc_diff_le split: if_splits)

lemma block_free_index:
  assumes "block_ok ty ph len m" "trailing_ones (occupied_bitmap m) \<noteq> len" "len \<le> 32"
  shows "trailing_ones (occupied_bitmap m) < len"
proof -
  have "\<not> bit (occupied_bitmap m) len" using block_okD(3) [OF assms(1), of len] by simp
  then show ?thesis using trailing_ones_le_clear assms(2) by (metis le_neq_implies_less)
qed

lemma lru_ok_cong:
  "removed_bitmap_or_lru_tail (metadata b') = removed_bitmap_or_lru_tail (metadata b) \<Longrightarrow>
   lru_list b' = lru_list b \<Longrightarrow> lru_ok ty b' = lru_ok ty b"
  by (simp add: lru_ok_def)

lemma insert_in_block:
  assumes ok: "bucket_ok ty ph b" and new: "bucket_map ty b (fst e) = None" and max: "num_entries b \<noteq> - 1"
    and ep: "ep_in b ep" "current_index ep = trailing_ones (occupied_bitmap (ep_block b ep))"
      "current_index ep \<noteq> ep_len ep"
  defines "b' \<equiv> (ep_update (insert_entry_with (current_index ep) (ph (fst e)) e) ep b)\<lparr>num_entries := num_entries b + 1\<rparr>"
  shows "bucket_ok ty ph b'" "bucket_map ty b' = (bucket_map ty b)(fst e \<mapsto> snd e)" "points_to ty b' ep e"
proof -
  let ?f = "insert_entry_with (current_index ep) (ph (fst e)) e"
  note blk = ep_block_ok [OF ok ep(1)]
  have i: "current_index ep < ep_len ep"
    using block_free_index [OF blk] ep(2,3) by simp
  have "\<not> bit (occupied_bitmap (ep_block b ep)) (current_index ep)"
    unfolding ep(2) by (rule not_bit_trailing_ones)
  note ins = insert_entry_with_ok [OF blk i ep_len_le this refl, where e = e]
  have bl: "blocks_ok ty ph (ep_update ?f ep b)"
    using ep_update_blocks [where f = ?f, OF _ ep(1) ins(1)] ok by (simp add: bucket_ok_iff)
  have ms: "mset (bucket_entries ty (ep_update ?f ep b)) = add_mset e (mset (bucket_entries ty b))"
    using ep_update_entries [OF ep(1), of ty ?f "{#}" "{#e#}"] ins(2) by simp
  have "lru_ok ty (ep_update ?f ep b) = lru_ok ty b"
    by (rule lru_ok_cong) (simp_all add: ep_update_def insert_entry_with_def split: option.split)
  then have lru: "lru_ok ty b'" using bucket_okD(5) [OF ok] by (simp add: b'_def lru_ok_def)
  have cong: "blocks_ok ty ph b'" "mset (bucket_entries ty b') = add_mset e (mset (bucket_entries ty b))"
    using bl ms blocks_ok_cong [of b' "ep_update ?f ep b"] bucket_entries_cong [of b' "ep_update ?f ep b"]
    by (simp_all add: b'_def)
  have n: "num_entries b' = num_entries b + 1" by (simp add: b'_def)
  show okb': "bucket_ok ty ph b'" by (rule bucket_added(1) [OF ok new cong(1) n lru cong(2) max])
  show "bucket_map ty b' = (bucket_map ty b)(fst e \<mapsto> snd e)"
    by (rule bucket_added(2) [OF ok new cong(1) n lru cong(2) max])
  have "ep_in b' ep" "ep_block b' ep = ?f (ep_block b ep)"
    using ep(1) by (simp_all add: b'_def ep_in_def ep_block_def ep_update_def split: option.splits)
  then show "points_to ty b' ep e" using points_toI [OF okb'] i ins(3) by simp
qed

text \<open>The fresh linked bucket that \<^verbatim>\<open>insert_with\<close> puts at the head of the chain.\<close>

definition fresh_link :: "u8 \<Rightarrow> 'k \<times> 'v \<Rightarrow> ('k, 'v) block" where
  "fresh_link p e = insert_entry_with 0 p e (block_new LINKED_BUCKET_LEN)"

lemma fresh_link_eq:
  "(block_new LINKED_BUCKET_LEN)
     \<lparr>data_block := (data_block (block_new LINKED_BUCKET_LEN))[0 := Some e],
      partial_hash_array := (partial_hash_array (block_new LINKED_BUCKET_LEN))[0 := p],
      occupied_bitmap := 1\<rparr> = fresh_link p e"
  by (simp add: fresh_link_def insert_entry_with_def block_new_def shl1_def)

lemma fresh_link_ok:
  "block_ok ty ph LINKED_BUCKET_LEN (fresh_link (ph (fst e)) e)"
  "mset (block_entries ty (fresh_link (ph (fst e)) e)) = {#e#}"
  "slot_entry ty (fresh_link (ph (fst e)) e) 0 = Some e"
proof -
  let ?m = "block_new LINKED_BUCKET_LEN"
  have ok: "block_ok ty ph LINKED_BUCKET_LEN ?m" by (simp add: block_new_ok)
  have "\<not> bit (occupied_bitmap ?m) 0" by (simp add: block_new_def)
  note f = insert_entry_with_ok [OF ok _ _ this refl, where e = e]
  show "block_ok ty ph LINKED_BUCKET_LEN (fresh_link (ph (fst e)) e)"
    "mset (block_entries ty (fresh_link (ph (fst e)) e)) = {#e#}"
    "slot_entry ty (fresh_link (ph (fst e)) e) 0 = Some e"
    unfolding fresh_link_def using f by (simp_all add: block_new_entries)
qed

lemma insert_with_ok:
  assumes ok: "bucket_ok ty ph b" and new: "bucket_map ty b (fst e) = None" and max: "num_entries b \<noteq> - 1"
  obtains ep b' where "insert_with b (ph (fst e)) e = Inr (ep, b')" "bucket_ok ty ph b'"
    "bucket_map ty b' = (bucket_map ty b)(fst e \<mapsto> snd e)" "points_to ty b' ep e"
    "num_entries b' = num_entries b + 1"
proof -
  let ?i = "trailing_ones (occupied_bitmap (metadata b))"
  consider "?i \<noteq> BUCKET_LEN" | i j where "?i = BUCKET_LEN" "free_link 0 (links b) = Some (i, j)"
    | "?i = BUCKET_LEN" "free_link 0 (links b) = None" by fastforce
  then show thesis
  proof cases
    case 1
    let ?ep = "\<lparr>current_link_ptr = None, current_index = ?i\<rparr>"
    have ep: "ep_in b ?ep" "current_index ?ep = trailing_ones (occupied_bitmap (ep_block b ?ep))"
      "current_index ?ep \<noteq> ep_len ?ep" using 1 by (simp_all add: ep_in_def ep_block_def ep_len_def)
    note ii = insert_in_block [OF ok new max ep]
    show thesis
      by (rule that [OF _ ii]) (use 1 max in \<open>simp_all add: insert_with_def ep_update_def Let_def\<close>)
  next
    case (2 i j)
    let ?ep = "\<lparr>current_link_ptr = Some i, current_index = j\<rparr>"
    have ep: "ep_in b ?ep" "current_index ?ep = trailing_ones (occupied_bitmap (ep_block b ?ep))"
      "current_index ?ep \<noteq> ep_len ?ep"
      using free_link_Some [OF 2(2)] by (simp_all add: ep_in_def ep_block_def ep_len_def)
    note ii = insert_in_block [OF ok new max ep]
    show thesis
      by (rule that [OF _ ii]) (use 2 max in \<open>simp_all add: insert_with_def ep_update_def Let_def\<close>)
  next
    case 3
    let ?ep = "\<lparr>current_link_ptr = Some 0, current_index = 0\<rparr>"
    let ?b = "b\<lparr>links := fresh_link (ph (fst e)) e # links b, num_entries := num_entries b + 1\<rparr>"
    note f = fresh_link_ok [where e = e and ty = ty and ph = ph]
    have lru: "lru_ok ty ?b" using bucket_okD(5) [OF ok] by (simp add: lru_ok_def)
    have bl: "blocks_ok ty ph ?b" using ok f(1) by (simp add: bucket_ok_iff blocks_ok_def)
    have m: "mset (bucket_entries ty ?b) = add_mset e (mset (bucket_entries ty b))"
      using f(2) by (simp add: bucket_entries_def)
    have n: "num_entries ?b = num_entries b + 1" by simp
    note a = bucket_added [OF ok new bl n lru m max]
    have p: "points_to ty ?b ?ep e"
      using a(1) f(3) by (intro points_toI) (simp_all add: ep_in_def ep_block_def ep_len_def)
    show thesis
      by (rule that [OF _ a p n]) (use 3 max in \<open>simp add: insert_with_def Let_def fresh_link_eq\<close>)
  qed
qed

text \<open>Removal of the entry that a pointer points to.\<close>

lemma lru_ok_remove:
  assumes "lru_ok CACHE b" "current_index ep < 32"
  shows "lru_ok CACHE (remove_from_lru_list b ep)"
proof (cases "current_link_ptr ep = None")
  case True
  let ?e = "of_nat (current_index ep) :: u8" and ?t = "removed_bitmap_or_lru_tail (metadata b)"
  obtain xs where rel: "lru_rel (lru_list b) ?t xs" using assms(1) by (auto simp: lru_ok_def)
  have e: "unat ?e < lru_len" using assms(2) by (simp add: unat_of_small)
  have "lru_rel (snd (lru_remove (lru_list b) ?t ?e)) (tail_after ?t (fst (lru_remove (lru_list b) ?t ?e)))
      (remove1 (unat ?e) xs)"
    using lru_remove_in [OF rel e] lru_remove_notin [OF rel e] rel by (cases "unat ?e \<in> set xs") (auto simp: remove1_idem)
  then show ?thesis using True
    by (auto simp: remove_from_lru_list_def lru_ok_def store_tail_def split: prod.split option.split)
qed (use assms in \<open>auto simp: remove_from_lru_list_def\<close>)

lemma lru_ok_promote:
  assumes "lru_ok CACHE b" "current_index ep < 32"
  shows "lru_ok CACHE (update_lru_tail b ep)"
proof (cases "current_link_ptr ep = None")
  case True
  let ?e = "of_nat (current_index ep) :: u8" and ?t = "removed_bitmap_or_lru_tail (metadata b)"
  obtain xs where rel: "lru_rel (lru_list b) ?t xs" using assms(1) by (auto simp: lru_ok_def)
  have e: "unat ?e < lru_len" using assms(2) by (simp add: unat_of_small)
  show ?thesis using True lru_promote_rel [OF rel e]
    by (auto simp: update_lru_tail_def lru_ok_def store_tail_def split: prod.split option.split)
qed (use assms in \<open>auto simp: update_lru_tail_def\<close>)

text \<open>The tail field of a cache bucket is not part of its entries.\<close>

lemma block_ok_tail:
  assumes "ty = CACHE"
  shows "block_ok ty ph len (m\<lparr>removed_bitmap_or_lru_tail := t\<rparr>) = block_ok ty ph len m"
    and "block_entries ty (m\<lparr>removed_bitmap_or_lru_tail := t\<rparr>) = block_entries ty m"
proof -
  have "slot_entry ty (m\<lparr>removed_bitmap_or_lru_tail := t\<rparr>) = slot_entry ty m"
    using assms by (simp add: fun_eq_iff slot_entry_def reachable_bitmap_def)
  then show "block_ok ty ph len (m\<lparr>removed_bitmap_or_lru_tail := t\<rparr>) = block_ok ty ph len m"
    "block_entries ty (m\<lparr>removed_bitmap_or_lru_tail := t\<rparr>) = block_entries ty m"
    using assms by (simp_all add: block_ok_def block_entries_def)
qed

lemma store_tail_same:
  "block_ok CACHE ph len (metadata (store_tail r b)) = block_ok CACHE ph len (metadata b)"
  "block_entries CACHE (metadata (store_tail r b)) = block_entries CACHE (metadata b)"
  "links (store_tail r b) = links b" "num_entries (store_tail r b) = num_entries b"
  "occupied_bitmap (metadata (store_tail r b)) = occupied_bitmap (metadata b)"
  "data_block (metadata (store_tail r b)) = data_block (metadata b)"
  "state (store_tail r b) = state b"
  by (cases r; simp add: store_tail_def block_ok_tail)+

lemma remove_from_lru_list_same:
  "blocks_ok CACHE ph (remove_from_lru_list b ep) = blocks_ok CACHE ph b"
  "bucket_entries CACHE (remove_from_lru_list b ep) = bucket_entries CACHE b"
  "links (remove_from_lru_list b ep) = links b"
  "num_entries (remove_from_lru_list b ep) = num_entries b"
  "current_link_ptr ep = None \<Longrightarrow> block_entries CACHE (ep_block (remove_from_lru_list b ep) ep) = block_entries CACHE (ep_block b ep)"
  "ep_get (remove_from_lru_list b ep) ep = ep_get b ep"
  "slot_entry CACHE (ep_block (remove_from_lru_list b ep) ep) i = slot_entry CACHE (ep_block b ep) i"
  by (auto simp: remove_from_lru_list_def blocks_ok_def bucket_entries_def store_tail_same ep_block_def
      ep_get_def slot_entry_def reachable_bitmap_def split: prod.split option.split)

lemma update_lru_tail_same:
  "blocks_ok CACHE ph (update_lru_tail b ep) = blocks_ok CACHE ph b"
  "bucket_entries CACHE (update_lru_tail b ep) = bucket_entries CACHE b"
  "num_entries (update_lru_tail b ep) = num_entries b"
  by (auto simp: update_lru_tail_def blocks_ok_def bucket_entries_def store_tail_same split: prod.split)

lemma update_lru_tail_ok:
  assumes ok: "bucket_ok CACHE ph b" and "current_index ep < 32"
  shows "bucket_ok CACHE ph (update_lru_tail b ep)"
    and "bucket_map CACHE (update_lru_tail b ep) = bucket_map CACHE b"
  using assms lru_ok_promote [of b ep]
  by (simp_all add: bucket_ok_iff update_lru_tail_same bucket_map_def)

text \<open>Emptying the slot (buckets that are not optimistic).\<close>

lemma take_out_ok:
  assumes ok: "bucket_ok ty ph b" and ty: "ty \<noteq> OPTIMISTIC" and pt: "points_to ty b ep e"
  defines "b' \<equiv> ep_update (take_slot (current_index ep)) ep (b\<lparr>num_entries := num_entries b - 1\<rparr>)"
  shows "bucket_ok ty ph b'" "bucket_map ty b' = (bucket_map ty b)(fst e := None)"
    and "add_mset e (mset (bucket_entries ty b')) = mset (bucket_entries ty b)"
proof -
  let ?b = "b\<lparr>num_entries := num_entries b - 1\<rparr>"
  note p = points_toD [OF ok pt]
  have blk: "ep_block ?b ep = ep_block b ep" "ep_in ?b ep" using p(1) by simp_all
  note t = take_slot_ok [OF p(4) ty p(2) ep_len_le p(3)]
  have bl: "blocks_ok ty ph b'"
    unfolding b'_def using ok t(1) blk
    by (intro ep_update_blocks) (simp_all add: bucket_ok_iff blocks_ok_def)
  have "mset (bucket_entries ty b') + {#e#} = mset (bucket_entries ty ?b) + {#}"
    unfolding b'_def by (rule ep_update_entries [OF blk(2)]) (use t(2) blk in simp)
  then show ms: "add_mset e (mset (bucket_entries ty b')) = mset (bucket_entries ty b)"
    by (simp add: bucket_entries_def)
  have n: "num_entries b' = num_entries b - 1" by (simp add: b'_def ep_update_def split: option.split)
  have lru: "lru_ok ty b'"
    using bucket_okD(5) [OF ok] by (simp add: b'_def lru_ok_def ep_update_def take_slot_def split: option.split)
  show "bucket_ok ty ph b'" "bucket_map ty b' = (bucket_map ty b)(fst e := None)"
    using bucket_removed [OF ok points_to_entry(1) [OF ok pt] bl n lru ms] .
qed

lemma erase_ok:
  assumes ok: "bucket_ok ty ph b" and pt: "points_to ty b ep e"
  shows "bucket_ok ty ph (snd (erase ty b ep))"
    "bucket_map ty (snd (erase ty b ep)) = (bucket_map ty b)(fst e := None)"
    "fst (erase ty b ep) = (if ty = OPTIMISTIC then None else Some e)"
proof -
  let ?b = "b\<lparr>num_entries := num_entries b - 1\<rparr>"
  note p = points_toD [OF ok pt]
  have g: "ep_get ?b ep = Some e" using p(5) by simp
  consider (opt) "ty = OPTIMISTIC" | (lru) "ty = CACHE" "current_link_ptr ep = None"
    | (plain) "ty \<noteq> OPTIMISTIC" "erase ty b ep = (ep_get ?b ep, ep_update (take_slot (current_index ep)) ep ?b)"
    by (cases "current_link_ptr ep"; cases ty) (auto simp: erase_def)
  then have "bucket_ok ty ph (snd (erase ty b ep)) \<and>
    bucket_map ty (snd (erase ty b ep)) = (bucket_map ty b)(fst e := None) \<and>
    fst (erase ty b ep) = (if ty = OPTIMISTIC then None else Some e)"
  proof cases
    case opt
    let ?b' = "ep_update (mark_removed (current_index ep)) ep ?b"
    have er: "erase ty b ep = (None, ?b')" using opt by (simp add: erase_def Let_def split: option.split)
    have blk: "ep_block ?b ep = ep_block b ep" "ep_in ?b ep" using p(1) by simp_all
    note t = mark_removed_ok [OF p(4) [unfolded opt] p(2) ep_len_le p(3) [unfolded opt]]
    have bl: "blocks_ok ty ph ?b'"
      using ok t(1) blk opt by (intro ep_update_blocks) (simp_all add: bucket_ok_iff blocks_ok_def)
    have "mset (bucket_entries ty ?b') + {#e#} = mset (bucket_entries ty ?b) + {#}"
      by (rule ep_update_entries [OF blk(2)]) (use t(2) blk opt in simp)
    then have ms: "add_mset e (mset (bucket_entries ty ?b')) = mset (bucket_entries ty b)"
      by (simp add: bucket_entries_def)
    have n: "num_entries ?b' = num_entries b - 1" by (simp add: ep_update_def split: option.split)
    have lru: "lru_ok ty ?b'" using opt by (simp add: lru_ok_def)
    show ?thesis
      using bucket_removed [OF ok points_to_entry(1) [OF ok pt] bl n lru ms] er opt by simp
  next
    case lru
    let ?c = "remove_from_lru_list b ep"
    have "lru_ok CACHE ?c"
      using lru_ok_remove [of b ep] bucket_okD(5) [OF ok] points_to_valid(2) [OF ok pt] lru by simp
    then have okc: "bucket_ok CACHE ph ?c"
      using ok lru by (simp add: bucket_ok_iff remove_from_lru_list_same)
    have "slot_entry CACHE (ep_block ?c ep) (current_index ep) = Some e"
      using p(3) lru by (simp add: remove_from_lru_list_same)
    then have ptc: "points_to CACHE ?c ep e"
      using p(1,2) points_toI [OF okc] by (simp add: ep_in_def lru)
    have c: "remove_from_lru_list ?b ep = ?c\<lparr>num_entries := num_entries ?c - 1\<rparr>"
      by (auto simp: remove_from_lru_list_def store_tail_def split: prod.split option.split)
    have g: "ep_get (remove_from_lru_list ?b ep) ep = Some e"
      using g by (simp add: remove_from_lru_list_same)
    have "erase ty b ep =
        (Some e, ep_update (take_slot (current_index ep)) ep (?c\<lparr>num_entries := num_entries ?c - 1\<rparr>))"
      using lru g c by (simp add: erase_def Let_def)
    moreover have "bucket_map CACHE ?c = bucket_map CACHE b" by (simp add: bucket_map_def remove_from_lru_list_same)
    ultimately show ?thesis using take_out_ok [OF okc _ ptc] lru by simp
  next
    case plain
    then show ?thesis using take_out_ok [OF ok _ pt] g by simp
  qed
  then show "bucket_ok ty ph (snd (erase ty b ep))"
    "bucket_map ty (snd (erase ty b ep)) = (bucket_map ty b)(fst e := None)"
    "fst (erase ty b ep) = (if ty = OPTIMISTIC then None else Some e)" by blast+
qed

text \<open>Storing through a mutable reference keeps the key.\<close>

lemma ep_set_ok:
  assumes ok: "bucket_ok ty ph b" and pt: "points_to ty b ep e" and k: "fst e' = fst e"
  shows "bucket_ok ty ph (ep_set b ep e')"
    "bucket_map ty (ep_set b ep e') = (bucket_map ty b)(fst e' \<mapsto> snd e')"
proof -
  note p = points_toD [OF ok pt]
  note t = set_slot_ok [OF p(4,2,3) k]
  let ?f = "\<lambda>m. m\<lparr>data_block := (data_block m)[current_index ep := Some e']\<rparr>"
  have b: "ep_set b ep e' = ep_update ?f ep b" by (simp add: ep_set_def)
  have bl: "blocks_ok ty ph (ep_set b ep e')"
    unfolding b using ok t(1) p(1) by (intro ep_update_blocks) (simp_all add: bucket_ok_iff)
  have ms: "add_mset e (mset (bucket_entries ty (ep_set b ep e'))) = add_mset e' (mset (bucket_entries ty b))"
    using ep_update_entries [OF p(1), of ty ?f "{#e#}" "{#e'#}"] t(2) by (simp add: b)
  obtain xs ys where split: "bucket_entries ty b = xs @ e # ys"
    using points_to_entry(1) [OF ok pt] by (metis split_list)
  then have m: "mset (bucket_entries ty (ep_set b ep e')) = mset (e' # xs @ ys)" using ms by simp
  have d: "distinct (map fst (e' # xs @ ys))" using bucket_okD(4) [OF ok] split k by auto
  have d': "distinct (map fst (bucket_entries ty (ep_set b ep e')))" using m d distinct_keys_mset by blast
  have n: "length (bucket_entries ty (ep_set b ep e')) = length (bucket_entries ty b)"
    using arg_cong [OF m, of size] split by simp
  have "num_entries (ep_set b ep e') = num_entries b" "lru_ok ty (ep_set b ep e') = lru_ok ty b"
    by (simp_all add: b ep_update_def lru_ok_def split: option.split)
  then show "bucket_ok ty ph (ep_set b ep e')" using ok bl d' n by (simp add: bucket_ok_iff)
  have "map_of (bucket_entries ty (ep_set b ep e')) = map_of (e' # xs @ ys)" using m d by (rule map_of_mset_eq)
  also have "\<dots> = (map_of (xs @ e # ys))(fst e' \<mapsto> snd e')"
    using d k by (cases e; cases e') (auto simp: fun_eq_iff map_add_def split: option.splits)
  finally show "bucket_map ty (ep_set b ep e') = (bucket_map ty b)(fst e' \<mapsto> snd e')"
    by (simp add: bucket_map_def split)
qed

lemma take_then_restore:
  assumes "i < length (data_block m)" "bit (occupied_bitmap m) i"
  shows "(take_slot i m)\<lparr>data_block := (data_block (take_slot i m))[i := Some e],
           occupied_bitmap := occupied_bitmap (take_slot i m) OR shl1 i\<rparr> =
         m\<lparr>data_block := (data_block m)[i := Some e]\<rparr>"
proof -
  have "i < 32" using bit_below [OF assms(2)] by simp
  then have "(occupied_bitmap m AND NOT (shl1 i)) OR shl1 i = occupied_bitmap m"
    using assms(2) by (intro bit_word_eqI) (auto simp only: bit_set_bit bit_clear_bit)
  then show ?thesis by (simp add: take_slot_def)
qed

lemma ep_update_compose: "ep_in b ep \<Longrightarrow> ep_update f ep (ep_update g ep b) = ep_update (\<lambda>m. f (g m)) ep b"
  by (simp add: ep_update_def ep_in_def split: option.splits)

lemma ep_update_eq: "f (ep_block b ep) = g (ep_block b ep) \<Longrightarrow> ep_update f ep b = ep_update g ep b"
  by (simp add: ep_update_def ep_block_def split: option.splits)

lemma keep_or_consume_ok:
  assumes ok: "bucket_ok ty ph b" and ty: "ty \<noteq> OPTIMISTIC" and pt: "points_to ty b ep (k, v)"
  shows "bucket_ok ty ph (snd (keep_or_consume b ep pred))"
    "bucket_map ty (snd (keep_or_consume b ep pred)) = (bucket_map ty b)(k := pred k v)"
    "fst (keep_or_consume b ep pred) \<longleftrightarrow> pred k v = None"
proof -
  note p = points_toD [OF ok pt]
  let ?b = "b\<lparr>num_entries := num_entries b - 1\<rparr>" and ?i = "current_index ep"
  have "bucket_ok ty ph (snd (keep_or_consume b ep pred)) \<and>
    bucket_map ty (snd (keep_or_consume b ep pred)) = (bucket_map ty b)(k := pred k v) \<and>
    (fst (keep_or_consume b ep pred) \<longleftrightarrow> pred k v = None)"
  proof (cases "pred k v")
    case None
    then have "keep_or_consume b ep pred = (True, ep_update (take_slot ?i) ep ?b)"
      using p(5) by (simp add: keep_or_consume_def Let_def)
    then show ?thesis using take_out_ok [OF ok ty pt] None by simp
  next
    case (Some w)
    let ?f = "\<lambda>m. m\<lparr>data_block := (data_block m)[?i := Some (k, w)], occupied_bitmap := occupied_bitmap m OR shl1 ?i\<rparr>"
    let ?g = "\<lambda>m. m\<lparr>data_block := (data_block m)[?i := Some (k, w)]\<rparr>"
    have o: "bit (occupied_bitmap (ep_block b ep)) ?i" "?i < length (data_block (ep_block b ep))"
      using p(2,3) block_okD(1) [OF p(4)] by (auto simp: slot_entry_def bit_reachable_bitmap split: if_splits)
    have "ep_update ?f ep (ep_update (take_slot ?i) ep ?b) = ep_update ?g ep ?b"
      using p(1) take_then_restore [OF o(2,1)] by (simp add: ep_update_compose) (rule ep_update_eq, simp)
    moreover have "(ep_update ?g ep ?b)\<lparr>num_entries := num_entries (ep_update ?g ep ?b) + 1\<rparr> = ep_set b ep (k, w)"
      by (simp add: ep_set_def ep_update_def split: option.split)
    ultimately have "keep_or_consume b ep pred = (False, ep_set b ep (k, w))"
      using p(5) Some by (simp add: keep_or_consume_def Let_def)
    then show ?thesis using ep_set_ok [OF ok pt, of "(k, w)"] Some by simp
  qed
  then show "bucket_ok ty ph (snd (keep_or_consume b ep pred))"
    "bucket_map ty (snd (keep_or_consume b ep pred)) = (bucket_map ty b)(k := pred k v)"
    "fst (keep_or_consume b ep pred) \<longleftrightarrow> pred k v = None" by blast+
qed

text \<open>Extraction unlinks a linked bucket that has become empty.\<close>

lemma empty_block_entries: "occupied_bitmap m = 0 \<Longrightarrow> block_entries ty m = []"
  by (simp add: block_entries_def slot_entry_def bit_reachable_bitmap slot_list_def)

lemma unlink_ok:
  assumes ok: "bucket_ok ty ph b" and i: "i < length (links b)" "occupied_bitmap (links b ! i) = 0"
  shows "bucket_ok ty ph (fst (ep_unlink b ep i))" "bucket_map ty (fst (ep_unlink b ep i)) = bucket_map ty b"
proof -
  let ?b = "b\<lparr>links := take i (links b) @ drop (Suc i) (links b)\<rparr>"
  have u: "fst (ep_unlink b ep i) = ?b" by (simp add: ep_unlink_def Let_def split: option.split)
  have "concat (map (block_entries ty) (links b)) =
      concat (map (block_entries ty) (take i (links b) @ drop (Suc i) (links b)))"
    by (subst id_take_nth_drop [OF i(1)]) (simp add: empty_block_entries [OF i(2)])
  then have e: "bucket_entries ty ?b = bucket_entries ty b" by (simp add: bucket_entries_def)
  then show "bucket_map ty (fst (ep_unlink b ep i)) = bucket_map ty b" by (simp add: bucket_map_def u)
  show "bucket_ok ty ph (fst (ep_unlink b ep i))"
    using ok unfolding u bucket_ok_iff e
    by (auto simp: blocks_ok_def lru_ok_def dest: in_set_takeD in_set_dropD)
qed

lemma extract_ok:
  assumes ok: "bucket_ok ty ph b" and ty: "ty \<noteq> OPTIMISTIC" and pt: "points_to ty b ep e"
  shows "fst (bucket_extract b ep) = Some e" "bucket_ok ty ph (fst (snd (bucket_extract b ep)))"
    "bucket_map ty (fst (snd (bucket_extract b ep))) = (bucket_map ty b)(fst e := None)"
proof -
  note p = points_toD [OF ok pt] and t = take_out_ok [OF ok ty pt]
  let ?b = "ep_update (take_slot (current_index ep)) ep (b\<lparr>num_entries := num_entries b - 1\<rparr>)"
  have x: "extract_entry b ep = (Some e, ?b)" using p(5) by (simp add: extract_entry_def)
  have "fst (bucket_extract b ep) = Some e \<and> bucket_ok ty ph (fst (snd (bucket_extract b ep))) \<and>
    bucket_map ty (fst (snd (bucket_extract b ep))) = (bucket_map ty b)(fst e := None)"
  proof (cases "current_link_ptr ep")
    case None
    then show ?thesis using x t by (simp add: bucket_extract_def)
  next
    case (Some i)
    then have i: "i < length (links ?b)" using p(1) by (simp add: ep_in_def ep_update_def)
    show ?thesis
    proof (cases "occupied_bitmap (links ?b ! i) = 0")
      case True
      then show ?thesis
        using x t Some unlink_ok [OF t(1) i True, of ep] by (simp add: bucket_extract_def split_def Let_def)
    next
      case False
      then show ?thesis using x t Some by (simp add: bucket_extract_def)
    qed
  qed
  then show "fst (bucket_extract b ep) = Some e" "bucket_ok ty ph (fst (snd (bucket_extract b ep)))"
    "bucket_map ty (fst (snd (bucket_extract b ep))) = (bucket_map ty b)(fst e := None)" by blast+
qed

text \<open>Eviction takes the least recently used slot, or slot 0 when none is tracked.\<close>

definition victim_slot :: "nat list \<Rightarrow> nat" where
  "victim_slot xs = (if xs = [] then 0 else last xs)"

lemma full_bitmap: "(0b11111111111111111111111111111111 :: u32) = - 1"
  by simp

lemma evict_not_full:
  "occupied_bitmap (metadata b) \<noteq> - 1 \<Longrightarrow> evict_lru_head b = (None, b)"
  by (simp add: evict_lru_head_def full_bitmap)

lemma evict_step:
  assumes rel: "lru_rel (lru_list b) (removed_bitmap_or_lru_tail (metadata b)) xs"
    and full: "occupied_bitmap (metadata b) = - 1"
  obtains arr t where "lru_rel arr t (butlast xs)"
    "evict_lru_head b = (data_block (metadata b) ! victim_slot xs,
       b\<lparr>num_entries := num_entries b - 1, lru_list := arr,
         metadata := take_slot (victim_slot xs) ((metadata b)\<lparr>removed_bitmap_or_lru_tail := t\<rparr>)\<rparr>)"
proof (cases "xs = []")
  case True
  then have "lru_evict (lru_list b) (removed_bitmap_or_lru_tail (metadata b)) = (None, lru_list b)"
    using rel lru_evict_empty by blast
  then have "evict_lru_head b = (data_block (metadata b) ! victim_slot xs,
      b\<lparr>num_entries := num_entries b - 1, lru_list := lru_list b,
        metadata := take_slot (victim_slot xs)
          ((metadata b)\<lparr>removed_bitmap_or_lru_tail := removed_bitmap_or_lru_tail (metadata b)\<rparr>)\<rparr>)"
    using full True by (simp add: evict_lru_head_def full_bitmap victim_slot_def Let_def)
  then show thesis using that rel True by force
next
  case False
  obtain arr where e: "lru_evict (lru_list b) (removed_bitmap_or_lru_tail (metadata b)) =
      (Some (of_nat (last xs), lru_tail_of (butlast xs)), arr)" "lru_rel arr (lru_tail_of (butlast xs)) (butlast xs)"
    using lru_evict_nonempty [OF rel False] by blast
  have "last xs < lru_len" using lru_relD(3) [OF rel] False by simp
  then show thesis using that [OF e(2)] e(1) full False
    by (simp add: evict_lru_head_def full_bitmap victim_slot_def Let_def unat_of_small store_tail_def)
qed

lemma evict_lru_head_ok:
  assumes ok: "bucket_ok CACHE ph b"
    and rel: "lru_rel (lru_list b) (removed_bitmap_or_lru_tail (metadata b)) xs"
    and full: "occupied_bitmap (metadata b) = - 1"
  obtains e where "fst (evict_lru_head b) = Some e" "data_block (metadata b) ! victim_slot xs = Some e"
    "bucket_ok CACHE ph (snd (evict_lru_head b))"
    "bucket_map CACHE (snd (evict_lru_head b)) = (bucket_map CACHE b)(fst e := None)"
    "bucket_map CACHE b (fst e) = Some (snd e)"
proof -
  let ?i = "victim_slot xs" and ?b = "snd (evict_lru_head b)"
  obtain arr t where at: "lru_rel arr t (butlast xs)"
    "evict_lru_head b = (data_block (metadata b) ! ?i,
       b\<lparr>num_entries := num_entries b - 1, lru_list := arr,
         metadata := take_slot ?i ((metadata b)\<lparr>removed_bitmap_or_lru_tail := t\<rparr>)\<rparr>)"
    using evict_step [OF rel full] by blast
  let ?m = "(metadata b)\<lparr>removed_bitmap_or_lru_tail := t\<rparr>"
  have i: "?i < 32" using lru_relD(3) [OF rel] by (simp add: victim_slot_def)
  have blk: "block_ok CACHE ph BUCKET_LEN ?m" using bucket_okD(1) [OF ok] by (simp add: block_ok_tail)
  then obtain e where e: "data_block (metadata b) ! ?i = Some e"
    using block_okD(3) [OF bucket_okD(1) [OF ok], of ?i] i full by (auto simp: bit_simps)
  have s: "slot_entry CACHE ?m ?i = Some e"
    using e full i by (simp add: slot_entry_def bit_reachable_bitmap bit_simps)
  note t = take_slot_ok [OF blk _ i _ s]
  have "slot_entry CACHE (metadata b) ?i = Some e"
    using e full i by (simp add: slot_entry_def bit_reachable_bitmap bit_simps)
  then have eb: "e \<in> set (bucket_entries CACHE b)"
    using i block_okD(1) [OF bucket_okD(1) [OF ok]] by (metis set_block_entries set_bucket_entries)
  have bl: "blocks_ok CACHE ph ?b" using ok t(1) at(2) by (simp add: blocks_ok_def bucket_ok_def)
  have n: "num_entries ?b = num_entries b - 1" using at(2) by simp
  have lru: "lru_ok CACHE ?b" using at by (auto simp: lru_ok_def take_slot_def)
  have ms: "add_mset e (mset (bucket_entries CACHE ?b)) = mset (bucket_entries CACHE b)"
    using t(2) at(2) by (simp add: bucket_entries_def block_ok_tail)
  note r = bucket_removed [OF ok eb bl n lru ms]
  show thesis
    using that [of e] r e at(2) eb bucket_map_Some_iff [OF ok, of "fst e" "snd e"] by simp
qed

text \<open>Killing a bucket whose entries have been moved away.\<close>

lemma kill_ok:
  assumes ok: "bucket_ok ty ph b" and moved: "ty = OPTIMISTIC \<or> bucket_entries ty b = []"
  shows "bucket_ok ty ph (kill ty b)" "bucket_map ty (kill ty b) = Map.empty" "killed (kill ty b)"
    "links (kill ty b) = []"
proof -
  let ?k = "kill ty b"
  note m = bucket_okD(1) [OF ok]
  have meta: "metadata ?k = (if ty = OPTIMISTIC
      then (metadata b)\<lparr>removed_bitmap_or_lru_tail := occupied_bitmap (metadata b)\<rparr> else metadata b)"
    and rest: "links ?k = []" "num_entries ?k = 0" "lru_list ?k = lru_list b" "state ?k = state b OR KILLED"
    by (auto simp: kill_def Let_def clear_links_def)
  have none: "slot_entry OPTIMISTIC ((metadata b)\<lparr>removed_bitmap_or_lru_tail := occupied_bitmap (metadata b)\<rparr>) i = None" for i
    by (simp add: slot_entry_def bit_reachable_bitmap)
  have e: "bucket_entries ty ?k = []"
  proof (cases "ty = OPTIMISTIC")
    case True
    then show ?thesis using meta rest(1) none by (simp add: bucket_entries_def block_entries_def slot_list_def)
  next
    case False
    then show ?thesis using meta rest(1) moved by (simp add: bucket_entries_def)
  qed
  show "links ?k = []" by (rule rest(1))
  show "bucket_map ty ?k = Map.empty" using e by (simp add: bucket_map_def)
  show "killed ?k" using rest(4) by (simp add: killed_def and.commute and.left_commute bit.conj_disj_distrib)
  have "block_ok ty ph BUCKET_LEN (metadata ?k)"
  proof (cases "ty = OPTIMISTIC")
    case True
    then show ?thesis unfolding meta using m none by (auto simp: block_ok_def)
  qed (use m meta in simp)
  then show "bucket_ok ty ph ?k"
    using e rest bucket_okD(5) [OF ok] meta by (auto simp: bucket_ok_iff blocks_ok_def lru_ok_def)
qed

text \<open>Dropping: every occupied slot is dropped exactly once, reachable or not.\<close>

lemma drop_loop_dropped:
  "mset (fst (drop_loop m)) = image_mset (\<lambda>i. data_block m ! i) (mset_set {i. bit (occupied_bitmap m) i})"
  "occupied_bitmap (snd (drop_loop m)) = 0"
proof (induction m rule: drop_loop.induct)
  case (1 m)
  let ?o = "trailing_zeros (occupied_bitmap m)" and ?S = "{i. bit (occupied_bitmap m) i}"
  let ?m = "m\<lparr>data_block := (data_block m)[?o := None], occupied_bitmap := occupied_bitmap m - shl1 ?o\<rparr>"
  {
    case 1
    show ?case
    proof (cases "?o = 32")
      case True
      then show ?thesis by (subst drop_loop.simps) (simp add: trailing_zeros32 bot_fun_def)
    next
      case False
      then have o: "?o \<in> ?S" using bit_trailing_zeros32 by simp
      have S: "{i. bit (occupied_bitmap ?m) i} = ?S - {?o}" using o by (auto simp: bit_sub_shl1)
      have fin: "finite ?S" by (rule finite_bits)
      have "image_mset (\<lambda>i. data_block ?m ! i) (mset_set (?S - {?o})) =
          image_mset (\<lambda>i. data_block m ! i) (mset_set (?S - {?o}))"
        using fin by (intro image_mset_cong) (auto simp: nth_list_update_neq)
      then have "mset (fst (drop_loop ?m)) = image_mset (\<lambda>i. data_block m ! i) (mset_set (?S - {?o}))"
        using "1.IH"(1) [OF refl False refl] S by simp
      moreover have "mset (fst (drop_loop m)) = add_mset (data_block m ! ?o) (mset (fst (drop_loop ?m)))"
        using False by (subst drop_loop.simps) (simp add: Let_def split_def)
      ultimately show ?thesis
        using mset_set.remove [OF fin o] by simp
    qed
  next
    case 2
    show ?case
    proof (cases "?o = 32")
      case True
      then show ?thesis by (subst drop_loop.simps) (simp add: trailing_zeros32)
    next
      case False
      then show ?thesis using "1.IH"(2) [OF refl False refl]
        by (subst drop_loop.simps) (simp add: Let_def split_def)
    qed
  }
qed

end
