(* ===== verification/Bucket_Iter.thy ===== *)
theory Bucket_Iter
  imports Bucket_Spec
begin

text \<open>
  Iteration over a bucket: \<^verbatim>\<open>EntryPtr::next\<close> visits every reachable slot of the bucket and its linked
  buckets exactly once, in order, and then stays fused.
\<close>

section \<open>The slots ahead of a pointer\<close>

definition slots_from :: "btype \<Rightarrow> nat \<Rightarrow> ('k, 'v) block \<Rightarrow> nat \<Rightarrow> nat list" where
  "slots_from ty len m i = filter (bit (reachable_bitmap ty m)) [i..<len]"

definition slot_after :: "nat \<Rightarrow> nat \<Rightarrow> nat" where
  "slot_after len i = (if i = len then 0 else i + 1)"

abbreviation at_main :: "nat \<Rightarrow> entry_ptr" where
  "at_main i \<equiv> \<lparr>current_link_ptr = None, current_index = i\<rparr>"

abbreviation at_link :: "nat \<Rightarrow> nat \<Rightarrow> entry_ptr" where
  "at_link l i \<equiv> \<lparr>current_link_ptr = Some l, current_index = i\<rparr>"

definition link_slots :: "btype \<Rightarrow> ('k, 'v) bucket \<Rightarrow> nat \<Rightarrow> entry_ptr list" where
  "link_slots ty b n =
     concat (map (\<lambda>l. map (at_link l) (slots_from ty LINKED_BUCKET_LEN (links b ! l) 0)) [n..<length (links b)])"

definition ahead :: "btype \<Rightarrow> ('k, 'v) bucket \<Rightarrow> entry_ptr \<Rightarrow> entry_ptr list" where
  "ahead ty b ep =
     (if current_index ep = USIZE_MAX then []
      else case current_link_ptr ep of
             None \<Rightarrow>
               map at_main (slots_from ty BUCKET_LEN (metadata b) (slot_after BUCKET_LEN (current_index ep)))
               @ link_slots ty b 0
           | Some l \<Rightarrow>
               map (at_link l) (slots_from ty LINKED_BUCKET_LEN (links b ! l)
                 (slot_after LINKED_BUCKET_LEN (current_index ep)))
               @ link_slots ty b (Suc l))"

definition fused :: entry_ptr where
  "fused = at_main USIZE_MAX"

section \<open>One step\<close>

lemma bit_not_below [bitmap_simps]:
  assumes "i < LENGTH('a)"
  shows "bit (NOT (shl1 i - 1) :: 'a::len word) n \<longleftrightarrow> i \<le> n \<and> n < LENGTH('a)"
proof -
  have "shl1 i - 1 = (mask i :: 'a word)" by (simp add: shl1_def mask_eq_exp_minus_1 push_bit_eq_mult)
  then show ?thesis by (auto simp: bit_not_word bit_mask_iff)
qed

lemma filter_upt_first:
  assumes "a \<le> i" "i < b" "P i" "\<And>j. a \<le> j \<Longrightarrow> j < i \<Longrightarrow> \<not> P j"
  shows "filter P [a..<b] = i # filter P [Suc i..<b]"
proof -
  have "[a..<b] = [a..<i] @ i # [Suc i..<b]"
    using assms(1,2) by (metis le_Suc_ex less_imp_le upt_add_eq_append upt_conv_Cons)
  moreover have "filter P [a..<i] = []" using assms(4) by (simp add: filter_empty_conv)
  ultimately show ?thesis using assms(3) by simp
qed

lemma next_entry_slots:
  assumes "len \<le> 32"
  shows "case bucket_next_entry ty len m i of
           None \<Rightarrow> slots_from ty len m i = []
         | Some j \<Rightarrow> slots_from ty len m i = j # slots_from ty len m (Suc j) \<and> j < len"
proof (cases "i < len")
  case False
  then show ?thesis by (simp add: bucket_next_entry_def slots_from_def)
next
  case True
  let ?w = "reachable_bitmap ty m AND NOT (shl1 i - 1)"
  have b: "bit ?w n \<longleftrightarrow> bit (reachable_bitmap ty m) n \<and> i \<le> n" for n
    using True assms bit_below [of "reachable_bitmap ty m" n] by (auto simp: bit_and_iff bit_not_below)
  show ?thesis
  proof (cases "trailing_zeros ?w < len")
    case lt: True
    then have "?w \<noteq> 0" using assms trailing_zeros_lt_iff [of ?w] by simp
    then have "bit ?w (trailing_zeros ?w)" by (rule bit_trailing_zeros)
    then have "slots_from ty len m i = trailing_zeros ?w # slots_from ty len m (Suc (trailing_zeros ?w))"
      unfolding slots_from_def
      by (intro filter_upt_first) (use lt b not_bit_below_trailing_zeros [of _ ?w] in auto)
    then show ?thesis using True lt by (simp add: bucket_next_entry_def Let_def)
  next
    case ge: False
    have "\<not> bit (reachable_bitmap ty m) n" if "i \<le> n" "n < len" for n
      using that ge b trailing_zeros_le_bit [of ?w n] by auto
    then show ?thesis using True ge by (auto simp: bucket_next_entry_def Let_def slots_from_def filter_empty_conv)
  qed
qed

lemma link_slots_Cons:
  "l < length (links b) \<Longrightarrow>
   link_slots ty b l = map (at_link l) (slots_from ty LINKED_BUCKET_LEN (links b ! l) 0) @ link_slots ty b (Suc l)"
  by (simp add: link_slots_def upt_conv_Cons)

lemma link_slots_end: "length (links b) \<le> l \<Longrightarrow> link_slots ty b l = []"
  by (simp add: link_slots_def)

lemma small_not_max: "i \<le> 32 \<Longrightarrow> i \<noteq> USIZE_MAX"
  by (simp add: USIZE_MAX_def)

lemma ahead_link_start:
  "l < length (links b) \<Longrightarrow> ahead ty b (at_link l LINKED_BUCKET_LEN) = link_slots ty b l"
  using small_not_max [of 8] by (simp add: ahead_def slot_after_def link_slots_Cons)

lemma slots_from_lt: "j \<in> set (slots_from ty len m i) \<Longrightarrow> j < len"
  by (simp add: slots_from_def)

lemma ahead_cut:
  assumes "slots_from ty LINKED_BUCKET_LEN (links b ! l) (slot_after LINKED_BUCKET_LEN (current_index ep)) = j # js"
    and "js = slots_from ty LINKED_BUCKET_LEN (links b ! l) (Suc j)"
    and "current_link_ptr ep = Some l" "current_index ep \<noteq> USIZE_MAX" "j < 8"
  shows "ahead ty b ep = at_link l j # ahead ty b (at_link l j)"
  using assms small_not_max [of j] by (simp add: ahead_def slot_after_def)

text \<open>The loop over the linked buckets finds the first slot ahead.\<close>

lemma ep_next_links_ahead:
  assumes "current_link_ptr ep = Some l" "l < length (links b)" "current_index ep \<noteq> USIZE_MAX"
  shows "(\<exists>p. ep_next_links ty b ep = (True, p) \<and> ahead ty b ep = p # ahead ty b p) \<or>
         ep_next_links ty b ep = (False, at_main LINKED_BUCKET_LEN) \<and> ahead ty b ep = []"
  using assms
proof (induction "length (links b) - l" arbitrary: l ep rule: less_induct)
  case less
  let ?m = "links b ! l" and ?i = "slot_after LINKED_BUCKET_LEN (current_index ep)"
  have ep: "ep = at_link l (current_index ep)" using less.prems(1) by simp
  have ne: "ep_next_entry ty LINKED_BUCKET_LEN ?m (link_from b (Suc l)) ep =
      (case bucket_next_entry ty LINKED_BUCKET_LEN ?m ?i of
         Some index \<Rightarrow> (True, at_link l index)
       | None \<Rightarrow> (False, \<lparr>current_link_ptr = link_from b (Suc l), current_index = LINKED_BUCKET_LEN\<rparr>))"
    by (subst ep) (simp add: ep_next_entry_def slot_after_def Let_def split: option.split)
  note ns = next_entry_slots [of LINKED_BUCKET_LEN ty ?m ?i]
  show ?case
  proof (cases "bucket_next_entry ty LINKED_BUCKET_LEN ?m ?i")
    case (Some j)
    then have "ep_next_links ty b ep = (True, at_link l j)"
      using less.prems ne by (subst ep_next_links.simps) simp
    moreover have "ahead ty b ep = at_link l j # ahead ty b (at_link l j)"
      using ns Some less.prems by (intro ahead_cut) simp_all
    ultimately show ?thesis by blast
  next
    case None
    then have rest: "ahead ty b ep = link_slots ty b (Suc l)" using ns less.prems by (simp add: ahead_def)
    have rec: "ep_next_links ty b ep =
        ep_next_links ty b \<lparr>current_link_ptr = link_from b (Suc l), current_index = LINKED_BUCKET_LEN\<rparr>"
      using None less.prems ne by (subst ep_next_links.simps) simp
    show ?thesis
    proof (cases "Suc l < length (links b)")
      case True
      have "length (links b) - Suc l < length (links b) - l" using less.prems(2) by simp
      from less.hyps [OF this, of "at_link (Suc l) LINKED_BUCKET_LEN"] show ?thesis
        using True rest rec ahead_link_start [OF True, of ty] small_not_max [of 8] by (simp add: link_from_def)
    next
      case False
      then show ?thesis using rest rec
        by (subst rec, subst ep_next_links.simps) (simp add: link_from_def link_slots_end)
    qed
  qed
qed

lemma ep_next_ahead:
  assumes "ep_in b ep"
  shows "ep_next ty b ep =
    (case ahead ty b ep of
       [] \<Rightarrow> (False, if current_index ep = USIZE_MAX then ep else fused)
     | p # _ \<Rightarrow> (True, p))"
    and "ahead ty b ep = p # ps \<Longrightarrow> ahead ty b p = ps"
proof -
  have main: "ep_next ty b ep = (True, p) \<and> ahead ty b ep = p # ahead ty b p"
    if i: "current_index ep \<noteq> USIZE_MAX" and l: "current_link_ptr ep = None"
      and j: "bucket_next_entry ty BUCKET_LEN (metadata b) (slot_after BUCKET_LEN (current_index ep)) = Some j"
      and p: "p = at_main j" for j p
    using next_entry_slots [of BUCKET_LEN ty "metadata b" "slot_after BUCKET_LEN (current_index ep)"]
      i l j p small_not_max [of j]
    by (cases ep) (auto simp: ep_next_def ep_next_entry_def slot_after_def Let_def ahead_def)
  have "(\<exists>p. ep_next ty b ep = (True, p) \<and> ahead ty b ep = p # ahead ty b p) \<or>
     ep_next ty b ep = (False, if current_index ep = USIZE_MAX then ep else fused) \<and> ahead ty b ep = []"
  proof (cases "current_index ep = USIZE_MAX")
    case True
    then show ?thesis by (simp add: ep_next_def ahead_def)
  next
    case nm: False
    show ?thesis
    proof (cases "current_link_ptr ep")
      case None
      show ?thesis
      proof (cases "bucket_next_entry ty BUCKET_LEN (metadata b) (slot_after BUCKET_LEN (current_index ep))")
        case (Some j)
        then show ?thesis using main [OF nm None] by blast
      next
        case stop: None
        then have a: "ahead ty b ep = link_slots ty b 0"
          using next_entry_slots [of BUCKET_LEN ty "metadata b" "slot_after BUCKET_LEN (current_index ep)"] nm None
          by (simp add: ahead_def)
        let ?p = "\<lparr>current_link_ptr = link_from b 0, current_index = LINKED_BUCKET_LEN\<rparr>"
        have n: "ep_next ty b ep = (let (found, ep) = ep_next_links ty b ?p
            in if found then (True, ep) else (False, ep\<lparr>current_index := USIZE_MAX\<rparr>))"
          using nm None stop by (simp add: ep_next_def ep_next_entry_def slot_after_def Let_def)
        show ?thesis
        proof (cases "0 < length (links b)")
          case True
          then show ?thesis
            using ep_next_links_ahead [of ?p 0 b ty] ahead_link_start [of 0 b ty] a n nm small_not_max [of 8]
            by (auto simp: link_from_def fused_def)
        next
          case False
          have "ep_next_links ty b ?p = (False, ?p)"
            using False by (subst ep_next_links.simps) (simp add: link_from_def)
          then show ?thesis using a n nm False by (simp add: link_from_def link_slots_end fused_def)
        qed
      qed
    next
      case (Some l)
      then have "l < length (links b)" using assms by (simp add: ep_in_def)
      then show ?thesis
        using ep_next_links_ahead [OF Some _ nm, of b ty] nm Some by (auto simp: ep_next_def fused_def)
    qed
  qed
  then show "ep_next ty b ep =
    (case ahead ty b ep of
       [] \<Rightarrow> (False, if current_index ep = USIZE_MAX then ep else fused)
     | p # _ \<Rightarrow> (True, p))" and "ahead ty b ep = p # ps \<Longrightarrow> ahead ty b p = ps"
    by auto
qed

section \<open>The whole iteration\<close>

lemma ep_next_found:
  assumes "ep_next ty b ep = (True, p)"
  shows "ahead ty b ep = p # ahead ty b p"
proof -
  have "ep_in b ep"
  proof (rule ccontr)
    assume "\<not> ep_in b ep"
    then obtain l where l: "current_link_ptr ep = Some l" "\<not> l < length (links b)"
      by (auto simp: ep_in_def split: option.splits)
    then have "ep_next_links ty b ep = (False, ep)" by (subst ep_next_links.simps) simp
    then show False using assms l by (simp add: ep_next_def split: if_splits)
  qed
  note n = ep_next_ahead [OF this, where ty = ty]
  show ?thesis
  proof (cases "ahead ty b ep")
    case (Cons q ps)
    then show ?thesis using assms n(1) n(2) [OF Cons] by simp
  qed (use assms n(1) in simp)
qed

text \<open>The pointers that a loop \<^verbatim>\<open>while entry_ptr.next(..)\<close> visits.\<close>

function ep_visit :: "btype \<Rightarrow> ('k, 'v) bucket \<Rightarrow> entry_ptr \<Rightarrow> entry_ptr list" where
  "ep_visit ty b ep = (let (found, ep) = ep_next ty b ep in if found then ep # ep_visit ty b ep else [])"
  by pat_completeness auto
termination
  by (relation "measure (\<lambda>(ty, b, ep). length (ahead ty b ep))") (auto dest!: ep_next_found [OF sym])

declare ep_visit.simps [simp del]

lemma ep_in_ahead: "ep_in b ep \<Longrightarrow> p \<in> set (ahead ty b ep) \<Longrightarrow> ep_in b p"
  by (auto simp: ahead_def link_slots_def ep_in_def split: if_splits option.splits)

lemma ep_visit_ahead: "ep_in b ep \<Longrightarrow> ep_visit ty b ep = ahead ty b ep"
proof (induction "length (ahead ty b ep)" arbitrary: ep)
  case 0
  then show ?case using ep_next_ahead(1) [of b ep ty] by (subst ep_visit.simps) simp
next
  case (Suc n)
  then obtain p ps where a: "ahead ty b ep = p # ps" by (metis length_Suc_conv)
  then have "ahead ty b p = ps" using ep_next_ahead(2) Suc.prems by blast
  moreover have "ep_in b p" using ep_in_ahead Suc.prems a by (metis list.set_intros(1))
  ultimately show ?case
    using Suc a ep_next_ahead(1) [of b ep ty] by (subst ep_visit.simps) simp
qed

lemma concat_slot_list:
  assumes "\<And>i. i \<in> set xs \<Longrightarrow> P i \<Longrightarrow> f i \<noteq> None"
  shows "map Some (concat (map (\<lambda>i. slot_list (if P i then f i else None)) xs)) = map f (filter P xs)"
  using assms
proof (induction xs)
  case (Cons x xs)
  then show ?case using Cons.prems [of x] by (cases "P x"; cases "f x") (auto simp: slot_list_def)
qed simp

lemma block_entries_slots:
  assumes "block_ok ty' ph len m" "ty = ty' \<or> ty = SEQUENTIAL"
  shows "map Some (block_entries ty m) = map (\<lambda>i. data_block m ! i) (slots_from ty len m 0)"
  unfolding block_entries_def slots_from_def slot_entry_def block_okD(1) [OF assms(1)]
  by (rule concat_slot_list) (auto simp: bit_reachable_bitmap block_okD(3) [OF assms(1)])

lemma link_slots_0:
  "link_slots ty b 0 = concat (map (\<lambda>l. map (at_link l) (slots_from ty LINKED_BUCKET_LEN (links b ! l) 0)) [0..<length (links b)])"
  by (simp add: link_slots_def)

lemma ahead_new_entries:
  assumes ok: "bucket_ok ty ph b"
  shows "map (ep_get b) (ahead ty b ep_new) = map Some (bucket_entries ty b)"
proof -
  have "map (ep_get b) (link_slots ty b 0) = map Some (concat (map (block_entries ty) (links b)))"
  proof -
    have "map (ep_get b \<circ> at_link l) (slots_from ty LINKED_BUCKET_LEN (links b ! l) 0) =
        map Some (block_entries ty (links b ! l))" if "l < length (links b)" for l
      using block_entries_slots [OF bucket_okD(2) [OF ok nth_mem [OF that]], of ty]
      by (simp add: ep_get_def ep_block_def comp_def)
    then have "map (ep_get b) (link_slots ty b 0) =
        concat (map (\<lambda>l. map Some (block_entries ty (links b ! l))) [0..<length (links b)])"
      unfolding link_slots_0 map_concat map_map
      by (intro arg_cong [where f = concat] map_cong) (simp_all add: comp_def)
    also have "map (\<lambda>l. map Some (block_entries ty (links b ! l))) [0..<length (links b)] =
        map (\<lambda>m. map Some (block_entries ty m)) (links b)"
      by (rule nth_equalityI) simp_all
    finally show ?thesis by (simp add: map_concat comp_def)
  qed
  then show ?thesis
    using block_entries_slots [OF bucket_okD(1) [OF ok], of ty] small_not_max [of 32]
    by (simp add: ahead_def ep_new_def slot_after_def bucket_entries_def ep_get_def [of b "at_main _"]
        ep_block_def comp_def)
qed

lemma distinct_at_links:
  assumes "\<And>l. distinct (S l)"
  shows "distinct ns \<Longrightarrow> distinct (concat (map (\<lambda>l. map (at_link l) (S l)) ns))"
  using assms by (induction ns) (auto simp: distinct_map inj_on_def)

lemma distinct_ahead_new: "distinct (ahead ty b ep_new)"
proof -
  have "distinct (map at_main (slots_from ty n m i))" for n m i
    by (simp add: slots_from_def distinct_map inj_on_def)
  moreover have "distinct (link_slots ty b 0)"
    unfolding link_slots_0 by (rule distinct_at_links) (simp_all add: slots_from_def)
  moreover have "at_main i \<notin> set (link_slots ty b 0)" for i by (auto simp: link_slots_def)
  ultimately show ?thesis
    using small_not_max [of 32] by (auto simp: ahead_def ep_new_def slot_after_def)
qed

section \<open>What a bucket promises\<close>

text \<open>
  A bucket is a finite map: searching it for a key with that key's partial hash returns the
  entry of the key exactly if the bucket holds one, and \<^verbatim>\<open>get\<close> returns a pointer to that entry or the
  invalid pointer, on every type of bucket and however many linked buckets it has.
\<close>

theorem bucket_search_is_lookup:
  assumes "bucket_ok ty ph b"
  shows "search ty b k (ph k) = map_option (Pair k) (bucket_map ty b k) \<and>
    (case bucket_map ty b k of
       Some v \<Rightarrow> points_to ty b (bucket_get ty b k (ph k)) (k, v) \<and> ep_get b (bucket_get ty b k (ph k)) = Some (k, v)
     | None \<Rightarrow> bucket_get ty b k (ph k) = ep_new)"
  by (rule get_cases [OF assms, of k])
    (use search_map [OF assms, of k] points_toD(5) [OF assms] in auto)

definition example_bucket :: "(nat, nat) bucket" where
  "example_bucket = (case insert_with bucket_new 5 (3, 30) of Inr (_, b) \<Rightarrow> b | Inl _ \<Rightarrow> bucket_new)"

lemma example_bucket_ok:
  "bucket_ok ty (\<lambda>_. 5) example_bucket" "bucket_map ty example_bucket = [3 \<mapsto> 30]"
  "points_to ty example_bucket (at_main 0) (3, 30)"
proof -
  have ok: "bucket_ok ty (\<lambda>_. 5) (bucket_new :: (nat, nat) bucket)" by (rule bucket_new_ok)
  have n: "num_entries (bucket_new :: (nat, nat) bucket) \<noteq> - 1" by (simp add: bucket_new_def)
  have e: "bucket_map ty (bucket_new :: (nat, nat) bucket) (fst (3, 30)) = None" by (simp add: bucket_new_ok(2))
  obtain ep b' where
    i: "insert_with (bucket_new :: (nat, nat) bucket) 5 (3, 30) = Inr (ep, b')" "bucket_ok ty (\<lambda>_. 5) b'"
      "bucket_map ty b' = [3 \<mapsto> 30]" "points_to ty b' ep (3, 30)"
    by (rule insert_with_ok [OF ok e n]) (simp add: bucket_new_ok(2))
  have t: "trailing_ones (0 :: u32) = 0" by (metis bit_0_eq bot_apply bot_bool_def le_zero_eq trailing_ones_le_clear)
  have "ep = at_main 0" using i(1) by (simp add: insert_with_def bucket_new_def block_new_def Let_def t)
  then show "bucket_ok ty (\<lambda>_. 5) example_bucket" "bucket_map ty example_bucket = [3 \<mapsto> 30]"
    "points_to ty example_bucket (at_main 0) (3, 30)"
    using i by (simp_all add: example_bucket_def)
qed

theorem bucket_search_is_lookup_witness:
  "search OPTIMISTIC example_bucket 3 5 = Some (3, 30) \<and> search OPTIMISTIC example_bucket 4 5 = None"
  using bucket_search_is_lookup [OF example_bucket_ok(1) [of OPTIMISTIC], of 3]
    bucket_search_is_lookup [OF example_bucket_ok(1) [of OPTIMISTIC], of 4]
  by (simp add: example_bucket_ok(2))

text \<open>
  Inserting an entry whose key is absent adds exactly that entry: the invariant is kept, the
  returned pointer points to the new entry, and every other key keeps its value, whether the entry
  goes into a free slot of the bucket, of a linked bucket, or of a fresh linked bucket. The only
  failure is the overflow panic of the entry counter.
\<close>

theorem bucket_insert_adds_entry:
  assumes "bucket_ok ty ph b" "bucket_map ty b k = None"
  shows "if num_entries b = - 1 then insert_with b (ph k) (k, v) = Inl Array_Overflow
         else \<exists>ep b'. insert_with b (ph k) (k, v) = Inr (ep, b') \<and> bucket_ok ty ph b' \<and>
                bucket_map ty b' = (bucket_map ty b)(k \<mapsto> v) \<and> points_to ty b' ep (k, v) \<and>
                num_entries b' = num_entries b + 1"
proof (cases "num_entries b = - 1")
  case False
  have "bucket_map ty b (fst (k, v)) = None" using assms(2) by simp
  from insert_with_ok [OF assms(1) this False] obtain ep b' where
    "insert_with b (ph k) (k, v) = Inr (ep, b')" "bucket_ok ty ph b'"
    "bucket_map ty b' = (bucket_map ty b)(k \<mapsto> v)" "points_to ty b' ep (k, v)"
    "num_entries b' = num_entries b + 1" by auto
  then show ?thesis using False by auto
qed (simp add: insert_with_def)

theorem bucket_insert_adds_entry_witness:
  "\<exists>ep b'. insert_with example_bucket 5 (4, 40) = Inr (ep, b') \<and>
     bucket_map CACHE b' = [3 \<mapsto> 30, 4 \<mapsto> 40]"
proof -
  have "num_entries example_bucket \<noteq> - 1"
    using bucket_okD(3) [OF example_bucket_ok(1) [of SEQUENTIAL]]
    by (auto simp: example_bucket_def insert_with_def bucket_new_def Let_def split: if_splits option.splits)
  then show ?thesis
    using bucket_insert_adds_entry [OF example_bucket_ok(1) [of CACHE], of 4 40]
    by (auto simp: example_bucket_ok(2))
qed

text \<open>
  Erasing the entry a pointer points to removes exactly its key. An optimistic bucket keeps the
  value in its slot and returns nothing; the other types hand the entry back, and a cache bucket also
  takes the slot out of its least-recently-used list.
\<close>

theorem bucket_erase_removes_entry:
  assumes "bucket_ok ty ph b" "points_to ty b ep (k, v)"
  shows "bucket_ok ty ph (snd (erase ty b ep)) \<and>
    bucket_map ty (snd (erase ty b ep)) = (bucket_map ty b)(k := None) \<and>
    fst (erase ty b ep) = (if ty = OPTIMISTIC then None else Some (k, v))"
  using erase_ok [OF assms] by simp

theorem bucket_erase_removes_entry_witness:
  "bucket_map CACHE (snd (erase CACHE example_bucket (at_main 0))) = Map.empty \<and>
   fst (erase CACHE example_bucket (at_main 0)) = Some (3, 30)"
  using bucket_erase_removes_entry [OF example_bucket_ok(1,3) [of CACHE]] by (simp add: example_bucket_ok(2))

text \<open>
  \<^verbatim>\<open>keep_or_consume\<close> and \<^verbatim>\<open>extract\<close>: the predicate decides whether the entry stays (with the value
  it returns) or goes, the result says which; extraction returns the entry and removes it, and
  unlinks a linked bucket that it leaves empty without touching any other entry.
\<close>

theorem bucket_consume_and_extract:
  assumes "bucket_ok ty ph b" "ty \<noteq> OPTIMISTIC" "points_to ty b ep (k, v)"
  shows "bucket_ok ty ph (snd (keep_or_consume b ep pred)) \<and>
    bucket_map ty (snd (keep_or_consume b ep pred)) = (bucket_map ty b)(k := pred k v) \<and>
    (fst (keep_or_consume b ep pred) \<longleftrightarrow> pred k v = None) \<and>
    (\<exists>b' ep'. bucket_extract b ep = (Some (k, v), b', ep') \<and> bucket_ok ty ph b' \<and>
       bucket_map ty b' = (bucket_map ty b)(k := None))"
  using keep_or_consume_ok [OF assms] extract_ok [OF assms] by (cases "bucket_extract b ep") auto

theorem bucket_consume_and_extract_witness:
  "bucket_map SEQUENTIAL (snd (keep_or_consume example_bucket (at_main 0) (\<lambda>k v. Some (v + 1)))) = [3 \<mapsto> 31]"
  using bucket_consume_and_extract [OF example_bucket_ok(1) [of SEQUENTIAL] _ example_bucket_ok(3), of "\<lambda>k v. Some (v + 1)"]
  by (simp add: example_bucket_ok(2))

text \<open>
  Iterating over a bucket with \<^verbatim>\<open>EntryPtr::next\<close> from a new pointer visits every entry exactly
  once: the visited pointers are distinct, the entries they point to are the entries of the bucket in
  order, and there are as many of them as the entry counter says.
\<close>

theorem bucket_iteration_visits_all:
  assumes "bucket_ok ty ph b"
  shows "distinct (ep_visit ty b ep_new) \<and>
    map (ep_get b) (ep_visit ty b ep_new) = map Some (bucket_entries ty b) \<and>
    length (ep_visit ty b ep_new) = unat (num_entries b)"
proof -
  have "ep_in b ep_new" by (simp add: ep_in_def ep_new_def)
  then have v: "ep_visit ty b ep_new = ahead ty b ep_new" by (rule ep_visit_ahead)
  have e: "map (ep_get b) (ahead ty b ep_new) = map Some (bucket_entries ty b)"
    by (rule ahead_new_entries [OF assms])
  show ?thesis
    using e distinct_ahead_new [of ty b] bucket_okD(3) [OF assms] map_eq_imp_length_eq [OF e] by (simp add: v)
qed

theorem bucket_iteration_visits_all_witness:
  "map (ep_get example_bucket) (ep_visit SEQUENTIAL example_bucket ep_new) =
   map Some (bucket_entries SEQUENTIAL example_bucket)"
  using bucket_iteration_visits_all [OF example_bucket_ok(1) [of SEQUENTIAL]] by simp

text \<open>
  Eviction from a full cache bucket removes and returns the entry in the least recently used
  tracked slot (the first slot when none is tracked) and nothing else; a bucket with a free slot is
  left alone.
\<close>

theorem bucket_evicts_least_recently_used:
  assumes "bucket_ok CACHE ph b"
    and "lru_rel (lru_list b) (removed_bitmap_or_lru_tail (metadata b)) xs"
  shows "if occupied_bitmap (metadata b) \<noteq> - 1 then evict_lru_head b = (None, b)
    else \<exists>k v. fst (evict_lru_head b) = Some (k, v) \<and> ep_get b (at_main (victim_slot xs)) = Some (k, v) \<and>
           bucket_ok CACHE ph (snd (evict_lru_head b)) \<and> bucket_map CACHE b k = Some v \<and>
           bucket_map CACHE (snd (evict_lru_head b)) = (bucket_map CACHE b)(k := None)"
proof (cases "occupied_bitmap (metadata b) = - 1")
  case True
  obtain e where "fst (evict_lru_head b) = Some e" "data_block (metadata b) ! victim_slot xs = Some e"
    "bucket_ok CACHE ph (snd (evict_lru_head b))"
    "bucket_map CACHE (snd (evict_lru_head b)) = (bucket_map CACHE b)(fst e := None)"
    "bucket_map CACHE b (fst e) = Some (snd e)"
    by (rule evict_lru_head_ok [OF assms True])
  then show ?thesis using True by (cases e) (auto simp: ep_get_def ep_block_def)
qed (simp add: evict_not_full)

definition full_bucket :: "(nat, nat) bucket" where
  "full_bucket = \<lparr>state = 0, num_entries = 32,
     metadata = \<lparr>occupied_bitmap = - 1, removed_bitmap_or_lru_tail = 0, partial_hash_array = replicate 32 0,
       data_block = map (\<lambda>i. Some (i, 10 * i)) [0..<32]\<rparr>,
     links = [], lru_list = lru_default\<rparr>"

lemma full_bucket_ok: "bucket_ok CACHE (\<lambda>_. 0) full_bucket"
proof -
  have s: "slot_entry CACHE (metadata full_bucket) i = Some (i, 10 * i)" if "i < 32" for i
    using that by (simp add: slot_entry_def bit_reachable_bitmap full_bucket_def bit_simps)
  then have "block_entries CACHE (metadata full_bucket) = concat (map (\<lambda>i. [(i, 10 * i)]) [0..<32])"
    unfolding block_entries_def by (intro arg_cong [where f = concat] map_cong) (simp_all add: full_bucket_def slot_list_def)
  then have e: "bucket_entries CACHE full_bucket = map (\<lambda>i. (i, 10 * i)) [0..<32]"
    by (simp add: bucket_entries_def concat_map_singleton) (simp add: full_bucket_def)
  have "block_ok CACHE (\<lambda>_. 0) BUCKET_LEN (metadata full_bucket)"
    by (rule block_okI) (auto simp: full_bucket_def bit_simps)
  then show ?thesis
    unfolding bucket_ok_def e using lru_default_rel
    by (auto simp: full_bucket_def comp_def lru_ok_def)
qed

theorem bucket_evicts_least_recently_used_witness:
  "fst (evict_lru_head full_bucket) = Some (0, 0)"
proof -
  have "lru_rel (lru_list full_bucket) (removed_bitmap_or_lru_tail (metadata full_bucket)) []"
    using lru_default_rel by (simp add: full_bucket_def)
  from bucket_evicts_least_recently_used [OF full_bucket_ok this] show ?thesis
    by (auto simp: full_bucket_def ep_get_def ep_block_def victim_slot_def)
qed

text \<open>
  Dropping a bucket drops the value of every occupied slot of the bucket and of its linked
  buckets exactly once, including the slots of an optimistic bucket that are marked removed, and
  leaves no occupied slot behind.
\<close>

theorem bucket_drops_every_entry_once:
  assumes "bucket_ok ty ph b"
  shows "mset (fst (drop_entries b)) = image_mset Some (mset (bucket_entries SEQUENTIAL b)) \<and>
    occupied_bitmap (metadata (snd (drop_entries b))) = 0 \<and> links (snd (drop_entries b)) = []"
proof -
  have one: "mset (fst (drop_loop m)) = image_mset Some (mset (block_entries SEQUENTIAL m))"
    if "block_ok ty ph len m" "len \<le> 32" for m len
  proof -
    have "set (slots_from SEQUENTIAL len m 0) = {i. bit (occupied_bitmap m) i}"
      using block_okD(3) [OF that(1)] by (auto simp: slots_from_def bit_reachable_bitmap)
    moreover have "distinct (slots_from SEQUENTIAL len m 0)" by (simp add: slots_from_def)
    ultimately have "mset_set {i. bit (occupied_bitmap m) i} = mset (slots_from SEQUENTIAL len m 0)"
      by (metis mset_set_set)
    then show ?thesis
      using block_entries_slots [OF that(1), of SEQUENTIAL] by (metis drop_loop_dropped(1) mset_map)
  qed
  have ls: "mset (concat (map (fst \<circ> drop_loop) ls)) = image_mset Some (mset (concat (map (block_entries SEQUENTIAL) ls)))"
    if "\<forall>l\<in>set ls. block_ok ty ph LINKED_BUCKET_LEN l" for ls
    using that by (induction ls) (simp_all add: one [of LINKED_BUCKET_LEN])
  show ?thesis
    using one [OF bucket_okD(1) [OF assms]] ls [of "links b"] bucket_okD(2) [OF assms] drop_loop_dropped(2) [of "metadata b"]
    by (simp add: drop_entries_def Let_def split_def bucket_entries_def clear_links_def)
qed

theorem bucket_drops_every_entry_once_witness:
  "mset (fst (drop_entries example_bucket)) = image_mset Some (mset (bucket_entries SEQUENTIAL example_bucket))"
  using bucket_drops_every_entry_once [OF example_bucket_ok(1) [of OPTIMISTIC]] by simp

end
