(* ===== verification/Bucket_Array.thy ===== *)
theory Bucket_Array
  imports Bucket_Iter
begin

text \<open>
  Arrays of buckets: \<^verbatim>\<open>src/hash_table/bucket_array.rs\<close>. An array has a power of two of buckets and maps
  a 64-bit hash to the bucket given by its upper bits, so that one bucket of an array corresponds to a
  range of adjacent buckets of a larger one. Sizes and indices (\<^verbatim>\<open>usize\<close>) are natural numbers here;
  hashes are words. The two memory blocks of the array and their layout are not modelled: an array is
  the list of its buckets, each with its data block.
\<close>

section \<open>BucketArray\<close>

record ('k, 'v) bucket_array =
  buckets :: "('k, 'v) bucket list"
  hash_offset :: nat
  sample_size :: nat
  num_cleared_buckets :: nat

definition ba_minimum_capacity :: nat where
  "ba_minimum_capacity = BUCKET_LEN * 2"

definition partial_hash :: "u64 \<Rightarrow> u8" where
  "partial_hash hash = ucast (hash mod 2 ^ 8)"

definition calculate_log2_array_size :: "nat \<Rightarrow> nat" where
  "calculate_log2_array_size capacity =
     (let adjusted_capacity = min (max capacity 64) ((USIZE_MAX div 2) - (BUCKET_LEN - 1));
          required_buckets = next_power_of_two ((adjusted_capacity + BUCKET_LEN - 1) div BUCKET_LEN)
      in bit_length required_buckets - 1)"

text \<open>\<^verbatim>\<open>BucketArray::new\<close> with no old array attached; the allocation zeroes the buckets.\<close>

definition ba_new :: "nat \<Rightarrow> ('k, 'v) bucket_array" where
  "ba_new capacity =
     (let log2_array_len = calculate_log2_array_size capacity
      in \<lparr>buckets = replicate (2 ^ log2_array_len) bucket_new,
          hash_offset = 64 - log2_array_len,
          sample_size = next_power_of_two log2_array_len,
          num_cleared_buckets = 0\<rparr>)"

definition num_buckets :: "('k, 'v) bucket_array \<Rightarrow> nat" where
  "num_buckets a = length (buckets a)"

definition ba_num_entries :: "('k, 'v) bucket_array \<Rightarrow> nat" where
  "ba_num_entries a = num_buckets a * BUCKET_LEN"

definition full_sample_size :: "('k, 'v) bucket_array \<Rightarrow> nat" where
  "full_sample_size a = min (sample_size a * sample_size a) (num_buckets a)"

definition within_sampling_range :: "('k, 'v) bucket_array \<Rightarrow> nat \<Rightarrow> bool" where
  "within_sampling_range a index \<longleftrightarrow> index mod sample_size a = 0"

definition calculate_bucket_index :: "('k, 'v) bucket_array \<Rightarrow> u64 \<Rightarrow> nat" where
  "calculate_bucket_index a hash = unat (drop_bit (hash_offset a mod 64) hash)"

text \<open>\<^verbatim>\<open>bucket_mut\<close>: the array with one bucket replaced.\<close>

definition set_bucket :: "nat \<Rightarrow> ('k, 'v) bucket \<Rightarrow> ('k, 'v) bucket_array \<Rightarrow> ('k, 'v) bucket_array" where
  "set_bucket i b a = a\<lparr>buckets := (buckets a)[i := b]\<rparr>"

text \<open>\<^verbatim>\<open>Drop for BucketArray\<close>: the values dropped with the array, whose old array is dropped first.\<close>

definition ba_drop ::
  "btype \<Rightarrow> bool \<Rightarrow> ('k, 'v) bucket_array \<Rightarrow> ('k \<times> 'v) option list" where
  "ba_drop ty needs_drop a =
     (let num_cleared = (if ty = OPTIMISTIC \<and> needs_drop then 0 else num_cleared_buckets a)
      in if num_cleared < num_buckets a
         then concat (map (\<lambda>i. fst (drop_entries (buckets a ! i))) [num_cleared..<num_buckets a])
         else [])"

section \<open>Sizes\<close>

lemma log2_spec:
  fixes capacity :: nat
  defines "c \<equiv> min (max capacity 64) ((USIZE_MAX div 2) - (BUCKET_LEN - 1))"
  shows "1 \<le> calculate_log2_array_size capacity" "calculate_log2_array_size capacity \<le> 58"
    "c \<le> 2 ^ calculate_log2_array_size capacity * BUCKET_LEN"
    "2 ^ calculate_log2_array_size capacity * BUCKET_LEN < 2 * (c + BUCKET_LEN)"
proof -
  let ?r = "(c + BUCKET_LEN - 1) div BUCKET_LEN"
  have c: "64 \<le> c" "c \<le> 2 ^ 63 - 32" by (auto simp: c_def USIZE_MAX_def)
  obtain k where k: "next_power_of_two ?r = 2 ^ k" "?r \<le> 2 ^ k" "k = 0 \<or> 2 ^ k < 2 * ?r"
    by (rule next_power_of_two_spec)
  have l: "calculate_log2_array_size capacity = k"
    unfolding calculate_log2_array_size_def c_def [symmetric] Let_def k(1) by (simp add: bit_length_power)
  have r: "2 \<le> ?r" "?r \<le> 2 ^ 58" "c \<le> ?r * 32" "?r * 32 \<le> c + 31" using c by simp_all
  then have "k \<noteq> 0" using k(2) by (cases k) auto
  then show "1 \<le> calculate_log2_array_size capacity" using l by simp
  have lt: "2 ^ k < 2 * ?r" using k(3) \<open>k \<noteq> 0\<close> by simp
  then have "(2 :: nat) ^ k < 2 ^ 59" using r(2) by simp
  then have "k < 59" by (rule power_less_imp_less_exp [rotated]) simp
  then show "calculate_log2_array_size capacity \<le> 58" using l by simp
  show "c \<le> 2 ^ calculate_log2_array_size capacity * BUCKET_LEN"
    unfolding l using r(3) k(2) by linarith
  show "2 ^ calculate_log2_array_size capacity * BUCKET_LEN < 2 * (c + BUCKET_LEN)"
    unfolding l using mult_strict_right_mono [OF lt, of 32] mult_le_mono2 [OF r(4), of 2] by simp
qed

text \<open>An array as \<^verbatim>\<open>new\<close> lays it out: \<open>2 ^ n\<close> buckets, addressed by the upper \<open>n\<close> bits.\<close>

definition array_shape :: "nat \<Rightarrow> ('k, 'v) bucket_array \<Rightarrow> bool" where
  "array_shape n a \<longleftrightarrow> 1 \<le> n \<and> n \<le> 58 \<and> num_buckets a = 2 ^ n \<and> hash_offset a = 64 - n \<and>
     sample_size a = next_power_of_two n"

lemma ba_new_shape: "array_shape (calculate_log2_array_size capacity) (ba_new capacity)"
  using log2_spec [of capacity] by (simp add: array_shape_def ba_new_def num_buckets_def Let_def)

lemma set_bucket_shape [simp]: "array_shape n (set_bucket i b a) = array_shape n a"
  by (simp add: array_shape_def set_bucket_def num_buckets_def)

lemma bucket_index_div:
  assumes "array_shape n a"
  shows "calculate_bucket_index a h = unat h div 2 ^ (64 - n)"
proof -
  have "(64 - n) mod 64 = 64 - n" using assms by (simp add: array_shape_def)
  moreover have "hash_offset a = 64 - n" using assms by (simp add: array_shape_def)
  ultimately show ?thesis
    unfolding calculate_bucket_index_def by (subst unat_drop_bit_eq) (simp only: drop_bit_eq_div)
qed

lemma bucket_index_less:
  assumes "array_shape n a"
  shows "calculate_bucket_index a h < num_buckets a"
proof -
  have n: "n \<le> 64" using assms by (simp add: array_shape_def)
  have "unat h < 2 ^ 64" using unsigned_less [where ?'a = nat, of h] by simp
  also have "(2 :: nat) ^ 64 = 2 ^ n * 2 ^ (64 - n)" using n by (simp flip: power_add)
  finally have "unat h div 2 ^ (64 - n) < 2 ^ n" by (simp add: less_mult_imp_div_less)
  then show ?thesis using assms bucket_index_div [OF assms] by (simp add: array_shape_def)
qed

lemma bucket_index_coarser:
  assumes "array_shape n a" "array_shape m b" "n \<le> m"
  shows "calculate_bucket_index a h = calculate_bucket_index b h div (num_buckets b div num_buckets a)"
proof -
  have m: "m \<le> 64" using assms(2) by (simp add: array_shape_def)
  have "num_buckets b div num_buckets a = 2 ^ (m - n)"
    using assms by (simp add: array_shape_def power_diff)
  moreover have "(2 :: nat) ^ (64 - m) * 2 ^ (m - n) = 2 ^ (64 - n)"
    using m assms(3) by (simp flip: power_add)
  ultimately show ?thesis
    by (simp add: bucket_index_div [OF assms(1)] bucket_index_div [OF assms(2)] flip: div_mult2_eq)
qed

lemma relocation_range:
  fixes old :: "('k, 'v) bucket_array" and cur :: "('k, 'v) bucket_array"
  assumes "array_shape n old" "array_shape m cur"
  shows "if num_buckets old \<ge> num_buckets cur
     then calculate_bucket_index cur h = calculate_bucket_index old h div (num_buckets old div num_buckets cur)
     else calculate_bucket_index old h * (num_buckets cur div num_buckets old) \<le> calculate_bucket_index cur h \<and>
          calculate_bucket_index cur h - calculate_bucket_index old h * (num_buckets cur div num_buckets old)
            < num_buckets cur div num_buckets old"
proof (cases "num_buckets old \<ge> num_buckets cur")
  case True
  then have "m \<le> n" using assms by (simp add: array_shape_def)
  then show ?thesis using True bucket_index_coarser [OF assms(2,1)] by simp
next
  case False
  then have "n \<le> m" using assms by (simp add: array_shape_def)
  let ?r = "num_buckets cur div num_buckets old" and ?i = "calculate_bucket_index cur h"
  have "0 < ?r" using assms \<open>n \<le> m\<close> by (simp add: array_shape_def power_increasing div_greater_zero_iff)
  moreover have "?i div ?r * ?r \<le> ?i" by (rule div_times_less_eq_dividend)
  moreover have "?i - ?i div ?r * ?r = ?i mod ?r" by (simp add: minus_div_mult_eq_mod)
  ultimately show ?thesis using False bucket_index_coarser [OF assms \<open>n \<le> m\<close>] by simp
qed

text \<open>
  C25. The array for a requested capacity has \<open>2 ^ n\<close> buckets with \<open>1 \<le> n \<le> 58\<close>. Its capacity is at least the
  request and at least 64, where a request above \<open>2 ^ 63 - 32\<close> counts as that number, and less than twice
  the request, or 64, plus a bucket. Every hash selects a bucket of the array, and the sampled range never
  exceeds the array. When a table is resized from one such array to another, buckets split and merge in
  place, as \<^verbatim>\<open>relocate_bucket\<close> computes it: with at least as many buckets in the old array, the hash selects
  the bucket at the old index divided by the ratio; with fewer, it selects one of the \<open>ratio\<close> buckets that
  start at the old index times the ratio.
\<close>

theorem bucket_array_capacity_and_index:
  fixes capacity new_capacity :: nat
  defines "a \<equiv> ba_new capacity :: ('k, 'v) bucket_array" and "b \<equiv> ba_new new_capacity :: ('k, 'v) bucket_array"
  shows "(\<exists>n. 1 \<le> n \<and> n \<le> 58 \<and> num_buckets a = 2 ^ n) \<and>
   min (max capacity 64) (2 ^ 63 - 32) \<le> ba_num_entries a \<and>
   ba_num_entries a < 2 * (max capacity 64 + BUCKET_LEN) \<and>
   calculate_bucket_index a h < num_buckets a \<and>
   full_sample_size a \<le> num_buckets a \<and>
   (if num_buckets a \<ge> num_buckets b
    then calculate_bucket_index b h = calculate_bucket_index a h div (num_buckets a div num_buckets b)
    else calculate_bucket_index a h * (num_buckets b div num_buckets a) \<le> calculate_bucket_index b h \<and>
         calculate_bucket_index b h < (calculate_bucket_index a h + 1) * (num_buckets b div num_buckets a))"
proof (intro conjI)
  have n: "ba_num_entries a = 2 ^ calculate_log2_array_size capacity * BUCKET_LEN"
    by (simp add: ba_num_entries_def num_buckets_def ba_new_def Let_def a_def)
  note shape = ba_new_shape [of capacity, where ?'a = 'k and ?'b = 'v, folded a_def]
    ba_new_shape [of new_capacity, where ?'a = 'k and ?'b = 'v, folded b_def]
  show "\<exists>n. 1 \<le> n \<and> n \<le> 58 \<and> num_buckets a = 2 ^ n" using shape(1) unfolding array_shape_def by blast
  have cap: "(USIZE_MAX div 2) - (BUCKET_LEN - 1) = 2 ^ 63 - 32" by (simp add: USIZE_MAX_def)
  show "min (max capacity 64) (2 ^ 63 - 32) \<le> ba_num_entries a"
    unfolding n using log2_spec(3) [of capacity] unfolding cap .
  have "ba_num_entries a < 2 * (min (max capacity 64) (2 ^ 63 - 32) + BUCKET_LEN)"
    unfolding n using log2_spec(4) [of capacity] unfolding cap .
  also have "\<dots> \<le> 2 * (max capacity 64 + BUCKET_LEN)" by (simp only: mult_le_mono2 add_le_mono1 min.cobounded1)
  finally show "ba_num_entries a < 2 * (max capacity 64 + BUCKET_LEN)" .
  show "calculate_bucket_index a h < num_buckets a" by (rule bucket_index_less [OF shape(1)])
  show "full_sample_size a \<le> num_buckets a" by (simp only: full_sample_size_def min.cobounded2)
  show "if num_buckets a \<ge> num_buckets b
    then calculate_bucket_index b h = calculate_bucket_index a h div (num_buckets a div num_buckets b)
    else calculate_bucket_index a h * (num_buckets b div num_buckets a) \<le> calculate_bucket_index b h \<and>
         calculate_bucket_index b h < (calculate_bucket_index a h + 1) * (num_buckets b div num_buckets a)"
    using relocation_range [OF shape, of h] by (auto simp: algebra_simps split: if_splits)
qed

theorem bucket_array_capacity_and_index_witness:
  "num_buckets (ba_new 64 :: (nat, nat) bucket_array) = 2 \<and> num_buckets (ba_new 256 :: (nat, nat) bucket_array) = 8 \<and>
   calculate_bucket_index (ba_new 64 :: (nat, nat) bucket_array) (2 ^ 63) = 1 \<and>
   4 \<le> calculate_bucket_index (ba_new 256 :: (nat, nat) bucket_array) (2 ^ 63) \<and>
   calculate_bucket_index (ba_new 256 :: (nat, nat) bucket_array) (2 ^ 63) < 8"
proof -
  have l: "calculate_log2_array_size 64 = 1" "calculate_log2_array_size 256 = 3"
    using bit_length_power [of 1] bit_length_power [of 3]
    by (simp_all add: calculate_log2_array_size_def USIZE_MAX_def next_power_of_two_def
        next_pow2_from.simps [of "Suc 0"] next_pow2_from.simps [of 2] next_pow2_from.simps [of 4]
        next_pow2_from.simps [of 8])
  then have n: "num_buckets (ba_new 64 :: (nat, nat) bucket_array) = 2"
    "num_buckets (ba_new 256 :: (nat, nat) bucket_array) = 8"
    by (simp_all add: num_buckets_def ba_new_def Let_def)
  moreover have "calculate_bucket_index (ba_new 64 :: (nat, nat) bucket_array) (2 ^ 63) = 1"
    using bucket_index_div [OF ba_new_shape [of 64, where ?'a = nat and ?'b = nat], of "2 ^ 63"] l by simp
  ultimately show ?thesis
    using bucket_array_capacity_and_index [of 64 "2 ^ 63" 256, where ?'k = nat and ?'v = nat] by simp
qed

end
