(* ===== verification/Bucket_Loops.thy ===== *)
theory Bucket_Loops
  imports Bucket_Iter
begin

text \<open>
  Loops that change a bucket while they iterate over it: an operation at the slot of the pointer leaves
  the slots ahead of the pointer alone, and extraction, which may unlink the bucket under the pointer,
  leaves the entries ahead of it alone.
\<close>

section \<open>Pointers ahead point to entries\<close>

lemma slots_from_entry:
  assumes "block_ok ty ph len m" "i \<in> set (slots_from ty len m n)"
  shows "i < len" "slot_entry ty m i = data_block m ! i" "data_block m ! i \<noteq> None"
  using assms block_okD(3) [OF assms(1), of i]
  by (auto simp: slots_from_def slot_entry_def bit_reachable_bitmap)

lemma ahead_points_to:
  assumes ok: "bucket_ok ty ph b" and "ep_in b ep" "p \<in> set (ahead ty b ep)"
  obtains e where "points_to ty b p e" "ep_get b p = Some e"
proof -
  have inp: "ep_in b p" using ep_in_ahead assms(2,3) by blast
  have "current_index p \<in> set (slots_from ty (ep_len p) (ep_block b p) 0)"
    using assms(3) inp
    by (auto simp: ahead_def link_slots_def ep_len_def ep_block_def slots_from_def ep_in_def
        split: if_splits option.splits)
  from slots_from_entry [OF ep_block_ok [OF ok inp] this] show thesis
    using points_toI [OF ok inp] that by (metis ep_get_def option.exhaust)
qed

section \<open>Operations at the pointer\<close>

definition later_block :: "btype \<Rightarrow> nat \<Rightarrow> ('k, 'v) block \<Rightarrow> ('k, 'v) block \<Rightarrow> bool" where
  "later_block ty i m m' \<longleftrightarrow>
     (\<forall>j>i. (bit (reachable_bitmap ty m') j \<longleftrightarrow> bit (reachable_bitmap ty m) j) \<and> data_block m' ! j = data_block m ! j)"

definition later_same :: "btype \<Rightarrow> ('k, 'v) bucket \<Rightarrow> ('k, 'v) bucket \<Rightarrow> entry_ptr \<Rightarrow> bool" where
  "later_same ty b b' p \<longleftrightarrow>
     (case current_link_ptr p of
        None \<Rightarrow> links b' = links b \<and> later_block ty (current_index p) (metadata b) (metadata b')
      | Some l \<Rightarrow> length (links b') = length (links b) \<and> later_block ty (current_index p) (links b ! l) (links b' ! l) \<and>
          (\<forall>i<length (links b). i \<noteq> l \<longrightarrow> links b' ! i = links b ! i))"

lemma later_slots:
  assumes "later_block ty i m m'"
  shows "slots_from ty len m' (Suc i) = slots_from ty len m (Suc i)"
    and "j \<in> set (slots_from ty len m (Suc i)) \<Longrightarrow> data_block m' ! j = data_block m ! j"
  using assms by (auto simp: slots_from_def later_block_def intro!: filter_cong)

lemma later_same_ahead:
  assumes same: "later_same ty b b' p" and p: "ep_in b p" "current_index p < ep_len p"
  shows "ahead ty b' p = ahead ty b p" "q \<in> set (ahead ty b p) \<Longrightarrow> ep_get b' q = ep_get b q" "ep_in b' p"
proof -
  have i: "current_index p \<noteq> USIZE_MAX" using p(2) ep_len_le [of p] small_not_max [of "current_index p"] by linarith
  have "ahead ty b' p = ahead ty b p \<and> (\<forall>q\<in>set (ahead ty b p). ep_get b' q = ep_get b q) \<and> ep_in b' p"
  proof (cases "current_link_ptr p")
    case None
    then have s: "links b' = links b" "later_block ty (current_index p) (metadata b) (metadata b')"
      using same by (simp_all add: later_same_def)
    have sa: "slot_after BUCKET_LEN (current_index p) = Suc (current_index p)"
      using p(2) None by (simp add: slot_after_def ep_len_def)
    have "link_slots ty b' 0 = link_slots ty b 0" using s(1) by (simp add: link_slots_def)
    then show ?thesis
      using None i later_slots [OF s(2)] s(1)
      by (auto simp: ahead_def sa ep_get_def ep_block_def ep_in_def link_slots_def)
  next
    case (Some l)
    then have s: "length (links b') = length (links b)" "later_block ty (current_index p) (links b ! l) (links b' ! l)"
      "\<And>i. i < length (links b) \<Longrightarrow> i \<noteq> l \<Longrightarrow> links b' ! i = links b ! i"
      using same by (simp_all add: later_same_def)
    have sa: "slot_after LINKED_BUCKET_LEN (current_index p) = Suc (current_index p)"
      using p(2) Some by (simp add: slot_after_def ep_len_def)
    have "link_slots ty b' (Suc l) = link_slots ty b (Suc l)"
      unfolding link_slots_def s(1) by (intro arg_cong [where f = concat] map_cong) (auto simp: s(3))
    then show ?thesis
      using Some i later_slots [OF s(2)] s(1,3) p(1)
      by (auto simp: ahead_def sa ep_get_def ep_block_def ep_in_def link_slots_def)
  qed
  then show "ahead ty b' p = ahead ty b p" "q \<in> set (ahead ty b p) \<Longrightarrow> ep_get b' q = ep_get b q" "ep_in b' p"
    by blast+
qed

lemma later_block_refl [simp]: "later_block ty i m m"
  by (simp add: later_block_def)

lemma later_same_update:
  assumes "ep_in b p" "later_block ty (current_index p) (ep_block b p) (f (ep_block b p))"
  shows "later_same ty b (ep_update f p b) p"
  using assms by (auto simp: later_same_def ep_update_def ep_in_def ep_block_def split: option.splits)

lemma later_same_trans:
  assumes "later_same ty b b' p" "later_same ty b' b'' p"
  shows "later_same ty b b'' p"
  using assms by (auto simp: later_same_def later_block_def split: option.splits)

lemma later_same_num_entries [simp]:
  "later_same ty b (b'\<lparr>num_entries := n\<rparr>) p = later_same ty b b' p"
  "later_same ty (b\<lparr>num_entries := n\<rparr>) b' p = later_same ty b b' p"
  by (simp_all add: later_same_def split: option.split)

lemma later_take_slot: "ty \<noteq> OPTIMISTIC \<Longrightarrow> later_block ty i m (take_slot i m)"
  by (simp add: later_block_def bit_reachable_bitmap take_slot_def bit_clear_bit)

lemma later_mark_removed: "later_block OPTIMISTIC i m (mark_removed i m)"
  by (auto simp: later_block_def bit_reachable_bitmap mark_removed_def bit_set_bit)

lemma later_set_data: "later_block ty i m (m\<lparr>data_block := (data_block m)[i := x]\<rparr>)"
  by (simp add: later_block_def bit_reachable_bitmap)

lemma later_ep_set: "ep_in b p \<Longrightarrow> later_same ty b (ep_set b p e) p"
  unfolding ep_set_def by (rule later_same_update) (simp_all add: later_set_data)

lemma later_remove_from_lru: "later_same CACHE b (remove_from_lru_list b p) p"
  by (auto simp: later_same_def remove_from_lru_list_def store_tail_def later_block_def bit_reachable_bitmap
      split: option.splits prod.splits)

lemma later_erase:
  assumes "ep_in b p"
  shows "later_same ty b (snd (erase ty b p)) p"
proof -
  let ?b = "b\<lparr>num_entries := num_entries b - 1\<rparr>" and ?i = "current_index p"
  have inb: "ep_in ?b p" using assms by simp
  consider "ty = OPTIMISTIC" "snd (erase ty b p) = ep_update (mark_removed ?i) p ?b"
    | "ty \<noteq> OPTIMISTIC" "snd (erase ty b p) = ep_update (take_slot ?i) p ?b"
    | "ty = CACHE" "snd (erase ty b p) = ep_update (take_slot ?i) p (remove_from_lru_list ?b p)"
    by (cases ty; cases "current_link_ptr p") (auto simp: erase_def Let_def)
  then show ?thesis
  proof cases
    case 1
    then show ?thesis
      using later_same_update [OF inb, of ty "mark_removed ?i"] by (simp add: later_mark_removed)
  next
    case 2
    then show ?thesis
      using later_same_update [OF inb, of ty "take_slot ?i"] by (simp add: later_take_slot)
  next
    case 3
    let ?c = "remove_from_lru_list ?b p"
    have "later_same CACHE ?b ?c p" by (rule later_remove_from_lru)
    moreover have "later_same CACHE ?c (ep_update (take_slot ?i) p ?c) p"
      using assms by (intro later_same_update) (simp_all add: later_take_slot ep_in_def remove_from_lru_list_same split: option.splits)
    ultimately show ?thesis using 3 later_same_trans later_same_num_entries(2) by metis
  qed
qed

lemma later_keep_or_consume:
  assumes "ep_in b p" "ty \<noteq> OPTIMISTIC"
  shows "later_same ty b (snd (keep_or_consume b p pred)) p"
proof -
  let ?b = "b\<lparr>num_entries := num_entries b - 1\<rparr>" and ?i = "current_index p"
  have inb: "ep_in ?b p" using assms by simp
  have t: "later_same ty b (ep_update (take_slot ?i) p ?b) p"
    using later_same_update [OF inb, of ty "take_slot ?i"] assms(2) by (simp add: later_take_slot)
  have u: "later_same ty b (ep_update (\<lambda>m. m\<lparr>data_block := (data_block m)[?i := x],
        occupied_bitmap := occupied_bitmap m OR shl1 ?i\<rparr>) p (ep_update (take_slot ?i) p ?b)) p" for x
    using later_same_update [OF inb, of ty "\<lambda>m. (take_slot ?i m)\<lparr>data_block := (data_block (take_slot ?i m))[?i := x],
        occupied_bitmap := occupied_bitmap (take_slot ?i m) OR shl1 ?i\<rparr>"] assms
    by (simp add: ep_update_compose) (simp add: later_block_def bit_reachable_bitmap take_slot_def bit_set_bit bit_clear_bit)
  show ?thesis using t u by (auto simp: keep_or_consume_def Let_def split: option.splits)
qed

section \<open>Extraction at the pointer\<close>

lemma link_slots_get:
  assumes "n \<le> length (links b)"
  shows "map (ep_get b) (link_slots ty b n) =
    concat (map (\<lambda>m. map (\<lambda>i. data_block m ! i) (slots_from ty LINKED_BUCKET_LEN m 0)) (drop n (links b)))"
proof -
  have "map (ep_get b) (link_slots ty b n) =
      concat (map (\<lambda>l. map (\<lambda>i. data_block (links b ! l) ! i) (slots_from ty LINKED_BUCKET_LEN (links b ! l) 0)) [n..<length (links b)])"
    unfolding link_slots_def map_concat map_map
    by (intro arg_cong [where f = concat] map_cong) (simp_all add: comp_def ep_get_def ep_block_def)
  also have "map (\<lambda>l. map (\<lambda>i. data_block (links b ! l) ! i) (slots_from ty LINKED_BUCKET_LEN (links b ! l) 0)) [n..<length (links b)] =
      map (\<lambda>m. map (\<lambda>i. data_block m ! i) (slots_from ty LINKED_BUCKET_LEN m 0)) (drop n (links b))"
    using assms by (intro nth_equalityI) simp_all
  finally show ?thesis .
qed

lemma extract_ahead:
  assumes p: "ep_in b p" "current_index p < ep_len p" and ty: "ty \<noteq> OPTIMISTIC"
  defines "b' \<equiv> fst (snd (bucket_extract b p))" and "p' \<equiv> snd (snd (bucket_extract b p))"
  shows "map (ep_get b') (ahead ty b' p') = map (ep_get b) (ahead ty b p)" "ep_in b' p'"
proof -
  let ?i = "current_index p"
  let ?u = "ep_update (take_slot ?i) p (b\<lparr>num_entries := num_entries b - 1\<rparr>)"
  have "later_same ty b ?u p"
    using later_same_update [of "b\<lparr>num_entries := num_entries b - 1\<rparr>" p ty "take_slot ?i"] p(1) ty
    by (simp add: later_take_slot)
  note u = later_same_ahead [OF this p]
  have plain: "map (ep_get ?u) (ahead ty ?u p) = map (ep_get b) (ahead ty b p)" using u(1,2) by simp
  have "map (ep_get b') (ahead ty b' p') = map (ep_get b) (ahead ty b p) \<and> ep_in b' p'"
  proof (cases "\<exists>l. current_link_ptr p = Some l \<and> occupied_bitmap (links ?u ! l) = 0")
    case False
    then have "b' = ?u" "p' = p"
      by (auto simp: b'_def p'_def bucket_extract_def extract_entry_def split: option.splits)
    then show ?thesis using plain u(3) by simp
  next
    case True
    then obtain l where l: "current_link_ptr p = Some l" "occupied_bitmap (links ?u ! l) = 0" by blast
    have len: "l < length (links ?u)" using u(3) l by (simp add: ep_in_def)
    have "slots_from ty LINKED_BUCKET_LEN (links ?u ! l) n = []" for n
      using l(2) by (simp add: slots_from_def bit_reachable_bitmap)
    then have a: "ahead ty ?u p = link_slots ty ?u (Suc l)"
      using l(1) p(2) small_not_max [of ?i] by (simp add: ahead_def ep_len_def)
    have bp: "(b', p') = ep_unlink ?u p l"
      using l by (simp add: b'_def p'_def bucket_extract_def extract_entry_def Let_def split_def)
    then have links: "links b' = take l (links ?u) @ drop (Suc l) (links ?u)"
      by (auto simp: ep_unlink_def Let_def split: option.splits)
    show ?thesis
    proof (cases "Suc l < length (links ?u)")
      case True
      then have p': "p' = at_link l LINKED_BUCKET_LEN"
        using bp by (cases p) (simp add: ep_unlink_def link_from_def Let_def)
      have l': "l < length (links b')" "drop l (links b') = drop (Suc l) (links ?u)"
        using True links by simp_all
      have "map (ep_get b') (ahead ty b' p') = map (ep_get ?u) (ahead ty ?u p)"
        unfolding a p' ahead_link_start [OF l'(1)] using link_slots_get [of l b' ty] link_slots_get [of "Suc l" ?u ty] l' len
        by simp
      then show ?thesis using plain l'(1) p' by (simp add: ep_in_def)
    next
      case False
      then have "p' = at_main USIZE_MAX" using bp by (cases p) (simp add: ep_unlink_def link_from_def Let_def)
      then show ?thesis using False a plain by (simp add: ahead_def link_slots_end ep_in_def)
    qed
  qed
  then show "map (ep_get b') (ahead ty b' p') = map (ep_get b) (ahead ty b p)" "ep_in b' p'" by blast+
qed

end
