(* ===== verification/Hash_Table.thy ===== *)
theory Hash_Table
  imports Bucket_Array Bucket_Loops Ebr_Tag
begin

text \<open>
  The hash table that the map, index, set and cache types share: the trait \<^verbatim>\<open>HashTable\<close> of
  \<^verbatim>\<open>src/hash_table.rs\<close>. A table has a current array of buckets and, while it is being resized, an old
  array whose buckets are relocated a few at a time by the operations that come along.

  The definitions are those of one thread running alone: every lock that is not held by a killed
  bucket is granted, and a loop that repeats because another thread has replaced the array runs once.
  The table type is the argument \<open>ty\<close>, the hash function of the table the argument \<open>hash\<close>. Panics are
  values. \<open>Loop_Fuel\<close> marks a bounded loop that ran out of iterations and \<open>Uninitialized_Read\<close> the
  read of an empty slot; both are shown to be unreachable.
\<close>

section \<open>State\<close>

datatype ht_panic = Bucket_Panic bucket_panic | Target_Out_Of_Bounds | Loop_Fuel | Uninitialized_Read

type_synonym 'a ht_result = "ht_panic + 'a"

record ('k, 'v) table =
  current_array :: "('k, 'v) bucket_array option"
  old_array :: "('k, 'v) bucket_array option"
  array_tag :: tag
  minimum_capacity :: nat
  maximum_capacity :: nat

definition and_then :: "'a ht_result \<Rightarrow> ('a \<Rightarrow> 'b ht_result) \<Rightarrow> 'b ht_result" where
  "and_then r f = (case r of Inl e \<Rightarrow> Inl e | Inr x \<Rightarrow> f x)"

lemma and_then_simps [simp]: "and_then (Inl e) f = Inl e" "and_then (Inr x) f = f x"
  by (simp_all add: and_then_def)

definition bucket_at :: "('k, 'v) bucket_array \<Rightarrow> nat \<Rightarrow> ('k, 'v) bucket" where
  "bucket_at a i = buckets a ! i"

section \<open>Relocation\<close>

text \<open>The inner loop of \<^verbatim>\<open>relocate_bucket\<close>: the target buckets up to the given distance are locked and
  the lockers stored in an array of \<^verbatim>\<open>usize::BITS / 2\<close> elements; \<^term>\<open>None\<close> is the index panic.\<close>

function lock_targets :: "nat \<Rightarrow> nat \<Rightarrow> nat option" where
  "lock_targets max_index distance =
     (if max_index \<le> distance
      then if max_index \<ge> 64 div 2 then None else lock_targets (max_index + 1) distance
      else Some max_index)"
  by pat_completeness auto
termination
  by (relation "measure (\<lambda>(max_index, distance). Suc distance - max_index)") auto

declare lock_targets.simps [simp del]

definition target_of :: "('k, 'v) bucket_array \<Rightarrow> ('k, 'v) bucket_array \<Rightarrow> nat \<Rightarrow> nat" where
  "target_of current old old_index =
     (if num_buckets old \<ge> num_buckets current
      then old_index div (num_buckets old div num_buckets current)
      else old_index * (num_buckets current div num_buckets old))"

text \<open>The index in the current array and the partial hash of the entry pointed to.\<close>

definition relocation_of ::
  "('k \<Rightarrow> u64) \<Rightarrow> ('k, 'v) bucket_array \<Rightarrow> ('k, 'v) bucket_array \<Rightarrow> nat \<Rightarrow> ('k, 'v) bucket \<Rightarrow>
     entry_ptr \<Rightarrow> 'k \<Rightarrow> nat \<times> u8" where
  "relocation_of hash current old target_index old_bucket ep key =
     (if num_buckets old \<ge> num_buckets current
      then (target_index, ep_partial_hash old_bucket ep)
      else (calculate_bucket_index current (hash key), partial_hash (hash key)))"

text \<open>The outer loop; at most \<open>fuel\<close> entries are moved. The entry is cloned and then erased in an
  optimistic bucket, and extracted from the others.\<close>

fun relocate_loop ::
  "nat \<Rightarrow> btype \<Rightarrow> ('k \<Rightarrow> u64) \<Rightarrow> ('k, 'v) bucket_array \<Rightarrow> nat \<Rightarrow> nat \<Rightarrow> entry_ptr \<Rightarrow> ('k, 'v) bucket \<Rightarrow>
     ('k, 'v) bucket_array \<Rightarrow> (('k, 'v) bucket \<times> ('k, 'v) bucket_array) ht_result" where
  "relocate_loop fuel ty hash old target_index max_index ep old_bucket current =
     (let (found, ep) = ep_next ty old_bucket ep
      in if \<not> found then Inr (old_bucket, current)
      else case fuel of 0 \<Rightarrow> Inl Loop_Fuel | Suc fuel \<Rightarrow>
      (case ep_get old_bucket ep of
         None \<Rightarrow> Inl Uninitialized_Read
       | Some old_entry \<Rightarrow>
           let (new_index, ph) = relocation_of hash current old target_index old_bucket ep (fst old_entry)
           in case lock_targets max_index (new_index - target_index) of
                None \<Rightarrow> Inl Target_Out_Of_Bounds
              | Some max_index \<Rightarrow>
                  (case insert_with (bucket_at current new_index) ph old_entry of
                     Inl p \<Rightarrow> Inl (Bucket_Panic p)
                   | Inr (_, target_bucket) \<Rightarrow>
                       let current = set_bucket new_index target_bucket current;
                           (old_bucket, ep) =
                             (if ty = OPTIMISTIC then (snd (erase ty old_bucket ep), ep)
                              else snd (bucket_extract old_bucket ep))
                       in relocate_loop fuel ty hash old target_index max_index ep old_bucket current)))"

declare relocate_loop.simps [simp del]

text \<open>\<^verbatim>\<open>relocate_bucket\<close>: the old and the current array afterwards.\<close>

definition relocate_bucket ::
  "btype \<Rightarrow> ('k \<Rightarrow> u64) \<Rightarrow> nat \<Rightarrow> ('k, 'v) bucket_array \<times> ('k, 'v) bucket_array \<Rightarrow>
     (('k, 'v) bucket_array \<times> ('k, 'v) bucket_array) ht_result" where
  "relocate_bucket ty hash old_index arrays =
     (let (old, current) = arrays; b = bucket_at old old_index
      in and_then
           (if num_entries b \<noteq> 0
            then relocate_loop (unat (num_entries b)) ty hash old (target_of current old old_index) 0
                   ep_new b current
            else Inr (b, current))
           (\<lambda>(b, current). Inr (set_bucket old_index (kill ty b) old, current)))"

text \<open>The loop of \<^verbatim>\<open>incremental_rehash\<close> over the assigned range; killed buckets cannot be locked.\<close>

fun rehash_range ::
  "btype \<Rightarrow> ('k \<Rightarrow> u64) \<Rightarrow> nat list \<Rightarrow> ('k, 'v) bucket_array \<times> ('k, 'v) bucket_array \<Rightarrow>
     (('k, 'v) bucket_array \<times> ('k, 'v) bucket_array) ht_result" where
  "rehash_range ty hash [] arrays = Inr arrays"
| "rehash_range ty hash (index # is) arrays =
     and_then
       (if killed (bucket_at (fst arrays) index) then Inr arrays
        else relocate_bucket ty hash index arrays)
       (rehash_range ty hash is)"

definition incremental_rehash ::
  "btype \<Rightarrow> ('k \<Rightarrow> u64) \<Rightarrow> ('k, 'v) table \<Rightarrow> (bool \<times> ('k, 'v) table) ht_result" where
  "incremental_rehash ty hash t =
     (case (current_array t, old_array t) of
        (Some current, Some old) \<Rightarrow>
          let rehashing = num_cleared_buckets old
          in if rehashing \<ge> num_buckets old \<or> rehashing mod BUCKET_LEN = BUCKET_LEN - 1
             then Inr (False, t)
             else
               let old = old\<lparr>num_cleared_buckets := rehashing + BUCKET_LEN + 1\<rparr>;
                   start = rehashing - rehashing mod BUCKET_LEN
               in and_then
                    (rehash_range ty hash [start..<min (start + BUCKET_LEN) (num_buckets old)] (old, current))
                    (\<lambda>(old, current).
                       let rehashing = num_cleared_buckets old - 1;
                           old = old\<lparr>num_cleared_buckets := rehashing\<rparr>;
                           t = t\<lparr>current_array := Some current, old_array := Some old\<rparr>
                       in if rehashing mod BUCKET_LEN = 0 \<and> rehashing \<ge> num_buckets old
                          then Inr (True, t\<lparr>old_array := None\<rparr>)
                          else Inr (False, t))
      | _ \<Rightarrow> Inr (old_array t = None, t))"

text \<open>\<^verbatim>\<open>move_entry\<close>: the bucket of the hash in the old array is relocated; the result is whether the
  old array is gone.\<close>

definition move_entry ::
  "btype \<Rightarrow> ('k \<Rightarrow> u64) \<Rightarrow> u64 \<Rightarrow> ('k, 'v) table \<Rightarrow> (bool \<times> ('k, 'v) table) ht_result" where
  "move_entry ty hash h t =
     and_then (incremental_rehash ty hash t)
       (\<lambda>(finished, t).
          if finished then Inr (True, t)
          else case (current_array t, old_array t) of
                 (Some current, Some old) \<Rightarrow>
                   let index = calculate_bucket_index old h
                   in and_then
                        (if killed (bucket_at old index) then Inr (old, current)
                         else relocate_bucket ty hash index (old, current))
                        (\<lambda>(old, current).
                           Inr (False, t\<lparr>current_array := Some current, old_array := Some old\<rparr>))
               | _ \<Rightarrow> Inr (False, t))"

text \<open>\<^verbatim>\<open>clear_old_array\<close>, at most \<open>fuel\<close> rounds.\<close>

fun clear_loop :: "nat \<Rightarrow> btype \<Rightarrow> ('k \<Rightarrow> u64) \<Rightarrow> ('k, 'v) table \<Rightarrow> ('k, 'v) table ht_result" where
  "clear_loop fuel ty hash t =
     (if old_array t = None then Inr t
      else case fuel of
             0 \<Rightarrow> Inl Loop_Fuel
           | Suc fuel \<Rightarrow>
               and_then (incremental_rehash ty hash t)
                 (\<lambda>(finished, t). if finished then Inr t else clear_loop fuel ty hash t))"

declare clear_loop.simps [simp del]

definition clear_old_array :: "btype \<Rightarrow> ('k \<Rightarrow> u64) \<Rightarrow> ('k, 'v) table \<Rightarrow> ('k, 'v) table ht_result" where
  "clear_old_array ty hash t =
     clear_loop (case old_array t of None \<Rightarrow> 0 | Some old \<Rightarrow> num_buckets old) ty hash t"

section \<open>Resizing\<close>

definition get_current_array :: "('k, 'v) table \<Rightarrow> ('k, 'v) table" where
  "get_current_array t =
     (case current_array t of
        Some _ \<Rightarrow> t
      | None \<Rightarrow> t\<lparr>current_array := Some (ba_new (minimum_capacity t)), old_array := None\<rparr>)"

definition sample :: "('k, 'v) bucket_array \<Rightarrow> nat \<Rightarrow> nat \<Rightarrow> nat" where
  "sample a sampling_index sz =
     (\<Sum>i\<leftarrow>[sampling_index..<sampling_index + sz]. unat (num_entries (bucket_at a (i mod num_buckets a))))
     * (num_buckets a div sz)"

fun check_rebuild_from :: "btype \<Rightarrow> ('k, 'v) bucket_array \<Rightarrow> nat \<Rightarrow> nat \<Rightarrow> nat list \<Rightarrow> bool" where
  "check_rebuild_from ty a sz n [] = False"
| "check_rebuild_from ty a sz n (i # is) =
     (if need_rebuild ty (bucket_at a (i mod num_buckets a))
      then if n + 1 \<ge> sz div 2 then True else check_rebuild_from ty a sz (n + 1) is
      else check_rebuild_from ty a sz n is)"

definition check_rebuild :: "btype \<Rightarrow> ('k, 'v) bucket_array \<Rightarrow> nat \<Rightarrow> nat \<Rightarrow> bool" where
  "check_rebuild ty a sampling_index sz =
     check_rebuild_from ty a sz 0 [sampling_index..<sampling_index + sz]"

text \<open>The doubling loop of \<^verbatim>\<open>try_resize\<close>. A capacity is never zero; the test only serves termination.\<close>

function grow_capacity :: "nat \<Rightarrow> nat \<Rightarrow> nat \<Rightarrow> nat \<Rightarrow> nat" where
  "grow_capacity estimated maximum capacity new_capacity =
     (if new_capacity \<le> (estimated div 8) * 15 \<and> 0 < new_capacity
      then if new_capacity = maximum then new_capacity
           else if new_capacity div capacity = 32 then new_capacity
           else grow_capacity estimated maximum capacity (new_capacity * 2)
      else new_capacity)"
  by pat_completeness auto
termination
  by (relation "measure (\<lambda>(estimated, maximum, capacity, new_capacity). Suc ((estimated div 8) * 15) - new_capacity)") auto

declare grow_capacity.simps [simp del]

text \<open>The target capacity of \<^verbatim>\<open>try_resize\<close>. \<^verbatim>\<open>next_power_of_two\<close> is computed at the width of \<^verbatim>\<open>usize\<close>: above
  \<open>2 ^ 63\<close> a release build wraps to 0, as here, and a debug build panics. The same holds in
  \<^verbatim>\<open>try_shrink_or_rebuild\<close>.\<close>

definition resize_to :: "('k, 'v) table \<Rightarrow> ('k, 'v) bucket_array \<Rightarrow> nat \<Rightarrow> nat" where
  "resize_to t current estimated =
     (let capacity = ba_num_entries current
      in if estimated \<ge> (capacity div 8) * 7
         then if capacity = maximum_capacity t then capacity
              else grow_capacity estimated (maximum_capacity t) capacity capacity
         else if estimated \<le> capacity div 16
         then next_power_of_two (max (max estimated (minimum_capacity t)) ba_minimum_capacity) mod 2 ^ 64
         else capacity)"

definition try_resize :: "btype \<Rightarrow> nat \<Rightarrow> ('k, 'v) table \<Rightarrow> ('k, 'v) table" where
  "try_resize ty sampling_index t =
     (if array_tag t \<noteq> TagNone then t
      else case current_array t of
        None \<Rightarrow> t
      | Some current \<Rightarrow>
          if old_array t \<noteq> None then t
          else
            let capacity = ba_num_entries current;
                sz = full_sample_size current;
                estimated = sample current sampling_index sz;
                new_capacity = resize_to t current estimated;
                resize = (new_capacity \<noteq> capacity);
                drop_table = (estimated = 0 \<and> minimum_capacity t = 0);
                rebuild = (ty = OPTIMISTIC \<and> \<not> resize \<and> check_rebuild ty current sampling_index sz)
            in if resize \<or> drop_table \<or> rebuild
               then
                 let t = t\<lparr>array_tag := First\<rparr>
                 in if drop_table \<and> list_all (\<lambda>b. \<not> killed b \<and> num_entries b = 0) (buckets current)
                    then t\<lparr>current_array := None, array_tag := TagNone\<rparr>
                    else if resize \<or> rebuild
                    then t\<lparr>current_array := Some (ba_new new_capacity), old_array := Some current,
                           array_tag := TagNone\<rparr>
                    else t\<lparr>array_tag := TagNone\<rparr>
               else t)"

fun load_exceeds :: "('k, 'v) bucket_array \<Rightarrow> nat \<Rightarrow> nat \<Rightarrow> nat \<Rightarrow> nat list \<Rightarrow> bool" where
  "load_exceeds a index threshold n [] = False"
| "load_exceeds a index threshold n (i # is) =
     (let n = n + unat (num_entries (bucket_at a ((index + i) mod num_buckets a)))
      in n > threshold \<or> load_exceeds a index threshold n is)"

definition try_enlarge ::
  "btype \<Rightarrow> ('k, 'v) bucket_array \<Rightarrow> nat \<Rightarrow> nat \<Rightarrow> ('k, 'v) table \<Rightarrow> ('k, 'v) table" where
  "try_enlarge ty current index n t =
     (let threshold = sample_size current * (BUCKET_LEN div 8) * 7
      in if n > threshold \<or> load_exceeds current index threshold n [1..<sample_size current]
         then try_resize ty index t else t)"

text \<open>The sampling loop of \<^verbatim>\<open>try_shrink_or_rebuild\<close>: \<^term>\<open>None\<close> for an early return without resizing.\<close>

fun shrink_sample ::
  "btype \<Rightarrow> ('k, 'v) bucket_array \<Rightarrow> nat \<Rightarrow> nat \<Rightarrow> nat \<Rightarrow> nat list \<Rightarrow> bool option" where
  "shrink_sample ty a index n rebuilds [] =
     Some (ty \<noteq> OPTIMISTIC \<or> n < sample_size a * BUCKET_LEN div 16)"
| "shrink_sample ty a index n rebuilds (i # is) =
     (let sz = sample_size a;
          b = bucket_at a ((index + i) mod num_buckets a);
          n = n + unat (num_entries b)
      in if n \<ge> sz * BUCKET_LEN div 16 \<and> (ty \<noteq> OPTIMISTIC \<or> rebuilds + (sz - i) < sz div 2)
         then None
         else if ty = OPTIMISTIC \<and> need_rebuild ty b
         then if rebuilds \<ge> sz div 2 then Some True else shrink_sample ty a index n (rebuilds + 1) is
         else shrink_sample ty a index n rebuilds is)"

definition try_shrink_or_rebuild ::
  "btype \<Rightarrow> ('k, 'v) bucket_array \<Rightarrow> nat \<Rightarrow> ('k, 'v) table \<Rightarrow> ('k, 'v) table" where
  "try_shrink_or_rebuild ty current index t =
     (if ba_num_entries current > next_power_of_two (minimum_capacity t) mod 2 ^ 64 \<or> ty = OPTIMISTIC
      then if shrink_sample ty current index 0 0 [0..<sample_size current] = Some True
           then try_resize ty index t else t
      else t)"

definition reserve_capacity :: "btype \<Rightarrow> nat \<Rightarrow> ('k, 'v) table \<Rightarrow> nat \<times> ('k, 'v) table" where
  "reserve_capacity ty additional_capacity t =
     (if minimum_capacity t + additional_capacity > USIZE_MAX then (0, t)
      else (additional_capacity,
            try_resize ty 0 (t\<lparr>minimum_capacity := minimum_capacity t + additional_capacity\<rparr>)))"

section \<open>Entries\<close>

text \<open>Where the bucket of a locked entry is: an enlargement that \<^verbatim>\<open>reserve_entry\<close> triggers turns the
  array it works on into the old array.\<close>

datatype place = In_Current | In_Old

definition array_in :: "place \<Rightarrow> ('k, 'v) table \<Rightarrow> ('k, 'v) bucket_array option" where
  "array_in p t = (case p of In_Current \<Rightarrow> current_array t | In_Old \<Rightarrow> old_array t)"

definition put_bucket :: "place \<Rightarrow> nat \<Rightarrow> ('k, 'v) bucket \<Rightarrow> ('k, 'v) table \<Rightarrow> ('k, 'v) table" where
  "put_bucket p i b t =
     (case p of
        In_Current \<Rightarrow> t\<lparr>current_array := map_option (set_bucket i b) (current_array t)\<rparr>
      | In_Old \<Rightarrow> t\<lparr>old_array := map_option (set_bucket i b) (old_array t)\<rparr>)"

record locked_entry =
  entry_place :: place
  entry_index :: nat
  entry_pointer :: entry_ptr

text \<open>\<^verbatim>\<open>reserve_entry\<close>, at most \<open>fuel\<close> rounds of its loop.\<close>

fun reserve_entry ::
  "nat \<Rightarrow> btype \<Rightarrow> ('k \<Rightarrow> u64) \<Rightarrow> 'k \<Rightarrow> ('k, 'v) table \<Rightarrow> (locked_entry \<times> ('k, 'v) table) ht_result" where
  "reserve_entry fuel ty hash key t =
     (case fuel of 0 \<Rightarrow> Inl Loop_Fuel | Suc fuel \<Rightarrow>
      let h = hash key; t = get_current_array t
      in and_then
           (if old_array t \<noteq> None then and_then (move_entry ty hash h t) (\<lambda>(_, t). Inr (False, t))
            else Inr (True, t))
           (\<lambda>(resizable, t).
              case current_array t of
                None \<Rightarrow> reserve_entry fuel ty hash key t
              | Some current \<Rightarrow>
                  let index = calculate_bucket_index current h;
                      b = bucket_at current index;
                      t = (if resizable \<and> (ty \<noteq> CACHE \<or> ba_num_entries current < maximum_capacity t) \<and>
                              within_sampling_range current index \<and> unat (num_entries b) \<ge> BUCKET_LEN - 1
                           then try_enlarge ty current index (unat (num_entries b)) t else t)
                  in if current_array t = None \<or> killed b then reserve_entry fuel ty hash key t
                     else Inr (\<lparr>entry_place = (if resizable \<and> old_array t \<noteq> None then In_Old else In_Current),
                                entry_index = index,
                                entry_pointer = bucket_get ty b key (partial_hash h)\<rparr>, t)))"

declare reserve_entry.simps [simp del]

text \<open>\<^verbatim>\<open>insert_entry\<close>: the rejected pair if the key is present. Two rounds of the loop of
  \<^verbatim>\<open>reserve_entry\<close> are allowed; one is enough.\<close>

definition insert_entry ::
  "btype \<Rightarrow> ('k \<Rightarrow> u64) \<Rightarrow> 'k \<Rightarrow> 'v \<Rightarrow> ('k, 'v) table \<Rightarrow> (('k \<times> 'v) option \<times> ('k, 'v) table) ht_result" where
  "insert_entry ty hash key val t =
     and_then (reserve_entry 2 ty hash key t)
       (\<lambda>(e, t).
          if ep_is_valid (entry_pointer e) then Inr (Some (key, val), t)
          else case array_in (entry_place e) t of
                 None \<Rightarrow> Inl Loop_Fuel
               | Some a \<Rightarrow>
                   (case insert_with (bucket_at a (entry_index e)) (partial_hash (hash key)) (key, val) of
                      Inl p \<Rightarrow> Inl (Bucket_Panic p)
                    | Inr (_, b) \<Rightarrow> Inr (None, put_bucket (entry_place e) (entry_index e) b t)))"

definition read_entry ::
  "btype \<Rightarrow> ('k \<Rightarrow> u64) \<Rightarrow> 'k \<Rightarrow> ('k, 'v) table \<Rightarrow> (('k \<times> 'v) option \<times> ('k, 'v) table) ht_result" where
  "read_entry ty hash key t =
     (if current_array t = None then Inr (None, t)
      else
        let h = hash key
        in and_then
             (if old_array t \<noteq> None
              then if ty = OPTIMISTIC
                   then and_then (incremental_rehash ty hash t)
                          (\<lambda>(finished, t).
                             case old_array t of
                               Some old \<Rightarrow>
                                 if finished then Inr (None, t)
                                 else Inr (search ty (bucket_at old (calculate_bucket_index old h)) key (partial_hash h), t)
                             | None \<Rightarrow> Inr (None, t))
                   else and_then (move_entry ty hash h t) (\<lambda>(_, t). Inr (None, t))
              else Inr (None, t))
             (\<lambda>(found, t).
                case (found, current_array t) of
                  (None, Some current) \<Rightarrow>
                    let b = bucket_at current (calculate_bucket_index current h)
                    in Inr (if ty \<noteq> OPTIMISTIC \<and> killed b then None else search ty b key (partial_hash h), t)
                | _ \<Rightarrow> Inr (found, t)))"

definition get_entry ::
  "btype \<Rightarrow> ('k \<Rightarrow> u64) \<Rightarrow> 'k \<Rightarrow> ('k, 'v) table \<Rightarrow> (locked_entry option \<times> ('k, 'v) table) ht_result" where
  "get_entry ty hash key t =
     (if current_array t = None then Inr (None, t)
      else
        let h = hash key
        in and_then
             (if old_array t \<noteq> None then and_then (move_entry ty hash h t) (\<lambda>(_, t). Inr t) else Inr t)
             (\<lambda>t. case current_array t of
                    None \<Rightarrow> Inr (None, t)
                  | Some current \<Rightarrow>
                      let index = calculate_bucket_index current h;
                          b = bucket_at current index;
                          ep = bucket_get ty b key (partial_hash h)
                      in if killed b then Inr (None, t)
                         else if ep_is_valid ep
                         then Inr (Some \<lparr>entry_place = In_Current, entry_index = index, entry_pointer = ep\<rparr>, t)
                         else Inr (None, t)))"

text \<open>\<^verbatim>\<open>remove_entry\<close>: \<open>condition\<close> may change the value it is shown; the result is what the post-processor
  receives, that is whether an entry was removed and what \<^verbatim>\<open>erase\<close> returned. A killed bucket in the
  current array would repeat the loop.\<close>

definition remove_entry ::
  "btype \<Rightarrow> ('k \<Rightarrow> u64) \<Rightarrow> 'k \<Rightarrow> ('v \<Rightarrow> bool \<times> 'v) \<Rightarrow> ('k, 'v) table \<Rightarrow>
     (('k \<times> 'v) option option \<times> ('k, 'v) table) ht_result" where
  "remove_entry ty hash key condition t =
     (if current_array t = None then Inr (None, t)
      else
        let h = hash key
        in and_then
             (if old_array t \<noteq> None then move_entry ty hash h t else Inr (True, t))
             (\<lambda>(shrinkable, t).
                case current_array t of
                  None \<Rightarrow> Inr (None, t)
                | Some current \<Rightarrow>
                    let index = calculate_bucket_index current h;
                        b = bucket_at current index;
                        ep = bucket_get ty b key (partial_hash h)
                    in if killed b then Inl Loop_Fuel
                       else if \<not> ep_is_valid ep then Inr (None, t)
                       else case ep_get b ep of
                         None \<Rightarrow> Inl Uninitialized_Read
                       | Some (k, v) \<Rightarrow>
                           let (met, v) = condition v; b = ep_set b ep (k, v)
                           in if \<not> met then Inr (None, put_bucket In_Current index b t)
                              else
                                let (result, b) = erase ty b ep;
                                    t = put_bucket In_Current index b t;
                                    t = (if shrinkable \<and> (unat (num_entries b) \<le> 1 \<or> need_rebuild ty b) \<and>
                                            within_sampling_range current index
                                         then try_shrink_or_rebuild ty (set_bucket index b current) index t
                                         else t)
                                in Inr (Some result, t)))"

section \<open>Whole-table operations\<close>

text \<open>A loop \<^verbatim>\<open>while entry_ptr.next(..)\<close> over one bucket whose body may change the bucket at the
  pointer and reports whether it removed an entry.\<close>

fun while_next ::
  "nat \<Rightarrow> btype \<Rightarrow> (entry_ptr \<Rightarrow> ('k, 'v) bucket \<Rightarrow> (bool \<times> ('k, 'v) bucket) ht_result) \<Rightarrow> entry_ptr \<Rightarrow>
     bool \<times> ('k, 'v) bucket \<Rightarrow> (bool \<times> ('k, 'v) bucket) ht_result" where
  "while_next fuel ty body ep (removed, b) =
     (let (found, ep) = ep_next ty b ep
      in if \<not> found then Inr (removed, b)
         else case fuel of
                0 \<Rightarrow> Inl Loop_Fuel
              | Suc fuel \<Rightarrow>
                  and_then (body ep b) (\<lambda>(r, b). while_next fuel ty body ep (removed \<or> r, b)))"

declare while_next.simps [simp del]

definition retain_body ::
  "btype \<Rightarrow> ('k \<Rightarrow> 'v \<Rightarrow> bool \<times> 'v) \<Rightarrow> entry_ptr \<Rightarrow> ('k, 'v) bucket \<Rightarrow> (bool \<times> ('k, 'v) bucket) ht_result" where
  "retain_body ty pred ep b =
     (case ep_get b ep of
        None \<Rightarrow> Inl Uninitialized_Read
      | Some (k, v) \<Rightarrow>
          let (keep, v) = pred k v; b = ep_set b ep (k, v)
          in if \<not> keep then Inr (True, snd (erase ty b ep)) else Inr (False, b))"

definition prune_body ::
  "('k \<Rightarrow> 'v \<Rightarrow> 'v option) \<Rightarrow> entry_ptr \<Rightarrow> ('k, 'v) bucket \<Rightarrow> (bool \<times> ('k, 'v) bucket) ht_result" where
  "prune_body pred ep b = Inr (keep_or_consume b ep pred)"

fun for_buckets ::
  "btype \<Rightarrow> (entry_ptr \<Rightarrow> ('k, 'v) bucket \<Rightarrow> (bool \<times> ('k, 'v) bucket) ht_result) \<Rightarrow> nat list \<Rightarrow>
     bool \<times> ('k, 'v) bucket_array \<Rightarrow> (bool \<times> ('k, 'v) bucket_array) ht_result" where
  "for_buckets ty body [] (removed, a) = Inr (removed, a)"
| "for_buckets ty body (index # is) (removed, a) =
     (let b = bucket_at a index
      in if killed b then for_buckets ty body is (removed, a)
         else and_then (while_next (unat (num_entries b)) ty body ep_new (removed, b))
                (\<lambda>(removed, b). for_buckets ty body is (removed, set_bucket index b a)))"

text \<open>\<^verbatim>\<open>retain_entries\<close> and \<^verbatim>\<open>prune_entries\<close> differ in the body of the loop.\<close>

definition over_entries ::
  "btype \<Rightarrow> ('k \<Rightarrow> u64) \<Rightarrow> (entry_ptr \<Rightarrow> ('k, 'v) bucket \<Rightarrow> (bool \<times> ('k, 'v) bucket) ht_result) \<Rightarrow>
     ('k, 'v) table \<Rightarrow> ('k, 'v) table ht_result" where
  "over_entries ty hash body t =
     (if current_array t = None then Inr t
      else and_then (clear_old_array ty hash t)
        (\<lambda>t. case current_array t of
               None \<Rightarrow> Inr t
             | Some current \<Rightarrow>
                 and_then (for_buckets ty body [0..<num_buckets current] (False, current))
                   (\<lambda>(removed, current).
                      let t = t\<lparr>current_array := Some current\<rparr>
                      in Inr (if removed then try_resize ty 0 t else t))))"

definition retain_entries ::
  "btype \<Rightarrow> ('k \<Rightarrow> u64) \<Rightarrow> ('k \<Rightarrow> 'v \<Rightarrow> bool \<times> 'v) \<Rightarrow> ('k, 'v) table \<Rightarrow> ('k, 'v) table ht_result" where
  "retain_entries ty hash pred t = over_entries ty hash (retain_body ty pred) t"

definition prune_entries ::
  "btype \<Rightarrow> ('k \<Rightarrow> u64) \<Rightarrow> ('k \<Rightarrow> 'v \<Rightarrow> 'v option) \<Rightarrow> ('k, 'v) table \<Rightarrow> ('k, 'v) table ht_result" where
  "prune_entries ty hash pred t = over_entries ty hash (prune_body pred) t"

definition any_entry ::
  "btype \<Rightarrow> ('k \<Rightarrow> u64) \<Rightarrow> ('k \<Rightarrow> 'v \<Rightarrow> bool) \<Rightarrow> ('k, 'v) table \<Rightarrow> (bool \<times> ('k, 'v) table) ht_result" where
  "any_entry ty hash pred t =
     (if current_array t = None then Inr (False, t)
      else and_then (clear_old_array ty hash t)
        (\<lambda>t. case current_array t of
               None \<Rightarrow> Inr (False, t)
             | Some current \<Rightarrow>
                 Inr (list_ex (\<lambda>b. \<not> killed b \<and>
                        list_ex (\<lambda>ep. case ep_get b ep of Some (k, v) \<Rightarrow> pred k v | None \<Rightarrow> False)
                          (ep_visit ty b ep_new)) (buckets current), t)))"

text \<open>\<^verbatim>\<open>lock_first_entry\<close>.\<close>

fun first_entry :: "btype \<Rightarrow> ('k, 'v) bucket_array \<Rightarrow> nat list \<Rightarrow> locked_entry option" where
  "first_entry ty a [] = None"
| "first_entry ty a (index # is) =
     (let b = bucket_at a index; (found, ep) = ep_next ty b ep_new
      in if \<not> killed b \<and> found
         then Some \<lparr>entry_place = In_Current, entry_index = index, entry_pointer = ep\<rparr>
         else first_entry ty a is)"

definition lock_first_entry ::
  "btype \<Rightarrow> ('k \<Rightarrow> u64) \<Rightarrow> ('k, 'v) table \<Rightarrow> (locked_entry option \<times> ('k, 'v) table) ht_result" where
  "lock_first_entry ty hash t =
     (if current_array t = None then Inr (None, t)
      else and_then (clear_old_array ty hash t)
        (\<lambda>t. Inr (case current_array t of
                    None \<Rightarrow> None
                  | Some current \<Rightarrow> first_entry ty current [0..<num_buckets current], t)))"

definition count_entries :: "('k, 'v) bucket_array option \<Rightarrow> nat" where
  "count_entries a =
     (case a of None \<Rightarrow> 0
      | Some a \<Rightarrow> \<Sum>i\<leftarrow>[0..<num_buckets a]. unat (num_entries (bucket_at a i)))"

definition ht_num_entries :: "btype \<Rightarrow> ('k, 'v) table \<Rightarrow> nat \<times> ('k, 'v) table" where
  "ht_num_entries ty t =
     (if current_array t = None then (0, t)
      else let n = count_entries (old_array t) + count_entries (current_array t)
           in (n, if n = 0 \<and> minimum_capacity t = 0 then try_resize ty 0 t else t))"

definition has_entry :: "btype \<Rightarrow> ('k, 'v) table \<Rightarrow> bool \<times> ('k, 'v) table" where
  "has_entry ty t =
     (case current_array t of
        None \<Rightarrow> (False, t)
      | Some current \<Rightarrow>
          if (case old_array t of None \<Rightarrow> False | Some old \<Rightarrow> list_ex (\<lambda>b. num_entries b \<noteq> 0) (buckets old)) \<or>
             list_ex (\<lambda>b. num_entries b \<noteq> 0) (buckets current)
          then (True, t)
          else (False, if minimum_capacity t = 0 then try_resize ty 0 t else t))"

definition num_slots :: "('k, 'v) table \<Rightarrow> nat" where
  "num_slots t = (case current_array t of Some current \<Rightarrow> ba_num_entries current | None \<Rightarrow> 0)"

definition table_new :: "nat \<Rightarrow> nat \<Rightarrow> ('k, 'v) table" where
  "table_new capacity maximum =
     (if capacity = 0
      then \<lparr>current_array = None, old_array = None, array_tag = TagNone, minimum_capacity = 0,
            maximum_capacity = maximum\<rparr>
      else let a = ba_new capacity
           in \<lparr>current_array = Some a, old_array = None, array_tag = TagNone,
               minimum_capacity = ba_num_entries a, maximum_capacity = maximum\<rparr>)"

end
