(* ===== verification/Hash_Table_Spec.thy ===== *)
theory Hash_Table_Spec
  imports Hash_Table
begin

text \<open>
  The hash table refines a finite map: the map that a table stands for, the invariant of a table, and
  lemmas that relocation leaves the map unchanged and that every operation on entries acts on it as
  the corresponding operation on maps.
\<close>

section \<open>The map of an array\<close>

abbreviation ph_of :: "('k \<Rightarrow> u64) \<Rightarrow> 'k \<Rightarrow> u8" where
  "ph_of hash k \<equiv> partial_hash (hash k)"

definition array_map :: "btype \<Rightarrow> ('k \<Rightarrow> u64) \<Rightarrow> ('k, 'v) bucket_array \<Rightarrow> 'k \<rightharpoonup> 'v" where
  "array_map ty hash a k = bucket_map ty (bucket_at a (calculate_bucket_index a (hash k))) k"

definition array_ok :: "btype \<Rightarrow> ('k \<Rightarrow> u64) \<Rightarrow> ('k, 'v) bucket_array \<Rightarrow> bool" where
  "array_ok ty hash a \<longleftrightarrow>
     (\<exists>n. array_shape n a) \<and>
     (\<forall>i<num_buckets a. bucket_ok ty (ph_of hash) (bucket_at a i) \<and>
        (\<forall>k\<in>dom (bucket_map ty (bucket_at a i)). calculate_bucket_index a (hash k) = i))"

lemma array_okD:
  assumes "array_ok ty hash a"
  shows "\<exists>n. array_shape n a" "i < num_buckets a \<Longrightarrow> bucket_ok ty (ph_of hash) (bucket_at a i)"
    "i < num_buckets a \<Longrightarrow> bucket_map ty (bucket_at a i) k = Some v \<Longrightarrow> calculate_bucket_index a (hash k) = i"
    "calculate_bucket_index a h < num_buckets a"
proof -
  show s: "\<exists>n. array_shape n a" using assms by (simp add: array_ok_def)
  then show "calculate_bucket_index a h < num_buckets a" using bucket_index_less by blast
  show "i < num_buckets a \<Longrightarrow> bucket_ok ty (ph_of hash) (bucket_at a i)"
    "i < num_buckets a \<Longrightarrow> bucket_map ty (bucket_at a i) k = Some v \<Longrightarrow> calculate_bucket_index a (hash k) = i"
    using assms by (auto simp: array_ok_def)
qed

lemma set_bucket_simps [simp]:
  "num_buckets (set_bucket i b a) = num_buckets a"
  "calculate_bucket_index (set_bucket i b a) = calculate_bucket_index a"
  "i < num_buckets a \<Longrightarrow> bucket_at (set_bucket i b a) j = (if j = i then b else bucket_at a j)"
  "num_cleared_buckets (set_bucket i b a) = num_cleared_buckets a"
  "sample_size (set_bucket i b a) = sample_size a"
  "ba_num_entries (set_bucket i b a) = ba_num_entries a"
  by (simp_all add: set_bucket_def num_buckets_def calculate_bucket_index_def bucket_at_def nth_list_update
      fun_eq_iff ba_num_entries_def)

lemma array_map_bucket:
  assumes "array_ok ty hash a" "i < num_buckets a"
  shows "bucket_map ty (bucket_at a i) k = (if calculate_bucket_index a (hash k) = i then array_map ty hash a k else None)"
  using array_okD(3) [OF assms(1,2), of k] by (cases "bucket_map ty (bucket_at a i) k") (auto simp: array_map_def)

lemma array_map_set_bucket:
  "i < num_buckets a \<Longrightarrow>
   array_map ty hash (set_bucket i b a) k =
     (if calculate_bucket_index a (hash k) = i then bucket_map ty b k else array_map ty hash a k)"
  by (simp add: array_map_def)

lemma array_ok_set_bucket:
  assumes "array_ok ty hash a" "i < num_buckets a" "bucket_ok ty (ph_of hash) b"
    and "\<And>k v. bucket_map ty b k = Some v \<Longrightarrow> calculate_bucket_index a (hash k) = i"
  shows "array_ok ty hash (set_bucket i b a)"
  using assms by (auto simp: array_ok_def)

text \<open>Replacing a bucket by one whose map differs at one key that belongs there.\<close>

lemma array_update:
  assumes ok: "array_ok ty hash a" and b: "bucket_ok ty (ph_of hash) b"
    and m: "bucket_map ty b = (bucket_map ty (bucket_at a (calculate_bucket_index a (hash k))))(k := x)"
  shows "array_ok ty hash (set_bucket (calculate_bucket_index a (hash k)) b a)"
    "array_map ty hash (set_bucket (calculate_bucket_index a (hash k)) b a) = (array_map ty hash a)(k := x)"
proof -
  let ?i = "calculate_bucket_index a (hash k)"
  note i = array_okD(4) [OF ok, of "hash k"]
  show "array_ok ty hash (set_bucket ?i b a)"
    using array_okD(3) [OF ok i] m by (intro array_ok_set_bucket [OF ok i b]) (auto split: if_splits)
  show "array_map ty hash (set_bucket ?i b a) = (array_map ty hash a)(k := x)"
    using array_map_set_bucket [OF i] m by (auto simp: fun_eq_iff array_map_def)
qed

lemma bucket_of_key:
  assumes "array_ok ty hash a"
  shows "bucket_ok ty (ph_of hash) (bucket_at a (calculate_bucket_index a (hash k)))"
    "bucket_map ty (bucket_at a (calculate_bucket_index a (hash k))) k = array_map ty hash a k"
  using array_okD(2,4) [OF assms] by (simp_all add: array_map_def)

text \<open>A new array is empty.\<close>

lemma ba_new_ok:
  fixes hash :: "'k \<Rightarrow> u64"
  shows "array_ok ty hash (ba_new capacity :: ('k, 'v) bucket_array)"
    "array_map ty hash (ba_new capacity :: ('k, 'v) bucket_array) = Map.empty"
proof -
  have b: "bucket_at (ba_new capacity :: ('k, 'v) bucket_array) i = bucket_new"
    if "i < num_buckets (ba_new capacity :: ('k, 'v) bucket_array)" for i
    using that by (simp add: bucket_at_def ba_new_def num_buckets_def Let_def)
  have s: "\<exists>n. array_shape n (ba_new capacity :: ('k, 'v) bucket_array)" using ba_new_shape by blast
  then show "array_ok ty hash (ba_new capacity :: ('k, 'v) bucket_array)"
    by (simp add: array_ok_def b bucket_new_ok)
  show "array_map ty hash (ba_new capacity :: ('k, 'v) bucket_array) = Map.empty"
    by (simp add: fun_eq_iff array_map_def b [OF bucket_index_less [OF ba_new_shape]] bucket_new_ok(2))
qed

text \<open>The entry counter of a bucket cannot overflow as long as the table has fewer than
  \<open>2 ^ 32 - 1\<close> entries.\<close>

definition roomy :: "('k \<rightharpoonup> 'v) \<Rightarrow> bool" where
  "roomy m \<longleftrightarrow> finite (dom m) \<and> card (dom m) < 2 ^ 32 - 1"

lemma bucket_card:
  assumes "bucket_ok ty ph b"
  shows "unat (num_entries b) = card (dom (bucket_map ty b))" "finite (dom (bucket_map ty b))"
proof -
  have "dom (bucket_map ty b) = fst ` set (bucket_entries ty b)" by (simp add: bucket_map_def dom_map_of_conv_image_fst)
  moreover have "card (fst ` set (bucket_entries ty b)) = length (bucket_entries ty b)"
    using bucket_okD(4) [OF assms] by (metis distinct_card length_map list.set_map)
  ultimately show "unat (num_entries b) = card (dom (bucket_map ty b))" "finite (dom (bucket_map ty b))"
    using bucket_okD(3) [OF assms] by simp_all
qed

lemma roomy_bucket:
  assumes "roomy m" "bucket_ok ty ph b" "dom (bucket_map ty b) \<subseteq> dom m"
  shows "num_entries b \<noteq> - 1"
proof
  assume "num_entries b = - 1"
  moreover have "unat (- 1 :: u32) = 2 ^ 32 - 1" by (simp add: unsigned_minus_1_eq_mask mask_eq_exp_minus_1)
  ultimately have "card (dom (bucket_map ty b)) = 2 ^ 32 - 1" using bucket_card(1) [OF assms(2)] by simp
  moreover have "card (dom (bucket_map ty b)) \<le> card (dom m)"
    using assms(1,3) by (intro card_mono) (simp_all add: roomy_def)
  ultimately show False using assms(1) by (simp add: roomy_def)
qed

section \<open>Relocation\<close>

lemma lock_targets_ok:
  "d < 32 \<Longrightarrow> max_index \<le> 32 \<Longrightarrow> \<exists>m\<le>32. lock_targets max_index d = Some m"
proof (induction max_index d rule: lock_targets.induct)
  case (1 max_index d)
  show ?case
  proof (cases "max_index \<le> d")
    case True
    then show ?thesis using 1 by (subst lock_targets.simps) simp
  next
    case False
    then show ?thesis using 1 by (subst lock_targets.simps) simp
  qed
qed

lemma lock_targets_out_of_bounds: "32 \<le> d \<Longrightarrow> max_index \<le> 32 \<Longrightarrow> lock_targets max_index d = None"
proof (induction max_index d rule: lock_targets.induct)
  case (1 max_index d)
  then show ?case by (subst lock_targets.simps) simp
qed

text \<open>The size of the current array is at most 32 times that of the old one.\<close>

definition ratio_ok :: "('k, 'v) bucket_array \<Rightarrow> ('k, 'v) bucket_array \<Rightarrow> bool" where
  "ratio_ok current old \<longleftrightarrow> num_buckets current \<le> 32 * num_buckets old"

lemma relocation_of_ok:
  assumes cur: "\<exists>n. array_shape n current" and old: "\<exists>n. array_shape n old" and r: "ratio_ok current old"
    and ok: "bucket_ok ty (ph_of hash) b" and pt: "points_to ty b ep (k, v)"
    and i: "calculate_bucket_index old (hash k) = old_index"
  shows "relocation_of hash current old (target_of current old old_index) b ep k =
      (calculate_bucket_index current (hash k), ph_of hash k)"
    "calculate_bucket_index current (hash k) - target_of current old old_index < 32"
proof -
  obtain n m where s: "array_shape n old" "array_shape m current" using cur old by blast
  note rr = relocation_range [OF s, of "hash k", unfolded i]
  have "ep_partial_hash b ep = ph_of hash k"
    using block_okD(5) [OF points_toD(4,2,3) [OF ok pt]] by (simp add: ep_partial_hash_def)
  then show "relocation_of hash current old (target_of current old old_index) b ep k =
      (calculate_bucket_index current (hash k), ph_of hash k)"
    using rr by (auto simp: relocation_of_def target_of_def split: if_splits)
  have "num_buckets current div num_buckets old \<le> 32"
    using r s(1) by (simp add: ratio_ok_def array_shape_def div_le_mono less_mult_imp_div_less
        div_le_dividend) (metis div_le_mono nonzero_mult_div_cancel_right power_eq_0_iff zero_neq_numeral)
  then show "calculate_bucket_index current (hash k) - target_of current old old_index < 32"
    using rr by (auto simp: target_of_def split: if_splits)
qed

text \<open>What moving entries does not change of an array.\<close>

definition same_frame :: "('k, 'v) bucket_array \<Rightarrow> ('k, 'v) bucket_array \<Rightarrow> bool" where
  "same_frame a a' \<longleftrightarrow>
     hash_offset a' = hash_offset a \<and> sample_size a' = sample_size a \<and>
     num_cleared_buckets a' = num_cleared_buckets a \<and> map killed (buckets a') = map killed (buckets a)"

lemma same_frame_refl [simp]: "same_frame a a"
  by (simp add: same_frame_def)

lemma same_frame_trans: "same_frame a b \<Longrightarrow> same_frame b c \<Longrightarrow> same_frame a c"
  by (simp add: same_frame_def)

lemma same_frameD:
  assumes "same_frame a a'"
  shows "num_buckets a' = num_buckets a" "calculate_bucket_index a' = calculate_bucket_index a"
    "num_cleared_buckets a' = num_cleared_buckets a" "array_shape n a' = array_shape n a"
    "i < num_buckets a \<Longrightarrow> killed (bucket_at a' i) = killed (bucket_at a i)"
    "ba_num_entries a' = ba_num_entries a"
proof -
  have l: "length (buckets a') = length (buckets a)" using assms by (metis length_map same_frame_def)
  then show "num_buckets a' = num_buckets a" by (simp add: num_buckets_def)
  then show "calculate_bucket_index a' = calculate_bucket_index a" "num_cleared_buckets a' = num_cleared_buckets a"
    "array_shape n a' = array_shape n a" "ba_num_entries a' = ba_num_entries a"
    using assms by (simp_all add: same_frame_def calculate_bucket_index_def fun_eq_iff array_shape_def ba_num_entries_def)
  show "i < num_buckets a \<Longrightarrow> killed (bucket_at a' i) = killed (bucket_at a i)"
    using assms l by (metis bucket_at_def nth_map num_buckets_def same_frame_def)
qed

lemma same_frame_set_bucket:
  "i < num_buckets a \<Longrightarrow> killed b = killed (bucket_at a i) \<Longrightarrow> same_frame a (set_bucket i b a)"
  by (simp add: same_frame_def set_bucket_def bucket_at_def num_buckets_def map_update) (metis list_update_id nth_map)

lemma insert_with_state: "insert_with b p e = Inr (ep, b') \<Longrightarrow> state b' = state b"
  by (auto simp: insert_with_def Let_def split: if_splits option.splits)

text \<open>One round: the entry leaves the old bucket, and the entries ahead stay.\<close>

definition moved_out :: "btype \<Rightarrow> ('k, 'v) bucket \<Rightarrow> entry_ptr \<Rightarrow> ('k, 'v) bucket \<times> entry_ptr" where
  "moved_out ty b p = (if ty = OPTIMISTIC then (snd (erase ty b p), p) else snd (bucket_extract b p))"

lemma moved_out_ok:
  assumes ok: "bucket_ok ty ph b" and pt: "points_to ty b p e"
  shows "bucket_ok ty ph (fst (moved_out ty b p))"
    "bucket_map ty (fst (moved_out ty b p)) = (bucket_map ty b)(fst e := None)"
    "map (ep_get (fst (moved_out ty b p))) (ahead ty (fst (moved_out ty b p)) (snd (moved_out ty b p))) =
       map (ep_get b) (ahead ty b p)"
    "ep_in (fst (moved_out ty b p)) (snd (moved_out ty b p))"
proof -
  note p = points_toD [OF ok pt]
  have "bucket_ok ty ph (fst (moved_out ty b p)) \<and>
    bucket_map ty (fst (moved_out ty b p)) = (bucket_map ty b)(fst e := None) \<and>
    map (ep_get (fst (moved_out ty b p))) (ahead ty (fst (moved_out ty b p)) (snd (moved_out ty b p))) =
       map (ep_get b) (ahead ty b p) \<and> ep_in (fst (moved_out ty b p)) (snd (moved_out ty b p))"
  proof (cases "ty = OPTIMISTIC")
    case True
    note l = later_same_ahead [OF later_erase [OF p(1), of ty] p(1,2)]
    show ?thesis using True erase_ok [OF ok pt] l by (simp add: moved_out_def)
  next
    case False
    then show ?thesis using extract_ok [OF ok False pt] extract_ahead [OF p(1,2) False] by (simp add: moved_out_def)
  qed
  then show "bucket_ok ty ph (fst (moved_out ty b p))"
    "bucket_map ty (fst (moved_out ty b p)) = (bucket_map ty b)(fst e := None)"
    "map (ep_get (fst (moved_out ty b p))) (ahead ty (fst (moved_out ty b p)) (snd (moved_out ty b p))) =
       map (ep_get b) (ahead ty b p)"
    "ep_in (fst (moved_out ty b p)) (snd (moved_out ty b p))" by blast+
qed

lemma relocate_loop_end:
  "ep_in b ep \<Longrightarrow> ahead ty b ep = [] \<Longrightarrow> relocate_loop fuel ty hash old ti mi ep b current = Inr (b, current)"
  using ep_next_ahead(1) [of b ep ty] by (subst relocate_loop.simps) simp

lemma relocate_loop_step:
  assumes "ep_in b ep" "ahead ty b ep = p # ps" "ep_get b p = Some e"
    and "relocation_of hash current old ti b p (fst e) = (ni, ph)"
    and "lock_targets mi (ni - ti) = Some mi'" "insert_with (bucket_at current ni) ph e = Inr (tp, tb)"
  shows "relocate_loop (Suc fuel) ty hash old ti mi ep b current =
    relocate_loop fuel ty hash old ti mi' (snd (moved_out ty b p)) (fst (moved_out ty b p)) (set_bucket ni tb current)"
  using ep_next_ahead(1) [OF assms(1), of ty] assms(2-)
  by (subst relocate_loop.simps) (simp add: moved_out_def split_def Let_def)

lemma relocate_loop_ok:
  fixes hash :: "'k \<Rightarrow> u64" and b :: "('k, 'v) bucket"
  assumes "\<exists>n. array_shape n old" "ratio_ok current old" "array_ok ty hash current" "bucket_ok ty (ph_of hash) b"
    and "\<And>k v. bucket_map ty b k = Some v \<Longrightarrow> calculate_bucket_index old (hash k) = oi"
    and "dom (array_map ty hash current) \<inter> dom (bucket_map ty b) = {}"
    and "roomy (array_map ty hash current ++ bucket_map ty b)"
    and "ep_in b ep" "map (ep_get b) (ahead ty b ep) = map Some es" "distinct (map fst es)" "map_of es = bucket_map ty b"
    and "length es \<le> fuel" "mi \<le> 32"
  shows "\<exists>b' current'.
    relocate_loop fuel ty hash old (target_of current old oi) mi ep b current = Inr (b', current') \<and>
    bucket_ok ty (ph_of hash) b' \<and> bucket_map ty b' = Map.empty \<and> array_ok ty hash current' \<and>
    array_map ty hash current' = array_map ty hash current ++ bucket_map ty b \<and> same_frame current current'"
  using assms(2-)
proof (induction es arbitrary: b current ep mi fuel)
  case Nil
  then have "bucket_map ty b = Map.empty" by simp
  then show ?case using Nil relocate_loop_end [of b ep ty] by simp
next
  case (Cons e es)
  obtain k v where e: "e = (k, v)" by (cases e)
  obtain p ps where a: "ahead ty b ep = p # ps" and gp: "ep_get b p = Some e"
    and gps: "map (ep_get b) ps = map Some es" using Cons.prems(8) by auto
  obtain fuel' where fuel: "fuel = Suc fuel'" "length es \<le> fuel'" using Cons.prems(11) by (cases fuel) auto
  note ok = Cons.prems(3) and cur = Cons.prems(2) and disj = Cons.prems(5)
  obtain e' where pt': "points_to ty b p e'" "ep_get b p = Some e'"
    using ahead_points_to [OF ok Cons.prems(7), of p] a by auto
  then have pt: "points_to ty b p (k, v)" using gp e by simp
  have kv: "bucket_map ty b k = Some v" using points_to_entry(2) [OF ok pt] by simp
  let ?i = "calculate_bucket_index current (hash k)" and ?ti = "target_of current old oi"
  note rel = relocation_of_ok [OF array_okD(1) [OF cur] assms(1) Cons.prems(1) ok pt Cons.prems(4) [OF kv]]
  obtain mi' where mi': "lock_targets mi (?i - ?ti) = Some mi'" "mi' \<le> 32"
    using lock_targets_ok [OF rel(2) Cons.prems(12)] by blast
  note bk = bucket_of_key [OF cur, of k]
  have new: "bucket_map ty (bucket_at current ?i) (fst e) = None" using disj kv bk(2) e by auto
  have sub: "dom (bucket_map ty (bucket_at current ?i)) \<subseteq> dom (array_map ty hash current ++ bucket_map ty b)"
    using array_map_bucket [OF cur array_okD(4) [OF cur]] by (auto split: if_splits)
  obtain tp tb where ins: "insert_with (bucket_at current ?i) (ph_of hash (fst e)) e = Inr (tp, tb)"
    "bucket_ok ty (ph_of hash) tb" "bucket_map ty tb = (bucket_map ty (bucket_at current ?i))(fst e \<mapsto> snd e)"
    by (rule insert_with_ok [OF bk(1) new roomy_bucket [OF Cons.prems(6) bk(1) sub]])
  let ?c = "set_bucket ?i tb current" and ?b = "fst (moved_out ty b p)" and ?p = "snd (moved_out ty b p)"
  have m: "bucket_map ty tb = (bucket_map ty (bucket_at current ?i))(k \<mapsto> v)" using ins(3) e by simp
  note c = array_update [OF cur ins(2) m]
  note mo = moved_out_ok [OF ok pt]
  have frame: "same_frame current ?c"
    using insert_with_state [OF ins(1)] array_okD(4) [OF cur] by (intro same_frame_set_bucket) (simp_all add: killed_def)
  have step: "relocate_loop fuel ty hash old ?ti mi ep b current =
      relocate_loop fuel' ty hash old ?ti mi' ?p ?b ?c"
    using relocate_loop_step [OF Cons.prems(7) a gp _ mi'(1)] rel(1) ins(1) e by (simp add: fuel(1))
  have same: "array_map ty hash ?c ++ bucket_map ty ?b = array_map ty hash current ++ bucket_map ty b"
    using c(2) mo(2) kv by (auto simp: fun_eq_iff map_add_def split: option.splits)
  have "\<exists>b' current'. relocate_loop fuel' ty hash old (target_of ?c old oi) mi' ?p ?b ?c = Inr (b', current') \<and>
      bucket_ok ty (ph_of hash) b' \<and> bucket_map ty b' = Map.empty \<and> array_ok ty hash current' \<and>
      array_map ty hash current' = array_map ty hash ?c ++ bucket_map ty ?b \<and> same_frame ?c current'"
  proof (rule Cons.IH)
    show "ratio_ok ?c old" using Cons.prems(1) by (simp add: ratio_ok_def)
    show "array_ok ty hash ?c" by (rule c(1))
    show "bucket_ok ty (ph_of hash) ?b" by (rule mo(1))
    show "calculate_bucket_index old (hash k') = oi" if "bucket_map ty ?b k' = Some v'" for k' v'
      using that mo(2) Cons.prems(4) by (simp split: if_splits)
    show "dom (array_map ty hash ?c) \<inter> dom (bucket_map ty ?b) = {}"
      using c(2) mo(2) disj by auto
    show "roomy (array_map ty hash ?c ++ bucket_map ty ?b)" unfolding same by (rule Cons.prems(6))
    show "ep_in ?b ?p" by (rule mo(4))
    show "map (ep_get ?b) (ahead ty ?b ?p) = map Some es"
      using mo(3) ep_next_ahead(2) [OF Cons.prems(7) a] gps by simp
    show "distinct (map fst es)" using Cons.prems(9) by simp
    have "map_of es k = None" using Cons.prems(9) e by (simp add: map_of_eq_None_iff)
    then show "map_of es = bucket_map ty ?b"
      unfolding mo(2) Cons.prems(10) [symmetric] using e by (simp add: fun_eq_iff)
    show "length es \<le> fuel'" "mi' \<le> 32" by (rule fuel(2)) (rule mi'(2))
  qed
  moreover have "target_of ?c old oi = ?ti" by (simp add: target_of_def)
  ultimately show ?case using step same same_frame_trans [OF frame] by auto
qed

section \<open>The old and the current array\<close>

definition pair_map :: "btype \<Rightarrow> ('k \<Rightarrow> u64) \<Rightarrow> ('k, 'v) bucket_array \<times> ('k, 'v) bucket_array \<Rightarrow> 'k \<rightharpoonup> 'v" where
  "pair_map ty hash arrays = array_map ty hash (snd arrays) ++ array_map ty hash (fst arrays)"

definition pair_ok :: "btype \<Rightarrow> ('k \<Rightarrow> u64) \<Rightarrow> ('k, 'v) bucket_array \<times> ('k, 'v) bucket_array \<Rightarrow> bool" where
  "pair_ok ty hash arrays \<longleftrightarrow>
     array_ok ty hash (fst arrays) \<and> array_ok ty hash (snd arrays) \<and> ratio_ok (snd arrays) (fst arrays) \<and>
     dom (array_map ty hash (snd arrays)) \<inter> dom (array_map ty hash (fst arrays)) = {} \<and>
     (\<forall>i<num_buckets (snd arrays). \<not> killed (bucket_at (snd arrays) i)) \<and>
     (\<forall>i<num_buckets (fst arrays). killed (bucket_at (fst arrays) i) \<longrightarrow> bucket_map ty (bucket_at (fst arrays) i) = Map.empty)"

text \<open>Relocation keeps the frame of both arrays; killed buckets of the old one stay killed.\<close>

definition pair_frame ::
  "('k, 'v) bucket_array \<times> ('k, 'v) bucket_array \<Rightarrow> ('k, 'v) bucket_array \<times> ('k, 'v) bucket_array \<Rightarrow> bool" where
  "pair_frame x y \<longleftrightarrow> same_frame (snd x) (snd y) \<and>
     hash_offset (fst y) = hash_offset (fst x) \<and> num_buckets (fst y) = num_buckets (fst x) \<and>
     num_cleared_buckets (fst y) = num_cleared_buckets (fst x) \<and>
     (\<forall>i<num_buckets (fst x). killed (bucket_at (fst x) i) \<longrightarrow> killed (bucket_at (fst y) i))"

lemma pair_frame_refl [simp]: "pair_frame x x"
  by (simp add: pair_frame_def)

lemma pair_frame_trans: "pair_frame x y \<Longrightarrow> pair_frame y z \<Longrightarrow> pair_frame x z"
  by (auto simp: pair_frame_def intro: same_frame_trans)

lemma roomy_mono: "roomy m \<Longrightarrow> dom m' \<subseteq> dom m \<Longrightarrow> roomy m'"
  unfolding roomy_def using card_mono finite_subset by (metis order_le_less_trans)

lemma map_of_empty_iff: "map_of xs = Map.empty \<longleftrightarrow> xs = []"
  by (cases xs) (auto simp: fun_eq_iff)

lemma relocate_bucket_ok:
  assumes ok: "pair_ok ty hash (old, current)" and i: "i < num_buckets old" and room: "roomy (pair_map ty hash (old, current))"
  obtains arrays where "relocate_bucket ty hash i (old, current) = Inr arrays" "pair_ok ty hash arrays"
    "pair_map ty hash arrays = pair_map ty hash (old, current)" "pair_frame (old, current) arrays"
    "killed (bucket_at (fst arrays) i)"
proof -
  let ?b = "bucket_at old i"
  have o: "array_ok ty hash old" and c: "array_ok ty hash current" and r: "ratio_ok current old"
    and disj: "dom (array_map ty hash current) \<inter> dom (array_map ty hash old) = {}"
    using ok by (simp_all add: pair_ok_def)
  note b = array_okD(2) [OF o i]
  have bm: "bucket_map ty ?b k = (if calculate_bucket_index old (hash k) = i then array_map ty hash old k else None)" for k
    by (rule array_map_bucket [OF o i])
  have "\<exists>b' current'.
      (if num_entries ?b \<noteq> 0
       then relocate_loop (unat (num_entries ?b)) ty hash old (target_of current old i) 0 ep_new ?b current
       else Inr (?b, current)) = Inr (b', current') \<and>
      bucket_ok ty (ph_of hash) b' \<and> bucket_map ty b' = Map.empty \<and> array_ok ty hash current' \<and>
      array_map ty hash current' = array_map ty hash current ++ bucket_map ty ?b \<and> same_frame current current'"
  proof (cases "num_entries ?b = 0")
    case True
    then show ?thesis using b c empty_bucket_map [OF b] by simp
  next
    case False
    have sub: "dom (bucket_map ty ?b) \<subseteq> dom (array_map ty hash old)" using bm by (auto split: if_splits)
    have "\<exists>b' current'.
      relocate_loop (unat (num_entries ?b)) ty hash old (target_of current old i) 0 ep_new ?b current = Inr (b', current') \<and>
      bucket_ok ty (ph_of hash) b' \<and> bucket_map ty b' = Map.empty \<and> array_ok ty hash current' \<and>
      array_map ty hash current' = array_map ty hash current ++ bucket_map ty ?b \<and> same_frame current current'"
    proof (rule relocate_loop_ok [OF array_okD(1) [OF o] r c b])
      show "calculate_bucket_index old (hash k) = i" if "bucket_map ty ?b k = Some v" for k v
        by (rule array_okD(3) [OF o i that])
      show "dom (array_map ty hash current) \<inter> dom (bucket_map ty ?b) = {}" using disj sub by blast
      show "roomy (array_map ty hash current ++ bucket_map ty ?b)"
        using sub by (intro roomy_mono [OF room]) (auto simp: pair_map_def)
      show "ep_in ?b ep_new" by (simp add: ep_in_def ep_new_def)
      show "map (ep_get ?b) (ahead ty ?b ep_new) = map Some (bucket_entries ty ?b)" by (rule ahead_new_entries [OF b])
      show "distinct (map fst (bucket_entries ty ?b))" by (rule bucket_okD(4) [OF b])
      show "map_of (bucket_entries ty ?b) = bucket_map ty ?b" by (simp add: bucket_map_def)
      show "length (bucket_entries ty ?b) \<le> unat (num_entries ?b)" using bucket_okD(3) [OF b] by simp
    qed simp
    then show ?thesis using False by simp
  qed
  then obtain b' current' where l:
    "(if num_entries ?b \<noteq> 0
      then relocate_loop (unat (num_entries ?b)) ty hash old (target_of current old i) 0 ep_new ?b current
      else Inr (?b, current)) = Inr (b', current')"
    and b': "bucket_ok ty (ph_of hash) b'" "bucket_map ty b' = Map.empty" and c': "array_ok ty hash current'"
    and m': "array_map ty hash current' = array_map ty hash current ++ bucket_map ty ?b"
    and f': "same_frame current current'" by blast
  have "bucket_entries ty b' = []" using b'(2) by (simp add: bucket_map_def map_of_empty_iff)
  note k = kill_ok [OF b'(1) disjI2 [OF this]]
  let ?old = "set_bucket i (kill ty b') old"
  have ro: "relocate_bucket ty hash i (old, current) = Inr (?old, current')"
    unfolding relocate_bucket_def by (simp add: l)
  have om: "array_map ty hash ?old x = (if calculate_bucket_index old (hash x) = i then None else array_map ty hash old x)" for x
    using array_map_set_bucket [OF i] k(2) by simp
  have ook: "array_ok ty hash ?old" using k(1,2) by (intro array_ok_set_bucket [OF o i]) simp_all
  have map_eq: "pair_map ty hash (?old, current') = pair_map ty hash (old, current)"
    unfolding pair_map_def using om m' bm by (auto simp: fun_eq_iff map_add_def split: option.splits)
  have d: "dom (array_map ty hash current') \<inter> dom (array_map ty hash ?old) = {}"
  proof -
    have "array_map ty hash current' x = None \<or> array_map ty hash ?old x = None" for x
      using disjoint_iff [THEN iffD1, OF disj] om [of x] bm [of x]
      by (cases "array_map ty hash current x") (auto simp: m' map_add_def domIff split: option.splits)
    then show ?thesis unfolding disjoint_iff domIff by metis
  qed
  have fr: "pair_frame (old, current) (?old, current')" using f' i k(3) by (simp add: pair_frame_def set_bucket_def)
      (simp add: num_buckets_def bucket_at_def nth_list_update)
  have "pair_ok ty hash (?old, current')"
    using ok ook c' d r k(2) same_frameD [OF f'] i by (auto simp: pair_ok_def ratio_ok_def)
  then show thesis using that [OF ro] map_eq fr k(3) i by simp
qed

lemma rehash_range_ok:
  assumes "pair_ok ty hash arrays" "roomy (pair_map ty hash arrays)" "\<forall>i\<in>set is. i < num_buckets (fst arrays)"
  shows "\<exists>arrays'. rehash_range ty hash is arrays = Inr arrays' \<and> pair_ok ty hash arrays' \<and>
    pair_map ty hash arrays' = pair_map ty hash arrays \<and> pair_frame arrays arrays' \<and>
    (\<forall>i\<in>set is. killed (bucket_at (fst arrays') i))"
  using assms
proof (induction "is" arbitrary: arrays)
  case Nil
  then show ?case by simp
next
  case (Cons i "is")
  have i: "i < num_buckets (fst arrays)" using Cons.prems(3) by simp
  have "\<exists>a'. (if killed (bucket_at (fst arrays) i) then Inr arrays else relocate_bucket ty hash i arrays) = Inr a' \<and>
      pair_ok ty hash a' \<and> pair_map ty hash a' = pair_map ty hash arrays \<and> pair_frame arrays a' \<and>
      killed (bucket_at (fst a') i)"
  proof (cases "killed (bucket_at (fst arrays) i)")
    case True
    then show ?thesis using Cons.prems(1) by simp
  next
    case False
    then show ?thesis
      using relocate_bucket_ok [of ty hash "fst arrays" "snd arrays" i] Cons.prems(1,2) i
      by (metis prod.collapse)
  qed
  then obtain a' where a': "(if killed (bucket_at (fst arrays) i) then Inr arrays else relocate_bucket ty hash i arrays) = Inr a'"
    "pair_ok ty hash a'" "pair_map ty hash a' = pair_map ty hash arrays" "pair_frame arrays a'" "killed (bucket_at (fst a') i)"
    by blast
  have n: "num_buckets (fst a') = num_buckets (fst arrays)" using a'(4) by (simp add: pair_frame_def)
  obtain a'' where a'': "rehash_range ty hash is a' = Inr a''" "pair_ok ty hash a''"
    "pair_map ty hash a'' = pair_map ty hash a'" "pair_frame a' a''" "\<forall>i\<in>set is. killed (bucket_at (fst a'') i)"
    using Cons.IH [OF a'(2)] a'(3) Cons.prems(2,3) n by auto
  have "killed (bucket_at (fst a'') i)" using a''(4) a'(5) i n by (simp add: pair_frame_def)
  then show ?case
    using a' a'' pair_frame_trans [OF a'(4) a''(4)] by auto
qed

section \<open>The map and the invariant of a table\<close>

definition table_map :: "btype \<Rightarrow> ('k \<Rightarrow> u64) \<Rightarrow> ('k, 'v) table \<Rightarrow> 'k \<rightharpoonup> 'v" where
  "table_map ty hash t =
     (case current_array t of
        None \<Rightarrow> Map.empty
      | Some c \<Rightarrow> (case old_array t of None \<Rightarrow> array_map ty hash c | Some old \<Rightarrow> pair_map ty hash (old, c)))"

definition rehash_ok :: "('k, 'v) bucket_array \<Rightarrow> bool" where
  "rehash_ok old \<longleftrightarrow> num_cleared_buckets old mod BUCKET_LEN = 0 \<and> num_cleared_buckets old < num_buckets old \<and>
     (\<forall>i<num_cleared_buckets old. killed (bucket_at old i))"

definition capacity_ok :: "('k, 'v) table \<Rightarrow> bool" where
  "capacity_ok t \<longleftrightarrow>
     (\<exists>n. 6 \<le> n \<and> n \<le> 63 \<and> maximum_capacity t = 2 ^ n) \<and> minimum_capacity t \<le> maximum_capacity t \<and>
     (\<forall>c. current_array t = Some c \<longrightarrow>
        minimum_capacity t \<le> ba_num_entries c \<and> ba_num_entries c \<le> maximum_capacity t)"

definition arrays_ok :: "btype \<Rightarrow> ('k \<Rightarrow> u64) \<Rightarrow> ('k, 'v) table \<Rightarrow> bool" where
  "arrays_ok ty hash t \<longleftrightarrow>
     (case current_array t of
        None \<Rightarrow> old_array t = None
      | Some c \<Rightarrow> array_ok ty hash c \<and> (\<forall>i<num_buckets c. \<not> killed (bucket_at c i)) \<and> num_cleared_buckets c = 0 \<and>
          (case old_array t of None \<Rightarrow> True | Some old \<Rightarrow> pair_ok ty hash (old, c) \<and> rehash_ok old))"

definition table_ok :: "btype \<Rightarrow> ('k \<Rightarrow> u64) \<Rightarrow> ('k, 'v) table \<Rightarrow> bool" where
  "table_ok ty hash t \<longleftrightarrow> array_tag t = TagNone \<and> capacity_ok t \<and> arrays_ok ty hash t"

text \<open>Rehashing changes neither the map nor the sizes of a table.\<close>

definition same_table :: "btype \<Rightarrow> ('k \<Rightarrow> u64) \<Rightarrow> ('k, 'v) table \<Rightarrow> ('k, 'v) table \<Rightarrow> bool" where
  "same_table ty hash t t' \<longleftrightarrow> table_map ty hash t' = table_map ty hash t \<and>
     (current_array t' = None \<longleftrightarrow> current_array t = None)"

lemma same_table_refl [simp]: "same_table ty hash t t"
  by (simp add: same_table_def)

lemma same_table_trans: "same_table ty hash t u \<Longrightarrow> same_table ty hash u v \<Longrightarrow> same_table ty hash t v"
  by (simp add: same_table_def)

lemma table_okD:
  assumes "table_ok ty hash t" "current_array t = Some c"
  shows "array_ok ty hash c" "i < num_buckets c \<Longrightarrow> \<not> killed (bucket_at c i)" "num_cleared_buckets c = 0"
    "old_array t = Some old \<Longrightarrow> pair_ok ty hash (old, c)" "old_array t = Some old \<Longrightarrow> rehash_ok old"
  using assms by (auto simp: table_ok_def arrays_ok_def)

lemma table_map_simps:
  "current_array t = Some c \<Longrightarrow> old_array t = None \<Longrightarrow> table_map ty hash t = array_map ty hash c"
  "current_array t = Some c \<Longrightarrow> old_array t = Some old \<Longrightarrow> table_map ty hash t = pair_map ty hash (old, c)"
  "current_array t = None \<Longrightarrow> table_map ty hash t = Map.empty"
  by (simp_all add: table_map_def)

lemma capacity_ok_frame:
  assumes "capacity_ok t" "current_array t = Some c" "same_frame c c'"
  shows "capacity_ok (t\<lparr>current_array := Some c', old_array := x, array_tag := g\<rparr>)"
  using assms by (simp add: capacity_ok_def same_frameD(6))

lemma all_killed_empty:
  assumes "pair_ok ty hash (old, c)" "\<forall>i<num_buckets old. killed (bucket_at old i)"
  shows "array_map ty hash old = Map.empty"
  using assms array_okD(4) [of ty hash old] by (auto simp: pair_ok_def array_map_def fun_eq_iff)

lemma pair_ok_cleared:
  "pair_ok ty hash (old\<lparr>num_cleared_buckets := n\<rparr>, c) = pair_ok ty hash (old, c)"
  "pair_map ty hash (old\<lparr>num_cleared_buckets := n\<rparr>, c) = pair_map ty hash (old, c)"
proof -
  let ?o = "old\<lparr>num_cleared_buckets := n\<rparr>"
  have s: "num_buckets ?o = num_buckets old" "calculate_bucket_index ?o = calculate_bucket_index old"
    "bucket_at ?o = bucket_at old" "array_shape m ?o = array_shape m old" for m
    by (simp_all add: num_buckets_def calculate_bucket_index_def bucket_at_def fun_eq_iff array_shape_def)
  then have a: "array_map ty hash ?o = array_map ty hash old" "array_ok ty hash ?o = array_ok ty hash old"
    by (simp_all add: array_map_def array_ok_def fun_eq_iff)
  then show "pair_ok ty hash (?o, c) = pair_ok ty hash (old, c)" "pair_map ty hash (?o, c) = pair_map ty hash (old, c)"
    using s by (simp_all add: pair_ok_def pair_map_def ratio_ok_def)
qed

lemma cleared_simps [simp]:
  "num_buckets (old\<lparr>num_cleared_buckets := n\<rparr>) = num_buckets old"
  "bucket_at (old\<lparr>num_cleared_buckets := n\<rparr>) i = bucket_at old i"
  by (simp_all add: num_buckets_def bucket_at_def)

lemma incremental_rehash_ok:
  assumes ok: "table_ok ty hash t" and c: "current_array t = Some c" and room: "roomy (table_map ty hash t)"
  obtains finished t' where "incremental_rehash ty hash t = Inr (finished, t')" "table_ok ty hash t'"
    "same_table ty hash t t'" "finished \<longleftrightarrow> old_array t' = None"
    "\<And>old. old_array t = Some old \<Longrightarrow> old_array t' = None \<or>
       (\<exists>old'. old_array t' = Some old' \<and> num_buckets old' = num_buckets old \<and>
          num_cleared_buckets old' = num_cleared_buckets old + 32)"
proof (cases "old_array t")
  case None
  then show thesis using that [of True t] ok c by (simp add: incremental_rehash_def)
next
  case (Some old)
  note p = table_okD(4) [OF ok c Some] and r = table_okD(5) [OF ok c Some]
  let ?n = "num_cleared_buckets old"
  have n: "?n mod 32 = 0" "?n < num_buckets old" "\<forall>i<?n. killed (bucket_at old i)" using r by (simp_all add: rehash_ok_def)
  let ?old = "old\<lparr>num_cleared_buckets := ?n + BUCKET_LEN + 1\<rparr>"
  let ?is = "[?n..<min (?n + BUCKET_LEN) (num_buckets ?old)]"
  have "roomy (pair_map ty hash (?old, c))" using room c Some by (simp add: table_map_simps pair_ok_cleared)
  then obtain old' c' where rr: "rehash_range ty hash ?is (?old, c) = Inr (old', c')" "pair_ok ty hash (old', c')"
    "pair_map ty hash (old', c') = pair_map ty hash (old, c)" "pair_frame (?old, c) (old', c')"
    "\<forall>i\<in>set ?is. killed (bucket_at old' i)"
    using rehash_range_ok [of ty hash "(?old, c)" ?is] p by (auto simp: pair_ok_cleared)
  have f: "same_frame c c'" "num_buckets old' = num_buckets old" "num_cleared_buckets old' = ?n + 33"
    "\<And>i. i < num_buckets old \<Longrightarrow> killed (bucket_at old i) \<Longrightarrow> killed (bucket_at old' i)"
    using rr(4) by (simp_all add: pair_frame_def)
  have k: "killed (bucket_at old' i)" if "i < ?n + 32" "i < num_buckets old" for i
    using that f(4) n(3) rr(5) by (cases "i < ?n") auto
  let ?old' = "old'\<lparr>num_cleared_buckets := ?n + 32\<rparr>"
  let ?t = "t\<lparr>current_array := Some c', old_array := Some ?old'\<rparr>"
  have inc: "incremental_rehash ty hash t =
      (if ?n + 32 \<ge> num_buckets old then Inr (True, ?t\<lparr>old_array := None\<rparr>) else Inr (False, ?t))"
    using c Some n rr(1) f by (simp add: incremental_rehash_def Let_def)
  have c': "array_ok ty hash c'" "\<forall>i<num_buckets c'. \<not> killed (bucket_at c' i)" "num_cleared_buckets c' = 0"
    using rr(2) table_okD(3) [OF ok c] same_frameD(3) [OF f(1)] by (simp_all add: pair_ok_def)
  have t0: "array_tag t = TagNone" and cap: "capacity_ok t" using ok by (simp_all add: table_ok_def)
  have cap': "capacity_ok (t\<lparr>current_array := Some c', old_array := x\<rparr>)" for x
    using capacity_ok_frame [OF cap c f(1), of TagNone x] by (simp add: capacity_ok_def)
  have tm: "table_map ty hash t = pair_map ty hash (old, c)" using c Some by (simp add: table_map_simps)
  show thesis
  proof (cases "?n + 32 \<ge> num_buckets old")
    case True
    then have e: "array_map ty hash old' = Map.empty" using k f(2) by (intro all_killed_empty [OF rr(2)]) auto
    let ?u = "?t\<lparr>old_array := None\<rparr>"
    have "table_map ty hash ?u = table_map ty hash t" using rr(3) e tm by (simp add: table_map_simps pair_map_def)
    moreover have "table_ok ty hash ?u" using c' t0 cap' [of None] by (simp add: table_ok_def arrays_ok_def)
    ultimately show thesis using that [of True ?u] inc True c by (simp add: same_table_def)
  next
    case False
    have "table_map ty hash ?t = table_map ty hash t" using rr(3) tm by (simp add: table_map_simps pair_ok_cleared)
    moreover have "rehash_ok ?old'" using False n k f(2) by (simp add: rehash_ok_def)
    then have "table_ok ty hash ?t"
      using c' t0 cap' [of "Some ?old'"] rr(2) by (simp add: table_ok_def arrays_ok_def pair_ok_cleared)
    ultimately show thesis using that [of False ?t] inc False c Some f(2) by (simp add: same_table_def)
  qed
qed

lemma move_entry_ok:
  assumes ok: "table_ok ty hash t" and c: "current_array t = Some c" and room: "roomy (table_map ty hash t)"
  obtains finished t' c' where "move_entry ty hash (hash k) t = Inr (finished, t')" "table_ok ty hash t'"
    "same_table ty hash t t'" "finished \<longleftrightarrow> old_array t' = None"
    "current_array t' = Some c'" "array_map ty hash c' k = table_map ty hash t k"
proof -
  obtain fin u where r: "incremental_rehash ty hash t = Inr (fin, u)" "table_ok ty hash u" "same_table ty hash t u"
    "fin \<longleftrightarrow> old_array u = None"
    using incremental_rehash_ok [OF ok c room] by blast
  obtain d where d: "current_array u = Some d" using r(3) c by (auto simp: same_table_def)
  show thesis
  proof (cases "old_array u")
    case None
    then have "array_map ty hash d k = table_map ty hash t k"
      using r(3) d by (simp add: same_table_def table_map_simps)
    then show thesis using that [of True u d] r None d by (simp add: move_entry_def)
  next
    case (Some old)
    note p = table_okD(4) [OF r(2) d Some] and ro = table_okD(5) [OF r(2) d Some]
    have tm: "table_map ty hash u = pair_map ty hash (old, d)" using d Some by (simp add: table_map_simps)
    let ?i = "calculate_bucket_index old (hash k)"
    have i: "?i < num_buckets old" using p array_okD(4) [of ty hash old] by (simp add: pair_ok_def)
    have "\<exists>a'. (if killed (bucket_at old ?i) then Inr (old, d) else relocate_bucket ty hash ?i (old, d)) = Inr a' \<and>
        pair_ok ty hash a' \<and> pair_map ty hash a' = pair_map ty hash (old, d) \<and> pair_frame (old, d) a' \<and>
        killed (bucket_at (fst a') ?i)"
    proof (cases "killed (bucket_at old ?i)")
      case False
      have "roomy (pair_map ty hash (old, d))" using room r(3) tm by (simp add: same_table_def)
      from relocate_bucket_ok [OF p i this] show ?thesis using False by metis
    qed (use p in simp)
    then obtain o' d' where a: "(if killed (bucket_at old ?i) then Inr (old, d) else relocate_bucket ty hash ?i (old, d)) = Inr (o', d')"
      "pair_ok ty hash (o', d')" "pair_map ty hash (o', d') = pair_map ty hash (old, d)" "pair_frame (old, d) (o', d')"
      "killed (bucket_at o' ?i)" by auto
    let ?t = "u\<lparr>current_array := Some d', old_array := Some o'\<rparr>"
    have f: "same_frame d d'" "num_buckets o' = num_buckets old" "num_cleared_buckets o' = num_cleared_buckets old"
      "hash_offset o' = hash_offset old"
      "\<And>i. i < num_buckets old \<Longrightarrow> killed (bucket_at old i) \<Longrightarrow> killed (bucket_at o' i)"
      using a(4) by (simp_all add: pair_frame_def)
    have mv: "move_entry ty hash (hash k) t = Inr (False, ?t)"
      using r(1,4) Some d a(1) by (simp add: move_entry_def)
    have "calculate_bucket_index o' (hash k) = ?i" using f(4) by (simp add: calculate_bucket_index_def)
    then have e: "array_map ty hash o' k = None" using a(2,5) i f(2) by (simp add: array_map_def pair_ok_def)
    have tm': "table_map ty hash ?t = table_map ty hash t"
      using a(3) tm r(3) by (simp add: table_map_simps same_table_def)
    then have "array_map ty hash d' k = table_map ty hash t k"
      using e by (simp add: table_map_simps pair_map_def map_add_def flip: tm')
    moreover have "rehash_ok o'" using ro f by (auto simp: rehash_ok_def)
    moreover have "capacity_ok ?t"
      using capacity_ok_frame [OF _ d f(1)] r(2) by (simp add: table_ok_def capacity_ok_def)
    ultimately show thesis
      using that [of False ?t d'] mv tm' a(2) r(2) c table_okD(3) [OF r(2) d] same_frameD(3) [OF f(1)]
      by (simp add: table_ok_def arrays_ok_def same_table_def pair_ok_def)
  qed
qed

lemma clear_loop_ok:
  assumes "table_ok ty hash t" "current_array t \<noteq> None" "roomy (table_map ty hash t)"
    and "\<And>old. old_array t = Some old \<Longrightarrow> num_buckets old - num_cleared_buckets old \<le> 32 * fuel"
  shows "\<exists>t'. clear_loop fuel ty hash t = Inr t' \<and> table_ok ty hash t' \<and> same_table ty hash t t' \<and> old_array t' = None"
  using assms
proof (induction fuel arbitrary: t)
  case 0
  obtain c where c: "current_array t = Some c" using 0(2) by auto
  have "old_array t = None"
  proof (cases "old_array t")
    case (Some old)
    then show ?thesis using 0(4) [OF Some] table_okD(5) [OF 0(1) c Some] by (simp add: rehash_ok_def)
  qed
  then show ?case using 0(1) by (subst clear_loop.simps) simp
next
  case (Suc fuel)
  show ?case
  proof (cases "old_array t")
    case None
    then show ?thesis using Suc.prems(1) by (subst clear_loop.simps) simp
  next
    case (Some old)
    obtain c where c: "current_array t = Some c" using Suc.prems(2) by auto
    obtain fin u where r: "incremental_rehash ty hash t = Inr (fin, u)" "table_ok ty hash u" "same_table ty hash t u"
      "fin \<longleftrightarrow> old_array u = None"
      "old_array u = None \<or> (\<exists>old'. old_array u = Some old' \<and> num_buckets old' = num_buckets old \<and>
          num_cleared_buckets old' = num_cleared_buckets old + 32)"
      using incremental_rehash_ok [OF Suc.prems(1) c Suc.prems(3)] Some by metis
    have step: "clear_loop (Suc fuel) ty hash t = (if fin then Inr u else clear_loop fuel ty hash u)"
      using Some r(1) by (subst clear_loop.simps) simp
    show ?thesis
    proof (cases fin)
      case True
      then show ?thesis using step r by auto
    next
      case False
      have "\<exists>t'. clear_loop fuel ty hash u = Inr t' \<and> table_ok ty hash t' \<and> same_table ty hash u t' \<and> old_array t' = None"
        using Suc.prems(3,4) Some r False c by (intro Suc.IH) (auto simp: same_table_def)
      then show ?thesis using step False same_table_trans [OF r(3)] by auto
    qed
  qed
qed

lemma clear_old_array_ok:
  assumes "table_ok ty hash t" "current_array t \<noteq> None" "roomy (table_map ty hash t)"
  obtains t' where "clear_old_array ty hash t = Inr t'" "table_ok ty hash t'" "same_table ty hash t t'" "old_array t' = None"
proof -
  let ?fuel = "case old_array t of None \<Rightarrow> 0 | Some old \<Rightarrow> num_buckets old"
  have "num_buckets old - num_cleared_buckets old \<le> 32 * ?fuel" if "old_array t = Some old" for old
    using that by simp
  from clear_loop_ok [OF assms this] show thesis using that by (auto simp: clear_old_array_def)
qed

section \<open>Resizing\<close>

lemma grow_capacity_pow:
  assumes "capacity = 2 ^ i" "new = 2 ^ (i + j)" "j \<le> 5" "maximum = 2 ^ n" "i + j \<le> n"
  shows "\<exists>j'\<le>5. grow_capacity estimated maximum capacity new = 2 ^ (i + j') \<and> i + j' \<le> n"
  using assms
proof (induction estimated maximum capacity new arbitrary: j rule: grow_capacity.induct)
  case (1 estimated maximum capacity new)
  show ?case
  proof (cases "new \<le> (estimated div 8) * 15 \<and> 0 < new \<and> new \<noteq> maximum \<and> new div capacity \<noteq> 32")
    case False
    then show ?thesis using "1.prems" by (subst grow_capacity.simps) auto
  next
    case True
    have "new div capacity = 2 ^ j" using "1.prems"(1,2) by (simp add: power_add)
    then have "j \<noteq> 5" using True by auto
    then have j: "Suc j \<le> 5" using "1.prems"(3) by simp
    have n: "i + Suc j \<le> n" using True "1.prems"(2,4,5) by (cases "i + j = n") auto
    have "\<exists>j'\<le>5. grow_capacity estimated maximum capacity (new * 2) = 2 ^ (i + j') \<and> i + j' \<le> n"
      using "1.IH" [OF _ _ _ "1.prems"(1) _ j "1.prems"(4) n] True "1.prems"(2) by simp
    then show ?thesis using True by (subst grow_capacity.simps) simp
  qed
qed

text \<open>The number of buckets for a capacity that is a power of two.\<close>

lemma log2_pow:
  assumes "capacity \<le> 2 ^ (i + 5)" "1 \<le> i"
  shows "calculate_log2_array_size capacity \<le> i"
proof -
  let ?l = "calculate_log2_array_size capacity"
  have "(64 :: nat) \<le> 2 ^ (i + 5)" using power_increasing [of 6 "i + 5" "2 :: nat"] assms(2) by simp
  let ?c = "min (max capacity 64) ((USIZE_MAX div 2) - (BUCKET_LEN - 1))"
  let ?r = "(?c + BUCKET_LEN - 1) div BUCKET_LEN"
  obtain k where k: "next_power_of_two ?r = 2 ^ k" "?r \<le> 2 ^ k" "k = 0 \<or> 2 ^ k < 2 * ?r"
    by (rule next_power_of_two_spec)
  have l: "?l = k"
    unfolding calculate_log2_array_size_def Let_def k(1) by (simp add: bit_length_power)
  have "?c \<le> 2 ^ (i + 5)" using assms(1) \<open>64 \<le> 2 ^ (i + 5)\<close> by (simp add: min.coboundedI1)
  then have "?r \<le> (2 ^ (i + 5) + BUCKET_LEN - 1) div BUCKET_LEN" by (intro div_le_mono diff_le_mono add_le_mono1)
  also have "\<dots> = 2 ^ i" by (simp add: power_add)
  finally have "k = 0 \<or> (2 :: nat) ^ k < 2 ^ Suc i" using k(3) by auto
  then have "k \<le> i" using power_less_imp_less_exp [of "2 :: nat" k "Suc i"] by auto
  then show ?thesis using l by simp
qed

lemma ba_new_entries:
  assumes "c \<le> 2 ^ M" "6 \<le> M" "M \<le> 63"
  shows "ba_num_entries (ba_new c :: ('k, 'v) bucket_array) \<le> 2 ^ M" "c \<le> ba_num_entries (ba_new c :: ('k, 'v) bucket_array)"
proof -
  let ?l = "calculate_log2_array_size c"
  have e: "ba_num_entries (ba_new c :: ('k, 'v) bucket_array) = 2 ^ (?l + 5)"
    by (simp add: ba_num_entries_def num_buckets_def ba_new_def Let_def power_add)
  obtain i where i: "M = i + 5" "1 \<le> i" using assms(2) by (intro that [of "M - 5"]) simp_all
  then have "?l \<le> i" using log2_pow [of c i] assms(1) by simp
  then show "ba_num_entries (ba_new c :: ('k, 'v) bucket_array) \<le> 2 ^ M" unfolding e using i by simp
  show "c \<le> ba_num_entries (ba_new c :: ('k, 'v) bucket_array)"
  proof (cases "c \<le> (USIZE_MAX div 2) - (BUCKET_LEN - 1)")
    case True
    then have "c \<le> min (max c 64) ((USIZE_MAX div 2) - (BUCKET_LEN - 1))" by simp
    then show ?thesis unfolding e using log2_spec(3) [of c] by (simp add: power_add)
  next
    case False
    then have "(2 :: nat) ^ 63 - 32 \<le> 2 ^ (?l + 5)"
      using log2_spec(3) [of c] by (simp add: power_add USIZE_MAX_def)
    then have "(2 :: nat) ^ 62 < 2 ^ (?l + 5)" by simp
    then have "62 < ?l + 5" by (rule power_less_imp_less_exp [rotated]) simp
    then have "(2 :: nat) ^ 63 \<le> 2 ^ (?l + 5)" by (intro power_increasing) simp_all
    moreover have "c \<le> 2 ^ 63" using assms(1,3) power_increasing [of M 63 "2 :: nat"] by simp
    ultimately show ?thesis unfolding e by linarith
  qed
qed

lemma next_power_of_two_le: "x \<le> 2 ^ m \<Longrightarrow> next_power_of_two x \<le> 2 ^ m"
proof -
  assume x: "x \<le> 2 ^ m"
  obtain k where k: "next_power_of_two x = 2 ^ k" "k = 0 \<or> 2 ^ k < 2 * x" by (rule next_power_of_two_spec)
  then have "k = 0 \<or> (2 :: nat) ^ k < 2 ^ Suc m" using x by auto
  then have "k \<le> m" using power_less_imp_less_exp [of "2 :: nat" k "Suc m"] by auto
  then show ?thesis using k(1) by simp
qed

lemma array_entries:
  assumes "array_ok ty hash c"
  obtains n where "array_shape n c" "ba_num_entries c = 2 ^ (n + 5)" "1 \<le> n" "n \<le> 58"
  using assms by (auto simp: array_ok_def array_shape_def ba_num_entries_def power_add)

lemma resize_to_bounds:
  assumes cap: "capacity_ok t" and c: "current_array t = Some c" and ok: "array_ok ty hash c"
  shows "resize_to t c est \<le> maximum_capacity t" "minimum_capacity t \<le> resize_to t c est"
    "resize_to t c est \<le> 32 * ba_num_entries c"
proof -
  obtain n where n: "ba_num_entries c = 2 ^ (n + 5)" "1 \<le> n" using array_entries [OF ok] by metis
  obtain M where M: "maximum_capacity t = 2 ^ M" using cap by (auto simp: capacity_ok_def)
  have b: "minimum_capacity t \<le> 2 ^ (n + 5)" "(2 :: nat) ^ (n + 5) \<le> 2 ^ M"
    using cap c n M by (auto simp: capacity_ok_def)
  then have nM: "n + 5 \<le> M" by simp
  have M63: "M \<le> 63" using cap M by (auto simp: capacity_ok_def)
  have "resize_to t c est \<le> 2 ^ M \<and> minimum_capacity t \<le> resize_to t c est \<and> resize_to t c est \<le> 32 * 2 ^ (n + 5)"
  proof (cases "est \<ge> (ba_num_entries c div 8) * 7 \<and> ba_num_entries c \<noteq> maximum_capacity t")
    case True
    then have r: "resize_to t c est = grow_capacity est (2 ^ M) (2 ^ (n + 5)) (2 ^ (n + 5))"
      using n(1) M by (simp add: resize_to_def Let_def)
    have "\<exists>j\<le>5. grow_capacity est (2 ^ M) (2 ^ (n + 5)) (2 ^ (n + 5)) = 2 ^ (n + 5 + j) \<and> n + 5 + j \<le> M"
      by (rule grow_capacity_pow [where j = 0]) (use nM in simp_all)
    then obtain j where j: "j \<le> 5" "resize_to t c est = 2 ^ (n + 5 + j)" "n + 5 + j \<le> M"
      unfolding r by blast
    have "(2 :: nat) ^ (n + 5) \<le> 2 ^ (n + 5 + j)" "(2 :: nat) ^ (n + 5 + j) \<le> 2 ^ M" by (simp_all add: j(3))
    moreover have "(2 :: nat) ^ j \<le> 2 ^ 5" using j(1) by (intro power_increasing) simp_all
    then have "(2 :: nat) ^ (n + 5 + j) \<le> 32 * 2 ^ (n + 5)" by (simp add: power_add)
    ultimately show ?thesis using j(2) b(1) by linarith
  next
    case False
    have m: "next_power_of_two (max (max est (minimum_capacity t)) ba_minimum_capacity) \<le> 2 ^ (n + 5)"
      if "est \<le> 2 ^ (n + 5) div 16"
    proof (rule next_power_of_two_le)
      have "(64 :: nat) \<le> 2 ^ (n + 5)" using power_increasing [of 6 "n + 5" "2 :: nat"] n(2) by simp
      then show "max (max est (minimum_capacity t)) ba_minimum_capacity \<le> 2 ^ (n + 5)"
        using that b(1) div_le_dividend [of "2 ^ (n + 5)" 16] by (simp add: ba_minimum_capacity_def)
    qed
    have w: "next_power_of_two (max (max est (minimum_capacity t)) ba_minimum_capacity) mod 2 ^ 64 =
        next_power_of_two (max (max est (minimum_capacity t)) ba_minimum_capacity)" if "est \<le> 2 ^ (n + 5) div 16"
    proof -
      have "(2 :: nat) ^ (n + 5) < 2 ^ 64" using nM M63 by (intro power_strict_increasing) simp_all
      then show ?thesis using m [OF that] by (intro mod_less) linarith
    qed
    have g: "minimum_capacity t \<le> next_power_of_two (max (max est (minimum_capacity t)) ba_minimum_capacity)"
      using next_power_of_two_ge [of "max (max est (minimum_capacity t)) ba_minimum_capacity"] by simp
    have "resize_to t c est = 2 ^ (n + 5) \<or>
        est \<le> 2 ^ (n + 5) div 16 \<and> resize_to t c est = next_power_of_two (max (max est (minimum_capacity t)) ba_minimum_capacity)"
      using False n(1) w by (auto simp: resize_to_def Let_def)
    then show ?thesis using b m g by (auto intro: order_trans)
  qed
  then show "resize_to t c est \<le> maximum_capacity t" "minimum_capacity t \<le> resize_to t c est"
    "resize_to t c est \<le> 32 * ba_num_entries c" by (simp_all add: M n(1))
qed

lemma new_killed: "i < num_buckets (ba_new n) \<Longrightarrow> \<not> killed (bucket_at (ba_new n) i)"
  by (simp add: bucket_at_def ba_new_def num_buckets_def Let_def killed_def bucket_new_def KILLED_def shl1_def
      push_bit_eq_mult)

text \<open>The outcomes of \<^verbatim>\<open>try_resize\<close>.\<close>

lemma try_resize_cases:
  obtains (same) "try_resize ty i t = t"
  | (dropped) c where "current_array t = Some c" "old_array t = None" "try_resize ty i t = t\<lparr>current_array := None, array_tag := TagNone\<rparr>"
      "list_all (\<lambda>b. num_entries b = 0) (buckets c)" "sample c i (full_sample_size c) = 0"
  | (replaced) c n where "current_array t = Some c" "old_array t = None" "n = resize_to t c (sample c i (full_sample_size c))"
      "try_resize ty i t = t\<lparr>current_array := Some (ba_new n), old_array := Some c, array_tag := TagNone\<rparr>"
  | (untagged) "try_resize ty i t = t\<lparr>array_tag := TagNone\<rparr>" "array_tag t = TagNone"
proof (cases "array_tag t = TagNone \<and> old_array t = None \<and> current_array t \<noteq> None")
  case False
  then show thesis using same by (auto simp: try_resize_def split: option.splits)
next
  case True
  then obtain c where c: "current_array t = Some c" by auto
  let ?s = "sample c i (full_sample_size c)" and ?n = "resize_to t c (sample c i (full_sample_size c))"
  let ?drop = "?s = 0 \<and> minimum_capacity t = 0"
  let ?rebuild = "ty = OPTIMISTIC \<and> ?n = ba_num_entries c \<and> check_rebuild ty c i (full_sample_size c)"
  let ?all = "list_all (\<lambda>b. \<not> killed b \<and> num_entries b = 0) (buckets c)"
  have e: "try_resize ty i t =
      (if ?n \<noteq> ba_num_entries c \<or> ?drop \<or> ?rebuild
       then if ?drop \<and> ?all then t\<lparr>current_array := None, array_tag := TagNone\<rparr>
            else if ?n \<noteq> ba_num_entries c \<or> ?rebuild
            then t\<lparr>current_array := Some (ba_new ?n), old_array := Some c, array_tag := TagNone\<rparr>
            else t\<lparr>array_tag := TagNone\<rparr>
       else t)"
    using True c by (auto simp: try_resize_def Let_def)
  show thesis
  proof (cases "?drop \<and> ?all")
    case True
    then show thesis using dropped [OF c] e \<open>array_tag t = TagNone \<and> old_array t = None \<and> current_array t \<noteq> None\<close>
      by (auto simp: list_all_iff)
  next
    case False
    then show thesis
      using e same untagged replaced [OF c _ refl] \<open>array_tag t = TagNone \<and> old_array t = None \<and> current_array t \<noteq> None\<close>
      by (auto split: if_splits)
  qed
qed

lemma replaced_ok:
  fixes est :: nat
  assumes ok: "table_ok ty hash t" and c: "current_array t = Some c" "old_array t = None"
  defines "n \<equiv> resize_to t c est"
  defines "u \<equiv> t\<lparr>current_array := Some (ba_new n), old_array := Some c, array_tag := TagNone\<rparr>"
  shows "table_ok ty hash u" "table_map ty hash u = table_map ty hash t"
proof -
  let ?new = "ba_new n :: ('a, 'b) bucket_array"
  have cap: "capacity_ok t" using ok by (simp add: table_ok_def)
  note co = table_okD(1-3) [OF ok c(1)]
  note r = resize_to_bounds [OF cap c(1) co(1), of est, folded n_def]
  obtain M where M: "maximum_capacity t = 2 ^ M" "6 \<le> M" "M \<le> 63" using cap by (auto simp: capacity_ok_def)
  note e = ba_new_entries [of n M, OF _ M(2,3)]
  obtain k where k: "ba_num_entries c = 2 ^ (k + 5)" "1 \<le> k" using array_entries [OF co(1)] by metis
  have "n \<le> 2 ^ (k + 5 + 5)" using r(3) k(1) by (simp add: power_add)
  then have "calculate_log2_array_size n \<le> k + 5" using log2_pow [of n "k + 5"] by simp
  then have "(2 :: nat) ^ calculate_log2_array_size n \<le> 2 ^ (k + 5)" by simp
  moreover have "num_buckets ?new = 2 ^ calculate_log2_array_size n" by (simp add: num_buckets_def ba_new_def Let_def)
  ultimately have ratio: "ratio_ok ?new c"
    using k(1) unfolding ratio_ok_def ba_num_entries_def by linarith
  have p: "pair_ok ty hash (c, ?new)"
    using co(1,2) ba_new_ok [of ty hash n, where ?'v = 'b] ratio new_killed by (auto simp: pair_ok_def)
  have "0 < num_buckets c" using k(1) by (simp add: ba_num_entries_def) (metis gr0I mult_0 power_not_zero zero_neq_numeral)
  then have re: "rehash_ok c" using co(3) by (simp add: rehash_ok_def)
  have cu: "capacity_ok u" using cap r e M by (auto simp: capacity_ok_def u_def intro: order_trans)
  show "table_ok ty hash u"
    using p re cu new_killed by (auto simp: table_ok_def arrays_ok_def u_def pair_ok_def) (simp add: ba_new_def Let_def)
  show "table_map ty hash u = table_map ty hash t"
    using c ba_new_ok(2) [of ty hash n, where ?'v = 'b] by (simp add: u_def table_map_simps pair_map_def)
qed

lemma try_resize_ok:
  assumes ok: "table_ok ty hash t"
  shows "table_ok ty hash (try_resize ty i t)" "table_map ty hash (try_resize ty i t) = table_map ty hash t"
proof -
  have "table_ok ty hash (try_resize ty i t) \<and> table_map ty hash (try_resize ty i t) = table_map ty hash t"
  proof (cases rule: try_resize_cases [of ty i t])
    case same
    then show ?thesis using ok by simp
  next
    case (dropped c)
    have "array_map ty hash c = Map.empty"
    proof -
      have "num_entries (bucket_at c (calculate_bucket_index c h)) = 0" for h
        using dropped(4) array_okD(4) [OF table_okD(1) [OF ok dropped(1)]]
        by (simp add: list_all_length bucket_at_def num_buckets_def)
      then show ?thesis
        using bucket_of_key [OF table_okD(1) [OF ok dropped(1)]] empty_bucket_map by (metis ext)
    qed
    then show ?thesis
      using ok dropped by (auto simp: table_ok_def arrays_ok_def capacity_ok_def table_map_simps)
  next
    case (replaced c n)
    then show ?thesis using replaced_ok [OF ok replaced(1,2)] by simp
  next
    case untagged
    then have "t\<lparr>array_tag := TagNone\<rparr> = t" by (cases t) simp
    then show ?thesis using ok untagged(1) by (simp only:)
  qed
  then show "table_ok ty hash (try_resize ty i t)" "table_map ty hash (try_resize ty i t) = table_map ty hash t" by blast+
qed

end
