(* ===== verification/Hash_Table_Ops.thy ===== *)
theory Hash_Table_Ops
  imports Hash_Table_Spec
begin

text \<open>
  The operations of the hash table on single entries and on all entries, as operations on the map that
  the table stands for.
\<close>

section \<open>Changing one bucket of a table\<close>

lemma array_tag_map [simp]: "table_map ty hash (t\<lparr>array_tag := g\<rparr>) = table_map ty hash t"
  by (simp add: table_map_def split: option.split)

lemma set_bucket_killed:
  "i < num_buckets a \<Longrightarrow> killed b = killed (bucket_at a i) \<Longrightarrow>
   killed (bucket_at (set_bucket i b a) j) = killed (bucket_at a j)"
  by simp

lemma rehash_ok_set_bucket:
  "i < num_buckets a \<Longrightarrow> killed b = killed (bucket_at a i) \<Longrightarrow> rehash_ok (set_bucket i b a) = rehash_ok a"
  by (simp only: rehash_ok_def set_bucket_simps(1,4) set_bucket_killed)

text \<open>\<open>p\<close> is where the bucket is, and the other array does not hold the key.\<close>

lemma put_bucket_ok:
  assumes ok: "table_ok ty hash t" and a: "array_in p t = Some a"
    and other: "\<forall>x. array_in (case p of In_Current \<Rightarrow> In_Old | In_Old \<Rightarrow> In_Current) t = Some x \<longrightarrow> array_map ty hash x k = None"
    and cur: "current_array t \<noteq> None"
  defines "i \<equiv> calculate_bucket_index a (hash k)"
  assumes b: "bucket_ok ty (ph_of hash) b" "bucket_map ty b = (bucket_map ty (bucket_at a i))(k := x)"
    and k: "killed b = killed (bucket_at a i)" "\<not> killed (bucket_at a i)"
  shows "table_ok ty hash (put_bucket p i b t)" "table_map ty hash (put_bucket p i b t) = (table_map ty hash t)(k := x)"
proof -
  obtain c where c: "current_array t = Some c" using cur by auto
  have aok: "array_ok ty hash a"
    using a c table_okD(1,4) [OF ok c] by (cases p) (auto simp: array_in_def pair_ok_def)
  have i: "i < num_buckets a" unfolding i_def by (rule array_okD(4) [OF aok])
  let ?a = "set_bucket i b a"
  have u: "array_ok ty hash ?a" "array_map ty hash ?a = (array_map ty hash a)(k := x)"
    using array_update [OF aok b(1)] b(2) by (simp_all add: i_def)
  have cap: "capacity_ok t" "array_tag t = TagNone" using ok by (simp_all add: table_ok_def)
  have "table_ok ty hash (put_bucket p i b t) \<and> table_map ty hash (put_bucket p i b t) = (table_map ty hash t)(k := x)"
  proof (cases p)
    case In_Current
    then have ca: "c = a" using a c by (simp add: array_in_def)
    have cap': "capacity_ok (put_bucket p i b t)"
      using cap(1) In_Current c ca by (simp add: capacity_ok_def put_bucket_def)
    show ?thesis
    proof (cases "old_array t")
      case None
      then show ?thesis
        using In_Current c ca u cap' cap(2) table_okD(2,3) [OF ok c] i k
        by (simp add: table_ok_def arrays_ok_def put_bucket_def table_map_simps)
    next
      case (Some old)
      note po = table_okD(4,5) [OF ok c Some]
      have n: "array_map ty hash old k = None" using spec [OF other, of old] In_Current Some by (simp add: array_in_def)
      have "pair_ok ty hash (old, ?a)"
        using po(1) u n ca i k by (auto simp: pair_ok_def ratio_ok_def split: if_splits)
      moreover have "array_map ty hash ?a ++ array_map ty hash old = (array_map ty hash a ++ array_map ty hash old)(k := x)"
        using u(2) n by (auto simp: fun_eq_iff map_add_def split: option.splits)
      ultimately show ?thesis
        using In_Current c ca u cap' cap(2) table_okD(2,3) [OF ok c] i k Some po(2)
        by (simp add: table_ok_def arrays_ok_def put_bucket_def table_map_simps pair_map_def)
    qed
  next
    case In_Old
    then have old: "old_array t = Some a" using a by (simp add: array_in_def)
    note po = table_okD(4,5) [OF ok c old]
    have n: "array_map ty hash c k = None" using spec [OF other, of c] In_Old c by (simp add: array_in_def)
    have "pair_ok ty hash (?a, c)"
      using po(1) u n i k by (auto simp: pair_ok_def ratio_ok_def split: if_splits)
    moreover have "array_map ty hash c ++ array_map ty hash ?a = (array_map ty hash c ++ array_map ty hash a)(k := x)"
      using u(2) n by (auto simp: fun_eq_iff map_add_def split: option.splits)
    moreover have "capacity_ok (put_bucket p i b t)" using cap(1) In_Old by (simp add: capacity_ok_def put_bucket_def)
    ultimately show ?thesis
      using In_Old c old cap(2) table_okD(1-3) [OF ok c] rehash_ok_set_bucket [OF i k(1)] po(2)
      by (simp add: table_ok_def arrays_ok_def put_bucket_def table_map_simps pair_map_def)
  qed
  then show "table_ok ty hash (put_bucket p i b t)"
    "table_map ty hash (put_bucket p i b t) = (table_map ty hash t)(k := x)" by blast+
qed

section \<open>Reserving and inserting\<close>

lemma get_current_array_ok:
  assumes ok: "table_ok ty hash t"
  obtains c where "current_array (get_current_array t) = Some c" "table_ok ty hash (get_current_array t)"
    "table_map ty hash (get_current_array t) = table_map ty hash t"
proof (cases "current_array t")
  case (Some c)
  then show thesis using that ok by (simp add: get_current_array_def)
next
  case None
  let ?c = "ba_new (minimum_capacity t) :: ('a, 'b) bucket_array"
  obtain M where M: "maximum_capacity t = 2 ^ M" "6 \<le> M" "M \<le> 63" "minimum_capacity t \<le> 2 ^ M"
    using ok by (auto simp: table_ok_def capacity_ok_def)
  have "capacity_ok (get_current_array t)"
    using ba_new_entries [OF M(4,2,3), where ?'k = 'a and ?'v = 'b] ok None M
    by (auto simp: get_current_array_def table_ok_def capacity_ok_def)
  moreover have "num_cleared_buckets ?c = 0" by (simp add: ba_new_def Let_def)
  moreover have "\<forall>i<num_buckets ?c. \<not> killed (bucket_at ?c i)" using new_killed by blast
  ultimately show thesis
    using that [of ?c] None ok ba_new_ok [of ty hash "minimum_capacity t", where ?'v = 'b]
    by (simp add: get_current_array_def table_ok_def arrays_ok_def table_map_simps)
qed

lemma try_enlarge_cases:
  assumes "current_array t = Some c" "num_entries (bucket_at c i) \<noteq> 0" "i < num_buckets c" "old_array t = None"
    "array_tag t = TagNone"
  shows "try_enlarge ty c i n t = t \<or>
    (\<exists>d. current_array (try_enlarge ty c i n t) = Some d \<and> old_array (try_enlarge ty c i n t) = Some c)"
proof (cases "try_enlarge ty c i n t = t")
  case False
  then have e: "try_enlarge ty c i n t = try_resize ty i t" by (auto simp: try_enlarge_def Let_def split: if_splits)
  show ?thesis
  proof (cases rule: try_resize_cases [of ty i t])
    case (dropped c')
    then have "num_entries (bucket_at c i) = 0" using assms(1,3) by (simp add: list_all_length bucket_at_def num_buckets_def)
    then show ?thesis using assms(2) by simp
  next
    case untagged
    then have "t\<lparr>array_tag := TagNone\<rparr> = t" by (cases t) simp
    then show ?thesis using e untagged(1) by simp
  qed (use e assms(1) in auto)
qed simp

lemma try_enlarge_ok:
  assumes "table_ok ty hash t"
  shows "table_ok ty hash (try_enlarge ty c i n t)" "table_map ty hash (try_enlarge ty c i n t) = table_map ty hash t"
  using try_resize_ok [OF assms] assms by (auto simp: try_enlarge_def Let_def)

lemma try_shrink_or_rebuild_ok:
  assumes "table_ok ty hash t"
  shows "table_ok ty hash (try_shrink_or_rebuild ty c i t)"
    "table_map ty hash (try_shrink_or_rebuild ty c i t) = table_map ty hash t"
  using try_resize_ok [OF assms] assms by (auto simp: try_shrink_or_rebuild_def)

text \<open>What \<^verbatim>\<open>reserve_entry\<close> returns: the bucket that decides about the key.\<close>

lemma reserve_entry_ok:
  assumes ok: "table_ok ty hash t" and room: "roomy (table_map ty hash t)"
  obtains e u a where "reserve_entry (Suc fuel) ty hash k t = Inr (e, u)" "table_ok ty hash u"
    "table_map ty hash u = table_map ty hash t" "array_in (entry_place e) u = Some a" "array_ok ty hash a"
    "entry_index e = calculate_bucket_index a (hash k)" "\<not> killed (bucket_at a (entry_index e))"
    "entry_pointer e = bucket_get ty (bucket_at a (entry_index e)) k (ph_of hash k)"
    "array_map ty hash a k = table_map ty hash t k" "current_array u \<noteq> None"
    "\<forall>x. array_in (case entry_place e of In_Current \<Rightarrow> In_Old | In_Old \<Rightarrow> In_Current) u = Some x \<longrightarrow> array_map ty hash x k = None"
proof -
  let ?t = "get_current_array t"
  obtain c where c: "current_array ?t = Some c" "table_ok ty hash ?t" "table_map ty hash ?t = table_map ty hash t"
    by (rule get_current_array_ok [OF ok])
  have room': "roomy (table_map ty hash ?t)" using room c(3) by simp
  show thesis
  proof (cases "old_array ?t = None")
    case False
    obtain fin u d where m: "move_entry ty hash (hash k) ?t = Inr (fin, u)" "table_ok ty hash u" "same_table ty hash ?t u"
      "current_array u = Some d" "array_map ty hash d k = table_map ty hash ?t k"
      by (rule move_entry_ok [OF c(2,1) room'])
    note dd = table_okD(1,2) [OF m(2,4)]
    let ?i = "calculate_bucket_index d (hash k)"
    have nk: "\<not> killed (bucket_at d ?i)" using dd array_okD(4) by blast
    let ?e = "\<lparr>entry_place = In_Current, entry_index = ?i, entry_pointer = bucket_get ty (bucket_at d ?i) k (ph_of hash k)\<rparr>"
    have r: "reserve_entry (Suc fuel) ty hash k t = Inr (?e, u)"
      using False m(1,4) nk by (subst reserve_entry.simps) (auto simp: Let_def)
    have o: "array_map ty hash x k = None" if "old_array u = Some x" for x
    proof -
      have "pair_map ty hash (x, d) k = array_map ty hash d k"
        using m(3,5) table_map_simps(2) [OF m(4) that] by (simp add: same_table_def)
      then show ?thesis using table_okD(4) [OF m(2,4) that]
        by (auto simp: pair_ok_def pair_map_def map_add_def split: option.splits)
    qed
    show thesis
      using that [OF r m(2)] m(3,4,5) c(3) dd nk o by (simp add: same_table_def array_in_def)
  next
    case True
    let ?i = "calculate_bucket_index c (hash k)"
    note cc = table_okD(1,2) [OF c(2,1)]
    have i: "?i < num_buckets c" using array_okD(4) [OF cc(1)] .
    have nk: "\<not> killed (bucket_at c ?i)" using cc i by blast
    let ?b = "bucket_at c ?i"
    define enlarge where "enlarge = ((ty \<noteq> CACHE \<or> ba_num_entries c < maximum_capacity ?t) \<and>
      within_sampling_range c ?i \<and> unat (num_entries ?b) \<ge> BUCKET_LEN - 1)"
    define u where "u = (if enlarge then try_enlarge ty c ?i (unat (num_entries ?b)) ?t else ?t)"
    have u: "table_ok ty hash u" "table_map ty hash u = table_map ty hash t"
      using try_enlarge_ok [OF c(2)] c(2,3) by (simp_all add: u_def)
    have tag: "array_tag ?t = TagNone" using c(2) by (simp add: table_ok_def)
    have uc: "u = ?t \<or> (\<exists>d. current_array u = Some d \<and> old_array u = Some c)"
    proof (cases enlarge)
      case en: True
      then have "num_entries ?b \<noteq> 0" by (auto simp: enlarge_def)
      then show ?thesis using try_enlarge_cases [OF c(1) _ i True tag] en by (auto simp: u_def)
    qed (simp add: u_def)
    let ?e = "\<lparr>entry_place = (if old_array u \<noteq> None then In_Old else In_Current), entry_index = ?i,
      entry_pointer = bucket_get ty ?b k (ph_of hash k)\<rparr>"
    have cn: "current_array u \<noteq> None" using uc c(1) by auto
    have r: "reserve_entry (Suc fuel) ty hash k t = Inr (?e, u)"
      using True c(1) nk cn
      by (subst reserve_entry.simps) (auto simp: Let_def u_def enlarge_def)
    have am: "array_map ty hash c = table_map ty hash t" using table_map_simps(1) [OF c(1) True] c(3) by metis
    have ain: "array_in (entry_place ?e) u = Some c" using uc True c(1) by (auto simp: array_in_def)
    have o: "array_map ty hash x k = None"
      if "array_in (case entry_place ?e of In_Current \<Rightarrow> In_Old | In_Old \<Rightarrow> In_Current) u = Some x" for x
    proof (cases "old_array u")
      case None
      then show ?thesis using that by (simp add: array_in_def)
    next
      case (Some old)
      then have x: "current_array u = Some x" "old = c" using that uc True by (auto simp: array_in_def)
      have "pair_map ty hash (c, x) = array_map ty hash c" using table_map_simps(2) [OF x(1)] Some x(2) u(2) am by simp
      then show ?thesis using table_okD(4) [OF u(1) x(1)] Some x(2)
        by (auto simp: pair_ok_def pair_map_def fun_eq_iff map_add_def disjoint_iff domIff split: option.splits)
          (metis not_Some_eq)
    qed
    show thesis using that [OF r u ain cc(1)] nk am cn o by simp
  qed
qed

lemma insert_entry_ok:
  assumes ok: "table_ok ty hash t" and room: "roomy (table_map ty hash t)"
  obtains t' where "insert_entry ty hash k v t =
      Inr (if table_map ty hash t k = None then None else Some (k, v), t')" "table_ok ty hash t'"
    "table_map ty hash t' = (if table_map ty hash t k = None then (table_map ty hash t)(k \<mapsto> v) else table_map ty hash t)"
proof -
  obtain e u a where r: "reserve_entry (Suc 1) ty hash k t = Inr (e, u)" "table_ok ty hash u"
    "table_map ty hash u = table_map ty hash t" "array_in (entry_place e) u = Some a" "array_ok ty hash a"
    "entry_index e = calculate_bucket_index a (hash k)" "\<not> killed (bucket_at a (entry_index e))"
    "entry_pointer e = bucket_get ty (bucket_at a (entry_index e)) k (ph_of hash k)"
    "array_map ty hash a k = table_map ty hash t k" "current_array u \<noteq> None"
    "\<forall>x. array_in (case entry_place e of In_Current \<Rightarrow> In_Old | In_Old \<Rightarrow> In_Current) u = Some x \<longrightarrow> array_map ty hash x k = None"
    by (rule reserve_entry_ok [OF ok room, where fuel = 1 and k = k])
  have r2: "reserve_entry 2 ty hash k t = Inr (e, u)" using r(1) by (simp add: numeral_2_eq_2)
  note bk = bucket_of_key [OF r(5), of k, folded r(6)]
  show thesis
  proof (cases rule: get_cases [OF bk(1), of k])
    case (1 w)
    then have "ep_is_valid (entry_pointer e)" using points_to_valid(1) [OF bk(1)] r(8) by simp
    moreover have "table_map ty hash t k = Some w" using r(9) bk(2) 1(2) by simp
    ultimately show thesis using that [of u] r2 r(2,3) by (simp add: insert_entry_def)
  next
    case 2
    then have new: "bucket_map ty (bucket_at a (entry_index e)) (fst (k, v)) = None" by simp
    have sub: "dom (bucket_map ty (bucket_at a (entry_index e))) \<subseteq> dom (table_map ty hash t)"
    proof
      fix x assume "x \<in> dom (bucket_map ty (bucket_at a (entry_index e)))"
      then have "array_map ty hash a x \<noteq> None"
        using array_map_bucket [OF r(5), of "entry_index e" x] array_okD(4) [OF r(5)] r(6)
        by (metis domIff)
      then have "table_map ty hash u x \<noteq> None"
        using r(4,10) by (cases "entry_place e") (auto simp: array_in_def table_map_def pair_map_def map_add_def split: option.splits)
      then show "x \<in> dom (table_map ty hash t)" using r(3) by auto
    qed
    obtain ep b' where ins: "insert_with (bucket_at a (entry_index e)) (ph_of hash (fst (k, v))) (k, v) = Inr (ep, b')"
      "bucket_ok ty (ph_of hash) b'" "bucket_map ty b' = (bucket_map ty (bucket_at a (entry_index e)))(fst (k, v) \<mapsto> snd (k, v))"
      by (rule insert_with_ok [OF bk(1) new roomy_bucket [OF room bk(1) sub]])
    have kb: "killed b' = killed (bucket_at a (entry_index e))" using insert_with_state [OF ins(1)] by (simp add: killed_def)
    let ?u = "put_bucket (entry_place e) (entry_index e) b' u"
    note pb = put_bucket_ok [OF r(2,4,11,10), of b' "Some v", folded r(6)]
    have "insert_entry ty hash k v t = Inr (None, ?u)"
      using r2 r(4,8) 2(1) ins(1) by (simp add: insert_entry_def ep_is_valid_def ep_new_def)
    then show thesis using that [of ?u] pb ins kb r(3,7) bk(2) 2(2) r(9) by simp
  qed
qed

section \<open>Reading and removing\<close>

lemma read_entry_ok:
  assumes ok: "table_ok ty hash t" and room: "roomy (table_map ty hash t)"
  obtains t' where "read_entry ty hash k t = Inr (map_option (Pair k) (table_map ty hash t k), t')"
    "table_ok ty hash t'" "table_map ty hash t' = table_map ty hash t"
proof (cases "current_array t")
  case None
  then show thesis using that ok by (simp add: read_entry_def table_map_simps)
next
  case (Some c)
  have look: "search ty (bucket_at a (calculate_bucket_index a (hash k))) k (ph_of hash k) = map_option (Pair k) (array_map ty hash a k)"
    if "array_ok ty hash a" for a :: "('a, 'b) bucket_array"
    using search_map [OF bucket_of_key(1) [OF that, of k], of k] bucket_of_key(2) [OF that, of k] by simp
  have alive: "\<not> killed (bucket_at d (calculate_bucket_index d (hash k)))" if "table_ok ty hash u" "current_array u = Some d" for u d
    using table_okD(1,2) [OF that] array_okD(4) by blast
  show thesis
  proof (cases "old_array t")
    case None
    then show thesis
      using that [of t] ok Some look [OF table_okD(1) [OF ok Some]] alive [OF ok Some]
      by (simp add: read_entry_def Let_def table_map_simps)
  next
    case (Some old)
    show thesis
    proof (cases "ty = OPTIMISTIC")
      case False
      obtain fin u d where m: "move_entry ty hash (hash k) t = Inr (fin, u)" "table_ok ty hash u" "same_table ty hash t u"
        "current_array u = Some d" "array_map ty hash d k = table_map ty hash t k"
        by (rule move_entry_ok [OF ok \<open>current_array t = Some c\<close> room])
      show thesis
        using that [of u] m Some False \<open>current_array t = Some c\<close> look [OF table_okD(1) [OF m(2,4)]] alive [OF m(2,4)]
        by (simp add: read_entry_def Let_def same_table_def)
    next
      case True
      obtain fin u where r: "incremental_rehash ty hash t = Inr (fin, u)" "table_ok ty hash u" "same_table ty hash t u"
        "fin \<longleftrightarrow> old_array u = None"
        using incremental_rehash_ok [OF ok \<open>current_array t = Some c\<close> room] by blast
      obtain d where d: "current_array u = Some d" using r(3) \<open>current_array t = Some c\<close> by (auto simp: same_table_def)
      note ld = look [OF table_okD(1) [OF r(2) d]]
      show thesis
      proof (cases "old_array u")
        case None
        then have "array_map ty hash d = table_map ty hash t" using r(3) d by (simp add: same_table_def table_map_simps)
        then show thesis using that [of u] r None d ld True Some \<open>current_array t = Some c\<close>
          by (simp add: read_entry_def Let_def same_table_def)
      next
        case o: (Some old')
        have lo: "search ty (bucket_at old' (calculate_bucket_index old' (hash k))) k (ph_of hash k) =
            map_option (Pair k) (array_map ty hash old' k)"
          using look table_okD(4) [OF r(2) d o] by (simp add: pair_ok_def)
        have "table_map ty hash t = pair_map ty hash (old', d)"
          using r(3) table_map_simps(2) [OF d o, of ty hash] by (simp add: same_table_def)
        then have tm: "table_map ty hash t k = (case array_map ty hash old' k of None \<Rightarrow> array_map ty hash d k | Some v \<Rightarrow> Some v)"
          by (simp add: pair_map_def map_add_def)
        show thesis
        proof (cases "array_map ty hash old' k")
          case None
          then show thesis using that [of u] r o d ld lo tm True Some \<open>current_array t = Some c\<close>
            by (simp add: read_entry_def Let_def same_table_def)
        next
          case (Some v)
          then show thesis using that [of u] r o d lo tm True \<open>old_array t = Some old\<close> \<open>current_array t = Some c\<close>
            by (simp add: read_entry_def Let_def same_table_def)
        qed
      qed
    qed
  qed
qed

text \<open>The table after \<^verbatim>\<open>move_entry\<close> where there is an old array: the current array decides about the key.\<close>

lemma prepare_entry:
  assumes ok: "table_ok ty hash t" and c: "current_array t = Some c" and room: "roomy (table_map ty hash t)"
  obtains shrinkable u d where
    "(if old_array t \<noteq> None then move_entry ty hash (hash k) t else Inr (True, t)) = Inr (shrinkable, u)"
    "table_ok ty hash u" "table_map ty hash u = table_map ty hash t" "current_array u = Some d"
    "array_map ty hash d k = table_map ty hash t k"
    "\<forall>x. old_array u = Some x \<longrightarrow> array_map ty hash x k = None"
proof (cases "old_array t = None")
  case True
  then show thesis using that [of True t c] ok c by (simp add: table_map_simps)
next
  case False
  obtain fin u d where m: "move_entry ty hash (hash k) t = Inr (fin, u)" "table_ok ty hash u" "same_table ty hash t u"
    "current_array u = Some d" "array_map ty hash d k = table_map ty hash t k"
    by (rule move_entry_ok [OF ok c room])
  have "array_map ty hash x k = None" if "old_array u = Some x" for x
  proof -
    have "pair_map ty hash (x, d) k = array_map ty hash d k"
      using m(3,5) table_map_simps(2) [OF m(4) that] by (simp add: same_table_def)
    then show ?thesis using table_okD(4) [OF m(2,4) that]
      by (auto simp: pair_ok_def pair_map_def map_add_def split: option.splits)
  qed
  then show thesis using that [of fin u d] m False by (simp add: same_table_def)
qed

text \<open>What a removal that asks \<open>condition\<close> does to a value: the new value, or none.\<close>

lemma remove_entry_ok:
  assumes ok: "table_ok ty hash t" and room: "roomy (table_map ty hash t)"
  obtains t' where "table_ok ty hash t'"
    "remove_entry ty hash k condition t =
       Inr (case table_map ty hash t k of
              None \<Rightarrow> None
            | Some v \<Rightarrow> if fst (condition v)
                        then Some (if ty = OPTIMISTIC then None else Some (k, snd (condition v))) else None, t')"
    "table_map ty hash t' = (table_map ty hash t)(k :=
       (case table_map ty hash t k of
          None \<Rightarrow> None
        | Some v \<Rightarrow> if fst (condition v) then None else Some (snd (condition v))))"
proof (cases "current_array t")
  case None
  then show thesis using that [of t] ok by (simp add: remove_entry_def table_map_simps)
next
  case (Some c)
  obtain sh u d where m:
    "(if old_array t \<noteq> None then move_entry ty hash (hash k) t else Inr (True, t)) = Inr (sh, u)"
    "table_ok ty hash u" "table_map ty hash u = table_map ty hash t" "current_array u = Some d"
    "array_map ty hash d k = table_map ty hash t k" "\<forall>x. old_array u = Some x \<longrightarrow> array_map ty hash x k = None"
    by (rule prepare_entry [OF ok Some room])
  note dok = table_okD(1,2) [OF m(2,4)]
  let ?i = "calculate_bucket_index d (hash k)"
  let ?b = "bucket_at d ?i"
  let ?ep = "bucket_get ty ?b k (ph_of hash k)"
  have nk: "\<not> killed ?b" using dok array_okD(4) by blast
  note bk = bucket_of_key [OF dok(1), of k]
  have ain: "array_in In_Current u = Some d" using m(4) by (simp add: array_in_def)
  have other: "\<forall>x. array_in (case In_Current of In_Current \<Rightarrow> In_Old | In_Old \<Rightarrow> In_Current) u = Some x \<longrightarrow> array_map ty hash x k = None"
    using m(6) by (simp add: array_in_def)
  have "current_array u \<noteq> None" using m(4) by simp
  note pb = put_bucket_ok [OF m(2) ain other this]
  have rm: "remove_entry ty hash k condition t =
      (if \<not> ep_is_valid ?ep then Inr (None, u)
       else case ep_get ?b ?ep of
              None \<Rightarrow> Inl Uninitialized_Read
            | Some (k, v) \<Rightarrow>
                let (met, v) = condition v; b = ep_set ?b ?ep (k, v)
                in if \<not> met then Inr (None, put_bucket In_Current ?i b u)
                   else let (result, b) = erase ty b ?ep; t = put_bucket In_Current ?i b u;
                            t = (if sh \<and> (unat (num_entries b) \<le> 1 \<or> need_rebuild ty b) \<and> within_sampling_range d ?i
                                 then try_shrink_or_rebuild ty (set_bucket ?i b d) ?i t else t)
                        in Inr (Some result, t))"
    using Some m(1,4) nk by (simp add: remove_entry_def Let_def)
  show thesis
  proof (cases rule: get_cases [OF bk(1), of k])
    case 2
    then show thesis using that [of u] rm m bk(2) by (simp add: ep_is_valid_def ep_new_def fun_upd_idem)
  next
    case (1 v)
    have valid: "ep_is_valid ?ep" by (rule points_to_valid(1) [OF bk(1) 1(1)])
    have get: "ep_get ?b ?ep = Some (k, v)" by (rule points_toD(5) [OF bk(1) 1(1)])
    have tv: "table_map ty hash t k = Some v" using 1(2) bk(2) m(5) by simp
    obtain met w where w: "condition v = (met, w)" by (cases "condition v")
    let ?s = "ep_set ?b ?ep (k, w)"
    note s = ep_set_ok [OF bk(1) 1(1), of "(k, w)"]
    have ks: "killed ?s = killed ?b" by (simp add: killed_def ep_set_def ep_update_def split: option.split)
    show thesis
    proof (cases met)
      case False
      then have "remove_entry ty hash k condition t = Inr (None, put_bucket In_Current ?i ?s u)"
        using rm valid get w by simp
      then show thesis using that pb [of ?s "Some w"] s ks nk w False tv m(3) by simp
    next
      case True
      have pts: "points_to ty ?s ?ep (k, w)"
      proof -
        note p = points_toD [OF bk(1) 1(1)]
        have "slot_entry ty (ep_block ?s ?ep) (current_index ?ep) = Some (k, w)"
          using p(1,2,3) block_okD(1) [OF p(4)]
          by (auto simp: ep_set_def ep_update_def ep_block_def ep_in_def slot_entry_def reachable_bitmap_def
              split: option.splits if_splits)
        moreover have "ep_in ?s ?ep" using p(1) by (simp add: ep_set_def ep_update_def ep_in_def split: option.splits)
        ultimately show ?thesis using points_toI [of ty "ph_of hash" ?s] s(1) p(2) by simp
      qed
      note er = erase_ok [OF s(1) pts]
      let ?e = "snd (erase ty ?s ?ep)" and ?u = "put_bucket In_Current ?i (snd (erase ty ?s ?ep)) u"
      have ke: "killed ?e = killed ?b"
        using ks by (auto simp: killed_def erase_def Let_def ep_update_def remove_from_lru_list_def store_tail_def
            split: option.splits prod.splits)
      have mp: "bucket_map ty ?e = (bucket_map ty ?b)(k := None)" using er(2) s(2) by simp
      note pu = pb [OF er(1) mp ke nk]
      define f where "f = (if sh \<and> (unat (num_entries ?e) \<le> 1 \<or> need_rebuild ty ?e) \<and> within_sampling_range d ?i
          then try_shrink_or_rebuild ty (set_bucket ?i ?e d) ?i ?u else ?u)"
      have f: "table_ok ty hash f" "table_map ty hash f = (table_map ty hash t)(k := None)"
        using try_shrink_or_rebuild_ok [OF pu(1)] pu m(3) by (simp_all add: f_def)
      have "remove_entry ty hash k condition t = Inr (Some (fst (erase ty ?s ?ep)), f)"
        using rm valid get w True by (simp add: f_def split_def Let_def)
      then show thesis using that [OF f(1)] f(2) er(3) w True tv by simp
    qed
  qed
qed

end
