(* ===== verification/Hash_Table_All.thy ===== *)
theory Hash_Table_All
  imports Hash_Table_Ops
begin

text \<open>
  Operations on all entries of a table, as loops over the buckets whose body changes the bucket at the
  pointer, and the statements about the table as a whole.
\<close>

section \<open>Loops with a body that visits each entry\<close>

text \<open>
  The contract of a loop body: at a pointer to an entry it replaces the value by \<open>g k v\<close>, or removes
  the entry where \<open>g k v\<close> is none, reports the removal, and touches neither the slots ahead nor the
  state word of the bucket.
\<close>

locale entry_visitor =
  fixes ty :: btype and hash :: "'k \<Rightarrow> u64"
    and body :: "entry_ptr \<Rightarrow> ('k, 'v) bucket \<Rightarrow> (bool \<times> ('k, 'v) bucket) ht_result"
    and g :: "'k \<Rightarrow> 'v \<Rightarrow> 'v option"
  assumes visit: "bucket_ok ty (ph_of hash) b \<Longrightarrow> points_to ty b p (k, v) \<Longrightarrow>
      \<exists>b'. body p b = Inr (g k v = None, b') \<and> bucket_ok ty (ph_of hash) b' \<and>
           bucket_map ty b' = (bucket_map ty b)(k := g k v) \<and> later_same ty b b' p \<and> state b' = state b"
begin

lemma while_next_ok:
  assumes "bucket_ok ty (ph_of hash) b" "ep_in b ep" "map (ep_get b) (ahead ty b ep) = map Some es"
    and "distinct (map fst es)" "\<forall>(k, v)\<in>set es. bucket_map ty b k = Some v" "length es \<le> fuel"
  shows "\<exists>b'. while_next fuel ty body ep (removed, b) = Inr (removed \<or> (\<exists>(k, v)\<in>set es. g k v = None), b') \<and>
    bucket_ok ty (ph_of hash) b' \<and> state b' = state b \<and>
    bucket_map ty b' = (\<lambda>k. if k \<in> fst ` set es then Option.bind (bucket_map ty b k) (g k) else bucket_map ty b k)"
  using assms
proof (induction es arbitrary: b ep removed fuel)
  case Nil
  then have "ahead ty b ep = []" by simp
  then show ?case using Nil ep_next_ahead(1) [OF Nil(2), of ty] by (subst while_next.simps) simp
next
  case (Cons e es)
  obtain k v where e: "e = (k, v)" by (cases e)
  obtain p ps where a: "ahead ty b ep = p # ps" and gp: "ep_get b p = Some (k, v)"
    and gps: "map (ep_get b) ps = map Some es" using Cons.prems(3) e by auto
  obtain fuel' where fuel: "fuel = Suc fuel'" "length es \<le> fuel'" using Cons.prems(6) by (cases fuel) auto
  note ok = Cons.prems(1)
  have pt: "points_to ty b p (k, v)"
    using ahead_points_to [OF ok Cons.prems(2), of p] a gp by (metis list.set_intros(1) option.inject)
  note p = points_toD [OF ok pt]
  have kv: "bucket_map ty b k = Some v" using points_to_entry(2) [OF ok pt] by simp
  obtain c where c: "body p b = Inr (g k v = None, c)" "bucket_ok ty (ph_of hash) c"
    "bucket_map ty c = (bucket_map ty b)(k := g k v)" "later_same ty b c p" "state c = state b"
    using visit [OF ok pt] by blast
  note l = later_same_ahead [OF c(4) p(1,2)]
  have ps: "ahead ty b p = ps" using ep_next_ahead(2) [OF Cons.prems(2) a] .
  have k: "k \<notin> fst ` set es" using Cons.prems(4) e by auto
  have step: "while_next fuel ty body ep (removed, b) = while_next fuel' ty body p (removed \<or> g k v = None, c)"
    using ep_next_ahead(1) [OF Cons.prems(2), of ty] a c(1) fuel(1) by (subst while_next.simps) simp
  have "\<exists>b'. while_next fuel' ty body p (removed \<or> g k v = None, c) =
        Inr ((removed \<or> g k v = None) \<or> (\<exists>(k, v)\<in>set es. g k v = None), b') \<and>
      bucket_ok ty (ph_of hash) b' \<and> state b' = state c \<and>
      bucket_map ty b' = (\<lambda>k. if k \<in> fst ` set es then Option.bind (bucket_map ty c k) (g k) else bucket_map ty c k)"
  proof (rule Cons.IH [OF c(2) l(3) _ _ _ fuel(2)])
    show "map (ep_get c) (ahead ty c p) = map Some es" using l(1,2) ps gps by (metis (no_types, lifting) map_cong)
    show "distinct (map fst es)" using Cons.prems(4) by simp
    show "\<forall>(k, v)\<in>set es. bucket_map ty c k = Some v"
      using Cons.prems(5) k c(3) by (force simp: image_iff)
  qed
  moreover have "(\<lambda>x. if x \<in> fst ` set es then Option.bind (bucket_map ty c x) (g x) else bucket_map ty c x) =
      (\<lambda>x. if x \<in> fst ` set (e # es) then Option.bind (bucket_map ty b x) (g x) else bucket_map ty b x)"
    using k kv by (auto simp: fun_eq_iff c(3) e)
  ultimately show ?case using step c(5) e by auto
qed

lemma visit_bucket:
  assumes ok: "bucket_ok ty (ph_of hash) b"
  obtains b' where "while_next (unat (num_entries b)) ty body ep_new (removed, b) =
      Inr (removed \<or> (\<exists>k v. bucket_map ty b k = Some v \<and> g k v = None), b')"
    "bucket_ok ty (ph_of hash) b'" "killed b' = killed b" "bucket_map ty b' = (\<lambda>k. Option.bind (bucket_map ty b k) (g k))"
proof -
  have "ep_in b ep_new" by (simp add: ep_in_def ep_new_def)
  from while_next_ok [OF ok this ahead_new_entries [OF ok] bucket_okD(4) [OF ok], of "unat (num_entries b)" removed]
  obtain b' where b': "while_next (unat (num_entries b)) ty body ep_new (removed, b) =
      Inr (removed \<or> (\<exists>(k, v)\<in>set (bucket_entries ty b). g k v = None), b')"
    "bucket_ok ty (ph_of hash) b'" "state b' = state b"
    "bucket_map ty b' = (\<lambda>k. if k \<in> fst ` set (bucket_entries ty b) then Option.bind (bucket_map ty b k) (g k) else bucket_map ty b k)"
    using bucket_okD(3) [OF ok] by (auto simp: bucket_map_Some_iff [OF ok])
  have "bucket_map ty b k = None" if "k \<notin> fst ` set (bucket_entries ty b)" for k
    using that by (simp add: bucket_map_def map_of_eq_None_iff)
  then have m: "bucket_map ty b' = (\<lambda>k. Option.bind (bucket_map ty b k) (g k))" using b'(4) by (auto simp: fun_eq_iff)
  have x: "(\<exists>(k, v)\<in>set (bucket_entries ty b). g k v = None) \<longleftrightarrow> (\<exists>k v. bucket_map ty b k = Some v \<and> g k v = None)"
    by (auto simp: bucket_map_Some_iff [OF ok])
  show thesis using that b'(1,2,3) m unfolding x by (simp add: killed_def)
qed

lemma for_buckets_ok:
  assumes "array_ok ty hash a" "\<forall>i<num_buckets a. \<not> killed (bucket_at a i)" "\<forall>i\<in>set is. i < num_buckets a" "distinct is"
  shows "\<exists>r a'. for_buckets ty body is (removed, a) = Inr (r, a') \<and> array_ok ty hash a' \<and> same_frame a a' \<and>
    array_map ty hash a' = (\<lambda>k. if calculate_bucket_index a (hash k) \<in> set is
                              then Option.bind (array_map ty hash a k) (g k) else array_map ty hash a k)"
  using assms
proof (induction "is" arbitrary: a removed)
  case Nil
  then show ?case by simp
next
  case (Cons i "is")
  have i: "i < num_buckets a" "\<not> killed (bucket_at a i)" using Cons.prems(2,3) by simp_all
  note b = array_okD(2) [OF Cons.prems(1) i(1)]
  obtain r b' where b': "while_next (unat (num_entries (bucket_at a i))) ty body ep_new (removed, bucket_at a i) = Inr (r, b')"
    "bucket_ok ty (ph_of hash) b'" "killed b' = killed (bucket_at a i)"
    "bucket_map ty b' = (\<lambda>k. Option.bind (bucket_map ty (bucket_at a i) k) (g k))"
    by (rule visit_bucket [OF b])
  let ?a = "set_bucket i b' a"
  have aok: "array_ok ty hash ?a"
    by (rule array_ok_set_bucket [OF Cons.prems(1) i(1) b'(2)])
      (use b'(4) array_okD(3) [OF Cons.prems(1) i(1)] in \<open>auto simp: bind_eq_Some_conv\<close>)
  have fr: "same_frame a ?a" by (rule same_frame_set_bucket [OF i(1) b'(3)])
  have m: "array_map ty hash ?a k = (if calculate_bucket_index a (hash k) = i
      then Option.bind (array_map ty hash a k) (g k) else array_map ty hash a k)" for k
    using array_map_set_bucket [OF i(1)] b'(4) by (simp add: array_map_def)
  have "\<exists>r' a'. for_buckets ty body is (r, ?a) = Inr (r', a') \<and> array_ok ty hash a' \<and> same_frame ?a a' \<and>
    array_map ty hash a' = (\<lambda>k. if calculate_bucket_index ?a (hash k) \<in> set is
        then Option.bind (array_map ty hash ?a k) (g k) else array_map ty hash ?a k)"
    using Cons.prems i b'(3) by (intro Cons.IH [OF aok]) auto
  then obtain r' a' where a': "for_buckets ty body is (r, ?a) = Inr (r', a')" "array_ok ty hash a'" "same_frame ?a a'"
    "array_map ty hash a' = (\<lambda>k. if calculate_bucket_index ?a (hash k) \<in> set is
        then Option.bind (array_map ty hash ?a k) (g k) else array_map ty hash ?a k)" by blast
  have "for_buckets ty body (i # is) (removed, a) = Inr (r', a')" using i(2) b'(1) a'(1) by simp
  moreover have "array_map ty hash a' = (\<lambda>k. if calculate_bucket_index a (hash k) \<in> set (i # is)
      then Option.bind (array_map ty hash a k) (g k) else array_map ty hash a k)"
    using a'(4) m Cons.prems(4) by (auto simp: fun_eq_iff)
  ultimately show ?case using a'(2) same_frame_trans [OF fr a'(3)] by blast
qed

lemma over_entries_ok:
  assumes ok: "table_ok ty hash t" and room: "roomy (table_map ty hash t)"
  obtains t' where "over_entries ty hash body t = Inr t'" "table_ok ty hash t'"
    "table_map ty hash t' = (\<lambda>k. Option.bind (table_map ty hash t k) (g k))"
proof (cases "current_array t = None")
  case True
  then show thesis using that [of t] ok by (simp add: over_entries_def table_map_simps)
next
  case False
  obtain u where u: "clear_old_array ty hash t = Inr u" "table_ok ty hash u" "same_table ty hash t u" "old_array u = None"
    by (rule clear_old_array_ok [OF ok False room])
  obtain c where c: "current_array u = Some c" using u(3) False by (auto simp: same_table_def)
  note co = table_okD(1-3) [OF u(2) c]
  have tm: "table_map ty hash t = array_map ty hash c" using u(3,4) c by (simp add: same_table_def table_map_simps)
  obtain r a' where a': "for_buckets ty body [0..<num_buckets c] (False, c) = Inr (r, a')" "array_ok ty hash a'" "same_frame c a'"
    "array_map ty hash a' = (\<lambda>k. if calculate_bucket_index c (hash k) \<in> set [0..<num_buckets c]
        then Option.bind (array_map ty hash c k) (g k) else array_map ty hash c k)"
    using for_buckets_ok [OF co(1), of "[0..<num_buckets c]" False] co(2) by auto
  let ?u = "u\<lparr>current_array := Some a'\<rparr>"
  have m: "array_map ty hash a' = (\<lambda>k. Option.bind (table_map ty hash t k) (g k))"
    using a'(4) array_okD(4) [OF co(1)] tm by simp
  have "capacity_ok ?u" using u(2) c same_frameD(6) [OF a'(3)] by (simp add: table_ok_def capacity_ok_def)
  then have uok: "table_ok ty hash ?u"
    using u(2,4) a'(2) co same_frameD [OF a'(3)] by (simp add: table_ok_def arrays_ok_def)
  have um: "table_map ty hash ?u = (\<lambda>k. Option.bind (table_map ty hash t k) (g k))"
    using m u(4) by (simp add: table_map_simps)
  have "over_entries ty hash body t = Inr (if r then try_resize ty 0 ?u else ?u)"
    using False u(1) c a'(1) by (auto simp: over_entries_def)
  then show thesis using that [of "if r then try_resize ty 0 ?u else ?u"] try_resize_ok [OF uok, of 0] uok um by simp
qed

end

text \<open>The bodies of \<^verbatim>\<open>retain_entries\<close> and \<^verbatim>\<open>prune_entries\<close> satisfy the contract.\<close>

definition retained :: "('k \<Rightarrow> 'v \<Rightarrow> bool \<times> 'v) \<Rightarrow> 'k \<Rightarrow> 'v \<Rightarrow> 'v option" where
  "retained pred k v = (if fst (pred k v) then Some (snd (pred k v)) else None)"

lemma ep_set_points_to:
  assumes ok: "bucket_ok ty ph b" and pt: "points_to ty b p (k, v)"
  shows "points_to ty (ep_set b p (k, w)) p (k, w)"
proof -
  note p = points_toD [OF ok pt] and s = ep_set_ok(1) [OF ok pt, of "(k, w)"]
  have "slot_entry ty (ep_block (ep_set b p (k, w)) p) (current_index p) = Some (k, w)"
    using p(1,2,3) block_okD(1) [OF p(4)]
    by (auto simp: ep_set_def ep_update_def ep_block_def ep_in_def slot_entry_def reachable_bitmap_def
        split: option.splits if_splits)
  moreover have "ep_in (ep_set b p (k, w)) p" using p(1) by (simp add: ep_set_def ep_update_def ep_in_def split: option.splits)
  ultimately show ?thesis using points_toI [of ty ph "ep_set b p (k, w)"] s p(2) by simp
qed

lemma state_ep_set: "state (ep_set b p e) = state b"
  by (simp add: ep_set_def ep_update_def split: option.split)

lemma state_erase: "state (snd (erase ty b p)) = state b"
  by (auto simp: erase_def Let_def ep_update_def remove_from_lru_list_def store_tail_def split: option.splits prod.splits)

lemma state_keep_or_consume: "state (snd (keep_or_consume b p pred)) = state b"
  by (auto simp: keep_or_consume_def Let_def ep_update_def split: option.splits)

interpretation retain: entry_visitor ty hash "retain_body ty pred" "retained pred" for ty hash pred
proof
  fix b :: "('a, 'b) bucket" and p k v
  assume ok: "bucket_ok ty (ph_of hash) b" and pt: "points_to ty b p (k, v)"
  obtain keep w where w: "pred k v = (keep, w)" by (cases "pred k v")
  let ?s = "ep_set b p (k, w)"
  note s = ep_set_ok [OF ok pt, of "(k, w)"] and e = erase_ok [OF ep_set_ok(1) [OF ok pt, of "(k, w)"] ep_set_points_to [OF ok pt]]
  note p = points_toD [OF ok pt]
  have inp: "ep_in ?s p" using points_toD(1) [OF s(1) ep_set_points_to [OF ok pt]] by simp
  have l: "later_same ty b ?s p" "later_same ty b (snd (erase ty ?s p)) p"
    using later_ep_set [OF p(1)] later_same_trans [OF later_ep_set [OF p(1)] later_erase [OF inp]] by blast+
  show "\<exists>b'. retain_body ty pred p b = Inr (retained pred k v = None, b') \<and> bucket_ok ty (ph_of hash) b' \<and>
      bucket_map ty b' = (bucket_map ty b)(k := retained pred k v) \<and> later_same ty b b' p \<and> state b' = state b"
    using p(5) w s e l by (cases keep) (simp_all add: retain_body_def retained_def state_ep_set state_erase)
qed

lemma prune_visits:
  assumes "ty \<noteq> OPTIMISTIC" "bucket_ok ty (ph_of hash) b" "points_to ty b p (k, v)"
  shows "\<exists>b'. prune_body pred p b = Inr (pred k v = None, b') \<and> bucket_ok ty (ph_of hash) b' \<and>
      bucket_map ty b' = (bucket_map ty b)(k := pred k v) \<and> later_same ty b b' p \<and> state b' = state b"
  using keep_or_consume_ok [OF assms(2,1,3), of pred] points_toD(1) [OF assms(2,3)]
    later_keep_or_consume [of b p ty pred] assms(1) state_keep_or_consume [of b p pred]
  by (cases "keep_or_consume b p pred") (simp add: prune_body_def)

interpretation prune_sequential: entry_visitor SEQUENTIAL hash "prune_body pred" pred for hash pred
  by unfold_locales (rule prune_visits, simp_all)

interpretation prune_cache: entry_visitor CACHE hash "prune_body pred" pred for hash pred
  by unfold_locales (rule prune_visits, simp_all)

end
