(* ===== verification/Keyed_Store.thy ===== *)
theory Keyed_Store
  imports Scc_Prelude
begin

text \<open>
  The contract of a container that maps keys to values, shared by the containers of the crate: what
  insertion, lookup and removal do to the map that a state stands for, as long as the container holds
  fewer entries than its limit. A client that issues any sequence of calls sees the answers that a
  finite map gives.
\<close>

datatype ('k, 'v) store_call = Call_Insert 'k 'v | Call_Lookup 'k | Call_Remove 'k

datatype 'v store_answer = Inserted bool | Found "'v option" | Removed bool

text \<open>The answers of a finite map. Insertion of a key that is present is refused.\<close>

fun spec_store_call :: "('k \<rightharpoonup> 'v) \<Rightarrow> ('k, 'v) store_call \<Rightarrow> 'v store_answer \<times> ('k \<rightharpoonup> 'v)" where
  "spec_store_call m (Call_Insert k v) = (if m k = None then (Inserted True, m(k \<mapsto> v)) else (Inserted False, m))"
| "spec_store_call m (Call_Lookup k) = (Found (m k), m)"
| "spec_store_call m (Call_Remove k) = (Removed (m k \<noteq> None), m(k := None))"

fun spec_run :: "('k, 'v) store_call list \<Rightarrow> ('k \<rightharpoonup> 'v) \<Rightarrow> 'v store_answer list \<times> ('k \<rightharpoonup> 'v)" where
  "spec_run [] m = ([], m)"
| "spec_run (c # cs) m =
     (let (a, m) = spec_store_call m c; (as, m) = spec_run cs m in (a # as, m))"

text \<open>A container as a function from calls to answers, and runs of it; \<^term>\<open>Inl\<close> is a failure that ends
  the run.\<close>

fun run_calls ::
  "('s \<Rightarrow> ('k, 'v) store_call \<Rightarrow> 'e + ('v store_answer \<times> 's)) \<Rightarrow> ('k, 'v) store_call list \<Rightarrow> 's \<Rightarrow>
     'e + ('v store_answer list \<times> 's)" where
  "run_calls call [] s = Inr ([], s)"
| "run_calls call (c # cs) s =
     (case call s c of
        Inl e \<Rightarrow> Inl e
      | Inr (a, s) \<Rightarrow>
          (case run_calls call cs s of Inl e \<Rightarrow> Inl e | Inr (as, s) \<Rightarrow> Inr (a # as, s)))"

locale keyed_store =
  fixes inv :: "'s \<Rightarrow> bool" and abs :: "'s \<Rightarrow> 'k \<rightharpoonup> 'v" and limit :: nat
    and call :: "'s \<Rightarrow> ('k, 'v) store_call \<Rightarrow> 'e + ('v store_answer \<times> 's)"
  assumes call_refines: "inv s \<Longrightarrow> finite (dom (abs s)) \<Longrightarrow> card (dom (abs s)) < limit \<Longrightarrow>
      \<exists>a s'. call s c = Inr (a, s') \<and> inv s' \<and> (a, abs s') = spec_store_call (abs s) c"
begin

lemma spec_call_size:
  assumes "finite (dom m)"
  shows "finite (dom (snd (spec_store_call m c)))" "card (dom (snd (spec_store_call m c))) \<le> Suc (card (dom m))"
  using assms by (cases c; auto simp: card_insert_if card_Diff_singleton_if)+

lemma run_refines:
  "inv s \<Longrightarrow> finite (dom (abs s)) \<Longrightarrow> card (dom (abs s)) + length cs \<le> limit \<Longrightarrow>
   \<exists>as s'. run_calls call cs s = Inr (as, s') \<and> inv s' \<and> (as, abs s') = spec_run cs (abs s)"
proof (induction cs arbitrary: s)
  case (Cons c cs)
  obtain a u where u: "call s c = Inr (a, u)" "inv u" "(a, abs u) = spec_store_call (abs s) c"
    using call_refines [of s c] Cons.prems by auto
  have "finite (dom (abs u))" "card (dom (abs u)) \<le> Suc (card (dom (abs s)))"
    using spec_call_size [OF Cons.prems(2), of c] u(3) by (metis snd_conv)+
  then obtain as v where v: "run_calls call cs u = Inr (as, v)" "inv v" "(as, abs v) = spec_run cs (abs u)"
    using Cons.IH [OF u(2)] Cons.prems(3) by auto
  then show ?case using u(1,2) by (simp add: u(3) [symmetric] v(3) [symmetric])
qed simp

end

end
