(* ===== verification/Hash_Table_Thms.thy ===== *)
theory Hash_Table_Thms
  imports Hash_Table_All Keyed_Store
begin

text \<open>
  The statements about the hash table: it refines a finite map under every operation and under
  relocation, and a reservation can make its next operation panic.
\<close>

section \<open>Counting and searching all entries\<close>

lemma any_entry_ok:
  assumes ok: "table_ok ty hash t" and room: "roomy (table_map ty hash t)"
  obtains t' where "any_entry ty hash pred t = Inr (\<exists>k v. table_map ty hash t k = Some v \<and> pred k v, t')"
    "table_ok ty hash t'" "table_map ty hash t' = table_map ty hash t"
proof (cases "current_array t = None")
  case True
  then show thesis using that [of t] ok by (simp add: any_entry_def table_map_simps)
next
  case False
  obtain u where u: "clear_old_array ty hash t = Inr u" "table_ok ty hash u" "same_table ty hash t u" "old_array u = None"
    by (rule clear_old_array_ok [OF ok False room])
  obtain c where c: "current_array u = Some c" using u(3) False by (auto simp: same_table_def)
  note co = table_okD(1,2) [OF u(2) c]
  have tm: "table_map ty hash t = array_map ty hash c" using u(3,4) c by (simp add: same_table_def table_map_simps)
  have hit: "list_ex (\<lambda>ep. case ep_get (bucket_at c i) ep of Some (k, v) \<Rightarrow> pred k v | None \<Rightarrow> False) (ep_visit ty (bucket_at c i) ep_new)
      \<longleftrightarrow> (\<exists>k v. bucket_map ty (bucket_at c i) k = Some v \<and> pred k v)" if "i < num_buckets c" for i
  proof -
    let ?b = "bucket_at c i"
    note b = array_okD(2) [OF co(1) that]
    have "map (ep_get ?b) (ep_visit ty ?b ep_new) = map Some (bucket_entries ty ?b)"
      using ahead_new_entries [OF b] ep_visit_ahead [of ?b ep_new ty] by (simp add: ep_in_def ep_new_def)
    then have s: "ep_get ?b ` set (ep_visit ty ?b ep_new) = Some ` set (bucket_entries ty ?b)" by (metis list.set_map)
    have "list_ex (\<lambda>ep. case ep_get ?b ep of Some (k, v) \<Rightarrow> pred k v | None \<Rightarrow> False) (ep_visit ty ?b ep_new) \<longleftrightarrow>
        (\<exists>x\<in>ep_get ?b ` set (ep_visit ty ?b ep_new). case x of Some (k, v) \<Rightarrow> pred k v | None \<Rightarrow> False)"
      by (simp add: list_ex_iff)
    also have "\<dots> \<longleftrightarrow> (\<exists>k v. bucket_map ty ?b k = Some v \<and> pred k v)"
      unfolding s by (auto simp: bucket_map_Some_iff [OF b])
    finally show ?thesis .
  qed
  let ?hit = "\<lambda>b. list_ex (\<lambda>ep. case ep_get b ep of Some (k, v) \<Rightarrow> pred k v | None \<Rightarrow> False) (ep_visit ty b ep_new)"
  have "list_ex (\<lambda>b. \<not> killed b \<and> ?hit b) (buckets c) \<longleftrightarrow>
      (\<exists>i<num_buckets c. \<not> killed (bucket_at c i) \<and> ?hit (bucket_at c i))"
    unfolding list_ex_length [of _ "buckets c"] bucket_at_def num_buckets_def ..
  also have "\<dots> \<longleftrightarrow> (\<exists>i<num_buckets c. \<exists>k v. bucket_map ty (bucket_at c i) k = Some v \<and> pred k v)"
    using hit co(2) by blast
  also have "\<dots> \<longleftrightarrow> (\<exists>k v. table_map ty hash t k = Some v \<and> pred k v)"
    using array_map_bucket [OF co(1)] array_okD(4) [OF co(1)] unfolding tm by (metis option.distinct(1))
  finally show thesis using that [of u] False u c by (auto simp: any_entry_def same_table_def)
qed

lemma array_card:
  assumes ok: "array_ok ty hash a"
  shows "finite (dom (array_map ty hash a))" "count_entries (Some a) = card (dom (array_map ty hash a))"
proof -
  let ?D = "\<lambda>i. dom (bucket_map ty (bucket_at a i))"
  have d: "dom (array_map ty hash a) = (\<Union>i\<in>{..<num_buckets a}. ?D i)"
    using array_map_bucket [OF ok] array_okD(4) [OF ok] by (auto simp: dom_def)
  have fin: "finite (?D i)" if "i < num_buckets a" for i using bucket_card(2) [OF array_okD(2) [OF ok that]] .
  show "finite (dom (array_map ty hash a))" unfolding d using fin by simp
  have "card (dom (array_map ty hash a)) = (\<Sum>i<num_buckets a. card (?D i))"
    unfolding d
  proof (rule card_UN_disjoint)
    show "\<forall>i\<in>{..<num_buckets a}. \<forall>j\<in>{..<num_buckets a}. i \<noteq> j \<longrightarrow> ?D i \<inter> ?D j = {}"
      using array_map_bucket [OF ok] by (auto split: if_splits)
  qed (use fin in auto)
  also have "\<dots> = (\<Sum>i<num_buckets a. unat (num_entries (bucket_at a i)))"
    by (rule sum.cong) (use bucket_card(1) [OF array_okD(2) [OF ok]] in auto)
  also have "\<dots> = count_entries (Some a)"
    by (simp add: count_entries_def sum_list_distinct_conv_sum_set lessThan_atLeast0 interv_sum_list_conv_sum_set_nat)
  finally show "count_entries (Some a) = card (dom (array_map ty hash a))" by simp
qed

lemma table_card:
  assumes ok: "table_ok ty hash t" and c: "current_array t = Some c"
  shows "count_entries (old_array t) + count_entries (current_array t) = card (dom (table_map ty hash t))"
    "finite (dom (table_map ty hash t))"
proof -
  note co = table_okD(1) [OF ok c]
  have "count_entries (old_array t) + count_entries (current_array t) = card (dom (table_map ty hash t)) \<and>
    finite (dom (table_map ty hash t))"
  proof (cases "old_array t")
    case None
    then show ?thesis using array_card [OF co] c by (simp add: table_map_simps count_entries_def [of None])
  next
    case (Some old)
    have oo: "array_ok ty hash old" "dom (array_map ty hash c) \<inter> dom (array_map ty hash old) = {}"
      using table_okD(4) [OF ok c Some] by (simp_all add: pair_ok_def)
    then show ?thesis
      using array_card [OF co] array_card [OF oo(1)] c Some
      by (simp add: table_map_simps pair_map_def card_Un_disjoint Int_commute)
  qed
  then show "count_entries (old_array t) + count_entries (current_array t) = card (dom (table_map ty hash t))"
    "finite (dom (table_map ty hash t))" by blast+
qed

lemma table_finite: "table_ok ty hash t \<Longrightarrow> finite (dom (table_map ty hash t))"
  using table_card(2) [of ty hash t] by (cases "current_array t") (simp_all add: table_map_simps)

lemma table_new_ok:
  fixes hash :: "'k \<Rightarrow> u64"
  assumes "6 \<le> n" "n \<le> 63" "capacity \<le> 2 ^ n"
  shows "table_ok ty hash (table_new capacity (2 ^ n) :: ('k, 'v) table)"
    "table_map ty hash (table_new capacity (2 ^ n) :: ('k, 'v) table) = Map.empty"
proof -
  let ?t = "table_new capacity (2 ^ n) :: ('k, 'v) table" and ?a = "ba_new capacity :: ('k, 'v) bucket_array"
  have nc: "num_cleared_buckets ?a = 0" by (simp add: ba_new_def Let_def)
  have nk: "\<forall>i<num_buckets ?a. \<not> killed (bucket_at ?a i)" using new_killed by blast
  note e = ba_new_entries [OF assms(3,1,2), where ?'k = 'k and ?'v = 'v]
  have mx: "\<exists>m. 6 \<le> m \<and> m \<le> 63 \<and> (2 :: nat) ^ n = 2 ^ m" using assms by blast
  show "table_map ty hash ?t = Map.empty"
    using ba_new_ok(2) [of ty hash capacity, where ?'v = 'v] by (simp add: table_new_def table_map_def Let_def)
  have "capacity_ok ?t" using e mx by (simp add: capacity_ok_def table_new_def Let_def del: power_inject_exp)
  then show "table_ok ty hash ?t"
    using ba_new_ok(1) [of ty hash capacity, where ?'v = 'v] nc nk
    by (simp add: table_ok_def arrays_ok_def table_new_def Let_def)
qed

lemma table_new_map:
  fixes hash :: "'k \<Rightarrow> u64"
  assumes "6 \<le> n" "n \<le> 63"
  shows "table_ok ty hash (table_new 0 (2 ^ n) :: ('k, 'v) table)"
    "table_map ty hash (table_new 0 (2 ^ n) :: ('k, 'v) table) = Map.empty"
  using table_new_ok [OF assms, of 0 ty hash] by simp_all

lemma roomy_empty [simp]: "roomy Map.empty"
  by (simp add: roomy_def)

lemma has_entry_ok:
  assumes ok: "table_ok ty hash t"
  shows "fst (has_entry ty t) \<longleftrightarrow> table_map ty hash t \<noteq> Map.empty" "table_ok ty hash (snd (has_entry ty t))"
    "table_map ty hash (snd (has_entry ty t)) = table_map ty hash t"
proof -
  note r = try_resize_ok [OF ok, of 0]
  show "table_ok ty hash (snd (has_entry ty t))" "table_map ty hash (snd (has_entry ty t)) = table_map ty hash t"
    using r ok by (auto simp: has_entry_def split: option.split)
  show "fst (has_entry ty t) \<longleftrightarrow> table_map ty hash t \<noteq> Map.empty"
  proof (cases "current_array t")
    case None
    then show ?thesis by (simp add: has_entry_def table_map_simps)
  next
    case (Some c)
    have z: "list_ex (\<lambda>b. num_entries b \<noteq> 0) (buckets a) \<longleftrightarrow> count_entries (Some a) \<noteq> 0" for a :: "('a, 'b) bucket_array"
      by (auto simp: count_entries_def list_ex_length num_buckets_def bucket_at_def unat_eq_0)
    have "count_entries (old_array t) + count_entries (current_array t) = 0 \<longleftrightarrow> table_map ty hash t = Map.empty"
      using table_card [OF ok Some] by simp
    then show ?thesis
      using Some z by (cases "old_array t") (auto simp: has_entry_def count_entries_def [of None])
  qed
qed

lemma ht_num_entries_ok:
  assumes ok: "table_ok ty hash t"
  shows "fst (ht_num_entries ty t) = card (dom (table_map ty hash t))" "table_ok ty hash (snd (ht_num_entries ty t))"
    "table_map ty hash (snd (ht_num_entries ty t)) = table_map ty hash t"
  using table_card(1) [OF ok] try_resize_ok [OF ok, of 0] ok
  by (auto simp: ht_num_entries_def Let_def table_map_simps)

lemma first_entry_ok:
  assumes ok: "array_ok ty hash a" "\<forall>i\<in>set is. i < num_buckets a" "\<forall>i<num_buckets a. \<not> killed (bucket_at a i)"
  shows "case first_entry ty a is of
      None \<Rightarrow> (\<forall>i\<in>set is. bucket_map ty (bucket_at a i) = Map.empty)
    | Some e \<Rightarrow> entry_place e = In_Current \<and> entry_index e < num_buckets a \<and>
        (\<exists>k v. points_to ty (bucket_at a (entry_index e)) (entry_pointer e) (k, v) \<and> array_map ty hash a k = Some v)"
  using assms(2)
proof (induction "is")
  case (Cons i "is")
  let ?b = "bucket_at a i"
  have i: "i < num_buckets a" "\<not> killed ?b" using Cons.prems ok(3) by simp_all
  note b = array_okD(2) [OF ok(1) i(1)]
  have new: "ep_in ?b ep_new" by (simp add: ep_in_def ep_new_def)
  show ?case
  proof (cases "ahead ty ?b ep_new")
    case Nil
    then have "bucket_entries ty ?b = []" using ahead_new_entries [OF b] by simp
    moreover have "fst (ep_next ty ?b ep_new) = False" using ep_next_ahead(1) [OF new, of ty] Nil by simp
    ultimately show ?thesis using Cons i by (auto simp: bucket_map_def split_def Let_def split: option.splits)
  next
    case (Cons p ps)
    have n: "ep_next ty ?b ep_new = (True, p)" using ep_next_ahead(1) [OF new, of ty] Cons by simp
    obtain k v where e: "ep_get ?b p = Some (k, v)"
      using ahead_new_entries [OF b] Cons by (cases "bucket_entries ty ?b") auto
    have pt: "points_to ty ?b p (k, v)"
      using ahead_points_to [OF b new, of p] Cons e by (metis list.set_intros(1) option.inject)
    have "bucket_map ty ?b k = Some v" using points_to_entry(2) [OF b pt] by simp
    then have "array_map ty hash a k = Some v" using array_map_bucket [OF ok(1) i(1), of k] by (simp split: if_splits)
    then show ?thesis using n i pt by auto
  qed
qed simp

lemma lock_first_entry_ok:
  assumes ok: "table_ok ty hash t" and room: "roomy (table_map ty hash t)"
  obtains e t' where "lock_first_entry ty hash t = Inr (e, t')" "table_ok ty hash t'" "table_map ty hash t' = table_map ty hash t"
    "e = None \<longleftrightarrow> table_map ty hash t = Map.empty"
    "\<forall>x. e = Some x \<longrightarrow> (\<exists>c k v. current_array t' = Some c \<and> entry_place x = In_Current \<and>
       points_to ty (bucket_at c (entry_index x)) (entry_pointer x) (k, v) \<and> table_map ty hash t k = Some v)"
proof (cases "current_array t = None")
  case True
  then show thesis using that [of None t] ok by (simp add: lock_first_entry_def table_map_simps)
next
  case False
  obtain u where u: "clear_old_array ty hash t = Inr u" "table_ok ty hash u" "same_table ty hash t u" "old_array u = None"
    by (rule clear_old_array_ok [OF ok False room])
  obtain c where c: "current_array u = Some c" using u(3) False by (auto simp: same_table_def)
  note co = table_okD(1,2) [OF u(2) c]
  have tm: "table_map ty hash t = array_map ty hash c" using u(3,4) c by (simp add: same_table_def table_map_simps)
  let ?e = "first_entry ty c [0..<num_buckets c]"
  have f: "case ?e of None \<Rightarrow> (\<forall>i\<in>set [0..<num_buckets c]. bucket_map ty (bucket_at c i) = Map.empty)
    | Some e \<Rightarrow> entry_place e = In_Current \<and> entry_index e < num_buckets c \<and>
        (\<exists>k v. points_to ty (bucket_at c (entry_index e)) (entry_pointer e) (k, v) \<and> array_map ty hash c k = Some v)"
    by (rule first_entry_ok [OF co(1)]) (use co(2) in auto)
  have r: "lock_first_entry ty hash t = Inr (?e, u)" using False u(1) c by (auto simp: lock_first_entry_def)
  have m: "table_map ty hash u = table_map ty hash t" using u(3) by (simp add: same_table_def)
  show thesis
  proof (cases ?e)
    case None
    then have "array_map ty hash c = Map.empty" using f array_okD(4) [OF co(1)] by (auto simp: array_map_def fun_eq_iff)
    then show thesis using that [OF r u(2) m] None tm by simp
  next
    case (Some x)
    then show thesis using that [OF r u(2) m] f tm c by (auto simp: fun_eq_iff)
  qed
qed

section \<open>Relocation and resizing\<close>

text \<open>A table in the middle of a resize, for the examples: one entry in an old array of two buckets, a
  current array of four.\<close>

definition example_hash :: "u64 \<Rightarrow> u64" where
  "example_hash k = k"

text \<open>The first insertion into an empty table.\<close>

lemma first_insertion:
  fixes hash :: "'k \<Rightarrow> u64"
  assumes n: "6 \<le> n" "n \<le> 63"
  obtains t a where "insert_entry SEQUENTIAL hash k v (table_new 0 (2 ^ n)) = Inr (None, t)" "current_array t = Some a"
    "old_array t = None" "array_tag t = TagNone" "minimum_capacity t = 0" "maximum_capacity t = 2 ^ n" "same_frame (ba_new 0 :: ('k, 'v) bucket_array) a"
    "array_ok SEQUENTIAL hash a" "array_map SEQUENTIAL hash a = [k \<mapsto> v]"
proof -
  let ?n = "table_new 0 (2 ^ n) :: ('k, 'v) table" and ?a = "ba_new 0 :: ('k, 'v) bucket_array"
  let ?i = "calculate_bucket_index ?a (hash k)"
  note ok = ba_new_ok [of SEQUENTIAL hash 0, where ?'v = 'v]
  have i: "?i < num_buckets ?a" using array_okD(4) [OF ok(1)] .
  have b: "bucket_at ?a ?i = bucket_new" using i by (simp add: bucket_at_def ba_new_def num_buckets_def Let_def)
  have nk: "\<not> killed (bucket_new :: ('k, 'v) bucket)" 
    by (simp add: killed_def bucket_new_def KILLED_def shl1_def push_bit_eq_mult)
  have r: "reserve_entry 2 SEQUENTIAL hash k ?n =
      Inr (\<lparr>entry_place = In_Current, entry_index = ?i, entry_pointer = ep_new\<rparr>, get_current_array ?n)"
    using b nk by (subst reserve_entry.simps)
      (simp add: table_new_def get_current_array_def Let_def bucket_get_def numeral_2_eq_2 bucket_new_def)
  have nm: "table_map SEQUENTIAL hash ?n = Map.empty" by (rule table_new_map(2) [OF n])
  obtain t where t: "insert_entry SEQUENTIAL hash k v ?n = Inr (None, t)" "table_ok SEQUENTIAL hash t"
    "table_map SEQUENTIAL hash t = [k \<mapsto> v]"
    by (rule insert_entry_ok [OF table_new_map(1) [OF n], of SEQUENTIAL hash k v]) (simp_all add: nm)
  have new0: "num_entries (bucket_new :: ('k, 'v) bucket) \<noteq> - 1" by (simp add: bucket_new_def)
  obtain ep b' where ins: "insert_with (bucket_new :: ('k, 'v) bucket) (partial_hash (hash k)) (k, v) = Inr (ep, b')"
    by (rule insert_with_ok [OF bucket_new_ok(1), of SEQUENTIAL "(k, v)" "ph_of hash"]) (simp_all add: bucket_new_ok(2) new0)
  have te: "t = put_bucket In_Current ?i b' (get_current_array ?n)"
    using t(1) r ins b by (simp add: insert_entry_def array_in_def ep_is_valid_def ep_new_def get_current_array_def table_new_def)
  have cur: "current_array t = Some (set_bucket ?i b' ?a)" "old_array t = None"
    by (simp_all add: te put_bucket_def get_current_array_def table_new_def)
  have "killed b' = killed (bucket_at ?a ?i)" using insert_with_state [OF ins] b by (simp add: killed_def)
  then have f: "same_frame ?a (set_bucket ?i b' ?a)" by (rule same_frame_set_bucket [OF i])
  show thesis
    using that [OF t(1) cur _ _ _ f] table_okD(1) [OF t(2) cur(1)] t(3) cur
    by (simp add: table_map_simps te put_bucket_def get_current_array_def table_new_def)
qed

lemma example_powers: "next_power_of_two (Suc 0) = 1" "next_power_of_two 2 = 2" "next_power_of_two 9 = 16"
  "next_power_of_two 512 = 512" "next_power_of_two 10000 = 16384"
  by (simp_all add: next_power_of_two_def next_pow2_from.simps)

lemma example_sizes: "calculate_log2_array_size 0 = 1" "calculate_log2_array_size 16384 = 9"
  by (simp_all add: calculate_log2_array_size_def USIZE_MAX_def example_powers bit_length.simps)

definition filled :: "(u64, nat) table" where
  "filled =
     (case and_then (insert_entry SEQUENTIAL example_hash 7 1 (table_new 0 (2 ^ 63)))
             (\<lambda>(_, t). clear_old_array SEQUENTIAL example_hash t) of
        Inr t \<Rightarrow> t | Inl _ \<Rightarrow> table_new 0 (2 ^ 63))"

definition halfway :: "(u64, nat) table" where
  "halfway =
     filled\<lparr>current_array := Some (ba_new (resize_to filled (the (current_array filled)) 64)),
            old_array := current_array filled, array_tag := TagNone\<rparr>"

lemma filled_ok:
  "table_ok SEQUENTIAL example_hash filled" "table_map SEQUENTIAL example_hash filled = [7 \<mapsto> 1]"
  "old_array filled = None"
proof -
  let ?n = "table_new 0 (2 ^ 63) :: (u64, nat) table"
  have n: "table_ok SEQUENTIAL example_hash ?n" "table_map SEQUENTIAL example_hash ?n = Map.empty"
    by (rule table_new_map; simp)+
  obtain t where t: "insert_entry SEQUENTIAL example_hash 7 1 ?n = Inr (None, t)" "table_ok SEQUENTIAL example_hash t"
    "table_map SEQUENTIAL example_hash t = [7 \<mapsto> 1]"
    by (rule insert_entry_ok [OF n(1), of 7 1]) (use n(2) in simp_all)
  have c: "current_array t \<noteq> None" using table_map_simps(3) [of t SEQUENTIAL example_hash] t(3) by force
  have r: "roomy (table_map SEQUENTIAL example_hash t)" using t(3) by (simp add: roomy_def)
  obtain u where u: "clear_old_array SEQUENTIAL example_hash t = Inr u" "table_ok SEQUENTIAL example_hash u"
    "same_table SEQUENTIAL example_hash t u" "old_array u = None" by (rule clear_old_array_ok [OF t(2) c r])
  have "filled = u" using t(1) u(1) by (simp add: filled_def)
  then show "table_ok SEQUENTIAL example_hash filled" "table_map SEQUENTIAL example_hash filled = [7 \<mapsto> 1]"
    "old_array filled = None" using u t(3) by (simp_all add: same_table_def)
qed

lemma halfway_ok:
  "table_ok SEQUENTIAL example_hash halfway" "table_map SEQUENTIAL example_hash halfway = [7 \<mapsto> 1]"
  "current_array halfway \<noteq> None" "old_array halfway \<noteq> None" "roomy (table_map SEQUENTIAL example_hash halfway)"
proof -
  obtain c where c: "current_array filled = Some c"
    using table_map_simps(3) [of filled SEQUENTIAL example_hash] filled_ok(2) by force
  have h: "halfway = filled\<lparr>current_array := Some (ba_new (resize_to filled c 64)), old_array := Some c, array_tag := TagNone\<rparr>"
    using c by (simp add: halfway_def)
  show m: "table_map SEQUENTIAL example_hash halfway = [7 \<mapsto> 1]"
    using replaced_ok(2) [OF filled_ok(1) c filled_ok(3), of 64] filled_ok(2) by (simp only: h)
  then show "roomy (table_map SEQUENTIAL example_hash halfway)" by (simp add: roomy_def)
  show "table_ok SEQUENTIAL example_hash halfway"
    using replaced_ok(1) [OF filled_ok(1) c filled_ok(3), of 64] by (simp only: h)
  show "current_array halfway \<noteq> None" "old_array halfway \<noteq> None" by (simp_all add: h)
qed

text \<open>C2. Relocation: one round of \<^verbatim>\<open>incremental_rehash\<close>, the relocation of the bucket of a hash by
  \<^verbatim>\<open>move_entry\<close> and the loop of \<^verbatim>\<open>clear_old_array\<close> return without a panic, keep the invariant and move
  entries without changing the map of the table. After \<^verbatim>\<open>move_entry\<close> the current array answers for every
  key with that hash, and after \<^verbatim>\<open>clear_old_array\<close> there is no old array.\<close>

theorem hash_table_relocation_keeps_map:
  assumes ok: "table_ok ty hash t" and c: "current_array t \<noteq> None" and room: "roomy (table_map ty hash t)"
  shows "(\<exists>t'. incremental_rehash ty hash t = Inr (old_array t' = None, t') \<and> table_ok ty hash t' \<and>
            table_map ty hash t' = table_map ty hash t) \<and>
    (\<exists>t' c'. move_entry ty hash (hash k) t = Inr (old_array t' = None, t') \<and> table_ok ty hash t' \<and>
            table_map ty hash t' = table_map ty hash t \<and> current_array t' = Some c' \<and>
            array_map ty hash c' k = table_map ty hash t k) \<and>
    (\<exists>t'. clear_old_array ty hash t = Inr t' \<and> table_ok ty hash t' \<and> old_array t' = None \<and>
            table_map ty hash t' = table_map ty hash t)"
proof (intro conjI)
  obtain d where d: "current_array t = Some d" using c by blast
  show "\<exists>t'. incremental_rehash ty hash t = Inr (old_array t' = None, t') \<and> table_ok ty hash t' \<and>
      table_map ty hash t' = table_map ty hash t"
    by (rule incremental_rehash_ok [OF ok d room]) (auto simp: same_table_def)
  show "\<exists>t' c'. move_entry ty hash (hash k) t = Inr (old_array t' = None, t') \<and> table_ok ty hash t' \<and>
      table_map ty hash t' = table_map ty hash t \<and> current_array t' = Some c' \<and> array_map ty hash c' k = table_map ty hash t k"
    by (rule move_entry_ok [OF ok d room, of k]) (auto simp: same_table_def)
  show "\<exists>t'. clear_old_array ty hash t = Inr t' \<and> table_ok ty hash t' \<and> old_array t' = None \<and>
      table_map ty hash t' = table_map ty hash t"
    by (rule clear_old_array_ok [OF ok c room]) (auto simp: same_table_def)
qed

theorem hash_table_relocation_keeps_map_witness:
  "old_array halfway \<noteq> None \<and>
   (\<exists>t'. clear_old_array SEQUENTIAL example_hash halfway = Inr t' \<and> old_array t' = None \<and>
      table_map SEQUENTIAL example_hash t' 7 = Some 1)"
  using hash_table_relocation_keeps_map [OF halfway_ok(1,3,5), of 7] halfway_ok(2,4) by auto

text \<open>The target of a resize for any minimum capacity, also one above the size of the array.\<close>

lemma resize_to_limits:
  assumes ok: "array_ok ty hash c" and M: "maximum_capacity t = 2 ^ M" "6 \<le> M" "M \<le> 63" "minimum_capacity t \<le> 2 ^ M" "ba_num_entries c \<le> 2 ^ M"
  shows "resize_to t c est \<le> 2 ^ M" "resize_to t c est \<le> max (32 * ba_num_entries c) (next_power_of_two (minimum_capacity t))"
proof -
  obtain n where n: "ba_num_entries c = 2 ^ (n + 5)" "1 \<le> n" using array_entries [OF ok] by metis
  then have nM: "n + 5 \<le> M" using M(5) by simp
  have six: "(64 :: nat) \<le> 2 ^ (n + 5)" using power_increasing [of 6 "n + 5" "2 :: nat"] n(2) by simp
  have MM: "(2 :: nat) ^ M < 2 ^ 64" using M(3) by (intro power_strict_increasing) simp_all
  have "resize_to t c est \<le> 2 ^ M \<and> resize_to t c est \<le> max (32 * ba_num_entries c) (next_power_of_two (minimum_capacity t))"
  proof (cases "est \<ge> (ba_num_entries c div 8) * 7 \<and> ba_num_entries c \<noteq> maximum_capacity t")
    case True
    then have r: "resize_to t c est = grow_capacity est (2 ^ M) (2 ^ (n + 5)) (2 ^ (n + 5))"
      using n(1) M(1) by (simp add: resize_to_def Let_def)
    have "\<exists>j\<le>5. grow_capacity est (2 ^ M) (2 ^ (n + 5)) (2 ^ (n + 5)) = 2 ^ (n + 5 + j) \<and> n + 5 + j \<le> M"
      by (rule grow_capacity_pow [where j = 0]) (use nM in simp_all)
    then obtain j where j: "j \<le> 5" "resize_to t c est = 2 ^ (n + 5 + j)" "n + 5 + j \<le> M" unfolding r by blast
    have "(2 :: nat) ^ j \<le> 2 ^ 5" using j(1) by (intro power_increasing) simp_all
    then have "(2 :: nat) ^ (n + 5 + j) \<le> 32 * 2 ^ (n + 5)" by (simp add: power_add)
    moreover have "(2 :: nat) ^ (n + 5 + j) \<le> 2 ^ M" using j(3) by simp
    ultimately show ?thesis using j(2) n(1) by simp
  next
    case False
    let ?x = "max (max est (minimum_capacity t)) ba_minimum_capacity"
    have sh: "next_power_of_two ?x \<le> 2 ^ M \<and> next_power_of_two ?x \<le> max (32 * ba_num_entries c) (next_power_of_two (minimum_capacity t))"
      if "est \<le> 2 ^ (n + 5) div 16"
    proof
      have e: "max est ba_minimum_capacity \<le> 2 ^ (n + 5)" using that six div_le_dividend [of "2 ^ (n + 5)" 16] by (simp add: ba_minimum_capacity_def)
      have "(2 :: nat) ^ (n + 5) \<le> 2 ^ M" using nM by simp
      then have "?x \<le> 2 ^ M" using e M(4) by linarith
      then show "next_power_of_two ?x \<le> 2 ^ M" by (rule next_power_of_two_le)
      show "next_power_of_two ?x \<le> max (32 * ba_num_entries c) (next_power_of_two (minimum_capacity t))"
      proof (cases "minimum_capacity t \<le> max est ba_minimum_capacity")
        case True
        then have "?x = max est ba_minimum_capacity" by simp
        then show ?thesis using next_power_of_two_le [OF e] n(1) by simp
      next
        case False
        then have "?x = minimum_capacity t" by simp
        then show ?thesis by simp
      qed
    qed
    have "resize_to t c est = 2 ^ (n + 5) \<or> est \<le> 2 ^ (n + 5) div 16 \<and> resize_to t c est = next_power_of_two ?x mod 2 ^ 64"
      using False n(1) by (auto simp: resize_to_def Let_def)
    then show ?thesis
    proof
      assume "resize_to t c est = 2 ^ (n + 5)"
      then show ?thesis using nM n(1) by simp
    next
      assume "est \<le> 2 ^ (n + 5) div 16 \<and> resize_to t c est = next_power_of_two ?x mod 2 ^ 64"
      then have e: "est \<le> 2 ^ (n + 5) div 16" and r: "resize_to t c est \<le> next_power_of_two ?x" by simp_all
      note h = sh [OF e]
      show ?thesis using order_trans [OF r h [THEN conjunct1]] order_trans [OF r h [THEN conjunct2]] by (rule conjI)
    qed
  qed
  then show "resize_to t c est \<le> 2 ^ M" "resize_to t c est \<le> max (32 * ba_num_entries c) (next_power_of_two (minimum_capacity t))" by blast+
qed

lemma new_array_size:
  assumes "n \<le> 2 ^ k" "6 \<le> k" "n \<le> 2 ^ M" "6 \<le> M" "M \<le> 63"
  shows "ba_num_entries (ba_new n :: ('k, 'v) bucket_array) \<le> 2 ^ k" "ba_num_entries (ba_new n :: ('k, 'v) bucket_array) \<le> 2 ^ M"
proof -
  have "ba_num_entries (ba_new n :: ('k, 'v) bucket_array) \<le> 2 ^ min k M"
    by (rule ba_new_entries(1)) (use assms in \<open>simp_all add: min_def\<close>)
  moreover have "(2 :: nat) ^ min k M \<le> 2 ^ k" "(2 :: nat) ^ min k M \<le> 2 ^ M" by simp_all
  ultimately show "ba_num_entries (ba_new n :: ('k, 'v) bucket_array) \<le> 2 ^ k" "ba_num_entries (ba_new n :: ('k, 'v) bucket_array) \<le> 2 ^ M"
    by (metis order_trans)+
qed

text \<open>C5. \<^verbatim>\<open>try_resize\<close> never changes the map of the table, whatever the sample says and whatever the minimum
  capacity \<open>q\<close>, up to the maximum, is that earlier reservations have left. The capacity stays within the maximum and grows at
  most 32-fold or, by the branch that shrinks to fit, to the power of two that covers \<open>q\<close>. If \<open>q\<close> does
  not exceed the array, the growth is at most 32-fold and the invariant of the table, on which relocation
  relies, is kept; otherwise the growth can exceed what a relocation can handle.\<close>

theorem hash_table_resize_keeps_map:
  assumes ok: "table_ok ty hash t" and q: "q \<le> maximum_capacity t" and u: "u = try_resize ty i (t\<lparr>minimum_capacity := q\<rparr>)"
  shows "table_map ty hash u = table_map ty hash t \<and> num_slots u \<le> maximum_capacity t \<and>
    (current_array t \<noteq> None \<longrightarrow> num_slots u \<le> max (32 * num_slots t) (next_power_of_two q)) \<and>
    (q \<le> num_slots t \<longrightarrow> table_ok ty hash u \<and> num_slots u \<le> 32 * num_slots t)"
proof -
  let ?t = "t\<lparr>minimum_capacity := q\<rparr>"
  obtain M where M: "maximum_capacity t = 2 ^ M" "6 \<le> M" "M \<le> 63" using ok by (auto simp: table_ok_def capacity_ok_def)
  have q': "q \<le> 2 ^ M" using q M(1) by simp
  have small: "table_ok ty hash ?t" if "q \<le> num_slots t"
    using that ok q by (auto simp: table_ok_def capacity_ok_def arrays_ok_def num_slots_def split: option.splits)
  have tm: "table_map ty hash ?t = table_map ty hash t" by (simp add: table_map_def split: option.split)
  have main: "table_map ty hash u = table_map ty hash t \<and> num_slots u \<le> maximum_capacity t \<and>
    (current_array t \<noteq> None \<longrightarrow> num_slots u \<le> max (32 * num_slots t) (next_power_of_two q))"
    unfolding u
  proof (cases rule: try_resize_cases [of ty i ?t])
    case same
    then show "table_map ty hash (try_resize ty i ?t) = table_map ty hash t \<and> num_slots (try_resize ty i ?t) \<le> maximum_capacity t \<and>
        (current_array t \<noteq> None \<longrightarrow> num_slots (try_resize ty i ?t) \<le> max (32 * num_slots t) (next_power_of_two q))"
      using ok tm by (auto simp: table_ok_def capacity_ok_def num_slots_def split: option.splits)
  next
    case untagged
    then show "table_map ty hash (try_resize ty i ?t) = table_map ty hash t \<and> num_slots (try_resize ty i ?t) \<le> maximum_capacity t \<and>
        (current_array t \<noteq> None \<longrightarrow> num_slots (try_resize ty i ?t) \<le> max (32 * num_slots t) (next_power_of_two q))"
      using ok tm by (auto simp: table_ok_def capacity_ok_def num_slots_def table_map_def split: option.splits)
  next
    case (dropped c)
    have c: "current_array t = Some c" "old_array t = None" using dropped(1,2) by simp_all
    note co = table_okD(1) [OF ok c(1)]
    have "num_entries (bucket_at c (calculate_bucket_index c h)) = 0" for h
      using dropped(4) array_okD(4) [OF co] by (simp add: list_all_length bucket_at_def num_buckets_def)
    then have "array_map ty hash c = Map.empty" using bucket_of_key [OF co] empty_bucket_map by (metis ext)
    then show "table_map ty hash (try_resize ty i ?t) = table_map ty hash t \<and> num_slots (try_resize ty i ?t) \<le> maximum_capacity t \<and>
        (current_array t \<noteq> None \<longrightarrow> num_slots (try_resize ty i ?t) \<le> max (32 * num_slots t) (next_power_of_two q))"
      using dropped(3) c by (simp add: table_map_simps num_slots_def)
  next
    case (replaced c n)
    have c: "current_array t = Some c" "old_array t = None" using replaced(1,2) by simp_all
    note co = table_okD(1) [OF ok c(1)]
    have eM: "ba_num_entries c \<le> 2 ^ M" using ok c(1) M(1) by (auto simp: table_ok_def capacity_ok_def)
    note l = resize_to_limits [OF co, of ?t M "sample c i (full_sample_size c)", simplified, OF M q' eM, folded replaced(3)]
    obtain k where k: "ba_num_entries c = 2 ^ (k + 5)" "1 \<le> k" using array_entries [OF co] by metis
    obtain K where K: "next_power_of_two q = 2 ^ K" by (rule next_power_of_two_spec)
    have "32 * ba_num_entries c = 2 ^ (k + 10)" by (simp add: k(1) power_add)
    then have "max (32 * ba_num_entries c) (next_power_of_two q) = 2 ^ max (k + 10) K"
      unfolding K by (simp add: max_def)
    then have nK: "n \<le> 2 ^ max (k + 10) K" using l(2) by simp
    note sz = new_array_size [OF nK _ l(1) M(2,3), where ?'k = 'a and ?'v = 'b]
    have "ba_num_entries (ba_new n :: ('a, 'b) bucket_array) \<le> max (32 * ba_num_entries c) (next_power_of_two q)"
      using sz(1) \<open>max (32 * ba_num_entries c) (next_power_of_two q) = 2 ^ max (k + 10) K\<close> by simp
    moreover have "ba_num_entries (ba_new n :: ('a, 'b) bucket_array) \<le> 2 ^ M" using sz(2) by simp
    moreover have "table_map ty hash (try_resize ty i ?t) = table_map ty hash t"
      using replaced(4) c ba_new_ok(2) [of ty hash n, where ?'v = 'b] by (simp add: table_map_simps pair_map_def)
    ultimately show "table_map ty hash (try_resize ty i ?t) = table_map ty hash t \<and> num_slots (try_resize ty i ?t) \<le> maximum_capacity t \<and>
        (current_array t \<noteq> None \<longrightarrow> num_slots (try_resize ty i ?t) \<le> max (32 * num_slots t) (next_power_of_two q))"
      using replaced(4) c M(1) by (simp add: num_slots_def)
  qed
  have "table_ok ty hash u \<and> num_slots u \<le> 32 * num_slots t" if s: "q \<le> num_slots t"
  proof
    show "table_ok ty hash u" unfolding u by (rule try_resize_ok(1) [OF small [OF s]])
    show "num_slots u \<le> 32 * num_slots t"
    proof (cases "current_array t")
      case None
      then show ?thesis using s u by (simp add: try_resize_def num_slots_def)
    next
      case (Some c)
      obtain k where k: "ba_num_entries c = 2 ^ (k + 5)" using array_entries [OF table_okD(1) [OF ok Some]] by metis
      have "q \<le> 2 ^ (k + 5)" using s Some k by (simp add: num_slots_def)
      then have "next_power_of_two q \<le> num_slots t" using next_power_of_two_le Some k by (simp add: num_slots_def)
      then show ?thesis using main Some by simp
    qed
  qed
  then show ?thesis using main by blast
qed

text \<open>A reservation of 10000 slots on the table with one entry and 64 slots.\<close>

lemma filled_sizes:
  "num_slots filled = 64" "maximum_capacity filled = 2 ^ 63"
  "num_slots (try_resize SEQUENTIAL 0 (filled\<lparr>minimum_capacity := 10000\<rparr>)) = 16384"
proof -
  obtain t a where t: "insert_entry SEQUENTIAL example_hash 7 (1 :: nat) (table_new 0 (2 ^ 63)) = Inr (None, t)"
    "current_array t = Some a" "old_array t = None" "array_tag t = TagNone" "minimum_capacity t = 0" "maximum_capacity t = 2 ^ 63"
    "same_frame (ba_new 0) a" "array_ok SEQUENTIAL example_hash a" "array_map SEQUENTIAL example_hash a = [7 \<mapsto> 1]"
    by (rule first_insertion [of 63 example_hash 7 "1 :: nat"]) simp_all
  have f: "filled = t" using t(1,3) by (simp add: filled_def clear_old_array_def clear_loop.simps)
  have a: "num_buckets a = 2" "num_cleared_buckets a = 0" "sample_size a = 1" "hash_offset a = 63"
    using same_frameD(1) [OF t(7)] t(7)
    by (simp_all add: same_frame_def ba_new_def num_buckets_def Let_def example_sizes example_powers)
  show "num_slots filled = 64" "maximum_capacity filled = 2 ^ 63" using t(2,6) a by (simp_all add: f num_slots_def ba_num_entries_def)
  have i: "calculate_bucket_index a (example_hash 7) = 0"
    by (simp add: calculate_bucket_index_def a example_hash_def drop_bit_eq_div)
  have "bucket_map SEQUENTIAL (bucket_at a 0) = [7 \<mapsto> 1]"
    using array_map_bucket [OF t(8), of 0] t(9) i a(1) by (auto simp: fun_eq_iff)
  moreover have "bucket_ok SEQUENTIAL (ph_of example_hash) (bucket_at a 0)" using array_okD(2) [OF t(8)] a(1) by simp
  ultimately have "unat (num_entries (bucket_at a 0)) = 1" using bucket_card(1) by fastforce
  then have est: "sample a 0 (full_sample_size a) = 2" by (simp add: sample_def full_sample_size_def a)
  have r: "resize_to (t\<lparr>minimum_capacity := 10000\<rparr>) a 2 = 16384"
    by (simp add: resize_to_def ba_num_entries_def a ba_minimum_capacity_def example_powers Let_def)
  have n: "ba_num_entries (ba_new 16384 :: (u64, nat) bucket_array) = 16384"
    by (simp add: ba_new_def num_buckets_def ba_num_entries_def Let_def example_sizes example_powers)
  show "num_slots (try_resize SEQUENTIAL 0 (filled\<lparr>minimum_capacity := 10000\<rparr>)) = 16384"
    using t(2-5) est r n by (simp add: f try_resize_def Let_def num_slots_def ba_num_entries_def [of a] a)
qed

theorem hash_table_resize_keeps_map_witness:
  "table_map SEQUENTIAL example_hash (try_resize SEQUENTIAL 0 (filled\<lparr>minimum_capacity := 10000\<rparr>)) 7 = Some 1 \<and>
   num_slots (try_resize SEQUENTIAL 0 (filled\<lparr>minimum_capacity := 10000\<rparr>)) = 16384 \<and> num_slots filled = 64"
  using hash_table_resize_keeps_map [OF filled_ok(1) _ refl, of 10000 0] filled_ok(2) filled_sizes by simp

section \<open>Operations on one entry\<close>

text \<open>C3. \<^verbatim>\<open>insert_entry\<close> is insertion into the map of the table: in a table with fewer than \<open>2 ^ 32 - 1\<close>
  entries it returns without a panic, stores the entry if the key is absent and otherwise returns the
  rejected pair and leaves the map alone, also while the table is being resized or enlarged.\<close>

theorem hash_table_insert:
  assumes "table_ok ty hash t" "roomy (table_map ty hash t)"
  shows "\<exists>t'. insert_entry ty hash k v t = Inr (if table_map ty hash t k = None then None else Some (k, v), t') \<and>
    table_ok ty hash t' \<and>
    table_map ty hash t' = (if table_map ty hash t k = None then (table_map ty hash t)(k \<mapsto> v) else table_map ty hash t)"
  by (rule insert_entry_ok [OF assms, of k v]) blast

theorem hash_table_insert_witness:
  "(\<exists>t'. insert_entry SEQUENTIAL example_hash 8 2 halfway = Inr (None, t') \<and>
      table_map SEQUENTIAL example_hash t' = [7 \<mapsto> 1, 8 \<mapsto> 2]) \<and>
   (\<exists>t'. insert_entry SEQUENTIAL example_hash 7 2 halfway = Inr (Some (7, 2), t') \<and>
      table_map SEQUENTIAL example_hash t' = [7 \<mapsto> 1])"
  using hash_table_insert [OF halfway_ok(1,5), of 8 2] hash_table_insert [OF halfway_ok(1,5), of 7 2] halfway_ok(2) by auto

text \<open>\<^verbatim>\<open>read_entry\<close> is lookup in the map of the table, for the three table types, and leaves the map
  alone while it helps relocating.\<close>

theorem hash_table_read:
  assumes "table_ok ty hash t" "roomy (table_map ty hash t)"
  shows "\<exists>t'. read_entry ty hash k t = Inr (map_option (Pair k) (table_map ty hash t k), t') \<and>
    table_ok ty hash t' \<and> table_map ty hash t' = table_map ty hash t"
  by (rule read_entry_ok [OF assms, of k]) blast

theorem hash_table_read_witness:
  "\<exists>t'. read_entry SEQUENTIAL example_hash 7 halfway = Inr (Some (7, 1), t')"
  using hash_table_read [OF halfway_ok(1,5), of 7] halfway_ok(2) by auto

text \<open>C4. \<^verbatim>\<open>remove_entry\<close>: the condition is asked for the value of a present key and may change it; the
  entry is removed exactly if the condition holds. The removed entry is returned except by an optimistic
  table, which only marks it.\<close>

theorem hash_table_remove:
  assumes "table_ok ty hash t" "roomy (table_map ty hash t)"
  shows "\<exists>t'. remove_entry ty hash k condition t =
      Inr (case table_map ty hash t k of
             None \<Rightarrow> None
           | Some v \<Rightarrow> if fst (condition v)
                       then Some (if ty = OPTIMISTIC then None else Some (k, snd (condition v))) else None, t') \<and>
    table_ok ty hash t' \<and>
    table_map ty hash t' = (table_map ty hash t)(k :=
      (case table_map ty hash t k of
         None \<Rightarrow> None
       | Some v \<Rightarrow> if fst (condition v) then None else Some (snd (condition v))))"
  by (rule remove_entry_ok [OF assms, of k condition]) blast

theorem hash_table_remove_witness:
  "(\<exists>t'. remove_entry SEQUENTIAL example_hash 7 (\<lambda>v. (v = 1, v)) halfway = Inr (Some (Some (7, 1)), t') \<and>
      table_map SEQUENTIAL example_hash t' = Map.empty) \<and>
   (\<exists>t'. remove_entry SEQUENTIAL example_hash 7 (\<lambda>v. (v = 2, 3)) halfway = Inr (None, t') \<and>
      table_map SEQUENTIAL example_hash t' = [7 \<mapsto> 3])"
  using hash_table_remove [OF halfway_ok(1,5), of 7 "\<lambda>v. (v = 1, v)"]
    hash_table_remove [OF halfway_ok(1,5), of 7 "\<lambda>v. (v = 2, 3)"] halfway_ok(2) by auto

section \<open>Operations on all entries\<close>

text \<open>C6. \<^verbatim>\<open>retain_entries\<close> keeps exactly the entries the predicate accepts, with the value the predicate
  left, for the three table types; \<^verbatim>\<open>prune_entries\<close> replaces or removes each entry as the predicate says, for
  the table types that give up ownership of the value. Every entry is visited once although the table
  may still be relocating when the call starts.\<close>

theorem hash_table_retain_and_prune:
  assumes "table_ok ty hash t" "roomy (table_map ty hash t)"
  shows "(\<exists>t'. retain_entries ty hash pred t = Inr t' \<and> table_ok ty hash t' \<and>
      table_map ty hash t' = (\<lambda>k. Option.bind (table_map ty hash t k)
        (\<lambda>v. if fst (pred k v) then Some (snd (pred k v)) else None))) \<and>
    (ty \<noteq> OPTIMISTIC \<longrightarrow> (\<exists>t'. prune_entries ty hash keep t = Inr t' \<and> table_ok ty hash t' \<and>
      table_map ty hash t' = (\<lambda>k. Option.bind (table_map ty hash t k) (keep k))))"
proof (intro conjI impI)
  obtain t' where "over_entries ty hash (retain_body ty pred) t = Inr t'" "table_ok ty hash t'"
    "table_map ty hash t' = (\<lambda>k. Option.bind (table_map ty hash t k) (retained pred k))"
    by (rule retain.over_entries_ok [OF assms])
  then show "\<exists>t'. retain_entries ty hash pred t = Inr t' \<and> table_ok ty hash t' \<and>
      table_map ty hash t' = (\<lambda>k. Option.bind (table_map ty hash t k)
        (\<lambda>v. if fst (pred k v) then Some (snd (pred k v)) else None))"
    by (auto simp: retain_entries_def retained_def [abs_def])
next
  assume "ty \<noteq> OPTIMISTIC"
  then consider "ty = SEQUENTIAL" | "ty = CACHE" by (cases ty) auto
  then show "\<exists>t'. prune_entries ty hash keep t = Inr t' \<and> table_ok ty hash t' \<and>
      table_map ty hash t' = (\<lambda>k. Option.bind (table_map ty hash t k) (keep k))"
  proof cases
    case 1
    show ?thesis unfolding 1 prune_entries_def
      by (rule prune_sequential.over_entries_ok [OF assms [unfolded 1], of keep]) blast
  next
    case 2
    show ?thesis unfolding 2 prune_entries_def
      by (rule prune_cache.over_entries_ok [OF assms [unfolded 2], of keep]) blast
  qed
qed

theorem hash_table_retain_and_prune_witness:
  "(\<exists>t'. retain_entries SEQUENTIAL example_hash (\<lambda>k v. (True, v + 1)) halfway = Inr t' \<and>
      table_map SEQUENTIAL example_hash t' 7 = Some 2) \<and>
   (\<exists>t'. prune_entries SEQUENTIAL example_hash (\<lambda>k v. None) halfway = Inr t' \<and>
      table_map SEQUENTIAL example_hash t' 7 = None)"
  using hash_table_retain_and_prune [OF halfway_ok(1,5), of "\<lambda>k v. (True, v + 1)" "\<lambda>k v. None"] halfway_ok(2) by auto

text \<open>Queries on the whole table: \<^verbatim>\<open>num_entries\<close> is the number of keys, \<^verbatim>\<open>has_entry\<close> whether there is
  one, \<^verbatim>\<open>any_entry\<close> whether some entry satisfies the predicate, and \<^verbatim>\<open>lock_first_entry\<close> finds an entry
  whenever there is one. None of them changes the map, although the first two may drop an empty
  array and the others finish a pending relocation.\<close>

theorem hash_table_queries:
  assumes "table_ok ty hash t" "roomy (table_map ty hash t)"
  shows "fst (ht_num_entries ty t) = card (dom (table_map ty hash t)) \<and>
    table_map ty hash (snd (ht_num_entries ty t)) = table_map ty hash t \<and>
    (fst (has_entry ty t) \<longleftrightarrow> table_map ty hash t \<noteq> Map.empty) \<and>
    table_map ty hash (snd (has_entry ty t)) = table_map ty hash t \<and>
    (\<exists>t'. any_entry ty hash pred t = Inr (\<exists>k v. table_map ty hash t k = Some v \<and> pred k v, t') \<and>
       table_ok ty hash t' \<and> table_map ty hash t' = table_map ty hash t) \<and>
    (\<exists>e t'. lock_first_entry ty hash t = Inr (e, t') \<and> table_ok ty hash t' \<and> table_map ty hash t' = table_map ty hash t \<and>
       (e = None \<longleftrightarrow> table_map ty hash t = Map.empty) \<and>
       (\<forall>x. e = Some x \<longrightarrow> (\<exists>c k v. current_array t' = Some c \<and> entry_place x = In_Current \<and>
          points_to ty (bucket_at c (entry_index x)) (entry_pointer x) (k, v) \<and> table_map ty hash t k = Some v)))"
proof (intro conjI)
  show "\<exists>t'. any_entry ty hash pred t = Inr (\<exists>k v. table_map ty hash t k = Some v \<and> pred k v, t') \<and>
       table_ok ty hash t' \<and> table_map ty hash t' = table_map ty hash t"
    by (rule any_entry_ok [OF assms, of pred]) blast
  show "\<exists>e t'. lock_first_entry ty hash t = Inr (e, t') \<and> table_ok ty hash t' \<and> table_map ty hash t' = table_map ty hash t \<and>
       (e = None \<longleftrightarrow> table_map ty hash t = Map.empty) \<and>
       (\<forall>x. e = Some x \<longrightarrow> (\<exists>c k v. current_array t' = Some c \<and> entry_place x = In_Current \<and>
          points_to ty (bucket_at c (entry_index x)) (entry_pointer x) (k, v) \<and> table_map ty hash t k = Some v))"
    by (rule lock_first_entry_ok [OF assms]) blast
qed (use ht_num_entries_ok [OF assms(1)] has_entry_ok [OF assms(1)] in blast)+

theorem hash_table_queries_witness:
  "fst (ht_num_entries SEQUENTIAL halfway) = 1 \<and> fst (has_entry SEQUENTIAL halfway) \<and>
   (\<exists>t'. any_entry SEQUENTIAL example_hash (\<lambda>k v. v = 1) halfway = Inr (True, t')) \<and>
   (\<exists>x t'. lock_first_entry SEQUENTIAL example_hash halfway = Inr (Some x, t'))"
  using hash_table_queries [OF halfway_ok(1,5), of "\<lambda>k v. v = 1"] halfway_ok(2)
  by (auto split: if_splits)

lemma get_entry_ok:
  assumes ok: "table_ok ty hash t" and room: "roomy (table_map ty hash t)"
  obtains e t' where "get_entry ty hash k t = Inr (e, t')" "table_ok ty hash t'" "table_map ty hash t' = table_map ty hash t"
    "e = None \<longleftrightarrow> table_map ty hash t k = None"
    "\<forall>x. e = Some x \<longrightarrow> (\<exists>c v. current_array t' = Some c \<and> entry_place x = In_Current \<and>
       points_to ty (bucket_at c (entry_index x)) (entry_pointer x) (k, v) \<and> table_map ty hash t k = Some v)"
    "\<forall>x c. e = Some x \<longrightarrow> current_array t' = Some c \<longrightarrow> entry_index x < num_buckets c"
proof (cases "current_array t")
  case None
  then show thesis using that [of None t] ok by (simp add: get_entry_def table_map_simps)
next
  case (Some c)
  obtain sh u d where m:
    "(if old_array t \<noteq> None then move_entry ty hash (hash k) t else Inr (True, t)) = Inr (sh, u)"
    "table_ok ty hash u" "table_map ty hash u = table_map ty hash t" "current_array u = Some d"
    "array_map ty hash d k = table_map ty hash t k" by (rule prepare_entry [OF ok Some room])
  note dok = table_okD(1,2) [OF m(2,4)]
  let ?i = "calculate_bucket_index d (hash k)"
  let ?ep = "bucket_get ty (bucket_at d ?i) k (ph_of hash k)"
  have nk: "\<not> killed (bucket_at d ?i)" using dok array_okD(4) by blast
  note bk = bucket_of_key [OF dok(1), of k]
  have prep: "(if old_array t \<noteq> None then and_then (move_entry ty hash (hash k) t) (\<lambda>(_, t). Inr t) else Inr t) = Inr u"
    using m(1) by (cases "old_array t") auto
  have g: "get_entry ty hash k t = Inr (if ep_is_valid ?ep
      then Some \<lparr>entry_place = In_Current, entry_index = ?i, entry_pointer = ?ep\<rparr> else None, u)"
    using prep nk m(4) Some unfolding get_entry_def by (simp add: Let_def)
  from bk(1) show thesis
  proof (cases rule: get_cases [of ty "ph_of hash" "bucket_at d ?i" k])
    case (found v)
    have "ep_is_valid ?ep" by (rule points_to_valid(1) [OF bk(1) found(1)])
    then show thesis using that [OF g m(2,3)] found bk(2) m(4,5) array_okD(4) [OF dok(1)] by simp
  next
    case missing
    then have "\<not> ep_is_valid ?ep" by (simp add: ep_is_valid_def ep_new_def)
    then show thesis using that [OF g m(2,3)] missing bk(2) m(5) by simp
  qed
qed

end
