(* ===== verification/Hash_Table_Reserve.thy ===== *)
theory Hash_Table_Reserve
  imports Hash_Table_Thms
begin

text \<open>
  Runs of calls on a hash table, and a reservation that makes the table panic: \<^verbatim>\<open>reserve_capacity\<close> raises
  the minimum capacity, and \<^verbatim>\<open>try_resize\<close> then replaces a sparse array by one that is more than 32 times
  as large, which \<^verbatim>\<open>relocate_bucket\<close> cannot handle.
\<close>

section \<open>Runs of calls\<close>

definition table_call ::
  "btype \<Rightarrow> ('k \<Rightarrow> u64) \<Rightarrow> ('k, 'v) table \<Rightarrow> ('k, 'v) store_call \<Rightarrow> ('v store_answer \<times> ('k, 'v) table) ht_result" where
  "table_call ty hash t c =
     (case c of
        Call_Insert k v \<Rightarrow> and_then (insert_entry ty hash k v t) (\<lambda>(r, t). Inr (Inserted (r = None), t))
      | Call_Lookup k \<Rightarrow> and_then (read_entry ty hash k t) (\<lambda>(r, t). Inr (Found (map_option snd r), t))
      | Call_Remove k \<Rightarrow> and_then (remove_entry ty hash k (Pair True) t) (\<lambda>(r, t). Inr (Removed (r \<noteq> None), t)))"

interpretation ht: keyed_store "table_ok ty hash" "table_map ty hash" "2 ^ 32 - 1" "table_call ty hash" for ty hash
proof
  fix t :: "('a, 'b) table" and c :: "('a, 'b) store_call"
  assume ok: "table_ok ty hash t" and fin: "finite (dom (table_map ty hash t))" "card (dom (table_map ty hash t)) < 2 ^ 32 - 1"
  then have room: "roomy (table_map ty hash t)" by (simp add: roomy_def)
  show "\<exists>a t'. table_call ty hash t c = Inr (a, t') \<and> table_ok ty hash t' \<and>
      (a, table_map ty hash t') = spec_store_call (table_map ty hash t) c"
  proof (cases c)
    case (Call_Insert k v)
    show ?thesis by (rule insert_entry_ok [OF ok room, of k v]) (auto simp: Call_Insert table_call_def)
  next
    case (Call_Lookup k)
    show ?thesis
      by (rule read_entry_ok [OF ok room, of k])
        (auto simp: Call_Lookup table_call_def option.map_comp comp_def option.map_ident)
  next
    case (Call_Remove k)
    show ?thesis
      by (rule remove_entry_ok [OF ok room, of k "Pair True"])
        (auto simp: Call_Remove table_call_def fun_upd_idem_iff split: option.splits)
  qed
qed

text \<open>C1. Any sequence of fewer than \<open>2 ^ 32\<close> insertions, lookups and removals on a new table, with
  the resizing, relocating, shrinking and dropping of arrays that it causes, returns without a panic and
  gives the answers of a finite map; the hash function is arbitrary.\<close>

theorem hash_table_refines_map:
  fixes hash :: "'k \<Rightarrow> u64"
  assumes n: "6 \<le> n" "n \<le> 63" and c: "capacity \<le> 2 ^ n" and len: "length cs < 2 ^ 32"
  shows "\<exists>t :: ('k, 'v) table. run_calls (table_call ty hash) cs (table_new capacity (2 ^ n)) =
      Inr (fst (spec_run cs Map.empty), t) \<and> table_ok ty hash t \<and> table_map ty hash t = snd (spec_run cs Map.empty)"
proof -
  note new = table_new_ok [OF n c, of ty hash, where ?'v = 'v]
  have "\<exists>as t. run_calls (table_call ty hash) cs (table_new capacity (2 ^ n)) = Inr (as, t) \<and> table_ok ty hash t \<and>
      (as, table_map ty hash t) = spec_run cs (table_map ty hash (table_new capacity (2 ^ n) :: ('k, 'v) table))"
    by (rule ht.run_refines [OF new(1)]) (use len new(2) in simp_all)
  then show ?thesis unfolding new(2) by (metis fst_conv snd_conv)
qed

theorem hash_table_refines_map_witness:
  "\<exists>t. run_calls (table_call CACHE example_hash)
      [Call_Insert 1 10, Call_Insert 1 20, Call_Lookup 1, Call_Remove 1, Call_Lookup 1] (table_new 0 (2 ^ 63)) =
      Inr ([Inserted True, Inserted False, Found (Some (10 :: nat)), Removed True, Found None], t)"
  using hash_table_refines_map [of 63 0
    "[Call_Insert 1 (10 :: nat), Call_Insert 1 20, Call_Lookup 1, Call_Remove 1, Call_Lookup 1]" CACHE example_hash]
  by auto

text \<open>\<^verbatim>\<open>get_entry\<close> returns a pointer to the entry of the key in the current array, or nothing if the key
  is absent.\<close>

theorem hash_table_get_entry:
  assumes "table_ok ty hash t" "roomy (table_map ty hash t)"
  shows "\<exists>e t'. get_entry ty hash k t = Inr (e, t') \<and> table_ok ty hash t' \<and> table_map ty hash t' = table_map ty hash t \<and>
    (e = None \<longleftrightarrow> table_map ty hash t k = None) \<and>
    (\<forall>x. e = Some x \<longrightarrow> (\<exists>c v. current_array t' = Some c \<and> entry_place x = In_Current \<and>
       points_to ty (bucket_at c (entry_index x)) (entry_pointer x) (k, v) \<and> table_map ty hash t k = Some v))"
  by (rule get_entry_ok [OF assms, of k]) (intro exI conjI; assumption)

theorem hash_table_get_entry_witness:
  "(\<exists>x t'. get_entry SEQUENTIAL example_hash 7 halfway = Inr (Some x, t')) \<and>
   (\<exists>t'. get_entry SEQUENTIAL example_hash 8 halfway = Inr (None, t'))"
  using hash_table_get_entry [OF halfway_ok(1,5), of 7] hash_table_get_entry [OF halfway_ok(1,5), of 8] halfway_ok(2)
  by auto

section \<open>A reservation that makes the table panic\<close>

lemma relocate_loop_out_of_bounds:
  assumes "ep_in b ep" "ahead ty b ep = p # ps" "ep_get b p = Some e"
    and "relocation_of hash current old ti b p (fst e) = (ni, ph)" "ti + 32 \<le> ni"
  shows "relocate_loop (Suc fuel) ty hash old ti 0 ep b current = Inl Target_Out_Of_Bounds"
  using ep_next_ahead(1) [OF assms(1), of ty] assms lock_targets_out_of_bounds [of "ni - ti" 0]
  by (subst relocate_loop.simps) (simp add: Let_def)

text \<open>A bucket with one entry whose new bucket is 32 or more behind the first target.\<close>

lemma relocate_bucket_out_of_bounds:
  assumes ok: "bucket_ok ty ph (bucket_at old i)" and m: "bucket_map ty (bucket_at old i) = [k \<mapsto> v]"
    and size: "num_buckets old < num_buckets current"
    and far: "target_of current old i + 32 \<le> calculate_bucket_index current (hash k)"
  shows "relocate_bucket ty hash i (old, current) = Inl Target_Out_Of_Bounds"
proof -
  let ?b = "bucket_at old i"
  have new: "ep_in ?b ep_new" by (simp add: ep_in_def ep_new_def)
  have one: "unat (num_entries ?b) = Suc 0" using bucket_card(1) [OF ok] m by simp
  then obtain e where e: "bucket_entries ty ?b = [e]" using bucket_okD(3) [OF ok] by (cases "bucket_entries ty ?b") simp_all
  then have "e = (k, v)" using bucket_map_Some_iff [OF ok, of k v] m by simp
  then have es: "map (ep_get ?b) (ahead ty ?b ep_new) = [Some (k, v)]" using ahead_new_entries [OF ok] e by simp
  then obtain p where p: "ahead ty ?b ep_new = [p]" "ep_get ?b p = Some (k, v)" by auto
  have re: "relocation_of hash current old (target_of current old i) ?b p (fst (k, v)) =
      (calculate_bucket_index current (hash k), partial_hash (hash k))"
    using size by (simp add: relocation_of_def)
  have "num_entries ?b \<noteq> 0" using one by auto
  then show ?thesis
    using relocate_loop_out_of_bounds [OF new p re far, of 0] one by (simp add: relocate_bucket_def)
qed

text \<open>C7. The sequence insert, reserve, insert on a table with room for a single resize: the reservation of
  10000 slots replaces the array of two buckets by one of 512, more than 32 times as many, and the
  insertion that follows panics when \<^verbatim>\<open>relocate_bucket\<close> indexes its array of 32 target lockers out of
  bounds. The hash of the first key is the largest one that belongs into the first bucket.\<close>

theorem reserve_then_insert_panics:
  "\<exists>t u. insert_entry SEQUENTIAL example_hash (2 ^ 63 - 1) (1 :: nat) (table_new 0 (2 ^ 63)) = Inr (None, t) \<and>
     reserve_capacity SEQUENTIAL 10000 t = (10000, u) \<and>
     insert_entry SEQUENTIAL example_hash 0 2 u = Inl Target_Out_Of_Bounds"
proof -
  let ?k = "2 ^ 63 - 1 :: u64" and ?new = "ba_new 16384 :: (u64, nat) bucket_array"
  obtain t a where t: "insert_entry SEQUENTIAL example_hash ?k (1 :: nat) (table_new 0 (2 ^ 63)) = Inr (None, t)"
    "current_array t = Some a" "old_array t = None" "array_tag t = TagNone" "minimum_capacity t = 0" "maximum_capacity t = 2 ^ 63"
    "same_frame (ba_new 0) a" "array_ok SEQUENTIAL example_hash a" "array_map SEQUENTIAL example_hash a = [?k \<mapsto> 1]"
    by (rule first_insertion [of 63 example_hash ?k "1 :: nat"]) simp_all
  have a: "num_buckets a = 2" "num_cleared_buckets a = 0" "sample_size a = 1" "hash_offset a = 63"
    using same_frameD(1) [OF t(7)] t(7) by (simp_all add: same_frame_def ba_new_def num_buckets_def Let_def example_sizes example_powers)
  have i: "calculate_bucket_index a (example_hash ?k) = 0" by (simp add: calculate_bucket_index_def a example_hash_def drop_bit_eq_div)
  have m: "bucket_map SEQUENTIAL (bucket_at a 0) = [?k \<mapsto> 1]"
    using array_map_bucket [OF t(8), of 0] t(9) i a(1) by (auto simp: fun_eq_iff)
  have b: "bucket_ok SEQUENTIAL (ph_of example_hash) (bucket_at a 0)" using array_okD(2) [OF t(8)] a(1) by simp
  have "num_buckets (ba_new 0 :: (u64, nat) bucket_array) = 2" using same_frameD(1) [OF t(7)] a(1) by simp
  then have nk: "\<not> killed (bucket_at a 0)"
    using same_frameD(5) [OF t(7), of 0] new_killed [where ?'a = u64 and ?'b = nat and ?'c = u64 and ?'d = nat, of 0 0] by simp
  have "unat (num_entries (bucket_at a 0)) = 1" using bucket_card(1) [OF b] m by simp
  then have est: "sample a 0 (full_sample_size a) = 2" by (simp add: sample_def full_sample_size_def a)
  let ?t = "t\<lparr>minimum_capacity := 10000\<rparr>"
  let ?u = "?t\<lparr>current_array := Some ?new, old_array := Some a, array_tag := TagNone\<rparr>"
  have "resize_to ?t a 2 = 16384"
    by (simp add: resize_to_def ba_num_entries_def a ba_minimum_capacity_def example_powers Let_def)
  then have u: "reserve_capacity SEQUENTIAL 10000 t = (10000, ?u)"
    using t(2-5) est by (simp add: reserve_capacity_def try_resize_def Let_def USIZE_MAX_def ba_num_entries_def a)
  have n: "num_buckets ?new = 512" "calculate_bucket_index ?new (example_hash ?k) = 255"
    by (simp_all add: ba_new_def num_buckets_def Let_def example_sizes example_powers calculate_bucket_index_def example_hash_def drop_bit_eq_div)
  let ?a = "a\<lparr>num_cleared_buckets := 33\<rparr>"
  have at: "num_buckets ?a = 2" "bucket_at ?a i = bucket_at a i" for i by (simp_all add: num_buckets_def bucket_at_def a [unfolded num_buckets_def])
  have "relocate_bucket SEQUENTIAL example_hash 0 (?a, ?new) = Inl Target_Out_Of_Bounds"
    by (rule relocate_bucket_out_of_bounds [where k = ?k and v = 1 and ph = "ph_of example_hash"])
      (use b m n a(1) in \<open>simp_all add: at target_of_def\<close>)
  then have "rehash_range SEQUENTIAL example_hash [0..<2] (?a, ?new) = Inl Target_Out_Of_Bounds"
    using nk by (simp add: at upt_rec)
  then have "incremental_rehash SEQUENTIAL example_hash ?u = Inl Target_Out_Of_Bounds"
    using a by (simp add: incremental_rehash_def Let_def)
  then have "insert_entry SEQUENTIAL example_hash 0 2 ?u = Inl Target_Out_Of_Bounds"
    by (simp add: insert_entry_def numeral_2_eq_2 reserve_entry.simps get_current_array_def move_entry_def)
  then show ?thesis using t(1) u by blast
qed

end
