(* ===== verification/Hash_Entry.thy ===== *)
theory Hash_Entry
  imports Hash_Table_Thms
begin

text \<open>
  Locked entries: what the types \<^verbatim>\<open>OccupiedEntry\<close> and \<^verbatim>\<open>VacantEntry\<close> of \<^verbatim>\<open>HashMap\<close>, \<^verbatim>\<open>HashIndex\<close> and
  \<^verbatim>\<open>HashCache\<close> do with the bucket they hold the lock of, and \<^verbatim>\<open>LockedEntry::next\<close> of \<^verbatim>\<open>src/hash_table.rs\<close>.
  The code of the three containers is the same up to the table type, which is the argument \<open>ty\<close>. A
  locked entry names the bucket by its place and index; the operations read and write that bucket of
  the table.
\<close>

section \<open>Operations\<close>

text \<open>Access to the bucket of a locked entry.\<close>

definition with_bucket ::
  "locked_entry \<Rightarrow> (('k, 'v) bucket \<Rightarrow> ('a \<times> ('k, 'v) bucket) ht_result) \<Rightarrow> ('k, 'v) table \<Rightarrow>
     ('a \<times> ('k, 'v) table) ht_result" where
  "with_bucket e f t =
     (case array_in (entry_place e) t of
        None \<Rightarrow> Inl Uninitialized_Read
      | Some a \<Rightarrow>
          and_then (f (bucket_at a (entry_index e)))
            (\<lambda>(r, b). Inr (r, put_bucket (entry_place e) (entry_index e) b t)))"

text \<open>\<^verbatim>\<open>OccupiedEntry::key\<close> and \<^verbatim>\<open>get\<close>: the entry pointed to.\<close>

definition occupied_read :: "locked_entry \<Rightarrow> ('k, 'v) table \<Rightarrow> ('k \<times> 'v) ht_result" where
  "occupied_read e t =
     (case array_in (entry_place e) t of
        None \<Rightarrow> Inl Uninitialized_Read
      | Some a \<Rightarrow>
          (case ep_get (bucket_at a (entry_index e)) (entry_pointer e) of
             None \<Rightarrow> Inl Uninitialized_Read
           | Some kv \<Rightarrow> Inr kv))"

definition occupied_key :: "locked_entry \<Rightarrow> ('k, 'v) table \<Rightarrow> 'k ht_result" where
  "occupied_key e t = and_then (occupied_read e t) (\<lambda>kv. Inr (fst kv))"

definition occupied_get :: "locked_entry \<Rightarrow> ('k, 'v) table \<Rightarrow> 'v ht_result" where
  "occupied_get e t = and_then (occupied_read e t) (\<lambda>kv. Inr (snd kv))"

text \<open>\<^verbatim>\<open>OccupiedEntry::get_mut\<close>, with what the caller does with the reference: \<open>f\<close> returns a result and the
  value it leaves behind.\<close>

definition occupied_get_mut ::
  "('v \<Rightarrow> 'r \<times> 'v) \<Rightarrow> locked_entry \<Rightarrow> ('k, 'v) table \<Rightarrow> ('r \<times> ('k, 'v) table) ht_result" where
  "occupied_get_mut f e t =
     with_bucket e
       (\<lambda>b. case ep_get b (entry_pointer e) of
              None \<Rightarrow> Inl Uninitialized_Read
            | Some (k, v) \<Rightarrow> let (r, v) = f v in Inr (r, ep_set b (entry_pointer e) (k, v))) t"

text \<open>\<^verbatim>\<open>OccupiedEntry::insert\<close> (\<^verbatim>\<open>put\<close> of a cache) replaces the value and returns the old one.\<close>

definition occupied_insert :: "'v \<Rightarrow> locked_entry \<Rightarrow> ('k, 'v) table \<Rightarrow> ('v \<times> ('k, 'v) table) ht_result" where
  "occupied_insert val e t = occupied_get_mut (\<lambda>old. (old, val)) e t"

text \<open>\<^verbatim>\<open>OccupiedEntry::remove_entry\<close>: the entry is erased; where the bucket is then almost empty and
  no resizing is going on, the table may shrink. The result is what \<^verbatim>\<open>erase\<close> returns.\<close>

definition occupied_remove_entry ::
  "btype \<Rightarrow> locked_entry \<Rightarrow> ('k, 'v) table \<Rightarrow> (('k \<times> 'v) option \<times> ('k, 'v) table) ht_result" where
  "occupied_remove_entry ty e t =
     (case array_in (entry_place e) t of
        None \<Rightarrow> Inl Uninitialized_Read
      | Some a \<Rightarrow>
          let (entry, b) = erase ty (bucket_at a (entry_index e)) (entry_pointer e);
              t = put_bucket (entry_place e) (entry_index e) b t
          in Inr (entry,
               if unat (num_entries b) \<le> 1 \<or> need_rebuild ty b
               then case current_array t of
                      None \<Rightarrow> t
                    | Some current \<Rightarrow>
                        if old_array t = None \<and> within_sampling_range current (entry_index e)
                        then try_shrink_or_rebuild ty current (entry_index e) t else t
               else t))"

text \<open>\<^verbatim>\<open>VacantEntry::insert_entry\<close>: the entry is inserted into the locked bucket and the locked entry
  points to it.\<close>

definition vacant_insert_entry ::
  "u64 \<Rightarrow> 'k \<Rightarrow> 'v \<Rightarrow> locked_entry \<Rightarrow> ('k, 'v) table \<Rightarrow> (locked_entry \<times> ('k, 'v) table) ht_result" where
  "vacant_insert_entry h key val e t =
     with_bucket e
       (\<lambda>b. case insert_with b (partial_hash h) (key, val) of
              Inl p \<Rightarrow> Inl (Bucket_Panic p)
            | Inr (ep, b) \<Rightarrow> Inr (e\<lparr>entry_pointer := ep\<rparr>, b)) t"

text \<open>\<^verbatim>\<open>LockedEntry::next\<close>: the next entry of the bucket, or of the buckets behind it; while the table is
  being resized it starts again with the first entry. The array pointer cannot change under one
  thread, so the last comparison of the code is always equal.\<close>

definition locked_next ::
  "btype \<Rightarrow> ('k \<Rightarrow> u64) \<Rightarrow> locked_entry \<Rightarrow> ('k, 'v) table \<Rightarrow> (locked_entry option \<times> ('k, 'v) table) ht_result" where
  "locked_next ty hash e t =
     (case array_in (entry_place e) t of
        None \<Rightarrow> Inl Uninitialized_Read
      | Some a \<Rightarrow>
          let (found, ep) = ep_next ty (bucket_at a (entry_index e)) (entry_pointer e)
          in if found then Inr (Some (e\<lparr>entry_pointer := ep\<rparr>), t)
             else case current_array t of
                    None \<Rightarrow> Inr (None, t)
                  | Some current \<Rightarrow>
                      if old_array t \<noteq> None then lock_first_entry ty hash t
                      else Inr (first_entry ty current [Suc (entry_index e)..<num_buckets current], t))"

section \<open>Where a locked entry points\<close>

definition locked_at :: "btype \<Rightarrow> locked_entry \<Rightarrow> 'k \<Rightarrow> 'v \<Rightarrow> ('k, 'v) table \<Rightarrow> bool" where
  "locked_at ty e k v t \<longleftrightarrow>
     (\<exists>a. array_in (entry_place e) t = Some a \<and> entry_index e < num_buckets a \<and>
        \<not> killed (bucket_at a (entry_index e)) \<and>
        points_to ty (bucket_at a (entry_index e)) (entry_pointer e) (k, v))"

text \<open>The bucket of a locked entry, and that only its array knows the key.\<close>

definition deciding :: "btype \<Rightarrow> ('k \<Rightarrow> u64) \<Rightarrow> locked_entry \<Rightarrow> 'k \<Rightarrow> ('k, 'v) bucket_array \<Rightarrow> ('k, 'v) table \<Rightarrow> bool" where
  "deciding ty hash e k a t \<longleftrightarrow>
     array_in (entry_place e) t = Some a \<and> array_ok ty hash a \<and> current_array t \<noteq> None \<and>
     entry_index e = calculate_bucket_index a (hash k) \<and> \<not> killed (bucket_at a (entry_index e)) \<and>
     array_map ty hash a k = table_map ty hash t k \<and>
     (\<forall>x. array_in (case entry_place e of In_Current \<Rightarrow> In_Old | In_Old \<Rightarrow> In_Current) t = Some x \<longrightarrow> array_map ty hash x k = None)"

lemma deciding_bucket:
  assumes "deciding ty hash e k a t"
  shows "bucket_ok ty (ph_of hash) (bucket_at a (entry_index e))"
    "bucket_map ty (bucket_at a (entry_index e)) k = table_map ty hash t k"
    "entry_index e < num_buckets a" "array_in (entry_place e) t = Some a" "\<not> killed (bucket_at a (entry_index e))"
  using assms bucket_of_key [of ty hash a k] array_okD(4) [of ty hash a "hash k"] by (auto simp: deciding_def)

lemma deciding_entry:
  assumes ok: "table_ok ty hash t" and a: "array_in (entry_place e) t = Some a" "entry_index e < num_buckets a"
    "\<not> killed (bucket_at a (entry_index e))" and kv: "bucket_map ty (bucket_at a (entry_index e)) k = Some v"
  shows "deciding ty hash e k a t" "table_map ty hash t k = Some v"
proof -
  have "current_array t \<noteq> None"
    using ok a(1) by (cases "entry_place e") (auto simp: array_in_def table_ok_def arrays_ok_def split: option.splits)
  then obtain c where c: "current_array t = Some c" by blast
  have aok: "array_ok ty hash a"
    using a(1) c table_okD(1,4) [OF ok c] by (cases "entry_place e") (auto simp: array_in_def pair_ok_def)
  have i: "entry_index e = calculate_bucket_index a (hash k)" using array_okD(3) [OF aok a(2) kv] by simp
  have am: "array_map ty hash a k = Some v" using kv i by (simp add: array_map_def)
  have dis: "dom (array_map ty hash x) \<inter> dom (array_map ty hash c) = {}" if "old_array t = Some x" for x
    using table_okD(4) [OF ok c that] by (auto simp: pair_ok_def)
  have other: "array_map ty hash x k = None"
    if "array_in (case entry_place e of In_Current \<Rightarrow> In_Old | In_Old \<Rightarrow> In_Current) t = Some x" for x
    using that a(1) am c dis by (cases "entry_place e") (auto simp: array_in_def disjoint_iff domIff)
  show tm: "table_map ty hash t k = Some v"
    using a(1) am c dis
    by (cases "entry_place e"; cases "old_array t")
      (auto simp: array_in_def table_map_simps pair_map_def map_add_def disjoint_iff domIff split: option.splits)
  show "deciding ty hash e k a t" using a aok i c other tm am by (simp add: deciding_def)
qed

lemma locked_at_deciding:
  assumes ok: "table_ok ty hash t" and at: "locked_at ty e k v t"
  obtains a where "deciding ty hash e k a t" "points_to ty (bucket_at a (entry_index e)) (entry_pointer e) (k, v)"
    "table_map ty hash t k = Some v"
proof -
  obtain a where a: "array_in (entry_place e) t = Some a" "entry_index e < num_buckets a"
    "\<not> killed (bucket_at a (entry_index e))" "points_to ty (bucket_at a (entry_index e)) (entry_pointer e) (k, v)"
    using at by (auto simp: locked_at_def)
  have "current_array t \<noteq> None"
    using ok a(1) by (cases "entry_place e") (auto simp: array_in_def table_ok_def arrays_ok_def split: option.splits)
  then obtain c where c: "current_array t = Some c" by blast
  have "array_ok ty hash a"
    using a(1) c table_okD(1,4) [OF ok c] by (cases "entry_place e") (auto simp: array_in_def pair_ok_def)
  then have "bucket_ok ty (ph_of hash) (bucket_at a (entry_index e))" by (rule array_okD(2) [OF _ a(2)])
  then have "bucket_map ty (bucket_at a (entry_index e)) k = Some v" using points_to_entry(2) [OF _ a(4)] by simp
  from deciding_entry [OF ok a(1-3) this] show thesis using that a(4) by blast
qed

lemma locked_at_map: "table_ok ty hash t \<Longrightarrow> locked_at ty e k v t \<Longrightarrow> table_map ty hash t k = Some v"
  by (erule (1) locked_at_deciding)

text \<open>A bucket replaced by one whose map differs at the key.\<close>

lemma deciding_put:
  assumes ok: "table_ok ty hash t" and d: "deciding ty hash e k a t"
    and b: "bucket_ok ty (ph_of hash) b" "bucket_map ty b = (bucket_map ty (bucket_at a (entry_index e)))(k := x)"
      "state b = state (bucket_at a (entry_index e))"
  shows "table_ok ty hash (put_bucket (entry_place e) (entry_index e) b t)"
    "table_map ty hash (put_bucket (entry_place e) (entry_index e) b t) = (table_map ty hash t)(k := x)"
    "array_in (entry_place e) (put_bucket (entry_place e) (entry_index e) b t) = Some (set_bucket (entry_index e) b a)"
    "\<not> killed b"
proof -
  have i: "entry_index e = calculate_bucket_index a (hash k)" using d by (simp add: deciding_def)
  have k: "killed b = killed (bucket_at a (entry_index e))" using b(3) by (simp add: killed_def)
  show "\<not> killed b" using k deciding_bucket(5) [OF d] by simp
  note p = put_bucket_ok [OF ok, of "entry_place e" a k b x, folded i]
  show "table_ok ty hash (put_bucket (entry_place e) (entry_index e) b t)"
    "table_map ty hash (put_bucket (entry_place e) (entry_index e) b t) = (table_map ty hash t)(k := x)"
    using p b k d deciding_bucket(5) [OF d] by (auto simp: deciding_def)
  show "array_in (entry_place e) (put_bucket (entry_place e) (entry_index e) b t) = Some (set_bucket (entry_index e) b a)"
    using d by (cases "entry_place e") (simp_all add: deciding_def array_in_def put_bucket_def)
qed

text \<open>Replacing the bucket, at the entry of a key \<open>x\<close>, leaves it the bucket of another key that belongs there.\<close>

lemma deciding_put_again:
  assumes ok: "table_ok ty hash t" and x: "deciding ty hash e x a t" and k: "deciding ty hash e k a t"
    and b: "bucket_ok ty (ph_of hash) b" "bucket_map ty b = (bucket_map ty (bucket_at a (entry_index e)))(x := y)"
      "state b = state (bucket_at a (entry_index e))"
  shows "deciding ty hash e k (set_bucket (entry_index e) b a) (put_bucket (entry_place e) (entry_index e) b t)"
proof -
  have i: "entry_index e = calculate_bucket_index a (hash x)" "array_ok ty hash a" using x by (simp_all add: deciding_def)
  note u = array_update [OF i(2) b(1), of x y, folded i(1), OF b(2)]
  note p = deciding_put [OF ok x b]
  let ?o = "case entry_place e of In_Current \<Rightarrow> In_Old | In_Old \<Rightarrow> In_Current"
  have o: "array_in ?o (put_bucket (entry_place e) (entry_index e) b t) = array_in ?o t"
    by (cases "entry_place e") (simp_all add: array_in_def put_bucket_def)
  have c: "current_array (put_bucket (entry_place e) (entry_index e) b t) \<noteq> None"
    using k by (cases "entry_place e") (simp_all add: deciding_def put_bucket_def)
  show ?thesis
    unfolding deciding_def o using k p(2-4) c u deciding_bucket(3) [OF k] by (auto simp: deciding_def)
qed

lemma put_bucket_twice: "put_bucket p i b' (put_bucket p i b t) = put_bucket p i b' t"
  by (cases p) (simp_all add: put_bucket_def option.map_comp comp_def set_bucket_def [abs_def])

text \<open>The bucket after such a replacement is again the bucket of the key.\<close>

lemma locked_at_put:
  assumes "array_in (entry_place e) t = Some (set_bucket (entry_index e) b a)" "entry_index e < num_buckets a" "\<not> killed b"
    "points_to ty b ep (k, v)"
  shows "locked_at ty (e\<lparr>entry_pointer := ep\<rparr>) k v t"
  using assms by (simp add: locked_at_def)

section \<open>What the operations do\<close>

lemma state_insert_with: "insert_with b p e = Inr (ep, b') \<Longrightarrow> state b' = state b"
  by (rule insert_with_state)

lemma state_update_lru_tail: "state (update_lru_tail b ep) = state b"
  by (auto simp: update_lru_tail_def store_tail_def split: option.split prod.split)

lemma occupied_read_ok:
  assumes ok: "table_ok ty hash t" and at: "locked_at ty e k v t"
  shows "occupied_read e t = Inr (k, v)" "occupied_key e t = Inr k" "occupied_get e t = Inr v"
proof -
  obtain a where a: "deciding ty hash e k a t" "points_to ty (bucket_at a (entry_index e)) (entry_pointer e) (k, v)"
    by (rule locked_at_deciding [OF ok at])
  show r: "occupied_read e t = Inr (k, v)"
    using deciding_bucket(4) [OF a(1)] points_toD(5) [OF deciding_bucket(1) [OF a(1)] a(2)] by (simp add: occupied_read_def)
  show "occupied_key e t = Inr k" "occupied_get e t = Inr v" by (simp_all add: occupied_key_def occupied_get_def r)
qed

lemma occupied_get_mut_ok:
  assumes ok: "table_ok ty hash t" and at: "locked_at ty e k v t"
  obtains t' where "occupied_get_mut f e t = Inr (fst (f v), t')" "table_ok ty hash t'"
    "table_map ty hash t' = (table_map ty hash t)(k \<mapsto> snd (f v))" "locked_at ty e k (snd (f v)) t'"
proof -
  obtain a where a: "deciding ty hash e k a t" "points_to ty (bucket_at a (entry_index e)) (entry_pointer e) (k, v)"
    by (rule locked_at_deciding [OF ok at])
  let ?b = "bucket_at a (entry_index e)" and ?p = "entry_pointer e"
  note d = deciding_bucket [OF a(1)]
  obtain r w where w: "f v = (r, w)" by (cases "f v")
  let ?s = "ep_set ?b ?p (k, w)"
  note s = ep_set_ok [OF d(1) a(2), of "(k, w)", simplified]
  note pt = ep_set_points_to [OF d(1) a(2), of w]
  note p = deciding_put [OF ok a(1) s state_ep_set]
  have "occupied_get_mut f e t = Inr (r, put_bucket (entry_place e) (entry_index e) ?s t)"
    using d(4) points_toD(5) [OF d(1) a(2)] w by (simp add: occupied_get_mut_def with_bucket_def)
  then show thesis using that p w locked_at_put [OF p(3) d(3) p(4) pt] by simp
qed

lemma occupied_insert_ok:
  assumes ok: "table_ok ty hash t" and at: "locked_at ty e k v t"
  obtains t' where "occupied_insert val e t = Inr (v, t')" "table_ok ty hash t'"
    "table_map ty hash t' = (table_map ty hash t)(k \<mapsto> val)" "locked_at ty e k val t'"
  by (rule occupied_get_mut_ok [OF ok at, of "\<lambda>old. (old, val)"]) (simp add: occupied_insert_def)

lemma occupied_remove_entry_ok:
  assumes ok: "table_ok ty hash t" and at: "locked_at ty e k v t"
  obtains t' where "occupied_remove_entry ty e t = Inr (if ty = OPTIMISTIC then None else Some (k, v), t')"
    "table_ok ty hash t'" "table_map ty hash t' = (table_map ty hash t)(k := None)"
proof -
  obtain a where a: "deciding ty hash e k a t" "points_to ty (bucket_at a (entry_index e)) (entry_pointer e) (k, v)"
    by (rule locked_at_deciding [OF ok at])
  note d = deciding_bucket [OF a(1)]
  let ?r = "erase ty (bucket_at a (entry_index e)) (entry_pointer e)"
  note er = erase_ok [OF d(1) a(2), simplified]
  note p = deciding_put [OF ok a(1) er(1,2) state_erase]
  let ?u = "put_bucket (entry_place e) (entry_index e) (snd ?r) t"
  define u where "u = (if unat (num_entries (snd ?r)) \<le> 1 \<or> need_rebuild ty (snd ?r)
     then case current_array ?u of
            None \<Rightarrow> ?u
          | Some current \<Rightarrow>
              if old_array ?u = None \<and> within_sampling_range current (entry_index e)
              then try_shrink_or_rebuild ty current (entry_index e) ?u else ?u
     else ?u)"
  have "occupied_remove_entry ty e t = Inr (fst ?r, u)"
    using d(4) by (simp add: occupied_remove_entry_def u_def split_def Let_def)
  moreover have "table_ok ty hash u" "table_map ty hash u = table_map ty hash ?u"
    using try_shrink_or_rebuild_ok [OF p(1)] p(1) by (auto simp: u_def split: option.split)
  ultimately show thesis using that [of u] p(2) er(3) by simp
qed

lemma deciding_sub:
  assumes "deciding ty hash e k a t"
  shows "dom (bucket_map ty (bucket_at a (entry_index e))) \<subseteq> dom (table_map ty hash t)"
proof
  fix x assume "x \<in> dom (bucket_map ty (bucket_at a (entry_index e)))"
  moreover have "array_ok ty hash a" using assms by (simp add: deciding_def)
  ultimately have "array_map ty hash a x \<noteq> None"
    using array_map_bucket [OF _ deciding_bucket(3) [OF assms], of ty hash x] by (metis domIff)
  then show "x \<in> dom (table_map ty hash t)"
    using assms by (cases "entry_place e")
      (auto simp: deciding_def array_in_def table_map_def pair_map_def map_add_def split: option.splits)
qed

lemma vacant_insert_entry_ok:
  assumes ok: "table_ok ty hash t" and room: "roomy (table_map ty hash t)" and d: "deciding ty hash e k a t"
    and new: "table_map ty hash t k = None"
  obtains e' t' where "vacant_insert_entry (hash k) k v e t = Inr (e', t')" "table_ok ty hash t'"
    "table_map ty hash t' = (table_map ty hash t)(k \<mapsto> v)" "locked_at ty e' k v t'"
proof -
  note b = deciding_bucket [OF d]
  have n: "bucket_map ty (bucket_at a (entry_index e)) (fst (k, v)) = None" using b(2) new by simp
  obtain ep b' where ins: "insert_with (bucket_at a (entry_index e)) (ph_of hash (fst (k, v))) (k, v) = Inr (ep, b')"
    "bucket_ok ty (ph_of hash) b'" "bucket_map ty b' = (bucket_map ty (bucket_at a (entry_index e)))(fst (k, v) \<mapsto> snd (k, v))"
    "points_to ty b' ep (k, v)"
    by (rule insert_with_ok [OF b(1) n roomy_bucket [OF room b(1) deciding_sub [OF d]]])
  note p = deciding_put [OF ok d ins(2) ins(3) [simplified] state_insert_with [OF ins(1)]]
  have "vacant_insert_entry (hash k) k v e t =
      Inr (e\<lparr>entry_pointer := ep\<rparr>, put_bucket (entry_place e) (entry_index e) b' t)"
    using b(4) ins(1) by (simp add: vacant_insert_entry_def with_bucket_def)
  moreover have "locked_at ty (e\<lparr>entry_pointer := ep\<rparr>) k v (put_bucket (entry_place e) (entry_index e) b' t)"
    by (rule locked_at_put [OF p(3) b(3) p(4) ins(4)])
  ultimately show thesis using that p(1,2) by blast
qed

text \<open>A locked entry that \<^verbatim>\<open>reserve_entry\<close> returns.\<close>

lemma reserve_entry_deciding:
  assumes ok: "table_ok ty hash t" and room: "roomy (table_map ty hash t)"
  obtains (occupied) e u v where "reserve_entry 2 ty hash k t = Inr (e, u)" "table_ok ty hash u"
      "table_map ty hash u = table_map ty hash t" "ep_is_valid (entry_pointer e)" "table_map ty hash t k = Some v"
      "locked_at ty e k v u"
  | (vacant) e u a where "reserve_entry 2 ty hash k t = Inr (e, u)" "table_ok ty hash u"
      "table_map ty hash u = table_map ty hash t" "\<not> ep_is_valid (entry_pointer e)" "table_map ty hash t k = None"
      "deciding ty hash e k a u"
proof -
  obtain e u a where r: "reserve_entry (Suc 1) ty hash k t = Inr (e, u)" "table_ok ty hash u"
    "table_map ty hash u = table_map ty hash t" "array_in (entry_place e) u = Some a" "array_ok ty hash a"
    "entry_index e = calculate_bucket_index a (hash k)" "\<not> killed (bucket_at a (entry_index e))"
    "entry_pointer e = bucket_get ty (bucket_at a (entry_index e)) k (ph_of hash k)"
    "array_map ty hash a k = table_map ty hash t k" "current_array u \<noteq> None"
    "\<forall>x. array_in (case entry_place e of In_Current \<Rightarrow> In_Old | In_Old \<Rightarrow> In_Current) u = Some x \<longrightarrow> array_map ty hash x k = None"
    by (rule reserve_entry_ok [OF ok room, where fuel = 1 and k = k])
  have r2: "reserve_entry 2 ty hash k t = Inr (e, u)" using r(1) by (simp add: numeral_2_eq_2)
  have d: "deciding ty hash e k a u" unfolding deciding_def using r by simp
  note b = deciding_bucket [OF d]
  from b(1) show thesis
  proof (cases rule: get_cases [of ty "ph_of hash" "bucket_at a (entry_index e)" k])
    case (found v)
    then have "ep_is_valid (entry_pointer e)" "locked_at ty e k v u"
      using points_to_valid(1) [OF b(1)] r(8) b(3-5) by (auto simp: locked_at_def)
    then show thesis using occupied [OF r2 r(2,3)] found(2) b(2) r(3) by simp
  next
    case missing
    then show thesis using vacant [OF r2 r(2,3) _ _ d] r(8) b(2) r(3) by (simp add: ep_is_valid_def ep_new_def)
  qed
qed

text \<open>The entries that \<^verbatim>\<open>get_entry\<close> and \<^verbatim>\<open>lock_first_entry\<close> return.\<close>

lemma current_locked_at:
  assumes ok: "table_ok ty hash t" and c: "current_array t = Some c" and e: "entry_place e = In_Current" "entry_index e < num_buckets c"
    and p: "points_to ty (bucket_at c (entry_index e)) (entry_pointer e) (k, v)"
  shows "locked_at ty e k v t"
  using table_okD(2) [OF ok c e(2)] assms by (simp add: locked_at_def array_in_def)

lemma get_entry_locked:
  assumes ok: "table_ok ty hash t" and room: "roomy (table_map ty hash t)"
  obtains (absent) u where "get_entry ty hash k t = Inr (None, u)" "table_ok ty hash u"
      "table_map ty hash u = table_map ty hash t" "table_map ty hash t k = None"
  | (present) e u v where "get_entry ty hash k t = Inr (Some e, u)" "table_ok ty hash u"
      "table_map ty hash u = table_map ty hash t" "table_map ty hash t k = Some v" "locked_at ty e k v u"
proof -
  obtain e u where u: "get_entry ty hash k t = Inr (e, u)" "table_ok ty hash u" "table_map ty hash u = table_map ty hash t"
    "e = None \<longleftrightarrow> table_map ty hash t k = None"
    "\<forall>x. e = Some x \<longrightarrow> (\<exists>c v. current_array u = Some c \<and> entry_place x = In_Current \<and>
       points_to ty (bucket_at c (entry_index x)) (entry_pointer x) (k, v) \<and> table_map ty hash t k = Some v)"
    "\<forall>x c. e = Some x \<longrightarrow> current_array u = Some c \<longrightarrow> entry_index x < num_buckets c"
    by (rule get_entry_ok [OF ok room])
  show thesis
  proof (cases e)
    case None
    then show thesis using absent u by simp
  next
    case (Some x)
    then obtain c v where c: "current_array u = Some c" "entry_place x = In_Current" "entry_index x < num_buckets c"
      "points_to ty (bucket_at c (entry_index x)) (entry_pointer x) (k, v)" "table_map ty hash t k = Some v"
      using u(5,6) by blast
    show thesis using present [of x u v] u(1-3) Some c current_locked_at [OF u(2) c(1-4)] by simp
  qed
qed

section \<open>Walking through all entries\<close>

text \<open>The entries a locked entry has ahead in an array without an old one, and those of the buckets
  from an index on.\<close>

definition entries_from :: "btype \<Rightarrow> ('k, 'v) bucket_array \<Rightarrow> nat \<Rightarrow> ('k \<times> 'v) list" where
  "entries_from ty c i = concat (map (\<lambda>j. bucket_entries ty (bucket_at c j)) [i..<num_buckets c])"

definition entries_ahead :: "btype \<Rightarrow> ('k, 'v) bucket_array \<Rightarrow> locked_entry \<Rightarrow> ('k \<times> 'v) list" where
  "entries_ahead ty c e =
     map (\<lambda>p. the (ep_get (bucket_at c (entry_index e)) p)) (ahead ty (bucket_at c (entry_index e)) (entry_pointer e)) @
     entries_from ty c (Suc (entry_index e))"

lemma entries_from_step: "i < num_buckets c \<Longrightarrow> entries_from ty c i = bucket_entries ty (bucket_at c i) @ entries_from ty c (Suc i)"
  by (simp add: entries_from_def upt_conv_Cons)

lemma entries_from_map:
  assumes ok: "array_ok ty hash c"
  shows "distinct (map fst (entries_from ty c i))"
    "(k, v) \<in> set (entries_from ty c i) \<longleftrightarrow> array_map ty hash c k = Some v \<and> i \<le> calculate_bucket_index c (hash k)"
proof -
  have mem: "(k, v) \<in> set (entries_from ty c i) \<longleftrightarrow> array_map ty hash c k = Some v \<and> i \<le> calculate_bucket_index c (hash k)"
    for i k v
  proof -
    have "(k, v) \<in> set (entries_from ty c i) \<longleftrightarrow> (\<exists>j. i \<le> j \<and> j < num_buckets c \<and> (k, v) \<in> set (bucket_entries ty (bucket_at c j)))"
      by (auto simp: entries_from_def)
    also have "\<dots> \<longleftrightarrow> (\<exists>j. i \<le> j \<and> j < num_buckets c \<and> bucket_map ty (bucket_at c j) k = Some v)"
      using bucket_map_Some_iff [OF array_okD(2) [OF ok]] by blast
    also have "\<dots> \<longleftrightarrow> array_map ty hash c k = Some v \<and> i \<le> calculate_bucket_index c (hash k)"
      using array_map_bucket [OF ok] array_okD(4) [OF ok] by (metis option.distinct(1))
    finally show ?thesis .
  qed
  then show "(k, v) \<in> set (entries_from ty c i) \<longleftrightarrow> array_map ty hash c k = Some v \<and> i \<le> calculate_bucket_index c (hash k)" .
  show "distinct (map fst (entries_from ty c i))"
  proof (induction "num_buckets c - i" arbitrary: i)
    case (Suc n)
    then have i: "i < num_buckets c" by simp
    have "fst ` set (bucket_entries ty (bucket_at c i)) \<inter> fst ` set (entries_from ty c (Suc i)) = {}"
    proof (rule ccontr)
      assume "\<not> ?thesis"
      then obtain k v w where "(k, v) \<in> set (bucket_entries ty (bucket_at c i))" "(k, w) \<in> set (entries_from ty c (Suc i))" by force
      then have "bucket_map ty (bucket_at c i) k = Some v" "Suc i \<le> calculate_bucket_index c (hash k)"
        using bucket_map_Some_iff [OF array_okD(2) [OF ok i]] mem by blast+
      then show False using array_okD(3) [OF ok i] by fastforce
    qed
    then show ?case using Suc entries_from_step [OF i] bucket_okD(4) [OF array_okD(2) [OF ok i]] by simp
  qed (simp add: entries_from_def)
qed

lemma first_entry_walk:
  assumes ok: "array_ok ty hash c" and alive: "\<forall>i<num_buckets c. \<not> killed (bucket_at c i)"
  shows "case first_entry ty c [i..<num_buckets c] of
      None \<Rightarrow> entries_from ty c i = []
    | Some e \<Rightarrow> entry_place e = In_Current \<and> entry_index e < num_buckets c \<and>
        (\<exists>k v. points_to ty (bucket_at c (entry_index e)) (entry_pointer e) (k, v) \<and>
           entries_from ty c i = (k, v) # entries_ahead ty c e)"
proof (induction "num_buckets c - i" arbitrary: i)
  case (Suc n)
  then have i: "i < num_buckets c" by simp
  let ?b = "bucket_at c i"
  have b: "bucket_ok ty (ph_of hash) ?b" "\<not> killed ?b" using array_okD(2) [OF ok i] alive i by simp_all
  have new: "ep_in ?b ep_new" by (simp add: ep_in_def ep_new_def)
  have up: "[i..<num_buckets c] = i # [Suc i..<num_buckets c]" using i by (simp add: upt_conv_Cons)
  note es = ahead_new_entries [OF b(1)] and st = entries_from_step [OF i, of ty]
  show ?case
  proof (cases "ahead ty ?b ep_new")
    case Nil
    then have "fst (ep_next ty ?b ep_new) = False" using ep_next_ahead(1) [OF new, of ty] by simp
    moreover have "bucket_entries ty ?b = []" using es Nil by simp
    moreover have "n = num_buckets c - Suc i" using Suc.hyps(2) by simp
    ultimately show ?thesis using Suc.hyps(1) [of "Suc i"] st
      by (simp add: up split_def Let_def split: option.splits)
  next
    case (Cons p ps)
    have n: "ep_next ty ?b ep_new = (True, p)" using ep_next_ahead(1) [OF new, of ty] Cons by simp
    have ps: "ps = ahead ty ?b p" using ep_next_found [OF n] Cons by simp
    obtain k v xs where e: "ep_get ?b p = Some (k, v)" "bucket_entries ty ?b = (k, v) # xs" "map (ep_get ?b) ps = map Some xs"
      using es Cons by (cases "bucket_entries ty ?b") auto
    have pt: "points_to ty ?b p (k, v)"
      using ahead_points_to [OF b(1) new, of p] Cons e(1) by (metis list.set_intros(1) option.inject)
    have "map (\<lambda>p. the (ep_get ?b p)) ps = xs" using arg_cong [OF e(3), of "map the"] by (simp add: comp_def)
    then show ?thesis using n b(2) i pt e(2) st ps by (auto simp: up entries_ahead_def)
  qed
qed (simp add: entries_from_def)

lemma locked_next_walk:
  assumes ok: "table_ok ty hash t" and c: "current_array t = Some c" and old: "old_array t = None"
    and e: "entry_place e = In_Current" "entry_index e < num_buckets c"
      "points_to ty (bucket_at c (entry_index e)) (entry_pointer e) (k, v)"
  shows "\<exists>x. locked_next ty hash e t = Inr (x, t) \<and>
    (case x of
       None \<Rightarrow> entries_ahead ty c e = []
     | Some x \<Rightarrow> entry_place x = In_Current \<and> entry_index x < num_buckets c \<and>
         (\<exists>k v. points_to ty (bucket_at c (entry_index x)) (entry_pointer x) (k, v) \<and>
            entries_ahead ty c e = (k, v) # entries_ahead ty c x))"
proof -
  let ?b = "bucket_at c (entry_index e)" and ?p = "entry_pointer e"
  note co = table_okD(1,2) [OF ok c]
  have b: "bucket_ok ty (ph_of hash) ?b" by (rule array_okD(2) [OF co(1) e(2)])
  have inb: "ep_in ?b ?p" by (rule points_toD(1) [OF b e(3)])
  have a: "array_in (entry_place e) t = Some c" using e(1) c by (simp add: array_in_def)
  show ?thesis
  proof (cases "ahead ty ?b ?p")
    case Nil
    then have "fst (ep_next ty ?b ?p) = False" using ep_next_ahead(1) [OF inb, of ty] by simp
    then have "locked_next ty hash e t = Inr (first_entry ty c [Suc (entry_index e)..<num_buckets c], t)"
      using a c old by (simp add: locked_next_def split_def Let_def)
    moreover have "entries_ahead ty c e = entries_from ty c (Suc (entry_index e))" using Nil by (simp add: entries_ahead_def)
    moreover have "\<forall>i<num_buckets c. \<not> killed (bucket_at c i)" using co(2) by blast
    ultimately show ?thesis using first_entry_walk [OF co(1), of "Suc (entry_index e)"] by (simp split: option.splits)
  next
    case (Cons p ps)
    have n: "ep_next ty ?b ?p = (True, p)" using ep_next_ahead(1) [OF inb, of ty] Cons by simp
    have ps: "ps = ahead ty ?b p" using ep_next_found [OF n] Cons by simp
    obtain k' v' where kv: "ep_get ?b p = Some (k', v')" "points_to ty ?b p (k', v')"
      using ahead_points_to [OF b inb, of p] Cons points_toD(5) [OF b] by force
    have "locked_next ty hash e t = Inr (Some (e\<lparr>entry_pointer := p\<rparr>), t)" using a n by (simp add: locked_next_def)
    then show ?thesis using kv Cons ps e(1,2) by (auto simp: entries_ahead_def)
  qed
qed

text \<open>The loop of a caller that starts with the first entry and asks for the next one, at most \<open>fuel\<close> entries.\<close>

fun walk_entries ::
  "nat \<Rightarrow> btype \<Rightarrow> ('k \<Rightarrow> u64) \<Rightarrow> locked_entry option \<Rightarrow> ('k, 'v) table \<Rightarrow> (('k \<times> 'v) list \<times> ('k, 'v) table) ht_result" where
  "walk_entries fuel ty hash None t = Inr ([], t)"
| "walk_entries 0 ty hash (Some e) t = Inl Loop_Fuel"
| "walk_entries (Suc fuel) ty hash (Some e) t =
     and_then (occupied_read e t)
       (\<lambda>kv. and_then (locked_next ty hash e t)
         (\<lambda>(e, t). and_then (walk_entries fuel ty hash e t) (\<lambda>(kvs, t). Inr (kv # kvs, t))))"

lemma walk_entries_ok:
  assumes ok: "table_ok ty hash t" and c: "current_array t = Some c" and old: "old_array t = None"
  shows "entry_place e = In_Current \<Longrightarrow> entry_index e < num_buckets c \<Longrightarrow>
    points_to ty (bucket_at c (entry_index e)) (entry_pointer e) (k, v) \<Longrightarrow> length (entries_ahead ty c e) < fuel \<Longrightarrow>
    walk_entries fuel ty hash (Some e) t = Inr ((k, v) # entries_ahead ty c e, t)"
proof (induction fuel arbitrary: e k v)
  case (Suc fuel)
  have r: "occupied_read e t = Inr (k, v)"
    by (rule occupied_read_ok(1) [OF ok current_locked_at [OF ok c Suc.prems(1-3)]])
  obtain x where x: "locked_next ty hash e t = Inr (x, t)"
    "case x of None \<Rightarrow> entries_ahead ty c e = []
     | Some x \<Rightarrow> entry_place x = In_Current \<and> entry_index x < num_buckets c \<and>
         (\<exists>k v. points_to ty (bucket_at c (entry_index x)) (entry_pointer x) (k, v) \<and>
            entries_ahead ty c e = (k, v) # entries_ahead ty c x)"
    using locked_next_walk [OF ok c old Suc.prems(1-3)] by blast
  show ?case
  proof (cases x)
    case None
    then show ?thesis using r x by simp
  next
    case (Some y)
    then obtain k' v' where y: "entry_place y = In_Current" "entry_index y < num_buckets c"
      "points_to ty (bucket_at c (entry_index y)) (entry_pointer y) (k', v')" "entries_ahead ty c e = (k', v') # entries_ahead ty c y"
      using x(2) by auto
    have "walk_entries fuel ty hash (Some y) t = Inr ((k', v') # entries_ahead ty c y, t)"
      by (rule Suc.IH [OF y(1-3)]) (use Suc.prems(4) y(4) in simp)
    then show ?thesis using r x(1) Some y(4) by simp
  qed
qed simp

lemma map_of_entries_from:
  assumes "array_ok ty hash c"
  shows "map_of (entries_from ty c 0) = array_map ty hash c"
proof
  fix k
  note e = entries_from_map [OF assms, where i = 0]
  show "map_of (entries_from ty c 0) k = array_map ty hash c k"
    using e(2) [of k] map_of_eq_Some_iff [OF e(1), of k] by (metis le0 not_Some_eq)
qed

lemma length_entries:
  assumes "distinct (map fst xs)" shows "length xs = card (dom (map_of xs))"
  using assms by (metis distinct_card dom_map_of_conv_image_fst length_map list.set_map)

lemma lock_first_entry_walk:
  assumes ok: "table_ok ty hash t" and room: "roomy (table_map ty hash t)"
  obtains e u kvs where "lock_first_entry ty hash t = Inr (e, u)" "table_ok ty hash u" "table_map ty hash u = table_map ty hash t"
    "\<forall>fuel. length kvs \<le> fuel \<longrightarrow> walk_entries fuel ty hash e u = Inr (kvs, u)"
    "distinct (map fst kvs)" "map_of kvs = table_map ty hash t"
proof (cases "current_array t = None")
  case True
  then show thesis using that [of None t "[]"] ok by (simp add: lock_first_entry_def table_map_simps)
next
  case False
  obtain u where u: "clear_old_array ty hash t = Inr u" "table_ok ty hash u" "same_table ty hash t u" "old_array u = None"
    by (rule clear_old_array_ok [OF ok False room])
  obtain c where c: "current_array u = Some c" using u(3) False by (auto simp: same_table_def)
  note co = table_okD(1,2) [OF u(2) c]
  have al: "\<forall>i<num_buckets c. \<not> killed (bucket_at c i)" using co(2) by blast
  have tm: "table_map ty hash t = array_map ty hash c" "table_map ty hash u = table_map ty hash t"
    using u(3,4) c by (simp_all add: same_table_def table_map_simps)
  let ?e = "first_entry ty c [0..<num_buckets c]" and ?es = "entries_from ty c 0"
  have r: "lock_first_entry ty hash t = Inr (?e, u)" using False u(1) c by (auto simp: lock_first_entry_def)
  have w: "\<forall>fuel. length ?es \<le> fuel \<longrightarrow> walk_entries fuel ty hash ?e u = Inr (?es, u)"
  proof (cases ?e)
    case None
    then show ?thesis using first_entry_walk [OF co(1) al, of 0] by simp
  next
    case (Some e)
    then obtain k v where e: "entry_place e = In_Current" "entry_index e < num_buckets c"
      "points_to ty (bucket_at c (entry_index e)) (entry_pointer e) (k, v)" "?es = (k, v) # entries_ahead ty c e"
      using first_entry_walk [OF co(1) al, of 0] by auto
    have "walk_entries fuel ty hash (Some e) u = Inr ((k, v) # entries_ahead ty c e, u)" if "length ?es \<le> fuel" for fuel
      by (rule walk_entries_ok [OF u(2) c u(4) e(1-3)]) (use that e(4) in simp)
    then show ?thesis using Some e(4) by simp
  qed
  show thesis
    by (rule that [OF r u(2) tm(2) w entries_from_map(1) [OF co(1)]]) (simp_all add: map_of_entries_from [OF co(1)] tm(1))
qed

end
