(* ===== verification/Hash_Interface.thy ===== *)
theory Hash_Interface
  imports Hash_Entry
begin

text \<open>
  The parts of the public interface that \<^verbatim>\<open>HashMap\<close>, \<^verbatim>\<open>HashIndex\<close> and \<^verbatim>\<open>HashCache\<close> have in common: the
  type \<^verbatim>\<open>Entry\<close>, and the visits of all entries by a closure. A closure that captures variables by
  mutable reference is a function on their value, the state \<open>'s\<close>, and may itself panic; the closures of
  \<^verbatim>\<open>Clone\<close> and \<^verbatim>\<open>PartialEq\<close> capture another table.
\<close>

section \<open>Entries\<close>

datatype 'k entry = Occupied locked_entry | Vacant 'k u64 locked_entry

text \<open>\<^verbatim>\<open>entry\<close>.\<close>

definition table_entry :: "btype \<Rightarrow> ('k \<Rightarrow> u64) \<Rightarrow> 'k \<Rightarrow> ('k, 'v) table \<Rightarrow> ('k entry \<times> ('k, 'v) table) ht_result" where
  "table_entry ty hash key t =
     and_then (reserve_entry 2 ty hash key t)
       (\<lambda>(e, t). Inr (if ep_is_valid (entry_pointer e) then Occupied e else Vacant key (hash key) e, t))"

definition entry_key :: "'k entry \<Rightarrow> ('k, 'v) table \<Rightarrow> 'k ht_result" where
  "entry_key en t = (case en of Occupied e \<Rightarrow> occupied_key e t | Vacant key h e \<Rightarrow> Inr key)"

definition or_insert_with_key ::
  "('k \<Rightarrow> 'v) \<Rightarrow> 'k entry \<Rightarrow> ('k, 'v) table \<Rightarrow> (locked_entry \<times> ('k, 'v) table) ht_result" where
  "or_insert_with_key constructor en t =
     (case en of
        Occupied e \<Rightarrow> Inr (e, t)
      | Vacant key h e \<Rightarrow> vacant_insert_entry h key (constructor key) e t)"

definition or_insert_with :: "(unit \<Rightarrow> 'v) \<Rightarrow> 'k entry \<Rightarrow> ('k, 'v) table \<Rightarrow> (locked_entry \<times> ('k, 'v) table) ht_result" where
  "or_insert_with constructor en t = or_insert_with_key (\<lambda>_. constructor ()) en t"

definition or_insert :: "'v \<Rightarrow> 'k entry \<Rightarrow> ('k, 'v) table \<Rightarrow> (locked_entry \<times> ('k, 'v) table) ht_result" where
  "or_insert val en t = or_insert_with (\<lambda>_. val) en t"

definition and_modify :: "('v \<Rightarrow> 'v) \<Rightarrow> 'k entry \<Rightarrow> ('k, 'v) table \<Rightarrow> ('k entry \<times> ('k, 'v) table) ht_result" where
  "and_modify f en t =
     (case en of
        Occupied e \<Rightarrow> and_then (occupied_get_mut (\<lambda>v. ((), f v)) e t) (\<lambda>(_, t). Inr (Occupied e, t))
      | Vacant key h e \<Rightarrow> Inr (en, t))"

definition entry_insert_entry :: "'v \<Rightarrow> 'k entry \<Rightarrow> ('k, 'v) table \<Rightarrow> (locked_entry \<times> ('k, 'v) table) ht_result" where
  "entry_insert_entry val en t =
     (case en of
        Occupied e \<Rightarrow> and_then (occupied_insert val e t) (\<lambda>(_, t). Inr (e, t))
      | Vacant key h e \<Rightarrow> vacant_insert_entry h key val e t)"

text \<open>\<^verbatim>\<open>or_default\<close>; the default value of the type is the argument.\<close>

definition or_default :: "'v \<Rightarrow> 'k entry \<Rightarrow> ('k, 'v) table \<Rightarrow> (locked_entry \<times> ('k, 'v) table) ht_result" where
  "or_default dflt en t =
     (case en of Occupied e \<Rightarrow> Inr (e, t) | Vacant key h e \<Rightarrow> vacant_insert_entry h key dflt e t)"

text \<open>What an entry of a key is: it points to the value of the key, or to the bucket the key belongs
  into.\<close>

definition entry_of :: "btype \<Rightarrow> ('k \<Rightarrow> u64) \<Rightarrow> 'k \<Rightarrow> 'k entry \<Rightarrow> ('k, 'v) table \<Rightarrow> bool" where
  "entry_of ty hash k en t \<longleftrightarrow>
     (case en of
        Occupied e \<Rightarrow> \<exists>v. locked_at ty e k v t
      | Vacant key h e \<Rightarrow> key = k \<and> h = hash k \<and> table_map ty hash t k = None \<and> (\<exists>a. deciding ty hash e k a t))"

lemma table_entry_ok:
  assumes "table_ok ty hash t" "roomy (table_map ty hash t)"
  obtains en u where "table_entry ty hash k t = Inr (en, u)" "table_ok ty hash u" "table_map ty hash u = table_map ty hash t"
    "entry_of ty hash k en u"
proof (cases rule: reserve_entry_deciding [OF assms, of k])
  case (1 e u v)
  then show thesis using that [of "Occupied e" u] by (auto simp: table_entry_def entry_of_def)
next
  case (2 e u a)
  then show thesis using that [of "Vacant k (hash k) e" u] by (auto simp: table_entry_def entry_of_def)
qed

lemma entry_of_cases:
  assumes ok: "table_ok ty hash t" and en: "entry_of ty hash k en t"
  obtains (occupied) e v where "en = Occupied e" "locked_at ty e k v t" "table_map ty hash t k = Some v"
  | (vacant) e a where "en = Vacant k (hash k) e" "deciding ty hash e k a t" "table_map ty hash t k = None"
  using en locked_at_map [OF ok] by (cases en) (auto simp: entry_of_def intro: occupied vacant)

lemma entry_key_ok:
  assumes ok: "table_ok ty hash t" and en: "entry_of ty hash k en t"
  shows "entry_key en t = Inr k"
  using ok en
proof (cases rule: entry_of_cases)
  case (occupied e v)
  then show ?thesis using occupied_read_ok(2) [OF ok] by (simp add: entry_key_def)
qed (simp add: entry_key_def)

lemma or_insert_with_key_ok:
  assumes ok: "table_ok ty hash t" and room: "roomy (table_map ty hash t)" and en: "entry_of ty hash k en t"
  obtains e u v where "or_insert_with_key f en t = Inr (e, u)" "table_ok ty hash u" "locked_at ty e k v u"
    "v = (case table_map ty hash t k of None \<Rightarrow> f k | Some v \<Rightarrow> v)" "table_map ty hash u = (table_map ty hash t)(k \<mapsto> v)"
  using ok en
proof (cases rule: entry_of_cases)
  case (occupied e v)
  then have "or_insert_with_key f en t = Inr (e, t)" "v = (case table_map ty hash t k of None \<Rightarrow> f k | Some v \<Rightarrow> v)"
    by (simp_all add: or_insert_with_key_def)
  then show thesis using that [OF _ ok occupied(2)] fun_upd_idem [of "table_map ty hash t" k, OF occupied(3)] by metis
next
  case (vacant e a)
  obtain e' u where "vacant_insert_entry (hash k) k (f k) e t = Inr (e', u)" "table_ok ty hash u"
    "table_map ty hash u = (table_map ty hash t)(k \<mapsto> f k)" "locked_at ty e' k (f k) u"
    by (rule vacant_insert_entry_ok [OF ok room vacant(2,3)])
  then show thesis using that [of e' u "f k"] vacant by (simp add: or_insert_with_key_def)
qed

lemma and_modify_ok:
  assumes ok: "table_ok ty hash t" and en: "entry_of ty hash k en t"
  obtains en' u where "and_modify f en t = Inr (en', u)" "table_ok ty hash u" "entry_of ty hash k en' u"
    "table_map ty hash u = (table_map ty hash t)(k := map_option f (table_map ty hash t k))"
  using ok en
proof (cases rule: entry_of_cases)
  case (occupied e v)
  obtain u where "occupied_get_mut (\<lambda>v. ((), f v)) e t = Inr (fst ((), f v), u)" "table_ok ty hash u"
    "table_map ty hash u = (table_map ty hash t)(k \<mapsto> snd ((), f v))" "locked_at ty e k (snd ((), f v)) u"
    by (rule occupied_get_mut_ok [OF ok occupied(2)])
  then show thesis using that [of "Occupied e" u] occupied by (auto simp: and_modify_def entry_of_def)
next
  case (vacant e a)
  then have "and_modify f en t = Inr (en, t)" "map_option f (table_map ty hash t k) = None" by (simp_all add: and_modify_def)
  then show thesis using that [OF _ ok en] fun_upd_idem [of "table_map ty hash t" k, OF vacant(3)] by metis
qed

lemma entry_insert_entry_ok:
  assumes ok: "table_ok ty hash t" and room: "roomy (table_map ty hash t)" and en: "entry_of ty hash k en t"
  obtains e u where "entry_insert_entry val en t = Inr (e, u)" "table_ok ty hash u" "locked_at ty e k val u"
    "table_map ty hash u = (table_map ty hash t)(k \<mapsto> val)"
  using ok en
proof (cases rule: entry_of_cases)
  case (occupied e v)
  obtain u where "occupied_insert val e t = Inr (v, u)" "table_ok ty hash u"
    "table_map ty hash u = (table_map ty hash t)(k \<mapsto> val)" "locked_at ty e k val u"
    by (rule occupied_insert_ok [OF ok occupied(2)])
  then show thesis using that [of e u] occupied by (simp add: entry_insert_entry_def)
next
  case (vacant e a)
  obtain e' u where "vacant_insert_entry (hash k) k val e t = Inr (e', u)" "table_ok ty hash u"
    "table_map ty hash u = (table_map ty hash t)(k \<mapsto> val)" "locked_at ty e' k val u"
    by (rule vacant_insert_entry_ok [OF ok room vacant(2,3)])
  then show thesis using that [of e' u] vacant by (simp add: entry_insert_entry_def)
qed

section \<open>Visiting all entries\<close>

text \<open>The loops of \<^verbatim>\<open>any_entry\<close> with a closure that has a state.\<close>

definition visited :: "btype \<Rightarrow> ('k, 'v) bucket_array \<Rightarrow> ('k \<times> 'v) option list" where
  "visited ty a = concat (map (\<lambda>b. if killed b then [] else map (ep_get b) (ep_visit ty b ep_new)) (buckets a))"

fun any_until ::
  "('k \<Rightarrow> 'v \<Rightarrow> 's \<Rightarrow> (bool \<times> 's) ht_result) \<Rightarrow> ('k \<times> 'v) option list \<Rightarrow> 's \<Rightarrow> (bool \<times> 's) ht_result" where
  "any_until pred [] s = Inr (False, s)"
| "any_until pred (None # es) s = Inl Uninitialized_Read"
| "any_until pred (Some (k, v) # es) s = and_then (pred k v s) (\<lambda>(r, s). if r then Inr (True, s) else any_until pred es s)"

definition any_entry_mut ::
  "btype \<Rightarrow> ('k \<Rightarrow> u64) \<Rightarrow> ('k \<Rightarrow> 'v \<Rightarrow> 's \<Rightarrow> (bool \<times> 's) ht_result) \<Rightarrow> 's \<Rightarrow> ('k, 'v) table \<Rightarrow>
     (bool \<times> 's \<times> ('k, 'v) table) ht_result" where
  "any_entry_mut ty hash pred s t =
     (if current_array t = None then Inr (False, s, t)
      else and_then (clear_old_array ty hash t)
        (\<lambda>t. case current_array t of
               None \<Rightarrow> Inr (False, s, t)
             | Some current \<Rightarrow> and_then (any_until pred (visited ty current) s) (\<lambda>(r, s). Inr (r, s, t))))"

lemma visited_entries:
  assumes ok: "array_ok ty hash c" and al: "\<forall>i<num_buckets c. \<not> killed (bucket_at c i)"
  shows "visited ty c = map Some (entries_from ty c 0)"
proof -
  have "buckets c = map (bucket_at c) [0..<num_buckets c]"
    by (rule nth_equalityI) (simp_all add: num_buckets_def bucket_at_def)
  moreover have "map (ep_get (bucket_at c i)) (ep_visit ty (bucket_at c i) ep_new) = map Some (bucket_entries ty (bucket_at c i))"
    if "i < num_buckets c" for i
    using ahead_new_entries [OF array_okD(2) [OF ok that]] ep_visit_ahead [of "bucket_at c i" ep_new ty] by (simp add: ep_in_def ep_new_def)
  ultimately show ?thesis using al
    by (auto simp: visited_def entries_from_def map_concat comp_def intro!: arg_cong [of _ _ concat])
qed

text \<open>A visit of all entries is a visit of a list that represents the map of the table.\<close>

lemma any_entry_mut_ok:
  assumes ok: "table_ok ty hash t" and room: "roomy (table_map ty hash t)"
  obtains u es where "\<forall>pred s. any_entry_mut ty hash pred s t = and_then (any_until pred (map Some es) s) (\<lambda>(r, s). Inr (r, s, u))"
    "table_ok ty hash u" "table_map ty hash u = table_map ty hash t" "distinct (map fst es)" "map_of es = table_map ty hash t"
proof (cases "current_array t = None")
  case True
  then show thesis using that [of "[]" t] ok by (simp add: any_entry_mut_def table_map_simps)
next
  case False
  obtain u where u: "clear_old_array ty hash t = Inr u" "table_ok ty hash u" "same_table ty hash t u" "old_array u = None"
    by (rule clear_old_array_ok [OF ok False room])
  obtain c where c: "current_array u = Some c" using u(3) False by (auto simp: same_table_def)
  note co = table_okD(1,2) [OF u(2) c]
  have al: "\<forall>i<num_buckets c. \<not> killed (bucket_at c i)" using co(2) by blast
  have tm: "table_map ty hash t = array_map ty hash c" "table_map ty hash u = table_map ty hash t"
    using u(3,4) c by (simp_all add: same_table_def table_map_simps)
  show thesis
  proof (rule that [of "entries_from ty c 0" u])
    show "\<forall>pred s. any_entry_mut ty hash pred s t = and_then (any_until pred (map Some (entries_from ty c 0)) s) (\<lambda>(r, s). Inr (r, s, u))"
      using False u(1) c visited_entries [OF co(1) al] by (auto simp: any_entry_mut_def)
  qed (simp_all add: u(2) tm entries_from_map(1) [OF co(1)] map_of_entries_from [OF co(1)])
qed

lemma map_of_rev_distinct: "distinct (map fst xs) \<Longrightarrow> map_of (rev xs) = map_of xs"
  by (subst map_of_inject_set) (simp_all add: rev_map [symmetric])

text \<open>A visit by a closure that keeps a property \<open>J\<close> of its state and answers \<open>P\<close>.\<close>

lemma any_entry_mut_pass:
  assumes ok: "table_ok ty hash t" and room: "roomy (table_map ty hash t)" and init: "J s"
    and step: "\<And>k v s. J s \<Longrightarrow> \<exists>s'. pred k v s = Inr (P k v, s') \<and> J s'"
  obtains s' u where
    "any_entry_mut ty hash pred s t = Inr (\<exists>k v. table_map ty hash t k = Some v \<and> P k v, s', u)"
    "J s'" "table_ok ty hash u" "table_map ty hash u = table_map ty hash t"
proof -
  obtain u es where u:
    "\<forall>pred (s :: 'c). any_entry_mut ty hash pred s t = and_then (any_until pred (map Some es) s) (\<lambda>(r, s). Inr (r, s, u))"
    "table_ok ty hash u" "table_map ty hash u = table_map ty hash t" "distinct (map fst es)" "map_of es = table_map ty hash t"
    by (rule any_entry_mut_ok [OF ok room])
  have "\<exists>s'. any_until pred (map Some xs) s = Inr (\<exists>(k, v)\<in>set xs. P k v, s') \<and> J s'" if "J s" for xs s
    using that
  proof (induction xs arbitrary: s)
    case (Cons x xs)
    obtain k v where x: "x = (k, v)" by (cases x)
    obtain s' where s': "pred k v s = Inr (P k v, s')" "J s'" using step [OF Cons.prems] by blast
    then show ?case using Cons.IH [OF s'(2)] x by auto
  qed simp
  from this [OF init, of es] obtain s' where s': "any_until pred (map Some es) s = Inr (\<exists>(k, v)\<in>set es. P k v, s')" "J s'" by blast
  have "(\<exists>(k, v)\<in>set es. P k v) \<longleftrightarrow> (\<exists>k v. table_map ty hash t k = Some v \<and> P k v)"
    using map_of_eq_Some_iff [OF u(4)] u(5) by auto
  then show thesis using that [of s' u] u s' by simp
qed

text \<open>A visit with an invariant on the state, where the closure never panics: \<open>I\<close> holds of the entries seen
  so far and of the state.\<close>

lemma any_until_invariant:
  assumes step: "\<And>es k v es' s. xs = es @ (k, v) # es' \<Longrightarrow> I es s \<Longrightarrow>
      \<exists>s'. pred k v s = Inr (P k v, s') \<and> I (es @ [(k, v)]) s'"
  shows "xs = es @ ys \<Longrightarrow> I es s \<Longrightarrow> list_all (\<lambda>(k, v). \<not> P k v) ys \<Longrightarrow>
      \<exists>s'. any_until pred (map Some ys) s = Inr (False, s') \<and> I xs s'"
    "xs = es @ ys \<Longrightarrow> I es s \<Longrightarrow> \<not> list_all (\<lambda>(k, v). \<not> P k v) ys \<Longrightarrow>
      \<exists>es' s'. any_until pred (map Some ys) s = Inr (True, s') \<and> I es' s'"
proof (induction ys arbitrary: es s)
  case (Cons y ys)
  obtain k v where y: "y = (k, v)" by (cases y)
  {
    case 1
    then obtain s' where s': "pred k v s = Inr (P k v, s')" "I (es @ [(k, v)]) s'" using step y by blast
    then show ?case using Cons.IH(1) [of "es @ [(k, v)]" s'] 1 y by auto
  next
    case 2
    then obtain s' where s': "pred k v s = Inr (P k v, s')" "I (es @ [(k, v)]) s'" using step y by blast
    then show ?case using Cons.IH(2) [of "es @ [(k, v)]" s'] 2 y by auto
  }
qed auto

end
