(* ===== verification/Hash_Map.thy ===== *)
theory Hash_Map
  imports Hash_Interface Hash_Table_Reserve
begin

text \<open>
  \<^verbatim>\<open>HashMap\<close> of \<^verbatim>\<open>src/hash_map.rs\<close>: its methods on the sequential hash table, as one thread runs them. A
  closure \<^verbatim>\<open>FnOnce(&K, &mut V) -> R\<close> is a function to its result and the value it leaves; the results of
  the methods are those of the source, with the table afterwards.
\<close>

section \<open>Construction and capacity\<close>

definition hm_maximum_capacity :: nat where
  "hm_maximum_capacity = 2 ^ (64 - 1)"

definition hm_with_hasher :: "('k, 'v) table" where
  "hm_with_hasher = \<lparr>current_array = None, old_array = None, array_tag = TagNone, minimum_capacity = 0,
     maximum_capacity = hm_maximum_capacity\<rparr>"

definition hm_with_capacity :: "nat \<Rightarrow> ('k, 'v) table" where
  "hm_with_capacity capacity = table_new capacity hm_maximum_capacity"

text \<open>\<^verbatim>\<open>reserve\<close> and the destructor of \<^verbatim>\<open>Reserve\<close>; \<^verbatim>\<open>fetch_sub\<close> wraps around.\<close>

definition hm_reserve :: "nat \<Rightarrow> ('k, 'v) table \<Rightarrow> nat option \<times> ('k, 'v) table" where
  "hm_reserve additional_capacity t =
     (let (additional, t) = reserve_capacity SEQUENTIAL additional_capacity t
      in (if additional = 0 then None else Some additional, t))"

definition hm_reserve_drop :: "nat \<Rightarrow> ('k, 'v) table \<Rightarrow> ('k, 'v) table" where
  "hm_reserve_drop additional t =
     try_resize SEQUENTIAL 0
       (t\<lparr>minimum_capacity := (minimum_capacity t + (2 ^ 64 - additional)) mod 2 ^ 64\<rparr>)"

definition hm_capacity_range :: "('k, 'v) table \<Rightarrow> nat \<times> nat" where
  "hm_capacity_range t = (minimum_capacity t, maximum_capacity t)"

definition hm_capacity :: "('k, 'v) table \<Rightarrow> nat" where
  "hm_capacity t = num_slots t"

section \<open>Single entries\<close>

definition hm_entry :: "('k \<Rightarrow> u64) \<Rightarrow> 'k \<Rightarrow> ('k, 'v) table \<Rightarrow> ('k entry \<times> ('k, 'v) table) ht_result" where
  "hm_entry hash key t = table_entry SEQUENTIAL hash key t"

definition hm_first_entry :: "('k \<Rightarrow> u64) \<Rightarrow> ('k, 'v) table \<Rightarrow> (locked_entry option \<times> ('k, 'v) table) ht_result" where
  "hm_first_entry hash t = lock_first_entry SEQUENTIAL hash t"

definition hm_next :: "('k \<Rightarrow> u64) \<Rightarrow> locked_entry \<Rightarrow> ('k, 'v) table \<Rightarrow> (locked_entry option \<times> ('k, 'v) table) ht_result" where
  "hm_next hash e t = locked_next SEQUENTIAL hash e t"

text \<open>\<^verbatim>\<open>insert\<close>: the rejected pair is the error.\<close>

definition hm_insert :: "('k \<Rightarrow> u64) \<Rightarrow> 'k \<Rightarrow> 'v \<Rightarrow> ('k, 'v) table \<Rightarrow> (('k \<times> 'v + unit) \<times> ('k, 'v) table) ht_result" where
  "hm_insert hash key val t =
     and_then (insert_entry SEQUENTIAL hash key val t)
       (\<lambda>(r, t). Inr (case r of Some kv \<Rightarrow> Inl kv | None \<Rightarrow> Inr (), t))"

definition hm_update ::
  "('k \<Rightarrow> u64) \<Rightarrow> 'k \<Rightarrow> ('k \<Rightarrow> 'v \<Rightarrow> 'r \<times> 'v) \<Rightarrow> ('k, 'v) table \<Rightarrow> ('r option \<times> ('k, 'v) table) ht_result" where
  "hm_update hash key updater t =
     and_then (get_entry SEQUENTIAL hash key t)
       (\<lambda>(e, t). case e of
            None \<Rightarrow> Inr (None, t)
          | Some e \<Rightarrow>
              and_then (occupied_key e t)
                (\<lambda>k. and_then (occupied_get_mut (updater k) e t) (\<lambda>(r, t). Inr (Some r, t))))"

text \<open>\<^verbatim>\<open>remove_if\<close>; the post-processor is \<^verbatim>\<open>Option::flatten\<close>.\<close>

definition hm_remove_if ::
  "('k \<Rightarrow> u64) \<Rightarrow> 'k \<Rightarrow> ('v \<Rightarrow> bool \<times> 'v) \<Rightarrow> ('k, 'v) table \<Rightarrow> (('k \<times> 'v) option \<times> ('k, 'v) table) ht_result" where
  "hm_remove_if hash key condition t =
     and_then (remove_entry SEQUENTIAL hash key condition t) (\<lambda>(r, t). Inr (Option.bind r id, t))"

definition hm_remove :: "('k \<Rightarrow> u64) \<Rightarrow> 'k \<Rightarrow> ('k, 'v) table \<Rightarrow> (('k \<times> 'v) option \<times> ('k, 'v) table) ht_result" where
  "hm_remove hash key t = hm_remove_if hash key (Pair True) t"

definition hm_get :: "('k \<Rightarrow> u64) \<Rightarrow> 'k \<Rightarrow> ('k, 'v) table \<Rightarrow> (locked_entry option \<times> ('k, 'v) table) ht_result" where
  "hm_get hash key t = get_entry SEQUENTIAL hash key t"

definition hm_read ::
  "('k \<Rightarrow> u64) \<Rightarrow> 'k \<Rightarrow> ('k \<Rightarrow> 'v \<Rightarrow> 'r) \<Rightarrow> ('k, 'v) table \<Rightarrow> ('r option \<times> ('k, 'v) table) ht_result" where
  "hm_read hash key reader t =
     and_then (read_entry SEQUENTIAL hash key t) (\<lambda>(r, t). Inr (map_option (\<lambda>(k, v). reader k v) r, t))"

definition hm_contains :: "('k \<Rightarrow> u64) \<Rightarrow> 'k \<Rightarrow> ('k, 'v) table \<Rightarrow> (bool \<times> ('k, 'v) table) ht_result" where
  "hm_contains hash key t = and_then (hm_read hash key (\<lambda>_ _. ()) t) (\<lambda>(r, t). Inr (r \<noteq> None, t))"

definition hm_occupied_remove :: "locked_entry \<Rightarrow> ('k, 'v) table \<Rightarrow> (('k \<times> 'v) option \<times> ('k, 'v) table) ht_result" where
  "hm_occupied_remove e t = occupied_remove_entry SEQUENTIAL e t"

section \<open>All entries\<close>

definition hm_any ::
  "('k \<Rightarrow> u64) \<Rightarrow> ('k \<Rightarrow> 'v \<Rightarrow> 's \<Rightarrow> (bool \<times> 's) ht_result) \<Rightarrow> 's \<Rightarrow> ('k, 'v) table \<Rightarrow>
     (bool \<times> 's \<times> ('k, 'v) table) ht_result" where
  "hm_any hash pred s t = any_entry_mut SEQUENTIAL hash pred s t"

definition hm_scan ::
  "('k \<Rightarrow> u64) \<Rightarrow> ('k \<Rightarrow> 'v \<Rightarrow> 's \<Rightarrow> 's ht_result) \<Rightarrow> 's \<Rightarrow> ('k, 'v) table \<Rightarrow> ('s \<times> ('k, 'v) table) ht_result" where
  "hm_scan hash scanner s t =
     and_then (hm_any hash (\<lambda>k v s. and_then (scanner k v s) (\<lambda>s. Inr (False, s))) s t) (\<lambda>(_, s, t). Inr (s, t))"

definition hm_retain :: "('k \<Rightarrow> u64) \<Rightarrow> ('k \<Rightarrow> 'v \<Rightarrow> bool \<times> 'v) \<Rightarrow> ('k, 'v) table \<Rightarrow> ('k, 'v) table ht_result" where
  "hm_retain hash pred t = retain_entries SEQUENTIAL hash pred t"

definition hm_prune :: "('k \<Rightarrow> u64) \<Rightarrow> ('k \<Rightarrow> 'v \<Rightarrow> 'v option) \<Rightarrow> ('k, 'v) table \<Rightarrow> ('k, 'v) table ht_result" where
  "hm_prune hash pred t = prune_entries SEQUENTIAL hash pred t"

definition hm_clear :: "('k \<Rightarrow> u64) \<Rightarrow> ('k, 'v) table \<Rightarrow> ('k, 'v) table ht_result" where
  "hm_clear hash t = hm_retain hash (\<lambda>_ v. (False, v)) t"

definition hm_len :: "('k, 'v) table \<Rightarrow> nat \<times> ('k, 'v) table" where
  "hm_len t = ht_num_entries SEQUENTIAL t"

definition hm_is_empty :: "('k, 'v) table \<Rightarrow> bool \<times> ('k, 'v) table" where
  "hm_is_empty t = (let (r, t) = has_entry SEQUENTIAL t in (\<not> r, t))"

text \<open>\<^verbatim>\<open>Clone\<close>: the clone is filled by a closure of \<^verbatim>\<open>scan\<close>. The result is the clone and the original.\<close>

definition hm_clone :: "('k \<Rightarrow> u64) \<Rightarrow> ('k, 'v) table \<Rightarrow> (('k, 'v) table \<times> ('k, 'v) table) ht_result" where
  "hm_clone hash t =
     hm_scan hash (\<lambda>k v c. and_then (hm_insert hash k v c) (\<lambda>(_, c). Inr c)) (hm_with_capacity (hm_capacity t)) t"

text \<open>\<^verbatim>\<open>PartialEq\<close>: every entry of the one is an entry of the other, and the other way round.\<close>

definition hm_differs ::
  "('k \<Rightarrow> u64) \<Rightarrow> 'k \<Rightarrow> 'v \<Rightarrow> ('k, 'v) table \<Rightarrow> (bool \<times> ('k, 'v) table) ht_result" where
  "hm_differs hash k v other =
     and_then (hm_read hash k (\<lambda>_ ov. v = ov) other) (\<lambda>(r, other). Inr (r \<noteq> Some True, other))"

definition hm_eq ::
  "('k \<Rightarrow> u64) \<Rightarrow> ('k \<Rightarrow> u64) \<Rightarrow> ('k, 'v) table \<Rightarrow> ('k, 'v) table \<Rightarrow>
     (bool \<times> ('k, 'v) table \<times> ('k, 'v) table) ht_result" where
  "hm_eq hash hash' t other =
     and_then (hm_any hash (hm_differs hash') other t)
       (\<lambda>(r, other, t).
          if \<not> r then and_then (hm_any hash' (hm_differs hash) t other) (\<lambda>(r, t, other). Inr (\<not> r, t, other))
          else Inr (False, t, other))"

section \<open>What the methods do\<close>

lemma hm_insert_ok:
  assumes "table_ok SEQUENTIAL hash t" "roomy (table_map SEQUENTIAL hash t)"
  obtains t' where "hm_insert hash k v t =
      Inr (if table_map SEQUENTIAL hash t k = None then Inr () else Inl (k, v), t')" "table_ok SEQUENTIAL hash t'"
    "table_map SEQUENTIAL hash t' =
      (if table_map SEQUENTIAL hash t k = None then (table_map SEQUENTIAL hash t)(k \<mapsto> v) else table_map SEQUENTIAL hash t)"
  by (rule insert_entry_ok [OF assms, of k v]) (auto simp: hm_insert_def split: if_splits)

lemma hm_read_ok:
  assumes "table_ok SEQUENTIAL hash t" "roomy (table_map SEQUENTIAL hash t)"
  obtains t' where "hm_read hash k reader t = Inr (map_option (reader k) (table_map SEQUENTIAL hash t k), t')"
    "table_ok SEQUENTIAL hash t'" "table_map SEQUENTIAL hash t' = table_map SEQUENTIAL hash t"
  by (rule read_entry_ok [OF assms, of k]) (simp add: hm_read_def option.map_comp comp_def)

lemma hm_differs_ok:
  assumes "table_ok SEQUENTIAL hash t" "roomy (table_map SEQUENTIAL hash t)"
  obtains t' where "hm_differs hash k v t = Inr (table_map SEQUENTIAL hash t k \<noteq> Some v, t')"
    "table_ok SEQUENTIAL hash t'" "table_map SEQUENTIAL hash t' = table_map SEQUENTIAL hash t"
  by (rule hm_read_ok [OF assms, of k "\<lambda>_ ov. v = ov"])
    (cases "table_map SEQUENTIAL hash t k"; auto simp: hm_differs_def)

text \<open>One pass of \<^verbatim>\<open>PartialEq\<close>.\<close>

lemma hm_any_differs:
  assumes t: "table_ok SEQUENTIAL hash t" "roomy (table_map SEQUENTIAL hash t)"
    and o: "table_ok SEQUENTIAL hash' other" "roomy (table_map SEQUENTIAL hash' other)"
  obtains t' other' where
    "hm_any hash (hm_differs hash') other t =
       Inr (\<not> table_map SEQUENTIAL hash t \<subseteq>\<^sub>m table_map SEQUENTIAL hash' other, other', t')"
    "table_ok SEQUENTIAL hash t'" "table_map SEQUENTIAL hash t' = table_map SEQUENTIAL hash t"
    "table_ok SEQUENTIAL hash' other'" "table_map SEQUENTIAL hash' other' = table_map SEQUENTIAL hash' other"
proof -
  let ?m = "table_map SEQUENTIAL hash t" and ?o = "table_map SEQUENTIAL hash' other"
  let ?J = "\<lambda>s. table_ok SEQUENTIAL hash' s \<and> table_map SEQUENTIAL hash' s = ?o"
  have step: "\<exists>s'. hm_differs hash' k v s = Inr (?o k \<noteq> Some v, s') \<and> ?J s'" if "?J s" for k v s
    by (rule hm_differs_ok [of hash' s k v]) (use that o(2) in simp_all)
  have sub: "(\<exists>k v. ?m k = Some v \<and> ?o k \<noteq> Some v) \<longleftrightarrow> \<not> ?m \<subseteq>\<^sub>m ?o" by (force simp: map_le_def dom_def)
  show thesis
    by (rule any_entry_mut_pass [OF t, of ?J other "hm_differs hash'" "\<lambda>k v. ?o k \<noteq> Some v", OF _ step])
      (use o in \<open>auto simp: hm_any_def sub intro: that\<close>)
qed

text \<open>The insertions of \<^verbatim>\<open>Clone\<close>.\<close>

lemma hm_clone_ok:
  assumes ok: "table_ok SEQUENTIAL hash t" and room: "roomy (table_map SEQUENTIAL hash t)"
    and cap: "num_slots t \<le> hm_maximum_capacity"
  obtains c u where "hm_clone hash t = Inr (c, u)" "table_ok SEQUENTIAL hash c" "table_ok SEQUENTIAL hash u"
    "table_map SEQUENTIAL hash c = table_map SEQUENTIAL hash t" "table_map SEQUENTIAL hash u = table_map SEQUENTIAL hash t"
proof -
  let ?m = "table_map SEQUENTIAL hash t" and ?c = "hm_with_capacity (hm_capacity t) :: ('a, 'b) table"
  let ?ins = "\<lambda>k v c. and_then (and_then (hm_insert hash k v c) (\<lambda>(_, c). Inr c)) (\<lambda>c. Inr (False, c))"
  obtain u es where u:
    "\<forall>pred (s :: ('a, 'b) table). any_entry_mut SEQUENTIAL hash pred s t = and_then (any_until pred (map Some es) s) (\<lambda>(r, s). Inr (r, s, u))"
    "table_ok SEQUENTIAL hash u" "table_map SEQUENTIAL hash u = ?m" "distinct (map fst es)" "map_of es = ?m"
    by (rule any_entry_mut_ok [OF ok room])
  define I where "I = (\<lambda>(xs :: ('a \<times> 'b) list) c. table_ok SEQUENTIAL hash c \<and> table_map SEQUENTIAL hash c = map_of (rev xs))"
  have step: "\<exists>s'. ?ins k v s = Inr (False, s') \<and> I (xs @ [(k, v)]) s'" if x: "es = xs @ (k, v) # ys" "I xs s" for xs k v ys s
  proof -
    have d: "distinct (map fst xs)" "k \<notin> fst ` set xs" using u(4) x(1) by auto
    have eq: "map_of (rev xs) = map_of xs" using d(1) by (rule map_of_rev_distinct)
    have "dom (map_of xs) \<subseteq> dom ?m" using u(5) x(1) by (auto simp: dom_map_of_conv_image_fst simp flip: u(5))
    then have r: "roomy (table_map SEQUENTIAL hash s)" using roomy_mono [OF room] x(2) eq by (simp add: I_def)
    obtain s' where "hm_insert hash k v s =
        Inr (if table_map SEQUENTIAL hash s k = None then Inr () else Inl (k, v), s')" "table_ok SEQUENTIAL hash s'"
      "table_map SEQUENTIAL hash s' = (if table_map SEQUENTIAL hash s k = None then (table_map SEQUENTIAL hash s)(k \<mapsto> v) else table_map SEQUENTIAL hash s)"
      by (rule hm_insert_ok [OF _ r]) (use x(2) in \<open>simp add: I_def\<close>)
    moreover have "table_map SEQUENTIAL hash s k = None"
      using x(2) d(2) eq by (simp add: I_def map_of_eq_None_iff)
    ultimately show ?thesis using x(2) by (auto simp: I_def)
  qed
  have init: "I [] ?c"
    using table_new_ok [of 63 "num_slots t" SEQUENTIAL hash, where ?'v = 'b] cap
    by (simp add: I_def hm_with_capacity_def hm_capacity_def hm_maximum_capacity_def)
  have "\<exists>c. any_until ?ins (map Some es) ?c = Inr (False, c) \<and> I es c"
    by (rule any_until_invariant(1) [where I = I and P = "\<lambda>_ _. False", OF _ _ init]) (rule step, assumption+, simp_all add: list_all_iff)
  then obtain c where c: "any_until ?ins (map Some es) ?c = Inr (False, c)" "I es c" by blast
  have "table_map SEQUENTIAL hash c = ?m" using c(2) u(4,5) by (simp add: I_def map_of_rev_distinct)
  then show thesis using that [of c u] c u by (simp add: hm_clone_def hm_scan_def hm_any_def I_def)
qed

lemma num_slots_le: "table_ok ty hash t \<Longrightarrow> num_slots t \<le> 2 ^ 63"
proof -
  assume "table_ok ty hash t"
  then obtain n where "n \<le> 63" "maximum_capacity t = 2 ^ n" "num_slots t \<le> maximum_capacity t"
    by (auto simp: table_ok_def capacity_ok_def num_slots_def split: option.splits)
  moreover have "(2 :: nat) ^ n \<le> 2 ^ 63" if "n \<le> 63" using that by (intro power_increasing) auto
  ultimately show ?thesis by simp
qed

text \<open>C15. The entry interface of a map: \<^verbatim>\<open>entry(k).and_modify(f).or_insert_with_key(g)\<close> changes the value of
  a present key by \<open>f\<close> and gives an absent key the value of \<open>g\<close>, and the occupied entry it returns reads
  that key and value; \<^verbatim>\<open>entry(k).insert_entry(v)\<close> sets the value; every step returns without a panic, also
  when \<^verbatim>\<open>entry\<close> enlarges the table and the locked bucket becomes one of the old array.\<close>

theorem hash_map_entry_interface:
  assumes ok: "table_ok SEQUENTIAL hash t" and room: "roomy (table_map SEQUENTIAL hash t)"
  defines "m \<equiv> table_map SEQUENTIAL hash t"
  shows "\<exists>en t1. hm_entry hash k t = Inr (en, t1) \<and> entry_key en t1 = Inr k \<and> (m k = None \<longleftrightarrow> (\<exists>h e. en = Vacant k h e)) \<and>
    (\<exists>en' t2 e t3 v. and_modify f en t1 = Inr (en', t2) \<and> or_insert_with_key g en' t2 = Inr (e, t3) \<and>
       v = (case m k of None \<Rightarrow> g k | Some v \<Rightarrow> f v) \<and> occupied_read e t3 = Inr (k, v) \<and>
       table_ok SEQUENTIAL hash t3 \<and> table_map SEQUENTIAL hash t3 = m(k \<mapsto> v)) \<and>
    (\<exists>e t2. entry_insert_entry w en t1 = Inr (e, t2) \<and> occupied_read e t2 = Inr (k, w) \<and>
       table_ok SEQUENTIAL hash t2 \<and> table_map SEQUENTIAL hash t2 = m(k \<mapsto> w))"
proof -
  obtain en t1 where en: "table_entry SEQUENTIAL hash k t = Inr (en, t1)" "table_ok SEQUENTIAL hash t1"
    "table_map SEQUENTIAL hash t1 = table_map SEQUENTIAL hash t" "entry_of SEQUENTIAL hash k en t1"
    by (rule table_entry_ok [OF ok room])
  have room1: "roomy (table_map SEQUENTIAL hash t1)" using room en(3) by simp
  have vac: "m k = None \<longleftrightarrow> (\<exists>h e. en = Vacant k h e)"
    using en(2,4) by (cases rule: entry_of_cases) (use en(3) in \<open>auto simp: m_def\<close>)
  obtain en' t2 where am: "and_modify f en t1 = Inr (en', t2)" "table_ok SEQUENTIAL hash t2" "entry_of SEQUENTIAL hash k en' t2"
    "table_map SEQUENTIAL hash t2 = (table_map SEQUENTIAL hash t1)(k := map_option f (table_map SEQUENTIAL hash t1 k))"
    by (rule and_modify_ok [OF en(2,4)])
  have "dom (table_map SEQUENTIAL hash t2) = dom (table_map SEQUENTIAL hash t1)" unfolding am(4) by (auto split: if_splits)
  then have room2: "roomy (table_map SEQUENTIAL hash t2)" using room1 by (simp add: roomy_def)
  obtain e t3 v where oi: "or_insert_with_key g en' t2 = Inr (e, t3)" "table_ok SEQUENTIAL hash t3" "locked_at SEQUENTIAL e k v t3"
    "v = (case table_map SEQUENTIAL hash t2 k of None \<Rightarrow> g k | Some v \<Rightarrow> v)"
    "table_map SEQUENTIAL hash t3 = (table_map SEQUENTIAL hash t2)(k \<mapsto> v)"
    by (rule or_insert_with_key_ok [OF am(2) room2 am(3)])
  have v: "v = (case m k of None \<Rightarrow> g k | Some v \<Rightarrow> f v)" "table_map SEQUENTIAL hash t3 = m(k \<mapsto> v)"
    using oi(4,5) am(4) en(3) by (simp_all add: m_def split: option.split)
  obtain e' t2' where ie: "entry_insert_entry w en t1 = Inr (e', t2')" "table_ok SEQUENTIAL hash t2'"
    "locked_at SEQUENTIAL e' k w t2'" "table_map SEQUENTIAL hash t2' = (table_map SEQUENTIAL hash t1)(k \<mapsto> w)"
    by (rule entry_insert_entry_ok [OF en(2) room1 en(4)])
  show ?thesis
  proof (rule exI [of _ en], rule exI [of _ t1], intro conjI)
    show "\<exists>en' t2 e t3 v. and_modify f en t1 = Inr (en', t2) \<and> or_insert_with_key g en' t2 = Inr (e, t3) \<and>
       v = (case m k of None \<Rightarrow> g k | Some v \<Rightarrow> f v) \<and> occupied_read e t3 = Inr (k, v) \<and>
       table_ok SEQUENTIAL hash t3 \<and> table_map SEQUENTIAL hash t3 = m(k \<mapsto> v)"
      using am(1) oi(1,2) v occupied_read_ok(1) [OF oi(2,3)] by blast
    show "\<exists>e t2. entry_insert_entry w en t1 = Inr (e, t2) \<and> occupied_read e t2 = Inr (k, w) \<and>
       table_ok SEQUENTIAL hash t2 \<and> table_map SEQUENTIAL hash t2 = m(k \<mapsto> w)"
      using ie(1,2,4) occupied_read_ok(1) [OF ie(2,3)] en(3) by (auto simp: m_def)
  qed (use en(1) entry_key_ok [OF en(2,4)] vac in \<open>simp_all add: hm_entry_def\<close>)
qed

theorem hash_map_entry_interface_witness:
  "\<exists>en t1. hm_entry example_hash 8 halfway = Inr (en, t1) \<and>
    (\<exists>en' t2 e t3. and_modify Suc en t1 = Inr (en', t2) \<and> or_insert_with_key (\<lambda>_. 5) en' t2 = Inr (e, t3) \<and>
       occupied_read e t3 = Inr (8, 5))"
  using hash_map_entry_interface [OF halfway_ok(1,5), of 8 Suc "\<lambda>_. 5" 0] halfway_ok(2) by fastforce

text \<open>C16. \<^verbatim>\<open>update\<close>, \<^verbatim>\<open>remove_if\<close>, \<^verbatim>\<open>get\<close> and the operations of the occupied entry it returns: each returns
  what the map holds for the key, \<^verbatim>\<open>None\<close> for an absent key, and changes the value of that key only.\<close>

theorem hash_map_update_and_remove:
  assumes ok: "table_ok SEQUENTIAL hash t" and room: "roomy (table_map SEQUENTIAL hash t)"
  defines "m \<equiv> table_map SEQUENTIAL hash t"
  shows "(\<exists>t'. hm_update hash k updater t = Inr (map_option (\<lambda>v. fst (updater k v)) (m k), t') \<and>
      table_ok SEQUENTIAL hash t' \<and> table_map SEQUENTIAL hash t' = m(k := map_option (\<lambda>v. snd (updater k v)) (m k))) \<and>
    (\<exists>t'. hm_remove_if hash k cond t =
        Inr (Option.bind (m k) (\<lambda>v. if fst (cond v) then Some (k, snd (cond v)) else None), t') \<and>
      table_ok SEQUENTIAL hash t' \<and>
      table_map SEQUENTIAL hash t' = m(k := Option.bind (m k) (\<lambda>v. if fst (cond v) then None else Some (snd (cond v))))) \<and>
    (\<exists>e t1. hm_get hash k t = Inr (e, t1) \<and>
      (case e of
         None \<Rightarrow> m k = None
       | Some e \<Rightarrow> (\<exists>v t2 t3. m k = Some v \<and> occupied_get e t1 = Inr v \<and>
           occupied_insert w e t1 = Inr (v, t2) \<and> table_map SEQUENTIAL hash t2 = m(k \<mapsto> w) \<and>
           hm_occupied_remove e t2 = Inr (Some (k, w), t3) \<and> table_ok SEQUENTIAL hash t3 \<and>
           table_map SEQUENTIAL hash t3 = m(k := None))))"
proof (intro conjI)
  show "\<exists>t'. hm_update hash k updater t = Inr (map_option (\<lambda>v. fst (updater k v)) (m k), t') \<and>
      table_ok SEQUENTIAL hash t' \<and> table_map SEQUENTIAL hash t' = m(k := map_option (\<lambda>v. snd (updater k v)) (m k))"
    using ok room
  proof (cases rule: get_entry_locked [where k = k])
    case (absent u)
    then show ?thesis by (auto simp: hm_update_def m_def fun_upd_idem_iff)
  next
    case (present e u v)
    obtain t' where "occupied_get_mut (updater k) e u = Inr (fst (updater k v), t')" "table_ok SEQUENTIAL hash t'"
      "table_map SEQUENTIAL hash t' = (table_map SEQUENTIAL hash u)(k \<mapsto> snd (updater k v))"
      by (rule occupied_get_mut_ok [OF present(2,5)])
    then show ?thesis using present occupied_read_ok(2) [OF present(2,5)] by (auto simp: hm_update_def m_def)
  qed
  show "\<exists>t'. hm_remove_if hash k cond t =
        Inr (Option.bind (m k) (\<lambda>v. if fst (cond v) then Some (k, snd (cond v)) else None), t') \<and>
      table_ok SEQUENTIAL hash t' \<and>
      table_map SEQUENTIAL hash t' = m(k := Option.bind (m k) (\<lambda>v. if fst (cond v) then None else Some (snd (cond v))))"
    by (rule remove_entry_ok [OF ok room, of k cond]) (cases "m k"; auto simp: hm_remove_if_def m_def)
  show "\<exists>e t1. hm_get hash k t = Inr (e, t1) \<and>
      (case e of
         None \<Rightarrow> m k = None
       | Some e \<Rightarrow> (\<exists>v t2 t3. m k = Some v \<and> occupied_get e t1 = Inr v \<and>
           occupied_insert w e t1 = Inr (v, t2) \<and> table_map SEQUENTIAL hash t2 = m(k \<mapsto> w) \<and>
           hm_occupied_remove e t2 = Inr (Some (k, w), t3) \<and> table_ok SEQUENTIAL hash t3 \<and>
           table_map SEQUENTIAL hash t3 = m(k := None)))"
    using ok room
  proof (cases rule: get_entry_locked [where k = k])
    case (absent u)
    then show ?thesis by (auto simp: hm_get_def m_def)
  next
    case (present e u v)
    obtain t2 where t2: "occupied_insert w e u = Inr (v, t2)" "table_ok SEQUENTIAL hash t2"
      "table_map SEQUENTIAL hash t2 = (table_map SEQUENTIAL hash u)(k \<mapsto> w)" "locked_at SEQUENTIAL e k w t2"
      by (rule occupied_insert_ok [OF present(2,5)])
    obtain t3 where t3: "occupied_remove_entry SEQUENTIAL e t2 = Inr (if SEQUENTIAL = OPTIMISTIC then None else Some (k, w), t3)"
      "table_ok SEQUENTIAL hash t3" "table_map SEQUENTIAL hash t3 = (table_map SEQUENTIAL hash t2)(k := None)"
      by (rule occupied_remove_entry_ok [OF t2(2,4)])
    have "\<exists>v' t2 t3. m k = Some v' \<and> occupied_get e u = Inr v' \<and> occupied_insert w e u = Inr (v', t2) \<and>
        table_map SEQUENTIAL hash t2 = m(k \<mapsto> w) \<and> hm_occupied_remove e t2 = Inr (Some (k, w), t3) \<and>
        table_ok SEQUENTIAL hash t3 \<and> table_map SEQUENTIAL hash t3 = m(k := None)"
      by (intro exI [of _ v] exI [of _ t2] exI [of _ t3])
        (use present t2 t3 occupied_read_ok(3) [OF present(2,5)] in \<open>simp add: hm_occupied_remove_def m_def\<close>)
    then show ?thesis using present(1) by (auto simp: hm_get_def)
  qed
qed

theorem hash_map_update_and_remove_witness:
  "(\<exists>t'. hm_update example_hash 7 (\<lambda>_ v. (v, v + 2)) halfway = Inr (Some 1, t') \<and> table_map SEQUENTIAL example_hash t' = [7 \<mapsto> 3]) \<and>
   (\<exists>t'. hm_remove_if example_hash 7 (\<lambda>v. (False, v)) halfway = Inr (None, t')) \<and>
   (\<exists>e t1. hm_get example_hash 7 halfway = Inr (Some e, t1) \<and> occupied_get e t1 = Inr 1)"
  using hash_map_update_and_remove [OF halfway_ok(1,5), of 7 "\<lambda>_ v. (v, v + 2)" "\<lambda>v. (False, v)" 4] halfway_ok(2)
  by (auto split: option.splits)

text \<open>C18. The walk of a caller from \<^verbatim>\<open>first_entry\<close> by \<^verbatim>\<open>next\<close> visits every entry of the map exactly once and
  ends; the entries it reads are the map.\<close>

theorem hash_map_walk:
  assumes "table_ok SEQUENTIAL hash t" "roomy (table_map SEQUENTIAL hash t)"
  shows "\<exists>e u kvs. hm_first_entry hash t = Inr (e, u) \<and>
    walk_entries (card (dom (table_map SEQUENTIAL hash t))) SEQUENTIAL hash e u = Inr (kvs, u) \<and>
    distinct (map fst kvs) \<and> map_of kvs = table_map SEQUENTIAL hash t \<and>
    table_ok SEQUENTIAL hash u \<and> table_map SEQUENTIAL hash u = table_map SEQUENTIAL hash t"
proof -
  obtain e u kvs where w: "lock_first_entry SEQUENTIAL hash t = Inr (e, u)" "table_ok SEQUENTIAL hash u"
    "table_map SEQUENTIAL hash u = table_map SEQUENTIAL hash t"
    "\<forall>fuel. length kvs \<le> fuel \<longrightarrow> walk_entries fuel SEQUENTIAL hash e u = Inr (kvs, u)"
    "distinct (map fst kvs)" "map_of kvs = table_map SEQUENTIAL hash t"
    by (rule lock_first_entry_walk [OF assms])
  then show ?thesis using length_entries [OF w(5)] by (auto simp: hm_first_entry_def)
qed

theorem hash_map_walk_witness:
  "\<exists>e u. hm_first_entry example_hash halfway = Inr (e, u) \<and> walk_entries 1 SEQUENTIAL example_hash e u = Inr ([(7, 1)], u)"
proof -
  obtain e u kvs where w: "hm_first_entry example_hash halfway = Inr (e, u)"
    "walk_entries 1 SEQUENTIAL example_hash e u = Inr (kvs, u)" "distinct (map fst kvs)" "map_of kvs = [7 \<mapsto> 1]"
    using hash_map_walk [OF halfway_ok(1,5)] halfway_ok(2) by auto
  have "map_of kvs = map_of [(7 :: u64, 1 :: nat)]" using w(4) by simp
  then have "set kvs = {(7, 1)}" using map_of_inject_set [of kvs "[(7, 1)]"] w(3) by simp
  moreover have "length kvs = 1" using length_entries [OF w(3)] w(4) by simp
  ultimately have "kvs = [(7, 1)]" by (cases kvs) auto
  then show ?thesis using w(1,2) by blast
qed

text \<open>C17. \<^verbatim>\<open>Clone\<close> and \<^verbatim>\<open>PartialEq\<close>: the clone stands for the same map as the original and is equal to it,
  and two maps with any two hash functions are equal exactly if they have the same entries; none of the
  tables loses or gains an entry.\<close>

theorem hash_map_clone_and_eq:
  assumes t: "table_ok SEQUENTIAL hash t" "roomy (table_map SEQUENTIAL hash t)"
    and o: "table_ok SEQUENTIAL hash' other" "roomy (table_map SEQUENTIAL hash' other)"
  shows "(\<exists>c u. hm_clone hash t = Inr (c, u) \<and> table_ok SEQUENTIAL hash c \<and> table_ok SEQUENTIAL hash u \<and>
      table_map SEQUENTIAL hash c = table_map SEQUENTIAL hash t \<and> table_map SEQUENTIAL hash u = table_map SEQUENTIAL hash t) \<and>
    (\<exists>t' other'. hm_eq hash hash' t other =
        Inr (table_map SEQUENTIAL hash t = table_map SEQUENTIAL hash' other, t', other') \<and>
      table_ok SEQUENTIAL hash t' \<and> table_map SEQUENTIAL hash t' = table_map SEQUENTIAL hash t \<and>
      table_ok SEQUENTIAL hash' other' \<and> table_map SEQUENTIAL hash' other' = table_map SEQUENTIAL hash' other)"
proof
  have "num_slots t \<le> hm_maximum_capacity" using num_slots_le [OF t(1)] by (simp add: hm_maximum_capacity_def)
  then show "\<exists>c u. hm_clone hash t = Inr (c, u) \<and> table_ok SEQUENTIAL hash c \<and> table_ok SEQUENTIAL hash u \<and>
      table_map SEQUENTIAL hash c = table_map SEQUENTIAL hash t \<and> table_map SEQUENTIAL hash u = table_map SEQUENTIAL hash t"
    using hm_clone_ok [OF t] by blast
  let ?m = "table_map SEQUENTIAL hash t" and ?o = "table_map SEQUENTIAL hash' other"
  obtain t' other' where a: "hm_any hash (hm_differs hash') other t = Inr (\<not> ?m \<subseteq>\<^sub>m ?o, other', t')"
    "table_ok SEQUENTIAL hash t'" "table_map SEQUENTIAL hash t' = ?m"
    "table_ok SEQUENTIAL hash' other'" "table_map SEQUENTIAL hash' other' = ?o"
    by (rule hm_any_differs [OF t o])
  have r: "roomy (table_map SEQUENTIAL hash t')" "roomy (table_map SEQUENTIAL hash' other')" using t(2) o(2) a(3,5) by simp_all
  obtain o2 t2 where b: "hm_any hash' (hm_differs hash) t' other' = Inr (\<not> ?o \<subseteq>\<^sub>m ?m, t2, o2)"
    "table_ok SEQUENTIAL hash' o2" "table_map SEQUENTIAL hash' o2 = ?o" "table_ok SEQUENTIAL hash t2" "table_map SEQUENTIAL hash t2 = ?m"
    using hm_any_differs [OF a(4) r(2) a(2) r(1)] a(3,5) by metis
  show "\<exists>t' other'. hm_eq hash hash' t other = Inr (?m = ?o, t', other') \<and>
      table_ok SEQUENTIAL hash t' \<and> table_map SEQUENTIAL hash t' = ?m \<and>
      table_ok SEQUENTIAL hash' other' \<and> table_map SEQUENTIAL hash' other' = ?o"
  proof (cases "?m \<subseteq>\<^sub>m ?o")
    case True
    then have "hm_eq hash hash' t other = Inr (?m = ?o, t2, o2)"
      using a(1) b(1) map_le_antisym [of ?m ?o] by (auto simp: hm_eq_def)
    then show ?thesis using b by blast
  next
    case False
    then have "hm_eq hash hash' t other = Inr (?m = ?o, t', other')" using a(1) by (auto simp: hm_eq_def)
    then show ?thesis using a by blast
  qed
qed

theorem hash_map_clone_and_eq_witness:
  "(\<exists>c u. hm_clone example_hash halfway = Inr (c, u) \<and> table_map SEQUENTIAL example_hash c = [7 \<mapsto> 1]) \<and>
   (\<exists>t o'. hm_eq example_hash example_hash halfway filled = Inr (True, t, o'))"
  using hash_map_clone_and_eq [OF halfway_ok(1,5) filled_ok(1)] halfway_ok(2,5) filled_ok(2) by auto

end
