(* ===== verification/Hash_Set.thy ===== *)
theory Hash_Set
  imports Hash_Map
begin

text \<open>
  \<^verbatim>\<open>HashSet\<close> of \<^verbatim>\<open>src/hash_set.rs\<close>: a map from the keys to the unit value. The set a table stands for is the
  domain of its map.
\<close>

type_synonym 'k hash_set = "('k, unit) table"

definition hs_with_capacity :: "nat \<Rightarrow> 'k hash_set" where
  "hs_with_capacity capacity = hm_with_capacity capacity"

definition hs_reserve :: "nat \<Rightarrow> 'k hash_set \<Rightarrow> nat option \<times> 'k hash_set" where
  "hs_reserve capacity t = hm_reserve capacity t"

definition hs_insert :: "('k \<Rightarrow> u64) \<Rightarrow> 'k \<Rightarrow> 'k hash_set \<Rightarrow> (('k + unit) \<times> 'k hash_set) ht_result" where
  "hs_insert hash key t =
     and_then (hm_insert hash key () t) (\<lambda>(r, t). Inr (case r of Inl (k, _) \<Rightarrow> Inl k | Inr _ \<Rightarrow> Inr (), t))"

definition hs_remove_if :: "('k \<Rightarrow> u64) \<Rightarrow> 'k \<Rightarrow> bool \<Rightarrow> 'k hash_set \<Rightarrow> ('k option \<times> 'k hash_set) ht_result" where
  "hs_remove_if hash key condition t =
     and_then (hm_remove_if hash key (\<lambda>_. (condition, ())) t) (\<lambda>(r, t). Inr (map_option fst r, t))"

definition hs_remove :: "('k \<Rightarrow> u64) \<Rightarrow> 'k \<Rightarrow> 'k hash_set \<Rightarrow> ('k option \<times> 'k hash_set) ht_result" where
  "hs_remove hash key t = and_then (hm_remove hash key t) (\<lambda>(r, t). Inr (map_option fst r, t))"

definition hs_read :: "('k \<Rightarrow> u64) \<Rightarrow> 'k \<Rightarrow> ('k \<Rightarrow> 'r) \<Rightarrow> 'k hash_set \<Rightarrow> ('r option \<times> 'k hash_set) ht_result" where
  "hs_read hash key reader t = hm_read hash key (\<lambda>k _. reader k) t"

definition hs_contains :: "('k \<Rightarrow> u64) \<Rightarrow> 'k \<Rightarrow> 'k hash_set \<Rightarrow> (bool \<times> 'k hash_set) ht_result" where
  "hs_contains hash key t = and_then (hs_read hash key (\<lambda>_. ()) t) (\<lambda>(r, t). Inr (r \<noteq> None, t))"

definition hs_any ::
  "('k \<Rightarrow> u64) \<Rightarrow> ('k \<Rightarrow> 's \<Rightarrow> (bool \<times> 's) ht_result) \<Rightarrow> 's \<Rightarrow> 'k hash_set \<Rightarrow> (bool \<times> 's \<times> 'k hash_set) ht_result" where
  "hs_any hash pred s t = hm_any hash (\<lambda>k _. pred k) s t"

definition hs_scan ::
  "('k \<Rightarrow> u64) \<Rightarrow> ('k \<Rightarrow> 's \<Rightarrow> 's ht_result) \<Rightarrow> 's \<Rightarrow> 'k hash_set \<Rightarrow> ('s \<times> 'k hash_set) ht_result" where
  "hs_scan hash scanner s t = hm_scan hash (\<lambda>k _. scanner k) s t"

definition hs_retain :: "('k \<Rightarrow> u64) \<Rightarrow> ('k \<Rightarrow> bool) \<Rightarrow> 'k hash_set \<Rightarrow> 'k hash_set ht_result" where
  "hs_retain hash keep t = hm_retain hash (\<lambda>k _. (keep k, ())) t"

definition hs_clear :: "('k \<Rightarrow> u64) \<Rightarrow> 'k hash_set \<Rightarrow> 'k hash_set ht_result" where
  "hs_clear hash t = hm_clear hash t"

definition hs_len :: "'k hash_set \<Rightarrow> nat \<times> 'k hash_set" where
  "hs_len t = hm_len t"

definition hs_is_empty :: "'k hash_set \<Rightarrow> bool \<times> 'k hash_set" where
  "hs_is_empty t = hm_is_empty t"

definition hs_clone :: "('k \<Rightarrow> u64) \<Rightarrow> 'k hash_set \<Rightarrow> ('k hash_set \<times> 'k hash_set) ht_result" where
  "hs_clone hash t = hm_clone hash t"

text \<open>The closure \<^verbatim>\<open>|k| !other.contains(k)\<close> of \<^verbatim>\<open>PartialEq\<close>.\<close>

definition hs_lacks :: "('k \<Rightarrow> u64) \<Rightarrow> 'k \<Rightarrow> 'k hash_set \<Rightarrow> (bool \<times> 'k hash_set) ht_result" where
  "hs_lacks hash k t = and_then (hs_contains hash k t) (\<lambda>(r, t). Inr (\<not> r, t))"

definition hs_eq ::
  "('k \<Rightarrow> u64) \<Rightarrow> ('k \<Rightarrow> u64) \<Rightarrow> 'k hash_set \<Rightarrow> 'k hash_set \<Rightarrow> (bool \<times> 'k hash_set \<times> 'k hash_set) ht_result" where
  "hs_eq hash hash' t other =
     and_then (hs_any hash (hs_lacks hash') other t)
       (\<lambda>(r, other, t).
          if \<not> r then and_then (hs_any hash' (hs_lacks hash) t other) (\<lambda>(r, t, other). Inr (\<not> r, t, other))
          else Inr (False, t, other))"

section \<open>The set\<close>

definition set_of :: "('k \<Rightarrow> u64) \<Rightarrow> 'k hash_set \<Rightarrow> 'k set" where
  "set_of hash t = dom (table_map SEQUENTIAL hash t)"

definition set_ok :: "('k \<Rightarrow> u64) \<Rightarrow> 'k hash_set \<Rightarrow> bool" where
  "set_ok hash t \<longleftrightarrow> table_ok SEQUENTIAL hash t \<and> card (set_of hash t) < 2 ^ 32 - 1"

lemma set_okD:
  assumes "set_ok hash t"
  shows "table_ok SEQUENTIAL hash t" "roomy (table_map SEQUENTIAL hash t)"
  using assms table_finite [of SEQUENTIAL hash t] by (simp_all add: set_ok_def set_of_def roomy_def)

lemma in_set_of: "k \<in> set_of hash t \<longleftrightarrow> table_map SEQUENTIAL hash t k = Some ()"
  by (auto simp: set_of_def)

lemma map_of_set: "table_map SEQUENTIAL hash t k = (if k \<in> set_of hash t then Some () else None)"
  by (auto simp: set_of_def)

lemma same_set:
  assumes "set_ok hash t" "table_ok SEQUENTIAL hash u" "table_map SEQUENTIAL hash u = table_map SEQUENTIAL hash t"
  shows "set_ok hash u" "set_of hash u = set_of hash t"
  using assms by (simp_all add: set_ok_def set_of_def)

lemma hs_contains_ok:
  assumes "set_ok hash t"
  obtains t' where "hs_contains hash k t = Inr (k \<in> set_of hash t, t')" "set_ok hash t'" "set_of hash t' = set_of hash t"
proof -
  obtain u where u: "hm_read hash k (\<lambda>_ _. ()) t = Inr (map_option (\<lambda>_. ()) (table_map SEQUENTIAL hash t k), u)"
    "table_ok SEQUENTIAL hash u" "table_map SEQUENTIAL hash u = table_map SEQUENTIAL hash t"
    by (rule hm_read_ok [OF set_okD [OF assms]])
  have "hs_contains hash k t = Inr (k \<in> set_of hash t, u)" using u(1) by (simp add: hs_contains_def hs_read_def map_of_set)
  then show thesis using that same_set [OF assms u(2,3)] by blast
qed

lemma hs_lacks_ok:
  assumes "set_ok hash t"
  obtains t' where "hs_lacks hash k t = Inr (k \<notin> set_of hash t, t')" "set_ok hash t'" "set_of hash t' = set_of hash t"
  by (rule hs_contains_ok [OF assms, of k]) (simp add: hs_lacks_def)

lemma hs_any_lacks:
  assumes t: "set_ok hash t" and o: "set_ok hash' other"
  obtains t' other' where "hs_any hash (hs_lacks hash') other t = Inr (\<not> set_of hash t \<subseteq> set_of hash' other, other', t')"
    "set_ok hash t'" "set_of hash t' = set_of hash t" "set_ok hash' other'" "set_of hash' other' = set_of hash' other"
proof -
  let ?J = "\<lambda>s. set_ok hash' s \<and> set_of hash' s = set_of hash' other"
  have step: "\<exists>s'. hs_lacks hash' k s = Inr (k \<notin> set_of hash' other, s') \<and> ?J s'" if "?J s" for k s
    by (rule hs_lacks_ok [of hash' s k]) (use that in simp_all)
  have sub: "(\<exists>k v. table_map SEQUENTIAL hash t k = Some v \<and> k \<notin> set_of hash' other) \<longleftrightarrow> \<not> set_of hash t \<subseteq> set_of hash' other"
    by (auto simp: in_set_of)
  obtain s' u where "any_entry_mut SEQUENTIAL hash (\<lambda>k _. hs_lacks hash' k) other t =
      Inr (\<exists>k v. table_map SEQUENTIAL hash t k = Some v \<and> k \<notin> set_of hash' other, s', u)" "?J s'"
    "table_ok SEQUENTIAL hash u" "table_map SEQUENTIAL hash u = table_map SEQUENTIAL hash t"
    by (rule any_entry_mut_pass [OF set_okD [OF t], of ?J other "\<lambda>k _. hs_lacks hash' k" "\<lambda>k _. k \<notin> set_of hash' other", OF _ step])
      (use o in simp)
  then show thesis using that [of s' u] same_set [OF t, of u] sub by (simp add: hs_any_def hm_any_def)
qed

lemma set_ok_sub:
  assumes "set_ok hash t" "table_ok SEQUENTIAL hash u" "set_of hash u \<subseteq> set_of hash t"
  shows "set_ok hash u"
proof -
  have "finite (set_of hash t)" using table_finite [OF set_okD(1) [OF assms(1)]] by (simp add: set_of_def)
  then have "card (set_of hash u) \<le> card (set_of hash t)" by (rule card_mono [OF _ assms(3)])
  then show ?thesis using assms(1,2) by (simp add: set_ok_def)
qed

lemma hs_insert_ok:
  assumes "set_ok hash t"
  obtains u where "hs_insert hash k t = Inr (if k \<in> set_of hash t then Inl k else Inr (), u)" "table_ok SEQUENTIAL hash u"
    "set_of hash u = insert k (set_of hash t)"
proof -
  obtain u where u: "hm_insert hash k () t = Inr (if table_map SEQUENTIAL hash t k = None then Inr () else Inl (k, ()), u)"
    "table_ok SEQUENTIAL hash u" "table_map SEQUENTIAL hash u =
      (if table_map SEQUENTIAL hash t k = None then (table_map SEQUENTIAL hash t)(k \<mapsto> ()) else table_map SEQUENTIAL hash t)"
    by (rule hm_insert_ok [OF set_okD [OF assms]])
  have "hs_insert hash k t = Inr (if k \<in> set_of hash t then Inl k else Inr (), u)"
    using u(1) by (simp add: hs_insert_def set_of_def domIff)
  moreover have "set_of hash u = insert k (set_of hash t)" by (auto simp: set_of_def u(3))
  ultimately show thesis using that u(2) by blast
qed

lemma hs_remove_if_ok:
  assumes "set_ok hash t"
  obtains u where "hs_remove_if hash k b t = Inr (if k \<in> set_of hash t \<and> b then Some k else None, u)" "set_ok hash u"
    "set_of hash u = (if b then set_of hash t - {k} else set_of hash t)"
proof -
  let ?m = "table_map SEQUENTIAL hash t"
  obtain u where u: "table_ok SEQUENTIAL hash u"
    "remove_entry SEQUENTIAL hash k (\<lambda>_. (b, ())) t = Inr (case ?m k of None \<Rightarrow> None
       | Some v \<Rightarrow> if fst (b, ()) then Some (if SEQUENTIAL = OPTIMISTIC then None else Some (k, snd (b, ()))) else None, u)"
    "table_map SEQUENTIAL hash u = ?m (k := case ?m k of None \<Rightarrow> None | Some v \<Rightarrow> if fst (b, ()) then None else Some (snd (b, ())))"
    by (rule remove_entry_ok [OF set_okD [OF assms]])
  have s: "set_of hash u = (if b then set_of hash t - {k} else set_of hash t)"
    by (auto simp: set_of_def u(3) split: if_splits option.splits)
  have "hs_remove_if hash k b t = Inr (if k \<in> set_of hash t \<and> b then Some k else None, u)"
    using u(2) by (auto simp: hs_remove_if_def hm_remove_if_def in_set_of split: option.splits)
  then show thesis using that s set_ok_sub [OF assms u(1)] by (auto split: if_splits)
qed

lemma hs_retain_ok:
  assumes "set_ok hash t"
  obtains u where "hs_retain hash keep t = Inr u" "set_ok hash u" "set_of hash u = {x \<in> set_of hash t. keep x}"
proof -
  obtain u where u: "over_entries SEQUENTIAL hash (retain_body SEQUENTIAL (\<lambda>k _. (keep k, ()))) t = Inr u" "table_ok SEQUENTIAL hash u"
    "table_map SEQUENTIAL hash u = (\<lambda>k. Option.bind (table_map SEQUENTIAL hash t k) (retained (\<lambda>k _. (keep k, ())) k))"
    by (rule retain.over_entries_ok [OF set_okD [OF assms]])
  have s: "set_of hash u = {x \<in> set_of hash t. keep x}" by (auto simp: set_of_def u(3) retained_def split: bind_splits if_splits)
  then show thesis using that [of u] u(1) set_ok_sub [OF assms u(2)] by (auto simp: hs_retain_def hm_retain_def retain_entries_def)
qed

lemma hs_eq_ok:
  assumes t: "set_ok hash t" and o: "set_ok hash' other"
  obtains t' other' where "hs_eq hash hash' t other = Inr (set_of hash t = set_of hash' other, t', other')"
    "set_ok hash t'" "set_of hash t' = set_of hash t" "set_ok hash' other'" "set_of hash' other' = set_of hash' other"
proof -
  let ?S = "set_of hash t" and ?O = "set_of hash' other"
  obtain t1 o1 where a: "hs_any hash (hs_lacks hash') other t = Inr (\<not> ?S \<subseteq> ?O, o1, t1)" "set_ok hash t1"
    "set_of hash t1 = ?S" "set_ok hash' o1" "set_of hash' o1 = ?O"
    by (rule hs_any_lacks [OF t o])
  obtain o2 t2 where b: "hs_any hash' (hs_lacks hash) t1 o1 = Inr (\<not> set_of hash' o1 \<subseteq> set_of hash t1, t2, o2)" "set_ok hash' o2"
    "set_of hash' o2 = set_of hash' o1" "set_ok hash t2" "set_of hash t2 = set_of hash t1"
    by (rule hs_any_lacks [OF a(4,2)])
  show thesis
  proof (cases "?S \<subseteq> ?O")
    case True
    then have "hs_eq hash hash' t other = Inr (?S = ?O, t2, o2)" using a b(1) by (auto simp: hs_eq_def)
    then show thesis by (rule that) (use a b in simp_all)
  next
    case False
    then have "hs_eq hash hash' t other = Inr (?S = ?O, t1, o1)" using a by (auto simp: hs_eq_def)
    then show thesis by (rule that) (use a in simp_all)
  qed
qed

text \<open>C19. The methods of a set of fewer than \<open>2 ^ 32 - 1\<close> keys refine the operations on a mathematical set:
  \<^verbatim>\<open>insert\<close> adds the key or returns it when it is present, \<^verbatim>\<open>remove_if\<close> removes and returns a key that is
  present when the condition holds, \<^verbatim>\<open>contains\<close> is membership, \<^verbatim>\<open>retain\<close> intersects, \<^verbatim>\<open>len\<close> counts, and two
  sets are equal exactly if they have the same keys.\<close>

theorem hash_set_refines_set:
  assumes t: "set_ok hash t" and o: "set_ok hash' other"
  defines "S \<equiv> set_of hash t"
  shows "(\<exists>t'. hs_insert hash k t = Inr (if k \<in> S then Inl k else Inr (), t') \<and> table_ok SEQUENTIAL hash t' \<and> set_of hash t' = insert k S) \<and>
    (\<exists>t'. hs_remove_if hash k b t = Inr (if k \<in> S \<and> b then Some k else None, t') \<and> set_ok hash t' \<and>
       set_of hash t' = (if b then S - {k} else S)) \<and>
    (\<exists>t'. hs_contains hash k t = Inr (k \<in> S, t') \<and> set_ok hash t' \<and> set_of hash t' = S) \<and>
    (\<exists>t'. hs_retain hash keep t = Inr t' \<and> set_ok hash t' \<and> set_of hash t' = {x \<in> S. keep x}) \<and>
    fst (hs_len t) = card S \<and> (fst (hs_is_empty t) \<longleftrightarrow> S = {}) \<and>
    (\<exists>t' other'. hs_eq hash hash' t other = Inr (S = set_of hash' other, t', other') \<and>
       set_ok hash t' \<and> set_of hash t' = S \<and> set_ok hash' other' \<and> set_of hash' other' = set_of hash' other)"
proof (intro conjI)
  show "\<exists>t'. hs_insert hash k t = Inr (if k \<in> S then Inl k else Inr (), t') \<and> table_ok SEQUENTIAL hash t' \<and> set_of hash t' = insert k S"
    unfolding S_def by (rule hs_insert_ok [OF t, of k]) blast
  show "\<exists>t'. hs_remove_if hash k b t = Inr (if k \<in> S \<and> b then Some k else None, t') \<and> set_ok hash t' \<and>
       set_of hash t' = (if b then S - {k} else S)"
    unfolding S_def by (rule hs_remove_if_ok [OF t, of k b]) blast
  show "\<exists>t'. hs_contains hash k t = Inr (k \<in> S, t') \<and> set_ok hash t' \<and> set_of hash t' = S"
    unfolding S_def by (rule hs_contains_ok [OF t, of k]) blast
  show "\<exists>t'. hs_retain hash keep t = Inr t' \<and> set_ok hash t' \<and> set_of hash t' = {x \<in> S. keep x}"
    unfolding S_def by (rule hs_retain_ok [OF t, of keep]) blast
  show "fst (hs_len t) = card S"
    using ht_num_entries_ok(1) [OF set_okD(1) [OF t]] by (simp add: hs_len_def hm_len_def S_def set_of_def)
  show "fst (hs_is_empty t) \<longleftrightarrow> S = {}"
    using has_entry_ok(1) [OF set_okD(1) [OF t]] by (simp add: hs_is_empty_def hm_is_empty_def S_def set_of_def split_def Let_def)
  show "\<exists>t' other'. hs_eq hash hash' t other = Inr (S = set_of hash' other, t', other') \<and>
       set_ok hash t' \<and> set_of hash t' = S \<and> set_ok hash' other' \<and> set_of hash' other' = set_of hash' other"
    unfolding S_def by (rule hs_eq_ok [OF t o]) blast
qed

lemma new_set_ok: "set_ok hash (hs_with_capacity 0)" "set_of hash (hs_with_capacity 0) = {}"
  using table_new_ok [of 63 0 SEQUENTIAL hash, where ?'v = unit]
  by (simp_all add: set_ok_def set_of_def hs_with_capacity_def hm_with_capacity_def hm_maximum_capacity_def)

theorem hash_set_refines_set_witness:
  "\<exists>t'. hs_insert example_hash 3 (hs_with_capacity 0) = Inr (Inr (), t') \<and> set_of example_hash t' = {3}"
  using conjunct1 [OF hash_set_refines_set [OF new_set_ok(1) [of example_hash] new_set_ok(1) [of example_hash], of 3]]
    new_set_ok(2) [of example_hash] by fastforce

end
