(* ===== verification/Hash_Cache.thy ===== *)
theory Hash_Cache
  imports Hash_Interface
begin

text \<open>
  \<^verbatim>\<open>HashCache\<close> of \<^verbatim>\<open>src/hash_cache.rs\<close>: a hash table of cache buckets with a maximum capacity. Every access
  through an entry makes the entry the most recently used one of its bucket, and an insertion into a
  bucket whose 32 slots are taken evicts the least recently used entry of the bucket.
\<close>

section \<open>Construction\<close>

definition DEFAULT_MAXIMUM_CAPACITY :: nat where
  "DEFAULT_MAXIMUM_CAPACITY = 256"

definition hc_with_hasher :: "('k, 'v) table" where
  "hc_with_hasher = \<lparr>current_array = None, old_array = None, array_tag = TagNone, minimum_capacity = 0,
     maximum_capacity = DEFAULT_MAXIMUM_CAPACITY\<rparr>"

definition hc_with_capacity :: "nat \<Rightarrow> nat \<Rightarrow> ('k, 'v) table" where
  "hc_with_capacity min_capacity max_capacity =
     (let (a, min_capacity) =
            (if min_capacity = 0 then (None, 0)
             else let a = ba_new min_capacity in (Some a, ba_num_entries a));
          max_capacity = next_power_of_two (min (max (max max_capacity min_capacity) ba_minimum_capacity) (2 ^ (64 - 1)))
      in \<lparr>current_array = a, old_array = None, array_tag = TagNone, minimum_capacity = min_capacity,
          maximum_capacity = max_capacity\<rparr>)"

section \<open>Entries\<close>

text \<open>\<^verbatim>\<open>locker.update_lru_tail(&entry_ptr)\<close>.\<close>

definition touch :: "locked_entry \<Rightarrow> ('k, 'v) table \<Rightarrow> ('k, 'v) table ht_result" where
  "touch e t = and_then (with_bucket e (\<lambda>b. Inr ((), update_lru_tail b (entry_pointer e))) t) (\<lambda>(_, t). Inr t)"

definition hc_entry :: "('k \<Rightarrow> u64) \<Rightarrow> 'k \<Rightarrow> ('k, 'v) table \<Rightarrow> ('k entry \<times> ('k, 'v) table) ht_result" where
  "hc_entry hash key t =
     and_then (reserve_entry 2 CACHE hash key t)
       (\<lambda>(e, t).
          if ep_is_valid (entry_pointer e) then and_then (touch e t) (\<lambda>t. Inr (Occupied e, t))
          else Inr (Vacant key (hash key) e, t))"

text \<open>\<^verbatim>\<open>VacantEntry::put_entry\<close>: evict, insert, and make the new entry the most recently used one.\<close>

definition vacant_put_entry ::
  "u64 \<Rightarrow> 'k \<Rightarrow> 'v \<Rightarrow> locked_entry \<Rightarrow> ('k, 'v) table \<Rightarrow> ((('k \<times> 'v) option \<times> locked_entry) \<times> ('k, 'v) table) ht_result" where
  "vacant_put_entry h key val e t =
     with_bucket e
       (\<lambda>b. let (evicted, b) = evict_lru_head b
            in case insert_with b (partial_hash h) (key, val) of
                 Inl p \<Rightarrow> Inl (Bucket_Panic p)
               | Inr (ep, b) \<Rightarrow> Inr ((evicted, e\<lparr>entry_pointer := ep\<rparr>), update_lru_tail b ep)) t"

definition hc_put ::
  "('k \<Rightarrow> u64) \<Rightarrow> 'k \<Rightarrow> 'v \<Rightarrow> ('k, 'v) table \<Rightarrow> (('k \<times> 'v + ('k \<times> 'v) option) \<times> ('k, 'v) table) ht_result" where
  "hc_put hash key val t =
     and_then (reserve_entry 2 CACHE hash key t)
       (\<lambda>(e, t).
          if ep_is_valid (entry_pointer e) then Inr (Inl (key, val), t)
          else and_then (vacant_put_entry (hash key) key val e t) (\<lambda>((evicted, _), t). Inr (Inr evicted, t)))"

definition hc_get :: "('k \<Rightarrow> u64) \<Rightarrow> 'k \<Rightarrow> ('k, 'v) table \<Rightarrow> (locked_entry option \<times> ('k, 'v) table) ht_result" where
  "hc_get hash key t =
     and_then (get_entry CACHE hash key t)
       (\<lambda>(e, t). case e of None \<Rightarrow> Inr (None, t) | Some e \<Rightarrow> and_then (touch e t) (\<lambda>t. Inr (Some e, t)))"

definition hc_read ::
  "('k \<Rightarrow> u64) \<Rightarrow> 'k \<Rightarrow> ('k \<Rightarrow> 'v \<Rightarrow> 'r) \<Rightarrow> ('k, 'v) table \<Rightarrow> ('r option \<times> ('k, 'v) table) ht_result" where
  "hc_read hash key reader t =
     and_then (read_entry CACHE hash key t) (\<lambda>(r, t). Inr (map_option (\<lambda>(k, v). reader k v) r, t))"

definition hc_contains :: "('k \<Rightarrow> u64) \<Rightarrow> 'k \<Rightarrow> ('k, 'v) table \<Rightarrow> (bool \<times> ('k, 'v) table) ht_result" where
  "hc_contains hash key t = and_then (hc_read hash key (\<lambda>_ _. ()) t) (\<lambda>(r, t). Inr (r \<noteq> None, t))"

definition hc_remove_if ::
  "('k \<Rightarrow> u64) \<Rightarrow> 'k \<Rightarrow> ('v \<Rightarrow> bool \<times> 'v) \<Rightarrow> ('k, 'v) table \<Rightarrow> (('k \<times> 'v) option \<times> ('k, 'v) table) ht_result" where
  "hc_remove_if hash key condition t =
     and_then (hc_get hash key t)
       (\<lambda>(e, t). case e of
            None \<Rightarrow> Inr (None, t)
          | Some e \<Rightarrow>
              and_then (occupied_get_mut condition e t)
                (\<lambda>(met, t). if met then occupied_remove_entry CACHE e t else Inr (None, t)))"

definition hc_remove :: "('k \<Rightarrow> u64) \<Rightarrow> 'k \<Rightarrow> ('k, 'v) table \<Rightarrow> (('k \<times> 'v) option \<times> ('k, 'v) table) ht_result" where
  "hc_remove hash key t = hc_remove_if hash key (Pair True) t"

text \<open>The methods of \<^verbatim>\<open>Entry\<close>; the first component of the result is what was evicted.\<close>

definition or_put_with_key ::
  "('k \<Rightarrow> 'v) \<Rightarrow> 'k entry \<Rightarrow> ('k, 'v) table \<Rightarrow> ((('k \<times> 'v) option \<times> locked_entry) \<times> ('k, 'v) table) ht_result" where
  "or_put_with_key constructor en t =
     (case en of
        Occupied e \<Rightarrow> Inr ((None, e), t)
      | Vacant key h e \<Rightarrow> vacant_put_entry h key (constructor key) e t)"

definition or_put :: "'v \<Rightarrow> 'k entry \<Rightarrow> ('k, 'v) table \<Rightarrow> ((('k \<times> 'v) option \<times> locked_entry) \<times> ('k, 'v) table) ht_result" where
  "or_put val en t = or_put_with_key (\<lambda>_. val) en t"

definition entry_put_entry :: "'v \<Rightarrow> 'k entry \<Rightarrow> ('k, 'v) table \<Rightarrow> ((('k \<times> 'v) option \<times> locked_entry) \<times> ('k, 'v) table) ht_result" where
  "entry_put_entry val en t =
     (case en of
        Occupied e \<Rightarrow> and_then (occupied_insert val e t) (\<lambda>(_, t). Inr ((None, e), t))
      | Vacant key h e \<Rightarrow> vacant_put_entry h key val e t)"

section \<open>All entries\<close>

text \<open>The loop of \<^verbatim>\<open>scan\<close> is the one of \<^verbatim>\<open>any_entry\<close> with a closure that never stops it.\<close>

definition hc_any ::
  "('k \<Rightarrow> u64) \<Rightarrow> ('k \<Rightarrow> 'v \<Rightarrow> 's \<Rightarrow> (bool \<times> 's) ht_result) \<Rightarrow> 's \<Rightarrow> ('k, 'v) table \<Rightarrow>
     (bool \<times> 's \<times> ('k, 'v) table) ht_result" where
  "hc_any hash pred s t = any_entry_mut CACHE hash pred s t"

definition hc_scan ::
  "('k \<Rightarrow> u64) \<Rightarrow> ('k \<Rightarrow> 'v \<Rightarrow> 's \<Rightarrow> 's ht_result) \<Rightarrow> 's \<Rightarrow> ('k, 'v) table \<Rightarrow> ('s \<times> ('k, 'v) table) ht_result" where
  "hc_scan hash scanner s t =
     and_then (any_entry_mut CACHE hash (\<lambda>k v s. and_then (scanner k v s) (\<lambda>s. Inr (False, s))) s t) (\<lambda>(_, s, t). Inr (s, t))"

definition hc_retain :: "('k \<Rightarrow> u64) \<Rightarrow> ('k \<Rightarrow> 'v \<Rightarrow> bool \<times> 'v) \<Rightarrow> ('k, 'v) table \<Rightarrow> ('k, 'v) table ht_result" where
  "hc_retain hash pred t = retain_entries CACHE hash pred t"

definition hc_clear :: "('k \<Rightarrow> u64) \<Rightarrow> ('k, 'v) table \<Rightarrow> ('k, 'v) table ht_result" where
  "hc_clear hash t = hc_retain hash (\<lambda>_ v. (False, v)) t"

definition hc_len :: "('k, 'v) table \<Rightarrow> nat \<times> ('k, 'v) table" where
  "hc_len t = ht_num_entries CACHE t"

definition hc_is_empty :: "('k, 'v) table \<Rightarrow> bool \<times> ('k, 'v) table" where
  "hc_is_empty t = (let (r, t) = has_entry CACHE t in (\<not> r, t))"

definition hc_capacity :: "('k, 'v) table \<Rightarrow> nat" where
  "hc_capacity t = num_slots t"

definition hc_capacity_range :: "('k, 'v) table \<Rightarrow> nat \<times> nat" where
  "hc_capacity_range t = (minimum_capacity t, maximum_capacity t)"

definition hc_differs ::
  "('k \<Rightarrow> u64) \<Rightarrow> 'k \<Rightarrow> 'v \<Rightarrow> ('k, 'v) table \<Rightarrow> (bool \<times> ('k, 'v) table) ht_result" where
  "hc_differs hash k v other =
     and_then (hc_read hash k (\<lambda>_ ov. v = ov) other) (\<lambda>(r, other). Inr (r \<noteq> Some True, other))"

definition hc_eq ::
  "('k \<Rightarrow> u64) \<Rightarrow> ('k \<Rightarrow> u64) \<Rightarrow> ('k, 'v) table \<Rightarrow> ('k, 'v) table \<Rightarrow>
     (bool \<times> ('k, 'v) table \<times> ('k, 'v) table) ht_result" where
  "hc_eq hash hash' t other =
     and_then (hc_any hash (hc_differs hash') other t)
       (\<lambda>(r, other, t).
          if \<not> r then and_then (hc_any hash' (hc_differs hash) t other) (\<lambda>(r, t, other). Inr (\<not> r, t, other))
          else Inr (False, t, other))"

section \<open>What the operations do\<close>

lemma points_to_update_lru_tail:
  assumes "points_to CACHE b p e" shows "points_to CACHE (update_lru_tail b ep) p e"
  using assms
  by (auto simp: points_to_def update_lru_tail_def store_tail_def ep_block_def slot_entry_def reachable_bitmap_def
      split: option.splits prod.splits if_splits)

lemma touch_ok:
  assumes ok: "table_ok CACHE hash t" and at: "locked_at CACHE e k v t"
  obtains u where "touch e t = Inr u" "table_ok CACHE hash u" "table_map CACHE hash u = table_map CACHE hash t" "locked_at CACHE e k v u"
proof -
  obtain a where a: "deciding CACHE hash e k a t" "points_to CACHE (bucket_at a (entry_index e)) (entry_pointer e) (k, v)"
    "table_map CACHE hash t k = Some v" by (rule locked_at_deciding [OF ok at])
  let ?b = "bucket_at a (entry_index e)"
  note d = deciding_bucket [OF a(1)]
  have lt: "current_index (entry_pointer e) < 32" by (rule points_to_valid(2) [OF d(1) a(2)])
  note l = update_lru_tail_ok [OF d(1) lt]
  have m: "bucket_map CACHE (update_lru_tail ?b (entry_pointer e)) = (bucket_map CACHE ?b)(k \<mapsto> v)"
    using l(2) points_to_entry(2) [OF d(1) a(2)] by (simp add: fun_upd_idem)
  note p = deciding_put [OF ok a(1) l(1) m state_update_lru_tail]
  let ?u = "put_bucket (entry_place e) (entry_index e) (update_lru_tail ?b (entry_pointer e)) t"
  have "touch e t = Inr ?u" using d(4) by (simp add: touch_def with_bucket_def)
  moreover have "locked_at CACHE e k v ?u"
    using locked_at_put [OF p(3) d(3) p(4) points_to_update_lru_tail [OF a(2)]] by simp
  moreover have "table_map CACHE hash ?u = table_map CACHE hash t" using p(2) a(3) by (simp add: fun_upd_idem)
  ultimately show thesis using that p(1) by blast
qed

lemma state_evict: "state (snd (evict_lru_head b)) = state b"
  by (auto simp: evict_lru_head_def Let_def store_tail_def split: option.splits prod.splits)

text \<open>Eviction from the bucket of a key that is absent: another entry of the bucket, or none.\<close>

lemma evict_deciding:
  assumes ok: "table_ok CACHE hash t" and d: "deciding CACHE hash e k a t"
  defines "b \<equiv> bucket_at a (entry_index e)"
  obtains (none) "evict_lru_head b = (None, b)"
  | (evicted) x v b' where "evict_lru_head b = (Some (x, v), b')" "bucket_ok CACHE (ph_of hash) b'"
      "bucket_map CACHE b' = (bucket_map CACHE b)(x := None)" "bucket_map CACHE b x = Some v" "state b' = state b"
      "deciding CACHE hash e x a t" "table_map CACHE hash t x = Some v"
proof (cases "occupied_bitmap (metadata b) = - 1")
  case False
  then show thesis using none evict_not_full by blast
next
  case True
  note bk = deciding_bucket [OF d, folded b_def]
  obtain xs where xs: "lru_rel (lru_list b) (removed_bitmap_or_lru_tail (metadata b)) xs"
    using bk(1) by (auto simp: bucket_ok_def lru_ok_def)
  obtain y where y: "fst (evict_lru_head b) = Some y" "bucket_ok CACHE (ph_of hash) (snd (evict_lru_head b))"
    "bucket_map CACHE (snd (evict_lru_head b)) = (bucket_map CACHE b)(fst y := None)" "bucket_map CACHE b (fst y) = Some (snd y)"
    by (rule evict_lru_head_ok [OF bk(1) xs True])
  have "bucket_map CACHE (bucket_at a (entry_index e)) (fst y) = Some (snd y)" using y(4) by (simp add: b_def)
  from deciding_entry [OF ok bk(4) bk(3) deciding_bucket(5) [OF d] this] show thesis
    using evicted [of "fst y" "snd y" "snd (evict_lru_head b)"] y state_evict [of b] by (simp add: prod_eq_iff)
qed

text \<open>What is removed from the map by an eviction.\<close>

definition without :: "('k \<times> 'v) option \<Rightarrow> ('k \<rightharpoonup> 'v) \<Rightarrow> 'k \<rightharpoonup> 'v" where
  "without evicted m = (case evicted of None \<Rightarrow> m | Some (x, _) \<Rightarrow> m(x := None))"

lemma insert_into_bucket:
  assumes ok: "table_ok CACHE hash t" and room: "roomy (table_map CACHE hash t)" and d: "deciding CACHE hash e k a t"
    and new: "table_map CACHE hash t k = None"
  obtains ep b where "insert_with (bucket_at a (entry_index e)) (partial_hash (hash k)) (k, v) = Inr (ep, b)"
    "table_ok CACHE hash (put_bucket (entry_place e) (entry_index e) (update_lru_tail b ep) t)"
    "table_map CACHE hash (put_bucket (entry_place e) (entry_index e) (update_lru_tail b ep) t) = (table_map CACHE hash t)(k \<mapsto> v)"
    "locked_at CACHE (e\<lparr>entry_pointer := ep\<rparr>) k v (put_bucket (entry_place e) (entry_index e) (update_lru_tail b ep) t)"
proof -
  note b = deciding_bucket [OF d]
  have n: "bucket_map CACHE (bucket_at a (entry_index e)) (fst (k, v)) = None" using b(2) new by simp
  obtain ep b' where ins: "insert_with (bucket_at a (entry_index e)) (ph_of hash (fst (k, v))) (k, v) = Inr (ep, b')"
    "bucket_ok CACHE (ph_of hash) b'" "bucket_map CACHE b' = (bucket_map CACHE (bucket_at a (entry_index e)))(fst (k, v) \<mapsto> snd (k, v))"
    "points_to CACHE b' ep (k, v)"
    by (rule insert_with_ok [OF b(1) n roomy_bucket [OF room b(1) deciding_sub [OF d]]])
  note l = update_lru_tail_ok [OF ins(2) points_to_valid(2) [OF ins(2,4)]]
  have st: "state (update_lru_tail b' ep) = state (bucket_at a (entry_index e))"
    using insert_with_state [OF ins(1)] by (simp add: state_update_lru_tail)
  note p = deciding_put [OF ok d l(1) l(2) [unfolded ins(3), simplified] st]
  show thesis
    using that [of ep b'] ins(1) p(1,2) locked_at_put [OF p(3) b(3) p(4) points_to_update_lru_tail [OF ins(4)]] by simp
qed

lemma vacant_put_entry_ok:
  assumes ok: "table_ok CACHE hash t" and room: "roomy (table_map CACHE hash t)" and d: "deciding CACHE hash e k a t"
    and new: "table_map CACHE hash t k = None"
  obtains evicted e' u where "vacant_put_entry (hash k) k v e t = Inr ((evicted, e'), u)" "table_ok CACHE hash u"
    "table_map CACHE hash u = (without evicted (table_map CACHE hash t))(k \<mapsto> v)" "locked_at CACHE e' k v u"
    "\<forall>x w. evicted = Some (x, w) \<longrightarrow> table_map CACHE hash t x = Some w"
  using ok d
proof (cases rule: evict_deciding)
  case none
  obtain ep b where i: "insert_with (bucket_at a (entry_index e)) (partial_hash (hash k)) (k, v) = Inr (ep, b)"
    "table_ok CACHE hash (put_bucket (entry_place e) (entry_index e) (update_lru_tail b ep) t)"
    "table_map CACHE hash (put_bucket (entry_place e) (entry_index e) (update_lru_tail b ep) t) = (table_map CACHE hash t)(k \<mapsto> v)"
    "locked_at CACHE (e\<lparr>entry_pointer := ep\<rparr>) k v (put_bucket (entry_place e) (entry_index e) (update_lru_tail b ep) t)"
    by (rule insert_into_bucket [OF ok room d new])
  have "vacant_put_entry (hash k) k v e t =
      Inr ((None, e\<lparr>entry_pointer := ep\<rparr>), put_bucket (entry_place e) (entry_index e) (update_lru_tail b ep) t)"
    using deciding_bucket(4) [OF d] none i(1) by (simp add: vacant_put_entry_def with_bucket_def)
  then show thesis by (rule that) (use i in \<open>simp_all add: without_def\<close>)
next
  case (evicted x w b1)
  let ?t = "put_bucket (entry_place e) (entry_index e) b1 t"
  note p = deciding_put [OF ok evicted(6,2,3,5)] and d' = deciding_put_again [OF ok evicted(6) d evicted(2,3,5)]
  have at: "bucket_at (set_bucket (entry_index e) b1 a) (entry_index e) = b1" using deciding_bucket(3) [OF d] by simp
  have room': "roomy (table_map CACHE hash ?t)" by (rule roomy_mono [OF room]) (auto simp: p(2) split: if_splits)
  have new': "table_map CACHE hash ?t k = None" using p(2) new by simp
  obtain ep b where i: "insert_with b1 (partial_hash (hash k)) (k, v) = Inr (ep, b)"
    "table_ok CACHE hash (put_bucket (entry_place e) (entry_index e) (update_lru_tail b ep) ?t)"
    "table_map CACHE hash (put_bucket (entry_place e) (entry_index e) (update_lru_tail b ep) ?t) = (table_map CACHE hash ?t)(k \<mapsto> v)"
    "locked_at CACHE (e\<lparr>entry_pointer := ep\<rparr>) k v (put_bucket (entry_place e) (entry_index e) (update_lru_tail b ep) ?t)"
    using insert_into_bucket [OF p(1) room' d' new', unfolded at] .
  have "vacant_put_entry (hash k) k v e t =
      Inr ((Some (x, w), e\<lparr>entry_pointer := ep\<rparr>), put_bucket (entry_place e) (entry_index e) (update_lru_tail b ep) t)"
    using deciding_bucket(4) [OF d] evicted(1) i(1) by (simp add: vacant_put_entry_def with_bucket_def)
  then show thesis by (rule that) (use i p(2) evicted(7) in \<open>simp_all add: without_def put_bucket_twice\<close>)
qed

section \<open>Least recently used entries\<close>

lemma update_lru_rel:
  assumes "lru_rel (lru_list b) (removed_bitmap_or_lru_tail (metadata b)) xs" "i < 32"
  shows "lru_rel (lru_list (update_lru_tail b (at_main i)))
    (removed_bitmap_or_lru_tail (metadata (update_lru_tail b (at_main i)))) (i # remove1 i xs)"
proof -
  have e: "unat (of_nat i :: u8) = i" using assms(2) by (simp add: unat_of_small)
  show ?thesis using lru_promote_rel [OF assms(1), of "of_nat i"] assms(2) e
    by (auto simp: update_lru_tail_def store_tail_def split: prod.split option.split)
qed

lemma insert_with_lru:
  "insert_with b p e = Inr (ep, b') \<Longrightarrow> lru_list b' = lru_list b \<and>
     removed_bitmap_or_lru_tail (metadata b') = removed_bitmap_or_lru_tail (metadata b)"
  by (auto simp: insert_with_def Let_def insert_entry_with_def split: if_splits option.splits)

text \<open>C21. Which entry a full bucket of a cache evicts after slot \<open>i\<close> has been accessed, where \<open>xs\<close> are the
  slots the list of the bucket tracks, the most recently used first: the last of the other tracked slots,
  so the entry just used stays; but where no other slot is tracked, it is the entry that has just been
  used. Insertion as the relocation of a bucket does it, into a free slot of any bucket \<open>c\<close> or into its
  linked buckets, leaves the list of the bucket alone, so the entries that relocation has moved are not
  tracked until they are accessed.\<close>

theorem cache_eviction_after_use:
  fixes b :: "('k, 'v) bucket"
  assumes ok: "bucket_ok CACHE ph b" and xs: "lru_rel (lru_list b) (removed_bitmap_or_lru_tail (metadata b)) xs"
    and full: "occupied_bitmap (metadata b) = - 1" and i: "i < 32"
  shows "fst (evict_lru_head (update_lru_tail b (at_main i))) =
      ep_get b (at_main (if set xs \<subseteq> {i} then i else last (remove1 i xs))) \<and>
    (\<not> set xs \<subseteq> {i} \<longrightarrow> last (remove1 i xs) \<noteq> i) \<and>
    (\<forall>c ys p e ep c'. lru_rel (lru_list c) (removed_bitmap_or_lru_tail (metadata c)) ys \<longrightarrow>
       insert_with (c :: ('k, 'v) bucket) p e = Inr (ep, c') \<longrightarrow>
       lru_rel (lru_list c') (removed_bitmap_or_lru_tail (metadata c')) ys)"
proof -
  let ?b = "update_lru_tail b (at_main i)"
  have rel: "lru_rel (lru_list ?b) (removed_bitmap_or_lru_tail (metadata ?b)) (i # remove1 i xs)"
    by (rule update_lru_rel [OF xs i])
  have dis: "distinct xs" using xs by (simp add: lru_rel_def)
  then have set: "set (remove1 i xs) = set xs - {i}" by simp
  have bok: "bucket_ok CACHE ph ?b" by (rule update_lru_tail_ok(1) [OF ok]) (simp add: i)
  have same: "occupied_bitmap (metadata ?b) = - 1" "data_block (metadata ?b) = data_block (metadata b)"
    using full by (auto simp: update_lru_tail_def store_tail_def split: prod.split option.split)
  obtain e where "fst (evict_lru_head ?b) = Some e" "data_block (metadata ?b) ! victim_slot (i # remove1 i xs) = Some e"
    by (rule evict_lru_head_ok [OF bok rel same(1)])
  moreover have "victim_slot (i # remove1 i xs) = (if set xs \<subseteq> {i} then i else last (remove1 i xs))"
    using set by (cases "remove1 i xs") (auto simp: victim_slot_def)
  ultimately have "fst (evict_lru_head ?b) = ep_get b (at_main (if set xs \<subseteq> {i} then i else last (remove1 i xs)))"
    using same(2) by (simp add: ep_get_def ep_block_def)
  moreover have "last (remove1 i xs) \<noteq> i" if "\<not> set xs \<subseteq> {i}"
    using that set last_in_set [of "remove1 i xs"] by force
  moreover have "lru_rel (lru_list c') (removed_bitmap_or_lru_tail (metadata c')) ys"
    if "lru_rel (lru_list c) (removed_bitmap_or_lru_tail (metadata c)) ys" "insert_with c p e = Inr (ep, c')"
    for c c' :: "('k, 'v) bucket" and ys p e ep
    using insert_with_lru [OF that(2)] that(1) by simp
  ultimately show ?thesis by blast
qed

lemma no_trailing_ones: "trailing_zeros (- 1 :: u32) = 0"
  using trailing_zeros_le_bit [of "- 1 :: u32" 0] by simp

lemma new_slot_zero:
  "\<exists>b'. insert_with (bucket_new :: (nat, nat) bucket) 0 (7, 70) = Inr (at_main 0, b') \<and> ep_get b' (at_main 0) = Some (7, 70)"
  by (simp add: insert_with_def bucket_new_def block_new_def insert_entry_with_def Let_def trailing_ones_def no_trailing_ones ep_get_def ep_block_def)

text \<open>A full bucket, and a bucket whose entry came by relocation into its first slot.\<close>

theorem cache_eviction_after_use_witness:
  "fst (evict_lru_head (update_lru_tail full_bucket (at_main 5))) = Some (5, 50) \<and>
   (\<exists>b'. insert_with (bucket_new :: (nat, nat) bucket) 0 (7, 70) = Inr (at_main 0, b') \<and> ep_get b' (at_main 0) = Some (7, 70) \<and>
      lru_rel (lru_list b') (removed_bitmap_or_lru_tail (metadata b')) [])"
proof -
  have "lru_rel (lru_list full_bucket) (removed_bitmap_or_lru_tail (metadata full_bucket)) []"
    using lru_default_rel by (simp add: full_bucket_def)
  note c = cache_eviction_after_use [OF full_bucket_ok this, of 5]
  have n: "lru_rel (lru_list (bucket_new :: (nat, nat) bucket)) (removed_bitmap_or_lru_tail (metadata (bucket_new :: (nat, nat) bucket))) []"
    using lru_default_rel by (simp add: bucket_new_def block_new_def)
  obtain b' where "insert_with (bucket_new :: (nat, nat) bucket) 0 (7, 70) = Inr (at_main 0, b')" "ep_get b' (at_main 0) = Some (7, 70)"
    using new_slot_zero by blast
  then show ?thesis using c n by (auto simp: full_bucket_def ep_get_def ep_block_def)
qed

section \<open>The cache\<close>

text \<open>C20. \<^verbatim>\<open>put\<close> into a cache: a key that is present is refused with the pair and the map stays; otherwise
  the new entry is stored, and at most one other entry leaves the cache, which is returned. \<^verbatim>\<open>get\<close> finds
  exactly the entries of the map and changes none; \<^verbatim>\<open>remove_if\<close> asks the condition for the value and removes
  and returns the entry if it holds. No operation panics.\<close>

theorem hash_cache_operations:
  assumes ok: "table_ok CACHE hash t" and room: "roomy (table_map CACHE hash t)"
  defines "m \<equiv> table_map CACHE hash t"
  shows "(\<exists>r t'. hc_put hash k v t = Inr (r, t') \<and> table_ok CACHE hash t' \<and>
      (case m k of
         Some _ \<Rightarrow> r = Inl (k, v) \<and> table_map CACHE hash t' = m
       | None \<Rightarrow> \<exists>evicted. r = Inr evicted \<and> (\<forall>x w. evicted = Some (x, w) \<longrightarrow> m x = Some w) \<and>
           table_map CACHE hash t' = (without evicted m)(k \<mapsto> v))) \<and>
    (\<exists>e t'. hc_get hash k t = Inr (e, t') \<and> table_ok CACHE hash t' \<and> table_map CACHE hash t' = m \<and>
      (case e of None \<Rightarrow> m k = None | Some e \<Rightarrow> \<exists>v. m k = Some v \<and> occupied_read e t' = Inr (k, v))) \<and>
    (\<exists>t'. hc_remove_if hash k cond t =
        Inr (Option.bind (m k) (\<lambda>v. if fst (cond v) then Some (k, snd (cond v)) else None), t') \<and>
      table_ok CACHE hash t' \<and>
      table_map CACHE hash t' = m(k := Option.bind (m k) (\<lambda>v. if fst (cond v) then None else Some (snd (cond v)))))"
proof (intro conjI)
  show "\<exists>r t'. hc_put hash k v t = Inr (r, t') \<and> table_ok CACHE hash t' \<and>
      (case m k of
         Some _ \<Rightarrow> r = Inl (k, v) \<and> table_map CACHE hash t' = m
       | None \<Rightarrow> \<exists>evicted. r = Inr evicted \<and> (\<forall>x w. evicted = Some (x, w) \<longrightarrow> m x = Some w) \<and>
           table_map CACHE hash t' = (without evicted m)(k \<mapsto> v))"
    using ok room
  proof (cases rule: reserve_entry_deciding [where k = k])
    case (occupied e u w)
    then show ?thesis by (auto simp: hc_put_def m_def)
  next
    case (vacant e u a)
    have room': "roomy (table_map CACHE hash u)" and new: "table_map CACHE hash u k = None" using room vacant(3,5) by simp_all
    obtain evicted e' u' where "vacant_put_entry (hash k) k v e u = Inr ((evicted, e'), u')" "table_ok CACHE hash u'"
      "table_map CACHE hash u' = (without evicted (table_map CACHE hash u))(k \<mapsto> v)" "locked_at CACHE e' k v u'"
      "\<forall>x w. evicted = Some (x, w) \<longrightarrow> table_map CACHE hash u x = Some w"
      by (rule vacant_put_entry_ok [OF vacant(2) room' vacant(6) new])
    then show ?thesis using vacant by (auto simp: hc_put_def m_def)
  qed
  have got: "\<exists>e t'. hc_get hash k t = Inr (e, t') \<and> table_ok CACHE hash t' \<and> table_map CACHE hash t' = m \<and>
      (case e of None \<Rightarrow> m k = None | Some e \<Rightarrow> \<exists>v. m k = Some v \<and> locked_at CACHE e k v t')"
    using ok room
  proof (cases rule: get_entry_locked [where k = k])
    case (absent u)
    then show ?thesis by (auto simp: hc_get_def m_def)
  next
    case (present e u w)
    obtain u' where "touch e u = Inr u'" "table_ok CACHE hash u'" "table_map CACHE hash u' = table_map CACHE hash u" "locked_at CACHE e k w u'"
      by (rule touch_ok [OF present(2,5)])
    then show ?thesis using present by (auto simp: hc_get_def m_def)
  qed
  then obtain e t' where g: "hc_get hash k t = Inr (e, t')" "table_ok CACHE hash t'" "table_map CACHE hash t' = m"
    "case e of None \<Rightarrow> m k = None | Some e \<Rightarrow> \<exists>v. m k = Some v \<and> locked_at CACHE e k v t'" by blast
  show "\<exists>e t'. hc_get hash k t = Inr (e, t') \<and> table_ok CACHE hash t' \<and> table_map CACHE hash t' = m \<and>
      (case e of None \<Rightarrow> m k = None | Some e \<Rightarrow> \<exists>v. m k = Some v \<and> occupied_read e t' = Inr (k, v))"
    using g occupied_read_ok(1) [OF g(2)] by (cases e) (auto 0 3)
  show "\<exists>t'. hc_remove_if hash k cond t =
        Inr (Option.bind (m k) (\<lambda>v. if fst (cond v) then Some (k, snd (cond v)) else None), t') \<and>
      table_ok CACHE hash t' \<and>
      table_map CACHE hash t' = m(k := Option.bind (m k) (\<lambda>v. if fst (cond v) then None else Some (snd (cond v))))"
  proof (cases e)
    case None
    then show ?thesis using g by (auto simp: hc_remove_if_def fun_upd_idem_iff)
  next
    case (Some x)
    then obtain w where w: "m k = Some w" "locked_at CACHE x k w t'" using g(4) by auto
    obtain u where u: "occupied_get_mut cond x t' = Inr (fst (cond w), u)" "table_ok CACHE hash u"
      "table_map CACHE hash u = (table_map CACHE hash t')(k \<mapsto> snd (cond w))" "locked_at CACHE x k (snd (cond w)) u"
      by (rule occupied_get_mut_ok [OF g(2) w(2)])
    obtain z where "occupied_remove_entry CACHE x u = Inr (if CACHE = OPTIMISTIC then None else Some (k, snd (cond w)), z)"
      "table_ok CACHE hash z" "table_map CACHE hash z = (table_map CACHE hash u)(k := None)"
      by (rule occupied_remove_entry_ok [OF u(2,4)])
    then show ?thesis using g Some w(1) u by (cases "fst (cond w)") (auto simp: hc_remove_if_def)
  qed
qed

lemma next_power_range:
  assumes "64 \<le> w" "w \<le> 2 ^ 63"
  obtains n where "next_power_of_two w = 2 ^ n" "w \<le> 2 ^ n" "6 \<le> n" "n \<le> 63"
proof -
  obtain n where n: "next_power_of_two w = 2 ^ n" "w \<le> 2 ^ n" by (rule next_power_of_two_spec)
  have "(2 :: nat) ^ 6 \<le> 2 ^ n" using order_trans [OF assms(1) n(2)] by simp
  then have "6 \<le> n" by (rule power_le_imp_le_exp [rotated]) simp
  moreover have "(2 :: nat) ^ n \<le> 2 ^ 63" using next_power_of_two_le [OF assms(2)] unfolding n(1) .
  then have "n \<le> 63" by (rule power_le_imp_le_exp [rotated]) simp
  ultimately show thesis using that n by blast
qed

text \<open>A cache built with any capacities of at most \<open>2 ^ 63\<close> is well-formed and empty: its maximum capacity is
  a power of two of at least 64 slots, not below the requested maximum nor the slots allocated for the
  requested minimum.\<close>

theorem hash_cache_with_capacity:
  fixes hash :: "'k \<Rightarrow> u64"
  assumes le: "min_capacity \<le> 2 ^ 63" "max_capacity \<le> 2 ^ 63"
  defines "t \<equiv> hc_with_capacity min_capacity max_capacity :: ('k, 'v) table"
  shows "table_ok CACHE hash t \<and> table_map CACHE hash t = Map.empty \<and>
    (\<exists>n. 6 \<le> n \<and> n \<le> 63 \<and> maximum_capacity t = 2 ^ n) \<and>
    max_capacity \<le> maximum_capacity t \<and> min_capacity \<le> minimum_capacity t \<and> minimum_capacity t \<le> maximum_capacity t \<and>
    num_slots t = minimum_capacity t"
proof -
  let ?a = "ba_new min_capacity :: ('k, 'v) bucket_array"
  let ?min = "if min_capacity = 0 then 0 else ba_num_entries ?a"
  let ?w = "min (max (max max_capacity ?min) ba_minimum_capacity) (2 ^ 63)"
  have e: "ba_num_entries ?a \<le> 2 ^ 63" "min_capacity \<le> ba_num_entries ?a"
    using ba_new_entries [OF le(1), where ?'k = 'k and ?'v = 'v] by simp_all
  then have w: "?w = max (max max_capacity ?min) 64" "64 \<le> ?w" "?w \<le> 2 ^ 63" using le(2) by (auto simp: ba_minimum_capacity_def)
  obtain n where n: "next_power_of_two ?w = 2 ^ n" "?w \<le> 2 ^ n" and n63: "6 \<le> n" "n \<le> 63"
    by (rule next_power_range [OF w(2,3)])
  have t: "t = \<lparr>current_array = (if min_capacity = 0 then None else Some ?a), old_array = None, array_tag = TagNone,
      minimum_capacity = ?min, maximum_capacity = 2 ^ n\<rparr>"
    using n(1) by (cases "min_capacity = 0") (simp_all add: t_def hc_with_capacity_def Let_def)
  have bound: "max_capacity \<le> 2 ^ n" "?min \<le> 2 ^ n" using n(2) w(1) by simp_all
  have "\<exists>m. 6 \<le> m \<and> m \<le> 63 \<and> (2 :: nat) ^ n = 2 ^ m" using n63 by blast
  then have cap: "capacity_ok t" using bound unfolding t capacity_ok_def by (simp del: power_inject_exp split: if_splits)
  have "num_cleared_buckets ?a = 0" "\<forall>i<num_buckets ?a. \<not> killed (bucket_at ?a i)"
    using new_killed by (simp add: ba_new_def Let_def, blast)
  then have "table_ok CACHE hash t"
    using cap ba_new_ok(1) [of CACHE hash min_capacity, where ?'v = 'v] by (simp add: t table_ok_def arrays_ok_def)
  moreover have "table_map CACHE hash t = Map.empty"
    using ba_new_ok(2) [of CACHE hash min_capacity, where ?'v = 'v] by (simp add: t table_map_def)
  moreover have "num_slots t = minimum_capacity t" by (simp add: t num_slots_def)
  ultimately show ?thesis using bound e(2) n63 by (auto simp: t simp del: power_inject_exp)
qed

theorem hash_cache_with_capacity_witness:
  "table_ok CACHE example_hash (hc_with_capacity 100 1000 :: (u64, nat) table) \<and>
   1000 \<le> maximum_capacity (hc_with_capacity 100 1000 :: (u64, nat) table)"
  using hash_cache_with_capacity [of 100 1000 example_hash, where ?'v = nat] by simp

theorem hash_cache_operations_witness:
  "\<exists>r t'. hc_put example_hash 3 4 (table_new 0 (2 ^ 8) :: (u64, nat) table) = Inr (Inr None, t') \<and>
     table_map CACHE example_hash t' = [3 \<mapsto> 4]"
proof -
  have new: "table_ok CACHE example_hash (table_new 0 (2 ^ 8) :: (u64, nat) table)"
    "table_map CACHE example_hash (table_new 0 (2 ^ 8) :: (u64, nat) table) = Map.empty"
    by (rule table_new_map; simp)+
  have room: "roomy (table_map CACHE example_hash (table_new 0 (2 ^ 8) :: (u64, nat) table))" unfolding new(2) by simp
  obtain r t' where "hc_put example_hash 3 4 (table_new 0 (2 ^ 8) :: (u64, nat) table) = Inr (r, t')"
    "\<exists>evicted. r = Inr evicted \<and> (\<forall>x w. evicted = Some (x, w) \<longrightarrow> (Map.empty :: u64 \<rightharpoonup> nat) x = Some w) \<and>
       table_map CACHE example_hash t' = (without evicted Map.empty)(3 \<mapsto> 4)"
    using conjunct1 [OF hash_cache_operations [OF new(1) room, of 3 4 "Pair True"]] unfolding new(2) by auto
  then show ?thesis by (cases "projr r") (auto simp: without_def)
qed

end
