(* ===== verification/Hash_Index.thy ===== *)
theory Hash_Index
  imports Hash_Interface Hash_Table_Reserve
begin

text \<open>
  \<^verbatim>\<open>HashIndex\<close> of \<^verbatim>\<open>src/hash_index.rs\<close>: its methods on the optimistic hash table, whose entries are never
  overwritten in place, and the iterator that reads the buckets without locking them.
\<close>

section \<open>Updating an entry\<close>

text \<open>A pointer to a slot of a linked bucket is an address; after \<^verbatim>\<open>insert_with\<close> has put a new linked bucket at
  the head of the chain, the position of the bucket in the chain has moved by one.\<close>

definition ep_shift :: "('k, 'v) bucket \<Rightarrow> ('k, 'v) bucket \<Rightarrow> entry_ptr \<Rightarrow> entry_ptr" where
  "ep_shift before after ep =
     ep\<lparr>current_link_ptr := map_option (\<lambda>i. i + (length (links after) - length (links before))) (current_link_ptr ep)\<rparr>"

text \<open>\<^verbatim>\<open>OccupiedEntry::update\<close>: the new value is inserted beside the old one, which is erased afterwards.\<close>

definition occupied_update :: "'v \<Rightarrow> locked_entry \<Rightarrow> ('k, 'v) table \<Rightarrow> (unit \<times> ('k, 'v) table) ht_result" where
  "occupied_update val e t =
     with_bucket e
       (\<lambda>b. let ep = entry_pointer e
            in case ep_get b ep of
                 None \<Rightarrow> Inl Uninitialized_Read
               | Some (key, _) \<Rightarrow>
                   (case insert_with b (ep_partial_hash b ep) (key, val) of
                      Inl p \<Rightarrow> Inl (Bucket_Panic p)
                    | Inr (_, b') \<Rightarrow> Inr ((), snd (erase OPTIMISTIC b' (ep_shift b b' ep))))) t"

lemma erase_optimistic:
  "snd (erase OPTIMISTIC b ep) = ep_update (mark_removed (current_index ep)) ep (b\<lparr>num_entries := num_entries b - 1\<rparr>)"
  by (simp add: erase_def Let_def split: option.split)

lemma free_link_cong:
  "map occupied_bitmap ls = map occupied_bitmap ls' \<Longrightarrow> free_link n ls = free_link n ls'"
proof (induction n ls arbitrary: ls' rule: free_link.induct)
  case (2 n l ls)
  then show ?case by (cases ls') (auto simp: Let_def)
qed simp

text \<open>Marking a slot removed and inserting elsewhere in the bucket commute, because insertion looks at the
  occupied slots only and marking leaves these alone.\<close>

lemma insert_mark_commute:
  "insert_entry_with j p e (mark_removed i m) = mark_removed i (insert_entry_with j p e m)"
  by (simp add: insert_entry_with_def mark_removed_def)

lemma insert_erase_commute:
  assumes n: "num_entries b \<noteq> 0" and ins: "insert_with b p e = Inr (q, c)" and ep: "ep_in b ep"
  shows "insert_with (snd (erase OPTIMISTIC b ep)) p e = Inr (q, snd (erase OPTIMISTIC c (ep_shift b c ep)))"
proof -
  let ?b = "snd (erase OPTIMISTIC b ep)" and ?f = "mark_removed (current_index ep)"
  have occ: "occupied_bitmap (?f m) = occupied_bitmap m" for m :: "('a, 'b) block" by (simp add: mark_removed_def)
  have links: "map occupied_bitmap (links ?b) = map occupied_bitmap (links b)"
    by (auto simp: erase_optimistic ep_update_def occ map_update split: option.split intro!: nth_equalityI)
       (metis list_update_id map_update occ nth_map)
  have fl: "free_link 0 (links ?b) = free_link 0 (links b)" by (rule free_link_cong [OF links])
  have n1: "num_entries b - 1 \<noteq> - 1" using n by (metis add_cancel_right_left diff_add_cancel uminus_add_conv_diff)
  show ?thesis
  proof (cases "current_link_ptr ep")
    case None
    have b: "?b = b\<lparr>num_entries := num_entries b - 1, metadata := ?f (metadata b)\<rparr>" using None by (simp add: erase_optimistic ep_update_def)
    show ?thesis
      using ins None n1 unfolding b
      by (auto simp: insert_with_def erase_optimistic ep_update_def Let_def occ insert_mark_commute ep_shift_def split: if_splits option.splits)
  next
    case (Some l)
    have l: "l < length (links b)" using ep Some by (simp add: ep_in_def)
    have b: "?b = b\<lparr>num_entries := num_entries b - 1, links := (links b)[l := ?f (links b ! l)]\<rparr>" using Some by (simp add: erase_optimistic ep_update_def)
    have fl': "free_link 0 ((links b)[l := ?f (links b ! l)]) = free_link 0 (links b)" using fl unfolding b by simp
    show ?thesis
      using ins Some n1 l unfolding b
      by (auto simp: insert_with_def erase_optimistic ep_update_def Let_def occ insert_mark_commute ep_shift_def fl' nth_list_update
          list_update_swap split: if_splits option.splits)
  qed
qed

lemma insert_with_total: "num_entries b \<noteq> - 1 \<Longrightarrow> \<exists>q c. insert_with b p e = Inr (q, c)"
  by (auto simp: insert_with_def Let_def split: option.split)

lemma occupied_update_ok:
  assumes ok: "table_ok OPTIMISTIC hash t" and room: "roomy (table_map OPTIMISTIC hash t)" and at: "locked_at OPTIMISTIC e k v t"
  obtains t' where "occupied_update val e t = Inr ((), t')" "table_ok OPTIMISTIC hash t'"
    "table_map OPTIMISTIC hash t' = (table_map OPTIMISTIC hash t)(k \<mapsto> val)"
proof -
  obtain a where a: "deciding OPTIMISTIC hash e k a t" "points_to OPTIMISTIC (bucket_at a (entry_index e)) (entry_pointer e) (k, v)"
    by (rule locked_at_deciding [OF ok at])
  let ?b = "bucket_at a (entry_index e)" and ?p = "entry_pointer e"
  note d = deciding_bucket [OF a(1)] and p = points_toD [OF deciding_bucket(1) [OF a(1)] a(2)]
  have full: "num_entries ?b \<noteq> - 1" by (rule roomy_bucket [OF room d(1) deciding_sub [OF a(1)]])
  have ph: "ep_partial_hash ?b ?p = ph_of hash k"
    using block_okD(5) [OF p(4,2,3)] by (simp add: ep_partial_hash_def)
  obtain q c where c: "insert_with ?b (ph_of hash k) (k, val) = Inr (q, c)" using insert_with_total [OF full] by blast
  let ?r = "snd (erase OPTIMISTIC c (ep_shift ?b c ?p))"
  note er = erase_ok [OF d(1) a(2), simplified]
  have com: "insert_with (snd (erase OPTIMISTIC ?b ?p)) (ph_of hash k) (k, val) = Inr (q, ?r)"
    by (rule insert_erase_commute [OF points_to_entry(3) [OF d(1) a(2)] c p(1)])
  have new: "bucket_map OPTIMISTIC (snd (erase OPTIMISTIC ?b ?p)) (fst (k, val)) = None" using er(2) by simp
  have "dom (bucket_map OPTIMISTIC (snd (erase OPTIMISTIC ?b ?p))) \<subseteq> dom (table_map OPTIMISTIC hash t)"
    using deciding_sub [OF a(1)] er(2) by (auto split: if_splits)
  from roomy_bucket [OF room er(1) this]
  obtain q' r where r: "insert_with (snd (erase OPTIMISTIC ?b ?p)) (ph_of hash (fst (k, val))) (k, val) = Inr (q', r)"
    "bucket_ok OPTIMISTIC (ph_of hash) r"
    "bucket_map OPTIMISTIC r = (bucket_map OPTIMISTIC (snd (erase OPTIMISTIC ?b ?p)))(fst (k, val) \<mapsto> snd (k, val))"
    by (rule insert_with_ok [OF er(1) new])
  have "?r = r" using com r(1) by simp
  then have rok: "bucket_ok OPTIMISTIC (ph_of hash) ?r" "bucket_map OPTIMISTIC ?r = (bucket_map OPTIMISTIC ?b)(k \<mapsto> val)"
    using r(2,3) er(2) by simp_all
  have st: "state ?r = state ?b" using insert_with_state [OF c] state_erase [of OPTIMISTIC c] by simp
  note u = deciding_put [OF ok a(1) rok st]
  have "occupied_update val e t = Inr ((), put_bucket (entry_place e) (entry_index e) ?r t)"
    using d(4) p(5) ph c by (simp add: occupied_update_def with_bucket_def Let_def)
  then show thesis using that u(1,2) by blast
qed

section \<open>Methods\<close>

definition hi_with_capacity :: "nat \<Rightarrow> ('k, 'v) table" where
  "hi_with_capacity capacity = table_new capacity (2 ^ (64 - 1))"

definition hi_reserve :: "nat \<Rightarrow> ('k, 'v) table \<Rightarrow> nat option \<times> ('k, 'v) table" where
  "hi_reserve additional_capacity t =
     (let (additional, t) = reserve_capacity OPTIMISTIC additional_capacity t
      in (if additional = 0 then None else Some additional, t))"

definition hi_reserve_drop :: "nat \<Rightarrow> ('k, 'v) table \<Rightarrow> ('k, 'v) table" where
  "hi_reserve_drop additional t =
     try_resize OPTIMISTIC 0
       (t\<lparr>minimum_capacity := (minimum_capacity t + (2 ^ 64 - additional)) mod 2 ^ 64\<rparr>)"

definition hi_entry :: "('k \<Rightarrow> u64) \<Rightarrow> 'k \<Rightarrow> ('k, 'v) table \<Rightarrow> ('k entry \<times> ('k, 'v) table) ht_result" where
  "hi_entry hash key t = table_entry OPTIMISTIC hash key t"

definition hi_first_entry :: "('k \<Rightarrow> u64) \<Rightarrow> ('k, 'v) table \<Rightarrow> (locked_entry option \<times> ('k, 'v) table) ht_result" where
  "hi_first_entry hash t = lock_first_entry OPTIMISTIC hash t"

definition hi_insert :: "('k \<Rightarrow> u64) \<Rightarrow> 'k \<Rightarrow> 'v \<Rightarrow> ('k, 'v) table \<Rightarrow> (('k \<times> 'v + unit) \<times> ('k, 'v) table) ht_result" where
  "hi_insert hash key val t =
     and_then (insert_entry OPTIMISTIC hash key val t)
       (\<lambda>(r, t). Inr (case r of Some kv \<Rightarrow> Inl kv | None \<Rightarrow> Inr (), t))"

text \<open>\<^verbatim>\<open>remove_if\<close>: the condition cannot change the value; the post-processor is \<^verbatim>\<open>is_some\<close>.\<close>

definition hi_remove_if :: "('k \<Rightarrow> u64) \<Rightarrow> 'k \<Rightarrow> ('v \<Rightarrow> bool) \<Rightarrow> ('k, 'v) table \<Rightarrow> (bool \<times> ('k, 'v) table) ht_result" where
  "hi_remove_if hash key condition t =
     and_then (remove_entry OPTIMISTIC hash key (\<lambda>v. (condition v, v)) t) (\<lambda>(r, t). Inr (r \<noteq> None, t))"

definition hi_remove :: "('k \<Rightarrow> u64) \<Rightarrow> 'k \<Rightarrow> ('k, 'v) table \<Rightarrow> (bool \<times> ('k, 'v) table) ht_result" where
  "hi_remove hash key t = hi_remove_if hash key (\<lambda>_. True) t"

definition hi_get :: "('k \<Rightarrow> u64) \<Rightarrow> 'k \<Rightarrow> ('k, 'v) table \<Rightarrow> (locked_entry option \<times> ('k, 'v) table) ht_result" where
  "hi_get hash key t = get_entry OPTIMISTIC hash key t"

definition hi_peek :: "('k \<Rightarrow> u64) \<Rightarrow> 'k \<Rightarrow> ('k, 'v) table \<Rightarrow> ('v option \<times> ('k, 'v) table) ht_result" where
  "hi_peek hash key t = and_then (read_entry OPTIMISTIC hash key t) (\<lambda>(r, t). Inr (map_option snd r, t))"

definition hi_peek_with ::
  "('k \<Rightarrow> u64) \<Rightarrow> 'k \<Rightarrow> ('k \<Rightarrow> 'v \<Rightarrow> 'r) \<Rightarrow> ('k, 'v) table \<Rightarrow> ('r option \<times> ('k, 'v) table) ht_result" where
  "hi_peek_with hash key reader t =
     and_then (read_entry OPTIMISTIC hash key t) (\<lambda>(r, t). Inr (map_option (\<lambda>(k, v). reader k v) r, t))"

definition hi_contains :: "('k \<Rightarrow> u64) \<Rightarrow> 'k \<Rightarrow> ('k, 'v) table \<Rightarrow> (bool \<times> ('k, 'v) table) ht_result" where
  "hi_contains hash key t = and_then (hi_peek_with hash key (\<lambda>_ _. ()) t) (\<lambda>(r, t). Inr (r \<noteq> None, t))"

definition hi_retain :: "('k \<Rightarrow> u64) \<Rightarrow> ('k \<Rightarrow> 'v \<Rightarrow> bool) \<Rightarrow> ('k, 'v) table \<Rightarrow> ('k, 'v) table ht_result" where
  "hi_retain hash pred t = retain_entries OPTIMISTIC hash (\<lambda>k v. (pred k v, v)) t"

definition hi_clear :: "('k \<Rightarrow> u64) \<Rightarrow> ('k, 'v) table \<Rightarrow> ('k, 'v) table ht_result" where
  "hi_clear hash t = hi_retain hash (\<lambda>_ _. False) t"

definition hi_len :: "('k, 'v) table \<Rightarrow> nat \<times> ('k, 'v) table" where
  "hi_len t = ht_num_entries OPTIMISTIC t"

definition hi_is_empty :: "('k, 'v) table \<Rightarrow> bool \<times> ('k, 'v) table" where
  "hi_is_empty t = (let (r, t) = has_entry OPTIMISTIC t in (\<not> r, t))"

definition hi_occupied_remove :: "locked_entry \<Rightarrow> ('k, 'v) table \<Rightarrow> ('k, 'v) table ht_result" where
  "hi_occupied_remove e t = and_then (occupied_remove_entry OPTIMISTIC e t) (\<lambda>(_, t). Inr t)"

section \<open>The iterator\<close>

text \<open>\<^verbatim>\<open>Iter\<close>: the array that is being scanned is the current or the old array of the table; \<open>iter_bucket\<close>
  tells whether \<^verbatim>\<open>current_bucket\<close> is set, which then is the bucket at the current index. The reference to a
  bucket beyond the array is a fault: the code only has a debug assertion and reads out of bounds. The
  calls are those on a table that does not change meanwhile, so the array of the iterator is one of the
  two arrays of the table and the branch that starts from the very beginning is not taken.\<close>

datatype iter_fault = Bucket_Out_Of_Bounds nat | Array_Gone | Iter_Fuel | Slot_Empty

record hi_iter =
  iter_array :: "place option"
  iter_index :: nat
  iter_bucket :: bool
  iter_ptr :: entry_ptr

definition hi_iter_new :: hi_iter where
  "hi_iter_new = \<lparr>iter_array = None, iter_index = 0, iter_bucket = False, iter_ptr = ep_new\<rparr>"

text \<open>The loop of \<^verbatim>\<open>next\<close>, at most \<open>fuel\<close> rounds.\<close>

fun iter_loop ::
  "nat \<Rightarrow> ('k, 'v) table \<Rightarrow> hi_iter \<Rightarrow> iter_fault + (('k \<times> 'v) option \<times> hi_iter)" where
  "iter_loop fuel t it =
     (case fuel of 0 \<Rightarrow> Inl Iter_Fuel | Suc fuel \<Rightarrow>
      case Option.bind (iter_array it) (\<lambda>p. array_in p t) of
        None \<Rightarrow> Inl Array_Gone
      | Some a \<Rightarrow>
          let (found, ep) = (if iter_bucket it then ep_next OPTIMISTIC (bucket_at a (iter_index it)) (iter_ptr it)
                             else (False, iter_ptr it))
          in if found
             then case ep_get (bucket_at a (iter_index it)) ep of
                    None \<Rightarrow> Inl Slot_Empty
                  | Some kv \<Rightarrow> Inr (Some kv, it\<lparr>iter_ptr := ep\<rparr>)
             else
               let it = it\<lparr>iter_ptr := ep, iter_bucket := False, iter_index := Suc (iter_index it)\<rparr>
               in if iter_index it = num_buckets a
                  then if current_array t = None \<or> iter_array it = Some In_Current then Inr (None, it)
                       else iter_loop fuel t
                              (it\<lparr>iter_array := Some In_Current, iter_index := 0, iter_bucket := True, iter_ptr := ep_new\<rparr>)
                  else if iter_index it < num_buckets a
                  then iter_loop fuel t (it\<lparr>iter_bucket := True, iter_ptr := ep_new\<rparr>)
                  else Inl (Bucket_Out_Of_Bounds (iter_index it)))"

declare iter_loop.simps [simp del]

definition iter_rounds :: "('k, 'v) table \<Rightarrow> nat" where
  "iter_rounds t =
     (case old_array t of None \<Rightarrow> 0 | Some a \<Rightarrow> num_buckets a) + (case current_array t of None \<Rightarrow> 0 | Some a \<Rightarrow> num_buckets a)"

definition iter_next :: "('k, 'v) table \<Rightarrow> hi_iter \<Rightarrow> iter_fault + (('k \<times> 'v) option \<times> hi_iter)" where
  "iter_next t it =
     (case iter_array it of
        Some _ \<Rightarrow> iter_loop (Suc (iter_rounds t)) t it
      | None \<Rightarrow>
          (case current_array t of
             None \<Rightarrow> Inr (None, it)
           | Some _ \<Rightarrow>
               iter_loop (Suc (iter_rounds t)) t
                 (it\<lparr>iter_array := Some (if old_array t \<noteq> None then In_Old else In_Current), iter_bucket := True,
                     iter_ptr := ep_new\<rparr>)))"

text \<open>The \<^verbatim>\<open>for\<close> loop of a caller, which stops at the first \<^verbatim>\<open>None\<close>, at most \<open>fuel\<close> entries.\<close>

fun iter_collect :: "nat \<Rightarrow> ('k, 'v) table \<Rightarrow> hi_iter \<Rightarrow> iter_fault + (('k \<times> 'v) list \<times> hi_iter)" where
  "iter_collect fuel t it =
     (case iter_next t it of
        Inl f \<Rightarrow> Inl f
      | Inr (None, it) \<Rightarrow> Inr ([], it)
      | Inr (Some kv, it) \<Rightarrow>
          (case fuel of
             0 \<Rightarrow> Inl Iter_Fuel
           | Suc fuel \<Rightarrow> (case iter_collect fuel t it of Inl f \<Rightarrow> Inl f | Inr (kvs, it) \<Rightarrow> Inr (kv # kvs, it))))"

declare iter_collect.simps [simp del]

section \<open>What the iterator visits\<close>

definition iter_at :: "('k, 'v) table \<Rightarrow> ('k, 'v) bucket_array \<Rightarrow> hi_iter \<Rightarrow> bool" where
  "iter_at t a it \<longleftrightarrow>
     (\<exists>p. iter_array it = Some p \<and> array_in p t = Some a) \<and> iter_index it < num_buckets a \<and> iter_bucket it \<and>
     ep_in (bucket_at a (iter_index it)) (iter_ptr it)"

definition iter_after :: "('k, 'v) table \<Rightarrow> hi_iter \<Rightarrow> ('k \<times> 'v) list" where
  "iter_after t it =
     (if iter_array it = Some In_Current then []
      else case current_array t of None \<Rightarrow> [] | Some c \<Rightarrow> entries_from OPTIMISTIC c 0)"

definition iter_rest :: "('k, 'v) table \<Rightarrow> ('k, 'v) bucket_array \<Rightarrow> hi_iter \<Rightarrow> ('k \<times> 'v) list" where
  "iter_rest t a it =
     map (\<lambda>p. the (ep_get (bucket_at a (iter_index it)) p)) (ahead OPTIMISTIC (bucket_at a (iter_index it)) (iter_ptr it)) @
     entries_from OPTIMISTIC a (Suc (iter_index it)) @ iter_after t it"

definition iter_left :: "('k, 'v) table \<Rightarrow> ('k, 'v) bucket_array \<Rightarrow> hi_iter \<Rightarrow> nat" where
  "iter_left t a it =
     num_buckets a - iter_index it + (if iter_array it = Some In_Current then 0 else
       case current_array t of None \<Rightarrow> 0 | Some c \<Rightarrow> num_buckets c)"

definition iter_done :: "('k, 'v) table \<Rightarrow> hi_iter \<Rightarrow> bool" where
  "iter_done t it \<longleftrightarrow> iter_array it = Some In_Current \<and> \<not> iter_bucket it \<and>
     (\<forall>c. current_array t = Some c \<longrightarrow> iter_index it = num_buckets c)"

lemma array_in_ok:
  assumes "table_ok ty hash t" "array_in p t = Some a" shows "array_ok ty hash a" "current_array t \<noteq> None"
  using assms by (cases p; auto simp: array_in_def table_ok_def arrays_ok_def pair_ok_def split: option.splits)+

lemma new_bucket_entries:
  assumes "bucket_ok ty ph b"
  shows "map (\<lambda>p. the (ep_get b p)) (ahead ty b ep_new) = bucket_entries ty b" "ep_in b ep_new"
  using arg_cong [OF ahead_new_entries [OF assms], of "map the"] by (simp_all add: comp_def ep_in_def ep_new_def)

text \<open>A round that finds nothing in the bucket.\<close>

lemma iter_loop_next_bucket:
  assumes ok: "table_ok OPTIMISTIC hash t" and at: "iter_at t a it" and none: "ahead OPTIMISTIC (bucket_at a (iter_index it)) (iter_ptr it) = []"
  shows "(\<exists>it'. iter_loop (Suc fuel) t it = Inr (None, it') \<and> iter_done t it' \<and> iter_rest t a it = []) \<or>
    (\<exists>a' it'. iter_loop (Suc fuel) t it = iter_loop fuel t it' \<and> iter_at t a' it' \<and> iter_rest t a' it' = iter_rest t a it \<and>
       iter_left t a' it' < iter_left t a it)"
proof -
  obtain p where p: "iter_array it = Some p" "array_in p t = Some a" "iter_index it < num_buckets a" "iter_bucket it"
    "ep_in (bucket_at a (iter_index it)) (iter_ptr it)" using at by (auto simp: iter_at_def)
  note aok = array_in_ok(1) [OF ok p(2)]
  obtain c where c: "current_array t = Some c" using array_in_ok(2) [OF ok p(2)] by blast
  have cok: "array_ok OPTIMISTIC hash c" by (rule table_okD(1) [OF ok c])
  have pos: "0 < num_buckets c" using array_okD(4) [OF cok, of 0] by simp
  obtain ep where ep: "ep_next OPTIMISTIC (bucket_at a (iter_index it)) (iter_ptr it) = (False, ep)"
    using ep_next_ahead [OF p(5), of OPTIMISTIC] none by simp
  let ?i = "it\<lparr>iter_ptr := ep, iter_bucket := False, iter_index := Suc (iter_index it)\<rparr>"
  have rest: "iter_rest t a it = entries_from OPTIMISTIC a (Suc (iter_index it)) @ iter_after t it" using none by (simp add: iter_rest_def)
  show ?thesis
  proof (cases "Suc (iter_index it) = num_buckets a")
    case last: True
    then have nil: "entries_from OPTIMISTIC a (Suc (iter_index it)) = []" by (simp add: entries_from_def)
    show ?thesis
    proof (cases "p = In_Current")
      case True
      then have "c = a" using p(2) c by (simp add: array_in_def)
      then have "iter_loop (Suc fuel) t it = Inr (None, ?i)" "iter_done t ?i" "iter_rest t a it = []"
        using p ep last True c rest nil by (simp_all add: iter_loop.simps [of "Suc fuel"] iter_done_def iter_after_def)
      then show ?thesis by blast
    next
      case False
      let ?n = "it\<lparr>iter_array := Some In_Current, iter_index := 0, iter_bucket := True, iter_ptr := ep_new\<rparr>"
      have "iter_loop (Suc fuel) t it = iter_loop fuel t ?n"
        using p ep last False c by (simp add: iter_loop.simps [of "Suc fuel"])
      moreover have b: "bucket_ok OPTIMISTIC (ph_of hash) (bucket_at c 0)" by (rule array_okD(2) [OF cok pos])
      then have "iter_at t c ?n" using pos c by (simp add: iter_at_def array_in_def new_bucket_entries(2))
      moreover have "iter_rest t c ?n = iter_rest t a it"
        using False p(1) c rest nil entries_from_step [OF pos, of OPTIMISTIC] new_bucket_entries(1) [OF b]
        by (simp add: iter_rest_def iter_after_def)
      moreover have "iter_left t c ?n < iter_left t a it" using False p c by (simp add: iter_left_def)
      ultimately show ?thesis by blast
    qed
  next
    case False
    then have lt: "Suc (iter_index it) < num_buckets a" using p(3) by simp
    let ?n = "it\<lparr>iter_index := Suc (iter_index it), iter_bucket := True, iter_ptr := ep_new\<rparr>"
    have "iter_loop (Suc fuel) t it = iter_loop fuel t ?n"
      using p ep False lt by (simp add: iter_loop.simps [of "Suc fuel"])
    moreover have b: "bucket_ok OPTIMISTIC (ph_of hash) (bucket_at a (Suc (iter_index it)))" by (rule array_okD(2) [OF aok lt])
    then have "iter_at t a ?n" using p lt by (simp add: iter_at_def new_bucket_entries(2))
    moreover have "iter_rest t a ?n = iter_rest t a it"
      using rest entries_from_step [OF lt, of OPTIMISTIC] new_bucket_entries(1) [OF b] by (simp add: iter_rest_def iter_after_def)
    moreover have "iter_left t a ?n < iter_left t a it" using p by (auto simp: iter_left_def)
    ultimately show ?thesis by blast
  qed
qed

lemma iter_loop_ok:
  assumes ok: "table_ok OPTIMISTIC hash t"
  shows "iter_at t a it \<Longrightarrow> iter_left t a it \<le> fuel \<Longrightarrow>
    (case iter_rest t a it of
       [] \<Rightarrow> \<exists>it'. iter_loop fuel t it = Inr (None, it') \<and> iter_done t it'
     | kv # es \<Rightarrow> \<exists>a' it'. iter_loop fuel t it = Inr (Some kv, it') \<and> iter_at t a' it' \<and> iter_rest t a' it' = es)"
proof (induction fuel arbitrary: a it)
  case 0
  then show ?case by (simp add: iter_at_def iter_left_def)
next
  case (Suc fuel)
  obtain p where p: "iter_array it = Some p" "array_in p t = Some a" "iter_index it < num_buckets a" "iter_bucket it"
    "ep_in (bucket_at a (iter_index it)) (iter_ptr it)" using Suc.prems(1) by (auto simp: iter_at_def)
  let ?b = "bucket_at a (iter_index it)"
  have b: "bucket_ok OPTIMISTIC (ph_of hash) ?b" by (rule array_okD(2) [OF array_in_ok(1) [OF ok p(2)] p(3)])
  show ?case
  proof (cases "ahead OPTIMISTIC ?b (iter_ptr it)")
    case Nil
    from iter_loop_next_bucket [OF ok Suc.prems(1) this, of fuel] consider
      (finished) it' where "iter_loop (Suc fuel) t it = Inr (None, it')" "iter_done t it'" "iter_rest t a it = []"
    | (next_bucket) a' it' where "iter_loop (Suc fuel) t it = iter_loop fuel t it'" "iter_at t a' it'"
        "iter_rest t a' it' = iter_rest t a it" "iter_left t a' it' < iter_left t a it" by blast
    then show ?thesis
    proof cases
      case finished
      then show ?thesis by simp
    next
      case next_bucket
      have "iter_left t a' it' \<le> fuel" using next_bucket(4) Suc.prems(2) by simp
      from Suc.IH [OF next_bucket(2) this] show ?thesis unfolding next_bucket(1,3) .
    qed
  next
    case (Cons q qs)
    have n: "ep_next OPTIMISTIC ?b (iter_ptr it) = (True, q)" using ep_next_ahead [OF p(5), of OPTIMISTIC] Cons by simp
    have qs: "qs = ahead OPTIMISTIC ?b q" using ep_next_found [OF n] Cons by simp
    obtain e where e: "ep_get ?b q = Some e" "points_to OPTIMISTIC ?b q e"
      using ahead_points_to [OF b p(5), of q] Cons points_toD(5) [OF b] by force
    let ?n = "it\<lparr>iter_ptr := q\<rparr>"
    have "iter_loop (Suc fuel) t it = Inr (Some e, ?n)" using p n e(1) by (simp add: iter_loop.simps [of "Suc fuel"])
    moreover have "iter_at t a ?n" using p points_toD(1) [OF b e(2)] by (simp add: iter_at_def)
    moreover have "iter_rest t a it = e # iter_rest t a ?n" using Cons qs e(1) by (simp add: iter_rest_def iter_after_def)
    ultimately show ?thesis by auto
  qed
qed

lemma iter_left_le: "array_in p t = Some a \<Longrightarrow> iter_array it = Some p \<Longrightarrow> iter_left t a it \<le> iter_rounds t"
  by (cases p) (auto simp: iter_left_def iter_rounds_def array_in_def split: option.split)

lemma iter_collect_ok:
  assumes ok: "table_ok OPTIMISTIC hash t"
  shows "iter_at t a it \<Longrightarrow> length (iter_rest t a it) \<le> fuel \<Longrightarrow>
    \<exists>it'. iter_collect fuel t it = Inr (iter_rest t a it, it') \<and> iter_done t it'"
proof (induction fuel arbitrary: a it)
  case 0
  obtain p where p: "iter_array it = Some p" "array_in p t = Some a" using 0(1) by (auto simp: iter_at_def)
  have "iter_left t a it \<le> Suc (iter_rounds t)" using iter_left_le [OF p(2,1)] by simp
  from iter_loop_ok [OF ok 0(1) this] show ?case using 0(2) p(1)
    by (auto simp: iter_collect.simps [of 0] iter_next_def)
next
  case (Suc fuel)
  obtain p where p: "iter_array it = Some p" "array_in p t = Some a" using Suc.prems(1) by (auto simp: iter_at_def)
  have "iter_left t a it \<le> Suc (iter_rounds t)" using iter_left_le [OF p(2,1)] by simp
  note loop = iter_loop_ok [OF ok Suc.prems(1) this]
  show ?case
  proof (cases "iter_rest t a it")
    case Nil
    then show ?thesis using loop p(1) by (auto simp: iter_collect.simps [of "Suc fuel"] iter_next_def)
  next
    case (Cons kv es)
    then obtain a' it' where n: "iter_loop (Suc (iter_rounds t)) t it = Inr (Some kv, it')" "iter_at t a' it'" "iter_rest t a' it' = es"
      using loop by auto
    have "length (iter_rest t a' it') \<le> fuel" using n(3) Cons Suc.prems(2) by simp
    from Suc.IH [OF n(2) this] show ?thesis
      using n(1,3) p(1) Cons by (auto simp: iter_collect.simps [of "Suc fuel"] iter_next_def)
  qed
qed

text \<open>The first call.\<close>

lemma iter_collect_new:
  assumes ok: "table_ok OPTIMISTIC hash t" and c: "current_array t = Some c"
  obtains es it where "\<forall>fuel. length es \<le> fuel \<longrightarrow> iter_collect fuel t hi_iter_new = Inr (es, it fuel) \<and> iter_done t (it fuel)"
    "distinct (map fst es)" "map_of es = table_map OPTIMISTIC hash t"
proof -
  let ?p = "if old_array t \<noteq> None then In_Old else In_Current"
  let ?it = "hi_iter_new\<lparr>iter_array := Some ?p, iter_bucket := True, iter_ptr := ep_new\<rparr>"
  obtain a where a: "array_in ?p t = Some a" using c by (cases "old_array t") (auto simp: array_in_def)
  have aok: "array_ok OPTIMISTIC hash a" by (rule array_in_ok(1) [OF ok a])
  have cok: "array_ok OPTIMISTIC hash c" by (rule table_okD(1) [OF ok c])
  have pos: "0 < num_buckets a" using array_okD(4) [OF aok, of 0] by simp
  note b = new_bucket_entries [OF array_okD(2) [OF aok pos]]
  have at: "iter_at t a ?it" using a pos b(2) by (simp add: iter_at_def hi_iter_new_def)
  let ?es = "entries_from OPTIMISTIC a 0 @ (if old_array t = None then [] else entries_from OPTIMISTIC c 0)"
  have rest: "iter_rest t a ?it = ?es"
    using entries_from_step [OF pos, of OPTIMISTIC] b(1) c by (simp add: iter_rest_def iter_after_def hi_iter_new_def)
  have same: "iter_next t hi_iter_new = iter_next t ?it" using c by (simp add: iter_next_def hi_iter_new_def)
  have eq: "iter_collect fuel t hi_iter_new = iter_collect fuel t ?it" for fuel
    by (subst (1 2) iter_collect.simps) (simp only: same)
  have "\<forall>fuel. \<exists>it'. length ?es \<le> fuel \<longrightarrow> iter_collect fuel t hi_iter_new = Inr (?es, it') \<and> iter_done t it'"
    using iter_collect_ok [OF ok at] unfolding rest eq by blast
  then obtain it where it: "\<forall>fuel. length ?es \<le> fuel \<longrightarrow> iter_collect fuel t hi_iter_new = Inr (?es, it fuel) \<and> iter_done t (it fuel)"
    by metis
  have "distinct (map fst ?es) \<and> map_of ?es = table_map OPTIMISTIC hash t"
  proof (cases "old_array t")
    case None
    then have "a = c" using a c by (simp add: array_in_def)
    then show ?thesis using None c entries_from_map(1) [OF cok] map_of_entries_from [OF cok] by (simp add: table_map_simps)
  next
    case (Some old)
    then have o: "a = old" using a by (simp add: array_in_def)
    have dis: "dom (array_map OPTIMISTIC hash c) \<inter> dom (array_map OPTIMISTIC hash a) = {}"
      using table_okD(4) [OF ok c Some] o by (auto simp: pair_ok_def)
    have keys: "fst ` set (entries_from OPTIMISTIC x 0) = dom (array_map OPTIMISTIC hash x)" if "array_ok OPTIMISTIC hash x" for x :: "('a, 'b) bucket_array"
      using map_of_entries_from [OF that] by (metis dom_map_of_conv_image_fst)
    have m: "map_of ?es = table_map OPTIMISTIC hash t"
      using Some o c map_of_entries_from [OF aok] map_of_entries_from [OF cok] by (simp add: table_map_simps pair_map_def)
    show ?thesis
      using Some m entries_from_map(1) [OF aok] entries_from_map(1) [OF cok] keys [OF aok] keys [OF cok] dis by auto
  qed
  then show thesis using that it by blast
qed

text \<open>C23. The iterator of an index visits every entry exactly once, those of the old array before those of
  the current one, also while the table is being resized, and then returns \<^verbatim>\<open>None\<close>.\<close>

theorem hash_index_iter_visits_all:
  assumes ok: "table_ok OPTIMISTIC hash t"
  shows "\<exists>kvs it. iter_collect (card (dom (table_map OPTIMISTIC hash t))) t hi_iter_new = Inr (kvs, it) \<and>
    distinct (map fst kvs) \<and> map_of kvs = table_map OPTIMISTIC hash t"
proof (cases "current_array t")
  case None
  then show ?thesis by (simp add: iter_collect.simps iter_next_def hi_iter_new_def table_map_simps)
next
  case (Some c)
  show ?thesis
    by (rule iter_collect_new [OF ok Some]) (use length_entries in force)
qed

text \<open>C24. The iterator is not fused although it implements \<^verbatim>\<open>FusedIterator\<close>: on any index that has an array, the
  call of \<^verbatim>\<open>next\<close> after the one that returned \<^verbatim>\<open>None\<close> steps past the end of the array and refers to the bucket
  behind it, which only a debug assertion catches.\<close>

theorem hash_index_iter_not_fused:
  assumes ok: "table_ok OPTIMISTIC hash t" and c: "current_array t = Some c"
  shows "\<exists>kvs it. iter_collect (card (dom (table_map OPTIMISTIC hash t))) t hi_iter_new = Inr (kvs, it) \<and>
    iter_next t it = Inl (Bucket_Out_Of_Bounds (Suc (num_buckets c)))"
proof -
  obtain es it where it: "\<forall>fuel. length es \<le> fuel \<longrightarrow> iter_collect fuel t hi_iter_new = Inr (es, it fuel) \<and> iter_done t (it fuel)"
    "distinct (map fst es)" "map_of es = table_map OPTIMISTIC hash t"
    by (rule iter_collect_new [OF ok c])
  let ?n = "card (dom (table_map OPTIMISTIC hash t))"
  have n: "length es \<le> ?n" using length_entries [OF it(2)] it(3) by simp
  then have d: "iter_collect ?n t hi_iter_new = Inr (es, it ?n)" "iter_done t (it ?n)" using it(1) by blast+
  have "iter_next t (it ?n) = Inl (Bucket_Out_Of_Bounds (Suc (num_buckets c)))"
    using d(2) c by (simp add: iter_done_def iter_next_def iter_loop.simps array_in_def)
  then show ?thesis using d(1) by blast
qed

lemma optimistic_example:
  obtains t c where "hi_insert example_hash 7 (1 :: nat) (hi_with_capacity 64) = Inr (Inr (), t)" "table_ok OPTIMISTIC example_hash t"
    "table_map OPTIMISTIC example_hash t = [7 \<mapsto> 1]" "current_array t = Some c"
proof -
  have new: "table_ok OPTIMISTIC example_hash (hi_with_capacity 64 :: (u64, nat) table)"
    "table_map OPTIMISTIC example_hash (hi_with_capacity 64 :: (u64, nat) table) = Map.empty"
    using table_new_ok [of 63 64 OPTIMISTIC example_hash, where ?'v = nat] by (simp_all add: hi_with_capacity_def)
  have room: "roomy (table_map OPTIMISTIC example_hash (hi_with_capacity 64 :: (u64, nat) table))" unfolding new(2) by simp
  obtain t where t: "insert_entry OPTIMISTIC example_hash 7 (1 :: nat) (hi_with_capacity 64) = Inr (None, t)"
    "table_ok OPTIMISTIC example_hash t" "table_map OPTIMISTIC example_hash t = [7 \<mapsto> 1]"
    by (rule insert_entry_ok [OF new(1) room, of 7 1]) (simp_all add: new(2))
  have "current_array t \<noteq> None"
    using table_map_simps(3) [of t OPTIMISTIC example_hash] t(3) by force
  then show thesis using that t by (auto simp: hi_insert_def)
qed

theorem hash_index_iter_visits_all_witness:
  "\<exists>t it. hi_insert example_hash 7 (1 :: nat) (hi_with_capacity 64) = Inr (Inr (), t) \<and>
     iter_collect 1 t hi_iter_new = Inr ([(7, 1)], it)"
proof -
  obtain t c where t: "hi_insert example_hash 7 (1 :: nat) (hi_with_capacity 64) = Inr (Inr (), t)" "table_ok OPTIMISTIC example_hash t"
    "table_map OPTIMISTIC example_hash t = [7 \<mapsto> 1]" "current_array t = Some c" by (rule optimistic_example)
  obtain kvs it where w: "iter_collect 1 t hi_iter_new = Inr (kvs, it)" "distinct (map fst kvs)" "map_of kvs = [7 \<mapsto> 1]"
    using hash_index_iter_visits_all [OF t(2)] t(3) by auto
  have "map_of kvs = map_of [(7 :: u64, 1 :: nat)]" using w(3) by simp
  then have "set kvs = {(7, 1)}" using map_of_inject_set [of kvs "[(7, 1)]"] w(2) by simp
  moreover have "length kvs = 1" using length_entries [OF w(2)] w(3) by simp
  ultimately have "kvs = [(7, 1)]" by (cases kvs) auto
  then show ?thesis using t(1) w(1) by blast
qed

theorem hash_index_iter_not_fused_witness:
  "\<exists>t kvs it n. hi_insert example_hash 7 (1 :: nat) (hi_with_capacity 64) = Inr (Inr (), t) \<and>
     iter_collect 1 t hi_iter_new = Inr (kvs, it) \<and> iter_next t it = Inl (Bucket_Out_Of_Bounds n)"
proof -
  obtain t c where t: "hi_insert example_hash 7 (1 :: nat) (hi_with_capacity 64) = Inr (Inr (), t)" "table_ok OPTIMISTIC example_hash t"
    "table_map OPTIMISTIC example_hash t = [7 \<mapsto> 1]" "current_array t = Some c" by (rule optimistic_example)
  show ?thesis using hash_index_iter_not_fused [OF t(2,4)] t(1,3) by auto
qed

section \<open>What the methods do\<close>

text \<open>C22. The methods of an index on one key: \<^verbatim>\<open>peek\<close> returns the value, \<^verbatim>\<open>get(k)\<close> an entry exactly if the key is
  present, whose \<^verbatim>\<open>update\<close> replaces the value although the old entry stays in its slot and the new one
  takes another slot of the bucket, and \<^verbatim>\<open>remove_if\<close> removes the entry if the condition holds for its value.\<close>

theorem hash_index_operations:
  assumes ok: "table_ok OPTIMISTIC hash t" and room: "roomy (table_map OPTIMISTIC hash t)"
  defines "m \<equiv> table_map OPTIMISTIC hash t"
  shows "(\<exists>t'. hi_peek hash k t = Inr (m k, t') \<and> table_ok OPTIMISTIC hash t' \<and> table_map OPTIMISTIC hash t' = m) \<and>
    (\<exists>e t1. hi_get hash k t = Inr (e, t1) \<and>
      (case e of
         None \<Rightarrow> m k = None
       | Some e \<Rightarrow> (\<exists>t2 t3. m k \<noteq> None \<and> occupied_update w e t1 = Inr ((), t2) \<and> table_ok OPTIMISTIC hash t2 \<and>
           table_map OPTIMISTIC hash t2 = m(k \<mapsto> w) \<and> hi_peek hash k t2 = Inr (Some w, t3)))) \<and>
    (\<exists>t'. hi_remove_if hash k cond t = Inr (\<exists>v. m k = Some v \<and> cond v, t') \<and> table_ok OPTIMISTIC hash t' \<and>
      table_map OPTIMISTIC hash t' = (if \<exists>v. m k = Some v \<and> cond v then m(k := None) else m))"
proof (intro conjI)
  have peek: "\<exists>t'. hi_peek hash k u = Inr (table_map OPTIMISTIC hash u k, t') \<and> table_ok OPTIMISTIC hash t' \<and>
      table_map OPTIMISTIC hash t' = table_map OPTIMISTIC hash u"
    if "table_ok OPTIMISTIC hash u" "roomy (table_map OPTIMISTIC hash u)" for u
    by (rule read_entry_ok [OF that, of k]) (auto simp: hi_peek_def option.map_comp comp_def option.map_ident)
  then show "\<exists>t'. hi_peek hash k t = Inr (m k, t') \<and> table_ok OPTIMISTIC hash t' \<and> table_map OPTIMISTIC hash t' = m"
    using ok room by (simp add: m_def)
  show "\<exists>e t1. hi_get hash k t = Inr (e, t1) \<and>
      (case e of
         None \<Rightarrow> m k = None
       | Some e \<Rightarrow> (\<exists>t2 t3. m k \<noteq> None \<and> occupied_update w e t1 = Inr ((), t2) \<and> table_ok OPTIMISTIC hash t2 \<and>
           table_map OPTIMISTIC hash t2 = m(k \<mapsto> w) \<and> hi_peek hash k t2 = Inr (Some w, t3)))"
    using ok room
  proof (cases rule: get_entry_locked [where k = k])
    case (absent u)
    then show ?thesis by (auto simp: hi_get_def m_def)
  next
    case (present e u v)
    have room': "roomy (table_map OPTIMISTIC hash u)" using room present(3) by simp
    obtain t2 where t2: "occupied_update w e u = Inr ((), t2)" "table_ok OPTIMISTIC hash t2"
      "table_map OPTIMISTIC hash t2 = (table_map OPTIMISTIC hash u)(k \<mapsto> w)"
      by (rule occupied_update_ok [OF present(2) room' present(5)])
    have "dom (table_map OPTIMISTIC hash t2) = dom (table_map OPTIMISTIC hash u)" using t2(3) present(3,4) by auto
    then have "roomy (table_map OPTIMISTIC hash t2)" using room' by (simp add: roomy_def)
    then obtain t3 where "hi_peek hash k t2 = Inr (Some w, t3)" using peek [OF t2(2)] t2(3) by auto
    then show ?thesis using present t2 by (auto simp: hi_get_def m_def)
  qed
  show "\<exists>t'. hi_remove_if hash k cond t = Inr (\<exists>v. m k = Some v \<and> cond v, t') \<and> table_ok OPTIMISTIC hash t' \<and>
      table_map OPTIMISTIC hash t' = (if \<exists>v. m k = Some v \<and> cond v then m(k := None) else m)"
    by (rule remove_entry_ok [OF ok room, of k "\<lambda>v. (cond v, v)"])
      (cases "m k"; auto simp: hi_remove_if_def m_def fun_upd_idem_iff)
qed

theorem hash_index_operations_witness:
  "\<exists>t t'. hi_insert example_hash 7 (1 :: nat) (hi_with_capacity 64) = Inr (Inr (), t) \<and>
     hi_peek example_hash 7 t = Inr (Some 1, t')"
proof -
  obtain t c where t: "hi_insert example_hash 7 (1 :: nat) (hi_with_capacity 64) = Inr (Inr (), t)" "table_ok OPTIMISTIC example_hash t"
    "table_map OPTIMISTIC example_hash t = [7 \<mapsto> 1]" "current_array t = Some c" by (rule optimistic_example)
  have "roomy (table_map OPTIMISTIC example_hash t)" unfolding t(3) by (simp add: roomy_def)
  from conjunct1 [OF hash_index_operations [OF t(2) this, of 7]] show ?thesis using t(1,3) by fastforce
qed

end
