(* ===== verification/Leaf_Meta.thy ===== *)
theory Leaf_Meta
  imports Scc_Prelude
begin

text \<open>
  The metadata word of a leaf of the tree index, \<^verbatim>\<open>Dimension\<close> in \<^verbatim>\<open>src/tree_index/leaf.rs\<close>: fourteen ranks
  of four bits each, and two flags at the top.
\<close>

unbundle bit_operations_syntax

section \<open>Dimension\<close>

record dimension =
  dim_num_entries :: nat
  num_bits_per_entry :: nat

definition DIMENSION :: dimension where
  "DIMENSION = \<lparr>dim_num_entries = 14, num_bits_per_entry = 4\<rparr>"

abbreviation NUM_ENTRIES :: nat where
  "NUM_ENTRIES \<equiv> 14"

definition frozen :: "u64 \<Rightarrow> bool" where
  "frozen metadata \<longleftrightarrow> metadata AND push_bit (64 - 2) 1 \<noteq> 0"

definition freeze :: "u64 \<Rightarrow> u64" where
  "freeze metadata = metadata OR push_bit (64 - 2) 1"

definition thaw :: "u64 \<Rightarrow> u64" where
  "thaw metadata = metadata AND NOT (push_bit (64 - 2) 1)"

definition retired :: "u64 \<Rightarrow> bool" where
  "retired metadata \<longleftrightarrow> metadata AND push_bit (64 - 1) 1 \<noteq> 0"

definition retire :: "u64 \<Rightarrow> u64" where
  "retire metadata = metadata OR push_bit (64 - 1) 1"

definition rank_mask :: "nat \<Rightarrow> u64" where
  "rank_mask index =
     push_bit (index * num_bits_per_entry DIMENSION) (push_bit (num_bits_per_entry DIMENSION) 1 - 1)"

definition rank :: "u64 \<Rightarrow> nat \<Rightarrow> nat" where
  "rank metadata index =
     unat (drop_bit (index * num_bits_per_entry DIMENSION) metadata mod push_bit (num_bits_per_entry DIMENSION) 1)"

definition uninit_rank :: nat where
  "uninit_rank = 0"

definition removed_rank :: nat where
  "removed_rank = 2 ^ num_bits_per_entry DIMENSION - 1"

definition augment :: "u64 \<Rightarrow> nat \<Rightarrow> nat \<Rightarrow> u64" where
  "augment metadata index r =
     (metadata AND NOT (rank_mask index)) OR push_bit (index * num_bits_per_entry DIMENSION) (of_nat r)"

section \<open>Ranks as functions\<close>

lemma DIMENSION_simps [simp]: "dim_num_entries DIMENSION = 14" "num_bits_per_entry DIMENSION = 4"
  by (simp_all add: DIMENSION_def)

lemma rank_values [simp]: "uninit_rank = 0" "removed_rank = 15"
  by (simp_all add: uninit_rank_def removed_rank_def)

lemma rank_take_bit: "rank m i = unat (take_bit 4 (drop_bit (i * 4) m))"
  by (simp add: rank_def take_bit_eq_mod push_bit_eq_mult)

lemma rank_less: "rank m i < 16"
  unfolding rank_take_bit using take_bit_nat_less_exp [of 4 "unat (drop_bit (i * 4) m)"] by (simp add: unsigned_take_bit_eq)

lemma rank_le [simp]: "rank m i \<le> 15"
  using rank_less [of m i] by simp

lemma rank_mask_bit: "bit (rank_mask i) n \<longleftrightarrow> n < 64 \<and> i * 4 \<le> n \<and> n < i * 4 + 4"
proof -
  have "rank_mask i = push_bit (i * 4) (mask 4)" by (simp add: rank_mask_def mask_eq_exp_minus_1 push_bit_eq_mult)
  then show ?thesis by (auto simp only: bit_push_bit_iff bit_mask_iff) simp_all
qed

lemma rank_eqI: "(\<And>n. n < 4 \<Longrightarrow> bit m (i * 4 + n) = bit m' (j * 4 + n)) \<Longrightarrow> rank m i = rank m' j"
  unfolding rank_take_bit by (rule arg_cong [of _ _ unat], rule bit_eqI) (auto simp: bit_take_bit_iff bit_drop_bit_eq)

lemma take_rank: "r < 16 \<Longrightarrow> take_bit 4 (of_nat r :: u64) = of_nat r"
  by (simp add: take_bit_of_nat take_bit_nat_eq_self)

lemma rank_augment:
  assumes "i < 14" "j < 14" "r < 16"
  shows "rank (augment m i r) j = (if j = i then r else rank m j)"
proof (cases "j = i")
  case True
  have r: "take_bit 4 (of_nat r :: u64) = of_nat r" by (rule take_rank [OF assms(3)])
  have "take_bit 4 (drop_bit (i * 4) (augment m i r)) = take_bit 4 (of_nat r :: u64)"
  proof (rule bit_eqI)
    fix n :: nat
    have "n < 4 \<Longrightarrow> i * 4 + n < 64" using assms(1) by simp
    then show "bit (take_bit 4 (drop_bit (i * 4) (augment m i r))) n = bit (take_bit 4 (of_nat r :: u64)) n"
      by (auto simp: augment_def bit_take_bit_iff bit_drop_bit_eq bit_or_iff bit_and_iff bit_not_iff rank_mask_bit bit_push_bit_iff)
  qed
  then show ?thesis using True assms(3) unfolding rank_take_bit r by (simp add: unsigned_of_nat take_bit_nat_eq_self)
next
  case False
  have "rank (augment m i r) j = rank m j"
  proof (rule rank_eqI)
    fix n :: nat assume n: "n < 4"
    have r: "\<not> bit (of_nat r :: u64) k" if "4 \<le> k" for k
    proof -
      have "take_bit 4 (of_nat r :: u64) = of_nat r" by (rule take_rank [OF assms(3)])
      then show ?thesis using that by (metis bit_take_bit_iff not_le)
    qed
    have "j * 4 + n < i * 4 \<or> i * 4 + 4 \<le> j * 4 + n" using False n by linarith
    then show "bit (augment m i r) (j * 4 + n) = bit m (j * 4 + n)"
      using assms(2) n r by (auto simp: augment_def bit_or_iff bit_and_iff bit_not_iff rank_mask_bit bit_push_bit_iff)
  qed
  then show ?thesis using False by simp
qed

lemma clear_rank: "m AND NOT (rank_mask i) = augment m i 0"
  by (simp add: augment_def)

lemma set_removed: "m OR rank_mask i = augment m i 15"
proof (rule bit_eqI)
  fix n :: nat
  have "push_bit (i * 4) (of_nat 15 :: u64) = rank_mask i" by (simp add: rank_mask_def push_bit_eq_mult)
  then show "bit (m OR rank_mask i) n = bit (augment m i 15) n"
    using bit_below [of m n] by (auto simp: augment_def bit_or_iff bit_and_iff bit_not_iff)
qed

section \<open>Flags\<close>

lemma frozen_bit: "frozen m \<longleftrightarrow> bit m 62"
  by (simp add: frozen_def bit_iff_and_push_bit_not_eq_0)

lemma retired_bit: "retired m \<longleftrightarrow> bit m 63"
  by (simp add: retired_def bit_iff_and_push_bit_not_eq_0)

lemma bit_augment_flags: "i < 14 \<Longrightarrow> r < 16 \<Longrightarrow> 56 \<le> n \<Longrightarrow> bit (augment m i r) n = bit m n"
proof -
  assume a: "i < 14" "r < 16" "56 \<le> n"
  have "\<not> bit (of_nat r :: u64) (n - i * 4)"
  proof -
    have "4 \<le> n - i * 4" using a by simp
    then show ?thesis using take_rank [OF a(2)] by (metis bit_take_bit_iff not_le)
  qed
  then show ?thesis
    using a bit_below [of m n] by (auto simp: augment_def bit_or_iff bit_and_iff bit_not_iff rank_mask_bit bit_push_bit_iff)
qed

lemma augment_flags [simp]:
  "i < 14 \<Longrightarrow> r < 16 \<Longrightarrow> frozen (augment m i r) = frozen m"
  "i < 14 \<Longrightarrow> r < 16 \<Longrightarrow> retired (augment m i r) = retired m"
  by (simp_all add: frozen_bit retired_bit bit_augment_flags)

lemma flag_bits:
  "bit (freeze m) n \<longleftrightarrow> bit m n \<or> n = 62" "bit (thaw m) n \<longleftrightarrow> bit m n \<and> n \<noteq> 62"
  "bit (retire m) n \<longleftrightarrow> bit m n \<or> n = 63"
  unfolding freeze_def thaw_def retire_def shl1_def [symmetric]
  using bit_below [of m n] by (auto simp: bitmap_simps)

lemma flags [simp]:
  "frozen (freeze m)" "\<not> frozen (thaw m)" "frozen (retire m) = frozen m"
  "retired (freeze m) = retired m" "retired (thaw m) = retired m" "retired (retire m)"
  by (simp_all add: frozen_bit retired_bit flag_bits)

lemma flag_ranks [simp]:
  assumes "i < 14"
  shows "rank (freeze m) i = rank m i" "rank (thaw m) i = rank m i" "rank (retire m) i = rank m i"
  using assms by (intro rank_eqI; simp add: flag_bits)+

lemma rank_zero [simp]: "rank 0 i = 0"
  by (simp add: rank_take_bit)

lemma zero_flags [simp]: "\<not> frozen 0" "\<not> retired 0"
  by (simp_all add: frozen_bit retired_bit)

section \<open>Loops over the ranks\<close>

text \<open>
  The loop that most functions of a leaf share: the metadata is shifted right by one entry in each
  round, the lowest bits are the rank of the current slot, and the loop ends early when no bit is left.
  \<^term>\<open>Inl\<close> is an early return of the function.
\<close>

fun rank_loop :: "(nat \<Rightarrow> nat \<Rightarrow> 's \<Rightarrow> 'r + 's) \<Rightarrow> nat list \<Rightarrow> u64 \<Rightarrow> 's \<Rightarrow> 'r + 's" where
  "rank_loop body [] mutable_metadata s = Inr s"
| "rank_loop body (i # is) mutable_metadata s =
     (if mutable_metadata = 0 then Inr s
      else case body i (unat (mutable_metadata mod push_bit (num_bits_per_entry DIMENSION) 1)) s of
             Inl r \<Rightarrow> Inl r
           | Inr s \<Rightarrow> rank_loop body is (drop_bit (num_bits_per_entry DIMENSION) mutable_metadata) s)"

text \<open>The same loop over the ranks as values.\<close>

fun rank_iter :: "(nat \<Rightarrow> nat \<Rightarrow> 's \<Rightarrow> 'r + 's) \<Rightarrow> (nat \<Rightarrow> nat) \<Rightarrow> nat list \<Rightarrow> 's \<Rightarrow> 'r + 's" where
  "rank_iter body rk [] s = Inr s"
| "rank_iter body rk (i # is) s = (case body i (rk i) s of Inl r \<Rightarrow> Inl r | Inr s \<Rightarrow> rank_iter body rk is s)"

lemma rank_iter_zero: "(\<And>i s. body i 0 s = Inr s) \<Longrightarrow> (\<forall>i\<in>set is. rk i = 0) \<Longrightarrow> rank_iter body rk is s = Inr s"
  by (induction "is") simp_all

lemma rank_loop_iter:
  assumes "\<And>i s. body i 0 s = Inr s"
  shows "rank_loop body [a..<b] (drop_bit (a * 4) m) s = rank_iter body (rank m) [a..<b] s"
proof (induction "b - a" arbitrary: a s)
  case (Suc n)
  have u: "[a..<b] = a # [Suc a..<b]" using Suc(2) by (simp add: upt_rec)
  show ?case
  proof (cases "drop_bit (a * 4) m = 0")
    case True
    have "rank m i = 0" if "a \<le> i" for i
    proof -
      have "drop_bit (i * 4) m = drop_bit ((i - a) * 4) (drop_bit (a * 4) m)"
        using that by (simp add: drop_bit_drop_bit diff_mult_distrib)
      then show ?thesis using True by (simp add: rank_take_bit)
    qed
    then have "rank_iter body (rank m) [a..<b] s = Inr s" using assms by (intro rank_iter_zero) simp_all
    then show ?thesis using True unfolding u by simp
  next
    case False
    have "rank_loop body [Suc a..<b] (drop_bit (Suc a * 4) m) t = rank_iter body (rank m) [Suc a..<b] t" for t
      using Suc by (intro Suc(1)) simp
    then show ?thesis
      using False unfolding u by (simp add: rank_def drop_bit_drop_bit add.commute split: sum.split)
  qed
qed simp

lemma rank_loop_ranks:
  "(\<And>i s. body i 0 s = Inr s) \<Longrightarrow> rank_loop body [0..<n] m s = rank_iter body (rank m) [0..<n] s"
  using rank_loop_iter [of body 0 n m s] by simp

text \<open>Induction over the visited slots.\<close>

lemma rank_iter_invariant:
  assumes "P a s" "\<And>i s. a \<le> i \<Longrightarrow> i < b \<Longrightarrow> P i s \<Longrightarrow> (case body i (rk i) s of Inl r \<Rightarrow> Q r | Inr s \<Rightarrow> P (Suc i) s)" "a \<le> b"
  shows "case rank_iter body rk [a..<b] s of Inl r \<Rightarrow> Q r | Inr s \<Rightarrow> P b s"
  using assms
proof (induction "b - a" arbitrary: a s)
  case (Suc n)
  have u: "[a..<b] = a # [Suc a..<b]" using Suc(2) by (simp add: upt_rec)
  have a: "a < b" using Suc(2) by simp
  show ?case
  proof (cases "body a (rk a) s")
    case (Inl r)
    then show ?thesis using Suc(4) [of a s] Suc(3) a u by simp
  next
    case (Inr t)
    then have "P (Suc a) t" using Suc(4) [of a s] Suc(3) a by simp
    then have "case rank_iter body rk [Suc a..<b] t of Inl r \<Rightarrow> Q r | Inr s \<Rightarrow> P b s"
      using Suc by (intro Suc(1)) auto
    then show ?thesis using Inr u by simp
  qed
qed simp

end
