(* ===== verification/Leaf.thy ===== *)
theory Leaf
  imports Leaf_Meta
begin

text \<open>
  The leaf of the tree index, \<^verbatim>\<open>src/tree_index/leaf.rs\<close>: an unordered array of at most fourteen entries
  whose metadata word holds the rank of every slot. Updates are compare-and-exchange operations on the
  metadata. An operation that is one such exchange is a function on the leaf; insertion reserves a slot,
  writes the entry and then makes it reachable, and these are separate functions, so that operations
  of other threads can come in between. A slot that was never written is \<^term>\<open>None\<close>; reading it is the error
  \<open>None\<close> of the readers.
\<close>

section \<open>State\<close>

record ('k, 'v) leaf =
  leaf_metadata :: u64
  entry_array :: "('k \<times> 'v) option list"

datatype ('k, 'v) insert_result =
  Insert_Success | Duplicate 'k 'v | Full 'k 'v | Insert_Frozen 'k 'v | Insert_Retired 'k 'v | Insert_Retry 'k 'v

datatype remove_result = Remove_Success | Cleanup | Remove_Retired | Remove_Fail | Remove_Frozen

datatype ordering = Less | Equal | Greater

definition compare_keys :: "'k::linorder \<Rightarrow> 'k \<Rightarrow> ordering" where
  "compare_keys x y = (if x < y then Less else if x = y then Equal else Greater)"

definition leaf_new :: "('k, 'v) leaf" where
  "leaf_new = \<lparr>leaf_metadata = 0, entry_array = replicate NUM_ENTRIES None\<rparr>"

definition key_at :: "('k, 'v) leaf \<Rightarrow> nat \<Rightarrow> 'k option" where
  "key_at l i = map_option fst (entry_array l ! i)"

definition value_at :: "('k, 'v) leaf \<Rightarrow> nat \<Rightarrow> 'v option" where
  "value_at l i = map_option snd (entry_array l ! i)"

definition leaf_take :: "('k, 'v) leaf \<Rightarrow> nat \<Rightarrow> ('k \<times> 'v) option" where
  "leaf_take l i = entry_array l ! i"

definition leaf_write :: "('k, 'v) leaf \<Rightarrow> nat \<Rightarrow> 'k \<Rightarrow> 'v \<Rightarrow> ('k, 'v) leaf" where
  "leaf_write l i key val = l\<lparr>entry_array := (entry_array l)[i := Some (key, val)]\<rparr>"

section \<open>Freezing\<close>

definition leaf_thaw :: "('k, 'v) leaf \<Rightarrow> bool \<times> ('k, 'v) leaf" where
  "leaf_thaw l =
     (let (m, r) = fetch_update (leaf_metadata l) (\<lambda>p. if frozen p then Some (thaw p) else None)
      in (is_ok r, l\<lparr>leaf_metadata := m\<rparr>))"

definition leaf_freeze :: "('k, 'v) leaf \<Rightarrow> bool \<times> ('k, 'v) leaf" where
  "leaf_freeze l =
     (let (m, r) = fetch_update (leaf_metadata l) (\<lambda>p. if frozen p then None else Some (freeze p))
      in (is_ok r, l\<lparr>leaf_metadata := m\<rparr>))"

definition leaf_is_retired :: "('k, 'v) leaf \<Rightarrow> bool" where
  "leaf_is_retired l = retired (leaf_metadata l)"

definition leaf_validate :: "('k, 'v) leaf \<Rightarrow> u64 \<Rightarrow> bool" where
  "leaf_validate l metadata \<longleftrightarrow> leaf_metadata l = metadata"

section \<open>Searching\<close>

definition leaf_is_empty :: "('k, 'v) leaf \<Rightarrow> bool" where
  "leaf_is_empty l =
     (case rank_loop (\<lambda>i r (_ :: unit). if r \<noteq> uninit_rank \<and> r \<noteq> removed_rank then Inl False else Inr ())
             [0..<NUM_ENTRIES] (leaf_metadata l) () of
        Inl r \<Rightarrow> r | Inr _ \<Rightarrow> True)"

definition max_entry_body :: "nat \<Rightarrow> nat \<Rightarrow> nat \<times> nat \<Rightarrow> unit + (nat \<times> nat)" where
  "max_entry_body i r s = (case s of (max_rank, max_index) \<Rightarrow>
     Inr (if r > max_rank \<and> r \<noteq> removed_rank then (r, i) else (max_rank, max_index)))"

definition max_entry :: "('k, 'v) leaf \<Rightarrow> ('k \<times> 'v) option" where
  "max_entry l =
     (case rank_loop max_entry_body [0..<NUM_ENTRIES] (leaf_metadata l) (0, NUM_ENTRIES) of
        Inr (_, max_index) \<Rightarrow> if max_index \<noteq> NUM_ENTRIES then entry_array l ! max_index else None
      | Inl _ \<Rightarrow> None)"

definition max_key :: "('k, 'v) leaf \<Rightarrow> 'k option" where
  "max_key l = map_option fst (max_entry l)"

text \<open>The body that the searches share: a slot is compared only if its rank lies strictly between the
  bounds, and each comparison moves one of the bounds. The bounds are \<open>(max_min_rank, min_max_rank)\<close>.\<close>

definition compare_at :: "('k::linorder, 'v) leaf \<Rightarrow> nat \<Rightarrow> 'k \<Rightarrow> ordering" where
  "compare_at l i key = (case key_at l i of Some k \<Rightarrow> compare_keys k key | None \<Rightarrow> Less)"

definition search_body :: "('k::linorder, 'v) leaf \<Rightarrow> 'k \<Rightarrow> nat \<Rightarrow> nat \<Rightarrow> nat \<times> nat \<Rightarrow> nat + (nat \<times> nat)" where
  "search_body l key i r s = (case s of (max_min_rank, min_max_rank) \<Rightarrow>
     if r < min_max_rank \<and> r > max_min_rank
     then case compare_at l i key of
            Less \<Rightarrow> Inr (if max_min_rank < r then r else max_min_rank, min_max_rank)
          | Greater \<Rightarrow> Inr (max_min_rank, if min_max_rank > r then r else min_max_rank)
          | Equal \<Rightarrow> Inl i
     else Inr s)"

definition search_slot :: "('k::linorder, 'v) leaf \<Rightarrow> 'k \<Rightarrow> u64 \<Rightarrow> nat option" where
  "search_slot l key metadata =
     (case rank_loop (search_body l key) [0..<NUM_ENTRIES] metadata (0, removed_rank) of
        Inl i \<Rightarrow> Some i | Inr _ \<Rightarrow> None)"

definition leaf_search :: "('k::linorder, 'v) leaf \<Rightarrow> 'k \<Rightarrow> 'v option" where
  "leaf_search l key = Option.bind (search_slot l key (leaf_metadata l)) (value_at l)"

definition max_less_body ::
  "('k::linorder, 'v) leaf \<Rightarrow> 'k \<Rightarrow> nat \<Rightarrow> nat \<Rightarrow> nat \<times> nat \<times> nat \<Rightarrow> unit + (nat \<times> nat \<times> nat)" where
  "max_less_body l key i r s = (case s of (max_min_rank, min_max_rank, max_min_index) \<Rightarrow>
     if r < min_max_rank \<and> r > max_min_rank
     then case compare_at l i key of
            Less \<Rightarrow> Inr (if max_min_rank < r then (r, min_max_rank, i) else s)
          | Greater \<Rightarrow> Inr (max_min_rank, if min_max_rank > r then r else min_max_rank, max_min_index)
          | Equal \<Rightarrow> Inr (max_min_rank, r, max_min_index)
     else Inr s)"

definition max_less :: "('k::linorder, 'v) leaf \<Rightarrow> u64 \<Rightarrow> 'k \<Rightarrow> nat" where
  "max_less l metadata key =
     (case rank_loop (max_less_body l key) [0..<NUM_ENTRIES] metadata (0, removed_rank, NUM_ENTRIES) of
        Inr (_, _, max_min_index) \<Rightarrow> max_min_index | Inl _ \<Rightarrow> NUM_ENTRIES)"

definition min_greater_equal_body ::
  "('k::linorder, 'v) leaf \<Rightarrow> 'k \<Rightarrow> nat \<Rightarrow> nat \<Rightarrow> nat \<times> nat \<times> nat \<Rightarrow> nat + (nat \<times> nat \<times> nat)" where
  "min_greater_equal_body l key i r s = (case s of (max_min_rank, min_max_rank, min_max_index) \<Rightarrow>
     if r < min_max_rank \<and> r > max_min_rank
     then case compare_at l i key of
            Less \<Rightarrow> Inr (if max_min_rank < r then r else max_min_rank, min_max_rank, min_max_index)
          | Greater \<Rightarrow> Inr (if min_max_rank > r then (max_min_rank, r, i) else s)
          | Equal \<Rightarrow> Inl i
     else Inr s)"

definition min_greater_equal :: "('k::linorder, 'v) leaf \<Rightarrow> 'k \<Rightarrow> ('k \<times> 'v) option \<times> u64" where
  "min_greater_equal l key =
     (case rank_loop (min_greater_equal_body l key) [0..<NUM_ENTRIES] (leaf_metadata l) (0, removed_rank, NUM_ENTRIES) of
        Inl i \<Rightarrow> (entry_array l ! i, leaf_metadata l)
      | Inr (_, _, min_max_index) \<Rightarrow>
          if min_max_index \<noteq> NUM_ENTRIES then (entry_array l ! min_max_index, leaf_metadata l)
          else (None, leaf_metadata l))"

section \<open>Insertion\<close>

text \<open>The loop of \<^verbatim>\<open>insert\<close> over the slots; it has no early exit on an empty remainder.\<close>

fun first_uninit :: "nat list \<Rightarrow> u64 \<Rightarrow> nat option" where
  "first_uninit [] mutable_metadata = None"
| "first_uninit (i # is) mutable_metadata =
     (if unat (mutable_metadata mod push_bit (num_bits_per_entry DIMENSION) 1) = uninit_rank then Some i
      else first_uninit is (drop_bit (num_bits_per_entry DIMENSION) mutable_metadata))"

text \<open>One round of the outer loop of \<^verbatim>\<open>insert\<close>, with the metadata that was read last: the result of the call,
  or the slot with the metadata that the exchange has stored, or, after a failed exchange, the actual
  metadata to go on with.\<close>

definition reserve_round ::
  "('k::linorder, 'v) leaf \<Rightarrow> u64 \<Rightarrow> 'k \<Rightarrow> 'v \<Rightarrow> ((('k, 'v) insert_result + nat \<times> u64) + u64) \<times> ('k, 'v) leaf" where
  "reserve_round l metadata key val =
     (if retired metadata then (Inl (Inl (Insert_Retired key val)), l)
      else if frozen metadata then (Inl (Inl (Insert_Frozen key val)), l)
      else case first_uninit [0..<NUM_ENTRIES] metadata of
             Some i \<Rightarrow>
               let interim_metadata = augment metadata i removed_rank
               in (case compare_exchange (leaf_metadata l) metadata interim_metadata of
                     (m, Inr _) \<Rightarrow> (Inl (Inr (i, interim_metadata)), l\<lparr>leaf_metadata := m\<rparr>)
                   | (m, Inl actual) \<Rightarrow> (Inr actual, l))
           | None \<Rightarrow>
               if search_slot l key metadata \<noteq> None then (Inl (Inl (Duplicate key val)), l)
               else (Inl (Inl (Full key val)), l))"

text \<open>With no other thread in between, the first round ends the loop.\<close>

definition leaf_reserve ::
  "('k::linorder, 'v) leaf \<Rightarrow> 'k \<Rightarrow> 'v \<Rightarrow> (('k, 'v) insert_result + nat \<times> u64) option \<times> ('k, 'v) leaf" where
  "leaf_reserve l key val =
     (case reserve_round l (leaf_metadata l) key val of
        (Inl r, l) \<Rightarrow> (Some r, l)
      | (Inr _, l) \<Rightarrow> (None, l))"

definition rollback :: "('k, 'v) leaf \<Rightarrow> nat \<Rightarrow> ('k, 'v) insert_result option \<times> ('k, 'v) leaf" where
  "rollback l index =
     (let taken = leaf_take l index;
          result = leaf_metadata l AND NOT (rank_mask index)
      in (map_option (\<lambda>(key, val).
            if retired result then Insert_Retired key val
            else if frozen result then Insert_Frozen key val
            else Duplicate key val) taken,
          l\<lparr>leaf_metadata := result\<rparr>))"

definition post_insert_body ::
  "('k::linorder, 'v) leaf \<Rightarrow> 'k \<Rightarrow> nat \<Rightarrow> nat \<Rightarrow> nat \<times> nat \<times> u64 \<Rightarrow> unit + (nat \<times> nat \<times> u64)" where
  "post_insert_body l key i r s = (case s of (max_min_rank, min_max_rank, new_metadata) \<Rightarrow>
     if r < min_max_rank \<and> r > max_min_rank
     then case compare_at l i key of
            Less \<Rightarrow> Inr (if max_min_rank < r then r else max_min_rank, min_max_rank, new_metadata)
          | Greater \<Rightarrow> Inr (max_min_rank, if min_max_rank > r then r else min_max_rank, augment new_metadata i (r + 1))
          | Equal \<Rightarrow> Inl ()
     else if r \<noteq> removed_rank \<and> r > min_max_rank
     then Inr (max_min_rank, min_max_rank, augment new_metadata i (r + 1))
     else Inr s)"

text \<open>One round of the loop of \<^verbatim>\<open>post_insert\<close> up to its exchange. It has made the entry reachable, or has
  failed with metadata to go on with, or the loop ends with a call of \<^verbatim>\<open>rollback\<close>, which is a second access
  to the metadata. \<open>Unwritten_Key\<close> is the read of a slot that was never written.\<close>

datatype post_outcome = Posted | Outdated u64 | Rolls_Back | Unwritten_Key

definition post_insert_attempt ::
  "('k::linorder, 'v) leaf \<Rightarrow> nat \<Rightarrow> u64 \<Rightarrow> post_outcome \<times> ('k, 'v) leaf" where
  "post_insert_attempt l free_slot_index prev_metadata =
     (case key_at l free_slot_index of
        None \<Rightarrow> (Unwritten_Key, l)
      | Some key \<Rightarrow>
          (case rank_loop (post_insert_body l key) [0..<NUM_ENTRIES] prev_metadata (0, removed_rank, prev_metadata) of
             Inl _ \<Rightarrow> (Rolls_Back, l)
           | Inr (max_min_rank, _, new_metadata) \<Rightarrow>
               let final_metadata = augment new_metadata free_slot_index (max_min_rank + 1)
               in case compare_exchange (leaf_metadata l) prev_metadata final_metadata of
                    (m, Inr _) \<Rightarrow> (Posted, l\<lparr>leaf_metadata := m\<rparr>)
                  | (m, Inl actual) \<Rightarrow>
                      if frozen actual \<or> retired actual then (Rolls_Back, l) else (Outdated actual, l)))"

text \<open>The round with its rollback and no other thread in between: the outcome of the call, where \<^term>\<open>None\<close>
  stands for the read of a slot that was never written, or the metadata to go on with.\<close>

definition post_insert_round ::
  "('k::linorder, 'v) leaf \<Rightarrow> nat \<Rightarrow> u64 \<Rightarrow> (('k, 'v) insert_result option + u64) \<times> ('k, 'v) leaf" where
  "post_insert_round l free_slot_index prev_metadata =
     (case post_insert_attempt l free_slot_index prev_metadata of
        (Posted, l) \<Rightarrow> (Inl (Some Insert_Success), l)
      | (Outdated actual, l) \<Rightarrow> (Inr actual, l)
      | (Rolls_Back, l) \<Rightarrow> (let (r, l) = rollback l free_slot_index in (Inl r, l))
      | (Unwritten_Key, l) \<Rightarrow> (Inl None, l))"

text \<open>The whole loop, at most \<open>fuel\<close> rounds, with no other thread in between: a second round is never
  needed then.\<close>

fun post_insert ::
  "nat \<Rightarrow> ('k::linorder, 'v) leaf \<Rightarrow> nat \<Rightarrow> u64 \<Rightarrow> ('k, 'v) insert_result option \<times> ('k, 'v) leaf" where
  "post_insert 0 l free_slot_index prev_metadata = (None, l)"
| "post_insert (Suc fuel) l free_slot_index prev_metadata =
     (case post_insert_round l free_slot_index prev_metadata of
        (Inl r, l) \<Rightarrow> (r, l)
      | (Inr actual, l) \<Rightarrow> post_insert fuel l free_slot_index actual)"

definition leaf_insert ::
  "('k::linorder, 'v) leaf \<Rightarrow> 'k \<Rightarrow> 'v \<Rightarrow> ('k, 'v) insert_result option \<times> ('k, 'v) leaf" where
  "leaf_insert l key val =
     (case leaf_reserve l key val of
        (None, l) \<Rightarrow> (None, l)
      | (Some (Inl r), l) \<Rightarrow> (Some r, l)
      | (Some (Inr (i, interim_metadata)), l) \<Rightarrow> post_insert 1 (leaf_write l i key val) i interim_metadata)"

definition insert_unchecked :: "('k, 'v) leaf \<Rightarrow> 'k \<Rightarrow> 'v \<Rightarrow> nat \<Rightarrow> ('k, 'v) leaf" where
  "insert_unchecked l key val index =
     (leaf_write l index key val)\<lparr>leaf_metadata := augment (leaf_metadata l) index (index + 1)\<rparr>"

section \<open>Removal\<close>

definition others_empty :: "nat \<Rightarrow> u64 \<Rightarrow> bool" where
  "others_empty i metadata =
     (case rank_loop (\<lambda>j r (_ :: unit). if i \<noteq> j \<and> r \<noteq> uninit_rank \<and> r \<noteq> removed_rank then Inl False else Inr ())
             [0..<NUM_ENTRIES] metadata () of
        Inl r \<Rightarrow> r | Inr _ \<Rightarrow> True)"

text \<open>One round of the inner loop of \<^verbatim>\<open>remove_if\<close> for the slot that was found.\<close>

definition remove_round ::
  "('k, 'v) leaf \<Rightarrow> ('v \<Rightarrow> bool) \<Rightarrow> nat \<Rightarrow> u64 \<Rightarrow> (remove_result + u64) \<times> ('k, 'v) leaf" where
  "remove_round l condition i metadata =
     (if \<not> (case value_at l i of Some v \<Rightarrow> condition v | None \<Rightarrow> False) then (Inl Remove_Fail, l)
      else
        let empty = others_empty i metadata;
            new_metadata = metadata OR rank_mask i;
            new_metadata = (if empty then retire new_metadata else new_metadata)
        in case compare_exchange (leaf_metadata l) metadata new_metadata of
             (m, Inr _) \<Rightarrow> (Inl (if empty then Remove_Retired else Remove_Success), l\<lparr>leaf_metadata := m\<rparr>)
           | (m, Inl actual) \<Rightarrow>
               if rank actual i = removed_rank then (Inl Remove_Fail, l)
               else if frozen actual then (Inl Remove_Frozen, l)
               else (Inr actual, l))"

text \<open>The part of \<^verbatim>\<open>remove_if\<close> before that loop: the result, or the slot and the metadata that was read.\<close>

definition remove_find :: "('k::linorder, 'v) leaf \<Rightarrow> 'k \<Rightarrow> remove_result + nat \<times> u64" where
  "remove_find l key =
     (let metadata = leaf_metadata l
      in if frozen metadata then Inl Remove_Frozen
         else case rank_loop (search_body l key) [0..<NUM_ENTRIES] metadata (0, removed_rank) of
                Inl i \<Rightarrow> Inr (i, metadata)
              | Inr _ \<Rightarrow> Inl Remove_Fail)"

definition remove_if ::
  "('k::linorder, 'v) leaf \<Rightarrow> 'k \<Rightarrow> ('v \<Rightarrow> bool) \<Rightarrow> remove_result option \<times> ('k, 'v) leaf" where
  "remove_if l key condition =
     (case remove_find l key of
        Inl r \<Rightarrow> (Some r, l)
      | Inr (i, metadata) \<Rightarrow>
          (case remove_round l condition i metadata of
             (Inl r, l) \<Rightarrow> (Some r, l)
           | (Inr _, l) \<Rightarrow> (None, l)))"

section \<open>Scanning\<close>

definition next_body :: "nat \<Rightarrow> nat \<Rightarrow> nat \<Rightarrow> nat \<Rightarrow> nat \<times> nat \<Rightarrow> nat + (nat \<times> nat)" where
  "next_body index current_entry_rank i r s = (case s of (next_rank, next_index) \<Rightarrow>
     if i \<noteq> index \<and> r \<noteq> uninit_rank \<and> r < next_rank
     then if r = current_entry_rank + 1 then Inl i
          else if r > current_entry_rank then Inr (r, i)
          else Inr s
     else Inr s)"

definition leaf_next :: "nat \<Rightarrow> u64 \<Rightarrow> nat" where
  "leaf_next index metadata =
     (let current_entry_rank = (if index = NUM_ENTRIES then 0 else rank metadata index)
      in if current_entry_rank < NUM_ENTRIES
         then case rank_loop (next_body index current_entry_rank) [0..<NUM_ENTRIES] metadata (removed_rank, NUM_ENTRIES) of
                Inl i \<Rightarrow> i
              | Inr (_, next_index) \<Rightarrow> next_index
         else NUM_ENTRIES)"

record scanner =
  scanner_metadata :: u64
  entry_index :: nat

definition scanner_new :: "('k, 'v) leaf \<Rightarrow> scanner" where
  "scanner_new l = \<lparr>scanner_metadata = leaf_metadata l, entry_index = NUM_ENTRIES\<rparr>"

definition scanner_max_less :: "('k::linorder, 'v) leaf \<Rightarrow> 'k \<Rightarrow> scanner option" where
  "scanner_max_less l key =
     (let metadata = leaf_metadata l; index = max_less l metadata key
      in if index = NUM_ENTRIES then None else Some \<lparr>scanner_metadata = metadata, entry_index = index\<rparr>)"

definition scanner_get :: "('k, 'v) leaf \<Rightarrow> scanner \<Rightarrow> ('k \<times> 'v) option" where
  "scanner_get l sc = (if entry_index sc \<ge> NUM_ENTRIES then None else entry_array l ! entry_index sc)"

definition scanner_proceed :: "scanner \<Rightarrow> scanner" where
  "scanner_proceed sc =
     (if entry_index sc = USIZE_MAX then sc
      else let index = leaf_next (entry_index sc) (scanner_metadata sc)
           in sc\<lparr>entry_index := (if index = NUM_ENTRIES then USIZE_MAX else index)\<rparr>)"

definition scanner_next :: "('k, 'v) leaf \<Rightarrow> scanner \<Rightarrow> ('k \<times> 'v) option \<times> scanner" where
  "scanner_next l sc = (let sc = scanner_proceed sc in (scanner_get l sc, sc))"

text \<open>A loop over the scanner, at most \<open>fuel\<close> entries; it ends when \<^verbatim>\<open>next\<close> returns nothing.\<close>

fun scan :: "nat \<Rightarrow> ('k, 'v) leaf \<Rightarrow> scanner \<Rightarrow> ('k \<times> 'v) list" where
  "scan 0 l sc = []"
| "scan (Suc fuel) l sc =
     (case scanner_next l sc of (None, _) \<Rightarrow> [] | (Some e, sc) \<Rightarrow> e # scan fuel l sc)"

section \<open>Splitting and dropping\<close>

fun boundary_loop :: "nat \<Rightarrow> u64 \<Rightarrow> nat \<Rightarrow> nat \<Rightarrow> nat" where
  "boundary_loop 0 mutable_metadata prev_rank boundary = boundary"
| "boundary_loop (Suc n) mutable_metadata prev_rank boundary =
     (let r = unat (mutable_metadata mod push_bit (num_bits_per_entry DIMENSION) 1);
          mutable_metadata = drop_bit (num_bits_per_entry DIMENSION) mutable_metadata
      in if r \<noteq> 0 \<and> r \<noteq> removed_rank
         then boundary_loop n mutable_metadata r (if prev_rank < r then boundary + 1 else boundary - 1)
         else boundary_loop n mutable_metadata prev_rank boundary)"

definition optimal_boundary :: "u64 \<Rightarrow> nat" where
  "optimal_boundary metadata =
     min (max (boundary_loop NUM_ENTRIES metadata 1 NUM_ENTRIES) (NUM_ENTRIES div 2 + 1))
       (NUM_ENTRIES + NUM_ENTRIES div 2 - 1) - NUM_ENTRIES div 2"

fun distribute ::
  "nat \<Rightarrow> nat \<Rightarrow> ('k \<times> 'v) list \<Rightarrow> ('k, 'v) leaf option \<times> ('k, 'v) leaf option \<Rightarrow>
     ('k, 'v) leaf option \<times> ('k, 'v) leaf option" where
  "distribute boundary i [] leaves = leaves"
| "distribute boundary i ((k, v) # es) (low, high) =
     (let get = (\<lambda>x. case x of None \<Rightarrow> leaf_new | Some l \<Rightarrow> l)
      in distribute boundary (i + 1) es
           (if i < boundary then (Some (insert_unchecked (get low) k v i), high)
            else (low, Some (insert_unchecked (get high) k v (i - boundary)))))"

text \<open>\<^verbatim>\<open>freeze_and_distribute\<close>: \<^term>\<open>None\<close> if the leaf is frozen already, which the code rules out with
  \<^verbatim>\<open>unwrap_unchecked\<close>; otherwise the frozen leaf and the two new leaves.\<close>

definition freeze_and_distribute ::
  "('k, 'v) leaf \<Rightarrow> ('k, 'v) leaf option \<Rightarrow> ('k, 'v) leaf option \<Rightarrow>
     (('k, 'v) leaf \<times> ('k, 'v) leaf option \<times> ('k, 'v) leaf option) option" where
  "freeze_and_distribute l low high =
     (case fetch_update (leaf_metadata l) (\<lambda>p. if frozen p then None else Some (freeze p)) of
        (_, Inl _) \<Rightarrow> None
      | (m, Inr metadata) \<Rightarrow>
          let l = l\<lparr>leaf_metadata := m\<rparr>;
              boundary = optimal_boundary metadata;
              es = scan NUM_ENTRIES l \<lparr>scanner_metadata = metadata, entry_index = NUM_ENTRIES\<rparr>
          in Some (l, distribute boundary 0 es (low, high)))"

definition leaf_drop :: "('k, 'v) leaf \<Rightarrow> ('k \<times> 'v) option list" where
  "leaf_drop l =
     (case rank_loop (\<lambda>i r s. Inr (if r \<noteq> uninit_rank then s @ [leaf_take l i] else s)) [0..<NUM_ENTRIES] (leaf_metadata l) [] of
        Inr s \<Rightarrow> s | Inl (_ :: unit) \<Rightarrow> [])"

end
