(* ===== verification/Leaf_Spec.thy ===== *)
theory Leaf_Spec
  imports Leaf
begin

text \<open>
  A leaf stands for a finite map: the entries of its live slots. The invariant says that the ranks of
  live slots order them by key. The searches, which compare a slot only if its rank lies between two
  bounds, then find what a search over all live slots finds.
\<close>

section \<open>Invariant\<close>

definition live :: "u64 \<Rightarrow> nat \<Rightarrow> bool" where
  "live m i \<longleftrightarrow> i < NUM_ENTRIES \<and> rank m i \<noteq> 0 \<and> rank m i \<noteq> 15"

definition slot_key :: "('k \<times> 'v) option list \<Rightarrow> nat \<Rightarrow> 'k" where
  "slot_key a i = fst (the (a ! i))"

definition slots_ok :: "u64 \<Rightarrow> ('k::linorder \<times> 'v) option list \<Rightarrow> bool" where
  "slots_ok m a \<longleftrightarrow>
     length a = NUM_ENTRIES \<and> (\<forall>i. live m i \<longrightarrow> a ! i \<noteq> None) \<and>
     (\<forall>i j. live m i \<longrightarrow> live m j \<longrightarrow> rank m i < rank m j \<longrightarrow> slot_key a i < slot_key a j) \<and>
     (\<forall>i j. live m i \<longrightarrow> live m j \<longrightarrow> rank m i = rank m j \<longrightarrow> i = j)"

definition used :: "u64 \<Rightarrow> nat" where
  "used m = card {i. i < NUM_ENTRIES \<and> rank m i \<noteq> 0}"

text \<open>The ranks are bounded by the number of slots in use; a slot reserved by a pending insertion does not
  count yet.\<close>

definition ranks_bounded :: "nat \<Rightarrow> u64 \<Rightarrow> bool" where
  "ranks_bounded pending m \<longleftrightarrow> (\<forall>i. live m i \<longrightarrow> rank m i + pending \<le> used m)"

definition slots_map :: "u64 \<Rightarrow> ('k \<times> 'v) option list \<Rightarrow> 'k \<rightharpoonup> 'v" where
  "slots_map m a = map_of (map (\<lambda>i. the (a ! i)) (filter (live m) [0..<NUM_ENTRIES]))"

definition leaf_map :: "('k, 'v) leaf \<Rightarrow> 'k \<rightharpoonup> 'v" where
  "leaf_map l = slots_map (leaf_metadata l) (entry_array l)"

definition leaf_ok :: "('k::linorder, 'v) leaf \<Rightarrow> bool" where
  "leaf_ok l \<longleftrightarrow> slots_ok (leaf_metadata l) (entry_array l) \<and> ranks_bounded 0 (leaf_metadata l) \<and>
     (\<forall>i<NUM_ENTRIES. rank (leaf_metadata l) i \<noteq> 0 \<longrightarrow> entry_array l ! i \<noteq> None) \<and>
     (retired (leaf_metadata l) \<longrightarrow> (\<forall>i. \<not> live (leaf_metadata l) i))"

lemma live_less: "live m i \<Longrightarrow> i < 14" and live_rank: "live m i \<Longrightarrow> 0 < rank m i" "live m i \<Longrightarrow> rank m i < 15"
  using rank_le [of m i] by (auto simp: live_def simp del: rank_le)

lemma liveI: "i < 14 \<Longrightarrow> a < rank m i \<Longrightarrow> rank m i < b \<Longrightarrow> b \<le> 15 \<Longrightarrow> live m i"
  by (simp add: live_def)

lemma used_le: "used m \<le> 14"
proof -
  have "{i. i < 14 \<and> rank m i \<noteq> 0} \<subseteq> {..<14}" by auto
  then have "card {i. i < 14 \<and> rank m i \<noteq> 0} \<le> card {..<14 :: nat}" by (intro card_mono) auto
  then show ?thesis by (simp add: used_def)
qed

lemma slots_okD:
  assumes "slots_ok m a"
  shows "length a = 14" "live m i \<Longrightarrow> \<exists>k v. a ! i = Some (k, v)"
    "live m i \<Longrightarrow> live m j \<Longrightarrow> rank m i = rank m j \<Longrightarrow> i = j"
    "live m i \<Longrightarrow> live m j \<Longrightarrow> rank m i < rank m j \<longleftrightarrow> slot_key a i < slot_key a j"
    "live m i \<Longrightarrow> live m j \<Longrightarrow> slot_key a i = slot_key a j \<Longrightarrow> i = j"
proof -
  show "length a = 14" "live m i \<Longrightarrow> \<exists>k v. a ! i = Some (k, v)"
    and eq: "live m i \<Longrightarrow> live m j \<Longrightarrow> rank m i = rank m j \<Longrightarrow> i = j" for i j
    using assms by (auto simp: slots_ok_def)
  have lt: "live m i \<Longrightarrow> live m j \<Longrightarrow> rank m i < rank m j \<Longrightarrow> slot_key a i < slot_key a j" for i j
    using assms by (simp add: slots_ok_def)
  show "live m i \<Longrightarrow> live m j \<Longrightarrow> rank m i < rank m j \<longleftrightarrow> slot_key a i < slot_key a j" for i j
    using lt [of i j] lt [of j i] eq [of i j] by (metis linorder_neqE_nat order_less_asym order_less_irrefl)
  show "live m i \<Longrightarrow> live m j \<Longrightarrow> slot_key a i = slot_key a j \<Longrightarrow> i = j" for i j
    using lt [of i j] lt [of j i] eq [of i j] by (metis linorder_neqE_nat order_less_irrefl)
qed

lemma slots_map_Some_iff:
  assumes "slots_ok m a"
  shows "slots_map m a k = Some v \<longleftrightarrow> (\<exists>i. live m i \<and> a ! i = Some (k, v))"
proof -
  let ?is = "filter (live m) [0..<14]"
  have "inj_on (\<lambda>i. slot_key a i) (set ?is)" using slots_okD(5) [OF assms] by (auto intro: inj_onI)
  then have "distinct (map fst (map (\<lambda>i. the (a ! i)) ?is))" by (simp add: distinct_map slot_key_def comp_def)
  then have "slots_map m a k = Some v \<longleftrightarrow> (k, v) \<in> set (map (\<lambda>i. the (a ! i)) ?is)"
    by (simp add: slots_map_def map_of_eq_Some_iff)
  also have "\<dots> \<longleftrightarrow> (\<exists>i. live m i \<and> a ! i = Some (k, v))"
    using slots_okD(2) [OF assms] live_less by (fastforce simp: image_iff)
  finally show ?thesis .
qed

lemma slots_map_eqI:
  assumes "slots_ok m a" "\<And>k v. f k = Some v \<longleftrightarrow> (\<exists>i. live m i \<and> a ! i = Some (k, v))"
  shows "slots_map m a = f"
proof
  fix k
  show "slots_map m a k = f k" using slots_map_Some_iff [OF assms(1), of k] assms(2) [of k] by (metis not_None_eq)
qed

lemma slots_map_None_iff: "slots_ok m a \<Longrightarrow> slots_map m a k = None \<longleftrightarrow> (\<forall>i. live m i \<longrightarrow> slot_key a i \<noteq> k)"
  using slots_map_Some_iff [of m a k] slots_okD(2) [of m a]
  by (metis fst_conv not_None_eq option.sel slot_key_def)

lemma slots_map_empty_iff: "slots_ok m a \<Longrightarrow> slots_map m a = Map.empty \<longleftrightarrow> (\<forall>i. \<not> live m i)"
  unfolding fun_eq_iff using slots_map_None_iff [of m a] by blast

lemma compare_at_live:
  assumes "slots_ok m (entry_array l)" "live m i"
  shows "compare_at l i key = compare_keys (slot_key (entry_array l) i) key"
  using slots_okD(2) [OF assms] by (auto simp: compare_at_def key_at_def slot_key_def)

section \<open>Searches\<close>

lemma search_body_zero: "search_body l key i 0 s = Inr s"
  by (simp add: search_body_def split: prod.split)

lemma search_slot_iff:
  assumes ok: "slots_ok m (entry_array l)"
  shows "search_slot l key m = Some i \<longleftrightarrow> live m i \<and> slot_key (entry_array l) i = key"
    "search_slot l key m = None \<longleftrightarrow> (\<forall>i. live m i \<longrightarrow> slot_key (entry_array l) i \<noteq> key)"
proof -
  let ?key = "slot_key (entry_array l)"
  define P where "P = (\<lambda>n (lo, hi). hi \<le> 15 \<and>
      (\<forall>t. live m t \<longrightarrow> ?key t = key \<longrightarrow> n \<le> t \<and> lo < rank m t \<and> rank m t < hi))"
  define Q where "Q = (\<lambda>i. live m i \<and> ?key i = key)"
  have "case rank_iter (search_body l key) (rank m) [0..<14] (0, 15) of Inl r \<Rightarrow> Q r | Inr s \<Rightarrow> P 14 s"
  proof (rule rank_iter_invariant)
    show "P 0 (0, 15)" using live_rank by (auto simp: P_def)
  next
    fix n s assume n: "n < 14" and P: "P n s"
    obtain lo hi where s: "s = (lo, hi)" by (cases s)
    show "case search_body l key n (rank m n) s of Inl r \<Rightarrow> Q r | Inr s \<Rightarrow> P (Suc n) s"
    proof (cases "lo < rank m n \<and> rank m n < hi")
      case False
      then have "live m t \<longrightarrow> ?key t = key \<longrightarrow> t \<noteq> n" for t using P s by (auto simp: P_def)
      then have "P (Suc n) s" using P s by (fastforce simp: P_def Suc_le_eq le_less)
      then show ?thesis using False s by (auto simp: search_body_def)
    next
      case True
      have ln: "live m n" using liveI [OF n] True P s by (auto simp: P_def)
      note c = compare_at_live [OF ok ln, of key]
      have o: "live m t \<Longrightarrow> ?key t = key \<Longrightarrow> (rank m n < rank m t \<longleftrightarrow> ?key n < key) \<and> (rank m t < rank m n \<longleftrightarrow> key < ?key n)" for t
        using slots_okD(4) [OF ok ln, of t] slots_okD(4) [OF ok _ ln, of t] by auto
      have d: "?key n \<noteq> key \<Longrightarrow> live m t \<Longrightarrow> ?key t = key \<Longrightarrow> n \<le> t \<Longrightarrow> Suc n \<le> t" for t
        by (cases "t = n") auto
      show ?thesis
        using True P s ln c o d by (auto simp: search_body_def compare_keys_def P_def Q_def split: if_splits)
    qed
  qed simp
  then have r: "case search_slot l key m of Some i \<Rightarrow> Q i | None \<Rightarrow> P 14 (0, 15) \<or> (\<exists>s. P 14 s)"
    using rank_loop_ranks [of "search_body l key", OF search_body_zero, of 14 m "(0, 15)"]
    by (auto simp: search_slot_def split: sum.splits)
  have none: "P 14 s \<Longrightarrow> live m t \<Longrightarrow> ?key t \<noteq> key" for s t using live_less [of m t] by (cases s) (force simp: P_def)
  show "search_slot l key m = None \<longleftrightarrow> (\<forall>i. live m i \<longrightarrow> ?key i \<noteq> key)"
    using r none by (auto simp: Q_def split: option.splits)
  show "search_slot l key m = Some i \<longleftrightarrow> live m i \<and> ?key i = key"
    using r none slots_okD(5) [OF ok] by (auto simp: Q_def split: option.splits)
qed

lemma leaf_search_ok:
  assumes ok: "slots_ok (leaf_metadata l) (entry_array l)"
  shows "leaf_search l key = leaf_map l key"
proof (cases "search_slot l key (leaf_metadata l)")
  case None
  then have "slots_map (leaf_metadata l) (entry_array l) key = None"
    using search_slot_iff(2) [OF ok, of key] slots_map_None_iff [OF ok, of key] by simp
  then show ?thesis using None by (simp add: leaf_search_def leaf_map_def)
next
  case (Some i)
  then have i: "live (leaf_metadata l) i" "slot_key (entry_array l) i = key" using search_slot_iff(1) [OF ok] by blast+
  obtain k v where kv: "entry_array l ! i = Some (k, v)" using slots_okD(2) [OF ok i(1)] by blast
  then have "slots_map (leaf_metadata l) (entry_array l) key = Some v"
    using i slots_map_Some_iff [OF ok] by (auto simp: slot_key_def)
  then show ?thesis using Some kv by (simp add: leaf_search_def leaf_map_def value_at_def)
qed

lemma max_less_ok:
  fixes key :: "'k::linorder"
  assumes ok: "slots_ok m (entry_array l)"
  defines "j \<equiv> max_less l m key"
  shows "j = 14 \<and> (\<forall>t. live m t \<longrightarrow> \<not> slot_key (entry_array l) t < key) \<or>
    live m j \<and> slot_key (entry_array l) j < key \<and>
    (\<forall>t. live m t \<longrightarrow> slot_key (entry_array l) t < key \<longrightarrow> slot_key (entry_array l) t \<le> slot_key (entry_array l) j)"
proof -
  let ?key = "slot_key (entry_array l)"
  define P where "P = (\<lambda>n (lo, hi, idx). hi \<le> 15 \<and> (\<forall>t. live m t \<longrightarrow> ?key t < key \<longrightarrow> rank m t < hi \<and> (t < n \<longrightarrow> rank m t \<le> lo)) \<and>
      (lo = 0 \<and> idx = 14 \<or> live m idx \<and> ?key idx < key \<and> rank m idx = lo))"
  have "case rank_iter (max_less_body l key) (rank m) [0..<14] (0, 15, 14) of Inl r \<Rightarrow> False | Inr s \<Rightarrow> P 14 s"
  proof (rule rank_iter_invariant)
    show "P 0 (0, 15, 14)" using live_rank by (auto simp: P_def)
  next
    fix n s assume n: "n < 14" and P: "P n s"
    obtain lo hi idx where s: "s = (lo, hi, idx)" by (cases s)
    show "case max_less_body l key n (rank m n) s of Inl r \<Rightarrow> False | Inr s \<Rightarrow> P (Suc n) s"
    proof (cases "lo < rank m n \<and> rank m n < hi")
      case False
      have "live m n \<Longrightarrow> ?key n < key \<Longrightarrow> rank m n \<le> lo" using False P s by (auto simp: P_def)
      then have "P (Suc n) s" using P s by (auto simp: P_def less_Suc_eq)
      then show ?thesis using False s by (auto simp: max_less_body_def)
    next
      case True
      have ln: "live m n" using liveI [OF n] True P s by (auto simp: P_def)
      note c = compare_at_live [OF ok ln, of key]
      have o: "live m t \<Longrightarrow> ?key t < key \<Longrightarrow> key \<le> ?key n \<Longrightarrow> rank m t < rank m n" for t
        using slots_okD(4) [OF ok _ ln, of t] by auto
      show ?thesis
        using True P s ln c o by (auto simp: max_less_body_def compare_keys_def P_def less_Suc_eq split: if_splits)
    qed
  qed simp
  moreover have "\<And>i s. max_less_body l key i 0 s = Inr s" by (simp add: max_less_body_def split: prod.split)
  ultimately obtain lo hi where "P 14 (lo, hi, j)"
    using rank_loop_ranks [of "max_less_body l key" 14 m "(0, 15, 14)"] by (auto simp: j_def max_less_def split: sum.splits)
  then have e: "lo = 0 \<and> j = 14 \<or> live m j \<and> ?key j < key \<and> rank m j = lo"
    and b: "\<And>t. live m t \<Longrightarrow> ?key t < key \<Longrightarrow> rank m t \<le> lo" using live_less by (auto simp: P_def)
  show ?thesis
  proof (cases "lo = 0 \<and> j = 14")
    case True
    then show ?thesis using b live_rank(1) by (metis leD)
  next
    case False
    then show ?thesis using e b slots_okD(4) [OF ok, of j] by (metis leD leI)
  qed
qed

lemma min_greater_equal_ok:
  assumes ok: "slots_ok (leaf_metadata l) (entry_array l)"
  shows "snd (min_greater_equal l key) = leaf_metadata l"
    "case fst (min_greater_equal l key) of
       None \<Rightarrow> (\<forall>k\<in>dom (leaf_map l). k < key)
     | Some (k, v) \<Rightarrow> leaf_map l k = Some v \<and> key \<le> k \<and> (\<forall>k'\<in>dom (leaf_map l). key \<le> k' \<longrightarrow> k \<le> k')"
proof -
  let ?key = "slot_key (entry_array l)" and ?m = "leaf_metadata l"
  show "snd (min_greater_equal l key) = leaf_metadata l"
    by (simp add: min_greater_equal_def split: sum.split prod.split)
  define P where "P = (\<lambda>n (lo, hi, idx). hi \<le> 15 \<and>
      (\<forall>t. live ?m t \<longrightarrow> key \<le> ?key t \<longrightarrow> lo < rank ?m t \<and> (t < n \<longrightarrow> hi \<le> rank ?m t)) \<and>
      (\<forall>t. live ?m t \<longrightarrow> ?key t = key \<longrightarrow> n \<le> t \<and> rank ?m t < hi) \<and>
      (hi = 15 \<and> idx = 14 \<or> live ?m idx \<and> key < ?key idx \<and> rank ?m idx = hi))"
  define Q where "Q = (\<lambda>i. live ?m i \<and> ?key i = key)"
  have r: "case rank_iter (min_greater_equal_body l key) (rank ?m) [0..<14] (0, 15, 14) of Inl r \<Rightarrow> Q r | Inr s \<Rightarrow> P 14 s"
  proof (rule rank_iter_invariant)
    show "P 0 (0, 15, 14)" using live_rank by (auto simp: P_def)
  next
    fix n s assume n: "n < 14" and P: "P n s"
    obtain lo hi idx where s: "s = (lo, hi, idx)" by (cases s)
    show "case min_greater_equal_body l key n (rank ?m n) s of Inl r \<Rightarrow> Q r | Inr s \<Rightarrow> P (Suc n) s"
    proof (cases "lo < rank ?m n \<and> rank ?m n < hi")
      case False
      have "live ?m n \<Longrightarrow> key \<le> ?key n \<Longrightarrow> hi \<le> rank ?m n" using False P s by (auto simp: P_def)
      moreover have "live ?m t \<longrightarrow> ?key t = key \<longrightarrow> n < t" for t
        using False P s by (cases "t = n") (auto simp: P_def order_le_less)
      ultimately have "P (Suc n) s" using P s by (auto simp: P_def less_Suc_eq Suc_le_eq)
      then show ?thesis using False s by (auto simp: min_greater_equal_body_def)
    next
      case True
      have ln: "live ?m n" using liveI [OF n] True P s by (auto simp: P_def)
      note c = compare_at_live [OF ok ln, of key]
      have o: "live ?m t \<Longrightarrow> key \<le> ?key t \<Longrightarrow> ?key n < key \<Longrightarrow> rank ?m n < rank ?m t"
        "live ?m t \<Longrightarrow> ?key t = key \<Longrightarrow> key < ?key n \<Longrightarrow> rank ?m t < rank ?m n" for t
        using slots_okD(4) [OF ok ln, of t] slots_okD(4) [OF ok _ ln, of t] by auto
      have d: "?key n \<noteq> key \<Longrightarrow> live ?m t \<Longrightarrow> ?key t = key \<Longrightarrow> n \<le> t \<Longrightarrow> Suc n \<le> t" for t
        by (cases "t = n") auto
      show ?thesis
        using True P s ln c o d
        by (auto simp: min_greater_equal_body_def compare_keys_def P_def Q_def less_Suc_eq split: if_splits)
    qed
  qed simp
  have "\<And>i s. min_greater_equal_body l key i 0 s = Inr s" by (simp add: min_greater_equal_body_def split: prod.split)
  note loop = rank_loop_ranks [of "min_greater_equal_body l key", OF this, of 14 ?m "(0, 15, 14)"]
  have dom: "k \<in> dom (leaf_map l) \<longleftrightarrow> (\<exists>i. live ?m i \<and> ?key i = k)" for k
    using slots_map_None_iff [OF ok, of k] by (auto simp: leaf_map_def dom_def)
  have ent: "live ?m i \<Longrightarrow> \<exists>v. entry_array l ! i = Some (?key i, v) \<and> leaf_map l (?key i) = Some v" for i
    using slots_okD(2) [OF ok, of i] slots_map_Some_iff [OF ok] by (fastforce simp: leaf_map_def slot_key_def)
  show "case fst (min_greater_equal l key) of
       None \<Rightarrow> (\<forall>k\<in>dom (leaf_map l). k < key)
     | Some (k, v) \<Rightarrow> leaf_map l k = Some v \<and> key \<le> k \<and> (\<forall>k'\<in>dom (leaf_map l). key \<le> k' \<longrightarrow> k \<le> k')"
  proof (cases "rank_loop (min_greater_equal_body l key) [0..<14] ?m (0, 15, 14)")
    case (Inl i)
    then have i: "live ?m i" "?key i = key" using r [folded loop] by (simp_all add: Q_def)
    obtain v where "entry_array l ! i = Some (key, v)" "leaf_map l key = Some v" using ent [OF i(1)] i(2) by auto
    then show ?thesis using Inl by (simp add: min_greater_equal_def)
  next
    case (Inr s)
    obtain lo hi idx where s: "s = (lo, hi, idx)" by (cases s)
    have P: "P 14 (lo, hi, idx)" using r [folded loop] Inr s by simp
    have g: "live ?m t \<Longrightarrow> key \<le> ?key t \<Longrightarrow> hi \<le> rank ?m t" for t using P live_less [of ?m t] by (simp add: P_def)
    show ?thesis
    proof (cases "idx = 14")
      case True
      then have "hi = 15" using P by (auto simp: P_def live_def)
      then have "live ?m t \<Longrightarrow> ?key t < key" for t using g [of t] live_rank(2) [of ?m t] by (metis not_le not_less)
      then have "\<forall>k\<in>dom (leaf_map l). k < key" using dom by metis
      then show ?thesis using True Inr s by (simp add: min_greater_equal_def)
    next
      case False
      then have i: "live ?m idx" "key < ?key idx" "rank ?m idx = hi" using P by (auto simp: P_def)
      obtain v where v: "entry_array l ! idx = Some (?key idx, v)" "leaf_map l (?key idx) = Some v" using ent [OF i(1)] by blast
      have "live ?m t \<Longrightarrow> key \<le> ?key t \<Longrightarrow> ?key idx \<le> ?key t" for t
        using g [of t] slots_okD(4) [OF ok _ i(1), of t] i(3) by (metis not_le not_less)
      then have "\<forall>k'\<in>dom (leaf_map l). key \<le> k' \<longrightarrow> ?key idx \<le> k'" using dom by metis
      then show ?thesis using False Inr s v i(2) by (simp add: min_greater_equal_def)
    qed
  qed
qed

lemma max_entry_ok:
  assumes ok: "slots_ok (leaf_metadata l) (entry_array l)"
  shows "case max_entry l of
       None \<Rightarrow> leaf_map l = Map.empty
     | Some (k, v) \<Rightarrow> leaf_map l k = Some v \<and> (\<forall>k'\<in>dom (leaf_map l). k' \<le> k)"
proof -
  let ?key = "slot_key (entry_array l)" and ?m = "leaf_metadata l"
  define P where "P = (\<lambda>n (mr, mi). (\<forall>t<n. live ?m t \<longrightarrow> rank ?m t \<le> mr) \<and> (mr = 0 \<and> mi = 14 \<or> live ?m mi \<and> rank ?m mi = mr))"
  have r: "case rank_iter max_entry_body (rank ?m) [0..<14] (0, 14) of Inl r \<Rightarrow> False | Inr s \<Rightarrow> P 14 s"
  proof (rule rank_iter_invariant)
    show "P 0 (0, 14)" by (simp add: P_def)
  next
    fix n s assume n: "n < 14" and P: "P n s"
    then show "case max_entry_body n (rank ?m n) s of Inl r \<Rightarrow> False | Inr s \<Rightarrow> P (Suc n) s"
      by (cases s) (auto simp: max_entry_body_def P_def less_Suc_eq live_def)
  qed simp
  have "\<And>i s. max_entry_body i 0 s = Inr s" by (simp add: max_entry_body_def split: prod.split)
  note loop = rank_loop_ranks [of max_entry_body, OF this, of 14 ?m "(0, 14)"]
  obtain mr mi where P: "rank_loop max_entry_body [0..<14] ?m (0, 14) = Inr (mr, mi)" "P 14 (mr, mi)"
    using r [folded loop] by (auto split: sum.splits)
  have b: "live ?m t \<Longrightarrow> rank ?m t \<le> mr" for t using P(2) live_less [of ?m t] by (simp add: P_def)
  show ?thesis
  proof (cases "mi = 14")
    case True
    then have "mr = 0" using P(2) by (auto simp: P_def live_def)
    then have "\<not> live ?m t" for t using b [of t] live_rank(1) [of ?m t] by auto
    then have "leaf_map l = Map.empty" using slots_map_Some_iff [OF ok] by (fastforce simp: leaf_map_def)
    then show ?thesis using P(1) True by (simp add: max_entry_def)
  next
    case False
    then have i: "live ?m mi" "rank ?m mi = mr" using P(2) by (auto simp: P_def)
    obtain k v where kv: "entry_array l ! mi = Some (k, v)" using slots_okD(2) [OF ok i(1)] by blast
    have k: "?key mi = k" using kv by (simp add: slot_key_def)
    have "?key t \<le> k" if "live ?m t" for t using b [OF that] slots_okD(4) [OF ok i(1) that] i(2) k by (metis not_le)
    moreover have "leaf_map l k = Some v" using kv i(1) slots_map_Some_iff [OF ok] by (auto simp: leaf_map_def)
    moreover have "k' \<in> dom (leaf_map l) \<Longrightarrow> \<exists>t. live ?m t \<and> ?key t = k'" for k'
      using slots_map_None_iff [OF ok, of k'] by (auto simp: leaf_map_def)
    ultimately show ?thesis using P(1) False kv by (auto simp: max_entry_def)
  qed
qed

lemma rank_search:
  "rank_iter (\<lambda>i r (_ :: unit). if p i r then Inl False else Inr ()) rk is () = (if \<exists>i\<in>set is. p i (rk i) then Inl False else Inr ())"
  by (induction "is") auto

lemma others_empty_iff: "others_empty i m \<longleftrightarrow> (\<forall>j. live m j \<longrightarrow> j = i)"
  unfolding others_empty_def
  by (subst rank_loop_ranks) (auto simp: rank_search live_def)

lemma leaf_is_empty_iff:
  assumes "slots_ok (leaf_metadata l) (entry_array l)"
  shows "leaf_is_empty l \<longleftrightarrow> leaf_map l = Map.empty"
proof -
  have "leaf_is_empty l \<longleftrightarrow> (\<forall>j. \<not> live (leaf_metadata l) j)"
    unfolding leaf_is_empty_def by (subst rank_loop_ranks) (auto simp: rank_search live_def)
  also have "\<dots> \<longleftrightarrow> leaf_map l = Map.empty"
    using slots_map_Some_iff [OF assms] slots_okD(2) [OF assms] by (fastforce simp: leaf_map_def)
  finally show ?thesis .
qed

section \<open>Scanning\<close>

definition rank_at :: "u64 \<Rightarrow> nat \<Rightarrow> nat" where
  "rank_at m i = (if i = 14 then 0 else rank m i)"

lemma leaf_next_ok:
  assumes i: "i = 14 \<or> live m i"
  defines "j \<equiv> leaf_next i m"
  shows "j = 14 \<and> (\<forall>t. live m t \<longrightarrow> rank m t \<le> rank_at m i) \<or>
    live m j \<and> rank_at m i < rank m j \<and> (\<forall>t. live m t \<longrightarrow> rank_at m i < rank m t \<longrightarrow> rank m j \<le> rank m t)"
proof (cases "rank_at m i < 14")
  case False
  then have "rank m t \<le> rank_at m i" if "live m t" for t using live_rank(2) [OF that] by simp
  then show ?thesis using False by (auto simp: j_def leaf_next_def rank_at_def)
next
  case True
  let ?c = "rank_at m i"
  define P where "P = (\<lambda>n (nr, ni). nr \<le> 15 \<and> (\<forall>t<n. live m t \<longrightarrow> ?c < rank m t \<longrightarrow> nr \<le> rank m t) \<and>
     (nr = 15 \<and> ni = 14 \<or> live m ni \<and> rank m ni = nr \<and> ?c < nr))"
  define Q where "Q = (\<lambda>j. live m j \<and> rank m j = ?c + 1)"
  have r: "case rank_iter (next_body i ?c) (rank m) [0..<14] (15, 14) of Inl r \<Rightarrow> Q r | Inr s \<Rightarrow> P 14 s"
  proof (rule rank_iter_invariant)
    show "P 0 (15, 14)" by (simp add: P_def)
  next
    fix n s assume n: "n < 14" and P: "P n s"
    have "n = i \<Longrightarrow> rank m n = ?c" using n by (simp add: rank_at_def)
    then show "case next_body i ?c n (rank m n) s of Inl r \<Rightarrow> Q r | Inr s \<Rightarrow> P (Suc n) s"
      using n P by (cases s) (auto simp: next_body_def P_def Q_def less_Suc_eq live_def)
  qed simp
  have "\<And>k s. next_body i ?c k 0 s = Inr s" by (simp add: next_body_def split: prod.split)
  note loop = rank_loop_ranks [of "next_body i ?c", OF this, of 14 m "(15, 14)"]
  have j: "j = (case rank_loop (next_body i ?c) [0..<14] m (15, 14) of Inl i \<Rightarrow> i | Inr (_, k) \<Rightarrow> k)"
    using True by (simp add: j_def leaf_next_def rank_at_def)
  show ?thesis
  proof (cases "rank_loop (next_body i ?c) [0..<14] m (15, 14)")
    case (Inl a)
    then show ?thesis using r [folded loop] j by (auto simp: Q_def)
  next
    case (Inr s)
    then show ?thesis using r [folded loop] j live_less live_rank(2) by (cases s) (fastforce simp: P_def)
  qed
qed

end
