(* ===== verification/Leaf_Insert.thy ===== *)
theory Leaf_Insert
  imports Leaf_Spec
begin

text \<open>Insertion into and removal from a leaf, one exchange of the metadata at a time.\<close>

section \<open>Reserving a slot\<close>

lemma first_uninit_from:
  "first_uninit [a..<b] (drop_bit (a * 4) m) = List.find (\<lambda>i. rank m i = 0) [a..<b]"
proof (induction "b - a" arbitrary: a)
  case (Suc n)
  have u: "[a..<b] = a # [Suc a..<b]" using Suc(2) by (simp add: upt_rec)
  have "first_uninit [Suc a..<b] (drop_bit (Suc a * 4) m) = List.find (\<lambda>i. rank m i = 0) [Suc a..<b]"
    using Suc by (intro Suc(1)) simp
  then show ?case unfolding u by (simp add: rank_def drop_bit_drop_bit add.commute)
qed simp

lemma first_uninit_find: "first_uninit [0..<14] m = List.find (\<lambda>i. rank m i = 0) [0..<14]"
  using first_uninit_from [of 0 14 m] by simp

lemma first_uninit_Some: "first_uninit [0..<14] m = Some i \<Longrightarrow> i < 14 \<and> rank m i = 0"
  unfolding first_uninit_find find_upt_Some_iff by simp

lemma first_uninit_None: "first_uninit [0..<14] m = None \<Longrightarrow> i < 14 \<Longrightarrow> rank m i \<noteq> 0"
  unfolding first_uninit_find find_upt_None_iff by simp

text \<open>Marking a slot that is not live as removed, or the reverse, changes no live slot.\<close>

lemma live_augment_removed:
  "i < 14 \<Longrightarrow> \<not> live m i \<Longrightarrow> live (augment m i 15) = live m"
  "i < 14 \<Longrightarrow> \<not> live m i \<Longrightarrow> live (augment m i 0) = live m"
  by (auto simp: live_def rank_augment fun_eq_iff split: if_splits)

lemma rank_augment_live: "i < 14 \<Longrightarrow> \<not> live m i \<Longrightarrow> r < 16 \<Longrightarrow> live m j \<Longrightarrow> rank (augment m i r) j = rank m j"
  by (auto simp: rank_augment live_def)

lemma slots_ok_same:
  assumes "slots_ok m a" "live m' = live m" "\<And>i. live m i \<Longrightarrow> rank m' i = rank m i"
    and "length b = 14" "\<And>i. live m i \<Longrightarrow> b ! i = a ! i"
  shows "slots_ok m' b" "slots_map m' b = slots_map m a"
proof -
  show ok: "slots_ok m' b" using assms by (simp add: slots_ok_def slot_key_def)
  show "slots_map m' b = slots_map m a"
    using slots_map_Some_iff [OF assms(1)] assms(2,5) by (intro slots_map_eqI [OF ok]) (metis (no_types, lifting))
qed

lemma used_augment:
  assumes i: "i < 14" and r: "r < 16"
  shows "rank m i = 0 \<Longrightarrow> r \<noteq> 0 \<Longrightarrow> used (augment m i r) = Suc (used m)"
    "rank m i \<noteq> 0 \<Longrightarrow> r \<noteq> 0 \<Longrightarrow> used (augment m i r) = used m"
    "rank m i \<noteq> 0 \<Longrightarrow> used (augment m i 0) = used m - 1"
proof -
  let ?U = "{j. j < 14 \<and> rank m j \<noteq> 0}"
  have fin: "finite ?U" by simp
  have "rank m i = 0 \<Longrightarrow> r \<noteq> 0 \<Longrightarrow> {j. j < 14 \<and> rank (augment m i r) j \<noteq> 0} = insert i ?U"
    using i r by (auto simp: rank_augment split: if_splits)
  then show "rank m i = 0 \<Longrightarrow> r \<noteq> 0 \<Longrightarrow> used (augment m i r) = Suc (used m)" using fin by (simp add: used_def)
  have "rank m i \<noteq> 0 \<Longrightarrow> r \<noteq> 0 \<Longrightarrow> {j. j < 14 \<and> rank (augment m i r) j \<noteq> 0} = ?U"
    using i r by (auto simp: rank_augment split: if_splits)
  then show "rank m i \<noteq> 0 \<Longrightarrow> r \<noteq> 0 \<Longrightarrow> used (augment m i r) = used m" by (simp add: used_def)
  have "{j. j < 14 \<and> rank (augment m i 0) j \<noteq> 0} = ?U - {i}" using i by (auto simp: rank_augment split: if_splits)
  then show "rank m i \<noteq> 0 \<Longrightarrow> used (augment m i 0) = used m - 1" using i by (simp add: used_def)
qed

section \<open>Making the entry reachable\<close>

text \<open>What the loop of \<^verbatim>\<open>post_insert\<close> computes: whether the key is live, and otherwise the greatest rank of a
  smaller key and the metadata in which the ranks of greater keys are one higher.\<close>

lemma post_insert_loop:
  fixes key :: "'k::linorder"
  assumes ok: "slots_ok m (entry_array l)"
  defines "loop \<equiv> rank_loop (post_insert_body l key) [0..<14] m (0, 15, m)"
  shows "loop = Inl () \<longleftrightarrow> (\<exists>t. live m t \<and> slot_key (entry_array l) t = key)"
    "loop = Inr (lo, hi, new) \<Longrightarrow>
       (\<forall>t. live m t \<longrightarrow> slot_key (entry_array l) t < key \<longrightarrow> rank m t \<le> lo) \<and>
       (lo = 0 \<or> (\<exists>t. live m t \<and> slot_key (entry_array l) t < key \<and> rank m t = lo)) \<and>
       (\<forall>t<14. rank new t = (if live m t \<and> key < slot_key (entry_array l) t then rank m t + 1 else rank m t)) \<and>
       frozen new = frozen m \<and> retired new = retired m"
proof -
  let ?key = "slot_key (entry_array l)"
  let ?up = "\<lambda>n t. rank m t + (if t < n \<and> live m t \<and> key < ?key t then 1 else 0)"
  define P where "P = (\<lambda>n (lo, hi, new). hi \<le> 15 \<and>
      (\<forall>t. live m t \<longrightarrow> ?key t = key \<longrightarrow> n \<le> t \<and> lo < rank m t \<and> rank m t < hi) \<and>
      (\<forall>t<n. live m t \<longrightarrow> ?key t < key \<longrightarrow> rank m t \<le> lo) \<and> (lo = 0 \<or> (\<exists>t. live m t \<and> ?key t < key \<and> rank m t = lo)) \<and>
      (\<forall>t<n. live m t \<longrightarrow> key < ?key t \<longrightarrow> hi \<le> rank m t) \<and> (hi = 15 \<or> (\<exists>t<n. live m t \<and> key < ?key t \<and> rank m t = hi)) \<and>
      (\<forall>t<14. rank new t = ?up n t) \<and> frozen new = frozen m \<and> retired new = retired m)"
  define Q where "Q = (\<lambda>_ :: unit. \<exists>t. live m t \<and> ?key t = key)"
  have "case rank_iter (post_insert_body l key) (rank m) [0..<14] (0, 15, m) of Inl r \<Rightarrow> Q r | Inr s \<Rightarrow> P 14 s"
  proof (rule rank_iter_invariant)
    show "P 0 (0, 15, m)" using live_rank by (auto simp: P_def)
  next
    fix n s assume n: "n < 14" and P: "P n s"
    obtain lo hi new where s: "s = (lo, hi, new)" by (cases s)
    have PI: "P (Suc n) (lo, hi, new)"
      if "hi \<le> 15" "\<And>t. live m t \<Longrightarrow> ?key t = key \<Longrightarrow> n \<noteq> t \<and> n \<le> t \<and> lo < rank m t \<and> rank m t < hi"
        "\<And>t. t < n \<or> t = n \<Longrightarrow> live m t \<Longrightarrow> ?key t < key \<Longrightarrow> rank m t \<le> lo"
        "lo = 0 \<or> (\<exists>t. live m t \<and> ?key t < key \<and> rank m t = lo)"
        "\<And>t. t < n \<or> t = n \<Longrightarrow> live m t \<Longrightarrow> key < ?key t \<Longrightarrow> hi \<le> rank m t"
        "hi = 15 \<or> (\<exists>t. (t < n \<or> t = n) \<and> live m t \<and> key < ?key t \<and> rank m t = hi)"
        "\<And>t. t < 14 \<Longrightarrow> rank new t = ?up (Suc n) t" "frozen new = frozen m" "retired new = retired m" for lo hi new
      unfolding P_def prod.case
    proof (intro conjI allI impI)
      show "hi = 15 \<or> (\<exists>t<Suc n. live m t \<and> key < ?key t \<and> rank m t = hi)" using that(6) unfolding less_Suc_eq .
      fix t
      show "Suc n \<le> t" if "live m t" "?key t = key" using \<open>\<And>t. live m t \<Longrightarrow> ?key t = key \<Longrightarrow> _ t\<close> [OF that] by simp
    qed (use that in \<open>simp_all add: less_Suc_eq\<close>)
    have hi: "hi \<le> 15" and eq: "\<And>t. live m t \<Longrightarrow> ?key t = key \<Longrightarrow> n \<le> t \<and> lo < rank m t \<and> rank m t < hi"
      and lo: "lo = 0 \<or> (\<exists>t. live m t \<and> ?key t < key \<and> rank m t = lo)"
      and top: "hi = 15 \<or> (\<exists>t<n. live m t \<and> key < ?key t \<and> rank m t = hi)"
      and below: "\<And>t. t < n \<Longrightarrow> live m t \<Longrightarrow> ?key t < key \<Longrightarrow> rank m t \<le> lo"
      and beyond: "\<And>t. t < n \<Longrightarrow> live m t \<Longrightarrow> key < ?key t \<Longrightarrow> hi \<le> rank m t"
      and new: "\<And>t. t < 14 \<Longrightarrow> rank new t = ?up n t" "frozen new = frozen m" "retired new = retired m"
      using P unfolding s P_def prod.case by blast+
    have keep: "rank new t = ?up (Suc n) t" if "\<not> (live m n \<and> key < ?key n)" "t < 14" for t
      using new(1) [OF that(2)] that(1) by (auto simp: less_Suc_eq)
    have aug: "rank (augment new n (rank m n + 1)) t = ?up (Suc n) t" if "live m n" "key < ?key n" "t < 14" for t
      using new(1) [OF that(3)] live_rank(2) [OF that(1)] n that by (auto simp: rank_augment less_Suc_eq)
    have flags: "frozen (augment new n (rank m n + 1)) = frozen m" "retired (augment new n (rank m n + 1)) = retired m"
      if "live m n" using new(2,3) live_rank(2) [OF that] n by simp_all
    show "case post_insert_body l key n (rank m n) s of Inl r \<Rightarrow> Q r | Inr s \<Rightarrow> P (Suc n) s"
    proof (cases "lo < rank m n \<and> rank m n < hi")
      case True
      have ln: "live m n" using liveI [OF n] True hi by auto
      note c = compare_at_live [OF ok ln, of key]
      have o: "live m t \<Longrightarrow> ?key t = key \<Longrightarrow> (rank m n < rank m t \<longleftrightarrow> ?key n < key) \<and> (rank m t < rank m n \<longleftrightarrow> key < ?key n)" for t
        using slots_okD(4) [OF ok ln, of t] slots_okD(4) [OF ok _ ln, of t] by auto
      consider "?key n < key" | "?key n = key" | "key < ?key n" by fastforce
      then show ?thesis
      proof cases
        case 1
        have "P (Suc n) (rank m n, hi, new)"
        proof (rule PI)
          show "n \<noteq> t \<and> n \<le> t \<and> rank m n < rank m t \<and> rank m t < hi" if "live m t" "?key t = key" for t
            using eq [OF that] o [OF that] 1 that(2) by auto
          show "rank m t \<le> rank m n" if "t < n \<or> t = n" "live m t" "?key t < key" for t
            using that below [of t] True by auto
          show "hi \<le> rank m t" if "t < n \<or> t = n" "live m t" "key < ?key t" for t using that beyond [of t] 1 by auto
        qed (use hi ln 1 top keep new(2,3) in auto)
        then show ?thesis using True s c 1 by (simp add: post_insert_body_def compare_keys_def)
      next
        case 2
        then show ?thesis using True s c ln by (auto simp: post_insert_body_def compare_keys_def Q_def)
      next
        case 3
        have "P (Suc n) (lo, rank m n, augment new n (rank m n + 1))"
        proof (rule PI)
          show "n \<noteq> t \<and> n \<le> t \<and> lo < rank m t \<and> rank m t < rank m n" if "live m t" "?key t = key" for t
            using eq [OF that] o [OF that] 3 that(2) by auto
          show "rank m n \<le> rank m t" if "t < n \<or> t = n" "live m t" "key < ?key t" for t
            using that beyond [of t] True by auto
          show "rank m t \<le> lo" if "t < n \<or> t = n" "live m t" "?key t < key" for t using that below [of t] 3 by auto
        qed (use ln 3 lo aug [OF ln 3] flags [OF ln] in auto)
        then show ?thesis using True s c 3 by (auto simp: post_insert_body_def compare_keys_def)
      qed
    next
      case False
      show ?thesis
      proof (cases "rank m n \<noteq> 15 \<and> hi < rank m n")
        case True
        then obtain t where t: "live m t" "key < ?key t" "rank m t = hi" using top rank_le [of m n] by (metis not_le)
        have ln: "live m n" using True n by (simp add: live_def)
        have k: "key < ?key n" using slots_okD(4) [OF ok t(1) ln] t(2,3) True by simp
        have "P (Suc n) (lo, hi, augment new n (rank m n + 1))"
        proof (rule PI)
          show "n \<noteq> u \<and> n \<le> u \<and> lo < rank m u \<and> rank m u < hi" if "live m u" "?key u = key" for u
            using eq [OF that] k that(2) by auto
          show "hi \<le> rank m u" if "u < n \<or> u = n" "live m u" "key < ?key u" for u using that beyond [of u] True by auto
          show "rank m u \<le> lo" if "u < n \<or> u = n" "live m u" "?key u < key" for u using that below [of u] k by auto
        qed (use hi top lo aug [OF ln k] flags [OF ln] in auto)
        then show ?thesis using True False s by (simp add: post_insert_body_def)
      next
        case skip: False
        have low: "?key n < key \<and> rank m n \<le> lo" if ln: "live m n"
        proof -
          have "rank m n \<noteq> hi" using top slots_okD(3) [OF ok ln] live_rank(2) [OF ln] by (metis order_less_irrefl)
          then have le: "rank m n \<le> lo" using False skip live_rank(2) [OF ln] by auto
          then obtain t where t: "live m t" "?key t < key" "rank m t = lo" using lo live_rank(1) [OF ln] by auto
          show ?thesis using le t slots_okD(3,4) [OF ok ln t(1)] by (cases "rank m n = lo") auto
        qed
        then have nk: "\<not> (live m n \<and> key < ?key n)" by auto
        have "P (Suc n) (lo, hi, new)"
        proof (rule PI)
          show "n \<noteq> u \<and> n \<le> u \<and> lo < rank m u \<and> rank m u < hi" if "live m u" "?key u = key" for u
            using eq [OF that] low that by auto
          show "hi \<le> rank m u" if "u < n \<or> u = n" "live m u" "key < ?key u" for u using that beyond [of u] low by auto
          show "rank m u \<le> lo" if "u < n \<or> u = n" "live m u" "?key u < key" for u using that below [of u] low by auto
          show "rank new u = ?up (Suc n) u" if "u < 14" for u by (rule keep [OF nk that])
        qed (use hi top lo new(2,3) in auto)
        then show ?thesis using False skip s by (auto simp: post_insert_body_def)
      qed
    qed
  qed simp
  moreover have "\<And>i s. post_insert_body l key i 0 s = Inr s" by (simp add: post_insert_body_def split: prod.split)
  ultimately have r: "case loop of Inl r \<Rightarrow> Q r | Inr s \<Rightarrow> P 14 s"
    unfolding loop_def by (subst rank_loop_ranks) auto
  have none: "P 14 s \<Longrightarrow> live m t \<Longrightarrow> ?key t \<noteq> key" for s t using live_less [of m t] by (cases s) (force simp: P_def)
  show "loop = Inl () \<longleftrightarrow> (\<exists>t. live m t \<and> ?key t = key)"
    using r none by (cases loop) (auto simp: Q_def)
  assume "loop = Inr (lo, hi, new)"
  then have "P 14 (lo, hi, new)" using r by simp
  then show "(\<forall>t. live m t \<longrightarrow> ?key t < key \<longrightarrow> rank m t \<le> lo) \<and>
       (lo = 0 \<or> (\<exists>t. live m t \<and> ?key t < key \<and> rank m t = lo)) \<and>
       (\<forall>t<14. rank new t = (if live m t \<and> key < ?key t then rank m t + 1 else rank m t)) \<and>
       frozen new = frozen m \<and> retired new = retired m"
    using live_less by (auto simp: P_def)
qed

section \<open>The invariant with pending insertions\<close>

text \<open>\<open>S\<close> is the set of slots that are reserved by insertions which have not been completed.\<close>

definition leaf_inv :: "nat set \<Rightarrow> u64 \<Rightarrow> ('k::linorder \<times> 'v) option list \<Rightarrow> bool" where
  "leaf_inv S m a \<longleftrightarrow> slots_ok m a \<and> (\<forall>i\<in>S. i < NUM_ENTRIES \<and> rank m i = 15) \<and> ranks_bounded (card S) m \<and>
     (retired m \<longrightarrow> (\<forall>i. \<not> live m i))"

lemma leaf_invD:
  assumes "leaf_inv S m a"
  shows "slots_ok m a" "i \<in> S \<Longrightarrow> i < 14 \<and> rank m i = 15 \<and> \<not> live m i" "ranks_bounded (card S) m" "finite S"
    "retired m \<Longrightarrow> \<not> live m j"
proof -
  show "slots_ok m a" "i \<in> S \<Longrightarrow> i < 14 \<and> rank m i = 15 \<and> \<not> live m i" "ranks_bounded (card S) m"
    "retired m \<Longrightarrow> \<not> live m j" using assms by (auto simp: leaf_inv_def live_def)
  have "S \<subseteq> {..<14}" using assms by (auto simp: leaf_inv_def)
  then show "finite S" using finite_subset by blast
qed

lemma card_pending_le_used: "leaf_inv S m a \<Longrightarrow> card S \<le> used m"
  unfolding used_def by (rule card_mono) (auto simp: leaf_inv_def)

lemma reserve_inv:
  assumes inv: "leaf_inv S m a" and i: "i < 14" "rank m i = 0"
  shows "i \<notin> S" "leaf_inv (insert i S) (augment m i 15) a" "slots_map (augment m i 15) a = slots_map m a"
proof -
  note d = leaf_invD [OF inv]
  show n: "i \<notin> S" using d(2) [of i] i(2) by auto
  have nl: "\<not> live m i" using i by (simp add: live_def)
  have lv: "live (augment m i 15) = live m" by (rule live_augment_removed(1) [OF i(1) nl])
  note same = slots_ok_same [OF d(1) lv rank_augment_live [OF i(1) nl] slots_okD(1) [OF d(1)] refl]
  show "slots_map (augment m i 15) a = slots_map m a" by (rule same(2)) simp_all
  have b: "ranks_bounded (card (insert i S)) (augment m i 15)"
    using d(3) n d(4) i lv rank_augment_live [OF i(1) nl] used_augment(1) [OF i(1), of 15 m]
    by (simp add: ranks_bounded_def)
  have "\<forall>j\<in>insert i S. j < 14 \<and> rank (augment m i 15) j = 15" using d(2) i(1) by (auto simp: rank_augment)
  then show "leaf_inv (insert i S) (augment m i 15) a"
    using same(1) b d(5) i(1) by (simp add: leaf_inv_def lv)
qed

lemma write_inv:
  assumes inv: "leaf_inv S m a" and i: "i \<in> S"
  shows "leaf_inv S m (a[i := e])" "slots_map m (a[i := e]) = slots_map m a"
proof -
  note d = leaf_invD [OF inv]
  have "live m j \<Longrightarrow> a[i := e] ! j = a ! j" for j using d(2) [OF i] by (cases "j = i") auto
  note same = slots_ok_same [OF d(1) refl refl _ this]
  show "slots_map m (a[i := e]) = slots_map m a" by (rule same(2)) (simp_all add: slots_okD(1) [OF d(1)])
  have "slots_ok m (a[i := e])" by (rule same(1)) (simp_all add: slots_okD(1) [OF d(1)])
  then show "leaf_inv S m (a[i := e])" using inv by (simp add: leaf_inv_def)
qed

lemma rollback_inv:
  assumes inv: "leaf_inv S m a" and i: "i \<in> S"
  shows "leaf_inv (S - {i}) (augment m i 0) a" "slots_map (augment m i 0) a = slots_map m a"
proof -
  note d = leaf_invD [OF inv]
  have j: "i < 14" "rank m i = 15" "\<not> live m i" using d(2) [OF i] by auto
  have lv: "live (augment m i 0) = live m" by (rule live_augment_removed(2) [OF j(1,3)])
  note same = slots_ok_same [OF d(1) lv rank_augment_live [OF j(1,3)] slots_okD(1) [OF d(1)] refl]
  show "slots_map (augment m i 0) a = slots_map m a" by (rule same(2)) simp_all
  have "card S = Suc (card (S - {i}))" using i d(4) by (metis card_Suc_Diff1)
  then have b: "ranks_bounded (card (S - {i})) (augment m i 0)"
    using d(3) lv rank_augment_live [OF j(1,3)] used_augment(3) [OF j(1), of 0 m] j(2) unfolding ranks_bounded_def by fastforce
  have "\<forall>k\<in>S - {i}. k < 14 \<and> rank (augment m i 0) k = 15" using d(2) j(1) by (auto simp: rank_augment)
  then show "leaf_inv (S - {i}) (augment m i 0) a"
    using same(1) b d(5) j(1) by (simp add: leaf_inv_def lv)
qed

lemma remove_inv:
  assumes inv: "leaf_inv S m a" and i: "live m i" and r: "r \<Longrightarrow> \<forall>j. live m j \<longrightarrow> j = i"
  defines "m' \<equiv> (if r then retire (augment m i 15) else augment m i 15)"
  shows "leaf_inv S m' a" "slots_map m' a = (slots_map m a)(slot_key a i := None)" "live m' j \<longleftrightarrow> live m j \<and> j \<noteq> i"
    "i \<notin> S"
proof -
  note d = leaf_invD [OF inv] and i14 = live_less [OF i]
  show iS: "i \<notin> S" using d(2) i by blast
  have rk: "j < 14 \<Longrightarrow> rank m' j = (if j = i then 15 else rank m j)" for j
    using i14 by (simp add: m'_def rank_augment)
  show lv: "live m' j \<longleftrightarrow> live m j \<and> j \<noteq> i" for j
    using i rk [of j] by (cases "j < 14") (auto simp: live_def)
  have rl: "live m' j \<Longrightarrow> rank m' j = rank m j" for j using lv [of j] rk [of j] live_less [of m j] by simp
  have ok: "slots_ok m' a" using d(1) by (simp add: slots_ok_def lv rl)
  show "slots_map m' a = (slots_map m a)(slot_key a i := None)"
  proof (rule slots_map_eqI [OF ok])
    fix k v
    have "live m j \<Longrightarrow> a ! j = Some (k, v) \<Longrightarrow> k = slot_key a i \<longleftrightarrow> j = i" for j
      using slots_okD(5) [OF d(1) _ i, of j] by (auto simp: slot_key_def)
    then show "((slots_map m a)(slot_key a i := None)) k = Some v \<longleftrightarrow> (\<exists>j. live m' j \<and> a ! j = Some (k, v))"
      using slots_map_Some_iff [OF d(1), of k v] by (auto simp: lv)
  qed
  have "{j. j < 14 \<and> rank m' j \<noteq> 0} = {j. j < 14 \<and> rank m j \<noteq> 0}"
    using rk live_rank(1) [OF i] by (auto split: if_splits)
  then have "ranks_bounded (card S) m'" using d(3) by (simp add: ranks_bounded_def used_def lv rl)
  moreover have "\<forall>j\<in>S. j < 14 \<and> rank m' j = 15" using d(2) rk by auto
  moreover have "retired m' \<longrightarrow> (\<forall>j. \<not> live m' j)"
  proof (cases r)
    case True
    then show ?thesis using r by (simp add: lv)
  next
    case False
    then show ?thesis using d(5) i14 by (simp add: lv) (simp add: m'_def)
  qed
  ultimately show "leaf_inv S m' a" using ok by (simp add: leaf_inv_def)
qed

lemma commit_inv:
  fixes key :: "'k::linorder"
  assumes inv: "leaf_inv S m (entry_array l)" and i: "i \<in> S" "entry_array l ! i = Some (key, v)" and nr: "\<not> retired m"
    and loop: "rank_loop (post_insert_body l key) [0..<14] m (0, 15, m) = Inr (lo, hi, new)"
  defines "m' \<equiv> augment new i (lo + 1)"
  shows "leaf_inv (S - {i}) m' (entry_array l)" "slots_map m' (entry_array l) = (slots_map m (entry_array l))(key \<mapsto> v)"
    "slots_map m (entry_array l) key = None" "frozen m' = frozen m" "retired m' = retired m" "live m' j \<longleftrightarrow> live m j \<or> j = i"
    "j < 14 \<Longrightarrow> rank m' j = 0 \<longleftrightarrow> rank m j = 0"
proof -
  let ?a = "entry_array l"
  let ?key = "slot_key ?a"
  note d = leaf_invD [OF inv] and p = post_insert_loop [OF leaf_invD(1) [OF inv], of key]
  have none: "\<And>t. live m t \<Longrightarrow> ?key t \<noteq> key" using p(1) loop by auto
  then show "slots_map m ?a key = None" using slots_map_None_iff [OF d(1)] by blast
  have lo: "\<And>t. live m t \<Longrightarrow> ?key t < key \<Longrightarrow> rank m t \<le> lo" "lo = 0 \<or> (\<exists>t. live m t \<and> ?key t < key \<and> rank m t = lo)"
    and nw: "\<And>t. t < 14 \<Longrightarrow> rank new t = (if live m t \<and> key < ?key t then rank m t + 1 else rank m t)"
    and fl: "frozen new = frozen m" "retired new = retired m" using p(2) [OF loop] by auto
  have i14: "i < 14" "rank m i = 15" "\<not> live m i" using d(2) [OF i(1)] by auto
  have cS: "card S = Suc (card (S - {i}))" using i(1) d(4) by (metis card_Suc_Diff1)
  have b: "live m t \<Longrightarrow> rank m t + Suc (card (S - {i})) \<le> used m" for t using d(3) cS by (simp add: ranks_bounded_def)
  have lob: "lo + Suc (card (S - {i})) \<le> used m" using lo(2) b card_pending_le_used [OF inv] cS by auto
  then have lo14: "lo + 1 < 15" using used_le [of m] by simp
  have rk: "t < 14 \<Longrightarrow> rank m' t = (if t = i then lo + 1 else if live m t \<and> key < ?key t then rank m t + 1 else rank m t)" for t
    using lo14 i14(1) nw by (simp add: m'_def rank_augment)
  show "j < 14 \<Longrightarrow> rank m' j = 0 \<longleftrightarrow> rank m j = 0" using rk [of j] i14(2) live_rank(1) [of m j] by auto
  have le14: "live m t \<Longrightarrow> rank m t + 1 < 15" for t using b [of t] used_le [of m] by simp
  show lv: "live m' j \<longleftrightarrow> live m j \<or> j = i" for j
    using rk [of j] le14 [of j] i14 lo14 by (cases "j < 14") (auto simp: live_def split: if_splits)
  show "frozen m' = frozen m" and ret: "retired m' = retired m" using fl i14(1) lo14 by (simp_all add: m'_def)
  have ki: "?key i = key" using i(2) by (simp add: slot_key_def)
  have rl: "live m t \<Longrightarrow> rank m' t = (if key < ?key t then rank m t + 1 else rank m t)" and ri: "rank m' i = lo + 1" for t
    using rk [of t] rk [of i] live_less [of m t] i14 by auto
  have gt: "live m t \<Longrightarrow> key < ?key t \<Longrightarrow> lo < rank m t" for t
    using lo(2) live_rank(1) [of m t] slots_okD(4) [OF d(1), of _ t] by fastforce
  have ok: "slots_ok m' ?a"
    unfolding slots_ok_def
  proof (intro conjI allI impI)
    show "length ?a = 14" by (rule slots_okD(1) [OF d(1)])
    show "live m' t \<Longrightarrow> ?a ! t \<noteq> None" for t using slots_okD(2) [OF d(1), of t] i(2) by (auto simp: lv)
  next
    fix s t assume st: "live m' s" "live m' t" "rank m' s < rank m' t"
    consider "s = i" "t = i" | "s = i" "live m t" | "live m s" "t = i" | "live m s" "live m t" using st(1,2) lv by blast
    then show "?key s < ?key t"
    proof cases
      case 2
      then show ?thesis
        using st(3) ki lo(1) [of t] none [of t] by (cases "?key t" key rule: linorder_cases) (auto simp: rl ri split: if_splits)
    next
      case 3
      then show ?thesis
        using st(3) ki gt [of s] none [of s] by (cases "?key s" key rule: linorder_cases) (auto simp: rl ri split: if_splits)
    next
      case 4
      then show ?thesis using st(3) slots_okD(4) [OF d(1), of s t] none [of s] by (auto simp: rl split: if_splits)
    qed (use st in simp)
  next
    fix s t assume st: "live m' s" "live m' t" "rank m' s = rank m' t"
    consider "s = i" "t = i" | "s = i" "live m t" | "live m s" "t = i" | "live m s" "live m t" using st(1,2) lv by blast
    then show "s = t"
    proof cases
      case 4
      then show ?thesis
        using st(3) slots_okD(3,4) [OF d(1), of s t] slots_okD(4) [OF d(1), of t s] by (auto simp: rl split: if_splits)
    next
      case 2
      then show ?thesis
        using st(3) gt [of t] lo(1) [of t] none [of t] by (cases "?key t" key rule: linorder_cases) (auto simp: rl ri split: if_splits)
    next
      case 3
      then show ?thesis
        using st(3) gt [of s] lo(1) [of s] none [of s] by (cases "?key s" key rule: linorder_cases) (auto simp: rl ri split: if_splits)
    qed simp
  qed
  have "{j. j < 14 \<and> rank m' j \<noteq> 0} = {j. j < 14 \<and> rank m j \<noteq> 0}" using rk i14 live_rank(1) by (auto split: if_splits)
  then have us: "used m' = used m" by (simp add: used_def)
  have "live m' t \<Longrightarrow> rank m' t + card (S - {i}) \<le> used m" for t using b [of t] lob by (auto simp: lv rl ri)
  then have "ranks_bounded (card (S - {i})) m'" by (simp add: ranks_bounded_def us)
  moreover have "\<forall>j\<in>S - {i}. j < 14 \<and> rank m' j = 15" using d(2) rk by auto
  ultimately show "leaf_inv (S - {i}) m' ?a" using ok nr ret by (simp add: leaf_inv_def)
  show "slots_map m' ?a = (slots_map m ?a)(key \<mapsto> v)"
  proof (rule slots_map_eqI [OF ok])
    fix k w
    have "live m j \<Longrightarrow> ?a ! j = Some (k, w) \<Longrightarrow> k \<noteq> key" for j using none [of j] by (auto simp: slot_key_def)
    then show "((slots_map m ?a)(key \<mapsto> v)) k = Some w \<longleftrightarrow> (\<exists>j. live m' j \<and> ?a ! j = Some (k, w))"
      using slots_map_Some_iff [OF d(1), of k w] i(2) by (auto simp: lv)
  qed
qed

end
