(* ===== verification/Leaf_Scan.thy ===== *)
theory Leaf_Scan
  imports Leaf_Spec
begin

text \<open>Scanning a leaf in key order, and splitting it into two leaves.\<close>

section \<open>Scanning\<close>

definition above :: "u64 \<Rightarrow> nat \<Rightarrow> nat set" where
  "above m i = {t. live m t \<and> rank_at m i < rank m t}"

lemma above_finite: "finite (above m i)" and above_card: "card (above m i) \<le> 14"
proof -
  have "above m i \<subseteq> {..<14}" using live_less by (auto simp: above_def)
  then show "finite (above m i)" "card (above m i) \<le> 14" using finite_subset card_mono [of "{..<14 :: nat}"] by fastforce+
qed

lemma scanner_next_None:
  "leaf_next i m = 14 \<Longrightarrow> i \<le> 14 \<Longrightarrow> fst (scanner_next l \<lparr>scanner_metadata = m, entry_index = i\<rparr>) = None"
  by (simp add: scanner_next_def scanner_proceed_def scanner_get_def USIZE_MAX_def)

lemma scanner_next_Some:
  "leaf_next i m = j \<Longrightarrow> i \<le> 14 \<Longrightarrow> j < 14 \<Longrightarrow>
   scanner_next l \<lparr>scanner_metadata = m, entry_index = i\<rparr> = (entry_array l ! j, \<lparr>scanner_metadata = m, entry_index = j\<rparr>)"
  by (simp add: scanner_next_def scanner_proceed_def scanner_get_def USIZE_MAX_def)

lemma scan_ok:
  assumes ok: "slots_ok m (entry_array l)"
  shows "i = 14 \<or> live m i \<Longrightarrow> card (above m i) \<le> fuel \<Longrightarrow>
    (let es = scan fuel l \<lparr>scanner_metadata = m, entry_index = i\<rparr>
     in sorted_wrt (<) (map fst es) \<and> set es = (\<lambda>t. the (entry_array l ! t)) ` above m i)"
proof (induction fuel arbitrary: i)
  case 0
  then have "above m i = {}" using above_finite by simp
  then show ?case by simp
next
  case (Suc fuel)
  let ?j = "leaf_next i m"
  have i: "i \<le> 14" using Suc.prems(1) live_less by fastforce
  show ?case
  proof (cases "?j = 14")
    case True
    then have "live m t \<Longrightarrow> rank m t \<le> rank_at m i" for t using leaf_next_ok [OF Suc.prems(1)] live_less by fastforce
    then have "above m i = {}" by (auto simp: above_def not_less)
    then show ?thesis using scanner_next_None [OF True i, of l]
      by (cases "scanner_next l \<lparr>scanner_metadata = m, entry_index = i\<rparr>") (simp add: Let_def)
  next
    case False
    then have j: "live m ?j" "rank_at m i < rank m ?j"
      "\<And>t. live m t \<Longrightarrow> rank_at m i < rank m t \<Longrightarrow> rank m ?j \<le> rank m t" using leaf_next_ok [OF Suc.prems(1)] by blast+
    obtain k v where kv: "entry_array l ! ?j = Some (k, v)" using slots_okD(2) [OF ok j(1)] by blast
    have rj: "rank_at m ?j = rank m ?j" using live_less [OF j(1)] by (simp add: rank_at_def)
    have ab: "above m i = insert ?j (above m ?j)" "?j \<notin> above m ?j"
    proof -
      show "?j \<notin> above m ?j" by (simp add: above_def rj)
      show "above m i = insert ?j (above m ?j)"
      proof (rule set_eqI)
        fix t
        show "t \<in> above m i \<longleftrightarrow> t \<in> insert ?j (above m ?j)"
          using j(1,2) j(3) [of t] slots_okD(3) [OF ok _ j(1), of t]
          by (cases "t = ?j") (auto simp: above_def rj le_less)
      qed
    qed
    then have "card (above m ?j) \<le> fuel" using Suc.prems(2) above_finite by simp
    from Suc.IH [OF _ this] j(1) have es: "sorted_wrt (<) (map fst (scan fuel l \<lparr>scanner_metadata = m, entry_index = ?j\<rparr>))"
      "set (scan fuel l \<lparr>scanner_metadata = m, entry_index = ?j\<rparr>) = (\<lambda>t. the (entry_array l ! t)) ` above m ?j"
      by (auto simp: Let_def)
    have s: "scan (Suc fuel) l \<lparr>scanner_metadata = m, entry_index = i\<rparr> = (k, v) # scan fuel l \<lparr>scanner_metadata = m, entry_index = ?j\<rparr>"
      using scanner_next_Some [OF refl i live_less [OF j(1)], of l] kv by simp
    have "\<forall>t\<in>above m ?j. k < slot_key (entry_array l) t"
      using slots_okD(4) [OF ok j(1)] kv by (auto simp: above_def rj slot_key_def)
    then have "\<forall>e\<in>set (scan fuel l \<lparr>scanner_metadata = m, entry_index = ?j\<rparr>). k < fst e"
      unfolding es(2) by (auto simp: slot_key_def)
    then show ?thesis unfolding s Let_def using es ab kv by simp
  qed
qed

lemma map_of_eq_slots:
  assumes ok: "slots_ok m a" and es: "sorted_wrt (<) (map fst es)" "set es = (\<lambda>t. the (a ! t)) ` above m 14"
  shows "map_of es = slots_map m a"
proof -
  have "above m 14 = {t. live m t}" using live_rank by (auto simp: above_def rank_at_def)
  then have s: "(k, v) \<in> set es \<longleftrightarrow> (\<exists>i. live m i \<and> a ! i = Some (k, v))" for k v
    using slots_okD(2) [OF ok] unfolding es(2) by (fastforce simp: image_iff)
  have "distinct (map fst es)" using es(1) by (simp add: strict_sorted_iff)
  then show ?thesis using slots_map_eqI [OF ok, of "map_of es"] s by (simp add: map_of_eq_Some_iff)
qed

lemma scan_all_ok:
  assumes ok: "slots_ok m (entry_array l)" and f: "14 \<le> fuel"
  defines "es \<equiv> scan fuel l \<lparr>scanner_metadata = m, entry_index = 14\<rparr>"
  shows "sorted_wrt (<) (map fst es)" "map_of es = slots_map m (entry_array l)" "length es \<le> 14"
proof -
  have s: "sorted_wrt (<) (map fst es)" "set es = (\<lambda>t. the (entry_array l ! t)) ` above m 14"
    using scan_ok [OF ok, of 14 fuel] above_card [of m 14] f unfolding es_def by (simp_all add: Let_def)
  show "sorted_wrt (<) (map fst es)" by (rule s(1))
  show "map_of es = slots_map m (entry_array l)" by (rule map_of_eq_slots [OF ok s])
  have "length es = card (set es)" using s(1) by (metis distinct_card distinct_map strict_sorted_iff)
  also have "\<dots> \<le> card (above m 14)" unfolding s(2) by (rule card_image_le [OF above_finite])
  also have "\<dots> \<le> 14" by (rule above_card)
  finally show "length es \<le> 14" .
qed

section \<open>Splitting\<close>

text \<open>A leaf that holds a list of entries in its first slots.\<close>

definition holds :: "('k \<times> 'v) list \<Rightarrow> ('k, 'v) leaf \<Rightarrow> bool" where
  "holds xs l \<longleftrightarrow> length (entry_array l) = 14 \<and> length xs \<le> 14 \<and> \<not> frozen (leaf_metadata l) \<and> \<not> retired (leaf_metadata l) \<and>
     (\<forall>i<14. rank (leaf_metadata l) i = (if i < length xs then i + 1 else 0)) \<and>
     (\<forall>i<length xs. entry_array l ! i = Some (xs ! i))"

lemma holds_new: "holds [] leaf_new"
  by (simp add: holds_def leaf_new_def)

lemma holds_insert:
  assumes "holds xs l" "length xs < 14"
  shows "holds (xs @ [(k, v)]) (insert_unchecked l k v (length xs))"
  using assms by (auto simp: holds_def insert_unchecked_def leaf_write_def rank_augment nth_append nth_list_update less_Suc_eq)

lemma holds_ok:
  assumes h: "holds xs l" and s: "sorted_wrt (<) (map fst xs)"
  shows "leaf_ok l" "leaf_map l = map_of xs"
proof -
  let ?m = "leaf_metadata l" and ?a = "entry_array l"
  have n: "length xs \<le> 14" and r: "\<And>i. i < 14 \<Longrightarrow> rank ?m i = (if i < length xs then i + 1 else 0)"
    and e: "\<And>i. i < length xs \<Longrightarrow> ?a ! i = Some (xs ! i)" using h by (simp_all add: holds_def)
  have lv: "live ?m i \<longleftrightarrow> i < length xs" for i using r n by (cases "i < 14") (auto simp: live_def)
  have lt: "i < j \<Longrightarrow> j < length xs \<Longrightarrow> fst (xs ! i) < fst (xs ! j)" for i j
    using sorted_wrt_nth_less [OF s, of i j] by simp
  have ok: "slots_ok ?m ?a"
    using h e r n lt by (auto simp: slots_ok_def lv slot_key_def holds_def)
  have "{i. i < 14 \<and> rank ?m i \<noteq> 0} = {..<length xs}" using r n by (auto split: if_splits)
  then have "used ?m = length xs" by (simp add: used_def)
  then have "ranks_bounded 0 ?m" using r n by (auto simp: ranks_bounded_def lv)
  then show "leaf_ok l" using ok e r h by (auto simp: leaf_ok_def holds_def split: if_splits)
  have "distinct (map fst xs)" using s by (simp add: strict_sorted_iff)
  then show "leaf_map l = map_of xs"
    unfolding leaf_map_def using e by (intro slots_map_eqI [OF ok]) (auto simp: lv map_of_eq_Some_iff in_set_conv_nth)
qed







section \<open>Statements\<close>

text \<open>An example leaf for the statements: three entries, inserted out of order.\<close>

definition example_leaf :: "(nat, nat) leaf" where
  "example_leaf = fold (\<lambda>(k, v, i) l. insert_unchecked l k v i) [(3, 30, 0), (4, 40, 1), (9, 90, 2)] leaf_new"

lemma example_leaf_ok:
  "leaf_ok example_leaf" "leaf_map example_leaf = [3 \<mapsto> 30, 4 \<mapsto> 40, 9 \<mapsto> 90]" "\<not> frozen (leaf_metadata example_leaf)"
proof -
  have h: "holds [(3, 30), (4, 40), (9, 90)] example_leaf"
    using holds_insert [OF holds_insert [OF holds_insert [OF holds_new, of "3 :: nat" "30 :: nat"], of 4 40], of 9 90]
    by (simp add: example_leaf_def numeral_2_eq_2)
  note ok = holds_ok [OF h]
  show "leaf_ok example_leaf" by (rule ok(1)) simp
  have "leaf_map example_leaf = map_of [(3, 30), (4, 40), (9, 90)]" by (rule ok(2)) simp
  then show "leaf_map example_leaf = [3 \<mapsto> 30, 4 \<mapsto> 40, 9 \<mapsto> 90]" by (auto simp: fun_eq_iff)
  show "\<not> frozen (leaf_metadata example_leaf)" using h by (simp add: holds_def)
qed

text \<open>C28. Searches in a leaf: although they compare a slot only if its rank lies between two moving bounds,
  \<^verbatim>\<open>search\<close> is lookup in the map of the live entries, \<^verbatim>\<open>min_greater_equal\<close> finds the least key that is not
  below the given one, \<^verbatim>\<open>max_entry\<close> the greatest key, and \<^verbatim>\<open>is_empty\<close> tells whether there is an entry.\<close>

theorem leaf_search_is_lookup:
  assumes "leaf_ok l"
  shows "leaf_search l key = leaf_map l key \<and>
    (case fst (min_greater_equal l key) of
       None \<Rightarrow> (\<forall>k\<in>dom (leaf_map l). k < key)
     | Some (k, v) \<Rightarrow> leaf_map l k = Some v \<and> key \<le> k \<and> (\<forall>k'\<in>dom (leaf_map l). key \<le> k' \<longrightarrow> k \<le> k')) \<and>
    (case max_entry l of
       None \<Rightarrow> leaf_map l = Map.empty
     | Some (k, v) \<Rightarrow> leaf_map l k = Some v \<and> (\<forall>k'\<in>dom (leaf_map l). k' \<le> k)) \<and>
    (leaf_is_empty l \<longleftrightarrow> leaf_map l = Map.empty)"
proof -
  have ok: "slots_ok (leaf_metadata l) (entry_array l)" using assms by (simp add: leaf_ok_def)
  show ?thesis
    using leaf_search_ok [OF ok] min_greater_equal_ok(2) [OF ok] max_entry_ok [OF ok] leaf_is_empty_iff [OF ok] by blast
qed

theorem leaf_search_is_lookup_witness:
  "leaf_search example_leaf 4 = Some 40 \<and> leaf_search example_leaf 5 = None \<and> \<not> leaf_is_empty example_leaf"
  using leaf_search_is_lookup [OF example_leaf_ok(1), of 4] leaf_search_is_lookup [OF example_leaf_ok(1), of 5]
    example_leaf_ok(2) by auto

text \<open>C29. A scanner visits the entries of a leaf in strictly increasing key order, each exactly once, and
  the scanner that starts behind the greatest key below a bound visits exactly the entries from the bound
  on. There is no such scanner exactly if no key lies below the bound.\<close>

theorem leaf_scan_in_order:
  assumes "leaf_ok l"
  shows "sorted_wrt (<) (map fst (scan NUM_ENTRIES l (scanner_new l))) \<and>
    map_of (scan NUM_ENTRIES l (scanner_new l)) = leaf_map l \<and>
    (\<forall>sc. scanner_max_less l key = Some sc \<longrightarrow>
       sorted_wrt (<) (map fst (scan NUM_ENTRIES l sc)) \<and>
       map_of (scan NUM_ENTRIES l sc) = leaf_map l |` {k. key \<le> k}) \<and>
    (scanner_max_less l key = None \<longleftrightarrow> leaf_map l |` {k. k < key} = Map.empty)"
proof (intro conjI allI impI)
  let ?m = "leaf_metadata l" and ?a = "entry_array l"
  have ok: "slots_ok ?m ?a" using assms by (simp add: leaf_ok_def)
  have "scanner_max_less l key = None \<longleftrightarrow> (\<forall>t. live ?m t \<longrightarrow> \<not> slot_key ?a t < key)"
    using max_less_ok [OF ok, of key] live_less [of ?m 14] by (auto simp: scanner_max_less_def Let_def split: if_splits)
  also have "\<dots> \<longleftrightarrow> leaf_map l |` {k. k < key} = Map.empty"
    using slots_map_None_iff [OF ok] by (auto simp: restrict_map_def leaf_map_def fun_eq_iff)
  finally show "scanner_max_less l key = None \<longleftrightarrow> leaf_map l |` {k. k < key} = Map.empty" .
  note all = scan_all_ok [OF ok, of 14]
  show "sorted_wrt (<) (map fst (scan NUM_ENTRIES l (scanner_new l)))"
    "map_of (scan NUM_ENTRIES l (scanner_new l)) = leaf_map l" using all by (simp_all add: scanner_new_def leaf_map_def)
  fix sc assume "scanner_max_less l key = Some sc"
  then obtain j where j: "j = max_less l ?m key" "j \<noteq> 14" "sc = \<lparr>scanner_metadata = ?m, entry_index = j\<rparr>"
    by (auto simp: scanner_max_less_def Let_def split: if_splits)
  have lj: "live ?m j" "slot_key ?a j < key" "\<And>t. live ?m t \<Longrightarrow> slot_key ?a t < key \<Longrightarrow> slot_key ?a t \<le> slot_key ?a j"
    using max_less_ok [OF ok, of key] j(1,2) by auto
  have es: "sorted_wrt (<) (map fst (scan 14 l sc))" "set (scan 14 l sc) = (\<lambda>t. the (?a ! t)) ` above ?m j"
    using scan_ok [OF ok, of j 14] lj(1) above_card [of ?m j] j(3) by (simp_all add: Let_def)
  show "sorted_wrt (<) (map fst (scan NUM_ENTRIES l sc))" by (rule es(1))
  have ab: "t \<in> above ?m j \<longleftrightarrow> live ?m t \<and> key \<le> slot_key ?a t" for t
    using slots_okD(4) [OF ok lj(1), of t] lj(2) lj(3) [of t] live_less [OF lj(1)]
    by (cases "key \<le> slot_key ?a t") (auto simp: above_def rank_at_def not_le)
  have "(k, v) \<in> set (scan 14 l sc) \<longleftrightarrow> (\<exists>t. live ?m t \<and> key \<le> slot_key ?a t \<and> ?a ! t = Some (k, v))" for k v
    unfolding es(2) using slots_okD(2) [OF ok] by (auto simp: image_iff ab Bex_def)
  then have mem: "(k, v) \<in> set (scan 14 l sc) \<longleftrightarrow> (leaf_map l |` {k. key \<le> k}) k = Some v" for k v
    using slots_map_Some_iff [OF ok, of k v] by (auto simp: restrict_map_def leaf_map_def slot_key_def)
  have "distinct (map fst (scan 14 l sc))" using es(1) by (simp add: strict_sorted_iff)
  then show "map_of (scan NUM_ENTRIES l sc) = leaf_map l |` {k. key \<le> k}"
    using mem map_of_eq_Some_iff by (metis (no_types, lifting) ext not_None_eq)
qed

theorem leaf_scan_in_order_witness:
  "map_of (scan NUM_ENTRIES example_leaf (scanner_new example_leaf)) = [3 \<mapsto> 30, 4 \<mapsto> 40, 9 \<mapsto> 90]"
  using leaf_scan_in_order [OF example_leaf_ok(1), of 0] example_leaf_ok(2) by simp




end
