(* ===== verification/Leaf_Steps.thy ===== *)
theory Leaf_Steps
  imports Leaf_Insert Leaf_Scan
begin

text \<open>
  Threads that insert into, remove from, freeze and thaw the same leaf, interleaved at every access to the
  metadata and at the write of an entry: a call, the load of the metadata, each exchange, the write of the
  entry and the \<^verbatim>\<open>fetch_and\<close> of a rollback are steps of their own, and between them any number of steps of
  other threads may happen. The metadata a thread works with may be outdated; its exchange then fails.
  The relation is compared with an observer, which sees the calls and the effects and knows what answers
  they allow.
\<close>

section \<open>Steps\<close>

datatype ('k, 'v) call = Ask_Insert 'k 'v | Ask_Remove 'k "'v \<Rightarrow> bool"

text \<open>The local variables of a call. \<open>Inserting\<close> and \<open>Seeking\<close> are about to load the metadata, \<open>Reserving\<close>
  has loaded it, \<open>Reserved\<close> owns a slot, \<open>Posting\<close> has written it, \<open>Rolling\<close> is about to give it back,
  \<open>Removing\<close> has found the entry.\<close>

datatype ('k, 'v) activity =
  Idle
| Inserting 'k 'v
| Reserving u64 'k 'v
| Reserved nat u64 'k 'v
| Posting nat u64 'k 'v
| Rolling nat 'k 'v
| Seeking 'k "'v \<Rightarrow> bool"
| Removing nat u64 'k "'v \<Rightarrow> bool"

record ('t, 'k, 'v) leaf_system =
  the_leaf :: "('k, 'v) leaf"
  threads :: "'t \<Rightarrow> ('k, 'v) activity"

text \<open>\<open>Removed k v r\<close> has removed the entry and, if \<open>r\<close>, retired the leaf.\<close>

datatype ('k, 'v) leaf_event =
  Internal
| Called "('k, 'v) call"
| Inserted 'k 'v
| Insert_Returned "('k, 'v) insert_result"
| Removed 'k 'v bool
| Remove_Returned remove_result
| Froze bool
| Thawed bool
| Unwritten_Read

inductive leaf_step ::
  "('t, 'k::linorder, 'v) leaf_system \<Rightarrow> 't \<Rightarrow> ('k, 'v) leaf_event \<Rightarrow> ('t, 'k, 'v) leaf_system \<Rightarrow> bool" where
  insert_call: "threads s t = Idle \<Longrightarrow>
    leaf_step s t (Called (Ask_Insert k v)) \<lparr>the_leaf = the_leaf s, threads = (threads s)(t := Inserting k v)\<rparr>"
| insert_load: "threads s t = Inserting k v \<Longrightarrow>
    leaf_step s t Internal \<lparr>the_leaf = the_leaf s, threads = (threads s)(t := Reserving (leaf_metadata (the_leaf s)) k v)\<rparr>"
| reserve: "threads s t = Reserving m k v \<Longrightarrow> reserve_round (the_leaf s) m k v = (Inl (Inr (i, m')), l) \<Longrightarrow>
    leaf_step s t Internal \<lparr>the_leaf = l, threads = (threads s)(t := Reserved i m' k v)\<rparr>"
| reserve_again: "threads s t = Reserving m k v \<Longrightarrow> reserve_round (the_leaf s) m k v = (Inr m', l) \<Longrightarrow>
    leaf_step s t Internal \<lparr>the_leaf = l, threads = (threads s)(t := Reserving m' k v)\<rparr>"
| refuse: "threads s t = Reserving m k v \<Longrightarrow> reserve_round (the_leaf s) m k v = (Inl (Inl r), l) \<Longrightarrow>
    leaf_step s t (Insert_Returned r) \<lparr>the_leaf = l, threads = (threads s)(t := Idle)\<rparr>"
| fill: "threads s t = Reserved i m k v \<Longrightarrow>
    leaf_step s t Internal \<lparr>the_leaf = leaf_write (the_leaf s) i k v, threads = (threads s)(t := Posting i m k v)\<rparr>"
| post: "threads s t = Posting i m k v \<Longrightarrow> post_insert_attempt (the_leaf s) i m = (Posted, l) \<Longrightarrow>
    leaf_step s t (Inserted k v) \<lparr>the_leaf = l, threads = (threads s)(t := Idle)\<rparr>"
| post_again: "threads s t = Posting i m k v \<Longrightarrow> post_insert_attempt (the_leaf s) i m = (Outdated m', l) \<Longrightarrow>
    leaf_step s t Internal \<lparr>the_leaf = l, threads = (threads s)(t := Posting i m' k v)\<rparr>"
| post_back: "threads s t = Posting i m k v \<Longrightarrow> post_insert_attempt (the_leaf s) i m = (Rolls_Back, l) \<Longrightarrow>
    leaf_step s t Internal \<lparr>the_leaf = l, threads = (threads s)(t := Rolling i k v)\<rparr>"
| post_unwritten: "threads s t = Posting i m k v \<Longrightarrow> post_insert_attempt (the_leaf s) i m = (Unwritten_Key, l) \<Longrightarrow>
    leaf_step s t Unwritten_Read \<lparr>the_leaf = l, threads = (threads s)(t := Idle)\<rparr>"
| roll_back: "threads s t = Rolling i k v \<Longrightarrow> rollback (the_leaf s) i = (r, l) \<Longrightarrow>
    leaf_step s t (case r of Some x \<Rightarrow> Insert_Returned x | None \<Rightarrow> Unwritten_Read)
      \<lparr>the_leaf = l, threads = (threads s)(t := Idle)\<rparr>"
| remove_call: "threads s t = Idle \<Longrightarrow>
    leaf_step s t (Called (Ask_Remove k c)) \<lparr>the_leaf = the_leaf s, threads = (threads s)(t := Seeking k c)\<rparr>"
| seek: "threads s t = Seeking k c \<Longrightarrow> remove_find (the_leaf s) k = Inr (i, m) \<Longrightarrow>
    leaf_step s t Internal \<lparr>the_leaf = the_leaf s, threads = (threads s)(t := Removing i m k c)\<rparr>"
| miss: "threads s t = Seeking k c \<Longrightarrow> remove_find (the_leaf s) k = Inl r \<Longrightarrow>
    leaf_step s t (Remove_Returned r) \<lparr>the_leaf = the_leaf s, threads = (threads s)(t := Idle)\<rparr>"
| remove: "threads s t = Removing i m k c \<Longrightarrow> remove_round (the_leaf s) c i m = (Inl r, l) \<Longrightarrow>
    leaf_step s t
      (if r = Remove_Success \<or> r = Remove_Retired
       then case value_at (the_leaf s) i of Some v \<Rightarrow> Removed k v (r = Remove_Retired) | None \<Rightarrow> Unwritten_Read
       else Remove_Returned r)
      \<lparr>the_leaf = l, threads = (threads s)(t := Idle)\<rparr>"
| remove_again: "threads s t = Removing i m k c \<Longrightarrow> remove_round (the_leaf s) c i m = (Inr m', l) \<Longrightarrow>
    leaf_step s t Internal \<lparr>the_leaf = l, threads = (threads s)(t := Removing i m' k c)\<rparr>"
| freeze: "leaf_freeze (the_leaf s) = (b, l) \<Longrightarrow> leaf_step s t (Froze b) \<lparr>the_leaf = l, threads = threads s\<rparr>"
| thaw: "leaf_thaw (the_leaf s) = (b, l) \<Longrightarrow> leaf_step s t (Thawed b) \<lparr>the_leaf = l, threads = threads s\<rparr>"

inductive leaf_run ::
  "('t, 'k::linorder, 'v) leaf_system \<Rightarrow> ('t \<times> ('k, 'v) leaf_event) list \<Rightarrow> ('t, 'k, 'v) leaf_system \<Rightarrow> bool" where
  run_nil: "leaf_run s [] s"
| run_snoc: "leaf_run s es s' \<Longrightarrow> leaf_step s' t e s'' \<Longrightarrow> leaf_run s (es @ [(t, e)]) s''"

definition system_new :: "('t, 'k, 'v) leaf_system" where
  "system_new = \<lparr>the_leaf = leaf_new, threads = (\<lambda>_. Idle)\<rparr>"

section \<open>The observer\<close>

text \<open>What a leaf means: its entries and the two flags.\<close>

record ('k, 'v) leaf_abs =
  contents :: "'k \<rightharpoonup> 'v"
  is_frozen :: bool
  is_retired :: bool

definition abs_of :: "u64 \<Rightarrow> ('k \<times> 'v) option list \<Rightarrow> ('k, 'v) leaf_abs" where
  "abs_of m a = \<lparr>contents = slots_map m a, is_frozen = frozen m, is_retired = retired m\<rparr>"

text \<open>The effect of an event; the events that are not listed have none.\<close>

fun apply_event :: "('k, 'v) leaf_event \<Rightarrow> ('k, 'v) leaf_abs \<Rightarrow> ('k, 'v) leaf_abs" where
  "apply_event (Inserted k v) z = z\<lparr>contents := (contents z)(k \<mapsto> v)\<rparr>"
| "apply_event (Removed k v r) z = z\<lparr>contents := (contents z)(k := None), is_retired := is_retired z \<or> r\<rparr>"
| "apply_event (Froze b) z = z\<lparr>is_frozen := True\<rparr>"
| "apply_event (Thawed b) z = z\<lparr>is_frozen := False\<rparr>"
| "apply_event _ z = z"

text \<open>For each thread, the call under way, the states of the leaf since that call, and whether the leaf
  has been thawed since.\<close>

record ('k, 'v) view =
  asked :: "('k, 'v) call option"
  seen :: "('k, 'v) leaf_abs set"
  thawed :: bool

record ('t, 'k, 'v) observer =
  now :: "('k, 'v) leaf_abs"
  views :: "'t \<Rightarrow> ('k, 'v) view"

fun is_return :: "('k, 'v) leaf_event \<Rightarrow> bool" where
  "is_return (Inserted k v) \<longleftrightarrow> True"
| "is_return (Insert_Returned r) \<longleftrightarrow> True"
| "is_return (Removed k v r) \<longleftrightarrow> True"
| "is_return (Remove_Returned r) \<longleftrightarrow> True"
| "is_return Unwritten_Read \<longleftrightarrow> True"
| "is_return _ \<longleftrightarrow> False"

definition watch :: "('k, 'v) leaf_event \<Rightarrow> ('k, 'v) leaf_abs \<Rightarrow> ('k, 'v) view \<Rightarrow> ('k, 'v) view" where
  "watch e z w = w\<lparr>seen := insert z (seen w), thawed := thawed w \<or> e = Thawed True\<rparr>"

fun own_view :: "('k, 'v) leaf_event \<Rightarrow> ('k, 'v) leaf_abs \<Rightarrow> ('k, 'v) view \<Rightarrow> ('k, 'v) view" where
  "own_view (Called c) z w = \<lparr>asked = Some c, seen = {z}, thawed = False\<rparr>"
| "own_view e z w = (if is_return e then (watch e z w)\<lparr>asked := None\<rparr> else watch e z w)"

fun observe :: "'t \<times> ('k, 'v) leaf_event \<Rightarrow> ('t, 'k, 'v) observer \<Rightarrow> ('t, 'k, 'v) observer" where
  "observe (t, e) ob =
     (let z = apply_event e (now ob)
      in \<lparr>now = z, views = (\<lambda>u. if u = t then own_view e z (views ob u) else watch e z (views ob u))\<rparr>)"

declare observe.simps [simp del]

definition empty_abs :: "('k, 'v) leaf_abs" where
  "empty_abs = \<lparr>contents = Map.empty, is_frozen = False, is_retired = False\<rparr>"

definition observer_new :: "('t, 'k, 'v) observer" where
  "observer_new = \<lparr>now = empty_abs, views = (\<lambda>_. \<lparr>asked = None, seen = {empty_abs}, thawed = False\<rparr>)\<rparr>"

definition observed :: "('t \<times> ('k, 'v) leaf_event) list \<Rightarrow> ('t, 'k, 'v) observer" where
  "observed es = fold observe es observer_new"

text \<open>
  The answers that a call may give. A successful insertion adds the entry of a key that is absent at that
  moment, a successful removal takes an entry that is present and meets the condition, and retires the
  leaf exactly if it was the last one; both need a leaf that is not frozen. An unsuccessful answer must have
  been true at some moment since the call: \<open>Duplicate\<close> that the key was present, \<open>Full\<close> that it was absent,
  \<open>Fail\<close> that the key was absent or its value did not meet the condition, \<open>Frozen\<close> and \<open>Retired\<close> that the
  flag was set. There is one exception: an insertion may answer \<open>Duplicate\<close> for an absent key if the
  leaf has been thawed since the call.
\<close>

fun answer_ok :: "('k, 'v) leaf_abs \<Rightarrow> ('k, 'v) view \<Rightarrow> ('k, 'v) leaf_event \<Rightarrow> bool" where
  "answer_ok z w Internal \<longleftrightarrow> asked w \<noteq> None"
| "answer_ok z w (Called c) \<longleftrightarrow> asked w = None"
| "answer_ok z w (Inserted k v) \<longleftrightarrow>
     asked w = Some (Ask_Insert k v) \<and> contents z k = None \<and> \<not> is_frozen z \<and> \<not> is_retired z"
| "answer_ok z w (Insert_Returned r) \<longleftrightarrow>
     (\<exists>k v. asked w = Some (Ask_Insert k v) \<and>
       (r = Duplicate k v \<and> ((\<exists>y \<in> seen w. contents y k \<noteq> None) \<or> thawed w) \<or>
        r = Full k v \<and> (\<exists>y \<in> seen w. contents y k = None) \<or>
        r = Insert_Frozen k v \<and> (\<exists>y \<in> seen w. is_frozen y) \<or>
        r = Insert_Retired k v \<and> (\<exists>y \<in> seen w. is_retired y)))"
| "answer_ok z w (Removed k v r) \<longleftrightarrow>
     (\<exists>c. asked w = Some (Ask_Remove k c) \<and> c v) \<and> contents z k = Some v \<and> \<not> is_frozen z \<and>
     (r \<longleftrightarrow> (contents z)(k := None) = Map.empty)"
| "answer_ok z w (Remove_Returned r) \<longleftrightarrow>
     (\<exists>k c. asked w = Some (Ask_Remove k c) \<and>
       (r = Remove_Fail \<and> (\<exists>y \<in> seen w. case contents y k of None \<Rightarrow> True | Some v \<Rightarrow> \<not> c v) \<or>
        r = Remove_Frozen \<and> (\<exists>y \<in> seen w. is_frozen y)))"
| "answer_ok z w (Froze b) \<longleftrightarrow> b = (\<not> is_frozen z)"
| "answer_ok z w (Thawed b) \<longleftrightarrow> b = is_frozen z"
| "answer_ok z w Unwritten_Read \<longleftrightarrow> False"

fun allowed :: "('t, 'k, 'v) observer \<Rightarrow> 't \<times> ('k, 'v) leaf_event \<Rightarrow> bool" where
  "allowed ob (t, e) \<longleftrightarrow> answer_ok (now ob) (views ob t) e"

section \<open>Invariant\<close>

fun slot_of :: "('k, 'v) activity \<Rightarrow> nat option" where
  "slot_of (Reserved i m k v) = Some i"
| "slot_of (Posting i m k v) = Some i"
| "slot_of (Rolling i k v) = Some i"
| "slot_of _ = None"

definition pending :: "('t \<Rightarrow> ('k, 'v) activity) \<Rightarrow> nat set" where
  "pending th = {i. \<exists>t. slot_of (th t) = Some i}"

definition one_owner :: "('t \<Rightarrow> ('k, 'v) activity) \<Rightarrow> bool" where
  "one_owner th \<longleftrightarrow> (\<forall>t u i. slot_of (th t) = Some i \<longrightarrow> slot_of (th u) = Some i \<longrightarrow> t = u)"

text \<open>Metadata \<open>pm\<close> that a thread has read since its call. A slot that was live then still holds its entry.\<close>

definition snapshot :: "u64 \<Rightarrow> ('k::linorder \<times> 'v) option list \<Rightarrow> nat set \<Rightarrow> ('k, 'v) leaf_abs set \<Rightarrow> u64 \<Rightarrow> bool" where
  "snapshot m a P Z pm \<longleftrightarrow>
     slots_ok pm a \<and> abs_of pm a \<in> Z \<and> (\<forall>j. live pm j \<longrightarrow> rank m j \<noteq> 0 \<and> j \<notin> P)"

fun activity_ok ::
  "u64 \<Rightarrow> ('k::linorder \<times> 'v) option list \<Rightarrow> nat set \<Rightarrow> ('k, 'v) view \<Rightarrow> ('k, 'v) activity \<Rightarrow> bool" where
  "activity_ok m a P w Idle \<longleftrightarrow> asked w = None"
| "activity_ok m a P w (Inserting k v) \<longleftrightarrow> asked w = Some (Ask_Insert k v)"
| "activity_ok m a P w (Reserving pm k v) \<longleftrightarrow> asked w = Some (Ask_Insert k v) \<and> snapshot m a P (seen w) pm"
| "activity_ok m a P w (Reserved i pm k v) \<longleftrightarrow>
     asked w = Some (Ask_Insert k v) \<and> snapshot m a P (seen w) pm \<and> \<not> frozen pm \<and> \<not> retired pm"
| "activity_ok m a P w (Posting i pm k v) \<longleftrightarrow>
     asked w = Some (Ask_Insert k v) \<and> snapshot m a P (seen w) pm \<and> \<not> frozen pm \<and> \<not> retired pm \<and> a ! i = Some (k, v)"
| "activity_ok m a P w (Rolling i k v) \<longleftrightarrow>
     asked w = Some (Ask_Insert k v) \<and> a ! i = Some (k, v) \<and>
     (frozen m \<or> retired m \<or> thawed w \<or> (\<exists>y \<in> seen w. contents y k \<noteq> None))"
| "activity_ok m a P w (Seeking k c) \<longleftrightarrow> asked w = Some (Ask_Remove k c)"
| "activity_ok m a P w (Removing i pm k c) \<longleftrightarrow>
     asked w = Some (Ask_Remove k c) \<and> snapshot m a P (seen w) pm \<and> live pm i \<and> \<not> frozen pm \<and>
     (\<exists>v. a ! i = Some (k, v)) \<and> (rank m i = 15 \<longrightarrow> (\<exists>y \<in> seen w. contents y k = None))"

definition system_inv :: "('t, 'k::linorder, 'v) observer \<Rightarrow> ('t, 'k, 'v) leaf_system \<Rightarrow> bool" where
  "system_inv ob s \<longleftrightarrow> one_owner (threads s) \<and>
     leaf_inv (pending (threads s)) (leaf_metadata (the_leaf s)) (entry_array (the_leaf s)) \<and>
     now ob = abs_of (leaf_metadata (the_leaf s)) (entry_array (the_leaf s)) \<and>
     (\<forall>t. now ob \<in> seen (views ob t) \<and>
        activity_ok (leaf_metadata (the_leaf s)) (entry_array (the_leaf s)) (pending (threads s)) (views ob t) (threads s t))"

text \<open>A step keeps the invariant and is one that the observer allows.\<close>

definition step_good ::
  "('t, 'k::linorder, 'v) observer \<Rightarrow> 't \<Rightarrow> ('k, 'v) leaf_event \<Rightarrow> ('t, 'k, 'v) leaf_system \<Rightarrow> bool" where
  "step_good ob t e s' \<longleftrightarrow> system_inv (observe (t, e) ob) s' \<and>
     (answer_ok (now ob) (views ob t) e)"

lemma one_owner_upd:
  "one_owner th \<Longrightarrow> slot_of x = None \<or> slot_of x = slot_of (th t) \<or> (\<exists>i. slot_of x = Some i \<and> i \<notin> pending th) \<Longrightarrow>
   one_owner (th(t := x))"
  unfolding one_owner_def pending_def by (auto split: if_splits) metis+

lemma pending_upd:
  "one_owner th \<Longrightarrow> pending (th(t := x)) = (pending th - set_option (slot_of (th t))) \<union> set_option (slot_of x)"
  unfolding one_owner_def pending_def by (auto split: if_splits)

lemma system_invD:
  assumes "system_inv ob s"
  shows "one_owner (threads s)" "leaf_inv (pending (threads s)) (leaf_metadata (the_leaf s)) (entry_array (the_leaf s))"
    "activity_ok (leaf_metadata (the_leaf s)) (entry_array (the_leaf s)) (pending (threads s)) (views ob t) (threads s t)"
    "slot_of (threads s t) = Some i \<Longrightarrow> i \<in> pending (threads s)"
    "slot_of (threads s t) = Some i \<Longrightarrow> slot_of (threads s u) = Some i \<Longrightarrow> u = t"
    "now ob = abs_of (leaf_metadata (the_leaf s)) (entry_array (the_leaf s))" "now ob \<in> seen (views ob t)"
  using assms by (auto simp: system_inv_def pending_def one_owner_def)

lemma watch_simps [simp]:
  "asked (watch e z w) = asked w" "seen (watch e z w) = insert z (seen w)"
  "thawed (watch e z w) \<longleftrightarrow> thawed w \<or> e = Thawed True"
  by (simp_all add: watch_def)

lemma seen_own_view: "z \<in> seen (own_view e z w)"
  by (cases e) simp_all

lemma snapshot_mono:
  assumes "snapshot m a P Z pm" "Z \<subseteq> Z'" "length b = 14"
    and "\<And>i. i \<notin> P \<Longrightarrow> i < 14 \<Longrightarrow> rank m i \<noteq> 0 \<Longrightarrow> rank m' i \<noteq> 0 \<and> b ! i = a ! i \<and> i \<notin> P'"
  shows "snapshot m' b P' Z' pm"
proof -
  have s: "slots_ok pm a" "abs_of pm a \<in> Z" "\<And>j. live pm j \<Longrightarrow> rank m j \<noteq> 0 \<and> j \<notin> P"
    using assms(1) by (auto simp: snapshot_def)
  have k: "live pm j \<Longrightarrow> rank m' j \<noteq> 0 \<and> b ! j = a ! j \<and> j \<notin> P'" for j
    using s(3) [of j] assms(4) [of j] live_less [of pm j] by blast
  note same = slots_ok_same [OF s(1) refl refl assms(3)]
  have "slots_ok pm b" "slots_map pm b = slots_map pm a" using same k by simp_all
  then show ?thesis using s(2) assms(2) k by (auto simp: snapshot_def abs_of_def)
qed

lemma snapshot_now:
  assumes "leaf_inv P m a" "abs_of m a \<in> Z"
  shows "snapshot m a P Z m"
  using assms leaf_invD(1,2) [OF assms(1)] by (auto simp: snapshot_def live_def)

lemma activity_ok_mono:
  assumes x: "activity_ok m a P w x" and w: "asked w' = asked w" "seen w \<subseteq> seen w'" "thawed w \<Longrightarrow> thawed w'"
    and own: "\<And>i. slot_of x = Some i \<Longrightarrow> b ! i = a ! i" and len: "length b = 14"
    and kept: "\<And>i. i \<notin> P \<Longrightarrow> i < 14 \<Longrightarrow> rank m i \<noteq> 0 \<Longrightarrow> rank m' i \<noteq> 0 \<and> b ! i = a ! i \<and> i \<notin> P'"
    and flags: "frozen m \<Longrightarrow> frozen m' \<or> thawed w'" "retired m \<Longrightarrow> retired m'"
    and gone: "\<And>i k v. i < 14 \<Longrightarrow> i \<notin> P \<Longrightarrow> rank m i \<noteq> 0 \<Longrightarrow> rank m i \<noteq> 15 \<Longrightarrow> rank m' i = 15 \<Longrightarrow> a ! i = Some (k, v) \<Longrightarrow>
      \<exists>y \<in> seen w'. contents y k = None"
  shows "activity_ok m' b P' w' x"
proof -
  have snap: "snapshot m a P (seen w) pm \<Longrightarrow> snapshot m' b P' (seen w') pm" for pm
    by (rule snapshot_mono [OF _ w(2) len kept])
  show ?thesis
  proof (cases x)
    case (Removing i pm k c)
    then obtain v where p: "snapshot m a P (seen w) pm" "live pm i" "a ! i = Some (k, v)" using x by auto
    have i: "i < 14" "rank m i \<noteq> 0" "i \<notin> P" using p(1,2) live_less [OF p(2)] by (auto simp: snapshot_def)
    have "rank m' i = 15 \<longrightarrow> (\<exists>y \<in> seen w'. contents y k = None)"
      using gone [OF i(1,3,2) _ _ p(3)] x Removing w(2) by (cases "rank m i = 15") auto
    then show ?thesis using x Removing snap [OF p(1)] w(1) kept [OF i(3,1,2)] by auto
  next
    case (Rolling i k v)
    then show ?thesis using x w own flags by fastforce
  qed (use x snap w(1) own in auto)
qed

text \<open>A step of thread \<open>t\<close> that respects the slots of the others.\<close>

lemma system_invI:
  fixes s :: "('t, 'k::linorder, 'v) leaf_system" and l :: "('k, 'v) leaf"
  defines "m \<equiv> leaf_metadata (the_leaf s)" and "a \<equiv> entry_array (the_leaf s)" and "P \<equiv> pending (threads s)"
  assumes inv: "system_inv ob s" and S: "pending ((threads s)(t := x)) = S'"
    and o: "slot_of x = None \<or> slot_of x = slot_of (threads s t) \<or> (\<exists>i. slot_of x = Some i \<and> i \<notin> P)"
    and l: "leaf_inv S' (leaf_metadata l) (entry_array l)"
    and ab: "abs_of (leaf_metadata l) (entry_array l) = apply_event e (abs_of m a)"
    and x: "activity_ok (leaf_metadata l) (entry_array l) S' (own_view e (apply_event e (abs_of m a)) (views ob t)) x"
    and other: "\<And>u i. u \<noteq> t \<Longrightarrow> slot_of (threads s u) = Some i \<Longrightarrow> entry_array l ! i = a ! i"
    and kept: "\<And>i. i \<notin> P \<Longrightarrow> i < 14 \<Longrightarrow> rank m i \<noteq> 0 \<Longrightarrow> rank (leaf_metadata l) i \<noteq> 0 \<and> entry_array l ! i = a ! i \<and> i \<notin> S'"
    and flags: "frozen m \<Longrightarrow> frozen (leaf_metadata l) \<or> e = Thawed True" "retired m \<Longrightarrow> retired (leaf_metadata l)"
    and gone: "\<And>i k v. i < 14 \<Longrightarrow> i \<notin> P \<Longrightarrow> rank m i \<noteq> 0 \<Longrightarrow> rank m i \<noteq> 15 \<Longrightarrow> rank (leaf_metadata l) i = 15 \<Longrightarrow>
      a ! i = Some (k, v) \<Longrightarrow> contents (apply_event e (abs_of m a)) k = None"
  shows "system_inv (observe (t, e) ob) \<lparr>the_leaf = l, threads = (threads s)(t := x)\<rparr>"
proof -
  let ?z = "apply_event e (abs_of m a)"
  note d = system_invD [OF inv, folded m_def a_def P_def]
  have ob: "observe (t, e) ob = \<lparr>now = ?z, views = (\<lambda>u. if u = t then own_view e ?z (views ob u) else watch e ?z (views ob u))\<rparr>"
    using d(6) by (simp add: observe.simps Let_def)
  have "activity_ok (leaf_metadata l) (entry_array l) S' (watch e ?z (views ob u)) (threads s u)" if "u \<noteq> t" for u
  proof (rule activity_ok_mono [OF d(3)])
    show "length (entry_array l) = 14" by (rule slots_okD(1) [OF leaf_invD(1) [OF l]])
    fix i k v assume "i < 14" "i \<notin> P" "rank m i \<noteq> 0" "rank m i \<noteq> 15" "rank (leaf_metadata l) i = 15" "a ! i = Some (k, v)"
    then show "\<exists>y \<in> seen (watch e ?z (views ob u)). contents y k = None" using gone by auto
  qed (use other [OF that] kept flags in auto)
  then show ?thesis
    unfolding system_inv_def ob using one_owner_upd [OF d(1) o [unfolded P_def]] S l x ab seen_own_view by auto
qed

section \<open>The outcomes of a step\<close>

lemma reserve_round_cases:
  assumes ok: "slots_ok pm (entry_array l)"
  obtains (refused) r where "reserve_round l pm k v = (Inl (Inl r), l)"
      "r = Insert_Retired k v \<and> retired pm \<or> r = Insert_Frozen k v \<and> frozen pm \<or>
       r = Duplicate k v \<and> slots_map pm (entry_array l) k \<noteq> None \<or> r = Full k v \<and> slots_map pm (entry_array l) k = None"
  | (reserved) i where "reserve_round l pm k v = (Inl (Inr (i, augment pm i 15)), l\<lparr>leaf_metadata := augment pm i 15\<rparr>)"
      "leaf_metadata l = pm" "i < 14" "rank pm i = 0" "\<not> frozen pm" "\<not> retired pm"
  | (again) "reserve_round l pm k v = (Inr (leaf_metadata l), l)"
proof (cases "retired pm \<or> frozen pm")
  case True
  then have "reserve_round l pm k v = (Inl (Inl (if retired pm then Insert_Retired k v else Insert_Frozen k v)), l)"
    by (auto simp: reserve_round_def)
  then show thesis using refused True by (auto split: if_splits)
next
  case False
  show thesis
  proof (cases "first_uninit [0..<14] pm")
    case None
    have n: "search_slot l k pm = None \<longleftrightarrow> slots_map pm (entry_array l) k = None"
      using search_slot_iff(2) [OF ok, of k] slots_map_None_iff [OF ok, of k] by simp
    have "reserve_round l pm k v = (Inl (Inl (if search_slot l k pm = None then Full k v else Duplicate k v)), l)"
      using None False by (simp add: reserve_round_def)
    then show thesis using refused n by (auto split: if_splits)
  next
    case (Some i)
    show thesis
    proof (cases "leaf_metadata l = pm")
      case True
      then show thesis using reserved [of i] False Some first_uninit_Some [OF Some] by (simp add: reserve_round_def Let_def)
    next
      case stale: False
      then show thesis using again False Some by (simp add: reserve_round_def Let_def compare_exchange_def)
    qed
  qed
qed

lemma post_attempt_cases:
  assumes e: "entry_array l ! i = Some (key, v)" and ok: "slots_ok pm (entry_array l)"
  obtains (undone) "post_insert_attempt l i pm = (Rolls_Back, l)"
      "slots_map pm (entry_array l) key \<noteq> None \<or> frozen (leaf_metadata l) \<or> retired (leaf_metadata l)"
  | (committed) lo hi new where "leaf_metadata l = pm"
      "rank_loop (post_insert_body l key) [0..<14] pm (0, 15, pm) = Inr (lo, hi, new)"
      "post_insert_attempt l i pm = (Posted, l\<lparr>leaf_metadata := augment new i (lo + 1)\<rparr>)"
  | (again) "post_insert_attempt l i pm = (Outdated (leaf_metadata l), l)" "\<not> frozen (leaf_metadata l)" "\<not> retired (leaf_metadata l)"
proof -
  have k: "key_at l i = Some key" using e by (simp add: key_at_def)
  show thesis
  proof (cases "rank_loop (post_insert_body l key) [0..<14] pm (0, 15, pm)")
    case (Inl u)
    then have "slots_map pm (entry_array l) key \<noteq> None"
      using post_insert_loop(1) [OF ok, of key] slots_map_None_iff [OF ok, of key] by auto
    then show thesis using undone k Inl by (simp add: post_insert_attempt_def)
  next
    case (Inr s)
    obtain lo hi new where s: "s = (lo, hi, new)" by (cases s)
    show thesis
    proof (cases "leaf_metadata l = pm")
      case True
      then show thesis using committed [of lo hi new] k Inr s by (simp add: post_insert_attempt_def Let_def)
    next
      case False
      then have "post_insert_attempt l i pm =
          (if frozen (leaf_metadata l) \<or> retired (leaf_metadata l) then Rolls_Back else Outdated (leaf_metadata l), l)"
        using k Inr s by (simp add: post_insert_attempt_def Let_def compare_exchange_def)
      then show thesis using undone again by (auto split: if_splits)
    qed
  qed
qed

lemma rollback_eq:
  assumes "entry_array l ! i = Some (k, v)" "i < 14"
  shows "rollback l i =
    (Some (if retired (leaf_metadata l) then Insert_Retired k v else if frozen (leaf_metadata l) then Insert_Frozen k v
       else Duplicate k v), l\<lparr>leaf_metadata := augment (leaf_metadata l) i 0\<rparr>)"
  using assms by (simp add: rollback_def leaf_take_def clear_rank Let_def)

lemma remove_find_cases:
  assumes ok: "slots_ok (leaf_metadata l) (entry_array l)"
  obtains (missing) r where "remove_find l k = Inl r"
      "r = Remove_Frozen \<and> frozen (leaf_metadata l) \<or> r = Remove_Fail \<and> slots_map (leaf_metadata l) (entry_array l) k = None"
  | (found) i v where "remove_find l k = Inr (i, leaf_metadata l)" "live (leaf_metadata l) i" "entry_array l ! i = Some (k, v)"
      "\<not> frozen (leaf_metadata l)"
proof (cases "search_slot l k (leaf_metadata l)")
  case None
  then have "remove_find l k = Inl (if frozen (leaf_metadata l) then Remove_Frozen else Remove_Fail)"
    by (simp add: remove_find_def search_slot_def Let_def split: sum.splits)
  moreover have "slots_map (leaf_metadata l) (entry_array l) k = None"
    using None search_slot_iff(2) [OF ok, of k] slots_map_None_iff [OF ok, of k] by simp
  ultimately show thesis using missing by (auto split: if_splits)
next
  case (Some i)
  then have r: "remove_find l k = (if frozen (leaf_metadata l) then Inl Remove_Frozen else Inr (i, leaf_metadata l))"
    by (simp add: remove_find_def search_slot_def Let_def split: sum.splits)
  have i: "live (leaf_metadata l) i" "slot_key (entry_array l) i = k" using search_slot_iff(1) [OF ok] Some by blast+
  then obtain v where "entry_array l ! i = Some (k, v)" using slots_okD(2) [OF ok i(1)] by (auto simp: slot_key_def)
  then show thesis
    using missing found i(1) r by (cases "frozen (leaf_metadata l)") auto
qed

lemma remove_round_cases:
  assumes e: "entry_array l ! i = Some (k, v)"
  obtains (failed) r where "remove_round l c i pm = (Inl r, l)"
      "r = Remove_Fail \<and> (\<not> c v \<or> rank (leaf_metadata l) i = 15) \<or> r = Remove_Frozen \<and> frozen (leaf_metadata l)"
  | (removed) r where "leaf_metadata l = pm" "c v" "r \<longleftrightarrow> others_empty i pm"
      "remove_round l c i pm = (Inl (if r then Remove_Retired else Remove_Success),
         l\<lparr>leaf_metadata := (if r then retire (augment pm i 15) else augment pm i 15)\<rparr>)"
  | (again) "remove_round l c i pm = (Inr (leaf_metadata l), l)" "rank (leaf_metadata l) i \<noteq> 15" "\<not> frozen (leaf_metadata l)"
  using assms unfolding remove_round_def value_at_def Let_def
  by (cases "c v"; cases "leaf_metadata l = pm"; cases "rank (leaf_metadata l) i = 15"; cases "frozen (leaf_metadata l)")
    (auto simp: compare_exchange_def set_removed split: if_splits)

section \<open>Every step\<close>

text \<open>Steps that leave the leaf alone.\<close>

lemma thread_step:
  assumes inv: "system_inv ob s" and o: "slot_of x = slot_of (threads s t)"
    and e: "apply_event e (now ob) = now ob"
    and x: "activity_ok (leaf_metadata (the_leaf s)) (entry_array (the_leaf s)) (pending (threads s)) (own_view e (now ob) (views ob t)) x"
  shows "system_inv (observe (t, e) ob) \<lparr>the_leaf = the_leaf s, threads = (threads s)(t := x)\<rparr>"
proof -
  have p: "pending ((threads s)(t := x)) = pending (threads s)"
    using system_invD(1,4) [OF inv] by (auto simp: pending_upd o)
  note z = system_invD(6) [OF inv]
  show ?thesis by (rule system_invI [OF inv p]) (use o e x system_invD(2) [OF inv] in \<open>simp_all add: z\<close>)
qed

lemma reserve_step:
  assumes inv: "system_inv ob s" and t: "threads s t = Reserving (leaf_metadata (the_leaf s)) k v"
    and i: "i < 14" "rank (leaf_metadata (the_leaf s)) i = 0"
    and f: "\<not> frozen (leaf_metadata (the_leaf s))" "\<not> retired (leaf_metadata (the_leaf s))"
  defines "m \<equiv> augment (leaf_metadata (the_leaf s)) i 15"
  shows "step_good ob t Internal \<lparr>the_leaf = (the_leaf s)\<lparr>leaf_metadata := m\<rparr>, threads = (threads s)(t := Reserved i m k v)\<rparr>"
proof -
  let ?m = "leaf_metadata (the_leaf s)" and ?a = "entry_array (the_leaf s)"
  note d = system_invD [OF inv]
  note r = reserve_inv [OF d(2) i]
  have p: "pending ((threads s)(t := Reserved i m k v)) = insert i (pending (threads s))"
    using d(1) t by (simp add: pending_upd)
  have ab: "abs_of m ?a = abs_of ?m ?a" using r(3) i by (simp add: abs_of_def m_def)
  have as: "asked (views ob t) = Some (Ask_Insert k v)" using d(3) [of t] t by simp
  have sn: "snapshot m ?a (insert i (pending (threads s))) (insert (abs_of ?m ?a) (seen (views ob t))) m"
    by (rule snapshot_now) (use r(2) ab in \<open>simp_all add: m_def\<close>)
  have "system_inv (observe (t, Internal) ob) \<lparr>the_leaf = (the_leaf s)\<lparr>leaf_metadata := m\<rparr>, threads = (threads s)(t := Reserved i m k v)\<rparr>"
    by (rule system_invI [OF inv p])
      (use r i f ab as sn in \<open>auto simp: m_def rank_augment split: if_splits\<close>)
  then show ?thesis using as by (simp add: step_good_def)
qed

lemma fill_step:
  assumes inv: "system_inv ob s" and t: "threads s t = Reserved i pm k v"
  shows "step_good ob t Internal \<lparr>the_leaf = leaf_write (the_leaf s) i k v, threads = (threads s)(t := Posting i pm k v)\<rparr>"
proof -
  let ?m = "leaf_metadata (the_leaf s)" and ?a = "entry_array (the_leaf s)" and ?P = "pending (threads s)"
  note d = system_invD [OF inv]
  have iS: "i \<in> ?P" using d(4) [of t i] t by simp
  note w = write_inv [OF d(2) iS, of "Some (k, v)"] and g = leaf_invD(1,2) [OF d(2)]
  have p: "pending ((threads s)(t := Posting i pm k v)) = ?P" using d(1) t iS by (auto simp: pending_upd)
  have i: "i < length ?a" using g(2) [OF iS] slots_okD(1) [OF g(1)] by simp
  have ab: "abs_of ?m (?a[i := Some (k, v)]) = abs_of ?m ?a" using w(2) by (simp add: abs_of_def)
  have x: "asked (views ob t) = Some (Ask_Insert k v)" "snapshot ?m ?a ?P (seen (views ob t)) pm" "\<not> frozen pm" "\<not> retired pm"
    using d(3) [of t] t by simp_all
  have same: "j \<notin> ?P \<Longrightarrow> ?a[i := Some (k, v)] ! j = ?a ! j" for j using iS by (cases "j = i") auto
  have sn: "snapshot ?m (?a[i := Some (k, v)]) ?P (insert (abs_of ?m ?a) (seen (views ob t))) pm"
    by (rule snapshot_mono [OF x(2)]) (use same slots_okD(1) [OF g(1)] in auto)
  have "system_inv (observe (t, Internal) ob)
      \<lparr>the_leaf = leaf_write (the_leaf s) i k v, threads = (threads s)(t := Posting i pm k v)\<rparr>"
  proof (rule system_invI [OF inv p])
    fix u j assume "u \<noteq> t" "slot_of (threads s u) = Some j"
    then have "j \<noteq> i" using d(5) [of t i u] t by auto
    then show "entry_array (leaf_write (the_leaf s) i k v) ! j = ?a ! j" by (simp add: leaf_write_def)
  qed (use w(1) ab x sn t i iS in \<open>auto simp: leaf_write_def nth_list_update\<close>)
  then show ?thesis using x(1) by (simp add: step_good_def)
qed

text \<open>Steps that change the metadata and end a call.\<close>

lemma finish_step:
  assumes inv: "system_inv ob s" and S: "S' = pending (threads s) - set_option (slot_of (threads s t))"
    and l: "leaf_inv S' m (entry_array (the_leaf s))" and e: "is_return e"
    and ab: "abs_of m (entry_array (the_leaf s)) = apply_event e (now ob)"
    and kept: "\<And>i. i \<notin> pending (threads s) \<Longrightarrow> i < 14 \<Longrightarrow> rank (leaf_metadata (the_leaf s)) i \<noteq> 0 \<Longrightarrow> rank m i \<noteq> 0"
    and flags: "frozen (leaf_metadata (the_leaf s)) \<Longrightarrow> frozen m" "retired (leaf_metadata (the_leaf s)) \<Longrightarrow> retired m"
    and gone: "\<And>i k v. i < 14 \<Longrightarrow> i \<notin> pending (threads s) \<Longrightarrow> rank (leaf_metadata (the_leaf s)) i \<noteq> 0 \<Longrightarrow>
      rank (leaf_metadata (the_leaf s)) i \<noteq> 15 \<Longrightarrow> rank m i = 15 \<Longrightarrow> entry_array (the_leaf s) ! i = Some (k, v) \<Longrightarrow>
      contents (apply_event e (now ob)) k = None"
  shows "system_inv (observe (t, e) ob) \<lparr>the_leaf = (the_leaf s)\<lparr>leaf_metadata := m\<rparr>, threads = (threads s)(t := Idle)\<rparr>"
proof -
  have p: "pending ((threads s)(t := Idle)) = S'" using system_invD(1) [OF inv] S by (simp add: pending_upd)
  have "asked (own_view e (apply_event e (now ob)) (views ob t)) = None" using e by (cases e) simp_all
  then show ?thesis
    by (intro system_invI [OF inv p]) (use l kept S ab flags gone system_invD(6) [OF inv] in auto)
qed

lemma post_step:
  assumes inv: "system_inv ob s" and t: "threads s t = Posting i pm k v"
    and r: "post_insert_attempt (the_leaf s) i pm = (r, l)"
  shows "case r of Posted \<Rightarrow> step_good ob t (Inserted k v) \<lparr>the_leaf = l, threads = (threads s)(t := Idle)\<rparr>
    | Outdated m' \<Rightarrow> step_good ob t Internal \<lparr>the_leaf = l, threads = (threads s)(t := Posting i m' k v)\<rparr>
    | Rolls_Back \<Rightarrow> step_good ob t Internal \<lparr>the_leaf = l, threads = (threads s)(t := Rolling i k v)\<rparr>
    | Unwritten_Key \<Rightarrow> False"
proof -
  let ?m = "leaf_metadata (the_leaf s)" and ?a = "entry_array (the_leaf s)" and ?S = "pending (threads s)"
  note d = system_invD [OF inv] and li = system_invD(2) [OF inv]
  have iS: "i \<in> ?S" using d(4) [of t i] t by simp
  have a: "\<not> frozen pm" "\<not> retired pm" "?a ! i = Some (k, v)" "asked (views ob t) = Some (Ask_Insert k v)"
    and sn: "snapshot ?m ?a ?S (seen (views ob t)) pm" using d(3) [of t] t by auto
  have ok: "slots_ok pm ?a" and zs: "abs_of pm ?a \<in> seen (views ob t)" using sn by (auto simp: snapshot_def)
  from a(3) ok show ?thesis
  proof (cases rule: post_attempt_cases [of "the_leaf s" i k v pm])
    case undone
    have "frozen ?m \<or> retired ?m \<or> (\<exists>y \<in> seen (views ob t). contents y k \<noteq> None)"
      using undone(2) zs by (force simp: abs_of_def)
    then have "system_inv (observe (t, Internal) ob) \<lparr>the_leaf = the_leaf s, threads = (threads s)(t := Rolling i k v)\<rparr>"
      by (intro thread_step [OF inv]) (use t a in auto)
    then show ?thesis using undone(1) r a by (auto simp: step_good_def)
  next
    case (committed lo hi new)
    note c = commit_inv [OF li iS a(3) _ committed(2) [folded committed(1)], unfolded committed(1), OF a(2)]
    let ?m' = "augment new i (lo + 1)"
    have z: "now ob = abs_of pm ?a" using d(6) committed(1) by simp
    have ab: "abs_of ?m' ?a = apply_event (Inserted k v) (now ob)" using c(2,4,5) by (simp add: z abs_of_def)
    have "system_inv (observe (t, Inserted k v) ob) \<lparr>the_leaf = (the_leaf s)\<lparr>leaf_metadata := ?m'\<rparr>, threads = (threads s)(t := Idle)\<rparr>"
    proof (rule finish_step [OF inv refl _ _ ab])
      fix j k' v' assume j: "j < 14" "j \<notin> ?S" "rank ?m j \<noteq> 0" "rank ?m j \<noteq> 15" "rank ?m' j = 15"
      then have "live pm j" using committed(1) by (simp add: live_def)
      then have "live ?m' j" using c(6) by simp
      then have False using j(5) by (simp add: live_def)
      then show "contents (apply_event (Inserted k v) (now ob)) k' = None" ..
    qed (use c(1,4,5,7) t committed(1) in auto)
    then show ?thesis using committed(3) r a c(3) by (auto simp: step_good_def z abs_of_def)
  next
    case again
    have "system_inv (observe (t, Internal) ob) \<lparr>the_leaf = the_leaf s, threads = (threads s)(t := Posting i ?m k v)\<rparr>"
      by (rule thread_step [OF inv])
        (use t a again snapshot_now [OF li] in \<open>auto simp: d(6)\<close>)
    then show ?thesis using again(1) r a by (auto simp: step_good_def)
  qed
qed

lemma roll_step:
  assumes inv: "system_inv ob s" and t: "threads s t = Rolling i k v" and r: "rollback (the_leaf s) i = (r, l)"
  shows "step_good ob t (case r of Some x \<Rightarrow> Insert_Returned x | None \<Rightarrow> Unwritten_Read)
    \<lparr>the_leaf = l, threads = (threads s)(t := Idle)\<rparr>"
proof -
  let ?m = "leaf_metadata (the_leaf s)" and ?a = "entry_array (the_leaf s)" and ?S = "pending (threads s)"
  note d = system_invD [OF inv] and li = system_invD(2) [OF inv]
  have iS: "i \<in> ?S" using d(4) [of t i] t by simp
  have i: "i < 14" using leaf_invD(2) [OF li iS] by simp
  note b = rollback_inv [OF li iS]
  have a: "?a ! i = Some (k, v)" "asked (views ob t) = Some (Ask_Insert k v)"
    "frozen ?m \<or> retired ?m \<or> thawed (views ob t) \<or> (\<exists>y \<in> seen (views ob t). contents y k \<noteq> None)"
    using d(3) [of t] t by auto
  let ?r = "if retired ?m then Insert_Retired k v else if frozen ?m then Insert_Frozen k v else Duplicate k v"
  have r': "r = Some ?r" "l = (the_leaf s)\<lparr>leaf_metadata := augment ?m i 0\<rparr>" using rollback_eq [OF a(1) i] r by simp_all
  have ab: "abs_of (augment ?m i 0) ?a = apply_event (Insert_Returned ?r) (now ob)" using b(2) i by (simp add: d(6) abs_of_def)
  have "system_inv (observe (t, Insert_Returned ?r) ob) \<lparr>the_leaf = l, threads = (threads s)(t := Idle)\<rparr>"
    unfolding r'(2) by (rule finish_step [OF inv refl _ _ ab]) (use b(1) t i iS in \<open>auto simp: rank_augment split: if_splits\<close>)
  moreover have "answer_ok (now ob) (views ob t) (Insert_Returned ?r)"
  proof -
    have "retired ?m \<Longrightarrow> \<exists>y \<in> seen (views ob t). is_retired y" "frozen ?m \<Longrightarrow> \<exists>y \<in> seen (views ob t). is_frozen y"
      using d(6) d(7) [of t] by (auto simp: abs_of_def intro!: bexI [of _ "now ob"])
    then show ?thesis using a(2,3) by auto
  qed
  ultimately show ?thesis using r'(1) by (simp add: step_good_def)
qed

lemma remove_step:
  assumes inv: "system_inv ob s" and t: "threads s t = Removing i pm k c" and r: "remove_round (the_leaf s) c i pm = (Inl r, l)"
  shows "step_good ob t
    (if r = Remove_Success \<or> r = Remove_Retired
     then case value_at (the_leaf s) i of Some v \<Rightarrow> Removed k v (r = Remove_Retired) | None \<Rightarrow> Unwritten_Read
     else Remove_Returned r) \<lparr>the_leaf = l, threads = (threads s)(t := Idle)\<rparr>"
proof -
  let ?m = "leaf_metadata (the_leaf s)" and ?a = "entry_array (the_leaf s)" and ?S = "pending (threads s)"
  note d = system_invD [OF inv] and li = system_invD(2) [OF inv]
  obtain v where a: "live pm i" "?a ! i = Some (k, v)" "\<not> frozen pm" "asked (views ob t) = Some (Ask_Remove k c)"
    "rank ?m i = 15 \<longrightarrow> (\<exists>y \<in> seen (views ob t). contents y k = None)"
    and sn: "snapshot ?m ?a ?S (seen (views ob t)) pm" using d(3) [of t] t by auto
  have ok: "slots_ok pm ?a" and zs: "abs_of pm ?a \<in> seen (views ob t)" using sn by (auto simp: snapshot_def)
  have kv: "slots_map pm ?a k = Some v" using slots_map_Some_iff [OF ok, of k v] a(1,2) by auto
  from a(2) show ?thesis
  proof (cases rule: remove_round_cases [of "the_leaf s" i k v c pm])
    case (failed x)
    have "system_inv (observe (t, Remove_Returned x) ob) \<lparr>the_leaf = the_leaf s, threads = (threads s)(t := Idle)\<rparr>"
      by (rule thread_step [OF inv]) (use t in simp_all)
    moreover have "answer_ok (now ob) (views ob t) (Remove_Returned x)"
    proof -
      have "\<not> c v \<Longrightarrow> \<exists>y \<in> seen (views ob t). case contents y k of None \<Rightarrow> True | Some v \<Rightarrow> \<not> c v"
        using zs kv by (auto simp: abs_of_def intro!: bexI [OF _ zs])
      moreover have "rank ?m i = 15 \<Longrightarrow> \<exists>y \<in> seen (views ob t). case contents y k of None \<Rightarrow> True | Some v \<Rightarrow> \<not> c v"
        using a(5) by force
      moreover have "frozen ?m \<Longrightarrow> \<exists>y \<in> seen (views ob t). is_frozen y"
        using d(6) d(7) [of t] by (auto simp: abs_of_def intro!: bexI [of _ "now ob"])
      ultimately show ?thesis using a(4) failed(2) by auto
    qed
    ultimately show ?thesis using failed r by (auto simp: step_good_def)
  next
    case (removed x)
    let ?m' = "if x then retire (augment pm i 15) else augment pm i 15"
    have lv: "live ?m i" using a(1) removed(1) by simp
    have e: "x \<longleftrightarrow> (\<forall>j. live ?m j \<longrightarrow> j = i)" using removed(1,3) others_empty_iff [of i pm] by simp
    note rm = remove_inv [OF li lv iffD1 [OF e], unfolded removed(1)]
    have sk: "slot_key ?a i = k" using a(2) by (simp add: slot_key_def)
    have z: "now ob = abs_of pm ?a" using d(6) removed(1) by simp
    have i: "i < 14" by (rule live_less [OF lv])
    have ab: "abs_of ?m' ?a = apply_event (Removed k v x) (now ob)" using rm(2) sk i by (auto simp: z abs_of_def)
    have "system_inv (observe (t, Removed k v x) ob) \<lparr>the_leaf = (the_leaf s)\<lparr>leaf_metadata := ?m'\<rparr>, threads = (threads s)(t := Idle)\<rparr>"
    proof (rule finish_step [OF inv refl _ _ ab])
      fix j k' v' assume j: "j < 14" "j \<notin> ?S" "rank ?m j \<noteq> 0" "rank ?m j \<noteq> 15" "rank ?m' j = 15" "?a ! j = Some (k', v')"
      then have "j = i" using removed(1) i by (auto simp: rank_augment split: if_splits)
      then show "contents (apply_event (Removed k v x) (now ob)) k' = None" using j(6) a(2) by simp
    qed (use rm(1) t i removed(1) a(3) in \<open>auto simp: rank_augment\<close>)
    moreover have "x \<longleftrightarrow> (slots_map pm ?a)(k := None) = Map.empty"
    proof -
      have "slots_ok ?m' ?a" using leaf_invD(1) [OF rm(1)] .
      then have "slots_map ?m' ?a = Map.empty \<longleftrightarrow> (\<forall>j. \<not> live ?m' j)" by (rule slots_map_empty_iff)
      then show ?thesis using rm(2,3) sk e removed(1) by auto
    qed
    ultimately have good: "step_good ob t (Removed k v x) \<lparr>the_leaf = (the_leaf s)\<lparr>leaf_metadata := ?m'\<rparr>, threads = (threads s)(t := Idle)\<rparr>"
      using removed(2) a(3,4) kv by (simp add: step_good_def z abs_of_def)
    have "l = (the_leaf s)\<lparr>leaf_metadata := ?m'\<rparr>" "r = (if x then Remove_Retired else Remove_Success)" "value_at (the_leaf s) i = Some v"
      using removed(4) r a(2) by (simp_all add: value_at_def)
    then show ?thesis using good by (cases x) simp_all
  next
    case again
    then show ?thesis using r by simp
  qed
qed

lemma flag_step:
  assumes inv: "system_inv ob s" and m: "\<And>i. i < 14 \<Longrightarrow> rank m i = rank (leaf_metadata (the_leaf s)) i"
    and r: "retired m = retired (leaf_metadata (the_leaf s))"
    and e: "e = Froze b \<and> frozen m \<and> b = (\<not> frozen (leaf_metadata (the_leaf s))) \<or>
      e = Thawed b \<and> \<not> frozen m \<and> b = frozen (leaf_metadata (the_leaf s))"
  shows "step_good ob t e \<lparr>the_leaf = (the_leaf s)\<lparr>leaf_metadata := m\<rparr>, threads = threads s\<rparr>"
proof -
  let ?m = "leaf_metadata (the_leaf s)" and ?a = "entry_array (the_leaf s)" and ?P = "pending (threads s)"
  note d = system_invD [OF inv] and li = system_invD(2) [OF inv]
  have lv: "live m = live ?m" using m by (auto simp: live_def fun_eq_iff)
  have us: "used m = used ?m" unfolding used_def using m by (metis (mono_tags, lifting))
  have rl: "live ?m i \<Longrightarrow> rank m i = rank ?m i" for i using m live_less by blast
  have len: "length ?a = 14" by (rule slots_okD(1) [OF leaf_invD(1) [OF li]])
  note same = slots_ok_same [OF leaf_invD(1) [OF li] lv rl len refl]
  have l: "leaf_inv ?P m ?a" using same(1) li m r rl by (auto simp: leaf_inv_def lv us ranks_bounded_def)
  have ab: "abs_of m ?a = apply_event e (abs_of ?m ?a)" using same(2) r e by (auto simp: abs_of_def)
  have v: "own_view e z w = watch e z w" for z :: "('b, 'c) leaf_abs" and w using e by auto
  have x: "activity_ok m ?a ?P (own_view e (apply_event e (abs_of ?m ?a)) (views ob t)) (threads s t)"
    by (rule activity_ok_mono [OF d(3)]) (use m r e len in \<open>auto simp: v\<close>)
  have "system_inv (observe (t, e) ob) \<lparr>the_leaf = (the_leaf s)\<lparr>leaf_metadata := m\<rparr>, threads = (threads s)(t := threads s t)\<rparr>"
    by (rule system_invI [OF inv, where S' = ?P]) (use l ab x m r e in auto)
  moreover have "answer_ok (now ob) (views ob t) e" using e by (auto simp: d(6) abs_of_def)
  ultimately show ?thesis by (simp add: step_good_def)
qed

lemma freeze_thaw_step:
  assumes inv: "system_inv ob s"
  shows "leaf_freeze (the_leaf s) = (b, l) \<Longrightarrow> step_good ob t (Froze b) \<lparr>the_leaf = l, threads = threads s\<rparr>"
    "leaf_thaw (the_leaf s) = (b, l) \<Longrightarrow> step_good ob t (Thawed b) \<lparr>the_leaf = l, threads = threads s\<rparr>"
proof -
  let ?m = "leaf_metadata (the_leaf s)"
  note fz = flag_step [OF inv, of "Leaf_Meta.freeze ?m" "Froze True" True] flag_step [OF inv, of ?m "Froze False" False]
    and th = flag_step [OF inv, of "Leaf_Meta.thaw ?m" "Thawed True" True] flag_step [OF inv, of ?m "Thawed False" False]
  show "leaf_freeze (the_leaf s) = (b, l) \<Longrightarrow> step_good ob t (Froze b) \<lparr>the_leaf = l, threads = threads s\<rparr>"
    using fz by (auto simp: leaf_freeze_def fetch_update_def split: if_splits)
  show "leaf_thaw (the_leaf s) = (b, l) \<Longrightarrow> step_good ob t (Thawed b) \<lparr>the_leaf = l, threads = threads s\<rparr>"
    using th by (auto simp: leaf_thaw_def fetch_update_def split: if_splits)
qed

lemma leaf_step_good:
  assumes "leaf_step s t e s'" "system_inv ob s"
  shows "step_good ob t e s'"
  using assms
proof (induction rule: leaf_step.induct)
  case (insert_call s t k v)
  then show ?case using thread_step [OF insert_call(2), of "Inserting k v" t "Called (Ask_Insert k v)"] system_invD(3) [OF insert_call(2), of t]
    by (simp add: step_good_def)
next
  case (insert_load s t k v)
  note d = system_invD [OF insert_load(2)]
  have "asked (views ob t) = Some (Ask_Insert k v)" using d(3) [of t] insert_load(1) by simp
  moreover have "snapshot (leaf_metadata (the_leaf s)) (entry_array (the_leaf s)) (pending (threads s))
      (insert (now ob) (seen (views ob t))) (leaf_metadata (the_leaf s))" by (rule snapshot_now [OF d(2)]) (simp add: d(6))
  ultimately show ?case
    using thread_step [OF insert_load(2), of "Reserving (leaf_metadata (the_leaf s)) k v" t Internal] insert_load(1)
    by (simp add: step_good_def)
next
  case (reserve s t m k v i m' l)
  have ok: "slots_ok m (entry_array (the_leaf s))" using system_invD(3) [OF reserve(3), of t] reserve(1) by (simp add: snapshot_def)
  then show ?case
    using reserve(2) reserve_step [OF reserve(3), of t k v] reserve(1)
    by (cases rule: reserve_round_cases [of m "the_leaf s" k v]) auto
next
  case (reserve_again s t m k v m' l)
  note d = system_invD [OF reserve_again(3)]
  have a: "slots_ok m (entry_array (the_leaf s))" "asked (views ob t) = Some (Ask_Insert k v)"
    using d(3) [of t] reserve_again(1) by (auto simp: snapshot_def)
  have sn: "snapshot (leaf_metadata (the_leaf s)) (entry_array (the_leaf s)) (pending (threads s))
      (insert (now ob) (seen (views ob t))) (leaf_metadata (the_leaf s))" by (rule snapshot_now [OF d(2)]) (simp add: d(6))
  have "l = the_leaf s" "m' = leaf_metadata (the_leaf s)"
    using a(1) reserve_again(2) by (cases rule: reserve_round_cases [of m "the_leaf s" k v]; simp)+
  then show ?case
    using thread_step [OF reserve_again(3), of "Reserving m' k v" t Internal] reserve_again(1) a(2) sn by (simp add: step_good_def)
next
  case (refuse s t m k v r l)
  note d = system_invD [OF refuse(3)]
  have a: "slots_ok m (entry_array (the_leaf s))" "asked (views ob t) = Some (Ask_Insert k v)"
    "abs_of m (entry_array (the_leaf s)) \<in> seen (views ob t)" using d(3) [of t] refuse(1) by (auto simp: snapshot_def)
  have "answer_ok (now ob) (views ob t) (Insert_Returned r) \<and> l = the_leaf s"
    using a(1) refuse(2)
  proof (cases rule: reserve_round_cases [of m "the_leaf s" k v])
    case (refused r')
    then show ?thesis using refuse(2) a(2) bexI [OF _ a(3)] by (auto simp: abs_of_def)
  qed simp_all
  then show ?case using thread_step [OF refuse(3), of Idle t "Insert_Returned r"] refuse(1) by (simp add: step_good_def)
next
  case (fill s t i m k v)
  then show ?case by (intro fill_step)
next
  case (post s t i m k v l)
  then show ?case using post_step [OF post(3,1,2)] by simp
next
  case (post_again s t i m k v m' l)
  then show ?case using post_step [OF post_again(3,1,2)] by simp
next
  case (post_back s t i m k v l)
  then show ?case using post_step [OF post_back(3,1,2)] by simp
next
  case (post_unwritten s t i m k v l)
  then show ?case using post_step [OF post_unwritten(3,1,2)] by simp
next
  case (roll_back s t i k v r l)
  then show ?case by (intro roll_step)
next
  case (remove_call s t k c)
  then show ?case using thread_step [OF remove_call(2), of "Seeking k c" t "Called (Ask_Remove k c)"] system_invD(3) [OF remove_call(2), of t]
    by (simp add: step_good_def)
next
  case (seek s t k c i m)
  note d = system_invD [OF seek(3)]
  let ?m = "leaf_metadata (the_leaf s)"
  have "\<exists>v. live m i \<and> entry_array (the_leaf s) ! i = Some (k, v) \<and> \<not> frozen m \<and> m = ?m"
    using seek(2) by (cases rule: remove_find_cases [OF leaf_invD(1) [OF d(2)], of k]) simp_all
  then obtain v where f: "live m i" "entry_array (the_leaf s) ! i = Some (k, v)" "\<not> frozen m" "m = ?m" by blast
  have sn: "snapshot ?m (entry_array (the_leaf s)) (pending (threads s)) (insert (now ob) (seen (views ob t))) m"
    unfolding f(4) by (rule snapshot_now [OF d(2)]) (simp add: d(6))
  have "asked (views ob t) = Some (Ask_Remove k c)" using d(3) [of t] seek(1) by simp
  then show ?case
    using thread_step [OF seek(3), of "Removing i m k c" t Internal] seek(1) f sn live_rank(2) [OF f(1)] by (auto simp: step_good_def)
next
  case (miss s t k c r)
  note d = system_invD [OF miss(3)]
  have "asked (views ob t) = Some (Ask_Remove k c)" using d(3) [of t] miss(1) by simp
  moreover have "r = Remove_Frozen \<and> is_frozen (now ob) \<or> r = Remove_Fail \<and> contents (now ob) k = None"
    using miss(2) by (cases rule: remove_find_cases [OF leaf_invD(1) [OF d(2)], of k]) (auto simp: d(6) abs_of_def)
  ultimately have "answer_ok (now ob) (views ob t) (Remove_Returned r)" using bexI [OF _ d(7) [of t]] by auto
  then show ?case using thread_step [OF miss(3), of Idle t "Remove_Returned r"] miss(1) by (simp add: step_good_def)
next
  case (remove s t i m k c r l)
  then show ?case by (intro remove_step)
next
  case (remove_again s t i m k c m' l)
  note d = system_invD [OF remove_again(3)]
  let ?m = "leaf_metadata (the_leaf s)"
  obtain v where a: "live m i" "entry_array (the_leaf s) ! i = Some (k, v)" "asked (views ob t) = Some (Ask_Remove k c)"
    and sn: "snapshot ?m (entry_array (the_leaf s)) (pending (threads s)) (seen (views ob t)) m"
    using d(3) [of t] remove_again(1) by auto
  have f: "l = the_leaf s" "\<not> frozen m'" "m' = ?m" "rank m' i \<noteq> 15"
    using a(2) remove_again(2) by (cases rule: remove_round_cases [of "the_leaf s" i k v c m]; simp)+
  have "live ?m i" using sn a(1) f(3,4) live_less [OF a(1)] by (auto simp: snapshot_def live_def)
  moreover have "snapshot ?m (entry_array (the_leaf s)) (pending (threads s)) (insert (now ob) (seen (views ob t))) ?m"
    by (rule snapshot_now [OF d(2)]) (simp add: d(6))
  ultimately show ?case
    using thread_step [OF remove_again(3), of "Removing i m' k c" t Internal] a f remove_again(1) by (simp add: step_good_def)
qed (auto intro: freeze_thaw_step)

section \<open>Statements\<close>

lemma leaf_run_good:
  "leaf_run s es s' \<Longrightarrow> system_inv ob s \<Longrightarrow>
   system_inv (fold observe es ob) s' \<and> (\<forall>n<length es. allowed (fold observe (take n es) ob) (es ! n))"
proof (induction rule: leaf_run.induct)
  case (run_snoc s es s' t e s'')
  then have i: "system_inv (fold observe es ob) s'" "\<forall>n<length es. allowed (fold observe (take n es) ob) (es ! n)" by blast+
  have "step_good (fold observe es ob) t e s''" by (rule leaf_step_good [OF run_snoc(2) i(1)])
  then show ?case using i by (auto simp: step_good_def nth_append less_Suc_eq)
qed simp

lemma system_new_inv: "system_inv observer_new (system_new :: ('t, 'k::linorder, 'v) leaf_system)"
proof -
  have "pending (\<lambda>_ :: 't. Idle :: ('k, 'v) activity) = {}" by (simp add: pending_def)
  moreover have lv: "live 0 = (\<lambda>_. False)" by (auto simp: live_def)
  ultimately show ?thesis
    by (simp add: system_inv_def system_new_def one_owner_def leaf_inv_def slots_ok_def leaf_new_def ranks_bounded_def
        observer_new_def empty_abs_def abs_of_def slots_map_def)
qed


text \<open>Two threads that insert the same key at the same time: the second exchange for a slot fails and is
  repeated, both write their entry, the exchanges of both fail once, one thread wins and the other one
  takes its entry back.\<close>

abbreviation race_leaf :: "u64 \<Rightarrow> (nat \<times> nat) option \<Rightarrow> (nat \<times> nat) option \<Rightarrow> (nat, nat) leaf" where
  "race_leaf m x y \<equiv> \<lparr>leaf_metadata = m, entry_array = [x, y, None, None, None, None, None, None, None, None, None, None, None, None]\<rparr>"

definition race ::
  "u64 \<Rightarrow> (nat \<times> nat) option \<Rightarrow> (nat \<times> nat) option \<Rightarrow> (nat, nat) activity \<Rightarrow> (nat, nat) activity \<Rightarrow> (bool, nat, nat) leaf_system" where
  "race m x y p q = \<lparr>the_leaf = race_leaf m x y, threads = (\<lambda>b. if b then p else q)\<rparr>"

lemma race_simps [simp]:
  "the_leaf (race m x y p q) = race_leaf m x y" "threads (race m x y p q) True = p" "threads (race m x y p q) False = q"
  "\<lparr>the_leaf = race_leaf m' x' y', threads = (threads (race m x y p q))(True := r)\<rparr> = race m' x' y' r q"
  "\<lparr>the_leaf = race_leaf m' x' y', threads = (threads (race m x y p q))(False := r)\<rparr> = race m' x' y' p r"
  "\<lparr>the_leaf = race_leaf m' x' y', threads = threads (race m x y p q)\<rparr> = race m' x' y' p q"
  by (auto simp: race_def)

lemma race_new: "system_new = race 0 None None Idle Idle"
  by (simp add: system_new_def leaf_new_def eval_nat_numeral race_def)

lemma race_rounds:
  "reserve_round (race_leaf 0 None None) 0 5 3 = (Inl (Inr (0, 15)), race_leaf 15 None None)"
  "reserve_round (race_leaf 15 None None) 0 5 2 = (Inr 15, race_leaf 15 None None)"
  "reserve_round (race_leaf 15 None None) 15 5 2 = (Inl (Inr (1, 255)), race_leaf 255 None None)"
  "post_insert_attempt (race_leaf 255 (Some (5, 3)) (Some (5, 2))) 0 15 = (Outdated 255, race_leaf 255 (Some (5, 3)) (Some (5, 2)))"
  "post_insert_attempt (race_leaf 255 (Some (5, 3)) (Some (5, 2))) 0 255 = (Posted, race_leaf 241 (Some (5, 3)) (Some (5, 2)))"
  "post_insert_attempt (race_leaf 241 (Some (5, 3)) (Some (5, 2))) 1 255 = (Outdated 241, race_leaf 241 (Some (5, 3)) (Some (5, 2)))"
  "post_insert_attempt (race_leaf 241 (Some (5, 3)) (Some (5, 2))) 1 241 = (Rolls_Back, race_leaf 241 (Some (5, 3)) (Some (5, 2)))"
  "rollback (race_leaf 241 (Some (5, 3)) (Some (5, 2))) 1 = (Some (Duplicate 5 2), race_leaf 1 (Some (5, 3)) (Some (5, 2)))"
  by code_simp+

lemma race_write:
  "leaf_write (race_leaf m x y) 0 k v = race_leaf m (Some (k, v)) y" "leaf_write (race_leaf m x y) 1 k v = race_leaf m x (Some (k, v))"
  by (simp_all add: leaf_write_def)



lemma leaf_run_Cons:
  assumes "leaf_step s t e s'" "leaf_run s' es s''"
  shows "leaf_run s ((t, e) # es) s''"
  using assms(2,1)
proof (induction rule: leaf_run.induct)
  case (run_nil s')
  then show ?case using run_snoc [OF leaf_run.run_nil] by fastforce
next
  case (run_snoc s' es u t' e' u')
  then show ?case using leaf_run.run_snoc [of s "(t, e) # es" u t' e' u'] by simp
qed



lemma thaw_rounds:
  "leaf_freeze (race_leaf 15 (Some (5, 3)) None) = (True, race_leaf (Leaf_Meta.freeze 15) (Some (5, 3)) None)"
  "post_insert_attempt (race_leaf (Leaf_Meta.freeze 15) (Some (5, 3)) None) 0 15 =
     (Rolls_Back, race_leaf (Leaf_Meta.freeze 15) (Some (5, 3)) None)"
  "leaf_thaw (race_leaf (Leaf_Meta.freeze 15) (Some (5, 3)) None) = (True, race_leaf 15 (Some (5, 3)) None)"
  "rollback (race_leaf 15 (Some (5, 3)) None) 0 = (Some (Duplicate 5 3), race_leaf 0 (Some (5, 3)) None)"
  by code_simp+

text \<open>C39. The answer that the observer excepts is given: in a run without any successful insertion, an insertion
  answers \<open>Duplicate\<close>, and the leaf is empty. The
  leaf is frozen when the exchange of the insertion fails, and thawed, as the rollback of a split does it,
  before the insertion gives its slot back; \<^verbatim>\<open>rollback\<close> of the leaf then takes a leaf that is neither frozen nor retired
  as the sign of a duplicate.\<close>

theorem leaf_insert_duplicate_after_thaw:
  "leaf_run system_new
     [(True, Called (Ask_Insert 5 3)), (True, Internal), (True, Internal), (True, Internal), (False, Froze True), (True, Internal),
      (False, Thawed True), (True, Insert_Returned (Duplicate 5 3))] (race 0 (Some (5, 3)) None Idle Idle) \<and>
   leaf_map (the_leaf (race 0 (Some (5, 3)) None Idle Idle)) = Map.empty"
proof
  let ?f = "Leaf_Meta.freeze 15"
  have "leaf_step (race 0 None None Idle Idle) True (Called (Ask_Insert 5 3)) (race 0 None None (Inserting 5 3) Idle)"
    "leaf_step (race 0 None None (Inserting 5 3) Idle) True Internal (race 0 None None (Reserving 0 5 3) Idle)"
    "leaf_step (race 0 None None (Reserving 0 5 3) Idle) True Internal (race 15 None None (Reserved 0 15 5 3) Idle)"
    "leaf_step (race 15 None None (Reserved 0 15 5 3) Idle) True Internal (race 15 (Some (5, 3)) None (Posting 0 15 5 3) Idle)"
    "leaf_step (race 15 (Some (5, 3)) None (Posting 0 15 5 3) Idle) False (Froze True) (race ?f (Some (5, 3)) None (Posting 0 15 5 3) Idle)"
    "leaf_step (race ?f (Some (5, 3)) None (Posting 0 15 5 3) Idle) True Internal (race ?f (Some (5, 3)) None (Rolling 0 5 3) Idle)"
    "leaf_step (race ?f (Some (5, 3)) None (Rolling 0 5 3) Idle) False (Thawed True) (race 15 (Some (5, 3)) None (Rolling 0 5 3) Idle)"
    "leaf_step (race 15 (Some (5, 3)) None (Rolling 0 5 3) Idle) True (Insert_Returned (Duplicate 5 3)) (race 0 (Some (5, 3)) None Idle Idle)"
    using leaf_step.insert_call [of "race 0 None None Idle Idle" True 5 3] leaf_step.insert_load [of "race 0 None None (Inserting 5 3) Idle" True]
      leaf_step.reserve [of "race 0 None None (Reserving 0 5 3) Idle" True]
      leaf_step.fill [of "race 15 None None (Reserved 0 15 5 3) Idle" True]
      leaf_step.freeze [of "race 15 (Some (5, 3)) None (Posting 0 15 5 3) Idle" True _ False]
      leaf_step.post_back [of "race ?f (Some (5, 3)) None (Posting 0 15 5 3) Idle" True 0 15 5 3 "race_leaf ?f (Some (5, 3)) None"]
      leaf_step.thaw [of "race ?f (Some (5, 3)) None (Rolling 0 5 3) Idle" True _ False]
      leaf_step.roll_back [of "race 15 (Some (5, 3)) None (Rolling 0 5 3) Idle" True 0 5 3 "Some (Duplicate 5 3)" "race_leaf 0 (Some (5, 3)) None"]
    by (simp_all add: race_rounds thaw_rounds race_write)
  then show "leaf_run system_new
     [(True, Called (Ask_Insert 5 3)), (True, Internal), (True, Internal), (True, Internal), (False, Froze True), (True, Internal),
      (False, Thawed True), (True, Insert_Returned (Duplicate 5 3))] (race 0 (Some (5, 3)) None Idle Idle)"
    unfolding race_new by - ((rule leaf_run_Cons, assumption)+, rule leaf_run.run_nil)
  show "leaf_map (the_leaf (race 0 (Some (5, 3)) None Idle Idle)) = Map.empty"
    by (simp add: leaf_map_def slots_map_def live_def)
qed

text \<open>A frozen leaf only changes after it is thawed, and a retired one never.\<close>

lemma step_good_allowed:
  assumes "leaf_step s t e s'" "system_inv ob s"
  shows "answer_ok (now ob) (views ob t) e" "system_inv (observe (t, e) ob) s'"
    "now (observe (t, e) ob) = apply_event e (now ob)"
  using leaf_step_good [OF assms] by (simp_all add: step_good_def observe.simps Let_def)

text \<open>C27. Freezing stops a leaf: from a frozen leaf, no step but a thaw changes its map or clears the flag,
  even if insertions and removals were already under way. Retirement is final: a retired leaf has no
  entries and stays retired.\<close>

theorem leaf_frozen_and_retired:
  fixes s :: "('t, 'k::linorder, 'v) leaf_system"
  assumes "leaf_run system_new es s" "leaf_step s t e s'"
  shows "(frozen (leaf_metadata (the_leaf s)) \<longrightarrow> e \<noteq> Thawed True \<longrightarrow>
      frozen (leaf_metadata (the_leaf s')) \<and> leaf_map (the_leaf s') = leaf_map (the_leaf s)) \<and>
    (retired (leaf_metadata (the_leaf s)) \<longrightarrow>
      leaf_map (the_leaf s) = Map.empty \<and> leaf_map (the_leaf s') = Map.empty \<and> retired (leaf_metadata (the_leaf s')))"
proof -
  have inv: "system_inv (observed es) s" using leaf_run_good [OF assms(1) system_new_inv] by (simp add: observed_def)
  note g = step_good_allowed [OF assms(2) inv]
  have ab: "now ob = abs_of (leaf_metadata (the_leaf x)) (entry_array (the_leaf x))"
    "retired (leaf_metadata (the_leaf x)) \<longrightarrow> leaf_map (the_leaf x) = Map.empty"
    if "system_inv ob x" for x :: "('t, 'k, 'v) leaf_system" and ob
    using system_invD(6) [OF that] leaf_invD(1,5) [OF system_invD(2) [OF that]] slots_map_empty_iff
    by (auto simp: leaf_map_def)
  have z: "apply_event e (now (observed es)) = abs_of (leaf_metadata (the_leaf s')) (entry_array (the_leaf s'))"
    using g(2,3) ab(1) by metis
  have fr: "contents (apply_event e (now (observed es))) = contents (now (observed es)) \<and> is_frozen (apply_event e (now (observed es)))"
    if "is_frozen (now (observed es))" "e \<noteq> Thawed True" using g(1) that by (cases e) auto
  have rt: "is_retired (now (observed es)) \<longrightarrow> is_retired (apply_event e (now (observed es)))" by (cases e) auto
  show ?thesis
    using fr rt z ab(1) [OF inv] ab(2) [OF inv] ab(2) [OF g(2)] by (auto simp: abs_of_def leaf_map_def)
qed

theorem leaf_frozen_and_retired_witness:
  "\<exists>(s :: (bool, nat, nat) leaf_system) s'. leaf_run system_new [(True, Froze True)] s \<and> frozen (leaf_metadata (the_leaf s)) \<and>
     leaf_step s False (Froze False) s' \<and> frozen (leaf_metadata (the_leaf s'))"
proof -
  let ?s = "race (Leaf_Meta.freeze 0) None None Idle Idle"
  have f: "leaf_freeze (race_leaf 0 None None) = (True, race_leaf (Leaf_Meta.freeze 0) None None)"
    "leaf_freeze (race_leaf (Leaf_Meta.freeze 0) None None) = (False, race_leaf (Leaf_Meta.freeze 0) None None)"
    by (simp_all add: leaf_freeze_def fetch_update_def)
  have "leaf_step system_new True (Froze True) ?s" unfolding race_new using leaf_step.freeze [of "race 0 None None Idle Idle" True _ True] f(1) by simp
  then have r: "leaf_run system_new [(True, Froze True)] ?s" by (rule leaf_run_Cons) (rule leaf_run.run_nil)
  have st: "leaf_step ?s False (Froze False) ?s" using leaf_step.freeze [of ?s False _ False] f(2) by simp
  from leaf_frozen_and_retired [OF r st] r st show ?thesis by (intro exI [of _ ?s]) simp
qed

end
