(* ===== verification/Leaf_Thms.thy ===== *)
theory Leaf_Thms
  imports Leaf_Steps
begin

text \<open>The functional behaviour of insertion, removal and drop of a leaf used by one thread, as a special case
  of the lemmas on single exchanges.\<close>

section \<open>Sequential use\<close>

lemma leaf_ok_inv: "leaf_ok l \<longleftrightarrow> leaf_inv {} (leaf_metadata l) (entry_array l) \<and>
    (\<forall>i<14. rank (leaf_metadata l) i \<noteq> 0 \<longrightarrow> entry_array l ! i \<noteq> None)"
  by (auto simp: leaf_ok_def leaf_inv_def)

text \<open>\<^verbatim>\<open>insert\<close> on a leaf: a retired or frozen leaf refuses, a present key is reported as a duplicate, a leaf
  without a free slot as full, and otherwise the entry is added. The pair is handed back whenever it is
  not stored, and the ranks stay within their four bits.\<close>

theorem leaf_insert_behaviour:
  assumes ok: "leaf_ok l"
  shows "\<exists>r l'. leaf_insert l k v = (Some r, l') \<and> leaf_ok l' \<and>
    frozen (leaf_metadata l') = frozen (leaf_metadata l) \<and> retired (leaf_metadata l') = retired (leaf_metadata l) \<and>
    (if retired (leaf_metadata l) then r = Insert_Retired k v \<and> l' = l
     else if frozen (leaf_metadata l) then r = Insert_Frozen k v \<and> l' = l
     else if leaf_map l k \<noteq> None then r = Duplicate k v \<and> leaf_map l' = leaf_map l
     else if \<forall>i<NUM_ENTRIES. rank (leaf_metadata l) i \<noteq> 0 then r = Full k v \<and> l' = l
     else r = Insert_Success \<and> leaf_map l' = (leaf_map l)(k \<mapsto> v))"
proof (cases "retired (leaf_metadata l) \<or> frozen (leaf_metadata l)")
  case True
  then show ?thesis using ok by (auto simp: leaf_insert_def leaf_reserve_def reserve_round_def Let_def)
next
  case False
  let ?m = "leaf_metadata l" and ?a = "entry_array l"
  have so: "slots_ok ?m ?a" and inv: "leaf_inv {} ?m ?a" using ok by (simp_all add: leaf_ok_inv leaf_inv_def)
  show ?thesis
  proof (cases "first_uninit [0..<14] ?m")
    case None
    then have "leaf_insert l k v = (Some (if leaf_map l k \<noteq> None then Duplicate k v else Full k v), l)"
      using False search_slot_iff(2) [OF so, of k] slots_map_None_iff [OF so, of k]
      by (simp add: leaf_insert_def leaf_reserve_def reserve_round_def leaf_map_def Let_def)
    then show ?thesis using ok False first_uninit_None [OF None] by auto
  next
    case (Some i)
    have i: "i < 14" "rank ?m i = 0" using first_uninit_Some [OF Some] by auto
    let ?m1 = "augment ?m i 15" and ?a1 = "?a[i := Some (k, v)]"
    let ?l1 = "\<lparr>leaf_metadata = ?m1, entry_array = ?a1\<rparr>"
    have l: "(leaf_write (l\<lparr>leaf_metadata := ?m1\<rparr>) i k v) = ?l1" by (cases l) (simp add: leaf_write_def)
    have e: "leaf_insert l k v = post_insert 1 ?l1 i ?m1"
      using Some False by (simp add: leaf_insert_def leaf_reserve_def reserve_round_def Let_def l)
    note r = reserve_inv [OF inv i]
    note w = write_inv [OF r(2), of i "Some (k, v)", simplified]
    have ent: "?a1 ! i = Some (k, v)" using i(1) slots_okD(1) [OF so] by simp
    have mp: "slots_map ?m1 ?a1 = leaf_map l" using w(2) r(3) by (simp add: leaf_map_def)
    have wr: "\<forall>j<14. rank ?m j \<noteq> 0 \<or> j = i \<longrightarrow> ?a1 ! j \<noteq> None"
    proof (intro allI impI)
      fix j assume "j < 14" "rank ?m j \<noteq> 0 \<or> j = i"
      then show "?a1 ! j \<noteq> None" using ok ent by (cases "j = i") (auto simp: leaf_ok_inv)
    qed
    have nf: "\<not> frozen ?m1" "\<not> retired ?m1" using False i(1) by simp_all
    have key: "key_at ?l1 i = Some k" using ent by (simp add: key_at_def)
    have inv1: "leaf_inv {i} ?m1 (entry_array ?l1)" and ent1: "entry_array ?l1 ! i = Some (k, v)" using w(1) ent by simp_all
    note loop = post_insert_loop [OF leaf_invD(1) [OF inv1], of k]
    show ?thesis
    proof (cases "rank_loop (post_insert_body ?l1 k) [0..<14] ?m1 (0, 15, ?m1)")
      case (Inl u)
      let ?l2 = "\<lparr>leaf_metadata = augment ?m1 i 0, entry_array = ?a1\<rparr>"
      have "leaf_insert l k v = (Some (Duplicate k v), ?l2)"
        using e key Inl ent nf i(1) by (simp add: post_insert_round_def post_insert_attempt_def rollback_def leaf_take_def clear_rank Let_def)
      moreover have "slots_map ?m1 ?a1 k \<noteq> None"
        using loop(1) Inl slots_map_None_iff [OF leaf_invD(1) [OF inv1], of k] by auto
      moreover have "leaf_ok ?l2"
        using rollback_inv(1) [OF w(1), of i] wr i(1) by (auto simp: leaf_ok_inv rank_augment split: if_splits)
      moreover have "leaf_map ?l2 = leaf_map l" using rollback_inv(2) [OF w(1), of i] mp by (simp add: leaf_map_def)
      moreover have "frozen (leaf_metadata ?l2) = frozen ?m" "retired (leaf_metadata ?l2) = retired ?m" using i(1) by simp_all
      ultimately show ?thesis using False mp by auto
    next
      case (Inr x)
      obtain lo hi new where x: "x = (lo, hi, new)" by (cases x)
      note c = commit_inv [OF inv1 _ ent1 nf(2) Inr [unfolded x], simplified]
      let ?l2 = "\<lparr>leaf_metadata = augment new i (Suc lo), entry_array = ?a1\<rparr>"
      have "leaf_insert l k v = (Some Insert_Success, ?l2)"
        using e key Inr x by (simp add: post_insert_round_def post_insert_attempt_def Let_def)
      moreover have "rank (augment new i (Suc lo)) j \<noteq> 0 \<Longrightarrow> j < 14 \<Longrightarrow> rank ?m j \<noteq> 0 \<or> j = i" for j
        using c(7) [of j] i(1) by (auto simp: rank_augment split: if_splits)
      then have "\<forall>j<14. rank (augment new i (Suc lo)) j \<noteq> 0 \<longrightarrow> ?a1 ! j \<noteq> None" using wr by blast
      then have "leaf_ok ?l2" using c(1) by (simp add: leaf_ok_inv)
      moreover have "leaf_map ?l2 = (leaf_map l)(k \<mapsto> v)" using c(2) mp by (simp add: leaf_map_def)
      moreover have "leaf_map l k = None" using c(3) mp by simp
      moreover have "frozen (leaf_metadata ?l2) = frozen ?m" "retired (leaf_metadata ?l2) = retired ?m" using c(4,5) i(1) by simp_all
      ultimately show ?thesis using False i by auto
    qed
  qed
qed

theorem leaf_insert_behaviour_witness:
  "(\<exists>l'. leaf_insert example_leaf 5 50 = (Some Insert_Success, l') \<and> leaf_map l' = [3 \<mapsto> 30, 4 \<mapsto> 40, 9 \<mapsto> 90, 5 \<mapsto> 50]) \<and>
   (\<exists>l'. leaf_insert example_leaf 4 50 = (Some (Duplicate 4 50), l'))"
proof -
  have r: "\<not> retired (leaf_metadata example_leaf)" and "rank (leaf_metadata example_leaf) 5 = 0" by code_simp+
  then have n: "(\<forall>i<NUM_ENTRIES. rank (leaf_metadata example_leaf) i \<noteq> 0) = False" by (auto intro!: exI [of _ 5])
  show ?thesis
    using leaf_insert_behaviour [OF example_leaf_ok(1), of 5 50, unfolded n]
      leaf_insert_behaviour [OF example_leaf_ok(1), of 4 50] r example_leaf_ok(2,3) by (auto simp: fun_eq_iff)
qed

text \<open>\<^verbatim>\<open>remove_if\<close> on a leaf: a frozen leaf refuses, an absent key or a condition that does not hold leaves
  the leaf alone, and otherwise exactly that entry is removed. The leaf retires if and only if it was the last
  one.\<close>

theorem leaf_remove_behaviour:
  assumes ok: "leaf_ok l"
  shows "\<exists>r l'. remove_if l k c = (Some r, l') \<and> leaf_ok l' \<and> frozen (leaf_metadata l') = frozen (leaf_metadata l) \<and>
    (if frozen (leaf_metadata l) then r = Remove_Frozen \<and> l' = l
     else case leaf_map l k of
            None \<Rightarrow> r = Remove_Fail \<and> l' = l
          | Some v \<Rightarrow>
              if \<not> c v then r = Remove_Fail \<and> l' = l
              else leaf_map l' = (leaf_map l)(k := None) \<and>
                   r = (if leaf_map l' = Map.empty then Remove_Retired else Remove_Success) \<and>
                   (retired (leaf_metadata l') \<longleftrightarrow> leaf_map l' = Map.empty))"
proof -
  let ?m = "leaf_metadata l" and ?a = "entry_array l"
  have so: "slots_ok ?m ?a" and inv: "leaf_inv {} ?m ?a" using ok by (simp_all add: leaf_ok_inv leaf_inv_def)
  show ?thesis
  proof (cases "frozen ?m \<or> leaf_map l k = None")
    case True
    have "search_slot l k ?m = None" if "leaf_map l k = None"
      using that search_slot_iff(2) [OF so, of k] slots_map_None_iff [OF so, of k] by (simp add: leaf_map_def)
    then have "remove_if l k c = (Some (if frozen ?m then Remove_Frozen else Remove_Fail), l)"
      using True by (auto simp: remove_if_def remove_find_def search_slot_def Let_def split: sum.splits)
    then show ?thesis using ok True by auto
  next
    case False
    then obtain v where v: "leaf_map l k = Some v" by auto
    then obtain i where i: "live ?m i" "?a ! i = Some (k, v)" using slots_map_Some_iff [OF so, of k v] by (auto simp: leaf_map_def)
    have sk: "slot_key ?a i = k" using i(2) by (simp add: slot_key_def)
    then have "search_slot l k ?m = Some i" using search_slot_iff(1) [OF so, of k i] i(1) by simp
    then have f: "remove_find l k = Inr (i, ?m)"
      using False by (simp add: remove_find_def search_slot_def Let_def split: sum.splits)
    show ?thesis
    proof (cases "c v")
      case no: False
      then have "remove_if l k c = (Some Remove_Fail, l)" using f i(2) by (simp add: remove_if_def remove_round_def value_at_def)
      then show ?thesis using ok False v no by simp
    next
      case True
      let ?e = "others_empty i ?m"
      let ?m' = "if ?e then retire (augment ?m i 15) else augment ?m i 15"
      let ?l' = "l\<lparr>leaf_metadata := ?m'\<rparr>"
      have e: "?e \<Longrightarrow> \<forall>j. live ?m j \<longrightarrow> j = i" using others_empty_iff [of i ?m] by simp
      note rm = remove_inv [where r = ?e, OF inv i(1) e]
      have r: "remove_if l k c = (Some (if ?e then Remove_Retired else Remove_Success), ?l')"
        using f i(2) True by (simp add: remove_if_def remove_round_def value_at_def set_removed Let_def)
      have mp: "leaf_map ?l' = (leaf_map l)(k := None)" using rm(2) sk by (simp add: leaf_map_def)
      have emp: "leaf_map ?l' = Map.empty \<longleftrightarrow> ?e"
      proof -
        have "leaf_map ?l' = Map.empty \<longleftrightarrow> (\<forall>j. \<not> live ?m' j)"
          using slots_map_empty_iff [OF leaf_invD(1) [OF rm(1)]] by (simp add: leaf_map_def)
        also have "\<dots> \<longleftrightarrow> (\<forall>j. \<not> (live ?m j \<and> j \<noteq> i))" using rm(3) by simp
        also have "\<dots> \<longleftrightarrow> ?e" using others_empty_iff [of i ?m] by blast
        finally show ?thesis .
      qed
      have "\<not> retired ?m" using leaf_invD(5) [OF inv] i(1) by blast
      then have rt: "retired ?m' \<longleftrightarrow> ?e" using live_less [OF i(1)] by simp
      have "leaf_ok ?l'"
        using rm(1) ok i(2) live_less [OF i(1)] by (auto simp: leaf_ok_inv rank_augment split: if_splits)
      moreover have "frozen (leaf_metadata ?l') = frozen ?m" using live_less [OF i(1)] by simp
      moreover have "if frozen ?m then (if ?e then Remove_Retired else Remove_Success) = Remove_Frozen \<and> ?l' = l
          else case leaf_map l k of
            None \<Rightarrow> (if ?e then Remove_Retired else Remove_Success) = Remove_Fail \<and> ?l' = l
          | Some v \<Rightarrow>
              if \<not> c v then (if ?e then Remove_Retired else Remove_Success) = Remove_Fail \<and> ?l' = l
              else leaf_map ?l' = (leaf_map l)(k := None) \<and>
                   (if ?e then Remove_Retired else Remove_Success) = (if leaf_map ?l' = Map.empty then Remove_Retired else Remove_Success) \<and>
                   (retired (leaf_metadata ?l') \<longleftrightarrow> leaf_map ?l' = Map.empty)"
        unfolding emp using mp rt False v True by simp
      ultimately show ?thesis using r by blast
    qed
  qed
qed

theorem leaf_remove_behaviour_witness:
  "\<exists>l'. remove_if example_leaf 4 (\<lambda>v. v = 40) = (Some Remove_Success, l') \<and> leaf_map l' = [3 \<mapsto> 30, 9 \<mapsto> 90]"
proof -
  have "[3 \<mapsto> 30, 9 \<mapsto> (90 :: nat)] \<noteq> (Map.empty :: nat \<rightharpoonup> nat)" by (metis fun_upd_same option.distinct(1))
  moreover have "[3 \<mapsto> 30, 4 \<mapsto> 40, 9 \<mapsto> 90](4 := None) = ([3 \<mapsto> 30, 9 \<mapsto> 90] :: nat \<rightharpoonup> nat)" by (auto simp: fun_eq_iff)
  ultimately show ?thesis
    using leaf_remove_behaviour [OF example_leaf_ok(1), of 4 "\<lambda>v. v = 40"] example_leaf_ok(2,3) by auto
qed

lemma drop_collect:
  "rank_iter (\<lambda>i r s. Inr (if 0 < r then s @ [f i] else s)) rk is s = (Inr (s @ map f (filter (\<lambda>i. 0 < rk i) is)) :: unit + _)"
  by (induction "is" arbitrary: s) simp_all

text \<open>Dropping a leaf takes exactly the entries that were written and not handed back: each slot in use
  once, live or removed, and none that was never written.\<close>

theorem leaf_drop_takes_entries:
  assumes "leaf_ok l"
  shows "leaf_drop l = map (leaf_take l) (filter (\<lambda>i. rank (leaf_metadata l) i \<noteq> 0) [0..<NUM_ENTRIES]) \<and>
    None \<notin> set (leaf_drop l) \<and> (\<forall>k v. leaf_map l k = Some v \<longrightarrow> Some (k, v) \<in> set (leaf_drop l))"
proof -
  have d: "leaf_drop l = map (leaf_take l) (filter (\<lambda>i. rank (leaf_metadata l) i \<noteq> 0) [0..<14])"
    unfolding leaf_drop_def by (subst rank_loop_ranks) (simp_all add: drop_collect)
  moreover have "Some (k, v) \<in> set (leaf_drop l)" if m: "leaf_map l k = Some v" for k v
  proof -
    have so: "slots_ok (leaf_metadata l) (entry_array l)" using assms by (simp add: leaf_ok_def)
    obtain i where "live (leaf_metadata l) i" "entry_array l ! i = Some (k, v)"
      using m slots_map_Some_iff [OF so, of k v] by (auto simp: leaf_map_def)
    then show ?thesis unfolding d by (force simp: leaf_take_def live_def)
  qed
  moreover have "None \<notin> set (leaf_drop l)" using assms unfolding d by (auto simp: leaf_ok_def leaf_take_def)
  ultimately show ?thesis by blast
qed

theorem leaf_drop_takes_entries_witness: "Some (4, 40) \<in> set (leaf_drop example_leaf)"
proof -
  have "leaf_map example_leaf 4 = Some 40" by (simp add: example_leaf_ok(2))
  then show ?thesis using leaf_drop_takes_entries [OF example_leaf_ok(1)] by blast
qed

end
