(* ===== verification/Bucket_Lock.thy ===== *)
theory Bucket_Lock
  imports Bucket
begin

text \<open>
  The lock of a bucket and its wait queue: \<^verbatim>\<open>Locker\<close> and \<^verbatim>\<open>Reader\<close> of \<^verbatim>\<open>src/hash_table/bucket.rs\<close> over the state word
  of the bucket, and \<^verbatim>\<open>WaitQueue\<close> of \<^verbatim>\<open>src/wait_queue.rs\<close>. The operations on the state word are functions; the
  threads that use them are a step relation in which every access to the state word, to the head of the
  wait queue and to the flag of a queue entry is a step of its own. The queue is the list of its
  entries, the head first.
\<close>

section \<open>The state word\<close>

definition WAITING :: u32 where "WAITING = shl1 30"
definition LOCK :: u32 where "LOCK = shl1 29"
definition SLOCK_MAX :: u32 where "SLOCK_MAX = LOCK - 1"
definition LOCK_MASK :: u32 where "LOCK_MASK = LOCK OR SLOCK_MAX"

datatype mode = Exclusive | Shared

text \<open>\<^verbatim>\<open>try_lock\<close> of \<^verbatim>\<open>Locker\<close> and of \<^verbatim>\<open>Reader\<close> up to the exchange: the value the exchange expects,
  \<^term>\<open>Inl True\<close> for a killed bucket, which is the result \<^verbatim>\<open>Ok(None)\<close>, and \<^term>\<open>Inl False\<close> for \<^verbatim>\<open>Err\<close>. The exchange itself
  is a step of its own; the value it stores is \<^verbatim>\<open>try_lock_new\<close>.\<close>

definition locker_try_lock :: "u32 \<Rightarrow> bool + u32" where
  "locker_try_lock st =
     (let current = st AND NOT LOCK_MASK
      in if current AND KILLED = KILLED then Inl True else Inr current)"

definition reader_try_lock :: "u32 \<Rightarrow> bool + u32" where
  "reader_try_lock st =
     (if st AND LOCK_MASK \<ge> SLOCK_MAX then Inl False
      else if st AND KILLED = KILLED then Inl True
      else Inr st)"

definition try_lock_load :: "mode \<Rightarrow> u32 \<Rightarrow> bool + u32" where
  "try_lock_load m = (case m of Exclusive \<Rightarrow> locker_try_lock | Shared \<Rightarrow> reader_try_lock)"

definition try_lock_new :: "mode \<Rightarrow> u32 \<Rightarrow> u32" where
  "try_lock_new m current = (case m of Exclusive \<Rightarrow> current OR LOCK | Shared \<Rightarrow> current + 1)"

text \<open>\<^verbatim>\<open>drop\<close> of a \<^verbatim>\<open>Locker\<close> and \<^verbatim>\<open>release\<close> of a \<^verbatim>\<open>Reader\<close>: the value the last exchange stores and
  whether to signal. The loop of exchanges ends with the one that finds the current value.\<close>

definition locker_drop :: "u32 \<Rightarrow> u32 \<times> bool" where
  "locker_drop current = (current AND NOT (WAITING OR LOCK), current AND WAITING = WAITING)"

definition reader_release :: "u32 \<Rightarrow> u32 \<times> bool" where
  "reader_release current =
     (let wakeup = (current AND WAITING = WAITING);
          next = (current - 1) AND NOT WAITING
      in (next, wakeup))"

definition unlock :: "mode \<Rightarrow> u32 \<Rightarrow> u32 \<times> bool" where
  "unlock m = (case m of Exclusive \<Rightarrow> locker_drop | Shared \<Rightarrow> reader_release)"

text \<open>The lock part of the word as a number, and its flags.\<close>

definition lock_part :: "u32 \<Rightarrow> nat" where
  "lock_part st = unat (take_bit 30 st)"

abbreviation waiting :: "u32 \<Rightarrow> bool" where
  "waiting st \<equiv> bit st 30"

lemma SLOCK_MAX_mask: "SLOCK_MAX = mask 29"
  by (simp add: SLOCK_MAX_def LOCK_def shl1_def mask_eq_exp_minus_1 push_bit_eq_mult)

lemma LOCK_MASK_mask: "LOCK_MASK = mask 30"
  unfolding LOCK_MASK_def SLOCK_MAX_mask LOCK_def
  by (rule bit_word_eqI) (auto simp: bit_or_iff bit_shl1 bit_mask_iff)

lemma and_shl1: "(st :: u32) AND shl1 i = shl1 i \<longleftrightarrow> bit st i \<or> 32 \<le> i"
proof
  assume "st AND shl1 i = shl1 i"
  then have "bit (st AND shl1 i) i = bit (shl1 i :: u32) i" by simp
  then show "bit st i \<or> 32 \<le> i" by (auto simp: bit_and_iff bit_shl1)
next
  assume a: "bit st i \<or> 32 \<le> i"
  show "st AND shl1 i = shl1 i" by (rule bit_word_eqI) (use a in \<open>auto simp: bit_and_iff bit_shl1\<close>)
qed

lemma waiting_iff: "st AND WAITING = WAITING \<longleftrightarrow> waiting st"
  by (simp add: WAITING_def and_shl1)

lemma killed_iff: "st AND KILLED = KILLED \<longleftrightarrow> bit st 31"
  by (simp add: KILLED_def and_shl1)

lemma lock_part_mod: "lock_part st = unat st mod 2 ^ 30"
  unfolding lock_part_def unsigned_take_bit_eq by (rule take_bit_eq_mod)

lemma lock_part_bits: "(\<And>n. n < 30 \<Longrightarrow> bit st n = bit st' n) \<Longrightarrow> lock_part st = lock_part st'"
  unfolding lock_part_def by (rule arg_cong [of _ _ unat], rule bit_word_eqI) (auto simp: bit_take_bit_iff)

lemma slock_max_le: "SLOCK_MAX \<le> st AND LOCK_MASK \<longleftrightarrow> 2 ^ 29 - 1 \<le> lock_part st"
proof -
  have "unat SLOCK_MAX = 2 ^ 29 - 1" by (simp add: SLOCK_MAX_def LOCK_def shl1_def push_bit_eq_mult)
  moreover have "st AND LOCK_MASK = take_bit 30 st" unfolding LOCK_MASK_mask take_bit_eq_mask ..
  ultimately show ?thesis by (simp only: word_le_nat_alt lock_part_def)
qed

lemma lock_part_or_flag [simp]:
  "lock_part (st OR WAITING) = lock_part st" "lock_part (st OR KILLED) = lock_part st"
  by (rule lock_part_bits, simp add: bit_or_iff bit_shl1 WAITING_def KILLED_def)+

lemma waiting_or [simp]: "waiting (st OR WAITING)" "waiting (st OR KILLED) = waiting st"
  by (simp_all add: bit_or_iff bit_shl1 WAITING_def KILLED_def)

text \<open>The exclusive lock is taken from the unlocked word only, and the shared lock adds one.\<close>

lemma bit_clear_lock: "bit (st AND NOT LOCK_MASK) n \<longleftrightarrow> bit st n \<and> \<not> n < 30"
  using bit_imp_le_length [of st n] by (auto simp: LOCK_MASK_mask bit_and_iff bit_not_iff bit_mask_iff)

lemma lock_part_zero: "(\<And>n. n < 30 \<Longrightarrow> \<not> bit st n) \<Longrightarrow> lock_part st = 0"
  using lock_part_bits [of st 0] by (simp add: lock_part_def)

lemma exclusive_load:
  assumes "try_lock_load Exclusive st = Inr cur"
  shows "lock_part cur = 0" "waiting cur = waiting st"
proof -
  have cur: "cur = st AND NOT LOCK_MASK"
    using assms by (simp add: try_lock_load_def locker_try_lock_def Let_def split: if_splits)
  show "lock_part cur = 0" "waiting cur = waiting st"
    by (rule lock_part_zero) (simp_all add: cur bit_clear_lock)
qed

lemma exclusive_new:
  assumes "lock_part cur = 0"
  shows "lock_part (try_lock_new Exclusive cur) = 2 ^ 29"
    "waiting (try_lock_new Exclusive cur) = waiting cur"
proof -
  have "take_bit 30 cur = 0" using assms unfolding lock_part_def word_unat_eq_iff by simp
  then have z: "\<not> bit cur n" if "n < 30" for n
    using that bit_take_bit_iff [of 30 cur n] by simp
  have "lock_part (try_lock_new Exclusive cur) = lock_part LOCK"
    by (rule lock_part_bits) (simp add: try_lock_new_def bit_or_iff z)
  also have "\<dots> = 2 ^ 29" by (simp add: lock_part_mod LOCK_def shl1_def push_bit_eq_mult)
  finally show "lock_part (try_lock_new Exclusive cur) = 2 ^ 29" .
  show "waiting (try_lock_new Exclusive cur) = waiting cur"
    by (simp add: try_lock_new_def bit_or_iff LOCK_def bit_shl1)
qed

lemma shared_load:
  "try_lock_load Shared st = Inr cur \<Longrightarrow> cur = st \<and> lock_part st < 2 ^ 29 - 1"
  unfolding try_lock_load_def reader_try_lock_def mode.case slock_max_le by (simp split: if_splits)

lemma waiting_div: "waiting st \<longleftrightarrow> odd (unat st div 2 ^ 30)"
proof -
  have "waiting st = bit (unat st) 30" by (simp add: bit_unsigned_iff)
  then show ?thesis by (simp only: bit_iff_odd)
qed

lemma shared_new:
  assumes "lock_part cur < 2 ^ 29 - 1"
  shows "lock_part (try_lock_new Shared cur) = Suc (lock_part cur)"
    "waiting (try_lock_new Shared cur) = waiting cur"
proof -
  have m: "unat cur mod 2 ^ 30 < 2 ^ 29 - 1" using assms by (simp only: lock_part_mod)
  have "unat cur < 2 ^ LENGTH(32)" by (rule unsigned_less)
  then have "unat cur div 1073741824 \<le> 3" "unat cur mod 1073741824 < 536870911" using m by simp_all
  moreover have "1073741824 * (unat cur div 1073741824) + unat cur mod 1073741824 = unat cur"
    by (rule mult_div_mod_eq)
  ultimately have "unat cur + 1 < 4294967296" by linarith
  then have u: "unat (try_lock_new Shared cur) = unat cur + 1"
    unfolding try_lock_new_def mode.case by (simp add: unat_word_ariths)
  have d: "(unat cur + 1) div 2 ^ 30 = unat cur div 2 ^ 30" "(unat cur + 1) mod 2 ^ 30 = unat cur mod 2 ^ 30 + 1"
    using m by (simp_all add: div_Suc mod_Suc)
  show "lock_part (try_lock_new Shared cur) = Suc (lock_part cur)"
    unfolding lock_part_mod u d by simp
  show "waiting (try_lock_new Shared cur) = waiting cur"
    unfolding waiting_div u d ..
qed

lemma bit_WAITING: "bit WAITING n \<longleftrightarrow> n = 30"
  by (auto simp: WAITING_def bit_shl1)

lemma unlock_waiting: "\<not> waiting (fst (unlock m st))" "snd (unlock m st) = waiting st"
proof -
  show "\<not> waiting (fst (unlock m st))"
    by (cases m) (simp_all only: unlock_def locker_drop_def reader_release_def Let_def mode.case fst_conv bit_and_iff bit_not_iff bit_or_iff bit_WAITING simp_thms)
  show "snd (unlock m st) = waiting st"
    by (cases m) (simp_all only: unlock_def locker_drop_def reader_release_def Let_def mode.case snd_conv waiting_iff)
qed

lemma lock_part_and_flag: "lock_part (st AND NOT WAITING) = lock_part st"
  by (rule lock_part_bits) (simp add: bit_and_iff bit_not_iff WAITING_def bit_shl1)

lemma unlock_exclusive:
  assumes "lock_part st = 2 ^ 29"
  shows "lock_part (fst (unlock Exclusive st)) = 0"
proof -
  have "unat (take_bit 30 st) = unat LOCK"
    using assms by (simp add: lock_part_def LOCK_def shl1_def push_bit_eq_mult)
  then have "take_bit 30 st = LOCK" by (simp only: word_unat_eq_iff)
  then have "bit st n \<longleftrightarrow> n = 29" if "n < 30" for n
    using that bit_take_bit_iff [of 30 st n] by (simp add: LOCK_def bit_shl1)
  then show ?thesis
    by (intro lock_part_zero) (auto simp: unlock_def locker_drop_def bit_and_iff bit_not_iff bit_or_iff LOCK_def bit_shl1)
qed

lemma unlock_shared:
  assumes "lock_part st = Suc n"
  shows "lock_part (fst (unlock Shared st)) = n"
proof -
  have m: "unat st mod 2 ^ 30 = Suc n" using assms by (simp only: lock_part_mod)
  then have "1 \<le> unat st" by (cases "unat st") simp_all
  then have "unat (st - 1) = unat st - 1" by (subst unat_sub) (simp_all add: word_le_nat_alt)
  moreover have "(unat st - 1) mod 2 ^ 30 = n" using m by (cases "unat st") (simp_all add: mod_Suc split: if_splits)
  ultimately have "lock_part (st - 1) = n" by (simp only: lock_part_mod)
  then show ?thesis by (simp add: unlock_def reader_release_def Let_def lock_part_and_flag)
qed

text \<open>What a failing exchange means: an expected value that is not the word was taken from a locked word.\<close>

lemma load_current:
  assumes "try_lock_load m st = Inr cur"
  shows "st = cur \<or> 0 < lock_part st"
proof (cases m)
  case Shared
  then show ?thesis using assms shared_load [of st cur] by simp
next
  case Exclusive
  have "cur = st AND NOT LOCK_MASK"
    using assms Exclusive by (simp add: try_lock_load_def locker_try_lock_def Let_def split: if_splits)
  moreover have "st AND NOT LOCK_MASK = st" if "lock_part st = 0"
  proof (rule bit_word_eqI)
    fix n
    have "take_bit 30 st = 0" using that unfolding lock_part_def word_unat_eq_iff by simp
    then have "n < 30 \<Longrightarrow> \<not> bit st n" using bit_take_bit_iff [of 30 st n] by simp
    then show "bit (st AND NOT LOCK_MASK) n = bit st n" by (auto simp: bit_clear_lock)
  qed
  ultimately show ?thesis by auto
qed

lemma load_failed: "try_lock_load m st = Inl False \<Longrightarrow> 0 < lock_part st"
  by (cases m)
     (simp_all add: try_lock_load_def locker_try_lock_def reader_try_lock_def slock_max_le Let_def split: if_splits)

text \<open>The values an exchange may expect in a mode, and what it stores then.\<close>

definition expected :: "mode \<Rightarrow> u32 \<Rightarrow> bool" where
  "expected m cur \<longleftrightarrow> (case m of Exclusive \<Rightarrow> lock_part cur = 0 | Shared \<Rightarrow> lock_part cur < 2 ^ 29 - 1)"

lemma load_expected: "try_lock_load m st = Inr cur \<Longrightarrow> expected m cur"
  using exclusive_load(1) [of st cur] shared_load [of st cur] by (cases m) (auto simp: expected_def)

lemma expected_new:
  assumes "expected m cur"
  shows "0 < lock_part (try_lock_new m cur)" "waiting (try_lock_new m cur) = waiting cur"
  using assms exclusive_new [of cur] shared_new [of cur] by (cases m; simp add: expected_def)+

lemma or_waiting_id: "waiting st \<Longrightarrow> st OR WAITING = st"
  by (rule bit_word_eqI) (auto simp: bit_or_iff bit_WAITING)

end
