(* ===== verification/Bucket_Lock_Steps.thy ===== *)
theory Bucket_Lock_Steps
  imports Bucket_Lock
begin

text \<open>
  The threads and tasks that lock and unlock a bucket. A step is one access to what they share: the
  state word, the head of the wait queue, or the flag of an entry in the queue; a loop of exchanges is
  the exchange that succeeds. The entry of a caller in the queue is named by the caller, which has at
  most one; \<^verbatim>\<open>queue\<close> lists the entries from the head, the newest first, and \<^verbatim>\<open>completed\<close> holds
  the callers whose entry is signalled (\<^verbatim>\<open>completed\<close> of a \<^verbatim>\<open>SyncWait\<close>, the empty queue reference of an
  \<^verbatim>\<open>AsyncWait\<close>). The steps are interleaved sequentially: weaker orderings of the memory model are not
  represented.
\<close>

section \<open>Callers and their phases\<close>

text \<open>\<^verbatim>\<open>Try\<close> is \<^verbatim>\<open>try_lock\<close> alone, \<^verbatim>\<open>Sync\<close> is \<^verbatim>\<open>lock\<close>, and \<^verbatim>\<open>Async\<close> is \<^verbatim>\<open>try_lock_or_wait\<close> followed by the
  \<^verbatim>\<open>await\<close> of its \<^verbatim>\<open>AsyncWait\<close>. The results of the closure are \<^verbatim>\<open>Ok(Some)\<close>, \<^verbatim>\<open>Ok(None)\<close> and \<^verbatim>\<open>Err\<close>.\<close>

datatype kind = Try | Sync | Async
datatype outcome = Acquired | Gone | Failed

text \<open>What follows a signal: the rest of \<^verbatim>\<open>wait_sync\<close> or \<^verbatim>\<open>push_async_entry\<close>, the end of an unlock (for an
  asynchronous caller that disposes of its result, the \<^verbatim>\<open>await\<close> in that mode), or the rest of \<^verbatim>\<open>pull\<close>.\<close>

datatype cont = Entry kind mode outcome | Released "mode option" | Pulling

datatype 't phase =
    Idle
  | First_Load kind mode
  | First_Try kind mode u32
  | Push kind mode
  | Announce kind mode
  | Second_Load kind mode
  | Second_Try kind mode u32
  | Swap cont
  | Wake "'t list" cont
  | Await kind mode outcome
  | Dispose mode
  | Holding mode
  | Spin

record 't lock_sys =
  word :: u32
  queue :: "'t list"
  completed :: "'t set"
  phase :: "'t \<Rightarrow> 't phase"

abbreviation go :: "'t \<Rightarrow> 't phase \<Rightarrow> 't lock_sys \<Rightarrow> 't lock_sys" where
  "go t p s \<equiv> s\<lparr>phase := (phase s)(t := p)\<rparr>"

definition lock_init :: "'t lock_sys" where
  "lock_init = \<lparr>word = 0, queue = [], completed = {}, phase = (\<lambda>_. Idle)\<rparr>"

text \<open>The lock a caller holds; a result that is on its way to the caller holds it too.\<close>

fun cont_holds :: "cont \<Rightarrow> mode option" where
  "cont_holds (Entry k m Acquired) = Some m"
| "cont_holds _ = None"

fun holds :: "'t phase \<Rightarrow> mode option" where
  "holds (Swap c) = cont_holds c"
| "holds (Wake ws c) = cont_holds c"
| "holds (Await k m Acquired) = Some m"
| "holds (Dispose m) = Some m"
| "holds (Holding m) = Some m"
| "holds _ = None"

section \<open>Steps\<close>

text \<open>Where the first attempt leads when it fails, and how a call ends.\<close>

definition first_failed :: "kind \<Rightarrow> mode \<Rightarrow> 't phase" where
  "first_failed k m = (if k = Try then Idle else Push k m)"

definition returned :: "mode \<Rightarrow> outcome \<Rightarrow> 't phase" where
  "returned m r = (if r = Acquired then Holding m else Idle)"

text \<open>\<^verbatim>\<open>try_lock\<close>, \<^verbatim>\<open>lock\<close> and \<^verbatim>\<open>try_lock_or_wait\<close> up to the wait queue, and the closure they give to it.\<close>

inductive call_step :: "'t \<Rightarrow> 't lock_sys \<Rightarrow> 't lock_sys \<Rightarrow> bool" for t s where
  call: "phase s t = Idle \<Longrightarrow> call_step t s (go t (First_Load k m) s)"
| load_gone: "\<lbrakk>phase s t = First_Load k m; try_lock_load m (word s) = Inl True\<rbrakk>
    \<Longrightarrow> call_step t s (go t Idle s)"
| load_locked: "\<lbrakk>phase s t = First_Load k m; try_lock_load m (word s) = Inl False\<rbrakk>
    \<Longrightarrow> call_step t s (go t (first_failed k m) s)"
| load: "\<lbrakk>phase s t = First_Load k m; try_lock_load m (word s) = Inr cur\<rbrakk>
    \<Longrightarrow> call_step t s (go t (First_Try k m cur) s)"
| exchange: "\<lbrakk>phase s t = First_Try k m cur; word s = cur\<rbrakk>
    \<Longrightarrow> call_step t s (go t (Holding m) (s\<lparr>word := try_lock_new m cur\<rparr>))"
| exchange_failed: "\<lbrakk>phase s t = First_Try k m cur; word s \<noteq> cur\<rbrakk>
    \<Longrightarrow> call_step t s (go t (first_failed k m) s)"

inductive closure_step :: "'t \<Rightarrow> 't lock_sys \<Rightarrow> 't lock_sys \<Rightarrow> bool" for t s where
  announce: "phase s t = Announce k m
    \<Longrightarrow> closure_step t s (go t (Second_Load k m) (s\<lparr>word := word s OR WAITING\<rparr>))"
| load_gone: "\<lbrakk>phase s t = Second_Load k m; try_lock_load m (word s) = Inl True\<rbrakk>
    \<Longrightarrow> closure_step t s (go t (Swap (Entry k m Gone)) s)"
| load_locked: "\<lbrakk>phase s t = Second_Load k m; try_lock_load m (word s) = Inl False\<rbrakk>
    \<Longrightarrow> closure_step t s (go t (Await k m Failed) s)"
| load: "\<lbrakk>phase s t = Second_Load k m; try_lock_load m (word s) = Inr cur\<rbrakk>
    \<Longrightarrow> closure_step t s (go t (Second_Try k m cur) s)"
| exchange: "\<lbrakk>phase s t = Second_Try k m cur; word s = cur\<rbrakk>
    \<Longrightarrow> closure_step t s (go t (Swap (Entry k m Acquired)) (s\<lparr>word := try_lock_new m cur\<rparr>))"
| exchange_failed: "\<lbrakk>phase s t = Second_Try k m cur; word s \<noteq> cur\<rbrakk>
    \<Longrightarrow> closure_step t s (go t (Await k m Failed) s)"

text \<open>\<^verbatim>\<open>wait_sync\<close>: the entry is pushed, the closure runs, a success signals the queue, and the caller waits
  for its own signal whatever the closure returned; \<^verbatim>\<open>lock\<close> starts again after a failure.\<close>

inductive wait_sync_step :: "'t \<Rightarrow> 't lock_sys \<Rightarrow> 't lock_sys \<Rightarrow> bool" for t s where
  push: "phase s t = Push Sync m
    \<Longrightarrow> wait_sync_step t s (go t (Announce Sync m) (s\<lparr>queue := t # queue s, completed := completed s - {t}\<rparr>))"
| signalled: "phase s t = Wake [] (Entry Sync m r) \<Longrightarrow> wait_sync_step t s (go t (Await Sync m r) s)"
| wait: "\<lbrakk>phase s t = Await Sync m r; t \<in> completed s; r \<noteq> Failed\<rbrakk>
    \<Longrightarrow> wait_sync_step t s (go t (returned m r) s)"
| again: "\<lbrakk>phase s t = Await Sync m Failed; t \<in> completed s\<rbrakk>
    \<Longrightarrow> wait_sync_step t s (go t (First_Load Sync m) s)"

text \<open>\<^verbatim>\<open>push_async_entry\<close>: a success is returned only if the entry has been signalled by then (\<^verbatim>\<open>try_wait\<close>),
  and is disposed of otherwise; the caller awaits after a failure, and calls again when it is woken.\<close>

inductive async_step :: "'t \<Rightarrow> 't lock_sys \<Rightarrow> 't lock_sys \<Rightarrow> bool" for t s where
  push: "phase s t = Push Async m
    \<Longrightarrow> async_step t s (go t (Announce Async m) (s\<lparr>queue := t # queue s, completed := completed s - {t}\<rparr>))"
| try_wait: "\<lbrakk>phase s t = Wake [] (Entry Async m r); t \<in> completed s\<rbrakk>
    \<Longrightarrow> async_step t s (go t (returned m r) s)"
| try_wait_failed: "\<lbrakk>phase s t = Wake [] (Entry Async m r); t \<notin> completed s\<rbrakk>
    \<Longrightarrow> async_step t s (go t (if r = Acquired then Dispose m else Await Async m Failed) s)"
| ready: "\<lbrakk>phase s t = Await Async m Failed; t \<in> completed s\<rbrakk> \<Longrightarrow> async_step t s (go t Idle s)"

text \<open>The drop of an \<^verbatim>\<open>AsyncWait\<close> that is still awaited: \<^verbatim>\<open>pull\<close> signals the queue the entry is
  associated with and then spins until the entry is signalled.\<close>

inductive pull_step :: "'t \<Rightarrow> 't lock_sys \<Rightarrow> 't lock_sys \<Rightarrow> bool" for t s where
  pull: "\<lbrakk>phase s t = Await Async m Failed; t \<notin> completed s\<rbrakk> \<Longrightarrow> pull_step t s (go t (Swap Pulling) s)"
| pulled: "phase s t = Wake [] Pulling \<Longrightarrow> pull_step t s (go t Spin s)"
| spin: "\<lbrakk>phase s t = Spin; t \<in> completed s\<rbrakk> \<Longrightarrow> pull_step t s (go t Idle s)"

text \<open>\<^verbatim>\<open>signal\<close>: the queue is taken in one exchange, flipped, and its entries are signalled one by one.\<close>

inductive signal_step :: "'t \<Rightarrow> 't lock_sys \<Rightarrow> 't lock_sys \<Rightarrow> bool" for t s where
  swap: "phase s t = Swap c \<Longrightarrow> signal_step t s (go t (Wake (rev (queue s)) c) (s\<lparr>queue := []\<rparr>))"
| wake: "phase s t = Wake (w # ws) c
    \<Longrightarrow> signal_step t s (go t (Wake ws c) (s\<lparr>completed := insert w (completed s)\<rparr>))"

text \<open>The end of a \<^verbatim>\<open>Locker\<close> or \<^verbatim>\<open>Reader\<close>, of one that was returned or of one that is disposed of, and
  \<^verbatim>\<open>kill\<close>, which the holder of the exclusive lock calls.\<close>

inductive unlock_step :: "'t \<Rightarrow> 't lock_sys \<Rightarrow> 't lock_sys \<Rightarrow> bool" for t s where
  release: "\<lbrakk>phase s t = Holding m; unlock m (word s) = (w, wakeup)\<rbrakk>
    \<Longrightarrow> unlock_step t s (go t (if wakeup then Swap (Released None) else Idle) (s\<lparr>word := w\<rparr>))"
| dispose: "\<lbrakk>phase s t = Dispose m; unlock m (word s) = (w, wakeup)\<rbrakk>
    \<Longrightarrow> unlock_step t s (go t (if wakeup then Swap (Released (Some m)) else Await Async m Failed) (s\<lparr>word := w\<rparr>))"
| released: "phase s t = Wake [] (Released None) \<Longrightarrow> unlock_step t s (go t Idle s)"
| disposed: "phase s t = Wake [] (Released (Some m)) \<Longrightarrow> unlock_step t s (go t (Await Async m Failed) s)"
| kill: "phase s t = Holding Exclusive \<Longrightarrow> unlock_step t s (s\<lparr>word := word s OR KILLED\<rparr>)"

definition lock_step :: "'t \<Rightarrow> 't lock_sys \<Rightarrow> 't lock_sys \<Rightarrow> bool" where
  "lock_step t s s' \<longleftrightarrow>
     call_step t s s' \<or> closure_step t s s' \<or> wait_sync_step t s s' \<or> async_step t s s' \<or> pull_step t s s' \<or>
     signal_step t s s' \<or> unlock_step t s s'"

inductive lock_reachable :: "'t lock_sys \<Rightarrow> bool" where
  init: "lock_reachable lock_init"
| step: "lock_reachable s \<Longrightarrow> lock_step t s s' \<Longrightarrow> lock_reachable s'"

end
