(* ===== verification/Bucket_Lock_Excl.thy ===== *)
theory Bucket_Lock_Excl
  imports Bucket_Lock_Steps
begin

text \<open>
  Mutual exclusion of the bucket lock: the lock part of the state word counts the shared holders, or is
  \<^verbatim>\<open>LOCK\<close> with one exclusive holder, in every reachable state.
\<close>

definition holders :: "'t lock_sys \<Rightarrow> mode \<Rightarrow> 't set" where
  "holders s m = {t. holds (phase s t) = Some m}"

fun phase_expected :: "'t phase \<Rightarrow> bool" where
  "phase_expected (First_Try k m cur) = expected m cur"
| "phase_expected (Second_Try k m cur) = expected m cur"
| "phase_expected _ = True"

text \<open>The lock part of the word for given sets of holders.\<close>

definition counted :: "nat \<Rightarrow> 't set \<Rightarrow> 't set \<Rightarrow> bool" where
  "counted n X S \<longleftrightarrow> finite S \<and>
     (X = {} \<and> n = card S \<and> card S \<le> 2 ^ 29 - 1 \<or> (\<exists>t. X = {t}) \<and> S = {} \<and> n = 2 ^ 29)"

definition excl_inv :: "'t lock_sys \<Rightarrow> bool" where
  "excl_inv s \<longleftrightarrow> counted (lock_part (word s)) (holders s Exclusive) (holders s Shared) \<and>
     (\<forall>t. phase_expected (phase s t))"

lemma holders_go: "holders (s\<lparr>phase := (phase s)(t := p)\<rparr>) m =
    (if holds p = Some m then insert t (holders s m) else holders s m - {t})"
  by (auto simp: holders_def)

lemma holders_simps [simp]:
  "holders (s\<lparr>word := w\<rparr>) = holders s" "holders (s\<lparr>queue := q\<rparr>) = holders s"
  "holders (s\<lparr>completed := c\<rparr>) = holders s"
  by (simp_all add: holders_def fun_eq_iff)

lemma holders_not: "holds (phase s t) = None \<Longrightarrow> t \<notin> holders s m"
  by (simp add: holders_def)

lemma holders_mode: "holds (phase s t) = Some m \<Longrightarrow> t \<in> holders s m' \<longleftrightarrow> m' = m"
  by (auto simp: holders_def)

text \<open>A step that changes neither the lock part nor what its caller holds.\<close>

lemma excl_keep:
  assumes "excl_inv s" "holds p = holds (phase s t)" "phase_expected p"
    "lock_part w = lock_part (word s)"
  shows "excl_inv (s\<lparr>word := w, queue := q, completed := c, phase := (phase s)(t := p)\<rparr>)"
proof -
  have "holders (s\<lparr>word := w, queue := q, completed := c, phase := (phase s)(t := p)\<rparr>) m = holders s m" for m
    using assms(2) by (auto simp: holders_def)
  then show ?thesis using assms by (simp add: excl_inv_def)
qed

lemma counted_acquire:
  assumes "counted (lock_part cur) X S" "expected m cur" "t \<notin> X" "t \<notin> S"
  shows "counted (lock_part (try_lock_new m cur))
    (if m = Exclusive then insert t X else X) (if m = Shared then insert t S else S)"
proof (cases m)
  case Exclusive
  then have "lock_part cur = 0" using assms(2) by (simp add: expected_def)
  then have "X = {}" "S = {}" using assms(1) by (auto simp: counted_def)
  then show ?thesis using exclusive_new(1) \<open>lock_part cur = 0\<close> Exclusive by (simp add: counted_def)
next
  case Shared
  then have l: "lock_part cur < 2 ^ 29 - 1" using assms(2) by (simp add: expected_def)
  then have "X = {}" "card S = lock_part cur" "finite S" using assms(1) by (auto simp: counted_def)
  then show ?thesis using shared_new(1) [OF l] l assms(4) Shared by (simp add: counted_def)
qed

lemma counted_release:
  assumes "counted (lock_part w) X S" "if m = Exclusive then t \<in> X else t \<in> S"
  shows "counted (lock_part (fst (unlock m w))) (X - {t}) (S - {t})"
proof (cases m)
  case Exclusive
  then have "X = {t}" "S = {}" "lock_part w = 2 ^ 29" using assms by (auto simp: counted_def)
  then show ?thesis using unlock_exclusive [of w] Exclusive by (simp add: counted_def)
next
  case Shared
  then have s: "X = {}" "lock_part w = card S" "finite S" "t \<in> S" "card S \<le> 2 ^ 29 - 1"
    using assms by (auto simp: counted_def)
  then have "lock_part w = Suc (card (S - {t}))" using card_Suc_Diff1 [of S t] by simp
  then have "lock_part (fst (unlock Shared w)) = card (S - {t})" by (rule unlock_shared)
  moreover have "card (S - {t}) \<le> 2 ^ 29 - 1" using s card_Diff1_le [of S t] by linarith
  ultimately show ?thesis using Shared s by (simp add: counted_def)
qed

lemma mode_iff: "m \<noteq> Exclusive \<longleftrightarrow> m = Shared"
  by (cases m) simp_all

lemma excl_acquire:
  assumes "excl_inv s" "holds (phase s t) = None" "expected m (word s)" "holds p = Some m" "phase_expected p"
  shows "excl_inv (s\<lparr>word := try_lock_new m (word s), phase := (phase s)(t := p)\<rparr>)"
proof -
  let ?s = "s\<lparr>word := try_lock_new m (word s), phase := (phase s)(t := p)\<rparr>"
  have n: "t \<notin> holders s m'" for m' using assms(2) by (rule holders_not)
  have "holders ?s m' = (if m = m' then insert t (holders s m') else holders s m')" for m'
    using assms(2,4) by (auto simp: holders_def)
  then have "counted (lock_part (word ?s)) (holders ?s Exclusive) (holders ?s Shared)"
    using counted_acquire [OF _ assms(3) n [of Exclusive] n [of Shared]] assms(1)
    by (simp add: excl_inv_def mode_iff)
  then show ?thesis using assms(1,5) by (simp add: excl_inv_def)
qed

lemma excl_release:
  assumes "excl_inv s" "holds (phase s t) = Some m" "unlock m (word s) = (w, wakeup)" "holds p = None" "phase_expected p"
  shows "excl_inv (s\<lparr>word := w, phase := (phase s)(t := p)\<rparr>)"
proof -
  let ?s = "s\<lparr>word := w, phase := (phase s)(t := p)\<rparr>"
  have "holders ?s m' = holders s m' - {t}" for m' using assms(4) by (auto simp: holders_def)
  moreover have "if m = Exclusive then t \<in> holders s Exclusive else t \<in> holders s Shared"
    using assms(2) by (cases m) (simp_all add: holders_def)
  ultimately have "counted (lock_part (word ?s)) (holders ?s Exclusive) (holders ?s Shared)"
    using counted_release [of "word s" "holders s Exclusive" "holders s Shared" m t] assms(1,3)
    by (simp add: excl_inv_def)
  then show ?thesis using assms(1,5) by (simp add: excl_inv_def)
qed

text \<open>The steps.\<close>

lemma excl_go:
  "\<lbrakk>excl_inv s; holds p = holds (phase s t); phase_expected p\<rbrakk> \<Longrightarrow> excl_inv (go t p s)"
  using excl_keep [of s p t "word s" "completed s" "queue s"] by simp

lemma excl_call: "call_step t s s' \<Longrightarrow> excl_inv s \<Longrightarrow> excl_inv s'"
proof (induction rule: call_step.cases)
  case (exchange k m cur)
  then have "expected m (word s)" unfolding excl_inv_def by (metis phase_expected.simps(1))
  then show ?case using exchange excl_acquire [of s t m "Holding m"] by simp
qed (auto intro!: excl_go simp: first_failed_def load_expected)

lemma excl_closure: "closure_step t s s' \<Longrightarrow> excl_inv s \<Longrightarrow> excl_inv s'"
proof (induction rule: closure_step.cases)
  case (announce k m)
  then show ?case using excl_keep [of s "Second_Load k m" t "word s OR WAITING" "completed s" "queue s"] by simp
next
  case (exchange k m cur)
  then have "expected m (word s)" unfolding excl_inv_def by (metis phase_expected.simps(2))
  then show ?case using exchange excl_acquire [of s t m "Swap (Entry k m Acquired)"] by simp
qed (auto intro!: excl_go simp: load_expected)

lemma holds_returned: "holds (returned m r) = cont_holds (Entry k m r)"
  by (cases r) (simp_all add: returned_def)

lemma holds_await: "holds (Await k m r) = cont_holds (Entry k' m r)"
  by (cases r) simp_all

lemma expected_returned [simp]: "phase_expected (returned m r)"
  by (simp add: returned_def)

lemma excl_push:
  "\<lbrakk>excl_inv s; phase s t = Push k m\<rbrakk> \<Longrightarrow>
   excl_inv (go t (Announce k m) (s\<lparr>queue := q, completed := c\<rparr>))"
  using excl_keep [of s "Announce k m" t "word s" c q] by simp

lemma excl_wait_sync: "wait_sync_step t s s' \<Longrightarrow> excl_inv s \<Longrightarrow> excl_inv s'"
proof (induction rule: wait_sync_step.cases)
  case (push m)
  then show ?case using excl_push [of s t Sync m] by simp
next
  case (signalled m r)
  then show ?case by (simp add: excl_go holds_await [of Sync m r Sync])
next
  case (wait m r)
  then show ?case by (simp add: excl_go holds_await [of Sync m r Sync] holds_returned [of m r Sync])
qed (simp add: excl_go)

lemma excl_async: "async_step t s s' \<Longrightarrow> excl_inv s \<Longrightarrow> excl_inv s'"
proof (induction rule: async_step.cases)
  case (push m)
  then show ?case using excl_push [of s t Async m] by simp
next
  case (try_wait m r)
  then show ?case by (simp add: excl_go holds_returned [of m r Async])
next
  case (try_wait_failed m r)
  then show ?case by (cases r) (simp_all add: excl_go)
qed (simp add: excl_go)

lemma excl_pull: "pull_step t s s' \<Longrightarrow> excl_inv s \<Longrightarrow> excl_inv s'"
  by (induction rule: pull_step.cases) (simp_all add: excl_go)

lemma excl_signal: "signal_step t s s' \<Longrightarrow> excl_inv s \<Longrightarrow> excl_inv s'"
proof (induction rule: signal_step.cases)
  case (swap c)
  then show ?case using excl_keep [of s "Wake (rev (queue s)) c" t "word s" "completed s" "[]"] by simp
next
  case (wake w ws c)
  then show ?case using excl_keep [of s "Wake ws c" t "word s" "insert w (completed s)" "queue s"] by simp
qed

lemma excl_unlock: "unlock_step t s s' \<Longrightarrow> excl_inv s \<Longrightarrow> excl_inv s'"
proof (induction rule: unlock_step.cases)
  case (release m w wakeup)
  then show ?case using excl_release [of s t m w wakeup "if wakeup then Swap (Released None) else Idle"] by simp
next
  case (dispose m w wakeup)
  then show ?case
    using excl_release [of s t m w wakeup "if wakeup then Swap (Released (Some m)) else Await Async m Failed"] by simp
next
  case kill
  then show ?case using excl_keep [of s "phase s t" t "word s OR KILLED" "completed s" "queue s"]
    by (simp add: excl_inv_def)
qed (simp_all add: excl_go)

lemma excl_step: "lock_step t s s' \<Longrightarrow> excl_inv s \<Longrightarrow> excl_inv s'"
  unfolding lock_step_def
  using excl_call excl_closure excl_wait_sync excl_async excl_pull excl_signal excl_unlock by metis

lemma excl_init: "excl_inv lock_init"
  by (simp add: excl_inv_def lock_init_def counted_def holders_def lock_part_def)

lemma reachable_excl: "lock_reachable s \<Longrightarrow> excl_inv s"
  by (induction rule: lock_reachable.induct) (simp_all add: excl_init excl_step)

end
