(* ===== verification/Bucket_Lock_Wake.thy ===== *)
theory Bucket_Lock_Wake
  imports Bucket_Lock_Excl
begin

text \<open>
  The wait queue of the bucket lock. The entries that are queued or in the hands of a signaller are
  exactly those of the callers that wait and have not been signalled, each once; and a caller in
  the queue is never forgotten: a signal is on its way, or the lock is held and its holder will see
  \<^verbatim>\<open>WAITING\<close> when it unlocks.
\<close>

section \<open>The entries\<close>

text \<open>The entries a signaller has taken, and the phases in which the entry of a caller may be accessed by
  others: from the push to the return of the wait.\<close>

fun taken :: "'t phase \<Rightarrow> 't list" where
  "taken (Wake ws c) = ws"
| "taken _ = []"

fun cont_enlisted :: "cont \<Rightarrow> bool" where
  "cont_enlisted (Released None) = False"
| "cont_enlisted _ = True"

fun enlisted :: "'t phase \<Rightarrow> bool" where
  "enlisted (Announce k m) = True"
| "enlisted (Second_Load k m) = True"
| "enlisted (Second_Try k m cur) = True"
| "enlisted (Swap c) = cont_enlisted c"
| "enlisted (Wake ws c) = cont_enlisted c"
| "enlisted (Await k m r) = True"
| "enlisted (Dispose m) = True"
| "enlisted Spin = True"
| "enlisted _ = False"

definition unsignalled :: "'t lock_sys \<Rightarrow> 't set" where
  "unsignalled s = {w. enlisted (phase s w) \<and> w \<notin> completed s}"

text \<open>The entries of \<^term>\<open>W\<close> are in the queue or taken by one signaller, once.\<close>

definition entries :: "'t list \<Rightarrow> ('t \<Rightarrow> 't list) \<Rightarrow> 't set \<Rightarrow> bool" where
  "entries q f W \<longleftrightarrow>
     distinct q \<and> (\<forall>t. distinct (f t)) \<and> (\<forall>t. set (f t) \<inter> set q = {}) \<and>
     (\<forall>t u. t \<noteq> u \<longrightarrow> set (f t) \<inter> set (f u) = {}) \<and>
     set q \<union> (\<Union>t. set (f t)) = W"

definition queue_inv :: "'t lock_sys \<Rightarrow> bool" where
  "queue_inv s \<longleftrightarrow> entries (queue s) (\<lambda>t. taken (phase s t)) (unsignalled s)"

text \<open>The phase in which a queued caller may be while no signal is under way.\<close>

fun stage :: "u32 \<Rightarrow> 't phase \<Rightarrow> bool" where
  "stage w (Announce k m) = True"
| "stage w (Second_Load k m) = waiting w"
| "stage w (Second_Try k m cur) = (waiting w \<and> (w = cur \<or> 0 < lock_part w))"
| "stage w (Await k m Failed) = (waiting w \<and> 0 < lock_part w)"
| "stage w _ = False"

definition swapping :: "'t lock_sys \<Rightarrow> bool" where
  "swapping s \<longleftrightarrow> (\<exists>t c. phase s t = Swap c)"

definition wake_inv :: "'t lock_sys \<Rightarrow> bool" where
  "wake_inv s \<longleftrightarrow> swapping s \<or> (\<forall>t\<in>set (queue s). stage (word s) (phase s t))"

section \<open>The entries are accounted for\<close>

lemma entriesD:
  assumes "entries q f W"
  shows "distinct q" "distinct (f t)" "set (f t) \<inter> set q = {}" "t \<noteq> u \<Longrightarrow> set (f t) \<inter> set (f u) = {}"
    "set q \<union> (\<Union>t. set (f t)) = W"
  using assms unfolding entries_def by simp_all

lemma entries_push: "entries q f W \<Longrightarrow> w \<notin> W \<Longrightarrow> entries (w # q) f (insert w W)"
  unfolding entries_def by auto

lemma union_upd: "(\<Union>u. set ((f(t := xs)) u)) = set xs \<union> (\<Union>u\<in>- {t}. set (f u))"
  by (auto split: if_splits)

lemma union_at: "(\<Union>u. set (f u)) = set (f t) \<union> (\<Union>u\<in>- {t}. set (f u))"
  by auto

lemma entries_swap:
  assumes "entries q f W" "f t = []"
  shows "entries [] (f(t := rev q)) W"
proof -
  have "set q \<union> (\<Union>u. set (f u)) = W" using assms(1) by (simp add: entries_def)
  then have "(\<Union>u. set ((f(t := rev q)) u)) = W" using assms(2) unfolding union_upd union_at [of f t] by simp
  then show ?thesis using assms unfolding entries_def by (simp add: Int_commute)
qed

lemma entries_wake:
  assumes "entries q f W" "f t = w # ws"
  shows "entries q (f(t := ws)) (W - {w})"
proof -
  have sub: "set ((f(t := ws)) u) \<subseteq> set (f u)" for u using assms(2) by auto
  have "distinct (f t)" "set (f t) \<inter> set q = {}" "\<And>u. t \<noteq> u \<Longrightarrow> set (f t) \<inter> set (f u) = {}"
    using entriesD [OF assms(1)] by simp_all
  note d = this [unfolded assms(2)]
  have "set q \<union> (set (w # ws) \<union> (\<Union>u\<in>- {t}. set (f u))) = W"
    using assms union_at [of f t] by (simp add: entries_def)
  then have "set q \<union> (\<Union>u. set ((f(t := ws)) u)) = W - {w}"
    unfolding union_upd using d by auto
  moreover have "distinct ((f(t := ws)) u)" for u
    using assms(1) d(1) by (simp add: entries_def)
  moreover have "set ((f(t := ws)) u) \<inter> set q = {}" for u
    using sub [of u] entriesD(3) [OF assms(1), of u] by auto
  moreover have "set ((f(t := ws)) u) \<inter> set ((f(t := ws)) v) = {}" if "u \<noteq> v" for u v
    using sub [of u] sub [of v] entriesD(4) [OF assms(1) that] by blast
  ultimately show ?thesis using entriesD(1) [OF assms(1)] unfolding entries_def by simp
qed

lemma queue_go:
  assumes "queue_inv s" "taken (phase s t) = []" "taken p = []"
    "enlisted p = enlisted (phase s t) \<or> t \<in> completed s"
  shows "queue_inv (s\<lparr>word := w, phase := (phase s)(t := p)\<rparr>)"
proof -
  have "(\<lambda>u. taken (((phase s)(t := p)) u)) = (\<lambda>u. taken (phase s u))" using assms(2,3) by (auto simp: fun_eq_iff)
  moreover have "unsignalled (s\<lparr>word := w, phase := (phase s)(t := p)\<rparr>) = unsignalled s" using assms(4) by (auto simp: unsignalled_def)
  ultimately show ?thesis using assms(1) by (simp add: queue_inv_def)
qed

lemma queue_goto:
  "\<lbrakk>queue_inv s; taken (phase s t) = []; taken p = []; enlisted p = enlisted (phase s t) \<or> t \<in> completed s\<rbrakk>
   \<Longrightarrow> queue_inv (go t p s)"
  using queue_go [of s t p "word s"] by simp

lemma queue_push:
  assumes "queue_inv s" "phase s t = Push k m"
  shows "queue_inv (s\<lparr>queue := t # queue s, completed := completed s - {t}, phase := (phase s)(t := Announce k m)\<rparr>)"
    (is "queue_inv ?s")
proof -
  have "(\<lambda>u. taken (((phase s)(t := Announce k m)) u)) = (\<lambda>u. taken (phase s u))"
    using assms(2) by (auto simp: fun_eq_iff)
  moreover have "unsignalled ?s = insert t (unsignalled s)" "t \<notin> unsignalled s"
    using assms(2) by (auto simp: unsignalled_def)
  ultimately show ?thesis using assms(1) entries_push by (simp add: queue_inv_def)
qed

lemma queue_signal: "signal_step t s s' \<Longrightarrow> queue_inv s \<Longrightarrow> queue_inv s'"
proof (induction rule: signal_step.cases)
  case (swap c)
  have "(\<lambda>u. taken (phase s' u)) = (\<lambda>u. taken (phase s u))(t := rev (queue s))"
    using swap by (auto simp: fun_eq_iff)
  moreover have "unsignalled s' = unsignalled s" using swap by (auto simp: unsignalled_def)
  ultimately show ?case using swap entries_swap [of "queue s" "\<lambda>u. taken (phase s u)" _ t]
    by (simp add: queue_inv_def)
next
  case (wake w ws c)
  have "(\<lambda>u. taken (phase s' u)) = (\<lambda>u. taken (phase s u))(t := ws)"
    using wake by (auto simp: fun_eq_iff)
  moreover have "unsignalled s' = unsignalled s - {w}" using wake by (auto simp: unsignalled_def)
  ultimately show ?case using wake entries_wake [of "queue s" "\<lambda>u. taken (phase s u)" _ t w ws]
    by (simp add: queue_inv_def)
qed

lemma returned_phase [simp]: "taken (returned m r) = []" "\<not> enlisted (returned m r)"
  by (simp_all add: returned_def)

lemma first_failed_phase [simp]: "taken (first_failed k m) = []" "\<not> enlisted (first_failed k m)"
  by (simp_all add: first_failed_def)

lemma queue_call: "call_step t s s' \<Longrightarrow> queue_inv s \<Longrightarrow> queue_inv s'"
  by (induction rule: call_step.cases) (simp_all add: queue_goto queue_go)

lemma queue_closure: "closure_step t s s' \<Longrightarrow> queue_inv s \<Longrightarrow> queue_inv s'"
  by (induction rule: closure_step.cases) (simp_all add: queue_goto queue_go)

lemma queue_wait_sync: "wait_sync_step t s s' \<Longrightarrow> queue_inv s \<Longrightarrow> queue_inv s'"
  by (induction rule: wait_sync_step.cases) (simp_all add: queue_goto queue_push)

lemma queue_async: "async_step t s s' \<Longrightarrow> queue_inv s \<Longrightarrow> queue_inv s'"
  by (induction rule: async_step.cases) (simp_all add: queue_goto queue_push)

lemma queue_pull: "pull_step t s s' \<Longrightarrow> queue_inv s \<Longrightarrow> queue_inv s'"
  by (induction rule: pull_step.cases) (simp_all add: queue_goto)

lemma queue_unlock: "unlock_step t s s' \<Longrightarrow> queue_inv s \<Longrightarrow> queue_inv s'"
proof (induction rule: unlock_step.cases)
  case kill
  then show ?case by (simp add: queue_inv_def unsignalled_def)
qed (simp_all add: queue_goto queue_go)

lemma queue_step: "lock_step t s s' \<Longrightarrow> queue_inv s \<Longrightarrow> queue_inv s'"
  unfolding lock_step_def
  using queue_call queue_closure queue_wait_sync queue_async queue_pull queue_signal queue_unlock by metis

lemma reachable_queue: "lock_reachable s \<Longrightarrow> queue_inv s"
proof (induction rule: lock_reachable.induct)
  case init
  show ?case by (simp add: queue_inv_def entries_def lock_init_def unsignalled_def)
qed (simp add: queue_step)

section \<open>No wake-up is lost\<close>

text \<open>While no signal is under way, a step keeps the stages of the queued callers.\<close>

lemma wake_swap: "phase s t = Swap c \<Longrightarrow> wake_inv s"
  by (auto simp: wake_inv_def swapping_def)

lemma wake_to_swap: "wake_inv (go t (Swap c) s)"
  by (rule wake_swap [of _ t c]) simp

lemma wake_go:
  assumes "wake_inv s" "\<And>c. phase s t \<noteq> Swap c"
    "t \<in> set (queue s) \<Longrightarrow> stage (word s) (phase s t) \<Longrightarrow> stage w p"
    "\<And>u. u \<noteq> t \<Longrightarrow> u \<in> set (queue s) \<Longrightarrow> stage (word s) (phase s u) \<Longrightarrow> stage w (phase s u)"
  shows "wake_inv (s\<lparr>word := w, completed := c, phase := (phase s)(t := p)\<rparr>)"
proof (cases "swapping s")
  case True
  then obtain u c' where "phase s u = Swap c'" by (auto simp: swapping_def)
  then show ?thesis using assms(2) by (intro wake_swap [of _ u c']) auto
next
  case False
  then show ?thesis using assms by (auto simp: wake_inv_def)
qed

lemma wake_goto:
  assumes "wake_inv s" "\<And>c. phase s t \<noteq> Swap c"
    "t \<in> set (queue s) \<Longrightarrow> stage (word s) (phase s t) \<Longrightarrow> stage (word s) p"
  shows "wake_inv (go t p s)"
  using wake_go [of s t "word s" p "completed s"] assms by simp

lemma wake_push:
  assumes "wake_inv s" "phase s t = Push k m"
  shows "wake_inv (s\<lparr>queue := t # queue s, completed := c, phase := (phase s)(t := Announce k m)\<rparr>)"
proof (cases "swapping s")
  case True
  then obtain u c' where "phase s u = Swap c'" by (auto simp: swapping_def)
  then show ?thesis using assms(2) by (intro wake_swap [of _ u c']) auto
next
  case False
  then show ?thesis using assms by (auto simp: wake_inv_def)
qed

text \<open>Taking the lock keeps every stage, and so does a second announcement.\<close>

lemma stage_acquire: "expected m w \<Longrightarrow> stage w p \<Longrightarrow> stage (try_lock_new m w) p"
  using expected_new [of m w] by (induction w p rule: stage.induct) auto

lemma stage_announce: "stage w p \<Longrightarrow> stage (w OR WAITING) p"
  by (induction w p rule: stage.induct) (auto simp: or_waiting_id)

lemma stage_silent: "\<not> waiting w \<Longrightarrow> stage w p \<Longrightarrow> stage w' p"
  by (induction w p rule: stage.induct) auto

lemma stage_kill: "0 < lock_part w \<Longrightarrow> stage w p \<Longrightarrow> stage (w OR KILLED) p"
  by (induction w p rule: stage.induct) auto

lemma wake_word:
  assumes "wake_inv s" "\<And>c. phase s t \<noteq> Swap c" "\<And>u. stage (word s) (phase s u) \<Longrightarrow> stage w (phase s u)"
    "t \<in> set (queue s) \<Longrightarrow> stage (word s) (phase s t) \<Longrightarrow> stage w p"
  shows "wake_inv (s\<lparr>word := w, phase := (phase s)(t := p)\<rparr>)"
proof -
  have "wake_inv (s\<lparr>word := w, completed := completed s, phase := (phase s)(t := p)\<rparr>)"
    by (rule wake_go) (use assms in auto)
  then show ?thesis by simp
qed

lemma not_queued:
  assumes "queue_inv s" "t \<in> completed s \<or> \<not> enlisted (phase s t)"
  shows "t \<notin> set (queue s)"
  using assms entriesD(5) unfolding queue_inv_def unsignalled_def by blast

lemma wake_call: "call_step t s s' \<Longrightarrow> wake_inv s \<Longrightarrow> excl_inv s \<Longrightarrow> wake_inv s'"
proof (induction rule: call_step.cases)
  case (exchange k m cur)
  then have e: "expected m (word s)" unfolding excl_inv_def by (metis phase_expected.simps(1))
  have "wake_inv (s\<lparr>word := try_lock_new m (word s), phase := (phase s)(t := Holding m)\<rparr>)"
    by (rule wake_word) (use exchange stage_acquire [OF e] in auto)
  then show ?case using exchange by simp
qed (auto intro!: wake_goto)

lemma wake_closure: "closure_step t s s' \<Longrightarrow> wake_inv s \<Longrightarrow> wake_inv s'"
proof (induction rule: closure_step.cases)
  case (announce k m)
  have "wake_inv (s\<lparr>word := word s OR WAITING, phase := (phase s)(t := Second_Load k m)\<rparr>)"
    by (rule wake_word) (use announce stage_announce in auto)
  then show ?case using announce by simp
next
  case (load_locked k m)
  then show ?case using load_failed by (auto intro!: wake_goto)
next
  case (load k m cur)
  then show ?case using load_current by (auto intro!: wake_goto)
next
  case (exchange k m cur)
  then show ?case using wake_to_swap [of "s\<lparr>word := try_lock_new m cur\<rparr>" t "Entry k m Acquired"] by simp
qed (auto intro!: wake_goto wake_to_swap)

lemma wake_wait_sync: "wait_sync_step t s s' \<Longrightarrow> wake_inv s \<Longrightarrow> queue_inv s \<Longrightarrow> wake_inv s'"
proof (induction rule: wait_sync_step.cases)
  case (push m)
  then show ?case by (simp add: wake_push)
qed (auto intro!: wake_goto simp: not_queued)

lemma wake_async: "async_step t s s' \<Longrightarrow> wake_inv s \<Longrightarrow> queue_inv s \<Longrightarrow> wake_inv s'"
proof (induction rule: async_step.cases)
  case (push m)
  then show ?case by (simp add: wake_push)
qed (auto intro!: wake_goto simp: not_queued)

lemma wake_pull: "pull_step t s s' \<Longrightarrow> wake_inv s \<Longrightarrow> wake_inv s'"
  by (induction rule: pull_step.cases) (auto intro!: wake_goto wake_to_swap)

lemma wake_signal: "signal_step t s s' \<Longrightarrow> wake_inv s \<Longrightarrow> wake_inv s'"
proof (induction rule: signal_step.cases)
  case (swap c)
  then show ?case by (simp add: wake_inv_def)
next
  case (wake w ws c)
  then show ?case using wake_go [of s t "word s" "Wake ws c" "insert w (completed s)"] by simp
qed

lemma wake_unlocked:
  assumes "wake_inv s" "unlock m (word s) = (w, wakeup)" "\<And>c. phase s t \<noteq> Swap c"
    "\<not> stage (word s) (phase s t)"
  shows "wake_inv (s\<lparr>word := w, phase := (phase s)(t := if wakeup then Swap c else p)\<rparr>)"
proof (cases wakeup)
  case True
  then show ?thesis using wake_to_swap [of "s\<lparr>word := w\<rparr>" t c] by simp
next
  case False
  then have "\<not> waiting (word s)" using unlock_waiting(2) [of m "word s"] assms(2) by simp
  then have "stage (word s) (phase s u) \<Longrightarrow> stage w (phase s u)" for u by (rule stage_silent)
  then show ?thesis using False assms wake_word [of s t w p] by simp
qed

lemma wake_unlock: "unlock_step t s s' \<Longrightarrow> wake_inv s \<Longrightarrow> excl_inv s \<Longrightarrow> wake_inv s'"
proof (induction rule: unlock_step.cases)
  case (release m w wakeup)
  then show ?case using wake_unlocked [of s m w wakeup t] by simp
next
  case (dispose m w wakeup)
  then show ?case using wake_unlocked [of s m w wakeup t] by simp
next
  case kill
  then have "t \<in> holders s Exclusive" by (simp add: holders_def)
  then have "0 < lock_part (word s)" using kill by (auto simp: excl_inv_def counted_def)
  then have "\<And>p. stage (word s) p \<Longrightarrow> stage (word s OR KILLED) p" by (rule stage_kill)
  then show ?case using kill by (auto simp: wake_inv_def swapping_def)
qed (auto intro!: wake_goto)

lemma reachable_wake: "lock_reachable s \<Longrightarrow> wake_inv s"
proof (induction rule: lock_reachable.induct)
  case init
  show ?case by (simp add: wake_inv_def lock_init_def)
next
  case (step s t s')
  then show ?case using reachable_excl [of s] reachable_queue [of s]
      wake_call wake_closure wake_wait_sync wake_async wake_pull wake_signal wake_unlock
    unfolding lock_step_def by metis
qed

end
