(* ===== verification/Bucket_Lock_Thms.thy ===== *)
theory Bucket_Lock_Thms
  imports Bucket_Lock_Wake
begin

text \<open>
  The properties of the bucket lock: mutual exclusion, the accounting of the wait queue entries, and
  that a waiting caller can always be woken by the other callers.
\<close>

section \<open>The phases that occur\<close>

fun phase_ok :: "'t phase \<Rightarrow> bool" where
  "phase_ok (Push k m) \<longleftrightarrow> k \<noteq> Try"
| "phase_ok (Announce k m) \<longleftrightarrow> k \<noteq> Try"
| "phase_ok (Second_Load k m) \<longleftrightarrow> k \<noteq> Try"
| "phase_ok (Second_Try k m cur) \<longleftrightarrow> k \<noteq> Try"
| "phase_ok (Swap (Entry k m r)) \<longleftrightarrow> k \<noteq> Try \<and> r \<noteq> Failed"
| "phase_ok (Wake ws (Entry k m r)) \<longleftrightarrow> k \<noteq> Try \<and> r \<noteq> Failed"
| "phase_ok (Await k m r) \<longleftrightarrow> k = Sync \<or> k \<noteq> Try \<and> r = Failed"
| "phase_ok _ \<longleftrightarrow> True"

lemma phase_ok_aux [simp]: "phase_ok (first_failed k m)" "phase_ok (returned m r)"
  by (simp_all add: first_failed_def returned_def)

lemma phase_ok_wake: "phase_ok (Wake (ws :: 't list) c) = phase_ok (Swap c :: 't phase)"
  by (cases c) simp_all

lemma phase_ok_step:
  assumes "lock_step t s s'" "\<forall>u. phase_ok (phase s u)"
  shows "\<forall>u. phase_ok (phase s' u)"
proof -
  have ok: "phase_ok (phase s t)" using assms(2) by simp
  have "\<exists>p. phase s' = (phase s)(t := p) \<and> phase_ok p"
    using assms(1) unfolding lock_step_def
  proof (elim disjE)
    assume "call_step t s s'"
    then show ?thesis by cases (auto intro!: exI)
  next
    assume "closure_step t s s'"
    then show ?thesis using ok by cases (auto intro!: exI)
  next
    assume "wait_sync_step t s s'"
    then show ?thesis by cases (auto intro!: exI)
  next
    assume "async_step t s s'"
    then show ?thesis by cases (auto intro!: exI)
  next
    assume "pull_step t s s'"
    then show ?thesis by cases (auto intro!: exI)
  next
    assume "signal_step t s s'"
    then show ?thesis
    proof cases
      case (swap c)
      then show ?thesis using ok by (intro exI [of _ "Wake (rev (queue s)) c"]) (simp add: phase_ok_wake)
    next
      case (wake w ws c)
      then show ?thesis using ok by (intro exI [of _ "Wake ws c"]) (simp add: phase_ok_wake)
    qed
  next
    assume "unlock_step t s s'"
    then show ?thesis using ok by cases (auto intro!: exI)
  qed
  then show ?thesis using assms(2) by auto
qed

lemma reachable_phase: "lock_reachable s \<Longrightarrow> phase_ok (phase s u)"
proof (induction arbitrary: u rule: lock_reachable.induct)
  case init
  show ?case by (simp add: lock_init_def)
next
  case (step s t s')
  then show ?case using phase_ok_step [of t s s'] by simp
qed

section \<open>A waiting caller can be woken\<close>

text \<open>The runs in which the given caller takes no step.\<close>

inductive others_run :: "'t \<Rightarrow> 't lock_sys \<Rightarrow> 't lock_sys \<Rightarrow> bool" for t where
  refl: "others_run t s s"
| step: "\<lbrakk>lock_step u s s'; u \<noteq> t; others_run t s' s''\<rbrakk> \<Longrightarrow> others_run t s s''"

definition can_wake :: "'t \<Rightarrow> 't lock_sys \<Rightarrow> bool" where
  "can_wake t s \<longleftrightarrow> (\<exists>s'. others_run t s s' \<and> t \<in> completed s')"

lemma can_wake_step: "\<lbrakk>lock_step u s s'; u \<noteq> t; can_wake t s'\<rbrakk> \<Longrightarrow> can_wake t s"
  unfolding can_wake_def by (metis others_run.step)

lemma can_wake_run: "others_run t s s' \<Longrightarrow> can_wake t s' \<Longrightarrow> can_wake t s"
  by (induction rule: others_run.induct) (auto intro: can_wake_step)

text \<open>A signaller signals all the entries it has taken.\<close>

lemma drain:
  "\<lbrakk>phase s u = Wake ws c; u \<noteq> t\<rbrakk> \<Longrightarrow>
   others_run t s (s\<lparr>completed := completed s \<union> set ws, phase := (phase s)(u := Wake [] c)\<rparr>)"
proof (induction ws arbitrary: s)
  case Nil
  then have *: "s\<lparr>completed := completed s \<union> set [], phase := (phase s)(u := Wake [] c)\<rparr> = s"
    by (simp add: fun_upd_idem)
  show ?case unfolding * by (rule others_run.refl)
next
  case (Cons w ws)
  let ?s = "s\<lparr>completed := insert w (completed s), phase := (phase s)(u := Wake ws c)\<rparr>"
  have "lock_step u s ?s" using signal_step.wake [OF Cons.prems(1)] by (simp add: lock_step_def)
  moreover have "others_run t ?s (?s\<lparr>completed := completed ?s \<union> set ws, phase := (phase ?s)(u := Wake [] c)\<rparr>)"
    using Cons by (intro Cons.IH) simp_all
  ultimately have "others_run t s (?s\<lparr>completed := completed ?s \<union> set ws, phase := (phase ?s)(u := Wake [] c)\<rparr>)"
    by (rule others_run.step [OF _ Cons.prems(2)])
  then show ?case by (simp add: fun_upd_def cong: if_cong)
qed

lemma can_wake_taken: "\<lbrakk>phase s u = Wake ws c; u \<noteq> t; t \<in> set ws\<rbrakk> \<Longrightarrow> can_wake t s"
  unfolding can_wake_def using drain [of s u ws c t] by force

lemma can_wake_swap:
  assumes "phase s u = Swap c" "u \<noteq> t" "t \<in> set (queue s)"
  shows "can_wake t s"
proof (rule can_wake_step)
  show "lock_step u s (s\<lparr>queue := [], phase := (phase s)(u := Wake (rev (queue s)) c)\<rparr>)"
    using signal_step.swap [OF assms(1)] by (simp add: lock_step_def)
  show "can_wake t (s\<lparr>queue := [], phase := (phase s)(u := Wake (rev (queue s)) c)\<rparr>)"
    by (rule can_wake_taken [of _ u "rev (queue s)" c]) (use assms in auto)
qed (rule assms(2))

lemma can_wake_unlock:
  assumes "phase s u = Holding m \<or> phase s u = Dispose m" "u \<noteq> t" "t \<in> set (queue s)" "waiting (word s)"
  shows "can_wake t s"
proof -
  obtain w where w: "unlock m (word s) = (w, True)"
    using assms(4) unlock_waiting(2) [of m "word s"] by (cases "unlock m (word s)") simp
  obtain c where "lock_step u s (s\<lparr>word := w, phase := (phase s)(u := Swap c)\<rparr>)"
    using assms(1) unlock_step.release [OF _ w] unlock_step.dispose [OF _ w]
    by (fastforce simp: lock_step_def)
  moreover have "can_wake t (s\<lparr>word := w, phase := (phase s)(u := Swap c)\<rparr>)"
    by (rule can_wake_swap) (use assms in auto)
  ultimately show ?thesis by (rule can_wake_step [OF _ assms(2)])
qed

text \<open>A holder that still waits for its own signal is signalled first.\<close>

lemma can_wake_await:
  assumes "phase s u = Await Sync m Acquired" "u \<noteq> t" "t \<in> set (queue s)" "waiting (word s)"
    "u \<in> completed s"
  shows "can_wake t s"
proof (rule can_wake_step)
  show "lock_step u s (go u (Holding m) s)"
    using wait_sync_step.wait [OF assms(1,5)] by (simp add: lock_step_def returned_def)
  show "can_wake t (go u (Holding m) s)" by (rule can_wake_unlock) (use assms in auto)
qed (rule assms(2))

lemma can_wake_waiting_holder:
  assumes "phase s u = Await Sync m Acquired" "u \<noteq> t" "t \<in> set (queue s)" "waiting (word s)"
    "u \<in> completed s \<or> (\<exists>v. v \<noteq> t \<and> u \<in> set (taken (phase s v)))"
  shows "can_wake t s"
proof (cases "u \<in> completed s")
  case False
  then obtain v where v: "v \<noteq> t" "u \<in> set (taken (phase s v))" using assms(5) by blast
  then obtain ws c where ws: "phase s v = Wake ws c" "u \<in> set ws" by (cases "phase s v") auto
  then have "v \<noteq> u" using assms(1) by auto
  then have "can_wake t (s\<lparr>completed := completed s \<union> set ws, phase := (phase s)(v := Wake [] c)\<rparr>)"
    by (intro can_wake_await [of _ u m]) (use assms ws in auto)
  then show ?thesis by (rule can_wake_run [OF drain [OF ws(1) v(1)]])
next
  case True
  then show ?thesis using can_wake_await [OF assms(1-4)] by simp
qed

lemma taken_upd:
  assumes "u \<in> completed s \<or> (\<exists>v. v \<noteq> t \<and> u \<in> set (taken (phase s v)))" "set (taken (phase s u)) \<subseteq> D"
  shows "u \<in> completed s \<or> u \<in> D \<or> (\<exists>v. v \<noteq> t \<and> u \<in> set (taken (((phase s)(u := p)) v)))"
proof (cases "u \<in> completed s \<or> u \<in> D")
  case False
  then obtain v where "v \<noteq> t" "u \<in> set (taken (phase s v))" using assms(1) by blast
  moreover from this have "v \<noteq> u" using assms(2) False by auto
  ultimately show ?thesis by auto
qed auto

lemma can_wake_entry:
  assumes "phase s u = Wake [] (Entry k m Acquired)" "k \<noteq> Try" "u \<noteq> t" "t \<in> set (queue s)" "waiting (word s)"
    "u \<in> completed s \<or> (\<exists>v. v \<noteq> t \<and> u \<in> set (taken (phase s v)))"
  shows "can_wake t s"
proof (cases k)
  case Sync
  have "lock_step u s (go u (Await Sync m Acquired) s)"
    using wait_sync_step.signalled [of s u m Acquired] assms(1) Sync by (simp add: lock_step_def)
  moreover have "can_wake t (go u (Await Sync m Acquired) s)"
  proof (rule can_wake_waiting_holder)
    show "u \<in> completed (go u (Await Sync m Acquired) s) \<or>
        (\<exists>v. v \<noteq> t \<and> u \<in> set (taken (phase (go u (Await Sync m Acquired) s) v)))"
      using taken_upd [OF assms(6), of "{}" "Await Sync m Acquired"] assms(1) by simp
  qed (use assms in auto)
  ultimately show ?thesis by (rule can_wake_step [OF _ assms(3)])
next
  case Async
  let ?p = "if u \<in> completed s then Holding m else Dispose m"
  have "lock_step u s (go u ?p s)"
    using async_step.try_wait [of s u m Acquired] async_step.try_wait_failed [of s u m Acquired] assms(1) Async
    by (simp add: lock_step_def returned_def)
  moreover have "can_wake t (go u ?p s)" by (rule can_wake_unlock [of _ u m]) (use assms in auto)
  ultimately show ?thesis by (rule can_wake_step [OF _ assms(3)])
qed (use assms in simp)

lemma can_wake_queued:
  assumes "lock_reachable s" "t \<in> set (queue s)" "phase s t = Await k m Failed" "\<not> swapping s"
  shows "can_wake t s"
proof -
  have "stage (word s) (phase s t)" using reachable_wake [OF assms(1)] assms(2,4) by (simp add: wake_inv_def)
  then have w: "waiting (word s)" "0 < lock_part (word s)" using assms(3) by simp_all
  then obtain u m' where u: "holds (phase s u) = Some m'"
    using reachable_excl [OF assms(1)] by (fastforce simp: excl_inv_def counted_def holders_def card_gt_0_iff)
  have ut: "u \<noteq> t" using u assms(3) by auto
  have un: "u \<in> completed s \<or> (\<exists>v. v \<noteq> t \<and> u \<in> set (taken (phase s v)))"
    if "enlisted (phase s u)" "\<not> stage (word s) (phase s u)"
  proof -
    have "u \<notin> set (queue s)" using that(2) reachable_wake [OF assms(1)] assms(4) by (auto simp: wake_inv_def)
    then have "u \<in> completed s \<or> (\<exists>v. u \<in> set (taken (phase s v)))"
      using that(1) entriesD(5) [OF reachable_queue [OF assms(1), unfolded queue_inv_def]]
      by (auto simp: unsignalled_def)
    moreover have "taken (phase s t) = []" using assms(3) by simp
    ultimately show ?thesis by (metis empty_iff list.set(1))
  qed
  show ?thesis
  proof (cases "phase s u")
    case (Wake ws c)
    then obtain k' where c: "c = Entry k' m' Acquired" using u by (cases c rule: cont_holds.cases) auto
    have k': "k' \<noteq> Try" using reachable_phase [OF assms(1), of u] Wake c by simp
    let ?s = "s\<lparr>completed := completed s \<union> set ws, phase := (phase s)(u := Wake [] c)\<rparr>"
    have run: "others_run t s ?s" by (rule drain [OF Wake ut])
    have "can_wake t ?s"
    proof (rule can_wake_entry [of _ u k' m'])
      show "u \<in> completed ?s \<or> (\<exists>v. v \<noteq> t \<and> u \<in> set (taken (phase ?s v)))"
        using taken_upd [OF un, of "set ws" "Wake [] c"] Wake c by simp
    qed (use c k' ut assms(2) w(1) in auto)
    then show ?thesis by (rule can_wake_run [OF run])
  next
    case (Await k' m'' r)
    then have r: "r = Acquired" "m'' = m'" using u by (cases r; simp)+
    then have "k' = Sync" using reachable_phase [OF assms(1), of u] Await by simp
    then show ?thesis using can_wake_waiting_holder [of s u m' t] un Await r ut assms(2) w(1) by simp
  qed (use u assms(2,4) ut w(1) can_wake_unlock [of s u m' t] in \<open>auto simp: swapping_def\<close>)
qed

lemma can_wake_blocked:
  assumes "lock_reachable s" "phase s t = Await k m r \<or> phase s t = Spin" "t \<notin> completed s"
  shows "can_wake t s"
proof -
  have "t \<in> unsignalled s" using assms(2,3) by (auto simp: unsignalled_def)
  then have "t \<in> set (queue s) \<or> (\<exists>v. t \<in> set (taken (phase s v)))"
    using entriesD(5) [OF reachable_queue [OF assms(1), unfolded queue_inv_def]] by blast
  moreover have "can_wake t s" if tk: "t \<in> set (taken (phase s v))" for v
  proof -
    obtain ws c where "phase s v = Wake ws c" "t \<in> set ws" using tk by (cases "phase s v") auto
    moreover from this have "v \<noteq> t" using assms(2) by auto
    ultimately show ?thesis using can_wake_taken [of s v ws c t] by simp
  qed
  moreover have "can_wake t s" if q: "t \<in> set (queue s)"
  proof (cases "swapping s")
    case True
    then obtain u c where "phase s u = Swap c" by (auto simp: swapping_def)
    moreover from this have "u \<noteq> t" using assms(2) by auto
    ultimately show ?thesis using can_wake_swap [of s u c t] q by simp
  next
    case False
    then have "stage (word s) (phase s t)" using reachable_wake [OF assms(1)] q by (auto simp: wake_inv_def)
    then have "phase s t = Await k m Failed" using assms(2) by (cases r) auto
    then show ?thesis by (rule can_wake_queued [OF assms(1) q _ False])
  qed
  ultimately show ?thesis by blast
qed

section \<open>A run in which a caller waits\<close>

text \<open>Caller 2 holds the exclusive lock and caller 3 waits for it.\<close>

definition held_state :: "nat lock_sys" where
  "held_state = \<lparr>word = LOCK, queue = [], completed = {}, phase = (\<lambda>_. Idle)(2 := Holding Exclusive)\<rparr>"

definition waiting_state :: "nat lock_sys" where
  "waiting_state = \<lparr>word = LOCK OR WAITING, queue = [3], completed = {},
     phase = (\<lambda>_. Idle)(2 := Holding Exclusive, 3 := Await Sync Exclusive Failed)\<rparr>"

lemma constant_words: "LOCK = 536870912" "WAITING = 1073741824" "KILLED = 2147483648" "LOCK_MASK = 1073741823"
  by (simp_all add: LOCK_def WAITING_def KILLED_def LOCK_MASK_mask shl1_def push_bit_eq_mult mask_eq_exp_minus_1)

lemmas lock_words = constant_words try_lock_load_def locker_try_lock_def try_lock_new_def Let_def

lemma reach_call: "lock_reachable s \<Longrightarrow> call_step t s s' \<Longrightarrow> s'' = s' \<Longrightarrow> lock_reachable s''"
  using lock_reachable.step [of s t s'] by (simp add: lock_step_def)

lemma reach_closure: "lock_reachable s \<Longrightarrow> closure_step t s s' \<Longrightarrow> s'' = s' \<Longrightarrow> lock_reachable s''"
  using lock_reachable.step [of s t s'] by (simp add: lock_step_def)

lemma reach_sync: "lock_reachable s \<Longrightarrow> wait_sync_step t s s' \<Longrightarrow> s'' = s' \<Longrightarrow> lock_reachable s''"
  using lock_reachable.step [of s t s'] by (simp add: lock_step_def)

lemma held_reachable: "lock_reachable held_state"
proof -
  let ?s = "\<lambda>w p. \<lparr>word = w, queue = [], completed = {}, phase = (\<lambda>_. Idle)(2 := p)\<rparr> :: nat lock_sys"
  have "lock_reachable (?s 0 (First_Load Sync Exclusive))"
    by (rule reach_call [OF lock_reachable.init call_step.call [of _ 2 Sync Exclusive]])
       (simp_all add: lock_init_def)
  then have "lock_reachable (?s 0 (First_Try Sync Exclusive 0))"
    by (rule reach_call [OF _ call_step.load [of _ 2 Sync Exclusive 0]])
       (simp_all add: lock_words)
  then have "lock_reachable (?s LOCK (Holding Exclusive))"
    by (rule reach_call [OF _ call_step.exchange [of _ 2 Sync Exclusive 0]])
       (simp_all add: lock_words)
  then show ?thesis by (simp add: held_state_def)
qed

lemma waiting_reachable: "lock_reachable waiting_state"
proof -
  let ?s = "\<lambda>w q p. \<lparr>word = w, queue = q, completed = {}, phase = (\<lambda>_. Idle)(2 := Holding Exclusive, 3 := p)\<rparr>
    :: nat lock_sys"
  have "lock_reachable (?s LOCK [] (First_Load Sync Exclusive))"
    by (rule reach_call [OF held_reachable call_step.call [of _ 3 Sync Exclusive]])
       (simp_all add: held_state_def)
  then have "lock_reachable (?s LOCK [] (First_Try Sync Exclusive 0))"
    by (rule reach_call [OF _ call_step.load [of _ 3 Sync Exclusive 0]])
       (simp_all add: lock_words)
  then have "lock_reachable (?s LOCK [] (Push Sync Exclusive))"
    by (rule reach_call [OF _ call_step.exchange_failed [of _ 3 Sync Exclusive 0]])
       (simp_all add: lock_words first_failed_def)
  then have "lock_reachable (?s LOCK [3] (Announce Sync Exclusive))"
    by (rule reach_sync [OF _ wait_sync_step.push [of _ 3 Exclusive]]) simp_all
  then have "lock_reachable (?s (LOCK OR WAITING) [3] (Second_Load Sync Exclusive))"
    by (rule reach_closure [OF _ closure_step.announce [of _ 3 Sync Exclusive]]) simp_all
  then have "lock_reachable (?s (LOCK OR WAITING) [3] (Second_Try Sync Exclusive WAITING))"
    by (rule reach_closure [OF _ closure_step.load [of _ 3 Sync Exclusive WAITING]])
       (simp_all add: lock_words)
  then have "lock_reachable (?s (LOCK OR WAITING) [3] (Await Sync Exclusive Failed))"
    by (rule reach_closure [OF _ closure_step.exchange_failed [of _ 3 Sync Exclusive WAITING]])
       (simp_all add: lock_words)
  then show ?thesis by (simp add: waiting_state_def)
qed

section \<open>Properties\<close>

text \<open>C34. Mutual exclusion: in every reachable state a caller that holds a \<^verbatim>\<open>Locker\<close> is the only holder and the
  lock bits of the state word are \<^verbatim>\<open>LOCK\<close>; without one, the lock bits are the number of \<^verbatim>\<open>Reader\<close>s,
  at most \<^verbatim>\<open>SLOCK_MAX\<close>.\<close>

theorem bucket_lock_mutual_exclusion:
  assumes "lock_reachable s"
  shows "finite (holders s Shared) \<and>
    (\<forall>t. t \<in> holders s Exclusive \<longrightarrow>
       holders s Exclusive = {t} \<and> holders s Shared = {} \<and> lock_part (word s) = unat LOCK) \<and>
    (holders s Exclusive = {} \<longrightarrow>
       lock_part (word s) = card (holders s Shared) \<and> card (holders s Shared) \<le> unat SLOCK_MAX)"
proof -
  have "unat LOCK = 2 ^ 29" "unat SLOCK_MAX = 2 ^ 29 - 1"
    by (simp_all add: SLOCK_MAX_def constant_words(1))
  then show ?thesis using reachable_excl [OF assms] by (auto simp: excl_inv_def counted_def)
qed

theorem bucket_lock_mutual_exclusion_witness:
  "lock_reachable waiting_state \<and> 2 \<in> holders waiting_state Exclusive \<and> holders waiting_state Shared = {}"
  using bucket_lock_mutual_exclusion [OF waiting_reachable] waiting_reachable
  by (simp add: holders_def waiting_state_def)

text \<open>The entries of the wait queue are accounted for: an entry that is queued or that a signaller has
  taken and not yet signalled belongs to a caller that cannot leave its wait before the signal, so a
  signaller never follows a dangling pointer; every caller that waits unsignalled has its entry there;
  and no entry is in two places, so none is signalled twice.\<close>

theorem bucket_lock_entries_accounted:
  assumes "lock_reachable s"
  shows "(set (queue s) \<union> (\<Union>t. set (taken (phase s t))) = {w. enlisted (phase s w) \<and> w \<notin> completed s}) \<and>
    distinct (queue s) \<and> (\<forall>t. distinct (taken (phase s t)) \<and> set (taken (phase s t)) \<inter> set (queue s) = {}) \<and>
    (\<forall>t u. t \<noteq> u \<longrightarrow> set (taken (phase s t)) \<inter> set (taken (phase s u)) = {})"
  using reachable_queue [OF assms] unfolding queue_inv_def entries_def unsignalled_def by simp

theorem bucket_lock_entries_accounted_witness:
  "lock_reachable waiting_state \<and> {w. enlisted (phase waiting_state w) \<and> w \<notin> completed waiting_state} = {3}"
proof -
  have tk: "taken (phase waiting_state t) = []" for t by (simp add: waiting_state_def)
  have "set (queue waiting_state) \<union> (\<Union>t. set (taken (phase waiting_state t))) = {3}"
    unfolding tk by (simp add: waiting_state_def)
  then show ?thesis using conjunct1 [OF bucket_lock_entries_accounted [OF waiting_reachable]] waiting_reachable
    by simp
qed

text \<open>C35. No wake-up is lost: whenever a caller is blocked, in \<^verbatim>\<open>wait_sync\<close>, in the \<^verbatim>\<open>await\<close> of its \<^verbatim>\<open>AsyncWait\<close> or in
  the spin of \<^verbatim>\<open>pull\<close>, the other callers have steps that end with its entry signalled.\<close>

theorem bucket_lock_no_lost_wakeup:
  assumes "lock_reachable s" "phase s t = Await k m r \<or> phase s t = Spin" "t \<notin> completed s"
  shows "\<exists>s'. others_run t s s' \<and> t \<in> completed s'"
  using can_wake_blocked [OF assms] by (simp add: can_wake_def)

theorem bucket_lock_no_lost_wakeup_witness:
  "lock_reachable waiting_state \<and> (\<exists>s'. others_run 3 waiting_state s' \<and> 3 \<in> completed s')"
  using bucket_lock_no_lost_wakeup [OF waiting_reachable, of 3 Sync Exclusive Failed] waiting_reachable
  by (simp add: waiting_state_def)

end
