(* ===== verification/Wait_Queue.thy ===== *)
theory Wait_Queue
  imports Scc_Prelude
begin

text \<open>
  The data of the wait queue, \<^verbatim>\<open>src/wait_queue.rs\<close>: the intrusive list of entries that \<^verbatim>\<open>push\<close> builds and \<^verbatim>\<open>signal\<close> flips
  and walks, with its pointers as words whose lowest bit marks an asynchronous entry, and the state of
  one \<^verbatim>\<open>AsyncWait\<close>. The callers that use the queue concurrently are the step relation of
  \<^verbatim>\<open>Bucket_Lock_Steps\<close>, where the queue is the list of its entries.
\<close>

definition ASYNC :: usize where "ASYNC = 1"

section \<open>The intrusive list\<close>

text \<open>\<^verbatim>\<open>next\<close> of every entry, by its address, and the entries \<^verbatim>\<open>signal\<close> has signalled, in order. \<^verbatim>\<open>wq_push\<close> is the
  end of the exchange loops of \<^verbatim>\<open>wait_sync\<close> and \<^verbatim>\<open>push_async_entry\<close>: the entry points to the old head and the
  head to the entry. A list with a cycle would keep \<^verbatim>\<open>signal\<close> from returning, which is \<^term>\<open>None\<close>.\<close>

record wait_queue =
  wq_head :: usize
  wq_next :: "usize \<Rightarrow> usize"

definition wq_push :: "usize \<Rightarrow> bool \<Rightarrow> wait_queue \<Rightarrow> wait_queue" where
  "wq_push entry asynchronous q =
     q\<lparr>wq_next := (wq_next q)(entry := wq_head q), wq_head := (if asynchronous then entry OR ASYNC else entry)\<rparr>"

partial_function (option) wq_flip :: "(usize \<Rightarrow> usize) \<Rightarrow> usize \<Rightarrow> usize \<Rightarrow> ((usize \<Rightarrow> usize) \<times> usize) option" where
  "wq_flip nx current prev =
     (if current AND NOT ASYNC = 0 then Some (nx, prev)
      else let entry = (if current AND ASYNC = 0 then current else current AND NOT ASYNC);
               following = nx entry
           in wq_flip (nx(entry := prev)) following current)"

partial_function (option) wq_wake :: "(usize \<Rightarrow> usize) \<Rightarrow> usize \<Rightarrow> usize list \<Rightarrow> usize list option" where
  "wq_wake nx current signalled =
     (if current AND NOT ASYNC = 0 then Some signalled
      else let entry = (if current AND ASYNC = 0 then current else current AND NOT ASYNC);
               following = nx entry
           in wq_wake nx following (signalled @ [current]))"

definition wq_signal :: "wait_queue \<Rightarrow> (usize list \<times> wait_queue) option" where
  "wq_signal q =
     (let current = wq_head q;
          q = q\<lparr>wq_head := 0\<rparr>
      in case wq_flip (wq_next q) current 0 of
           None \<Rightarrow> None
         | Some (nx, prev) \<Rightarrow>
             (case wq_wake nx prev [] of
                None \<Rightarrow> None
              | Some signalled \<Rightarrow> Some (signalled, q\<lparr>wq_next := nx\<rparr>)))"

section \<open>An asynchronous entry\<close>

text \<open>\<^verbatim>\<open>AsyncWait\<close>: the mutex, once it exists, holds whether the entry is still associated with a wait queue and
  the waker of the last poll. \<^verbatim>\<open>signal\<close> gives the waker it wakes; without a mutex it is unreachable.\<close>

record 'w async_wait =
  aw_next :: usize
  aw_mutex :: "(bool \<times> 'w option) option"

definition aw_enqueue :: "usize \<Rightarrow> 'w async_wait \<Rightarrow> 'w async_wait" where
  "aw_enqueue current aw = aw\<lparr>aw_next := current, aw_mutex := Some (True, None)\<rparr>"

definition aw_signal :: "'w async_wait \<Rightarrow> ('w option \<times> 'w async_wait) option" where
  "aw_signal aw =
     (case aw_mutex aw of
        Some (_, waker) \<Rightarrow> Some (waker, aw\<lparr>aw_mutex := Some (False, None)\<rparr>)
      | None \<Rightarrow> None)"

definition aw_try_wait :: "'w async_wait \<Rightarrow> bool" where
  "aw_try_wait aw = (case aw_mutex aw of Some (associated, _) \<Rightarrow> \<not> associated | None \<Rightarrow> False)"

definition aw_poll :: "'w \<Rightarrow> 'w async_wait \<Rightarrow> bool \<times> 'w async_wait" where
  "aw_poll waker aw =
     (case aw_mutex aw of
        Some (associated, w) \<Rightarrow>
          if \<not> associated then (True, aw)
          else (False, aw\<lparr>aw_mutex := Some (associated, Some waker)\<rparr>)
      | None \<Rightarrow> (True, aw))"

section \<open>The list as a sequence of entries\<close>

definition untag :: "usize \<Rightarrow> usize" where
  "untag p = p AND NOT ASYNC"

text \<open>The entries from a head pointer on; the list ends with a null pointer.\<close>

fun chain :: "(usize \<Rightarrow> usize) \<Rightarrow> usize \<Rightarrow> usize list \<Rightarrow> bool" where
  "chain nx p [] \<longleftrightarrow> untag p = 0"
| "chain nx p (e # es) \<longleftrightarrow> p = e \<and> untag e \<noteq> 0 \<and> chain nx (nx (untag e)) es"

definition wq_inv :: "wait_queue \<Rightarrow> usize list \<Rightarrow> bool" where
  "wq_inv q es \<longleftrightarrow> chain (wq_next q) (wq_head q) es \<and> distinct (map untag es)"

lemma untag_sync: "p AND ASYNC = 0 \<Longrightarrow> untag p = p"
proof (rule bit_word_eqI)
  fix n assume "p AND ASYNC = 0"
  then have "\<not> bit (p AND ASYNC) n" by simp
  then show "bit (untag p) n = bit p n" by (auto simp: untag_def bit_and_iff bit_not_iff dest: bit_imp_le_length)
qed

lemma entry_of: "(if p AND ASYNC = 0 then p else p AND NOT ASYNC) = untag p"
  using untag_sync [of p] by (simp add: untag_def)

lemma wq_flip_step: "wq_flip nx p prev =
    (if untag p = 0 then Some (nx, prev) else wq_flip (nx(untag p := prev)) (nx (untag p)) p)"
  by (subst wq_flip.simps) (simp add: entry_of Let_def, simp add: untag_def)

lemma wq_wake_step: "wq_wake nx p ss =
    (if untag p = 0 then Some ss else wq_wake nx (nx (untag p)) (ss @ [p]))"
  by (subst wq_wake.simps) (simp add: entry_of Let_def, simp add: untag_def)

lemma chain_upd: "untag e \<notin> set (map untag es) \<Longrightarrow> chain (nx(untag e := x)) p es = chain nx p es"
  by (induction es arbitrary: p) auto

text \<open>The flip turns the list of the entries from the head into its reverse.\<close>

lemma wq_flip_chain:
  "\<lbrakk>chain nx p es; chain nx prev done; distinct (map untag (es @ done))\<rbrakk> \<Longrightarrow>
   \<exists>nx' h. wq_flip nx p prev = Some (nx', h) \<and> chain nx' h (rev es @ done)"
proof (induction es arbitrary: nx p prev "done")
  case Nil
  then show ?case by (simp add: wq_flip_step)
next
  case (Cons e es)
  let ?nx = "nx(untag e := prev)"
  have d: "untag e \<notin> set (map untag es)" "untag e \<notin> set (map untag done)" using Cons.prems(3) by auto
  have "chain ?nx (nx (untag e)) es" using Cons.prems(1) chain_upd [OF d(1)] by simp
  moreover have "chain ?nx e (e # done)" using Cons.prems chain_upd [OF d(2), of nx prev prev] by simp
  moreover have "distinct (map untag (es @ e # done))" using Cons.prems(3) d by auto
  ultimately show ?case using Cons.IH Cons.prems(1) by (subst wq_flip_step) fastforce
qed

lemma wq_wake_chain: "chain nx p es \<Longrightarrow> wq_wake nx p ss = Some (ss @ es)"
proof (induction es arbitrary: p ss)
  case Nil
  then show ?case by (simp add: wq_wake_step)
next
  case (Cons e es)
  then show ?case using Cons.IH [of "nx (untag e)" "ss @ [e]"] by (subst wq_wake_step) simp
qed

lemma wq_signal_inv:
  assumes "wq_inv q es"
  shows "\<exists>q'. wq_signal q = Some (rev es, q') \<and> wq_inv q' []"
proof -
  obtain nx h where "wq_flip (wq_next q) (wq_head q) 0 = Some (nx, h)" "chain nx h (rev es)"
    using assms wq_flip_chain [of "wq_next q" "wq_head q" es 0 "[]"] by (auto simp: wq_inv_def untag_def)
  then show ?thesis by (simp add: wq_signal_def wq_wake_chain wq_inv_def untag_def)
qed

text \<open>Entries are aligned, so the lowest bit of an address is free for the mark.\<close>

definition wq_pointer :: "usize \<times> bool \<Rightarrow> usize" where
  "wq_pointer e = (if snd e then fst e OR ASYNC else fst e)"

definition entry_address :: "usize \<Rightarrow> bool" where
  "entry_address p \<longleftrightarrow> p \<noteq> 0 \<and> p AND ASYNC = 0"

lemma untag_pointer: "entry_address (fst e) \<Longrightarrow> untag (wq_pointer e) = fst e"
proof -
  assume "entry_address (fst e)"
  then have "untag (fst e) = fst e" by (simp add: entry_address_def untag_sync)
  moreover have "(fst e OR ASYNC) AND NOT ASYNC = fst e AND NOT ASYNC"
    by (rule bit_word_eqI) (auto simp: bit_and_iff bit_or_iff bit_not_iff)
  ultimately show ?thesis by (simp add: untag_def wq_pointer_def)
qed

lemma wq_push_inv:
  assumes "wq_inv q es" "entry_address (fst e)" "fst e \<notin> set (map untag es)"
  shows "wq_inv (wq_push (fst e) (snd e) q) (wq_pointer e # es)"
proof -
  have u: "untag (wq_pointer e) = fst e" by (rule untag_pointer [OF assms(2)])
  have "chain ((wq_next q)(untag (wq_pointer e) := wq_head q)) (wq_head q) es"
    using chain_upd [of "wq_pointer e" es] assms by (simp add: u wq_inv_def)
  then show ?thesis using assms by (simp add: wq_inv_def wq_push_def wq_pointer_def [symmetric] u entry_address_def)
qed

lemma wq_pushes_inv:
  "\<lbrakk>wq_inv q ps; list_all (entry_address \<circ> fst) es; distinct (map untag ps @ map fst es)\<rbrakk> \<Longrightarrow>
   wq_inv (foldl (\<lambda>q (e, a). wq_push e a q) q es) (rev (map wq_pointer es) @ ps)"
proof (induction es arbitrary: q ps)
  case (Cons e es)
  obtain a b where e: "e = (a, b)" by (cases e)
  have "wq_inv (wq_push a b q) (wq_pointer e # ps)" using wq_push_inv [of q ps e] Cons.prems e by simp
  then have "wq_inv (foldl (\<lambda>q (e, a). wq_push e a q) (wq_push a b q) es)
      (rev (map wq_pointer es) @ wq_pointer e # ps)"
    by (rule Cons.IH) (use Cons.prems untag_pointer [of e] e in auto)
  then show ?case using e by simp
qed simp

text \<open>A poll registers its waker, a signal wakes it and makes the entry ready.\<close>

lemma async_wait_cycle:
  "aw_poll w (aw_enqueue n aw) = (False, aw1) \<Longrightarrow>
   \<not> aw_try_wait aw1 \<and> (\<exists>aw2. aw_signal aw1 = Some (Some w, aw2) \<and> aw_try_wait aw2 \<and> aw_poll w' aw2 = (True, aw2))"
  by (auto simp: aw_poll_def aw_enqueue_def aw_signal_def aw_try_wait_def)

text \<open>C36. \<^verbatim>\<open>signal\<close> returns, signals every entry of the queue exactly once, the oldest first, and leaves the queue
  empty, whatever mix of synchronous and asynchronous entries has been pushed.\<close>

theorem wait_queue_signals_oldest_first:
  assumes "wq_head q = 0" "list_all (entry_address \<circ> fst) es" "distinct (map fst es)"
  shows "\<exists>q'. wq_signal (foldl (\<lambda>q (e, a). wq_push e a q) q es) = Some (map wq_pointer es, q') \<and> wq_head q' = 0"
proof -
  have "wq_inv q []" using assms(1) by (simp add: wq_inv_def untag_def)
  then have "wq_inv (foldl (\<lambda>q (e, a). wq_push e a q) q es) (rev (map wq_pointer es))"
    using wq_pushes_inv [of q "[]" es] assms by simp
  then obtain q' where "wq_signal (foldl (\<lambda>q (e, a). wq_push e a q) q es) = Some (map wq_pointer es, q')"
    using wq_signal_inv by fastforce
  moreover from this have "wq_head q' = 0" by (auto simp: wq_signal_def Let_def split: option.splits)
  ultimately show ?thesis by blast
qed

theorem wait_queue_signals_oldest_first_witness:
  "\<exists>q'. wq_signal (wq_push 48 False (wq_push 32 True (wq_push 16 False \<lparr>wq_head = 0, wq_next = (\<lambda>_. 0)\<rparr>)))
     = Some ([16, 33, 48], q') \<and> wq_head q' = 0"
  using wait_queue_signals_oldest_first [of "\<lparr>wq_head = 0, wq_next = (\<lambda>_. 0)\<rparr>" "[(16, False), (32, True), (48, False)]"]
  by (simp add: entry_address_def ASYNC_def wq_pointer_def)

end
