(* ===== verification/Bag_Storage.thy ===== *)
theory Bag_Storage
  imports Scc_Prelude "HOL-Library.Multiset"
begin

text \<open>
  The fixed-size arrays of a bag: \<^verbatim>\<open>Storage\<close> of \<^verbatim>\<open>src/bag.rs\<close>. A storage has \<open>n\<close> slots
  (\<^verbatim>\<open>ARRAY_LEN\<close>, at most 32) and one metadata word with two bits per slot: bit \<open>i\<close> says that slot
  \<open>i\<close> is owned by a thread that fills or empties it, bit \<open>n + i\<close> that the slot holds an instance.
  The operations are first the functions that one thread computes, then the steps of a relation in
  which any number of threads interleave, one step for each access to the metadata word and each
  access to a slot.
\<close>

section \<open>The metadata word\<close>

record 'a storage =
  slots :: "'a option list"
  metadata :: usize

definition instance_bitmap :: "nat \<Rightarrow> usize \<Rightarrow> u32" where
  "instance_bitmap n m = ucast (drop_bit n m)"

definition owned_bitmap :: "nat \<Rightarrow> usize \<Rightarrow> u32" where
  "owned_bitmap n m = ucast (m mod shl1 n)"

lemma bit_instance_bitmap [bitmap_simps]: "bit (instance_bitmap n m) i \<longleftrightarrow> i < 32 \<and> bit m (n + i)"
  by (auto simp: instance_bitmap_def bit_simps)

lemma bit_owned_bitmap [bitmap_simps]: "bit (owned_bitmap n m) i \<longleftrightarrow> i < 32 \<and> i < n \<and> bit m i"
  unfolding owned_bitmap_def shl1_def push_bit_of_1 take_bit_eq_mod [symmetric]
  by (auto simp: bit_simps)

definition storage_new :: "nat \<Rightarrow> 'a storage" where
  "storage_new n = \<lparr>slots = replicate n None, metadata = 0\<rparr>"

text \<open>\<^verbatim>\<open>with_val\<close> panics on an array without slots, where \<^verbatim>\<open>storage[0]\<close> is out of bounds.\<close>

definition with_val :: "nat \<Rightarrow> 'a \<Rightarrow> 'a storage option" where
  "with_val n val =
     (if 0 < n then Some \<lparr>slots = (replicate n None)[0 := Some val], metadata = shl1 n\<rparr> else None)"

definition storage_len :: "nat \<Rightarrow> 'a storage \<Rightarrow> nat" where
  "storage_len n st = count_ones (instance_bitmap n (metadata st) AND NOT (owned_bitmap n (metadata st)))"

section \<open>Choosing a slot\<close>

text \<open>
  The inner loop of \<^verbatim>\<open>push\<close>, from the first slot without an instance. \<^verbatim>\<open>Bag::new\<close> refuses an
  \<^verbatim>\<open>ARRAY_LEN\<close> above 32; the bound 32 in the loops is the width of the bitmaps.
\<close>

function push_scan :: "nat \<Rightarrow> u32 \<Rightarrow> u32 \<Rightarrow> nat option" where
  "push_scan n inst owned =
     (let index = trailing_ones inst
      in if index < n \<and> index < 32
         then if owned AND shl1 index = 0 then Some index
              else push_scan n (inst OR shl1 index) owned
         else None)"
  by pat_completeness auto
termination
proof (relation "measure (\<lambda>(n, inst, owned). 32 - count_ones inst)", simp)
  fix n :: nat and inst owned :: u32 and index :: nat
  assume "index = trailing_ones inst" "index < n \<and> index < 32"
  then show "((n, inst OR shl1 index, owned), n, inst, owned)
             \<in> measure (\<lambda>(n, inst, owned). 32 - count_ones inst)"
    using not_bit_trailing_ones [of inst] count_ones_set [of inst index]
      count_ones_le [of "inst OR shl1 index"] by simp
qed

declare push_scan.simps [simp del]

definition push_slot :: "nat \<Rightarrow> bool \<Rightarrow> usize \<Rightarrow> nat option" where
  "push_slot n allow_empty m =
     (let inst = instance_bitmap n m; owned = owned_bitmap n m
      in if \<not> allow_empty \<and> inst AND NOT owned = 0 then None else push_scan n inst owned)"

text \<open>The inner loop of \<^verbatim>\<open>pop\<close>, from the first slot with an instance.\<close>

lemma len32: "LENGTH(32) = 32"
  by simp

lemma trailing_zeros_above:
  fixes w :: "'a::len word"
  assumes "i < LENGTH('a)" "\<And>j. j \<le> i \<Longrightarrow> \<not> bit w j"
  shows "i < trailing_zeros w"
  using assms bit_trailing_zeros [of w] trailing_zeros_eq_length_iff [of w]
  by (cases "w = 0") (auto simp: not_le [symmetric])

lemma bit_above_mask:
  "i < 32 \<Longrightarrow> bit (push_bit 1 (push_bit i (- 1 :: u32))) j \<longleftrightarrow> i < j \<and> j < 32"
  by (simp only: bit_push_bit_iff) (auto simp: bit_simps)

function pop_scan :: "nat \<Rightarrow> u32 \<Rightarrow> u32 \<Rightarrow> nat \<Rightarrow> nat option" where
  "pop_scan n inst owned index =
     (if index < n \<and> index < 32
      then if owned AND shl1 index = 0 then Some index
           else pop_scan n inst owned (trailing_zeros (inst AND push_bit 1 (push_bit index (- 1))))
      else None)"
  by pat_completeness auto
termination
proof (relation "measure (\<lambda>(n, inst, owned, index). 32 - index)", simp)
  fix n :: nat and inst owned :: u32 and index :: nat
  assume i: "index < n \<and> index < 32"
  then have "index < trailing_zeros (inst AND push_bit 1 (push_bit index (- 1)))"
    by (intro trailing_zeros_above) (auto simp only: bit_and_iff bit_above_mask len32)
  with i show "((n, inst, owned, trailing_zeros (inst AND push_bit 1 (push_bit index (- 1)))), n, inst, owned, index)
               \<in> measure (\<lambda>(n, inst, owned, index). 32 - index)"
    by (auto intro: diff_less_mono2)
qed

declare pop_scan.simps [simp del]

definition pop_slot :: "nat \<Rightarrow> usize \<Rightarrow> nat option" where
  "pop_slot n m =
     (let inst = instance_bitmap n m; owned = owned_bitmap n m
      in pop_scan n inst owned (trailing_zeros inst))"

text \<open>The instances that \<^verbatim>\<open>pop_all\<close> takes, and the step of its reading loop.\<close>

definition instances_to_pop :: "nat \<Rightarrow> usize \<Rightarrow> usize" where
  "instances_to_pop n m = ucast (instance_bitmap n m) AND NOT (ucast (owned_bitmap n m))"

lemma bit_instances_to_pop [bitmap_simps]:
  "bit (instances_to_pop n m) i \<longleftrightarrow> i < 32 \<and> bit m (n + i) \<and> \<not> (i < n \<and> bit m i)"
  by (auto simp: instances_to_pop_def bit_simps bitmap_simps)

definition next_to_pop :: "usize \<Rightarrow> nat \<Rightarrow> nat" where
  "next_to_pop insts index = trailing_zeros (insts AND NOT (shl1 (index + 1) - 1))"

text \<open>The values that the read-modify-write operations store.\<close>

definition publish_metadata :: "nat \<Rightarrow> bool \<Rightarrow> nat \<Rightarrow> usize \<Rightarrow> usize option" where
  "publish_metadata n allow_empty index m =
     (if \<not> allow_empty \<and> instance_bitmap n m AND NOT (owned_bitmap n m) = 0 then None
      else Some ((m AND NOT (shl1 index)) OR shl1 (index + n)))"

definition pop_metadata :: "nat \<Rightarrow> nat \<Rightarrow> usize \<Rightarrow> usize" where
  "pop_metadata n index m = m AND NOT (shl1 index OR shl1 (index + n))"

definition pop_all_metadata :: "nat \<Rightarrow> usize \<Rightarrow> usize \<Rightarrow> usize" where
  "pop_all_metadata n insts m = m AND NOT (push_bit n insts OR insts)"

section \<open>The operations of one thread\<close>

definition storage_push :: "nat \<Rightarrow> 'a \<Rightarrow> bool \<Rightarrow> 'a storage \<Rightarrow> 'a option \<times> 'a storage" where
  "storage_push n val allow_empty st =
     (case push_slot n allow_empty (metadata st) of
        None \<Rightarrow> (Some val, st)
      | Some index \<Rightarrow>
          (let m = metadata st OR shl1 index; st = st\<lparr>slots := (slots st)[index := Some val], metadata := m\<rparr>
           in case publish_metadata n allow_empty index m of
                Some new \<Rightarrow> (None, st\<lparr>metadata := new\<rparr>)
              | None \<Rightarrow> (slots st ! index, st\<lparr>metadata := m AND NOT (shl1 index)\<rparr>)))"

definition storage_pop :: "nat \<Rightarrow> 'a storage \<Rightarrow> ('a option \<times> bool) \<times> 'a storage" where
  "storage_pop n st =
     (case pop_slot n (metadata st) of
        None \<Rightarrow> ((None, instance_bitmap n (metadata st) = 0), st)
      | Some index \<Rightarrow>
          (let new = pop_metadata n index (metadata st OR shl1 index)
           in ((slots st ! index, instance_bitmap n new = 0), st\<lparr>metadata := new\<rparr>)))"

text \<open>The reading loop of \<^verbatim>\<open>pop_all\<close>; \<^term>\<open>None\<close> when it reads a slot without an instance.\<close>

lemma bit_below_mask:
  "i < 64 \<Longrightarrow> bit (shl1 i - 1 :: usize) j \<longleftrightarrow> j < i"
  unfolding shl1_def push_bit_of_1 mask_eq_exp_minus_1 [symmetric] by (auto simp: bit_mask_iff)

lemma next_to_pop_greater: "index < 32 \<Longrightarrow> index < next_to_pop insts index"
  unfolding next_to_pop_def
  by (rule trailing_zeros_above) (simp_all only: bit_and_iff bit_not_iff bit_below_mask, simp_all)

function pop_all_read_loop :: "nat \<Rightarrow> ('b \<Rightarrow> 'a \<Rightarrow> 'b) \<Rightarrow> 'a option list \<Rightarrow> usize \<Rightarrow> nat \<Rightarrow> 'b \<Rightarrow> 'b option" where
  "pop_all_read_loop n fold_fn sl insts index acc =
     (if index < n \<and> index < 32
      then case sl ! index of
             None \<Rightarrow> None
           | Some v \<Rightarrow> pop_all_read_loop n fold_fn sl insts (next_to_pop insts index) (fold_fn acc v)
      else Some acc)"
  by pat_completeness auto
termination
  by (relation "measure (\<lambda>(n, f, sl, insts, index, acc). 32 - index)")
    (auto simp: next_to_pop_greater diff_less_mono2)

declare pop_all_read_loop.simps [simp del]

lemma bit_pop_all_metadata [bitmap_simps]:
  "bit (pop_all_metadata n insts m) i \<longleftrightarrow> bit m i \<and> \<not> bit insts i \<and> \<not> (n \<le> i \<and> bit insts (i - n))"
  by (auto simp: pop_all_metadata_def bit_simps dest: bit_below)

lemma instances_to_pop_cleared:
  "instances_to_pop n (pop_all_metadata n (instances_to_pop n m) (m OR instances_to_pop n m)) = 0"
  by (rule bit_word_eqI) (auto simp: bitmap_simps)

text \<open>\<^verbatim>\<open>pop_all\<close>: \<^term>\<open>None\<close> when the reading loop has read a slot without an instance.\<close>

function storage_pop_all ::
    "nat \<Rightarrow> 'b \<Rightarrow> ('b \<Rightarrow> 'a \<Rightarrow> 'b) \<Rightarrow> bool \<Rightarrow> 'a storage \<Rightarrow> ('b \<times> 'a storage) option" where
  "storage_pop_all n acc fold_fn allow_nonempty st =
     (let m = metadata st; insts = instances_to_pop n m
      in if insts = 0 then Some (acc, st)
         else case pop_all_read_loop n fold_fn (slots st) insts (trailing_zeros insts) acc of
                None \<Rightarrow> None
              | Some acc \<Rightarrow>
                  (let st = st\<lparr>metadata := pop_all_metadata n insts (m OR insts)\<rparr>
                   in if allow_nonempty then Some (acc, st)
                      else storage_pop_all n acc fold_fn allow_nonempty st))"
  by pat_completeness auto
termination
  by (relation "measure (\<lambda>(n, acc, f, a, st). if instances_to_pop n (metadata st) = 0 then 0 else 1)")
    (auto simp: instances_to_pop_cleared)

declare storage_pop_all.simps [simp del]

text \<open>\<^verbatim>\<open>Storage::drop\<close>: the values dropped, in the order of the slots; \<^term>\<open>None\<close> when a slot without an
  instance would be dropped.\<close>

function storage_drop_loop :: "'a option list \<Rightarrow> u32 \<Rightarrow> 'a list option" where
  "storage_drop_loop sl inst =
     (let index = trailing_zeros inst
      in if index = 32 then Some []
         else case (if index < length sl then sl ! index else None) of
                None \<Rightarrow> None
              | Some v \<Rightarrow> map_option ((#) v) (storage_drop_loop sl (inst AND NOT (shl1 index))))"
  by pat_completeness auto
termination
proof (relation "measure (\<lambda>(sl, inst). count_ones inst)", simp)
  fix sl :: "'a option list" and inst :: u32 and index v
  assume "index = trailing_zeros inst" "index \<noteq> 32"
  then have "bit inst index" using trailing_zeros_eq_length_iff [of inst] by (auto intro: bit_trailing_zeros)
  then show "((sl, inst AND NOT (shl1 index)), sl, inst) \<in> measure (\<lambda>(sl, inst). count_ones inst)"
    using count_ones_clear [of inst index] by simp
qed

declare storage_drop_loop.simps [simp del]

definition storage_drop :: "nat \<Rightarrow> bool \<Rightarrow> 'a storage \<Rightarrow> 'a list option" where
  "storage_drop n needs_drop st =
     (if needs_drop then storage_drop_loop (slots st) (instance_bitmap n (metadata st)) else Some [])"

section \<open>What the scans find\<close>

lemma and_shl1_eq_0: "(w AND shl1 i = (0 :: 'a::len word)) \<longleftrightarrow> \<not> (i < LENGTH('a) \<and> bit w i)"
  unfolding bit_eq_iff [of "w AND shl1 i"] by (auto simp: bitmap_simps)

lemma push_scan_Some:
  "push_scan n inst owned = Some i \<Longrightarrow> i < n \<and> i < 32 \<and> \<not> bit inst i \<and> \<not> bit owned i"
proof (induction n inst owned rule: push_scan.induct)
  case (1 n inst owned)
  show ?case
  proof (cases "trailing_ones inst < n \<and> trailing_ones inst < 32")
    case True
    show ?thesis
    proof (cases "owned AND shl1 (trailing_ones inst) = 0")
      case free: True
      then show ?thesis using True 1(2) not_bit_trailing_ones [of inst]
        by (auto simp: push_scan.simps [of n inst] Let_def and_shl1_eq_0)
    next
      case False
      then show ?thesis using True 1 by (auto simp: push_scan.simps [of n inst] Let_def bitmap_simps)
    qed
  qed (use 1(2) in \<open>auto simp: push_scan.simps [of n inst] Let_def\<close>)
qed

lemma push_scan_None:
  "push_scan n inst owned = None \<Longrightarrow> n \<le> 32 \<Longrightarrow> i < n \<Longrightarrow> bit inst i \<or> bit owned i"
proof (induction n inst owned rule: push_scan.induct)
  case (1 n inst owned)
  show ?case
  proof (cases "trailing_ones inst < n \<and> trailing_ones inst < 32")
    case True
    show ?thesis
    proof (cases "owned AND shl1 (trailing_ones inst) = 0")
      case False
      then have "bit (inst OR shl1 (trailing_ones inst)) i \<or> bit owned i" using True 1
        by (simp add: push_scan.simps [of n inst] Let_def)
      then show ?thesis using False by (auto simp: bitmap_simps and_shl1_eq_0)
    qed (use True 1(2) in \<open>simp add: push_scan.simps [of n inst] Let_def\<close>)
  next
    case False
    then show ?thesis using 1(3,4) bit_below_trailing_ones [of i inst] by auto
  qed
qed

lemma pop_scan_Some:
  "pop_scan n inst owned index = Some i \<Longrightarrow> index < 32 \<longrightarrow> bit inst index
    \<Longrightarrow> i < n \<and> i < 32 \<and> bit inst i \<and> \<not> bit owned i"
proof (induction n inst owned index rule: pop_scan.induct)
  case (1 n inst owned index)
  let ?next = "trailing_zeros (inst AND push_bit 1 (push_bit index (- 1)))"
  have at_next: "?next < 32 \<longrightarrow> bit inst ?next"
    using bit_trailing_zeros [of "inst AND push_bit 1 (push_bit index (- 1))"]
      trailing_zeros_lt_iff [of "inst AND push_bit 1 (push_bit index (- 1))"]
    by (auto simp only: bit_and_iff len32)
  show ?case
    using 1(2,3) "1.IH" [OF _ _ _ at_next]
    by (simp only: pop_scan.simps [of n inst owned index] and_shl1_eq_0 len32 split: if_splits)
      (simp_all split: if_splits)
qed

lemma pop_scan_None:
  "pop_scan n inst owned index = None \<Longrightarrow> n \<le> 32 \<Longrightarrow> i < n \<Longrightarrow> index \<le> i \<Longrightarrow> bit inst i \<Longrightarrow> bit owned i"
proof (induction n inst owned index rule: pop_scan.induct)
  case (1 n inst owned index)
  let ?w = "inst AND push_bit 1 (push_bit index (- 1))"
  have i: "index < 32" "index < n" "i < 32" using 1(3,4,5) by simp_all
  from 1(2) i have owned: "owned AND shl1 index \<noteq> 0" and rest: "pop_scan n inst owned (trailing_zeros ?w) = None"
    by (simp_all only: pop_scan.simps [of n inst owned index] split: if_splits) simp_all
  show ?case
  proof (cases "index = i")
    case True
    then show ?thesis using owned i by (simp add: and_shl1_eq_0)
  next
    case False
    then have "bit ?w i" using 1(5,6) i by (simp only: bit_and_iff bit_above_mask) simp
    then have "trailing_zeros ?w \<le> i" by (rule trailing_zeros_le_bit)
    then show ?thesis using "1.IH" [OF _ owned rest] 1(3,4,6) i by blast
  qed
qed

text \<open>The slots that hold an instance nobody owns, and the values in them.\<close>

definition available :: "nat \<Rightarrow> usize \<Rightarrow> nat set" where
  "available n m = {i. i < n \<and> bit m (n + i) \<and> \<not> bit m i}"

definition contents :: "nat \<Rightarrow> 'a storage \<Rightarrow> 'a multiset" where
  "contents n st = image_mset (\<lambda>i. the (slots st ! i)) (mset_set (available n (metadata st)))"

definition wf_metadata :: "nat \<Rightarrow> usize \<Rightarrow> bool" where
  "wf_metadata n m \<longleftrightarrow> n \<le> 32 \<and> (\<forall>j. bit m j \<longrightarrow> j < 2 * n)"

lemma finite_available [simp]: "finite (available n m)"
  by (simp add: available_def)

lemma contents_empty_iff: "contents n st = {#} \<longleftrightarrow> available n (metadata st) = {}"
  by (simp add: contents_def mset_set_empty_iff)

lemma none_available_iff:
  "wf_metadata n m \<Longrightarrow> instance_bitmap n m AND NOT (owned_bitmap n m) = 0 \<longleftrightarrow> available n m = {}"
  by (auto simp: bit_eq_iff bitmap_simps available_def wf_metadata_def)

lemma instances_to_pop_available:
  "wf_metadata n m \<Longrightarrow> bit (instances_to_pop n m) i \<longleftrightarrow> i \<in> available n m"
  by (auto simp: bitmap_simps available_def wf_metadata_def)

lemma instances_to_pop_0:
  "wf_metadata n m \<Longrightarrow> instances_to_pop n m = 0 \<longleftrightarrow> available n m = {}"
  using instances_to_pop_available [of n m] bit_eq_iff [of "instances_to_pop n m" 0] by auto

lemma no_instances_available: "wf_metadata n m \<Longrightarrow> instance_bitmap n m = 0 \<Longrightarrow> available n m = {}"
  by (auto simp: bit_eq_iff bitmap_simps available_def wf_metadata_def)

lemma push_slot_Some:
  "push_slot n allow m = Some i \<Longrightarrow> wf_metadata n m \<Longrightarrow>
     i < n \<and> \<not> bit m (n + i) \<and> \<not> bit m i \<and> (allow \<or> available n m \<noteq> {})"
  by (auto simp: push_slot_def none_available_iff bitmap_simps dest!: push_scan_Some split: if_splits)

lemma push_slot_None:
  "push_slot n allow m = None \<Longrightarrow> wf_metadata n m \<Longrightarrow>
     (\<forall>i<n. bit m (n + i) \<or> bit m i) \<or> \<not> allow \<and> available n m = {}"
  using push_scan_None [of n "instance_bitmap n m" "owned_bitmap n m"]
  by (auto simp: push_slot_def none_available_iff bitmap_simps wf_metadata_def split: if_splits)

lemma pop_slot_Some: "pop_slot n m = Some i \<Longrightarrow> i \<in> available n m"
  using pop_scan_Some [of n "instance_bitmap n m" "owned_bitmap n m" "trailing_zeros (instance_bitmap n m)" i]
    bit_trailing_zeros [of "instance_bitmap n m"] trailing_zeros_lt_iff [of "instance_bitmap n m"]
  by (auto simp: pop_slot_def available_def bitmap_simps Let_def)

lemma pop_slot_None: "pop_slot n m = None \<Longrightarrow> wf_metadata n m \<Longrightarrow> available n m = {}"
  using pop_scan_None [of n "instance_bitmap n m" "owned_bitmap n m" "trailing_zeros (instance_bitmap n m)"]
    trailing_zeros_le_bit [of "instance_bitmap n m"]
  by (force simp: pop_slot_def available_def bitmap_simps wf_metadata_def Let_def)

section \<open>The effect of each update on the metadata\<close>

lemma bit_own [bitmap_simps]: "i < 32 \<Longrightarrow> bit (m OR shl1 i :: usize) j \<longleftrightarrow> bit m j \<or> j = i"
  by (auto simp: bitmap_simps)

lemma bit_publish:
  assumes "publish_metadata n allow i m = Some new" "i < n" "n \<le> 32"
  shows "bit new j \<longleftrightarrow> bit m j \<and> j \<noteq> i \<or> j = n + i"
proof -
  from assms(1) have "new = (m AND NOT (shl1 i)) OR shl1 (i + n)"
    by (simp add: publish_metadata_def split: if_splits)
  then show ?thesis using assms(2,3) by (simp only: bit_or_iff bit_clear_bit bit_shl1) auto
qed

lemma publish_None:
  "publish_metadata n allow i m = None \<Longrightarrow> wf_metadata n m \<Longrightarrow> \<not> allow \<and> available n m = {}"
  by (simp add: publish_metadata_def none_available_iff split: if_splits)

lemma publish_Some:
  "publish_metadata n allow i m = Some new \<Longrightarrow> wf_metadata n m \<Longrightarrow> allow \<or> available n m \<noteq> {}"
  by (auto simp: publish_metadata_def none_available_iff split: if_splits)

lemma bit_pop_metadata [bitmap_simps]:
  "bit (pop_metadata n i m) j \<longleftrightarrow> bit m j \<and> j \<noteq> i \<and> j \<noteq> n + i"
  by (auto simp: pop_metadata_def bitmap_simps dest: bit_below)

lemma available_own: "i < n \<Longrightarrow> n \<le> 32 \<Longrightarrow> available n (m OR shl1 i) = available n m - {i}"
  by (auto simp: available_def bitmap_simps)

lemma wf_own: "wf_metadata n m \<Longrightarrow> i < n \<Longrightarrow> wf_metadata n (m OR shl1 i)"
  by (auto simp: wf_metadata_def bitmap_simps)

lemma contents_insert:
  assumes "available n (metadata st') = insert i (available n (metadata st))" "i \<notin> available n (metadata st)"
    "\<And>j. j \<in> available n (metadata st) \<Longrightarrow> slots st' ! j = slots st ! j"
  shows "contents n st' = contents n st + {#the (slots st' ! i)#}"
proof -
  have "image_mset (\<lambda>j. the (slots st' ! j)) (mset_set (available n (metadata st))) = contents n st"
    unfolding contents_def using assms(3) by (intro image_mset_cong) simp
  then show ?thesis using assms(2) by (simp add: contents_def assms(1))
qed

lemma contents_cong:
  assumes "available n (metadata st') = available n (metadata st)"
    "\<And>j. j \<in> available n (metadata st) \<Longrightarrow> slots st' ! j = slots st ! j"
  shows "contents n st' = contents n st"
  using assms by (auto simp: contents_def intro!: image_mset_cong)

end
