(* ===== verification/Bag_Steps.thy ===== *)
theory Bag_Steps
  imports Bag_Storage
begin

text \<open>
  Threads that push to, pop from and empty one storage at the same time: the operations of
  \<^verbatim>\<open>Storage\<close> in \<^verbatim>\<open>src/bag.rs\<close>, split at every access to the metadata word and at every access to a
  slot, sequentially consistent. A weak compare-and-exchange may fail at any time. The relation
  refines a specification in which each operation acts on a multiset in one step, or, a \<^verbatim>\<open>pop_all\<close> that
  must find the storage empty, in one step for each of its rounds.
\<close>

section \<open>Phases of an operation\<close>

text \<open>
  The local variables of an operation under way. \<open>Push_Cas v a m i\<close> has read \<open>m\<close>, chosen slot \<open>i\<close>
  and is about to compare and exchange. \<open>Push_Write\<close> owns the slot, \<open>Push_Publish\<close> has written it,
  \<open>Push_Undo\<close> was refused in the end and \<open>Push_Rollback\<close> has the value back. The phases of
  \<^verbatim>\<open>pop_all\<close> carry the values already read. \<open>Fault\<close> is a read of a slot without an instance.
\<close>

datatype 'a phase =
    Idle
  | Push_Load 'a bool
  | Push_Cas 'a bool usize nat
  | Push_Write 'a bool nat
  | Push_Publish bool nat
  | Push_Undo nat
  | Push_Rollback nat 'a
  | Push_Returned "'a option"
  | Pop_Load
  | Pop_Cas usize nat
  | Pop_Read nat
  | Pop_Clear nat 'a
  | Pop_Returned "'a option" bool
  | Pop_All_Load bool
  | Pop_All_Cas bool "'a list" usize
  | Pop_All_Read bool "'a list" usize nat usize
  | Pop_All_Clear bool "'a list" usize usize
  | Pop_All_Returned "'a list"
  | Fault

record 'a shared_storage =
  storage :: "'a storage"
  phase :: "nat \<Rightarrow> 'a phase"

definition push_loaded :: "nat \<Rightarrow> 'a \<Rightarrow> bool \<Rightarrow> usize \<Rightarrow> 'a phase" where
  "push_loaded n val allow_empty m =
     (case push_slot n allow_empty m of
        None \<Rightarrow> Push_Returned (Some val)
      | Some index \<Rightarrow> Push_Cas val allow_empty m index)"

definition pop_loaded :: "nat \<Rightarrow> usize \<Rightarrow> 'a phase" where
  "pop_loaded n m =
     (case pop_slot n m of
        None \<Rightarrow> Pop_Returned None (instance_bitmap n m = 0)
      | Some index \<Rightarrow> Pop_Cas m index)"

definition pop_all_loaded :: "nat \<Rightarrow> bool \<Rightarrow> 'a list \<Rightarrow> usize \<Rightarrow> 'a phase" where
  "pop_all_loaded n allow_nonempty acc m =
     (if instances_to_pop n m = 0 then Pop_All_Returned acc else Pop_All_Cas allow_nonempty acc m)"

text \<open>The reading loop of \<^verbatim>\<open>pop_all\<close> at \<open>index\<close>; \<open>marked\<close> is the metadata it has stored.\<close>

definition pop_all_at :: "nat \<Rightarrow> bool \<Rightarrow> 'a list \<Rightarrow> usize \<Rightarrow> nat \<Rightarrow> usize \<Rightarrow> 'a phase" where
  "pop_all_at n allow_nonempty acc insts index marked =
     (if index < n then Pop_All_Read allow_nonempty acc insts index marked
      else Pop_All_Clear allow_nonempty acc insts marked)"

definition read_slot :: "'a storage \<Rightarrow> nat \<Rightarrow> ('a \<Rightarrow> 'a phase) \<Rightarrow> 'a phase" where
  "read_slot st index k = (case slots st ! index of None \<Rightarrow> Fault | Some v \<Rightarrow> k v)"

text \<open>
  One step of a thread in phase \<open>p\<close> on the storage \<open>st\<close>. The rules of \<^verbatim>\<open>fetch_update\<close> and
  \<^verbatim>\<open>fetch_and\<close> are single steps, as these act atomically when they take effect.
\<close>

inductive storage_step :: "nat \<Rightarrow> 'a phase \<Rightarrow> 'a storage \<Rightarrow> 'a phase \<Rightarrow> 'a storage \<Rightarrow> bool" for n where
  push_call: "storage_step n Idle st (Push_Load v a) st"
| push_load: "storage_step n (Push_Load v a) st (push_loaded n v a (metadata st)) st"
| push_cas: "metadata st = m \<Longrightarrow>
    storage_step n (Push_Cas v a m i) st (Push_Write v a i) (st\<lparr>metadata := m OR shl1 i\<rparr>)"
| push_cas_failed: "storage_step n (Push_Cas v a m i) st (push_loaded n v a (metadata st)) st"
| push_write: "storage_step n (Push_Write v a i) st (Push_Publish a i) (st\<lparr>slots := (slots st)[i := Some v]\<rparr>)"
| push_publish: "publish_metadata n a i (metadata st) = Some new \<Longrightarrow>
    storage_step n (Push_Publish a i) st (Push_Returned None) (st\<lparr>metadata := new\<rparr>)"
| push_refused: "publish_metadata n a i (metadata st) = None \<Longrightarrow>
    storage_step n (Push_Publish a i) st (Push_Undo i) st"
| push_undo: "storage_step n (Push_Undo i) st (read_slot st i (Push_Rollback i)) st"
| push_rollback: "storage_step n (Push_Rollback i v) st (Push_Returned (Some v))
    (st\<lparr>metadata := metadata st AND NOT (shl1 i)\<rparr>)"
| push_return: "storage_step n (Push_Returned r) st Idle st"
| pop_call: "storage_step n Idle st Pop_Load st"
| pop_load: "storage_step n Pop_Load st (pop_loaded n (metadata st)) st"
| pop_cas: "metadata st = m \<Longrightarrow>
    storage_step n (Pop_Cas m i) st (Pop_Read i) (st\<lparr>metadata := m OR shl1 i\<rparr>)"
| pop_cas_failed: "storage_step n (Pop_Cas m i) st (pop_loaded n (metadata st)) st"
| pop_read: "storage_step n (Pop_Read i) st (read_slot st i (Pop_Clear i)) st"
| pop_clear: "new = pop_metadata n i (metadata st) \<Longrightarrow>
    storage_step n (Pop_Clear i v) st (Pop_Returned (Some v) (instance_bitmap n new = 0)) (st\<lparr>metadata := new\<rparr>)"
| pop_return: "storage_step n (Pop_Returned r e) st Idle st"
| pop_all_call: "storage_step n Idle st (Pop_All_Load a) st"
| pop_all_load: "storage_step n (Pop_All_Load a) st (pop_all_loaded n a [] (metadata st)) st"
| pop_all_cas: "metadata st = m \<Longrightarrow> insts = instances_to_pop n m \<Longrightarrow>
    storage_step n (Pop_All_Cas a acc m) st
      (pop_all_at n a acc insts (trailing_zeros insts) (m OR insts)) (st\<lparr>metadata := m OR insts\<rparr>)"
| pop_all_cas_failed: "storage_step n (Pop_All_Cas a acc m) st (pop_all_loaded n a acc (metadata st)) st"
| pop_all_read: "storage_step n (Pop_All_Read a acc insts index marked) st
    (read_slot st index (\<lambda>v. pop_all_at n a (acc @ [v]) insts (next_to_pop insts index) marked)) st"
| pop_all_clear: "metadata st = m \<Longrightarrow> new = pop_all_metadata n insts m \<Longrightarrow>
    storage_step n (Pop_All_Clear a acc insts m) st
      (if a then Pop_All_Returned acc else pop_all_loaded n a acc new) (st\<lparr>metadata := new\<rparr>)"
| pop_all_clear_failed: "storage_step n (Pop_All_Clear a acc insts m) st (Pop_All_Clear a acc insts (metadata st)) st"
| pop_all_return: "storage_step n (Pop_All_Returned acc) st Idle st"

text \<open>The threads share the storage; \<open>storage_reachable\<close> starts from \<^verbatim>\<open>Storage::new\<close> or \<^verbatim>\<open>with_val\<close>.\<close>

definition thread_step :: "nat \<Rightarrow> nat \<Rightarrow> 'a shared_storage \<Rightarrow> 'a shared_storage \<Rightarrow> bool" where
  "thread_step n c s s' \<longleftrightarrow>
     (\<exists>p' st'. storage_step n (phase s c) (storage s) p' st'
        \<and> s' = \<lparr>storage = st', phase = (phase s)(c := p')\<rparr>)"

inductive storage_reachable :: "nat \<Rightarrow> 'a shared_storage \<Rightarrow> bool" for n where
  reachable_new: "n \<le> 32 \<Longrightarrow> storage_reachable n \<lparr>storage = storage_new n, phase = \<lambda>_. Idle\<rparr>"
| reachable_with_val: "n \<le> 32 \<Longrightarrow> with_val n v = Some st \<Longrightarrow>
    storage_reachable n \<lparr>storage = st, phase = \<lambda>_. Idle\<rparr>"
| reachable_step: "storage_reachable n s \<Longrightarrow> thread_step n c s s' \<Longrightarrow> storage_reachable n s'"

section \<open>Slots and their owners\<close>

fun filling :: "'a phase \<Rightarrow> nat set" where
  "filling (Push_Write _ _ i) = {i}"
| "filling (Push_Publish _ i) = {i}"
| "filling (Push_Undo i) = {i}"
| "filling (Push_Rollback i _) = {i}"
| "filling _ = {}"

fun filled :: "'a phase \<Rightarrow> nat set" where
  "filled (Push_Publish _ i) = {i}"
| "filled (Push_Undo i) = {i}"
| "filled _ = {}"

fun emptying :: "'a phase \<Rightarrow> nat set" where
  "emptying (Pop_Read i) = {i}"
| "emptying (Pop_Clear i _) = {i}"
| "emptying (Pop_All_Read _ _ insts _ _) = {i. bit insts i}"
| "emptying (Pop_All_Clear _ _ insts _) = {i. bit insts i}"
| "emptying _ = {}"

definition slots_of :: "'a phase \<Rightarrow> nat set" where
  "slots_of p = filling p \<union> emptying p"

text \<open>What a phase records about the metadata word it has read.\<close>

fun phase_ok :: "nat \<Rightarrow> 'a phase \<Rightarrow> bool" where
  "phase_ok n (Push_Cas v a m i) \<longleftrightarrow> push_slot n a m = Some i"
| "phase_ok n (Pop_Cas m i) \<longleftrightarrow> pop_slot n m = Some i"
| "phase_ok n (Pop_All_Read a acc insts index marked) \<longleftrightarrow> bit insts index"
| "phase_ok n Fault \<longleftrightarrow> False"
| "phase_ok n _ \<longleftrightarrow> True"

definition owner_ok :: "nat \<Rightarrow> 'a storage \<Rightarrow> 'a phase \<Rightarrow> bool" where
  "owner_ok n st p \<longleftrightarrow>
     (\<forall>i \<in> filling p. i < n \<and> bit (metadata st) i \<and> \<not> bit (metadata st) (n + i)) \<and>
     (\<forall>i \<in> emptying p. i < n \<and> bit (metadata st) i \<and> bit (metadata st) (n + i)) \<and>
     (\<forall>i \<in> filled p. slots st ! i \<noteq> None) \<and> phase_ok n p"

definition storage_ok :: "nat \<Rightarrow> 'a storage \<Rightarrow> bool" where
  "storage_ok n st \<longleftrightarrow>
     wf_metadata n (metadata st) \<and> length (slots st) = n
     \<and> (\<forall>i<n. bit (metadata st) (n + i) \<longrightarrow> slots st ! i \<noteq> None)"

definition storage_inv :: "nat \<Rightarrow> 'a shared_storage \<Rightarrow> bool" where
  "storage_inv n s \<longleftrightarrow>
     storage_ok n (storage s) \<and> (\<forall>c. owner_ok n (storage s) (phase s c))
     \<and> (\<forall>c d. c \<noteq> d \<longrightarrow> slots_of (phase s c) \<inter> slots_of (phase s d) = {})"

definition same_outside :: "nat \<Rightarrow> nat set \<Rightarrow> 'a storage \<Rightarrow> 'a storage \<Rightarrow> bool" where
  "same_outside n A st st' \<longleftrightarrow>
     (\<forall>i<n. i \<notin> A \<longrightarrow> bit (metadata st') i = bit (metadata st) i \<and> slots st' ! i = slots st ! i
        \<and> bit (metadata st') (n + i) = bit (metadata st) (n + i))"

lemma owner_ok_frame:
  assumes "owner_ok n st p" "same_outside n A st st'" "slots_of p \<inter> A = {}"
  shows "owner_ok n st' p"
proof -
  have out: "\<forall>i \<in> filling p \<union> emptying p. i < n \<and> i \<notin> A"
    using assms(1,3) by (auto simp: owner_ok_def slots_of_def)
  have "filled p \<subseteq> filling p" by (cases p) auto
  then have "\<forall>i \<in> filled p. slots st' ! i = slots st ! i"
    using out assms(2) by (auto simp: same_outside_def)
  moreover have "\<forall>i \<in> filling p \<union> emptying p. bit (metadata st') i = bit (metadata st) i
      \<and> bit (metadata st') (n + i) = bit (metadata st) (n + i)"
    using out assms(2) by (auto simp: same_outside_def)
  ultimately show ?thesis using assms(1) unfolding owner_ok_def by simp
qed

lemma wf_metadata_bound: "wf_metadata n m \<Longrightarrow> bit m j \<Longrightarrow> j < 2 * n"
  by (simp add: wf_metadata_def)

lemma phase_ok_loaded [simp]:
  "phase_ok n (push_loaded n v a m)" "phase_ok n (pop_loaded n m)" "phase_ok n (pop_all_loaded n a acc m)"
  by (auto simp: push_loaded_def pop_loaded_def pop_all_loaded_def split: option.splits)

lemma slots_of_loaded [simp]:
  "filling (push_loaded n v a m) = {}" "emptying (push_loaded n v a m) = {}" "filled (push_loaded n v a m) = {}"
  "filling (pop_loaded n m) = {}" "emptying (pop_loaded n m) = {}" "filled (pop_loaded n m) = {}"
  "filling (pop_all_loaded n a acc m) = {}" "emptying (pop_all_loaded n a acc m) = {}"
  "filled (pop_all_loaded n a acc m) = {}"
  by (auto simp: push_loaded_def pop_loaded_def pop_all_loaded_def split: option.splits)

lemma slots_of_pop_all_at [simp]:
  "filling (pop_all_at n a acc insts index m) = {}" "filled (pop_all_at n a acc insts index m) = {}"
  "emptying (pop_all_at n a acc insts index m) = {i. bit insts i}"
  by (auto simp: pop_all_at_def)

lemma bit_next_to_pop:
  assumes "index < 32" "next_to_pop insts index < 32"
  shows "bit insts (next_to_pop insts index)"
  using bit_trailing_zeros [of "insts AND NOT (shl1 (index + 1) - 1)"] assms(2)
    trailing_zeros_lt_iff [of "insts AND NOT (shl1 (index + 1) - 1)"]
  by (auto simp: next_to_pop_def bit_and_iff)

lemma phase_ok_pop_all_at:
  "n \<le> 32 \<Longrightarrow> phase_ok n (pop_all_at n a acc insts (trailing_zeros insts) m)"
  "n \<le> 32 \<Longrightarrow> index < 32 \<Longrightarrow> phase_ok n (pop_all_at n a acc insts (next_to_pop insts index) m)"
  using trailing_zeros_lt_iff [of insts] bit_next_to_pop [of index insts]
  by (auto simp: pop_all_at_def intro!: bit_trailing_zeros)

lemma bit_instances_or:
  "wf_metadata n m \<Longrightarrow> bit (m OR instances_to_pop n m) j \<longleftrightarrow> bit m j \<or> j \<in> available n m"
  by (simp add: bit_or_iff instances_to_pop_available)

lemma read_slot_Some:
  "slots st ! i \<noteq> None \<Longrightarrow> \<exists>v. slots st ! i = Some v \<and> read_slot st i k = k v"
  by (auto simp: read_slot_def)

text \<open>
  A step keeps the storage and its own thread in order and touches only slots that its thread owns
  or that nobody owned before.
\<close>

lemma storage_step_local:
  assumes "storage_step n p st p' st'" "storage_ok n st" "owner_ok n st p"
  shows "storage_ok n st' \<and> owner_ok n st' p' \<and> same_outside n (slots_of p \<union> slots_of p') st st'
    \<and> (\<forall>i \<in> slots_of p'. i \<in> slots_of p \<or> \<not> bit (metadata st) i)"
proof -
  have n: "n \<le> 32" and wf: "wf_metadata n (metadata st)" and len: "length (slots st) = n"
    and inst: "\<And>i. i < n \<Longrightarrow> bit (metadata st) (n + i) \<Longrightarrow> slots st ! i \<noteq> None"
    using assms(2) by (auto simp: storage_ok_def wf_metadata_def)
  note bound = wf_metadata_bound [OF wf]
  note unfold = storage_ok_def owner_ok_def same_outside_def slots_of_def wf_metadata_def
  from assms(1) show ?thesis
  proof cases
    case (push_cas m v a i)
    then have "i < n" "\<not> bit m (n + i)" "\<not> bit m i"
      using assms(3) push_slot_Some [of n a m i] wf by (auto simp: owner_ok_def)
    then show ?thesis using push_cas assms(2,3) n by (auto simp: unfold bitmap_simps)
  next
    case (push_write v a i)
    then show ?thesis using assms(2,3) by (auto simp: unfold nth_list_update)
  next
    case (push_publish a i new)
    then have i: "i < n" "\<And>j. bit new j \<longleftrightarrow> bit (metadata st) j \<and> j \<noteq> i \<or> j = n + i" and f: "slots st ! i \<noteq> None"
      using assms(3) bit_publish [of n a i "metadata st" new] n push_publish(4) by (auto simp: owner_ok_def)
    then show ?thesis using push_publish(1-3) assms(2,3) by (auto simp: unfold)
  next
    case (push_rollback i v)
    then show ?thesis using assms(2,3) bound by (auto simp: unfold bitmap_simps)
  next
    case (pop_cas m i)
    then have "i \<in> available n m" using assms(3) pop_slot_Some [of n m i] by (simp add: owner_ok_def)
    then show ?thesis using pop_cas assms(2,3) n by (auto simp: unfold available_def bitmap_simps)
  next
    case (pop_clear new i v)
    then show ?thesis using assms(2,3) bound by (auto simp: unfold bitmap_simps)
  next
    case (pop_all_cas m insts a acc)
    have b: "bit insts j \<longleftrightarrow> j \<in> available n m" "bit (m OR insts) j \<longleftrightarrow> bit m j \<or> j \<in> available n m" for j
      using pop_all_cas wf by (simp_all add: bit_instances_or instances_to_pop_available)
    have "phase_ok n p'" using phase_ok_pop_all_at(1) [OF n] pop_all_cas(2) by simp
    then show ?thesis using pop_all_cas(1-4) assms(2,3) by (auto simp: unfold b available_def)
  next
    case (pop_all_clear m new insts a acc)
    have b: "bit insts j \<Longrightarrow> j < n" "bit insts j \<Longrightarrow> bit m (n + j)" for j
      using assms(3) pop_all_clear by (auto simp: owner_ok_def)
    have new: "bit new j \<longleftrightarrow> bit m j \<and> \<not> bit insts j \<and> \<not> (n \<le> j \<and> bit insts (j - n))" for j
      using pop_all_clear by (simp add: bitmap_simps)
    show ?thesis using pop_all_clear(1-4) assms(2,3) b by (auto simp: unfold new)
  next
    case (pop_all_read a acc insts index marked)
    then have i: "index < n" "slots st ! index \<noteq> None" using assms(3) inst by (auto simp: owner_ok_def)
    then obtain v where "p' = pop_all_at n a (acc @ [v]) insts (next_to_pop insts index) marked"
      using pop_all_read by (auto simp: read_slot_def)
    then show ?thesis using pop_all_read(1,3) i assms(2,3) n phase_ok_pop_all_at(2) [OF n, of index]
      by (simp add: unfold)
  next
    case (pop_read i)
    then have i: "i < n" "slots st ! i \<noteq> None" using assms(3) inst by (auto simp: owner_ok_def)
    then obtain v where "p' = Pop_Clear i v" using pop_read read_slot_Some [of st i "Pop_Clear i"] by auto
    then show ?thesis using pop_read(1,3) i assms(2,3) by (simp add: unfold)
  next
    case (push_undo i)
    then have i: "i < n" "slots st ! i \<noteq> None" using assms(3) by (auto simp: owner_ok_def)
    then obtain v where "p' = Push_Rollback i v" using push_undo read_slot_Some [of st i "Push_Rollback i"] by auto
    then show ?thesis using push_undo(1,3) i assms(2,3) by (simp add: unfold)
  qed (use assms(2,3) in \<open>simp_all add: unfold\<close>)
qed

lemma storage_inv_step:
  assumes "storage_inv n s" "thread_step n c s s'"
  shows "storage_inv n s'"
proof -
  obtain p' st' where st: "storage_step n (phase s c) (storage s) p' st'"
    and s': "s' = \<lparr>storage = st', phase = (phase s)(c := p')\<rparr>"
    using assms(2) by (auto simp: thread_step_def)
  have ok: "storage_ok n (storage s)" "owner_ok n (storage s) (phase s d)" for d
    using assms(1) by (simp_all add: storage_inv_def)
  note loc = storage_step_local [OF st ok]
  have new: "slots_of p' \<inter> slots_of (phase s d) = {}" if "d \<noteq> c" for d
  proof -
    have "bit (metadata (storage s)) i" if "i \<in> slots_of (phase s d)" for i
      using that ok(2) [of d] by (auto simp: owner_ok_def slots_of_def)
    moreover have "slots_of (phase s c) \<inter> slots_of (phase s d) = {}"
      using assms(1) that by (auto simp: storage_inv_def)
    ultimately show ?thesis using loc by blast
  qed
  have "owner_ok n st' (phase s d)" if "d \<noteq> c" for d
  proof (rule owner_ok_frame [OF ok(2)])
    show "same_outside n (slots_of (phase s c) \<union> slots_of p') (storage s) st'" using loc by simp
    show "slots_of (phase s d) \<inter> (slots_of (phase s c) \<union> slots_of p') = {}"
      using new [OF that] assms(1) that unfolding storage_inv_def by blast
  qed
  then show ?thesis using loc new assms(1) by (auto simp: s' storage_inv_def)
qed

lemma storage_ok_new: "n \<le> 32 \<Longrightarrow> storage_ok n (storage_new n)"
  by (simp add: storage_ok_def wf_metadata_def storage_new_def)

lemma storage_ok_with_val: "n \<le> 32 \<Longrightarrow> with_val n v = Some st \<Longrightarrow> storage_ok n st"
  by (auto simp: storage_ok_def wf_metadata_def with_val_def bitmap_simps split: if_splits)

lemma storage_inv_reachable: "storage_reachable n s \<Longrightarrow> storage_inv n s"
proof (induction rule: storage_reachable.induct)
  case reachable_new
  then show ?case by (simp add: storage_inv_def storage_ok_new owner_ok_def slots_of_def)
next
  case (reachable_with_val v st)
  then show ?case using storage_ok_with_val [of n v st] by (simp add: storage_inv_def owner_ok_def slots_of_def)
next
  case (reachable_step s c s')
  then show ?case by (blast intro: storage_inv_step)
qed

section \<open>The specification\<close>

text \<open>
  A container of values with atomic push, pop and, with \<^verbatim>\<open>allow_nonempty\<close>, \<^verbatim>\<open>pop_all\<close>. Each thread is ready, has called an operation that
  has not taken effect yet, or has an operation that has taken effect and not returned yet.
  \<open>To_Pop_All\<close> carries the values already taken: with \<^verbatim>\<open>allow_nonempty\<close> false the operation takes all
  values again and again, each time in one step, until it finds the container empty; that call is not
  atomic, and other operations may take effect between its steps.
\<close>

datatype 'a status =
    Ready
  | To_Push 'a bool
  | Did_Push "'a option"
  | To_Pop
  | Did_Pop "'a option"
  | To_Pop_All bool "'a multiset"
  | Did_Pop_All "'a multiset"

inductive spec_step :: "'a multiset \<Rightarrow> 'a status \<Rightarrow> 'a multiset \<Rightarrow> 'a status \<Rightarrow> bool" where
  spec_stutter: "spec_step b r b r"
| spec_call: "r \<in> {To_Push v a, To_Pop, To_Pop_All a {#}} \<Longrightarrow> spec_step b Ready b r"
| spec_push: "a \<or> b \<noteq> {#} \<Longrightarrow> spec_step b (To_Push v a) (add_mset v b) (Did_Push None)"
| spec_refuse: "spec_step b (To_Push v a) b (Did_Push (Some v))"
| spec_pop: "spec_step (add_mset v b) To_Pop b (Did_Pop (Some v))"
| spec_pop_none: "spec_step {#} To_Pop {#} (Did_Pop None)"
| spec_pop_all: "spec_step b (To_Pop_All a acc) {#} (if a then Did_Pop_All (acc + b) else To_Pop_All a (acc + b))"
| spec_pop_all_none: "spec_step {#} (To_Pop_All a acc) {#} (Did_Pop_All acc)"
| spec_return: "r \<in> {Did_Push x, Did_Pop x, Did_Pop_All acc} \<Longrightarrow> spec_step b r b Ready"

text \<open>The status of a thread. The values in slots that it owns count as its own.\<close>

definition slot_values :: "'a storage \<Rightarrow> nat set \<Rightarrow> 'a multiset" where
  "slot_values st A = image_mset (\<lambda>i. the (slots st ! i)) (mset_set A)"

definition all_status :: "bool \<Rightarrow> 'a multiset \<Rightarrow> 'a status" where
  "all_status a acc = (if a then Did_Pop_All acc else To_Pop_All a acc)"

fun status_of :: "'a storage \<Rightarrow> 'a phase \<Rightarrow> 'a status" where
  "status_of st (Push_Load v a) = To_Push v a"
| "status_of st (Push_Cas v a m i) = To_Push v a"
| "status_of st (Push_Write v a i) = To_Push v a"
| "status_of st (Push_Publish a i) = To_Push (the (slots st ! i)) a"
| "status_of st (Push_Undo i) = Did_Push (Some (the (slots st ! i)))"
| "status_of st (Push_Rollback i v) = Did_Push (Some v)"
| "status_of st (Push_Returned r) = Did_Push r"
| "status_of st Pop_Load = To_Pop"
| "status_of st (Pop_Cas m i) = To_Pop"
| "status_of st (Pop_Read i) = Did_Pop (Some (the (slots st ! i)))"
| "status_of st (Pop_Clear i v) = Did_Pop (Some v)"
| "status_of st (Pop_Returned r e) = Did_Pop r"
| "status_of st (Pop_All_Load a) = To_Pop_All a {#}"
| "status_of st (Pop_All_Cas a acc m) = To_Pop_All a (mset acc)"
| "status_of st (Pop_All_Read a acc insts index m) =
     all_status a (mset acc + slot_values st {i. bit insts i \<and> index \<le> i})"
| "status_of st (Pop_All_Clear a acc insts m) = all_status a (mset acc)"
| "status_of st (Pop_All_Returned acc) = Did_Pop_All (mset acc)"
| "status_of st _ = Ready"

lemma contents_slot_values: "contents n st = slot_values st (available n (metadata st))"
  by (simp add: contents_def slot_values_def)

lemma slot_values_cong:
  "(\<And>i. i \<in> A \<Longrightarrow> slots st' ! i = slots st ! i) \<Longrightarrow> slot_values st' A = slot_values st A"
  unfolding slot_values_def by (rule image_mset_cong) (cases "finite A"; simp)

lemma slot_values_insert:
  "finite A \<Longrightarrow> i \<notin> A \<Longrightarrow> slot_values st (insert i A) = slot_values st A + {#the (slots st ! i)#}"
  by (simp add: slot_values_def)

lemma status_of_frame:
  assumes "owner_ok n st p" "same_outside n A st st'" "slots_of p \<inter> A = {}"
  shows "status_of st' p = status_of st p"
proof -
  have eq: "slots st' ! i = slots st ! i" if "i \<in> slots_of p" for i
  proof -
    have "i < n" using that assms(1) by (auto simp: owner_ok_def slots_of_def)
    moreover have "i \<notin> A" using that assms(3) by blast
    ultimately show ?thesis using assms(2) by (simp add: same_outside_def)
  qed
  show ?thesis
  proof (cases p)
    case (Pop_All_Read a acc insts index m)
    then have "slot_values st' {i. bit insts i \<and> index \<le> i} = slot_values st {i. bit insts i \<and> index \<le> i}"
      using eq by (intro slot_values_cong) (simp add: slots_of_def)
    then show ?thesis using Pop_All_Read by simp
  qed (use eq in \<open>simp_all add: slots_of_def\<close>)
qed

section \<open>Every step is a step of the specification\<close>

lemma status_of_loaded:
  assumes "wf_metadata n (metadata st)"
  shows "spec_step (contents n st) (To_Push v a) (contents n st) (status_of st (push_loaded n v a (metadata st)))"
    and "spec_step (contents n st) To_Pop (contents n st) (status_of st (pop_loaded n (metadata st)))"
    and "spec_step (contents n st) (To_Pop_All b (mset acc)) (contents n st)
           (status_of st (pop_all_loaded n b acc (metadata st)))"
proof -
  show "spec_step (contents n st) (To_Push v a) (contents n st) (status_of st (push_loaded n v a (metadata st)))"
    by (auto simp: push_loaded_def intro: spec_step.intros split: option.splits)
  have "pop_slot n (metadata st) = None \<Longrightarrow> contents n st = {#}"
    using pop_slot_None [OF _ assms] by (simp add: contents_empty_iff)
  then show "spec_step (contents n st) To_Pop (contents n st) (status_of st (pop_loaded n (metadata st)))"
    by (auto simp: pop_loaded_def intro: spec_step.intros split: option.splits)
  have "instances_to_pop n (metadata st) = 0 \<Longrightarrow> contents n st = {#}"
    using instances_to_pop_0 [OF assms] by (simp add: contents_empty_iff)
  then show "spec_step (contents n st) (To_Pop_All b (mset acc)) (contents n st)
           (status_of st (pop_all_loaded n b acc (metadata st)))"
    by (auto simp: pop_all_loaded_def intro: spec_step.intros)
qed

lemma status_of_pop_all_at:
  assumes "n \<le> 32" "\<And>i. bit insts i \<Longrightarrow> i < n"
  shows "status_of st (pop_all_at n a acc insts index m)
         = all_status a (mset acc + slot_values st {i. bit insts i \<and> index \<le> i})"
proof (cases "index < n")
  case False
  then have none: "{i. bit insts i \<and> index \<le> i} = {}" using assms(2) by force
  show ?thesis using False by (simp only: none) (simp add: pop_all_at_def slot_values_def)
qed (simp add: pop_all_at_def)

lemma later_instances:
  assumes "index < 32" "bit insts index"
  shows "{i. bit insts i \<and> index \<le> i} = insert index {i. bit insts i \<and> next_to_pop insts index \<le> i}"
proof -
  have "next_to_pop insts index \<le> i \<longleftrightarrow> index < i" if "bit insts i" for i
  proof
    assume "index < i"
    then have "bit (insts AND NOT (shl1 (index + 1) - 1)) i"
      using that assms(1) bit_below [OF that] by (simp add: bit_and_iff bit_not_iff bit_below_mask)
    then show "next_to_pop insts index \<le> i" unfolding next_to_pop_def by (rule trailing_zeros_le_bit)
  qed (use next_to_pop_greater [OF assms(1), of insts] in simp)
  then show ?thesis using assms(2) by auto
qed

lemma all_instances: "{i. bit insts i \<and> trailing_zeros insts \<le> i} = {i. bit insts i}"
  using trailing_zeros_le_bit by auto

lemma storage_step_spec:
  assumes "storage_step n p st p' st'" "storage_ok n st" "owner_ok n st p"
  shows "spec_step (contents n st) (status_of st p) (contents n st') (status_of st' p')"
proof -
  have n: "n \<le> 32" and wf: "wf_metadata n (metadata st)" and len: "length (slots st) = n"
    and inst: "\<And>i. i < n \<Longrightarrow> bit (metadata st) (n + i) \<Longrightarrow> slots st ! i \<noteq> None"
    using assms(2) by (auto simp: storage_ok_def wf_metadata_def)
  note loaded = status_of_loaded [OF wf]
  from assms(1) show ?thesis
  proof cases
    case (push_cas m v a i)
    then have "i < n" "i \<notin> available n m"
      using assms(3) push_slot_Some [of n a m i] wf by (auto simp: owner_ok_def available_def)
    then have "contents n st' = contents n st"
      using push_cas n by (intro contents_cong) (auto simp: available_own)
    then show ?thesis using push_cas by (simp add: spec_stutter)
  next
    case (push_write v a i)
    then have i: "i < n" "i \<notin> available n (metadata st)" using assms(3) by (auto simp: owner_ok_def available_def)
    then have "contents n st' = contents n st"
      using push_write by (intro contents_cong) (auto intro!: nth_list_update_neq)
    then show ?thesis using push_write i len by (simp add: spec_stutter)
  next
    case (push_publish a i new)
    then have i: "i < n" "bit (metadata st) i" "\<not> bit (metadata st) (n + i)"
      and b: "bit new j \<longleftrightarrow> bit (metadata st) j \<and> j \<noteq> i \<or> j = n + i" for j
      using assms(3) bit_publish [of n a i "metadata st" new] n by (auto simp: owner_ok_def)
    have "available n new = insert i (available n (metadata st))"
      using i by (auto simp: available_def b)
    then have "contents n st' = contents n st + {#the (slots st ! i)#}"
      using push_publish i contents_insert [of n st' i st] by (auto simp: available_def)
    moreover have "a \<or> contents n st \<noteq> {#}"
      using push_publish publish_Some [OF _ wf] by (auto simp: contents_empty_iff)
    ultimately show ?thesis using push_publish by (simp add: spec_push)
  next
    case (push_rollback i v)
    then have "i < n" "bit (metadata st) i" "\<not> bit (metadata st) (n + i)" using assms(3) by (auto simp: owner_ok_def)
    then have "contents n st' = contents n st"
      using push_rollback by (intro contents_cong) (auto simp: available_def bit_clear_bit)
    then show ?thesis using push_rollback by (simp add: spec_stutter)
  next
    case (pop_cas m i)
    then have i: "i \<in> available n m" using assms(3) pop_slot_Some [of n m i] by (simp add: owner_ok_def)
    then have "i < n" by (simp add: available_def)
    then have "contents n st = contents n st' + {#the (slots st ! i)#}"
      using pop_cas i n by (intro contents_insert) (auto simp: available_own insert_absorb)
    then show ?thesis using pop_cas by (simp add: spec_pop)
  next
    case (pop_clear new i v)
    then have "bit (metadata st) i" "i < n" using assms(3) by (auto simp: owner_ok_def)
    then have "contents n st' = contents n st"
      using pop_clear by (intro contents_cong) (auto simp: available_def bitmap_simps)
    then show ?thesis using pop_clear by (simp add: spec_stutter)
  next
    case (pop_all_cas m insts a acc)
    have b: "bit insts j \<longleftrightarrow> j \<in> available n m" "bit (m OR insts) j \<longleftrightarrow> bit m j \<or> j \<in> available n m" for j
      using pop_all_cas wf by (simp_all add: bit_instances_or instances_to_pop_available)
    have "available n (m OR insts) = {}" by (auto simp: available_def b)
    then have "contents n st' = {#}" using pop_all_cas(3) by (simp add: contents_empty_iff)
    moreover have "status_of st' p' = all_status a (mset acc + slot_values st' {i. bit insts i})"
    proof -
      have "bit insts i \<Longrightarrow> i < n" for i by (simp add: b(1) available_def)
      then show ?thesis unfolding pop_all_cas(2) by (simp only: status_of_pop_all_at [OF n] all_instances)
    qed
    moreover have "slot_values st' {i. bit insts i} = contents n st"
      using pop_all_cas(3,4) by (simp add: contents_slot_values b slot_values_def)
    ultimately show ?thesis using pop_all_cas(1) by (simp add: all_status_def spec_pop_all)
  next
    case (pop_all_clear m new insts a acc)
    have ins: "bit insts j \<Longrightarrow> j < n \<and> bit m j" for j
      using assms(3) pop_all_clear by (auto simp: owner_ok_def)
    have "contents n st' = contents n st"
      using pop_all_clear ins by (intro contents_cong) (force simp: available_def bitmap_simps)+
    moreover have "wf_metadata n (metadata st')" using storage_step_local [OF assms] by (simp add: storage_ok_def)
    ultimately show ?thesis
      using pop_all_clear status_of_loaded(3) [of n st' a acc]
      by (auto simp: all_status_def intro: spec_stutter)
  next
    case (pop_all_read a acc insts index marked)
    then have i: "index < n" "slots st ! index \<noteq> None" "bit insts index" and ins: "bit insts j \<Longrightarrow> j < n" for j
      using assms(3) inst by (auto simp: owner_ok_def)
    obtain v where v: "slots st ! index = Some v"
      and p': "p' = pop_all_at n a (acc @ [v]) insts (next_to_pop insts index) marked"
      using pop_all_read(2) i(2) by (auto simp: read_slot_def)
    let ?later = "{i. bit insts i \<and> next_to_pop insts index \<le> i}"
    have "finite ?later" "index \<notin> ?later"
      using next_to_pop_greater [of index insts] i n finite_subset [OF _ finite_bits [of insts]] by auto
    then have "slot_values st {i. bit insts i \<and> index \<le> i} = slot_values st ?later + {#v#}"
      using i n v by (subst later_instances) (auto simp: slot_values_insert)
    then have "status_of st p = status_of st p'"
      using status_of_pop_all_at [OF n ins, of insts st a "acc @ [v]" "next_to_pop insts index" marked] p' pop_all_read(1)
      by simp
    then show ?thesis using pop_all_read(3) by (simp add: spec_stutter)
  next
    case (pop_read i)
    then have "slots st ! i \<noteq> None" using assms(3) inst by (auto simp: owner_ok_def)
    then show ?thesis using pop_read by (auto simp: read_slot_def spec_stutter)
  next
    case (push_undo i)
    then have "slots st ! i \<noteq> None" using assms(3) by (auto simp: owner_ok_def)
    then show ?thesis using push_undo by (auto simp: read_slot_def spec_stutter)
  next
    case (pop_all_load a)
    then show ?thesis using loaded(3) [of a "[]"] by simp
  next
    case (pop_all_return acc)
    then show ?thesis by (auto intro: spec_step.intros)
  qed (use loaded in \<open>auto intro: spec_step.intros\<close>)
qed

lemma thread_step_spec:
  assumes "storage_inv n s" "thread_step n c s s'"
  shows "spec_step (contents n (storage s)) (status_of (storage s) (phase s c))
           (contents n (storage s')) (status_of (storage s') (phase s' c))"
    and "d \<noteq> c \<Longrightarrow> phase s' d = phase s d \<and> status_of (storage s') (phase s' d) = status_of (storage s) (phase s d)"
proof -
  obtain p' st' where st: "storage_step n (phase s c) (storage s) p' st'"
    and s': "s' = \<lparr>storage = st', phase = (phase s)(c := p')\<rparr>"
    using assms(2) by (auto simp: thread_step_def)
  have ok: "storage_ok n (storage s)" "owner_ok n (storage s) (phase s d)" for d
    using assms(1) by (simp_all add: storage_inv_def)
  note loc = storage_step_local [OF st ok]
  show "spec_step (contents n (storage s)) (status_of (storage s) (phase s c))
           (contents n (storage s')) (status_of (storage s') (phase s' c))"
    using storage_step_spec [OF st ok] by (simp add: s')
  assume d: "d \<noteq> c"
  have inv': "storage_inv n s'" using assms by (rule storage_inv_step)
  have "slots_of (phase s d) \<inter> (slots_of (phase s c) \<union> slots_of p') = {}"
  proof -
    have "slots_of (phase s d) \<inter> slots_of (phase s c) = {}"
      using assms(1) d unfolding storage_inv_def by blast
    moreover have "slots_of (phase s' d) \<inter> slots_of (phase s' c) = {}"
      using inv' d unfolding storage_inv_def by blast
    ultimately show ?thesis using d by (simp add: s' Int_Un_distrib)
  qed
  then have "status_of st' (phase s d) = status_of (storage s) (phase s d)"
    using loc by (intro status_of_frame [OF ok(2)]) auto
  then show "phase s' d = phase s d \<and> status_of (storage s') (phase s' d) = status_of (storage s) (phase s d)"
    using d by (simp add: s')
qed

text \<open>A push gives up when it reads the metadata only if it sees no free slot or must not fill an empty array.\<close>

lemma push_refused_full:
  assumes "storage_step n p st (Push_Returned (Some v)) st'" "p = Push_Load v a \<or> p = Push_Cas v a m i"
    "wf_metadata n (metadata st)"
  shows "(\<forall>i<n. bit (metadata st) (n + i) \<or> bit (metadata st) i) \<or> \<not> a \<and> contents n st = {#}"
proof -
  have "push_loaded n v a (metadata st) = Push_Returned (Some v)"
    using assms(1,2) by (auto elim: storage_step.cases)
  then have "push_slot n a (metadata st) = None"
    by (simp add: push_loaded_def split: option.splits)
  then show ?thesis using push_slot_None [OF _ assms(3)] by (simp add: contents_empty_iff)
qed

text \<open>
  C8. In every interleaving of pushes, pops and pop_alls on one array of at most 32 slots, each step is
  a step of the multiset specification for the thread that takes it and leaves the status of every
  other thread alone. A push, a pop and a \<^verbatim>\<open>pop_all\<close> with \<^verbatim>\<open>allow_nonempty\<close> take effect at one instant
  between call and return. A \<^verbatim>\<open>pop_all\<close> without it takes effect in rounds, not at once: each round takes
  all values there are at one instant, other operations may run between two rounds, and the call
  returns after an instant at which the multiset was empty. A pop returns a value that it took from the
  multiset and nothing only if the multiset was empty.
  No slot is read before it is written, no slot is owned by two threads, and a push that is refused
  has seen all slots in use or, on an array that must not be empty, an empty one.
\<close>

theorem bag_storage_linearizable:
  assumes "storage_reachable n s" "thread_step n c s s'"
  shows "spec_step (contents n (storage s)) (status_of (storage s) (phase s c))
           (contents n (storage s')) (status_of (storage s') (phase s' c)) \<and>
    (\<forall>d. d \<noteq> c \<longrightarrow> status_of (storage s') (phase s' d) = status_of (storage s) (phase s d)
       \<and> slots_of (phase s' c) \<inter> slots_of (phase s' d) = {}) \<and>
    phase s' c \<noteq> Fault \<and>
    (\<forall>v a m i. phase s' c = Push_Returned (Some v) \<and> phase s c \<in> {Push_Load v a, Push_Cas v a m i}
       \<longrightarrow> (\<forall>i<n. bit (metadata (storage s)) (n + i) \<or> bit (metadata (storage s)) i)
         \<or> \<not> a \<and> contents n (storage s) = {#})"
proof (intro conjI)
  have inv: "storage_inv n s" using assms(1) by (rule storage_inv_reachable)
  have inv': "storage_inv n s'" using inv assms(2) by (rule storage_inv_step)
  show "spec_step (contents n (storage s)) (status_of (storage s) (phase s c))
           (contents n (storage s')) (status_of (storage s') (phase s' c))"
    using inv assms(2) by (rule thread_step_spec)
  show "\<forall>d. d \<noteq> c \<longrightarrow> status_of (storage s') (phase s' d) = status_of (storage s) (phase s d)
       \<and> slots_of (phase s' c) \<inter> slots_of (phase s' d) = {}"
    using thread_step_spec(2) [OF inv assms(2)] inv' unfolding storage_inv_def by metis
  have "phase_ok n (phase s' c)" using inv' by (simp add: storage_inv_def owner_ok_def)
  then show "phase s' c \<noteq> Fault" by auto
  show "\<forall>v a m i. phase s' c = Push_Returned (Some v) \<and> phase s c \<in> {Push_Load v a, Push_Cas v a m i}
           \<longrightarrow> (\<forall>i<n. bit (metadata (storage s)) (n + i) \<or> bit (metadata (storage s)) i)
             \<or> \<not> a \<and> contents n (storage s) = {#}"
    using assms(2) inv push_refused_full
    by (fastforce simp: thread_step_def storage_inv_def storage_ok_def)
qed

section \<open>Arrays on the stack of a bag\<close>

text \<open>
  A bag calls the arrays on its stack only with \<^verbatim>\<open>allow_empty\<close> and \<^verbatim>\<open>allow_nonempty\<close> false: no push may
  fill an array that has been emptied, and a \<^verbatim>\<open>pop_all\<close> does not leave a value behind.
\<close>

fun stack_phase :: "'a phase \<Rightarrow> bool" where
  "stack_phase (Push_Load _ a) \<longleftrightarrow> \<not> a"
| "stack_phase (Push_Cas _ a _ _) \<longleftrightarrow> \<not> a"
| "stack_phase (Push_Write _ a _) \<longleftrightarrow> \<not> a"
| "stack_phase (Push_Publish a _) \<longleftrightarrow> \<not> a"
| "stack_phase (Pop_All_Load a) \<longleftrightarrow> \<not> a"
| "stack_phase (Pop_All_Cas a _ _) \<longleftrightarrow> \<not> a"
| "stack_phase (Pop_All_Read a _ _ _ _) \<longleftrightarrow> \<not> a"
| "stack_phase (Pop_All_Clear a _ _ _) \<longleftrightarrow> \<not> a"
| "stack_phase _ \<longleftrightarrow> True"

definition stack_step :: "nat \<Rightarrow> 'a shared_storage \<Rightarrow> 'a shared_storage \<Rightarrow> bool" where
  "stack_step n s s' \<longleftrightarrow> (\<exists>c. thread_step n c s s') \<and> (\<forall>d. stack_phase (phase s' d))"

lemma stack_step_keeps_empty:
  assumes "storage_inv n s" "thread_step n c s s'" "stack_phase (phase s c)" "contents n (storage s) = {#}"
  shows "contents n (storage s') = {#}"
proof -
  have "status_of (storage s) (phase s c) \<noteq> To_Push v True" for v
    using assms(3) by (cases "phase s c") (auto simp: all_status_def)
  then have not_push: "status_of (storage s) (phase s c) \<noteq> To_Push v a" if a for v a using that by simp
  from thread_step_spec(1) [OF assms(1,2)] show ?thesis
    by cases (use not_push assms(4) in auto)
qed

lemma stack_run_keeps_empty:
  assumes "(stack_step n)\<^sup>*\<^sup>* s s'" "storage_inv n s" "\<forall>d. stack_phase (phase s d)" "contents n (storage s) = {#}"
  shows "contents n (storage s') = {#} \<and> storage_inv n s' \<and> (\<forall>d. stack_phase (phase s' d))"
  using assms
proof (induction rule: rtranclp_induct)
  case (step s' s'')
  then obtain c where c: "thread_step n c s' s''" "\<forall>d. stack_phase (phase s'' d)" by (auto simp: stack_step_def)
  with step show ?case using storage_inv_step [of n s' c s''] stack_step_keeps_empty [of n s' c s''] by blast
qed simp

lemma emptied_when_returned:
  assumes "storage_step n p st p' st'" "storage_ok n st" "owner_ok n st p" "stack_phase p"
    "p' = Pop_Returned r True \<or> p' = Pop_All_Returned acc"
  shows "contents n st' = {#}"
proof -
  have wf: "wf_metadata n (metadata st)" "wf_metadata n (metadata st')"
    using assms(2) storage_step_local [OF assms(1-3)] by (simp_all add: storage_ok_def)
  from assms(1,4,5) have "instance_bitmap n (metadata st') = 0 \<or> instances_to_pop n (metadata st') = 0"
    by cases (auto simp: pop_loaded_def push_loaded_def pop_all_loaded_def pop_all_at_def read_slot_def
        split: option.splits if_splits)
  then show ?thesis
    using no_instances_available [OF wf(2)] instances_to_pop_0 [OF wf(2)] by (auto simp: contents_empty_iff)
qed

text \<open>
  C9. An array on the stack of a bag is emptied for good: once a pop has reported that it left the array
  empty, or a pop_all has returned, no push that is under way or starts later adds a value to it,
  whatever the threads do. The stack can therefore unlink the array, and the popped arrays can be
  dropped, without losing a value.
\<close>

theorem bag_array_emptied_for_good:
  assumes "storage_reachable n s" "\<forall>d. stack_phase (phase s d)" "thread_step n c s s1"
    "phase s1 c = Pop_Returned r True \<or> phase s1 c = Pop_All_Returned acc" "(stack_step n)\<^sup>*\<^sup>* s1 s'"
  shows "contents n (storage s') = {#}"
proof -
  have inv: "storage_inv n s" using assms(1) by (rule storage_inv_reachable)
  have inv1: "storage_inv n s1" using inv assms(3) by (rule storage_inv_step)
  obtain p' st' where st: "storage_step n (phase s c) (storage s) p' st'"
    and s1: "s1 = \<lparr>storage = st', phase = (phase s)(c := p')\<rparr>"
    using assms(3) by (auto simp: thread_step_def)
  have "contents n (storage s1) = {#}"
    using emptied_when_returned [OF st] inv assms(2,4) by (simp add: s1 storage_inv_def)
  moreover have "\<forall>d. stack_phase (phase s1 d)" using assms(2,4) by (auto simp: s1)
  ultimately show ?thesis
    using stack_run_keeps_empty [OF assms(5) inv1] by simp
qed

text \<open>
  A race on an array of two slots: thread 1 owns and writes the free slot while thread 0 takes the only
  value. Thread 0 reports that the array is empty, so that thread 1 gets its value back.
\<close>

abbreviation race_state :: "nat option list \<Rightarrow> usize \<Rightarrow> nat phase \<Rightarrow> nat phase \<Rightarrow> nat shared_storage" where
  "race_state sl m p q \<equiv> \<lparr>storage = \<lparr>slots = sl, metadata = m\<rparr>, phase = \<lambda>c. if c = 0 then p else if c = 1 then q else Idle\<rparr>"

lemma race_values:
  "with_val 2 (7::nat) = Some \<lparr>slots = [Some 7, None], metadata = 4\<rparr>"
  "push_loaded 2 (9::nat) False 4 = Push_Cas 9 False 4 1" "(4 :: usize) OR shl1 1 = 6"
  "pop_loaded 2 6 = (Pop_Cas 6 0 :: nat phase)" "(6 :: usize) OR shl1 0 = 7" "pop_metadata 2 0 7 = 2" "instance_bitmap 2 2 = 0"
  "publish_metadata 2 False 1 2 = None" "[Some 7, None][1 := Some 9] = [Some (7::nat), Some 9]" "(2 :: usize) AND NOT (shl1 1) = 0"
  by code_simp+

lemma race_step0: "storage_step 2 p \<lparr>slots = sl, metadata = m\<rparr> p' \<lparr>slots = sl', metadata = m'\<rparr> \<Longrightarrow>
    thread_step 2 0 (race_state sl m p q) (race_state sl' m' p' q)"
  unfolding thread_step_def by (intro exI [of _ p'] exI [of _ "\<lparr>slots = sl', metadata = m'\<rparr>"]) (auto simp: fun_eq_iff)

lemma race_step1: "storage_step 2 q \<lparr>slots = sl, metadata = m\<rparr> q' \<lparr>slots = sl', metadata = m'\<rparr> \<Longrightarrow>
    thread_step 2 1 (race_state sl m p q) (race_state sl' m' p q')"
  unfolding thread_step_def by (intro exI [of _ q'] exI [of _ "\<lparr>slots = sl', metadata = m'\<rparr>"]) (auto simp: fun_eq_iff)

abbreviation race_storage :: "nat option \<Rightarrow> usize \<Rightarrow> nat storage" where
  "race_storage x m \<equiv> \<lparr>slots = [Some 7, x], metadata = m\<rparr>"

lemma race_steps:
  "storage_step 2 (Push_Load 9 False) (race_storage None 4) (Push_Cas 9 False 4 1) (race_storage None 4)"
  "storage_step 2 (Push_Cas 9 False 4 1) (race_storage None 4) (Push_Write 9 False 1) (race_storage None 6)"
  "storage_step 2 (Push_Write 9 False 1) (race_storage None 6) (Push_Publish False 1) (race_storage (Some 9) 6)"
  "storage_step 2 Pop_Load (race_storage (Some 9) 6) (Pop_Cas 6 0) (race_storage (Some 9) 6)"
  "storage_step 2 (Pop_Cas 6 0) (race_storage (Some 9) 6) (Pop_Read 0) (race_storage (Some 9) 7)"
  "storage_step 2 (Pop_Read 0) (race_storage (Some 9) 7) (Pop_Clear 0 7) (race_storage (Some 9) 7)"
  "storage_step 2 (Pop_Clear 0 7) (race_storage (Some 9) 7) (Pop_Returned (Some 7) True) (race_storage (Some 9) 2)"
  "storage_step 2 (Push_Publish False 1) (race_storage (Some 9) 2) (Push_Undo 1) (race_storage (Some 9) 2)"
  "storage_step 2 (Push_Undo 1) (race_storage (Some 9) 2) (Push_Rollback 1 9) (race_storage (Some 9) 2)"
  "storage_step 2 (Push_Rollback 1 9) (race_storage (Some 9) 2) (Push_Returned (Some 9)) (race_storage (Some 9) 0)"
  using push_load [of 2 9 False "race_storage None 4"] push_cas [of "race_storage None 4" 4 2 9 False 1]
    push_write [of 2 9 False 1 "race_storage None 6"] pop_load [of 2 "race_storage (Some 9) 6"]
    pop_cas [of "race_storage (Some 9) 6" 6 2 0] pop_read [of 2 0 "race_storage (Some 9) 7"]
    pop_clear [OF refl, of 2 0 7 "race_storage (Some 9) 7"] push_refused [of 2 False 1 "race_storage (Some 9) 2"]
    push_undo [of 2 1 "race_storage (Some 9) 2"] push_rollback [of 2 1 9 "race_storage (Some 9) 2"]
  by (simp_all add: race_values read_slot_def del: One_nat_def list_update.simps)

lemma race_reachable:
  "storage_reachable 2 (race_state [Some 7, Some 9] 6 (Pop_Cas 6 0) (Push_Publish False 1))"
proof -
  have "storage_reachable 2 (race_state [Some 7, None] 4 Idle Idle)"
    using reachable_with_val [OF _ race_values(1)] by (simp cong: if_cong)
  then have "storage_reachable 2 (race_state [Some 7, None] 4 Idle (Push_Load 9 False))"
    by (rule reachable_step) (rule race_step1 [OF push_call])
  then have "storage_reachable 2 (race_state [Some 7, None] 4 Idle (Push_Cas 9 False 4 1))"
    by (rule reachable_step) (rule race_step1 [OF race_steps(1)])
  then have "storage_reachable 2 (race_state [Some 7, None] 6 Idle (Push_Write 9 False 1))"
    by (rule reachable_step) (rule race_step1 [OF race_steps(2)])
  then have "storage_reachable 2 (race_state [Some 7, Some 9] 6 Idle (Push_Publish False 1))"
    by (rule reachable_step) (rule race_step1 [OF race_steps(3)])
  then have "storage_reachable 2 (race_state [Some 7, Some 9] 6 Pop_Load (Push_Publish False 1))"
    by (rule reachable_step) (rule race_step0 [OF pop_call])
  then show ?thesis by (rule reachable_step) (rule race_step0 [OF race_steps(4)])
qed

theorem bag_storage_linearizable_witness:
  "\<exists>s' :: nat shared_storage. storage_reachable 2 s' \<and> phase s' 0 = Pop_Read 0
     \<and> contents 2 (storage s') = {#} \<and> status_of (storage s') (phase s' 0) = Did_Pop (Some 7)
     \<and> status_of (storage s') (phase s' 1) = To_Push 9 False"
proof -
  note t = race_step0 [OF race_steps(5), of "Push_Publish False 1"]
  have "available 2 6 = {0}" by (auto simp: available_def less_2_cases_iff)
  then have "contents 2 (race_storage (Some 9) 6) = {#7#}" by (simp add: contents_def)
  with bag_storage_linearizable [OF race_reachable t] reachable_step [OF race_reachable t] show ?thesis
    by (intro exI [of _ "race_state [Some 7, Some 9] 7 (Pop_Read 0) (Push_Publish False 1)"])
      (auto elim: spec_step.cases)
qed

theorem bag_array_emptied_for_good_witness:
  "\<exists>s' :: nat shared_storage. phase s' 1 = Push_Returned (Some 9) \<and> contents 2 (storage s') = {#}"
proof -
  let ?s = "race_state [Some 7, Some 9]"
  let ?done = "Pop_Returned (Some 7) True"
  have r: "storage_reachable 2 (?s 7 (Pop_Clear 0 7) (Push_Publish False 1))"
    using reachable_step [OF reachable_step [OF race_reachable race_step0 [OF race_steps(5)]] race_step0 [OF race_steps(6)]] .
  note t = race_step0 [OF race_steps(7), of "Push_Publish False 1"]
  have "stack_step 2 (?s 2 ?done (Push_Publish False 1)) (?s 2 ?done (Push_Undo 1))"
    "stack_step 2 (?s 2 ?done (Push_Undo 1)) (?s 2 ?done (Push_Rollback 1 9))"
    "stack_step 2 (?s 2 ?done (Push_Rollback 1 9)) (?s 0 ?done (Push_Returned (Some 9)))"
    unfolding stack_step_def
    using race_step1 [OF race_steps(8)] race_step1 [OF race_steps(9)] race_step1 [OF race_steps(10)]
    by (auto simp del: One_nat_def)
  then have run: "(stack_step 2)\<^sup>*\<^sup>* (?s 2 ?done (Push_Publish False 1)) (?s 0 ?done (Push_Returned (Some 9)))"
    by (meson converse_rtranclp_into_rtranclp r_into_rtranclp)
  have "\<forall>d. stack_phase (phase (?s 7 (Pop_Clear 0 7) (Push_Publish False 1)) d)" by simp
  from bag_array_emptied_for_good [OF r this t _ run] show ?thesis
    by (intro exI [of _ "?s 0 ?done (Push_Returned (Some 9))"]) simp
qed

end
