(* ===== verification/Linked_List.thy ===== *)
theory Linked_List
  imports Ebr_Tag "HOL-Library.Monad_Syntax"
begin

text \<open>
  The singly linked lists under the stack and the queue: the trait \<^verbatim>\<open>LinkedList\<close> and the type
  \<^verbatim>\<open>Entry\<close> of \<^verbatim>\<open>src/linked_list.rs\<close>, run by one thread. Entries are the elements of a growing list of
  nodes and an address is an index into it. Entries are never freed: an entry that can still be
  reached is kept by the reference that reaches it (\<^verbatim>\<open>Shared\<close>, modelled in \<open>Ebr_Shared\<close>) or by the
  guard of the operation, so that \<^verbatim>\<open>Ptr::get_shared\<close> succeeds for every pointer that is not null. A
  link is an address and the tag of the pointer; the tag of its own link tells the state of an entry.
  A loop that does not end is the value \<^term>\<open>None\<close>.
\<close>

section \<open>Entries and links\<close>

type_synonym addr = nat
type_synonym link = "addr option \<times> tag"

record 'a node =
  instance_of :: "'a option"
  link_of :: link

type_synonym 'a nodes = "'a node list"

definition entry_new :: "'a \<Rightarrow> 'a node" where
  "entry_new val = \<lparr>instance_of = Some val, link_of = (None, TagNone)\<rparr>"

definition link_at :: "'a nodes \<Rightarrow> addr \<Rightarrow> link" where
  "link_at ns a = link_of (ns ! a)"

definition swap_link :: "'a nodes \<Rightarrow> addr \<Rightarrow> link \<Rightarrow> link \<times> 'a nodes" where
  "swap_link ns a l = (link_at ns a, ns[a := (ns ! a)\<lparr>link_of := l\<rparr>])"

definition set_link :: "'a nodes \<Rightarrow> addr \<Rightarrow> link \<Rightarrow> 'a nodes" where
  "set_link ns a l = snd (swap_link ns a l)"

definition cas_link :: "'a nodes \<Rightarrow> addr \<Rightarrow> link \<Rightarrow> link \<Rightarrow> (link + link) \<times> 'a nodes" where
  "cas_link ns a current new =
     (let (cell, r) = compare_exchange (link_at ns a) current new in (r, set_link ns a cell))"

definition update_tag_if :: "'a nodes \<Rightarrow> addr \<Rightarrow> tag \<Rightarrow> (link \<Rightarrow> bool) \<Rightarrow> bool \<times> 'a nodes" where
  "update_tag_if ns a t condition =
     (let (cell, r) = fetch_update (link_at ns a) (\<lambda>l. if condition l then Some (fst l, t) else None)
      in (is_ok r, set_link ns a cell))"

text \<open>\<^verbatim>\<open>Entry::take_inner\<close>; the instance of an entry is present until then.\<close>

definition take_inner :: "'a nodes \<Rightarrow> addr \<Rightarrow> 'a option \<times> 'a nodes" where
  "take_inner ns a = (instance_of (ns ! a), ns[a := (ns ! a)\<lparr>instance_of := None\<rparr>])"

text \<open>Writing through a reference to the instance.\<close>

definition set_instance :: "'a nodes \<Rightarrow> addr \<Rightarrow> 'a \<Rightarrow> 'a nodes" where
  "set_instance ns a v = ns[a := (ns ! a)\<lparr>instance_of := Some v\<rparr>]"

section \<open>The state of an entry\<close>

definition is_clear :: "'a nodes \<Rightarrow> addr \<Rightarrow> bool" where
  "is_clear ns a \<longleftrightarrow> snd (link_at ns a) = TagNone"

definition mark_entry :: "'a nodes \<Rightarrow> addr \<Rightarrow> bool \<times> 'a nodes" where
  "mark_entry ns a = update_tag_if ns a First (\<lambda>l. snd l = TagNone)"

definition unmark_entry :: "'a nodes \<Rightarrow> addr \<Rightarrow> bool \<times> 'a nodes" where
  "unmark_entry ns a = update_tag_if ns a TagNone (\<lambda>l. snd l = First)"

definition is_marked :: "'a nodes \<Rightarrow> addr \<Rightarrow> bool" where
  "is_marked ns a \<longleftrightarrow> snd (link_at ns a) = First"

definition delete_self :: "'a nodes \<Rightarrow> addr \<Rightarrow> bool \<times> 'a nodes" where
  "delete_self ns a = update_tag_if ns a Second (\<lambda>l. snd l = TagNone \<or> snd l = First)"

definition is_deleted :: "'a nodes \<Rightarrow> addr \<Rightarrow> bool" where
  "is_deleted ns a \<longleftrightarrow> snd (link_at ns a) = Second \<or> snd (link_at ns a) = Both"

section \<open>Appending an entry\<close>

text \<open>The loop of \<^verbatim>\<open>push_back\<close>: \<^term>\<open>Inl\<close> is \<^verbatim>\<open>Err(entry)\<close>, \<^term>\<open>Inr\<close> the updated link.\<close>

partial_function (option) push_back_loop ::
    "'a nodes \<Rightarrow> addr \<Rightarrow> addr \<Rightarrow> tag \<Rightarrow> link \<Rightarrow> ((addr + link) \<times> 'a nodes) option" where
  "push_back_loop ns self entry new_tag next_ptr =
     (if snd next_ptr = Second \<or> snd next_ptr = Both then Some (Inl entry, ns)
      else let ns = set_link ns entry (fst next_ptr, TagNone);
               (r, ns) = cas_link ns self next_ptr (Some entry, new_tag)
           in case r of
                Inr _ \<Rightarrow> Some (Inr (Some entry, new_tag), ns)
              | Inl actual \<Rightarrow> push_back_loop ns self entry new_tag actual)"

definition push_back :: "'a nodes \<Rightarrow> addr \<Rightarrow> addr \<Rightarrow> bool \<Rightarrow> ((addr + link) \<times> 'a nodes) option" where
  "push_back ns self entry mark =
     push_back_loop ns self entry (if mark then First else TagNone) (link_at ns self)"

section \<open>The next valid entry\<close>

text \<open>
  The walk of \<^verbatim>\<open>next_ptr\<close> over deleted entries. It tags the entries of the first run of deleted
  entries with \<^term>\<open>Both\<close> and remembers the first and the last of them; \<open>ended\<close> is
  \<^verbatim>\<open>cleanup_range_ended\<close>.
\<close>

partial_function (option) next_walk ::
    "'a nodes \<Rightarrow> link \<Rightarrow> addr option \<times> addr option \<Rightarrow> bool
     \<Rightarrow> (link \<times> (addr option \<times> addr option) \<times> 'a nodes) option" where
  "next_walk ns entry_ptr span ended =
     (case fst entry_ptr of
        None \<Rightarrow> Some (entry_ptr, span, ns)
      | Some entry \<Rightarrow>
          (let entry_state = link_at ns entry
           in if snd entry_state = TagNone \<or> snd entry_state = First then Some (entry_ptr, span, ns)
              else if snd entry_state = Second \<and> \<not> ended
              then let (updated, ns) = update_tag_if ns entry Both (\<lambda>l. l = entry_state)
                   in if updated
                      then next_walk ns entry_state
                             (if fst span = None then fst entry_ptr else fst span, fst entry_ptr) ended
                      else next_walk ns entry_state span True
              else next_walk ns entry_state span True))"

text \<open>The two loops over the remembered entries: after the link has been updated, and otherwise.\<close>

partial_function (option) unlink_range ::
    "'a nodes \<Rightarrow> addr option \<Rightarrow> addr option \<Rightarrow> addr option \<Rightarrow> 'a nodes option" where
  "unlink_range ns entry_ptr final next_valid =
     (case entry_ptr of
        None \<Rightarrow> Some ns
      | Some entry \<Rightarrow>
          (let (prev, ns) = swap_link ns entry (next_valid, Second)
           in if entry_ptr = final then Some ns else unlink_range ns (fst prev) final next_valid))"

partial_function (option) restore_range :: "'a nodes \<Rightarrow> addr option \<Rightarrow> addr option \<Rightarrow> 'a nodes option" where
  "restore_range ns entry_ptr final =
     (case entry_ptr of
        None \<Rightarrow> Some ns
      | Some entry \<Rightarrow>
          (let prev = link_at ns entry; (_, ns) = update_tag_if ns entry Second (\<lambda>_. True)
           in if entry_ptr = final then Some ns else restore_range ns (fst prev) final))"

definition next_ptr :: "'a nodes \<Rightarrow> addr \<Rightarrow> (link \<times> 'a nodes) option" where
  "next_ptr ns self =
     (let current_state = link_at ns self
      in do {
        (next_valid, span, ns) \<leftarrow> next_walk ns current_state (None, None) (snd current_state = Both);
        if snd current_state \<noteq> Both \<and> current_state \<noteq> next_valid
        then case cas_link ns self current_state (fst next_valid, snd current_state) of
               (Inr prev, ns) \<Rightarrow>
                 do { ns \<leftarrow> (if fst prev \<noteq> None then unlink_range ns (fst span) (snd span) (fst next_valid)
                             else restore_range ns (fst span) (snd span));
                      Some (next_valid, ns) }
             | (Inl _, ns) \<Rightarrow>
                 do { ns \<leftarrow> restore_range ns (fst span) (snd span); Some (next_valid, ns) }
        else Some (next_valid, ns)
      })"

text \<open>\<^verbatim>\<open>Entry::drop\<close> tidies the list behind the entry.\<close>

definition entry_drop :: "'a nodes \<Rightarrow> addr \<Rightarrow> 'a nodes option" where
  "entry_drop ns a = (if fst (link_at ns a) \<noteq> None then map_option snd (next_ptr ns a) else Some ns)"

declare push_back_loop.simps [code] next_walk.simps [code] unlink_range.simps [code] restore_range.simps [code]

section \<open>Chains\<close>

text \<open>The addresses on the way from a pointer to the end of the list, deleted entries included.\<close>

fun chain :: "'a nodes \<Rightarrow> addr option \<Rightarrow> addr list \<Rightarrow> bool" where
  "chain ns p [] \<longleftrightarrow> p = None"
| "chain ns p (a # as) \<longleftrightarrow> p = Some a \<and> a < length ns \<and> chain ns (fst (link_at ns a)) as"

definition live :: "'a nodes \<Rightarrow> addr \<Rightarrow> bool" where
  "live ns a \<longleftrightarrow> \<not> is_deleted ns a"

definition head :: "addr list \<Rightarrow> addr option" where
  "head as = (case as of [] \<Rightarrow> None | a # _ \<Rightarrow> Some a)"

text \<open>The values of the live entries of a chain, and the entries that make up a proper heap.\<close>

definition chain_values :: "'a nodes \<Rightarrow> addr list \<Rightarrow> 'a list" where
  "chain_values ns as = map (\<lambda>a. the (instance_of (ns ! a))) (filter (live ns) as)"

definition heap_ok :: "'a nodes \<Rightarrow> bool" where
  "heap_ok ns \<longleftrightarrow>
     (\<forall>a<length ns. snd (link_at ns a) \<noteq> Both \<and> (\<exists>as. chain ns (fst (link_at ns a)) as)
        \<and> (live ns a \<longrightarrow> instance_of (ns ! a) \<noteq> None))"

lemma head_simps [simp]: "head [] = None" "head (a # as) = Some a"
  by (simp_all add: head_def)

lemma head_in_set: "head as = Some a \<Longrightarrow> a \<in> set as"
  by (cases as) auto

lemma chain_None [simp]: "chain ns None as \<longleftrightarrow> as = []"
  by (cases as) auto

lemma chain_Some: "chain ns (Some a) as \<longleftrightarrow> (\<exists>bs. as = a # bs \<and> a < length ns \<and> chain ns (fst (link_at ns a)) bs)"
  by (cases as) auto

lemma chain_head: "chain ns p as \<Longrightarrow> p = head as"
  by (cases as) auto

lemma chain_unique: "chain ns p as \<Longrightarrow> chain ns p bs \<Longrightarrow> as = bs"
  by (induction as arbitrary: p bs) (auto simp: chain_Some)

lemma chain_append: "chain ns p (as @ bs) \<Longrightarrow> chain ns (head bs) bs"
  by (induction as arbitrary: p) (auto dest: chain_head)

lemma chain_bounds: "chain ns p as \<Longrightarrow> a \<in> set as \<Longrightarrow> a < length ns"
  by (induction as arbitrary: p) auto

lemma chain_not_in_tail: "chain ns (fst (link_at ns a)) as \<Longrightarrow> a \<notin> set as"
proof
  assume c: "chain ns (fst (link_at ns a)) as" and "a \<in> set as"
  then obtain xs ys where as: "as = xs @ a # ys" by (meson split_list)
  then have "chain ns (fst (link_at ns a)) ys" using c chain_append [of ns _ xs "a # ys"] by auto
  from chain_unique [OF c this] show False by (simp add: as)
qed

lemma chain_distinct: "chain ns p as \<Longrightarrow> distinct as"
  by (induction as arbitrary: p) (auto dest: chain_not_in_tail)

lemma chain_cong:
  "length ns' = length ns \<Longrightarrow> (\<And>a. a \<in> set as \<Longrightarrow> fst (link_at ns' a) = fst (link_at ns a))
    \<Longrightarrow> chain ns' p as = chain ns p as"
  by (induction as arbitrary: p) auto

lemma heap_okD:
  assumes "heap_ok ns" "a < length ns"
  shows "snd (link_at ns a) \<noteq> Both" "\<exists>as. chain ns (fst (link_at ns a)) as"
    "live ns a \<Longrightarrow> instance_of (ns ! a) \<noteq> None"
  using assms by (auto simp: heap_ok_def)

section \<open>Updates of many links\<close>

definition upd_links :: "'a nodes \<Rightarrow> (addr \<Rightarrow> link \<Rightarrow> link) \<Rightarrow> 'a nodes" where
  "upd_links ns f = map (\<lambda>a. (ns ! a)\<lparr>link_of := f a (link_of (ns ! a))\<rparr>) [0..<length ns]"

lemma length_upd_links [simp]: "length (upd_links ns f) = length ns"
  by (simp add: upd_links_def)

lemma length_set_link [simp]: "length (set_link ns a l) = length ns"
  by (simp add: set_link_def swap_link_def)

lemma link_at_upd_links [simp]: "a < length ns \<Longrightarrow> link_at (upd_links ns f) a = f a (link_at ns a)"
  by (simp add: upd_links_def link_at_def)

lemma instance_upd_links [simp]: "a < length ns \<Longrightarrow> instance_of (upd_links ns f ! a) = instance_of (ns ! a)"
  by (simp add: upd_links_def)

lemma link_at_set_link: "a < length ns \<Longrightarrow> link_at (set_link ns a l) b = (if b = a then l else link_at ns b)"
  by (auto simp: set_link_def swap_link_def link_at_def)

lemma instance_set_link [simp]: "instance_of (set_link ns a l ! b) = instance_of (ns ! b)"
  by (cases "a < length ns"; cases "a = b") (auto simp: set_link_def swap_link_def list_update_beyond)

lemma nodes_eqI:
  assumes "length ns' = length ns" "\<And>a. a < length ns \<Longrightarrow> link_at ns' a = link_at ns a"
    "\<And>a. a < length ns \<Longrightarrow> instance_of (ns' ! a) = instance_of (ns ! a)"
  shows "ns' = (ns :: 'a nodes)"
  using assms by (intro nth_equalityI) (auto simp: link_at_def intro: node.equality)

lemma set_link_same: "set_link ns a (link_at ns a) = ns"
proof (cases "a < length ns")
  case True
  then show ?thesis by (intro nodes_eqI) (auto simp: link_at_set_link)
qed (simp add: set_link_def swap_link_def list_update_beyond)

lemma cas_link_ok: "link_at ns a = current \<Longrightarrow> cas_link ns a current new = (Inr current, set_link ns a new)"
  by (simp add: cas_link_def)

lemma cas_link_fail: "link_at ns a \<noteq> current \<Longrightarrow> cas_link ns a current new = (Inl (link_at ns a), ns)"
  by (simp add: cas_link_def compare_exchange_def set_link_same)

lemma update_tag_if_simp:
  "update_tag_if ns a t c = (if c (link_at ns a) then (True, set_link ns a (fst (link_at ns a), t)) else (False, ns))"
  by (simp add: update_tag_if_def fetch_update_def set_link_same)

lemma live_iff: "heap_ok ns \<Longrightarrow> a < length ns \<Longrightarrow> live ns a \<longleftrightarrow> snd (link_at ns a) \<noteq> Second"
  by (auto simp: live_def is_deleted_def dest: heap_okD(1))

section \<open>What next_ptr does\<close>

lemma next_walk_ok:
  assumes "chain ns (fst p) (ds @ rest)" "\<forall>d \<in> set ds. snd (link_at ns d) = Second"
    "\<forall>a. head rest = Some a \<longrightarrow> snd (link_at ns a) \<in> {TagNone, First}"
  shows "\<exists>q. next_walk ns p sp False = Some (q, if ds = [] then sp else
        (if fst sp = None then head ds else fst sp, Some (last ds)), upd_links ns (\<lambda>a l. if a \<in> set ds then (fst l, Both) else l))
      \<and> fst q = head rest \<and> (ds = [] \<longrightarrow> q = p)"
  using assms
proof (induction ds arbitrary: ns p sp)
  case Nil
  have "upd_links ns (\<lambda>a l. l) = ns" by (rule nodes_eqI) simp_all
  then show ?case using Nil chain_head [of ns "fst p" rest]
    by (cases rest) (auto simp: next_walk.simps [of ns p] Let_def)
next
  case (Cons d ds)
  let ?ns = "set_link ns d (fst (link_at ns d), Both)"
  have d: "fst p = Some d" "d < length ns" "snd (link_at ns d) = Second" "chain ns (fst (link_at ns d)) (ds @ rest)"
    using Cons.prems by simp_all
  have notin: "d \<notin> set (ds @ rest)" using d(4) by (rule chain_not_in_tail)
  have link: "link_at ?ns a = link_at ns a" if "a \<noteq> d" for a using that d(2) by (simp add: link_at_set_link)
  have "chain ?ns (fst (link_at ns d)) (ds @ rest)"
    using d(2,4) notin by (subst chain_cong [of ?ns ns]) (auto simp: link_at_set_link)
  moreover have "\<forall>e \<in> set ds. snd (link_at ?ns e) = Second"
    using Cons.prems(2) notin link by (metis Un_iff list.set_intros(2) set_append)
  moreover have "\<forall>a. head rest = Some a \<longrightarrow> snd (link_at ?ns a) \<in> {TagNone, First}"
    using Cons.prems(3) notin link by (cases rest) auto
  ultimately have ih: "\<exists>q. next_walk ?ns (link_at ns d) sp False = Some (q, if ds = [] then sp else
        (if fst sp = None then head ds else fst sp, Some (last ds)), upd_links ?ns (\<lambda>a l. if a \<in> set ds then (fst l, Both) else l))
      \<and> fst q = head rest" for sp
    using Cons.IH [of ?ns "link_at ns d" sp] by blast
  define sp1 where "sp1 = (if fst sp = None then Some d else fst sp, Some d)"
  have sp1: "fst sp1 \<noteq> None" by (simp add: sp1_def)
  obtain q where q: "next_walk ?ns (link_at ns d) sp1 False = Some (q, if ds = [] then sp1 else (fst sp1, Some (last ds)),
      upd_links ?ns (\<lambda>a l. if a \<in> set ds then (fst l, Both) else l))" "fst q = head rest"
    using ih [of sp1, unfolded if_not_P [OF sp1]] by blast
  have "upd_links ?ns (\<lambda>a l. if a \<in> set ds then (fst l, Both) else l)
      = upd_links ns (\<lambda>a l. if a \<in> set (d # ds) then (fst l, Both) else l)"
    using notin d(2) by (intro nodes_eqI) (auto simp: link_at_set_link)
  then show ?case using q d by (cases q) (auto simp: next_walk.simps [of ns p] Let_def update_tag_if_simp sp1_def)
qed

lemma unlink_range_ok:
  assumes "chain ns p (ds @ rest)" "ds \<noteq> []"
  shows "unlink_range ns p (Some (last ds)) v = Some (upd_links ns (\<lambda>a l. if a \<in> set ds then (v, Second) else l))"
  using assms
proof (induction ds arbitrary: ns p)
  case (Cons d ds)
  let ?ns = "set_link ns d (v, Second)"
  have d: "p = Some d" "d < length ns" "chain ns (fst (link_at ns d)) (ds @ rest)"
    using Cons.prems by simp_all
  have notin: "d \<notin> set (ds @ rest)" using d(3) by (rule chain_not_in_tail)
  have step: "upd_links ?ns (\<lambda>a l. if a \<in> set ds then (v, Second) else l)
      = upd_links ns (\<lambda>a l. if a \<in> set (d # ds) then (v, Second) else l)"
    using notin d(2) by (intro nodes_eqI) (auto simp: link_at_set_link)
  show ?case
  proof (cases "ds = []")
    case True
    have "upd_links ?ns (\<lambda>a l. l) = ?ns" by (rule nodes_eqI) simp_all
    with True step d show ?thesis
      by (simp add: unlink_range.simps [of ns "Some d"] swap_link_def set_link_def)
  next
    case False
    have "chain ?ns (fst (link_at ns d)) (ds @ rest)"
      using d notin by (subst chain_cong [of ?ns ns]) (auto simp: link_at_set_link)
    from Cons.IH [OF this False] step False d notin show ?thesis
      by (auto simp: unlink_range.simps [of ns "Some d"] swap_link_def set_link_def)
  qed
qed simp

text \<open>
  \<^verbatim>\<open>next_ptr\<close> returns the first live entry behind \<open>self\<close> and lets \<open>self\<close> and the deleted entries in
  between point to it.
\<close>

definition skip_deleted :: "'a nodes \<Rightarrow> addr \<Rightarrow> addr list \<Rightarrow> 'a nodes" where
  "skip_deleted ns self as =
     (let ds = takeWhile (is_deleted ns) as; rest = dropWhile (is_deleted ns) as
      in if ds = [] then ns
         else upd_links ns (\<lambda>a l. if a \<in> insert self (set ds) then (head rest, snd l) else l))"

lemma next_ptr_ok:
  assumes "heap_ok ns" "self < length ns" "chain ns (fst (link_at ns self)) as"
  shows "\<exists>t. next_ptr ns self = Some ((head (dropWhile (is_deleted ns) as), t), skip_deleted ns self as)"
proof -
  let ?ds = "takeWhile (is_deleted ns) as" and ?rest = "dropWhile (is_deleted ns) as"
  let ?cur = "link_at ns self"
  let ?both = "upd_links ns (\<lambda>a l. if a \<in> set ?ds then (fst l, Both) else l)"
  have bounds: "a < length ns" if "a \<in> set as" for a using that assms(3) by (rule chain_bounds [rotated])
  have self: "self \<notin> set as" using assms(3) by (rule chain_not_in_tail)
  have ds: "\<forall>d \<in> set ?ds. snd (link_at ns d) = Second"
    using bounds heap_okD(1) [OF assms(1)] by (auto simp: is_deleted_def dest!: set_takeWhileD)
  have rest: "\<forall>a. head ?rest = Some a \<longrightarrow> snd (link_at ns a) \<in> {TagNone, First}"
  proof (cases ?rest)
    case (Cons a bs)
    then have "\<not> is_deleted ns a" by (simp add: dropWhile_eq_Cons_conv)
    with Cons show ?thesis by (cases "snd (link_at ns a)") (auto simp: is_deleted_def)
  next
    case Nil
    show ?thesis unfolding Nil by simp
  qed
  have tag: "snd ?cur \<noteq> Both" using heap_okD(1) assms(1,2) by auto
  obtain q where q: "next_walk ns ?cur (None, None) False =
      Some (q, if ?ds = [] then (None, None) else (head ?ds, Some (last ?ds)), ?both)" "fst q = head ?rest"
      "?ds = [] \<longrightarrow> q = ?cur"
    using next_walk_ok [of ns ?cur ?ds ?rest "(None, None)", OF _ ds rest] assms(3)
    by (simp only: takeWhile_dropWhile_id fst_conv simp_thms if_True) blast
  show ?thesis
  proof (cases "?ds = []")
    case True
    have "?both = ns" unfolding True by (rule nodes_eqI) simp_all
    then show ?thesis using q tag True by (auto simp: next_ptr_def skip_deleted_def prod_eq_iff intro!: exI [of _ "snd q"])
  next
    case False
    then obtain d ds where d: "?ds = d # ds" by (cases ?ds) auto
    have split: "as = d # (ds @ ?rest)" using takeWhile_dropWhile_id [of "is_deleted ns" as] unfolding d by simp
    have cur_d: "fst ?cur = head ?ds" unfolding d head_simps using chain_head [OF assms(3)] split by (metis head_simps(2))
    have "d \<notin> set ?rest" using chain_distinct [OF assms(3)] split by (metis UnCI distinct.simps(2) set_append)
    then have "head ?rest \<noteq> Some d" using head_in_set by blast
    then have neq: "?cur \<noteq> q" "fst ?cur \<noteq> None" using q(2) cur_d unfolding d head_simps by auto
    have cur: "link_at ?both self = ?cur" using assms(2) self by (auto dest: set_takeWhileD)
    let ?new = "set_link ?both self (head ?rest, snd ?cur)"
    have "chain ?new (head ?ds) (?ds @ ?rest)"
      using assms(2,3) self bounds cur_d
      by (subst chain_cong [of ?new ns]) (auto simp: link_at_set_link)
    from unlink_range_ok [OF this False]
    have u: "unlink_range ?new (head ?ds) (Some (last ?ds)) (head ?rest) =
        Some (upd_links ?new (\<lambda>a l. if a \<in> set ?ds then (head ?rest, Second) else l))" .
    have "upd_links ?new (\<lambda>a l. if a \<in> set ?ds then (head ?rest, Second) else l) = skip_deleted ns self as"
      using False self assms(2) ds by (intro nodes_eqI) (auto simp: skip_deleted_def Let_def link_at_set_link prod_eq_iff)
    then show ?thesis
      using q tag neq cur u False by (auto simp: next_ptr_def cas_link_ok prod_eq_iff intro!: exI [of _ "snd q"])
  qed
qed

lemma skip_deleted_simps [simp]:
  "length (skip_deleted ns self as) = length ns"
  "a < length ns \<Longrightarrow> instance_of (skip_deleted ns self as ! a) = instance_of (ns ! a)"
  "a < length ns \<Longrightarrow> snd (link_at (skip_deleted ns self as) a) = snd (link_at ns a)"
  by (auto simp: skip_deleted_def Let_def)

lemma skip_deleted_live: "a < length ns \<Longrightarrow> live (skip_deleted ns self as) a = live ns a"
  by (simp add: live_def is_deleted_def)

lemma filter_dropWhile_deleted: "filter (live ns) (dropWhile (is_deleted ns) as) = filter (live ns) as"
  by (induction as) (auto simp: live_def)

lemma skip_deleted_chain:
  assumes "self < length ns" "chain ns (fst (link_at ns self)) as" "chain ns p bs"
  shows "\<exists>bs'. chain (skip_deleted ns self as) p bs' \<and> filter (live ns) bs' = filter (live ns) bs \<and> set bs' \<subseteq> set bs"
  using assms(3)
proof (induction bs arbitrary: p rule: length_induct)
  case (1 bs)
  let ?ns = "skip_deleted ns self as"
  let ?ds = "takeWhile (is_deleted ns) as" and ?rest = "dropWhile (is_deleted ns) as"
  show ?case
  proof (cases bs)
    case Nil
    then show ?thesis using 1 by auto
  next
    case (Cons b cs)
    then have b: "p = Some b" "b < length ns" "chain ns (fst (link_at ns b)) cs" using 1(2) by auto
    show ?thesis
    proof (cases "?ds \<noteq> [] \<and> b \<in> insert self (set ?ds)")
      case False
      then have "link_at ?ns b = link_at ns b" using b(2) by (auto simp: skip_deleted_def Let_def)
      moreover obtain cs' where "chain ?ns (fst (link_at ns b)) cs'" "filter (live ns) cs' = filter (live ns) cs" "set cs' \<subseteq> set cs"
        using 1(1) [rule_format, OF _ b(3)] Cons by auto
      ultimately show ?thesis using b Cons by (intro exI [of _ "b # cs'"]) auto
    next
      case True
      have "\<exists>es. cs = es @ ?rest \<and> set es \<subseteq> set ?ds"
      proof (cases "b = self")
        case True
        then have "cs = as" using b(3) assms(2) by (metis chain_unique)
        then show ?thesis by (intro exI [of _ ?ds]) simp
      next
        case False
        then obtain xs ys where xs: "?ds = xs @ b # ys" using True by (meson insertE split_list)
        have "as = xs @ b # (ys @ ?rest)" using takeWhile_dropWhile_id [of "is_deleted ns" as] unfolding xs by simp
        then have "chain ns (fst (link_at ns b)) (ys @ ?rest)"
          using assms(2) chain_append [of ns _ xs "b # (ys @ ?rest)"] by auto
        then show ?thesis using chain_unique [OF b(3)] xs by auto
      qed
      then obtain es where es: "cs = es @ ?rest" "set es \<subseteq> set ?ds" by blast
      have "chain ns (head ?rest) ?rest" using b(3) unfolding es(1) by (rule chain_append)
      moreover have "length ?rest < length bs" using Cons es(1) by simp
      ultimately obtain rest' where r: "chain ?ns (head ?rest) rest'" "filter (live ns) rest' = filter (live ns) ?rest"
          "set rest' \<subseteq> set ?rest"
        using 1(1) by blast
      have "filter (live ns) es = []" using es(2) by (auto simp: filter_empty_conv live_def dest: set_takeWhileD)
      then have f: "filter (live ns) ?rest = filter (live ns) cs" using es(1) by (metis append_Nil filter_append)
      have "link_at ?ns b = (head ?rest, snd (link_at ns b))" using True b(2) by (simp add: skip_deleted_def Let_def)
      moreover have "set rest' \<subseteq> set cs" using r(3) es(1) by (metis Un_iff set_append subset_iff)
      ultimately show ?thesis using b r f Cons by (intro exI [of _ "b # rest'"]) auto
    qed
  qed
qed

lemma skip_deleted_ok:
  assumes "heap_ok ns" "self < length ns" "chain ns (fst (link_at ns self)) as"
  shows "heap_ok (skip_deleted ns self as)"
  unfolding heap_ok_def
proof (intro allI impI conjI)
  let ?ns = "skip_deleted ns self as"
  fix a assume "a < length ?ns"
  then have a: "a < length ns" by simp
  show "snd (link_at ?ns a) \<noteq> Both" using heap_okD(1) [OF assms(1) a] a by simp
  show "instance_of (?ns ! a) \<noteq> None" if "live ?ns a"
    using that heap_okD(3) [OF assms(1) a] a by (simp add: skip_deleted_live)
  let ?rest = "dropWhile (is_deleted ns) as"
  have "chain ns (head ?rest) ?rest"
    using assms(3) chain_append [of ns _ "takeWhile (is_deleted ns) as" ?rest] by simp
  then have "\<exists>bs. chain ?ns (head ?rest) bs" using skip_deleted_chain [OF assms(2,3)] by blast
  moreover have "\<exists>bs. chain ?ns (fst (link_at ns a)) bs"
    using heap_okD(2) [OF assms(1) a] skip_deleted_chain [OF assms(2,3)] by blast
  moreover have "fst (link_at ?ns a) = fst (link_at ns a) \<or> fst (link_at ?ns a) = head ?rest"
    using a by (auto simp: skip_deleted_def Let_def)
  ultimately show "\<exists>bs. chain ?ns (fst (link_at ?ns a)) bs" by metis
qed

section \<open>Lists of live entries\<close>

definition denotes :: "'a nodes \<Rightarrow> addr option \<Rightarrow> addr list \<Rightarrow> bool" where
  "denotes ns p xs \<longleftrightarrow> (\<exists>as. chain ns p as \<and> filter (live ns) as = xs)"

text \<open>An update that changes no entry and no list of live entries.\<close>

definition same_lists :: "'a nodes \<Rightarrow> 'a nodes \<Rightarrow> bool" where
  "same_lists ns ns' \<longleftrightarrow>
     length ns' = length ns \<and>
     (\<forall>a<length ns. instance_of (ns' ! a) = instance_of (ns ! a) \<and> snd (link_at ns' a) = snd (link_at ns a)) \<and>
     (\<forall>p as. chain ns p as \<longrightarrow> (\<exists>as'. chain ns' p as' \<and> filter (live ns) as' = filter (live ns) as \<and> set as' \<subseteq> set as))"

lemma same_lists_refl [simp]: "same_lists ns ns"
  by (auto simp: same_lists_def)

lemma same_lists_live: "same_lists ns ns' \<Longrightarrow> a < length ns \<Longrightarrow> live ns' a = live ns a"
  by (simp add: same_lists_def live_def is_deleted_def)

lemma filter_live_cong:
  "(\<And>a. a \<in> set as \<Longrightarrow> live ns' a = live ns a) \<Longrightarrow> filter (live ns') as = filter (live ns) as"
  by (rule filter_cong) auto

lemma same_lists_chain:
  assumes "same_lists ns ns'" "chain ns p as"
  shows "\<exists>as'. chain ns' p as' \<and> filter (live ns') as' = filter (live ns) as \<and> set as' \<subseteq> set as"
proof -
  obtain as' where as': "chain ns' p as'" "filter (live ns) as' = filter (live ns) as" "set as' \<subseteq> set as"
    using assms unfolding same_lists_def by blast
  then have "filter (live ns') as' = filter (live ns) as'"
    using same_lists_live [OF assms(1)] chain_bounds [OF assms(2)] by (intro filter_live_cong) auto
  with as' show ?thesis by auto
qed

lemma same_lists_trans: "same_lists ns ns' \<Longrightarrow> same_lists ns' ns'' \<Longrightarrow> same_lists ns ns''"
proof -
  assume a: "same_lists ns ns'" "same_lists ns' ns''"
  have "\<exists>as'. chain ns'' p as' \<and> filter (live ns) as' = filter (live ns) as \<and> set as' \<subseteq> set as" if c: "chain ns p as" for p as
  proof -
    obtain bs where bs: "chain ns' p bs" "filter (live ns') bs = filter (live ns) as" "set bs \<subseteq> set as"
      using same_lists_chain [OF a(1) c] by auto
    obtain cs where cs: "chain ns'' p cs" "filter (live ns'') cs = filter (live ns') bs" "set cs \<subseteq> set bs"
      using same_lists_chain [OF a(2) bs(1)] by auto
    have "filter (live ns) cs = filter (live ns'') cs"
      using same_lists_live [OF a(1)] same_lists_live [OF a(2)] chain_bounds [OF c] bs(3) cs(3) a
      by (intro filter_live_cong) (auto simp: same_lists_def)
    with bs cs show ?thesis by (intro exI [of _ cs]) auto
  qed
  then show ?thesis using a by (auto simp: same_lists_def)
qed

lemma same_lists_denotes: "same_lists ns ns' \<Longrightarrow> denotes ns p xs \<Longrightarrow> denotes ns' p xs"
  by (auto simp: denotes_def dest!: same_lists_chain)

lemma denotes_None [simp]: "denotes ns None xs \<longleftrightarrow> xs = []"
  by (auto simp: denotes_def)

lemma denotes_unique: "denotes ns p xs \<Longrightarrow> denotes ns p ys \<Longrightarrow> xs = ys"
  by (auto simp: denotes_def dest: chain_unique)

lemma denotes_Some:
  "denotes ns (Some a) xs \<longleftrightarrow>
     a < length ns \<and> (\<exists>ys. denotes ns (fst (link_at ns a)) ys \<and> xs = (if live ns a then a # ys else ys))"
  by (auto simp: denotes_def chain_Some)

lemma denotes_live: "denotes ns p xs \<Longrightarrow> a \<in> set xs \<Longrightarrow> a < length ns \<and> live ns a"
  by (auto simp: denotes_def dest: chain_bounds)

lemma denotes_distinct: "denotes ns p xs \<Longrightarrow> distinct xs"
  by (auto simp: denotes_def dest: chain_distinct)

lemma denotes_ex: "heap_ok ns \<Longrightarrow> a < length ns \<Longrightarrow> \<exists>xs. denotes ns (Some a) xs"
  using heap_okD(2) [of ns a] by (auto simp: denotes_def chain_Some intro!: exI)

lemma head_filter_live: "head (filter (live ns) as) = head (dropWhile (is_deleted ns) as)"
  by (induction as) (auto simp: live_def)

lemma denotes_head: "denotes ns p xs \<Longrightarrow> denotes ns (head xs) xs"
proof -
  assume "denotes ns p xs"
  then obtain as where as: "chain ns p as" "xs = filter (live ns) as" by (auto simp: denotes_def)
  let ?rest = "dropWhile (is_deleted ns) as"
  have "chain ns (head ?rest) ?rest"
    using as(1) chain_append [of ns p "takeWhile (is_deleted ns) as" ?rest] by simp
  then show ?thesis unfolding as(2) head_filter_live by (auto simp: denotes_def filter_dropWhile_deleted)
qed

lemma next_ptr_denotes:
  assumes "heap_ok ns" "a < length ns" "denotes ns (fst (link_at ns a)) xs"
  shows "\<exists>t ns'. next_ptr ns a = Some ((head xs, t), ns') \<and> heap_ok ns' \<and> same_lists ns ns'"
proof -
  obtain as where as: "chain ns (fst (link_at ns a)) as" "xs = filter (live ns) as"
    using assms(3) by (auto simp: denotes_def)
  have "same_lists ns (skip_deleted ns a as)"
    using skip_deleted_chain [OF assms(2) as(1)] by (auto simp: same_lists_def)
  then show ?thesis
    using next_ptr_ok [OF assms(1,2) as(1)] skip_deleted_ok [OF assms(1,2) as(1)] as(2) by (auto simp: head_filter_live)
qed

text \<open>Changing the tag of one entry, and adding an entry in front of a list.\<close>

lemma set_tag_chain:
  "a < length ns \<Longrightarrow> chain (set_link ns a (fst (link_at ns a), t)) p as = chain ns p as"
  by (rule chain_cong) (auto simp: link_at_set_link)

lemma set_tag_live:
  "a < length ns \<Longrightarrow> live (set_link ns a (fst (link_at ns a), t)) b =
     (if b = a then t \<noteq> Second \<and> t \<noteq> Both else live ns b)"
  by (auto simp: live_def is_deleted_def link_at_set_link)

lemma set_tag_ok:
  assumes "heap_ok ns" "a < length ns" "t \<noteq> Both" "t = Second \<or> live ns a"
  shows "heap_ok (set_link ns a (fst (link_at ns a), t))"
  unfolding heap_ok_def
proof (intro allI impI conjI)
  let ?ns = "set_link ns a (fst (link_at ns a), t)"
  fix b assume "b < length ?ns"
  then have b: "b < length ns" by simp
  have "fst (link_at ?ns b) = fst (link_at ns b)" using assms(2) by (simp add: link_at_set_link)
  then show "\<exists>as. chain ?ns (fst (link_at ?ns b)) as"
    using heap_okD(2) [OF assms(1) b] set_tag_chain [OF assms(2)] by simp
  show "snd (link_at ?ns b) \<noteq> Both" using heap_okD(1) [OF assms(1) b] assms(2,3) by (simp add: link_at_set_link)
  show "instance_of (?ns ! b) \<noteq> None" if "live ?ns b"
    using that heap_okD(3) [OF assms(1) b] assms(2,4) by (auto simp: set_tag_live split: if_splits)
qed

lemma delete_self_ok:
  assumes "heap_ok ns" "a < length ns" "live ns a"
  shows "\<exists>ns'. delete_self ns a = (True, ns') \<and> heap_ok ns' \<and> length ns' = length ns \<and> is_deleted ns' a
      \<and> (\<forall>b. instance_of (ns' ! b) = instance_of (ns ! b))
      \<and> (\<forall>p xs. denotes ns p xs \<longrightarrow> denotes ns' p (filter (\<lambda>b. b \<noteq> a) xs))"
proof -
  let ?ns = "set_link ns a (fst (link_at ns a), Second)"
  have tag: "snd (link_at ns a) = TagNone \<or> snd (link_at ns a) = First"
    using assms(3) by (cases "snd (link_at ns a)") (auto simp: live_def is_deleted_def)
  have d: "denotes ?ns p (filter (\<lambda>b. b \<noteq> a) xs)" if "denotes ns p xs" for p xs
  proof -
    obtain as where as: "chain ns p as" "xs = filter (live ns) as" using \<open>denotes ns p xs\<close> by (auto simp: denotes_def)
    have "filter (live ?ns) as = filter (\<lambda>b. b \<noteq> a) xs"
      unfolding as(2) filter_filter using assms(2) by (intro filter_cong) (auto simp: set_tag_live)
    then show ?thesis using as(1) set_tag_chain [OF assms(2)] by (auto simp: denotes_def)
  qed
  have del: "is_deleted ?ns a" using assms(2) by (simp add: is_deleted_def link_at_set_link)
  show ?thesis using set_tag_ok [OF assms(1,2), of Second] tag d del
    by (auto simp: delete_self_def update_tag_if_simp)
qed

lemma delete_self_deleted: "is_deleted ns a \<Longrightarrow> delete_self ns a = (False, ns)"
  by (auto simp: delete_self_def update_tag_if_simp is_deleted_def)

section \<open>Writing the instance of an entry\<close>

lemma length_set_instance [simp]: "length (set_instance ns a v) = length ns"
  by (simp add: set_instance_def)

lemma link_at_set_instance [simp]: "link_at (set_instance ns a v) b = link_at ns b"
  by (cases "a < length ns"; cases "a = b") (auto simp: set_instance_def link_at_def list_update_beyond)

lemma instance_set_instance: "a < length ns \<Longrightarrow> instance_of (set_instance ns a v ! b) = (if b = a then Some v else instance_of (ns ! b))"
  by (simp add: set_instance_def nth_list_update)

lemma set_instance_live [simp]: "live (set_instance ns a v) = live ns"
  by (auto simp: live_def is_deleted_def fun_eq_iff)

lemma set_instance_chain [simp]: "chain (set_instance ns a v) p as = chain ns p as"
  by (rule chain_cong) simp_all

lemma set_instance_denotes [simp]: "denotes (set_instance ns a v) p xs = denotes ns p xs"
  by (simp add: denotes_def)

lemma set_instance_ok: "heap_ok ns \<Longrightarrow> a < length ns \<Longrightarrow> heap_ok (set_instance ns a v)"
  by (simp add: heap_ok_def instance_set_instance)

section \<open>New entries\<close>

lemma link_at_append: "a < length ns \<Longrightarrow> link_at (ns @ ms) a = link_at ns a"
  by (simp add: link_at_def nth_append)

lemma live_append: "a < length ns \<Longrightarrow> live (ns @ ms) a = live ns a"
  by (simp add: live_def is_deleted_def link_at_append)

lemma chain_extend: "chain ns p as \<Longrightarrow> chain (ns @ ms) p as"
  by (induction as arbitrary: p) (auto simp: link_at_append)

text \<open>A heap that has one more entry, and everything else as before.\<close>

definition extends :: "'a nodes \<Rightarrow> 'a nodes \<Rightarrow> bool" where
  "extends ns ns' \<longleftrightarrow>
     length ns \<le> length ns' \<and> (\<forall>a<length ns. instance_of (ns' ! a) = instance_of (ns ! a))
     \<and> (\<forall>p xs. denotes ns p xs \<longrightarrow> denotes ns' p xs)"

lemma extends_refl [simp]: "extends ns ns"
  by (simp add: extends_def)

lemma same_lists_extends: "same_lists ns ns' \<Longrightarrow> extends ns ns'"
  using same_lists_denotes by (auto simp: extends_def same_lists_def)

lemma extends_trans: "extends ns ns' \<Longrightarrow> extends ns' ns'' \<Longrightarrow> extends ns ns''"
  by (auto simp: extends_def)

lemma push_entry:
  fixes val :: 'a
  assumes "heap_ok ns" "denotes ns p xs"
  defines "ns' \<equiv> set_link (ns @ [entry_new val]) (length ns) (p, TagNone)"
  shows "heap_ok ns'" "extends ns ns'" "denotes ns' (Some (length ns)) (length ns # xs)"
    "instance_of (ns' ! length ns) = Some val" "length ns' = Suc (length ns)"
proof -
  have link: "link_at ns' a = (if a = length ns then (p, TagNone) else link_at ns a)" if "a \<le> length ns" for a
    using that by (simp add: ns'_def link_at_set_link link_at_append)
  have live: "live ns' a = live ns a" if "a < length ns" for a
    using that by (simp add: live_def is_deleted_def link)
  have chain: "chain ns' q as" if "chain ns q as" for q as
    using chain_extend [OF that, of "[entry_new val]"] chain_bounds [OF that]
    by (subst chain_cong [of ns' "ns @ [entry_new val]"]) (auto simp: ns'_def link_at_set_link)
  have den: "denotes ns' q ys" if "denotes ns q ys" for q ys
  proof -
    from that obtain as where as: "chain ns q as" "filter (live ns) as = ys" by (auto simp: denotes_def)
    then have "filter (live ns') as = ys" using live chain_bounds [OF as(1)] filter_live_cong [of as ns' ns] by auto
    then show ?thesis using chain [OF as(1)] by (auto simp: denotes_def)
  qed
  show len: "length ns' = Suc (length ns)" by (simp add: ns'_def)
  show inst: "instance_of (ns' ! length ns) = Some val" by (simp add: ns'_def entry_new_def)
  have old: "instance_of (ns' ! a) = instance_of (ns ! a)" if "a < length ns" for a
    using that by (simp add: ns'_def nth_append)
  show "extends ns ns'" using den len old by (simp add: extends_def)
  show "denotes ns' (Some (length ns)) (length ns # xs)"
    using den [OF assms(2)] len by (simp add: denotes_Some link live_def is_deleted_def)
  have "\<exists>as. chain ns' p as" using assms(2) chain by (auto simp: denotes_def)
  moreover have "\<exists>as. chain ns' (fst (link_at ns a)) as" if "a < length ns" for a
    using heap_okD(2) [OF assms(1) that] chain by blast
  ultimately show "heap_ok ns'"
    unfolding heap_ok_def using heap_okD(1,3) [OF assms(1)] len inst old live
    by (auto simp: less_Suc_eq link)
qed

text \<open>\<^verbatim>\<open>push_back\<close> of an entry that is in no list.\<close>

lemma push_back_ok:
  assumes "heap_ok ns" "self < length ns" "entry < length ns" "self \<noteq> entry" "live ns entry"
    "\<forall>b<length ns. fst (link_at ns b) \<noteq> Some entry" "chain ns (fst (link_at ns self)) as"
  shows "is_deleted ns self \<Longrightarrow> push_back ns self entry mark = Some (Inl entry, ns)"
    and "live ns self \<Longrightarrow> \<exists>ns'. push_back ns self entry mark = Some (Inr (Some entry, if mark then First else TagNone), ns')
      \<and> heap_ok ns' \<and> link_at ns' self = (Some entry, if mark then First else TagNone)
      \<and> chain ns' (fst (link_at ns' self)) (entry # as)"
proof -
  show "is_deleted ns self \<Longrightarrow> push_back ns self entry mark = Some (Inl entry, ns)"
    by (auto simp: push_back_def push_back_loop.simps [of ns self] is_deleted_def)
  assume l: "live ns self"
  let ?t = "if mark then First else TagNone"
  let ?ns = "set_link (set_link ns entry (fst (link_at ns self), TagNone)) self (Some entry, ?t)"
  have link: "link_at ?ns b = (if b = self then (Some entry, ?t) else if b = entry then (fst (link_at ns self), TagNone) else link_at ns b)" for b
    using assms(2,3) by (simp add: link_at_set_link)
  have inner: "entry \<notin> set bs" if "chain ns p bs" "p \<noteq> Some entry" for p bs
    using that assms(6) by (induction bs arbitrary: p) auto
  have as: "entry \<notin> set as" "self \<notin> set as"
    using inner [OF assms(7)] assms(2,6,7) chain_not_in_tail by auto
  have "chain ?ns (fst (link_at ns self)) as"
    using assms(7) as by (subst chain_cong [of ?ns ns]) (auto simp: link)
  then have tail: "chain ?ns (Some entry) (entry # as)" using assms(3,4) by (simp add: link)
  have reach: "\<exists>cs. chain ?ns p cs" if "chain ns p bs" "p \<noteq> Some entry" for p bs
    using that
  proof (induction bs arbitrary: p)
    case (Cons b bs)
    show ?case
    proof (cases "b = self")
      case True
      then show ?thesis using Cons.prems tail assms(2) by (intro exI [of _ "b # entry # as"]) (simp add: link)
    next
      case False
      then obtain cs where "chain ?ns (fst (link_at ns b)) cs" using Cons assms(6) by auto
      then show ?thesis using Cons.prems False by (intro exI [of _ "b # cs"]) (simp add: link)
    qed
  qed auto
  have "heap_ok ?ns" unfolding heap_ok_def
  proof (intro allI impI conjI)
    fix b assume "b < length ?ns"
    then have b: "b < length ns" by simp
    show "snd (link_at ?ns b) \<noteq> Both" using heap_okD(1) [OF assms(1) b] by (simp add: link)
    have "\<exists>cs. chain ?ns (fst (link_at ns c)) cs" if "c < length ns" for c
      using heap_okD(2) [OF assms(1) that] reach assms(6) that by blast
    then show "\<exists>as. chain ?ns (fst (link_at ?ns b)) as"
      using exI [of "chain ?ns (Some entry)", OF tail] assms(2,4) b
      by (cases "b = self"; cases "b = entry") (simp_all add: link del: chain.simps)
    show "instance_of (?ns ! b) \<noteq> None" if "live ?ns b"
      using that heap_okD(3) [OF assms(1) b] l assms(5) by (auto simp: live_def is_deleted_def link split: if_splits)
  qed
  moreover have "push_back ns self entry mark = Some (Inr (Some entry, ?t), ?ns)"
    using l assms(2-4)
    by (simp add: push_back_def push_back_loop.simps [of ns self] live_def is_deleted_def cas_link_ok link_at_set_link)
  ultimately show "\<exists>ns'. push_back ns self entry mark = Some (Inr (Some entry, ?t), ns')
      \<and> heap_ok ns' \<and> link_at ns' self = (Some entry, ?t) \<and> chain ns' (fst (link_at ns' self)) (entry # as)"
    using tail by (auto simp: link)
qed

text \<open>A new entry behind the last entry \<open>a\<close> of a list.\<close>

lemma append_entry:
  fixes val :: 'a
  assumes "heap_ok ns" "a < length ns" "link_at ns a = (None, TagNone)"
  defines "ns' \<equiv> set_link (ns @ [entry_new val]) a (Some (length ns), TagNone)"
  shows "heap_ok ns'" "length ns' = Suc (length ns)"
    "\<And>b. b < length ns \<Longrightarrow> live ns' b = live ns b" "live ns' (length ns)"
    "\<And>b. b < length ns \<Longrightarrow> instance_of (ns' ! b) = instance_of (ns ! b)" "instance_of (ns' ! length ns) = Some val"
    "link_at ns' (length ns) = (None, TagNone)" "\<And>b. b < length ns \<Longrightarrow> b \<noteq> a \<Longrightarrow> link_at ns' b = link_at ns b"
    "\<And>p as. chain ns p as \<Longrightarrow> chain ns' p (if a \<in> set as then as @ [length ns] else as)"
proof -
  have link: "link_at ns' b = (if b = a then (Some (length ns), TagNone) else if b = length ns then (None, TagNone) else link_at ns b)"
    if "b \<le> length ns" for b
    using that assms(2) by (auto simp: ns'_def link_at_set_link link_at_append) (simp add: link_at_def entry_new_def)
  show len: "length ns' = Suc (length ns)" by (simp add: ns'_def)
  show new: "link_at ns' (length ns) = (None, TagNone)" using assms(2) by (simp add: link)
  show old: "\<And>b. b < length ns \<Longrightarrow> b \<noteq> a \<Longrightarrow> link_at ns' b = link_at ns b" by (simp add: link)
  show live: "live ns' b = live ns b" if "b < length ns" for b
    using that assms(3) by (cases "b = a") (simp_all add: live_def is_deleted_def link)
  show "live ns' (length ns)" using new by (simp add: live_def is_deleted_def)
  show inst: "instance_of (ns' ! b) = instance_of (ns ! b)" if "b < length ns" for b
    using that by (simp add: ns'_def nth_append)
  show inst': "instance_of (ns' ! length ns) = Some val" by (simp add: ns'_def entry_new_def)
  show ch: "chain ns' p (if a \<in> set as then as @ [length ns] else as)" if "chain ns p as" for p as
    using that
  proof (induction as arbitrary: p)
    case (Cons b bs)
    show ?case
    proof (cases "b = a")
      case True
      then have "bs = []" using Cons.prems assms(3) by simp
      then show ?thesis using True Cons.prems len assms(2) by (simp add: link)
    next
      case False
      have "chain ns' (fst (link_at ns b)) (if a \<in> set bs then bs @ [length ns] else bs)"
        using Cons.prems by (intro Cons.IH) simp
      then show ?thesis using False Cons.prems len by (auto simp: old)
    qed
  qed simp
  show "heap_ok ns'" unfolding heap_ok_def
  proof (intro allI impI conjI)
    fix b assume "b < length ns'"
    then have b: "b < length ns \<or> b = length ns" using len by auto
    then show "snd (link_at ns' b) \<noteq> Both" using heap_okD(1) [OF assms(1)] new assms(2) by (auto simp: link split: if_splits)
    show "\<exists>as. chain ns' (fst (link_at ns' b)) as"
    proof (cases "b = a")
      case True
      then show ?thesis using new len assms(2) by (intro exI [of _ "[length ns]"]) (simp add: link)
    next
      case False
      then show ?thesis using b new old heap_okD(2) [OF assms(1)] ch by (metis chain_None fst_conv)
    qed
    show "instance_of (ns' ! b) \<noteq> None" if "live ns' b"
      using that b inst inst' heap_okD(3) [OF assms(1)] live by auto
  qed
qed

end
