(* ===== verification/Sequence_Container.thy ===== *)
theory Sequence_Container
  imports Main
begin

text \<open>
  The interface of a container that hands its values out one by one: the stack and the queue. A state
  \<open>represents\<close> the list of values in the order in which they will be popped; \<open>add\<close> is where a push puts
  a value, in front for the stack and at the end for the queue. The operations return \<^term>\<open>None\<close> when
  they do not return.
\<close>

datatype 'a container_op = Push 'a | Pop

text \<open>The answers of a sequence of operations on a list, and on a container.\<close>

fun list_answers :: "('a \<Rightarrow> 'a list \<Rightarrow> 'a list) \<Rightarrow> 'a list \<Rightarrow> 'a container_op list \<Rightarrow> 'a option list" where
  "list_answers add vs [] = []"
| "list_answers add vs (Push v # ops) = list_answers add (add v vs) ops"
| "list_answers add [] (Pop # ops) = None # list_answers add [] ops"
| "list_answers add (v # vs) (Pop # ops) = Some v # list_answers add vs ops"

fun container_answers ::
    "('a \<Rightarrow> 's \<Rightarrow> 's option) \<Rightarrow> ('s \<Rightarrow> ('a option \<times> 's) option) \<Rightarrow> 's \<Rightarrow> 'a container_op list \<Rightarrow> 'a option list option" where
  "container_answers push pop s [] = Some []"
| "container_answers push pop s (Push v # ops) =
     (case push v s of None \<Rightarrow> None | Some s \<Rightarrow> container_answers push pop s ops)"
| "container_answers push pop s (Pop # ops) =
     (case pop s of None \<Rightarrow> None | Some (r, s) \<Rightarrow> map_option ((#) r) (container_answers push pop s ops))"

locale sequence_container =
  fixes represents :: "'s \<Rightarrow> 'a list \<Rightarrow> bool"
    and push :: "'a \<Rightarrow> 's \<Rightarrow> 's option"
    and pop :: "'s \<Rightarrow> ('a option \<times> 's) option"
    and add :: "'a \<Rightarrow> 'a list \<Rightarrow> 'a list"
  assumes push_law: "represents s vs \<Longrightarrow> \<exists>s'. push v s = Some s' \<and> represents s' (add v vs)"
    and pop_nil_law: "represents s [] \<Longrightarrow> \<exists>s'. pop s = Some (None, s') \<and> represents s' []"
    and pop_cons_law: "represents s (v # vs) \<Longrightarrow> \<exists>s'. pop s = Some (Some v, s') \<and> represents s' vs"
begin

lemma answers: "represents s vs \<Longrightarrow> container_answers push pop s ops = Some (list_answers add vs ops)"
proof (induction ops arbitrary: s vs)
  case (Cons op ops)
  show ?case
  proof (cases op)
    case (Push v)
    then show ?thesis using Cons push_law [of s vs v] by auto
  next
    case Pop
    then show ?thesis using Cons pop_nil_law [of s] pop_cons_law [of s] by (cases vs) fastforce+
  qed
qed simp

end

end
