(* ===== verification/Stack.thy ===== *)
theory Stack
  imports Linked_List Sequence_Container
begin

text \<open>
  The lock-free stack of \<^verbatim>\<open>src/stack.rs\<close>, run by one thread. A stack is the link \<^verbatim>\<open>newest\<close>; its entries
  are nodes of a heap that several stacks share, since \<^verbatim>\<open>pop_all\<close> moves the entries to another stack.
  An entry of the stack can be deleted at any time through the reference that \<^verbatim>\<open>push\<close> returns, so that
  every operation has to work on lists with deleted entries in any place.
\<close>

section \<open>The operations\<close>

definition entry_at :: "'a nodes \<Rightarrow> link \<Rightarrow> 'a node option" where
  "entry_at ns p = map_option (\<lambda>a. ns ! a) (fst p)"

text \<open>\<^verbatim>\<open>cleanup_newest\<close> returns the pointer to the newest entry that is not deleted.\<close>

partial_function (option) cleanup_newest :: "'a nodes \<Rightarrow> link \<Rightarrow> link \<Rightarrow> (link \<times> link \<times> 'a nodes) option" where
  "cleanup_newest ns newest newest_ptr =
     (case fst newest_ptr of
        None \<Rightarrow> Some (newest_ptr, newest, ns)
      | Some newest_entry \<Rightarrow>
          if is_deleted ns newest_entry
          then do {
            (next_valid, ns) \<leftarrow> next_ptr ns newest_entry;
            (case compare_exchange newest newest_ptr (fst next_valid, TagNone) of
               (newest, Inr _) \<Rightarrow> cleanup_newest ns newest (fst next_valid, TagNone)
             | (newest, Inl actual) \<Rightarrow> cleanup_newest ns newest actual)
          }
          else Some (newest_ptr, newest, ns))"

text \<open>The loop of \<^verbatim>\<open>push_if_internal\<close> with the new entry; \<^term>\<open>Inl\<close> hands the instance back.\<close>

partial_function (option) stack_push_loop ::
    "('a node option \<Rightarrow> bool) \<Rightarrow> addr \<Rightarrow> 'a nodes \<Rightarrow> link \<Rightarrow> link \<Rightarrow> (('a option + addr) \<times> link \<times> 'a nodes) option" where
  "stack_push_loop cond new_entry ns newest newest_ptr =
     (let ns = set_link ns new_entry (fst newest_ptr, TagNone)
      in case compare_exchange newest newest_ptr (Some new_entry, TagNone) of
           (newest, Inr _) \<Rightarrow> Some (Inr new_entry, newest, ns)
         | (newest, Inl actual) \<Rightarrow>
             do {
               (newest_ptr, newest, ns) \<leftarrow> cleanup_newest ns newest actual;
               if \<not> cond (entry_at ns newest_ptr)
               then let (val, ns) = take_inner ns new_entry in Some (Inl val, newest, ns)
               else stack_push_loop cond new_entry ns newest newest_ptr
             })"

definition stack_push_if_internal ::
    "('a node option \<Rightarrow> bool) \<Rightarrow> 'a \<Rightarrow> 'a nodes \<Rightarrow> link \<Rightarrow> (('a option + addr) \<times> link \<times> 'a nodes) option" where
  "stack_push_if_internal cond val ns newest =
     do {
       (newest_ptr, newest, ns) \<leftarrow> cleanup_newest ns newest newest;
       if \<not> cond (entry_at ns newest_ptr) then Some (Inl (Some val), newest, ns)
       else stack_push_loop cond (length ns) (ns @ [entry_new val]) newest newest_ptr
     }"

definition stack_push_if where
  "stack_push_if cond val ns newest = stack_push_if_internal cond val ns newest"

text \<open>\<^verbatim>\<open>push\<close> and \<^verbatim>\<open>push_unchecked\<close>: an error is unreachable.\<close>

definition stack_push :: "'a \<Rightarrow> 'a nodes \<Rightarrow> link \<Rightarrow> (addr \<times> link \<times> 'a nodes) option" where
  "stack_push val ns newest =
     do {
       (r, newest, ns) \<leftarrow> stack_push_if_internal (\<lambda>_. True) val ns newest;
       (case r of Inr entry \<Rightarrow> Some (entry, newest, ns) | Inl _ \<Rightarrow> None)
     }"

text \<open>\<^verbatim>\<open>pop_if\<close>: \<^term>\<open>Inl\<close> is the newest entry when the condition is not met.\<close>

partial_function (option) stack_pop_loop ::
    "('a node \<Rightarrow> bool) \<Rightarrow> 'a nodes \<Rightarrow> link \<Rightarrow> link \<Rightarrow> ((addr + addr option) \<times> link \<times> 'a nodes) option" where
  "stack_pop_loop cond ns newest newest_ptr =
     (case fst newest_ptr of
        None \<Rightarrow> Some (Inr None, newest, ns)
      | Some newest_entry \<Rightarrow>
          if \<not> is_deleted ns newest_entry \<and> \<not> cond (ns ! newest_entry) then Some (Inl newest_entry, newest, ns)
          else let (deleted, ns) = delete_self ns newest_entry
               in if deleted
                  then do { (_, newest, ns) \<leftarrow> cleanup_newest ns newest newest_ptr;
                            Some (Inr (Some newest_entry), newest, ns) }
                  else do { (newest_ptr, newest, ns) \<leftarrow> cleanup_newest ns newest newest_ptr;
                            stack_pop_loop cond ns newest newest_ptr })"

definition stack_pop_if ::
    "('a node \<Rightarrow> bool) \<Rightarrow> 'a nodes \<Rightarrow> link \<Rightarrow> ((addr + addr option) \<times> link \<times> 'a nodes) option" where
  "stack_pop_if cond ns newest =
     do { (newest_ptr, newest, ns) \<leftarrow> cleanup_newest ns newest newest; stack_pop_loop cond ns newest newest_ptr }"

definition stack_pop :: "'a nodes \<Rightarrow> link \<Rightarrow> (addr option \<times> link \<times> 'a nodes) option" where
  "stack_pop ns newest =
     do {
       (r, newest, ns) \<leftarrow> stack_pop_if (\<lambda>_. True) ns newest;
       (case r of Inr result \<Rightarrow> Some (result, newest, ns) | Inl _ \<Rightarrow> None)
     }"

text \<open>\<^verbatim>\<open>pop_all\<close>: the stack that is returned and the one that is left.\<close>

definition stack_pop_all :: "link \<Rightarrow> link \<times> link" where
  "stack_pop_all newest = ((fst newest, TagNone), (None, TagNone))"

definition stack_peek_with :: "('a node option \<Rightarrow> 'r) \<Rightarrow> 'a nodes \<Rightarrow> link \<Rightarrow> ('r \<times> link \<times> 'a nodes) option" where
  "stack_peek_with reader ns newest =
     do { (newest_ptr, newest, ns) \<leftarrow> cleanup_newest ns newest newest; Some (reader (entry_at ns newest_ptr), newest, ns) }"

definition stack_is_empty :: "'a nodes \<Rightarrow> link \<Rightarrow> (bool \<times> link \<times> 'a nodes) option" where
  "stack_is_empty ns newest =
     do { (newest_ptr, newest, ns) \<leftarrow> cleanup_newest ns newest newest; Some (fst newest_ptr = None, newest, ns) }"

text \<open>\<^verbatim>\<open>Iter\<close>: the pointer to the current entry. \<open>list_iter_rest\<close> calls \<^verbatim>\<open>next\<close> until it returns \<^verbatim>\<open>None\<close>.\<close>

definition stack_iter :: "'a nodes \<Rightarrow> link \<Rightarrow> (link \<times> link \<times> 'a nodes) option" where
  "stack_iter ns newest = cleanup_newest ns newest newest"

definition list_iter_next :: "'a nodes \<Rightarrow> link \<Rightarrow> (addr option \<times> link \<times> 'a nodes) option" where
  "list_iter_next ns current =
     (case fst current of
        None \<Rightarrow> Some (None, current, ns)
      | Some entry \<Rightarrow> do { (next_valid, ns) \<leftarrow> next_ptr ns entry; Some (Some entry, next_valid, ns) })"

partial_function (option) list_iter_rest :: "'a nodes \<Rightarrow> link \<Rightarrow> (addr list \<times> 'a nodes) option" where
  "list_iter_rest ns current =
     do {
       (item, current, ns) \<leftarrow> list_iter_next ns current;
       (case item of
          None \<Rightarrow> Some ([], ns)
        | Some entry \<Rightarrow> do { (entries, ns) \<leftarrow> list_iter_rest ns current; Some (entry # entries, ns) })
     }"

definition stack_len :: "'a nodes \<Rightarrow> link \<Rightarrow> (nat \<times> link \<times> 'a nodes) option" where
  "stack_len ns newest =
     do {
       (current, newest, ns) \<leftarrow> stack_iter ns newest;
       (entries, ns) \<leftarrow> list_iter_rest ns current;
       Some (length entries, newest, ns)
     }"

text \<open>
  \<^verbatim>\<open>clone\<close>: the link of the new stack. \<^term>\<open>None\<close> also when an entry without an instance is copied.
\<close>

partial_function (option) stack_clone_loop ::
    "'a nodes \<Rightarrow> link \<Rightarrow> link \<Rightarrow> addr option \<Rightarrow> (link \<times> 'a nodes) option" where
  "stack_clone_loop ns current clone_newest oldest =
     (case fst current of
        None \<Rightarrow> Some (clone_newest, ns)
      | Some entry \<Rightarrow>
          do {
            val \<leftarrow> instance_of (ns ! entry);
            let new_entry = length ns;
            let ns = ns @ [entry_new val];
            (case oldest of
               Some o_entry \<Rightarrow>
                 do { (current, ns) \<leftarrow> next_ptr (set_link ns o_entry (Some new_entry, TagNone)) entry;
                      stack_clone_loop ns current clone_newest (Some new_entry) }
             | None \<Rightarrow>
                 do { (current, ns) \<leftarrow> next_ptr ns entry;
                      stack_clone_loop ns current (Some new_entry, TagNone) (Some new_entry) })
          })"

definition stack_clone :: "'a nodes \<Rightarrow> link \<Rightarrow> (link \<times> 'a nodes) option" where
  "stack_clone ns newest = stack_clone_loop ns newest (None, TagNone) None"

declare cleanup_newest.simps [code] stack_push_loop.simps [code] stack_pop_loop.simps [code]
  list_iter_rest.simps [code] stack_clone_loop.simps [code]

section \<open>The stack as a list\<close>

text \<open>\<open>xs\<close> are the entries of the stack, the newest first; \<open>entry_values\<close> are their instances.\<close>

definition stack_ok :: "'a nodes \<Rightarrow> link \<Rightarrow> addr list \<Rightarrow> bool" where
  "stack_ok ns newest xs \<longleftrightarrow> heap_ok ns \<and> denotes ns (fst newest) xs \<and> snd newest = TagNone"

definition entry_values :: "'a nodes \<Rightarrow> addr list \<Rightarrow> 'a list" where
  "entry_values ns xs = map (\<lambda>a. the (instance_of (ns ! a))) xs"

text \<open>What a condition or a reader gets to see of an entry.\<close>

definition seen :: "'a node option \<Rightarrow> 'a option" where
  "seen e = Option.bind e instance_of"

definition first_value :: "'a nodes \<Rightarrow> addr list \<Rightarrow> 'a option" where
  "first_value ns xs = Option.bind (head xs) (\<lambda>a. instance_of (ns ! a))"

lemma extends_first_value:
  "extends ns ns' \<Longrightarrow> denotes ns p xs \<Longrightarrow> first_value ns' xs = first_value ns xs"
  by (cases xs) (auto simp: extends_def first_value_def dest: denotes_live)

lemma seen_entry_at: "seen (entry_at ns (head xs, t)) = first_value ns xs"
  by (cases xs) (auto simp: seen_def entry_at_def first_value_def)

lemma extends_values: "extends ns ns' \<Longrightarrow> denotes ns p xs \<Longrightarrow> entry_values ns' xs = entry_values ns xs"
  by (auto simp: extends_def entry_values_def dest: denotes_live)

lemma cleanup_newest_ok:
  assumes "stack_ok ns newest xs"
  shows "\<exists>ns'. cleanup_newest ns newest newest = Some ((head xs, TagNone), (head xs, TagNone), ns')
      \<and> stack_ok ns' (head xs, TagNone) xs \<and> same_lists ns ns'"
proof -
  have ok: "heap_ok ns" "denotes ns (fst newest) xs" "snd newest = TagNone" using assms by (simp_all add: stack_ok_def)
  have end_: "cleanup_newest ns' (head xs, TagNone) (head xs, TagNone) = Some ((head xs, TagNone), (head xs, TagNone), ns')
      \<and> stack_ok ns' (head xs, TagNone) xs"
    if "heap_ok ns'" "same_lists ns ns'" for ns'
  proof -
    have d: "denotes ns' (fst newest) xs" using same_lists_denotes [OF that(2) ok(2)] .
    then have "denotes ns' (head xs) xs" by (rule denotes_head)
    then show ?thesis using that d
      by (cases xs) (auto simp: cleanup_newest.simps [of ns'] stack_ok_def live_def dest: denotes_live)
  qed
  show ?thesis
  proof (cases "fst newest")
    case None
    then show ?thesis using ok assms by (simp add: cleanup_newest.simps [of ns newest] prod_eq_iff stack_ok_def)
  next
    case (Some a)
    then have a: "a < length ns" using ok(2) by (simp add: denotes_Some)
    show ?thesis
    proof (cases "is_deleted ns a")
      case False
      then have "head xs = Some a" using ok(2) Some by (auto simp: denotes_Some live_def)
      then show ?thesis using False Some ok by (auto simp: cleanup_newest.simps [of ns newest] prod_eq_iff stack_ok_def)
    next
      case True
      then have "denotes ns (fst (link_at ns a)) xs" using ok(2) Some by (auto simp: denotes_Some live_def)
      from next_ptr_denotes [OF ok(1) a this] obtain t ns' where
        n: "next_ptr ns a = Some ((head xs, t), ns')" "heap_ok ns'" "same_lists ns ns'" by blast
      then show ?thesis using end_ [OF n(2,3)] True Some
        by (auto simp: cleanup_newest.simps [of ns newest newest])
    qed
  qed
qed

lemma stack_push_if_ok:
  assumes "stack_ok ns newest xs"
  shows "\<exists>r newest' ns'. stack_push_if (\<lambda>e. c (seen e)) val ns newest = Some (r, newest', ns') \<and> extends ns ns'
     \<and> (if c (first_value ns xs)
        then \<exists>entry. r = Inr entry \<and> length ns \<le> entry \<and> instance_of (ns' ! entry) = Some val \<and> stack_ok ns' newest' (entry # xs)
        else r = Inl (Some val) \<and> stack_ok ns' newest' xs)"
proof -
  obtain ns1 where c: "cleanup_newest ns newest newest = Some ((head xs, TagNone), (head xs, TagNone), ns1)"
    "stack_ok ns1 (head xs, TagNone) xs" "same_lists ns ns1"
    using cleanup_newest_ok [OF assms] by blast
  have e1: "extends ns ns1" using c(3) by (rule same_lists_extends)
  have fv: "first_value ns1 xs = first_value ns xs"
    using extends_first_value [OF e1] assms by (auto simp: stack_ok_def)
  have ok1: "heap_ok ns1" "denotes ns1 (head xs) xs" using c(2) by (simp_all add: stack_ok_def)
  note pe = push_entry [OF ok1, where val = val]
  show ?thesis
  proof (cases "c (first_value ns xs)")
    case True
    have "length ns = length ns1" using c(3) by (simp add: same_lists_def)
    then show ?thesis using True c(1) pe extends_trans [OF e1 pe(2)]
      by (auto simp: stack_push_if_def stack_push_if_internal_def seen_entry_at fv stack_push_loop.simps [of _ "length ns1"] stack_ok_def)
  next
    case False
    then show ?thesis using c e1 by (auto simp: stack_push_if_def stack_push_if_internal_def seen_entry_at fv)
  qed
qed

lemma stack_push_ok:
  assumes "stack_ok ns newest xs"
  shows "\<exists>entry newest' ns'. stack_push val ns newest = Some (entry, newest', ns') \<and> extends ns ns'
     \<and> length ns \<le> entry \<and> instance_of (ns' ! entry) = Some val \<and> stack_ok ns' newest' (entry # xs)"
  using stack_push_if_ok [OF assms, of "\<lambda>_. True" val] by (auto simp: stack_push_def stack_push_if_def)

lemma stack_pop_if_ok:
  assumes "stack_ok ns newest xs"
  shows "\<exists>r newest' ns'. stack_pop_if (\<lambda>e. c (instance_of e)) ns newest = Some (r, newest', ns')
     \<and> length ns' = length ns \<and> (\<forall>a<length ns. instance_of (ns' ! a) = instance_of (ns ! a))
     \<and> (case xs of
          [] \<Rightarrow> r = Inr None \<and> stack_ok ns' newest' []
        | x # ys \<Rightarrow> if c (instance_of (ns ! x))
            then r = Inr (Some x) \<and> stack_ok ns' newest' ys
              \<and> (\<forall>p zs. denotes ns p zs \<longrightarrow> denotes ns' p (filter (\<lambda>a. a \<noteq> x) zs))
            else r = Inl x \<and> stack_ok ns' newest' xs \<and> extends ns ns')"
proof -
  obtain ns1 where c: "cleanup_newest ns newest newest = Some ((head xs, TagNone), (head xs, TagNone), ns1)"
    "stack_ok ns1 (head xs, TagNone) xs" "same_lists ns ns1"
    using cleanup_newest_ok [OF assms] by blast
  have len: "length ns1 = length ns" "\<forall>a<length ns. instance_of (ns1 ! a) = instance_of (ns ! a)"
    using c(3) by (auto simp: same_lists_def)
  show ?thesis
  proof (cases xs)
    case Nil
    then show ?thesis using c len by (auto simp: stack_pop_if_def stack_pop_loop.simps [of _ ns1])
  next
    case (Cons x ys)
    have x: "x < length ns1" "live ns1 x" "x \<notin> set ys"
      using c(2) Cons denotes_live [of ns1 "Some x" xs x] denotes_distinct [of ns1 "Some x" xs] by (auto simp: stack_ok_def)
    show ?thesis
    proof (cases "c (instance_of (ns ! x))")
      case False
      then show ?thesis using c len x Cons same_lists_extends [OF c(3)]
        by (auto simp: stack_pop_if_def stack_pop_loop.simps [of _ ns1] live_def)
    next
      case True
      obtain ns2 where d: "delete_self ns1 x = (True, ns2)" "heap_ok ns2" "length ns2 = length ns1" "is_deleted ns2 x"
          "\<forall>b. instance_of (ns2 ! b) = instance_of (ns1 ! b)"
          "\<And>p zs. denotes ns1 p zs \<Longrightarrow> denotes ns2 p (filter (\<lambda>b. b \<noteq> x) zs)"
        using delete_self_ok [of ns1 x] c(2) x by (auto simp: stack_ok_def)
      have "filter (\<lambda>b. b \<noteq> x) ys = ys" using x(3) by (auto simp: filter_id_conv)
      then have "denotes ns2 (Some x) ys" using d(6) [of "Some x" xs] c(2) Cons by (simp add: stack_ok_def)
      then have "stack_ok ns2 (Some x, TagNone) ys" using d(2) by (simp add: stack_ok_def)
      from cleanup_newest_ok [OF this] obtain ns3 where
        c3: "cleanup_newest ns2 (Some x, TagNone) (Some x, TagNone) = Some ((head ys, TagNone), (head ys, TagNone), ns3)"
          "stack_ok ns3 (head ys, TagNone) ys" "same_lists ns2 ns3" by blast
      have "denotes ns3 p (filter (\<lambda>a. a \<noteq> x) zs)" if "denotes ns p zs" for p zs
        using same_lists_denotes [OF c3(3)] d(6) same_lists_denotes [OF c(3) that] by blast
      then show ?thesis using c(1) c3 d len x True Cons
        by (auto simp: stack_pop_if_def stack_pop_loop.simps [of _ ns1] live_def same_lists_def)
    qed
  qed
qed

lemma list_iter_rest_ok:
  assumes "heap_ok ns" "denotes ns p xs" "p = head xs"
  shows "\<exists>ns'. list_iter_rest ns (p, t) = Some (xs, ns') \<and> heap_ok ns' \<and> same_lists ns ns'"
  using assms
proof (induction xs arbitrary: ns p t)
  case Nil
  then show ?case by (simp add: list_iter_rest.simps [of ns] list_iter_next_def)
next
  case (Cons x xs)
  have x: "x < length ns" "denotes ns (fst (link_at ns x)) xs"
    using Cons.prems denotes_live [OF Cons.prems(2)] by (auto simp: denotes_Some split: if_splits)
  obtain t' ns1 where n: "next_ptr ns x = Some ((head xs, t'), ns1)" "heap_ok ns1" "same_lists ns ns1"
    using next_ptr_denotes [OF Cons.prems(1) x] by blast
  have "denotes ns1 (head xs) xs" using same_lists_denotes [OF n(3) x(2)] by (rule denotes_head)
  from Cons.IH [OF n(2) this refl] obtain ns2 where
    "list_iter_rest ns1 (head xs, t') = Some (xs, ns2)" "heap_ok ns2" "same_lists ns1 ns2" by blast
  then show ?case using n Cons.prems(3) same_lists_trans [OF n(3)]
    by (auto simp: list_iter_rest.simps [of ns] list_iter_next_def)
qed

text \<open>A stack as a container: its state is the link and the heap of entries.\<close>

definition stack_represents :: "link \<times> 'a nodes \<Rightarrow> 'a list \<Rightarrow> bool" where
  "stack_represents s vs \<longleftrightarrow> (\<exists>xs. stack_ok (snd s) (fst s) xs \<and> entry_values (snd s) xs = vs)"

definition stack_push_value :: "'a \<Rightarrow> link \<times> 'a nodes \<Rightarrow> (link \<times> 'a nodes) option" where
  "stack_push_value v s = map_option (\<lambda>(_, newest, ns). (newest, ns)) (stack_push v (snd s) (fst s))"

definition stack_pop_value :: "link \<times> 'a nodes \<Rightarrow> ('a option \<times> link \<times> 'a nodes) option" where
  "stack_pop_value s =
     map_option (\<lambda>(r, newest, ns). (Option.bind r (\<lambda>a. instance_of (ns ! a)), newest, ns)) (stack_pop (snd s) (fst s))"

lemma stack_pop_ok:
  assumes "stack_ok ns newest xs"
  shows "\<exists>newest' ns'. stack_pop ns newest = Some (head xs, newest', ns') \<and> length ns' = length ns
     \<and> (\<forall>a<length ns. instance_of (ns' ! a) = instance_of (ns ! a)) \<and> stack_ok ns' newest' (tl xs)
     \<and> (\<forall>p zs. denotes ns p zs \<longrightarrow> set zs \<inter> set xs = {} \<longrightarrow> xs \<noteq> [] \<longrightarrow> denotes ns' p zs)"
proof -
  obtain r newest' ns' where r: "stack_pop_if (\<lambda>e. True) ns newest = Some (r, newest', ns')"
    "length ns' = length ns" "\<forall>a<length ns. instance_of (ns' ! a) = instance_of (ns ! a)"
    "case xs of [] \<Rightarrow> r = Inr None \<and> stack_ok ns' newest' []
        | x # ys \<Rightarrow> r = Inr (Some x) \<and> stack_ok ns' newest' ys
              \<and> (\<forall>p zs. denotes ns p zs \<longrightarrow> denotes ns' p (filter (\<lambda>a. a \<noteq> x) zs))"
    using stack_pop_if_ok [OF assms, of "\<lambda>_. True"] unfolding if_True by blast
  have "denotes ns' p zs" if "denotes ns p zs" "set zs \<inter> set (x # ys) = {}" "xs = x # ys" for p zs x ys
  proof -
    have "filter (\<lambda>a. a \<noteq> x) zs = zs" using that(2) by (auto simp: filter_id_conv)
    then show ?thesis using r(4) that(1,3) by force
  qed
  then show ?thesis using r by (cases xs) (auto simp: stack_pop_def)
qed

lemma stack_ok_value:
  "stack_ok ns newest xs \<Longrightarrow> x \<in> set xs \<Longrightarrow> instance_of (ns ! x) = Some (the (instance_of (ns ! x)))"
  using heap_okD(3) [of ns x] denotes_live [of ns "fst newest" xs x] by (auto simp: stack_ok_def)

lemma entry_values_cong:
  "(\<forall>a<length ns. instance_of (ns' ! a) = instance_of (ns ! a)) \<Longrightarrow> denotes ns p xs \<Longrightarrow> set ys \<subseteq> set xs
    \<Longrightarrow> entry_values ns' ys = entry_values ns ys"
  by (auto simp: entry_values_def dest!: denotes_live)

interpretation lifo: sequence_container stack_represents stack_push_value stack_pop_value "(#)"
proof
  fix s :: "link \<times> 'a nodes" and vs v
  assume "stack_represents s vs"
  then obtain xs where xs: "stack_ok (snd s) (fst s) xs" "entry_values (snd s) xs = vs" by (auto simp: stack_represents_def)
  obtain entry newest' ns' where p: "stack_push v (snd s) (fst s) = Some (entry, newest', ns')" "extends (snd s) ns'"
      "instance_of (ns' ! entry) = Some v" "stack_ok ns' newest' (entry # xs)"
    using stack_push_ok [OF xs(1), of v] by blast
  have "entry_values ns' xs = vs" using extends_values [OF p(2)] xs by (auto simp: stack_ok_def)
  then show "\<exists>s'. stack_push_value v s = Some s' \<and> stack_represents s' (v # vs)"
    using p by (auto simp: stack_push_value_def stack_represents_def entry_values_def)
next
  fix s :: "link \<times> 'a nodes"
  assume "stack_represents s []"
  then have "stack_ok (snd s) (fst s) []" by (auto simp: stack_represents_def entry_values_def)
  from stack_pop_ok [OF this] show "\<exists>s'. stack_pop_value s = Some (None, s') \<and> stack_represents s' []"
    by (auto simp: stack_pop_value_def stack_represents_def entry_values_def)
next
  fix s :: "link \<times> 'a nodes" and v vs
  assume "stack_represents s (v # vs)"
  then obtain x xs where xs: "stack_ok (snd s) (fst s) (x # xs)" "the (instance_of (snd s ! x)) = v"
      "entry_values (snd s) xs = vs"
    by (auto simp: stack_represents_def entry_values_def map_eq_Cons_conv)
  from stack_pop_ok [OF xs(1)] obtain newest' ns' where p: "stack_pop (snd s) (fst s) = Some (Some x, newest', ns')"
      "\<forall>a<length (snd s). instance_of (ns' ! a) = instance_of (snd s ! a)" "stack_ok ns' newest' xs"
    by auto
  have "x < length (snd s)" using xs(1) denotes_live [of "snd s" "fst (fst s)" "x # xs" x] by (simp add: stack_ok_def)
  then have "instance_of (ns' ! x) = Some v" using p(2) stack_ok_value [OF xs(1), of x] xs(2) by simp
  moreover have "entry_values ns' xs = vs"
    using entry_values_cong [OF p(2), of "fst (fst s)" "x # xs" xs] xs by (auto simp: stack_ok_def)
  ultimately show "\<exists>s'. stack_pop_value s = Some (Some v, s') \<and> stack_represents s' vs"
    using p by (auto simp: stack_pop_value_def stack_represents_def)
qed

lemma stack_ok_new: "stack_ok [] (None, TagNone) []"
  by (simp add: stack_ok_def heap_ok_def)

section \<open>Properties\<close>

text \<open>
  C12. Whatever entries of the heap have been deleted through their own references, any sequence of push
  and pop on a stack returns and gives the answers of a list in last-in-first-out order.
\<close>

theorem stack_refines_list:
  assumes "stack_represents s vs"
  shows "container_answers stack_push_value stack_pop_value s ops = Some (list_answers (#) vs ops)"
  using assms by (rule lifo.answers)

theorem stack_refines_list_witness:
  "container_answers stack_push_value stack_pop_value ((None, TagNone), []) [Push (3::nat), Push 1, Pop, Pop, Pop]
     = Some [Some 1, Some 3, None]"
proof -
  have "stack_represents ((None, TagNone), [] :: nat nodes) []"
    using stack_ok_new by (auto simp: stack_represents_def entry_values_def)
  from stack_refines_list [OF this, of "[Push 3, Push 1, Pop, Pop, Pop]"] show ?thesis
    by (simp del: container_answers.simps)
qed

text \<open>
  On a stack with any entries deleted, push_if and pop_if ask the condition about the newest live
  entry and act on it, len counts the live entries, is_empty holds exactly if there is none, the
  iterator visits each live entry once, the newest first, and pop_all moves all of them to the stack
  that it returns.
\<close>

theorem stack_operations:
  assumes "stack_ok ns newest xs"
  shows "(\<exists>r newest' ns'. stack_push_if (\<lambda>e. c (seen e)) val ns newest = Some (r, newest', ns') \<and>
            (if c (first_value ns xs) then \<exists>entry. r = Inr entry \<and> instance_of (ns' ! entry) = Some val
                \<and> stack_ok ns' newest' (entry # xs)
             else r = Inl (Some val) \<and> stack_ok ns' newest' xs)) \<and>
    (\<exists>r newest' ns'. stack_pop_if (\<lambda>e. d (instance_of e)) ns newest = Some (r, newest', ns') \<and>
       (case xs of [] \<Rightarrow> r = Inr None \<and> stack_ok ns' newest' []
        | x # ys \<Rightarrow> if d (instance_of (ns ! x)) then r = Inr (Some x) \<and> stack_ok ns' newest' ys
            else r = Inl x \<and> stack_ok ns' newest' xs)) \<and>
    (\<exists>newest' ns'. stack_len ns newest = Some (length xs, newest', ns') \<and> stack_ok ns' newest' xs) \<and>
    (\<exists>newest' ns'. stack_is_empty ns newest = Some (xs = [], newest', ns') \<and> stack_ok ns' newest' xs) \<and>
    (\<exists>current newest' ns' ns''. stack_iter ns newest = Some (current, newest', ns') \<and>
       list_iter_rest ns' current = Some (xs, ns'') \<and> stack_ok ns'' newest' xs) \<and>
    (\<exists>newest' ns'. stack_peek_with seen ns newest = Some (first_value ns xs, newest', ns') \<and> stack_ok ns' newest' xs) \<and>
    stack_ok ns (fst (stack_pop_all newest)) xs \<and> stack_ok ns (snd (stack_pop_all newest)) []"
proof -
  obtain ns1 where c: "cleanup_newest ns newest newest = Some ((head xs, TagNone), (head xs, TagNone), ns1)"
    "stack_ok ns1 (head xs, TagNone) xs" "same_lists ns ns1"
    using cleanup_newest_ok [OF assms] by blast
  obtain ns2 where i: "list_iter_rest ns1 (head xs, TagNone) = Some (xs, ns2)" "heap_ok ns2" "same_lists ns1 ns2"
    using list_iter_rest_ok [of ns1 "head xs" xs] c(2) by (auto simp: stack_ok_def)
  have ok2: "stack_ok ns2 (head xs, TagNone) xs" using c(2) i same_lists_denotes by (auto simp: stack_ok_def)
  have fv: "first_value ns1 xs = first_value ns xs"
    using extends_first_value [OF same_lists_extends [OF c(3)]] assms by (auto simp: stack_ok_def)
  have head: "head xs = None \<longleftrightarrow> xs = []" by (cases xs) auto
  show ?thesis
  proof (intro conjI)
    show "\<exists>r newest' ns'. stack_push_if (\<lambda>e. c (seen e)) val ns newest = Some (r, newest', ns') \<and>
            (if c (first_value ns xs) then \<exists>entry. r = Inr entry \<and> instance_of (ns' ! entry) = Some val
                \<and> stack_ok ns' newest' (entry # xs)
             else r = Inl (Some val) \<and> stack_ok ns' newest' xs)"
      using stack_push_if_ok [OF assms, of c val] by (cases "c (first_value ns xs)") auto
    show "\<exists>r newest' ns'. stack_pop_if (\<lambda>e. d (instance_of e)) ns newest = Some (r, newest', ns') \<and>
       (case xs of [] \<Rightarrow> r = Inr None \<and> stack_ok ns' newest' []
        | x # ys \<Rightarrow> if d (instance_of (ns ! x)) then r = Inr (Some x) \<and> stack_ok ns' newest' ys
            else r = Inl x \<and> stack_ok ns' newest' xs)"
      using stack_pop_if_ok [OF assms, of d] by (cases xs) (auto split: if_splits)
    show "\<exists>newest' ns'. stack_len ns newest = Some (length xs, newest', ns') \<and> stack_ok ns' newest' xs"
      using c i ok2 by (simp add: stack_len_def stack_iter_def)
    show "\<exists>newest' ns'. stack_is_empty ns newest = Some (xs = [], newest', ns') \<and> stack_ok ns' newest' xs"
      using c by (simp add: stack_is_empty_def head)
    show "\<exists>current newest' ns' ns''. stack_iter ns newest = Some (current, newest', ns') \<and>
       list_iter_rest ns' current = Some (xs, ns'') \<and> stack_ok ns'' newest' xs"
      using c i ok2 by (auto simp: stack_iter_def)
    show "\<exists>newest' ns'. stack_peek_with seen ns newest = Some (first_value ns xs, newest', ns') \<and> stack_ok ns' newest' xs"
      using c by (simp add: stack_peek_with_def seen_entry_at fv)
  qed (use assms in \<open>auto simp: stack_ok_def stack_pop_all_def\<close>)
qed

section \<open>Cloning\<close>

text \<open>
  The copies made so far: \<open>ys\<close>, with \<^verbatim>\<open>oldest\<close> the last of them; the source lies below \<open>n\<close>.
\<close>

definition clone_inv :: "nat \<Rightarrow> 'a nodes \<Rightarrow> link \<Rightarrow> addr option \<Rightarrow> addr list \<Rightarrow> bool" where
  "clone_inv n ns clone_newest oldest ys \<longleftrightarrow>
     heap_ok ns \<and> n \<le> length ns \<and> chain ns (fst clone_newest) ys \<and> snd clone_newest = TagNone
     \<and> (\<forall>y \<in> set ys. n \<le> y \<and> live ns y) \<and> oldest = (if ys = [] then None else Some (last ys))
     \<and> (ys \<noteq> [] \<longrightarrow> link_at ns (last ys) = (None, TagNone))"

lemma same_lists_live_chain:
  assumes "same_lists ns ns'" "chain ns p as" "\<forall>a \<in> set as. live ns a"
  shows "chain ns' p as"
proof -
  obtain as' where as': "chain ns' p as'" "filter (live ns) as' = filter (live ns) as" "set as' \<subseteq> set as"
    using assms(1,2) unfolding same_lists_def by blast
  have "filter (live ns) as' = as'" "filter (live ns) as = as"
    using as'(3) assms(3) by (auto simp: filter_id_conv)
  then show ?thesis using as'(1,2) by metis
qed

lemma clone_step:
  assumes "clone_inv n ns clone_newest oldest ys" "instance_of (ns ! a) = Some val" "a < n"
    "chain ns (fst (link_at ns a)) as" "\<forall>b \<in> set as. b < n"
  defines "ns1 \<equiv> ns @ [entry_new val]"
  defines "ns2 \<equiv> (case oldest of Some b \<Rightarrow> set_link ns1 b (Some (length ns), TagNone) | None \<Rightarrow> ns1)"
  defines "newest2 \<equiv> (if ys = [] then (Some (length ns), TagNone) else clone_newest)"
  shows "clone_inv n ns2 newest2 (Some (length ns)) (ys @ [length ns])" "link_at ns2 a = link_at ns a"
    "chain ns2 (fst (link_at ns a)) as" "filter (live ns2) as = filter (live ns) as"
    "\<forall>b<length ns. instance_of (ns2 ! b) = instance_of (ns ! b)" "instance_of (ns2 ! length ns) = Some val"
    "length ns2 = Suc (length ns)"
proof -
  have inv: "heap_ok ns" "n \<le> length ns" "chain ns (fst clone_newest) ys" "\<forall>y \<in> set ys. n \<le> y \<and> live ns y"
    "snd clone_newest = TagNone" "oldest = (if ys = [] then None else Some (last ys))"
    "ys \<noteq> [] \<Longrightarrow> link_at ns (last ys) = (None, TagNone)"
    using assms(1) by (simp_all add: clone_inv_def)
  have "clone_inv n ns2 newest2 (Some (length ns)) (ys @ [length ns]) \<and> link_at ns2 a = link_at ns a
    \<and> chain ns2 (fst (link_at ns a)) as \<and> filter (live ns2) as = filter (live ns) as
    \<and> (\<forall>b<length ns. instance_of (ns2 ! b) = instance_of (ns ! b)) \<and> instance_of (ns2 ! length ns) = Some val
    \<and> length ns2 = Suc (length ns)"
  proof (cases "ys = []")
    case True
    have eq: "ns2 = set_link (ns @ [entry_new val]) (length ns) (None, TagNone)"
      using True inv(6) by (simp add: ns2_def ns1_def set_link_def swap_link_def entry_new_def)
    note pe = push_entry [OF inv(1) denotes_None [THEN iffD2, OF refl], of val, folded eq]
    have link: "link_at ns2 b = (if b = length ns then (None, TagNone) else link_at ns b)" if "b \<le> length ns" for b
      using that by (simp add: eq link_at_set_link link_at_append)
    have "chain ns2 (fst (link_at ns a)) as"
      using chain_extend [OF assms(4), of "[entry_new val]"] chain_bounds [OF assms(4)]
      by (subst chain_cong [of ns2 ns1]) (auto simp: eq ns1_def link_at_set_link)
    moreover have "live ns2 b = live ns b" if "b < length ns" for b
      using that by (simp add: live_def is_deleted_def link)
    then have "filter (live ns2) as = filter (live ns) as"
      using chain_bounds [OF assms(4)] by (intro filter_live_cong) simp
    ultimately show ?thesis using True pe assms(3) inv(2)
      by (auto simp: clone_inv_def newest2_def link extends_def live_def is_deleted_def)
  next
    case False
    let ?b = "last ys"
    have b: "?b < length ns" "n \<le> ?b" "link_at ns ?b = (None, TagNone)"
      using False inv(3,4,7) chain_bounds [OF inv(3)] by auto
    have eq: "ns2 = set_link (ns @ [entry_new val]) ?b (Some (length ns), TagNone)"
      using False inv(6) by (simp add: ns2_def ns1_def)
    note ae = append_entry [OF inv(1) b(1,3), where val = val, folded eq]
    have "?b \<notin> set as" using assms(5) b(2) by auto
    then have "chain ns2 (fst (link_at ns a)) as" using ae(9) [OF assms(4)] by simp
    moreover have "chain ns2 (fst clone_newest) (ys @ [length ns])" using ae(9) [OF inv(3)] False by simp
    moreover have "filter (live ns2) as = filter (live ns) as"
      using chain_bounds [OF assms(4)] ae(3) by (intro filter_live_cong) auto
    moreover have "link_at ns2 a = link_at ns a" using ae(8) [of a] assms(3) b(2) inv(2) by auto
    moreover have "\<forall>y \<in> set (ys @ [length ns]). n \<le> y \<and> live ns2 y"
      using inv(2,4) ae(3,4) chain_bounds [OF inv(3)] by auto
    ultimately show ?thesis using False ae(1,2,5,6,7) inv(2,5) by (auto simp: clone_inv_def newest2_def)
  qed
  then show "clone_inv n ns2 newest2 (Some (length ns)) (ys @ [length ns])" "link_at ns2 a = link_at ns a"
    "chain ns2 (fst (link_at ns a)) as" "filter (live ns2) as = filter (live ns) as"
    "\<forall>b<length ns. instance_of (ns2 ! b) = instance_of (ns ! b)" "instance_of (ns2 ! length ns) = Some val"
    "length ns2 = Suc (length ns)" by blast+
qed

lemma clone_inv_same_lists:
  assumes "clone_inv n ns clone_newest oldest ys" "heap_ok ns'" "same_lists ns ns'"
  shows "clone_inv n ns' clone_newest oldest ys"
proof -
  have inv: "n \<le> length ns" "chain ns (fst clone_newest) ys" "\<forall>y \<in> set ys. n \<le> y \<and> live ns y"
    "ys \<noteq> [] \<Longrightarrow> link_at ns (last ys) = (None, TagNone)"
    using assms(1) by (simp_all add: clone_inv_def)
  have len: "length ns' = length ns" using assms(3) by (simp add: same_lists_def)
  have ch: "chain ns' (fst clone_newest) ys" using same_lists_live_chain [OF assms(3) inv(2)] inv(3) by simp
  have "link_at ns' (last ys) = (None, TagNone)" if "ys \<noteq> []"
  proof -
    have l: "last ys < length ns" using that chain_bounds [OF inv(2)] by simp
    have "chain ns' (Some (last ys)) [last ys]"
      using ch that chain_append [of ns' _ "butlast ys" "[last ys]"] by simp
    then have "fst (link_at ns' (last ys)) = None" by simp
    moreover have "snd (link_at ns' (last ys)) = TagNone"
      using assms(3) l inv(4) [OF that] by (simp add: same_lists_def)
    ultimately show ?thesis by (simp add: prod_eq_iff)
  qed
  moreover have "\<forall>y \<in> set ys. n \<le> y \<and> live ns' y"
    using inv(3) same_lists_live [OF assms(3)] chain_bounds [OF inv(2)] by simp
  ultimately show ?thesis using assms(1,2) ch len by (simp add: clone_inv_def)
qed

text \<open>One round of the loop: the heap and the links at its end.\<close>

lemma clone_round:
  assumes "clone_inv n ns clone_newest oldest ys" "a < n" "instance_of (ns ! a) \<noteq> None"
    "chain ns (fst (link_at ns a)) as" "\<forall>b \<in> set as. b < n"
  shows "\<exists>ns' cn t' as'. stack_clone_loop ns (Some a, t) clone_newest oldest
        = stack_clone_loop ns' (head (filter (live ns) as), t') cn (Some (length ns))
      \<and> clone_inv n ns' cn (Some (length ns)) (ys @ [length ns])
      \<and> chain ns' (head (filter (live ns) as)) as' \<and> set as' \<subseteq> set as \<and> filter (live ns') as' = filter (live ns) as
      \<and> (\<forall>b<length ns. instance_of (ns' ! b) = instance_of (ns ! b)) \<and> instance_of (ns' ! length ns) = instance_of (ns ! a)"
proof -
  obtain val where val: "instance_of (ns ! a) = Some val" using assms(3) by auto
  define ns2 where "ns2 = (case oldest of Some b \<Rightarrow> set_link (ns @ [entry_new val]) b (Some (length ns), TagNone)
     | None \<Rightarrow> ns @ [entry_new val])"
  define cn where "cn = (if ys = [] then (Some (length ns), TagNone) else clone_newest)"
  note step = clone_step [OF assms(1) val assms(2,4,5), folded ns2_def cn_def]
  have a: "a < length ns2" using assms(1,2) step(7) by (simp add: clone_inv_def)
  have h2: "heap_ok ns2" using step(1) by (simp add: clone_inv_def)
  have d: "denotes ns2 (fst (link_at ns2 a)) (filter (live ns) as)"
    using step(2,3,4) by (auto simp: denotes_def)
  obtain t' ns3 where n: "next_ptr ns2 a = Some ((head (filter (live ns) as), t'), ns3)" "heap_ok ns3" "same_lists ns2 ns3"
    using next_ptr_denotes [OF h2 a d] by blast
  let ?rest = "dropWhile (is_deleted ns2) as"
  have "chain ns2 (head ?rest) ?rest"
    using step(3) chain_append [of ns2 _ "takeWhile (is_deleted ns2) as" ?rest] by simp
  then have "chain ns2 (head (filter (live ns) as)) ?rest" by (simp add: head_filter_live [symmetric] step(4))
  from same_lists_chain [OF n(3) this] obtain as' where as': "chain ns3 (head (filter (live ns) as)) as'"
      "filter (live ns3) as' = filter (live ns) as" "set as' \<subseteq> set as"
    by (auto simp: filter_dropWhile_deleted step(4) dest: set_dropWhileD)
  have old: "oldest = (if ys = [] then None else Some (last ys))" using assms(1) by (simp add: clone_inv_def)
  have "stack_clone_loop ns (Some a, t) clone_newest oldest
      = stack_clone_loop ns3 (head (filter (live ns) as), t') cn (Some (length ns))"
    using val n(1) old by (auto simp: stack_clone_loop.simps [of ns "(Some a, t)"] ns2_def cn_def Let_def split: if_splits)
  moreover have "clone_inv n ns3 cn (Some (length ns)) (ys @ [length ns])"
    using clone_inv_same_lists [OF step(1) n(2,3)] .
  ultimately show ?thesis using as' step(5,6,7) n(3) val by (intro exI) (auto simp: same_lists_def)
qed

lemma stack_clone_loop_ok:
  assumes "clone_inv n ns clone_newest oldest ys" "a < n" "instance_of (ns ! a) \<noteq> None"
    "chain ns (fst (link_at ns a)) as" "\<forall>b \<in> set as. b < n" "filter (live ns) as = xs"
  shows "\<exists>cn ns' zs. stack_clone_loop ns (Some a, t) clone_newest oldest = Some (cn, ns')
      \<and> stack_ok ns' cn (ys @ zs) \<and> entry_values ns' (ys @ zs) = entry_values ns (ys @ a # xs)"
  using assms
proof (induction xs arbitrary: ns clone_newest oldest ys a as t)
  case Nil
  from clone_round [OF Nil(1-5), of t] Nil(6) obtain ns' cn t' where
    r: "stack_clone_loop ns (Some a, t) clone_newest oldest = stack_clone_loop ns' (None, t') cn (Some (length ns))"
      "clone_inv n ns' cn (Some (length ns)) (ys @ [length ns])"
      "\<forall>b<length ns. instance_of (ns' ! b) = instance_of (ns ! b)" "instance_of (ns' ! length ns) = instance_of (ns ! a)"
    by auto
  have "stack_ok ns' cn (ys @ [length ns])"
  proof -
    have "filter (live ns') (ys @ [length ns]) = ys @ [length ns]"
      using r(2) unfolding clone_inv_def by (intro filter_True) blast
    then show ?thesis using r(2) by (auto simp: stack_ok_def clone_inv_def denotes_def intro!: exI [of _ "ys @ [length ns]"])
  qed
  moreover have "entry_values ns' (ys @ [length ns]) = entry_values ns (ys @ [a])"
    using r(3,4) Nil(1) chain_bounds [of ns "fst clone_newest" ys] by (auto simp: entry_values_def clone_inv_def)
  ultimately show ?case using r(1) by (auto simp: stack_clone_loop.simps [of ns' "(None, t')"])
next
  case (Cons x xs)
  from clone_round [OF Cons(2-6), of t] Cons(7) obtain ns' cn t' as' where
    r: "stack_clone_loop ns (Some a, t) clone_newest oldest = stack_clone_loop ns' (Some x, t') cn (Some (length ns))"
      "clone_inv n ns' cn (Some (length ns)) (ys @ [length ns])"
      "chain ns' (Some x) as'" "set as' \<subseteq> set as" "filter (live ns') as' = x # xs"
      "\<forall>b<length ns. instance_of (ns' ! b) = instance_of (ns ! b)" "instance_of (ns' ! length ns) = instance_of (ns ! a)"
    by auto
  obtain bs where bs: "as' = x # bs" "chain ns' (fst (link_at ns' x)) bs" "x < length ns'" using r(3) by (auto simp: chain_Some)
  have x: "x < n" "\<forall>b \<in> set bs. b < n" using r(4) bs(1) Cons.prems(5) by auto
  have live: "live ns' x" using r(5) by (metis filter_eq_ConsD list.set_intros(1))
  then have xs: "filter (live ns') bs = xs" using r(5) bs(1) by simp
  have "instance_of (ns' ! x) \<noteq> None" using r(2) live bs(3) heap_okD(3) by (auto simp: clone_inv_def)
  from Cons.IH [OF r(2) x(1) this bs(2) x(2) xs] obtain cn' ns'' zs where
    "stack_clone_loop ns' (Some x, t') cn (Some (length ns)) = Some (cn', ns'')"
    "stack_ok ns'' cn' ((ys @ [length ns]) @ zs)"
    "entry_values ns'' ((ys @ [length ns]) @ zs) = entry_values ns' ((ys @ [length ns]) @ x # xs)" by blast
  moreover have "set (ys @ x # xs) \<subseteq> {..<length ns}"
  proof -
    have "n \<le> length ns" using Cons.prems(1) by (simp add: clone_inv_def)
    moreover have "\<forall>b \<in> set xs. b < n" using xs x(2) by (metis filter_is_subset subsetD)
    ultimately have "\<forall>b \<in> set xs. b < length ns" using order_less_le_trans by blast
    then show ?thesis using x Cons.prems(1) chain_bounds [of ns "fst clone_newest" ys] by (auto simp: clone_inv_def)
  qed
  then have "entry_values ns' ((ys @ [length ns]) @ x # xs) = entry_values ns (ys @ a # x # xs)"
    using r(6,7) by (auto simp: entry_values_def)
  ultimately show ?case using r(1) by (intro exI [of _ cn'] exI [of _ ns''] exI [of _ "length ns # zs"]) simp
qed

text \<open>
  C14. clone copies the newest entry also if it has been deleted through its own reference: the copy of a
  stack holds the instance of the entry that newest points to and those of the live entries behind
  it. A stack with a single deleted entry is empty and its copy is not.
\<close>

theorem stack_clone_copies_newest:
  assumes "stack_ok ns (Some a, TagNone) xs" "instance_of (ns ! a) \<noteq> None"
  shows "\<exists>newest' ns' zs. stack_clone ns (Some a, TagNone) = Some (newest', ns') \<and> stack_ok ns' newest' zs \<and>
     entry_values ns' zs = (if is_deleted ns a then entry_values ns (a # xs) else entry_values ns xs)"
proof -
  have a: "a < length ns" using assms(1) by (simp add: stack_ok_def denotes_Some)
  have ok: "heap_ok ns" using assms(1) by (simp add: stack_ok_def)
  obtain as where as: "chain ns (fst (link_at ns a)) as" using heap_okD(2) [OF ok a] by blast
  let ?xs = "filter (live ns) as"
  have xs: "xs = (if is_deleted ns a then ?xs else a # ?xs)"
  proof -
    have "denotes ns (Some a) (if is_deleted ns a then ?xs else a # ?xs)"
      using as a unfolding denotes_def by (intro exI [of _ "a # as"]) (auto simp: live_def)
    then show ?thesis using assms(1) denotes_unique [of ns "Some a"] by (simp add: stack_ok_def)
  qed
  have inv: "clone_inv (length ns) ns (None, TagNone) None []" using ok by (simp add: clone_inv_def)
  have "\<forall>b \<in> set as. b < length ns" using chain_bounds [OF as] by blast
  from stack_clone_loop_ok [OF inv a assms(2) as this refl]
  obtain cn ns' zs where "stack_clone_loop ns (Some a, TagNone) (None, TagNone) None = Some (cn, ns')"
      "stack_ok ns' cn zs" "entry_values ns' zs = entry_values ns (a # ?xs)" by fastforce
  then show ?thesis using xs by (auto simp: stack_clone_def)
qed

theorem stack_clone_copies_newest_witness:
  "\<exists>newest' ns' zs. stack_is_empty [\<lparr>instance_of = Some (7::nat), link_of = (None, Second)\<rparr>] (Some 0, TagNone)
       = Some (True, (None, TagNone), [\<lparr>instance_of = Some 7, link_of = (None, Second)\<rparr>]) \<and>
     stack_clone [\<lparr>instance_of = Some (7::nat), link_of = (None, Second)\<rparr>] (Some 0, TagNone) = Some (newest', ns') \<and>
     stack_ok ns' newest' zs \<and> entry_values ns' zs = [7]"
proof -
  let ?ns = "[\<lparr>instance_of = Some 7, link_of = (None, Second)\<rparr>] :: nat nodes"
  have ok: "stack_ok ?ns (Some 0, TagNone) []"
    by (auto simp: stack_ok_def heap_ok_def denotes_Some link_at_def live_def is_deleted_def)
  have "stack_is_empty ?ns (Some 0, TagNone) = Some (True, (None, TagNone), ?ns)" by code_simp
  then show ?thesis
    using stack_clone_copies_newest [OF ok] by (auto simp: entry_values_def is_deleted_def link_at_def)
qed

text \<open>A stack of three entries whose newest and oldest have been deleted.\<close>

theorem stack_operations_witness:
  "\<exists>newest' ns'. stack_len [\<lparr>instance_of = Some (1::nat), link_of = (None, Second)\<rparr>,
        \<lparr>instance_of = Some 2, link_of = (Some 0, TagNone)\<rparr>, \<lparr>instance_of = Some 3, link_of = (Some 1, Second)\<rparr>]
       (Some 2, TagNone) = Some (1, newest', ns')"
proof -
  let ?ns = "[\<lparr>instance_of = Some 1, link_of = (None, Second)\<rparr>, \<lparr>instance_of = Some 2, link_of = (Some 0, TagNone)\<rparr>,
      \<lparr>instance_of = Some 3, link_of = (Some 1, Second)\<rparr>] :: nat nodes"
  have "heap_ok ?ns"
    by (auto simp: heap_ok_def live_def is_deleted_def link_at_def less_Suc_eq numeral_3_eq_3 chain_Some)
  then have "stack_ok ?ns (Some 2, TagNone) [1]"
    by (auto simp: stack_ok_def denotes_Some link_at_def live_def is_deleted_def)
  from stack_operations [OF this, of "\<lambda>_. True" 0 "\<lambda>_. True"] show ?thesis by auto
qed

end
