(* ===== verification/Bag.thy ===== *)
theory Bag
  imports Bag_Steps Stack
begin

text \<open>
  The bag of \<^verbatim>\<open>src/bag.rs\<close>, run by one thread: a primary array and a stack of further arrays. The arrays
  on the stack are the instances of the entries of \<open>Linked_List\<close>; an array that a pop leaves empty is
  deleted from the stack. The concurrent operations on one array are in \<open>Bag_Steps\<close>.
\<close>

section \<open>Arrays that no thread works on\<close>

definition quiet :: "nat \<Rightarrow> 'a storage \<Rightarrow> bool" where
  "quiet n st \<longleftrightarrow> storage_ok n st \<and> (\<forall>i<n. \<not> bit (metadata st) i)"

lemma quiet_new: "n \<le> 32 \<Longrightarrow> quiet n (storage_new n) \<and> contents n (storage_new n) = {#}"
  by (simp add: quiet_def storage_ok_new contents_empty_iff available_def) (simp add: storage_new_def)

lemma quiet_with_val:
  assumes "n \<le> 32" "0 < n"
  shows "\<exists>st. with_val n v = Some st \<and> quiet n st \<and> contents n st = {#v#}"
proof -
  let ?st = "\<lparr>slots = (replicate n None)[0 := Some v], metadata = shl1 n\<rparr>"
  have w: "with_val n v = Some ?st" using assms by (simp add: with_val_def)
  have "available n (shl1 n) = {0}" using assms by (auto simp: available_def bitmap_simps)
  then show ?thesis using w storage_ok_with_val [OF assms(1) w] assms
    by (auto simp: quiet_def contents_def bitmap_simps)
qed

lemma quiet_wf: "quiet n st \<Longrightarrow> wf_metadata n (metadata st) \<and> n \<le> 32 \<and> length (slots st) = n"
  by (auto simp: quiet_def storage_ok_def wf_metadata_def)

lemma quiet_available: "quiet n st \<Longrightarrow> i \<in> available n (metadata st) \<longleftrightarrow> i < n \<and> bit (metadata st) (n + i)"
  by (auto simp: quiet_def available_def)

lemma quiet_no_instance:
  "quiet n st \<Longrightarrow> instance_bitmap n (metadata st) = 0 \<longleftrightarrow> contents n st = {#}"
proof -
  assume q: "quiet n st"
  have "bit (instance_bitmap n (metadata st)) i \<longleftrightarrow> i \<in> available n (metadata st)" for i
    using quiet_available [OF q] quiet_wf [OF q] by (auto simp: bit_instance_bitmap wf_metadata_def)
  then show ?thesis using bit_eq_iff [of "instance_bitmap n (metadata st)" 0] by (auto simp: contents_empty_iff)
qed

lemma contents_size: "size (contents n st) = card (available n (metadata st))"
  by (simp add: contents_def)

lemma storage_len_ok: "wf_metadata n (metadata st) \<Longrightarrow> storage_len n st = size (contents n st)"
proof -
  assume wf: "wf_metadata n (metadata st)"
  have "{i. bit (instance_bitmap n (metadata st) AND NOT (owned_bitmap n (metadata st))) i} = available n (metadata st)"
    using wf by (auto simp: available_def bitmap_simps wf_metadata_def)
  then show ?thesis by (simp add: storage_len_def count_ones_card contents_size)
qed

lemma quiet_len: "quiet n st \<Longrightarrow> storage_len n st = size (contents n st)"
  using quiet_wf [of n st] by (simp add: storage_len_ok)

lemma storage_push_ok:
  assumes "quiet n st"
  shows "case storage_push n v allow st of
      (None, st') \<Rightarrow> quiet n st' \<and> contents n st' = add_mset v (contents n st)
    | (Some w, st') \<Rightarrow> w = v \<and> st' = st \<and> (size (contents n st) = n \<or> \<not> allow \<and> contents n st = {#})"
proof (cases "push_slot n allow (metadata st)")
  case None
  have wf: "wf_metadata n (metadata st)" using quiet_wf [OF assms] by simp
  have "size (contents n st) = n" if "\<forall>i<n. bit (metadata st) (n + i) \<or> bit (metadata st) i"
  proof -
    have "available n (metadata st) = {..<n}" using that assms by (auto simp: available_def quiet_def)
    then show ?thesis by (simp add: contents_size)
  qed
  then show ?thesis using None push_slot_None [OF None wf] by (auto simp: storage_push_def contents_empty_iff)
next
  case (Some i)
  have wf: "wf_metadata n (metadata st)" "n \<le> 32" "length (slots st) = n" using quiet_wf [OF assms] by auto
  have i: "i < n" "\<not> bit (metadata st) (n + i)" "\<not> bit (metadata st) i" "allow \<or> available n (metadata st) \<noteq> {}"
    using push_slot_Some [OF Some wf(1)] by auto
  let ?m = "metadata st OR shl1 i"
  let ?st = "st\<lparr>slots := (slots st)[i := Some v], metadata := ?m\<rparr>"
  have notin: "i \<notin> available n (metadata st)" using i by (simp add: available_def)
  then have av: "available n ?m = available n (metadata st)" using available_own [OF i(1) wf(2)] by simp
  obtain new where new: "publish_metadata n allow i ?m = Some new"
    using publish_None [of n allow i ?m] wf_own [OF wf(1) i(1)] i(4) av by (cases "publish_metadata n allow i ?m") auto
  have b: "bit new j \<longleftrightarrow> bit (metadata st) j \<and> j \<noteq> i \<or> j = n + i" for j
    using bit_publish [OF new i(1) wf(2)] wf(2) i(1) by (auto simp: bitmap_simps)
  let ?st' = "?st\<lparr>metadata := new\<rparr>"
  have "available n new = insert i (available n (metadata st))" using i by (auto simp: available_def b)
  moreover have "slots ?st' ! j = slots st ! j" if "j \<in> available n (metadata st)" for j
    using that notin by (cases "j = i") simp_all
  ultimately have "contents n ?st' = contents n st + {#the (slots ?st' ! i)#}"
    using notin by (intro contents_insert) simp_all
  moreover have "storage_ok n ?st'"
    using assms i wf by (auto simp: quiet_def storage_ok_def wf_metadata_def b nth_list_update)
  moreover have "\<forall>j<n. \<not> bit new j" using assms by (auto simp: b quiet_def)
  ultimately show ?thesis using Some new i(1) wf(3) by (simp add: storage_push_def quiet_def)
qed

lemma storage_pop_ok:
  assumes "quiet n st"
  shows "case storage_pop n st of
      ((None, e), st') \<Rightarrow> contents n st = {#} \<and> st' = st \<and> e
    | ((Some v, e), st') \<Rightarrow> quiet n st' \<and> contents n st = add_mset v (contents n st') \<and> e = (contents n st' = {#})"
proof (cases "pop_slot n (metadata st)")
  case None
  have wf: "wf_metadata n (metadata st)" using quiet_wf [OF assms] by simp
  have av: "available n (metadata st) = {}" using pop_slot_None [OF None wf] .
  then show ?thesis using None quiet_no_instance [OF assms] by (simp add: storage_pop_def contents_empty_iff)
next
  case (Some i)
  have wf: "wf_metadata n (metadata st)" "n \<le> 32" "length (slots st) = n" using quiet_wf [OF assms] by auto
  have i: "i \<in> available n (metadata st)" using pop_slot_Some [OF Some] .
  then have i': "i < n" "bit (metadata st) (n + i)" by (auto simp: available_def)
  let ?m = "pop_metadata n i (metadata st OR shl1 i)"
  let ?st = "st\<lparr>metadata := ?m\<rparr>"
  have b: "bit ?m j \<longleftrightarrow> bit (metadata st) j \<and> j \<noteq> i \<and> j \<noteq> n + i" for j
    using i' wf(2) by (auto simp: bitmap_simps)
  have "available n (metadata st) = insert i (available n ?m)" "i \<notin> available n ?m"
    using i assms by (auto simp: available_def b quiet_def)
  then have c: "contents n st = contents n ?st + {#the (slots st ! i)#}" by (intro contents_insert) simp_all
  have q: "quiet n ?st" using assms by (auto simp: quiet_def storage_ok_def wf_metadata_def b)
  obtain v where v: "slots st ! i = Some v" using assms i' by (auto simp: quiet_def storage_ok_def)
  have "(instance_bitmap n ?m = 0) = (contents n ?st = {#})"
    using quiet_no_instance [OF q] by simp
  then show ?thesis using Some c q v by (simp add: storage_pop_def Let_def)
qed

lemma pop_all_read_loop_ok:
  assumes "n \<le> 32" "\<forall>i. bit insts i \<longrightarrow> i < n \<and> sl ! i \<noteq> None" "index < n \<longrightarrow> bit insts index"
  shows "\<exists>vs. pop_all_read_loop n f sl insts index acc = Some (foldl f acc vs)
     \<and> mset vs = image_mset (\<lambda>i. the (sl ! i)) (mset_set {i. bit insts i \<and> index \<le> i})"
  using assms
proof (induction n f sl insts index acc rule: pop_all_read_loop.induct)
  case (1 n f sl insts index acc)
  show ?case
  proof (cases "index < n")
    case False
    then have none: "{i. bit insts i \<and> index \<le> i} = {}" using 1(3) by force
    show ?thesis unfolding none using False by (intro exI [of _ "[]"]) (simp add: pop_all_read_loop.simps [of n])
  next
    case True
    then have i: "index < 32" "bit insts index" using 1(2,4) by auto
    then obtain v where v: "sl ! index = Some v" using 1(3) by auto
    have "next_to_pop insts index < n \<longrightarrow> bit insts (next_to_pop insts index)"
      using bit_next_to_pop [OF i(1)] 1(2) by auto
    then obtain vs where vs: "pop_all_read_loop n f sl insts (next_to_pop insts index) (f acc v) = Some (foldl f (f acc v) vs)"
        "mset vs = image_mset (\<lambda>i. the (sl ! i)) (mset_set {i. bit insts i \<and> next_to_pop insts index \<le> i})"
      using 1(1) [OF _ v] True i(1) 1(2,3) by auto
    have "finite {i. bit insts i \<and> next_to_pop insts index \<le> i}" "index \<notin> {i. bit insts i \<and> next_to_pop insts index \<le> i}"
      using next_to_pop_greater [OF i(1), of insts] finite_subset [OF _ finite_bits [of insts]] by auto
    then have "mset (v # vs) = image_mset (\<lambda>i. the (sl ! i)) (mset_set {i. bit insts i \<and> index \<le> i})"
      using vs(2) v by (subst later_instances [OF i]) simp
    then show ?thesis using vs(1) True i v by (intro exI [of _ "v # vs"]) (simp add: pop_all_read_loop.simps [of n f sl insts index])
  qed
qed

lemma storage_pop_all_ok:
  assumes "quiet n st"
  shows "\<exists>vs st'. storage_pop_all n acc f allow st = Some (foldl f acc vs, st') \<and> mset vs = contents n st
     \<and> quiet n st' \<and> contents n st' = {#}"
proof -
  let ?m = "metadata st" let ?insts = "instances_to_pop n ?m"
  have wf: "wf_metadata n ?m" "n \<le> 32" using quiet_wf [OF assms] by auto
  have ins: "bit ?insts i \<longleftrightarrow> i \<in> available n ?m" for i using instances_to_pop_available [OF wf(1)] .
  show ?thesis
  proof (cases "?insts = 0")
    case True
    then show ?thesis using assms instances_to_pop_0 [OF wf(1)]
      by (intro exI [of _ "[]"]) (simp add: storage_pop_all.simps [of n] contents_empty_iff)
  next
    case False
    have av: "\<forall>i. bit ?insts i \<longrightarrow> i < n \<and> slots st ! i \<noteq> None"
      using assms by (auto simp: ins available_def quiet_def storage_ok_def)
    have "trailing_zeros ?insts < n \<longrightarrow> bit ?insts (trailing_zeros ?insts)" using False by (simp add: bit_trailing_zeros)
    moreover have "{i. bit ?insts i \<and> trailing_zeros ?insts \<le> i} = available n ?m"
      using all_instances [of ?insts] ins by auto
    ultimately obtain vs where
      vs: "pop_all_read_loop n f (slots st) ?insts (trailing_zeros ?insts) acc = Some (foldl f acc vs)"
        "mset vs = contents n st"
      unfolding contents_def using pop_all_read_loop_ok [OF wf(2) av, of "trailing_zeros ?insts" f acc] by metis
    let ?new = "pop_all_metadata n ?insts (?m OR ?insts)"
    let ?st = "st\<lparr>metadata := ?new\<rparr>"
    have b: "bit ?new j \<Longrightarrow> bit ?m j" for j by (auto simp: bit_pop_all_metadata bit_or_iff)
    have q: "quiet n ?st" using assms b by (auto simp: quiet_def storage_ok_def wf_metadata_def)
    have z: "instances_to_pop n ?new = 0" by (rule instances_to_pop_cleared)
    then have "contents n ?st = {#}" using instances_to_pop_0 quiet_wf [OF q] by (simp add: contents_empty_iff)
    moreover have "storage_pop_all n x f False ?st = Some (x, ?st)" for x
      using z by (simp add: storage_pop_all.simps [of n x f False ?st])
    then have "storage_pop_all n acc f allow st = Some (foldl f acc vs, ?st)"
      using vs(1) False by (simp add: storage_pop_all.simps [of n acc f allow st] Let_def)
    ultimately show ?thesis using vs(2) q by auto
  qed
qed

section \<open>The bag\<close>

record 'a bag =
  primary_storage :: "'a storage"
  stack :: link

type_synonym 'a arrays = "'a storage nodes"

text \<open>\<^verbatim>\<open>Bag::new\<close> panics for an \<^verbatim>\<open>ARRAY_LEN\<close> above half of the bits of \<^verbatim>\<open>usize\<close>.\<close>

definition bag_new :: "nat \<Rightarrow> 'a bag option" where
  "bag_new n = (if n \<le> 32 then Some \<lparr>primary_storage = storage_new n, stack = (None, TagNone)\<rparr> else None)"

text \<open>Pushing a fresh array with the value on the stack.\<close>

definition bag_push_array :: "nat \<Rightarrow> 'a \<Rightarrow> 'a bag \<Rightarrow> 'a arrays \<Rightarrow> ('a bag \<times> 'a arrays) option" where
  "bag_push_array n val b ns =
     do {
       st \<leftarrow> with_val n val;
       (_, newest, ns) \<leftarrow> stack_push st ns (stack b);
       Some (b\<lparr>stack := newest\<rparr>, ns)
     }"

definition bag_push :: "nat \<Rightarrow> 'a \<Rightarrow> 'a bag \<Rightarrow> 'a arrays \<Rightarrow> ('a bag \<times> 'a arrays) option" where
  "bag_push n val b ns =
     (case storage_push n val True (primary_storage b) of
        (None, st) \<Rightarrow> Some (b\<lparr>primary_storage := st\<rparr>, ns)
      | (Some val, st) \<Rightarrow>
          do {
            (e, newest, ns) \<leftarrow> cleanup_newest ns (stack b) (stack b);
            let b = b\<lparr>primary_storage := st, stack := newest\<rparr>;
            (case fst e of
               Some a \<Rightarrow>
                 do {
                   st \<leftarrow> instance_of (ns ! a);
                   (case storage_push n val False st of
                      (None, st) \<Rightarrow> Some (b, set_instance ns a st)
                    | (Some val, st) \<Rightarrow> bag_push_array n val b (set_instance ns a st))
                 }
             | None \<Rightarrow> bag_push_array n val b ns)
          })"

text \<open>The loop of \<^verbatim>\<open>pop\<close> over the stack: the value, if any, and the entries afterwards.\<close>

partial_function (option) bag_pop_loop :: "nat \<Rightarrow> 'a arrays \<Rightarrow> link \<Rightarrow> ('a option \<times> 'a arrays) option" where
  "bag_pop_loop n ns current =
     (case fst current of
        None \<Rightarrow> Some (None, ns)
      | Some a \<Rightarrow>
          do {
            st \<leftarrow> instance_of (ns ! a);
            let ((val_opt, e), st) = storage_pop n st;
            let ns = set_instance ns a st;
            let ns = (if e then snd (delete_self ns a) else ns);
            (case val_opt of
               Some val \<Rightarrow> Some (Some val, ns)
             | None \<Rightarrow> do { (next_valid, ns) \<leftarrow> next_ptr ns a; bag_pop_loop n ns next_valid })
          })"

definition bag_pop :: "nat \<Rightarrow> 'a bag \<Rightarrow> 'a arrays \<Rightarrow> ('a option \<times> 'a bag \<times> 'a arrays) option" where
  "bag_pop n b ns =
     do {
       (e, newest, ns) \<leftarrow> cleanup_newest ns (stack b) (stack b);
       (val_opt, ns) \<leftarrow> bag_pop_loop n ns e;
       (case val_opt of
          Some val \<Rightarrow> Some (Some val, b\<lparr>stack := newest\<rparr>, ns)
        | None \<Rightarrow>
            (let ((val_opt, _), st) = storage_pop n (primary_storage b)
             in Some (val_opt, b\<lparr>primary_storage := st, stack := newest\<rparr>, ns)))
     }"

partial_function (option) bag_pop_all_loop ::
    "nat \<Rightarrow> ('b \<Rightarrow> 'a \<Rightarrow> 'b) \<Rightarrow> 'a arrays \<Rightarrow> link \<Rightarrow> 'b \<Rightarrow> ('b \<times> 'a arrays) option" where
  "bag_pop_all_loop n fold_fn ns popped acc =
     do {
       (r, popped, ns) \<leftarrow> stack_pop ns popped;
       (case r of
          None \<Rightarrow> Some (acc, ns)
        | Some a \<Rightarrow>
            do {
              st \<leftarrow> instance_of (ns ! a);
              (acc, st) \<leftarrow> storage_pop_all n acc fold_fn False st;
              bag_pop_all_loop n fold_fn (set_instance ns a st) popped acc
            })
     }"

definition bag_pop_all ::
    "nat \<Rightarrow> 'b \<Rightarrow> ('b \<Rightarrow> 'a \<Rightarrow> 'b) \<Rightarrow> 'a bag \<Rightarrow> 'a arrays \<Rightarrow> ('b \<times> 'a bag \<times> 'a arrays) option" where
  "bag_pop_all n init fold_fn b ns =
     (let (popped, newest) = stack_pop_all (stack b)
      in do {
        (acc, ns) \<leftarrow> bag_pop_all_loop n fold_fn ns popped init;
        (acc, st) \<leftarrow> storage_pop_all n acc fold_fn True (primary_storage b);
        Some (acc, b\<lparr>primary_storage := st, stack := newest\<rparr>, ns)
      })"

definition bag_len :: "nat \<Rightarrow> 'a bag \<Rightarrow> 'a arrays \<Rightarrow> (nat \<times> 'a bag \<times> 'a arrays) option" where
  "bag_len n b ns =
     do {
       (current, newest, ns) \<leftarrow> stack_iter ns (stack b);
       (entries, ns) \<leftarrow> list_iter_rest ns current;
       Some (foldl (\<lambda>acc a. acc + storage_len n (the (instance_of (ns ! a)))) (storage_len n (primary_storage b)) entries,
             b\<lparr>stack := newest\<rparr>, ns)
     }"

definition bag_is_empty :: "nat \<Rightarrow> 'a bag \<Rightarrow> 'a arrays \<Rightarrow> (bool \<times> 'a bag \<times> 'a arrays) option" where
  "bag_is_empty n b ns =
     (if storage_len n (primary_storage b) = 0
      then do { (e, newest, ns) \<leftarrow> stack_is_empty ns (stack b); Some (e, b\<lparr>stack := newest\<rparr>, ns) }
      else Some (False, b, ns))"

text \<open>\<^verbatim>\<open>Bag::drop\<close> and \<^verbatim>\<open>IntoIter\<close>: pop until there is nothing left. The values come in this order.\<close>

partial_function (option) bag_into_iter :: "nat \<Rightarrow> 'a bag \<Rightarrow> 'a arrays \<Rightarrow> ('a list \<times> 'a bag \<times> 'a arrays) option" where
  "bag_into_iter n b ns =
     do {
       (v, b, ns) \<leftarrow> bag_pop n b ns;
       (case v of
          None \<Rightarrow> Some ([], b, ns)
        | Some v \<Rightarrow> do { (vs, b, ns) \<leftarrow> bag_into_iter n b ns; Some (v # vs, b, ns) })
     }"

declare bag_pop_loop.simps [code] bag_pop_all_loop.simps [code] bag_into_iter.simps [code]

section \<open>The bag as a multiset\<close>

definition array_at :: "'a arrays \<Rightarrow> addr \<Rightarrow> 'a storage" where
  "array_at ns a = the (instance_of (ns ! a))"

definition arrays_ok :: "nat \<Rightarrow> 'a arrays \<Rightarrow> addr list \<Rightarrow> bool" where
  "arrays_ok n ns xs \<longleftrightarrow> (\<forall>x \<in> set xs. quiet n (array_at ns x) \<and> contents n (array_at ns x) \<noteq> {#})"

definition arrays_contents :: "nat \<Rightarrow> 'a arrays \<Rightarrow> addr list \<Rightarrow> 'a multiset" where
  "arrays_contents n ns xs = (\<Sum>x\<leftarrow>xs. contents n (array_at ns x))"

definition bag_ok :: "nat \<Rightarrow> 'a bag \<Rightarrow> 'a arrays \<Rightarrow> addr list \<Rightarrow> bool" where
  "bag_ok n b ns xs \<longleftrightarrow> quiet n (primary_storage b) \<and> stack_ok ns (stack b) xs \<and> arrays_ok n ns xs"

definition bag_holds :: "nat \<Rightarrow> 'a bag \<Rightarrow> 'a arrays \<Rightarrow> 'a multiset \<Rightarrow> bool" where
  "bag_holds n b ns M \<longleftrightarrow>
     (\<exists>xs. bag_ok n b ns xs \<and> M = contents n (primary_storage b) + arrays_contents n ns xs)"

lemma arrays_cong:
  assumes "\<forall>x \<in> set xs. instance_of (ns' ! x) = instance_of (ns ! x)"
  shows "arrays_ok n ns' xs = arrays_ok n ns xs" "arrays_contents n ns' xs = arrays_contents n ns xs"
proof -
  have "array_at ns' x = array_at ns x" if "x \<in> set xs" for x using assms that by (simp add: array_at_def)
  then show "arrays_ok n ns' xs = arrays_ok n ns xs" "arrays_contents n ns' xs = arrays_contents n ns xs"
    by (auto simp: arrays_ok_def arrays_contents_def intro!: arg_cong [where f = sum_list] map_cong)
qed

lemma arrays_same_lists:
  assumes "stack_ok ns newest xs" "\<forall>a<length ns. instance_of (ns' ! a) = instance_of (ns ! a)" "set ys \<subseteq> set xs"
  shows "arrays_ok n ns' ys = arrays_ok n ns ys" "arrays_contents n ns' ys = arrays_contents n ns ys"
  using assms arrays_cong [of ys ns' ns n] denotes_live [of ns "fst newest" xs] unfolding stack_ok_def by blast+

lemma array_instance:
  "stack_ok ns newest xs \<Longrightarrow> x \<in> set xs \<Longrightarrow> x < length ns \<and> instance_of (ns ! x) = Some (array_at ns x)"
  using stack_ok_value [of ns newest xs x] denotes_live [of ns "fst newest" xs x] by (auto simp: array_at_def stack_ok_def)

lemma stack_ok_Cons: "stack_ok ns newest (x # xs) \<Longrightarrow> x \<notin> set xs"
  by (auto simp: stack_ok_def dest: denotes_distinct)

lemma cleanup_bag:
  assumes "bag_ok n b ns xs"
  shows "\<exists>ns'. cleanup_newest ns (stack b) (stack b) = Some ((head xs, TagNone), (head xs, TagNone), ns')
     \<and> stack_ok ns' (head xs, TagNone) xs \<and> arrays_ok n ns' xs \<and> arrays_contents n ns' xs = arrays_contents n ns xs"
proof -
  have ok: "stack_ok ns (stack b) xs" "arrays_ok n ns xs" using assms by (simp_all add: bag_ok_def)
  obtain ns' where c: "cleanup_newest ns (stack b) (stack b) = Some ((head xs, TagNone), (head xs, TagNone), ns')"
      "stack_ok ns' (head xs, TagNone) xs" "same_lists ns ns'"
    using cleanup_newest_ok [OF ok(1)] by blast
  have "\<forall>a<length ns. instance_of (ns' ! a) = instance_of (ns ! a)" using c(3) by (simp add: same_lists_def)
  from arrays_same_lists [OF ok(1) this subset_refl] ok(2) c show ?thesis by auto
qed

lemma bag_push_array_ok:
  assumes "0 < n" "n \<le> 32" "bag_ok n b ns xs"
  shows "\<exists>b' ns'. bag_push_array n v b ns = Some (b', ns') \<and>
     bag_holds n b' ns' (add_mset v (contents n (primary_storage b) + arrays_contents n ns xs))"
proof -
  have ok: "stack_ok ns (stack b) xs" "arrays_ok n ns xs" "quiet n (primary_storage b)"
    using assms(3) by (simp_all add: bag_ok_def)
  obtain st where st: "with_val n v = Some st" "quiet n st" "contents n st = {#v#}"
    using quiet_with_val [OF assms(2,1), of v] by blast
  obtain entry newest' ns' where p: "stack_push st ns (stack b) = Some (entry, newest', ns')" "extends ns ns'"
      "instance_of (ns' ! entry) = Some st" "stack_ok ns' newest' (entry # xs)"
    using stack_push_ok [OF ok(1), of st] by blast
  have "\<forall>a<length ns. instance_of (ns' ! a) = instance_of (ns ! a)" using p(2) by (simp add: extends_def)
  note a = arrays_same_lists [OF ok(1) this subset_refl]
  have "bag_ok n (b\<lparr>stack := newest'\<rparr>) ns' (entry # xs)"
    using ok(2,3) p(3,4) st(2,3) a(1) [of n] by (auto simp: bag_ok_def arrays_ok_def array_at_def)
  moreover have "arrays_contents n ns' (entry # xs) = add_mset v (arrays_contents n ns xs)"
    using p(3) st(3) a(2) [of n] by (simp add: arrays_contents_def array_at_def)
  ultimately have "bag_holds n (b\<lparr>stack := newest'\<rparr>) ns' (add_mset v (contents n (primary_storage b) + arrays_contents n ns xs))"
    unfolding bag_holds_def by (intro exI [of _ "entry # xs"]) simp
  then show ?thesis using st(1) p(1) by (simp add: bag_push_array_def)
qed

lemma bag_push_ok:
  assumes "0 < n" "bag_ok n b ns xs"
  shows "\<exists>b' ns'. bag_push n v b ns = Some (b', ns') \<and>
     bag_holds n b' ns' (add_mset v (contents n (primary_storage b) + arrays_contents n ns xs))"
proof (cases "storage_push n v True (primary_storage b)")
  case (Pair r st)
  have ok: "stack_ok ns (stack b) xs" "arrays_ok n ns xs" "quiet n (primary_storage b)" "n \<le> 32"
    using assms(2) quiet_wf by (auto simp: bag_ok_def)
  note push = storage_push_ok [OF ok(3), of v True, unfolded Pair]
  show ?thesis
  proof (cases r)
    case None
    then have "bag_holds n (b\<lparr>primary_storage := st\<rparr>) ns (add_mset v (contents n (primary_storage b) + arrays_contents n ns xs))"
      using push ok unfolding bag_holds_def by (intro exI [of _ xs]) (simp add: bag_ok_def)
    then show ?thesis using Pair None by (simp add: bag_push_def)
  next
    case (Some w)
    then have w: "w = v" "st = primary_storage b" using push by auto
    obtain ns1 where c: "cleanup_newest ns (stack b) (stack b) = Some ((head xs, TagNone), (head xs, TagNone), ns1)"
        "stack_ok ns1 (head xs, TagNone) xs" "arrays_ok n ns1 xs" "arrays_contents n ns1 xs = arrays_contents n ns xs"
      using cleanup_bag [OF assms(2)] by blast
    let ?b = "b\<lparr>primary_storage := st, stack := (head xs, TagNone)\<rparr>"
    have okb: "bag_ok n ?b ns1 xs" using c ok w by (simp add: bag_ok_def)
    show ?thesis
    proof (cases xs)
      case Nil
      then show ?thesis using bag_push_array_ok [OF assms(1) ok(4) okb, of v] Pair Some w c
        by (simp add: bag_push_def)
    next
      case (Cons x ys)
      have x: "x < length ns1" "instance_of (ns1 ! x) = Some (array_at ns1 x)" using array_instance [OF c(2)] Cons by auto
      obtain r2 st2 where p2: "storage_push n v False (array_at ns1 x) = (r2, st2)" by (cases "storage_push n v False (array_at ns1 x)")
      have q: "quiet n (array_at ns1 x)" "contents n (array_at ns1 x) \<noteq> {#}" using c(3) Cons by (auto simp: arrays_ok_def)
      note push2 = storage_push_ok [OF q(1), of v False, unfolded p2]
      let ?ns = "set_instance ns1 x st2"
      have st: "stack_ok ?ns (head xs, TagNone) xs" using c(2) x set_instance_ok by (auto simp: stack_ok_def)
      have tl: "arrays_contents n ?ns ys = arrays_contents n ns1 ys" "arrays_ok n ?ns ys = arrays_ok n ns1 ys"
        using arrays_cong [of ys ?ns ns1 n] stack_ok_Cons [of ns1 _ x ys] c(2) Cons x by (auto simp: instance_set_instance)
      have hd: "array_at ?ns x = st2" using x by (simp add: array_at_def instance_set_instance)
      show ?thesis
      proof (cases r2)
        case None
        then have "bag_holds n ?b ?ns (add_mset v (contents n (primary_storage b) + arrays_contents n ns xs))"
          using push2 st tl hd Cons c(3,4) w ok(3) unfolding bag_holds_def
          by (intro exI [of _ xs]) (auto simp: bag_ok_def arrays_ok_def arrays_contents_def)
        then show ?thesis using Pair Some w c(1) Cons x(2) p2 None by (simp add: bag_push_def)
      next
        case r2: (Some w2)
        then have "w2 = v" "st2 = array_at ns1 x" using push2 by auto
        then have "?ns = ns1" using x by (intro nodes_eqI) (auto simp: instance_set_instance)
        then show ?thesis using bag_push_array_ok [OF assms(1) ok(4) okb, of v] Pair Some w c Cons x(2) p2 r2 \<open>w2 = v\<close>
          by (simp add: bag_push_def)
      qed
    qed
  qed
qed

lemma bag_pop_ok:
  assumes "bag_ok n b ns xs"
  defines "M \<equiv> contents n (primary_storage b) + arrays_contents n ns xs"
  shows "\<exists>r b' ns'. bag_pop n b ns = Some (r, b', ns') \<and>
     (case r of None \<Rightarrow> M = {#} \<and> bag_holds n b' ns' {#} | Some v \<Rightarrow> \<exists>N. M = add_mset v N \<and> bag_holds n b' ns' N)"
proof -
  have ok: "quiet n (primary_storage b)" using assms(1) by (simp add: bag_ok_def)
  obtain ns1 where c: "cleanup_newest ns (stack b) (stack b) = Some ((head xs, TagNone), (head xs, TagNone), ns1)"
      "stack_ok ns1 (head xs, TagNone) xs" "arrays_ok n ns1 xs" "arrays_contents n ns1 xs = arrays_contents n ns xs"
    using cleanup_bag [OF assms(1)] by blast
  show ?thesis
  proof (cases xs)
    case Nil
    obtain r e st where p: "storage_pop n (primary_storage b) = ((r, e), st)" by (metis surj_pair)
    let ?b = "b\<lparr>primary_storage := st, stack := (None, TagNone)\<rparr>"
    have b: "bag_pop n b ns = Some (r, ?b, ns1)"
      using c(1) Nil p by (simp add: bag_pop_def bag_pop_loop.simps [of n ns1])
    have empty: "arrays_contents n ns xs = {#}" "arrays_contents n ns1 xs = {#}" using Nil by (simp_all add: arrays_contents_def)
    have "bag_holds n ?b ns1 (contents n st)" if "quiet n st"
      using that c(2) Nil unfolding bag_holds_def by (intro exI [of _ "[]"]) (simp add: bag_ok_def arrays_ok_def arrays_contents_def)
    then show ?thesis using b storage_pop_ok [OF ok] p empty ok by (auto simp: M_def split: option.splits)
  next
    case (Cons x ys)
    have x: "x < length ns1" "instance_of (ns1 ! x) = Some (array_at ns1 x)" "live ns1 x"
      using array_instance [OF c(2)] Cons c(2) denotes_live [of ns1 "Some x" xs x] by (auto simp: stack_ok_def)
    have q: "quiet n (array_at ns1 x)" "contents n (array_at ns1 x) \<noteq> {#}" using c(3) Cons by (auto simp: arrays_ok_def)
    obtain v e st where p: "storage_pop n (array_at ns1 x) = ((Some v, e), st)" and st: "quiet n st"
        "contents n (array_at ns1 x) = add_mset v (contents n st)" "e = (contents n st = {#})"
      using storage_pop_ok [OF q(1)] q(2) by (auto split: prod.splits option.splits)
    let ?ns = "set_instance ns1 x st"
    let ?b = "b\<lparr>stack := (Some x, TagNone)\<rparr>"
    have M: "M = add_mset v (contents n st + (contents n (primary_storage b) + arrays_contents n ns1 ys))"
      using c(4) Cons st(2) by (simp add: M_def arrays_contents_def)
    have notin: "x \<notin> set ys" using stack_ok_Cons [of ns1 _ x ys] c(2) Cons by auto
    have tl: "arrays_contents n ?ns ys = arrays_contents n ns1 ys" "arrays_ok n ?ns ys"
      using arrays_cong [of ys ?ns ns1 n] notin c(3) Cons x(1) by (auto simp: instance_set_instance arrays_ok_def)
    have hd: "array_at ?ns x = st" using x by (simp add: array_at_def instance_set_instance)
    have h: "heap_ok ?ns" "denotes ?ns (Some x) xs" "live ?ns x"
      using c(2) x set_instance_ok Cons by (auto simp: stack_ok_def)
    show ?thesis
    proof (cases e)
      case False
      have "bag_ok n ?b ?ns xs" using h tl hd st False ok Cons by (auto simp: bag_ok_def stack_ok_def arrays_ok_def)
      then have "bag_holds n ?b ?ns (contents n st + (contents n (primary_storage b) + arrays_contents n ns1 ys))"
        unfolding bag_holds_def using tl hd Cons by (intro exI [of _ xs]) (simp add: arrays_contents_def)
      then show ?thesis using c(1) Cons x(2) p False M
        by (simp add: bag_pop_def bag_pop_loop.simps [of n ns1])
    next
      case True
      obtain ns2 where d: "delete_self ?ns x = (True, ns2)" "heap_ok ns2"
          "\<forall>a. instance_of (ns2 ! a) = instance_of (?ns ! a)" "denotes ns2 (Some x) (filter (\<lambda>a. a \<noteq> x) xs)"
        using delete_self_ok [OF h(1) _ h(3)] x(1) h(2) by auto
      have "filter (\<lambda>a. a \<noteq> x) xs = ys" using notin Cons by (auto simp: filter_id_conv)
      then have "bag_ok n ?b ns2 ys"
        using d ok tl(2) arrays_cong(1) [of ys ns2 ?ns n] by (simp add: bag_ok_def stack_ok_def)
      then have "bag_holds n ?b ns2 (contents n st + (contents n (primary_storage b) + arrays_contents n ns1 ys))"
        unfolding bag_holds_def using arrays_cong(2) [of ys ns2 ?ns n] d(3) tl(1) True st(3) by (intro exI [of _ ys]) simp
      then show ?thesis using c(1) Cons x(2) p True M d(1)
        by (simp add: bag_pop_def bag_pop_loop.simps [of n ns1])
    qed
  qed
qed

lemma bag_pop_all_loop_ok:
  assumes "stack_ok ns popped xs" "arrays_ok n ns xs"
  shows "\<exists>vs ns'. bag_pop_all_loop n f ns popped acc = Some (foldl f acc vs, ns') \<and> mset vs = arrays_contents n ns xs \<and> heap_ok ns'"
  using assms
proof (induction xs arbitrary: ns popped acc)
  case Nil
  from stack_pop_ok [OF Nil(1)] obtain popped' ns' where
    "stack_pop ns popped = Some (None, popped', ns')" "heap_ok ns'" by (auto simp: stack_ok_def)
  then show ?case
    by (intro exI [of _ "[]"] exI [of _ ns']) (simp add: bag_pop_all_loop.simps [of n f ns] arrays_contents_def)
next
  case (Cons x xs)
  from stack_pop_ok [OF Cons.prems(1)] obtain popped' ns1 where
    p: "stack_pop ns popped = Some (Some x, popped', ns1)" "stack_ok ns1 popped' xs"
      "\<forall>a<length ns. instance_of (ns1 ! a) = instance_of (ns ! a)" "length ns1 = length ns" by auto
  have x: "x < length ns" "instance_of (ns1 ! x) = Some (array_at ns x)"
    using array_instance [OF Cons.prems(1), of x] p(3) by auto
  have q: "quiet n (array_at ns x)" using Cons.prems(2) by (simp add: arrays_ok_def)
  obtain vs st where s: "storage_pop_all n acc f False (array_at ns x) = Some (foldl f acc vs, st)"
      "mset vs = contents n (array_at ns x)"
    using storage_pop_all_ok [OF q, of acc f False] by blast
  let ?ns = "set_instance ns1 x st"
  have notin: "x \<notin> set xs" using stack_ok_Cons [OF Cons.prems(1)] .
  have tl: "arrays_contents n ?ns xs = arrays_contents n ns1 xs" "arrays_ok n ?ns xs = arrays_ok n ns1 xs"
    using arrays_cong [of xs ?ns ns1 n] notin x(1) p(4) by (auto simp: instance_set_instance)
  have tl1: "arrays_contents n ns1 xs = arrays_contents n ns xs" "arrays_ok n ns1 xs = arrays_ok n ns xs"
    using arrays_same_lists [OF Cons.prems(1) p(3), of xs n] by auto
  have "stack_ok ?ns popped' xs" using p(2,4) x(1) set_instance_ok [of ns1 x st] by (simp add: stack_ok_def)
  moreover have "arrays_ok n ?ns xs" using tl tl1 Cons.prems(2) by (simp add: arrays_ok_def)
  ultimately obtain ws ns' where w: "bag_pop_all_loop n f ?ns popped' (foldl f acc vs) = Some (foldl f (foldl f acc vs) ws, ns')"
      "mset ws = arrays_contents n ?ns xs" "heap_ok ns'"
    using Cons.IH [of ?ns popped' "foldl f acc vs"] by blast
  then show ?case using p(1) x(2) s tl tl1
    by (intro exI [of _ "vs @ ws"]) (simp add: bag_pop_all_loop.simps [of n f ns] arrays_contents_def)
qed

lemma bag_pop_all_ok:
  assumes "bag_ok n b ns xs"
  shows "\<exists>vs b' ns'. bag_pop_all n acc f b ns = Some (foldl f acc vs, b', ns')
     \<and> mset vs = contents n (primary_storage b) + arrays_contents n ns xs \<and> bag_holds n b' ns' {#}"
proof -
  have ok: "stack_ok ns (stack b) xs" "arrays_ok n ns xs" "quiet n (primary_storage b)"
    using assms by (simp_all add: bag_ok_def)
  have "stack_ok ns (fst (stack b), TagNone) xs" using ok(1) by (simp add: stack_ok_def)
  from bag_pop_all_loop_ok [OF this ok(2), of f acc] obtain vs ns' where
    l: "bag_pop_all_loop n f ns (fst (stack b), TagNone) acc = Some (foldl f acc vs, ns')"
      "mset vs = arrays_contents n ns xs" "heap_ok ns'" by blast
  obtain ws st where s: "storage_pop_all n (foldl f acc vs) f True (primary_storage b) = Some (foldl f (foldl f acc vs) ws, st)"
      "mset ws = contents n (primary_storage b)" "quiet n st" "contents n st = {#}"
    using storage_pop_all_ok [OF ok(3), of "foldl f acc vs" f True] by blast
  let ?b = "b\<lparr>primary_storage := st, stack := (None, TagNone)\<rparr>"
  have "bag_holds n ?b ns' {#}"
    unfolding bag_holds_def using s(3,4) l(3)
    by (intro exI [of _ "[]"]) (simp add: bag_ok_def stack_ok_def arrays_ok_def arrays_contents_def)
  then show ?thesis using l(1,2) s(1,2)
    by (intro exI [of _ "vs @ ws"]) (simp add: bag_pop_all_def stack_pop_all_def)
qed

lemma foldl_storage_len:
  "foldl (\<lambda>acc a. acc + g a) (k :: nat) xs = k + (\<Sum>a\<leftarrow>xs. g a)"
  by (induction xs arbitrary: k) simp_all

lemma size_arrays_contents:
  "arrays_ok n ns xs \<Longrightarrow> (\<Sum>a\<leftarrow>xs. storage_len n (the (instance_of (ns ! a)))) = size (arrays_contents n ns xs)"
  by (induction xs) (auto simp: arrays_ok_def arrays_contents_def array_at_def quiet_len)

lemma bag_len_ok:
  assumes "bag_ok n b ns xs"
  shows "\<exists>b' ns'. bag_len n b ns = Some (size (contents n (primary_storage b) + arrays_contents n ns xs), b', ns')
      \<and> bag_ok n b' ns' xs \<and> primary_storage b' = primary_storage b \<and> arrays_contents n ns' xs = arrays_contents n ns xs"
proof -
  obtain ns1 where c: "cleanup_newest ns (stack b) (stack b) = Some ((head xs, TagNone), (head xs, TagNone), ns1)"
      "stack_ok ns1 (head xs, TagNone) xs" "arrays_ok n ns1 xs" "arrays_contents n ns1 xs = arrays_contents n ns xs"
    using cleanup_bag [OF assms] by blast
  obtain ns2 where i: "list_iter_rest ns1 (head xs, TagNone) = Some (xs, ns2)" "heap_ok ns2" "same_lists ns1 ns2"
    using list_iter_rest_ok [of ns1 "head xs" xs] c(2) by (auto simp: stack_ok_def)
  have "\<forall>a<length ns1. instance_of (ns2 ! a) = instance_of (ns1 ! a)" using i(3) by (simp add: same_lists_def)
  note a = arrays_same_lists [OF c(2) this subset_refl, of n]
  have "stack_ok ns2 (head xs, TagNone) xs" using c(2) i same_lists_denotes by (auto simp: stack_ok_def)
  then have "bag_ok n (b\<lparr>stack := (head xs, TagNone)\<rparr>) ns2 xs" using assms a(1) c(3) by (simp add: bag_ok_def)
  moreover have "storage_len n (primary_storage b) = size (contents n (primary_storage b))"
    using assms by (simp add: bag_ok_def quiet_len)
  ultimately show ?thesis
    using c i a size_arrays_contents [of n ns2 xs] by (simp add: bag_len_def stack_iter_def foldl_storage_len)
qed

lemma bag_is_empty_ok:
  assumes "bag_ok n b ns xs"
  shows "\<exists>b' ns'. bag_is_empty n b ns = Some (contents n (primary_storage b) + arrays_contents n ns xs = {#}, b', ns')
      \<and> bag_ok n b' ns' xs \<and> primary_storage b' = primary_storage b \<and> arrays_contents n ns' xs = arrays_contents n ns xs"
proof -
  have len: "storage_len n (primary_storage b) = size (contents n (primary_storage b))"
    using assms by (simp add: bag_ok_def quiet_len)
  obtain ns1 where c: "cleanup_newest ns (stack b) (stack b) = Some ((head xs, TagNone), (head xs, TagNone), ns1)"
      "stack_ok ns1 (head xs, TagNone) xs" "arrays_ok n ns1 xs" "arrays_contents n ns1 xs = arrays_contents n ns xs"
    using cleanup_bag [OF assms] by blast
  have "head xs = None \<longleftrightarrow> arrays_contents n ns xs = {#}"
    using assms by (cases xs) (auto simp: bag_ok_def arrays_ok_def arrays_contents_def)
  then show ?thesis using assms c len by (auto simp: bag_is_empty_def stack_is_empty_def bag_ok_def)
qed

lemma bag_into_iter_ok:
  "bag_holds n b ns M \<Longrightarrow> \<exists>vs b' ns'. bag_into_iter n b ns = Some (vs, b', ns') \<and> mset vs = M \<and> bag_holds n b' ns' {#}"
proof (induction M arbitrary: b ns rule: measure_induct_rule [where f = size])
  case (less M)
  then obtain xs where xs: "bag_ok n b ns xs" "M = contents n (primary_storage b) + arrays_contents n ns xs"
    by (auto simp: bag_holds_def)
  obtain r b1 ns1 where p: "bag_pop n b ns = Some (r, b1, ns1)"
    "case r of None \<Rightarrow> M = {#} \<and> bag_holds n b1 ns1 {#} | Some v \<Rightarrow> \<exists>N. M = add_mset v N \<and> bag_holds n b1 ns1 N"
    using bag_pop_ok [OF xs(1)] xs(2) by blast
  show ?case
  proof (cases r)
    case None
    then show ?thesis using p by (simp add: bag_into_iter.simps [of n b])
  next
    case (Some v)
    then obtain N where N: "M = add_mset v N" "bag_holds n b1 ns1 N" using p(2) by auto
    then obtain vs b2 ns2 where "bag_into_iter n b1 ns1 = Some (vs, b2, ns2)" "mset vs = N" "bag_holds n b2 ns2 {#}"
      using less.IH [of N b1 ns1] by auto
    then show ?thesis using p(1) Some N(1) by (auto simp: bag_into_iter.simps [of n b])
  qed
qed

text \<open>
  C10. A bag with an ARRAY_LEN between 1 and 32 refines a multiset when one thread uses it: push adds the
  value, pop returns and removes a value and finds none only in an empty bag, pop_all folds all values
  and leaves the bag empty, len and is_empty answer for the multiset, and into_iter (as drop does) takes
  the values out until none is left. Every call returns.
\<close>

theorem bag_refines_multiset:
  assumes "0 < n" "bag_holds n b ns M"
  shows "(\<exists>b' ns'. bag_push n v b ns = Some (b', ns') \<and> bag_holds n b' ns' (add_mset v M)) \<and>
    (\<exists>r b' ns'. bag_pop n b ns = Some (r, b', ns') \<and>
       (case r of None \<Rightarrow> M = {#} \<and> bag_holds n b' ns' {#}
        | Some w \<Rightarrow> w \<in># M \<and> bag_holds n b' ns' (M - {#w#}))) \<and>
    (\<exists>vs b' ns'. bag_pop_all n acc f b ns = Some (foldl f acc vs, b', ns') \<and> mset vs = M \<and> bag_holds n b' ns' {#}) \<and>
    (\<exists>b' ns'. bag_len n b ns = Some (size M, b', ns') \<and> bag_holds n b' ns' M) \<and>
    (\<exists>b' ns'. bag_is_empty n b ns = Some (M = {#}, b', ns') \<and> bag_holds n b' ns' M) \<and>
    (\<exists>vs b' ns'. bag_into_iter n b ns = Some (vs, b', ns') \<and> mset vs = M \<and> bag_holds n b' ns' {#})"
proof -
  obtain xs where xs: "bag_ok n b ns xs" "M = contents n (primary_storage b) + arrays_contents n ns xs"
    using assms(2) by (auto simp: bag_holds_def)
  have keep: "bag_holds n b' ns' M"
    if "bag_ok n b' ns' xs" "primary_storage b' = primary_storage b" "arrays_contents n ns' xs = arrays_contents n ns xs" for b' ns'
    using that xs(2) unfolding bag_holds_def by (intro exI [of _ xs]) simp
  show ?thesis
  proof (intro conjI)
    show "\<exists>b' ns'. bag_push n v b ns = Some (b', ns') \<and> bag_holds n b' ns' (add_mset v M)"
      using bag_push_ok [OF assms(1) xs(1)] xs(2) by simp
    show "\<exists>r b' ns'. bag_pop n b ns = Some (r, b', ns') \<and>
       (case r of None \<Rightarrow> M = {#} \<and> bag_holds n b' ns' {#} | Some w \<Rightarrow> w \<in># M \<and> bag_holds n b' ns' (M - {#w#}))"
    proof -
      obtain r b' ns' where p: "bag_pop n b ns = Some (r, b', ns')"
          "case r of None \<Rightarrow> M = {#} \<and> bag_holds n b' ns' {#} | Some v \<Rightarrow> \<exists>N. M = add_mset v N \<and> bag_holds n b' ns' N"
        using bag_pop_ok [OF xs(1), folded xs(2)] by blast
      then show ?thesis by (cases r) auto
    qed
    show "\<exists>vs b' ns'. bag_pop_all n acc f b ns = Some (foldl f acc vs, b', ns') \<and> mset vs = M \<and> bag_holds n b' ns' {#}"
      using bag_pop_all_ok [OF xs(1)] xs(2) by simp
    show "\<exists>b' ns'. bag_len n b ns = Some (size M, b', ns') \<and> bag_holds n b' ns' M"
      using bag_len_ok [OF xs(1)] xs(2) keep by auto
    show "\<exists>b' ns'. bag_is_empty n b ns = Some (M = {#}, b', ns') \<and> bag_holds n b' ns' M"
      using bag_is_empty_ok [OF xs(1)] xs(2) keep by auto
    show "\<exists>vs b' ns'. bag_into_iter n b ns = Some (vs, b', ns') \<and> mset vs = M \<and> bag_holds n b' ns' {#}"
      using bag_into_iter_ok [OF assms(2)] .
  qed
qed

lemma bag_new_holds: "n \<le> 32 \<Longrightarrow> \<exists>b. bag_new n = Some b \<and> bag_holds n b [] {#}"
  using quiet_new [of n] stack_ok_new
  by (auto simp: bag_new_def bag_holds_def bag_ok_def arrays_ok_def arrays_contents_def intro!: exI [of _ "[]"])

theorem bag_refines_multiset_witness:
  "\<exists>b b1 ns1 vs b2 ns2. bag_new 1 = Some b \<and> bag_push 1 (7::nat) b [] = Some (b1, ns1) \<and>
     bag_into_iter 1 b1 ns1 = Some (vs, b2, ns2) \<and> mset vs = {#7#}"
proof -
  obtain b :: "nat bag" where b: "bag_new 1 = Some b" "bag_holds 1 b [] {#}" using bag_new_holds [of 1] by auto
  then obtain b1 ns1 where p: "bag_push 1 7 b [] = Some (b1, ns1)" "bag_holds 1 b1 ns1 {#7#}"
    using bag_refines_multiset [THEN conjunct1, OF zero_less_one b(2), of 7] by blast
  have "\<exists>vs b' ns'. bag_into_iter 1 b1 ns1 = Some (vs, b', ns') \<and> mset vs = {#7#}"
    using bag_refines_multiset [THEN conjunct2, THEN conjunct2, THEN conjunct2, THEN conjunct2, THEN conjunct2,
        OF zero_less_one p(2)] by blast
  then show ?thesis using b(1) p(1) by blast
qed

end
