(* ===== verification/Bag_Iter.thy ===== *)
theory Bag_Iter
  imports Bag
begin

text \<open>
  The mutable iterator of a bag: \<^verbatim>\<open>IterMut\<close> of \<^verbatim>\<open>src/bag.rs\<close>. The place of an instance is the array it is in
  (\<^term>\<open>None\<close> for the primary one) and its slot. The iterator borrows the bag mutably, so that nothing else
  changes the bag between two calls.
\<close>

section \<open>The iterator\<close>

definition U32_MAX :: nat where
  "U32_MAX = 2 ^ 32 - 1"

type_synonym place = "addr option \<times> nat"

record iter_mut =
  current_index :: nat
  current_stack_entry :: "addr option"

definition bag_iter_mut :: iter_mut where
  "bag_iter_mut = \<lparr>current_index = 0, current_stack_entry = None\<rparr>"

text \<open>\<^verbatim>\<open>wrapping_shr\<close> shifts by the index modulo the width of the bitmap.\<close>

definition next_occupied :: "nat \<Rightarrow> nat \<Rightarrow> usize \<Rightarrow> nat" where
  "next_occupied n index m = index + trailing_zeros (drop_bit (index mod 32) (instance_bitmap n m))"

partial_function (option) iter_mut_next ::
    "nat \<Rightarrow> iter_mut \<Rightarrow> 'a bag \<Rightarrow> 'a arrays \<Rightarrow> (place option \<times> iter_mut \<times> 'a bag \<times> 'a arrays) option" where
  "iter_mut_next n it b ns =
     (if current_index it = U32_MAX then Some (None, it, b, ns)
      else do {
        current_storage \<leftarrow> (case current_stack_entry it of
                              Some linked \<Rightarrow> instance_of (ns ! linked)
                            | None \<Rightarrow> Some (primary_storage b));
        let occupied = next_occupied n (current_index it) (metadata current_storage);
        if occupied < n
        then Some (Some (current_stack_entry it, occupied), it\<lparr>current_index := occupied + 1\<rparr>, b, ns)
        else (case current_stack_entry it of
                Some linked \<Rightarrow>
                  do {
                    (next_valid, ns) \<leftarrow> next_ptr ns linked;
                    (case fst next_valid of
                       Some entry \<Rightarrow> iter_mut_next n \<lparr>current_index = 0, current_stack_entry = Some entry\<rparr> b ns
                     | None \<Rightarrow> iter_mut_next n (it\<lparr>current_index := U32_MAX\<rparr>) b ns)
                  }
              | None \<Rightarrow>
                  do {
                    (e, newest, ns) \<leftarrow> cleanup_newest ns (stack b) (stack b);
                    let b = b\<lparr>stack := newest\<rparr>;
                    (case fst e of
                       Some entry \<Rightarrow> iter_mut_next n \<lparr>current_index = 0, current_stack_entry = Some entry\<rparr> b ns
                     | None \<Rightarrow> iter_mut_next n (it\<lparr>current_index := U32_MAX\<rparr>) b ns)
                  })
      })"

text \<open>Calling \<^verbatim>\<open>next\<close> until it returns \<^verbatim>\<open>None\<close>.\<close>

partial_function (option) iter_mut_all ::
    "nat \<Rightarrow> iter_mut \<Rightarrow> 'a bag \<Rightarrow> 'a arrays \<Rightarrow> (place list \<times> 'a bag \<times> 'a arrays) option" where
  "iter_mut_all n it b ns =
     do {
       (p, it, b, ns) \<leftarrow> iter_mut_next n it b ns;
       (case p of
          None \<Rightarrow> Some ([], b, ns)
        | Some p \<Rightarrow> do { (ps, b, ns) \<leftarrow> iter_mut_all n it b ns; Some (p # ps, b, ns) })
     }"

declare iter_mut_next.simps [code] iter_mut_all.simps [code]

section \<open>The places it visits\<close>

definition occupied_from :: "nat \<Rightarrow> 'a storage \<Rightarrow> nat \<Rightarrow> nat list" where
  "occupied_from n st i = filter (\<lambda>j. bit (metadata st) (n + j)) [i..<n]"

lemma next_occupied_cases:
  assumes "quiet n st" "i \<le> n"
  shows "if next_occupied n i (metadata st) < n
         then occupied_from n st i = next_occupied n i (metadata st) # occupied_from n st (next_occupied n i (metadata st) + 1)
         else occupied_from n st i = []"
proof -
  let ?m = "metadata st" let ?inst = "instance_bitmap n ?m" let ?o = "next_occupied n i ?m"
  have n: "n \<le> 32" using quiet_wf [OF assms(1)] by simp
  show ?thesis
  proof (cases "i < 32")
    case False
    then have "i = n" "n = 32" using assms(2) n by auto
    then show ?thesis by (simp add: next_occupied_def occupied_from_def)
  next
    case True
    let ?w = "drop_bit i ?inst"
    have w: "bit ?w j \<longleftrightarrow> i + j < 32 \<and> bit ?m (n + (i + j))" for j
      by (auto simp: bit_drop_bit_eq bit_instance_bitmap)
    have o: "?o = i + trailing_zeros ?w" using True by (simp add: next_occupied_def)
    have below: "\<not> bit ?m (n + j)" if "i \<le> j" "j < ?o" "j < 32" for j
      using not_bit_below_trailing_zeros [of "j - i" ?w] that w [of "j - i"] o by simp
    show ?thesis
    proof (cases "?o < n")
      case False
      have "\<not> bit ?m (n + j)" if "i \<le> j" "j < n" for j using below [of j] that False n by auto
      then show ?thesis using False by (auto simp: occupied_from_def filter_empty_conv)
    next
      case lt: True
      then have "trailing_zeros ?w < 32" using n o by simp
      then have "?w \<noteq> 0" using trailing_zeros_lt_iff [of ?w] by simp
      then have bit: "bit ?m (n + ?o)" using bit_trailing_zeros [of ?w] w o by simp
      have "[i..<n] = [i..<?o] @ ?o # [?o + 1..<n]"
        using lt o upt_add_eq_append [of i ?o "n - ?o"] upt_conv_Cons [of ?o n] by simp
      moreover have "filter (\<lambda>j. bit ?m (n + j)) [i..<?o] = []" using below lt n by (auto simp: filter_empty_conv)
      ultimately show ?thesis using lt bit by (simp add: occupied_from_def)
    qed
  qed
qed

definition places_from :: "nat \<Rightarrow> addr option \<Rightarrow> 'a storage \<Rightarrow> nat \<Rightarrow> place list" where
  "places_from n e st i = map (Pair e) (occupied_from n st i)"

definition array_places :: "nat \<Rightarrow> 'a arrays \<Rightarrow> addr list \<Rightarrow> place list" where
  "array_places n ns xs = concat (map (\<lambda>x. places_from n (Some x) (array_at ns x) 0) xs)"

lemma not_U32_MAX: "quiet n st \<Longrightarrow> i \<le> n \<Longrightarrow> i \<noteq> U32_MAX"
  using quiet_wf [of n st] by (auto simp: U32_MAX_def)

lemma iter_mut_all_end [simp]: "iter_mut_all n \<lparr>current_index = U32_MAX, current_stack_entry = e\<rparr> b ns = Some ([], b, ns)"
  by (simp add: iter_mut_all.simps [of n] iter_mut_next.simps [of n])

text \<open>The rest of one array: \<open>out\<close> is what happens when its slots are used up.\<close>

lemma iter_mut_all_array:
  assumes "quiet n st" "(case e of Some a \<Rightarrow> instance_of (ns ! a) | None \<Rightarrow> Some (primary_storage b)) = Some st"
    "\<And>i. i \<le> n \<Longrightarrow> \<not> next_occupied n i (metadata st) < n \<Longrightarrow>
       iter_mut_next n \<lparr>current_index = i, current_stack_entry = e\<rparr> b ns = iter_mut_next n it' b' ns'"
    "iter_mut_all n it' b' ns' = Some (ps, b'', ns'')" "i \<le> n"
  shows "iter_mut_all n \<lparr>current_index = i, current_stack_entry = e\<rparr> b ns = Some (places_from n e st i @ ps, b'', ns'')"
  using assms(5)
proof (induction "n - i" arbitrary: i rule: less_induct)
  case less
  let ?o = "next_occupied n i (metadata st)"
  note cases = next_occupied_cases [OF assms(1) less.prems]
  show ?case
  proof (cases "?o < n")
    case False
    have "iter_mut_all n \<lparr>current_index = i, current_stack_entry = e\<rparr> b ns = iter_mut_all n it' b' ns'"
      using assms(3) [OF less.prems False]
      by (simp add: iter_mut_all.simps [of n it' b' ns'] iter_mut_all.simps [of n "\<lparr>current_index = i, current_stack_entry = e\<rparr>"])
    then show ?thesis using assms(4) cases False by (simp add: places_from_def)
  next
    case True
    have "i \<le> ?o" by (simp add: next_occupied_def)
    then have "iter_mut_all n \<lparr>current_index = ?o + 1, current_stack_entry = e\<rparr> b ns
        = Some (places_from n e st (?o + 1) @ ps, b'', ns'')"
      using True by (intro less.hyps) auto
    moreover have "iter_mut_next n \<lparr>current_index = i, current_stack_entry = e\<rparr> b ns
        = Some (Some (e, ?o), \<lparr>current_index = ?o + 1, current_stack_entry = e\<rparr>, b, ns)"
      using True assms(2) not_U32_MAX [OF assms(1) less.prems]
      by (simp add: iter_mut_next.simps [of n "\<lparr>current_index = i, current_stack_entry = e\<rparr>"] Let_def)
    ultimately show ?thesis using cases True
      by (simp add: iter_mut_all.simps [of n "\<lparr>current_index = i, current_stack_entry = e\<rparr>"] places_from_def)
  qed
qed

lemma iter_mut_all_linked:
  assumes "heap_ok ns" "denotes ns (Some x) (x # ys)" "arrays_ok n ns (x # ys)"
  shows "\<exists>ns'. iter_mut_all n \<lparr>current_index = 0, current_stack_entry = Some x\<rparr> b ns = Some (array_places n ns (x # ys), b, ns')
     \<and> heap_ok ns' \<and> same_lists ns ns'"
  using assms
proof (induction ys arbitrary: ns x)
  case Nil
  have x: "x < length ns" "live ns x" "denotes ns (fst (link_at ns x)) []"
    using Nil(2) denotes_live [OF Nil(2), of x] by (auto simp: denotes_Some split: if_splits)
  have inst: "instance_of (ns ! x) = Some (array_at ns x)" using heap_okD(3) [OF Nil(1) x(1,2)] by (auto simp: array_at_def)
  have q: "quiet n (array_at ns x)" using Nil(3) by (simp add: arrays_ok_def)
  obtain t ns1 where n: "next_ptr ns x = Some ((None, t), ns1)" "heap_ok ns1" "same_lists ns ns1"
    using next_ptr_denotes [OF Nil(1) x(1,3)] by auto
  have "iter_mut_all n \<lparr>current_index = 0, current_stack_entry = Some x\<rparr> b ns
      = Some (places_from n (Some x) (array_at ns x) 0 @ [], b, ns1)"
  proof (rule iter_mut_all_array [OF q])
    show "iter_mut_all n \<lparr>current_index = U32_MAX, current_stack_entry = Some x\<rparr> b ns1 = Some ([], b, ns1)" by simp
    show "iter_mut_next n \<lparr>current_index = i, current_stack_entry = Some x\<rparr> b ns
        = iter_mut_next n \<lparr>current_index = U32_MAX, current_stack_entry = Some x\<rparr> b ns1"
      if "i \<le> n" "\<not> next_occupied n i (metadata (array_at ns x)) < n" for i
      using that inst n(1) not_U32_MAX [OF q that(1)]
      by (simp add: iter_mut_next.simps [of n "\<lparr>current_index = i, current_stack_entry = Some x\<rparr>"] Let_def)
  qed (use inst in simp_all)
  then show ?case using n(2,3) by (simp add: array_places_def)
next
  case (Cons y ys)
  have x: "x < length ns" "live ns x" "denotes ns (fst (link_at ns x)) (y # ys)"
    using Cons(3) denotes_live [OF Cons(3), of x] by (auto simp: denotes_Some split: if_splits)
  have inst: "instance_of (ns ! x) = Some (array_at ns x)" using heap_okD(3) [OF Cons(2) x(1,2)] by (auto simp: array_at_def)
  have q: "quiet n (array_at ns x)" using Cons(4) by (simp add: arrays_ok_def)
  obtain t ns1 where n: "next_ptr ns x = Some ((Some y, t), ns1)" "heap_ok ns1" "same_lists ns ns1"
    using next_ptr_denotes [OF Cons(2) x(1,3)] by auto
  have d: "denotes ns1 (Some y) (y # ys)" using denotes_head [OF same_lists_denotes [OF n(3) x(3)]] by simp
  have same: "\<forall>z \<in> set (y # ys). instance_of (ns1 ! z) = instance_of (ns ! z)"
    using n(3) denotes_live [OF x(3)] by (auto simp: same_lists_def)
  have eq: "arrays_ok n ns1 (y # ys) = arrays_ok n ns (y # ys)" "array_places n ns1 (y # ys) = array_places n ns (y # ys)"
    using arrays_cong(1) [OF same] same
    by (auto simp: array_places_def array_at_def intro!: arg_cong [where f = concat] map_cong)
  have "arrays_ok n ns1 (y # ys)" using eq(1) Cons(4) by (simp add: arrays_ok_def)
  from Cons.IH [OF n(2) d this] obtain ns' where
    ih: "iter_mut_all n \<lparr>current_index = 0, current_stack_entry = Some y\<rparr> b ns1 = Some (array_places n ns1 (y # ys), b, ns')"
      "heap_ok ns'" "same_lists ns1 ns'" by blast
  have "iter_mut_all n \<lparr>current_index = 0, current_stack_entry = Some x\<rparr> b ns
      = Some (places_from n (Some x) (array_at ns x) 0 @ array_places n ns1 (y # ys), b, ns')"
  proof (rule iter_mut_all_array [OF q _ _ ih(1)])
    show "iter_mut_next n \<lparr>current_index = i, current_stack_entry = Some x\<rparr> b ns
        = iter_mut_next n \<lparr>current_index = 0, current_stack_entry = Some y\<rparr> b ns1"
      if "i \<le> n" "\<not> next_occupied n i (metadata (array_at ns x)) < n" for i
      using that inst n(1) not_U32_MAX [OF q that(1)]
      by (simp add: iter_mut_next.simps [of n "\<lparr>current_index = i, current_stack_entry = Some x\<rparr>"] Let_def)
  qed (use inst in simp_all)
  then show ?case using ih(2) same_lists_trans [OF n(3) ih(3)] eq(2) by (simp add: array_places_def)
qed

text \<open>The instance at a place.\<close>

definition value_at_place :: "'a bag \<Rightarrow> 'a arrays \<Rightarrow> place \<Rightarrow> 'a" where
  "value_at_place b ns p =
     the (slots (case fst p of None \<Rightarrow> primary_storage b | Some a \<Rightarrow> array_at ns a) ! snd p)"

lemma mset_occupied: "quiet n st \<Longrightarrow> mset (map (\<lambda>i. the (slots st ! i)) (occupied_from n st 0)) = contents n st"
proof -
  assume q: "quiet n st"
  have "set (occupied_from n st 0) = available n (metadata st)"
    using quiet_available [OF q] by (auto simp: occupied_from_def)
  moreover have "distinct (occupied_from n st 0)" by (simp add: occupied_from_def)
  ultimately have "mset (occupied_from n st 0) = mset_set (available n (metadata st))"
    by (metis mset_set_set)
  then show ?thesis by (simp add: contents_def)
qed

lemma mset_array_places:
  "arrays_ok n ns xs \<Longrightarrow> mset (map (value_at_place b ns) (array_places n ns xs)) = arrays_contents n ns xs"
proof (induction xs)
  case (Cons x xs)
  have "mset (map (value_at_place b ns) (places_from n (Some x) (array_at ns x) 0)) = contents n (array_at ns x)"
    using mset_occupied [of n "array_at ns x"] Cons.prems by (simp add: arrays_ok_def places_from_def value_at_place_def comp_def)
  then show ?case using Cons by (simp add: array_places_def arrays_contents_def arrays_ok_def)
qed (simp add: array_places_def arrays_contents_def)

lemma distinct_places: "distinct xs \<Longrightarrow> distinct (array_places n ns xs)"
  by (induction xs) (auto simp: array_places_def places_from_def distinct_map occupied_from_def inj_on_def)

text \<open>
  The mutable iterator of a bag refers to every instance of the bag exactly once and then returns None.
\<close>

theorem bag_iter_mut_visits_all:
  assumes "bag_holds n b ns M"
  shows "\<exists>ps b' ns'. iter_mut_all n bag_iter_mut b ns = Some (ps, b', ns') \<and> distinct ps \<and>
     mset (map (value_at_place b ns) ps) = M \<and> bag_holds n b' ns' M"
proof -
  obtain xs where xs: "bag_ok n b ns xs" "M = contents n (primary_storage b) + arrays_contents n ns xs"
    using assms by (auto simp: bag_holds_def)
  have ok: "quiet n (primary_storage b)" "stack_ok ns (stack b) xs" "arrays_ok n ns xs" using xs(1) by (simp_all add: bag_ok_def)
  let ?q = "primary_storage b" and ?b = "b\<lparr>stack := (head xs, TagNone)\<rparr>"
  obtain ns1 where c: "cleanup_newest ns (stack b) (stack b) = Some ((head xs, TagNone), (head xs, TagNone), ns1)"
      "stack_ok ns1 (head xs, TagNone) xs" "same_lists ns ns1"
    using cleanup_newest_ok [OF ok(2)] by blast
  have inst: "\<forall>a<length ns. instance_of (ns1 ! a) = instance_of (ns ! a)" using c(3) by (simp add: same_lists_def)
  note a = arrays_same_lists [OF ok(2) inst subset_refl, of n]
  have places: "array_places n ns1 xs = array_places n ns xs"
    using inst array_instance [OF ok(2)] by (auto simp: array_places_def array_at_def intro!: arg_cong [where f = concat] map_cong)
  obtain it ns2 where r: "iter_mut_all n it ?b ns1 = Some (array_places n ns xs, ?b, ns2)" "heap_ok ns2" "same_lists ns1 ns2"
    "\<And>i. i \<le> n \<Longrightarrow> \<not> next_occupied n i (metadata ?q) < n \<Longrightarrow>
       iter_mut_next n \<lparr>current_index = i, current_stack_entry = None\<rparr> b ns = iter_mut_next n it ?b ns1"
  proof (cases xs)
    case Nil
    have "iter_mut_next n \<lparr>current_index = i, current_stack_entry = None\<rparr> b ns
        = iter_mut_next n \<lparr>current_index = U32_MAX, current_stack_entry = None\<rparr> ?b ns1"
      if "i \<le> n" "\<not> next_occupied n i (metadata ?q) < n" for i
      using that c(1) Nil not_U32_MAX [OF ok(1) that(1)]
      by (simp add: iter_mut_next.simps [of n "\<lparr>current_index = i, current_stack_entry = None\<rparr>"] Let_def)
    then show ?thesis
      using that [of "\<lparr>current_index = U32_MAX, current_stack_entry = None\<rparr>" ns1] Nil c(2)
      by (simp add: array_places_def stack_ok_def)
  next
    case (Cons x ys)
    have h: "heap_ok ns1" "denotes ns1 (Some x) (x # ys)" "arrays_ok n ns1 (x # ys)"
      using c(2) Cons a(1) ok(3) by (auto simp: stack_ok_def)
    obtain ns2 where i: "iter_mut_all n \<lparr>current_index = 0, current_stack_entry = Some x\<rparr> ?b ns1 = Some (array_places n ns1 (x # ys), ?b, ns2)"
        "heap_ok ns2" "same_lists ns1 ns2"
      using iter_mut_all_linked [OF h] by blast
    have "iter_mut_next n \<lparr>current_index = i, current_stack_entry = None\<rparr> b ns
        = iter_mut_next n \<lparr>current_index = 0, current_stack_entry = Some x\<rparr> ?b ns1"
      if "i \<le> n" "\<not> next_occupied n i (metadata ?q) < n" for i
      using that c(1) Cons not_U32_MAX [OF ok(1) that(1)]
      by (simp add: iter_mut_next.simps [of n "\<lparr>current_index = i, current_stack_entry = None\<rparr>"] Let_def)
    then show ?thesis using that [OF _ i(2,3)] i(1) places Cons by simp
  qed
  have all: "iter_mut_all n bag_iter_mut b ns = Some (places_from n None ?q 0 @ array_places n ns xs, ?b, ns2)"
    unfolding bag_iter_mut_def by (rule iter_mut_all_array [OF ok(1) _ r(4) r(1)]) simp_all
  have "distinct (places_from n None ?q 0 @ array_places n ns xs)"
    using distinct_places [of xs n ns] denotes_distinct [of ns "fst (stack b)" xs] ok(2)
    by (auto simp: places_from_def array_places_def distinct_map occupied_from_def inj_on_def stack_ok_def)
  moreover have "mset (map (value_at_place b ns) (places_from n None ?q 0 @ array_places n ns xs)) = M"
    using mset_occupied [OF ok(1)] mset_array_places [OF ok(3), of b] xs(2)
    by (simp add: places_from_def value_at_place_def comp_def)
  moreover have "bag_holds n ?b ns2 M"
  proof -
    have inst2: "\<forall>a<length ns1. instance_of (ns2 ! a) = instance_of (ns1 ! a)" using r(3) by (simp add: same_lists_def)
    note a2 = arrays_same_lists [OF c(2) inst2 subset_refl, of n]
    have "stack_ok ns2 (head xs, TagNone) xs" using c(2) r(2) same_lists_denotes [OF r(3)] by (simp add: stack_ok_def)
    then show ?thesis unfolding bag_holds_def using a a2 ok xs(2) by (intro exI [of _ xs]) (simp add: bag_ok_def)
  qed
  ultimately show ?thesis using all by blast
qed

theorem bag_iter_mut_visits_all_witness:
  "\<exists>b ps b' ns'. bag_new 2 = Some (b :: nat bag) \<and> iter_mut_all 2 bag_iter_mut b [] = Some (ps, b', ns') \<and> ps = []"
proof -
  obtain b :: "nat bag" where b: "bag_new 2 = Some b" "bag_holds 2 b [] {#}" using bag_new_holds [of 2] by auto
  then show ?thesis using bag_iter_mut_visits_all [OF b(2)] by auto
qed

end
