(* ===== verification/Queue.thy ===== *)
theory Queue
  imports Stack
begin

text \<open>
  The lock-free queue of \<^verbatim>\<open>src/queue.rs\<close>, run by one thread, over the same entries as the stack. The
  queue is the record of its two links. \<^verbatim>\<open>oldest\<close> owns the list; \<^verbatim>\<open>newest\<close> is where a push starts to look
  for the end of the list.
\<close>

section \<open>The operations\<close>

record queue =
  oldest :: link
  newest :: link

definition queue_new :: queue where
  "queue_new = \<lparr>oldest = (None, TagNone), newest = (None, TagNone)\<rparr>"

definition cleanup_oldest :: "'a nodes \<Rightarrow> queue \<Rightarrow> (link \<times> queue \<times> 'a nodes) option" where
  "cleanup_oldest ns q =
     (let oldest_ptr = oldest q
      in case fst oldest_ptr of
           None \<Rightarrow> Some (oldest_ptr, q, ns)
         | Some oldest_entry \<Rightarrow>
             if is_deleted ns oldest_entry
             then do {
               (next_valid, ns) \<leftarrow> next_ptr ns oldest_entry;
               (case compare_exchange (oldest q) oldest_ptr (fst next_valid, TagNone) of
                  (cell, Inr _) \<Rightarrow>
                    let q = q\<lparr>oldest := cell\<rparr>;
                        q = (if fst next_valid = None then q\<lparr>newest := (None, TagNone)\<rparr> else q)
                    in Some ((fst next_valid, TagNone), q, ns)
                | (cell, Inl actual) \<Rightarrow> Some (actual, q\<lparr>oldest := cell\<rparr>, ns))
             }
             else Some (oldest_ptr, q, ns))"

partial_function (option) traverse :: "'a nodes \<Rightarrow> link \<Rightarrow> (link \<times> 'a nodes) option" where
  "traverse ns current =
     (case fst current of
        None \<Rightarrow> Some (current, ns)
      | Some entry \<Rightarrow>
          do {
            (next_valid, ns) \<leftarrow> next_ptr ns entry;
            (if fst next_valid = None then Some (current, ns) else traverse ns next_valid)
          })"

text \<open>The attempt of a round of the push loop: on the link of the last entry, or on \<^verbatim>\<open>oldest\<close>.\<close>

definition queue_link_new :: "addr \<Rightarrow> 'a nodes \<Rightarrow> queue \<Rightarrow> link \<Rightarrow> (link + link) \<times> queue \<times> 'a nodes" where
  "queue_link_new new_entry ns q newest_ptr =
     (case fst newest_ptr of
        Some newest_entry \<Rightarrow>
          (let (r, ns) = cas_link ns newest_entry (None, TagNone) (Some new_entry, TagNone) in (r, q, ns))
      | None \<Rightarrow>
          (let (cell, r) = compare_exchange (oldest q) newest_ptr (Some new_entry, TagNone)
           in (r, q\<lparr>oldest := cell\<rparr>, ns)))"

partial_function (option) queue_push_loop ::
    "('a node option \<Rightarrow> bool) \<Rightarrow> addr \<Rightarrow> 'a nodes \<Rightarrow> queue \<Rightarrow> link \<Rightarrow> (('a option + addr) \<times> queue \<times> 'a nodes) option" where
  "queue_push_loop cond new_entry ns q newest_ptr =
     (case queue_link_new new_entry ns q newest_ptr of
        (Inr _, q, ns) \<Rightarrow>
          (let q = q\<lparr>newest := (Some new_entry, TagNone)\<rparr>;
               q = (if fst (oldest q) = None then q\<lparr>newest := (None, TagNone)\<rparr> else q)
           in Some (Inr new_entry, q, ns))
      | (Inl actual, q, ns) \<Rightarrow>
          do {
            (newest_ptr, q, ns) \<leftarrow> (if snd actual = First then cleanup_oldest ns q
                                   else if fst actual = None then Some (oldest q, q, ns)
                                   else Some (actual, q, ns));
            (newest_ptr, ns) \<leftarrow> traverse ns newest_ptr;
            if \<not> cond (entry_at ns newest_ptr)
            then let (val, ns) = take_inner ns new_entry in Some (Inl val, q, ns)
            else queue_push_loop cond new_entry ns q newest_ptr
          })"

definition queue_push_if ::
    "('a node option \<Rightarrow> bool) \<Rightarrow> 'a \<Rightarrow> 'a nodes \<Rightarrow> queue \<Rightarrow> (('a option + addr) \<times> queue \<times> 'a nodes) option" where
  "queue_push_if cond val ns q =
     (let newest_ptr = (if fst (newest q) = None then oldest q else newest q)
      in do {
        (newest_ptr, ns) \<leftarrow> traverse ns newest_ptr;
        if \<not> cond (entry_at ns newest_ptr) then Some (Inl (Some val), q, ns)
        else queue_push_loop cond (length ns) (ns @ [entry_new val]) q newest_ptr
      })"

definition queue_push :: "'a \<Rightarrow> 'a nodes \<Rightarrow> queue \<Rightarrow> (addr \<times> queue \<times> 'a nodes) option" where
  "queue_push val ns q =
     do {
       (r, q, ns) \<leftarrow> queue_push_if (\<lambda>_. True) val ns q;
       (case r of Inr entry \<Rightarrow> Some (entry, q, ns) | Inl _ \<Rightarrow> None)
     }"

partial_function (option) queue_pop_loop ::
    "('a node \<Rightarrow> bool) \<Rightarrow> 'a nodes \<Rightarrow> queue \<Rightarrow> link \<Rightarrow> ((addr + addr option) \<times> queue \<times> 'a nodes) option" where
  "queue_pop_loop cond ns q current =
     (case fst current of
        None \<Rightarrow> Some (Inr None, q, ns)
      | Some oldest_entry \<Rightarrow>
          if \<not> is_deleted ns oldest_entry \<and> \<not> cond (ns ! oldest_entry) then Some (Inl oldest_entry, q, ns)
          else let (deleted, ns) = delete_self ns oldest_entry
               in if deleted
                  then do { (_, q, ns) \<leftarrow> cleanup_oldest ns q; Some (Inr (Some oldest_entry), q, ns) }
                  else do { (current, q, ns) \<leftarrow> cleanup_oldest ns q; queue_pop_loop cond ns q current })"

definition queue_pop_if ::
    "('a node \<Rightarrow> bool) \<Rightarrow> 'a nodes \<Rightarrow> queue \<Rightarrow> ((addr + addr option) \<times> queue \<times> 'a nodes) option" where
  "queue_pop_if cond ns q = queue_pop_loop cond ns q (oldest q)"

definition queue_pop :: "'a nodes \<Rightarrow> queue \<Rightarrow> (addr option \<times> queue \<times> 'a nodes) option" where
  "queue_pop ns q =
     do {
       (r, q, ns) \<leftarrow> queue_pop_if (\<lambda>_. True) ns q;
       (case r of Inr result \<Rightarrow> Some (result, q, ns) | Inl _ \<Rightarrow> None)
     }"

text \<open>\<^verbatim>\<open>peek\<close> and \<^verbatim>\<open>peek_with\<close>.\<close>

partial_function (option) queue_peek_loop ::
    "('a node option \<Rightarrow> 'r) \<Rightarrow> 'a nodes \<Rightarrow> queue \<Rightarrow> link \<Rightarrow> ('r \<times> queue \<times> 'a nodes) option" where
  "queue_peek_loop reader ns q current =
     (case fst current of
        None \<Rightarrow> Some (reader None, q, ns)
      | Some oldest_entry \<Rightarrow>
          if is_deleted ns oldest_entry
          then do { (current, q, ns) \<leftarrow> cleanup_oldest ns q; queue_peek_loop reader ns q current }
          else Some (reader (Some (ns ! oldest_entry)), q, ns))"

definition queue_peek_with :: "('a node option \<Rightarrow> 'r) \<Rightarrow> 'a nodes \<Rightarrow> queue \<Rightarrow> ('r \<times> queue \<times> 'a nodes) option" where
  "queue_peek_with reader ns q = queue_peek_loop reader ns q (oldest q)"

definition queue_is_empty :: "queue \<Rightarrow> bool" where
  "queue_is_empty q \<longleftrightarrow> fst (newest q) = None"

definition queue_iter :: "'a nodes \<Rightarrow> queue \<Rightarrow> (link \<times> queue \<times> 'a nodes) option" where
  "queue_iter ns q = cleanup_oldest ns q"

definition queue_len :: "'a nodes \<Rightarrow> queue \<Rightarrow> (nat \<times> queue \<times> 'a nodes) option" where
  "queue_len ns q =
     do {
       (current, q, ns) \<leftarrow> queue_iter ns q;
       (entries, ns) \<leftarrow> list_iter_rest ns current;
       Some (length entries, q, ns)
     }"

partial_function (option) queue_clone_loop :: "'a nodes \<Rightarrow> link \<Rightarrow> queue \<Rightarrow> (queue \<times> 'a nodes) option" where
  "queue_clone_loop ns current q_clone =
     (case fst current of
        None \<Rightarrow> Some (q_clone, ns)
      | Some entry \<Rightarrow>
          do {
            (next_valid, ns) \<leftarrow> next_ptr ns entry;
            val \<leftarrow> instance_of (ns ! entry);
            (_, q_clone, ns) \<leftarrow> queue_push_if (\<lambda>_. True) val ns q_clone;
            queue_clone_loop ns next_valid q_clone
          })"

definition queue_clone :: "'a nodes \<Rightarrow> queue \<Rightarrow> (queue \<times> 'a nodes) option" where
  "queue_clone ns q = queue_clone_loop ns (oldest q) queue_new"

declare traverse.simps [code] queue_push_loop.simps [code] queue_pop_loop.simps [code]
  queue_peek_loop.simps [code] queue_clone_loop.simps [code]

section \<open>The queue as a list\<close>

text \<open>
  A queue whose entries have only been removed by pop: \<open>xs\<close> is the whole chain from \<^verbatim>\<open>oldest\<close>, its last
  entry is \<^verbatim>\<open>newest\<close>, and the link of that entry is null without a tag.
\<close>

definition queue_ok :: "'a nodes \<Rightarrow> queue \<Rightarrow> addr list \<Rightarrow> bool" where
  "queue_ok ns q xs \<longleftrightarrow>
     heap_ok ns \<and> chain ns (head xs) xs \<and> (\<forall>x \<in> set xs. live ns x) \<and> oldest q = (head xs, TagNone)
     \<and> newest q = (if xs = [] then None else Some (last xs), TagNone)
     \<and> (xs \<noteq> [] \<longrightarrow> link_at ns (last xs) = (None, TagNone))"

lemma queue_ok_new: "queue_ok [] queue_new []"
  by (simp add: queue_ok_def queue_new_def heap_ok_def)

lemma link_of_last:
  assumes "chain ns p xs" "xs \<noteq> []"
  shows "fst (link_at ns (last xs)) = None" "last xs < length ns"
proof -
  have "chain ns (Some (last xs)) [last xs]"
    using assms chain_append [of ns p "butlast xs" "[last xs]"] by simp
  then show "fst (link_at ns (last xs)) = None" "last xs < length ns" by simp_all
qed

lemma queue_ok_same_lists:
  assumes "queue_ok ns q xs" "heap_ok ns'" "same_lists ns ns'"
  shows "queue_ok ns' q xs"
proof -
  have q: "chain ns (head xs) xs" "\<forall>x \<in> set xs. live ns x" "xs \<noteq> [] \<Longrightarrow> link_at ns (last xs) = (None, TagNone)"
    using assms(1) by (simp_all add: queue_ok_def)
  have c: "chain ns' (head xs) xs" using assms(3) q(1,2) by (rule same_lists_live_chain)
  have "link_at ns' (last xs) = (None, TagNone)" if "xs \<noteq> []"
    using link_of_last [OF c that] link_of_last [OF q(1) that] q(3) [OF that] assms(3)
    by (simp add: same_lists_def prod_eq_iff)
  moreover have "\<forall>x \<in> set xs. live ns' x"
    using q(2) same_lists_live [OF assms(3)] chain_bounds [OF q(1)] by simp
  ultimately show ?thesis using assms(1,2) c by (simp add: queue_ok_def)
qed

lemma queue_ok_denotes: "queue_ok ns q xs \<Longrightarrow> denotes ns (head xs) xs"
  unfolding queue_ok_def denotes_def by (intro exI [of _ xs]) simp

lemma traverse_last:
  assumes "queue_ok ns q xs"
  shows "\<exists>ns'. traverse ns (if fst (newest q) = None then oldest q else newest q) = Some (newest q, ns')
     \<and> queue_ok ns' q xs \<and> same_lists ns ns'"
proof (cases "xs = []")
  case True
  then show ?thesis using assms by (simp add: traverse.simps [of ns] queue_ok_def)
next
  case False
  have q: "heap_ok ns" "chain ns (head xs) xs" "newest q = (Some (last xs), TagNone)"
    using assms False by (simp_all add: queue_ok_def)
  have "denotes ns (fst (link_at ns (last xs))) []" using link_of_last [OF q(2) False] by simp
  from next_ptr_denotes [OF q(1) link_of_last(2) [OF q(2) False] this]
  obtain t ns' where "next_ptr ns (last xs) = Some ((None, t), ns')" "heap_ok ns'" "same_lists ns ns'" by auto
  then show ?thesis using queue_ok_same_lists [OF assms] q(3) by (simp add: traverse.simps [of ns])
qed

lemma last_value: "xs \<noteq> [] \<Longrightarrow> seen (entry_at ns (Some (last xs), t)) = instance_of (ns ! last xs)"
  by (simp add: seen_def entry_at_def)

text \<open>What a condition is asked about: the newest entry.\<close>

definition last_seen :: "'a nodes \<Rightarrow> addr list \<Rightarrow> 'a option" where
  "last_seen ns xs = (if xs = [] then None else instance_of (ns ! last xs))"

lemma queue_push_if_ok:
  assumes "queue_ok ns q xs"
  shows "\<exists>r q' ns'. queue_push_if (\<lambda>e. c (seen e)) val ns q = Some (r, q', ns')
     \<and> length ns \<le> length ns' \<and> (\<forall>a<length ns. instance_of (ns' ! a) = instance_of (ns ! a))
     \<and> (if c (last_seen ns xs)
        then \<exists>entry. r = Inr entry \<and> instance_of (ns' ! entry) = Some val \<and> queue_ok ns' q' (xs @ [entry])
        else r = Inl (Some val) \<and> queue_ok ns' q' xs)"
proof -
  obtain ns1 where t: "traverse ns (if fst (newest q) = None then oldest q else newest q) = Some (newest q, ns1)"
    "queue_ok ns1 q xs" "same_lists ns ns1"
    using traverse_last [OF assms] by blast
  have len: "length ns1 = length ns" "\<forall>a<length ns. instance_of (ns1 ! a) = instance_of (ns ! a)"
    using t(3) by (auto simp: same_lists_def)
  have q: "heap_ok ns1" "chain ns1 (head xs) xs" "oldest q = (head xs, TagNone)"
      "newest q = (if xs = [] then None else Some (last xs), TagNone)" "\<forall>x \<in> set xs. live ns1 x"
      "xs \<noteq> [] \<Longrightarrow> link_at ns1 (last xs) = (None, TagNone)"
    using t(2) by (simp_all add: queue_ok_def)
  have seen: "seen (entry_at ns1 (newest q)) = last_seen ns xs"
    using q(4) len link_of_last(2) [OF q(2)] by (auto simp: last_seen_def last_value seen_def entry_at_def)
  show ?thesis
  proof (cases "c (last_seen ns xs)")
    case False
    then show ?thesis using t len by (auto simp: queue_push_if_def seen)
  next
    case True
    show ?thesis
    proof (cases "xs = []")
      case Nil: True
      have eq: "ns1 @ [entry_new val] = set_link (ns1 @ [entry_new val]) (length ns1) (None, TagNone)"
        by (simp add: set_link_def swap_link_def entry_new_def)
      note pe = push_entry [OF q(1) denotes_None [THEN iffD2, OF refl], of val, folded eq]
      have new: "link_at (ns1 @ [entry_new val]) (length ns1) = (None, TagNone)"
        by (simp add: link_at_def entry_new_def)
      have "queue_push_if (\<lambda>e. c (seen e)) val ns q = Some (Inr (length ns1),
          \<lparr>oldest = (Some (length ns1), TagNone), newest = (Some (length ns1), TagNone)\<rparr>, ns1 @ [entry_new val])"
        using t(1) True Nil q(3,4) seen
        by (cases q) (simp add: queue_push_if_def queue_push_loop.simps [of _ "length ns1"] queue_link_new_def)
      moreover have "queue_ok (ns1 @ [entry_new val]) \<lparr>oldest = (Some (length ns1), TagNone),
          newest = (Some (length ns1), TagNone)\<rparr> (xs @ [length ns1])"
        using pe(1,5) Nil new by (simp add: queue_ok_def live_def is_deleted_def)
      ultimately show ?thesis using True len pe(4) by (auto simp: nth_append)
    next
      case False
      let ?l = "last xs"
      let ?ns = "set_link (ns1 @ [entry_new val]) ?l (Some (length ns1), TagNone)"
      have l: "?l < length ns1" using link_of_last(2) [OF q(2) False] .
      note ae = append_entry [OF q(1) l q(6) [OF False], where val = val]
      have cas: "cas_link (ns1 @ [entry_new val]) ?l (None, TagNone) (Some (length ns1), TagNone) = (Inr (None, TagNone), ?ns)"
        using l q(6) [OF False] by (intro cas_link_ok) (simp add: link_at_append)
      have "head xs \<noteq> None" using False by (cases xs) auto
      then have "queue_push_if (\<lambda>e. c (seen e)) val ns q =
          Some (Inr (length ns1), q\<lparr>newest := (Some (length ns1), TagNone)\<rparr>, ?ns)"
        using t(1) True False q(3,4) seen cas
        by (auto simp: queue_push_if_def queue_push_loop.simps [of _ "length ns1"] queue_link_new_def Let_def)
      moreover have "queue_ok ?ns (q\<lparr>newest := (Some (length ns1), TagNone)\<rparr>) (xs @ [length ns1])"
      proof -
        have "chain ?ns (head xs) (xs @ [length ns1])" using ae(9) [OF q(2)] False by simp
        moreover have "head (xs @ [length ns1]) = head xs" using False by (cases xs) auto
        ultimately show ?thesis using ae(1,3,4,7) q(3,5) chain_bounds [OF q(2)] by (auto simp: queue_ok_def)
      qed
      ultimately show ?thesis using True len ae(2,5,6) by auto
    qed
  qed
qed

lemma queue_pop_if_ok:
  assumes "queue_ok ns q xs"
  shows "\<exists>r q' ns'. queue_pop_if (\<lambda>e. c (instance_of e)) ns q = Some (r, q', ns')
     \<and> length ns' = length ns \<and> (\<forall>a<length ns. instance_of (ns' ! a) = instance_of (ns ! a))
     \<and> (case xs of
          [] \<Rightarrow> r = Inr None \<and> queue_ok ns' q' []
        | x # ys \<Rightarrow> if c (instance_of (ns ! x)) then r = Inr (Some x) \<and> queue_ok ns' q' ys
            else r = Inl x \<and> queue_ok ns' q' xs)"
proof (cases xs)
  case Nil
  then show ?thesis using assms by (simp add: queue_pop_if_def queue_pop_loop.simps [of _ ns] queue_ok_def)
next
  case (Cons x ys)
  have q: "heap_ok ns" "chain ns (Some x) (x # ys)" "oldest q = (Some x, TagNone)" "live ns x" "\<forall>y \<in> set ys. live ns y"
      "newest q = (Some (last (x # ys)), TagNone)" "link_at ns (last (x # ys)) = (None, TagNone)"
    using assms Cons by (simp_all add: queue_ok_def)
  show ?thesis
  proof (cases "c (instance_of (ns ! x))")
    case False
    then show ?thesis using q Cons assms by (simp add: queue_pop_if_def queue_pop_loop.simps [of _ ns] live_def)
  next
    case True
    let ?ns = "set_link ns x (fst (link_at ns x), Second)"
    have x: "x < length ns" "chain ns (fst (link_at ns x)) ys" "x \<notin> set ys"
      using q(2) chain_not_in_tail [of ns x ys] by auto
    have del: "delete_self ns x = (True, ?ns)"
      using q(4) by (cases "snd (link_at ns x)") (auto simp: delete_self_def update_tag_if_simp live_def is_deleted_def)
    have h: "heap_ok ?ns" using set_tag_ok [OF q(1) x(1), of Second] by simp
    have ch: "chain ?ns (fst (link_at ?ns x)) ys" using x set_tag_chain [OF x(1)] by (simp add: link_at_set_link)
    have lv: "\<forall>y \<in> set ys. live ?ns y" using q(5) x by (auto simp: set_tag_live)
    have "denotes ?ns (fst (link_at ?ns x)) ys" using ch lv unfolding denotes_def by (intro exI [of _ ys]) simp
    from next_ptr_denotes [OF h _ this] x(1) obtain t ns' where
      n: "next_ptr ?ns x = Some ((head ys, t), ns')" "heap_ok ns'" "same_lists ?ns ns'" by auto
    let ?q = "\<lparr>oldest = (head ys, TagNone), newest = (if ys = [] then None else Some (last ys), TagNone)\<rparr>"
    have "link_at ?ns (last ys) = (None, TagNone)" if "ys \<noteq> []"
      using q(7) that x by (auto simp: link_at_set_link)
    then have "queue_ok ?ns ?q ys" using h ch lv chain_head [OF ch] by (simp add: queue_ok_def)
    from queue_ok_same_lists [OF this n(2,3)] have ok: "queue_ok ns' ?q ys" .
    have "cleanup_oldest ?ns q = Some ((head ys, TagNone), ?q, ns')"
      using q(3,6) n(1) x(1) by (cases q; cases ys) (auto simp: cleanup_oldest_def is_deleted_def link_at_set_link)
    then have "queue_pop_if (\<lambda>e. c (instance_of e)) ns q = Some (Inr (Some x), ?q, ns')"
      using q(3,4) del True by (simp add: queue_pop_if_def queue_pop_loop.simps [of _ ns] live_def)
    then show ?thesis using ok n(3) True Cons by (auto simp: same_lists_def)
  qed
qed

section \<open>Properties\<close>

text \<open>The queue as a container.\<close>

definition queue_represents :: "queue \<times> 'a nodes \<Rightarrow> 'a list \<Rightarrow> bool" where
  "queue_represents s vs \<longleftrightarrow> (\<exists>xs. queue_ok (snd s) (fst s) xs \<and> entry_values (snd s) xs = vs)"

definition queue_push_value :: "'a \<Rightarrow> queue \<times> 'a nodes \<Rightarrow> (queue \<times> 'a nodes) option" where
  "queue_push_value v s = map_option (\<lambda>(_, q, ns). (q, ns)) (queue_push v (snd s) (fst s))"

definition queue_pop_value :: "queue \<times> 'a nodes \<Rightarrow> ('a option \<times> queue \<times> 'a nodes) option" where
  "queue_pop_value s =
     map_option (\<lambda>(r, q, ns). (Option.bind r (\<lambda>a. instance_of (ns ! a)), q, ns)) (queue_pop (snd s) (fst s))"

lemma queue_push_ok:
  assumes "queue_ok ns q xs"
  shows "\<exists>entry q' ns'. queue_push val ns q = Some (entry, q', ns')
     \<and> (\<forall>a<length ns. instance_of (ns' ! a) = instance_of (ns ! a))
     \<and> instance_of (ns' ! entry) = Some val \<and> queue_ok ns' q' (xs @ [entry])"
  using queue_push_if_ok [OF assms, of "\<lambda>_. True" val] by (auto simp: queue_push_def)

lemma queue_pop_ok:
  assumes "queue_ok ns q xs"
  shows "\<exists>q' ns'. queue_pop ns q = Some (head xs, q', ns') \<and> queue_ok ns' q' (tl xs)
     \<and> (\<forall>a<length ns. instance_of (ns' ! a) = instance_of (ns ! a))"
  using queue_pop_if_ok [OF assms, of "\<lambda>_. True"] by (cases xs) (auto simp: queue_pop_def)

lemma queue_ok_value:
  "queue_ok ns q xs \<Longrightarrow> x \<in> set xs \<Longrightarrow> x < length ns \<and> instance_of (ns ! x) = Some (the (instance_of (ns ! x)))"
  using heap_okD(3) [of ns x] chain_bounds [of ns "head xs" xs x] by (auto simp: queue_ok_def)

lemma queue_values_cong:
  "\<forall>a<length ns. instance_of (ns' ! a) = instance_of (ns ! a) \<Longrightarrow> queue_ok ns q xs \<Longrightarrow> set ys \<subseteq> set xs
    \<Longrightarrow> entry_values ns' ys = entry_values ns ys"
  using entry_values_cong [OF _ queue_ok_denotes] by blast

interpretation fifo: sequence_container queue_represents queue_push_value queue_pop_value "\<lambda>v vs. vs @ [v]"
proof
  fix s :: "queue \<times> 'a nodes" and vs v
  assume "queue_represents s vs"
  then obtain xs where xs: "queue_ok (snd s) (fst s) xs" "entry_values (snd s) xs = vs" by (auto simp: queue_represents_def)
  obtain entry q' ns' where p: "queue_push v (snd s) (fst s) = Some (entry, q', ns')"
      "\<forall>a<length (snd s). instance_of (ns' ! a) = instance_of (snd s ! a)"
      "instance_of (ns' ! entry) = Some v" "queue_ok ns' q' (xs @ [entry])"
    using queue_push_ok [OF xs(1), of v] by blast
  have "entry_values ns' (xs @ [entry]) = vs @ [v]"
    using queue_values_cong [OF p(2) xs(1), of xs] xs(2) p(3) by (auto simp: entry_values_def)
  then show "\<exists>s'. queue_push_value v s = Some s' \<and> queue_represents s' (vs @ [v])"
    using p by (auto simp: queue_push_value_def queue_represents_def)
next
  fix s :: "queue \<times> 'a nodes"
  assume "queue_represents s []"
  then have "queue_ok (snd s) (fst s) []" by (auto simp: queue_represents_def entry_values_def)
  from queue_pop_ok [OF this] show "\<exists>s'. queue_pop_value s = Some (None, s') \<and> queue_represents s' []"
    by (auto simp: queue_pop_value_def queue_represents_def entry_values_def)
next
  fix s :: "queue \<times> 'a nodes" and v vs
  assume "queue_represents s (v # vs)"
  then obtain x xs where xs: "queue_ok (snd s) (fst s) (x # xs)" "the (instance_of (snd s ! x)) = v"
      "entry_values (snd s) xs = vs"
    by (auto simp: queue_represents_def entry_values_def map_eq_Cons_conv)
  from queue_pop_ok [OF xs(1)] obtain q' ns' where p: "queue_pop (snd s) (fst s) = Some (Some x, q', ns')"
      "queue_ok ns' q' xs" "\<forall>a<length (snd s). instance_of (ns' ! a) = instance_of (snd s ! a)"
    by auto
  have "instance_of (ns' ! x) = Some v" using p(3) queue_ok_value [OF xs(1), of x] xs(2) by simp
  moreover have "entry_values ns' xs = vs" using queue_values_cong [OF p(3) xs(1), of xs] xs(3) by auto
  ultimately show "\<exists>s'. queue_pop_value s = Some (Some v, s') \<and> queue_represents s' vs"
    using p by (auto simp: queue_pop_value_def queue_represents_def)
qed

text \<open>
  C11. Any sequence of push and pop on a new queue, and on every queue whose entries have only been removed
  by pop, returns and gives the answers of a list in first-in-first-out order.
\<close>

theorem queue_refines_list:
  assumes "queue_represents s vs"
  shows "container_answers queue_push_value queue_pop_value s ops = Some (list_answers (\<lambda>v vs. vs @ [v]) vs ops)"
  using assms by (rule fifo.answers)

theorem queue_refines_list_witness:
  "container_answers queue_push_value queue_pop_value (queue_new, []) [Push (3::nat), Push 1, Pop, Pop, Pop]
     = Some [Some 3, Some 1, None]"
proof -
  have "queue_represents (queue_new, [] :: nat nodes) []"
    using queue_ok_new by (auto simp: queue_represents_def entry_values_def)
  from queue_refines_list [OF this, of "[Push 3, Push 1, Pop, Pop, Pop]"] show ?thesis
    by (simp del: container_answers.simps)
qed

text \<open>
  push_if asks the condition about the newest entry and pop_if about the oldest one, and they add and
  remove exactly that entry; len, is_empty and the iterator agree with the list of entries.
\<close>

theorem queue_operations:
  assumes "queue_ok ns q xs"
  shows "(\<exists>r q' ns'. queue_push_if (\<lambda>e. c (seen e)) val ns q = Some (r, q', ns') \<and>
       (if c (last_seen ns xs) then \<exists>entry. r = Inr entry \<and> instance_of (ns' ! entry) = Some val \<and> queue_ok ns' q' (xs @ [entry])
        else r = Inl (Some val) \<and> queue_ok ns' q' xs)) \<and>
    (\<exists>r q' ns'. queue_pop_if (\<lambda>e. d (instance_of e)) ns q = Some (r, q', ns') \<and>
       (case xs of [] \<Rightarrow> r = Inr None \<and> queue_ok ns' q' []
        | x # ys \<Rightarrow> if d (instance_of (ns ! x)) then r = Inr (Some x) \<and> queue_ok ns' q' ys
            else r = Inl x \<and> queue_ok ns' q' xs)) \<and>
    (\<exists>ns'. queue_len ns q = Some (length xs, q, ns') \<and> queue_ok ns' q xs) \<and>
    queue_is_empty q = (xs = []) \<and>
    queue_peek_with seen ns q = Some (first_value ns xs, q, ns) \<and>
    (\<exists>current ns'. queue_iter ns q = Some (current, q, ns) \<and> list_iter_rest ns current = Some (xs, ns') \<and> queue_ok ns' q xs)"
proof (intro conjI)
  have q: "heap_ok ns" "oldest q = (head xs, TagNone)" "\<forall>x \<in> set xs. live ns x"
    using assms by (simp_all add: queue_ok_def)
  have iter: "queue_iter ns q = Some (oldest q, q, ns)"
    using q by (cases xs) (auto simp: queue_iter_def cleanup_oldest_def live_def)
  obtain ns' where r: "list_iter_rest ns (head xs, TagNone) = Some (xs, ns')" "heap_ok ns'" "same_lists ns ns'"
    using list_iter_rest_ok [OF q(1) queue_ok_denotes [OF assms] refl] by blast
  have ok: "queue_ok ns' q xs" using assms r(2,3) by (rule queue_ok_same_lists)
  show "\<exists>current ns'. queue_iter ns q = Some (current, q, ns) \<and> list_iter_rest ns current = Some (xs, ns') \<and> queue_ok ns' q xs"
    using iter r ok q(2) by auto
  show "\<exists>ns'. queue_len ns q = Some (length xs, q, ns') \<and> queue_ok ns' q xs"
    using iter r ok q(2) by (auto simp: queue_len_def)
  show "queue_peek_with seen ns q = Some (first_value ns xs, q, ns)"
    using q by (cases xs)
      (auto simp: queue_peek_with_def queue_peek_loop.simps [of _ ns] live_def seen_def first_value_def)
  show "queue_is_empty q = (xs = [])" using assms by (simp add: queue_ok_def queue_is_empty_def)
  show "\<exists>r q' ns'. queue_push_if (\<lambda>e. c (seen e)) val ns q = Some (r, q', ns') \<and>
       (if c (last_seen ns xs) then \<exists>entry. r = Inr entry \<and> instance_of (ns' ! entry) = Some val \<and> queue_ok ns' q' (xs @ [entry])
        else r = Inl (Some val) \<and> queue_ok ns' q' xs)"
    using queue_push_if_ok [OF assms, of c val] by blast
  show "\<exists>r q' ns'. queue_pop_if (\<lambda>e. d (instance_of e)) ns q = Some (r, q', ns') \<and>
       (case xs of [] \<Rightarrow> r = Inr None \<and> queue_ok ns' q' []
        | x # ys \<Rightarrow> if d (instance_of (ns ! x)) then r = Inr (Some x) \<and> queue_ok ns' q' ys
            else r = Inl x \<and> queue_ok ns' q' xs)"
    using queue_pop_if_ok [OF assms, of d] by blast
qed

theorem queue_operations_witness:
  "\<exists>ns'. queue_len [\<lparr>instance_of = Some (5::nat), link_of = (None, TagNone)\<rparr>]
      \<lparr>oldest = (Some 0, TagNone), newest = (Some 0, TagNone)\<rparr>
    = Some (1, \<lparr>oldest = (Some 0, TagNone), newest = (Some 0, TagNone)\<rparr>, ns')"
proof -
  have "queue_ok [\<lparr>instance_of = Some (5::nat), link_of = (None, TagNone)\<rparr>]
      \<lparr>oldest = (Some 0, TagNone), newest = (Some 0, TagNone)\<rparr> [0]"
    by (simp add: queue_ok_def heap_ok_def link_at_def live_def is_deleted_def)
  from queue_operations [OF this, of "\<lambda>_. True" 0 "\<lambda>_. True"] show ?thesis by auto
qed

section \<open>A push that does not return\<close>

text \<open>Every entry that the queue still reaches has been deleted.\<close>

definition only_deleted :: "'a nodes \<Rightarrow> addr \<Rightarrow> bool" where
  "only_deleted ns a \<longleftrightarrow> a < length ns \<and> is_deleted ns a \<and> denotes ns (fst (link_at ns a)) []"

lemma only_deleted_iff: "only_deleted ns a \<longleftrightarrow> denotes ns (Some a) []"
  by (auto simp: only_deleted_def denotes_Some live_def)

lemma traverse_only_deleted:
  assumes "heap_ok ns" "only_deleted ns a"
  shows "\<exists>ns'. traverse ns (Some a, t) = Some ((Some a, t), ns') \<and> heap_ok ns' \<and> same_lists ns ns'"
proof -
  obtain t' ns' where "next_ptr ns a = Some ((None, t'), ns')" "heap_ok ns'" "same_lists ns ns'"
    using next_ptr_denotes [OF assms(1), of a "[]"] assms(2) by (auto simp: only_deleted_def)
  then show ?thesis by (simp add: traverse.simps [of ns])
qed

definition stuck :: "('a node option \<Rightarrow> bool) \<Rightarrow> 'a nodes \<Rightarrow> queue \<Rightarrow> link \<Rightarrow> bool" where
  "stuck cond ns q p \<longleftrightarrow> cond = (\<lambda>_. True) \<and> heap_ok ns \<and> (\<exists>a. fst (oldest q) = Some a \<and> only_deleted ns a)
     \<and> (\<exists>e. fst p = Some e \<and> only_deleted ns e)"

text \<open>A round of the loop leads from one such state to another.\<close>

lemma stuck_round:
  assumes "stuck cond ns q p"
  shows "\<exists>ns' p' actual. queue_link_new new ns q p = (Inl actual, q, ns) \<and> snd actual \<noteq> First
     \<and> traverse ns (if fst actual = None then oldest q else actual) = Some (p', ns') \<and> stuck cond ns' q p'"
proof -
  obtain a e where s: "cond = (\<lambda>_. True)" "heap_ok ns" "fst (oldest q) = Some a" "only_deleted ns a"
      "fst p = Some e" "only_deleted ns e"
    using assms by (auto simp: stuck_def)
  have tag: "snd (link_at ns e) = Second"
    using s(2,6) heap_okD(1) by (auto simp: only_deleted_def is_deleted_def)
  then have fail: "queue_link_new new ns q p = (Inl (link_at ns e), q, ns)"
    using s(5) by (simp add: queue_link_new_def cas_link_fail prod_eq_iff)
  obtain e' t' where e': "only_deleted ns e'"
      "(if fst (link_at ns e) = None then oldest q else link_at ns e) = (Some e', t')"
  proof (cases "fst (link_at ns e)")
    case None
    then show ?thesis using that [of a "snd (oldest q)"] s(3,4) by (simp add: prod_eq_iff)
  next
    case (Some f)
    then have "denotes ns (Some f) []" using s(6) by (simp add: only_deleted_def)
    then have "only_deleted ns f" by (simp add: only_deleted_iff)
    then show ?thesis using that [of f "snd (link_at ns e)"] Some by (simp add: prod_eq_iff)
  qed
  obtain ns' where t: "traverse ns (Some e', t') = Some ((Some e', t'), ns')" "heap_ok ns'" "same_lists ns ns'"
    using traverse_only_deleted [OF s(2) e'(1)] by blast
  have "stuck cond ns' q (Some e', t')"
    using s(1,3,4) e'(1) t(2) same_lists_denotes [OF t(3)] by (simp add: stuck_def only_deleted_iff)
  then show ?thesis using fail tag t(1) e'(2)
    by (intro exI [of _ ns'] exI [of _ "(Some e', t')"] exI [of _ "link_at ns e"]) simp
qed

lemma queue_push_loop_stuck: "stuck cond ns q p \<Longrightarrow> queue_push_loop cond new ns q p = None"
proof -
  have "\<not> stuck cond ns q p" if "queue_push_loop cond new ns q p = Some y" for y
    using that
  proof (rule queue_push_loop.raw_induct [where P = "\<lambda>cond new ns q p y. \<not> stuck cond ns q p", rotated])
    fix f :: "('a node option \<Rightarrow> bool) \<Rightarrow> addr \<Rightarrow> 'a nodes \<Rightarrow> queue \<Rightarrow> link \<Rightarrow> (('a option + addr) \<times> queue \<times> 'a nodes) option"
      and cond new ns q p y
    assume ih: "\<And>cond new ns q p y. f cond new ns q p = Some y \<Longrightarrow> \<not> stuck cond ns q p"
      and body: "(case queue_link_new new ns q p of
        (Inr _, q, ns) \<Rightarrow>
          (let q = q\<lparr>newest := (Some new, TagNone)\<rparr>;
               q = (if fst (oldest q) = None then q\<lparr>newest := (None, TagNone)\<rparr> else q)
           in Some (Inr new, q, ns))
      | (Inl actual, q, ns) \<Rightarrow>
          do {
            (newest_ptr, q, ns) \<leftarrow> (if snd actual = First then cleanup_oldest ns q
                                   else if fst actual = None then Some (oldest q, q, ns)
                                   else Some (actual, q, ns));
            (newest_ptr, ns) \<leftarrow> traverse ns newest_ptr;
            if \<not> cond (entry_at ns newest_ptr)
            then let (val, ns) = take_inner ns new in Some (Inl val, q, ns)
            else f cond new ns q newest_ptr
          }) = Some y"
    show "\<not> stuck cond ns q p"
    proof
      assume st: "stuck cond ns q p"
      from stuck_round [OF this, of new] obtain ns' p' actual where
        r: "queue_link_new new ns q p = (Inl actual, q, ns)" "snd actual \<noteq> First"
          "traverse ns (if fst actual = None then oldest q else actual) = Some (p', ns')" "stuck cond ns' q p'" by blast
      have "f cond new ns' q p' = Some y"
        using body r(1-3) st by (auto simp: stuck_def split: if_splits)
      then show False using ih r(4) by blast
    qed
  qed
  then show "stuck cond ns q p \<Longrightarrow> queue_push_loop cond new ns q p = None"
    by (cases "queue_push_loop cond new ns q p") auto
qed

text \<open>
  C13. When every entry of a queue has been deleted through the reference that its push returned, the next
  push does not return: it finds the last entry deleted, takes the oldest entry instead of removing
  it, and is back where it was.
\<close>

theorem queue_push_on_deleted_diverges:
  assumes "heap_ok ns" "fst (oldest q) = Some a" "only_deleted ns a" "fst (newest q) = Some e" "only_deleted ns e"
  shows "queue_push val ns q = None"
proof -
  obtain t where n: "newest q = (Some e, t)" using assms(4) by (cases "newest q") auto
  obtain ns1 where t: "traverse ns (Some e, t) = Some ((Some e, t), ns1)" "heap_ok ns1" "same_lists ns ns1"
    using traverse_only_deleted [OF assms(1,5)] by blast
  let ?ns = "ns1 @ [entry_new val]"
  have eq: "?ns = set_link (ns1 @ [entry_new val]) (length ns1) (None, TagNone)"
    by (simp add: set_link_def swap_link_def entry_new_def)
  note pe = push_entry [OF t(2) denotes_None [THEN iffD2, OF refl], of val, folded eq]
  have "only_deleted ?ns a" "only_deleted ?ns e"
    using assms(3,5) same_lists_denotes [OF t(3)] pe(2) by (simp_all add: only_deleted_iff extends_def)
  then have "queue_push_loop (\<lambda>_. True) (length ns1) ?ns q (Some e, t) = None"
    using pe(1) assms(2) by (intro queue_push_loop_stuck) (simp add: stuck_def)
  then show ?thesis using t(1) n by (simp add: queue_push_def queue_push_if_def)
qed

theorem queue_push_on_deleted_diverges_witness:
  "\<exists>entry q ns. queue_push (1::nat) [] queue_new = Some (entry, q, ns) \<and> queue_push 2 (snd (delete_self ns entry)) q = None"
proof -
  let ?q = "\<lparr>oldest = (Some 0, TagNone), newest = (Some 0, TagNone)\<rparr>"
  let ?ns = "[\<lparr>instance_of = Some 1, link_of = (None, Second)\<rparr>] :: nat nodes"
  have p: "queue_push (1::nat) [] queue_new = Some (0, ?q, [\<lparr>instance_of = Some 1, link_of = (None, TagNone)\<rparr>])"
    by code_simp
  have d: "snd (delete_self [\<lparr>instance_of = Some 1, link_of = (None, TagNone)\<rparr>] 0) = ?ns" by code_simp
  have "heap_ok ?ns" "only_deleted ?ns 0"
    by (simp_all add: heap_ok_def only_deleted_def link_at_def live_def is_deleted_def)
  from queue_push_on_deleted_diverges [OF this(1) _ this(2) _ this(2), of ?q 2] show ?thesis
    using p d by auto
qed

end
