(* ===== verification/Tree_Node.thy ===== *)
theory Tree_Node
  imports Leaf_Thms Linked_List
begin

text \<open>
  The leaf nodes of the tree index, \<^verbatim>\<open>src/tree_index/leaf_node.rs\<close>, run by one thread. The leaves of an index
  are the entries of a heap with links as in \<open>Linked_List\<close>; leaf nodes and internal nodes are the
  elements of a second heap. The children of a node hang in a leaf that maps keys to cells, a cell
  being the content of an \<^verbatim>\<open>AtomicShared\<close>; the cell of the unbounded child is a field of the node.

  The methods take the address of the node and the index, and return the result and the new index.
  \<^term>\<open>None\<close> stands for a call that does not return: a panic of \<^verbatim>\<open>unwrap\<close> or \<^verbatim>\<open>unreachable\<close>, a loop that goes on
  without a change of the state, or waiting for a latch that no other thread releases. Guards and
  \<^verbatim>\<open>release\<close> have no effect on the heaps; reference counts are the subject of \<open>Ebr_Shared\<close>.
\<close>

section \<open>Nodes\<close>

record ('k, 's) tree_node =
  children :: "('k, link) leaf"
  unbounded_child :: link
  split_op :: 's
  latch :: tag

text \<open>\<^verbatim>\<open>StructuralChange\<close> of a leaf node and of an internal node.\<close>

record 'k leaf_change =
  origin_leaf_key :: "'k option"
  origin_leaf :: "addr option"
  low_key_leaf :: "addr option"
  high_key_leaf :: "addr option"
  low_key_leaf_node :: "addr option"
  high_key_leaf_node :: "addr option"

record 'k node_change =
  origin_node_key :: "'k option"
  origin_node :: "addr option"
  low_key_node :: "addr option"
  middle_key :: "'k option"
  high_key_node :: "addr option"

type_synonym 'k leaf_node = "('k, 'k leaf_change) tree_node"
type_synonym 'k internal_node = "('k, 'k node_change) tree_node"

datatype 'k tnode = Internal "'k internal_node" | Leaf_Node "'k leaf_node"

record ('k, 'v) tree =
  leaves :: "('k, 'v) leaf nodes"
  tree_nodes :: "'k tnode list"

definition RETIRED :: tag where
  "RETIRED = First"

definition LOCKED :: tag where
  "LOCKED = Second"

definition no_leaf_change :: "'k leaf_change" where
  "no_leaf_change = \<lparr>origin_leaf_key = None, origin_leaf = None, low_key_leaf = None, high_key_leaf = None,
     low_key_leaf_node = None, high_key_leaf_node = None\<rparr>"

definition leaf_node_new :: "'k leaf_node" where
  "leaf_node_new = \<lparr>children = leaf_new, unbounded_child = (None, TagNone), split_op = no_leaf_change, latch = TagNone\<rparr>"

definition node_retired :: "('k, 's) tree_node \<Rightarrow> bool" where
  "node_retired n \<longleftrightarrow> snd (unbounded_child n) = RETIRED"

section \<open>The latch\<close>

definition node_try_lock :: "('k, 's) tree_node \<Rightarrow> bool \<times> ('k, 's) tree_node" where
  "node_try_lock n = (let (cell, r) = compare_exchange (latch n) TagNone LOCKED in (is_ok r, n\<lparr>latch := cell\<rparr>))"

definition node_unlock :: "('k, 's) tree_node \<Rightarrow> ('k, 's) tree_node" where
  "node_unlock n = n\<lparr>latch := TagNone\<rparr>"

definition node_retire :: "('k, 's) tree_node \<Rightarrow> ('k, 's) tree_node" where
  "node_retire n = n\<lparr>latch := RETIRED\<rparr>"

definition node_wait :: "('k, 's) tree_node \<Rightarrow> unit option" where
  "node_wait n = (if latch n = LOCKED then None else Some ())"

section \<open>Cells\<close>

text \<open>A cell is named by the key of the child, or \<^term>\<open>None\<close> for the unbounded child; it is what a reference to the
  \<^verbatim>\<open>AtomicShared\<close> of a child refers to. A cell of \<open>children\<close> can also be named by its slot.\<close>

definition set_value :: "('k, 'c) leaf \<Rightarrow> nat \<Rightarrow> 'c \<Rightarrow> ('k, 'c) leaf" where
  "set_value l i v = l\<lparr>entry_array := (entry_array l)[i := map_option (\<lambda>(k, _). (k, v)) (entry_array l ! i)]\<rparr>"

definition cell_load :: "('k::linorder, 's) tree_node \<Rightarrow> 'k option \<Rightarrow> link" where
  "cell_load n r =
     (case r of
        None \<Rightarrow> unbounded_child n
      | Some k \<Rightarrow> (case leaf_search (children n) k of Some c \<Rightarrow> c | None \<Rightarrow> (None, TagNone)))"

definition cell_store :: "('k::linorder, 's) tree_node \<Rightarrow> 'k option \<Rightarrow> link \<Rightarrow> ('k, 's) tree_node" where
  "cell_store n r c =
     (case r of
        None \<Rightarrow> n\<lparr>unbounded_child := c\<rparr>
      | Some k \<Rightarrow>
          (case search_slot (children n) k (leaf_metadata (children n)) of
             None \<Rightarrow> n
           | Some i \<Rightarrow> n\<lparr>children := set_value (children n) i c\<rparr>))"

definition cell_clone :: "link \<Rightarrow> link" where
  "cell_clone c = (if fst c = None then (None, TagNone) else c)"

section \<open>Access to the heaps\<close>

definition leaf_at :: "('k, 'v) tree \<Rightarrow> addr \<Rightarrow> ('k, 'v) leaf" where
  "leaf_at s l = the (instance_of (leaves s ! l))"

definition put_leaf :: "('k, 'v) tree \<Rightarrow> addr \<Rightarrow> ('k, 'v) leaf \<Rightarrow> ('k, 'v) tree" where
  "put_leaf s l x = s\<lparr>leaves := set_instance (leaves s) l x\<rparr>"

definition new_leaf :: "('k, 'v) tree \<Rightarrow> ('k, 'v) leaf \<Rightarrow> addr \<times> ('k, 'v) tree" where
  "new_leaf s x = (length (leaves s), s\<lparr>leaves := leaves s @ [entry_new x]\<rparr>)"

definition new_node :: "('k, 'v) tree \<Rightarrow> 'k tnode \<Rightarrow> addr \<times> ('k, 'v) tree" where
  "new_node s n = (length (tree_nodes s), s\<lparr>tree_nodes := tree_nodes s @ [n]\<rparr>)"

definition put_node :: "('k, 'v) tree \<Rightarrow> addr \<Rightarrow> 'k tnode \<Rightarrow> ('k, 'v) tree" where
  "put_node s a n = s\<lparr>tree_nodes := (tree_nodes s)[a := n]\<rparr>"

definition lnode :: "('k, 'v) tree \<Rightarrow> addr \<Rightarrow> 'k leaf_node" where
  "lnode s a = (case tree_nodes s ! a of Leaf_Node n \<Rightarrow> n | Internal _ \<Rightarrow> leaf_node_new)"

definition put_lnode :: "('k, 'v) tree \<Rightarrow> addr \<Rightarrow> 'k leaf_node \<Rightarrow> ('k, 'v) tree" where
  "put_lnode s a n = put_node s a (Leaf_Node n)"

text \<open>Operations on the links of the leaves.\<close>

definition leaf_push_back :: "('k, 'v) tree \<Rightarrow> addr \<Rightarrow> addr \<Rightarrow> ('k, 'v) tree option" where
  "leaf_push_back s target l = map_option (\<lambda>(_, ns). s\<lparr>leaves := ns\<rparr>) (push_back (leaves s) target l True)"

definition leaf_delete_self :: "('k, 'v) tree \<Rightarrow> addr \<Rightarrow> ('k, 'v) tree" where
  "leaf_delete_self s l = s\<lparr>leaves := snd (delete_self (leaves s) l)\<rparr>"

section \<open>Scanners over several leaves\<close>

text \<open>A \<^verbatim>\<open>Scanner\<close> with the leaf it scans. The inner loop of \<^verbatim>\<open>jump\<close> looks for the first entry above a key.\<close>

fun scan_beyond :: "nat \<Rightarrow> 'k::linorder \<Rightarrow> ('k, 'v) leaf \<Rightarrow> scanner \<Rightarrow> scanner option" where
  "scan_beyond 0 key l sc = None"
| "scan_beyond (Suc fuel) key l sc =
     (case scanner_next l sc of
        (None, _) \<Rightarrow> None
      | (Some e, sc) \<Rightarrow> if key < fst e then Some sc else scan_beyond fuel key l sc)"

partial_function (option) jump_loop ::
    "'k::linorder option \<Rightarrow> addr \<Rightarrow> link \<Rightarrow> ('k, 'v) tree \<Rightarrow> ((addr \<times> scanner) option \<times> ('k, 'v) tree) option" where
  "jump_loop min_allowed_key self next_leaf_ptr s =
     (case fst next_leaf_ptr of
        None \<Rightarrow> Some (None, s)
      | Some next_leaf \<Rightarrow>
          (let l = leaf_at s next_leaf;
               found = (case min_allowed_key of
                          Some key \<Rightarrow>
                            if \<not> is_clear (leaves s) self then scan_beyond (NUM_ENTRIES + 1) key l (scanner_new l)
                            else (case scanner_next l (scanner_new l) of (Some _, sc) \<Rightarrow> Some sc | (None, _) \<Rightarrow> None)
                        | None \<Rightarrow> (case scanner_next l (scanner_new l) of (Some _, sc) \<Rightarrow> Some sc | (None, _) \<Rightarrow> None))
           in case found of
                Some sc \<Rightarrow> Some (Some (next_leaf, sc), s)
              | None \<Rightarrow>
                  do {
                    (next_leaf_ptr, ns) \<leftarrow> next_ptr (leaves s) next_leaf;
                    jump_loop min_allowed_key self next_leaf_ptr (s\<lparr>leaves := ns\<rparr>)
                  }))"

definition jump ::
  "'k::linorder option \<Rightarrow> addr \<Rightarrow> ('k, 'v) tree \<Rightarrow> ((addr \<times> scanner) option \<times> ('k, 'v) tree) option" where
  "jump min_allowed_key self s =
     do {
       (next_leaf_ptr, ns) \<leftarrow> next_ptr (leaves s) self;
       jump_loop min_allowed_key self next_leaf_ptr (s\<lparr>leaves := ns\<rparr>)
     }"

text \<open>The slots that a loop over a scanner visits.\<close>

fun scan_slots :: "nat \<Rightarrow> ('k, 'c) leaf \<Rightarrow> scanner \<Rightarrow> nat list" where
  "scan_slots 0 l sc = []"
| "scan_slots (Suc fuel) l sc =
     (case scanner_next l sc of (None, _) \<Rightarrow> [] | (Some _, sc) \<Rightarrow> entry_index sc # scan_slots fuel l sc)"

definition child_slots :: "('k, 'c) leaf \<Rightarrow> nat list" where
  "child_slots l = scan_slots NUM_ENTRIES l (scanner_new l)"

definition child_entries :: "('k, 'c) leaf \<Rightarrow> ('k \<times> 'c) list" where
  "child_entries l = scan NUM_ENTRIES l (scanner_new l)"

section \<open>Reading a leaf node\<close>

definition leaf_node_search :: "'k::linorder \<Rightarrow> addr \<Rightarrow> ('k, 'v) tree \<Rightarrow> 'v option option" where
  "leaf_node_search key a s =
     (let n = lnode s a; (child, metadata) = min_greater_equal (children n) key
      in case child of
           Some (_, child) \<Rightarrow>
             (case fst child of
                Some c \<Rightarrow> if leaf_validate (children n) metadata then Some (leaf_search (leaf_at s c) key) else None
              | None \<Rightarrow> None)
         | None \<Rightarrow>
             (case fst (unbounded_child n) of
                Some c \<Rightarrow> if leaf_validate (children n) metadata then Some (leaf_search (leaf_at s c) key) else None
              | None \<Rightarrow> Some None))"

definition leaf_node_min :: "addr \<Rightarrow> ('k, 'v) tree \<Rightarrow> (addr \<times> scanner) option option" where
  "leaf_node_min a s =
     (let n = lnode s a; sc = scanner_new (children n)
      in case fst (scanner_next (children n) sc) of
           Some (_, child) \<Rightarrow>
             (case fst child of
                Some c \<Rightarrow> if leaf_validate (children n) (scanner_metadata sc) then Some (Some (c, scanner_new (leaf_at s c))) else None
              | None \<Rightarrow> None)
         | None \<Rightarrow>
             (case fst (unbounded_child n) of
                Some c \<Rightarrow> if leaf_validate (children n) (scanner_metadata sc) then Some (Some (c, scanner_new (leaf_at s c))) else None
              | None \<Rightarrow> Some None))"

text \<open>The loop at the end of \<^verbatim>\<open>max_le_appr\<close>, which starts from the minimum.\<close>

partial_function (option) min_le_loop ::
    "'k::linorder \<Rightarrow> addr \<times> scanner \<Rightarrow> ('k, 'v) tree \<Rightarrow> ((addr \<times> scanner) option \<times> ('k, 'v) tree) option" where
  "min_le_loop key min_scanner s =
     (case scanner_get (leaf_at s (fst min_scanner)) (snd min_scanner) of
        Some (k, _) \<Rightarrow> Some (if k \<le> key then Some min_scanner else None, s)
      | None \<Rightarrow>
          do {
            (r, s) \<leftarrow> jump None (fst min_scanner) s;
            (case r of None \<Rightarrow> Some (None, s) | Some min_scanner \<Rightarrow> min_le_loop key min_scanner s)
          })"

definition leaf_node_max_le_appr ::
  "'k::linorder \<Rightarrow> addr \<Rightarrow> ('k, 'v) tree \<Rightarrow> ((addr \<times> scanner) option \<times> ('k, 'v) tree) option" where
  "leaf_node_max_le_appr key a s =
     (let n = lnode s a;
          fallback = do {
            m \<leftarrow> leaf_node_min a s;
            (case m of
               None \<Rightarrow> Some (None, s)
             | Some (c, sc) \<Rightarrow> min_le_loop key (c, snd (scanner_next (leaf_at s c) sc)) s)
          }
      in case scanner_max_less (children n) key of
           Some scanner \<Rightarrow>
             (case scanner_get (children n) scanner of
                Some (_, child) \<Rightarrow>
                  (case fst child of
                     Some c \<Rightarrow>
                       if leaf_validate (children n) (scanner_metadata scanner)
                       then case scanner_max_less (leaf_at s c) key of
                              Some sc \<Rightarrow> Some (Some (c, sc), s)
                            | None \<Rightarrow> fallback
                       else None
                   | None \<Rightarrow> None)
              | None \<Rightarrow> fallback)
         | None \<Rightarrow> fallback)"

section \<open>Splitting a leaf\<close>

definition update_split :: "('s \<Rightarrow> 's) \<Rightarrow> ('k, 's) tree_node \<Rightarrow> ('k, 's) tree_node" where
  "update_split f n = n\<lparr>split_op := f (split_op n)\<rparr>"

text \<open>The part of \<^verbatim>\<open>split_leaf\<close> after the latch has been taken and the full leaf is known to be still in
  place: the full leaf is frozen and its entries are copied into one or two new leaves.\<close>

definition split_distribute ::
  "'k option \<Rightarrow> addr \<Rightarrow> addr \<Rightarrow> ('k, 'v) tree \<Rightarrow> (addr \<times> addr option \<times> ('k, 'v) tree) option" where
  "split_distribute r target a s =
     do {
       let s = put_lnode s a (update_split (\<lambda>sp. sp\<lparr>origin_leaf := Some target,
                 origin_leaf_key := (case r of Some k \<Rightarrow> Some k | None \<Rightarrow> origin_leaf_key sp)\<rparr>) (lnode s a));
       (l, low, high) \<leftarrow> freeze_and_distribute (leaf_at s target) None None;
       let s = put_leaf s target l;
       (case low of
          Some low_leaf \<Rightarrow>
            let (low_key_leaf, s) = new_leaf s low_leaf;
                s = put_lnode s a (update_split (\<lambda>sp. sp\<lparr>low_key_leaf := Some low_key_leaf\<rparr>) (lnode s a))
            in (case high of
                  Some high_leaf \<Rightarrow>
                    let (high_key_leaf, s) = new_leaf s high_leaf;
                        s = put_lnode s a (update_split (\<lambda>sp. sp\<lparr>high_key_leaf := Some high_key_leaf\<rparr>) (lnode s a))
                    in Some (low_key_leaf, Some high_key_leaf, s)
                | None \<Rightarrow> Some (low_key_leaf, None, s))
        | None \<Rightarrow>
            let (low_key_leaf, s) = new_leaf s leaf_new;
                s = put_lnode s a (update_split (\<lambda>sp. sp\<lparr>low_key_leaf := Some low_key_leaf\<rparr>) (lnode s a))
            in Some (low_key_leaf, None, s))
     }"

text \<open>The rest of \<^verbatim>\<open>split_leaf\<close>: linking the new leaves and replacing the full one. \<^term>\<open>True\<close> says that the
  split is complete, \<^term>\<open>False\<close> that the node has no room for another child.\<close>

definition split_replace ::
  "'k::linorder option \<Rightarrow> addr \<Rightarrow> addr \<Rightarrow> addr option \<Rightarrow> addr \<Rightarrow> ('k, 'v) tree \<Rightarrow> (bool \<times> ('k, 'v) tree) option" where
  "split_replace r target low_leaf high a s =
     (case high of
        Some high_leaf \<Rightarrow>
          do {
            s \<leftarrow> leaf_push_back s target high_leaf;
            s \<leftarrow> leaf_push_back s target low_leaf;
            max_low \<leftarrow> max_key (leaf_at s low_leaf);
            let s = put_leaf s low_leaf (snd (leaf_freeze (leaf_at s low_leaf)));
            (case leaf_insert (children (lnode s a)) max_low (Some low_leaf, TagNone) of
               (Some Insert_Success, l) \<Rightarrow>
                 let s = put_lnode s a (lnode s a\<lparr>children := l\<rparr>);
                     s = leaf_delete_self s target;
                     s = put_leaf s low_leaf (snd (leaf_thaw (leaf_at s low_leaf)));
                     s = put_lnode s a (cell_store (update_split (\<lambda>sp. sp\<lparr>high_key_leaf := None\<rparr>) (lnode s a)) r (high, TagNone))
                 in Some (True, s)
             | (Some (Full _ _), l) \<Rightarrow>
                 let s = put_lnode s a (lnode s a\<lparr>children := l\<rparr>)
                 in Some (False, put_leaf s high_leaf (snd (leaf_freeze (leaf_at s high_leaf))))
             | (Some (Insert_Retired _ _), l) \<Rightarrow>
                 let s = put_lnode s a (lnode s a\<lparr>children := l\<rparr>)
                 in Some (False, put_leaf s high_leaf (snd (leaf_freeze (leaf_at s high_leaf))))
             | _ \<Rightarrow> None)
          }
      | None \<Rightarrow>
          do {
            s \<leftarrow> leaf_push_back s target low_leaf;
            let s = leaf_delete_self s target;
            Some (True, put_lnode s a (cell_store (update_split (\<lambda>sp. sp\<lparr>low_key_leaf := None\<rparr>) (lnode s a)) r
                                         (Some low_leaf, TagNone)))
          })"

text \<open>\<^term>\<open>Inl\<close> is \<^verbatim>\<open>Err\<close>, \<^term>\<open>Inr\<close> is \<^verbatim>\<open>Ok\<close>. The key \<open>r\<close> names the cell \<^verbatim>\<open>full_leaf\<close> of the full leaf.\<close>

type_synonym ('k, 'v) node_insert = "('k \<times> 'v) + ('k, 'v) insert_result"

definition split_leaf ::
  "'k::linorder \<Rightarrow> 'v \<Rightarrow> 'k option \<Rightarrow> link \<Rightarrow> addr \<Rightarrow> ('k, 'v) tree \<Rightarrow> (('k, 'v) node_insert \<times> ('k, 'v) tree) option" where
  "split_leaf key val r full_leaf_ptr a s =
     (let (locked, n) = node_try_lock (lnode s a); s = put_lnode s a n
      in if \<not> locked then do { node_wait n; Some (Inl (key, val), s) }
         else if node_retired n then Some (Inr (Insert_Retired key val), put_lnode s a (node_unlock n))
         else if full_leaf_ptr \<noteq> cell_load n r then Some (Inl (key, val), put_lnode s a (node_unlock n))
         else
           do {
             target \<leftarrow> fst full_leaf_ptr;
             (low_leaf, high, s) \<leftarrow> split_distribute r target a s;
             (done, s) \<leftarrow> split_replace r target low_leaf high a s;
             if done
             then Some (Inr (Insert_Retry key val),
                        put_lnode s a (node_unlock (update_split (\<lambda>_. no_leaf_change) (lnode s a))))
             else Some (Inr (Full key val), s)
           })"

section \<open>Insertion into a leaf node\<close>

text \<open>One attempt of \<^verbatim>\<open>insert\<close> at the leaf in the cell \<open>r\<close>: the result of the call, or \<^term>\<open>Inl\<close> with the entry to
  start over with.\<close>

definition insert_into_leaf ::
  "'k::linorder \<Rightarrow> 'v \<Rightarrow> 'k option \<Rightarrow> link \<Rightarrow> addr \<Rightarrow> addr \<Rightarrow> ('k, 'v) tree
     \<Rightarrow> ((('k \<times> 'v) + ('k, 'v) node_insert) \<times> ('k, 'v) tree) option" where
  "insert_into_leaf key val r ptr c a s =
     (case leaf_insert (leaf_at s c) key val of
        (None, _) \<Rightarrow> None
      | (Some result, l) \<Rightarrow>
          let s = put_leaf s c l;
              split = (\<lambda>k v. do {
                (split_result, s) \<leftarrow> split_leaf k v r ptr a s;
                (case split_result of
                   Inr (Insert_Retry k v) \<Rightarrow> Some (Inl (k, v), s)
                 | _ \<Rightarrow> Some (Inr split_result, s))
              })
          in case result of
               Full k v \<Rightarrow> split k v
             | Insert_Retired k v \<Rightarrow> split k v
             | Insert_Frozen k v \<Rightarrow> do { node_wait (lnode s a); Some (Inr (Inl (k, v)), s) }
             | _ \<Rightarrow> Some (Inr (Inr result), s))"

partial_function (option) leaf_node_insert ::
    "'k::linorder \<Rightarrow> 'v \<Rightarrow> addr \<Rightarrow> ('k, 'v) tree \<Rightarrow> (('k, 'v) node_insert \<times> ('k, 'v) tree) option" where
  "leaf_node_insert key val a s =
     (let n = lnode s a; (child, metadata) = min_greater_equal (children n) key
      in case child of
           Some (child_key, child_ptr) \<Rightarrow>
             (case fst child_ptr of
                Some c \<Rightarrow>
                  if leaf_validate (children n) metadata
                  then do {
                    (r, s) \<leftarrow> insert_into_leaf key val (Some child_key) child_ptr c a s;
                    (case r of Inl (k, v) \<Rightarrow> leaf_node_insert k v a s | Inr result \<Rightarrow> Some (result, s))
                  }
                  else leaf_node_insert key val a s
              | None \<Rightarrow> leaf_node_insert key val a s)
         | None \<Rightarrow>
             (let (unbounded_ptr, s) =
                    (if fst (unbounded_child n) = None
                     then case compare_exchange (unbounded_child n) (None, TagNone) (Some (length (leaves s)), TagNone) of
                            (cell, Inr _) \<Rightarrow>
                              let (_, s) = new_leaf s leaf_new in (cell, put_lnode s a (n\<lparr>unbounded_child := cell\<rparr>))
                          | (_, Inl actual) \<Rightarrow> (actual, s)
                     else (unbounded_child n, s))
              in case fst unbounded_ptr of
                   Some c \<Rightarrow>
                     if leaf_validate (children (lnode s a)) metadata
                     then do {
                       (r, s) \<leftarrow> insert_into_leaf key val None unbounded_ptr c a s;
                       (case r of Inl (k, v) \<Rightarrow> leaf_node_insert k v a s | Inr result \<Rightarrow> Some (result, s))
                     }
                     else leaf_node_insert key val a s
                 | None \<Rightarrow> Some (Inr (Insert_Retired key val), s)))"

section \<open>Removal from a leaf node\<close>

text \<open>One iteration of the loop of \<^verbatim>\<open>coalesce\<close> over the children, at a slot; the state of the loop is
  \<open>(uncleaned_leaf, prev_valid_leaf)\<close>.\<close>

definition coalesce_child ::
  "addr \<Rightarrow> nat \<Rightarrow> (bool \<times> addr option) \<times> ('k::linorder, 'v) tree \<Rightarrow> ((bool \<times> addr option) \<times> ('k, 'v) tree) option" where
  "coalesce_child a i st =
     (case st of ((uncleaned_leaf, prev_valid_leaf), s) \<Rightarrow>
        do {
          (key, cell) \<leftarrow> entry_array (children (lnode s a)) ! i;
          c \<leftarrow> fst cell;
          if leaf_is_retired (leaf_at s c)
          then do {
            let s = leaf_delete_self s c;
            let n = lnode s a;
            let s = put_lnode s a (n\<lparr>children := set_value (snd (remove_if (children n) key (\<lambda>_. True))) i (None, TagNone)\<rparr>);
            (case prev_valid_leaf of
               Some prev_leaf \<Rightarrow> do { (_, s) \<leftarrow> jump None prev_leaf s; Some ((uncleaned_leaf, prev_valid_leaf), s) }
             | None \<Rightarrow> Some ((True, prev_valid_leaf), s))
          }
          else Some ((uncleaned_leaf, Some c), s)
        })"

fun coalesce_children ::
  "addr \<Rightarrow> nat list \<Rightarrow> (bool \<times> addr option) \<times> ('k::linorder, 'v) tree \<Rightarrow> ((bool \<times> addr option) \<times> ('k, 'v) tree) option" where
  "coalesce_children a [] st = Some st"
| "coalesce_children a (i # is) st = do { st \<leftarrow> coalesce_child a i st; coalesce_children a is st }"

text \<open>The unbounded leaf at the end of a round of \<^verbatim>\<open>coalesce\<close>: whether the node is empty.\<close>

definition coalesce_unbounded :: "addr \<Rightarrow> bool \<Rightarrow> ('k, 'v) tree \<Rightarrow> bool \<times> bool \<times> ('k, 'v) tree" where
  "coalesce_unbounded a uncleaned_leaf s =
     (case fst (unbounded_child (lnode s a)) of
        Some u \<Rightarrow>
          if leaf_is_retired (leaf_at s u)
          then (True, True, put_lnode (leaf_delete_self s u) a ((lnode s a)\<lparr>unbounded_child := (None, RETIRED)\<rparr>))
          else (False, uncleaned_leaf, s)
      | None \<Rightarrow> (True, uncleaned_leaf, s))"

text \<open>\<^verbatim>\<open>has_retired_leaf\<close>; children that have been removed in the meantime are skipped.\<close>

definition has_retired_leaf :: "addr \<Rightarrow> ('k, 'v) tree \<Rightarrow> bool" where
  "has_retired_leaf a s =
     (let n = lnode s a; cs = List.map_filter (\<lambda>(_, cell). fst cell) (child_entries (children n))
      in if list_ex (\<lambda>c. leaf_is_retired (leaf_at s c)) cs then True
         else cs = [] \<and> (case fst (unbounded_child n) of Some u \<Rightarrow> leaf_is_retired (leaf_at s u) | None \<Rightarrow> False))"

partial_function (option) leaf_node_coalesce ::
    "addr \<Rightarrow> bool \<Rightarrow> ('k::linorder, 'v) tree \<Rightarrow> (remove_result \<times> ('k, 'v) tree) option" where
  "leaf_node_coalesce a uncleaned_leaf s =
     (let (locked, n) = node_try_lock (lnode s a); s = put_lnode s a n
      in if \<not> locked then Some (if uncleaned_leaf then Cleanup else Remove_Success, s)
         else
           do {
             ((uncleaned_leaf, prev_valid_leaf), s) \<leftarrow>
               coalesce_children a (child_slots (children n)) ((uncleaned_leaf, None), s);
             let (fully_empty, uncleaned_leaf, s) =
               (if prev_valid_leaf \<noteq> None then (False, uncleaned_leaf, s) else coalesce_unbounded a uncleaned_leaf s);
             let s = put_lnode s a (node_unlock (lnode s a));
             if fully_empty then Some (Remove_Retired, s)
             else if \<not> has_retired_leaf a s then Some (if uncleaned_leaf then Cleanup else Remove_Success, s)
             else leaf_node_coalesce a uncleaned_leaf s
           })"

text \<open>The result of removing from a leaf, as \<^verbatim>\<open>remove_if\<close> handles it for any child; \<^term>\<open>Inl\<close> is \<^verbatim>\<open>Err\<close>.\<close>

definition remove_from_leaf ::
  "'k::linorder \<Rightarrow> ('v \<Rightarrow> bool) \<Rightarrow> addr \<Rightarrow> addr \<Rightarrow> ('k, 'v) tree \<Rightarrow> ((unit + remove_result) \<times> ('k, 'v) tree) option" where
  "remove_from_leaf key condition c a s =
     (case remove_if (leaf_at s c) key condition of
        (None, _) \<Rightarrow> None
      | (Some result, l) \<Rightarrow>
          let s = put_leaf s c l
          in case result of
               Remove_Frozen \<Rightarrow> do { node_wait (lnode s a); Some (Inl (), s) }
             | Remove_Retired \<Rightarrow> do { (r, s) \<leftarrow> leaf_node_coalesce a False s; Some (Inr r, s) }
             | _ \<Rightarrow> Some (Inr result, s))"

definition leaf_node_remove_if ::
  "'k::linorder \<Rightarrow> ('v \<Rightarrow> bool) \<Rightarrow> addr \<Rightarrow> ('k, 'v) tree \<Rightarrow> ((unit + remove_result) \<times> ('k, 'v) tree) option" where
  "leaf_node_remove_if key condition a s =
     (let n = lnode s a; (child, metadata) = min_greater_equal (children n) key
      in case child of
           Some (_, child_ptr) \<Rightarrow>
             (case fst child_ptr of
                Some c \<Rightarrow> if leaf_validate (children n) metadata then remove_from_leaf key condition c a s else None
              | None \<Rightarrow> None)
         | None \<Rightarrow>
             (case fst (unbounded_child n) of
                Some c \<Rightarrow> if leaf_validate (children n) metadata then remove_from_leaf key condition c a s else None
              | None \<Rightarrow> Some (Inr Remove_Fail, s)))"

section \<open>Splitting a node\<close>

text \<open>
  The array of children that \<^verbatim>\<open>split_leaf_node\<close> and \<^verbatim>\<open>split_node\<close> build from a full node: the child with the
  key \<open>origin_key\<close>, or the unbounded child, gives way to a low child, if there is one, and a high child.
\<close>

definition split_entries ::
  "'k option \<Rightarrow> ('k \<times> link) option \<Rightarrow> link option \<Rightarrow> ('k \<times> link) list \<Rightarrow> link \<Rightarrow> ('k option \<times> link) list" where
  "split_entries origin_key low high entries unbounded =
     (let lows = (case low of Some (k, c) \<Rightarrow> [(Some k, cell_clone c)] | None \<Rightarrow> []);
          highs = (\<lambda>k. case high of Some c \<Rightarrow> [(k, cell_clone c)] | None \<Rightarrow> [])
      in concat (map (\<lambda>(k, c). if origin_key = Some k then lows @ highs (Some k) else [(Some k, cell_clone c)]) entries)
         @ (if origin_key = None then lows @ highs None else [(None, cell_clone unbounded)]))"

text \<open>The loop that distributes the array to a low and a high node: the first \<open>low_size\<close> children go to the low
  node, the last of them as its unbounded child, whose key separates the nodes.\<close>

fun distribute_children ::
  "nat \<Rightarrow> nat \<Rightarrow> ('k option \<times> link) list \<Rightarrow> ('k, 's) tree_node \<times> 'k option \<times> ('k, 's) tree_node
     \<Rightarrow> (('k, 's) tree_node \<times> 'k option \<times> ('k, 's) tree_node) option" where
  "distribute_children low_size i [] st = Some st"
| "distribute_children low_size i ((k, v) # es) (low, middle, high) =
     do {
       st \<leftarrow> (if i + 1 < low_size
              then map_option (\<lambda>k. (low\<lparr>children := insert_unchecked (children low) k (cell_clone v) i\<rparr>, middle, high)) k
              else if i + 1 = low_size
              then Some (low\<lparr>unbounded_child := (fst v, TagNone)\<rparr>, if k = None then middle else k, high)
              else case k of
                     Some k \<Rightarrow> Some (low, middle, high\<lparr>children := insert_unchecked (children high) k (cell_clone v) (i - low_size)\<rparr>)
                   | None \<Rightarrow> Some (low, middle, high\<lparr>unbounded_child := (fst v, TagNone)\<rparr>));
       distribute_children low_size (i + 1) es st
     }"

text \<open>\<^verbatim>\<open>split_leaf_node\<close> on the full leaf node \<open>a\<close> and the new leaf nodes \<open>b\<close> and \<open>c\<close>.\<close>

definition split_leaf_node :: "addr \<Rightarrow> addr \<Rightarrow> addr \<Rightarrow> ('k, 'v) tree \<Rightarrow> ('k \<times> ('k, 'v) tree) option" where
  "split_leaf_node a b c s =
     do {
       let s = put_lnode s b ((lnode s b)\<lparr>latch := LOCKED\<rparr>);
       let s = put_lnode s c ((lnode s c)\<lparr>latch := LOCKED\<rparr>);
       let s = put_lnode s a (update_split (\<lambda>sp. sp\<lparr>low_key_leaf_node := Some b, high_key_leaf_node := Some c\<rparr>) (lnode s a));
       let n = lnode s a;
       low_leaf \<leftarrow> low_key_leaf (split_op n);
       middle_key_ref \<leftarrow> max_key (leaf_at s low_leaf);
       let entries = split_entries (origin_leaf_key (split_op n)) (Some (middle_key_ref, (Some low_leaf, TagNone)))
         (map_option (\<lambda>h. (Some h, TagNone)) (high_key_leaf (split_op n))) (child_entries (children n)) (unbounded_child n);
       let low_size = min (optimal_boundary (leaf_metadata (children n))) (length entries - 1);
       (low, middle, high) \<leftarrow> distribute_children low_size 0 entries (lnode s b, None, lnode s c);
       m \<leftarrow> middle;
       Some (m, put_lnode (put_lnode s b low) c high)
     }"

definition release_leaf_node :: "addr option \<Rightarrow> ('k, 'v) tree \<Rightarrow> ('k, 'v) tree" where
  "release_leaf_node b s =
     (case b of
        None \<Rightarrow> s
      | Some b \<Rightarrow> put_lnode s b (node_unlock (update_split (\<lambda>_. no_leaf_change) (lnode s b))))"

definition leaf_node_commit :: "addr \<Rightarrow> ('k, 'v) tree \<Rightarrow> ('k, 'v) tree option" where
  "leaf_node_commit a s =
     do {
       let s = (case origin_leaf (split_op (lnode s a)) of
                  Some l \<Rightarrow> put_lnode (leaf_delete_self s l) a (update_split (\<lambda>sp. sp\<lparr>origin_leaf := None\<rparr>) (lnode s a))
                | None \<Rightarrow> s);
       let sp = split_op (lnode s a);
       low_leaf \<leftarrow> low_key_leaf sp;
       high_leaf \<leftarrow> high_key_leaf sp;
       let s = put_leaf s low_leaf (snd (leaf_thaw (leaf_at s low_leaf)));
       let s = put_leaf s high_leaf (snd (leaf_thaw (leaf_at s high_leaf)));
       let s = release_leaf_node (low_key_leaf_node sp) s;
       let s = release_leaf_node (high_key_leaf_node sp) s;
       Some (put_lnode s a (node_retire (update_split (\<lambda>_. no_leaf_change) (lnode s a))))
     }"

definition leaf_node_rollback :: "addr \<Rightarrow> ('k, 'v) tree \<Rightarrow> ('k, 'v) tree option" where
  "leaf_node_rollback a s =
     do {
       let sp = split_op (lnode s a);
       low_leaf \<leftarrow> low_key_leaf sp;
       high_leaf \<leftarrow> high_key_leaf sp;
       let s = leaf_delete_self s high_leaf;
       let s = leaf_delete_self s low_leaf;
       let s = (case origin_leaf sp of
                  Some l \<Rightarrow>
                    (let s = put_leaf s l (snd (leaf_thaw (leaf_at s l)))
                     in s\<lparr>leaves := snd (unmark_entry (leaves s) l)\<rparr>)
                | None \<Rightarrow> s);
       Some (put_lnode s a (node_unlock (update_split (\<lambda>_. no_leaf_change) (lnode s a))))
     }"

text \<open>\<^verbatim>\<open>cleanup_link\<close> jumps twice to make the list forget deleted leaves.\<close>

definition leaf_node_cleanup_link :: "'k::linorder \<Rightarrow> bool \<Rightarrow> addr \<Rightarrow> ('k, 'v) tree \<Rightarrow> (bool \<times> ('k, 'v) tree) option" where
  "leaf_node_cleanup_link key traverse_max a s =
     (let n = lnode s a;
          start = (if traverse_max then fst (unbounded_child n)
                   else case scanner_max_less (children n) key of
                          Some sc \<Rightarrow> Option.bind (scanner_get (children n) sc) (\<lambda>(_, child). fst child)
                        | None \<Rightarrow> None)
      in case start of
           None \<Rightarrow> Some (False, s)
         | Some c \<Rightarrow>
             do {
               (r, s) \<leftarrow> jump None c s;
               (case r of
                  Some (c, _) \<Rightarrow> do { (_, s) \<leftarrow> jump None c s; Some (True, s) }
                | None \<Rightarrow> Some (True, s))
             })"

declare jump_loop.simps [code] min_le_loop.simps [code] leaf_node_insert.simps [code] leaf_node_coalesce.simps [code]

end
