(* ===== verification/Tree_Internal.thy ===== *)
theory Tree_Internal
  imports Tree_Node
begin

text \<open>
  The internal nodes of the tree index, \<^verbatim>\<open>src/tree_index/internal_node.rs\<close>, and the dispatch between the two
  kinds of nodes, \<^verbatim>\<open>src/tree_index/node.rs\<close>. The conventions are those of \<open>Tree_Node\<close>. The methods of
  \<^verbatim>\<open>Node\<close> and of \<^verbatim>\<open>InternalNode\<close> that call each other are one function on the address of the node.
\<close>

section \<open>Nodes\<close>

definition no_node_change :: "'k node_change" where
  "no_node_change = \<lparr>origin_node_key = None, origin_node = None, low_key_node = None, middle_key = None, high_key_node = None\<rparr>"

definition internal_node_new :: "'k internal_node" where
  "internal_node_new = \<lparr>children = leaf_new, unbounded_child = (None, TagNone), split_op = no_node_change, latch = TagNone\<rparr>"

definition inode :: "('k, 'v) tree \<Rightarrow> addr \<Rightarrow> 'k internal_node" where
  "inode s a = (case tree_nodes s ! a of Internal n \<Rightarrow> n | Leaf_Node _ \<Rightarrow> internal_node_new)"

definition put_inode :: "('k, 'v) tree \<Rightarrow> addr \<Rightarrow> 'k internal_node \<Rightarrow> ('k, 'v) tree" where
  "put_inode s a n = put_node s a (Internal n)"

definition is_internal :: "('k, 'v) tree \<Rightarrow> addr \<Rightarrow> bool" where
  "is_internal s a = (case tree_nodes s ! a of Internal _ \<Rightarrow> True | Leaf_Node _ \<Rightarrow> False)"

definition tnode_retired :: "('k, 'v) tree \<Rightarrow> addr \<Rightarrow> bool" where
  "tnode_retired s a = (if is_internal s a then node_retired (inode s a) else node_retired (lnode s a))"

section \<open>Reading\<close>

partial_function (option) tnode_depth :: "nat \<Rightarrow> addr \<Rightarrow> ('k, 'v) tree \<Rightarrow> nat option" where
  "tnode_depth depth a s =
     (if is_internal s a
      then case fst (unbounded_child (inode s a)) of
             Some u \<Rightarrow> tnode_depth (depth + 1) u s
           | None \<Rightarrow> Some depth
      else Some depth)"

partial_function (option) tnode_search :: "'k::linorder \<Rightarrow> addr \<Rightarrow> ('k, 'v) tree \<Rightarrow> 'v option option" where
  "tnode_search key a s =
     (if is_internal s a
      then let n = inode s a; (child, metadata) = min_greater_equal (children n) key
           in case child of
                Some (_, child) \<Rightarrow>
                  (case fst child of
                     Some c \<Rightarrow> if leaf_validate (children n) metadata then tnode_search key c s else tnode_search key a s
                   | None \<Rightarrow> tnode_search key a s)
              | None \<Rightarrow>
                  (case fst (unbounded_child n) of
                     Some c \<Rightarrow> if leaf_validate (children n) metadata then tnode_search key c s else tnode_search key a s
                   | None \<Rightarrow> Some None)
      else leaf_node_search key a s)"

text \<open>The loop of \<^verbatim>\<open>InternalNode::min\<close> over the children tries one after the other; \<open>cells\<close> are those that are left,
  the unbounded one last.\<close>

definition child_cells :: "('k, 's) tree_node \<Rightarrow> link list" where
  "child_cells n = map snd (child_entries (children n)) @ [unbounded_child n]"

partial_function (option) tnode_min_from :: "link list \<Rightarrow> ('k, 'v) tree \<Rightarrow> (addr \<times> scanner) option option" where
  "tnode_min_from cells s =
     (case cells of
        [] \<Rightarrow> Some None
      | cell # rest \<Rightarrow>
          (case fst cell of
             Some c \<Rightarrow>
               do {
                 r \<leftarrow> (if is_internal s c then tnode_min_from (child_cells (inode s c)) s else leaf_node_min c s);
                 (case r of Some sc \<Rightarrow> Some (Some sc) | None \<Rightarrow> tnode_min_from rest s)
               }
           | None \<Rightarrow> if rest = [] then Some None else None))"

definition tnode_min :: "addr \<Rightarrow> ('k, 'v) tree \<Rightarrow> (addr \<times> scanner) option option" where
  "tnode_min a s = (if is_internal s a then tnode_min_from (child_cells (inode s a)) s else leaf_node_min a s)"

partial_function (option) tnode_max_le_appr ::
    "'k::linorder \<Rightarrow> addr \<Rightarrow> ('k, 'v) tree \<Rightarrow> ((addr \<times> scanner) option \<times> ('k, 'v) tree) option" where
  "tnode_max_le_appr key a s =
     (if is_internal s a
      then let n = inode s a;
               fallback = (\<lambda>s. do {
                 m \<leftarrow> tnode_min a s;
                 (case m of
                    None \<Rightarrow> Some (None, s)
                  | Some (c, sc) \<Rightarrow> min_le_loop key (c, snd (scanner_next (leaf_at s c) sc)) s)
               })
           in case scanner_max_less (children n) key of
                Some scanner \<Rightarrow>
                  (case scanner_get (children n) scanner of
                     Some (_, child) \<Rightarrow>
                       (case fst child of
                          Some c \<Rightarrow>
                            if leaf_validate (children n) (scanner_metadata scanner)
                            then do {
                              (r, s) \<leftarrow> tnode_max_le_appr key c s;
                              (case r of Some sc \<Rightarrow> Some (Some sc, s) | None \<Rightarrow> fallback s)
                            }
                            else tnode_max_le_appr key a s
                        | None \<Rightarrow> tnode_max_le_appr key a s)
                   | None \<Rightarrow> fallback s)
              | None \<Rightarrow> fallback s
      else leaf_node_max_le_appr key a s)"

section \<open>Splitting a node\<close>

partial_function (option) tnode_commit :: "addr \<Rightarrow> ('k, 'v) tree \<Rightarrow> ('k, 'v) tree option" where
  "tnode_commit a s =
     (if is_internal s a
      then let n = inode s a; s = put_inode s a (node_retire (update_split (\<lambda>_. no_node_change) n))
           in case origin_node (split_op n) of Some origin \<Rightarrow> tnode_commit origin s | None \<Rightarrow> Some s
      else leaf_node_commit a s)"

partial_function (option) tnode_rollback :: "addr \<Rightarrow> ('k, 'v) tree \<Rightarrow> ('k, 'v) tree option" where
  "tnode_rollback a s =
     (if is_internal s a
      then let n = inode s a; s = put_inode s a (node_unlock (update_split (\<lambda>_. no_node_change) n))
           in case origin_node (split_op n) of Some origin \<Rightarrow> tnode_rollback origin s | None \<Rightarrow> Some s
      else leaf_node_rollback a s)"

definition finish_split :: "addr \<Rightarrow> ('k, 'v) tree \<Rightarrow> ('k, 'v) tree" where
  "finish_split a s = put_inode s a (node_unlock (update_split (\<lambda>_. no_node_change) (inode s a)))"

text \<open>The part of \<^verbatim>\<open>split_node\<close> that allocates the two new nodes and fills them from the full one: the middle
  key and the addresses of the new nodes.\<close>

definition split_target :: "addr \<Rightarrow> ('k, 'v) tree \<Rightarrow> ('k option \<times> addr \<times> addr \<times> ('k, 'v) tree) option" where
  "split_target target s =
     (if is_internal s target
      then
        let n = inode s target;
            (b, s) = new_node s (Internal internal_node_new);
            (c, s) = new_node s (Internal internal_node_new);
            sp = split_op n;
            entries = split_entries (origin_node_key sp)
              (case low_key_node sp of Some l \<Rightarrow> Some (the (middle_key sp), (Some l, TagNone)) | None \<Rightarrow> None)
              (map_option (\<lambda>h. (Some h, TagNone)) (high_key_node sp)) (child_entries (children n)) (unbounded_child n);
            low_size = min (optimal_boundary (leaf_metadata (children n))) (length entries - 1)
        in do {
             (low, middle, high) \<leftarrow> distribute_children low_size 0 entries (inode s b, None, inode s c);
             Some (middle, b, c, put_inode (put_inode s b low) c high)
           }
      else
        let (b, s) = new_node s (Leaf_Node leaf_node_new);
            (c, s) = new_node s (Leaf_Node leaf_node_new)
        in do { (m, s) \<leftarrow> split_leaf_node target b c s; Some (Some m, b, c, s) })"

text \<open>\<^verbatim>\<open>split_node\<close> on the node \<open>a\<close> for the child in the cell \<open>r\<close>.\<close>

definition split_node ::
  "'k::linorder \<Rightarrow> 'v \<Rightarrow> 'k option \<Rightarrow> link \<Rightarrow> bool \<Rightarrow> addr \<Rightarrow> ('k, 'v) tree \<Rightarrow> (('k, 'v) node_insert \<times> ('k, 'v) tree) option" where
  "split_node key val r full_node_ptr root_split a s =
     do {
       target \<leftarrow> fst full_node_ptr;
       let (locked, n) = node_try_lock (inode s a);
       let s = put_inode s a n;
       if \<not> locked then do { s \<leftarrow> tnode_rollback target s; node_wait (inode s a); Some (Inl (key, val), s) }
       else if full_node_ptr \<noteq> cell_load n r
       then do { s \<leftarrow> tnode_rollback target (put_inode s a (node_unlock n)); Some (Inl (key, val), s) }
       else do {
         let s = put_inode s a (update_split (\<lambda>sp. sp\<lparr>origin_node := Some target,
                   origin_node_key := (case r of Some k \<Rightarrow> Some k | None \<Rightarrow> origin_node_key sp)\<rparr>) n);
         (middle, b, c, s) \<leftarrow> split_target target s;
         let s = put_inode s a (update_split (\<lambda>sp. sp\<lparr>low_key_node := Some b, high_key_node := Some c,
                   middle_key := (if middle = None then middle_key sp else middle)\<rparr>) (inode s a));
         m \<leftarrow> middle_key (split_op (inode s a));
         (case leaf_insert (children (inode s a)) m (Some b, TagNone) of
            (Some Insert_Success, l) \<Rightarrow>
              let s = put_inode s a (cell_store ((inode s a)\<lparr>children := l\<rparr>) r (Some c, TagNone))
              in if root_split then Some (Inr (Insert_Retry key val), s)
                 else do { s \<leftarrow> tnode_commit target (finish_split a s); Some (Inr (Insert_Retry key val), s) }
          | (Some (Full _ _), l) \<Rightarrow> Some (Inr (Full key val), put_inode s a ((inode s a)\<lparr>children := l\<rparr>))
          | (Some (Insert_Retired _ _), l) \<Rightarrow> Some (Inr (Full key val), put_inode s a ((inode s a)\<lparr>children := l\<rparr>))
          | _ \<Rightarrow> None)
       }
     }"

section \<open>Removal\<close>

text \<open>One iteration of the loop of \<^verbatim>\<open>coalesce\<close> over the children; the state of the loop is
  \<open>(node_deleted, max_key_entry)\<close>, the latter as the slot of the child.\<close>

definition coalesce_node_child ::
  "addr \<Rightarrow> nat \<Rightarrow> (bool \<times> nat option) \<times> ('k::linorder, 'v) tree \<Rightarrow> ((bool \<times> nat option) \<times> ('k, 'v) tree) option" where
  "coalesce_node_child a i st =
     (case st of ((node_deleted, max_key_entry), s) \<Rightarrow>
        do {
          let n = inode s a;
          (key, cell) \<leftarrow> entry_array (children n) ! i;
          c \<leftarrow> fst cell;
          if tnode_retired s c
          then Some ((True, max_key_entry),
                 put_inode s a (n\<lparr>children := set_value (snd (remove_if (children n) key (\<lambda>_. True))) i (None, TagNone)\<rparr>))
          else Some ((node_deleted, Some i), s)
        })"

fun coalesce_node_children ::
  "addr \<Rightarrow> nat list \<Rightarrow> (bool \<times> nat option) \<times> ('k::linorder, 'v) tree \<Rightarrow> ((bool \<times> nat option) \<times> ('k, 'v) tree) option" where
  "coalesce_node_children a [] st = Some st"
| "coalesce_node_children a (i # is) st = do { st \<leftarrow> coalesce_node_child a i st; coalesce_node_children a is st }"

text \<open>The unbounded child at the end of a round: a retired one gives way to the child with the largest key.\<close>

definition coalesce_node_unbounded ::
  "addr \<Rightarrow> nat option \<Rightarrow> bool \<Rightarrow> ('k::linorder, 'v) tree \<Rightarrow> (bool \<times> bool \<times> ('k, 'v) tree) option" where
  "coalesce_node_unbounded a max_key_entry node_deleted s =
     (let n = inode s a
      in case fst (unbounded_child n) of
           Some u \<Rightarrow>
             if tnode_retired s u
             then case max_key_entry of
                    Some i \<Rightarrow>
                      do {
                        (key, cell) \<leftarrow> entry_array (children n) ! i;
                        let n = n\<lparr>unbounded_child := (fst cell, TagNone)\<rparr>;
                        let n = n\<lparr>children := set_value (snd (remove_if (children n) key (\<lambda>_. True))) i (None, TagNone)\<rparr>;
                        Some (False, True, put_inode s a n)
                      }
                  | None \<Rightarrow> Some (True, True, put_inode s a (n\<lparr>unbounded_child := (None, RETIRED)\<rparr>))
             else Some (False, node_deleted, s)
         | None \<Rightarrow> Some (True, node_deleted, s))"

definition has_retired_node :: "addr \<Rightarrow> ('k, 'v) tree \<Rightarrow> bool" where
  "has_retired_node a s =
     (let n = inode s a; cs = List.map_filter (\<lambda>(_, cell). fst cell) (child_entries (children n))
      in if list_ex (tnode_retired s) cs then True
         else cs = [] \<and> (case fst (unbounded_child n) of Some u \<Rightarrow> tnode_retired s u | None \<Rightarrow> False))"

partial_function (option) internal_node_coalesce ::
    "addr \<Rightarrow> bool \<Rightarrow> ('k::linorder, 'v) tree \<Rightarrow> (remove_result \<times> ('k, 'v) tree) option" where
  "internal_node_coalesce a node_deleted s =
     (let (locked, n) = node_try_lock (inode s a); s = put_inode s a n
      in if \<not> locked then Some (if node_deleted then Cleanup else Remove_Success, s)
         else
           do {
             ((node_deleted, max_key_entry), s) \<leftarrow>
               coalesce_node_children a (child_slots (children n)) ((node_deleted, None), s);
             (fully_empty, node_deleted, s) \<leftarrow> coalesce_node_unbounded a max_key_entry node_deleted s;
             let s = put_inode s a (node_unlock (inode s a));
             if fully_empty then Some (Remove_Retired, s)
             else if \<not> has_retired_node a s then Some (if node_deleted then Cleanup else Remove_Success, s)
             else internal_node_coalesce a node_deleted s
           })"

partial_function (option) tnode_cleanup_link ::
    "'k::linorder \<Rightarrow> bool \<Rightarrow> addr \<Rightarrow> ('k, 'v) tree \<Rightarrow> (bool \<times> ('k, 'v) tree) option" where
  "tnode_cleanup_link key traverse_max a s =
     (if is_internal s a
      then let n = inode s a;
               child = (if traverse_max then fst (unbounded_child n)
                        else case scanner_max_less (children n) key of
                               Some sc \<Rightarrow> Option.bind (scanner_get (children n) sc) (\<lambda>(_, child). fst child)
                             | None \<Rightarrow> None)
           in case child of Some c \<Rightarrow> tnode_cleanup_link key True c s | None \<Rightarrow> Some (False, s)
      else leaf_node_cleanup_link key traverse_max a s)"

text \<open>What \<^verbatim>\<open>InternalNode::remove_if\<close> does with the result of a child.\<close>

definition after_remove ::
  "'k::linorder \<Rightarrow> addr \<Rightarrow> (unit + remove_result) \<times> ('k, 'v) tree \<Rightarrow> ((unit + remove_result) \<times> ('k, 'v) tree) option" where
  "after_remove key a rs =
     (case rs of
        (Inr Cleanup, s) \<Rightarrow>
          do { (cleaned, s) \<leftarrow> tnode_cleanup_link key False a s; Some (Inr (if cleaned then Remove_Success else Cleanup), s) }
      | (Inr Remove_Retired, s) \<Rightarrow> do { (r, s) \<leftarrow> internal_node_coalesce a False s; Some (Inr r, s) }
      | _ \<Rightarrow> Some rs)"

partial_function (option) tnode_remove_if ::
    "'k::linorder \<Rightarrow> ('v \<Rightarrow> bool) \<Rightarrow> addr \<Rightarrow> ('k, 'v) tree \<Rightarrow> ((unit + remove_result) \<times> ('k, 'v) tree) option" where
  "tnode_remove_if key condition a s =
     (if is_internal s a
      then let n = inode s a; (child, metadata) = min_greater_equal (children n) key
           in case child of
                Some (_, child_ptr) \<Rightarrow>
                  (case fst child_ptr of
                     Some c \<Rightarrow>
                       if leaf_validate (children n) metadata
                       then do { rs \<leftarrow> tnode_remove_if key condition c s; after_remove key a rs }
                       else tnode_remove_if key condition a s
                   | None \<Rightarrow> tnode_remove_if key condition a s)
              | None \<Rightarrow>
                  (case fst (unbounded_child n) of
                     Some c \<Rightarrow>
                       if leaf_validate (children n) metadata
                       then do { rs \<leftarrow> tnode_remove_if key condition c s; after_remove key a rs }
                       else tnode_remove_if key condition a s
                   | None \<Rightarrow> Some (Inr Remove_Fail, s))
      else leaf_node_remove_if key condition a s)"

section \<open>Insertion\<close>

text \<open>What \<^verbatim>\<open>InternalNode::insert\<close> does with the result of the child in the cell \<open>r\<close>: its own result, or \<^term>\<open>Inl\<close>
  with the entry to start over with.\<close>

definition after_insert ::
  "'k::linorder option \<Rightarrow> link \<Rightarrow> addr \<Rightarrow> ('k, 'v) node_insert \<times> ('k, 'v) tree
     \<Rightarrow> ((('k \<times> 'v) + ('k, 'v) node_insert) \<times> ('k, 'v) tree) option" where
  "after_insert r child_ptr a rs =
     (case rs of
        (Inr (Full k v), s) \<Rightarrow>
          do {
            (split_result, s) \<leftarrow> split_node k v r child_ptr False a s;
            (case split_result of
               Inr (Insert_Retry k v) \<Rightarrow> Some (Inl (k, v), s)
             | _ \<Rightarrow> Some (Inr split_result, s))
          }
      | (Inr (Insert_Retired k v), s) \<Rightarrow>
          do {
            (result, s) \<leftarrow> internal_node_coalesce a False s;
            Some (Inr (if result = Remove_Retired then Inr (Insert_Retired k v) else Inl (k, v)), s)
          }
      | (Inr (Insert_Retry k v), s) \<Rightarrow>
          do {
            (cleaned, s) \<leftarrow> tnode_cleanup_link k False a s;
            Some (if cleaned then Inl (k, v) else Inr (Inr (Insert_Retry k v)), s)
          }
      | (result, s) \<Rightarrow> Some (Inr result, s))"

partial_function (option) tnode_insert ::
    "'k::linorder \<Rightarrow> 'v \<Rightarrow> addr \<Rightarrow> ('k, 'v) tree \<Rightarrow> (('k, 'v) node_insert \<times> ('k, 'v) tree) option" where
  "tnode_insert key val a s =
     (if is_internal s a
      then let n = inode s a; (child, metadata) = min_greater_equal (children n) key
           in case child of
                Some (child_key, child_ptr) \<Rightarrow>
                  (case fst child_ptr of
                     Some c \<Rightarrow>
                       if leaf_validate (children n) metadata
                       then do {
                         rs \<leftarrow> tnode_insert key val c s;
                         (r, s) \<leftarrow> after_insert (Some child_key) child_ptr a rs;
                         (case r of Inl (k, v) \<Rightarrow> tnode_insert k v a s | Inr result \<Rightarrow> Some (result, s))
                       }
                       else tnode_insert key val a s
                   | None \<Rightarrow> tnode_insert key val a s)
              | None \<Rightarrow>
                  (case fst (unbounded_child n) of
                     Some c \<Rightarrow>
                       if leaf_validate (children n) metadata
                       then do {
                         rs \<leftarrow> tnode_insert key val c s;
                         (r, s) \<leftarrow> after_insert None (unbounded_child n) a rs;
                         (case r of Inl (k, v) \<Rightarrow> tnode_insert k v a s | Inr result \<Rightarrow> Some (result, s))
                       }
                       else tnode_insert key val a s
                   | None \<Rightarrow> Some (Inr (Insert_Retired key val), s))
      else leaf_node_insert key val a s)"

declare tnode_depth.simps [code] tnode_search.simps [code] tnode_min_from.simps [code] tnode_max_le_appr.simps [code]
  tnode_commit.simps [code] tnode_rollback.simps [code] internal_node_coalesce.simps [code]
  tnode_cleanup_link.simps [code] tnode_remove_if.simps [code] tnode_insert.simps [code]

end
