(* ===== verification/Tree_Index.thy ===== *)
theory Tree_Index
  imports Tree_Internal
begin

text \<open>
  The tree index as a whole, run by one thread: the operations on the root in \<^verbatim>\<open>src/tree_index/node.rs\<close> and
  \<^verbatim>\<open>TreeIndex\<close> with its iterators, \<^verbatim>\<open>src/tree_index.rs\<close>. An index is the cell of its root with the heaps of
  leaves and nodes.
\<close>

type_synonym ('k, 'v) index = "link \<times> ('k, 'v) tree"

definition index_new :: "('k, 'v) index" where
  "index_new = ((None, TagNone), \<lparr>leaves = [], tree_nodes = []\<rparr>)"

section \<open>The root\<close>

definition split_root :: "'k::linorder \<Rightarrow> 'v \<Rightarrow> ('k, 'v) index \<Rightarrow> (('k \<times> 'v) \<times> ('k, 'v) index) option" where
  "split_root key val t =
     (case t of (root, s) \<Rightarrow>
        do {
          let (new_root, s) = new_node s (Internal (internal_node_new\<lparr>unbounded_child := cell_clone root\<rparr>));
          (result, s) \<leftarrow> split_node key val None root True new_root s;
          (case result of
             Inr (Insert_Retry key val) \<Rightarrow>
               do {
                 s \<leftarrow> (case fst root of Some old_root \<Rightarrow> tnode_commit old_root (finish_split new_root s) | None \<Rightarrow> Some s);
                 Some ((key, val), (Some new_root, TagNone), s)
               }
           | _ \<Rightarrow> None)
        })"

text \<open>\<^verbatim>\<open>cleanup_root\<close> replaces a root without children by its unbounded child and drops a retired root. The root
  pointer does not change while the loop holds the latch.\<close>

partial_function (option) cleanup_root :: "('k, 'v) index \<Rightarrow> (bool \<times> ('k, 'v) index) option" where
  "cleanup_root t =
     (case t of (root, s) \<Rightarrow>
        case fst root of
          None \<Rightarrow> Some (True, root, s)
        | Some a \<Rightarrow>
            if is_internal s a
            then let n = inode s a
                 in if \<not> node_retired n \<and> \<not> leaf_is_empty (children n) then Some (True, root, s)
                    else let (locked, n) = node_try_lock n
                         in if \<not> locked then do { node_wait n; Some (False, root, put_inode s a n) }
                            else cleanup_root ((if node_retired n then None else fst (unbounded_child n), TagNone),
                                   put_inode s a (node_retire n))
            else let n = lnode s a
                 in if \<not> node_retired n then Some (True, root, s)
                    else let (locked, n) = node_try_lock n
                         in if \<not> locked then do { node_wait n; Some (False, root, put_lnode s a n) }
                            else cleanup_root ((None, TagNone), put_lnode s a (node_unlock n)))"

section \<open>Insertion, removal and lookup\<close>

text \<open>\<^verbatim>\<open>insert\<close>; \<open>new_root\<close> is a leaf node that an earlier iteration has allocated. \<^term>\<open>Inl\<close> is \<^verbatim>\<open>Err\<close>.\<close>

definition try_new_root :: "addr option \<Rightarrow> ('k, 'v) index \<Rightarrow> addr option \<times> ('k, 'v) index" where
  "try_new_root new_root t =
     (case t of (root, s) \<Rightarrow>
        let (node, s) = (case new_root of Some a \<Rightarrow> (a, s) | None \<Rightarrow> new_node s (Leaf_Node leaf_node_new))
        in case compare_exchange root (None, TagNone) (Some node, TagNone) of
             (root, Inr _) \<Rightarrow> (None, root, s)
           | (root, Inl _) \<Rightarrow> (Some node, root, s))"

partial_function (option) index_insert_loop ::
    "'k::linorder \<Rightarrow> 'v \<Rightarrow> addr option \<Rightarrow> ('k, 'v) index \<Rightarrow> ((('k \<times> 'v) + unit) \<times> ('k, 'v) index) option" where
  "index_insert_loop key val new_root t =
     (case fst (fst t) of
        None \<Rightarrow> (case try_new_root new_root t of (new_root, t) \<Rightarrow> index_insert_loop key val new_root t)
      | Some a \<Rightarrow>
          do {
            (r, s) \<leftarrow> tnode_insert key val a (snd t);
            let t = (fst t, s);
            (case r of
               Inr Insert_Success \<Rightarrow> Some (Inr (), t)
             | Inr (Duplicate k v) \<Rightarrow> Some (Inl (k, v), t)
             | Inr (Full k v) \<Rightarrow>
                 do { ((k, v), t) \<leftarrow> split_root k v t; index_insert_loop k v new_root t }
             | Inr (Insert_Retired k v) \<Rightarrow>
                 do {
                   (_, t) \<leftarrow> cleanup_root t;
                   (case try_new_root new_root t of (new_root, t) \<Rightarrow> index_insert_loop k v new_root t)
                 }
             | Inr (Insert_Frozen k v) \<Rightarrow>
                 do {
                   (_, s) \<leftarrow> tnode_cleanup_link k False a s;
                   (case try_new_root new_root (fst t, s) of (new_root, t) \<Rightarrow> index_insert_loop k v new_root t)
                 }
             | Inr (Insert_Retry k v) \<Rightarrow>
                 do {
                   (_, s) \<leftarrow> tnode_cleanup_link k False a s;
                   (case try_new_root new_root (fst t, s) of (new_root, t) \<Rightarrow> index_insert_loop k v new_root t)
                 }
             | Inl (k, v) \<Rightarrow>
                 (case try_new_root new_root t of (new_root, t) \<Rightarrow> index_insert_loop k v new_root t))
          })"

definition index_insert :: "'k::linorder \<Rightarrow> 'v \<Rightarrow> ('k, 'v) index \<Rightarrow> ((('k \<times> 'v) + unit) \<times> ('k, 'v) index) option" where
  "index_insert key val t = index_insert_loop key val None t"

partial_function (option) index_remove_loop ::
    "'k::linorder \<Rightarrow> ('v \<Rightarrow> bool) \<Rightarrow> bool \<Rightarrow> ('k, 'v) index \<Rightarrow> (bool \<times> ('k, 'v) index) option" where
  "index_remove_loop key condition removed t =
     (case fst (fst t) of
        None \<Rightarrow> Some (removed, t)
      | Some a \<Rightarrow>
          do {
            (r, s) \<leftarrow> tnode_remove_if key condition a (snd t);
            (case r of
               Inl _ \<Rightarrow> index_remove_loop key condition removed (fst t, s)
             | Inr result \<Rightarrow>
                 do {
                   s \<leftarrow> (if result = Cleanup then map_option snd (tnode_cleanup_link key False a s) else Some s);
                   let t = (fst t, s);
                   (case result of
                      Remove_Success \<Rightarrow> Some (True, t)
                    | Remove_Fail \<Rightarrow>
                        if removed
                        then do {
                          (cleaned, t) \<leftarrow> cleanup_root t;
                          if cleaned then Some (True, t) else index_remove_loop key condition removed t
                        }
                        else Some (False, t)
                    | Remove_Frozen \<Rightarrow> index_remove_loop key condition removed t
                    | _ \<Rightarrow>
                        do {
                          (cleaned, t) \<leftarrow> cleanup_root t;
                          if cleaned then Some (True, t) else index_remove_loop key condition True t
                        })
                 })
          })"

definition index_remove_if :: "'k::linorder \<Rightarrow> ('v \<Rightarrow> bool) \<Rightarrow> ('k, 'v) index \<Rightarrow> (bool \<times> ('k, 'v) index) option" where
  "index_remove_if key condition t = index_remove_loop key condition False t"

definition index_remove :: "'k::linorder \<Rightarrow> ('k, 'v) index \<Rightarrow> (bool \<times> ('k, 'v) index) option" where
  "index_remove key t = index_remove_if key (\<lambda>_. True) t"

definition index_peek :: "'k::linorder \<Rightarrow> ('k, 'v) index \<Rightarrow> 'v option option" where
  "index_peek key t = (case fst (fst t) of Some a \<Rightarrow> tnode_search key a (snd t) | None \<Rightarrow> Some None)"

definition index_peek_with :: "'k::linorder \<Rightarrow> ('k \<Rightarrow> 'v \<Rightarrow> 'r) \<Rightarrow> ('k, 'v) index \<Rightarrow> 'r option option" where
  "index_peek_with key reader t = map_option (map_option (reader key)) (index_peek key t)"

definition index_contains :: "'k::linorder \<Rightarrow> ('k, 'v) index \<Rightarrow> bool option" where
  "index_contains key t = map_option (\<lambda>r. r \<noteq> None) (index_peek key t)"

definition index_clear :: "('k, 'v) index \<Rightarrow> ('k, 'v) index" where
  "index_clear t = ((None, TagNone), snd t)"

definition index_depth :: "('k, 'v) index \<Rightarrow> nat option" where
  "index_depth t = (case fst (fst t) of None \<Rightarrow> Some 0 | Some a \<Rightarrow> tnode_depth 1 a (snd t))"

section \<open>Iteration\<close>

text \<open>The state of \<^verbatim>\<open>Iter\<close> is its \<^verbatim>\<open>leaf_scanner\<close>.\<close>

type_synonym leaf_scanner = "(addr \<times> scanner) option"

definition tree_iter_next ::
  "leaf_scanner \<Rightarrow> ('k::linorder, 'v) index \<Rightarrow> (('k \<times> 'v) option \<times> leaf_scanner \<times> ('k, 'v) index) option" where
  "tree_iter_next leaf_scanner t =
     (case t of (root, s) \<Rightarrow>
        do {
          start \<leftarrow> (case (leaf_scanner, fst root) of
                     (None, Some a) \<Rightarrow> tnode_min a s
                   | (None, None) \<Rightarrow> Some None
                   | (Some sc, _) \<Rightarrow> Some (Some sc));
          (case start of
             None \<Rightarrow> Some (None, None, t)
           | Some (c, scanner) \<Rightarrow>
               let min_allowed_key = map_option fst (scanner_get (leaf_at s c) scanner)
               in case scanner_next (leaf_at s c) scanner of
                    (Some result, scanner) \<Rightarrow> Some (Some result, Some (c, scanner), t)
                  | (None, scanner) \<Rightarrow>
                      do {
                        (r, s) \<leftarrow> jump min_allowed_key c s;
                        (case r of
                           None \<Rightarrow> Some (None, None, root, s)
                         | Some (c, scanner) \<Rightarrow>
                             (case scanner_get (leaf_at s c) scanner of
                                Some entry \<Rightarrow> Some (Some entry, Some (c, scanner), root, s)
                              | None \<Rightarrow> Some (None, None, root, s)))
                      })
        })"

partial_function (option) tree_iter_rest ::
    "leaf_scanner \<Rightarrow> ('k::linorder, 'v) index \<Rightarrow> (('k \<times> 'v) list \<times> ('k, 'v) index) option" where
  "tree_iter_rest leaf_scanner t =
     do {
       (r, leaf_scanner, t) \<leftarrow> tree_iter_next leaf_scanner t;
       (case r of
          None \<Rightarrow> Some ([], t)
        | Some e \<Rightarrow> do { (es, t) \<leftarrow> tree_iter_rest leaf_scanner t; Some (e # es, t) })
     }"

text \<open>The entries that a loop over \<^verbatim>\<open>iter\<close> visits.\<close>

definition index_iter :: "('k::linorder, 'v) index \<Rightarrow> (('k \<times> 'v) list \<times> ('k, 'v) index) option" where
  "index_iter t = tree_iter_rest None t"

definition index_len :: "('k::linorder, 'v) index \<Rightarrow> (nat \<times> ('k, 'v) index) option" where
  "index_len t = map_option (\<lambda>(es, t). (length es, t)) (index_iter t)"

definition index_is_empty :: "('k::linorder, 'v) index \<Rightarrow> (bool \<times> ('k, 'v) index) option" where
  "index_is_empty t = map_option (\<lambda>(r, _, t). (r = None, t)) (tree_iter_next None t)"

declare cleanup_root.simps [code] index_insert_loop.simps [code] index_remove_loop.simps [code] tree_iter_rest.simps [code]

end
