(* ===== verification/Tree_Cells.thy ===== *)
theory Tree_Cells
  imports Tree_Index
begin

text \<open>
  The children of a node: which child a key leads to, the cells of the children, and the operations of
  a leaf as operations on the map of its cells.
\<close>

section \<open>The child for a key\<close>

definition route :: "'k::linorder set \<Rightarrow> 'k \<Rightarrow> 'k option" where
  "route D x = (if \<exists>k\<in>D. x \<le> k then Some (Min {k \<in> D. x \<le> k}) else None)"

lemma route_Some_iff:
  assumes "finite D"
  shows "route D x = Some k \<longleftrightarrow> k \<in> D \<and> x \<le> k \<and> (\<forall>k'\<in>D. x \<le> k' \<longrightarrow> k \<le> k')"
proof -
  have f: "finite {k \<in> D. x \<le> k}" using assms by simp
  show ?thesis
  proof (cases "{k \<in> D. x \<le> k} = {}")
    case True
    then have "\<not> (\<exists>k\<in>D. x \<le> k)" by auto
    then show ?thesis by (auto simp: route_def)
  next
    case False
    note m = Min_in [OF f False] Min_le [OF f]
    have r: "route D x = Some (Min {k \<in> D. x \<le> k})" using False by (auto simp: route_def)
    have "k = Min {k \<in> D. x \<le> k}" if "k \<in> D" "x \<le> k" "\<forall>k'\<in>D. x \<le> k' \<longrightarrow> k \<le> k'"
      using that m by (intro antisym) auto
    then show ?thesis unfolding r using m by auto
  qed
qed

lemma route_None_iff: "route D x = None \<longleftrightarrow> (\<forall>k\<in>D. k < x)"
  by (auto simp: route_def not_le) (meson not_le)

lemma leaf_ok_slots: "leaf_ok l \<Longrightarrow> slots_ok (leaf_metadata l) (entry_array l)"
  by (simp add: leaf_ok_def)

lemma finite_leaf_map [simp]: "finite (dom (leaf_map l))"
  by (simp add: leaf_map_def slots_map_def finite_dom_map_of)

abbreviation lkeys :: "('k, 'v) leaf \<Rightarrow> 'k set" where
  "lkeys l \<equiv> dom (leaf_map l)"

lemma min_greater_equal_route:
  assumes "leaf_ok l"
  shows "min_greater_equal l x =
    (map_option (\<lambda>k. (k, the (leaf_map l k))) (route (lkeys l) x), leaf_metadata l)"
proof -
  note m = min_greater_equal_ok [OF leaf_ok_slots [OF assms], of x]
  have "fst (min_greater_equal l x) = map_option (\<lambda>k. (k, the (leaf_map l k))) (route (lkeys l) x)"
  proof (cases "fst (min_greater_equal l x)")
    case None
    then have "route (lkeys l) x = None" using m(2) by (simp add: route_None_iff)
    then show ?thesis using None by simp
  next
    case (Some kv)
    then obtain k v where kv: "kv = (k, v)" by fastforce
    then have "leaf_map l k = Some v" "route (lkeys l) x = Some k" using m(2) Some by (auto simp: route_Some_iff)
    then show ?thesis using Some kv by simp
  qed
  then show ?thesis using m(1) by (metis prod.collapse)
qed

section \<open>Writing a cell\<close>

lemma slots_ok_values:
  assumes "slots_ok m a" "length b = length a" "\<And>i. Leaf_Spec.live m i \<Longrightarrow> map_option fst (b ! i) = map_option fst (a ! i)"
  shows "slots_ok m b"
proof -
  have k: "Leaf_Spec.live m i \<Longrightarrow> slot_key b i = slot_key a i \<and> b ! i \<noteq> None" for i
    using assms(3) [of i] slots_okD(2) [OF assms(1), of i] by (cases "b ! i") (auto simp: slot_key_def)
  then show ?thesis using assms(1,2) unfolding slots_ok_def by simp
qed

lemma set_value_simps [simp]:
  "leaf_metadata (set_value l i v) = leaf_metadata l" "length (entry_array (set_value l i v)) = length (entry_array l)"
  by (simp_all add: set_value_def)

lemma set_value_keys: "map_option fst (entry_array (set_value l i v) ! j) = map_option fst (entry_array l ! j)"
  by (cases "i < length (entry_array l)"; cases "i = j"; cases "entry_array l ! i")
    (auto simp: set_value_def list_update_beyond)

lemma set_value_other: "j \<noteq> i \<Longrightarrow> entry_array (set_value l i v) ! j = entry_array l ! j"
  by (simp add: set_value_def)

lemma set_value_ok:
  assumes "leaf_ok l"
  shows "leaf_ok (set_value l i v)"
proof -
  have "entry_array (set_value l i v) ! j = None \<longleftrightarrow> entry_array l ! j = None" for j
    using set_value_keys [of l i v j] by (metis option.map_disc_iff)
  then show ?thesis
    using assms slots_ok_values [of "leaf_metadata l" "entry_array l" "entry_array (set_value l i v)"]
    by (simp add: leaf_ok_def set_value_keys)
qed

lemma set_value_map:
  assumes "leaf_ok l"
  shows "Leaf_Spec.live (leaf_metadata l) i \<Longrightarrow> entry_array l ! i = Some (k, w) \<Longrightarrow> leaf_map (set_value l i v) = (leaf_map l)(k \<mapsto> v)"
    and "\<not> Leaf_Spec.live (leaf_metadata l) i \<Longrightarrow> leaf_map (set_value l i v) = leaf_map l"
proof -
  note so = leaf_ok_slots [OF assms] and so' = leaf_ok_slots [OF set_value_ok [OF assms, of i v], simplified]
  {
    assume i: "Leaf_Spec.live (leaf_metadata l) i" "entry_array l ! i = Some (k, w)"
    have il: "i < length (entry_array l)" using slots_okD(1) [OF so] live_less [OF i(1)] by simp
    have e: "entry_array (set_value l i v) ! i = Some (k, v)" using i(2) il by (simp add: set_value_def)
    show "leaf_map (set_value l i v) = (leaf_map l)(k \<mapsto> v)"
      unfolding leaf_map_def set_value_simps
    proof (rule slots_map_eqI [OF so'])
      fix k' v'
      show "((slots_map (leaf_metadata l) (entry_array l))(k \<mapsto> v)) k' = Some v' \<longleftrightarrow>
          (\<exists>j. Leaf_Spec.live (leaf_metadata l) j \<and> entry_array (set_value l i v) ! j = Some (k', v'))"
      proof (cases "k' = k")
        case True
        have "j = i" if "Leaf_Spec.live (leaf_metadata l) j" "entry_array (set_value l i v) ! j = Some (k, v')" for j
          using slots_okD(5) [OF so' that(1) i(1)] that(2) e by (simp add: slot_key_def)
        then show ?thesis using True e i(1) by (metis fun_upd_same option.inject prod.inject)
      next
        case False
        have "entry_array (set_value l i v) ! j = Some (k', v') \<longleftrightarrow> entry_array l ! j = Some (k', v')" for j
          using e i(2) False by (cases "j = i") (simp_all add: set_value_other)
        then show ?thesis using False by (simp add: slots_map_Some_iff [OF so])
      qed
    qed
  }
  assume "\<not> Leaf_Spec.live (leaf_metadata l) i"
  then show "leaf_map (set_value l i v) = leaf_map l"
    unfolding leaf_map_def set_value_simps
    using slots_ok_same(2) [OF so, of "leaf_metadata l" "entry_array (set_value l i v)"] slots_okD(1) [OF so]
    by (metis set_value_other set_value_simps(2))
qed

lemma search_slot_map:
  assumes "leaf_ok l" "leaf_map l k = Some v"
  obtains i where "search_slot l k (leaf_metadata l) = Some i" "Leaf_Spec.live (leaf_metadata l) i" "entry_array l ! i = Some (k, v)"
proof -
  note so = leaf_ok_slots [OF assms(1)]
  obtain i where i: "Leaf_Spec.live (leaf_metadata l) i" "entry_array l ! i = Some (k, v)"
    using assms(2) slots_map_Some_iff [OF so] by (auto simp: leaf_map_def)
  then have "search_slot l k (leaf_metadata l) = Some i" by (simp add: search_slot_iff [OF so] slot_key_def)
  then show ?thesis using i that by blast
qed

section \<open>Freezing and thawing\<close>

lemma leaf_same_slots:
  assumes "leaf_ok l" "\<And>i. i < 14 \<Longrightarrow> rank m i = rank (leaf_metadata l) i" "retired m = retired (leaf_metadata l)"
  shows "leaf_ok (l\<lparr>leaf_metadata := m\<rparr>)" "leaf_map (l\<lparr>leaf_metadata := m\<rparr>) = leaf_map l"
proof -
  have lv: "Leaf_Spec.live m = Leaf_Spec.live (leaf_metadata l)" using assms(2) by (auto simp: Leaf_Spec.live_def fun_eq_iff)
  have us: "used m = used (leaf_metadata l)" unfolding used_def using assms(2) by (auto intro: arg_cong [of _ _ card])
  note s = slots_ok_same [OF leaf_ok_slots [OF assms(1)] lv, of "entry_array l"]
  have r: "Leaf_Spec.live (leaf_metadata l) i \<Longrightarrow> rank m i = rank (leaf_metadata l) i" for i using assms(2) live_less by blast
  show "leaf_map (l\<lparr>leaf_metadata := m\<rparr>) = leaf_map l"
    using s(2) r slots_okD(1) [OF leaf_ok_slots [OF assms(1)]] by (simp add: leaf_map_def)
  show "leaf_ok (l\<lparr>leaf_metadata := m\<rparr>)"
    using s(1) r slots_okD(1) [OF leaf_ok_slots [OF assms(1)]] assms by (simp add: leaf_ok_def ranks_bounded_def lv us)
qed

lemma leaf_freeze_eq: "snd (leaf_freeze l) = l\<lparr>leaf_metadata := freeze (leaf_metadata l)\<rparr>"
proof (cases "frozen (leaf_metadata l)")
  case True
  then have "freeze (leaf_metadata l) = leaf_metadata l"
    by (intro bit_eqI) (auto simp: flag_bits frozen_bit)
  then show ?thesis using True by (simp add: leaf_freeze_def fetch_update_def)
qed (simp add: leaf_freeze_def fetch_update_def)

lemma leaf_thaw_eq: "snd (leaf_thaw l) = l\<lparr>leaf_metadata := thaw (leaf_metadata l)\<rparr>"
proof (cases "frozen (leaf_metadata l)")
  case False
  then have "thaw (leaf_metadata l) = leaf_metadata l"
    by (intro bit_eqI) (auto simp: flag_bits frozen_bit)
  then show ?thesis using False by (simp add: leaf_thaw_def fetch_update_def)
qed (simp add: leaf_thaw_def fetch_update_def)

lemma leaf_freeze_thaw [simp]:
  "leaf_ok l \<Longrightarrow> leaf_ok (snd (leaf_freeze l))" "leaf_ok l \<Longrightarrow> leaf_map (snd (leaf_freeze l)) = leaf_map l"
  "leaf_ok l \<Longrightarrow> leaf_ok (snd (leaf_thaw l))" "leaf_ok l \<Longrightarrow> leaf_map (snd (leaf_thaw l)) = leaf_map l"
  "\<not> frozen (leaf_metadata (snd (leaf_thaw l)))"
  "entry_array (snd (leaf_freeze l)) = entry_array l" "entry_array (snd (leaf_thaw l)) = entry_array l"
  "i < 14 \<Longrightarrow> rank (leaf_metadata (snd (leaf_freeze l))) i = rank (leaf_metadata l) i"
  "i < 14 \<Longrightarrow> rank (leaf_metadata (snd (leaf_thaw l))) i = rank (leaf_metadata l) i"
  "retired (leaf_metadata (snd (leaf_freeze l))) = retired (leaf_metadata l)"
  "retired (leaf_metadata (snd (leaf_thaw l))) = retired (leaf_metadata l)"
  by (simp_all add: leaf_freeze_eq leaf_thaw_eq leaf_same_slots)

section \<open>Scanning the children\<close>

lemma child_entries_ok:
  assumes "leaf_ok l"
  shows "sorted_wrt (<) (map fst (child_entries l))" "map_of (child_entries l) = leaf_map l" "length (child_entries l) \<le> 14"
  using scan_all_ok [OF leaf_ok_slots [OF assms], of 14] by (simp_all add: child_entries_def scanner_new_def leaf_map_def)

lemma scan_slots_scan:
  assumes "slots_ok m (entry_array l)"
  shows "i = 14 \<or> Leaf_Spec.live m i \<Longrightarrow> card (above m i) \<le> fuel \<Longrightarrow>
    (let js = scan_slots fuel l \<lparr>scanner_metadata = m, entry_index = i\<rparr>
     in scan fuel l \<lparr>scanner_metadata = m, entry_index = i\<rparr> = map (\<lambda>j. the (entry_array l ! j)) js
        \<and> (\<forall>j\<in>set js. Leaf_Spec.live m j))"
proof (induction fuel arbitrary: i)
  case 0
  then show ?case by simp
next
  case (Suc fuel)
  have il: "i \<le> 14" using Suc.prems(1) live_less by fastforce
  note n = leaf_next_ok [OF Suc.prems(1)]
  let ?j = "leaf_next i m"
  show ?case
  proof (cases "?j = 14")
    case True
    then show ?thesis using scanner_next_None [OF True il, of l] by (simp add: split_beta split: option.splits prod.splits)
  next
    case False
    then have j: "Leaf_Spec.live m ?j" "rank_at m i < rank m ?j" using n by auto
    have jl: "?j < 14" using j(1) live_less by blast
    obtain e where e: "entry_array l ! ?j = Some e" using slots_okD(2) [OF assms j(1)] by blast
    have "above m ?j \<subset> above m i"
    proof -
      have "rank_at m ?j = rank m ?j" using jl by (simp add: rank_at_def)
      then have "above m ?j \<subseteq> above m i" "?j \<in> above m i" "?j \<notin> above m ?j" using j by (auto simp: above_def)
      then show ?thesis by blast
    qed
    then have "card (above m ?j) < card (above m i)" by (rule psubset_card_mono [OF above_finite])
    then have "card (above m ?j) \<le> fuel" using Suc.prems(2) by simp
    from Suc.IH [OF disjI2 [OF j(1)] this] show ?thesis
      using scanner_next_Some [OF refl il jl, of l] e j(1) by (simp add: Let_def)
  qed
qed

lemma child_slots_ok:
  assumes "leaf_ok l"
  shows "child_entries l = map (\<lambda>j. the (entry_array l ! j)) (child_slots l)" "j \<in> set (child_slots l) \<Longrightarrow> Leaf_Spec.live (leaf_metadata l) j"
    "distinct (child_slots l)"
proof -
  show e: "child_entries l = map (\<lambda>j. the (entry_array l ! j)) (child_slots l)"
    and "j \<in> set (child_slots l) \<Longrightarrow> Leaf_Spec.live (leaf_metadata l) j"
    using scan_slots_scan [OF leaf_ok_slots [OF assms], of 14 14] above_card [of "leaf_metadata l" 14]
    by (simp_all add: child_entries_def child_slots_def scanner_new_def Let_def)
  have "distinct (map fst (child_entries l))" using child_entries_ok(1) [OF assms] strict_sorted_iff by blast
  then show "distinct (child_slots l)" unfolding e by (metis (no_types, lifting) distinct_map)
qed

end
