(* ===== verification/Tree_Spec.thy ===== *)
theory Tree_Spec
  imports Tree_Cells
begin

text \<open>
  What an index stands for. A subtree of height \<open>d\<close> (a leaf has height 0, a leaf node height 1) is
  responsible for an interval of keys and stands for a finite map with keys in the interval. The
  children of a node split its interval at the keys of the node. Subtrees that hang side by side share
  no leaf and no node, so that an operation on one of them leaves the others alone.
\<close>

section \<open>The children of a node\<close>

definition tchildren :: "('k, 'v) tree \<Rightarrow> addr \<Rightarrow> ('k, link) leaf" where
  "tchildren s a = (case tree_nodes s ! a of Internal n \<Rightarrow> children n | Leaf_Node n \<Rightarrow> children n)"

definition tunbounded :: "('k, 'v) tree \<Rightarrow> addr \<Rightarrow> link" where
  "tunbounded s a = (case tree_nodes s ! a of Internal n \<Rightarrow> unbounded_child n | Leaf_Node n \<Rightarrow> unbounded_child n)"

definition kid :: "('k, 'v) tree \<Rightarrow> addr \<Rightarrow> 'k option \<Rightarrow> addr option" where
  "kid s a r = (case r of None \<Rightarrow> fst (tunbounded s a) | Some k \<Rightarrow> Option.bind (leaf_map (tchildren s a) k) fst)"

abbreviation nkeys :: "('k, 'v) tree \<Rightarrow> addr \<Rightarrow> 'k set" where
  "nkeys s a \<equiv> lkeys (tchildren s a)"

definition cells_ok :: "('k::linorder, link) leaf \<Rightarrow> link \<Rightarrow> bool" where
  "cells_ok l u \<longleftrightarrow> leaf_ok l \<and> \<not> frozen (leaf_metadata l) \<and> snd u = TagNone \<and> fst u \<noteq> None \<and>
     (\<forall>c\<in>ran (leaf_map l). snd c = TagNone \<and> fst c \<noteq> None)"

definition part :: "'k::linorder set \<Rightarrow> 'k set \<Rightarrow> 'k option \<Rightarrow> 'k set" where
  "part I D r = {x \<in> I. route D x = r}"

definition inner :: "'k::linorder set \<Rightarrow> 'k set" where
  "inner I = {k \<in> I. \<exists>x\<in>I. k < x}"

text \<open>A family of subtrees with the separating keys \<open>D\<close>; \<open>P\<close> is the invariant of the subtrees and \<open>F\<close> their footprint.\<close>

definition kids_ok ::
  "('k::linorder set \<Rightarrow> addr \<Rightarrow> bool) \<Rightarrow> (addr \<Rightarrow> (addr + addr) set) \<Rightarrow> 'k set \<Rightarrow> 'k set \<Rightarrow> ('k option \<rightharpoonup> addr) \<Rightarrow> bool" where
  "kids_ok P F I D \<kappa> \<longleftrightarrow> finite D \<and> D \<subseteq> inner I \<and> dom \<kappa> = insert None (Some ` D) \<and>
     (\<forall>r c. \<kappa> r = Some c \<longrightarrow> P (part I D r) c) \<and>
     (\<forall>r r' c c'. \<kappa> r = Some c \<longrightarrow> \<kappa> r' = Some c' \<longrightarrow> r \<noteq> r' \<longrightarrow> F c \<inter> F c' = {})"

definition kids_foot :: "(addr \<Rightarrow> (addr + addr) set) \<Rightarrow> ('k option \<rightharpoonup> addr) \<Rightarrow> (addr + addr) set" where
  "kids_foot F \<kappa> = (\<Union>c\<in>ran \<kappa>. F c)"

definition kids_map :: "(addr \<Rightarrow> 'k \<rightharpoonup> 'v) \<Rightarrow> 'k::linorder set \<Rightarrow> ('k option \<rightharpoonup> addr) \<Rightarrow> 'k \<rightharpoonup> 'v" where
  "kids_map M D \<kappa> x = Option.bind (\<kappa> (route D x)) (\<lambda>c. M c x)"

text \<open>The names of the cells in the order of the keys.\<close>

definition names :: "'k::linorder set \<Rightarrow> 'k option list" where
  "names D = map Some (sorted_list_of_set D) @ [None]"

definition kid_list :: "'k::linorder set \<Rightarrow> ('k option \<rightharpoonup> addr) \<Rightarrow> addr list" where
  "kid_list D \<kappa> = map (\<lambda>r. the (\<kappa> r)) (names D)"

definition kids_order :: "(addr \<Rightarrow> addr list) \<Rightarrow> 'k::linorder set \<Rightarrow> ('k option \<rightharpoonup> addr) \<Rightarrow> addr list" where
  "kids_order L D \<kappa> = concat (map L (kid_list D \<kappa>))"

section \<open>Subtrees\<close>

text \<open>\<open>foot\<close> is the set of leaves (\<^term>\<open>Inl\<close>) and nodes (\<^term>\<open>Inr\<close>) of a subtree, \<open>in_order\<close> the list of its leaves.\<close>

primrec foot :: "nat \<Rightarrow> ('k, 'v) tree \<Rightarrow> addr \<Rightarrow> (addr + addr) set" where
  "foot 0 s a = {Inl a}"
| "foot (Suc d) s a = insert (Inr a) (kids_foot (foot d s) (kid s a))"

primrec sub_map :: "nat \<Rightarrow> ('k::linorder, 'v) tree \<Rightarrow> addr \<Rightarrow> 'k \<rightharpoonup> 'v" where
  "sub_map 0 s a = leaf_map (leaf_at s a)"
| "sub_map (Suc d) s a = kids_map (sub_map d s) (nkeys s a) (kid s a)"

primrec in_order :: "nat \<Rightarrow> ('k::linorder, 'v) tree \<Rightarrow> addr \<Rightarrow> addr list" where
  "in_order 0 s a = [a]"
| "in_order (Suc d) s a = kids_order (in_order d s) (nkeys s a) (kid s a)"

primrec sub_ok :: "nat \<Rightarrow> ('k::linorder, 'v) tree \<Rightarrow> 'k set \<Rightarrow> addr \<Rightarrow> bool" where
  "sub_ok 0 s I a \<longleftrightarrow> a < length (leaves s) \<and> leaf_ok (leaf_at s a) \<and> lkeys (leaf_at s a) \<subseteq> I"
| "sub_ok (Suc d) s I a \<longleftrightarrow> a < length (tree_nodes s) \<and> (is_internal s a \<longleftrightarrow> d \<noteq> 0) \<and>
     cells_ok (tchildren s a) (tunbounded s a) \<and> kids_ok (sub_ok d s) (foot d s) I (nkeys s a) (kid s a) \<and>
     Inr a \<notin> kids_foot (foot d s) (kid s a)"

text \<open>A leaf is free if it is neither frozen nor deleted from the list of leaves, a node if it is not locked and
  not being split.\<close>

primrec free :: "('k, 'v) tree \<Rightarrow> addr + addr \<Rightarrow> bool" where
  "free s (Inl l) \<longleftrightarrow> \<not> frozen (leaf_metadata (leaf_at s l)) \<and> live (leaves s) l"
| "free s (Inr a) \<longleftrightarrow> (case tree_nodes s ! a of
     Internal n \<Rightarrow> latch n = TagNone \<and> split_op n = no_node_change
   | Leaf_Node n \<Rightarrow> latch n = TagNone \<and> split_op n = no_leaf_change)"

definition good :: "nat \<Rightarrow> ('k::linorder, 'v) tree \<Rightarrow> 'k set \<Rightarrow> addr \<Rightarrow> bool" where
  "good d s I a \<longleftrightarrow> sub_ok d s I a \<and> (\<forall>y\<in>foot d s a. free s y)"

text \<open>The leaf that a key leads to has room for an entry.\<close>

primrec has_room :: "nat \<Rightarrow> ('k::linorder, 'v) tree \<Rightarrow> addr \<Rightarrow> 'k \<Rightarrow> bool" where
  "has_room 0 s a x \<longleftrightarrow> \<not> retired (leaf_metadata (leaf_at s a)) \<and> (\<exists>i<14. rank (leaf_metadata (leaf_at s a)) i = 0)"
| "has_room (Suc d) s a x \<longleftrightarrow> (\<forall>c. kid s a (route (nkeys s a) x) = Some c \<longrightarrow> has_room d s c x)"

section \<open>Families of subtrees\<close>

lemma kids_okD:
  assumes "kids_ok P F I D \<kappa>"
  shows "finite D" "D \<subseteq> inner I" "dom \<kappa> = insert None (Some ` D)" "\<kappa> r = Some c \<Longrightarrow> P (part I D r) c"
    "\<kappa> r = Some c \<Longrightarrow> \<kappa> r' = Some c' \<Longrightarrow> r \<noteq> r' \<Longrightarrow> F c \<inter> F c' = {}"
  using assms unfolding kids_ok_def by blast+

lemma kids_ok_cong:
  assumes "\<And>c. c \<in> ran \<kappa> \<Longrightarrow> F' c = F c" "\<And>c J. c \<in> ran \<kappa> \<Longrightarrow> P J c \<Longrightarrow> P' J c" "kids_ok P F I D \<kappa>"
  shows "kids_ok P' F' I D \<kappa>"
  using assms unfolding kids_ok_def by (metis ranI)

lemma kids_foot_cong: "(\<And>c. c \<in> ran \<kappa> \<Longrightarrow> F' c = F c) \<Longrightarrow> kids_foot F' \<kappa> = kids_foot F \<kappa>"
  by (simp add: kids_foot_def)

lemma kids_map_cong: "(\<And>c. c \<in> ran \<kappa> \<Longrightarrow> M' c = M c) \<Longrightarrow> kids_map M' D \<kappa> = kids_map M D \<kappa>"
proof (rule ext)
  fix x
  assume "\<And>c. c \<in> ran \<kappa> \<Longrightarrow> M' c = M c"
  then show "kids_map M' D \<kappa> x = kids_map M D \<kappa> x"
    by (cases "\<kappa> (route D x)") (simp_all add: kids_map_def ranI)
qed

lemma kid_list_ran: "dom \<kappa> = insert None (Some ` D) \<Longrightarrow> finite D \<Longrightarrow> set (kid_list D \<kappa>) = ran \<kappa>"
proof -
  assume d: "dom \<kappa> = insert None (Some ` D)" "finite D"
  have "set (kid_list D \<kappa>) = (\<lambda>r. the (\<kappa> r)) ` dom \<kappa>" unfolding d(1) using d(2) by (auto simp: kid_list_def names_def)
  also have "\<dots> = ran \<kappa>" by (auto simp: ran_def dom_def image_iff) force
  finally show ?thesis .
qed

lemma kids_order_cong:
  "dom \<kappa> = insert None (Some ` D) \<Longrightarrow> finite D \<Longrightarrow> (\<And>c. c \<in> ran \<kappa> \<Longrightarrow> L' c = L c) \<Longrightarrow> kids_order L' D \<kappa> = kids_order L D \<kappa>"
  unfolding kids_order_def using kid_list_ran [of \<kappa> D] by (metis (mono_tags, lifting) map_cong)

lemma in_footI: "\<kappa> r = Some c \<Longrightarrow> y \<in> F c \<Longrightarrow> y \<in> kids_foot F \<kappa>"
  unfolding kids_foot_def by (auto simp: ran_def)

lemma in_footE: assumes "y \<in> kids_foot F \<kappa>" obtains r c where "\<kappa> r = Some c" "y \<in> F c"
  using assms unfolding kids_foot_def by (auto simp: ran_def)

lemma dom_kid: "cells_ok (tchildren s a) (tunbounded s a) \<Longrightarrow> dom (kid s a) = insert None (Some ` nkeys s a)"
  unfolding cells_ok_def
  by (intro set_eqI) (auto simp: kid_def dom_def image_iff ran_def split: option.splits bind_splits)

section \<open>Frames\<close>

text \<open>Two states agree on a set of leaves and nodes if these have the same entries and the same children.\<close>

primrec agree1 :: "('k::linorder, 'v) tree \<Rightarrow> ('k, 'v) tree \<Rightarrow> addr + addr \<Rightarrow> bool" where
  "agree1 s s' (Inl l) \<longleftrightarrow> (l < length (leaves s) \<longrightarrow> l < length (leaves s')) \<and>
     (leaf_ok (leaf_at s l) \<longrightarrow> leaf_ok (leaf_at s' l)) \<and> leaf_map (leaf_at s' l) = leaf_map (leaf_at s l) \<and>
     (has_room 0 s l undefined \<longrightarrow> has_room 0 s' l undefined)"
| "agree1 s s' (Inr a) \<longleftrightarrow> (a < length (tree_nodes s) \<longrightarrow> a < length (tree_nodes s')) \<and>
     is_internal s' a = is_internal s a \<and> tchildren s' a = tchildren s a \<and> tunbounded s' a = tunbounded s a"

definition agree :: "('k::linorder, 'v) tree \<Rightarrow> ('k, 'v) tree \<Rightarrow> (addr + addr) set \<Rightarrow> bool" where
  "agree s s' X \<longleftrightarrow> (\<forall>y\<in>X. agree1 s s' y)"

lemma agree_subset: "agree s s' X \<Longrightarrow> Y \<subseteq> X \<Longrightarrow> agree s s' Y"
  by (auto simp: agree_def)

lemma kid_cong: "agree1 s s' (Inr a) \<Longrightarrow> kid s' a = kid s a"
  by (rule ext) (auto simp: kid_def split: option.split)

lemma foot_frame: "agree s s' (foot d s a) \<Longrightarrow> foot d s' a = foot d s a"
proof (induction d arbitrary: a)
  case (Suc d)
  then have k: "kid s' a = kid s a" by (simp add: agree_def kid_cong del: agree1.simps)
  have "kids_foot (foot d s') (kid s a) = kids_foot (foot d s) (kid s a)"
    using Suc by (intro kids_foot_cong) (auto simp: agree_def kids_foot_def)
  then show ?case by (simp add: k)
qed simp

lemma frame:
  assumes "agree s s' (foot d s a)" "sub_ok d s I a"
  shows "sub_ok d s' I a" "sub_map d s' a = sub_map d s a" "in_order d s' a = in_order d s a"
    "has_room d s a x \<Longrightarrow> has_room d s' a x"
proof -
  have "sub_ok d s' I a \<and> sub_map d s' a = sub_map d s a \<and> in_order d s' a = in_order d s a \<and> (has_room d s a x \<longrightarrow> has_room d s' a x)"
    using assms
  proof (induction d arbitrary: I a)
    case 0
    then show ?case by (simp add: agree_def)
  next
    case (Suc d)
    note a = Suc.prems(1)
    have self: "agree1 s s' (Inr a)" using a by (simp add: agree_def)
    have k: "kid s' a = kid s a" "tchildren s' a = tchildren s a" "tunbounded s' a = tunbounded s a" "is_internal s' a = is_internal s a"
      using kid_cong [OF self] self by auto
    have sub: "agree s s' (foot d s c)" if "c \<in> ran (kid s a)" for c
      using a that by (auto simp: kids_foot_def elim: agree_subset)
    note ko = kids_okD [OF conjunct1 [OF conjunct2 [OF conjunct2 [OF conjunct2 [OF Suc.prems(2) [unfolded sub_ok.simps]]]]]]
    have ih: "sub_ok d s' J c \<and> sub_map d s' c = sub_map d s c \<and> in_order d s' c = in_order d s c \<and> (has_room d s c x \<longrightarrow> has_room d s' c x)"
      if "c \<in> ran (kid s a)" "sub_ok d s J c" for J c
      using Suc.IH [OF sub [OF that(1)] that(2)] .
    have ok: "\<exists>J. sub_ok d s J c" if "c \<in> ran (kid s a)" for c using that ko(4) by (auto simp: ran_def)
    have f: "foot d s' c = foot d s c" if "c \<in> ran (kid s a)" for c using foot_frame [OF sub [OF that]] .
    have ih': "sub_map d s' c = sub_map d s c" "in_order d s' c = in_order d s c" "has_room d s c x \<Longrightarrow> has_room d s' c x"
      if c: "c \<in> ran (kid s a)" for c
    proof -
      obtain J where "sub_ok d s J c" using ok [OF c] by blast
      from ih [OF c this] show "sub_map d s' c = sub_map d s c" "in_order d s' c = in_order d s c" "has_room d s c x \<Longrightarrow> has_room d s' c x"
        by auto
    qed
    have "kids_ok (sub_ok d s') (foot d s') I (nkeys s a) (kid s a)"
      using Suc.prems(2) by (intro kids_ok_cong [of _ "foot d s'" "foot d s" "sub_ok d s"]) (auto simp: f ih)
    moreover have "kids_foot (foot d s') (kid s a) = kids_foot (foot d s) (kid s a)" by (rule kids_foot_cong) (rule f)
    ultimately have "sub_ok (Suc d) s' I a" using Suc.prems(2) self by (simp add: k)
    moreover have "sub_map (Suc d) s' a = sub_map (Suc d) s a" 
      unfolding sub_map.simps k by (rule kids_map_cong) (rule ih'(1))
    moreover have "in_order (Suc d) s' a = in_order (Suc d) s a" 
      unfolding in_order.simps k by (rule kids_order_cong [OF ko(3,1)]) (rule ih'(2))
    moreover have "has_room (Suc d) s a x \<longrightarrow> has_room (Suc d) s' a x" 
      unfolding has_room.simps k using ih'(3) by (meson ranI)
    ultimately show ?case by blast
  qed
  then show "sub_ok d s' I a" "sub_map d s' a = sub_map d s a" "in_order d s' a = in_order d s a" "has_room d s a x \<Longrightarrow> has_room d s' a x"
    by blast+
qed

end
