(* ===== verification/Tree_Kids.thy ===== *)
theory Tree_Kids
  imports Tree_Spec
begin

text \<open>
  The changes that the operations make to the children of a node, on the level of families of
  subtrees: one subtree changes, a subtree is replaced by two, a family is cut in two, and an empty
  subtree is left out.
\<close>

section \<open>Keys that separate\<close>

lemma names_eqI:
  assumes "finite D" "sorted_wrt (<) ks" "set ks = D"
  shows "names D = map Some ks @ [None]"
proof -
  have "sorted_list_of_set D = ks"
    using assms by (metis sorted_list_of_set.idem_if_sorted_distinct strict_sorted_iff)
  then show ?thesis by (simp add: names_def)
qed

lemma distinct_names [simp]: "distinct (names D)"
  by (auto simp: names_def distinct_map)

lemma set_names: "finite D \<Longrightarrow> set (names D) = insert None (Some ` D)"
  by (auto simp: names_def)

lemma filter_sorted: "finite D \<Longrightarrow> sorted_wrt (<) (filter P (sorted_list_of_set D))"
  by (simp add: sorted_wrt_filter)

lemma sorted_split:
  assumes "finite D" "m \<notin> D"
  shows "sorted_list_of_set D = sorted_list_of_set {k \<in> D. k < m} @ sorted_list_of_set {k \<in> D. m < k}"
proof -
  let ?xs = "sorted_list_of_set {k \<in> D. k < m}" and ?ys = "sorted_list_of_set {k \<in> D. m < k}"
  have s: "set ?xs = {k \<in> D. k < m}" "set ?ys = {k \<in> D. m < k}" using assms(1) by simp_all
  have "sorted_wrt (<) (?xs @ ?ys)"
    unfolding sorted_wrt_append s using assms(1) by (auto intro: less_trans)
  moreover have "set (?xs @ ?ys) = D" unfolding set_append list.set s using assms(2) linorder_less_linear [of _ m] by blast
  ultimately show ?thesis using names_eqI [OF assms(1)] by (simp add: names_def)
qed

lemma names_less_greater:
  assumes "finite D" "m \<in> D"
  shows "names D = map Some (sorted_list_of_set {k \<in> D. k < m}) @ Some m # names {k \<in> D. m < k}"
proof -
  let ?xs = "sorted_list_of_set {k \<in> D. k < m}" and ?ys = "sorted_list_of_set {k \<in> D. m < k}"
  have s: "set ?xs = {k \<in> D. k < m}" "set ?ys = {k \<in> D. m < k}" using assms(1) by simp_all
  have "sorted_wrt (<) (?xs @ m # ?ys)"
    unfolding sorted_wrt_append list.set s using assms(1) by (auto intro: less_trans)
  moreover have "set (?xs @ m # ?ys) = D" unfolding set_append list.set s using assms(2) linorder_less_linear [of _ m] by blast
  ultimately show ?thesis using names_eqI [OF assms(1)] by (simp add: names_def)
qed

lemma route_insert:
  assumes "finite D" "m \<notin> D" "route D m = r"
  shows "route (insert m D) x = (if route D x = r \<and> x \<le> m then Some m else route D x)"
proof -
  note i = route_Some_iff [OF assms(1)] and f = route_Some_iff [OF finite_insert [THEN iffD2, OF assms(1)], of m]
  show ?thesis
  proof (cases "route D x = r \<and> x \<le> m")
    case True
    have "m \<le> k" if "k \<in> D" "x \<le> k" for k
    proof (cases r)
      case None
      then have "k < x" using True that(1) by (simp add: route_None_iff)
      then show ?thesis using that(2) by simp
    next
      case (Some k0)
      then have "m \<le> k0" "k0 \<le> k" using assms(3) True that by (simp_all add: i)
      then show ?thesis by simp
    qed
    then have "route (insert m D) x = Some m" using True by (simp add: f)
    then show ?thesis using True by simp
  next
    case F: False
    have "route (insert m D) x = route D x"
    proof (cases "route D x")
      case None
      then have "m < x"
      proof (rule_tac ccontr)
        assume "\<not> m < x"
        then have "route D m = None" "x \<le> m" using None by (auto simp: route_None_iff)
        then show False using F None assms(3) by simp
      qed
      then have "route (insert m D) x = None" using None by (simp add: route_None_iff)
      then show ?thesis using None by simp
    next
      case (Some k)
      then have k: "k \<in> D" "x \<le> k" "\<forall>k'\<in>D. x \<le> k' \<longrightarrow> k \<le> k'" by (simp_all add: i)
      have "k \<le> m" if "x \<le> m"
      proof (rule ccontr)
        assume "\<not> k \<le> m"
        then have "route D m = Some k" using k that by (auto simp: i)
        then show False using F Some that assms(3) by simp
      qed
      then show ?thesis using Some k by (simp add: f)
    qed
    then show ?thesis using F by (simp only: if_False)
  qed
qed

lemma names_insert:
  assumes "finite D" "m \<notin> D" "route D m = r"
  obtains A B where "names D = A @ r # B" "names (insert m D) = A @ Some m # r # B"
proof -
  let ?G = "{k \<in> D. m < k}" and ?A = "map Some (sorted_list_of_set {k \<in> D. k < m})"
  have e: "{k \<in> insert m D. k < m} = {k \<in> D. k < m}" "{k \<in> insert m D. m < k} = ?G" by auto
  have D: "names D = ?A @ names ?G" using sorted_split [OF assms(1,2)] by (simp add: names_def)
  have I: "names (insert m D) = ?A @ Some m # names ?G" using names_less_greater [of "insert m D" m] assms(1) unfolding e by simp
  have "\<exists>B. names ?G = r # B"
  proof (cases r)
    case None
    then have "?G = {}" using assms(3) by (auto simp: route_None_iff)
    then show ?thesis unfolding None \<open>?G = {}\<close> names_def by simp
  next
    case (Some k)
    then have k: "k \<in> D" "m \<le> k" "\<forall>k'\<in>D. m \<le> k' \<longrightarrow> k \<le> k'" using assms(3) by (simp_all add: route_Some_iff [OF assms(1)])
    then have e0: "{x \<in> ?G. x < k} = {}" and g: "k \<in> ?G" using assms(2) by (auto simp: order.order_iff_strict)
    have "names ?G = map Some (sorted_list_of_set {x \<in> ?G. x < k}) @ Some k # names {x \<in> ?G. k < x}"
      by (rule names_less_greater [OF _ g]) (use assms(1) in simp)
    then show ?thesis unfolding e0 Some by simp
  qed
  then show ?thesis using that D I by (metis append_Cons)
qed

lemma route_low:
  assumes "finite D" "m \<in> D" "x \<le> m"
  shows "route {k \<in> D. k < m} x = (if route D x = Some m then None else route D x)"
proof -
  have f: "finite {k \<in> D. k < m}" using assms(1) by simp
  obtain k where k: "route D x = Some k" using assms(2,3) by (cases "route D x") (auto simp: route_None_iff)
  then have i: "k \<in> D" "x \<le> k" "\<forall>k'\<in>D. x \<le> k' \<longrightarrow> k \<le> k'" by (simp_all add: route_Some_iff [OF assms(1)])
  show ?thesis
  proof (cases "k = m")
    case True
    have "y < x" if "y \<in> D" "y < m" for y
    proof (rule ccontr)
      assume "\<not> y < x"
      then show False using i(3) that True by auto
    qed
    then show ?thesis using k True by (auto simp: route_None_iff)
  next
    case False
    then have "k < m" using i(3) assms(2,3) by (auto simp: order.order_iff_strict)
    then have "route {k \<in> D. k < m} x = Some k" using i by (simp add: route_Some_iff [OF f])
    then show ?thesis using k False by simp
  qed
qed

lemma route_high:
  assumes "finite D" "m < x"
  shows "route {k \<in> D. m < k} x = route D x"
proof (cases "route D x")
  case None
  then have "route {k \<in> D. m < k} x = None" by (simp add: route_None_iff)
  then show ?thesis using None by simp
next
  case (Some k)
  have f: "finite {k \<in> D. m < k}" using assms(1) by simp
  have "route {k \<in> D. m < k} x = Some k" using Some assms(2) by (auto simp: route_Some_iff [OF f] route_Some_iff [OF assms(1)])
  then show ?thesis using Some by simp
qed

lemma route_remove:
  assumes "finite D" "k \<in> D"
  shows "route (D - {k}) x = (if route D x = Some k then route (D - {k}) k else route D x)"
proof -
  have f: "finite (D - {k})" using assms(1) by simp
  show ?thesis
  proof (cases "route D x = Some k")
    case True
    then have i: "x \<le> k" "\<forall>k'\<in>D. x \<le> k' \<longrightarrow> k \<le> k'" by (simp_all add: route_Some_iff [OF assms(1)])
    have "{y \<in> D - {k}. x \<le> y} = {y \<in> D - {k}. k \<le> y}" using i by auto
    then have "route (D - {k}) x = route (D - {k}) k" unfolding route_def by auto
    then show ?thesis using True by simp
  next
    case F: False
    have "route (D - {k}) x = route D x"
    proof (cases "route D x")
      case None
      then have "route (D - {k}) x = None" by (simp add: route_None_iff)
      then show ?thesis using None by simp
    next
      case (Some y)
      then have "route (D - {k}) x = Some y" using F by (auto simp: route_Some_iff [OF f] route_Some_iff [OF assms(1)])
      then show ?thesis using Some by simp
    qed
    then show ?thesis using F by (simp only: if_False)
  qed
qed

lemma names_remove:
  assumes "finite D" "k \<in> D"
  obtains A B where "names D = A @ Some k # B" "names (D - {k}) = A @ B"
proof -
  have "{x \<in> D - {k}. x < k} = {x \<in> D. x < k}" "{x \<in> D - {k}. k < x} = {x \<in> D. k < x}" by auto
  then have "names (D - {k}) = map Some (sorted_list_of_set {x \<in> D. x < k}) @ names {x \<in> D. k < x}"
    using sorted_split [of "D - {k}" k] assms(1) by (simp add: names_def)
  then show ?thesis using that names_less_greater [OF assms] by blast
qed

lemma route_in: "finite D \<Longrightarrow> route D x \<in> insert None (Some ` D)"
  by (cases "route D x") (auto simp: route_Some_iff)

section \<open>Subtrees\<close>

lemma cells_kid: "sub_ok (Suc d) s I a \<Longrightarrow> kids_ok (sub_ok d s) (foot d s) I (nkeys s a) (kid s a)"
  by simp

lemma kids_route: "kids_ok P F I D \<kappa> \<Longrightarrow> \<exists>c. \<kappa> (route D x) = Some c"
  using kids_okD(1,3) [of P F I D \<kappa>] route_in [of D x] by auto

lemma sub_dom: "sub_ok d s I a \<Longrightarrow> dom (sub_map d s a) \<subseteq> I"
proof (induction d arbitrary: I a)
  case (Suc d)
  note k = cells_kid [OF Suc.prems]
  show ?case
  proof
    fix x assume "x \<in> dom (sub_map (Suc d) s a)"
    then obtain c where c: "kid s a (route (nkeys s a) x) = Some c" "x \<in> dom (sub_map d s c)"
      unfolding sub_map.simps kids_map_def by (auto simp: dom_def split: bind_splits)
    then show "x \<in> I" using Suc.IH [OF kids_okD(4) [OF k c(1)]] by (auto simp: part_def)
  qed
qed auto

lemma inner_mono: "I \<subseteq> J \<Longrightarrow> inner I \<subseteq> inner J"
  unfolding inner_def by blast

lemma part_mono: "I \<subseteq> J \<Longrightarrow> part I D r \<subseteq> part J D r"
  unfolding part_def by blast

lemma sub_ok_mono: "sub_ok d s I a \<Longrightarrow> I \<subseteq> J \<Longrightarrow> sub_ok d s J a"
proof (induction d arbitrary: I J a)
  case (Suc d)
  note k = cells_kid [OF Suc.prems(1)]
  have "kids_ok (sub_ok d s) (foot d s) J (nkeys s a) (kid s a)"
    unfolding kids_ok_def
  proof (intro conjI allI impI)
    show "nkeys s a \<subseteq> inner J" using kids_okD(2) [OF k] inner_mono [OF Suc.prems(2)] by (rule order_trans)
    fix r c assume "kid s a r = Some c"
    then show "sub_ok d s (part J (nkeys s a) r) c"
      using Suc.IH [OF kids_okD(4) [OF k] part_mono [OF Suc.prems(2)]] by blast
  qed (use kids_okD(1,3) [OF k] kids_okD(5) [OF k] in \<open>simp_all only: not_False_eq_True\<close>)
  then show ?case using Suc.prems(1) by simp
qed auto

definition old :: "('k, 'v) tree \<Rightarrow> (addr + addr) set" where
  "old s = Inl ` {..<length (leaves s)} \<union> Inr ` {..<length (tree_nodes s)}"

lemma foot_old: "sub_ok d s I a \<Longrightarrow> foot d s a \<subseteq> old s"
proof (induction d arbitrary: I a)
  case (Suc d)
  note k = cells_kid [OF Suc.prems]
  have "kids_foot (foot d s) (kid s a) \<subseteq> old s"
    using Suc.IH [OF kids_okD(4) [OF k]] by (auto simp: kids_foot_def ran_def)
  then show ?case using Suc.prems by (auto simp: old_def)
qed (auto simp: old_def)

lemma foot_self: "Inr a \<in> foot (Suc d) s a" and foot_nonempty: "foot d s a \<noteq> {}"
  by simp (cases d; simp)

section \<open>Changes outside a set\<close>

text \<open>Outside \<open>X\<close> the leaves and nodes of \<open>s\<close> are the same in \<open>s'\<close>.\<close>

definition keeps :: "(addr + addr) set \<Rightarrow> ('k, 'v) tree \<Rightarrow> ('k, 'v) tree \<Rightarrow> bool" where
  "keeps X s s' \<longleftrightarrow> length (leaves s) \<le> length (leaves s') \<and> length (tree_nodes s) \<le> length (tree_nodes s') \<and>
     (\<forall>l. Inl l \<in> old s - X \<longrightarrow> leaf_at s' l = leaf_at s l \<and> live (leaves s') l = live (leaves s) l) \<and>
     (\<forall>a. Inr a \<in> old s - X \<longrightarrow> tree_nodes s' ! a = tree_nodes s ! a)"

lemma keeps_refl [simp]: "keeps X s s"
  by (simp add: keeps_def)

lemma keeps_old: "keeps X s s' \<Longrightarrow> old s \<subseteq> old s'"
  by (auto simp: keeps_def old_def)

lemma keeps_trans: "keeps X s s' \<Longrightarrow> keeps Y s' s'' \<Longrightarrow> X \<subseteq> Z \<Longrightarrow> Y \<subseteq> Z \<union> - old s \<Longrightarrow> keeps Z s s''"
proof -
  assume k: "keeps X s s'" "keeps Y s' s''" and s: "X \<subseteq> Z" "Y \<subseteq> Z \<union> - old s"
  have "y \<in> old s - Z \<Longrightarrow> y \<in> old s - X \<and> y \<in> old s' - Y" for y using keeps_old [OF k(1)] s by blast
  then show ?thesis using k unfolding keeps_def by (metis order_trans)
qed

lemma keeps_mono: "keeps X s s' \<Longrightarrow> X \<inter> old s \<subseteq> Y \<Longrightarrow> keeps Y s s'"
  unfolding keeps_def by blast

lemma keeps_agree:
  assumes "keeps X s s'" "Y \<subseteq> old s - X"
  shows "agree s s' Y" "y \<in> Y \<Longrightarrow> free s' y = free s y"
proof -
  have *: "agree1 s s' y \<and> free s' y = free s y" if "y \<in> Y" for y
  proof (cases y)
    case (Inl l)
    then have "leaf_at s' l = leaf_at s l" "live (leaves s') l = live (leaves s) l" "l < length (leaves s')" using assms that by (auto simp: keeps_def old_def)
    then show ?thesis using Inl by simp
  next
    case (Inr a)
    then have "tree_nodes s' ! a = tree_nodes s ! a" "a < length (tree_nodes s')" using assms that by (auto simp: keeps_def old_def)
    then show ?thesis using Inr by (simp add: tchildren_def tunbounded_def is_internal_def)
  qed
  then show "agree s s' Y" "y \<in> Y \<Longrightarrow> free s' y = free s y" by (auto simp: agree_def)
qed

lemma keeps_frame:
  assumes "keeps X s s'" "sub_ok d s I a" "foot d s a \<inter> X = {}"
  shows "sub_ok d s' I a" "sub_map d s' a = sub_map d s a" "in_order d s' a = in_order d s a" "foot d s' a = foot d s a"
    "has_room d s a x \<Longrightarrow> has_room d s' a x" "y \<in> foot d s a \<Longrightarrow> free s' y = free s y"
proof -
  have sub: "foot d s a \<subseteq> old s - X" using foot_old [OF assms(2)] assms(3) by blast
  note ag = keeps_agree [OF assms(1) sub]
  show "sub_ok d s' I a" "sub_map d s' a = sub_map d s a" "in_order d s' a = in_order d s a"
    "has_room d s a x \<Longrightarrow> has_room d s' a x"
    using frame [OF ag(1) assms(2)] by blast+
  show "foot d s' a = foot d s a" using foot_frame [OF ag(1)] .
  show "y \<in> foot d s a \<Longrightarrow> free s' y = free s y" using ag(2) .
qed

section \<open>A subtree is replaced by two\<close>

text \<open>The subtree \<open>c\<close> in the cell \<open>r\<close> gives way to \<open>lo\<close> and \<open>hi\<close>, which the key \<open>m\<close> separates.\<close>

lemma part_insert:
  assumes "finite D" "m \<in> inner (part I D r)"
  shows "m \<notin> D" "route D m = r" "m \<in> inner I"
    "part I (insert m D) (Some m) = part I D r \<inter> {..m}" "part I (insert m D) r = part I D r \<inter> {m<..}"
    "q \<noteq> r \<Longrightarrow> q \<noteq> Some m \<Longrightarrow> part I (insert m D) q = part I D q" "r \<noteq> Some m"
proof -
  obtain x where m: "m \<in> I" "route D m = r" and x: "x \<in> I" "route D x = r" "m < x"
    using assms(2) by (auto simp: inner_def part_def)
  show "route D m = r" "m \<in> inner I" using m x by (auto simp: inner_def)
  show rn: "r \<noteq> Some m"
  proof
    assume "r = Some m"
    then have "x \<le> m" using x(2) by (simp add: route_Some_iff [OF assms(1)])
    then show False using x(3) by simp
  qed
  show mD: "m \<notin> D"
  proof
    assume "m \<in> D"
    then have "route D m = Some m" by (simp add: route_Some_iff [OF assms(1)])
    then show False using m rn by simp
  qed
  note ri = route_insert [OF assms(1) mD m(2)]
  have nm: "route D y \<noteq> Some m" for y using mD route_in [OF assms(1), of y] by auto
  show "part I (insert m D) (Some m) = part I D r \<inter> {..m}" by (auto simp: part_def ri nm)
  show "part I (insert m D) r = part I D r \<inter> {m<..}" using rn by (auto simp: part_def ri not_le split: if_splits)
  show "q \<noteq> r \<Longrightarrow> q \<noteq> Some m \<Longrightarrow> part I (insert m D) q = part I D q" by (auto simp: part_def ri split: if_splits)
qed

lemma kids_replace:
  fixes s s' :: "('k::linorder, 'v) tree"
  assumes ok: "kids_ok (sub_ok d s) (foot d s) I D \<kappa>" and c: "\<kappa> r = Some c"
    and m: "m \<in> inner (part I D r)" and k: "keeps X s s'" "X \<inter> old s \<inter> (kids_foot (foot d s) (\<kappa>(r := None))) = {}"
    and lo: "sub_ok d s' (part I D r \<inter> {..m}) lo" and hi: "sub_ok d s' (part I D r \<inter> {m<..}) hi"
    and dj: "foot d s' lo \<inter> foot d s' hi = {}" "(foot d s' lo \<union> foot d s' hi) \<inter> kids_foot (foot d s) (\<kappa>(r := None)) = {}"
  defines "\<kappa>' \<equiv> \<kappa>(Some m \<mapsto> lo, r \<mapsto> hi)"
  shows "kids_ok (sub_ok d s') (foot d s') I (insert m D) \<kappa>'"
    "kids_foot (foot d s') \<kappa>' = foot d s' lo \<union> foot d s' hi \<union> kids_foot (foot d s) (\<kappa>(r := None))"
    "kids_map (sub_map d s') (insert m D) \<kappa>' x =
       (if route D x = r then if x \<le> m then sub_map d s' lo x else sub_map d s' hi x else kids_map (sub_map d s) D \<kappa> x)"
proof -
  note o = kids_okD [OF ok] and p = part_insert [OF kids_okD(1) [OF ok] m]
  have dk: "\<kappa> (Some m) = None" using o(3) p(1) by auto
  have oth: "sub_ok d s' (part I D q) b \<and> foot d s' b = foot d s b \<and> sub_map d s' b = sub_map d s b \<and>
      foot d s b \<subseteq> kids_foot (foot d s) (\<kappa>(r := None))" if q: "q \<noteq> r" "\<kappa> q = Some b" for q b
  proof -
    have f: "foot d s b \<subseteq> kids_foot (foot d s) (\<kappa>(r := None))" using q by (auto simp: kids_foot_def ran_def)
    have ob: "sub_ok d s (part I D q) b" using o(4) q(2) .
    then have "foot d s b \<inter> X = {}" using f k(2) foot_old [OF ob] by blast
    from keeps_frame [OF k(1) ob this] show ?thesis using f by blast
  qed
  have \<kappa>': "\<kappa>' q = (if q = r then Some hi else if q = Some m then Some lo else \<kappa> q)" for q by (simp add: \<kappa>'_def)
  show "kids_ok (sub_ok d s') (foot d s') I (insert m D) \<kappa>'"
    unfolding kids_ok_def
  proof (intro conjI allI impI)
    show "dom \<kappa>' = insert None (Some ` insert m D)"
      using o(3) c by (auto simp: \<kappa>'_def)
    show "insert m D \<subseteq> inner I" using o(2) p(3) by simp
    fix q b assume q: "\<kappa>' q = Some b"
    show "sub_ok d s' (part I (insert m D) q) b"
      using q lo hi oth [of q b] p(4,5) p(6) [of q] by (auto simp: \<kappa>' split: if_splits)
    fix q' b' assume q': "\<kappa>' q' = Some b'" "q \<noteq> q'"
    show "foot d s' b \<inter> foot d s' b' = {}"
    proof (cases "q = r \<or> q = Some m")
      case True
      show ?thesis
      proof (cases "q' = r \<or> q' = Some m")
        case True
        then show ?thesis using \<open>q = r \<or> q = Some m\<close> q q' dj(1) by (auto simp: \<kappa>' split: if_splits)
      next
        case False
        then have "foot d s' b' \<subseteq> kids_foot (foot d s) (\<kappa>(r := None))" using oth [of q' b'] q' by (auto simp: \<kappa>')
        moreover have "foot d s' b \<subseteq> foot d s' lo \<union> foot d s' hi" using True q by (auto simp: \<kappa>' split: if_splits)
        ultimately show ?thesis using dj(2) by blast
      qed
    next
      case F: False
      show ?thesis
      proof (cases "q' = r \<or> q' = Some m")
        case True
        have "foot d s' b \<subseteq> kids_foot (foot d s) (\<kappa>(r := None))" using oth [of q b] q F by (auto simp: \<kappa>')
        moreover have "foot d s' b' \<subseteq> foot d s' lo \<union> foot d s' hi" using True q' by (auto simp: \<kappa>' split: if_splits)
        ultimately show ?thesis using dj(2) by blast
      next
        case False
        then have "\<kappa> q = Some b" "\<kappa> q' = Some b'" using q q' F by (auto simp: \<kappa>')
        then show ?thesis using oth [of q b] oth [of q' b'] F False o(5) [of q b q' b'] q'(2) by auto
      qed
    qed
  qed (use o(1) in simp)
  show "kids_foot (foot d s') \<kappa>' = foot d s' lo \<union> foot d s' hi \<union> kids_foot (foot d s) (\<kappa>(r := None))"
  proof (intro equalityI subsetI)
    fix y assume "y \<in> kids_foot (foot d s') \<kappa>'"
    then obtain q b where qb: "\<kappa>' q = Some b" "y \<in> foot d s' b" by (rule in_footE)
    then show "y \<in> foot d s' lo \<union> foot d s' hi \<union> kids_foot (foot d s) (\<kappa>(r := None))"
      using oth [of q b] by (auto simp: \<kappa>' split: if_splits)
  next
    fix y assume y: "y \<in> foot d s' lo \<union> foot d s' hi \<union> kids_foot (foot d s) (\<kappa>(r := None))"
    show "y \<in> kids_foot (foot d s') \<kappa>'"
    proof (cases "y \<in> kids_foot (foot d s) (\<kappa>(r := None))")
      case True
      then obtain q b where qb: "(\<kappa>(r := None)) q = Some b" "y \<in> foot d s b" by (rule in_footE)
      then have "q \<noteq> r" "\<kappa> q = Some b" by (auto split: if_splits)
      moreover from this have "q \<noteq> Some m" using dk by auto
      ultimately show ?thesis using oth [of q b] qb(2) in_footI [of \<kappa>' q b y] by (simp add: \<kappa>')
    next
      case False
      then show ?thesis using y in_footI [of \<kappa>' "Some m" lo y] in_footI [of \<kappa>' r hi y] p(7) by (auto simp: \<kappa>')
    qed
  qed
  note ri = route_insert [OF o(1) p(1,2), of x]
  show "kids_map (sub_map d s') (insert m D) \<kappa>' x =
      (if route D x = r then if x \<le> m then sub_map d s' lo x else sub_map d s' hi x else kids_map (sub_map d s) D \<kappa> x)"
  proof (cases "route D x = r")
    case True
    then show ?thesis using p(7) by (simp add: kids_map_def ri \<kappa>')
  next
    case False
    obtain b where b: "\<kappa> (route D x) = Some b" using kids_route [OF ok] by blast
    moreover have "route D x \<noteq> Some m" using b dk by auto
    ultimately show ?thesis using False oth [OF False b] by (simp add: kids_map_def ri \<kappa>')
  qed
qed

section \<open>The order of the leaves\<close>

text \<open>An operation replaces each leaf in the order by a list of leaves.\<close>

abbreviation (input) substs :: "(addr \<Rightarrow> addr list) \<Rightarrow> addr list \<Rightarrow> addr list" where
  "substs \<sigma> xs \<equiv> concat (map \<sigma> xs)"

lemma substs_id: "(\<And>x. x \<in> set xs \<Longrightarrow> \<sigma> x = [x]) \<Longrightarrow> substs \<sigma> xs = xs"
  by (induction xs) auto

lemma substs_concat: "substs \<sigma> (concat xss) = concat (map (substs \<sigma>) xss)"
  by (induction xss) auto

lemma in_order_foot: "sub_ok d s I a \<Longrightarrow> l \<in> set (in_order d s a) \<longleftrightarrow> Inl l \<in> foot d s a"
proof (induction d arbitrary: I a)
  case (Suc d)
  note k = cells_kid [OF Suc.prems]
  have ih: "l \<in> set (in_order d s c) \<longleftrightarrow> Inl l \<in> foot d s c" if "c \<in> ran (kid s a)" for c
    using Suc.IH kids_okD(4) [OF k] that by (auto simp: ran_def)
  have "set (kid_list (nkeys s a) (kid s a)) = ran (kid s a)" by (rule kid_list_ran) (rule kids_okD [OF k])+
  then have "set (in_order (Suc d) s a) = (\<Union>c\<in>ran (kid s a). set (in_order d s c))"
    by (simp add: kids_order_def)
  then show ?case using ih by (auto simp: kids_foot_def)
qed simp

lemma kids_order_replace:
  assumes "finite D" "m \<notin> D" "route D m = r" "\<kappa> r = Some c" "r \<noteq> Some m"
    and "\<And>q. q \<noteq> r \<Longrightarrow> q \<in> set (names D) \<Longrightarrow> L' (the (\<kappa> q)) = substs \<sigma> (L (the (\<kappa> q)))"
    and "L' lo @ L' hi = substs \<sigma> (L c)"
  shows "kids_order L' (insert m D) (\<kappa>(Some m \<mapsto> lo, r \<mapsto> hi)) = substs \<sigma> (kids_order L D \<kappa>)"
proof -
  obtain A B where n: "names D = A @ r # B" "names (insert m D) = A @ Some m # r # B" using names_insert [OF assms(1-3)] .
  have ds: "r \<notin> set A" "r \<notin> set B" using distinct_names [of D] unfolding n(1) by auto
  have ms: "Some m \<notin> set A" "Some m \<notin> set B" using distinct_names [of "insert m D"] unfolding n(2) by auto
  let ?f = "\<lambda>q. L' (the ((\<kappa>(Some m \<mapsto> lo, r \<mapsto> hi)) q))" and ?g = "\<lambda>q. substs \<sigma> (L (the (\<kappa> q)))"
  have *: "map ?f xs = map ?g xs" if "set xs \<subseteq> set (names D)" "r \<notin> set xs" "Some m \<notin> set xs" for xs
    using that assms(6) by (intro map_cong) auto
  have AB: "map ?f A = map ?g A" "map ?f B = map ?g B" by (rule *; use ds ms n in auto)+
  have fg: "?f (Some m) = L' lo" "?f r = L' hi" "?g r = L' lo @ L' hi" using assms(4,5,7) by simp_all
  have "concat (map ?f (A @ Some m # r # B)) = concat (map ?f A) @ ?f (Some m) @ ?f r @ concat (map ?f B)"
    by (simp only: map_append list.map concat_append concat.simps append_assoc)
  also have "\<dots> = concat (map ?g (A @ r # B))"
    unfolding AB fg(1,2) by (simp only: map_append list.map concat_append concat.simps append_assoc fg(3))
  finally show ?thesis
    unfolding kids_order_def kid_list_def n substs_concat map_map comp_def .
qed

text \<open>Leaves outside a set keep their place.\<close>

definition local_subst :: "('k, 'v) tree \<Rightarrow> (addr \<Rightarrow> addr list) \<Rightarrow> (addr + addr) set \<Rightarrow> bool" where
  "local_subst s \<sigma> X \<longleftrightarrow> (\<forall>l. Inl l \<in> old s - X \<longrightarrow> \<sigma> l = [l])"

lemma local_subst_id:
  assumes "local_subst s \<sigma> X" "sub_ok d s I a" "foot d s a \<inter> X = {}"
  shows "substs \<sigma> (in_order d s a) = in_order d s a"
proof (rule substs_id)
  fix l assume "l \<in> set (in_order d s a)"
  then have "Inl l \<in> foot d s a" using in_order_foot [OF assms(2)] by blast
  then show "\<sigma> l = [l]" using assms foot_old [OF assms(2)] by (auto simp: local_subst_def)
qed

section \<open>A subtree changes\<close>

text \<open>The subtree \<open>c\<close> in the cell \<open>r\<close> gives way to \<open>e\<close>, which may be the same subtree in another state.\<close>

lemma kids_swap:
  fixes s s' :: "('k::linorder, 'v) tree"
  assumes ok: "kids_ok (sub_ok d s) (foot d s) I D \<kappa>" and c: "\<kappa> r = Some c"
    and k: "keeps X s s'" "X \<inter> old s \<inter> (kids_foot (foot d s) (\<kappa>(r := None))) = {}"
    and c': "sub_ok d s' (part I D r) e" "foot d s' e \<inter> kids_foot (foot d s) (\<kappa>(r := None)) = {}"
  defines "\<kappa>' \<equiv> \<kappa>(r \<mapsto> e)"
  shows "kids_ok (sub_ok d s') (foot d s') I D \<kappa>'"
    "kids_foot (foot d s') \<kappa>' = foot d s' e \<union> kids_foot (foot d s) (\<kappa>(r := None))"
    "kids_map (sub_map d s') D \<kappa>' x = (if route D x = r then sub_map d s' e x else kids_map (sub_map d s) D \<kappa> x)"
    "local_subst s \<sigma> X \<Longrightarrow> in_order d s' e = substs \<sigma> (in_order d s c) \<Longrightarrow>
       kids_order (in_order d s') D \<kappa>' = substs \<sigma> (kids_order (in_order d s) D \<kappa>)"
    "q \<noteq> r \<Longrightarrow> \<kappa> q = Some b \<Longrightarrow> y \<in> foot d s b \<Longrightarrow> free s' y = free s y"
proof -
  note o = kids_okD [OF ok]
  have \<kappa>': "\<kappa>' q = (if q = r then Some e else \<kappa> q)" for q by (simp add: \<kappa>'_def)
  have disj: "foot d s b \<inter> X = {}" if "q \<noteq> r" "\<kappa> q = Some b" for q b
  proof -
    have "foot d s b \<subseteq> kids_foot (foot d s) (\<kappa>(r := None))" using that by (auto simp: kids_foot_def ran_def)
    then show ?thesis using k(2) foot_old [OF o(4) [OF that(2)]] by blast
  qed
  have oth: "sub_ok d s' (part I D q) b \<and> foot d s' b = foot d s b \<and> sub_map d s' b = sub_map d s b \<and>
      in_order d s' b = in_order d s b \<and> foot d s b \<subseteq> kids_foot (foot d s) (\<kappa>(r := None))" if q: "q \<noteq> r" "\<kappa> q = Some b" for q b
  proof -
    have "foot d s b \<subseteq> kids_foot (foot d s) (\<kappa>(r := None))" using q by (auto simp: kids_foot_def ran_def)
    then show ?thesis using keeps_frame [OF k(1) o(4) [OF q(2)] disj [OF q]] by blast
  qed
  show "q \<noteq> r \<Longrightarrow> \<kappa> q = Some b \<Longrightarrow> y \<in> foot d s b \<Longrightarrow> free s' y = free s y" for q b y
    using keeps_frame(6) [OF k(1) o(4) disj] by blast
  show "kids_ok (sub_ok d s') (foot d s') I D \<kappa>'"
    unfolding kids_ok_def
  proof (intro conjI allI impI)
    show "dom \<kappa>' = insert None (Some ` D)" using o(3) c by (auto simp: \<kappa>'_def)
    fix q b assume q: "\<kappa>' q = Some b"
    show "sub_ok d s' (part I D q) b" using q c'(1) oth [of q b] by (cases "q = r") (auto simp: \<kappa>')
    fix q' b' assume q': "\<kappa>' q' = Some b'" "q \<noteq> q'"
    show "foot d s' b \<inter> foot d s' b' = {}"
    proof (cases "q = r")
      case True
      then have "b = e" "q' \<noteq> r" "\<kappa> q' = Some b'" using q q' by (auto simp: \<kappa>')
      then show ?thesis using oth [of q' b'] c'(2) by blast
    next
      case F: False
      then have qb: "\<kappa> q = Some b" using q by (simp add: \<kappa>')
      show ?thesis
      proof (cases "q' = r")
        case True
        then have "b' = e" using q' by (simp add: \<kappa>')
        then show ?thesis using oth [OF F qb] c'(2) by blast
      next
        case False
        then have "\<kappa> q' = Some b'" using q' by (simp add: \<kappa>')
        then show ?thesis using oth [OF F qb] oth [OF False] o(5) [OF qb _ q'(2)] by simp
      qed
    qed
  qed (use o(1,2) in auto)
  show "kids_foot (foot d s') \<kappa>' = foot d s' e \<union> kids_foot (foot d s) (\<kappa>(r := None))"
  proof (intro equalityI subsetI)
    fix y assume "y \<in> kids_foot (foot d s') \<kappa>'"
    then obtain q b where qb: "\<kappa>' q = Some b" "y \<in> foot d s' b" by (rule in_footE)
    then show "y \<in> foot d s' e \<union> kids_foot (foot d s) (\<kappa>(r := None))" using oth [of q b] by (cases "q = r") (auto simp: \<kappa>')
  next
    fix y assume y: "y \<in> foot d s' e \<union> kids_foot (foot d s) (\<kappa>(r := None))"
    show "y \<in> kids_foot (foot d s') \<kappa>'"
    proof (cases "y \<in> foot d s' e")
      case False
      then obtain q b where qb: "(\<kappa>(r := None)) q = Some b" "y \<in> foot d s b" using y by (auto elim: in_footE)
      then have "q \<noteq> r" "\<kappa> q = Some b" by (auto split: if_splits)
      then show ?thesis using oth [of q b] qb(2) in_footI [of \<kappa>' q b y] by (simp add: \<kappa>')
    qed (use in_footI [of \<kappa>' r e y] in \<open>simp add: \<kappa>'\<close>)
  qed
  show "kids_map (sub_map d s') D \<kappa>' x = (if route D x = r then sub_map d s' e x else kids_map (sub_map d s) D \<kappa> x)"
  proof (cases "route D x = r")
    case True
    then show ?thesis by (simp add: kids_map_def \<kappa>')
  next
    case False
    obtain b where b: "\<kappa> (route D x) = Some b" using kids_route [OF ok] by blast
    then show ?thesis using False oth [OF False b] by (simp add: kids_map_def \<kappa>')
  qed
  assume \<sigma>: "local_subst s \<sigma> X" "in_order d s' e = substs \<sigma> (in_order d s c)"
  have L: "in_order d s' (the (\<kappa>' q)) = substs \<sigma> (in_order d s (the (\<kappa> q)))" if qn: "q \<in> set (names D)" for q
  proof -
    obtain b where b: "\<kappa> q = Some b" using qn unfolding set_names [OF o(1)] o(3) [symmetric] by auto
    show ?thesis
    proof (cases "q = r")
      case True
      then show ?thesis using c \<sigma>(2) by (simp add: \<kappa>')
    next
      case False
      then show ?thesis using b oth [OF False b] local_subst_id [OF \<sigma>(1) o(4) [OF b] disj [OF False b]] by (simp add: \<kappa>')
    qed
  qed
  show "kids_order (in_order d s') D \<kappa>' = substs \<sigma> (kids_order (in_order d s) D \<kappa>)"
    unfolding kids_order_def kid_list_def substs_concat map_map using L by (auto simp: comp_def intro!: arg_cong [of _ _ concat])
qed

section \<open>A family is cut in two\<close>

definition low_kids :: "'k::linorder \<Rightarrow> ('k option \<rightharpoonup> addr) \<Rightarrow> 'k option \<rightharpoonup> addr" where
  "low_kids m \<kappa> r = (case r of None \<Rightarrow> \<kappa> (Some m) | Some k \<Rightarrow> if k < m then \<kappa> r else None)"

definition high_kids :: "'k::linorder \<Rightarrow> ('k option \<rightharpoonup> addr) \<Rightarrow> 'k option \<rightharpoonup> addr" where
  "high_kids m \<kappa> r = (case r of None \<Rightarrow> \<kappa> None | Some k \<Rightarrow> if m < k then \<kappa> r else None)"

lemma part_cut:
  assumes "finite D" "m \<in> D"
  shows "part (I \<inter> {..m}) {k \<in> D. k < m} None = part I D (Some m)"
    "k < m \<Longrightarrow> part (I \<inter> {..m}) {k \<in> D. k < m} (Some k) = part I D (Some k)"
    "part (I \<inter> {m<..}) {k \<in> D. m < k} None = part I D None"
    "m < k \<Longrightarrow> part (I \<inter> {m<..}) {k \<in> D. m < k} (Some k) = part I D (Some k)"
proof -
  note i = route_Some_iff [OF assms(1)]
  have le: "route D x = Some k \<Longrightarrow> x \<le> k" and ge: "route D x = None \<Longrightarrow> m < x" and gt: "route D x = Some k \<Longrightarrow> m < k \<Longrightarrow> m < x" for x k
    using assms(2) by (auto simp: i route_None_iff not_le [symmetric])
  show "part (I \<inter> {..m}) {k \<in> D. k < m} None = part I D (Some m)"
  proof (rule set_eqI)
    fix x
    have "x \<le> m \<Longrightarrow> route D x \<noteq> None" using ge [of x] by (metis not_le)
    then show "x \<in> part (I \<inter> {..m}) {k \<in> D. k < m} None \<longleftrightarrow> x \<in> part I D (Some m)"
      using route_low [OF assms, of x] le [of x m] by (cases "x \<le> m") (auto simp: part_def)
  qed
  show "k < m \<Longrightarrow> part (I \<inter> {..m}) {k \<in> D. k < m} (Some k) = part I D (Some k)"
  proof (rule set_eqI)
    fix x assume "k < m"
    then show "x \<in> part (I \<inter> {..m}) {k \<in> D. k < m} (Some k) \<longleftrightarrow> x \<in> part I D (Some k)"
      using route_low [OF assms, of x] le [of x k] by (cases "x \<le> m") (auto simp: part_def)
  qed
  show "part (I \<inter> {m<..}) {k \<in> D. m < k} None = part I D None"
    using ge by (auto simp: part_def route_high [OF assms(1)])
  show "m < k \<Longrightarrow> part (I \<inter> {m<..}) {k \<in> D. m < k} (Some k) = part I D (Some k)"
    using gt by (auto simp: part_def route_high [OF assms(1)])
qed

lemma low_high_kids:
  "low_kids m \<kappa> r = Some c \<Longrightarrow> \<exists>q. \<kappa> q = Some c \<and> (q = Some m \<and> r = None \<or> (\<exists>k<m. r = Some k \<and> q = r))"
  "high_kids m \<kappa> r = Some c \<Longrightarrow> \<exists>q. \<kappa> q = Some c \<and> q = r \<and> (q = None \<or> (\<exists>k>m. q = Some k))"
  by (auto simp: low_kids_def high_kids_def split: option.splits if_splits)

lemma kids_cut:
  assumes ok: "kids_ok P F I D \<kappa>" and m: "m \<in> D"
  shows "kids_ok P F (I \<inter> {..m}) {k \<in> D. k < m} (low_kids m \<kappa>)" "kids_ok P F (I \<inter> {m<..}) {k \<in> D. m < k} (high_kids m \<kappa>)"
    "kids_foot F (low_kids m \<kappa>) \<union> kids_foot F (high_kids m \<kappa>) = kids_foot F \<kappa>"
    "kids_foot F (low_kids m \<kappa>) \<inter> kids_foot F (high_kids m \<kappa>) = {}"
proof -
  note o = kids_okD [OF ok] and pc = part_cut [OF kids_okD(1) [OF ok] m]
  have mI: "m \<in> I" using o(2) m by (auto simp: inner_def)
  have dm: "k \<in> D \<Longrightarrow> \<exists>c. \<kappa> (Some k) = Some c" "\<exists>c. \<kappa> None = Some c" for k using o(3) by (auto simp: dom_def set_eq_iff)
  have kD: "\<kappa> (Some k) = Some c \<Longrightarrow> k \<in> D" for k c using o(3) by auto
  show "kids_ok P F (I \<inter> {..m}) {k \<in> D. k < m} (low_kids m \<kappa>)"
    unfolding kids_ok_def
  proof (intro conjI allI impI)
    show "{k \<in> D. k < m} \<subseteq> inner (I \<inter> {..m})" using o(2) mI by (auto simp: inner_def)
    show "dom (low_kids m \<kappa>) = insert None (Some ` {k \<in> D. k < m})"
    proof (intro set_eqI iffI)
      fix r assume "r \<in> dom (low_kids m \<kappa>)"
      then show "r \<in> insert None (Some ` {k \<in> D. k < m})"
        using kD by (cases r) (auto simp: low_kids_def split: if_splits)
    next
      fix r assume "r \<in> insert None (Some ` {k \<in> D. k < m})"
      then show "r \<in> dom (low_kids m \<kappa>)" using dm(1) m by (cases r) (auto simp: low_kids_def)
    qed
    fix r c assume r: "low_kids m \<kappa> r = Some c"
    then show "P (part (I \<inter> {..m}) {k \<in> D. k < m} r) c"
      using o(4) pc(1,2) by (auto simp: low_kids_def split: option.splits if_splits)
    fix r' c' assume "low_kids m \<kappa> r' = Some c'" "r \<noteq> r'"
    then show "F c \<inter> F c' = {}" using low_high_kids(1) [OF r] low_high_kids(1) [of m \<kappa> r' c'] o(5) by (metis order_less_irrefl option.inject)
  qed (use o(1) in simp)
  show "kids_ok P F (I \<inter> {m<..}) {k \<in> D. m < k} (high_kids m \<kappa>)"
    unfolding kids_ok_def
  proof (intro conjI allI impI)
    show "{k \<in> D. m < k} \<subseteq> inner (I \<inter> {m<..})"
    proof
      fix k assume k: "k \<in> {k \<in> D. m < k}"
      then obtain x where "k \<in> I" "x \<in> I" "k < x" using o(2) by (auto simp: inner_def)
      then show "k \<in> inner (I \<inter> {m<..})" using k by (auto simp: inner_def intro!: bexI [of _ x])
    qed
    show "dom (high_kids m \<kappa>) = insert None (Some ` {k \<in> D. m < k})"
    proof (intro set_eqI iffI)
      fix r assume "r \<in> dom (high_kids m \<kappa>)"
      then show "r \<in> insert None (Some ` {k \<in> D. m < k})"
        using kD by (cases r) (auto simp: high_kids_def split: if_splits)
    next
      fix r assume "r \<in> insert None (Some ` {k \<in> D. m < k})"
      then show "r \<in> dom (high_kids m \<kappa>)" using dm by (cases r) (auto simp: high_kids_def)
    qed
    fix r c assume r: "high_kids m \<kappa> r = Some c"
    then show "P (part (I \<inter> {m<..}) {k \<in> D. m < k} r) c"
      using o(4) pc(3,4) by (auto simp: high_kids_def split: option.splits if_splits)
    fix r' c' assume "high_kids m \<kappa> r' = Some c'" "r \<noteq> r'"
    then show "F c \<inter> F c' = {}" using low_high_kids(2) [OF r] low_high_kids(2) [of m \<kappa> r' c'] o(5) by blast
  qed (use o(1) in simp)
  show "kids_foot F (low_kids m \<kappa>) \<inter> kids_foot F (high_kids m \<kappa>) = {}"
  proof (rule equals0I)
    fix y assume "y \<in> kids_foot F (low_kids m \<kappa>) \<inter> kids_foot F (high_kids m \<kappa>)"
    then obtain r c r' c' where y: "low_kids m \<kappa> r = Some c" "high_kids m \<kappa> r' = Some c'" "y \<in> F c" "y \<in> F c'"
      by (auto elim!: in_footE)
    obtain q where q: "\<kappa> q = Some c" "q = Some m \<or> (\<exists>k<m. q = Some k)" using low_high_kids(1) [OF y(1)] by blast
    obtain q' where q': "\<kappa> q' = Some c'" "q' = None \<or> (\<exists>k>m. q' = Some k)" using low_high_kids(2) [OF y(2)] by blast
    have "q \<noteq> q'" using q(2) q'(2) by auto
    then show False using o(5) [OF q(1) q'(1)] y(3,4) by blast
  qed
  show "kids_foot F (low_kids m \<kappa>) \<union> kids_foot F (high_kids m \<kappa>) = kids_foot F \<kappa>"
  proof (intro equalityI subsetI)
    fix y assume "y \<in> kids_foot F (low_kids m \<kappa>) \<union> kids_foot F (high_kids m \<kappa>)"
    then show "y \<in> kids_foot F \<kappa>"
      by (auto elim!: in_footE dest!: low_high_kids intro: in_footI)
  next
    fix y assume "y \<in> kids_foot F \<kappa>"
    then obtain q c where q: "\<kappa> q = Some c" "y \<in> F c" by (rule in_footE)
    have "low_kids m \<kappa> None = Some c \<or> low_kids m \<kappa> q = Some c \<or> high_kids m \<kappa> q = Some c"
      using q(1) by (cases q) (auto simp: low_kids_def high_kids_def neq_iff)
    then show "y \<in> kids_foot F (low_kids m \<kappa>) \<union> kids_foot F (high_kids m \<kappa>)" using q(2) by (auto intro: in_footI)
  qed
qed

lemma route_cut:
  assumes "finite D" "m \<in> D"
  shows "x \<le> m \<Longrightarrow> low_kids m \<kappa> (route {k \<in> D. k < m} x) = \<kappa> (route D x)"
    "m < x \<Longrightarrow> high_kids m \<kappa> (route {k \<in> D. m < k} x) = \<kappa> (route D x)"
proof -
  note i = route_Some_iff [OF assms(1)]
  assume x: "x \<le> m"
  then obtain k where k: "route D x = Some k" "k \<le> m" using assms(2) by (cases "route D x") (auto simp: route_None_iff i not_less)
  then show "low_kids m \<kappa> (route {k \<in> D. k < m} x) = \<kappa> (route D x)"
    by (auto simp: route_low [OF assms x] low_kids_def)
next
  note i = route_Some_iff [OF assms(1)]
  assume x: "m < x"
  then show "high_kids m \<kappa> (route {k \<in> D. m < k} x) = \<kappa> (route D x)"
  proof (cases "route D x")
    case (Some k)
    then have "m < k" using x by (auto simp: i)
    then show ?thesis using Some by (simp add: route_high [OF assms(1) x] high_kids_def)
  qed (simp add: route_high [OF assms(1) x] high_kids_def)
qed

lemma kids_map_cut:
  assumes "finite D" "m \<in> D"
  shows "kids_map M D \<kappa> x = (if x \<le> m then kids_map M {k \<in> D. k < m} (low_kids m \<kappa>) x else kids_map M {k \<in> D. m < k} (high_kids m \<kappa>) x)"
  by (simp add: kids_map_def route_cut [OF assms] not_le)

lemma kids_order_cut:
  assumes "finite D" "m \<in> D"
  shows "kids_order L D \<kappa> = kids_order L {k \<in> D. k < m} (low_kids m \<kappa>) @ kids_order L {k \<in> D. m < k} (high_kids m \<kappa>)"
proof -
  let ?A = "sorted_list_of_set {k \<in> D. k < m}" and ?H = "{k \<in> D. m < k}"
  have A: "map (\<lambda>k. the (low_kids m \<kappa> (Some k))) ?A = map (\<lambda>k. the (\<kappa> (Some k))) ?A"
    using assms(1) by (intro map_cong) (auto simp: low_kids_def)
  have H: "map (\<lambda>r. the (high_kids m \<kappa> r)) (names ?H) = map (\<lambda>r. the (\<kappa> r)) (names ?H)"
    using assms(1) by (intro map_cong) (auto simp: high_kids_def set_names)
  have "kid_list D \<kappa> = kid_list {k \<in> D. k < m} (low_kids m \<kappa>) @ kid_list ?H (high_kids m \<kappa>)"
    unfolding kid_list_def H names_less_greater [OF assms]
    using A by (simp add: names_def comp_def low_kids_def [of m \<kappa> None])
  then show ?thesis by (simp add: kids_order_def)
qed

section \<open>An empty subtree is left out\<close>

text \<open>The cell \<open>Some k\<close> is removed; the keys it was responsible for go to the next cell.\<close>

lemma kids_drop:
  fixes s :: "('k::linorder, 'v) tree"
  assumes ok: "kids_ok (sub_ok d s) (foot d s) I D \<kappa>" and k: "k \<in> D" "\<kappa> (Some k) = Some c" "sub_map d s c = Map.empty"
  defines "\<kappa>' \<equiv> \<kappa>(Some k := None)"
  shows "kids_ok (sub_ok d s) (foot d s) I (D - {k}) \<kappa>'" "kids_map (sub_map d s) (D - {k}) \<kappa>' = kids_map (sub_map d s) D \<kappa>"
    "substs \<sigma> (L c) = [] \<Longrightarrow> (\<And>q b. \<kappa> q = Some b \<Longrightarrow> q \<noteq> Some k \<Longrightarrow> substs \<sigma> (L b) = L b) \<Longrightarrow>
       kids_order L (D - {k}) \<kappa>' = substs \<sigma> (kids_order L D \<kappa>)"
proof -
  note o = kids_okD [OF ok]
  obtain r0 where r0: "route (D - {k}) k = r0" by blast
  note rr = route_remove [OF o(1) k(1), unfolded r0]
  have pm: "r \<noteq> Some k \<Longrightarrow> part I D r \<subseteq> part I (D - {k}) r" for r by (auto simp: part_def rr)
  show "kids_ok (sub_ok d s) (foot d s) I (D - {k}) \<kappa>'"
    unfolding kids_ok_def
  proof (intro conjI allI impI)
    show "dom \<kappa>' = insert None (Some ` (D - {k}))" using o(3) by (auto simp: \<kappa>'_def)
    fix r b assume r: "\<kappa>' r = Some b"
    then have "\<kappa> r = Some b" "r \<noteq> Some k" by (auto simp: \<kappa>'_def split: if_splits)
    then show "sub_ok d s (part I (D - {k}) r) b" using sub_ok_mono [OF o(4) pm] by blast
    fix r' b' assume "\<kappa>' r' = Some b'" "r \<noteq> r'"
    then show "foot d s b \<inter> foot d s b' = {}" using r o(5) by (auto simp: \<kappa>'_def split: if_splits)
  qed (use o(1,2) in auto)
  show "kids_map (sub_map d s) (D - {k}) \<kappa>' = kids_map (sub_map d s) D \<kappa>"
  proof (rule ext)
    fix x
    show "kids_map (sub_map d s) (D - {k}) \<kappa>' x = kids_map (sub_map d s) D \<kappa> x"
    proof (cases "route D x = Some k")
      case True
      have nk: "r0 \<noteq> Some k" using route_in [of "D - {k}" k] o(1) unfolding r0 by auto
      then obtain b where b: "\<kappa> r0 = Some b" using route_in [of "D - {k}" k] o(1,3) unfolding r0 by (auto simp: dom_def set_eq_iff)
      have "x \<notin> part I D r0" using True nk by (auto simp: part_def)
      then have "sub_map d s b x = None" using sub_dom [OF o(4) [OF b]] by auto
      then show ?thesis using True nk b k(2,3) by (simp add: kids_map_def rr \<kappa>'_def)
    next
      case False
      then show ?thesis by (simp add: kids_map_def rr \<kappa>'_def)
    qed
  qed
  assume \<sigma>: "substs \<sigma> (L c) = []" "\<And>q b. \<kappa> q = Some b \<Longrightarrow> q \<noteq> Some k \<Longrightarrow> substs \<sigma> (L b) = L b"
  obtain A B where n: "names D = A @ Some k # B" "names (D - {k}) = A @ B" using names_remove [OF o(1) k(1)] .
  have ds: "Some k \<notin> set A" "Some k \<notin> set B" using distinct_names [of D] unfolding n(1) by auto
  let ?f = "\<lambda>q. L (the (\<kappa>' q))" and ?g = "\<lambda>q. substs \<sigma> (L (the (\<kappa> q)))"
  have *: "map ?f xs = map ?g xs" if "set xs \<subseteq> set (names D)" "Some k \<notin> set xs" for xs
  proof (rule map_cong [OF refl])
    fix q assume "q \<in> set xs"
    then have q: "q \<in> set (names D)" "q \<noteq> Some k" using that by auto
    then obtain b where "\<kappa> q = Some b" using o(1,3) by (auto simp: set_names)
    then show "?f q = ?g q" using \<sigma>(2) [of q b] q(2) by (simp add: \<kappa>'_def)
  qed
  have AB: "map ?f A = map ?g A" "map ?f B = map ?g B" by (rule *; use ds n in auto)+
  have g: "?g (Some k) = []" using k(2) \<sigma>(1) by simp
  have "concat (map ?f (A @ B)) = concat (map ?g (A @ Some k # B))"
    unfolding map_append list.map concat_append concat.simps AB g by simp
  then show "kids_order L (D - {k}) \<kappa>' = substs \<sigma> (kids_order L D \<kappa>)"
    unfolding kids_order_def kid_list_def n substs_concat map_map comp_def .
qed

text \<open>The unbounded subtree is empty and the one with the largest key takes its place.\<close>

lemma kids_shift:
  fixes s :: "('k::linorder, 'v) tree"
  assumes ok: "kids_ok (sub_ok d s) (foot d s) I D \<kappa>" and k: "k \<in> D" "\<forall>x\<in>D. x \<le> k"
    and c: "\<kappa> None = Some c" "sub_map d s c = Map.empty"
  defines "\<kappa>' \<equiv> \<kappa>(None := \<kappa> (Some k), Some k := None)"
  shows "kids_ok (sub_ok d s) (foot d s) I (D - {k}) \<kappa>'" "kids_map (sub_map d s) (D - {k}) \<kappa>' = kids_map (sub_map d s) D \<kappa>"
    "substs \<sigma> (L c) = [] \<Longrightarrow> (\<And>q b. \<kappa> q = Some b \<Longrightarrow> q \<noteq> None \<Longrightarrow> substs \<sigma> (L b) = L b) \<Longrightarrow>
       kids_order L (D - {k}) \<kappa>' = substs \<sigma> (kids_order L D \<kappa>)"
proof -
  note o = kids_okD [OF ok]
  have rk: "route (D - {k}) k = None"
    unfolding route_None_iff using k(2) by (auto simp: order.order_iff_strict)
  note rr = route_remove [OF o(1) k(1), unfolded rk]
  obtain b where b: "\<kappa> (Some k) = Some b" using o(3) k(1) by (auto simp: dom_def set_eq_iff)
  have \<kappa>': "\<kappa>' r = (if r = None then Some b else if r = Some k then None else \<kappa> r)" for r by (simp add: \<kappa>'_def b)
  have pm: "part I D (Some k) \<subseteq> part I (D - {k}) None" "r \<noteq> None \<Longrightarrow> r \<noteq> Some k \<Longrightarrow> part I D r \<subseteq> part I (D - {k}) r" for r
    by (auto simp: part_def rr)
  show "kids_ok (sub_ok d s) (foot d s) I (D - {k}) \<kappa>'"
    unfolding kids_ok_def
  proof (intro conjI allI impI)
    show "dom \<kappa>' = insert None (Some ` (D - {k}))" using o(3) b by (auto simp: \<kappa>'_def)
    fix r e assume r: "\<kappa>' r = Some e"
    show "sub_ok d s (part I (D - {k}) r) e"
    proof (cases r)
      case None
      then have "e = b" using r by (simp add: \<kappa>')
      then show ?thesis using sub_ok_mono [OF o(4) [OF b] pm(1)] None by simp
    next
      case (Some x)
      then have "\<kappa> r = Some e" "r \<noteq> Some k" using r by (auto simp: \<kappa>' split: if_splits)
      then show ?thesis using sub_ok_mono [OF o(4) pm(2)] Some by blast
    qed
    fix r' e' assume r': "\<kappa>' r' = Some e'" "r \<noteq> r'"
    have "\<exists>q. \<kappa> q = Some e \<and> q = (if r = None then Some k else r)" "r \<noteq> Some k" using r b by (auto simp: \<kappa>' split: if_splits)
    moreover have "\<exists>q. \<kappa> q = Some e' \<and> q = (if r' = None then Some k else r')" "r' \<noteq> Some k" using r' b by (auto simp: \<kappa>' split: if_splits)
    ultimately show "foot d s e \<inter> foot d s e' = {}"
      using o(5) [of "if r = None then Some k else r" e "if r' = None then Some k else r'" e'] r'(2) by (auto split: if_splits)
  qed (use o(1,2) in auto)
  show "kids_map (sub_map d s) (D - {k}) \<kappa>' = kids_map (sub_map d s) D \<kappa>"
  proof (rule ext)
    fix x
    show "kids_map (sub_map d s) (D - {k}) \<kappa>' x = kids_map (sub_map d s) D \<kappa> x"
    proof (cases "route D x = None")
      case True
      then have "x \<notin> part I D (Some k)" by (simp add: part_def)
      then have "sub_map d s b x = None" using sub_dom [OF o(4) [OF b]] by auto
      then show ?thesis using True c by (simp add: kids_map_def rr \<kappa>')
    next
      case False
      then obtain y where "route D x = Some y" by auto
      then show ?thesis using b by (auto simp: kids_map_def rr \<kappa>')
    qed
  qed
  assume \<sigma>: "substs \<sigma> (L c) = []" "\<And>q b. \<kappa> q = Some b \<Longrightarrow> q \<noteq> None \<Longrightarrow> substs \<sigma> (L b) = L b"
  let ?A = "map Some (sorted_list_of_set {x \<in> D. x < k})"
  have e: "{x \<in> D. k < x} = {}" using k(2) by (auto simp: not_le [symmetric])
  have n: "names D = ?A @ [Some k, None]" unfolding names_less_greater [OF o(1) k(1)] e by (simp add: names_def)
  have "D - {k} = {x \<in> D. x < k}" using k(2) by (auto simp: order.order_iff_strict)
  then have n': "names (D - {k}) = ?A @ [None]" unfolding names_def by simp
  let ?f = "\<lambda>q. L (the (\<kappa>' q))" and ?g = "\<lambda>q. substs \<sigma> (L (the (\<kappa> q)))"
  have A: "map ?f ?A = map ?g ?A"
  proof (rule map_cong [OF refl])
    fix q assume "q \<in> set ?A"
    then have q: "q \<noteq> None" "q \<noteq> Some k" "q \<in> Some ` D" using o(1) by auto
    then obtain e where "\<kappa> q = Some e" using o(3) by auto
    then show "?f q = ?g q" using \<sigma>(2) [of q e] q(1,2) by (auto simp: \<kappa>')
  qed
  have fg: "?f None = L b" "?g (Some k) = L b" "?g None = []" using c(1) b \<sigma>(1) \<sigma>(2) [OF b] by (simp_all add: \<kappa>')
  have "concat (map ?f (?A @ [None])) = concat (map ?g (?A @ [Some k, None]))"
    unfolding map_append list.map(2) [of _ None] list.map(2) [of _ "Some k"] list.map(1) concat_append concat.simps A fg by simp
  then show "kids_order L (D - {k}) \<kappa>' = substs \<sigma> (kids_order L D \<kappa>)"
    unfolding kids_order_def kid_list_def n n' substs_concat map_map comp_def .
qed

end
