(* ===== verification/Tree_Links.thy ===== *)
theory Tree_Links
  imports Tree_Kids
begin

text \<open>
  The links between the leaves: how splitting and removing leaves changes the list of leaves, and that
  \<^verbatim>\<open>Scanner::jump\<close> returns and leaves the list alone.
\<close>

section \<open>Linking a new leaf behind another\<close>

definition unlinked :: "'a nodes \<Rightarrow> addr \<Rightarrow> bool" where
  "unlinked ns e \<longleftrightarrow> (\<forall>b<length ns. fst (link_at ns b) \<noteq> Some e)"

abbreviation behind :: "addr \<Rightarrow> addr \<Rightarrow> addr \<Rightarrow> addr list" where
  "behind self entry l \<equiv> (if l = self then [self, entry] else [l])"

lemma push_back_links:
  assumes ok: "heap_ok ns" and self: "self < length ns" "live ns self"
    and entry: "entry < length ns" "entry \<noteq> self" "live ns entry" "unlinked ns entry"
  obtains r ns' where "push_back ns self entry mark = Some (r, ns')" "heap_ok ns'" "length ns' = length ns"
    "\<And>b. instance_of (ns' ! b) = instance_of (ns ! b)" "\<And>b. b < length ns \<Longrightarrow> live ns' b = live ns b"
    "\<And>p xs. denotes ns p xs \<Longrightarrow> p \<noteq> Some entry \<Longrightarrow> denotes ns' p (substs (behind self entry) xs)"
    "\<And>e. e \<noteq> entry \<Longrightarrow> unlinked ns e \<Longrightarrow> unlinked ns' e"
proof -
  let ?l = "link_at ns self" and ?t = "if mark then First else TagNone"
  let ?n1 = "set_link ns entry (fst ?l, TagNone)"
  let ?ns = "set_link ?n1 self (Some entry, ?t)"
  have tag: "snd ?l \<noteq> Second" "snd ?l \<noteq> Both" using self ok by (auto simp: live_def is_deleted_def)
  have l1: "link_at ?n1 self = ?l" using entry by (simp add: link_at_set_link)
  have run: "push_back ns self entry mark = Some (Inr (Some entry, ?t), ?ns)"
    unfolding push_back_def by (subst push_back_loop.simps) (use tag l1 in \<open>simp add: cas_link_ok Let_def\<close>)
  have lk: "link_at ?ns b = (if b = self then (Some entry, ?t) else if b = entry then (fst ?l, TagNone) else link_at ns b)" for b
    using self(1) entry(1) by (simp add: link_at_set_link)
  have lv: "live ?ns b = live ns b" if "b < length ns" for b
    using that self(2) entry(3) tag by (auto simp: live_def is_deleted_def lk)
  have ne: "fst (link_at ns b) \<noteq> Some entry" if "b < length ns" for b using entry(4) that by (auto simp: unlinked_def)
  have ch: "chain ?ns p (substs (behind self entry) as)" if "chain ns p as" "p \<noteq> Some entry" for p as
    using that
  proof (induction as arbitrary: p)
    case (Cons a as)
    then have a: "p = Some a" "a < length ns" "chain ns (fst (link_at ns a)) as" by auto
    have ih: "chain ?ns (fst (link_at ns a)) (substs (behind self entry) as)" using Cons.IH [OF a(3) ne [OF a(2)]] .
    show ?case
    proof (cases "a = self")
      case True
      then show ?thesis using a ih entry(1,2) by (auto simp: lk)
    next
      case False
      then show ?thesis using a ih Cons.prems(2) by (auto simp: lk)
    qed
  qed simp
  have ok': "heap_ok ?ns"
    unfolding heap_ok_def length_set_link
  proof (intro allI impI conjI)
    fix b assume b: "b < length ns"
    show "snd (link_at ?ns b) \<noteq> Both" using heap_okD(1) [OF ok b] by (auto simp: lk)
    show "live ?ns b \<Longrightarrow> instance_of (?ns ! b) \<noteq> None" using heap_okD(3) [OF ok b] lv [OF b] by simp
    obtain as where as: "chain ns (fst ?l) as" using heap_okD(2) [OF ok self(1)] by blast
    have c: "chain ?ns (fst ?l) (substs (behind self entry) as)" using ch [OF as ne [OF self(1)]] .
    show "\<exists>as. chain ?ns (fst (link_at ?ns b)) as"
    proof (cases "b = self")
      case True
      then have "chain ?ns (fst (link_at ?ns b)) (entry # substs (behind self entry) as)" using c entry(1,2) by (simp add: lk)
      then show ?thesis by blast
    next
      case False
      show ?thesis
      proof (cases "b = entry")
        case True
        then show ?thesis using c False by (auto simp: lk)
      next
        case ne': False
        obtain bs where "chain ns (fst (link_at ns b)) bs" using heap_okD(2) [OF ok b] by blast
        from ch [OF this ne [OF b]] show ?thesis using False ne' by (auto simp: lk)
      qed
    qed
  qed
  have fl: "filter (live ?ns) (substs (behind self entry) as) = substs (behind self entry) (filter (live ns) as)"
    if "\<forall>a\<in>set as. a < length ns" for as
    using that self entry by (induction as) (auto simp: lv)
  have dn: "denotes ?ns p (substs (behind self entry) xs)" if d: "denotes ns p xs" "p \<noteq> Some entry" for p xs
  proof -
    obtain as where as: "chain ns p as" "xs = filter (live ns) as" using d(1) by (auto simp: denotes_def)
    have "\<forall>a\<in>set as. a < length ns" using chain_bounds [OF as(1)] by blast
    from fl [OF this] show ?thesis using ch [OF as(1) d(2)] as(2) by (auto simp: denotes_def)
  qed
  have ul: "unlinked ?ns e" if "e \<noteq> entry" "unlinked ns e" for e
    using that ne self(1) by (auto simp: unlinked_def lk)
  show thesis by (rule that [OF run ok' _ _ lv dn ul]) simp_all
qed

lemma delete_links:
  assumes ok: "heap_ok ns" and a: "a < length ns"
  defines "ns' \<equiv> snd (delete_self ns a)"
  shows "heap_ok ns'" "length ns' = length ns" "instance_of (ns' ! b) = instance_of (ns ! b)"
    "b \<noteq> a \<Longrightarrow> live ns' b = live ns b" "\<not> live ns' a"
    "denotes ns p xs \<Longrightarrow> denotes ns' p (filter (\<lambda>b. b \<noteq> a) xs)" "unlinked ns e \<Longrightarrow> unlinked ns' e"
proof -
  have eq: "ns' = (if live ns a then set_link ns a (fst (link_at ns a), Second) else ns)"
  proof (cases "live ns a")
    case True
    then have "snd (link_at ns a) = TagNone \<or> snd (link_at ns a) = First"
      by (cases "snd (link_at ns a)") (simp_all add: live_def is_deleted_def)
    then show ?thesis using True by (simp add: ns'_def delete_self_def update_tag_if_simp)
  qed (simp add: ns'_def live_def delete_self_deleted)
  show "length ns' = length ns" "instance_of (ns' ! b) = instance_of (ns ! b)" by (simp_all add: eq)
  show "b \<noteq> a \<Longrightarrow> live ns' b = live ns b" "\<not> live ns' a" using a by (auto simp: eq set_tag_live)
  show "unlinked ns e \<Longrightarrow> unlinked ns' e" using a by (auto simp: unlinked_def eq link_at_set_link)
  have *: "heap_ok ns' \<and> (\<forall>p xs. denotes ns p xs \<longrightarrow> denotes ns' p (filter (\<lambda>b. b \<noteq> a) xs))"
  proof (cases "live ns a")
    case True
    from delete_self_ok [OF ok a True] show ?thesis by (auto simp: ns'_def)
  next
    case False
    have "filter (\<lambda>b. b \<noteq> a) xs = xs" if "denotes ns p xs" for p xs
      using denotes_live [OF that] False by (metis (mono_tags, lifting) filter_True)
    then show ?thesis using ok False by (auto simp: eq)
  qed
  then show "heap_ok ns'" "denotes ns p xs \<Longrightarrow> denotes ns' p (filter (\<lambda>b. b \<noteq> a) xs)" by blast+
qed

lemma new_entry_links:
  fixes v :: 'a
  assumes "heap_ok ns"
  defines "ns' \<equiv> ns @ [entry_new v]"
  shows "heap_ok ns'" "denotes ns p xs \<Longrightarrow> denotes ns' p xs" "live ns' (length ns)" "unlinked ns' (length ns)"
    "b < length ns \<Longrightarrow> live ns' b = live ns b" "e < length ns \<Longrightarrow> unlinked ns e \<Longrightarrow> unlinked ns' e"
proof -
  have new: "link_at ns' (length ns) = (None, TagNone)" by (simp add: ns'_def link_at_def entry_new_def)
  have lk: "link_at ns' b = link_at ns b" if "b < length ns" for b using that by (simp add: ns'_def link_at_append)
  show lv: "live ns' (length ns)" "b < length ns \<Longrightarrow> live ns' b = live ns b" for b
    by (simp_all add: live_def is_deleted_def new lk)
  have bound: "fst (link_at ns b) = Some c \<Longrightarrow> c < length ns" if "b < length ns" for b c
    using heap_okD(2) [OF assms(1) that] by (auto simp: chain_Some)
  show "heap_ok ns'"
    unfolding heap_ok_def
  proof (intro allI impI conjI)
    fix b assume "b < length ns'"
    then have b: "b < length ns \<or> b = length ns" by (auto simp: ns'_def)
    show "snd (link_at ns' b) \<noteq> Both" using b heap_okD(1) [OF assms(1)] new lk by auto
    show "live ns' b \<Longrightarrow> instance_of (ns' ! b) \<noteq> None"
      using b heap_okD(3) [OF assms(1)] lv(2) [of b] by (auto simp: ns'_def nth_append entry_new_def)
    show "\<exists>as. chain ns' (fst (link_at ns' b)) as"
    proof (cases "b = length ns")
      case False
      then have bl: "b < length ns" using b by simp
      obtain as where "chain ns (fst (link_at ns b)) as" using heap_okD(2) [OF assms(1) bl] by blast
      from chain_extend [OF this, of "[entry_new v]"] show ?thesis using lk [OF bl] by (auto simp: ns'_def)
    qed (simp add: new)
  qed
  show "denotes ns p xs \<Longrightarrow> denotes ns' p xs"
  proof -
    assume "denotes ns p xs"
    then obtain as where as: "chain ns p as" "xs = filter (live ns) as" by (auto simp: denotes_def)
    have "filter (live ns') as = filter (live ns) as"
      by (rule filter_live_cong) (use chain_bounds [OF as(1)] lv(2) in blast)
    then show ?thesis using chain_extend [OF as(1)] as(2) by (auto simp: denotes_def ns'_def)
  qed
  show "unlinked ns' (length ns)" using bound new lk by (fastforce simp: unlinked_def ns'_def less_Suc_eq)
  show "e < length ns \<Longrightarrow> unlinked ns e \<Longrightarrow> unlinked ns' e" using new lk by (auto simp: unlinked_def ns'_def less_Suc_eq)
qed

section \<open>Jumping\<close>

definition jump_start :: "'k::linorder option \<Rightarrow> bool \<Rightarrow> ('k, 'v) leaf \<Rightarrow> scanner option" where
  "jump_start min_allowed_key clear l =
     (let first = (case scanner_next l (scanner_new l) of (Some _, sc) \<Rightarrow> Some sc | (None, _) \<Rightarrow> None)
      in case min_allowed_key of
           Some key \<Rightarrow> if \<not> clear then scan_beyond (NUM_ENTRIES + 1) key l (scanner_new l) else first
         | None \<Rightarrow> first)"

definition first_start :: "'k::linorder option \<Rightarrow> bool \<Rightarrow> ('k, 'v) tree \<Rightarrow> addr list \<Rightarrow> (addr \<times> scanner) option" where
  "first_start min_allowed_key clear s xs =
     (case dropWhile (\<lambda>l. jump_start min_allowed_key clear (leaf_at s l) = None) xs of
        [] \<Rightarrow> None
      | l # _ \<Rightarrow> map_option (Pair l) (jump_start min_allowed_key clear (leaf_at s l)))"

lemma first_start_cong:
  "(\<And>y. y \<in> set xs \<Longrightarrow> leaf_at s' y = leaf_at s y) \<Longrightarrow> first_start mk c s' xs = first_start mk c s xs"
  by (induction xs) (auto simp: first_start_def)

definition same_links :: "('k, 'v) tree \<Rightarrow> ('k, 'v) tree \<Rightarrow> bool" where
  "same_links s s' \<longleftrightarrow> tree_nodes s' = tree_nodes s \<and> same_lists (leaves s) (leaves s') \<and> heap_ok (leaves s')"

lemma same_links_leaf: "same_links s s' \<Longrightarrow> l < length (leaves s) \<Longrightarrow> leaf_at s' l = leaf_at s l"
  by (simp add: same_links_def same_lists_def leaf_at_def)

lemma same_links_length: "same_links s s' \<Longrightarrow> length (leaves s') = length (leaves s)"
  by (simp add: same_links_def same_lists_def)

lemma same_links_trans: "same_links s s' \<Longrightarrow> same_links s' s'' \<Longrightarrow> same_links s s''"
  using same_lists_trans by (auto simp: same_links_def)

lemma same_links_refl: "heap_ok (leaves s) \<Longrightarrow> same_links s s"
  by (simp add: same_links_def)

lemma jump_loop_ok:
  assumes "heap_ok (leaves s)" "denotes (leaves s) (head xs) xs" "self < length (leaves s)"
  shows "\<exists>s'. jump_loop mk self (head xs, t) s = Some (first_start mk (is_clear (leaves s) self) s xs, s') \<and> same_links s s'"
  using assms
proof (induction xs arbitrary: s t)
  case Nil
  then show ?case by (subst jump_loop.simps) (simp add: first_start_def same_links_refl)
next
  case (Cons l xs)
  let ?c = "is_clear (leaves s) self"
  have l: "l < length (leaves s)" "live (leaves s) l" "denotes (leaves s) (fst (link_at (leaves s) l)) xs"
  proof -
    show ll: "l < length (leaves s)" "live (leaves s) l" using denotes_live [OF Cons.prems(2), of l] by auto
    show "denotes (leaves s) (fst (link_at (leaves s) l)) xs" using Cons.prems(2) ll by (auto simp: denotes_Some)
  qed
  have st: "(let l' = leaf_at s l in case mk of
        Some key \<Rightarrow> if \<not> ?c then scan_beyond (NUM_ENTRIES + 1) key l' (scanner_new l')
                    else (case scanner_next l' (scanner_new l') of (Some _, sc) \<Rightarrow> Some sc | (None, _) \<Rightarrow> None)
      | None \<Rightarrow> (case scanner_next l' (scanner_new l') of (Some _, sc) \<Rightarrow> Some sc | (None, _) \<Rightarrow> None)) = jump_start mk ?c (leaf_at s l)"
    by (simp add: jump_start_def Let_def)
  show ?case
  proof (cases "jump_start mk ?c (leaf_at s l)")
    case (Some sc)
    then show ?thesis
      using st [unfolded Let_def] same_links_refl [OF Cons.prems(1)]
      by (subst jump_loop.simps) (simp add: first_start_def Let_def)
  next
    case None
    obtain u ns' where n: "next_ptr (leaves s) l = Some ((head xs, u), ns')" "heap_ok ns'" "same_lists (leaves s) ns'"
      using next_ptr_denotes [OF Cons.prems(1) l(1,3)] by blast
    let ?s = "s\<lparr>leaves := ns'\<rparr>"
    have d: "denotes ns' (head xs) xs" using same_lists_denotes [OF n(3) denotes_head [OF l(3)]] .
    have sl: "same_links s ?s" using n by (simp add: same_links_def)
    have cl: "is_clear ns' self = ?c" using n(3) Cons.prems(3) by (simp add: is_clear_def same_lists_def)
    have la: "leaf_at ?s y = leaf_at s y" if "y \<in> set xs" for y
      using same_links_leaf [OF sl] denotes_live [OF l(3) that] by blast
    have fs: "first_start mk ?c ?s xs = first_start mk ?c s xs" by (rule first_start_cong) (rule la)
    obtain s' where s': "jump_loop mk self (head xs, u) ?s = Some (first_start mk ?c ?s xs, s')" "same_links ?s s'"
      using Cons.IH [of ?s u] n(2) d Cons.prems(3) cl same_links_length [OF sl] by auto
    have "jump_loop mk self (head (l # xs), t) s = Some (first_start mk ?c s xs, s')"
      using st [unfolded Let_def] None n(1) s'(1) fs by (subst jump_loop.simps) (simp add: Let_def)
    moreover have "first_start mk ?c s (l # xs) = first_start mk ?c s xs" using None by (simp add: first_start_def)
    ultimately show ?thesis using same_links_trans [OF sl s'(2)] by simp
  qed
qed

lemma jump_ok:
  assumes ok: "heap_ok (leaves s)" and self: "self < length (leaves s)" "denotes (leaves s) (fst (link_at (leaves s) self)) xs"
  shows "\<exists>s'. jump mk self s = Some (first_start mk (is_clear (leaves s) self) s xs, s') \<and> same_links s s'"
proof -
  obtain u ns' where n: "next_ptr (leaves s) self = Some ((head xs, u), ns')" "heap_ok ns'" "same_lists (leaves s) ns'"
    using next_ptr_denotes [OF ok self] by blast
  let ?s = "s\<lparr>leaves := ns'\<rparr>"
  have d: "denotes ns' (head xs) xs" using same_lists_denotes [OF n(3) denotes_head [OF self(2)]] .
  have sl: "same_links s ?s" using n by (simp add: same_links_def)
  have cl: "is_clear ns' self = is_clear (leaves s) self" using n(3) self(1) by (simp add: is_clear_def same_lists_def)
  have la: "leaf_at ?s y = leaf_at s y" if "y \<in> set xs" for y
    using same_links_leaf [OF sl] denotes_live [OF self(2) that] by blast
  have fs: "first_start mk c ?s xs = first_start mk c s xs" for c by (rule first_start_cong) (rule la)
  obtain s' where s': "jump_loop mk self (head xs, u) ?s = Some (first_start mk (is_clear ns' self) ?s xs, s')" "same_links ?s s'"
    using jump_loop_ok [of ?s xs self mk u] n(2) d self(1) same_links_length [OF sl] by auto
  then show ?thesis using n(1) fs cl same_links_trans [OF sl s'(2)] by (simp add: jump_def)
qed

lemma jump_returns:
  assumes "heap_ok (leaves s)" "self < length (leaves s)"
  obtains r s' where "jump mk self s = Some (r, s')" "same_links s s'" "\<And>c sc. r = Some (c, sc) \<Longrightarrow> c < length (leaves s')"
proof -
  obtain as where "chain (leaves s) (fst (link_at (leaves s) self)) as" using heap_okD(2) [OF assms] by blast
  then have d: "denotes (leaves s) (fst (link_at (leaves s) self)) (filter (live (leaves s)) as)" by (auto simp: denotes_def)
  let ?xs = "filter (live (leaves s)) as"
  obtain s' where s': "jump mk self s = Some (first_start mk (is_clear (leaves s) self) s ?xs, s')" "same_links s s'"
    using jump_ok [OF assms d] by blast
  have "c < length (leaves s')" if "first_start mk k s ?xs = Some (c, sc)" for c sc k
  proof -
    have "c \<in> set (dropWhile (\<lambda>l. jump_start mk k (leaf_at s l) = None) ?xs)"
      using that by (auto simp: first_start_def split: list.splits)
    then have "c \<in> set ?xs" using set_dropWhileD by fast
    then show ?thesis using denotes_live [OF d, of c] same_links_length [OF s'(2)] by simp
  qed
  then show ?thesis using that s' by blast
qed

end
