(* ===== verification/Tree_Moves.thy ===== *)
theory Tree_Moves
  imports Tree_Links
begin

text \<open>
  Steps of the operations and what they leave alone: writing a leaf or a node, allocating, linking and
  unlinking leaves.
\<close>

section \<open>Steps\<close>

text \<open>A step changes only \<open>X\<close> and new leaves and nodes, and replaces the leaves in every list of leaves by \<open>\<sigma>\<close>.\<close>

definition moves :: "(addr \<Rightarrow> addr list) \<Rightarrow> (addr + addr) set \<Rightarrow> ('k, 'v) tree \<Rightarrow> ('k, 'v) tree \<Rightarrow> bool" where
  "moves \<sigma> X s s' \<longleftrightarrow> keeps X s s' \<and> heap_ok (leaves s') \<and> local_subst s \<sigma> X \<and>
     (\<forall>p xs. denotes (leaves s) p xs \<longrightarrow> denotes (leaves s') p (substs \<sigma> xs))"

abbreviation (input) stay :: "addr \<Rightarrow> addr list" where
  "stay \<equiv> \<lambda>l. [l]"

lemma substs_stay [simp]: "substs stay xs = xs"
  by (rule substs_id) simp

lemma movesD:
  assumes "moves \<sigma> X s s'"
  shows "keeps X s s'" "heap_ok (leaves s')" "local_subst s \<sigma> X" "denotes (leaves s) p xs \<Longrightarrow> denotes (leaves s') p (substs \<sigma> xs)"
  using assms by (auto simp: moves_def)

lemma moves_trans:
  assumes "moves \<sigma> X s s'" "moves \<tau> Y s' s''" "X \<subseteq> Z" "Y \<subseteq> Z \<union> - old s"
  shows "moves (\<lambda>l. substs \<tau> (\<sigma> l)) Z s s''"
proof -
  note m = movesD [OF assms(1)] and n = movesD [OF assms(2)]
  have "local_subst s (\<lambda>l. substs \<tau> (\<sigma> l)) Z"
    unfolding local_subst_def
  proof (intro allI impI)
    fix l assume l: "Inl l \<in> old s - Z"
    then have "\<sigma> l = [l]" using m(3) assms(3) by (auto simp: local_subst_def)
    moreover have "\<tau> l = [l]" using n(3) l assms(4) keeps_old [OF m(1)] by (auto simp: local_subst_def)
    ultimately show "substs \<tau> (\<sigma> l) = [l]" by simp
  qed
  moreover have "substs (\<lambda>l. substs \<tau> (\<sigma> l)) xs = substs \<tau> (substs \<sigma> xs)" for xs by (induction xs) auto
  ultimately show ?thesis
    using keeps_trans [OF m(1) n(1) assms(3,4)] n(2) m(4) n(4) unfolding moves_def by metis
qed

lemma moves_mono: "moves \<sigma> X s s' \<Longrightarrow> X \<inter> old s \<subseteq> Y \<Longrightarrow> moves \<sigma> Y s s'"
  using keeps_mono [of X s s' Y] by (auto simp: moves_def local_subst_def)

lemma moves_stay_trans:
  "moves stay X s s' \<Longrightarrow> moves stay Y s' s'' \<Longrightarrow> X \<subseteq> Z \<Longrightarrow> Y \<subseteq> Z \<union> - old s \<Longrightarrow> moves stay Z s s''"
  using moves_trans [of stay X s s' stay Y s'' Z] by simp

lemma moves_refl: "heap_ok (leaves s) \<Longrightarrow> moves stay X s s"
  by (simp add: moves_def local_subst_def)

section \<open>Writing and allocating\<close>

lemma put_leaf_simps [simp]:
  "tree_nodes (put_leaf s l x) = tree_nodes s" "length (leaves (put_leaf s l x)) = length (leaves s)"
  "leaf_at (put_leaf s l x) b = (if b = l \<and> l < length (leaves s) then x else leaf_at s b)"
  "old (put_leaf s l x) = old s" "lnode (put_leaf s l x) = lnode s" "inode (put_leaf s l x) = inode s"
  "is_internal (put_leaf s l x) = is_internal s" "tchildren (put_leaf s l x) = tchildren s" "tunbounded (put_leaf s l x) = tunbounded s"
  "live (leaves (put_leaf s l x)) = live (leaves s)" "unlinked (leaves (put_leaf s l x)) = unlinked (leaves s)"
proof -
  show n: "tree_nodes (put_leaf s l x) = tree_nodes s" and len: "length (leaves (put_leaf s l x)) = length (leaves s)"
    by (simp_all add: put_leaf_def)
  show "old (put_leaf s l x) = old s" using n len by (simp add: old_def)
  show "lnode (put_leaf s l x) = lnode s" "inode (put_leaf s l x) = inode s" "is_internal (put_leaf s l x) = is_internal s"
    "tchildren (put_leaf s l x) = tchildren s" "tunbounded (put_leaf s l x) = tunbounded s"
    using n by (simp_all add: lnode_def inode_def is_internal_def tchildren_def tunbounded_def fun_eq_iff)
  show "live (leaves (put_leaf s l x)) = live (leaves s)" by (simp add: put_leaf_def)
  show "unlinked (leaves (put_leaf s l x)) = unlinked (leaves s)" by (simp add: put_leaf_def unlinked_def fun_eq_iff)
  show "leaf_at (put_leaf s l x) b = (if b = l \<and> l < length (leaves s) then x else leaf_at s b)"
    by (cases "l < length (leaves s)") (simp_all add: put_leaf_def leaf_at_def set_instance_def nth_list_update list_update_beyond)
qed

lemma put_leaf_moves: "heap_ok (leaves s) \<Longrightarrow> l < length (leaves s) \<Longrightarrow> moves stay {Inl l} s (put_leaf s l x)"
  by (auto simp: moves_def keeps_def local_subst_def) (simp_all add: put_leaf_def set_instance_ok)

lemma put_node_simps [simp]:
  "leaves (put_node s a n) = leaves s" "length (tree_nodes (put_node s a n)) = length (tree_nodes s)"
  "tree_nodes (put_node s a n) ! b = (if b = a \<and> a < length (tree_nodes s) then n else tree_nodes s ! b)"
  "leaf_at (put_node s a n) = leaf_at s" "old (put_node s a n) = old s"
  by (auto simp: put_node_def leaf_at_def old_def nth_list_update fun_eq_iff list_update_beyond)

lemma put_node_moves: "heap_ok (leaves s) \<Longrightarrow> moves stay {Inr a} s (put_node s a n)"
  by (auto simp: moves_def keeps_def local_subst_def)

lemma put_lnode_simps [simp]:
  "leaves (put_lnode s a n) = leaves s" "length (tree_nodes (put_lnode s a n)) = length (tree_nodes s)"
  "tree_nodes (put_lnode s a n) ! b = (if b = a \<and> a < length (tree_nodes s) then Leaf_Node n else tree_nodes s ! b)"
  "leaf_at (put_lnode s a n) = leaf_at s" "old (put_lnode s a n) = old s"
  "lnode (put_lnode s a n) b = (if b = a \<and> a < length (tree_nodes s) then n else lnode s b)"
  by (simp_all add: put_lnode_def lnode_def)

lemma put_inode_simps [simp]:
  "leaves (put_inode s a n) = leaves s" "length (tree_nodes (put_inode s a n)) = length (tree_nodes s)"
  "tree_nodes (put_inode s a n) ! b = (if b = a \<and> a < length (tree_nodes s) then Internal n else tree_nodes s ! b)"
  "leaf_at (put_inode s a n) = leaf_at s" "old (put_inode s a n) = old s"
  "inode (put_inode s a n) b = (if b = a \<and> a < length (tree_nodes s) then n else inode s b)"
  by (simp_all add: put_inode_def inode_def)

lemma put_lnode_moves: "heap_ok (leaves s) \<Longrightarrow> moves stay {Inr a} s (put_lnode s a n)"
  by (simp add: put_lnode_def put_node_moves)

lemma put_inode_moves: "heap_ok (leaves s) \<Longrightarrow> moves stay {Inr a} s (put_inode s a n)"
  by (simp add: put_inode_def put_node_moves)

lemma put_lnode_views:
  assumes "a < length (tree_nodes s)"
  shows "tchildren (put_lnode s a n) b = (if b = a then children n else tchildren s b)"
    "tunbounded (put_lnode s a n) b = (if b = a then unbounded_child n else tunbounded s b)"
    "is_internal (put_lnode s a n) b = (if b = a then False else is_internal s b)"
    "inode (put_lnode s a n) b = (if b = a then internal_node_new else inode s b)"
  using assms by (simp_all add: tchildren_def tunbounded_def is_internal_def inode_def)

lemma put_inode_views:
  assumes "a < length (tree_nodes s)"
  shows "tchildren (put_inode s a n) b = (if b = a then children n else tchildren s b)"
    "tunbounded (put_inode s a n) b = (if b = a then unbounded_child n else tunbounded s b)"
    "is_internal (put_inode s a n) b = (if b = a then True else is_internal s b)"
    "lnode (put_inode s a n) b = (if b = a then leaf_node_new else lnode s b)"
  using assms by (simp_all add: tchildren_def tunbounded_def is_internal_def lnode_def)

lemma lnode_views: "\<not> is_internal s a \<Longrightarrow> tchildren s a = children (lnode s a) \<and> tunbounded s a = unbounded_child (lnode s a) \<and> tree_nodes s ! a = Leaf_Node (lnode s a)"
  by (auto simp: tchildren_def tunbounded_def lnode_def is_internal_def split: tnode.splits)

lemma inode_views: "is_internal s a \<Longrightarrow> tchildren s a = children (inode s a) \<and> tunbounded s a = unbounded_child (inode s a) \<and> tree_nodes s ! a = Internal (inode s a)"
  by (auto simp: tchildren_def tunbounded_def inode_def is_internal_def split: tnode.splits)

lemma new_leaf_moves:
  assumes "heap_ok (leaves s)" "new_leaf s x = (l, s')"
  shows "moves stay {} s s'" "l = length (leaves s)" "tree_nodes s' = tree_nodes s" "length (leaves s') = Suc (length (leaves s))"
    "b \<le> length (leaves s) \<Longrightarrow> leaf_at s' b = (if b = l then x else leaf_at s b)" "live (leaves s') l" "unlinked (leaves s') l"
    "e < length (leaves s) \<Longrightarrow> unlinked (leaves s) e \<Longrightarrow> unlinked (leaves s') e"
    "b < length (leaves s) \<Longrightarrow> live (leaves s') b = live (leaves s) b"
proof -
  have e: "l = length (leaves s)" "s' = s\<lparr>leaves := leaves s @ [entry_new x]\<rparr>" using assms(2) by (auto simp: new_leaf_def)
  note n = new_entry_links [OF assms(1), where v = x]
  show "l = length (leaves s)" "tree_nodes s' = tree_nodes s" "length (leaves s') = Suc (length (leaves s))" by (simp_all add: e)
  show "b \<le> length (leaves s) \<Longrightarrow> leaf_at s' b = (if b = l then x else leaf_at s b)"
    by (auto simp: e leaf_at_def nth_append entry_new_def)
  show "live (leaves s') l" "unlinked (leaves s') l" "e < length (leaves s) \<Longrightarrow> unlinked (leaves s) e \<Longrightarrow> unlinked (leaves s') e"
    "b < length (leaves s) \<Longrightarrow> live (leaves s') b = live (leaves s) b" for e b
    using n by (simp_all add: e)
  show "moves stay {} s s'"
    using n by (auto simp: moves_def keeps_def local_subst_def old_def e leaf_at_def nth_append)
qed

lemma new_node_moves:
  assumes "heap_ok (leaves s)" "new_node s n = (a, s')"
  shows "moves stay {} s s'" "a = length (tree_nodes s)" "leaves s' = leaves s" "length (tree_nodes s') = Suc (length (tree_nodes s))"
    "b \<le> length (tree_nodes s) \<Longrightarrow> tree_nodes s' ! b = (if b = a then n else tree_nodes s ! b)"
proof -
  have e: "a = length (tree_nodes s)" "s' = s\<lparr>tree_nodes := tree_nodes s @ [n]\<rparr>" using assms(2) by (auto simp: new_node_def)
  show "a = length (tree_nodes s)" "leaves s' = leaves s" "length (tree_nodes s') = Suc (length (tree_nodes s))" by (simp_all add: e)
  show "b \<le> length (tree_nodes s) \<Longrightarrow> tree_nodes s' ! b = (if b = a then n else tree_nodes s ! b)" by (auto simp: e nth_append)
  show "moves stay {} s s'" using assms(1) by (auto simp: moves_def keeps_def local_subst_def old_def e leaf_at_def nth_append)
qed

section \<open>Links\<close>

lemma leaf_push_back_moves:
  assumes "heap_ok (leaves s)" "t < length (leaves s)" "live (leaves s) t" "e < length (leaves s)" "e \<noteq> t" "live (leaves s) e"
    "unlinked (leaves s) e"
  obtains s' where "leaf_push_back s t e = Some s'" "tree_nodes s' = tree_nodes s" "length (leaves s') = length (leaves s)"
    "leaf_at s' = leaf_at s" "heap_ok (leaves s')" "\<And>b. b < length (leaves s) \<Longrightarrow> live (leaves s') b = live (leaves s) b"
    "\<And>p xs. denotes (leaves s) p xs \<Longrightarrow> p \<noteq> Some e \<Longrightarrow> denotes (leaves s') p (substs (behind t e) xs)"
    "\<And>b. b \<noteq> e \<Longrightarrow> unlinked (leaves s) b \<Longrightarrow> unlinked (leaves s') b"
proof -
  obtain r ns' where p: "push_back (leaves s) t e True = Some (r, ns')" "heap_ok ns'" "length ns' = length (leaves s)"
    "\<And>b. instance_of (ns' ! b) = instance_of (leaves s ! b)" "\<And>b. b < length (leaves s) \<Longrightarrow> live ns' b = live (leaves s) b"
    "\<And>p xs. denotes (leaves s) p xs \<Longrightarrow> p \<noteq> Some e \<Longrightarrow> denotes ns' p (substs (behind t e) xs)"
    "\<And>b. b \<noteq> e \<Longrightarrow> unlinked (leaves s) b \<Longrightarrow> unlinked ns' b"
    using push_back_links [OF assms, of True] by blast
  have run: "leaf_push_back s t e = Some (s\<lparr>leaves := ns'\<rparr>)" using p(1) by (simp add: leaf_push_back_def)
  show thesis by (rule that [OF run]) (use p in \<open>simp_all add: leaf_at_def fun_eq_iff\<close>)
qed

lemma leaf_delete_self_moves:
  assumes "heap_ok (leaves s)" "t < length (leaves s)"
  defines "s' \<equiv> leaf_delete_self s t"
  shows "tree_nodes s' = tree_nodes s" "length (leaves s') = length (leaves s)" "leaf_at s' = leaf_at s"
    "b \<noteq> t \<Longrightarrow> live (leaves s') b = live (leaves s) b" "moves (\<lambda>l. if l = t then [] else [l]) {Inl t} s s'"
    "old s' = old s" "lnode s' = lnode s" "inode s' = inode s" "is_internal s' = is_internal s" "tchildren s' = tchildren s" "tunbounded s' = tunbounded s"
proof -
  note d = delete_links [OF assms(1,2)]
  have f: "substs (\<lambda>l. if l = t then [] else [l]) xs = filter (\<lambda>b. b \<noteq> t) xs" for xs by (induction xs) auto
  show e: "tree_nodes s' = tree_nodes s" "length (leaves s') = length (leaves s)" "leaf_at s' = leaf_at s"
    "b \<noteq> t \<Longrightarrow> live (leaves s') b = live (leaves s) b" for b
    using d by (simp_all add: s'_def leaf_delete_self_def leaf_at_def fun_eq_iff)
  show "moves (\<lambda>l. if l = t then [] else [l]) {Inl t} s s'"
    using d e by (auto simp: moves_def keeps_def local_subst_def f) (simp_all add: s'_def leaf_delete_self_def)
  show "old s' = old s" "lnode s' = lnode s" "inode s' = inode s" "is_internal s' = is_internal s" "tchildren s' = tchildren s" "tunbounded s' = tunbounded s"
    using e by (simp_all add: old_def lnode_def inode_def is_internal_def tchildren_def tunbounded_def fun_eq_iff)
qed

lemma same_links_moves: "same_links s s' \<Longrightarrow> moves stay {} s s'"
proof -
  assume a: "same_links s s'"
  then have l: "same_lists (leaves s) (leaves s')" and t: "tree_nodes s' = tree_nodes s" "heap_ok (leaves s')" by (auto simp: same_links_def)
  have "keeps {} s s'"
    unfolding keeps_def old_def
    using t(1) same_links_leaf [OF a] same_lists_live [OF l] same_links_length [OF a] by auto
  then show ?thesis using t(2) same_lists_denotes [OF l] by (simp add: moves_def local_subst_def)
qed

end
