(* ===== verification/Tree_Lookup.thy ===== *)
theory Tree_Lookup
  imports Tree_Moves
begin

text \<open>
  Lookup in a subtree: the search walks down to the leaf that is responsible for the key.
\<close>

section \<open>One step down\<close>

lemma child_step:
  assumes "sub_ok (Suc d) s I a"
  obtains c where "kid s a (route (nkeys s a) x) = Some c" "sub_ok d s (part I (nkeys s a) (route (nkeys s a) x)) c"
    "min_greater_equal (tchildren s a) x =
       (map_option (\<lambda>k. (k, Some c, TagNone)) (route (nkeys s a) x), leaf_metadata (tchildren s a))"
    "route (nkeys s a) x = None \<longrightarrow> tunbounded s a = (Some c, TagNone)"
proof -
  let ?l = "tchildren s a"
  have co: "cells_ok ?l (tunbounded s a)" using assms by simp
  then have lo: "leaf_ok ?l" by (simp add: cells_ok_def)
  obtain c where c: "kid s a (route (nkeys s a) x) = Some c" using kids_route [OF cells_kid [OF assms]] by blast
  have u: "tunbounded s a = (Some c, TagNone)" if "route (nkeys s a) x = None"
    using c co that by (cases "tunbounded s a") (simp add: kid_def cells_ok_def)
  have "leaf_map ?l k = Some (Some c, TagNone)" if r: "route (nkeys s a) x = Some k" for k
  proof -
    obtain v where v: "leaf_map ?l k = Some v" using r by (auto simp: route_Some_iff)
    then have "snd v = TagNone" using co unfolding cells_ok_def using ranI [of "leaf_map ?l", OF v] by blast
    moreover have "fst v = Some c" using c r v by (simp add: kid_def)
    ultimately show ?thesis using v by (cases v) simp
  qed
  then have "min_greater_equal ?l x = (map_option (\<lambda>k. (k, Some c, TagNone)) (route (nkeys s a) x), leaf_metadata ?l)"
    unfolding min_greater_equal_route [OF lo] by (cases "route (nkeys s a) x") simp_all
  then show thesis using that [OF c kids_okD(4) [OF cells_kid [OF assms] c]] u by blast
qed

lemma sub_map_step: "kid s a (route (nkeys s a) x) = Some c \<Longrightarrow> sub_map (Suc d) s a x = sub_map d s c x"
  by (simp add: kids_map_def)

section \<open>Searching\<close>

lemma leaf_node_search_ok:
  assumes "sub_ok 1 s I a"
  shows "leaf_node_search key a s = Some (sub_map 1 s a key)"
proof -
  have sk: "sub_ok (Suc 0) s I a" using assms by simp
  obtain c where c: "kid s a (route (nkeys s a) key) = Some c"
    "sub_ok 0 s (part I (nkeys s a) (route (nkeys s a) key)) c"
    "min_greater_equal (tchildren s a) key =
       (map_option (\<lambda>k. (k, Some c, TagNone)) (route (nkeys s a) key), leaf_metadata (tchildren s a))"
    "route (nkeys s a) key = None \<longrightarrow> tunbounded s a = (Some c, TagNone)" using child_step [OF sk, of key] .
  have v: "children (lnode s a) = tchildren s a" "unbounded_child (lnode s a) = tunbounded s a"
    using lnode_views [of s a] sk by simp_all
  have "leaf_search (leaf_at s c) key = sub_map 1 s a key"
    using leaf_search_ok [OF leaf_ok_slots, of "leaf_at s c" key] c(2) sub_map_step [OF c(1), of 0] by simp
  then show ?thesis
    using c(3,4) by (cases "route (nkeys s a) key") (simp_all add: leaf_node_search_def v leaf_validate_def)
qed

lemma tnode_search_ok: "sub_ok (Suc d) s I a \<Longrightarrow> tnode_search key a s = Some (sub_map (Suc d) s a key)"
proof (induction d arbitrary: I a)
  case 0
  then have "\<not> is_internal s a" by simp
  then show ?case using leaf_node_search_ok [of s I a key] 0 by (simp add: tnode_search.simps [of key a])
next
  case (Suc d)
  obtain c where c: "kid s a (route (nkeys s a) key) = Some c"
    "sub_ok (Suc d) s (part I (nkeys s a) (route (nkeys s a) key)) c"
    "min_greater_equal (tchildren s a) key =
       (map_option (\<lambda>k. (k, Some c, TagNone)) (route (nkeys s a) key), leaf_metadata (tchildren s a))"
    "route (nkeys s a) key = None \<longrightarrow> tunbounded s a = (Some c, TagNone)" using child_step [OF Suc.prems, of key] .
  have i: "is_internal s a" using Suc.prems by simp
  have v: "children (inode s a) = tchildren s a" "unbounded_child (inode s a) = tunbounded s a"
    using inode_views [OF i] by simp_all
  have "tnode_search key a s = tnode_search key c s"
    using c(3,4) i by (cases "route (nkeys s a) key") (simp_all add: tnode_search.simps [of key a] v leaf_validate_def)
  then show ?case using Suc.IH [OF c(2)] sub_map_step [OF c(1)] by simp
qed

end
