(* ===== verification/Spec2Isabelle.thy ===== *)
theory Spec2Isabelle
  imports Ebr_Shared Ebr_Thms Hash_Table_Reserve Hash_Map Hash_Set Hash_Cache Hash_Index Leaf_Thms Bucket_Lock_Thms Wait_Queue Bag_Iter Queue Tree_Lookup
begin

text \<open>
  A verification development of the crate \<^verbatim>\<open>scc\<close>, scalable concurrent containers for Rust. The sources are
  under \<^verbatim>\<open>src/src\<close>; paths below are relative to that directory.

  \<^bold>\<open>The program.\<close> The crate has three layers.

  \<^item> Reclamation, \<^verbatim>\<open>ebr/\<close>. \<^verbatim>\<open>Shared\<close> is a reference-counted handle to an instance, \<^verbatim>\<open>AtomicShared\<close> a cell
    that holds a tagged one, and \<^verbatim>\<open>Ptr\<close> a tagged pointer that a \<^verbatim>\<open>Guard\<close> protects. An instance whose
    last owner is gone goes to the \<^verbatim>\<open>Collector\<close> of its thread, which frees it when the global epoch
    has advanced often enough.
  \<^item> Building blocks. \<^verbatim>\<open>hash_table.rs\<close> with \<^verbatim>\<open>hash_table/bucket.rs\<close> and \<^verbatim>\<open>hash_table/bucket_array.rs\<close> is the
    table under the hash containers: arrays of buckets, each with a lock whose waiters sit in the queue
    of \<^verbatim>\<open>wait_queue.rs\<close>, and a resize that moves the buckets of the old array bit by bit.
    \<^verbatim>\<open>tree_index/leaf.rs\<close> is the lock-free leaf of the ordered index. \<^verbatim>\<open>linked_list.rs\<close> is the lock-free
    list under the stack and the queue.
  \<^item> Containers: \<^verbatim>\<open>HashMap\<close>, \<^verbatim>\<open>HashSet\<close>, \<^verbatim>\<open>HashIndex\<close> and \<^verbatim>\<open>HashCache\<close> on the table, \<^verbatim>\<open>Stack\<close> and \<^verbatim>\<open>Queue\<close> on
    the list, \<^verbatim>\<open>Bag\<close> on slot arrays that hang in a stack, \<^verbatim>\<open>TreeIndex\<close> on the leaves.

  \<^bold>\<open>How it is modelled.\<close> An operation is a function from the arguments and the state to the result and
  the new state, with the branches of the source. Panics, reads of uninitialised slots and loops
  that exceed their bound are values of a result type, and the theorems exclude them where the code
  excludes them. Machine words are words of their width wherever the code computes with their bits;
  sizes and indices are natural numbers. Where the difficulty is in the interleaving of threads, the
  operations are split at every access to shared memory into the steps of an inductive relation, and
  the theorems hold for every reachable state. Steps are sequentially consistent. The standard
  library functions that the code uses are in \<open>Scc_Prelude\<close>.

  \<^bold>\<open>The theories.\<close>

  \<^descr>[Prelude and interfaces] \<open>Scc_Prelude\<close> has the integer types, the atomic primitives, the bit
    scanning functions and shared lemmas. \<open>Keyed_Store\<close> is the contract of a container that maps keys
    to values and \<open>Sequence_Container\<close> that of a container that hands its values out in an order;
    a client of either sees the answers of a finite map or of a list, for any sequence of calls. They
    are interpreted by the hash table, the stack and the queue.
  \<^descr>[Reclamation] \<open>Ebr_Tag\<close>: tags and pointers as words (\<^verbatim>\<open>ebr/tag.rs\<close>, \<^verbatim>\<open>ebr/ptr.rs\<close>), tagging and untagging
    do not interfere. \<open>Ebr_Shared\<close>: counters, owners and cells (\<^verbatim>\<open>ebr/ref_counted.rs\<close>, \<^verbatim>\<open>ebr/shared.rs\<close>,
    \<^verbatim>\<open>ebr/atomic_shared.rs\<close>) with the steps of any number of owners; counter and owners agree until
    the collector writes its link over the counter, and a dead instance is not revived. \<open>Ebr_Collector\<close>: the collectors, the epoch and the anchor
    (\<^verbatim>\<open>ebr/collector.rs\<close>, \<^verbatim>\<open>ebr/guard.rs\<close>) as a step relation; \<open>Ebr_Garbage\<close> and \<open>Ebr_Safety\<close>: the invariant
    that counts epochs; \<open>Ebr_Thms\<close>: an instance that a thread has reached under its guard is not freed
    as long as announcements are prompt, and a run in which a late announcement breaks that.
  \<^descr>[Bucket and its lock] \<open>Lru_List\<close>: the ring of a cache bucket refines move-to-front. \<open>Bucket\<close>: slots,
    bitmaps, linked buckets and the operations of the thread that holds the lock
    (\<^verbatim>\<open>hash_table/bucket.rs\<close>); \<open>Bucket_Spec\<close>, \<open>Bucket_Iter\<close>, \<open>Bucket_Loops\<close>: the invariant, the bucket as a
    finite map, iteration, and loops that change what they iterate over. \<open>Bucket_Lock\<close> and
    \<open>Bucket_Lock_Steps\<close>: the state word and the callers that lock, wait, are signalled and unlock;
    \<open>Bucket_Lock_Excl\<close>, \<open>Bucket_Lock_Wake\<close>, \<open>Bucket_Lock_Thms\<close>: mutual exclusion and no lost wake-up.
    \<open>Wait_Queue\<close>: the intrusive list at the level of its tagged pointers (\<^verbatim>\<open>wait_queue.rs\<close>).
  \<^descr>[Hash table] \<open>Bucket_Array\<close>: sizes, sampling and the bucket of a hash (\<^verbatim>\<open>hash_table/bucket_array.rs\<close>).
    \<open>Hash_Table\<close>: every operation of the trait \<^verbatim>\<open>HashTable\<close> for one thread, with its resizes and incremental
    rehashes. \<open>Hash_Table_Spec\<close>, \<open>Hash_Table_Ops\<close>, \<open>Hash_Table_All\<close>, \<open>Hash_Table_Thms\<close>,
    \<open>Hash_Table_Reserve\<close>: the invariant, the map of a table, each operation as an operation on maps
    also in the middle of a resize, and the run in which a reservation makes the next call panic.
  \<^descr>[Hash containers] \<open>Hash_Entry\<close> and \<open>Hash_Interface\<close>: the entry types and the visits by closures that
    the containers share. \<open>Hash_Map\<close>, \<open>Hash_Set\<close>, \<open>Hash_Cache\<close>, \<open>Hash_Index\<close>: the methods of the
    containers (\<^verbatim>\<open>hash_map.rs\<close>, \<^verbatim>\<open>hash_set.rs\<close>, \<^verbatim>\<open>hash_cache.rs\<close>, \<^verbatim>\<open>hash_index.rs\<close>) as operations on the map or
    set, with cloning and comparison, eviction, and the iterator of the index.
  \<^descr>[Leaf of the tree index] \<open>Leaf_Meta\<close>: the metadata word. \<open>Leaf\<close>: the operations of
    \<^verbatim>\<open>tree_index/leaf.rs\<close>. \<open>Leaf_Spec\<close>, \<open>Leaf_Insert\<close>, \<open>Leaf_Scan\<close>, \<open>Leaf_Thms\<close>: the leaf as a finite map,
    its searches, scans in key order and splits. \<open>Leaf_Steps\<close>: threads on one leaf, interleaved at every
    access to the metadata; what succeeds takes effect at one instant, what fails was true at one, up to
    one answer of an insertion after a thaw, of which there is a run.
  \<^descr>[Tree index] \<open>Tree_Node\<close>, \<open>Tree_Internal\<close>, \<open>Tree_Index\<close>: leaf nodes, internal nodes and the index
    (\<^verbatim>\<open>tree_index/leaf_node.rs\<close>, \<^verbatim>\<open>tree_index/internal_node.rs\<close>, \<^verbatim>\<open>tree_index/node.rs\<close>, \<^verbatim>\<open>tree_index.rs\<close>) over explicit
    heaps of linked leaves and of nodes. \<open>Tree_Cells\<close>, \<open>Tree_Spec\<close>: the children of a node as a map of
    cells, and the map, the leaves in order and the footprint of a subtree. \<open>Tree_Kids\<close>, \<open>Tree_Links\<close>,
    \<open>Tree_Moves\<close>: changes of the children of a node, of the list of leaves and of the heaps.
    \<open>Tree_Lookup\<close>: searching walks to the leaf that is responsible for the key.
  \<^descr>[Lists, stack, queue, bag] \<open>Linked_List\<close>: entries in an explicit heap, deletion marks and the
    traversal that unlinks deleted entries (\<^verbatim>\<open>linked_list.rs\<close>). \<open>Stack\<close> and \<open>Queue\<close> (\<^verbatim>\<open>stack.rs\<close>,
    \<^verbatim>\<open>queue.rs\<close>): every operation on lists with deleted entries in any place; they refine lists.
    \<open>Bag_Storage\<close>: the slot arrays of \<^verbatim>\<open>bag.rs\<close>; \<open>Bag_Steps\<close>: threads on one array, whose push, pop and rounds of
    \<^verbatim>\<open>pop_all\<close> are atomic and which, once reported empty, stays empty; \<open>Bag\<close> and \<open>Bag_Iter\<close>: the bag as a multiset and its mutable
    iterator.

  \<^bold>\<open>Loops and bounds.\<close> A loop whose recursion is structural is a \<^theory_text>\<open>fun\<close> or a \<^theory_text>\<open>function\<close> with a measure.
  The loops over lists of entries are partial functions whose value \<^term>\<open>None\<close> is a loop that does not
  end, and are proved to return, except for the push of a queue with deleted entries, which is proved
  not to. Fuel is used where the source loops until a state is reached, with \<open>Loop_Fuel\<close> when it runs
  out, which the theorems exclude: two rounds of \<^verbatim>\<open>reserve_entry\<close> (the second follows a resize, which
  leaves an array with room), the number of buckets for the loop that clears the old array, the number
  of entries of a bucket for the loops over its entries, the number of entries of the map for the walk
  of the locked entries, and the number of buckets of both arrays for the iterator of the index.
  Hash tables are assumed to hold fewer than \<open>2 ^ 32\<close> entries (\<open>roomy\<close>), which keeps the counters of
  the buckets from overflowing.

  \<^bold>\<open>What modelling showed.\<close> The theorems describe eight places where the code does not do what it
  promises: \<^verbatim>\<open>reserve\<close> makes a later call panic, a late epoch announcement frees an instance under a
  guard, the iterator of the index is not fused, a cache may evict the entry accessed last, a queue
  whose entries were all deleted through their references makes \<^verbatim>\<open>push\<close> loop forever, \<^verbatim>\<open>clone\<close> of a
  stack revives a deleted newest entry, an insertion into a leaf that is frozen and thawed meanwhile
  answers \<^verbatim>\<open>Duplicate\<close> for an absent key; and a comment of \<^verbatim>\<open>optimal_boundary\<close> describes the opposite score.

  \<^bold>\<open>Not modelled.\<close>
  \<^item> Of the tree index: ranges and \<^verbatim>\<open>remove_range\<close>, \<^verbatim>\<open>Clone\<close>, \<^verbatim>\<open>PartialEq\<close>.
  \<^item> \<^verbatim>\<open>ebr/owned.rs\<close> and \<^verbatim>\<open>ebr/atomic_owned.rs\<close>, the single-owner variants of \<^verbatim>\<open>Shared\<close> and \<^verbatim>\<open>AtomicShared\<close>, which
    no container uses.
  \<^item> The asynchronous methods: their bodies repeat the synchronous ones around an await when a lock is
    taken, and the waiting is part of the bucket lock. The futures themselves are library code.
  \<^item> Interleaved operations on a whole hash table, tree, list, stack or queue: these are modelled as one
    thread runs them; the concurrent models are those of the lock, the leaf, the slot array, the
    reference counts and the collector. Memory orderings weaker than sequential consistency.
  \<^item> \<^verbatim>\<open>Clone\<close> and \<^verbatim>\<open>PartialEq\<close> of \<^verbatim>\<open>HashIndex\<close>; the branch of \<^verbatim>\<open>try_drop_local_collector\<close> for the last collector;
    panics in destructors and in the fold function of \<^verbatim>\<open>Bag::pop_all\<close>; memory layout and allocation, except
    that the address of a link is the first word of the union \<^verbatim>\<open>LinkOrRefCnt\<close>, where the counter is.
  \<^item> User-defined comparison, cloning and destructors of keys and values: \<^verbatim>\<open>PartialEq\<close> and \<^verbatim>\<open>Eq\<close> are equality, \<^verbatim>\<open>Ord\<close> is a
    linear order and \<^verbatim>\<open>Clone\<close> is the identity.
  \<^item> \<^verbatim>\<open>exit_guard.rs\<close>, whose closures are inlined where they run, \<^verbatim>\<open>serde.rs\<close>, formatting, tests and benchmarks.
\<close>

end
